(* ===== verification/Sq_Prelude.thy ===== *)
theory Sq_Prelude
  imports Main "HOL-Library.Word" "HOL-Library.Monad_Syntax"
begin

text \<open>
  Shared vocabulary of the development: the machine integer types of a 64-bit build
  (\<^verbatim>\<open>include/squirrel.h\<close> defines \<open>_SQ64\<close> on 64-bit hosts, so \<open>SQInteger\<close> is a
  64-bit signed integer, \<open>SQUnsignedInteger\<close> and \<open>SQHash\<close> are 64-bit unsigned, and
  \<open>SQFloat\<close> is a 32-bit IEEE float), the collections of simplification rules the
  components share, and generic lemmas on lists, options and words.
\<close>

unbundle bit_operations_syntax

type_synonym i64 = "64 word"
type_synonym u64 = "64 word"
type_synonym u32 = "32 word"
type_synonym byte = "8 word"
type_synonym addr = "64 word"

named_theorems sq_defs \<open>definitions unfolded by the component proofs\<close>
named_theorems sq_mono \<open>facts that an operation leaves a part of the state unchanged\<close>

subsection \<open>Results of code that may raise an error\<close>

text \<open>
  An operation that calls an error function that does not return (the compiler's
  \<open>longjmp\<close>), or that returns an error code after \<open>Raise_Error\<close>, has a sum type as its
  result: \<^const>\<open>Inl\<close> carries the error, \<^const>\<open>Inr\<close> the result. \<open>bindE\<close> sequences two such
  operations.
\<close>

fun bindE :: "'e + 'a \<Rightarrow> ('a \<Rightarrow> 'e + 'b) \<Rightarrow> 'e + 'b" where
  "bindE (Inl e) f = Inl e"
| "bindE (Inr x) f = f x"

lemma bindE_cong [fundef_cong]:
  "m = m' \<Longrightarrow> (\<And>x. m' = Inr x \<Longrightarrow> f x = f' x) \<Longrightarrow> bindE m f = bindE m' f'"
  by (cases m') auto

lemma bindE_Inr_iff: "bindE m f = Inr y \<longleftrightarrow> (\<exists>x. m = Inr x \<and> f x = Inr y)"
  by (cases m) auto

lemma bindE_Inl_iff: "bindE m f = Inl e \<longleftrightarrow> m = Inl e \<or> (\<exists>x. m = Inr x \<and> f x = Inl e)"
  by (cases m) auto

lemma bindE_Inr [simp]: "bindE m Inr = m"
  by (cases m) auto

lemma bindE_assoc: "bindE (bindE m f) g = bindE m (\<lambda>x. bindE (f x) g)"
  by (cases m) auto

subsection \<open>Masks and main positions\<close>

lemma unat_of_nat_le: "unat (of_nat k :: u64) \<le> k"
  by (simp add: unat_of_nat)

lemma unat_and_of_nat_le: "unat ((w :: u64) AND of_nat k) \<le> k"
proof -
  have "w AND of_nat k \<le> (of_nat k :: u64)"
    by (rule word_and_le1)
  then have "unat (w AND of_nat k) \<le> unat (of_nat k :: u64)"
    by (simp add: word_le_nat_alt)
  also have "\<dots> \<le> k"
    by (rule unat_of_nat_le)
  finally show ?thesis .
qed

lemma sint_small: "uint (w :: 64 word) < 2 ^ 63 \<Longrightarrow> sint w = uint w"
  unfolding sint_uint by (rule signed_take_bit_int_eq_self) (simp_all add: order.trans [OF _ uint_ge_0])

subsection \<open>Lists\<close>

lemma filter_update_neutral:
  assumes "i < length xs" "P y = P (xs ! i)"
  shows "length (filter P (xs[i := y])) = length (filter P xs)"
  using assms
proof (induction xs arbitrary: i)
  case Nil
  then show ?case by simp
next
  case (Cons x xs)
  then show ?case by (cases i) auto
qed

lemma filter_update_gain:
  assumes "i < length xs" "P y" "\<not> P (xs ! i)"
  shows "length (filter P (xs[i := y])) = Suc (length (filter P xs))"
  using assms
proof (induction xs arbitrary: i)
  case Nil
  then show ?case by simp
next
  case (Cons x xs)
  then show ?case by (cases i) auto
qed

lemma filter_update_loss:
  assumes "i < length xs" "\<not> P y" "P (xs ! i)"
  shows "Suc (length (filter P (xs[i := y]))) = length (filter P xs)"
  using assms
proof (induction xs arbitrary: i)
  case Nil
  then show ?case by simp
next
  case (Cons x xs)
  then show ?case by (cases i) auto
qed

lemma length_filter_all:
  "(\<forall>i < length xs. P (xs ! i)) \<longleftrightarrow> length (filter P xs) = length xs"
proof
  assume "\<forall>i < length xs. P (xs ! i)"
  then have "filter P xs = xs"
    by (metis filter_id_conv in_set_conv_nth)
  then show "length (filter P xs) = length xs" by simp
next
  assume eq: "length (filter P xs) = length xs"
  have "\<forall>x \<in> set xs. P x"
  proof (rule ccontr)
    assume "\<not> (\<forall>x \<in> set xs. P x)"
    then have "length (filter P xs) < length xs"
      by (auto intro: length_filter_less)
    with eq show False by simp
  qed
  then show "\<forall>i < length xs. P (xs ! i)" by simp
qed

end
