(* ===== verification/Sq_Object.thy ===== *)
theory Sq_Object
  imports Sq_Prelude
begin

text \<open>
  The object model of \<^verbatim>\<open>include/squirrel.h\<close>, \<^verbatim>\<open>sqobject.h\<close>, \<^verbatim>\<open>sqobject.cpp\<close>
  and \<^verbatim>\<open>sqstring.h\<close>: the type tags with their flag bits, the tagged union \<open>SQObject\<close>,
  type names, index translation, and the hash of strings and objects.

  A reference-counted object is its address. A string value carries its contents: strings
  are interned (theory \<open>Sq_Strings\<close> shows that the string table returns the same
  \<open>SQString\<close> exactly for equal contents), so equality of the pointers is equality of the
  contents. A float is its 32-bit representation: the constructors of \<open>SQObjectPtr\<close>
  clear the union before they store a float (\<open>SQ_OBJECT_RAWINIT\<close>), so two floats have
  the same raw value exactly when their bits agree.
\<close>

section \<open>Type tags\<close>

datatype sqtype =
  OT_NULL | OT_INTEGER | OT_FLOAT | OT_BOOL | OT_STRING | OT_TABLE | OT_ARRAY | OT_USERDATA
| OT_CLOSURE | OT_NATIVECLOSURE | OT_GENERATOR | OT_USERPOINTER | OT_THREAD | OT_FUNCPROTO
| OT_CLASS | OT_INSTANCE | OT_WEAKREF | OT_OUTER

definition SQOBJECT_REF_COUNTED :: u32 where "SQOBJECT_REF_COUNTED = 0x08000000"
definition SQOBJECT_NUMERIC :: u32 where "SQOBJECT_NUMERIC = 0x04000000"
definition SQOBJECT_DELEGABLE :: u32 where "SQOBJECT_DELEGABLE = 0x02000000"
definition SQOBJECT_CANBEFALSE :: u32 where "SQOBJECT_CANBEFALSE = 0x01000000"
definition RT_MASK :: u32 where "RT_MASK = 0x00FFFFFF"

fun raw_type :: "sqtype \<Rightarrow> u32" where
  "raw_type OT_NULL = 0x00000001"
| "raw_type OT_INTEGER = 0x00000002"
| "raw_type OT_FLOAT = 0x00000004"
| "raw_type OT_BOOL = 0x00000008"
| "raw_type OT_STRING = 0x00000010"
| "raw_type OT_TABLE = 0x00000020"
| "raw_type OT_ARRAY = 0x00000040"
| "raw_type OT_USERDATA = 0x00000080"
| "raw_type OT_CLOSURE = 0x00000100"
| "raw_type OT_NATIVECLOSURE = 0x00000200"
| "raw_type OT_GENERATOR = 0x00000400"
| "raw_type OT_USERPOINTER = 0x00000800"
| "raw_type OT_THREAD = 0x00001000"
| "raw_type OT_FUNCPROTO = 0x00002000"
| "raw_type OT_CLASS = 0x00004000"
| "raw_type OT_INSTANCE = 0x00008000"
| "raw_type OT_WEAKREF = 0x00010000"
| "raw_type OT_OUTER = 0x00020000"

fun type_code :: "sqtype \<Rightarrow> u32" where
  "type_code OT_NULL = raw_type OT_NULL OR SQOBJECT_CANBEFALSE"
| "type_code OT_INTEGER = raw_type OT_INTEGER OR SQOBJECT_NUMERIC OR SQOBJECT_CANBEFALSE"
| "type_code OT_FLOAT = raw_type OT_FLOAT OR SQOBJECT_NUMERIC OR SQOBJECT_CANBEFALSE"
| "type_code OT_BOOL = raw_type OT_BOOL OR SQOBJECT_CANBEFALSE"
| "type_code OT_STRING = raw_type OT_STRING OR SQOBJECT_REF_COUNTED"
| "type_code OT_TABLE = raw_type OT_TABLE OR SQOBJECT_REF_COUNTED OR SQOBJECT_DELEGABLE"
| "type_code OT_ARRAY = raw_type OT_ARRAY OR SQOBJECT_REF_COUNTED"
| "type_code OT_USERDATA = raw_type OT_USERDATA OR SQOBJECT_REF_COUNTED OR SQOBJECT_DELEGABLE"
| "type_code OT_CLOSURE = raw_type OT_CLOSURE OR SQOBJECT_REF_COUNTED"
| "type_code OT_NATIVECLOSURE = raw_type OT_NATIVECLOSURE OR SQOBJECT_REF_COUNTED"
| "type_code OT_GENERATOR = raw_type OT_GENERATOR OR SQOBJECT_REF_COUNTED"
| "type_code OT_USERPOINTER = raw_type OT_USERPOINTER"
| "type_code OT_THREAD = raw_type OT_THREAD OR SQOBJECT_REF_COUNTED"
| "type_code OT_FUNCPROTO = raw_type OT_FUNCPROTO OR SQOBJECT_REF_COUNTED"
| "type_code OT_CLASS = raw_type OT_CLASS OR SQOBJECT_REF_COUNTED"
| "type_code OT_INSTANCE = raw_type OT_INSTANCE OR SQOBJECT_REF_COUNTED OR SQOBJECT_DELEGABLE"
| "type_code OT_WEAKREF = raw_type OT_WEAKREF OR SQOBJECT_REF_COUNTED"
| "type_code OT_OUTER = raw_type OT_OUTER OR SQOBJECT_REF_COUNTED"

definition ISREFCOUNTED :: "sqtype \<Rightarrow> bool" where
  "ISREFCOUNTED t \<longleftrightarrow> type_code t AND SQOBJECT_REF_COUNTED \<noteq> 0"

definition is_delegable :: "sqtype \<Rightarrow> bool" where
  "is_delegable t \<longleftrightarrow> type_code t AND SQOBJECT_DELEGABLE \<noteq> 0"

definition sq_isnumeric :: "sqtype \<Rightarrow> bool" where
  "sq_isnumeric t \<longleftrightarrow> type_code t AND SQOBJECT_NUMERIC \<noteq> 0"

lemmas flag_defs =
  SQOBJECT_REF_COUNTED_def SQOBJECT_NUMERIC_def SQOBJECT_DELEGABLE_def
  SQOBJECT_CANBEFALSE_def RT_MASK_def

lemma RAW_TYPE_type_code: "type_code t AND RT_MASK = raw_type t"
  by (cases t) (simp_all add: flag_defs)

lemma raw_type_inj: "raw_type s = raw_type t \<longleftrightarrow> s = t"
  by (cases s; cases t; simp)

lemma type_code_inj: "type_code s = type_code t \<longleftrightarrow> s = t"
  by (metis RAW_TYPE_type_code raw_type_inj)

lemma ISREFCOUNTED_iff:
  "ISREFCOUNTED t \<longleftrightarrow>
     t \<notin> {OT_NULL, OT_INTEGER, OT_FLOAT, OT_BOOL, OT_USERPOINTER}"
  by (cases t) (simp_all add: ISREFCOUNTED_def flag_defs)

lemma is_delegable_iff: "is_delegable t \<longleftrightarrow> t \<in> {OT_TABLE, OT_USERDATA, OT_INSTANCE}"
  by (cases t) (simp_all add: is_delegable_def flag_defs)

lemma sq_isnumeric_iff: "sq_isnumeric t \<longleftrightarrow> t \<in> {OT_INTEGER, OT_FLOAT}"
  by (cases t) (simp_all add: sq_isnumeric_def flag_defs)

section \<open>Objects\<close>

datatype sqobject =
  VNull | VInteger i64 | VFloat u32 | VBool i64 | VString string | VTable addr | VArray addr
| VUserData addr | VClosure addr | VNativeClosure addr | VGenerator addr | VUserPointer addr
| VThread addr | VFuncProto addr | VClass addr | VInstance addr | VWeakRef addr | VOuter addr

fun sq_type :: "sqobject \<Rightarrow> sqtype" where
  "sq_type VNull = OT_NULL"
| "sq_type (VInteger i) = OT_INTEGER"
| "sq_type (VFloat f) = OT_FLOAT"
| "sq_type (VBool b) = OT_BOOL"
| "sq_type (VString s) = OT_STRING"
| "sq_type (VTable a) = OT_TABLE"
| "sq_type (VArray a) = OT_ARRAY"
| "sq_type (VUserData a) = OT_USERDATA"
| "sq_type (VClosure a) = OT_CLOSURE"
| "sq_type (VNativeClosure a) = OT_NATIVECLOSURE"
| "sq_type (VGenerator a) = OT_GENERATOR"
| "sq_type (VUserPointer a) = OT_USERPOINTER"
| "sq_type (VThread a) = OT_THREAD"
| "sq_type (VFuncProto a) = OT_FUNCPROTO"
| "sq_type (VClass a) = OT_CLASS"
| "sq_type (VInstance a) = OT_INSTANCE"
| "sq_type (VWeakRef a) = OT_WEAKREF"
| "sq_type (VOuter a) = OT_OUTER"

lemma sq_type_eq_null [simp]: "sq_type v = OT_NULL \<longleftrightarrow> v = VNull"
  by (cases v) auto

fun IdType2Name :: "sqtype \<Rightarrow> string" where
  "IdType2Name OT_NULL = ''null''"
| "IdType2Name OT_INTEGER = ''integer''"
| "IdType2Name OT_FLOAT = ''float''"
| "IdType2Name OT_BOOL = ''bool''"
| "IdType2Name OT_STRING = ''string''"
| "IdType2Name OT_TABLE = ''table''"
| "IdType2Name OT_ARRAY = ''array''"
| "IdType2Name OT_GENERATOR = ''generator''"
| "IdType2Name OT_CLOSURE = ''function''"
| "IdType2Name OT_NATIVECLOSURE = ''function''"
| "IdType2Name OT_USERDATA = ''userdata''"
| "IdType2Name OT_USERPOINTER = ''userdata''"
| "IdType2Name OT_THREAD = ''thread''"
| "IdType2Name OT_FUNCPROTO = ''function''"
| "IdType2Name OT_CLASS = ''class''"
| "IdType2Name OT_INSTANCE = ''instance''"
| "IdType2Name OT_WEAKREF = ''weakref''"
| "IdType2Name OT_OUTER = ''outer''"

definition GetTypeName :: "sqobject \<Rightarrow> string" where
  "GetTypeName obj1 = IdType2Name (sq_type obj1)"

text \<open>
  A weak reference points to a \<open>SQWeakRef\<close> cell that holds the referenced object; the
  store of these cells is the first argument.
\<close>

type_synonym weakstore = "addr \<Rightarrow> sqobject"

definition realval :: "weakstore \<Rightarrow> sqobject \<Rightarrow> sqobject" where
  "realval W v = (case v of VWeakRef a \<Rightarrow> W a | _ \<Rightarrow> v)"

text \<open>\<open>TranslateIndex\<close> asserts on any other type; \<^const>\<open>None\<close> is the failed assertion.\<close>

definition TranslateIndex :: "sqobject \<Rightarrow> u64 option" where
  "TranslateIndex idx = (case idx of VNull \<Rightarrow> Some 0 | VInteger i \<Rightarrow> Some i | _ \<Rightarrow> None)"

section \<open>Hashing\<close>

text \<open>\<open>(unsigned short)s[i]\<close> for a signed \<open>char\<close>: sign extension to 16 bits.\<close>

definition ushort_of_char :: "char \<Rightarrow> u64" where
  "ushort_of_char c = ucast (scast (of_char c :: byte) :: 16 word)"

definition hash_step :: "u64 \<Rightarrow> char \<Rightarrow> u64" where
  "hash_step h c = h XOR (push_bit 5 h + drop_bit 2 h + ushort_of_char c)"

function hashstr_loop :: "string \<Rightarrow> nat \<Rightarrow> nat \<Rightarrow> u64 \<Rightarrow> u64" where
  "hashstr_loop s step l1 h =
     (if 0 < step \<and> step \<le> l1
      then hashstr_loop s step (l1 - step) (hash_step h (s ! (l1 - 1)))
      else h)"
  by pat_completeness auto
termination
  by (relation "measure (\<lambda>(s, step, l1, h). l1)") auto

declare hashstr_loop.simps [simp del]

definition hashstr :: "string \<Rightarrow> u64" where
  "hashstr s = (let l = length s; step = l div 32 + 1
     in hashstr_loop s step l (of_nat l))"

text \<open>
  \<open>(SQInteger)\<close> of an IEEE single: truncation towards zero of
  \<open>(-1)^sign * mantissa * 2^(exponent - 150)\<close>. Out of the range of \<open>SQInteger\<close>
  (large values, infinities, NaN) the conversion is what the x86-64 instruction
  \<open>cvttss2si\<close> delivers, the smallest integer.
\<close>

definition float_sign :: "u32 \<Rightarrow> bool" where
  "float_sign f \<longleftrightarrow> bit f 31"

definition float_exp :: "u32 \<Rightarrow> int" where
  "float_exp f = uint (drop_bit 23 f AND 0xFF)"

definition float_mant :: "u32 \<Rightarrow> int" where
  "float_mant f = (if float_exp f = 0 then uint (f AND 0x7FFFFF)
     else uint (f AND 0x7FFFFF) + 0x800000)"

definition float_trunc_mag :: "u32 \<Rightarrow> int" where
  "float_trunc_mag f = (if 150 \<le> float_exp f then float_mant f * 2 ^ nat (float_exp f - 150)
     else float_mant f div 2 ^ nat (150 - max 1 (float_exp f)))"

definition float_to_integer :: "u32 \<Rightarrow> i64" where
  "float_to_integer f =
     (if float_exp f = 255 \<or> 0x8000000000000000 \<le> float_trunc_mag f then 0x8000000000000000
      else if float_sign f then word_of_int (- float_trunc_mag f)
      else word_of_int (float_trunc_mag f))"

definition hashptr :: "addr \<Rightarrow> u64" where
  "hashptr p = signed_drop_bit 3 p"

fun HashObj :: "sqobject \<Rightarrow> u64" where
  "HashObj (VString s) = hashstr s"
| "HashObj (VFloat f) = float_to_integer f"
| "HashObj (VBool b) = b"
| "HashObj (VInteger i) = i"
| "HashObj VNull = hashptr 0"
| "HashObj (VTable a) = hashptr a"
| "HashObj (VArray a) = hashptr a"
| "HashObj (VUserData a) = hashptr a"
| "HashObj (VClosure a) = hashptr a"
| "HashObj (VNativeClosure a) = hashptr a"
| "HashObj (VGenerator a) = hashptr a"
| "HashObj (VUserPointer a) = hashptr a"
| "HashObj (VThread a) = hashptr a"
| "HashObj (VFuncProto a) = hashptr a"
| "HashObj (VClass a) = hashptr a"
| "HashObj (VInstance a) = hashptr a"
| "HashObj (VWeakRef a) = hashptr a"
| "HashObj (VOuter a) = hashptr a"

lemma HashObj_null [simp]: "HashObj VNull = 0"
  by (simp add: hashptr_def)

end
