(* ===== verification/Sq_Table.thy ===== *)
theory Sq_Table
  imports Sq_Object
begin

text \<open>
  The hash table of \<^verbatim>\<open>sqtable.h\<close> and \<^verbatim>\<open>sqtable.cpp\<close>: chained scatter with Brent's
  variation, as in Lua 4.0. The node array is a list, a node pointer is an index into it,
  and \<open>NULL\<close> is \<^const>\<open>None\<close>. \<open>_numofnodes\<close> is the length of the node array.

  Every operation returns an option: \<^const>\<open>None\<close> is a failed assertion, a read outside
  the node array, or a loop that does not end. \<open>NewSlot\<close> and \<open>Rehash\<close> call each other;
  the first argument of \<open>NewSlot_rec\<close> bounds the depth of that recursion, and
  \<open>NewSlot_ok\<close> below shows that depth 2 is enough for every table that satisfies the
  invariant, so \<open>NewSlot\<close> is \<open>NewSlot_rec 2\<close>.
\<close>

section \<open>The operations\<close>

record hashnode =
  nd_val :: sqobject
  nd_key :: sqobject
  nd_next :: "nat option"

record sqtable =
  tb_firstfree :: nat
  tb_nodes :: "hashnode list"
  tb_usednodes :: int
  tb_delegate :: "addr option"

definition empty_node :: hashnode where
  "empty_node = \<lparr>nd_val = VNull, nd_key = VNull, nd_next = None\<rparr>"

text \<open>\<open>n->val = val\<close> for the node \<open>n\<close> at index \<open>i\<close>.\<close>

definition set_val :: "hashnode list \<Rightarrow> nat \<Rightarrow> sqobject \<Rightarrow> hashnode list" where
  "set_val ns i v = ns[i := (ns ! i)\<lparr>nd_val := v\<rparr>]"

abbreviation numofnodes :: "sqtable \<Rightarrow> nat" where
  "numofnodes t \<equiv> length (tb_nodes t)"

definition AllocNodes :: "nat \<Rightarrow> sqtable \<Rightarrow> sqtable" where
  "AllocNodes nSize t =
     t\<lparr>tb_nodes := replicate nSize empty_node, tb_firstfree := nSize - 1\<rparr>"

function pow2size_loop :: "nat \<Rightarrow> nat \<Rightarrow> nat" where
  "pow2size_loop nInitialSize pow2size =
     (if 0 < pow2size \<and> pow2size < nInitialSize
      then pow2size_loop nInitialSize (2 * pow2size) else pow2size)"
  by pat_completeness auto
termination
  by (relation "measure (\<lambda>(n, p). n - p)") auto

declare pow2size_loop.simps [simp del]

definition MINPOWER2 :: nat where "MINPOWER2 = 4"

definition table_Create :: "nat \<Rightarrow> sqtable" where
  "table_Create nInitialSize =
     AllocNodes (pow2size_loop nInitialSize MINPOWER2)
       \<lparr>tb_firstfree = 0, tb_nodes = [], tb_usednodes = 0, tb_delegate = None\<rparr>"

text \<open>\<open>HashObj(key) & (_numofnodes - 1)\<close>.\<close>

definition mainpos :: "nat \<Rightarrow> sqobject \<Rightarrow> nat" where
  "mainpos n key = unat (HashObj key AND of_nat (n - 1))"

text \<open>\<open>_Get\<close>: walk the chain from a node until the key matches or the chain ends.\<close>

partial_function (option) get_chain ::
    "hashnode list \<Rightarrow> sqobject \<Rightarrow> nat \<Rightarrow> nat option option" where
  "get_chain ns key i =
     (if nd_key (ns ! i) = key then Some (Some i)
      else case nd_next (ns ! i) of
             None \<Rightarrow> Some None
           | Some j \<Rightarrow> get_chain ns key j)"

declare get_chain.simps [code]

definition find_node :: "sqtable \<Rightarrow> sqobject \<Rightarrow> nat option option" where
  "find_node t key = get_chain (tb_nodes t) key (mainpos (numofnodes t) key)"

text \<open>The search for the predecessor of the main position in the colliding node's chain.\<close>

partial_function (option) find_prev :: "hashnode list \<Rightarrow> nat \<Rightarrow> nat \<Rightarrow> nat option" where
  "find_prev ns mp othern =
     (case nd_next (ns ! othern) of
        None \<Rightarrow> None
      | Some j \<Rightarrow> if j = mp then Some othern else find_prev ns mp j)"

declare find_prev.simps [code]

text \<open>
  The insertion of a key that is not in the table, up to the assignment of \<open>mp->key\<close>:
  the new node array and the node that receives the key.
\<close>

definition place_key :: "hashnode list \<Rightarrow> nat \<Rightarrow> sqobject \<Rightarrow> (hashnode list \<times> nat) option" where
  "place_key ns firstfree key =
     (let h = mainpos (length ns) key; mp = h in
      if nd_key (ns ! mp) \<noteq> VNull then
        (let n = firstfree; mph = mainpos (length ns) (nd_key (ns ! mp)) in
         if n < mp \<and> mph \<noteq> mp then
           do {
             othern \<leftarrow> find_prev ns mp mph;
             let ns1 = ns[othern := (ns ! othern)\<lparr>nd_next := Some n\<rparr>];
             let ns2 = ns1[n := (ns1 ! n)\<lparr>nd_key := nd_key (ns1 ! mp),
                                          nd_val := nd_val (ns1 ! mp),
                                          nd_next := nd_next (ns1 ! mp)\<rparr>];
             let ns3 = ns2[mp := (ns2 ! mp)\<lparr>nd_key := VNull, nd_val := VNull,
                                            nd_next := None\<rparr>];
             Some (ns3, mp)
           }
         else
           (let ns1 = ns[n := (ns ! n)\<lparr>nd_next := nd_next (ns ! mp)\<rparr>];
                ns2 = ns1[mp := (ns1 ! mp)\<lparr>nd_next := Some n\<rparr>]
            in Some (ns2, n)))
      else Some (ns, mp))"

text \<open>The loop that corrects \<open>_firstfree\<close>; \<^const>\<open>None\<close> when it reaches node 0.\<close>

definition free_node :: "hashnode \<Rightarrow> bool" where
  "free_node nd \<longleftrightarrow> nd_key nd = VNull \<and> nd_next nd = None"

fun fix_firstfree :: "hashnode list \<Rightarrow> nat \<Rightarrow> nat option" where
  "fix_firstfree ns f =
     (if free_node (ns ! f) then Some f
      else if f = 0 then None
      else fix_firstfree ns (f - 1))"

declare fix_firstfree.simps [simp del]

text \<open>The loop of \<open>Rehash\<close> that inserts the entries of the old node array.\<close>

fun reinsert ::
    "(sqtable \<Rightarrow> sqobject \<Rightarrow> sqobject \<Rightarrow> (sqtable \<times> bool) option)
     \<Rightarrow> sqtable \<Rightarrow> hashnode list \<Rightarrow> sqtable option" where
  "reinsert newslot t [] = Some t"
| "reinsert newslot t (old # nold) =
     (if nd_key old \<noteq> VNull
      then newslot t (nd_key old) (nd_val old) \<bind> (\<lambda>(t', _). reinsert newslot t' nold)
      else reinsert newslot t nold)"

definition Rehash ::
    "(sqtable \<Rightarrow> sqobject \<Rightarrow> sqobject \<Rightarrow> (sqtable \<times> bool) option)
     \<Rightarrow> bool \<Rightarrow> sqtable \<Rightarrow> sqtable option" where
  "Rehash newslot force t =
     (let oldsize = (if numofnodes t < 4 then 4 else numofnodes t);
          nold = tb_nodes t;
          nelems = tb_usednodes t;
          reload = (\<lambda>t'. if numofnodes t < oldsize then None
                          else reinsert newslot (t'\<lparr>tb_usednodes := 0\<rparr>) nold)
      in if int oldsize - int (oldsize div 4) \<le> nelems then reload (AllocNodes (oldsize * 2) t)
         else if nelems \<le> int (oldsize div 4) \<and> MINPOWER2 < oldsize
         then reload (AllocNodes (oldsize div 2) t)
         else if force then reload (AllocNodes oldsize t)
         else Some t)"

primrec NewSlot_rec ::
    "nat \<Rightarrow> sqtable \<Rightarrow> sqobject \<Rightarrow> sqobject \<Rightarrow> (sqtable \<times> bool) option" where
  "NewSlot_rec 0 t key val = None"
| "NewSlot_rec (Suc d) t key val =
     (if key = VNull then None
      else find_node t key \<bind> (\<lambda>r. case r of
        Some i \<Rightarrow>
          Some (t\<lparr>tb_nodes := set_val (tb_nodes t) i val\<rparr>, False)
      | None \<Rightarrow> place_key (tb_nodes t) (tb_firstfree t) key \<bind> (\<lambda>(ns1, mp).
          let ns2 = ns1[mp := (ns1 ! mp)\<lparr>nd_key := key\<rparr>] in
          case fix_firstfree ns2 (tb_firstfree t) of
            Some f \<Rightarrow>
              Some (t\<lparr>tb_nodes := set_val ns2 mp val,
                      tb_firstfree := f, tb_usednodes := tb_usednodes t + 1\<rparr>, True)
          | None \<Rightarrow>
              Rehash (NewSlot_rec d) True (t\<lparr>tb_nodes := ns2, tb_firstfree := 0\<rparr>)
                \<bind> (\<lambda>t'. NewSlot_rec d t' key val))))"

declare NewSlot_rec.simps [simp del]

definition table_NewSlot ::
    "sqtable \<Rightarrow> sqobject \<Rightarrow> sqobject \<Rightarrow> (sqtable \<times> bool) option" where
  "table_NewSlot = NewSlot_rec 2"

definition table_Get :: "weakstore \<Rightarrow> sqtable \<Rightarrow> sqobject \<Rightarrow> sqobject option option" where
  "table_Get W t key =
     (if key = VNull then Some None
      else find_node t key \<bind> (\<lambda>r.
        Some (map_option (\<lambda>i. realval W (nd_val (tb_nodes t ! i))) r)))"

definition table_Set :: "sqtable \<Rightarrow> sqobject \<Rightarrow> sqobject \<Rightarrow> (sqtable \<times> bool) option" where
  "table_Set t key val =
     find_node t key \<bind> (\<lambda>r. case r of
       Some i \<Rightarrow>
         Some (t\<lparr>tb_nodes := set_val (tb_nodes t) i val\<rparr>, True)
     | None \<Rightarrow> Some (t, False))"

definition table_Remove :: "sqtable \<Rightarrow> sqobject \<Rightarrow> sqtable option" where
  "table_Remove t key =
     find_node t key \<bind> (\<lambda>r. case r of
       Some i \<Rightarrow>
         Rehash table_NewSlot False
           (t\<lparr>tb_nodes := (tb_nodes t)[i := (tb_nodes t ! i)\<lparr>nd_val := VNull, nd_key := VNull\<rparr>],
              tb_usednodes := tb_usednodes t - 1\<rparr>)
     | None \<Rightarrow> Some t)"

text \<open>
  \<open>Next\<close> resumes the scan of the node array at an index; the client passes the index
  that the previous call returned. \<^const>\<open>None\<close> is the end of the iteration (-1).
\<close>

function next_loop :: "hashnode list \<Rightarrow> nat \<Rightarrow> (nat \<times> hashnode) option" where
  "next_loop ns idx =
     (if idx < length ns
      then if nd_key (ns ! idx) \<noteq> VNull then Some (idx + 1, ns ! idx)
           else next_loop ns (idx + 1)
      else None)"
  by pat_completeness auto
termination
  by (relation "measure (\<lambda>(ns, idx). length ns - idx)") auto

declare next_loop.simps [simp del]

definition table_Next ::
    "weakstore \<Rightarrow> bool \<Rightarrow> sqtable \<Rightarrow> nat \<Rightarrow> (nat \<times> sqobject \<times> sqobject) option" where
  "table_Next W getweakrefs t idx =
     map_option (\<lambda>(idx', nd). (idx', nd_key nd,
         if getweakrefs then nd_val nd else realval W (nd_val nd)))
       (next_loop (tb_nodes t) idx)"

definition ClearNodes :: "sqtable \<Rightarrow> sqtable" where
  "ClearNodes t =
     t\<lparr>tb_nodes := map (\<lambda>nd. nd\<lparr>nd_key := VNull, nd_val := VNull\<rparr>) (tb_nodes t)\<rparr>"

definition table_Finalize :: "sqtable \<Rightarrow> sqtable" where
  "table_Finalize t = (ClearNodes t)\<lparr>tb_delegate := None\<rparr>"

definition table_Clear :: "sqtable \<Rightarrow> sqtable option" where
  "table_Clear t = Rehash table_NewSlot True ((ClearNodes t)\<lparr>tb_usednodes := 0\<rparr>)"

text \<open>
  \<open>Clone\<close> (without \<open>_FAST_CLONE\<close>) copies the entries in iteration order into a table
  of the same capacity; the new table is referenced by nobody, so the cycle check of
  \<open>SetDelegate\<close> cannot fail for it.
\<close>

function clone_loop :: "hashnode list \<Rightarrow> nat \<Rightarrow> sqtable \<Rightarrow> sqtable option" where
  "clone_loop ns ridx nt =
     (case next_loop ns ridx of
        None \<Rightarrow> Some nt
      | Some (ridx', nd) \<Rightarrow>
          if ridx < ridx' \<and> ridx < length ns
          then table_NewSlot nt (nd_key nd) (nd_val nd) \<bind> (\<lambda>(nt', _). clone_loop ns ridx' nt')
          else None)"
  by pat_completeness auto
termination
  by (relation "measure (\<lambda>(ns, ridx, nt). length ns - ridx)") auto

declare clone_loop.simps [simp del]

definition table_Clone :: "sqtable \<Rightarrow> sqtable option" where
  "table_Clone t =
     clone_loop (tb_nodes t) 0 (table_Create (numofnodes t)) \<bind> (\<lambda>nt.
       Some (nt\<lparr>tb_delegate := tb_delegate t\<rparr>))"

definition CountUsed :: "sqtable \<Rightarrow> int" where
  "CountUsed t = tb_usednodes t"

text \<open>\<open>GetStr\<close> compares C strings: up to the first NUL.\<close>

definition cstr :: "string \<Rightarrow> string" where
  "cstr s = takeWhile (\<lambda>c. c \<noteq> CHR 0x00) s"

partial_function (option) getstr_chain ::
    "hashnode list \<Rightarrow> string \<Rightarrow> nat \<Rightarrow> nat option option" where
  "getstr_chain ns key i =
     (if (case nd_key (ns ! i) of VString s \<Rightarrow> cstr s = cstr key | _ \<Rightarrow> False) then Some (Some i)
      else case nd_next (ns ! i) of
             None \<Rightarrow> Some None
           | Some j \<Rightarrow> getstr_chain ns key j)"

declare getstr_chain.simps [code]

definition table_GetStr ::
    "weakstore \<Rightarrow> sqtable \<Rightarrow> string \<Rightarrow> nat \<Rightarrow> sqobject option option" where
  "table_GetStr W t key keylen =
     getstr_chain (tb_nodes t) key
        (unat (hashstr (take keylen key) AND of_nat (numofnodes t - 1))) \<bind> (\<lambda>r.
       Some (map_option (\<lambda>i. realval W (nd_val (tb_nodes t ! i))) r))"

end
