(* ===== verification/Sq_Table_Inv.thy ===== *)
theory Sq_Table_Inv
  imports Sq_Table
begin

text \<open>
  The representation invariant of the hash table and the proof that an insertion keeps it.
  The delicate part is that a removed entry leaves its node in the chain with a null key:
  chains of different main positions can then run through the same nodes. The invariant
  says what keeps lookups correct nevertheless: no chain leads to a node at or below the
  free pointer unless that node was just filled, every node has at most one predecessor,
  the chains are acyclic, every entry is reachable from its main position, and a node that
  holds a colliding key is no entry's main position.
\<close>

section \<open>The invariant\<close>

definition used_node :: "hashnode \<Rightarrow> bool" where
  "used_node nd \<longleftrightarrow> nd_key nd \<noteq> VNull"

definition nedge :: "hashnode list \<Rightarrow> nat \<Rightarrow> nat \<Rightarrow> bool" where
  "nedge ns i j \<longleftrightarrow> i < length ns \<and> nd_next (ns ! i) = Some j"

abbreviation nreach :: "hashnode list \<Rightarrow> nat \<Rightarrow> nat \<Rightarrow> bool" where
  "nreach ns \<equiv> (nedge ns)\<^sup>*\<^sup>*"

definition edges_inv :: "hashnode list \<Rightarrow> nat \<Rightarrow> bool" where
  "edges_inv ns f \<longleftrightarrow>
     f < length ns
   \<and> (\<forall>i j. nedge ns i j \<longrightarrow> f \<le> j \<and> j < length ns \<and> (j = f \<longrightarrow> used_node (ns ! f)))
   \<and> (\<forall>i i' j. nedge ns i j \<longrightarrow> nedge ns i' j \<longrightarrow> i = i')
   \<and> (\<exists>rk :: nat \<Rightarrow> nat. \<forall>i j. nedge ns i j \<longrightarrow> rk j < rk i)"

definition keys_inv :: "hashnode list \<Rightarrow> bool" where
  "keys_inv ns \<longleftrightarrow>
     (\<forall>i < length ns. used_node (ns ! i) \<longrightarrow>
        nreach ns (mainpos (length ns) (nd_key (ns ! i))) i)
   \<and> (\<forall>i < length ns. \<forall>j < length ns. used_node (ns ! i) \<longrightarrow> used_node (ns ! j) \<longrightarrow>
        mainpos (length ns) (nd_key (ns ! i)) \<noteq> i \<longrightarrow> mainpos (length ns) (nd_key (ns ! j)) \<noteq> i)
   \<and> (\<forall>i < length ns. \<forall>j < length ns. used_node (ns ! i) \<longrightarrow>
        nd_key (ns ! i) = nd_key (ns ! j) \<longrightarrow> i = j)"

definition pow2_size :: "nat \<Rightarrow> bool" where
  "pow2_size n \<longleftrightarrow> (\<exists>m. n = 4 * 2 ^ m)"

definition table_inv :: "sqtable \<Rightarrow> bool" where
  "table_inv t \<longleftrightarrow>
     pow2_size (numofnodes t)
   \<and> edges_inv (tb_nodes t) (tb_firstfree t)
   \<and> free_node (tb_nodes t ! tb_firstfree t)
   \<and> keys_inv (tb_nodes t)
   \<and> tb_usednodes t = int (length (filter used_node (tb_nodes t)))"

text \<open>The abstract value of a table: the partial map of its entries.\<close>

definition entries :: "hashnode list \<Rightarrow> (sqobject \<times> sqobject) list" where
  "entries ns = map (\<lambda>nd. (nd_key nd, nd_val nd)) (filter used_node ns)"

definition table_map :: "sqtable \<Rightarrow> sqobject \<rightharpoonup> sqobject" where
  "table_map t = map_of (entries (tb_nodes t))"

definition distinct_keys :: "hashnode list \<Rightarrow> bool" where
  "distinct_keys ns \<longleftrightarrow> distinct (map fst (entries ns))"

definition same_next :: "hashnode list \<Rightarrow> hashnode list \<Rightarrow> bool" where
  "same_next ns ns' \<longleftrightarrow> length ns' = length ns \<and>
     (\<forall>i < length ns. nd_next (ns' ! i) = nd_next (ns ! i))"

definition placed :: "hashnode list \<Rightarrow> sqobject \<Rightarrow> hashnode list \<Rightarrow> nat \<Rightarrow> bool" where
  "placed ns k ns2 mp \<longleftrightarrow>
     length ns2 = length ns \<and> mp < length ns \<and> nd_key (ns2 ! mp) = k
   \<and> (\<forall>k' v. k' \<noteq> k \<longrightarrow>
        (\<exists>i < length ns. used_node (ns2 ! i) \<and> nd_key (ns2 ! i) = k' \<and> nd_val (ns2 ! i) = v) \<longleftrightarrow>
        (\<exists>i < length ns. used_node (ns ! i) \<and> nd_key (ns ! i) = k' \<and> nd_val (ns ! i) = v))
   \<and> (\<forall>i < length ns. used_node (ns ! i) \<longrightarrow> used_node (ns2 ! i))
   \<and> (\<forall>i < length ns. \<not> used_node (ns2 ! i) \<longrightarrow>
        (nd_next (ns2 ! i) = None \<longleftrightarrow> nd_next (ns ! i) = None))
   \<and> length (filter used_node ns2) = Suc (length (filter used_node ns))"

definition fresh_nodes :: "hashnode list \<Rightarrow> nat \<Rightarrow> bool" where
  "fresh_nodes ns f \<longleftrightarrow>
     (\<forall>i < length ns. f < i \<longrightarrow> used_node (ns ! i))
   \<and> (\<forall>i < length ns. \<not> used_node (ns ! i) \<longrightarrow> nd_next (ns ! i) = None)"

definition fresh_table :: "sqtable \<Rightarrow> bool" where
  "fresh_table t \<longleftrightarrow> fresh_nodes (tb_nodes t) (tb_firstfree t)"

text \<open>The client's loop \<open>while((idx = t->Next(false,idx,key,val)) != -1) ...\<close>.\<close>

function iterate :: "weakstore \<Rightarrow> bool \<Rightarrow> sqtable \<Rightarrow> nat \<Rightarrow> (sqobject \<times> sqobject) list" where
  "iterate W getweakrefs t idx =
     (case table_Next W getweakrefs t idx of
        None \<Rightarrow> []
      | Some (idx', key, val) \<Rightarrow>
          if idx < idx' \<and> idx < numofnodes t
          then (key, val) # iterate W getweakrefs t idx' else [])"
  by pat_completeness auto
termination
  by (relation "measure (\<lambda>(W, g, t, idx). numofnodes t - idx)") auto

declare iterate.simps [simp del]

lemma mainpos_less: "0 < n \<Longrightarrow> mainpos n k < n"
  using unat_and_of_nat_le [of "HashObj k" "n - 1"]
  by (simp add: mainpos_def)

lemma keys_inv_distinct:
  assumes "\<forall>i < length ns. \<forall>j < length ns. used_node (ns ! i) \<longrightarrow>
        nd_key (ns ! i) = nd_key (ns ! j) \<longrightarrow> i = j"
  shows "distinct_keys ns"
  using assms
proof (induction ns)
  case Nil
  then show ?case by (simp add: distinct_keys_def entries_def)
next
  case (Cons nd ns)
  have ih: "distinct_keys ns"
    by (rule Cons.IH) (use Cons.prems in \<open>fastforce\<close>)
  have "nd_key nd \<notin> nd_key ` set (filter used_node ns)" if "used_node nd"
  proof
    assume "nd_key nd \<in> nd_key ` set (filter used_node ns)"
    then obtain j where "j < length ns" "nd_key (ns ! j) = nd_key nd"
      by (auto simp: in_set_conv_nth)
    with that Cons.prems [rule_format, of 0 "Suc j"] show False by simp
  qed
  with ih show ?case
    by (auto simp: distinct_keys_def entries_def image_iff comp_def)
qed

lemma map_of_entries_iff:
  assumes "distinct_keys ns"
  shows "map_of (entries ns) k = Some v \<longleftrightarrow>
     (\<exists>i < length ns. used_node (ns ! i) \<and> nd_key (ns ! i) = k \<and> nd_val (ns ! i) = v)"
proof -
  have "map_of (entries ns) k = Some v \<longleftrightarrow> (k, v) \<in> set (entries ns)"
    using assms by (simp add: distinct_keys_def map_of_eq_Some_iff)
  also have "\<dots> \<longleftrightarrow> (\<exists>nd \<in> set ns. used_node nd \<and> nd_key nd = k \<and> nd_val nd = v)"
    by (auto simp: entries_def image_iff)
  also have "\<dots> \<longleftrightarrow> (\<exists>i < length ns. used_node (ns ! i) \<and> nd_key (ns ! i) = k \<and> nd_val (ns ! i) = v)"
    by (metis in_set_conv_nth)
  finally show ?thesis .
qed

lemma map_of_entries_None:
  "map_of (entries ns) k = None \<longleftrightarrow>
     (\<forall>i < length ns. used_node (ns ! i) \<longrightarrow> nd_key (ns ! i) \<noteq> k)"
proof -
  have "map_of (entries ns) k = None \<longleftrightarrow> (\<forall>nd \<in> set ns. used_node nd \<longrightarrow> nd_key nd \<noteq> k)"
    by (auto simp: entries_def map_of_eq_None_iff image_iff)
  then show ?thesis by (metis in_set_conv_nth)
qed

lemma map_of_entries_null: "map_of (entries ns) VNull = None"
  by (simp add: map_of_entries_None used_node_def)

subsection \<open>Walking a chain\<close>

lemma edges_inv_length [dest]: "edges_inv ns f \<Longrightarrow> f < length ns"
  by (simp add: edges_inv_def)

lemma nedge_det: "nedge ns i j \<Longrightarrow> nedge ns i k \<Longrightarrow> j = k"
  by (simp add: nedge_def)

lemma nreach_bound:
  assumes "nreach ns i j" "edges_inv ns f" "i < length ns"
  shows "j < length ns"
  using assms by (induction rule: rtranclp_induct) (auto simp: edges_inv_def)

lemma get_chain_step:
  "i < length ns \<Longrightarrow> get_chain ns key i =
     (if nd_key (ns ! i) = key then Some (Some i)
      else if \<exists>j. nedge ns i j then get_chain ns key (the (nd_next (ns ! i))) else Some None)"
  by (subst get_chain.simps) (auto simp: nedge_def split: option.splits)

lemma get_chain_result:
  assumes inv: "edges_inv ns f" and i: "i < length ns"
  shows "\<exists>r. get_chain ns key i = Some r \<and>
     (case r of Some m \<Rightarrow> m < length ns \<and> nd_key (ns ! m) = key
      | None \<Rightarrow> \<forall>m. nreach ns i m \<longrightarrow> nd_key (ns ! m) \<noteq> key)"
proof -
  obtain rk :: "nat \<Rightarrow> nat" where rk: "\<forall>i j. nedge ns i j \<longrightarrow> rk j < rk i"
    using inv by (auto simp: edges_inv_def)
  show ?thesis
    using i
  proof (induction "rk i" arbitrary: i rule: less_induct)
    case less
    show ?case
    proof (cases "nd_key (ns ! i) = key")
      case True
      with less.prems show ?thesis by (simp add: get_chain_step)
    next
      case ne: False
      show ?thesis
      proof (cases "\<exists>j. nedge ns i j")
        case True
        then obtain j where j: "nedge ns i j" by blast
        then have nj: "nd_next (ns ! i) = Some j" by (simp add: nedge_def)
        have jl: "j < length ns" using inv j by (auto simp: edges_inv_def)
        have reach: "nreach ns i m \<Longrightarrow> m = i \<or> nreach ns j m" for m
          by (erule converse_rtranclpE) (auto dest: nedge_det [OF j])
        from less.hyps [of j] rk j jl obtain r where r: "get_chain ns key j = Some r"
          and spec: "case r of Some m \<Rightarrow> m < length ns \<and> nd_key (ns ! m) = key
             | None \<Rightarrow> \<forall>m. nreach ns j m \<longrightarrow> nd_key (ns ! m) \<noteq> key"
          by blast
        have "get_chain ns key i = Some r"
          using ne less.prems nj j r by (auto simp: get_chain_step)
        with spec ne reach show ?thesis by (fastforce split: option.splits)
      next
        case False
        have "nreach ns i m \<Longrightarrow> m = i" for m
          by (erule converse_rtranclpE) (use False in auto)
        with False ne less.prems show ?thesis by (auto simp: get_chain_step)
      qed
    qed
  qed
qed

text \<open>\<open>find_node\<close> finds a key exactly when the map has it.\<close>

lemma get_chain_found:
  assumes "edges_inv ns f" "keys_inv ns" "k \<noteq> VNull"
  shows "get_chain ns k (mainpos (length ns) k) = Some r \<longleftrightarrow>
     (case r of Some i \<Rightarrow> i < length ns \<and> nd_key (ns ! i) = k
      | None \<Rightarrow> \<forall>i < length ns. nd_key (ns ! i) \<noteq> k)"
proof -
  let ?m = "mainpos (length ns) k"
  from assms(1) have "0 < length ns" by (auto simp: edges_inv_def)
  then have m: "?m < length ns" by (rule mainpos_less)
  obtain r' where r': "get_chain ns k ?m = Some r'"
    and spec: "case r' of Some m \<Rightarrow> m < length ns \<and> nd_key (ns ! m) = k
      | None \<Rightarrow> \<forall>m. nreach ns ?m m \<longrightarrow> nd_key (ns ! m) \<noteq> k"
    using get_chain_result [OF assms(1) m, of k] by blast
  have uniq: "\<And>i j. i < length ns \<Longrightarrow> j < length ns \<Longrightarrow> nd_key (ns ! i) = k \<Longrightarrow>
      nd_key (ns ! j) = k \<Longrightarrow> i = j"
    using assms(2,3) by (simp add: keys_inv_def used_node_def)
  have reach: "\<And>i. i < length ns \<Longrightarrow> nd_key (ns ! i) = k \<Longrightarrow> nreach ns ?m i"
    using assms(2,3) by (auto simp: keys_inv_def used_node_def)
  have "(r = r') \<longleftrightarrow>
     (case r of Some i \<Rightarrow> i < length ns \<and> nd_key (ns ! i) = k
      | None \<Rightarrow> \<forall>i < length ns. nd_key (ns ! i) \<noteq> k)"
    using spec by (cases r; cases r') (auto dest: uniq reach)
  with r' show ?thesis by auto
qed

subsection \<open>Inserting a key\<close>

lemma find_prev_ok:
  assumes "nreach ns i mp" "i \<noteq> mp" "\<forall>a. nedge ns a mp \<longrightarrow> a \<noteq> mp"
  shows "\<exists>p. find_prev ns mp i = Some p \<and> nedge ns p mp"
  using assms
proof (induction rule: converse_rtranclp_induct)
  case base
  then show ?case by simp
next
  case (step i j)
  then have nj: "nd_next (ns ! i) = Some j" by (simp add: nedge_def)
  show ?case
  proof (cases "j = mp")
    case True
    with nj step.hyps(1) show ?thesis by (subst find_prev.simps) auto
  next
    case False
    with nj step.IH step.prems show ?thesis by (subst find_prev.simps) auto
  qed
qed

lemma same_next_nedge: "same_next ns ns' \<Longrightarrow> nedge ns' = nedge ns"
  by (intro ext) (auto simp: same_next_def nedge_def)

lemma edges_inv_same_next:
  assumes "same_next ns ns'" "edges_inv ns f" "used_node (ns ! f) \<longrightarrow> used_node (ns' ! f)"
  shows "edges_inv ns' f"
  using assms same_next_nedge [OF assms(1)]
  by (auto simp: edges_inv_def same_next_def)

lemma no_edge_into_free:
  assumes "edges_inv ns f" "free_node (ns ! f)"
  shows "\<not> nedge ns i f" "\<not> nedge ns f i"
  using assms by (auto simp: edges_inv_def free_node_def used_node_def nedge_def)

lemma nreach_to_free:
  assumes "edges_inv ns f" "free_node (ns ! f)" "nreach ns i f"
  shows "i = f"
  using assms(3) no_edge_into_free(1) [OF assms(1,2)] by (auto elim: rtranclp.cases)

lemma nreach_from_free:
  assumes "edges_inv ns f" "free_node (ns ! f)" "nreach ns f i"
  shows "i = f"
  using assms(3) no_edge_into_free(2) [OF assms(1,2)] by (auto elim: converse_rtranclpE)

lemma no_key_at_free:
  assumes "edges_inv ns f" "free_node (ns ! f)" "keys_inv ns" "i < length ns" "used_node (ns ! i)"
  shows "mainpos (length ns) (nd_key (ns ! i)) \<noteq> f" "i \<noteq> f"
proof -
  show "i \<noteq> f" using assms(2,5) by (auto simp: free_node_def used_node_def)
  have "nreach ns (mainpos (length ns) (nd_key (ns ! i))) i"
    using assms(3-5) by (simp add: keys_inv_def)
  with \<open>i \<noteq> f\<close> show "mainpos (length ns) (nd_key (ns ! i)) \<noteq> f"
    using nreach_from_free [OF assms(1,2)] by metis
qed

lemma below_free_main:
  assumes "edges_inv ns f" "free_node (ns ! f)" "keys_inv ns" "i < f" "used_node (ns ! i)"
  shows "mainpos (length ns) (nd_key (ns ! i)) = i"
proof -
  have "i < length ns" using assms(1,4) by (auto dest: edges_inv_length)
  then have "nreach ns (mainpos (length ns) (nd_key (ns ! i))) i"
    using assms(3,5) by (simp add: keys_inv_def)
  then show ?thesis
    by (cases rule: rtranclp.cases) (use assms(1,4) in \<open>fastforce simp: edges_inv_def\<close>)+
qed

text \<open>A fresh key in an empty main position.\<close>

lemma insert_main:
  assumes e: "edges_inv ns f" and ky: "keys_inv ns"
    and k: "k \<noteq> VNull" "\<forall>i < length ns. nd_key (ns ! i) \<noteq> k"
    and mp: "mp = mainpos (length ns) k" "nd_key (ns ! mp) = VNull"
    and sn: "same_next ns ns'" and keys: "nd_key (ns' ! mp) = k"
      "\<forall>i < length ns. i \<noteq> mp \<longrightarrow> nd_key (ns' ! i) = nd_key (ns ! i)"
  shows "edges_inv ns' f \<and> keys_inv ns'"
proof
  have mpl: "mp < length ns"
    unfolding mp(1) using e by (intro mainpos_less) (auto dest: edges_inv_length)
  have used: "used_node (ns' ! i) \<longleftrightarrow> i = mp \<or> used_node (ns ! i)" if "i < length ns" for i
    using that keys k(1) mp(2) by (cases "i = mp") (auto simp: used_node_def)
  have fl: "f < length ns" using e by auto
  show "edges_inv ns' f"
    by (rule edges_inv_same_next [OF sn e]) (use used fl in auto)
  have len: "length ns' = length ns" using sn by (simp add: same_next_def)
  have key_eq: "nd_key (ns' ! i) = (if i = mp then k else nd_key (ns ! i))" if "i < length ns" for i
    using that keys by auto
  show "keys_inv ns'"
    unfolding keys_inv_def len same_next_nedge [OF sn]
    using ky mp k by (auto simp: keys_inv_def key_eq used)
qed

text \<open>A fresh key in the free node, chained behind its main position.\<close>

lemma insert_chained:
  assumes e: "edges_inv ns f" and fr: "free_node (ns ! f)" and ky: "keys_inv ns"
    and k: "k \<noteq> VNull" "\<forall>i < length ns. nd_key (ns ! i) \<noteq> k"
    and mp: "mp = mainpos (length ns) k" "used_node (ns ! mp)"
      "mainpos (length ns) (nd_key (ns ! mp)) = mp"
    and len: "length ns' = length ns"
    and nx: "nd_next (ns' ! mp) = Some f" "nd_next (ns' ! f) = nd_next (ns ! mp)"
      "\<forall>i < length ns. i \<noteq> mp \<longrightarrow> i \<noteq> f \<longrightarrow> nd_next (ns' ! i) = nd_next (ns ! i)"
    and keys: "nd_key (ns' ! f) = k"
      "\<forall>i < length ns. i \<noteq> f \<longrightarrow> nd_key (ns' ! i) = nd_key (ns ! i)"
  shows "edges_inv ns' f \<and> keys_inv ns'"
proof
  have fl: "f < length ns" using e by auto
  have mpl: "mp < length ns"
    unfolding mp(1) using fl by (intro mainpos_less) linarith
  have mpf: "mp \<noteq> f" using mp(2) fr by (auto simp: used_node_def free_node_def)
  note nof = no_edge_into_free [OF e fr]
  have edge: "nedge ns' i j \<longleftrightarrow>
      (i = mp \<and> j = f) \<or> (i = f \<and> nedge ns mp j) \<or> (i \<noteq> mp \<and> i \<noteq> f \<and> nedge ns i j)" for i j
    using nx mpf mpl fl len by (auto simp: nedge_def)
  have used: "used_node (ns' ! i) \<longleftrightarrow> i = f \<or> used_node (ns ! i)" if "i < length ns" for i
    using that keys k(1) by (cases "i = f") (auto simp: used_node_def)
  have key_eq: "nd_key (ns' ! i) = (if i = f then k else nd_key (ns ! i))" if "i < length ns" for i
    using that keys by auto
  show "edges_inv ns' f"
    unfolding edges_inv_def len
  proof (intro conjI allI impI fl)
    fix i j assume ed: "nedge ns' i j"
    then show "f \<le> j" and "j < length ns"
      using e fl by (auto simp: edge edges_inv_def)
    assume "j = f"
    then show "used_node (ns' ! f)" using used fl by simp
  next
    fix i i' j assume "nedge ns' i j" "nedge ns' i' j"
    then show "i = i'" using e nof by (auto simp: edge edges_inv_def)
  next
    obtain rk :: "nat \<Rightarrow> nat" where rk: "\<forall>i j. nedge ns i j \<longrightarrow> rk j < rk i"
      using e by (auto simp: edges_inv_def)
    define rk' where "rk' x = (if x = f then 2 * rk mp else 2 * rk x + 1)" for x
    have "rk' j < rk' i" if "nedge ns' i j" for i j
      using that rk [rule_format, of i j] rk [rule_format, of mp j] nof mpf
      by (auto simp: edge rk'_def)
    then show "\<exists>rk :: nat \<Rightarrow> nat. \<forall>i j. nedge ns' i j \<longrightarrow> rk j < rk i" by blast
  qed
  have reach: "nreach ns i j \<Longrightarrow> nreach ns' i j" for i j
  proof (induction rule: rtranclp_induct)
    case base
    then show ?case by simp
  next
    case (step j l)
    then have "nreach ns' j l"
    proof (cases "j = mp")
      case True
      then have "nedge ns' mp f" "nedge ns' f l" using step.hyps(2) by (auto simp: edge)
      with True show ?thesis by (meson converse_rtranclp_into_rtranclp rtranclp.rtrancl_refl)
    next
      case False
      with step.hyps(2) nof have "nedge ns' j l" by (auto simp: edge)
      then show ?thesis by auto
    qed
    with step.IH show ?case by (rule rtranclp_trans)
  qed
  have mf: "nreach ns' mp f" using edge by auto
  note nokey = no_key_at_free [OF e fr ky]
  show "keys_inv ns'"
    unfolding keys_inv_def len
  proof (intro conjI allI impI)
    fix i assume "i < length ns" "used_node (ns' ! i)"
    then show "nreach ns' (mainpos (length ns) (nd_key (ns' ! i))) i"
      using ky reach mf mp(1) by (auto simp: key_eq used keys_inv_def)
  next
    fix i j assume ij: "i < length ns" "j < length ns" "used_node (ns' ! i)" "used_node (ns' ! j)"
      "mainpos (length ns) (nd_key (ns' ! i)) \<noteq> i"
    show "mainpos (length ns) (nd_key (ns' ! j)) \<noteq> i"
    proof (cases "i = f")
      case True
      then show ?thesis using ij nokey(1) [of j] mp(1) mpf by (auto simp: key_eq used)
    next
      case False
      with ij have "used_node (ns ! i)" "mainpos (length ns) (nd_key (ns ! i)) \<noteq> i"
        by (simp_all add: key_eq used)
      with ij(1,2,4) ky mp(1,3) show ?thesis by (auto simp: key_eq used keys_inv_def)
    qed
  next
    fix i j assume "i < length ns" "j < length ns" "used_node (ns' ! i)"
      "nd_key (ns' ! i) = nd_key (ns' ! j)"
    then show "i = j"
      using ky k by (auto simp: key_eq used keys_inv_def split: if_splits)
  qed
qed

text \<open>A fresh key in its main position, whose occupant moves to the free node.\<close>

lemma insert_moving:
  assumes e: "edges_inv ns f" and fr: "free_node (ns ! f)" and ky: "keys_inv ns"
    and k: "k \<noteq> VNull" "\<forall>i < length ns. nd_key (ns ! i) \<noteq> k"
    and mp: "mp = mainpos (length ns) k" "used_node (ns ! mp)"
      "mainpos (length ns) (nd_key (ns ! mp)) \<noteq> mp"
    and p: "nedge ns p mp"
    and len: "length ns' = length ns"
    and nx: "nd_next (ns' ! p) = Some f" "nd_next (ns' ! f) = nd_next (ns ! mp)"
      "nd_next (ns' ! mp) = None"
      "\<forall>i < length ns. i \<notin> {p, f, mp} \<longrightarrow> nd_next (ns' ! i) = nd_next (ns ! i)"
    and keys: "nd_key (ns' ! mp) = k" "nd_key (ns' ! f) = nd_key (ns ! mp)"
      "\<forall>i < length ns. i \<noteq> f \<longrightarrow> i \<noteq> mp \<longrightarrow> nd_key (ns' ! i) = nd_key (ns ! i)"
  shows "edges_inv ns' f \<and> keys_inv ns'"
proof
  have fl: "f < length ns" using e by auto
  have mpl: "mp < length ns"
    unfolding mp(1) using fl by (intro mainpos_less) linarith
  have mpf: "mp \<noteq> f" using mp(2) fr by (auto simp: used_node_def free_node_def)
  note nof = no_edge_into_free [OF e fr]
  obtain rk :: "nat \<Rightarrow> nat" where rk: "\<And>i j. nedge ns i j \<Longrightarrow> rk j < rk i"
    using e by (auto simp: edges_inv_def)
  have pl: "p < length ns" and pm: "p \<noteq> mp" and pf: "p \<noteq> f"
    using p rk [OF p] nof by (auto simp: nedge_def)
  have inj: "\<And>i i' j. nedge ns i j \<Longrightarrow> nedge ns i' j \<Longrightarrow> i = i'"
    using e by (auto simp: edges_inv_def)
  have edge: "nedge ns' i j \<longleftrightarrow>
      (i = p \<and> j = f) \<or> (i = f \<and> nedge ns mp j) \<or> (i \<notin> {p, f, mp} \<and> nedge ns i j)" for i j
    using nx mpf mpl fl len pl pm pf by (cases "i \<in> {p, f, mp}") (auto simp: nedge_def)
  have used: "used_node (ns' ! i) \<longleftrightarrow> i = f \<or> used_node (ns ! i)" if "i < length ns" for i
    using that keys k(1) mp(2) by (cases "i = f"; cases "i = mp") (auto simp: used_node_def)
  have key_eq: "nd_key (ns' ! i) =
      (if i = mp then k else if i = f then nd_key (ns ! mp) else nd_key (ns ! i))"
    if "i < length ns" for i
    using that keys by auto
  show "edges_inv ns' f"
    unfolding edges_inv_def len
  proof (intro conjI allI impI fl)
    fix i j assume ed: "nedge ns' i j"
    then show "f \<le> j" and "j < length ns"
      using e fl by (auto simp: edge edges_inv_def)
    assume "j = f"
    then show "used_node (ns' ! f)" using used fl by simp
  next
    fix i i' j assume "nedge ns' i j" "nedge ns' i' j"
    then show "i = i'" using inj nof by (auto simp: edge dest: inj)
  next
    define rk' where "rk' x = (if x = f then rk mp else rk x)" for x
    have "rk' j < rk' i" if "nedge ns' i j" for i j
      using that rk [of i j] rk [of mp j] rk [OF p] nof pf by (auto simp: edge rk'_def)
    then show "\<exists>rk :: nat \<Rightarrow> nat. \<forall>i j. nedge ns' i j \<longrightarrow> rk j < rk i" by blast
  qed
  define sg where "sg x = (if x = mp then f else x)" for x
  have sg_edge: "nedge ns' (sg i) (sg j)" if "nedge ns i j" for i j
  proof (cases "j = mp")
    case True
    with inj [OF that] p have "i = p" by blast
    with True pm show ?thesis by (simp add: edge sg_def)
  next
    case False
    with that p nedge_det have "i \<noteq> p" by blast
    moreover from that nof have "i \<noteq> f" by blast
    ultimately show ?thesis using False that by (auto simp: edge sg_def)
  qed
  have reach: "nreach ns i j \<Longrightarrow> nreach ns' (sg i) (sg j)" for i j
    by (induction rule: rtranclp_induct) (auto dest: sg_edge intro: rtranclp.rtrancl_into_rtrancl)
  have ne: "mainpos (length ns) (nd_key (ns ! i)) \<noteq> mp"
    if "i < length ns" "used_node (ns ! i)" for i
    using that ky mp(2,3) mpl by (auto simp: keys_inv_def)
  note nokey = no_key_at_free [OF e fr ky]
  have moved: "nreach ns' (mainpos (length ns) (nd_key (ns ! i))) (sg i)"
    if "i < length ns" "used_node (ns ! i)" for i
    using reach [of "mainpos (length ns) (nd_key (ns ! i))" i] that ky ne [OF that]
    by (simp add: keys_inv_def sg_def)
  show "keys_inv ns'"
    unfolding keys_inv_def len
  proof (intro conjI allI impI)
    fix i assume "i < length ns" "used_node (ns' ! i)"
    then show "nreach ns' (mainpos (length ns) (nd_key (ns' ! i))) i"
      using moved [of i] moved [of mp] mp(1,2) mpl mpf by (auto simp: key_eq used sg_def)
  next
    fix i j assume ij: "i < length ns" "j < length ns" "used_node (ns' ! i)" "used_node (ns' ! j)"
      "mainpos (length ns) (nd_key (ns' ! i)) \<noteq> i"
    then have im: "i \<noteq> mp" using mp(1) by (auto simp: key_eq)
    show "mainpos (length ns) (nd_key (ns' ! j)) \<noteq> i"
    proof (cases "i = f")
      case True
      then show ?thesis
        using ij nokey(1) [of j] nokey(1) [of mp] mp(1,2) mpf mpl by (auto simp: key_eq used)
    next
      case False
      with ij im have "used_node (ns ! i)" "mainpos (length ns) (nd_key (ns ! i)) \<noteq> i"
        by (simp_all add: key_eq used)
      with ij(1,2,4) ky mp(1,2) mpl im show ?thesis by (auto simp: key_eq used keys_inv_def)
    qed
  next
    fix i j assume ij: "i < length ns" "j < length ns" "used_node (ns' ! i)"
      "nd_key (ns' ! i) = nd_key (ns' ! j)"
    define tau where "tau x = (if x = f then mp else x)" for x
    have old: "x < length ns \<Longrightarrow> x \<noteq> mp \<Longrightarrow> nd_key (ns' ! x) = nd_key (ns ! tau x) \<and> tau x < length ns" for x
      using mpl by (auto simp: key_eq tau_def)
    show "i = j"
    proof (cases "i = mp \<or> j = mp")
      case True
      with ij old k(2) keys(1) show ?thesis by metis
    next
      case False
      with ij old have "nd_key (ns ! tau i) = nd_key (ns ! tau j)" "used_node (ns ! tau i)"
        by (metis, metis used_node_def)
      with ij False old ky have "tau i = tau j" by (auto simp: keys_inv_def)
      with False show ?thesis by (auto simp: tau_def split: if_splits)
    qed
  qed
qed

text \<open>
  \<open>place_key\<close> followed by the assignment of the key: it always returns, keeps the
  structural invariant, adds exactly one used node and changes no other entry.
\<close>

lemma place_key_ok:
  assumes e: "edges_inv ns f" and fr: "free_node (ns ! f)" and ky: "keys_inv ns"
    and k: "k \<noteq> VNull" "\<forall>i < length ns. nd_key (ns ! i) \<noteq> k"
  shows "\<exists>ns1 mp. place_key ns f k = Some (ns1, mp) \<and>
     (let ns2 = ns1[mp := (ns1 ! mp)\<lparr>nd_key := k\<rparr>] in
      edges_inv ns2 f \<and> keys_inv ns2 \<and> placed ns k ns2 mp)"
proof -
  define mp where "mp = mainpos (length ns) k"
  have fl: "f < length ns" using e by auto
  have mpl: "mp < length ns"
    unfolding mp_def using fl by (intro mainpos_less) linarith
  consider (main) "nd_key (ns ! mp) = VNull"
    | (chain) "used_node (ns ! mp)" "mainpos (length ns) (nd_key (ns ! mp)) = mp"
    | (move) "used_node (ns ! mp)" "mainpos (length ns) (nd_key (ns ! mp)) \<noteq> mp"
    by (auto simp: used_node_def)
  then show ?thesis
  proof cases
    case main
    define ns2 where "ns2 = ns[mp := (ns ! mp)\<lparr>nd_key := k\<rparr>]"
    have "edges_inv ns2 f \<and> keys_inv ns2"
      by (rule insert_main [OF e ky k mp_def main])
        (use mpl in \<open>auto simp: ns2_def same_next_def nth_list_update\<close>)
    moreover have "placed ns k ns2 mp"
      unfolding placed_def
    proof (intro conjI allI impI)
      show "length (filter used_node ns2) = Suc (length (filter used_node ns))"
        unfolding ns2_def using mpl main k(1)
        by (intro filter_update_gain) (auto simp: used_node_def)
    qed (use mpl main k in \<open>auto simp: ns2_def nth_list_update used_node_def\<close>)
    moreover have "place_key ns f k = Some (ns, mp)"
      using main by (simp add: place_key_def mp_def [symmetric] Let_def)
    ultimately show ?thesis by (auto simp: ns2_def Let_def)
  next
    case chain
    have mpf: "mp \<noteq> f" using chain(1) fr by (auto simp: used_node_def free_node_def)
    define ns1 where "ns1 = (ns[f := (ns ! f)\<lparr>nd_next := nd_next (ns ! mp)\<rparr>])
      [mp := (ns ! mp)\<lparr>nd_next := Some f\<rparr>]"
    define ns2 where "ns2 = ns1[f := (ns1 ! f)\<lparr>nd_key := k\<rparr>]"
    have "edges_inv ns2 f \<and> keys_inv ns2"
      by (rule insert_chained [OF e fr ky k mp_def chain])
        (use mpl fl mpf in \<open>auto simp: ns2_def ns1_def nth_list_update\<close>)
    moreover have "placed ns k ns2 f"
      unfolding placed_def
    proof (intro conjI allI impI)
      have "length (filter used_node ns2) = Suc (length (filter used_node ns1))"
        unfolding ns2_def using fl mpl mpf fr k(1)
        by (intro filter_update_gain) (auto simp: ns1_def used_node_def free_node_def nth_list_update)
      also have "length (filter used_node ns1) = length (filter used_node ns)"
        unfolding ns1_def using fl mpl mpf
        by (subst filter_update_neutral; (subst filter_update_neutral)?)
          (auto simp: used_node_def)
      finally show "length (filter used_node ns2) = Suc (length (filter used_node ns))" .
    qed (use mpl fl mpf k fr chain(1) in \<open>auto simp: ns2_def ns1_def nth_list_update used_node_def free_node_def\<close>)
    moreover have "place_key ns f k = Some (ns1, f)"
      using chain mpf by (auto simp: place_key_def mp_def [symmetric] Let_def ns1_def used_node_def)
    ultimately show ?thesis by (auto simp: ns2_def Let_def)
  next
    case move
    have "mp \<noteq> f" using move(1) fr by (auto simp: used_node_def free_node_def)
    moreover have "\<not> mp < f" using below_free_main [OF e fr ky, of mp] move by blast
    ultimately have fmp: "f < mp" by linarith
    obtain rk :: "nat \<Rightarrow> nat" where rk: "\<And>i j. nedge ns i j \<Longrightarrow> rk j < rk i"
      using e by (auto simp: edges_inv_def)
    have "\<exists>p. find_prev ns mp (mainpos (length ns) (nd_key (ns ! mp))) = Some p \<and> nedge ns p mp"
      by (rule find_prev_ok) (use ky mpl move rk in \<open>auto simp: keys_inv_def\<close>)
    then obtain p where fp: "find_prev ns mp (mainpos (length ns) (nd_key (ns ! mp))) = Some p"
      and p: "nedge ns p mp" by blast
    have pl: "p < length ns" and pm: "p \<noteq> mp" and pf: "p \<noteq> f"
      using p rk [OF p] no_edge_into_free [OF e fr] by (auto simp: nedge_def)
    define ns1 where "ns1 = ns[p := (ns ! p)\<lparr>nd_next := Some f\<rparr>]"
    define ns2 where "ns2 = ns1[f := (ns1 ! f)\<lparr>nd_key := nd_key (ns1 ! mp),
       nd_val := nd_val (ns1 ! mp), nd_next := nd_next (ns1 ! mp)\<rparr>]"
    define ns3 where "ns3 = ns2[mp := (ns2 ! mp)\<lparr>nd_key := VNull, nd_val := VNull, nd_next := None\<rparr>]"
    define ns4 where "ns4 = ns3[mp := (ns3 ! mp)\<lparr>nd_key := k\<rparr>]"
    note defs = ns1_def ns2_def ns3_def ns4_def
    have "edges_inv ns4 f \<and> keys_inv ns4"
      by (rule insert_moving [OF e fr ky k mp_def move p])
        (use mpl fl fmp pl pm pf in \<open>auto simp: defs nth_list_update\<close>)
    moreover have "placed ns k ns4 mp"
      unfolding placed_def
    proof (intro conjI allI impI)
      have "length (filter used_node ns4) = Suc (length (filter used_node ns3))"
        unfolding ns4_def using fl mpl fmp pl pm pf k(1)
        by (intro filter_update_gain) (auto simp: defs used_node_def nth_list_update)
      also have "Suc (length (filter used_node ns3)) = length (filter used_node ns2)"
        unfolding ns3_def using fl mpl fmp pl pm pf move(1)
        by (intro filter_update_loss) (auto simp: defs used_node_def nth_list_update)
      also have "length (filter used_node ns2) = Suc (length (filter used_node ns1))"
        unfolding ns2_def using fl mpl fmp pl pm pf move(1) fr
        by (intro filter_update_gain) (auto simp: defs used_node_def free_node_def nth_list_update)
      also have "length (filter used_node ns1) = length (filter used_node ns)"
        unfolding ns1_def using pl by (intro filter_update_neutral) (auto simp: used_node_def)
      finally show "length (filter used_node ns4) = Suc (length (filter used_node ns))" .
    next
      fix k' v assume ne: "k' \<noteq> k"
      have "used_node (ns4 ! i) \<and> nd_key (ns4 ! i) = k' \<and> nd_val (ns4 ! i) = v \<longleftrightarrow>
         i \<noteq> mp \<and> (let j = (if i = f then mp else i) in
           used_node (ns ! j) \<and> nd_key (ns ! j) = k' \<and> nd_val (ns ! j) = v)"
        if "i < length ns" for i
        using that fl mpl fmp pl pm pf ne by (auto simp: defs nth_list_update used_node_def)
      then have ex: "(\<exists>i < length ns. used_node (ns4 ! i) \<and> nd_key (ns4 ! i) = k' \<and> nd_val (ns4 ! i) = v)
        \<longleftrightarrow> (\<exists>i < length ns. i \<noteq> mp \<and> (let j = (if i = f then mp else i) in
           used_node (ns ! j) \<and> nd_key (ns ! j) = k' \<and> nd_val (ns ! j) = v))"
        by blast
      have nuf: "\<not> used_node (ns ! f)" using fr by (simp add: free_node_def used_node_def)
      show "(\<exists>i < length ns. used_node (ns4 ! i) \<and> nd_key (ns4 ! i) = k' \<and> nd_val (ns4 ! i) = v) \<longleftrightarrow>
        (\<exists>i < length ns. used_node (ns ! i) \<and> nd_key (ns ! i) = k' \<and> nd_val (ns ! i) = v)"
        unfolding ex
      proof
        assume "\<exists>i < length ns. used_node (ns ! i) \<and> nd_key (ns ! i) = k' \<and> nd_val (ns ! i) = v"
        then obtain j where j: "j < length ns" "used_node (ns ! j)" "nd_key (ns ! j) = k'"
          "nd_val (ns ! j) = v" by blast
        with nuf have "j \<noteq> f" by auto
        with j fl fmp show "\<exists>i < length ns. i \<noteq> mp \<and> (let j = (if i = f then mp else i) in
           used_node (ns ! j) \<and> nd_key (ns ! j) = k' \<and> nd_val (ns ! j) = v)"
          by (intro exI [of _ "if j = mp then f else j"]) auto
      qed (use mpl in \<open>auto simp: Let_def split: if_splits\<close>)
    qed (use mpl fl fmp pl pm pf k p move(1) in
        \<open>auto simp: defs nth_list_update used_node_def nedge_def split: if_splits\<close>)
    moreover have "place_key ns f k = Some (ns3, mp)"
      using move fmp fp
      by (simp add: place_key_def mp_def [symmetric] Let_def used_node_def defs)
    ultimately show ?thesis by (auto simp: ns4_def Let_def)
  qed
qed

subsection \<open>The free pointer\<close>

lemma fix_firstfree_Some:
  "fix_firstfree ns f = Some f' \<Longrightarrow> f' \<le> f \<and> free_node (ns ! f')"
proof (induction ns f rule: fix_firstfree.induct)
  case (1 ns f)
  then show ?case
    by (subst (asm) (2) fix_firstfree.simps) (auto split: if_splits)
qed

lemma fix_firstfree_None:
  "fix_firstfree ns f = None \<Longrightarrow> i \<le> f \<Longrightarrow> \<not> free_node (ns ! i)"
proof (induction ns f rule: fix_firstfree.induct)
  case (1 ns f)
  from "1.prems"(1) have "\<not> free_node (ns ! f)" "f \<noteq> 0 \<longrightarrow> fix_firstfree ns (f - 1) = None"
    by (simp_all add: fix_firstfree.simps [of ns f] split: if_splits)
  with 1 show ?case by (cases "i = f") auto
qed

lemma fix_firstfree_between:
  "fix_firstfree ns f = Some f' \<Longrightarrow> f' < i \<Longrightarrow> i \<le> f \<Longrightarrow> \<not> free_node (ns ! i)"
proof (induction ns f rule: fix_firstfree.induct)
  case (1 ns f)
  then have "\<not> free_node (ns ! f)" "f \<noteq> 0" "fix_firstfree ns (f - 1) = Some f'"
    by (auto simp: fix_firstfree.simps [of ns f] split: if_splits)
  with 1 show ?case by (cases "i = f") auto
qed

lemma edges_inv_lower:
  assumes "edges_inv ns f" "f' \<le> f"
  shows "edges_inv ns f'"
  unfolding edges_inv_def
proof (intro conjI allI impI)
  fix i j assume "nedge ns i j"
  with assms(1) have *: "f \<le> j" "j < length ns" "j = f \<longrightarrow> used_node (ns ! f)"
    by (auto simp: edges_inv_def)
  then show "f' \<le> j" "j < length ns" using assms(2) by auto
  assume "j = f'"
  with * assms(2) show "used_node (ns ! f')" by auto
qed (use assms in \<open>auto simp: edges_inv_def\<close>)

lemma set_val_simps [simp]:
  "length (set_val ns i v) = length ns"
  "nd_key (set_val ns i v ! j) = nd_key (ns ! j)"
  "nd_next (set_val ns i v ! j) = nd_next (ns ! j)"
  "used_node (set_val ns i v ! j) = used_node (ns ! j)"
  "free_node (set_val ns i v ! j) = free_node (ns ! j)"
  "i < length ns \<Longrightarrow> nd_val (set_val ns i v ! j) = (if j = i then v else nd_val (ns ! j))"
  by (cases "i < length ns"; cases "i = j";
      simp add: set_val_def used_node_def free_node_def list_update_beyond)+

lemma set_val_inv:
  assumes "edges_inv ns f" "keys_inv ns" "i < length ns"
  shows "edges_inv (set_val ns i v) f" "keys_inv (set_val ns i v)"
    "length (filter used_node (set_val ns i v)) = length (filter used_node ns)"
proof -
  let ?ns = "set_val ns i v"
  have sn: "same_next ns ?ns" by (simp add: same_next_def)
  show "edges_inv ?ns f"
    by (rule edges_inv_same_next [OF sn assms(1)]) simp
  show "keys_inv ?ns"
    using assms(2) by (simp add: keys_inv_def same_next_nedge [OF sn])
  show "length (filter used_node ?ns) = length (filter used_node ns)"
    unfolding set_val_def
    using assms(3) by (intro filter_update_neutral) (simp_all add: used_node_def)
qed

lemma keys_inv_distinct_keys: "keys_inv ns \<Longrightarrow> distinct_keys ns"
  by (rule keys_inv_distinct) (simp add: keys_inv_def)

lemma map_eq_by_Some: "(\<And>k v. m k = Some v \<longleftrightarrow> m' k = Some v) \<Longrightarrow> m = m'"
  by (intro ext) (metis not_Some_eq)

text \<open>Storing a value in the node of an existing key.\<close>

lemma map_of_set_val:
  assumes "keys_inv ns" "edges_inv ns f" "i < length ns" "nd_key (ns ! i) = k" "k \<noteq> VNull"
  shows "map_of (entries (set_val ns i v)) = (map_of (entries ns))(k \<mapsto> v)"
proof (rule map_eq_by_Some)
  fix k' v'
  let ?ns = "set_val ns i v"
  have d: "distinct_keys ns" "distinct_keys ?ns"
    using assms set_val_inv keys_inv_distinct_keys by blast+
  have uniq: "j < length ns \<Longrightarrow> nd_key (ns ! j) = k \<Longrightarrow> j = i" for j
    using assms by (auto simp: keys_inv_def used_node_def)
  have "map_of (entries ?ns) k' = Some v' \<longleftrightarrow>
     (\<exists>j < length ns. used_node (ns ! j) \<and> nd_key (ns ! j) = k' \<and>
        (if j = i then v else nd_val (ns ! j)) = v')"
    unfolding map_of_entries_iff [OF d(2)]
    using assms(3) by simp
  also have "\<dots> \<longleftrightarrow> ((map_of (entries ns))(k \<mapsto> v)) k' = Some v'"
  proof (cases "k' = k")
    case True
    with assms(3-5) uniq show ?thesis by (metis fun_upd_same option.inject used_node_def)
  next
    case False
    with assms(4) have "\<And>j. nd_key (ns ! j) = k' \<Longrightarrow> j \<noteq> i" by auto
    with False show ?thesis
      by (simp add: map_of_entries_iff [OF d(1)]) metis
  qed
  finally show "map_of (entries ?ns) k' = Some v' \<longleftrightarrow> ((map_of (entries ns))(k \<mapsto> v)) k' = Some v'" .
qed

text \<open>The map after a key was placed and its value stored.\<close>

lemma map_of_placed:
  assumes ky: "keys_inv ns" and ky2: "keys_inv ns2" and e2: "edges_inv ns2 f"
    and pl: "placed ns k ns2 mp" and k: "k \<noteq> VNull"
  shows "map_of (entries (set_val ns2 mp v)) = (map_of (entries ns))(k \<mapsto> v)"
proof -
  have mp: "mp < length ns2" "nd_key (ns2 ! mp) = k" using pl by (auto simp: placed_def)
  have d: "distinct_keys ns" "distinct_keys ns2"
    using ky ky2 keys_inv_distinct_keys by blast+
  have "map_of (entries (set_val ns2 mp v)) = (map_of (entries ns2))(k \<mapsto> v)"
    by (rule map_of_set_val [OF ky2 e2 mp k])
  also have "\<dots> = (map_of (entries ns))(k \<mapsto> v)"
  proof (rule map_eq_by_Some)
    fix k' v'
    show "((map_of (entries ns2))(k \<mapsto> v)) k' = Some v' \<longleftrightarrow>
        ((map_of (entries ns))(k \<mapsto> v)) k' = Some v'"
      using pl by (simp add: map_of_entries_iff [OF d(1)] map_of_entries_iff [OF d(2)] placed_def)
  qed
  finally show ?thesis .
qed

end
