(* ===== verification/Sq_Interfaces.thy ===== *)
theory Sq_Interfaces
  imports Sq_Object
begin

text \<open>
  The contracts between components, as locales. \<open>slot_map\<close> is what the clients of
  \<open>SQTable\<close> rely on: the lexer's keyword table, the compiler's literal table, the members
  of a class and the meta-method index only ever create a table, add slots, look keys up,
  overwrite and remove them. The laws are proved once for the table of \<^verbatim>\<open>sqtable.cpp\<close>
  (theory \<open>Sq_Table_Correct\<close>), and the clients' lemmas are proved here from the laws.
\<close>

text \<open>Adding a list of slots, as the initialisation code does with a run of \<open>NewSlot\<close>.\<close>

fun newslot_all ::
    "('t \<Rightarrow> sqobject \<Rightarrow> sqobject \<Rightarrow> ('t \<times> bool) option)
     \<Rightarrow> 't \<Rightarrow> (sqobject \<times> sqobject) list \<Rightarrow> 't option" where
  "newslot_all newslot t [] = Some t"
| "newslot_all newslot t ((k, v) # kvs) =
     newslot t k v \<bind> (\<lambda>(t', _). newslot_all newslot t' kvs)"

locale slot_map =
  fixes inv :: "'t \<Rightarrow> bool"
    and contents :: "'t \<Rightarrow> sqobject \<rightharpoonup> sqobject"
    and create :: "nat \<Rightarrow> 't"
    and newslot :: "'t \<Rightarrow> sqobject \<Rightarrow> sqobject \<Rightarrow> ('t \<times> bool) option"
    and setslot :: "'t \<Rightarrow> sqobject \<Rightarrow> sqobject \<Rightarrow> ('t \<times> bool) option"
    and remove :: "'t \<Rightarrow> sqobject \<Rightarrow> 't option"
    and get :: "weakstore \<Rightarrow> 't \<Rightarrow> sqobject \<Rightarrow> sqobject option option"
  assumes inv_create: "inv (create n)"
    and contents_create: "contents (create n) = Map.empty"
    and newslot_law: "inv t \<Longrightarrow> k \<noteq> VNull \<Longrightarrow>
      \<exists>t' b. newslot t k v = Some (t', b) \<and> inv t' \<and> contents t' = (contents t)(k \<mapsto> v)"
    and setslot_law: "inv t \<Longrightarrow> k \<noteq> VNull \<Longrightarrow>
      \<exists>t'. setslot t k v = Some (t', k \<in> dom (contents t)) \<and> inv t' \<and>
        contents t' = (if k \<in> dom (contents t) then (contents t)(k \<mapsto> v) else contents t)"
    and remove_law: "inv t \<Longrightarrow> k \<noteq> VNull \<Longrightarrow>
      \<exists>t'. remove t k = Some t' \<and> inv t' \<and> contents t' = (contents t)(k := None)"
    and get_law: "inv t \<Longrightarrow> get W t k = Some (map_option (realval W) (contents t k))"
begin

lemma newslot_all_ok:
  assumes "inv t" "VNull \<notin> fst ` set kvs"
  shows "\<exists>t'. newslot_all newslot t kvs = Some t' \<and> inv t' \<and>
     contents t' = contents t ++ map_of (rev kvs)"
  using assms
proof (induction kvs arbitrary: t)
  case Nil
  then show ?case by simp
next
  case (Cons kv kvs)
  obtain k v where kv: "kv = (k, v)" by force
  obtain t1 b where t1: "newslot t k v = Some (t1, b)" "inv t1" "contents t1 = (contents t)(k \<mapsto> v)"
    using newslot_law [OF Cons.prems(1), of k v] Cons.prems(2) kv by auto
  from Cons.IH [OF t1(2)] Cons.prems(2) obtain t' where
      "newslot_all newslot t1 kvs = Some t'" "inv t'" "contents t' = contents t1 ++ map_of (rev kvs)"
    by auto
  with t1 show ?case
    by (auto simp: kv)
qed

lemma newslot_all_create:
  assumes "VNull \<notin> fst ` set kvs" "distinct (map fst kvs)"
  shows "\<exists>t. newslot_all newslot (create n) kvs = Some t \<and> inv t \<and> contents t = map_of kvs"
proof -
  have "map_of (rev kvs) = map_of kvs"
    using assms(2) by (metis distinct_rev map_of_inject_set rev_map set_rev)
  with newslot_all_ok [OF inv_create assms(1), of n] show ?thesis
    by (auto simp: contents_create)
qed

lemma get_newslot:
  assumes "inv t" "k \<noteq> VNull" "newslot t k v = Some (t', b)"
  shows "get W t' k = Some (Some (realval W v))"
    "k' \<noteq> k \<Longrightarrow> get W t' k' = get W t k'"
  using newslot_law [OF assms(1,2), of v] assms(1,3) by (auto simp: get_law)

lemma get_remove:
  assumes "inv t" "k \<noteq> VNull" "remove t k = Some t'"
  shows "get W t' k = Some None" "k' \<noteq> k \<Longrightarrow> get W t' k' = get W t k'"
  using remove_law [OF assms(1,2)] assms(1,3) by (auto simp: get_law)

end

text \<open>
  \<open>interner\<close> is what the clients of the string table rely on: every string of the virtual
  machine is created through it, so that two strings are the same object exactly when they
  have the same characters, and \<open>SQObjectPtr\<close>s that hold strings are compared and used as
  table keys by address. The allocator's answer is the first argument of \<open>intern\<close>.
\<close>

locale interner =
  fixes inv :: "'t \<Rightarrow> bool"
    and live :: "'t \<Rightarrow> addr \<rightharpoonup> string"
    and new_table :: 't
    and intern :: "addr \<Rightarrow> string \<Rightarrow> 't \<Rightarrow> addr \<times> 't"
    and release :: "addr \<Rightarrow> 't \<Rightarrow> 't option"
  assumes inv_new: "inv new_table"
    and live_new: "live new_table = Map.empty"
    and live_inj: "inv t \<Longrightarrow> live t a = Some s \<Longrightarrow> live t b = Some s \<Longrightarrow> a = b"
    and intern_known: "inv t \<Longrightarrow> live t a = Some s \<Longrightarrow> intern p s t = (a, t)"
    and intern_new: "inv t \<Longrightarrow> s \<notin> ran (live t) \<Longrightarrow> live t p = None \<Longrightarrow>
      \<exists>t'. intern p s t = (p, t') \<and> inv t' \<and> live t' = (live t)(p \<mapsto> s)"
    and release_law: "inv t \<Longrightarrow> live t a = Some s \<Longrightarrow>
      \<exists>t'. release a t = Some t' \<and> inv t' \<and> live t' = (live t)(a := None)"
begin

text \<open>The uses a virtual machine makes of the table: the allocator returns unused addresses
  and only live strings are released.\<close>

inductive reachable :: "'t \<Rightarrow> bool" where
  reach_new: "reachable new_table"
| reach_intern: "reachable t \<Longrightarrow> live t p = None \<Longrightarrow> reachable (snd (intern p s t))"
| reach_release: "reachable t \<Longrightarrow> a \<in> dom (live t) \<Longrightarrow> release a t = Some t' \<Longrightarrow> reachable t'"

lemma intern_result:
  assumes "inv t" "live t p = None"
  shows "\<exists>x t'. intern p s t = (x, t') \<and> inv t' \<and> live t' x = Some s \<and> live t \<subseteq>\<^sub>m live t'"
proof (cases "s \<in> ran (live t)")
  case True
  then obtain a where "live t a = Some s" by (auto simp: ran_def)
  with intern_known [OF assms(1) this] assms(1) show ?thesis by simp
next
  case False
  from intern_new [OF assms(1) False assms(2)] assms(2) show ?thesis
    by (auto simp: map_le_def)
qed

lemma reachable_inv: "reachable t \<Longrightarrow> inv t"
proof (induction rule: reachable.induct)
  case reach_new
  show ?case by (rule inv_new)
next
  case (reach_intern t p s)
  then show ?case using intern_result [of t p s] by auto
next
  case (reach_release t a t')
  then show ?case using release_law [of t a] by fastforce
qed

lemma intern_eq_iff:
  assumes "reachable t" "live t p = None" "intern p a t = (x, t1)"
    and "live t1 q = None" "intern q b t1 = (y, t2)"
  shows "x = y \<longleftrightarrow> a = b"
proof -
  have 1: "inv t1" "live t1 x = Some a"
    using intern_result [OF reachable_inv [OF assms(1)] assms(2), of a] assms(3) by auto
  then have 2: "inv t2" "live t2 y = Some b" "live t1 \<subseteq>\<^sub>m live t2"
    using intern_result [OF 1(1) assms(4), of b] assms(5) by auto
  then have "live t2 x = Some a" using 1(2) by (auto simp: map_le_def dom_def)
  with 2 live_inj [OF 2(1)] show ?thesis by auto
qed

end

end
