(* ===== verification/Sq_Table_Correct.thy ===== *)
theory Sq_Table_Correct
  imports Sq_Table_Inv Sq_Interfaces
begin

text \<open>
  The operations of the hash table against the partial map of its entries: each one
  returns (no assertion fails, no chain walk diverges, the recursion between \<open>NewSlot\<close>
  and \<open>Rehash\<close> is at most two deep), keeps the invariant, and acts on the map as its name
  says. The theory ends with the interpretation of the \<open>slot_map\<close> contract and the
  properties of whole runs of operations.
\<close>

section \<open>Correctness of the operations\<close>

text \<open>A placed key leaves a free node whenever the table was fresh and not full.\<close>

lemma fix_firstfree_fresh:
  assumes "fresh_nodes ns f" "edges_inv ns f" "placed ns k ns2 mp"
    and "Suc (length (filter used_node ns)) < length ns"
  shows "\<exists>f'. fix_firstfree ns2 f = Some f' \<and> fresh_nodes ns2 f'"
proof -
  have len: "length ns2 = length ns"
    and us: "\<And>i. i < length ns \<Longrightarrow> used_node (ns ! i) \<Longrightarrow> used_node (ns2 ! i)"
    and nx: "\<And>i. i < length ns \<Longrightarrow> \<not> used_node (ns2 ! i) \<Longrightarrow> nd_next (ns2 ! i) = None"
    and cnt: "length (filter used_node ns2) < length ns2"
    using assms(1,3,4) by (auto simp: placed_def fresh_nodes_def)
  have free: "free_node (ns2 ! i) \<longleftrightarrow> \<not> used_node (ns2 ! i)" if "i < length ns" for i
    using nx that by (auto simp: free_node_def used_node_def)
  have "fix_firstfree ns2 f \<noteq> None"
  proof
    assume "fix_firstfree ns2 f = None"
    then have "\<forall>i < length ns. i \<le> f \<longrightarrow> used_node (ns2 ! i)"
      using free fix_firstfree_None by blast
    moreover have "\<forall>i < length ns. f < i \<longrightarrow> used_node (ns2 ! i)"
      using assms(1) us by (auto simp: fresh_nodes_def)
    ultimately have "\<forall>i < length ns2. used_node (ns2 ! i)"
      using len not_less by metis
    then have "length (filter used_node ns2) = length ns2" by (simp add: length_filter_all)
    then show False using cnt by simp
  qed
  then obtain f' where f': "fix_firstfree ns2 f = Some f'" by auto
  have "used_node (ns2 ! i)" if "i < length ns" "f' < i" for i
  proof (cases "f < i")
    case True
    then show ?thesis using assms(1) us that by (auto simp: fresh_nodes_def)
  next
    case False
    then show ?thesis using fix_firstfree_between [OF f' that(2)] free that by auto
  qed
  with nx len have "fresh_nodes ns2 f'" unfolding fresh_nodes_def by metis
  with f' show ?thesis by blast
qed

lemma table_inv_parts:
  assumes "table_inv t"
  shows "edges_inv (tb_nodes t) (tb_firstfree t)" "keys_inv (tb_nodes t)"
    "free_node (tb_nodes t ! tb_firstfree t)" "distinct_keys (tb_nodes t)"
    "pow2_size (numofnodes t)"
    "tb_usednodes t = int (length (filter used_node (tb_nodes t)))"
  using assms by (auto simp: table_inv_def intro: keys_inv_distinct_keys)

lemma find_node_ok:
  assumes "table_inv t" "k \<noteq> VNull"
  shows "find_node t k = Some r \<longleftrightarrow>
     (case r of Some i \<Rightarrow> i < numofnodes t \<and> nd_key (tb_nodes t ! i) = k
      | None \<Rightarrow> k \<notin> dom (table_map t))"
  unfolding find_node_def get_chain_found [OF table_inv_parts(1,2) [OF assms(1)] assms(2)]
  using assms(2)
  by (auto simp: table_map_def domIff map_of_entries_None used_node_def split: option.splits)

lemma find_node_Some_exists:
  assumes "table_inv t" "k \<noteq> VNull"
  obtains (present) i where "find_node t k = Some (Some i)" "i < numofnodes t"
      "nd_key (tb_nodes t ! i) = k" "k \<in> dom (table_map t)"
    | (absent) "find_node t k = Some None" "k \<notin> dom (table_map t)"
        "\<forall>i < numofnodes t. nd_key (tb_nodes t ! i) \<noteq> k"
proof (cases "k \<in> dom (table_map t)")
  case True
  then obtain v where "map_of (entries (tb_nodes t)) k = Some v"
    by (auto simp: table_map_def)
  then obtain i where "i < numofnodes t" "nd_key (tb_nodes t ! i) = k"
    using map_of_entries_iff [OF table_inv_parts(4) [OF assms(1)]] by blast
  with present True find_node_ok [OF assms, of "Some i"] show thesis by auto
next
  case False
  with absent find_node_ok [OF assms, of None] show thesis
    using assms(2) by (auto simp: table_map_def domIff map_of_entries_None used_node_def)
qed

lemma table_map_null: "table_map t VNull = None"
  by (simp add: table_map_def map_of_entries_null)

text \<open>\<open>NewSlot\<close> on a key that is present overwrites its value.\<close>

lemma set_val_table:
  assumes "table_inv t" "i < numofnodes t" "nd_key (tb_nodes t ! i) = k" "k \<noteq> VNull"
  shows "table_inv (t\<lparr>tb_nodes := set_val (tb_nodes t) i v\<rparr>)"
    "table_map (t\<lparr>tb_nodes := set_val (tb_nodes t) i v\<rparr>) = (table_map t)(k \<mapsto> v)"
    "fresh_table t \<Longrightarrow> fresh_table (t\<lparr>tb_nodes := set_val (tb_nodes t) i v\<rparr>)"
  using assms table_inv_parts [OF assms(1)]
    set_val_inv [OF table_inv_parts(1,2) [OF assms(1)] assms(2)]
    map_of_set_val [OF table_inv_parts(2,1) [OF assms(1)] assms(2,3,4)]
  by (auto simp: table_inv_def table_map_def fresh_table_def fresh_nodes_def)

text \<open>\<open>NewSlot\<close> on an absent key when the table keeps a free node.\<close>

lemma place_table:
  assumes inv: "table_inv t" and k: "k \<noteq> VNull" "\<forall>i < numofnodes t. nd_key (tb_nodes t ! i) \<noteq> k"
    and pk: "place_key (tb_nodes t) (tb_firstfree t) k = Some (ns1, mp)"
    and ns2: "ns2 = ns1[mp := (ns1 ! mp)\<lparr>nd_key := k\<rparr>]"
    and ff: "fix_firstfree ns2 (tb_firstfree t) = Some f"
    and t': "t' = t\<lparr>tb_nodes := set_val ns2 mp v, tb_firstfree := f,
                  tb_usednodes := tb_usednodes t + 1\<rparr>"
  shows "table_inv t'" "table_map t' = (table_map t)(k \<mapsto> v)" "numofnodes t' = numofnodes t"
    "length (filter used_node (tb_nodes t')) = Suc (length (filter used_node (tb_nodes t)))"
proof -
  note ti = table_inv_parts [OF inv]
  have ok: "edges_inv ns2 (tb_firstfree t)" "keys_inv ns2" "placed (tb_nodes t) k ns2 mp"
    using place_key_ok [OF ti(1,3,2) k] pk by (auto simp: Let_def ns2)
  have f: "f \<le> tb_firstfree t" "free_node (ns2 ! f)"
    using fix_firstfree_Some [OF ff] by auto
  have mp: "mp < length ns2" and len: "length ns2 = numofnodes t"
    and cnt: "length (filter used_node ns2) = Suc (length (filter used_node (tb_nodes t)))"
    using ok(3) by (auto simp: placed_def)
  note sv = set_val_inv [OF edges_inv_lower [OF ok(1) f(1)] ok(2) mp]
  show "numofnodes t' = numofnodes t"
    "length (filter used_node (tb_nodes t')) = Suc (length (filter used_node (tb_nodes t)))"
    using sv(3) cnt len by (auto simp: t')
  show "table_inv t'"
    using ti sv f cnt len by (simp add: table_inv_def t')
  show "table_map t' = (table_map t)(k \<mapsto> v)"
    using map_of_placed [OF ti(2) ok(2,1,3) k(1)] by (simp add: t' table_map_def)
qed

lemma NewSlot_fresh:
  assumes inv: "table_inv t" and fresh: "fresh_table t"
    and k: "k \<noteq> VNull" "k \<notin> dom (table_map t)"
    and room: "Suc (length (filter used_node (tb_nodes t))) < numofnodes t"
  shows "\<exists>t'. NewSlot_rec (Suc d) t k v = Some (t', True) \<and> table_inv t' \<and> fresh_table t' \<and>
     table_map t' = (table_map t)(k \<mapsto> v) \<and> numofnodes t' = numofnodes t \<and>
     length (filter used_node (tb_nodes t')) = Suc (length (filter used_node (tb_nodes t))) \<and>
     tb_delegate t' = tb_delegate t"
proof -
  note ti = table_inv_parts [OF inv]
  have fn: "find_node t k = Some None"
    and ab: "\<forall>i < numofnodes t. nd_key (tb_nodes t ! i) \<noteq> k"
    using k(2) by (cases rule: find_node_Some_exists [OF inv k(1)]; simp)+
  obtain ns1 mp where pk: "place_key (tb_nodes t) (tb_firstfree t) k = Some (ns1, mp)"
    using place_key_ok [OF ti(1,3,2) k(1) ab] by blast
  define ns2 where "ns2 = ns1[mp := (ns1 ! mp)\<lparr>nd_key := k\<rparr>]"
  have "placed (tb_nodes t) k ns2 mp"
    using place_key_ok [OF ti(1,3,2) k(1) ab] pk by (auto simp: Let_def ns2_def)
  then obtain f where f: "fix_firstfree ns2 (tb_firstfree t) = Some f" "fresh_nodes ns2 f"
    using fix_firstfree_fresh [OF fresh [unfolded fresh_table_def] ti(1) _ room] by blast
  define t' where "t' = t\<lparr>tb_nodes := set_val ns2 mp v, tb_firstfree := f,
                  tb_usednodes := tb_usednodes t + 1\<rparr>"
  note pt = place_table [OF inv k(1) ab pk ns2_def f(1) t'_def]
  have "NewSlot_rec (Suc d) t k v = Some (t', True)"
    using k fn pk f by (simp add: NewSlot_rec.simps t'_def Let_def ns2_def [symmetric])
  moreover have "fresh_table t'"
    using f(2) by (simp add: t'_def fresh_table_def fresh_nodes_def)
  ultimately show ?thesis using pt by (auto simp: t'_def)
qed

subsection \<open>Rehashing\<close>

lemma reinsert_ok:
  assumes "table_inv t" "fresh_table t" "distinct_keys nds"
    and "\<forall>nd \<in> set nds. used_node nd \<longrightarrow> nd_key nd \<notin> dom (table_map t)"
    and "length (filter used_node (tb_nodes t)) + length (filter used_node nds) < numofnodes t"
  shows "\<exists>t'. reinsert (NewSlot_rec (Suc d)) t nds = Some t' \<and> table_inv t' \<and> fresh_table t' \<and>
     table_map t' = table_map t ++ map_of (entries nds) \<and> numofnodes t' = numofnodes t \<and>
     tb_delegate t' = tb_delegate t"
  using assms
proof (induction nds arbitrary: t)
  case Nil
  then show ?case by (simp add: entries_def)
next
  case (Cons nd nds)
  show ?case
  proof (cases "used_node nd")
    case False
    then have "entries (nd # nds) = entries nds" "nd_key nd = VNull"
      by (simp_all add: entries_def used_node_def)
    with False Cons show ?thesis by (auto simp: distinct_keys_def)
  next
    case True
    then have k: "nd_key nd \<noteq> VNull" by (simp add: used_node_def)
    obtain t1 where t1: "NewSlot_rec (Suc d) t (nd_key nd) (nd_val nd) = Some (t1, True)"
        "table_inv t1" "fresh_table t1"
        "table_map t1 = (table_map t)(nd_key nd \<mapsto> nd_val nd)" "numofnodes t1 = numofnodes t"
        "length (filter used_node (tb_nodes t1)) = Suc (length (filter used_node (tb_nodes t)))"
        "tb_delegate t1 = tb_delegate t"
      using NewSlot_fresh [OF Cons.prems(1,2) k, of d "nd_val nd"] Cons.prems(4,5) True by auto
    have ent: "entries (nd # nds) = (nd_key nd, nd_val nd) # entries nds"
      using True by (simp add: entries_def)
    then have dk: "distinct_keys nds" and notin: "nd_key nd \<notin> dom (map_of (entries nds))"
      using Cons.prems(3) by (auto simp: distinct_keys_def dom_map_of_conv_image_fst)
    have other: "\<forall>x \<in> set nds. used_node x \<longrightarrow> nd_key x \<notin> dom (table_map t1)"
      using Cons.prems(4) notin t1(4)
      by (auto simp: dom_map_of_conv_image_fst entries_def image_iff)
    obtain t' where t': "reinsert (NewSlot_rec (Suc d)) t1 nds = Some t'" "table_inv t'"
        "fresh_table t'" "table_map t' = table_map t1 ++ map_of (entries nds)"
        "numofnodes t' = numofnodes t1" "tb_delegate t' = tb_delegate t1"
      using Cons.IH [OF t1(2,3) dk other] Cons.prems(5) True t1(5,6) by auto
    have "table_map t' = table_map t ++ map_of (entries (nd # nds))"
      using t'(4) t1(4) notin by (simp add: ent map_add_upd_left map_add_upd)
    with t' t1 k show ?thesis by auto
  qed
qed

lemma AllocNodes_inv:
  assumes "pow2_size sz"
  shows "table_inv ((AllocNodes sz t)\<lparr>tb_usednodes := 0\<rparr>)"
    "fresh_table ((AllocNodes sz t)\<lparr>tb_usednodes := 0\<rparr>)"
    "table_map ((AllocNodes sz t)\<lparr>tb_usednodes := 0\<rparr>) = Map.empty"
    "filter used_node (replicate sz empty_node) = []"
proof -
  have pos: "0 < sz" using assms by (auto simp: pow2_size_def)
  have ne: "\<not> nedge (replicate sz empty_node) i j" for i j
    by (auto simp: nedge_def empty_node_def)
  show nil: "filter used_node (replicate sz empty_node) = []"
    by (simp add: used_node_def empty_node_def)
  show "table_inv ((AllocNodes sz t)\<lparr>tb_usednodes := 0\<rparr>)"
    using assms pos ne nil
    by (auto simp: table_inv_def AllocNodes_def edges_inv_def keys_inv_def free_node_def
        used_node_def empty_node_def)
  show "fresh_table ((AllocNodes sz t)\<lparr>tb_usednodes := 0\<rparr>)"
    by (auto simp: fresh_table_def AllocNodes_def fresh_nodes_def empty_node_def)
  show "table_map ((AllocNodes sz t)\<lparr>tb_usednodes := 0\<rparr>) = Map.empty"
    using nil by (simp add: table_map_def AllocNodes_def entries_def)
qed

lemma reload_ok:
  assumes "pow2_size sz" "distinct_keys nds" "length (filter used_node nds) < sz"
  shows "\<exists>t'. reinsert (NewSlot_rec (Suc d)) ((AllocNodes sz t)\<lparr>tb_usednodes := 0\<rparr>) nds = Some t' \<and>
     table_inv t' \<and> table_map t' = map_of (entries nds) \<and> numofnodes t' = sz \<and>
     tb_delegate t' = tb_delegate t"
  using reinsert_ok [OF AllocNodes_inv(1,2) [OF assms(1), of t] assms(2), of d] assms(3)
    AllocNodes_inv(3) [OF assms(1), of t] AllocNodes_inv(4) [OF assms(1)]
  by (auto simp: AllocNodes_def)

lemma pow2_size_facts:
  assumes "pow2_size n"
  shows "4 \<le> n" "pow2_size (n * 2)" "4 < n \<Longrightarrow> pow2_size (n div 2)" "4 < n \<Longrightarrow> 8 \<le> n"
    "n div 4 * 4 = n"
proof -
  obtain m where m: "n = 4 * 2 ^ m" using assms by (auto simp: pow2_size_def)
  show "4 \<le> n" "n div 4 * 4 = n" by (simp_all add: m)
  show "pow2_size (n * 2)" unfolding pow2_size_def m by (intro exI [of _ "Suc m"]) simp
  assume "4 < n"
  then obtain m' where m': "m = Suc m'" using m by (cases m) auto
  show "pow2_size (n div 2)" unfolding pow2_size_def m m' by (intro exI [of _ m']) simp
  show "8 \<le> n" by (simp add: m m')
qed

text \<open>
  \<open>Rehash\<close> is called with \<open>_usednodes\<close> equal to the number of entries, or, from
  \<open>NewSlot\<close>, one less: the new key is already in the node array but not yet counted.
\<close>

lemma Rehash_ok:
  assumes sz: "pow2_size (numofnodes t)" and d: "distinct_keys (tb_nodes t)"
    and cnt: "int (length (filter used_node (tb_nodes t))) - 1 \<le> tb_usednodes t"
    and force: "\<not> force \<Longrightarrow> table_inv t"
  shows "\<exists>t'. Rehash (NewSlot_rec (Suc d')) force t = Some t' \<and> table_inv t' \<and>
     table_map t' = table_map t \<and> tb_delegate t' = tb_delegate t"
proof -
  let ?n = "numofnodes t" and ?c = "length (filter used_node (tb_nodes t))"
  note p = pow2_size_facts [OF sz]
  have c: "?c \<le> ?n" by (rule length_filter_le)
  have div: "?n = 4 * (?n div 4)" using p(5) by simp
  consider (double) "int ?n - int (?n div 4) \<le> tb_usednodes t"
    | (half) "\<not> int ?n - int (?n div 4) \<le> tb_usednodes t" "tb_usednodes t \<le> int (?n div 4)" "4 < ?n"
    | (same) "\<not> int ?n - int (?n div 4) \<le> tb_usednodes t"
        "\<not> (tb_usednodes t \<le> int (?n div 4) \<and> 4 < ?n)" by blast
  then show ?thesis
  proof cases
    case double
    have "?c < ?n * 2" using c p(1) by linarith
    with double p(1) reload_ok [OF p(2) d, of d' t] show ?thesis
      by (auto simp: Rehash_def Let_def table_map_def)
  next
    case half
    have "?c < ?n div 2" using half cnt p(4) [OF half(3)] div by linarith
    with half reload_ok [OF p(3) [OF half(3)] d, of d' t] show ?thesis
      by (auto simp: Rehash_def Let_def table_map_def MINPOWER2_def)
  next
    case same
    have "?c < ?n" using same cnt div p(1) by linarith
    with same p(1) reload_ok [OF sz d, of d' t] force show ?thesis
      by (cases force) (auto simp: Rehash_def Let_def table_map_def MINPOWER2_def)
  qed
qed


text \<open>
  \<open>NewSlot\<close> always returns, at recursion depth 2, and is the update of the map. Its
  result says whether the key was new only when no rehash was needed.
\<close>

lemma NewSlot_rec_ok:
  assumes inv: "table_inv t" and k: "k \<noteq> VNull"
  shows "\<exists>t' b. NewSlot_rec (Suc (Suc d)) t k v = Some (t', b) \<and> table_inv t' \<and>
     table_map t' = (table_map t)(k \<mapsto> v) \<and> tb_delegate t' = tb_delegate t \<and>
     (b \<longrightarrow> k \<notin> dom (table_map t))"
proof (cases rule: find_node_Some_exists [OF inv k])
  case (1 i)
  with set_val_table [OF inv 1(2,3) k] k show ?thesis
    by (auto simp: NewSlot_rec.simps)
next
  case 2
  note ti = table_inv_parts [OF inv]
  obtain ns1 mp where pk: "place_key (tb_nodes t) (tb_firstfree t) k = Some (ns1, mp)"
    using place_key_ok [OF ti(1,3,2) k 2(3)] by blast
  define ns2 where "ns2 = ns1[mp := (ns1 ! mp)\<lparr>nd_key := k\<rparr>]"
  show ?thesis
  proof (cases "fix_firstfree ns2 (tb_firstfree t)")
    case (Some f)
    note pt = place_table [OF inv k 2(3) pk ns2_def Some refl, of v]
    have "NewSlot_rec (Suc (Suc d)) t k v = Some (t\<lparr>tb_nodes := set_val ns2 mp v,
        tb_firstfree := f, tb_usednodes := tb_usednodes t + 1\<rparr>, True)"
      using k 2 pk Some by (simp add: NewSlot_rec.simps Let_def ns2_def [symmetric])
    with pt 2(2) show ?thesis by auto
  next
    case None
    define t1 where "t1 = t\<lparr>tb_nodes := ns2, tb_firstfree := 0\<rparr>"
    have ok: "edges_inv ns2 (tb_firstfree t)" "keys_inv ns2" "placed (tb_nodes t) k ns2 mp"
      using place_key_ok [OF ti(1,3,2) k 2(3)] pk by (auto simp: Let_def ns2_def)
    have "pow2_size (numofnodes t1)" "distinct_keys (tb_nodes t1)"
      "int (length (filter used_node (tb_nodes t1))) - 1 \<le> tb_usednodes t1"
      using ok ti by (auto simp: t1_def placed_def intro: keys_inv_distinct_keys)
    from Rehash_ok [OF this, of True d] obtain t2 where t2:
        "Rehash (NewSlot_rec (Suc d)) True t1 = Some t2" "table_inv t2"
        "table_map t2 = table_map t1" "tb_delegate t2 = tb_delegate t1" by auto
    have upd: "(table_map t1)(k \<mapsto> v) = (table_map t)(k \<mapsto> v)"
      using map_of_placed [OF ti(2) ok(2,1,3) k, of v]
        map_of_set_val [OF ok(2,1) _ _ k, of mp v] ok(3)
      by (auto simp: table_map_def t1_def placed_def)
    have "k \<in> dom (table_map t1)"
      using map_of_entries_None [of ns2 k] ok(3) k
      by (fastforce simp: table_map_def t1_def placed_def used_node_def)
    then obtain i where i: "find_node t2 k = Some (Some i)" "i < numofnodes t2"
        "nd_key (tb_nodes t2 ! i) = k"
      using t2(3) by (cases rule: find_node_Some_exists [OF t2(2) k]) auto
    note sv = set_val_table [OF t2(2) i(2,3) k, of v]
    have "NewSlot_rec (Suc (Suc d)) t k v = NewSlot_rec (Suc d) t2 k v"
      using k 2 pk None t2(1)
      by (simp add: NewSlot_rec.simps(2) [of "Suc d" t] Let_def ns2_def [symmetric] t1_def [symmetric])
    also have "\<dots> = Some (t2\<lparr>tb_nodes := set_val (tb_nodes t2) i v\<rparr>, False)"
      using k i(1) by (simp add: NewSlot_rec.simps)
    finally show ?thesis using sv t2(3,4) upd by (auto simp: t1_def)
  qed
qed

subsection \<open>The public operations\<close>

lemma NewSlot_ok:
  assumes "table_inv t" "k \<noteq> VNull"
  shows "\<exists>t' b. table_NewSlot t k v = Some (t', b) \<and> table_inv t' \<and>
     table_map t' = (table_map t)(k \<mapsto> v) \<and> tb_delegate t' = tb_delegate t \<and>
     (b \<longrightarrow> k \<notin> dom (table_map t))"
  using NewSlot_rec_ok [OF assms, of 0 v] by (simp add: table_NewSlot_def numeral_2_eq_2)

lemma present_value:
  assumes "table_inv t" "i < numofnodes t" "nd_key (tb_nodes t ! i) = k" "k \<noteq> VNull"
  shows "table_map t k = Some (nd_val (tb_nodes t ! i))"
  unfolding table_map_def map_of_entries_iff [OF table_inv_parts(4) [OF assms(1)]]
  using assms by (auto simp: used_node_def)

lemma Get_ok:
  assumes "table_inv t"
  shows "table_Get W t k = Some (map_option (realval W) (table_map t k))"
proof (cases "k = VNull")
  case True
  then show ?thesis by (simp add: table_Get_def table_map_null)
next
  case False
  show ?thesis
    using False present_value [OF assms _ _ False]
    by (cases rule: find_node_Some_exists [OF assms False]) (auto simp: table_Get_def domIff)
qed

lemma Set_ok:
  assumes "table_inv t" "k \<noteq> VNull"
  shows "\<exists>t'. table_Set t k v = Some (t', k \<in> dom (table_map t)) \<and> table_inv t' \<and>
     table_map t' = (if k \<in> dom (table_map t) then (table_map t)(k \<mapsto> v) else table_map t) \<and>
     tb_delegate t' = tb_delegate t"
proof (cases rule: find_node_Some_exists [OF assms])
  case (1 i)
  then show ?thesis using set_val_table [OF assms(1) 1(2,3) assms(2), of v]
    by (auto simp: table_Set_def)
next
  case 2
  then show ?thesis using assms(1) by (auto simp: table_Set_def)
qed

lemma clear_node_inv:
  assumes inv: "table_inv t" and i: "i < numofnodes t" "nd_key (tb_nodes t ! i) = k" "k \<noteq> VNull"
    and ns': "ns' = (tb_nodes t)[i := (tb_nodes t ! i)\<lparr>nd_val := VNull, nd_key := VNull\<rparr>]"
    and t': "t' = t\<lparr>tb_nodes := ns', tb_usednodes := tb_usednodes t - 1\<rparr>"
  shows "table_inv t'" "table_map t' = (table_map t)(k := None)"
proof -
  let ?ns = "tb_nodes t"
  note ti = table_inv_parts [OF inv]
  have len: "length ns' = length ?ns" by (simp add: ns')
  have sn: "same_next ?ns ns'" using i by (simp add: ns' same_next_def nth_list_update)
  have key: "nd_key (ns' ! j) = (if j = i then VNull else nd_key (?ns ! j))" for j
    using i(1) by (simp add: ns' nth_list_update)
  have val: "nd_val (ns' ! j) = (if j = i then VNull else nd_val (?ns ! j))" for j
    using i(1) by (simp add: ns' nth_list_update)
  have used: "used_node (ns' ! j) \<longleftrightarrow> j \<noteq> i \<and> used_node (?ns ! j)" for j
    by (simp add: used_node_def key)
  have fi: "tb_firstfree t \<noteq> i" using ti(3) i by (auto simp: free_node_def)
  have ky: "keys_inv ns'"
    using ti(2) unfolding keys_inv_def len same_next_nedge [OF sn]
    by (simp add: key used used_node_def) metis
  have "edges_inv ns' (tb_firstfree t)"
    by (rule edges_inv_same_next [OF sn ti(1)]) (use fi used in auto)
  moreover have "free_node (ns' ! tb_firstfree t)"
    using ti(3) fi i(1) by (simp add: ns')
  moreover have "Suc (length (filter used_node ns')) = length (filter used_node ?ns)"
    unfolding ns' using i by (intro filter_update_loss) (simp_all add: used_node_def)
  ultimately show "table_inv t'"
    using ky ti(5,6) len by (simp add: table_inv_def t')
  have d: "distinct_keys ns'" using ky by (rule keys_inv_distinct_keys)
  have "map_of (entries ns') = (map_of (entries ?ns))(k := None)"
  proof (rule map_eq_by_Some)
    fix k' v'
    have uniq: "j < length ?ns \<Longrightarrow> nd_key (?ns ! j) = k \<Longrightarrow> j = i" for j
      using ti(2) i by (auto simp: keys_inv_def used_node_def)
    show "map_of (entries ns') k' = Some v' \<longleftrightarrow> ((map_of (entries ?ns))(k := None)) k' = Some v'"
    proof (cases "k' = k")
      case True
      have "\<not> (\<exists>j < length ns'. used_node (ns' ! j) \<and> nd_key (ns' ! j) = k \<and> nd_val (ns' ! j) = v')"
        using uniq by (auto simp: len used key)
      with True show ?thesis by (simp add: map_of_entries_iff [OF d])
    next
      case False
      with i(2) have "\<And>j. nd_key (?ns ! j) = k' \<Longrightarrow> j \<noteq> i" by auto
      with False show ?thesis
        by (simp add: map_of_entries_iff [OF ti(4)] map_of_entries_iff [OF d] len key val used) metis
    qed
  qed
  then show "table_map t' = (table_map t)(k := None)" by (simp add: table_map_def t')
qed

lemma Remove_ok:
  assumes "table_inv t" "k \<noteq> VNull"
  shows "\<exists>t'. table_Remove t k = Some t' \<and> table_inv t' \<and>
     table_map t' = (table_map t)(k := None) \<and> tb_delegate t' = tb_delegate t"
proof (cases rule: find_node_Some_exists [OF assms])
  case (1 i)
  define t1 where "t1 = t\<lparr>tb_nodes := (tb_nodes t)[i := (tb_nodes t ! i)
      \<lparr>nd_val := VNull, nd_key := VNull\<rparr>], tb_usednodes := tb_usednodes t - 1\<rparr>"
  note cl = clear_node_inv [OF assms(1) 1(2,3) assms(2) refl t1_def]
  note ti = table_inv_parts [OF cl(1)]
  have "table_NewSlot = NewSlot_rec (Suc (Suc 0))"
    by (simp add: table_NewSlot_def numeral_2_eq_2)
  then obtain t' where "Rehash table_NewSlot False t1 = Some t'" "table_inv t'"
      "table_map t' = table_map t1" "tb_delegate t' = tb_delegate t1"
    using Rehash_ok [OF ti(5,4), where force = False and d' = "Suc 0"] ti(6) cl(1) by auto
  then show ?thesis using 1(1) cl(2) by (auto simp: table_Remove_def t1_def)
next
  case 2
  then have "(table_map t)(k := None) = table_map t" by (auto simp: domIff)
  with 2 assms(1) show ?thesis by (auto simp: table_Remove_def)
qed

lemma pow2size_loop_ok: "pow2_size p \<Longrightarrow> pow2_size (pow2size_loop n p) \<and> n \<le> pow2size_loop n p"
proof (induction n p rule: pow2size_loop.induct)
  case (1 n p)
  from "1.prems" have "0 < p" by (auto simp: pow2_size_def)
  with 1 pow2_size_facts(2) [OF "1.prems"] show ?case
    by (subst (1 2) pow2size_loop.simps) (auto simp: mult.commute)
qed

lemma Create_ok:
  "table_inv (table_Create n)" "table_map (table_Create n) = Map.empty"
  "n \<le> numofnodes (table_Create n)" "tb_delegate (table_Create n) = None"
proof -
  have "pow2_size MINPOWER2" unfolding pow2_size_def MINPOWER2_def by (intro exI [of _ 0]) simp
  note p = pow2size_loop_ok [OF this, of n]
  let ?t = "\<lparr>tb_firstfree = 0, tb_nodes = [], tb_usednodes = 0, tb_delegate = None\<rparr>"
  let ?sz = "pow2size_loop n MINPOWER2"
  have "table_Create n = (AllocNodes ?sz ?t)\<lparr>tb_usednodes := 0\<rparr>"
    by (simp add: table_Create_def AllocNodes_def)
  with AllocNodes_inv(1-3) [of ?sz ?t] p
  show "table_inv (table_Create n)" "table_map (table_Create n) = Map.empty"
    "n \<le> numofnodes (table_Create n)" "tb_delegate (table_Create n) = None"
    by (auto simp: AllocNodes_def)
qed

lemma entries_cleared:
  "entries (map (\<lambda>nd. nd\<lparr>nd_key := VNull, nd_val := VNull\<rparr>) ns) = []"
  "filter used_node (map (\<lambda>nd. nd\<lparr>nd_key := VNull, nd_val := VNull\<rparr>) ns) = []"
  by (auto simp: entries_def used_node_def filter_empty_conv)

lemma Clear_ok:
  assumes "table_inv t"
  shows "\<exists>t'. table_Clear t = Some t' \<and> table_inv t' \<and> table_map t' = Map.empty \<and>
     tb_delegate t' = tb_delegate t"
proof -
  let ?t = "(ClearNodes t)\<lparr>tb_usednodes := 0\<rparr>"
  have "pow2_size (numofnodes ?t)" "distinct_keys (tb_nodes ?t)"
    "int (length (filter used_node (tb_nodes ?t))) - 1 \<le> tb_usednodes ?t" "table_map ?t = Map.empty"
    using table_inv_parts(5) [OF assms]
    by (simp_all add: ClearNodes_def distinct_keys_def entries_cleared table_map_def)
  then show ?thesis
    using Rehash_ok [where t = ?t and force = True and d' = "Suc 0"]
    by (auto simp: table_Clear_def table_NewSlot_def numeral_2_eq_2 ClearNodes_def)
qed

subsection \<open>Iteration and cloning\<close>

lemma next_loop_ok:
  "case next_loop ns idx of
     None \<Rightarrow> entries (drop idx ns) = []
   | Some (idx', nd) \<Rightarrow> idx < idx' \<and> idx < length ns \<and> idx' \<le> length ns \<and> used_node nd \<and>
       nd \<in> set ns \<and> entries (drop idx ns) = (nd_key nd, nd_val nd) # entries (drop idx' ns)"
proof (induction ns idx rule: next_loop.induct)
  case (1 ns idx)
  show ?case
  proof (cases "idx < length ns")
    case True
    then have d: "drop idx ns = ns ! idx # drop (Suc idx) ns" by (simp add: Cons_nth_drop_Suc)
    show ?thesis
    proof (cases "nd_key (ns ! idx) = VNull")
      case null: True
      with d have "entries (drop idx ns) = entries (drop (Suc idx) ns)"
        by (simp add: entries_def used_node_def)
      with 1 [OF True] null True show ?thesis
        by (subst next_loop.simps) (auto split: option.splits)
    next
      case False
      with True d show ?thesis
        by (subst next_loop.simps) (simp add: entries_def used_node_def)
    qed
  next
    case False
    then show ?thesis by (subst next_loop.simps) (simp add: entries_def)
  qed
qed

lemma iterate_ok:
  "iterate W g t idx =
     map (\<lambda>(k, v). (k, if g then v else realval W v)) (entries (drop idx (tb_nodes t)))"
proof (induction W g t idx rule: iterate.induct)
  case (1 W g t idx)
  show ?case
  proof (cases "next_loop (tb_nodes t) idx")
    case None
    then show ?thesis
      using next_loop_ok [where ns = "tb_nodes t" and idx = idx]
      by (simp add: iterate.simps [of W g t idx] table_Next_def)
  next
    case (Some p)
    obtain idx' nd where p: "p = (idx', nd)" by force
    have s: "idx < idx'" "idx < numofnodes t"
        "entries (drop idx (tb_nodes t)) = (nd_key nd, nd_val nd) # entries (drop idx' (tb_nodes t))"
      using next_loop_ok [where ns = "tb_nodes t" and idx = idx] Some p by auto
    then show ?thesis
      using "1.IH" [of "(idx', nd_key nd, if g then nd_val nd else realval W (nd_val nd))" idx'
          "(nd_key nd, if g then nd_val nd else realval W (nd_val nd))"] Some p
      by (simp add: iterate.simps [of W g t idx] table_Next_def)
  qed
qed

lemma clone_loop_ok:
  assumes "table_inv nt" "distinct (map fst (entries (drop r ns)))"
  shows "\<exists>nt'. clone_loop ns r nt = Some nt' \<and> table_inv nt' \<and>
     table_map nt' = table_map nt ++ map_of (entries (drop r ns)) \<and>
     tb_delegate nt' = tb_delegate nt"
  using assms
proof (induction ns r nt rule: clone_loop.induct)
  case (1 ns r nt)
  show ?case
  proof (cases "next_loop ns r")
    case None
    then show ?thesis using next_loop_ok [where ns = ns and idx = r] "1.prems"
      by (subst clone_loop.simps) auto
  next
    case (Some p)
    obtain r' nd where p: "p = (r', nd)" by force
    have s: "r < r'" "r < length ns" "used_node nd"
        "entries (drop r ns) = (nd_key nd, nd_val nd) # entries (drop r' ns)"
      using next_loop_ok [where ns = ns and idx = r] Some p by auto
    then obtain nt1 b where nt1: "table_NewSlot nt (nd_key nd) (nd_val nd) = Some (nt1, b)"
        "table_inv nt1" "table_map nt1 = (table_map nt)(nd_key nd \<mapsto> nd_val nd)"
        "tb_delegate nt1 = tb_delegate nt"
      using NewSlot_ok [OF "1.prems"(1)] by (fastforce simp: used_node_def)
    have d: "distinct (map fst (entries (drop r' ns)))"
      and n: "nd_key nd \<notin> dom (map_of (entries (drop r' ns)))"
      using "1.prems"(2) s(4) by (auto simp: dom_map_of_conv_image_fst)
    obtain nt' where "clone_loop ns r' nt1 = Some nt'" "table_inv nt'"
        "table_map nt' = table_map nt1 ++ map_of (entries (drop r' ns))"
        "tb_delegate nt' = tb_delegate nt1"
      using "1.IH" [OF Some p [symmetric] _ nt1(1) refl nt1(2) d] s(1,2) by blast
    then show ?thesis
      using Some p s nt1 n
      by (subst clone_loop.simps) (auto simp: map_add_upd_left)
  qed
qed

lemma Clone_ok:
  assumes "table_inv t"
  shows "\<exists>t'. table_Clone t = Some t' \<and> table_inv t' \<and> table_map t' = table_map t \<and>
     tb_delegate t' = tb_delegate t"
proof -
  have "distinct (map fst (entries (drop 0 (tb_nodes t))))"
    using table_inv_parts(4) [OF assms] by (simp add: distinct_keys_def)
  from clone_loop_ok [OF Create_ok(1) [of "numofnodes t"] this] obtain nt where
      "clone_loop (tb_nodes t) 0 (table_Create (numofnodes t)) = Some nt" "table_inv nt"
      "table_map nt = map_of (entries (tb_nodes t))"
    by (auto simp: Create_ok(2))
  then show ?thesis
    by (auto simp: table_Clone_def table_inv_def table_map_def)
qed

subsection \<open>Lookup by C string\<close>

lemma getstr_chain_eq:
  assumes "edges_inv ns f" "i < length ns" "CHR 0x00 \<notin> set s"
    and "\<forall>j < length ns. \<forall>s'. nd_key (ns ! j) = VString s' \<longrightarrow> CHR 0x00 \<notin> set s'"
  shows "getstr_chain ns s i = get_chain ns (VString s) i"
proof -
  have cs: "CHR 0x00 \<notin> set x \<Longrightarrow> cstr x = x" for x
    by (auto simp: cstr_def takeWhile_eq_all_conv)
  obtain rk :: "nat \<Rightarrow> nat" where rk: "\<forall>i j. nedge ns i j \<longrightarrow> rk j < rk i"
    using assms(1) by (auto simp: edges_inv_def)
  show ?thesis
    using assms(2)
  proof (induction "rk i" arbitrary: i rule: less_induct)
    case less
    have match: "(case nd_key (ns ! i) of VString s' \<Rightarrow> cstr s' = cstr s | _ \<Rightarrow> False)
        \<longleftrightarrow> nd_key (ns ! i) = VString s"
      using cs assms(3,4) less.prems by (auto split: sqobject.splits)
    have "getstr_chain ns s j = get_chain ns (VString s) j" if "nd_next (ns ! i) = Some j" for j
    proof -
      have "nedge ns i j" using that less.prems by (simp add: nedge_def)
      with rk assms(1) less.hyps show ?thesis by (auto simp: edges_inv_def)
    qed
    with match show ?case
      by (subst getstr_chain.simps, subst get_chain.simps) (simp split: option.splits)
  qed
qed

lemma GetStr_ok:
  assumes "table_inv t" "CHR 0x00 \<notin> set s"
    and nul: "\<forall>s'. VString s' \<in> dom (table_map t) \<longrightarrow> CHR 0x00 \<notin> set s'"
  shows "table_GetStr W t s (length s) = Some (map_option (realval W) (table_map t (VString s)))"
proof -
  note ti = table_inv_parts [OF assms(1)]
  have "0 < numofnodes t" using pow2_size_facts(1) [OF ti(5)] by linarith
  then have m: "mainpos (numofnodes t) (VString s) < numofnodes t" by (rule mainpos_less)
  have "getstr_chain (tb_nodes t) s (mainpos (numofnodes t) (VString s)) = find_node t (VString s)"
    unfolding find_node_def
  proof (rule getstr_chain_eq [OF ti(1) m assms(2)], intro allI impI)
    fix j s' assume "j < numofnodes t" "nd_key (tb_nodes t ! j) = VString s'"
    then show "CHR 0x00 \<notin> set s'" using nul present_value [OF assms(1), of j] by auto
  qed
  then show ?thesis
    using Get_ok [OF assms(1), of W "VString s"]
    by (simp add: table_GetStr_def table_Get_def mainpos_def)
qed

section \<open>The contract and runs of operations\<close>

interpretation tbl: slot_map table_inv table_map table_Create table_NewSlot table_Set table_Remove
  table_Get
proof
  fix n t W k v
  show "table_inv (table_Create n)" "table_map (table_Create n) = Map.empty"
    by (rule Create_ok)+
  assume inv: "table_inv t"
  show "table_Get W t k = Some (map_option (realval W) (table_map t k))"
    by (rule Get_ok [OF inv])
  assume k: "k \<noteq> VNull"
  show "\<exists>t' b. table_NewSlot t k v = Some (t', b) \<and> table_inv t' \<and>
      table_map t' = (table_map t)(k \<mapsto> v)"
    using NewSlot_ok [OF inv k] by blast
  show "\<exists>t'. table_Set t k v = Some (t', k \<in> dom (table_map t)) \<and> table_inv t' \<and>
      table_map t' = (if k \<in> dom (table_map t) then (table_map t)(k \<mapsto> v) else table_map t)"
    using Set_ok [OF inv k] by blast
  show "\<exists>t'. table_Remove t k = Some t' \<and> table_inv t' \<and> table_map t' = (table_map t)(k := None)"
    using Remove_ok [OF inv k] by blast
qed

text \<open>A run of operations on one table, and the same run on the abstract map.\<close>

datatype table_op =
  OpNewSlot sqobject sqobject | OpSet sqobject sqobject | OpRemove sqobject | OpClear | OpClone

fun op_ok :: "table_op \<Rightarrow> bool" where
  "op_ok (OpNewSlot k v) = (k \<noteq> VNull)"
| "op_ok (OpSet k v) = (k \<noteq> VNull)"
| "op_ok (OpRemove k) = (k \<noteq> VNull)"
| "op_ok OpClear = True"
| "op_ok OpClone = True"

fun table_step :: "sqtable \<Rightarrow> table_op \<Rightarrow> sqtable option" where
  "table_step t (OpNewSlot k v) = map_option fst (table_NewSlot t k v)"
| "table_step t (OpSet k v) = map_option fst (table_Set t k v)"
| "table_step t (OpRemove k) = table_Remove t k"
| "table_step t OpClear = table_Clear t"
| "table_step t OpClone = table_Clone t"

fun map_step :: "(sqobject \<rightharpoonup> sqobject) \<Rightarrow> table_op \<Rightarrow> (sqobject \<rightharpoonup> sqobject)" where
  "map_step m (OpNewSlot k v) = m(k \<mapsto> v)"
| "map_step m (OpSet k v) = (if k \<in> dom m then m(k \<mapsto> v) else m)"
| "map_step m (OpRemove k) = m(k := None)"
| "map_step m OpClear = Map.empty"
| "map_step m OpClone = m"

fun table_run :: "sqtable \<Rightarrow> table_op list \<Rightarrow> sqtable option" where
  "table_run t [] = Some t"
| "table_run t (op # ops) = table_step t op \<bind> (\<lambda>t'. table_run t' ops)"

lemma table_step_ok:
  assumes "table_inv t" "op_ok op"
  shows "\<exists>t'. table_step t op = Some t' \<and> table_inv t' \<and>
     table_map t' = map_step (table_map t) op \<and> tb_delegate t' = tb_delegate t"
proof (cases op)
  case (OpNewSlot k v)
  then show ?thesis using NewSlot_ok [OF assms(1), of k v] assms(2) by auto
next
  case (OpSet k v)
  then show ?thesis using Set_ok [OF assms(1), of k v] assms(2) by auto
next
  case (OpRemove k)
  then show ?thesis using Remove_ok [OF assms(1), of k] assms(2) by auto
next
  case OpClear
  then show ?thesis using Clear_ok [OF assms(1)] by auto
next
  case OpClone
  then show ?thesis using Clone_ok [OF assms(1)] by auto
qed

lemma table_run_ok:
  assumes "table_inv t" "list_all op_ok ops"
  shows "\<exists>t'. table_run t ops = Some t' \<and> table_inv t' \<and>
     table_map t' = foldl map_step (table_map t) ops \<and> tb_delegate t' = tb_delegate t"
  using assms
proof (induction ops arbitrary: t)
  case Nil
  then show ?case by simp
next
  case (Cons op ops)
  then obtain t1 where t1: "table_step t op = Some t1" "table_inv t1"
      "table_map t1 = map_step (table_map t) op" "tb_delegate t1 = tb_delegate t"
    using table_step_ok [of t op] by auto
  with Cons.IH [of t1] Cons.prems show ?case by auto
qed

text \<open>
  C1. Every run of \<open>NewSlot\<close>, \<open>Set\<close>, \<open>Remove\<close>, \<open>Clear\<close> and \<open>Clone\<close> with non-null keys
  on a newly created table, of any initial size, returns: no assertion fails, no walk along
  a chain diverges and no rehash runs out of nodes. After the run, a lookup of any key
  gives what the same run on a partial map gives, and the count of used nodes is the number
  of keys.
\<close>

theorem table_run_refines_map:
  assumes "list_all op_ok ops"
  shows "\<exists>t. table_run (table_Create n) ops = Some t \<and>
     (\<forall>W k. table_Get W t k = Some (map_option (realval W) (foldl map_step Map.empty ops k))) \<and>
     CountUsed t = int (card (dom (foldl map_step Map.empty ops)))"
proof -
  obtain t where t: "table_run (table_Create n) ops = Some t" "table_inv t"
      "table_map t = foldl map_step Map.empty ops"
    using table_run_ok [OF Create_ok(1) assms, of n] by (auto simp: Create_ok(2))
  have "int (card (dom (table_map t))) = tb_usednodes t"
    using table_inv_parts(6) [OF t(2)] distinct_card [of "map fst (entries (tb_nodes t))"]
      table_inv_parts(4) [OF t(2)]
    by (simp add: table_map_def distinct_keys_def dom_map_of_conv_image_fst)
      (simp add: entries_def)
  with t Get_ok [OF t(2)] show ?thesis by (auto simp: CountUsed_def)
qed

theorem table_run_refines_map_witness:
  "list_all op_ok [OpNewSlot (VInteger 0) (VInteger 7), OpNewSlot (VInteger 4) (VInteger 8),
       OpRemove (VInteger 0), OpSet (VInteger 4) (VInteger 9)] \<and>
   (\<exists>t. table_run (table_Create 0) [OpNewSlot (VInteger 0) (VInteger 7),
       OpNewSlot (VInteger 4) (VInteger 8), OpRemove (VInteger 0),
       OpSet (VInteger 4) (VInteger 9)] = Some t \<and>
     table_Get (\<lambda>_. VNull) t (VInteger 4) = Some (Some (VInteger 9)) \<and>
     table_Get (\<lambda>_. VNull) t (VInteger 0) = Some None)"
proof -
  let ?ops = "[OpNewSlot (VInteger 0) (VInteger 7), OpNewSlot (VInteger 4) (VInteger 8),
       OpRemove (VInteger 0), OpSet (VInteger 4) (VInteger 9)]"
  have ok: "list_all op_ok ?ops" by simp
  from table_run_refines_map [OF ok, of 0] obtain t where
      "table_run (table_Create 0) ?ops = Some t"
      "\<forall>W k. table_Get W t k = Some (map_option (realval W) (foldl map_step Map.empty ?ops k))"
    by blast
  then show ?thesis using ok by (auto simp: realval_def)
qed

text \<open>
  C19. Iterating a table reached by any run of operations visits every entry exactly once:
  the loop over \<open>Next\<close> from index 0 lists distinct keys, and these keys with their values
  are the contents of the table. The iteration ends: it is a total function.
\<close>

theorem table_iteration_complete:
  assumes "list_all op_ok ops" "table_run (table_Create n) ops = Some t"
  shows "distinct (map fst (iterate W True t 0)) \<and>
     map_of (iterate W True t 0) = foldl map_step Map.empty ops"
proof -
  have t: "table_inv t" "table_map t = foldl map_step Map.empty ops"
    using table_run_ok [OF Create_ok(1) assms(1), of n] assms(2) by (auto simp: Create_ok(2))
  have "iterate W True t 0 = entries (tb_nodes t)"
    by (simp add: iterate_ok case_prod_unfold)
  with t table_inv_parts(4) [OF t(1)] show ?thesis
    by (simp add: distinct_keys_def table_map_def)
qed

theorem table_iteration_complete_witness:
  "\<exists>t. table_run (table_Create 0) [OpNewSlot (VInteger 1) (VBool 1)] = Some t \<and>
     distinct (map fst (iterate (\<lambda>_. VNull) True t 0)) \<and>
     map_of (iterate (\<lambda>_. VNull) True t 0) = [VInteger 1 \<mapsto> VBool 1]"
proof -
  let ?ops = "[OpNewSlot (VInteger 1) (VBool 1)]"
  have ok: "list_all op_ok ?ops" by simp
  obtain t where "table_run (table_Create 0) ?ops = Some t"
    using table_run_ok [OF Create_ok(1) ok, of 0] by blast
  then show ?thesis using table_iteration_complete [OF ok, of 0 t "\<lambda>_. VNull"] by auto
qed

text \<open>
  The boolean that \<open>NewSlot\<close> returns does not say whether the slot is new: inserting a
  fourth key into a table of four nodes forces a rehash, the recursive call then finds the
  key it has just placed, and the result is \<open>false\<close> although the slot was created.
\<close>

lemma NewSlot_result_after_rehash:
  "\<exists>t t'. table_run (table_Create 0) [OpNewSlot (VInteger 0) VNull, OpNewSlot (VInteger 4) VNull,
       OpNewSlot (VInteger 8) VNull] = Some t \<and>
     table_Get (\<lambda>_. VNull) t (VInteger 12) = Some None \<and>
     table_NewSlot t (VInteger 12) (VBool 1) = Some (t', False) \<and>
     table_Get (\<lambda>_. VNull) t' (VInteger 12) = Some (Some (VBool 1))"
proof -
  let ?t = "the (table_run (table_Create 0) [OpNewSlot (VInteger 0) VNull,
      OpNewSlot (VInteger 4) VNull, OpNewSlot (VInteger 8) VNull])"
  let ?t' = "fst (the (table_NewSlot ?t (VInteger 12) (VBool 1)))"
  show ?thesis
    by (rule exI [of _ ?t], rule exI [of _ ?t']) code_simp
qed

text \<open>
  \<open>Set\<close> does not reject a null key, although a null key marks an empty node: on an
  empty table it reports success and stores the value in an empty node, where neither \<open>Get\<close>
  nor the iteration finds it.
\<close>

lemma Set_null_key_reports_success:
  "\<exists>t'. table_Set (table_Create 0) VNull (VInteger 5) = Some (t', True) \<and>
     table_Get W t' VNull = Some None \<and> iterate W True t' 0 = []"
proof -
  let ?t' = "fst (the (table_Set (table_Create 0) VNull (VInteger 5)))"
  have "table_Set (table_Create 0) VNull (VInteger 5) = Some (?t', True)"
    "entries (tb_nodes ?t') = []"
    by code_simp+
  then show ?thesis
    by (intro exI [of _ ?t']) (simp add: table_Get_def iterate_ok)
qed

end
