(* ===== verification/Sq_Strings.thy ===== *)
theory Sq_Strings
  imports Sq_Interfaces "HOL-Library.Multiset"
begin

text \<open>
  The string table of \<^verbatim>\<open>sqstate.cpp\<close> (\<open>SQStringTable\<close>), which interns every string of
  a virtual machine. The chain of a bucket (\<open>_strings[h]\<close> and the \<open>_next\<close> fields) is the
  list of its nodes; a node has its address, its characters and its stored hash. The
  address that \<open>SQ_MALLOC\<close> returns for a new string is an argument of \<open>strtab_Add\<close>.
\<close>

section \<open>The operations\<close>

record strnode =
  sn_addr :: addr
  sn_val :: string
  sn_hash :: u64

record strtab =
  st_strings :: "strnode list list"
  st_slotused :: nat

abbreviation numofslots :: "strtab \<Rightarrow> nat" where
  "numofslots t \<equiv> length (st_strings t)"

definition slot_of :: "nat \<Rightarrow> u64 \<Rightarrow> nat" where
  "slot_of n h = unat (h AND of_nat (n - 1))"

definition strtab_AllocNodes :: "nat \<Rightarrow> strnode list list" where
  "strtab_AllocNodes sz = replicate sz []"

definition strtab_new :: strtab where
  "strtab_new = \<lparr>st_strings = strtab_AllocNodes 4, st_slotused = 0\<rparr>"

definition push_bucket :: "strnode list list \<Rightarrow> nat \<Rightarrow> strnode \<Rightarrow> strnode list list" where
  "push_bucket b h s = b[h := s # b ! h]"

text \<open>The two nested loops of \<open>Resize\<close>: every node of every old chain, in order.\<close>

definition rehash_node :: "strnode list list \<Rightarrow> strnode \<Rightarrow> strnode list list" where
  "rehash_node b p = push_bucket b (slot_of (length b) (sn_hash p)) p"

definition strtab_Resize :: "nat \<Rightarrow> strtab \<Rightarrow> strtab" where
  "strtab_Resize sz t =
     t\<lparr>st_strings := foldl rehash_node (strtab_AllocNodes sz) (concat (st_strings t))\<rparr>"

text \<open>The search loop of \<open>Add\<close>: same length and equal bytes.\<close>

fun find_string :: "strnode list \<Rightarrow> string \<Rightarrow> strnode option" where
  "find_string [] news = None"
| "find_string (s # ss) news =
     (if length (sn_val s) = length news \<and> sn_val s = news then Some s else find_string ss news)"

definition strtab_Add :: "addr \<Rightarrow> string \<Rightarrow> strtab \<Rightarrow> addr \<times> strtab" where
  "strtab_Add p news t =
     (let newhash = hashstr news;
          h = slot_of (numofslots t) newhash
      in case find_string (st_strings t ! h) news of
           Some s \<Rightarrow> (sn_addr s, t)
         | None \<Rightarrow>
             (let nt = t\<lparr>st_strings := push_bucket (st_strings t) h
                           \<lparr>sn_addr = p, sn_val = news, sn_hash = newhash\<rparr>,
                        st_slotused := st_slotused t + 1\<rparr>
              in (p, if numofslots nt < st_slotused nt
                     then strtab_Resize (numofslots nt * 2) nt else nt)))"

text \<open>
  \<open>Remove\<close> takes the pointer to the string: its address and its hash. The assertion at
  the end (the string is in its bucket) is the \<^const>\<open>None\<close> result.
\<close>

fun unlink_string :: "strnode list \<Rightarrow> addr \<Rightarrow> strnode list option" where
  "unlink_string [] bs = None"
| "unlink_string (s # ss) bs =
     (if sn_addr s = bs then Some ss else map_option ((#) s) (unlink_string ss bs))"

definition strtab_Remove :: "strnode \<Rightarrow> strtab \<Rightarrow> strtab option" where
  "strtab_Remove bs t =
     (let h = slot_of (numofslots t) (sn_hash bs)
      in map_option (\<lambda>b. t\<lparr>st_strings := (st_strings t)[h := b],
                           st_slotused := st_slotused t - 1\<rparr>)
           (unlink_string (st_strings t ! h) (sn_addr bs)))"

text \<open>\<open>SQString::Release\<close> removes the object it is called on: the node at address \<open>a\<close>.\<close>

definition strtab_deref :: "strtab \<Rightarrow> addr \<Rightarrow> strnode option" where
  "strtab_deref t a = find (\<lambda>n. sn_addr n = a) (concat (st_strings t))"

definition string_Release :: "addr \<Rightarrow> strtab \<Rightarrow> strtab option" where
  "string_Release a t = strtab_deref t a \<bind> (\<lambda>bs. strtab_Remove bs t)"

text \<open>The arguments of the C function: a negative length means a zero-terminated buffer.\<close>

definition add_chars :: "string \<Rightarrow> i64 \<Rightarrow> string" where
  "add_chars news len = (if len <s 0 then takeWhile (\<lambda>c. c \<noteq> CHR 0x00) news
                         else take (unat len) news)"

definition SQString_Create :: "addr \<Rightarrow> string \<Rightarrow> i64 \<Rightarrow> strtab \<Rightarrow> addr \<times> strtab" where
  "SQString_Create p news len t = strtab_Add p (add_chars news len) t"

definition live_strings :: "strtab \<Rightarrow> addr \<rightharpoonup> string" where
  "live_strings t a = map_option sn_val (strtab_deref t a)"

definition strtab_nodes :: "strtab \<Rightarrow> strnode set" where
  "strtab_nodes t = (\<Union>b \<in> set (st_strings t). set b)"

definition node_ok :: "nat \<Rightarrow> nat \<Rightarrow> strnode \<Rightarrow> bool" where
  "node_ok n h s \<longleftrightarrow> sn_hash s = hashstr (sn_val s) \<and> slot_of n (sn_hash s) = h"

definition buckets_ok :: "strnode list list \<Rightarrow> bool" where
  "buckets_ok b \<longleftrightarrow> 0 < length b \<and> (\<forall>h < length b. \<forall>s \<in> set (b ! h). node_ok (length b) h s)"

definition strtab_inv :: "strtab \<Rightarrow> bool" where
  "strtab_inv t \<longleftrightarrow>
     buckets_ok (st_strings t)
   \<and> distinct (map sn_val (concat (st_strings t)))
   \<and> distinct (map sn_addr (concat (st_strings t)))
   \<and> st_slotused t = length (concat (st_strings t))
   \<and> st_slotused t \<le> numofslots t"

section \<open>Correctness\<close>

lemma slot_of_less: "0 < n \<Longrightarrow> slot_of n h < n"
  using unat_and_of_nat_le [of h "n - 1"] by (simp add: slot_of_def)

lemma strtab_nodes_concat: "strtab_nodes t = set (concat (st_strings t))"
  by (simp add: strtab_nodes_def)

lemma mset_push_bucket:
  "h < length b \<Longrightarrow> mset (concat (push_bucket b h s)) = add_mset s (mset (concat b))"
proof (induction b arbitrary: h)
  case Nil
  then show ?case by simp
next
  case (Cons x b)
  then show ?case by (cases h) (auto simp: push_bucket_def)
qed

lemma push_bucket_ok:
  assumes "buckets_ok b" "sn_hash s = hashstr (sn_val s)" "h = slot_of (length b) (sn_hash s)"
  shows "buckets_ok (push_bucket b h s)" "length (push_bucket b h s) = length b"
proof -
  have hl: "h < length b" using assms by (simp add: slot_of_less buckets_ok_def)
  have s: "node_ok (length b) h s" using assms by (simp add: node_ok_def)
  have "node_ok (length b) k x" if "k < length b" "x \<in> set (push_bucket b h s ! k)" for k x
    using that s assms(1) hl unfolding push_bucket_def buckets_ok_def by (cases "k = h") auto
  then show "buckets_ok (push_bucket b h s)" "length (push_bucket b h s) = length b"
    using assms(1) by (simp_all add: buckets_ok_def push_bucket_def)
qed

lemma rehash_nodes_ok:
  assumes "buckets_ok b" "\<forall>s \<in> set ss. sn_hash s = hashstr (sn_val s)"
  shows "buckets_ok (foldl rehash_node b ss) \<and> length (foldl rehash_node b ss) = length b \<and>
     mset (concat (foldl rehash_node b ss)) = mset (concat b) + mset ss"
  using assms
proof (induction ss arbitrary: b)
  case Nil
  then show ?case by simp
next
  case (Cons s ss)
  have h: "slot_of (length b) (sn_hash s) < length b"
    using Cons.prems(1) by (intro slot_of_less) (simp add: buckets_ok_def)
  note pb = push_bucket_ok [OF Cons.prems(1), of s] mset_push_bucket [OF h, of s]
  from Cons.IH [of "rehash_node b s"] Cons.prems pb show ?case
    by (simp add: rehash_node_def)
qed

lemma buckets_ok_Alloc: "0 < n \<Longrightarrow> buckets_ok (strtab_AllocNodes n)"
  "concat (strtab_AllocNodes n) = []"
  by (auto simp: buckets_ok_def strtab_AllocNodes_def)

lemma buckets_ok_hash:
  "buckets_ok b \<Longrightarrow> s \<in> set (concat b) \<Longrightarrow>
     sn_hash s = hashstr (sn_val s) \<and> s \<in> set (b ! slot_of (length b) (sn_hash s))"
  unfolding buckets_ok_def node_ok_def set_concat by (metis UN_E in_set_conv_nth)

lemma bucket_subset: "h < length b \<Longrightarrow> set (b ! h) \<subseteq> set (concat b)"
  by (auto intro!: bexI [OF _ nth_mem])

lemma find_string_Some: "find_string ss news = Some s \<Longrightarrow> s \<in> set ss \<and> sn_val s = news"
  by (induction ss) (auto split: if_splits)

lemma find_string_None: "find_string ss news = None \<longleftrightarrow> news \<notin> sn_val ` set ss"
  by (induction ss) auto

lemma Resize_ok:
  assumes "buckets_ok (st_strings t)" "0 < n"
  shows "buckets_ok (st_strings (strtab_Resize n t))" "numofslots (strtab_Resize n t) = n"
    "mset (concat (st_strings (strtab_Resize n t))) = mset (concat (st_strings t))"
    "st_slotused (strtab_Resize n t) = st_slotused t"
proof -
  have "\<forall>s \<in> set (concat (st_strings t)). sn_hash s = hashstr (sn_val s)"
    using buckets_ok_hash [OF assms(1)] by blast
  from rehash_nodes_ok [OF buckets_ok_Alloc(1) [OF assms(2)] this]
  show "buckets_ok (st_strings (strtab_Resize n t))" "numofslots (strtab_Resize n t) = n"
    "mset (concat (st_strings (strtab_Resize n t))) = mset (concat (st_strings t))"
    "st_slotused (strtab_Resize n t) = st_slotused t"
    by (simp_all add: strtab_Resize_def buckets_ok_Alloc(2)) (simp add: strtab_AllocNodes_def)
qed

text \<open>\<open>Add\<close> finds a string that is in the table and adds one that is not.\<close>

lemma Add_known:
  assumes "strtab_inv t" "s \<in> strtab_nodes t"
  shows "strtab_Add p (sn_val s) t = (sn_addr s, t)"
proof -
  let ?h = "slot_of (numofslots t) (hashstr (sn_val s))"
  have b: "buckets_ok (st_strings t)" and d: "distinct (map sn_val (concat (st_strings t)))"
    using assms(1) by (auto simp: strtab_inv_def)
  have s: "s \<in> set (concat (st_strings t))" using assms(2) by (simp add: strtab_nodes_concat)
  have sb: "s \<in> set (st_strings t ! ?h)" using buckets_ok_hash [OF b s] by metis
  have h: "?h < numofslots t" using b by (intro slot_of_less) (simp add: buckets_ok_def)
  obtain s' where s': "find_string (st_strings t ! ?h) (sn_val s) = Some s'"
    using find_string_None [of "st_strings t ! ?h" "sn_val s"] sb by force
  then have "s' \<in> set (concat (st_strings t))" "sn_val s' = sn_val s"
    using find_string_Some [OF s'] bucket_subset [OF h] by auto
  with d s have "s' = s" by (auto simp: distinct_map inj_on_def)
  with s' show ?thesis by (simp add: strtab_Add_def Let_def)
qed

lemma Add_new:
  assumes inv: "strtab_inv t" and new: "news \<notin> sn_val ` strtab_nodes t"
    and p: "p \<notin> sn_addr ` strtab_nodes t"
  shows "\<exists>t'. strtab_Add p news t = (p, t') \<and> strtab_inv t' \<and>
     strtab_nodes t' = insert \<lparr>sn_addr = p, sn_val = news, sn_hash = hashstr news\<rparr> (strtab_nodes t)"
proof -
  define n where "n = \<lparr>sn_addr = p, sn_val = news, sn_hash = hashstr news\<rparr>"
  define h where "h = slot_of (numofslots t) (hashstr news)"
  define nb where "nb = push_bucket (st_strings t) h n"
  define nt where "nt = t\<lparr>st_strings := nb, st_slotused := st_slotused t + 1\<rparr>"
  have b: "buckets_ok (st_strings t)" using inv by (simp add: strtab_inv_def)
  have hl: "h < numofslots t"
    unfolding h_def using b by (intro slot_of_less) (simp add: buckets_ok_def)
  have nf: "find_string (st_strings t ! h) news = None"
    using new bucket_subset [OF hl] by (auto simp: find_string_None strtab_nodes_concat)
  have ob: "buckets_ok nb" "length nb = numofslots t"
    using push_bucket_ok [OF b, of n h] by (simp_all add: nb_def h_def n_def)
  have m: "mset (concat nb) = add_mset n (mset (concat (st_strings t)))"
    unfolding nb_def by (rule mset_push_bucket [OF hl])
  define fin where "fin = (if numofslots nt < st_slotused nt then strtab_Resize (numofslots nt * 2) nt else nt)"
  have fin: "buckets_ok (st_strings fin)" "mset (concat (st_strings fin)) = mset (concat nb)"
    "st_slotused fin = st_slotused t + 1" "st_slotused fin \<le> numofslots fin"
  proof -
    have used: "st_slotused t \<le> length nb" using inv ob by (simp add: strtab_inv_def)
    have len: "0 < length nb * 2" using ob(1) by (simp add: buckets_ok_def)
    have dbl: "Suc (st_slotused t) \<le> length nb * 2" using len used by linarith
    note rs = Resize_ok [of nt "length nb * 2"]
    show "buckets_ok (st_strings fin)" "mset (concat (st_strings fin)) = mset (concat nb)"
      "st_slotused fin = st_slotused t + 1" "st_slotused fin \<le> numofslots fin"
      using rs ob(1) len dbl by (simp_all add: fin_def nt_def)
  qed
  have set_fin: "set (concat (st_strings fin)) = insert n (strtab_nodes t)"
    using arg_cong [OF fin(2) [unfolded m], of set_mset] by (simp add: strtab_nodes_concat)
  have mm: "mset (concat (st_strings fin)) = mset (n # concat (st_strings t))"
    using fin(2) m by simp
  have "distinct (map sn_val (concat (st_strings fin))) = distinct (map sn_val (n # concat (st_strings t)))"
    "distinct (map sn_addr (concat (st_strings fin))) = distinct (map sn_addr (n # concat (st_strings t)))"
    by (rule mset_eq_imp_distinct_iff, simp only: mset_map mm)+
  moreover have "length (concat (st_strings fin)) = Suc (length (concat (st_strings t)))"
    using mset_eq_length [OF mm] by simp
  ultimately have "strtab_inv fin"
    using fin inv new p by (auto simp: strtab_inv_def n_def strtab_nodes_concat)
  moreover have "strtab_Add p news t = (p, fin)"
    using nf by (simp add: strtab_Add_def Let_def h_def [symmetric] n_def [symmetric]
        nb_def [symmetric] fin_def nt_def)
  ultimately show ?thesis using set_fin by (auto simp: strtab_nodes_concat n_def)
qed

lemma unlink_string_ok:
  assumes "distinct (map sn_addr ss)" "n \<in> set ss"
  shows "\<exists>ss'. unlink_string ss (sn_addr n) = Some ss' \<and> mset ss = add_mset n (mset ss')"
  using assms by (induction ss) auto

lemma mset_bucket_update:
  "h < length b \<Longrightarrow> mset (b ! h) = add_mset n (mset ss') \<Longrightarrow>
     mset (concat b) = add_mset n (mset (concat (b[h := ss'])))"
proof (induction b arbitrary: h)
  case Nil
  then show ?case by simp
next
  case (Cons x b)
  then show ?case by (cases h) auto
qed

lemma Remove_known:
  assumes inv: "strtab_inv t" and n: "n \<in> strtab_nodes t"
  shows "\<exists>t'. strtab_Remove n t = Some t' \<and> strtab_inv t' \<and> strtab_nodes t' = strtab_nodes t - {n}"
proof -
  define h where "h = slot_of (numofslots t) (sn_hash n)"
  have b: "buckets_ok (st_strings t)"
    and dv: "distinct (map sn_val (concat (st_strings t)))"
    and da: "distinct (map sn_addr (concat (st_strings t)))"
    using inv by (auto simp: strtab_inv_def)
  have nc: "n \<in> set (concat (st_strings t))" using n by (simp add: strtab_nodes_concat)
  have nb: "n \<in> set (st_strings t ! h)" using buckets_ok_hash [OF b nc] by (metis h_def)
  have hl: "h < numofslots t"
    unfolding h_def using b by (intro slot_of_less) (simp add: buckets_ok_def)
  have "distinct (map sn_addr (st_strings t ! h))"
    using da hl by (metis distinct_concat_iff map_concat nth_mem nth_map length_map)
  then obtain ss' where ss': "unlink_string (st_strings t ! h) (sn_addr n) = Some ss'"
      "mset (st_strings t ! h) = add_mset n (mset ss')"
    using unlink_string_ok nb by blast
  define t' where "t' = t\<lparr>st_strings := (st_strings t)[h := ss'], st_slotused := st_slotused t - 1\<rparr>"
  have mm: "mset (concat (st_strings t)) = mset (n # concat (st_strings t'))"
    using mset_bucket_update [OF hl ss'(2)] by (simp add: t'_def)
  have "distinct (map sn_val (n # concat (st_strings t')))"
    "distinct (map sn_addr (n # concat (st_strings t')))"
    using dv da mset_eq_imp_distinct_iff [of "map sn_val (concat (st_strings t))" "map sn_val (n # concat (st_strings t'))"]
      mset_eq_imp_distinct_iff [of "map sn_addr (concat (st_strings t))" "map sn_addr (n # concat (st_strings t'))"] mm
    by (simp_all only: mset_map)
  moreover have "length (concat (st_strings t)) = Suc (length (concat (st_strings t')))"
    using mset_eq_length [OF mm] by simp
  moreover have "buckets_ok (st_strings t')"
    using b hl mset_eq_setD [of "st_strings t ! h" "n # ss'"] ss'(2)
    by (auto simp: buckets_ok_def t'_def nth_list_update)
  ultimately have inv': "strtab_inv t'"
    using inv by (auto simp: strtab_inv_def t'_def)
  have "set (concat (st_strings t)) = insert n (set (concat (st_strings t')))"
    using mset_eq_setD [OF mm] by simp
  moreover have "n \<notin> set (concat (st_strings t'))"
    using \<open>distinct (map sn_val (n # concat (st_strings t')))\<close> by auto
  ultimately have "strtab_nodes t' = strtab_nodes t - {n}" by (simp add: strtab_nodes_concat)
  moreover have "strtab_Remove n t = Some t'"
    using ss'(1) by (simp add: strtab_Remove_def Let_def h_def [symmetric] t'_def)
  ultimately show ?thesis using inv' by blast
qed

lemma strtab_new_inv: "strtab_inv strtab_new" "strtab_nodes strtab_new = {}"
  using buckets_ok_Alloc [of 4]
  by (auto simp: strtab_inv_def strtab_new_def strtab_nodes_concat strtab_AllocNodes_def)

lemma strtab_inv_card: "strtab_inv t \<Longrightarrow> st_slotused t = card (strtab_nodes t)"
  unfolding strtab_inv_def strtab_nodes_concat distinct_map by (simp add: distinct_card del: set_concat)

lemma deref_Some: "strtab_deref t a = Some n \<Longrightarrow> n \<in> strtab_nodes t \<and> sn_addr n = a"
  unfolding strtab_deref_def strtab_nodes_concat find_Some_iff by (meson nth_mem)

lemma deref_node:
  assumes "strtab_inv t" "n \<in> strtab_nodes t"
  shows "strtab_deref t (sn_addr n) = Some n"
proof (cases "strtab_deref t (sn_addr n)")
  case None
  then show ?thesis using assms(2) by (auto simp: strtab_deref_def find_None_iff strtab_nodes_concat)
next
  case (Some m)
  with deref_Some [OF this] assms show ?thesis
    by (auto simp: strtab_inv_def distinct_map inj_on_def strtab_nodes_concat)
qed

lemma live_strings_iff:
  "strtab_inv t \<Longrightarrow> live_strings t a = Some s \<longleftrightarrow> (\<exists>n \<in> strtab_nodes t. sn_addr n = a \<and> sn_val n = s)"
  using deref_Some [of t a] deref_node [of t] by (auto simp: live_strings_def)

lemma live_strings_None:
  "strtab_inv t \<Longrightarrow> live_strings t a = None \<longleftrightarrow> a \<notin> sn_addr ` strtab_nodes t"
  using live_strings_iff [of t a] by (metis (no_types, lifting) image_iff not_None_eq)

lemma live_strings_eqI:
  assumes "strtab_inv t" "\<And>a s. m a = Some s \<longleftrightarrow> (\<exists>n \<in> strtab_nodes t. sn_addr n = a \<and> sn_val n = s)"
  shows "live_strings t = m"
proof
  fix a
  show "live_strings t a = m a"
    using assms(2) [of a] live_strings_iff [OF assms(1), of a] by (cases "m a") (metis not_None_eq)+
qed

lemma node_unique:
  "strtab_inv t \<Longrightarrow> n \<in> strtab_nodes t \<Longrightarrow> m \<in> strtab_nodes t \<Longrightarrow>
     sn_val n = sn_val m \<or> sn_addr n = sn_addr m \<Longrightarrow> n = m"
  by (auto simp: strtab_inv_def distinct_map inj_on_def strtab_nodes_concat)

interpretation strs: interner strtab_inv live_strings strtab_new strtab_Add string_Release
proof (unfold_locales, goal_cases)
  case 1
  show ?case by (rule strtab_new_inv)
next
  case 2
  show ?case by (rule live_strings_eqI) (simp_all add: strtab_new_inv)
next
  case (3 t a s b)
  then show ?case using node_unique [of t] by (auto simp: live_strings_iff)
next
  case (4 t a s p)
  then show ?case using Add_known by (auto simp: live_strings_iff)
next
  case (5 t s p)
  have "s \<notin> sn_val ` strtab_nodes t"
    using 5 by (auto simp: ran_def live_strings_iff)
  from Add_new [OF 5(1) this, of p] 5(1,3) obtain t' where t': "strtab_Add p s t = (p, t')" "strtab_inv t'"
      "strtab_nodes t' = insert \<lparr>sn_addr = p, sn_val = s, sn_hash = hashstr s\<rparr> (strtab_nodes t)"
    by (auto simp: live_strings_None)
  have "live_strings t' = (live_strings t)(p \<mapsto> s)"
    using 5 t' by (intro live_strings_eqI) (auto simp: live_strings_iff live_strings_None image_iff)
  with t' show ?case by blast
next
  case (6 t a s)
  then obtain n where n: "n \<in> strtab_nodes t" "sn_addr n = a" "sn_val n = s"
    by (auto simp: live_strings_iff)
  from Remove_known [OF 6(1) n(1)] obtain t' where t': "strtab_Remove n t = Some t'" "strtab_inv t'"
      "strtab_nodes t' = strtab_nodes t - {n}"
    by blast
  have "((live_strings t)(a := None)) b = Some s' \<longleftrightarrow>
      (\<exists>m \<in> strtab_nodes t'. sn_addr m = b \<and> sn_val m = s')" for b s'
  proof (cases "b = a")
    case True
    have "m = n" if "m \<in> strtab_nodes t" "sn_addr m = a" for m
      using node_unique [OF 6(1) that(1) n(1)] that(2) n(2) by simp
    with True t'(3) show ?thesis by auto
  next
    case False
    with t'(3) n(2) live_strings_iff [OF 6(1), of b s'] show ?thesis by auto
  qed
  then have "live_strings t' = (live_strings t)(a := None)"
    by (intro live_strings_eqI [OF t'(2)])
  with t' n show ?case using deref_node [OF 6(1) n(1)] by (auto simp: string_Release_def)
qed

text \<open>
  C4. Interning is sound and complete: in every reachable string table, two strings
  created one after the other (with unused addresses from the allocator) are the same
  object if and only if they have the same characters, whatever their hashes, whatever
  strings were created or released before, and even when the second creation resizes the
  table. This is what lets the virtual machine compare strings by pointer.\<close>

theorem string_interning:
  assumes "strs.reachable t" "live_strings t p = None" "SQString_Create p a la t = (x, t1)"
    and "live_strings t1 q = None" "SQString_Create q b lb t1 = (y, t2)"
  shows "x = y \<longleftrightarrow> add_chars a la = add_chars b lb"
  using assms strs.intern_eq_iff by (simp add: SQString_Create_def)

theorem string_interning_witness:
  "fst (SQString_Create 200 ''ab'' 2 (snd (SQString_Create 100 ''abc'' 2 strtab_new))) = 100"
proof -
  have c1: "SQString_Create 100 ''abc'' 2 strtab_new =
      (100, snd (SQString_Create 100 ''abc'' 2 strtab_new))"
    by code_simp
  have 2: "live_strings (snd (SQString_Create 100 ''abc'' 2 strtab_new)) 200 = None" by code_simp
  have "add_chars ''abc'' 2 = add_chars ''ab'' 2" by code_simp
  with string_interning [OF strs.reach_new _ c1 2 prod.collapse [symmetric]]
  show ?thesis by (simp add: strs.live_new)
qed

text \<open>
  C37. Releasing a live string never runs into the \<open>assert(0)\<close> at the end of
  \<open>SQStringTable::Remove\<close>: in every reachable table the search for it succeeds, exactly
  that string is unlinked, and the slot count stays the number of live strings and never
  exceeds the number of buckets.\<close>

theorem string_release_no_assert:
  assumes "strs.reachable t" "live_strings t a = Some s"
  shows "\<exists>t'. string_Release a t = Some t' \<and> live_strings t' = (live_strings t)(a := None) \<and>
     st_slotused t' = card (strtab_nodes t') \<and> st_slotused t' + 1 = st_slotused t \<and>
     st_slotused t \<le> numofslots t"
proof -
  have inv: "strtab_inv t" by (rule strs.reachable_inv [OF assms(1)])
  from strs.release_law [OF inv assms(2)] obtain t' where t': "string_Release a t = Some t'"
      "strtab_inv t'" "live_strings t' = (live_strings t)(a := None)" by blast
  from t'(1) obtain bs where "strtab_Remove bs t = Some t'"
    by (auto simp: string_Release_def bind_eq_Some_conv)
  then have "st_slotused t' = st_slotused t - 1" by (auto simp: strtab_Remove_def Let_def)
  moreover have "st_slotused t' = card (strtab_nodes t')" "st_slotused t = card (strtab_nodes t)"
    using strtab_inv_card [OF t'(2)] strtab_inv_card [OF inv] by auto
  moreover have "strtab_nodes t \<noteq> {}" using assms(2) live_strings_iff [OF inv] by blast
  moreover have "finite (strtab_nodes t)" by (simp add: strtab_nodes_concat)
  moreover have "st_slotused t \<le> numofslots t" using inv by (simp add: strtab_inv_def)
  ultimately show ?thesis using t' by (auto simp: card_gt_0_iff Suc_le_eq)
qed

theorem string_release_no_assert_witness:
  "\<exists>t'. string_Release 100 (snd (strtab_Add 100 ''abc'' strtab_new)) = Some t' \<and> st_slotused t' = 0"
proof -
  have r: "strs.reachable (snd (strtab_Add 100 ''abc'' strtab_new))"
    by (intro strs.reach_intern strs.reach_new) (simp add: strs.live_new)
  have l: "live_strings (snd (strtab_Add 100 ''abc'' strtab_new)) 100 = Some ''abc''"
    by code_simp
  have u: "st_slotused (snd (strtab_Add 100 ''abc'' strtab_new)) = 1" by code_simp
  from string_release_no_assert [OF r l] u show ?thesis by auto
qed

end
