(* ===== verification/Sq_Float.thy ===== *)
theory Sq_Float
  imports Sq_Object
begin

text \<open>
  The arithmetic of \<open>SQFloat\<close>, the IEEE 754 single of a default build
  (\<^verbatim>\<open>include/squirrel.h\<close>), as the language defines it: a float is its 32-bit
  representation, the result of an operation is the exact rational result rounded to
  nearest, ties to even. A finite float is an integer multiple of \<open>2 ^ -149\<close>, so every exact
  result is a quotient of two integers. The results on infinities and NaNs are the ones the
  SSE instructions of an x86-64 host deliver.
\<close>

section \<open>Rounding\<close>

function bit_length :: "int \<Rightarrow> int" where
  "bit_length n = (if n \<le> 0 then 0 else 1 + bit_length (n div 2))"
  by pat_completeness auto
termination
  by (relation "measure nat") auto

declare bit_length.simps [simp del]

definition round_half_even :: "int \<Rightarrow> int \<Rightarrow> int" where
  "round_half_even n d =
     (let q = n div d; r = n mod d
      in if d < 2 * r \<or> d = 2 * r \<and> q mod 2 = 1 then q + 1 else q)"

text \<open>
  The encoding, without the sign, of the quotient \<open>n / d\<close> in the binary format with \<open>p\<close>
  bits of precision and smallest exponent \<open>emin\<close>: the significand \<open>m\<close> scaled by the exponent
  \<open>e\<close> is encoded as \<open>m + (e - emin) * 2 ^ (p - 1)\<close>, which also covers subnormals and the
  carry of a rounding; anything from \<open>enc_inf\<close> on is the encoding of infinity.
\<close>

definition floor_log2 :: "int \<Rightarrow> int \<Rightarrow> int" where
  "floor_log2 n d =
     (let k = bit_length n - bit_length d
      in if 0 \<le> k \<and> d * 2 ^ nat k \<le> n \<or> k < 0 \<and> d \<le> n * 2 ^ nat (- k) then k else k - 1)"

definition round_quotient :: "nat \<Rightarrow> int \<Rightarrow> int \<Rightarrow> int \<Rightarrow> int \<Rightarrow> int" where
  "round_quotient p emin enc_inf n d =
     (if n = 0 then 0
      else let e = max (floor_log2 n d) emin;
               q = e - (int p - 1);
               m = (if 0 \<le> q then round_half_even n (d * 2 ^ nat q)
                    else round_half_even (n * 2 ^ nat (- q)) d)
           in min enc_inf (m + (e - emin) * 2 ^ (p - 1)))"

section \<open>Single precision\<close>

definition float_inf :: u32 where "float_inf = 0x7F800000"

definition float_indefinite :: u32 where "float_indefinite = 0xFFC00000"

definition float_of_quotient :: "bool \<Rightarrow> int \<Rightarrow> int \<Rightarrow> u32" where
  "float_of_quotient neg n d =
     (let r = word_of_int (round_quotient 24 (- 126) 0x7F800000 n d) in if neg then r OR 0x80000000 else r)"

definition is_nan :: "u32 \<Rightarrow> bool" where
  "is_nan f \<longleftrightarrow> float_exp f = 255 \<and> f AND 0x7FFFFF \<noteq> 0"

definition is_inf :: "u32 \<Rightarrow> bool" where
  "is_inf f \<longleftrightarrow> float_exp f = 255 \<and> f AND 0x7FFFFF = 0"

definition float_zero :: "u32 \<Rightarrow> bool" where
  "float_zero f \<longleftrightarrow> f AND 0x7FFFFFFF = 0"

text \<open>The value of a finite float, in units of \<open>2 ^ -149\<close>.\<close>

definition float_units :: "u32 \<Rightarrow> int" where
  "float_units f = (let m = float_mant f * 2 ^ nat (max 1 (float_exp f) - 1)
                    in if float_sign f then - m else m)"

definition float_of_units :: "bool \<Rightarrow> int \<Rightarrow> int \<Rightarrow> u32" where
  "float_of_units zero_neg n d =
     (if n = 0 then (if zero_neg then 0x80000000 else 0)
      else float_of_quotient (n < 0) (abs n) d)"

definition float_quiet :: "u32 \<Rightarrow> u32" where
  "float_quiet f = f OR 0x00400000"

definition float_neg :: "u32 \<Rightarrow> u32" where
  "float_neg f = f XOR 0x80000000"

definition float_add :: "u32 \<Rightarrow> u32 \<Rightarrow> u32" where
  "float_add a b =
     (if is_nan a then float_quiet a else if is_nan b then float_quiet b
      else if is_inf a then (if is_inf b \<and> float_sign a \<noteq> float_sign b then float_indefinite else a)
      else if is_inf b then b
      else float_of_units (float_sign a \<and> float_sign b) (float_units a + float_units b) (2 ^ 149))"

definition float_sub :: "u32 \<Rightarrow> u32 \<Rightarrow> u32" where
  "float_sub a b =
     (if is_nan a then float_quiet a else if is_nan b then float_quiet b
      else float_add a (float_neg b))"

definition float_mul :: "u32 \<Rightarrow> u32 \<Rightarrow> u32" where
  "float_mul a b =
     (let neg = (float_sign a \<noteq> float_sign b)
      in if is_nan a then float_quiet a else if is_nan b then float_quiet b
         else if is_inf a \<or> is_inf b
              then (if float_zero a \<or> float_zero b then float_indefinite
                    else if neg then float_neg float_inf else float_inf)
         else float_of_units neg (float_units a * float_units b) (2 ^ 298))"

definition float_div :: "u32 \<Rightarrow> u32 \<Rightarrow> u32" where
  "float_div a b =
     (let neg = (float_sign a \<noteq> float_sign b)
      in if is_nan a then float_quiet a else if is_nan b then float_quiet b
         else if is_inf a
              then (if is_inf b then float_indefinite
                    else if neg then float_neg float_inf else float_inf)
         else if is_inf b then (if neg then 0x80000000 else 0)
         else if float_zero b
              then (if float_zero a then float_indefinite
                    else if neg then float_neg float_inf else float_inf)
         else float_of_units neg (if neg then - abs (float_units a) else abs (float_units a))
                (abs (float_units b)))"

definition float_lt :: "u32 \<Rightarrow> u32 \<Rightarrow> bool" where
  "float_lt a b \<longleftrightarrow> \<not> is_nan a \<and> \<not> is_nan b \<and>
     (if is_inf a then float_sign a \<and> \<not> (is_inf b \<and> float_sign b)
      else if is_inf b then \<not> float_sign b
      else float_units a < float_units b)"

definition float_eq :: "u32 \<Rightarrow> u32 \<Rightarrow> bool" where
  "float_eq a b \<longleftrightarrow> \<not> is_nan a \<and> \<not> is_nan b \<and> (a = b \<or> float_zero a \<and> float_zero b)"

text \<open>\<open>(SQFloat)\<close> of a \<open>SQInteger\<close>.\<close>

definition integer_to_float :: "i64 \<Rightarrow> u32" where
  "integer_to_float i = float_of_units False (sint i) 1"

text \<open>\<open>(SQFloat)fmod(a, b)\<close>: the remainder is exact.\<close>

definition float_fmod :: "u32 \<Rightarrow> u32 \<Rightarrow> u32" where
  "float_fmod a b =
     (if is_nan a then float_quiet a else if is_nan b then float_quiet b
      else if is_inf a \<or> float_zero b then float_indefinite
      else if is_inf b then a
      else let r = abs (float_units a) mod abs (float_units b)
           in float_of_units (float_sign a) (if float_sign a then - r else r) (2 ^ 149))"

section \<open>Reading a decimal literal\<close>

text \<open>
  \<open>(SQFloat)strtod(s)\<close> for a text that starts with a digit: the decimal value of the longest
  prefix of the form \<open>digits [. digits] [e [+-] digits]\<close>, rounded to double precision by
  \<open>strtod\<close> and then to single precision by the conversion.
\<close>

definition isdigit :: "char \<Rightarrow> bool" where
  "isdigit c \<longleftrightarrow> 48 \<le> (of_char c :: nat) \<and> (of_char c :: nat) \<le> 57"

fun dec_value :: "string \<Rightarrow> int \<Rightarrow> int" where
  "dec_value [] acc = acc"
| "dec_value (c # cs) acc = dec_value cs (acc * 10 + (of_char c - 48))"

definition dec_exponent :: "string \<Rightarrow> int" where
  "dec_exponent s =
     (case s of
        [] \<Rightarrow> 0
      | e # s1 \<Rightarrow>
          if e = CHR ''e'' \<or> e = CHR ''E''
          then (case s1 of
                  [] \<Rightarrow> 0
                | c # s2 \<Rightarrow>
                    if c = CHR ''-'' then - dec_value (takeWhile isdigit s2) 0
                    else if c = CHR ''+'' then dec_value (takeWhile isdigit s2) 0
                    else dec_value (takeWhile isdigit s1) 0)
          else 0)"

definition double_of_quotient :: "int \<Rightarrow> int \<Rightarrow> int" where
  "double_of_quotient n d = round_quotient 53 (- 1022) 0x7FF0000000000000 n d"

definition double_to_float :: "int \<Rightarrow> u32" where
  "double_to_float b =
     (let e = b div 2 ^ 52; m = b mod 2 ^ 52
      in if 0x7FF \<le> e then float_inf
         else float_of_quotient False ((if e = 0 then m else m + 2 ^ 52) * 2 ^ nat (max 1 e - 1)) (2 ^ 1074))"

definition strtod_float :: "string \<Rightarrow> u32" where
  "strtod_float s =
     (let ip = takeWhile isdigit s;
          r1 = dropWhile isdigit s;
          (fp, r2) = (case r1 of
                        [] \<Rightarrow> ([], [])
                      | c # cs \<Rightarrow> if c = CHR ''.'' then (takeWhile isdigit cs, dropWhile isdigit cs)
                                  else ([], r1));
          e = dec_exponent r2 - int (length fp);
          n = dec_value (ip @ fp) 0
      in double_to_float
           (if 0 \<le> e then double_of_quotient (n * 10 ^ nat e) 1 else double_of_quotient n (10 ^ nat (- e))))"

section \<open>Writing numbers\<close>

text \<open>\<open>printf\<close> with \<open>%lld\<close>: the decimal digits of an integer.\<close>

fun dec_digits :: "nat \<Rightarrow> string" where
  "dec_digits n =
     (if n < 10 then [char_of (48 + n)] else dec_digits (n div 10) @ [char_of (48 + n mod 10)])"

declare dec_digits.simps [simp del]

function int_digits :: "int \<Rightarrow> string" where
  "int_digits n =
     (if n < 10 then [char_of (48 + n)] else int_digits (n div 10) @ [char_of (48 + n mod 10)])"
  by pat_completeness auto
termination
  by (relation "measure nat") auto

declare int_digits.simps [simp del]

lemma char_of_nat_of_int: "0 \<le> n \<Longrightarrow> char_of n = (char_of (nat n) :: char)"
  by (metis char_of_nat int_nat_eq)

lemma int_digits_nat: "0 \<le> n \<Longrightarrow> int_digits n = dec_digits (nat n)"
proof (induction n rule: int_digits.induct)
  case (1 n)
  have c: "char_of (48 + n mod 10) = (char_of (48 + nat n mod 10) :: char)"
    using 1(2) by (simp add: char_of_nat_of_int nat_add_distrib nat_mod_distrib)
  have c': "char_of (48 + n) = (char_of (48 + nat n) :: char)"
    using 1(2) by (simp add: char_of_nat_of_int nat_add_distrib)
  show ?case
  proof (cases "n < 10")
    case True
    moreover from True have "nat n < 10" by simp
    ultimately show ?thesis using c' by (simp add: int_digits.simps [of n] dec_digits.simps [of "nat n"])
  next
    case False
    then have "int_digits (n div 10) = dec_digits (nat n div 10)"
      using 1 by (simp add: nat_div_distrib)
    moreover from False have "\<not> nat n < 10" by simp
    ultimately show ?thesis using False c
      by (simp add: int_digits.simps [of n] dec_digits.simps [of "nat n"])
  qed
qed

definition print_integer :: "i64 \<Rightarrow> string" where
  "print_integer i = (if sint i < 0 then CHR ''-'' # int_digits (- sint i) else int_digits (sint i))"

text \<open>\<open>printf\<close> with \<open>%p\<close> of the C library of a Linux host.\<close>

function hex_digits :: "int \<Rightarrow> string" where
  "hex_digits n =
     (let d = n mod 16; c = [char_of (if d < 10 then 48 + d else 87 + d)]
      in if n < 16 then c else hex_digits (n div 16) @ c)"
  by pat_completeness auto
termination
  by (relation "measure nat") auto

declare hex_digits.simps [simp del]

definition print_pointer :: "addr \<Rightarrow> string" where
  "print_pointer p = (if p = 0 then ''(nil)'' else ''0x'' @ hex_digits (uint p))"

text \<open>
  \<open>printf\<close> with \<open>%g\<close> and a precision \<open>P\<close> (six when none is given): \<open>P\<close> significant digits,
  rounded to nearest from the exact value, without trailing zeros, with an exponent when
  the decimal exponent is below -4 or not below \<open>P\<close>. The decimal exponent of \<open>n / d\<close> is found by scaling.
\<close>

function log10_up :: "int \<Rightarrow> int \<Rightarrow> int \<Rightarrow> int" where
  "log10_up n d k = (if 0 < d \<and> 10 * d \<le> n then log10_up n (10 * d) (k + 1) else k)"
  by pat_completeness auto
termination
  by (relation "measure (\<lambda>(n, d, k). nat (n - d))") auto

function log10_down :: "int \<Rightarrow> int \<Rightarrow> int \<Rightarrow> int" where
  "log10_down n d k = (if 0 < n \<and> n < d then log10_down (10 * n) d (k - 1) else k)"
  by pat_completeness auto
termination
  by (relation "measure (\<lambda>(n, d, k). nat (d - n))") auto

declare log10_up.simps [simp del] log10_down.simps [simp del]

definition digits_at :: "int \<Rightarrow> int \<Rightarrow> int \<Rightarrow> int \<Rightarrow> int" where
  "digits_at P n d e =
     (if 0 \<le> P - 1 - e then round_half_even (n * 10 ^ nat (P - 1 - e)) d
      else round_half_even n (d * 10 ^ nat (e - (P - 1))))"

definition strip_zeros :: "string \<Rightarrow> string" where
  "strip_zeros s = rev (dropWhile (\<lambda>c. c = CHR ''0'') (rev s))"

definition with_fraction :: "string \<Rightarrow> string \<Rightarrow> string" where
  "with_fraction ip fp = (if strip_zeros fp = [] then ip else ip @ CHR ''.'' # strip_zeros fp)"

definition print_g_positive :: "int \<Rightarrow> int \<Rightarrow> int \<Rightarrow> string" where
  "print_g_positive P n d =
     (let e0 = (if d \<le> n then log10_up n d 0 else log10_down n d 0);
          m0 = digits_at P n d e0;
          (m, e) = (if m0 = 10 ^ nat P then (10 ^ nat (P - 1), e0 + 1) else (m0, e0));
          ds = int_digits m
      in if e < - 4 \<or> P \<le> e
         then with_fraction (take 1 ds) (drop 1 ds) @ ''e'' @ (if e < 0 then ''-'' else ''+'') @
              (if abs e < 10 then ''0'' else []) @ int_digits (abs e)
         else if e < 0 then with_fraction ''0'' (replicate (nat (- e - 1)) CHR ''0'' @ ds)
         else with_fraction (take (nat e + 1) ds) (drop (nat e + 1) ds))"

definition print_g :: "int \<Rightarrow> u32 \<Rightarrow> string" where
  "print_g P f =
     (if float_sign f then ''-'' else []) @
     (if is_nan f then ''nan'' else if is_inf f then ''inf''
      else if float_zero f then ''0'' else print_g_positive P (abs (float_units f)) (2 ^ 149))"

definition print_float :: "u32 \<Rightarrow> string" where
  "print_float f = print_g 6 f"

end
