(* ===== verification/Sq_Lexer.thy ===== *)
theory Sq_Lexer
  imports Sq_Table_Correct Sq_Float
begin

text \<open>
  The lexer of \<^verbatim>\<open>sqlexer.cpp\<close>. The callback \<open>_readf\<close> is the list of the integers it still
  has to deliver; at the end of the list it delivers 0, as \<open>buf_lexfeed\<close> of \<^verbatim>\<open>sqapi.cpp\<close>
  does. \<open>_errfunc\<close> is \<open>SQCompiler::ThrowError\<close>, which leaves by \<open>longjmp\<close>, so \<open>Error\<close>
  ends the operation with its message. \<open>LexChar\<close> and \<open>SQChar\<close> are 8-bit characters. The
  pointer \<open>_svalue\<close> into \<open>_longstr\<close> is the contents of that buffer at the time of the
  assignment: the compiler reads it before it asks for the next token.
\<close>

section \<open>Tokens\<close>

definition TK_IDENTIFIER :: i64 where "TK_IDENTIFIER = 258"
definition TK_STRING_LITERAL :: i64 where "TK_STRING_LITERAL = 259"
definition TK_INTEGER :: i64 where "TK_INTEGER = 260"
definition TK_FLOAT :: i64 where "TK_FLOAT = 261"
definition TK_EQ :: i64 where "TK_EQ = 264"
definition TK_NE :: i64 where "TK_NE = 265"
definition TK_LE :: i64 where "TK_LE = 266"
definition TK_GE :: i64 where "TK_GE = 267"
definition TK_AND :: i64 where "TK_AND = 270"
definition TK_OR :: i64 where "TK_OR = 271"
definition TK_NEWSLOT :: i64 where "TK_NEWSLOT = 281"
definition TK_PLUSEQ :: i64 where "TK_PLUSEQ = 289"
definition TK_MINUSEQ :: i64 where "TK_MINUSEQ = 290"
definition TK_SHIFTL :: i64 where "TK_SHIFTL = 296"
definition TK_SHIFTR :: i64 where "TK_SHIFTR = 297"
definition TK_DOUBLE_COLON :: i64 where "TK_DOUBLE_COLON = 299"
definition TK_PLUSPLUS :: i64 where "TK_PLUSPLUS = 303"
definition TK_MINUSMINUS :: i64 where "TK_MINUSMINUS = 304"
definition TK_3WAYSCMP :: i64 where "TK_3WAYSCMP = 305"
definition TK_USHIFTR :: i64 where "TK_USHIFTR = 306"
definition TK_CONSTRUCTOR :: i64 where "TK_CONSTRUCTOR = 310"
definition TK_VARPARAMS :: i64 where "TK_VARPARAMS = 312"
definition TK_MULEQ :: i64 where "TK_MULEQ = 317"
definition TK_DIVEQ :: i64 where "TK_DIVEQ = 318"
definition TK_MODEQ :: i64 where "TK_MODEQ = 319"
definition TK_ATTR_OPEN :: i64 where "TK_ATTR_OPEN = 320"
definition TK_ATTR_CLOSE :: i64 where "TK_ATTR_CLOSE = 321"

lemmas tk_defs = TK_IDENTIFIER_def TK_STRING_LITERAL_def TK_INTEGER_def TK_FLOAT_def TK_EQ_def
  TK_NE_def TK_LE_def TK_GE_def TK_AND_def TK_OR_def TK_NEWSLOT_def TK_PLUSEQ_def
  TK_MINUSEQ_def TK_SHIFTL_def TK_SHIFTR_def TK_DOUBLE_COLON_def TK_PLUSPLUS_def
  TK_MINUSMINUS_def TK_3WAYSCMP_def TK_USHIFTR_def TK_CONSTRUCTOR_def TK_VARPARAMS_def
  TK_MULEQ_def TK_DIVEQ_def TK_MODEQ_def TK_ATTR_OPEN_def TK_ATTR_CLOSE_def

text \<open>The keywords in the order \<open>Init\<close> adds them, with the values of \<^verbatim>\<open>sqcompiler.h\<close>.\<close>

definition keyword_list :: "(string \<times> i64) list" where
  "keyword_list =
    [(''while'', 274), (''do'', 277), (''if'', 272), (''else'', 273), (''break'', 275),
     (''continue'', 291), (''return'', 286), (''null'', 278), (''function'', 285),
     (''local'', 283), (''for'', 276), (''foreach'', 279), (''in'', 280), (''typeof'', 287),
     (''base'', 262), (''delete'', 263), (''try'', 293), (''catch'', 294), (''throw'', 295),
     (''clone'', 284), (''yield'', 292), (''resume'', 298), (''switch'', 268), (''case'', 300),
     (''default'', 301), (''this'', 302), (''class'', 307), (''extends'', 308),
     (''constructor'', 310), (''instanceof'', 311), (''true'', 315), (''false'', 316),
     (''static'', 322), (''enum'', 323), (''const'', 324), (''__LINE__'', 313),
     (''__FILE__'', 314), (''rawcall'', 325)]"

section \<open>The state\<close>

record lexer =
  lx_input :: "i64 list"
  lx_currdata :: char
  lx_curtoken :: i64
  lx_prevtoken :: i64
  lx_currentline :: i64
  lx_lasttokenline :: i64
  lx_currentcolumn :: i64
  lx_reached_eof :: bool
  lx_svalue :: string
  lx_nvalue :: i64
  lx_fvalue :: u32
  lx_longstr :: string
  lx_keywords :: sqtable

definition SQUIRREL_EOB :: char where "SQUIRREL_EOB = CHR 0x00"

definition MAX_CHAR :: i64 where "MAX_CHAR = 0xFF"

definition IS_EOB :: "lexer \<Rightarrow> bool" where
  "IS_EOB l \<longleftrightarrow> lx_currdata l = SQUIRREL_EOB"

fun readf :: "i64 list \<Rightarrow> i64 \<times> i64 list" where
  "readf [] = (0, [])"
| "readf (t # ts) = (t, ts)"

definition lexer_Next :: "lexer \<Rightarrow> string + lexer" where
  "lexer_Next l =
     (let (t, rest) = readf (lx_input l); l1 = l\<lparr>lx_input := rest\<rparr>
      in if MAX_CHAR <s t then Inl ''Invalid character''
         else if t \<noteq> 0 then Inr (l1\<lparr>lx_currdata := char_of (unat t)\<rparr>)
         else Inr (l1\<lparr>lx_currdata := SQUIRREL_EOB, lx_reached_eof := True\<rparr>))"

definition NEXT :: "lexer \<Rightarrow> string + lexer" where
  "NEXT l = bindE (lexer_Next l) (\<lambda>l. Inr (l\<lparr>lx_currentcolumn := lx_currentcolumn l + 1\<rparr>))"

definition APPEND_CHAR :: "char \<Rightarrow> lexer \<Rightarrow> lexer" where
  "APPEND_CHAR c l = l\<lparr>lx_longstr := lx_longstr l @ [c]\<rparr>"

definition INIT_TEMP_STRING :: "lexer \<Rightarrow> lexer" where
  "INIT_TEMP_STRING l = l\<lparr>lx_longstr := []\<rparr>"

definition TERMINATE_BUFFER :: "lexer \<Rightarrow> lexer" where
  "TERMINATE_BUFFER l = APPEND_CHAR (CHR 0x00) l"

definition RETURN_TOKEN :: "i64 \<Rightarrow> lexer \<Rightarrow> string + (i64 \<times> lexer)" where
  "RETURN_TOKEN t l = Inr (t, l\<lparr>lx_prevtoken := lx_curtoken l, lx_curtoken := t\<rparr>)"

definition tok_char :: "char \<Rightarrow> i64" where
  "tok_char c = of_char c"

text \<open>
  The members that \<open>Init\<close> does not assign (\<open>_curtoken\<close>, \<open>_svalue\<close>, \<open>_nvalue\<close>,
  \<open>_fvalue\<close>, \<open>_currdata\<close>) keep the values \<open>l0\<close> has there.
\<close>

definition lexer_Init :: "lexer \<Rightarrow> i64 list \<Rightarrow> (string + lexer) option" where
  "lexer_Init l0 rg =
     map_option (\<lambda>kw. lexer_Next
         (l0\<lparr>lx_keywords := kw, lx_input := rg, lx_lasttokenline := 1, lx_currentline := 1,
             lx_currentcolumn := 0, lx_prevtoken := - 1, lx_reached_eof := False\<rparr>))
       (newslot_all table_NewSlot (table_Create 37)
          (map (\<lambda>(k, v). (VString k, VInteger v)) keyword_list))"

text \<open>The bound of the loops: the characters left, counting the current one.\<close>

definition lexer_left :: "lexer \<Rightarrow> nat" where
  "lexer_left l = length (lx_input l) + (if lx_currdata l = CHR 0x00 then 0 else 1)"

lemma NEXT_Inr:
  assumes "NEXT l = Inr l'"
  shows "lx_currdata l' \<noteq> CHR 0x00 \<Longrightarrow> length (lx_input l') < length (lx_input l)"
    and "length (lx_input l') \<le> length (lx_input l)"
    and "lexer_left l' \<le> lexer_left l"
    and "lx_currdata l \<noteq> CHR 0x00 \<Longrightarrow> lexer_left l' < lexer_left l"
  using assms
  by (cases "lx_input l";
      auto simp: NEXT_def lexer_Next_def lexer_left_def SQUIRREL_EOB_def Let_def split: if_splits)+

lemma left_updates [simp]:
  "lexer_left (APPEND_CHAR c l) = lexer_left l"
  "lexer_left (l\<lparr>lx_currentline := n\<rparr>) = lexer_left l"
  "lx_currdata (APPEND_CHAR c l) = lx_currdata l"
  "lx_input (APPEND_CHAR c l) = lx_input l"
  by (simp_all add: lexer_left_def APPEND_CHAR_def)

text \<open>
  \<open>keeps n g m\<close>: when \<open>m\<close> succeeds, at most \<open>n\<close> characters are left in the state that \<open>g\<close>
  selects from its result.
\<close>

definition keeps :: "nat \<Rightarrow> ('a \<Rightarrow> lexer) \<Rightarrow> string + 'a \<Rightarrow> bool" where
  "keeps n g m \<longleftrightarrow> (\<forall>y. m = Inr y \<longrightarrow> lexer_left (g y) \<le> n)"

lemma keeps_Inl: "keeps n g (Inl e)"
  by (simp add: keeps_def)

lemma keeps_Inr: "lexer_left (g y) \<le> n \<Longrightarrow> keeps n g (Inr y)"
  by (simp add: keeps_def)

lemma keeps_bind:
  "keeps n h m \<Longrightarrow> (\<And>x. m = Inr x \<Longrightarrow> lexer_left (h x) \<le> n \<Longrightarrow> keeps n g (f x)) \<Longrightarrow>
     keeps n g (bindE m f)"
  by (auto simp: keeps_def bindE_Inr_iff)

lemma keeps_bind_NEXT:
  "lexer_left l \<le> n \<Longrightarrow>
     (\<And>x. NEXT l = Inr x \<Longrightarrow> lexer_left x \<le> n \<Longrightarrow> keeps n g (f x)) \<Longrightarrow>
     keeps n g (bindE (NEXT l) f)"
  by (rule keeps_bind [where h = "\<lambda>x. x"]) (auto simp: keeps_def dest!: NEXT_Inr(3))

lemma keeps_NEXT: "lexer_left l \<le> n \<Longrightarrow> keeps n (\<lambda>x. x) (NEXT l)"
  by (auto simp: keeps_def dest!: NEXT_Inr(3))

lemma keeps_first_NEXT:
  "lexer_left l \<le> Suc n \<Longrightarrow> lx_currdata l \<noteq> CHR 0x00 \<Longrightarrow>
     (\<And>x. NEXT l = Inr x \<Longrightarrow> lexer_left x \<le> n \<Longrightarrow> keeps n g (f x)) \<Longrightarrow>
     keeps n g (bindE (NEXT l) f)"
  by (rule keeps_bind [where h = "\<lambda>x. x"]) (auto simp: keeps_def dest!: NEXT_Inr(4))

lemma keeps_if:
  "(b \<Longrightarrow> keeps n g x) \<Longrightarrow> (\<not> b \<Longrightarrow> keeps n g y) \<Longrightarrow> keeps n g (if b then x else y)"
  by simp

lemma keeps_mono: "keeps k g m \<Longrightarrow> k \<le> n \<Longrightarrow> keeps n g m"
  by (auto simp: keeps_def)

lemmas keeps_intros = keeps_Inl keeps_Inr keeps_bind_NEXT keeps_NEXT keeps_if

section \<open>Comments\<close>

function LexBlockComment :: "lexer \<Rightarrow> string + lexer" where
  "LexBlockComment l =
     (if lx_currdata l = CHR ''*''
      then bindE (NEXT l) (\<lambda>l. if lx_currdata l = CHR ''/'' then NEXT l else LexBlockComment l)
      else if lx_currdata l = CHR 0x0A
      then bindE (NEXT (l\<lparr>lx_currentline := lx_currentline l + 1\<rparr>)) LexBlockComment
      else if IS_EOB l then Inl ''missing \"*/\" in comment''
      else bindE (NEXT l) LexBlockComment)"
  by pat_completeness auto
termination
  by (relation "measure lexer_left") (auto dest: NEXT_Inr(4) simp: IS_EOB_def SQUIRREL_EOB_def)

function LexLineComment :: "lexer \<Rightarrow> string + lexer" where
  "LexLineComment l =
     bindE (NEXT l)
       (\<lambda>l. if lx_currdata l \<noteq> CHR 0x0A \<and> \<not> IS_EOB l then LexLineComment l else Inr l)"
  by pat_completeness auto
termination
  by (relation "measure (\<lambda>l. length (lx_input l))")
    (auto dest: NEXT_Inr(1) simp: IS_EOB_def SQUIRREL_EOB_def)

declare LexBlockComment.simps [simp del] LexLineComment.simps [simp del]

section \<open>Character classes\<close>

text \<open>The functions of \<open>ctype.h\<close> in the C locale.\<close>

definition isxdigit :: "char \<Rightarrow> bool" where
  "isxdigit c \<longleftrightarrow> (let n = of_char c :: nat
     in 48 \<le> n \<and> n \<le> 57 \<or> 65 \<le> n \<and> n \<le> 70 \<or> 97 \<le> n \<and> n \<le> 102)"

definition isalpha :: "char \<Rightarrow> bool" where
  "isalpha c \<longleftrightarrow> (let n = of_char c :: nat in 65 \<le> n \<and> n \<le> 90 \<or> 97 \<le> n \<and> n \<le> 122)"

definition isalnum :: "char \<Rightarrow> bool" where
  "isalnum c \<longleftrightarrow> isalpha c \<or> isdigit c"

definition iscntrl :: "char \<Rightarrow> bool" where
  "iscntrl c \<longleftrightarrow> (let n = of_char c :: nat in n < 32 \<or> n = 127)"

definition toupper :: "char \<Rightarrow> nat" where
  "toupper c = (let n = of_char c in if 97 \<le> n \<and> n \<le> 122 then n - 32 else n)"

definition scisodigit :: "char \<Rightarrow> bool" where
  "scisodigit c \<longleftrightarrow> 48 \<le> (of_char c :: nat) \<and> (of_char c :: nat) \<le> 55"

definition isexponent :: "char \<Rightarrow> bool" where
  "isexponent c \<longleftrightarrow> c = CHR ''e'' \<or> c = CHR ''E''"

definition xdigit_value :: "char \<Rightarrow> u64" where
  "xdigit_value c = (if isdigit c then of_char c - 48 else of_nat (toupper c) - 65 + 10)"

lemmas char_class_defs = isxdigit_def isalpha_def isalnum_def iscntrl_def isdigit_def
  scisodigit_def isexponent_def

lemma char_class_NUL [simp]:
  "\<not> isdigit (CHR 0x00)" "\<not> isxdigit (CHR 0x00)" "\<not> isalpha (CHR 0x00)" "\<not> isalnum (CHR 0x00)"
  "\<not> scisodigit (CHR 0x00)" "\<not> isexponent (CHR 0x00)"
  by (simp_all add: char_class_defs)

section \<open>Strings\<close>

text \<open>The bytes \<open>AddUTF8\<close> appends, and the number it returns.\<close>

definition utf8_char :: "u64 \<Rightarrow> char" where
  "utf8_char w = char_of (unat w)"

definition AddUTF8 :: "u64 \<Rightarrow> lexer \<Rightarrow> lexer \<times> i64" where
  "AddUTF8 ch l =
     (if ch < 0x80 then (APPEND_CHAR (utf8_char ch) l, 1)
      else if ch < 0x800 then
        (APPEND_CHAR (utf8_char (ch AND 0x3F OR 0x80))
          (APPEND_CHAR (utf8_char (drop_bit 6 ch OR 0xC0)) l), 2)
      else if ch < 0x10000 then
        (APPEND_CHAR (utf8_char (ch AND 0x3F OR 0x80))
          (APPEND_CHAR (utf8_char (drop_bit 6 ch AND 0x3F OR 0x80))
            (APPEND_CHAR (utf8_char (drop_bit 12 ch OR 0xE0)) l)), 3)
      else if ch < 0x110000 then
        (APPEND_CHAR (utf8_char (ch AND 0x3F OR 0x80))
          (APPEND_CHAR (utf8_char (drop_bit 6 ch AND 0x3F OR 0x80))
            (APPEND_CHAR (utf8_char (drop_bit 12 ch AND 0x3F OR 0x80))
              (APPEND_CHAR (utf8_char (drop_bit 18 ch OR 0xF0)) l))), 4)
      else (l, 0))"

fun hex_escape_loop :: "nat \<Rightarrow> string \<Rightarrow> lexer \<Rightarrow> string + (string \<times> lexer)" where
  "hex_escape_loop 0 dest l = Inr (dest, l)"
| "hex_escape_loop (Suc n) dest l =
     (if isxdigit (lx_currdata l)
      then bindE (NEXT l) (hex_escape_loop n (dest @ [lx_currdata l]))
      else Inr (dest, l))"

definition ProcessStringHexEscape :: "nat \<Rightarrow> lexer \<Rightarrow> string + (string \<times> lexer)" where
  "ProcessStringHexEscape maxdigits l =
     bindE (NEXT l) (\<lambda>l.
       if \<not> isxdigit (lx_currdata l) then Inl ''hexadecimal number expected''
       else hex_escape_loop maxdigits [] l)"

text \<open>\<open>strtoul(temp, &stemp, 16)\<close> of a text of hexadecimal digits.\<close>

definition strtoul16 :: "string \<Rightarrow> u64" where
  "strtoul16 s = foldl (\<lambda>a c. a * 16 + xdigit_value c) 0 s"

definition simple_escape :: "char \<Rightarrow> char option" where
  "simple_escape c = map_of
     [(CHR ''t'', CHR 0x09), (CHR ''a'', CHR 0x07), (CHR ''b'', CHR 0x08), (CHR ''n'', CHR 0x0A),
      (CHR ''r'', CHR 0x0D), (CHR ''v'', CHR 0x0B), (CHR ''f'', CHR 0x0C), (CHR ''0'', CHR 0x00),
      (CHR 0x5C, CHR 0x5C), (CHR 0x22, CHR 0x22), (CHR 0x27, CHR 0x27)] c"

text \<open>The inner \<open>switch\<close> of \<open>ReadString\<close>: the character after a backslash.\<close>

definition ReadString_escape :: "lexer \<Rightarrow> string + lexer" where
  "ReadString_escape l =
     (if lx_currdata l = CHR ''x''
      then bindE (ProcessStringHexEscape 2 l)
             (\<lambda>(temp, l). Inr (APPEND_CHAR (char_of (unat (strtoul16 temp))) l))
      else if lx_currdata l = CHR ''U'' \<or> lx_currdata l = CHR ''u''
      then bindE (ProcessStringHexEscape (if lx_currdata l = CHR ''u'' then 4 else 8) l)
             (\<lambda>(temp, l). Inr (fst (AddUTF8 (strtoul16 temp) l)))
      else case simple_escape (lx_currdata l) of
             Some c \<Rightarrow> NEXT (APPEND_CHAR c l)
           | None \<Rightarrow> Inl ''unrecognised escaper char'')"

lemma left_hex_escape_loop:
  "hex_escape_loop n dest l = Inr (temp, l') \<Longrightarrow> lexer_left l' \<le> lexer_left l"
proof (induction n arbitrary: dest l)
  case 0
  then show ?case by simp
next
  case (Suc n)
  then show ?case
    by (auto simp: bindE_Inr_iff split: if_splits dest: NEXT_Inr(3)) (meson NEXT_Inr(3) le_trans)
qed

lemma left_ProcessStringHexEscape:
  "ProcessStringHexEscape n l = Inr (temp, l') \<Longrightarrow> lexer_left l' \<le> lexer_left l"
  unfolding ProcessStringHexEscape_def
  by (auto simp: bindE_Inr_iff split: if_splits)
    (meson NEXT_Inr(3) left_hex_escape_loop le_trans)

lemma left_AddUTF8 [simp]: "lexer_left (fst (AddUTF8 ch l)) = lexer_left l"
  by (simp add: AddUTF8_def)

lemma left_ReadString_escape:
  "ReadString_escape l = Inr l' \<Longrightarrow> lexer_left l' \<le> lexer_left l"
  unfolding ReadString_escape_def
  by (auto simp: bindE_Inr_iff split: if_splits option.splits
      dest!: left_ProcessStringHexEscape NEXT_Inr(3))

text \<open>The two nested loops of \<open>ReadString\<close>.\<close>

function ReadString_loop :: "char \<Rightarrow> bool \<Rightarrow> lexer \<Rightarrow> string + lexer" where
  "ReadString_loop ndelim verbatim l =
     (if lx_currdata l \<noteq> ndelim
      then if lx_currdata l = SQUIRREL_EOB then Inl ''unfinished string''
           else if lx_currdata l = CHR 0x0A
           then if \<not> verbatim then Inl ''newline in a constant''
                else bindE (NEXT (APPEND_CHAR (lx_currdata l) l))
                       (\<lambda>l. ReadString_loop ndelim verbatim
                              (l\<lparr>lx_currentline := lx_currentline l + 1\<rparr>))
           else if lx_currdata l = CHR 0x5C
           then if verbatim
                then bindE (NEXT (APPEND_CHAR (CHR 0x5C) l)) (ReadString_loop ndelim verbatim)
                else bindE (NEXT l) (\<lambda>l. bindE (ReadString_escape l) (ReadString_loop ndelim verbatim))
           else bindE (NEXT (APPEND_CHAR (lx_currdata l) l)) (ReadString_loop ndelim verbatim)
      else bindE (NEXT l) (\<lambda>l.
             if verbatim \<and> lx_currdata l = CHR 0x22
             then bindE (NEXT (APPEND_CHAR (lx_currdata l) l)) (ReadString_loop ndelim verbatim)
             else Inr l))"
  by pat_completeness auto
termination
proof (relation "measure (\<lambda>(d, v, l). lexer_left l)", goal_cases)
  case 1
  show ?case by simp
next
  case (2 ndelim verbatim l x)
  then show ?case using NEXT_Inr(4) [OF 2(5)] by (simp add: SQUIRREL_EOB_def)
next
  case (3 ndelim verbatim l x)
  then show ?case using NEXT_Inr(4) [OF 3(6)] by (simp add: SQUIRREL_EOB_def)
next
  case (4 ndelim verbatim l x xa)
  then show ?case using NEXT_Inr(4) [OF 4(6)] left_ReadString_escape [OF 4(7)]
    by (simp add: SQUIRREL_EOB_def)
next
  case (5 ndelim verbatim l x)
  then show ?case using NEXT_Inr(4) [OF 5(5)] by (simp add: SQUIRREL_EOB_def)
next
  case (6 ndelim verbatim l x xa)
  then show ?case using NEXT_Inr(3) [OF 6(2)] NEXT_Inr(4) [OF 6(4)] by simp
qed

declare ReadString_loop.simps [simp del]

definition ReadString :: "char \<Rightarrow> bool \<Rightarrow> lexer \<Rightarrow> string + (i64 \<times> lexer)" where
  "ReadString ndelim verbatim l =
     bindE (NEXT (INIT_TEMP_STRING l)) (\<lambda>l.
       if IS_EOB l then Inr (- 1, l)
       else bindE (ReadString_loop ndelim verbatim l) (\<lambda>l.
         let l = TERMINATE_BUFFER l; len = length (lx_longstr l) - 1
         in if ndelim = CHR 0x27
            then if len = 0 then Inl ''empty constant''
                 else if 1 < len then Inl ''constant too long''
                 else Inr (TK_INTEGER, l\<lparr>lx_nvalue := scast (of_char (lx_longstr l ! 0) :: byte)\<rparr>)
            else Inr (TK_STRING_LITERAL, l\<lparr>lx_svalue := lx_longstr l\<rparr>)))"

section \<open>Numbers\<close>

text \<open>The three conversions read up to the terminating zero; \<open>assert(0)\<close> is \<^const>\<open>None\<close>.\<close>

fun LexHexadecimal :: "string \<Rightarrow> u64 \<Rightarrow> u64 option" where
  "LexHexadecimal [] res = None"
| "LexHexadecimal (c # s) res =
     (if c = CHR 0x00 then Some res
      else if isdigit c then LexHexadecimal s (res * 16 + (of_char c - 48))
      else if isxdigit c then LexHexadecimal s (res * 16 + (of_nat (toupper c) - 65 + 10))
      else None)"

definition schar_int :: "char \<Rightarrow> u64" where
  "schar_int c = scast (of_char c :: byte)"

fun LexInteger :: "string \<Rightarrow> u64 \<Rightarrow> u64 option" where
  "LexInteger [] res = None"
| "LexInteger (c # s) res =
     (if c = CHR 0x00 then Some res else LexInteger s (res * 10 + (schar_int c - 48)))"

fun LexOctal :: "string \<Rightarrow> u64 \<Rightarrow> u64 option" where
  "LexOctal [] res = None"
| "LexOctal (c # s) res =
     (if c = CHR 0x00 then Some res
      else if scisodigit c then LexOctal s (res * 8 + (of_char c - 48))
      else None)"

datatype numtype = TINT | TFLOAT | THEX | TSCIENTIFIC | TOCTAL

definition MAX_HEX_DIGITS :: nat where "MAX_HEX_DIGITS = 16"

function octal_loop :: "lexer \<Rightarrow> string + lexer" where
  "octal_loop l =
     (if scisodigit (lx_currdata l)
      then bindE (NEXT (APPEND_CHAR (lx_currdata l) l)) octal_loop else Inr l)"
  by pat_completeness auto
termination
  by (relation "measure lexer_left") (auto dest!: NEXT_Inr(4))

function hex_loop :: "lexer \<Rightarrow> string + lexer" where
  "hex_loop l =
     (if isxdigit (lx_currdata l)
      then bindE (NEXT (APPEND_CHAR (lx_currdata l) l)) hex_loop else Inr l)"
  by pat_completeness auto
termination
  by (relation "measure lexer_left") (auto dest!: NEXT_Inr(4))

function number_loop :: "numtype \<Rightarrow> lexer \<Rightarrow> string + (numtype \<times> lexer)" where
  "number_loop type l =
     (if lx_currdata l = CHR ''.'' \<or> isdigit (lx_currdata l) \<or> isexponent (lx_currdata l)
      then let type = (if lx_currdata l = CHR ''.'' \<or> isexponent (lx_currdata l) then TFLOAT else type)
           in if isexponent (lx_currdata l)
              then if type \<noteq> TFLOAT then Inl ''invalid numeric format''
                   else bindE (NEXT (APPEND_CHAR (lx_currdata l) l)) (\<lambda>l.
                        bindE (if lx_currdata l = CHR ''+'' \<or> lx_currdata l = CHR ''-''
                               then NEXT (APPEND_CHAR (lx_currdata l) l) else Inr l) (\<lambda>l.
                          if \<not> isdigit (lx_currdata l) then Inl ''exponent expected''
                          else bindE (NEXT (APPEND_CHAR (lx_currdata l) l)) (number_loop TSCIENTIFIC)))
              else bindE (NEXT (APPEND_CHAR (lx_currdata l) l)) (number_loop type)
      else Inr (type, l))"
  by pat_completeness auto
termination
proof (relation "measure (\<lambda>(t, l). lexer_left l)", goal_cases)
  case 1
  show ?case by simp
next
  case (2 type l t2 x xa xb)
  have "lexer_left xa \<le> lexer_left x"
    using 2(6) by (auto split: if_splits dest!: NEXT_Inr(3))
  moreover have "lx_currdata l \<noteq> CHR 0x00" "lx_currdata xa \<noteq> CHR 0x00"
    using 2(1,7) by auto
  ultimately show ?case using NEXT_Inr(3) [OF 2(5)] NEXT_Inr(4) [OF 2(8)] by simp
next
  case (3 type l t2 x)
  have "lx_currdata l \<noteq> CHR 0x00" using 3(1) by auto
  then show ?case using NEXT_Inr(4) [OF 3(4)] by simp
qed

declare octal_loop.simps [simp del] hex_loop.simps [simp del] number_loop.simps [simp del]

text \<open>The final \<open>switch\<close>: a failed assertion of a conversion is reported as such.\<close>

definition store_nvalue :: "u64 option \<Rightarrow> lexer \<Rightarrow> string + (i64 \<times> lexer)" where
  "store_nvalue v l = (case v of None \<Rightarrow> Inl ''assertion failed''
                       | Some n \<Rightarrow> Inr (TK_INTEGER, l\<lparr>lx_nvalue := n\<rparr>))"

definition ReadNumber_value :: "numtype \<Rightarrow> lexer \<Rightarrow> string + (i64 \<times> lexer)" where
  "ReadNumber_value type l =
     (let l = TERMINATE_BUFFER l
      in case type of
           TSCIENTIFIC \<Rightarrow> Inr (TK_FLOAT, l\<lparr>lx_fvalue := strtod_float (lx_longstr l)\<rparr>)
         | TFLOAT \<Rightarrow> Inr (TK_FLOAT, l\<lparr>lx_fvalue := strtod_float (lx_longstr l)\<rparr>)
         | TINT \<Rightarrow> store_nvalue (LexInteger (lx_longstr l) 0) l
         | THEX \<Rightarrow> store_nvalue (LexHexadecimal (lx_longstr l) 0) l
         | TOCTAL \<Rightarrow> store_nvalue (LexOctal (lx_longstr l) 0) l)"

definition ReadNumber :: "lexer \<Rightarrow> string + (i64 \<times> lexer)" where
  "ReadNumber l =
     (let firstchar = lx_currdata l
      in bindE (NEXT (INIT_TEMP_STRING l)) (\<lambda>l.
           if firstchar = CHR ''0'' \<and> (toupper (lx_currdata l) = of_char (CHR ''X'') \<or>
                                       scisodigit (lx_currdata l))
           then if scisodigit (lx_currdata l)
                then bindE (octal_loop l) (\<lambda>l.
                       if isdigit (lx_currdata l) then Inl ''invalid octal number''
                       else ReadNumber_value TOCTAL l)
                else bindE (NEXT l) (\<lambda>l. bindE (hex_loop l) (\<lambda>l.
                       if MAX_HEX_DIGITS < length (lx_longstr l)
                       then Inl ''too many digits for an Hex number''
                       else ReadNumber_value THEX l))
           else bindE (number_loop TINT (APPEND_CHAR firstchar l))
                  (\<lambda>(type, l). ReadNumber_value type l)))"

section \<open>Identifiers and keywords\<close>

definition GetIDType :: "lexer \<Rightarrow> string \<Rightarrow> i64 option" where
  "GetIDType l s =
     (case table_GetStr (\<lambda>_. VNull) (lx_keywords l) s (length s) of
        None \<Rightarrow> None
      | Some None \<Rightarrow> Some TK_IDENTIFIER
      | Some (Some (VInteger t)) \<Rightarrow> Some t
      | Some (Some _) \<Rightarrow> None)"

function id_loop :: "lexer \<Rightarrow> string + lexer" where
  "id_loop l =
     bindE (NEXT (APPEND_CHAR (lx_currdata l) l))
       (\<lambda>l. if isalnum (lx_currdata l) \<or> lx_currdata l = CHR ''_'' then id_loop l else Inr l)"
  by pat_completeness auto
termination
  by (relation "measure (\<lambda>l. length (lx_input l))") (auto dest!: NEXT_Inr(1))

declare id_loop.simps [simp del]

definition ReadID :: "lexer \<Rightarrow> string + (i64 \<times> lexer)" where
  "ReadID l =
     bindE (id_loop (INIT_TEMP_STRING l)) (\<lambda>l.
       let l = TERMINATE_BUFFER l
       in case GetIDType l (butlast (lx_longstr l)) of
            None \<Rightarrow> Inl ''assertion failed''
          | Some res \<Rightarrow>
              Inr (res, if res = TK_IDENTIFIER \<or> res = TK_CONSTRUCTOR
                        then l\<lparr>lx_svalue := lx_longstr l\<rparr> else l))"

text \<open>
  \<open>Tok2Str\<close>: iterate over the keyword table until a value equals the token. The table
  holds integers only; anything else would be the failed conversion of \<open>_integer\<close>.
\<close>

fun find_token :: "(sqobject \<times> sqobject) list \<Rightarrow> i64 \<Rightarrow> string option" where
  "find_token [] tok = None"
| "find_token ((k, v) # kvs) tok =
     (if v = VInteger tok then (case k of VString s \<Rightarrow> Some s | _ \<Rightarrow> None) else find_token kvs tok)"

definition Tok2Str :: "lexer \<Rightarrow> i64 \<Rightarrow> string option" where
  "Tok2Str l tok = find_token (iterate (\<lambda>_. VNull) False (lx_keywords l) 0) tok"

section \<open>The main function\<close>

text \<open>A one-character token, and the choice between it and a longer one.\<close>

definition ret_next :: "i64 \<Rightarrow> lexer \<Rightarrow> string + (i64 \<times> lexer)" where
  "ret_next t l = bindE (NEXT l) (RETURN_TOKEN t)"

definition string_token :: "char \<Rightarrow> bool \<Rightarrow> lexer \<Rightarrow> string + (i64 \<times> lexer)" where
  "string_token ndelim verbatim l =
     bindE (ReadString ndelim verbatim l) (\<lambda>(stype, l).
       if stype \<noteq> - 1 then RETURN_TOKEN stype l else Inl ''error parsing the string'')"

definition lex_lt :: "lexer \<Rightarrow> string + (i64 \<times> lexer)" where
  "lex_lt l = bindE (NEXT l) (\<lambda>l.
     if lx_currdata l = CHR ''=''
     then bindE (NEXT l) (\<lambda>l. if lx_currdata l = CHR ''>'' then ret_next TK_3WAYSCMP l
                               else RETURN_TOKEN TK_LE l)
     else if lx_currdata l = CHR ''-'' then ret_next TK_NEWSLOT l
     else if lx_currdata l = CHR ''<'' then ret_next TK_SHIFTL l
     else if lx_currdata l = CHR ''/'' then ret_next TK_ATTR_OPEN l
     else RETURN_TOKEN (tok_char CHR ''<'') l)"

definition lex_gt :: "lexer \<Rightarrow> string + (i64 \<times> lexer)" where
  "lex_gt l = bindE (NEXT l) (\<lambda>l.
     if lx_currdata l = CHR ''='' then ret_next TK_GE l
     else if lx_currdata l = CHR ''>''
     then bindE (NEXT l) (\<lambda>l. if lx_currdata l = CHR ''>'' then ret_next TK_USHIFTR l
                               else RETURN_TOKEN TK_SHIFTR l)
     else RETURN_TOKEN (tok_char CHR ''>'') l)"

definition lex_dot :: "lexer \<Rightarrow> string + (i64 \<times> lexer)" where
  "lex_dot l = bindE (NEXT l) (\<lambda>l.
     if lx_currdata l \<noteq> CHR ''.'' then RETURN_TOKEN (tok_char CHR ''.'') l
     else bindE (NEXT l) (\<lambda>l.
       if lx_currdata l \<noteq> CHR ''.'' then Inl (''invalid token '' @ [CHR 0x27] @ ''..'' @ [CHR 0x27])
       else ret_next TK_VARPARAMS l))"

text \<open>The operators that are doubled (\<open>&&\<close>) or followed by one of two characters.\<close>

definition lex_two :: "char \<Rightarrow> char \<Rightarrow> i64 \<Rightarrow> lexer \<Rightarrow> string + (i64 \<times> lexer)" where
  "lex_two c c2 t l = bindE (NEXT l) (\<lambda>l.
     if lx_currdata l = c2 then ret_next t l else RETURN_TOKEN (tok_char c) l)"

definition lex_three :: "char \<Rightarrow> char \<Rightarrow> i64 \<Rightarrow> char \<Rightarrow> i64 \<Rightarrow> lexer \<Rightarrow> string + (i64 \<times> lexer)" where
  "lex_three c c2 t2 c3 t3 l = bindE (NEXT l) (\<lambda>l.
     if lx_currdata l = c2 then ret_next t2 l
     else if lx_currdata l = c3 then ret_next t3 l
     else RETURN_TOKEN (tok_char c) l)"

definition lex_at :: "lexer \<Rightarrow> string + (i64 \<times> lexer)" where
  "lex_at l = bindE (NEXT l) (\<lambda>l.
     if lx_currdata l \<noteq> CHR 0x22 then RETURN_TOKEN (tok_char CHR ''@'') l
     else string_token (CHR 0x22) True l)"

definition lex_default :: "lexer \<Rightarrow> string + (i64 \<times> lexer)" where
  "lex_default l =
     (if isdigit (lx_currdata l) then bindE (ReadNumber l) (\<lambda>(ret, l). RETURN_TOKEN ret l)
      else if isalpha (lx_currdata l) \<or> lx_currdata l = CHR ''_''
      then bindE (ReadID l) (\<lambda>(t, l). RETURN_TOKEN t l)
      else if iscntrl (lx_currdata l) then Inl ''unexpected character(control)''
      else ret_next (tok_char (lx_currdata l)) l)"

text \<open>The cases of the \<open>switch\<close> that return a token.\<close>

definition lex_token :: "lexer \<Rightarrow> string + (i64 \<times> lexer)" where
  "lex_token l =
     (let c = lx_currdata l
      in if c = CHR ''='' then lex_two c (CHR ''='') TK_EQ l
         else if c = CHR ''<'' then lex_lt l
         else if c = CHR ''>'' then lex_gt l
         else if c = CHR ''!'' then lex_two c (CHR ''='') TK_NE l
         else if c = CHR ''@'' then lex_at l
         else if c = CHR 0x22 \<or> c = CHR 0x27 then string_token c False l
         else if c \<in> set ''{}()[];,?^~'' then ret_next (tok_char c) l
         else if c = CHR ''.'' then lex_dot l
         else if c = CHR ''&'' then lex_two c (CHR ''&'') TK_AND l
         else if c = CHR ''|'' then lex_two c (CHR ''|'') TK_OR l
         else if c = CHR '':'' then lex_two c (CHR '':'') TK_DOUBLE_COLON l
         else if c = CHR ''*'' then lex_two c (CHR ''='') TK_MULEQ l
         else if c = CHR ''%'' then lex_two c (CHR ''='') TK_MODEQ l
         else if c = CHR ''-'' then lex_three c (CHR ''='') TK_MINUSEQ (CHR ''-'') TK_MINUSMINUS l
         else if c = CHR ''+'' then lex_three c (CHR ''='') TK_PLUSEQ (CHR ''+'') TK_PLUSPLUS l
         else lex_default l)"

lemma left_LexBlockComment: "LexBlockComment l = Inr l' \<Longrightarrow> lexer_left l' \<le> lexer_left l"
proof -
  have "keeps (lexer_left l) (\<lambda>x. x) (LexBlockComment l)"
  proof (induction l rule: LexBlockComment.induct)
    case (1 l)
    show ?case
      unfolding LexBlockComment.simps [of l]
      by (auto intro!: keeps_intros intro: keeps_mono [OF 1(1)] keeps_mono [OF 1(2)] keeps_mono [OF 1(3)])
  qed
  then show "LexBlockComment l = Inr l' \<Longrightarrow> lexer_left l' \<le> lexer_left l" by (auto simp: keeps_def)
qed

lemma left_LexLineComment: "LexLineComment l = Inr l' \<Longrightarrow> lexer_left l' \<le> lexer_left l"
proof -
  have "keeps (lexer_left l) (\<lambda>x. x) (LexLineComment l)"
  proof (induction l rule: LexLineComment.induct)
    case (1 l)
    show ?case
      unfolding LexLineComment.simps [of l]
      by (auto intro!: keeps_intros intro: keeps_mono [OF 1(1)])
  qed
  then show "LexLineComment l = Inr l' \<Longrightarrow> lexer_left l' \<le> lexer_left l" by (auto simp: keeps_def)
qed

lemma left_LexLineComment_less:
  assumes "LexLineComment l = Inr l'" "lx_currdata l \<noteq> CHR 0x00"
  shows "lexer_left l' < lexer_left l"
proof -
  obtain x where x: "NEXT l = Inr x" "l' = x \<or> LexLineComment x = Inr l'"
    using assms(1) unfolding LexLineComment.simps [of l] by (auto simp: bindE_Inr_iff split: if_splits)
  then show ?thesis using NEXT_Inr(4) [OF x(1) assms(2)] left_LexLineComment [of x l'] by auto
qed

function Lex_loop :: "lexer \<Rightarrow> string + (i64 \<times> lexer)" where
  "Lex_loop l =
     (if lx_currdata l = SQUIRREL_EOB then Inr (0, l)
      else if lx_currdata l \<in> {CHR 0x09, CHR 0x0D, CHR 0x20} then bindE (NEXT l) Lex_loop
      else if lx_currdata l = CHR 0x0A
      then bindE (NEXT (l\<lparr>lx_currentline := lx_currentline l + 1, lx_prevtoken := lx_curtoken l,
                          lx_curtoken := tok_char (CHR 0x0A)\<rparr>))
             (\<lambda>l. Lex_loop (l\<lparr>lx_currentcolumn := 1\<rparr>))
      else if lx_currdata l = CHR ''#'' then bindE (LexLineComment l) Lex_loop
      else if lx_currdata l = CHR ''/''
      then bindE (NEXT l) (\<lambda>l.
             if lx_currdata l = CHR ''*''
             then bindE (NEXT l) (\<lambda>l. bindE (LexBlockComment l) Lex_loop)
             else if lx_currdata l = CHR ''/'' then bindE (LexLineComment l) Lex_loop
             else if lx_currdata l = CHR ''='' then ret_next TK_DIVEQ l
             else if lx_currdata l = CHR ''>'' then ret_next TK_ATTR_CLOSE l
             else RETURN_TOKEN (tok_char CHR ''/'') l)
      else lex_token l)"
  by pat_completeness auto
termination
proof (relation "measure lexer_left", goal_cases)
  case 1
  show ?case by simp
next
  case (2 l x)
  then show ?case using NEXT_Inr(4) [OF 2(3)] by (simp add: SQUIRREL_EOB_def)
next
  case (3 l x)
  then show ?case using NEXT_Inr(4) [OF 3(4)] by (simp add: SQUIRREL_EOB_def lexer_left_def)
next
  case (4 l x)
  then show ?case using left_LexLineComment_less [OF 4(5)] by (simp add: SQUIRREL_EOB_def)
next
  case (5 l x xa xb)
  then show ?case
    using NEXT_Inr(4) [OF 5(6)] NEXT_Inr(3) [OF 5(8)] left_LexBlockComment [OF 5(9)]
    by (simp add: SQUIRREL_EOB_def)
next
  case (6 l x xa)
  then show ?case
    using NEXT_Inr(4) [OF 6(6)] left_LexLineComment [OF 6(9)] by (simp add: SQUIRREL_EOB_def)
qed

declare Lex_loop.simps [simp del]

definition Lex :: "lexer \<Rightarrow> string + (i64 \<times> lexer)" where
  "Lex l = Lex_loop (l\<lparr>lx_lasttokenline := lx_currentline l\<rparr>)"

end
