(* ===== verification/Sq_Lexer_Correct.thy ===== *)
theory Sq_Lexer_Correct
  imports Sq_Lexer
begin

text \<open>
  Correctness of the lexer: progress, the keyword table, decimal literals, string literals
  with their escapes, verbatim strings, block comments, and UTF-8 encoding.
\<close>

section \<open>Reading a text\<close>

text \<open>\<open>looking_at l s\<close>: the current character and the characters to come are the text \<open>s\<close>.\<close>

definition looking_at :: "lexer \<Rightarrow> string \<Rightarrow> bool" where
  "looking_at l s \<longleftrightarrow> CHR 0x00 \<notin> set s \<and>
     (case s of [] \<Rightarrow> lx_currdata l = CHR 0x00 \<and> lx_input l = []
      | c # cs \<Rightarrow> lx_currdata l = c \<and> lx_input l = map tok_char cs)"

text \<open>The state after \<open>NEXT\<close> on a text.\<close>

definition adv :: "lexer \<Rightarrow> lexer" where
  "adv l = l\<lparr>lx_input := tl (lx_input l),
     lx_currdata := (if lx_input l = [] then CHR 0x00 else char_of (unat (hd (lx_input l)))),
     lx_reached_eof := (lx_reached_eof l \<or> lx_input l = []),
     lx_currentcolumn := lx_currentcolumn l + 1\<rparr>"

lemma adv_simps [simp]:
  "lx_longstr (adv l) = lx_longstr l" "lx_currentline (adv l) = lx_currentline l"
  "lx_keywords (adv l) = lx_keywords l" "lx_curtoken (adv l) = lx_curtoken l"
  "lx_lasttokenline (adv l) = lx_lasttokenline l"
  by (simp_all add: adv_def)

lemma tok_char_bounds:
  "unat (tok_char c) = of_char c" "char_of (unat (tok_char c)) = c"
  "\<not> MAX_CHAR <s tok_char c" "tok_char c = 0 \<longleftrightarrow> c = CHR 0x00"
proof -
  have lt: "(of_char c :: nat) < 256" by simp
  have tc: "tok_char c = of_nat (of_char c)"
    unfolding tok_char_def of_nat_of_char by (rule refl)
  show u: "unat (tok_char c) = of_char c"
    unfolding tc unat_of_nat by (rule mod_less) (rule order.strict_trans [OF lt], simp)
  show "char_of (unat (tok_char c)) = c" by (simp add: u)
  have "uint (tok_char c) < 256" using u lt by (simp add: uint_nat)
  then have "sint (tok_char c) < 256" by (subst sint_small) simp_all
  then show "\<not> MAX_CHAR <s tok_char c"
    using lt by (simp add: word_sless_alt MAX_CHAR_def)
  have "tok_char c = 0 \<longleftrightarrow> (of_char c :: nat) = of_char (CHR 0x00)"
    by (simp add: u [symmetric] unat_eq_0)
  then show "tok_char c = 0 \<longleftrightarrow> c = CHR 0x00" by (simp only: of_char_eq_iff)
qed

lemma not_MAX_CHAR_0: "\<not> MAX_CHAR <s 0"
  by (simp add: word_sless_alt MAX_CHAR_def)

lemma NEXT_looking_at:
  assumes "looking_at l (c # cs)"
  shows "NEXT l = Inr (adv l)" "looking_at (adv l) cs"
proof -
  have nul: "CHR 0x00 \<notin> set cs" and inp: "lx_input l = map tok_char cs"
    using assms by (auto simp: looking_at_def)
  show "NEXT l = Inr (adv l)"
    using nul inp
    by (cases cs) (auto simp: NEXT_def lexer_Next_def adv_def tok_char_bounds not_MAX_CHAR_0
        SQUIRREL_EOB_def Let_def)
  show "looking_at (adv l) cs"
    using nul inp by (cases cs) (simp_all add: looking_at_def adv_def tok_char_bounds)
qed

lemma looking_at_cur: "looking_at l (c # cs) \<Longrightarrow> lx_currdata l = c \<and> c \<noteq> CHR 0x00"
  by (auto simp: looking_at_def)

lemma looking_at_APPEND [simp]: "looking_at (APPEND_CHAR c l) s = looking_at l s"
  by (simp add: looking_at_def APPEND_CHAR_def split: list.split)

lemma longstr_APPEND [simp]:
  "lx_longstr (APPEND_CHAR c l) = lx_longstr l @ [c]"
  "lx_currentline (APPEND_CHAR c l) = lx_currentline l"
  by (simp_all add: APPEND_CHAR_def)

lemma looking_at_updates [simp]:
  "looking_at (l\<lparr>lx_longstr := v1\<rparr>) s = looking_at l s"
  "looking_at (l\<lparr>lx_currentline := v2\<rparr>) s = looking_at l s"
  "looking_at (l\<lparr>lx_lasttokenline := v2\<rparr>) s = looking_at l s"
  "looking_at (l\<lparr>lx_nvalue := v2\<rparr>) s = looking_at l s"
  "looking_at (l\<lparr>lx_svalue := v1\<rparr>) s = looking_at l s"
  "looking_at (l\<lparr>lx_prevtoken := v2\<rparr>) s = looking_at l s"
  "looking_at (l\<lparr>lx_curtoken := v2\<rparr>) s = looking_at l s"
  by (simp_all add: looking_at_def split: list.split)

section \<open>Progress\<close>

lemma left_simps [simp]:
  "lexer_left (INIT_TEMP_STRING l) = lexer_left l" "lexer_left (TERMINATE_BUFFER l) = lexer_left l"
  "lexer_left (l\<lparr>lx_svalue := v1\<rparr>) = lexer_left l" "lexer_left (l\<lparr>lx_nvalue := v2\<rparr>) = lexer_left l"
  "lexer_left (l\<lparr>lx_fvalue := v3\<rparr>) = lexer_left l"
  "lexer_left (l\<lparr>lx_prevtoken := v2, lx_curtoken := v4\<rparr>) = lexer_left l"
  "lexer_left (l\<lparr>lx_currentline := v2, lx_prevtoken := v4, lx_curtoken := v5\<rparr>) = lexer_left l"
  "lexer_left (l\<lparr>lx_currentcolumn := v2\<rparr>) = lexer_left l"
  "lexer_left (l\<lparr>lx_lasttokenline := v2\<rparr>) = lexer_left l"
  "lx_currdata (INIT_TEMP_STRING l) = lx_currdata l"
  by (simp_all add: lexer_left_def INIT_TEMP_STRING_def TERMINATE_BUFFER_def)

lemma keeps_RETURN_TOKEN: "lexer_left l \<le> n \<Longrightarrow> keeps n snd (RETURN_TOKEN t l)"
  by (simp add: RETURN_TOKEN_def keeps_def)

lemma keeps_ret_next: "lexer_left l \<le> n \<Longrightarrow> keeps n snd (ret_next t l)"
  unfolding ret_next_def by (rule keeps_bind_NEXT) (auto intro: keeps_RETURN_TOKEN)

lemma keeps_ret_first:
  "lexer_left l \<le> Suc n \<Longrightarrow> lx_currdata l \<noteq> CHR 0x00 \<Longrightarrow> keeps n snd (ret_next t l)"
  unfolding ret_next_def by (rule keeps_first_NEXT) (auto intro: keeps_RETURN_TOKEN)

lemma keeps_bind_escape:
  "lexer_left l \<le> n \<Longrightarrow>
     (\<And>x. ReadString_escape l = Inr x \<Longrightarrow> lexer_left x \<le> n \<Longrightarrow> keeps n g (f x)) \<Longrightarrow>
     keeps n g (bindE (ReadString_escape l) f)"
  by (rule keeps_bind [where h = "\<lambda>x. x"]) (auto simp: keeps_def dest!: left_ReadString_escape)

lemma keeps_ReadString_loop: "keeps (lexer_left l) (\<lambda>x. x) (ReadString_loop d v l)"
proof (induction d v l rule: ReadString_loop.induct)
  case (1 d v l)
  show ?case
    unfolding ReadString_loop.simps [of d v l]
    by (intro keeps_if keeps_Inl keeps_bind_NEXT keeps_bind_escape keeps_Inr)
     ((rule keeps_mono [OF 1(1)] keeps_mono [OF 1(2)] keeps_mono [OF 1(3)] keeps_mono [OF 1(4)]
          keeps_mono [OF 1(5)]; assumption?)?; simp; fail)+
qed

lemma keeps_ReadString:
  assumes "lexer_left l \<le> Suc n" "lx_currdata l \<noteq> CHR 0x00"
  shows "keeps n snd (ReadString d v l)"
  unfolding ReadString_def
  using assms
  by (auto intro!: keeps_first_NEXT keeps_if keeps_Inr keeps_Inl
      keeps_bind [OF keeps_mono [OF keeps_ReadString_loop]] simp: Let_def)

lemma keeps_string_token:
  "lexer_left l \<le> Suc n \<Longrightarrow> lx_currdata l \<noteq> CHR 0x00 \<Longrightarrow> keeps n snd (string_token d v l)"
  unfolding string_token_def
  by (auto intro!: keeps_bind [OF keeps_ReadString] keeps_RETURN_TOKEN keeps_Inl)

lemma keeps_octal_loop: "keeps (lexer_left l) (\<lambda>x. x) (octal_loop l)"
proof (induction l rule: octal_loop.induct)
  case (1 l)
  show ?case
    unfolding octal_loop.simps [of l]
    by (auto intro!: keeps_intros intro: keeps_mono [OF 1])
qed

lemma keeps_hex_loop: "keeps (lexer_left l) (\<lambda>x. x) (hex_loop l)"
proof (induction l rule: hex_loop.induct)
  case (1 l)
  show ?case
    unfolding hex_loop.simps [of l]
    by (auto intro!: keeps_intros intro: keeps_mono [OF 1])
qed

lemma keeps_number_loop: "keeps (lexer_left l) snd (number_loop t l)"
proof (induction t l rule: number_loop.induct)
  case (1 t l)
  show ?case
    unfolding number_loop.simps [of t l] Let_def
    by (intro keeps_if keeps_Inl keeps_bind_NEXT keeps_Inr keeps_bind [of _ "\<lambda>x. x"] keeps_NEXT
        keeps_mono [OF 1(1)] keeps_mono [OF 1(2)]) (auto simp: )
qed

lemma keeps_ReadNumber_value: "lexer_left l \<le> n \<Longrightarrow> keeps n snd (ReadNumber_value t l)"
  by (auto simp: ReadNumber_value_def keeps_def store_nvalue_def Let_def
      split: numtype.splits option.splits)

lemma keeps_ReadNumber:
  assumes "lexer_left l \<le> Suc n" "lx_currdata l \<noteq> CHR 0x00"
  shows "keeps n snd (ReadNumber l)"
  unfolding ReadNumber_def Let_def
  by (rule keeps_first_NEXT, use assms in simp, use assms in simp)
    (auto intro!: keeps_if keeps_Inl keeps_ReadNumber_value keeps_bind_NEXT
      keeps_bind [OF keeps_mono [OF keeps_octal_loop]] keeps_bind [OF keeps_mono [OF keeps_hex_loop]]
      keeps_bind [OF keeps_mono [OF keeps_number_loop]])

lemma keeps_id_loop:
  "lexer_left l \<le> Suc n \<Longrightarrow> lx_currdata l \<noteq> CHR 0x00 \<Longrightarrow> keeps n (\<lambda>x. x) (id_loop l)"
proof (induction l arbitrary: n rule: id_loop.induct)
  case (1 l)
  show ?case
    unfolding id_loop.simps [of l]
  proof (rule keeps_first_NEXT; (rule keeps_if)?)
    fix x
    assume x: "NEXT (APPEND_CHAR (lx_currdata l) l) = Inr x" "lexer_left x \<le> n"
      and c: "isalnum (lx_currdata x) \<or> lx_currdata x = CHR ''_''"
    have "lx_currdata x \<noteq> CHR 0x00" using c by auto
    with 1(1) [OF x(1) c, of n] x(2) show "keeps n (\<lambda>x. x) (id_loop x)" by simp
  qed (use 1(2,3) in \<open>auto intro: keeps_Inr\<close>)
qed

lemma keeps_ReadID:
  assumes "lexer_left l \<le> Suc n" "lx_currdata l \<noteq> CHR 0x00"
  shows "keeps n snd (ReadID l)"
  unfolding ReadID_def Let_def
  by (rule keeps_bind [OF keeps_id_loop])
    (use assms in \<open>auto intro!: keeps_Inl keeps_Inr split: option.split\<close>)

lemma keeps_lex_token:
  assumes "lexer_left l \<le> Suc n" "lx_currdata l \<noteq> CHR 0x00"
  shows "keeps n snd (lex_token l)"
proof -
  have two: "keeps n snd (lex_two c c2 t l)" for c c2 t
    unfolding lex_two_def using assms
    by (auto intro!: keeps_first_NEXT keeps_if keeps_ret_next keeps_RETURN_TOKEN)
  have three: "keeps n snd (lex_three c c2 t c3 t3 l)" for c c2 t c3 t3
    unfolding lex_three_def using assms
    by (auto intro!: keeps_first_NEXT keeps_if keeps_ret_next keeps_RETURN_TOKEN)
  have lg: "keeps n snd (lex_lt l)" "keeps n snd (lex_gt l)" "keeps n snd (lex_dot l)"
    unfolding lex_lt_def lex_gt_def lex_dot_def
    by (rule keeps_first_NEXT [OF assms];
        auto intro!: keeps_if keeps_ret_next keeps_RETURN_TOKEN keeps_bind_NEXT keeps_Inl)+
  have at: "keeps n snd (lex_at l)"
    unfolding lex_at_def using assms
    by (auto intro!: keeps_first_NEXT keeps_if keeps_RETURN_TOKEN keeps_string_token)
  have def: "keeps n snd (lex_default l)"
    unfolding lex_default_def
    using assms by (auto intro!: keeps_if keeps_bind [OF keeps_ReadNumber] keeps_bind [OF keeps_ReadID]
        keeps_RETURN_TOKEN keeps_ret_first keeps_Inl)
  show ?thesis
    unfolding lex_token_def Let_def
    by (intro keeps_if two three lg at def keeps_string_token keeps_ret_first assms)
qed

definition progress :: "lexer \<Rightarrow> string + (i64 \<times> lexer) \<Rightarrow> bool" where
  "progress l m \<longleftrightarrow>
     (\<forall>t l'. m = Inr (t, l') \<longrightarrow>
        lexer_left l' \<le> lexer_left l \<and> (t \<noteq> 0 \<longrightarrow> lexer_left l' < lexer_left l))"

lemma progress_keeps:
  "keeps n snd m \<Longrightarrow> n < lexer_left l \<Longrightarrow> progress l m"
  by (fastforce simp: keeps_def progress_def)

lemma progress_trans: "progress x m \<Longrightarrow> lexer_left x \<le> lexer_left l \<Longrightarrow> progress l m"
  by (fastforce simp: progress_def)

lemma progress_bind:
  "(\<And>x. m = Inr x \<Longrightarrow> lexer_left x < lexer_left l) \<Longrightarrow>
     (\<And>x. m = Inr x \<Longrightarrow> lexer_left x < lexer_left l \<Longrightarrow> progress l (f x)) \<Longrightarrow> progress l (bindE m f)"
  by (cases m) (auto simp: progress_def)

lemma Lex_loop_progress: "progress l (Lex_loop l)"
proof (induction l rule: Lex_loop.induct)
  case (1 l)
  show ?case
  proof (cases "lx_currdata l = CHR 0x00")
    case True
    then show ?thesis unfolding Lex_loop.simps [of l] by (simp add: SQUIRREL_EOB_def progress_def)
  next
    case nul: False
    then obtain n where n: "lexer_left l = Suc n" by (simp add: lexer_left_def)
    from nul have eob: "lx_currdata l \<noteq> SQUIRREL_EOB" by (simp add: SQUIRREL_EOB_def)
    have nx: "lexer_left x < lexer_left l" if "NEXT l = Inr x" for x
      using that nul by (rule NEXT_Inr(4))
    have rec: "progress l m" if "progress x m" "lexer_left x < lexer_left l" for x m
      using progress_trans [OF that(1)] that(2) by simp
    have ret: "progress l (ret_next t x)" "progress l (RETURN_TOKEN t x)"
      if "lexer_left x < lexer_left l" for t x
      using that n keeps_ret_next [of x n t] keeps_RETURN_TOKEN [of x n t]
      by (auto intro!: progress_keeps [of n])
    consider (ws) "lx_currdata l \<in> {CHR 0x09, CHR 0x0D, CHR 0x20}" | (nl) "lx_currdata l = CHR 0x0A"
      | (hash) "lx_currdata l = CHR ''#''" | (slash) "lx_currdata l = CHR ''/''"
      | (tok) "lx_currdata l \<notin> {CHR 0x09, CHR 0x0D, CHR 0x20, CHR 0x0A, CHR ''#'', CHR ''/''}"
      by auto
    then show ?thesis
    proof cases
      case ws
      have "progress l (bindE (NEXT l) Lex_loop)"
        by (rule progress_bind [OF nx]) (auto intro: rec [OF 1(1) [OF eob ws]])
      with ws eob show ?thesis unfolding Lex_loop.simps [of l] by simp
    next
      case nl
      let ?l = "l\<lparr>lx_currentline := lx_currentline l + 1, lx_prevtoken := lx_curtoken l,
          lx_curtoken := tok_char (CHR 0x0A)\<rparr>"
      have ws: "lx_currdata l \<notin> {CHR 0x09, CHR 0x0D, CHR 0x20}" using nl by simp
      have "progress l (bindE (NEXT ?l) (\<lambda>l. Lex_loop (l\<lparr>lx_currentcolumn := 1\<rparr>)))"
        by (rule progress_bind)
          (use nul NEXT_Inr(4) [of ?l] in \<open>auto intro: rec [OF 1(2) [OF eob ws nl]]\<close>)
      with nl eob show ?thesis unfolding Lex_loop.simps [of l] by simp
    next
      case hash
      have ws: "lx_currdata l \<notin> {CHR 0x09, CHR 0x0D, CHR 0x20}" "lx_currdata l \<noteq> CHR 0x0A"
        using hash by simp_all
      have "progress l (bindE (LexLineComment l) Lex_loop)"
        by (rule progress_bind [OF left_LexLineComment_less [OF _ nul]])
          (auto intro: rec [OF 1(3) [OF eob ws hash]])
      with hash eob show ?thesis unfolding Lex_loop.simps [of l] by simp
    next
      case slash
      have ws: "lx_currdata l \<notin> {CHR 0x09, CHR 0x0D, CHR 0x20}" "lx_currdata l \<noteq> CHR 0x0A"
          "lx_currdata l \<noteq> CHR ''#''"
        using slash by simp_all
      have blk: "progress l (bindE (NEXT x) (\<lambda>l. bindE (LexBlockComment l) Lex_loop))"
        if x: "NEXT l = Inr x" "lx_currdata x = CHR ''*''" for x
        by (rule progress_bind, use NEXT_Inr(3) nx [OF x(1)] in fastforce, rule progress_bind)
          (use left_LexBlockComment in \<open>fastforce intro: rec [OF 1(4) [OF eob ws slash x]]\<close>)+
      have line: "progress l (bindE (LexLineComment x) Lex_loop)"
        if x: "NEXT l = Inr x" "lx_currdata x = CHR ''/''" for x
        by (rule progress_bind)
          (use left_LexLineComment nx [OF x(1)] in \<open>fastforce intro: rec [OF 1(5) [OF eob ws slash x(1) _ x(2)]] simp: x\<close>)+
      show ?thesis
        unfolding Lex_loop.simps [of l]
        using slash eob by (auto intro!: progress_bind [OF nx] blk line ret)
    next
      case tok
      have "progress l (lex_token l)"
        by (rule progress_keeps [OF keeps_lex_token [of l n]]) (use n nul in auto)
      with tok eob show ?thesis unfolding Lex_loop.simps [of l] by simp
    qed
  qed
qed

section \<open>Block comments\<close>

text \<open>What a block comment is: the text up to the first \<open>*/\<close>.\<close>

fun skip_comment :: "string \<Rightarrow> string option" where
  "skip_comment [] = None"
| "skip_comment [c] = None"
| "skip_comment (c # d # s) =
     (if c = CHR ''*'' \<and> d = CHR ''/'' then Some s else skip_comment (d # s))"

lemma LexBlockComment_eq:
  "looking_at l s \<Longrightarrow>
     (case skip_comment s of
        None \<Rightarrow> LexBlockComment l = Inl ''missing \"*/\" in comment''
      | Some rest \<Rightarrow> \<exists>l'. LexBlockComment l = Inr l' \<and> looking_at l' rest)"
proof (induction s arbitrary: l rule: skip_comment.induct)
  case 1
  then show ?case
    by (simp add: LexBlockComment.simps [of l] looking_at_def IS_EOB_def SQUIRREL_EOB_def)
next
  case (2 c)
  have end': "LexBlockComment x = Inl ''missing \"*/\" in comment''" if "looking_at x []" for x
    using that by (simp add: LexBlockComment.simps [of x] looking_at_def IS_EOB_def SQUIRREL_EOB_def)
  let ?l = "l\<lparr>lx_currentline := lx_currentline l + 1\<rparr>"
  note n = NEXT_looking_at [OF 2] NEXT_looking_at [of ?l c "[]"]
  have "lx_currdata (adv l) = CHR 0x00" using n(2) by (simp add: looking_at_def)
  then show ?case
    using n 2 end' [OF n(2)] end' [OF n(4)] looking_at_cur [OF 2]
    by (simp add: LexBlockComment.simps [of l] IS_EOB_def SQUIRREL_EOB_def)
next
  case (3 c d s)
  let ?l = "l\<lparr>lx_currentline := lx_currentline l + 1\<rparr>"
  have nl: "looking_at ?l (c # d # s)" using 3 by simp
  note n = NEXT_looking_at [OF 3(2)] NEXT_looking_at [OF nl]
  note n2 = NEXT_looking_at [OF n(2)]
  have cur: "lx_currdata l = c" "c \<noteq> CHR 0x00" "lx_currdata (adv l) = d"
    using looking_at_cur [OF 3(2)] looking_at_cur [OF n(2)] by auto
  show ?case
  proof (cases "c = CHR ''*'' \<and> d = CHR ''/''")
    case True
    then show ?thesis using n n2 cur by (simp add: LexBlockComment.simps [of l])
  next
    case False
    then have "LexBlockComment l = LexBlockComment (if c = CHR 0x0A then adv ?l else adv l)"
      using n cur by (auto simp: LexBlockComment.simps [of l] IS_EOB_def SQUIRREL_EOB_def)
    moreover have "looking_at (if c = CHR 0x0A then adv ?l else adv l) (d # s)" using n by simp
    moreover have "skip_comment (c # d # s) = skip_comment (d # s)" using False by auto
    ultimately show ?thesis by (simp only: 3(1) [OF False])
  qed
qed

section \<open>Keywords\<close>

text \<open>The table that \<open>Init\<close> builds maps the keywords, and nothing else, to their tokens.\<close>

definition keyword_table_ok :: "sqtable \<Rightarrow> bool" where
  "keyword_table_ok kw \<longleftrightarrow> table_inv kw \<and>
     table_map kw = map_of (map (\<lambda>(k, v). (VString k, VInteger v)) keyword_list)"

lemma keywords_distinct: "distinct (map fst keyword_list)"
  by code_simp

lemma map_of_VString:
  "map_of (map (\<lambda>(k, v). (VString k, VInteger v)) kvs) (VString s) = map_option VInteger (map_of kvs s)"
  by (induction kvs) auto

lemma map_of_VString_dom:
  "VString s \<in> dom (map_of (map (\<lambda>(k, v). (VString k, VInteger v)) kvs)) \<longleftrightarrow> s \<in> fst ` set kvs"
  by (simp add: dom_def map_of_VString) (metis domI domIff dom_map_of_conv_image_fst not_None_eq)

lemma keywords_NUL: "s \<in> fst ` set keyword_list \<Longrightarrow> CHR 0x00 \<notin> set s"
  by (auto simp: keyword_list_def)

lemma lexer_Init_keywords:
  "\<exists>kw. keyword_table_ok kw \<and>
     lexer_Init l0 rg = Some (lexer_Next
       (l0\<lparr>lx_keywords := kw, lx_input := rg, lx_lasttokenline := 1, lx_currentline := 1,
           lx_currentcolumn := 0, lx_prevtoken := - 1, lx_reached_eof := False\<rparr>))"
proof -
  let ?kvs = "map (\<lambda>(k, v). (VString k, VInteger v)) keyword_list"
  have "distinct (map fst ?kvs)"
    using keywords_distinct by (simp add: distinct_map inj_on_def case_prod_unfold)
  with tbl.newslot_all_create [of ?kvs 37] obtain kw where
    "newslot_all table_NewSlot (table_Create 37) ?kvs = Some kw" "table_inv kw" "table_map kw = map_of ?kvs"
    by force
  then show ?thesis by (auto simp: lexer_Init_def keyword_table_ok_def)
qed

lemma GetIDType_eq:
  assumes "keyword_table_ok (lx_keywords l)" "CHR 0x00 \<notin> set s"
  shows "GetIDType l s = Some (case map_of keyword_list s of Some t \<Rightarrow> t | None \<Rightarrow> TK_IDENTIFIER)"
proof -
  have "\<forall>s'. VString s' \<in> dom (table_map (lx_keywords l)) \<longrightarrow> CHR 0x00 \<notin> set s'"
    using assms(1) keywords_NUL unfolding keyword_table_ok_def by (metis map_of_VString_dom)
  from GetStr_ok [OF _ assms(2) this] assms(1) show ?thesis
    by (auto simp: GetIDType_def keyword_table_ok_def map_of_VString realval_def split: option.split)
qed

lemma id_loop_eq:
  assumes "looking_at l (c # cs @ rest)" "\<forall>x \<in> set cs. isalnum x \<or> x = CHR ''_''"
    and "rest = [] \<or> \<not> (isalnum (hd rest) \<or> hd rest = CHR ''_'')"
  shows "\<exists>l'. id_loop l = Inr l' \<and> looking_at l' rest \<and> lx_longstr l' = lx_longstr l @ c # cs \<and>
     lx_keywords l' = lx_keywords l"
  using assms
proof (induction cs arbitrary: l c)
  case Nil
  then have la: "looking_at l (c # rest)" by simp
  note n = NEXT_looking_at [of "APPEND_CHAR c l" c rest]
  have "\<not> (isalnum (lx_currdata (adv (APPEND_CHAR c l))) \<or> lx_currdata (adv (APPEND_CHAR c l)) = CHR ''_'')"
    using n(2) la Nil.prems(3) by (cases rest) (auto simp: looking_at_def)
  then show ?case
    using n la looking_at_cur [OF la] by (simp add: id_loop.simps [of l]) (simp add: APPEND_CHAR_def)
next
  case (Cons d cs)
  let ?l = "adv (APPEND_CHAR c l)"
  note la = Cons.prems(1)
  note n = NEXT_looking_at [of "APPEND_CHAR c l" c "d # cs @ rest"]
  have n2: "looking_at ?l (d # cs @ rest)" using n(2) la by simp
  from Cons.IH [OF n2] Cons.prems obtain l' where
    l': "id_loop ?l = Inr l'" "looking_at l' rest" "lx_longstr l' = lx_longstr ?l @ d # cs"
      "lx_keywords l' = lx_keywords ?l" by auto
  have "id_loop l = id_loop ?l"
    using n(1) la looking_at_cur [OF n2] looking_at_cur [OF la] Cons.prems(2)
    by (simp add: id_loop.simps [of l])
  with l' show ?case by (simp add: APPEND_CHAR_def)
qed

section \<open>Decimal literals\<close>

lemma char_of_digit: "d < 10 \<Longrightarrow> of_char (char_of (48 + d) :: char) = (48 + d :: nat)"
  by simp

lemma dec_digits_isdigit: "c \<in> set (dec_digits n) \<Longrightarrow> isdigit c"
proof (induction n rule: dec_digits.induct)
  case (1 n)
  then show ?case
    unfolding dec_digits.simps [of n] by (auto simp: isdigit_def char_of_digit split: if_splits)
qed

lemma dec_digits_first:
  "\<exists>c cs. dec_digits n = c # cs \<and> (c = CHR ''0'' \<longrightarrow> cs = [] \<and> n = 0)"
proof (induction n rule: dec_digits.induct)
  case (1 n)
  show ?case
  proof (cases "n < 10")
    case True
    have "char_of (48 + n) = CHR ''0'' \<longleftrightarrow> (of_char (char_of (48 + n) :: char) :: nat) = of_char (CHR ''0'')"
      by (simp only: of_char_eq_iff)
    with True show ?thesis by (auto simp: dec_digits.simps [of n])
  next
    case False
    with 1 [OF False] show ?thesis by (auto simp: dec_digits.simps [of n])
  qed
qed

definition dval :: "u64 \<Rightarrow> string \<Rightarrow> u64" where
  "dval a s = foldl (\<lambda>a c. a * 10 + (schar_int c - 48)) a s"

lemma schar_int_digit: "isdigit c \<Longrightarrow> schar_int c = of_nat (of_char c)"
proof -
  assume "isdigit c"
  then have lt: "(of_char c :: nat) < 128" by (simp add: isdigit_def)
  have "(of_char c :: byte) = of_nat (of_char c)" by (simp only: of_nat_of_char)
  then have "uint (of_char c :: byte) = int (of_char c)"
    using lt by (simp only: uint_nat unat_of_nat) simp
  moreover have "sint (of_char c :: byte) = uint (of_char c :: byte)"
    unfolding sint_uint using calculation lt by (intro signed_take_bit_int_eq_self) simp_all
  ultimately have "schar_int c = word_of_int (int (of_char c))"
    by (simp add: schar_int_def scast_eq)
  then show ?thesis by simp
qed

lemma dval_dec_digits: "dval a (dec_digits n) = a * 10 ^ length (dec_digits n) + of_nat n"
proof (induction n arbitrary: a rule: dec_digits.induct)
  case (1 n)
  have last: "schar_int (char_of (48 + d)) - 48 = (of_nat d :: u64)" if "d < 10" for d :: nat
  proof -
    have "schar_int (char_of (48 + d)) = of_nat (of_char (char_of (48 + d) :: char))"
      using that char_of_digit [OF that] by (intro schar_int_digit) (simp only: isdigit_def, simp)
    also have "\<dots> = of_nat (48 + d)" using that by (simp only: char_of_digit)
    finally show ?thesis by simp
  qed
  show ?case
  proof (cases "n < 10")
    case True
    then show ?thesis using last [OF True] by (simp add: dec_digits.simps [of n] dval_def)
  next
    case False
    have "dval a (dec_digits n) = dval a (dec_digits (n div 10)) * 10 + of_nat (n mod 10)"
      using last [of "n mod 10"] False by (simp add: dec_digits.simps [of n] dval_def)
    also have "\<dots> = a * 10 ^ length (dec_digits n) + (of_nat (n div 10) * 10 + of_nat (n mod 10))"
      using 1 [OF False, of a] False by (simp add: dec_digits.simps [of n] algebra_simps)
    also have "of_nat (n div 10) * 10 + of_nat (n mod 10) = (of_nat n :: u64)"
      by (metis of_nat_add of_nat_mult of_nat_numeral div_mult_mod_eq)
    finally show ?thesis .
  qed
qed

lemma LexInteger_eq:
  "CHR 0x00 \<notin> set s \<Longrightarrow> LexInteger (s @ [CHR 0x00]) a = Some (dval a s)"
  by (induction s arbitrary: a) (auto simp: dval_def)

definition number_end :: "string \<Rightarrow> bool" where
  "number_end rest \<longleftrightarrow> rest = [] \<or>
     \<not> (hd rest = CHR ''.'' \<or> isdigit (hd rest) \<or> isexponent (hd rest) \<or> hd rest \<in> set ''xX'')"

lemma number_loop_digits:
  assumes "looking_at l (ds @ rest)" "\<forall>c \<in> set ds. isdigit c" "number_end rest"
  shows "\<exists>l'. number_loop TINT l = Inr (TINT, l') \<and> looking_at l' rest \<and>
     lx_longstr l' = lx_longstr l @ ds \<and> lx_keywords l' = lx_keywords l"
  using assms
proof (induction ds arbitrary: l)
  case Nil
  then have "\<not> (lx_currdata l = CHR ''.'' \<or> isdigit (lx_currdata l) \<or> isexponent (lx_currdata l))"
    by (cases rest) (auto simp: looking_at_def number_end_def)
  then show ?case using Nil by (simp add: number_loop.simps [of _ l])
next
  case (Cons d ds)
  let ?l = "adv (APPEND_CHAR d l)"
  have la: "looking_at (APPEND_CHAR d l) (d # ds @ rest)" using Cons.prems(1) by simp
  note n = NEXT_looking_at [OF la]
  have d: "isdigit d" "\<not> isexponent d" "d \<noteq> CHR ''.''"
    using Cons.prems(2) by (auto simp: isdigit_def isexponent_def)
  have "number_loop TINT l = number_loop TINT ?l"
    using n(1) d looking_at_cur [OF la] by (simp add: number_loop.simps [of _ l])
  with Cons.IH [OF n(2)] Cons.prems show ?case by (auto simp: APPEND_CHAR_def)
qed

lemma ReadNumber_decimal:
  assumes "looking_at l (dec_digits n @ rest)" "number_end rest"
  shows "\<exists>l'. ReadNumber l = Inr (TK_INTEGER, l') \<and> looking_at l' rest \<and> lx_nvalue l' = of_nat n"
proof -
  obtain c cs where dd: "dec_digits n = c # cs" and z: "c = CHR ''0'' \<longrightarrow> cs = [] \<and> n = 0"
    using dec_digits_first by blast
  let ?l = "INIT_TEMP_STRING l"
  have la: "looking_at ?l (c # cs @ rest)" using assms(1) dd by (simp add: INIT_TEMP_STRING_def)
  note n = NEXT_looking_at [OF la]
  have cur: "lx_currdata l = c" using looking_at_cur [OF la] by simp
  have dig: "\<forall>c \<in> set (c # cs). isdigit c" using dec_digits_isdigit dd by metis
  have dec: "\<not> (c = CHR ''0'' \<and> (toupper (lx_currdata (adv ?l)) = of_char (CHR ''X'') \<or>
       scisodigit (lx_currdata (adv ?l))))"
  proof (cases rest)
    case Nil
    then show ?thesis using n(2) z by (auto simp: looking_at_def toupper_def)
  next
    case (Cons r rs)
    have r: "\<not> isdigit r" "r \<noteq> CHR ''x''" "r \<noteq> CHR ''X''"
      using assms(2) Cons by (auto simp: number_end_def)
    then have "(of_char r :: nat) \<noteq> of_char (CHR ''x'')" "(of_char r :: nat) \<noteq> of_char (CHR ''X'')"
      by (simp_all only: of_char_eq_iff not_False_eq_True)
    then have "toupper r \<noteq> of_char (CHR ''X'')" by (simp add: toupper_def Let_def) presburger
    moreover have "\<not> scisodigit r" using r(1) unfolding isdigit_def scisodigit_def by linarith
    moreover have "lx_currdata (adv ?l) = r" if "cs = []" using n(2) that Cons looking_at_cur by simp
    ultimately show ?thesis using z by auto
  qed
  obtain l' where l': "number_loop TINT (APPEND_CHAR c (adv ?l)) = Inr (TINT, l')" "looking_at l' rest"
      "lx_longstr l' = lx_longstr (APPEND_CHAR c (adv ?l)) @ cs"
    using number_loop_digits [of "APPEND_CHAR c (adv ?l)" cs rest] n(2) dig assms(2) by auto
  have "CHR 0x00 \<notin> set (c # cs)" using la by (auto simp: looking_at_def)
  from LexInteger_eq [OF this, of 0] have lx: "LexInteger ((c # cs) @ [CHR 0x00]) 0 = Some (of_nat n)"
    using dval_dec_digits [of 0 n] dd by simp
  have "lx_longstr (TERMINATE_BUFFER l') = (c # cs) @ [CHR 0x00]"
    using l'(3) by (simp add: TERMINATE_BUFFER_def INIT_TEMP_STRING_def)
  then have "ReadNumber_value TINT l' = Inr (TK_INTEGER, (TERMINATE_BUFFER l')\<lparr>lx_nvalue := of_nat n\<rparr>)"
    using lx by (simp add: ReadNumber_value_def store_nvalue_def Let_def)
  then show ?thesis
    using n(1) dec l'(1,2) cur by (auto simp: ReadNumber_def Let_def TERMINATE_BUFFER_def)
qed

section \<open>String literals\<close>

text \<open>
  A text that denotes a given string: characters other than the printable ones, the
  quotation mark and the backslash are written as \<open>\xHH\<close>.
\<close>

definition hex_digit :: "nat \<Rightarrow> char" where
  "hex_digit d = char_of (if d < 10 then 48 + d else 87 + d)"

definition quote_char :: "char \<Rightarrow> string" where
  "quote_char c = (let n = of_char c :: nat
     in if 32 \<le> n \<and> n \<le> 126 \<and> c \<noteq> CHR 0x22 \<and> c \<noteq> CHR 0x5C then [c]
        else [CHR 0x5C, CHR ''x'', hex_digit (n div 16), hex_digit (n mod 16)])"

definition quote_string :: "string \<Rightarrow> string" where
  "quote_string s = concat (map quote_char s)"

lemma hex_digit_facts:
  assumes "d < 16"
  shows "isxdigit (hex_digit d)" "xdigit_value (hex_digit d) = of_nat d"
proof -
  have o: "of_char (hex_digit d) = (if d < 10 then 48 + d else 87 + d)"
    using assms by (simp add: hex_digit_def)
  show "isxdigit (hex_digit d)"
    using assms unfolding isxdigit_def Let_def o by simp
  have "(of_char (hex_digit d) :: u64) = of_nat (of_char (hex_digit d))" by (simp only: of_nat_of_char)
  then show "xdigit_value (hex_digit d) = of_nat d"
    using assms unfolding xdigit_value_def isdigit_def toupper_def Let_def o by simp
qed

lemma byte_halves: "of_char c div 16 < (16 :: nat)" "of_char c mod 16 < (16 :: nat)"
  by (rule less_mult_imp_div_less, simp_all)

lemma strtoul16_byte:
  "char_of (unat (strtoul16 [hex_digit (of_char c div 16), hex_digit (of_char c mod 16)])) = c"
proof -
  let ?n = "of_char c :: nat"
  note d = byte_halves [of c]
  have "strtoul16 [hex_digit (?n div 16), hex_digit (?n mod 16)]
      = of_nat (?n div 16) * 16 + (of_nat (?n mod 16) :: u64)"
    using hex_digit_facts(2) [OF d(1)] hex_digit_facts(2) [OF d(2)] by (simp add: strtoul16_def)
  also have "\<dots> = of_nat ?n" by (metis of_nat_add of_nat_mult of_nat_numeral div_mult_mod_eq)
  also have "\<dots> = tok_char c" unfolding tok_char_def of_nat_of_char by (rule refl)
  finally show ?thesis by (simp add: tok_char_bounds)
qed

lemma ReadString_escape_hex:
  assumes "looking_at l (CHR ''x'' # a # b # rest)" "isxdigit a" "isxdigit b"
  shows "\<exists>l'. ReadString_escape l = Inr l' \<and> looking_at l' rest \<and>
     lx_longstr l' = lx_longstr l @ [char_of (unat (strtoul16 [a, b]))] \<and>
     lx_currentline l' = lx_currentline l"
proof -
  note n1 = NEXT_looking_at [OF assms(1)]
  note n2 = NEXT_looking_at [OF n1(2)]
  note n3 = NEXT_looking_at [OF n2(2)]
  have cur: "lx_currdata l = CHR ''x''" "lx_currdata (adv l) = a" "lx_currdata (adv (adv l)) = b"
    using looking_at_cur assms(1) n1(2) n2(2) by blast+
  have "ProcessStringHexEscape 2 l = Inr ([a, b], adv (adv (adv l)))"
    using n1 n2 n3 cur assms(2,3) by (simp add: ProcessStringHexEscape_def numeral_2_eq_2)
  then have "ReadString_escape l = Inr (APPEND_CHAR (char_of (unat (strtoul16 [a, b]))) (adv (adv (adv l))))"
    using cur by (simp add: ReadString_escape_def)
  then show ?thesis using n3(2) by (simp add: APPEND_CHAR_def)
qed

lemma ReadString_loop_quoted:
  assumes "looking_at l (quote_string s @ CHR 0x22 # rest)"
  shows "\<exists>l'. ReadString_loop (CHR 0x22) False l = Inr l' \<and> looking_at l' rest \<and>
     lx_longstr l' = lx_longstr l @ s \<and> lx_currentline l' = lx_currentline l"
  using assms
proof (induction s arbitrary: l)
  case Nil
  then have la: "looking_at l (CHR 0x22 # rest)" by (simp add: quote_string_def)
  show ?case
    using NEXT_looking_at [OF la] looking_at_cur [OF la] by (simp add: ReadString_loop.simps [of _ _ l])
next
  case (Cons c s)
  let ?tl = "quote_string s @ CHR 0x22 # rest"
  show ?case
  proof (cases "quote_char c = [c]")
    case True
    have c: "c \<noteq> CHR 0x22" "c \<noteq> CHR 0x5C" "c \<noteq> CHR 0x00" "c \<noteq> CHR 0x0A"
      using True by (auto simp: quote_char_def Let_def split: if_splits)
    have la: "looking_at (APPEND_CHAR c l) (c # ?tl)"
      using Cons.prems True by (simp add: quote_string_def)
    note n = NEXT_looking_at [OF la]
    have "ReadString_loop (CHR 0x22) False l = ReadString_loop (CHR 0x22) False (adv (APPEND_CHAR c l))"
      using n(1) c looking_at_cur [OF la] by (simp add: ReadString_loop.simps [of _ _ l] SQUIRREL_EOB_def)
    with Cons.IH [OF n(2)] show ?thesis by (auto simp: APPEND_CHAR_def)
  next
    case False
    let ?n = "of_char c :: nat"
    let ?a = "hex_digit (?n div 16)" and ?b = "hex_digit (?n mod 16)"
    have q: "quote_char c = [CHR 0x5C, CHR ''x'', ?a, ?b]"
      using False by (auto simp: quote_char_def Let_def split: if_splits)
    have la: "looking_at l (CHR 0x5C # CHR ''x'' # ?a # ?b # ?tl)"
      using Cons.prems q by (simp add: quote_string_def)
    note n = NEXT_looking_at [OF la]
    have "isxdigit ?a" "isxdigit ?b" by (rule hex_digit_facts(1), rule byte_halves)+
    from ReadString_escape_hex [OF n(2) this] obtain l' where
      l': "ReadString_escape (adv l) = Inr l'" "looking_at l' ?tl" "lx_longstr l' = lx_longstr l @ [c]"
        "lx_currentline l' = lx_currentline l" by (auto simp: strtoul16_byte)
    have "ReadString_loop (CHR 0x22) False l = ReadString_loop (CHR 0x22) False l'"
      using n(1) l'(1) looking_at_cur [OF la] by (simp add: ReadString_loop.simps [of _ _ l] SQUIRREL_EOB_def)
    with Cons.IH [OF l'(2)] l' show ?thesis by auto
  qed
qed

text \<open>In a verbatim string only the quotation mark is doubled.\<close>

definition verbatim_char :: "char \<Rightarrow> string" where
  "verbatim_char c = (if c = CHR 0x22 then [CHR 0x22, CHR 0x22] else [c])"

definition verbatim_string :: "string \<Rightarrow> string" where
  "verbatim_string s = concat (map verbatim_char s)"

lemma ReadString_loop_verbatim:
  assumes "looking_at l (verbatim_string s @ CHR 0x22 # rest)" "rest = [] \<or> hd rest \<noteq> CHR 0x22"
  shows "\<exists>l'. ReadString_loop (CHR 0x22) True l = Inr l' \<and> looking_at l' rest \<and>
     lx_longstr l' = lx_longstr l @ s \<and>
     lx_currentline l' = lx_currentline l + of_nat (count_list s (CHR 0x0A))"
  using assms(1)
proof (induction s arbitrary: l)
  case Nil
  then have la: "looking_at l (CHR 0x22 # rest)" by (simp add: verbatim_string_def)
  note n = NEXT_looking_at [OF la]
  have "lx_currdata (adv l) \<noteq> CHR 0x22" using n(2) assms(2) by (cases rest) (auto simp: looking_at_def)
  then show ?case
    using n looking_at_cur [OF la] by (simp add: ReadString_loop.simps [of _ _ l])
next
  case (Cons c s)
  let ?tl = "verbatim_string s @ CHR 0x22 # rest"
  let ?l = "adv (APPEND_CHAR c l)"
  show ?case
  proof (cases "c = CHR 0x22")
    case True
    have la: "looking_at l (CHR 0x22 # CHR 0x22 # ?tl)"
      using Cons.prems True by (simp add: verbatim_string_def verbatim_char_def)
    note n = NEXT_looking_at [OF la]
    have la2: "looking_at (APPEND_CHAR c (adv l)) (CHR 0x22 # ?tl)" using n(2) by simp
    note n2 = NEXT_looking_at [OF la2]
    have "ReadString_loop (CHR 0x22) True l =
        ReadString_loop (CHR 0x22) True (adv (APPEND_CHAR c (adv l)))"
      using n(1) n2(1) looking_at_cur [OF la] looking_at_cur [OF n(2)] True
      by (simp add: ReadString_loop.simps [of _ _ l])
    with Cons.IH [OF n2(2)] True show ?thesis by (auto simp: APPEND_CHAR_def)
  next
    case False
    have la: "looking_at (APPEND_CHAR c l) (c # ?tl)"
      using Cons.prems False by (simp add: verbatim_string_def verbatim_char_def)
    note n = NEXT_looking_at [OF la]
    define l2 where "l2 = (if c = CHR 0x0A then ?l\<lparr>lx_currentline := lx_currentline ?l + 1\<rparr> else ?l)"
    have "ReadString_loop (CHR 0x22) True l = ReadString_loop (CHR 0x22) True l2"
      using n(1) looking_at_cur [OF la] False
      by (auto simp: ReadString_loop.simps [of _ _ l] SQUIRREL_EOB_def l2_def)
    moreover have "looking_at l2 ?tl" "lx_longstr l2 = lx_longstr l @ [c]"
      "lx_currentline l2 = lx_currentline l + of_nat (count_list [c] (CHR 0x0A))"
      using n(2) by (auto simp: l2_def)
    ultimately show ?thesis using Cons.IH [of l2] by auto
  qed
qed

section \<open>UTF-8\<close>

text \<open>
  The decoding of one code point, as the encoding is defined: a leading byte tells the number
  of bytes, and each of them carries some bits. Only the shortest form of a code point is
  valid, and there is none for surrogates and for numbers from \<open>0x110000\<close> on.\<close>

definition cont_byte :: "char \<Rightarrow> bool" where
  "cont_byte c \<longleftrightarrow> (of_char c :: u64) AND 0xC0 = 0x80"

definition low6 :: "char \<Rightarrow> u64" where
  "low6 c = of_char c AND 0x3F"

fun utf8_payload :: "string \<Rightarrow> (u64 \<times> string) option" where
  "utf8_payload [] = None"
| "utf8_payload (a # s) =
     (let b = of_char a :: u64
      in if b < 0x80 then Some (b, s)
         else if b AND 0xE0 = 0xC0 then
           (case s of c1 # s \<Rightarrow> if cont_byte c1 then Some (push_bit 6 (b AND 0x1F) OR low6 c1, s) else None
            | _ \<Rightarrow> None)
         else if b AND 0xF0 = 0xE0 then
           (case s of c1 # c2 # s \<Rightarrow>
               if cont_byte c1 \<and> cont_byte c2
               then Some (push_bit 12 (b AND 0x0F) OR push_bit 6 (low6 c1) OR low6 c2, s) else None
            | _ \<Rightarrow> None)
         else if b AND 0xF8 = 0xF0 then
           (case s of c1 # c2 # c3 # s \<Rightarrow>
               if cont_byte c1 \<and> cont_byte c2 \<and> cont_byte c3
               then Some (push_bit 18 (b AND 0x07) OR push_bit 12 (low6 c1) OR push_bit 6 (low6 c2)
                          OR low6 c3, s) else None
            | _ \<Rightarrow> None)
         else None)"

definition utf8_length :: "u64 \<Rightarrow> nat" where
  "utf8_length v = (if v < 0x80 then 1 else if v < 0x800 then 2 else if v < 0x10000 then 3
     else if v < 0x110000 then 4 else 0)"

definition surrogate :: "u64 \<Rightarrow> bool" where
  "surrogate v \<longleftrightarrow> 0xD800 \<le> v \<and> v < 0xE000"

definition utf8_decode :: "string \<Rightarrow> (u64 \<times> string) option" where
  "utf8_decode bs =
     (case utf8_payload bs of
        None \<Rightarrow> None
      | Some (v, s) \<Rightarrow>
          if length bs = utf8_length v + length s \<and> \<not> surrogate v then Some (v, s) else None)"

lemma of_char_utf8_char: "w < 256 \<Longrightarrow> (of_char (utf8_char w) :: u64) = w"
proof -
  assume w: "w < 256"
  then have "unat w < 256" by (simp add: word_less_nat_alt)
  then have "of_char (utf8_char w) = unat w" unfolding utf8_char_def by simp
  then have "of_nat (of_char (utf8_char w)) = w" by simp
  then show ?thesis by (simp only: of_nat_of_char)
qed

lemma drop_bit_small: "(ch :: u64) < 2 ^ n \<Longrightarrow> n < 64 \<Longrightarrow> drop_bit n ch = 0"
proof -
  assume ch: "ch < 2 ^ n" and n: "n < 64"
  have "unat (of_nat (2 ^ n) :: u64) = 2 ^ n"
    unfolding unat_of_nat using n by (intro mod_less power_strict_increasing) simp_all
  with ch have "unat ch < 2 ^ n" by (simp add: word_less_nat_alt)
  then have "drop_bit n (unat ch) = 0" by (simp add: drop_bit_eq_div)
  then have "unat (drop_bit n ch) = 0" by (simp only: unat_drop_bit_eq)
  then show ?thesis by (simp add: unat_eq_0)
qed

lemma drop_bit_and_mask:
  assumes "(ch :: u64) < 2 ^ (m + n)" "m + n < 64"
  shows "drop_bit n ch = drop_bit n ch AND mask m"
proof -
  have "drop_bit m (drop_bit n ch) = 0"
    using drop_bit_small [OF assms] by (simp add: drop_bit_drop_bit add.commute)
  then have "take_bit m (drop_bit n ch) = drop_bit n ch"
    by (simp add: take_bit_eq_self_iff_drop_bit_eq_0)
  then show ?thesis by (simp add: take_bit_eq_mask)
qed

lemma join_bits:
  "push_bit n (drop_bit n ch AND mask m) OR (ch AND mask n) = ((ch :: u64) AND mask (n + m))"
  "push_bit n (drop_bit n ch) OR (ch AND mask n) = ch"
  by (rule bit_word_eqI; auto simp: bit_simps)+

lemma masks:
  "mask 3 = (0x07 :: u64)" "mask 4 = (0x0F :: u64)" "mask 5 = (0x1F :: u64)" "mask 6 = (0x3F :: u64)"
  by (simp_all add: mask_eq_exp_minus_1)

text \<open>A continuation byte, and a leading byte with \<open>m\<close> payload bits.\<close>

lemma cont_byte_facts:
  "cont_byte (utf8_char (w AND 0x3F OR 0x80))" "low6 (utf8_char (w AND 0x3F OR 0x80)) = w AND 0x3F"
proof -
  have "w AND 0x3F OR 0x80 = (w AND 0x3F OR 0x80) AND 0xFF"
    by (simp add: bit.conj_disj_distrib2 and.assoc)
  also have "\<dots> \<le> 0xFF" by (rule word_and_le1)
  finally have "w AND 0x3F OR 0x80 < 256" by (simp add: word_le_nat_alt word_less_nat_alt)
  note o = of_char_utf8_char [OF this]
  show "cont_byte (utf8_char (w AND 0x3F OR 0x80))"
    unfolding cont_byte_def o by (simp add: bit.conj_disj_distrib2 and.assoc)
  show "low6 (utf8_char (w AND 0x3F OR 0x80)) = w AND 0x3F"
    unfolding low6_def o by (simp add: bit.conj_disj_distrib2 and.assoc)
qed

lemma lead_byte:
  assumes "w < 256" "w AND 0x80 = 0x80"
  shows "(of_char (utf8_char w) :: u64) = w" "\<not> w < 0x80"
proof -
  show "(of_char (utf8_char w) :: u64) = w" by (rule of_char_utf8_char [OF assms(1)])
  have "0x80 \<le> w" using word_and_le2 [of w "0x80"] assms(2) by (simp add: and.commute)
  then show "\<not> w < 0x80" by simp
qed

lemma lead_byte_small:
  fixes x :: u64
  assumes "x = x AND m" "m AND 0xFF = m" "k AND 0xFF = k"
  shows "x OR k < 256"
proof -
  have "x AND 0xFF = x" using assms(1,2) by (metis and.assoc)
  then have "x OR k = (x OR k) AND 0xFF" using assms(3) by (simp add: bit.conj_disj_distrib2)
  also have "\<dots> \<le> 0xFF" by (rule word_and_le1)
  finally show ?thesis by (simp add: word_le_nat_alt word_less_nat_alt)
qed

lemma lead_and:
  fixes x :: u64
  assumes "x = x AND m" 
  shows "(x OR k) AND j = (x AND (m AND j)) OR (k AND j)"
  using assms by (metis and.assoc bit.conj_disj_distrib2)

lemma utf8_two:
  assumes "0x80 \<le> ch" "ch < 0x800"
  shows "utf8_payload (utf8_char (drop_bit 6 ch OR 0xC0) # utf8_char (ch AND 0x3F OR 0x80) # s) = Some (ch, s)"
proof -
  let ?x = "drop_bit 6 ch"
  have x: "?x = ?x AND 0x1F" using drop_bit_and_mask [of ch 5 6] assms(2) by (simp add: masks)
  note la = lead_and [OF x]
  have "?x OR 0xC0 < 256" by (rule lead_byte_small [OF x]) simp_all
  moreover have "(?x OR 0xC0) AND 0x80 = 0x80" "(?x OR 0xC0) AND 0xE0 = 0xC0" "(?x OR 0xC0) AND 0x1F = ?x"
    using x by (simp_all add: la)
  ultimately show ?thesis
    using lead_byte [of "?x OR 0xC0"] cont_byte_facts [of ch] join_bits(2) [of 6 ch] by (simp add: masks)
qed

lemma utf8_three:
  assumes "0x800 \<le> ch" "ch < 0x10000"
  shows "utf8_payload (utf8_char (drop_bit 12 ch OR 0xE0) # utf8_char (drop_bit 6 ch AND 0x3F OR 0x80)
     # utf8_char (ch AND 0x3F OR 0x80) # s) = Some (ch, s)"
proof -
  let ?x = "drop_bit 12 ch"
  have x: "?x = ?x AND 0x0F" using drop_bit_and_mask [of ch 4 12] assms(2) by (simp add: masks)
  note la = lead_and [OF x]
  have "?x OR 0xE0 < 256" by (rule lead_byte_small [OF x]) simp_all
  moreover have "(?x OR 0xE0) AND 0x80 = 0x80" "(?x OR 0xE0) AND 0xE0 = 0xE0"
      "(?x OR 0xE0) AND 0xF0 = 0xE0" "(?x OR 0xE0) AND 0x0F = ?x"
    using x by (simp_all add: la)
  moreover have "push_bit 6 (drop_bit 6 ch AND 0x3F) OR (ch AND 0x3F) = ch AND mask 12"
    using join_bits(1) [of 6 ch 6] by (simp add: masks)
  ultimately show ?thesis
    using lead_byte [of "?x OR 0xE0"] cont_byte_facts [of ch] cont_byte_facts [of "drop_bit 6 ch"]
      join_bits(2) [of 12 ch] by (simp add: or.assoc)
qed

lemma utf8_four:
  assumes "0x10000 \<le> ch" "ch < 0x110000"
  shows "utf8_payload (utf8_char (drop_bit 18 ch OR 0xF0) # utf8_char (drop_bit 12 ch AND 0x3F OR 0x80)
     # utf8_char (drop_bit 6 ch AND 0x3F OR 0x80) # utf8_char (ch AND 0x3F OR 0x80) # s) = Some (ch, s)"
proof -
  let ?x = "drop_bit 18 ch"
  have "ch < 2 ^ (3 + 18)" using assms(2) by (simp add: word_less_nat_alt)
  then have x: "?x = ?x AND 0x07" using drop_bit_and_mask [of ch 3 18] by (simp add: masks)
  note la = lead_and [OF x]
  have "?x OR 0xF0 < 256" by (rule lead_byte_small [OF x]) simp_all
  moreover have "(?x OR 0xF0) AND 0x80 = 0x80" "(?x OR 0xF0) AND 0xE0 = 0xE0"
      "(?x OR 0xF0) AND 0xF0 = 0xF0" "(?x OR 0xF0) AND 0xF8 = 0xF0" "(?x OR 0xF0) AND 0x07 = ?x"
    using x by (simp_all add: la)
  moreover have "push_bit 6 (drop_bit 6 ch AND 0x3F) OR (ch AND 0x3F) = ch AND mask 12"
    using join_bits(1) [of 6 ch 6] by (simp add: masks)
  moreover have "push_bit 12 (drop_bit 12 ch AND 0x3F) OR (ch AND mask 12) = ch AND mask 18"
    using join_bits(1) [of 12 ch 6] by (simp add: masks)
  ultimately show ?thesis
    using lead_byte [of "?x OR 0xF0"] cont_byte_facts [of ch] cont_byte_facts [of "drop_bit 6 ch"]
      cont_byte_facts [of "drop_bit 12 ch"] join_bits(2) [of 18 ch] by (simp add: or.assoc)
qed

section \<open>Properties of the lexer\<close>

text \<open>All the tokens of an input, as the compiler asks for them.\<close>

function all_tokens :: "lexer \<Rightarrow> string + i64 list" where
  "all_tokens l =
     bindE (Lex l) (\<lambda>(t, l'). if t = 0 then Inr [] else bindE (all_tokens l') (\<lambda>ts. Inr (t # ts)))"
  by pat_completeness auto
termination
proof (relation "measure lexer_left", goal_cases)
  case 1
  show ?case by simp
next
  case (2 l x t l')
  then show ?case
    using Lex_loop_progress [of "l\<lparr>lx_lasttokenline := lx_currentline l\<rparr>"]
    by (auto simp: Lex_def progress_def)
qed

declare all_tokens.simps [simp del]

text \<open>
  C29. The lexer makes progress: every token other than the end of the input consumes at
  least one character, so reading the tokens of any input ends, with an error or with at
  most as many tokens as the input has characters.\<close>

theorem lexing_terminates:
  "case all_tokens l of Inl e \<Rightarrow> True | Inr ts \<Rightarrow> length ts \<le> lexer_left l"
proof (induction l rule: all_tokens.induct)
  case (1 l)
  show ?case
  proof (cases "Lex l")
    case (Inl e)
    then show ?thesis by (simp add: all_tokens.simps [of l])
  next
    case (Inr r)
    obtain t l' where r: "r = (t, l')" by force
    have p: "t \<noteq> 0 \<longrightarrow> lexer_left l' < lexer_left l"
      using Inr r Lex_loop_progress [of "l\<lparr>lx_lasttokenline := lx_currentline l\<rparr>"]
      by (auto simp: Lex_def progress_def)
    show ?thesis
      using 1 [OF Inr, of t l'] p r Inr by (cases "t = 0"; cases "all_tokens l'") (auto simp: all_tokens.simps [of l])
  qed
qed

lemma looking_at_not_eob: "looking_at l s \<Longrightarrow> s \<noteq> [] \<Longrightarrow> \<not> IS_EOB l"
  by (cases s) (auto simp: looking_at_def IS_EOB_def SQUIRREL_EOB_def)

text \<open>A lexer at the start of a given text, for the examples.\<close>

definition lexer_on :: "string \<Rightarrow> lexer" where
  "lexer_on s = \<lparr>lx_input = map tok_char (tl s), lx_currdata = hd s, lx_curtoken = 0,
     lx_prevtoken = - 1, lx_currentline = 1, lx_lasttokenline = 1, lx_currentcolumn = 0,
     lx_reached_eof = False, lx_svalue = [], lx_nvalue = 0, lx_fvalue = 0, lx_longstr = [],
     lx_keywords = table_Create 0\<rparr>"

lemma looking_at_lexer_on: "s \<noteq> [] \<Longrightarrow> CHR 0x00 \<notin> set s \<Longrightarrow> looking_at (lexer_on s) s"
  by (cases s) (simp_all add: looking_at_def lexer_on_def)

lemma Lex_token:
  assumes "lx_currdata l \<notin> {CHR 0x09, CHR 0x0D, CHR 0x20, CHR 0x0A, CHR ''#'', CHR ''/'', CHR 0x00}"
  shows "Lex l = lex_token (l\<lparr>lx_lasttokenline := lx_currentline l\<rparr>)"
  using assms by (simp add: Lex_def Lex_loop.simps [of "l\<lparr>lx_lasttokenline := lx_currentline l\<rparr>"] SQUIRREL_EOB_def)

lemma lex_token_default:
  assumes "isdigit (lx_currdata l) \<or> isalpha (lx_currdata l) \<or> lx_currdata l = CHR ''_''"
  shows "lex_token l = lex_default l"
proof -
  have "lx_currdata l \<notin> set ''@=<>!{}()[];,?^~.&|:*%-+'' \<union> {CHR 0x22, CHR 0x27}"
    using assms by (auto simp: isdigit_def isalpha_def)
  then show ?thesis by (simp add: lex_token_def Let_def)
qed

lemma Lex_default:
  assumes "isdigit (lx_currdata l) \<or> isalpha (lx_currdata l) \<or> lx_currdata l = CHR ''_''"
  shows "Lex l = lex_default (l\<lparr>lx_lasttokenline := lx_currentline l\<rparr>)"
proof -
  have "lx_currdata l \<notin> {CHR 0x09, CHR 0x0D, CHR 0x20, CHR 0x0A, CHR ''#'', CHR ''/'', CHR 0x00}"
    using assms by (auto simp: isdigit_def isalpha_def)
  from Lex_token [OF this] show ?thesis using assms by (subst (asm) lex_token_default) simp_all
qed

text \<open>
  C26. Round trip of integer literals: the decimal digits of \<open>n\<close>, followed by a character
  that cannot continue a number, are read as one integer token whose value is \<open>n\<close>
  (modulo \<open>2 ^ 64\<close>, since \<open>LexInteger\<close> does not check for overflow), and the text after
  the digits is left to be read.\<close>

theorem integer_literal_roundtrip:
  assumes "looking_at l (dec_digits n @ rest)" "number_end rest"
  shows "\<exists>l'. Lex l = Inr (TK_INTEGER, l') \<and> looking_at l' rest \<and> lx_nvalue l' = of_nat n"
proof -
  let ?l = "l\<lparr>lx_lasttokenline := lx_currentline l\<rparr>"
  obtain c cs where dd: "dec_digits n = c # cs" using dec_digits_first by blast
  have dig: "isdigit (lx_currdata l)"
    using assms(1) dd dec_digits_isdigit [of c n] looking_at_cur [of l c "cs @ rest"] by simp
  from ReadNumber_decimal [of ?l n rest] assms obtain l' where
    "ReadNumber ?l = Inr (TK_INTEGER, l')" "looking_at l' rest" "lx_nvalue l' = of_nat n" by auto
  with dig show ?thesis by (simp add: Lex_default lex_default_def RETURN_TOKEN_def)
qed

theorem integer_literal_roundtrip_witness:
  "\<exists>l'. Lex (lexer_on ''42;'') = Inr (TK_INTEGER, l') \<and> looking_at l' '';'' \<and> lx_nvalue l' = 42"
proof -
  have "dec_digits 42 = ''42''" by code_simp
  moreover have "number_end '';''" by code_simp
  moreover have "looking_at (lexer_on ''42;'') ''42;''" by (rule looking_at_lexer_on) simp_all
  ultimately show ?thesis using integer_literal_roundtrip [of "lexer_on ''42;''" 42 "'';''"] by simp
qed

text \<open>
  C25. Round trip of string literals: a string of arbitrary bytes, written between quotation
  marks with the hexadecimal escape for every byte that is not printable, is read back as
  exactly these bytes (with the terminator the lexer adds), as one token.\<close>

theorem string_literal_roundtrip:
  assumes "looking_at l (CHR 0x22 # quote_string s @ CHR 0x22 # rest)"
  shows "\<exists>l'. Lex l = Inr (TK_STRING_LITERAL, l') \<and> looking_at l' rest \<and>
     lx_svalue l' = s @ [CHR 0x00] \<and> lx_currentline l' = lx_currentline l"
proof -
  let ?l = "INIT_TEMP_STRING (l\<lparr>lx_lasttokenline := lx_currentline l\<rparr>)"
  have la: "looking_at ?l (CHR 0x22 # quote_string s @ CHR 0x22 # rest)"
    using assms by (simp add: INIT_TEMP_STRING_def)
  note n = NEXT_looking_at [OF la]
  have eob: "\<not> IS_EOB (adv ?l)"
    using n(2) by (rule looking_at_not_eob) simp
  from ReadString_loop_quoted [OF n(2)] obtain l' where
    l': "ReadString_loop (CHR 0x22) False (adv ?l) = Inr l'" "looking_at l' rest" "lx_longstr l' = s"
      "lx_currentline l' = lx_currentline l"
    by (auto simp: INIT_TEMP_STRING_def)
  show ?thesis
    using looking_at_cur [OF assms] n(1) l' eob
    by (simp add: Lex_token lex_token_def string_token_def ReadString_def Let_def TERMINATE_BUFFER_def
        RETURN_TOKEN_def TK_STRING_LITERAL_def)
qed

theorem string_literal_roundtrip_witness:
  "\<exists>l'. Lex (lexer_on (CHR 0x22 # quote_string [CHR 0x0A, CHR ''a'', CHR 0x22] @ [CHR 0x22])) =
       Inr (TK_STRING_LITERAL, l') \<and>
     lx_svalue l' = [CHR 0x0A, CHR ''a'', CHR 0x22, CHR 0x00]"
proof -
  let ?s = "CHR 0x22 # quote_string [CHR 0x0A, CHR ''a'', CHR 0x22] @ [CHR 0x22]"
  have "CHR 0x00 \<notin> set ?s" by code_simp
  then have "looking_at (lexer_on ?s) ?s" by (intro looking_at_lexer_on) simp_all
  from string_literal_roundtrip [OF this] show ?thesis by auto
qed

text \<open>
  Round trip of verbatim strings: any string without a zero byte, written after \<open>@\<close>
  between quotation marks with every quotation mark doubled, is read back unchanged, and
  the line counter advances by the number of newlines in it.\<close>

lemma verbatim_string_roundtrip:
  assumes "looking_at l (CHR ''@'' # CHR 0x22 # verbatim_string s @ CHR 0x22 # rest)"
    and "rest = [] \<or> hd rest \<noteq> CHR 0x22"
  shows "\<exists>l'. Lex l = Inr (TK_STRING_LITERAL, l') \<and> looking_at l' rest \<and>
     lx_svalue l' = s @ [CHR 0x00] \<and>
     lx_currentline l' = lx_currentline l + of_nat (count_list s (CHR 0x0A))"
proof -
  let ?l = "l\<lparr>lx_lasttokenline := lx_currentline l\<rparr>"
  have la: "looking_at ?l (CHR ''@'' # CHR 0x22 # verbatim_string s @ CHR 0x22 # rest)"
    using assms(1) by simp
  note n1 = NEXT_looking_at [OF la]
  let ?l2 = "INIT_TEMP_STRING (adv ?l)"
  have la2: "looking_at ?l2 (CHR 0x22 # verbatim_string s @ CHR 0x22 # rest)"
    using n1(2) by (simp add: INIT_TEMP_STRING_def)
  note n2 = NEXT_looking_at [OF la2]
  have eob: "\<not> IS_EOB (adv ?l2)"
    using n2(2) by (rule looking_at_not_eob) simp
  from ReadString_loop_verbatim [OF n2(2) assms(2)] obtain l' where
    l': "ReadString_loop (CHR 0x22) True (adv ?l2) = Inr l'" "looking_at l' rest" "lx_longstr l' = s"
      "lx_currentline l' = lx_currentline l + of_nat (count_list s (CHR 0x0A))"
    by (auto simp: INIT_TEMP_STRING_def)
  show ?thesis
    using looking_at_cur [OF assms(1)] n1(1) n2(1) l' eob looking_at_cur [OF n1(2)]
    by (simp add: Lex_token lex_token_def lex_at_def string_token_def ReadString_def Let_def
        TERMINATE_BUFFER_def RETURN_TOKEN_def TK_STRING_LITERAL_def)
qed

theorem verbatim_string_roundtrip_witness:
  "\<exists>l'. Lex (lexer_on (CHR ''@'' # CHR 0x22 # verbatim_string [CHR 0x22, CHR 0x0A] @ [CHR 0x22])) =
       Inr (TK_STRING_LITERAL, l') \<and>
     lx_svalue l' = [CHR 0x22, CHR 0x0A, CHR 0x00]"
proof -
  let ?s = "CHR ''@'' # CHR 0x22 # verbatim_string [CHR 0x22, CHR 0x0A] @ [CHR 0x22]"
  have "CHR 0x00 \<notin> set ?s" by code_simp
  then have "looking_at (lexer_on ?s) ?s" by (intro looking_at_lexer_on) simp_all
  from verbatim_string_roundtrip [OF this] show ?thesis by auto
qed

text \<open>
  Block comments end at the first \<open>*/\<close>: after \<open>/*\<close> the lexer either continues with the
  text that follows the first \<open>*/\<close>, or reports the missing end of the comment if there is
  none.\<close>

lemma block_comment_skipped:
  assumes "looking_at l (CHR ''/'' # CHR ''*'' # s)"
  shows "case skip_comment s of
      None \<Rightarrow> Lex l = Inl ''missing \"*/\" in comment''
    | Some rest \<Rightarrow> \<exists>l'. Lex l = Lex_loop l' \<and> looking_at l' rest"
proof -
  let ?l = "l\<lparr>lx_lasttokenline := lx_currentline l\<rparr>"
  have la: "looking_at ?l (CHR ''/'' # CHR ''*'' # s)" using assms by simp
  note n1 = NEXT_looking_at [OF la]
  note n2 = NEXT_looking_at [OF n1(2)]
  have "Lex l = bindE (LexBlockComment (adv (adv ?l))) Lex_loop"
    using n1 n2 looking_at_cur [OF la] looking_at_cur [OF n1(2)]
    by (simp add: Lex_def Lex_loop.simps [of ?l] SQUIRREL_EOB_def)
  with LexBlockComment_eq [OF n2(2)] show ?thesis by (auto split: option.splits)
qed

theorem block_comment_skipped_witness:
  "\<exists>l'. Lex (lexer_on ''/***/x'') = Lex_loop l' \<and> looking_at l' ''x''"
proof -
  have "looking_at (lexer_on ''/***/x'') ''/***/x''" by (rule looking_at_lexer_on) simp_all
  from block_comment_skipped [OF this] show ?thesis by simp
qed

text \<open>
  Keywords and identifiers: after \<open>Init\<close>, a word (a letter or underscore followed by
  letters, digits and underscores, taken as long as possible) is read as the token of the
  keyword it spells, looked up in the hash table that \<open>Init\<close> built, and as an identifier
  with its spelling otherwise.\<close>

lemma keyword_recognition:
  assumes "lexer_Init l0 (map tok_char (c # cs @ rest)) = Some (Inr l)" "CHR 0x00 \<notin> set (c # cs @ rest)"
    and "isalpha c \<or> c = CHR ''_''" "\<forall>x \<in> set cs. isalnum x \<or> x = CHR ''_''"
    and "rest = [] \<or> \<not> (isalnum (hd rest) \<or> hd rest = CHR ''_'')"
  shows "\<exists>l'. Lex l = Inr (case map_of keyword_list (c # cs) of Some t \<Rightarrow> t | None \<Rightarrow> TK_IDENTIFIER, l') \<and>
     looking_at l' rest \<and>
     (map_of keyword_list (c # cs) = None \<longrightarrow> lx_svalue l' = c # cs @ [CHR 0x00])"
proof -
  obtain kw where kw: "keyword_table_ok kw"
      "lexer_Next (l0\<lparr>lx_keywords := kw, lx_input := map tok_char (c # cs @ rest), lx_lasttokenline := 1,
         lx_currentline := 1, lx_currentcolumn := 0, lx_prevtoken := - 1, lx_reached_eof := False\<rparr>) = Inr l"
    using lexer_Init_keywords [of l0 "map tok_char (c # cs @ rest)"] assms(1) by auto
  have l: "looking_at l (c # cs @ rest)" "lx_keywords l = kw"
    using kw(2) assms(2) by (auto simp: lexer_Next_def looking_at_def tok_char_bounds)
  let ?l = "INIT_TEMP_STRING (l\<lparr>lx_lasttokenline := lx_currentline l\<rparr>)"
  have "looking_at ?l (c # cs @ rest)" using l(1) by (simp add: INIT_TEMP_STRING_def)
  from id_loop_eq [OF this assms(4,5)] obtain l1 where
    l1: "id_loop ?l = Inr l1" "looking_at l1 rest" "lx_longstr l1 = c # cs" "lx_keywords l1 = kw"
    using l(2) by (auto simp: INIT_TEMP_STRING_def)
  have id: "GetIDType (TERMINATE_BUFFER l1) (c # cs) =
      Some (case map_of keyword_list (c # cs) of Some t \<Rightarrow> t | None \<Rightarrow> TK_IDENTIFIER)"
    by (rule GetIDType_eq) (use kw(1) l1(4) assms(2) in \<open>auto simp: TERMINATE_BUFFER_def APPEND_CHAR_def\<close>)
  have cur: "lx_currdata l = c" using looking_at_cur [OF l(1)] by simp
  have nd: "\<not> isdigit c" using assms(3) by (auto simp: isalpha_def isdigit_def)
  have "Lex l = bindE (ReadID (l\<lparr>lx_lasttokenline := lx_currentline l\<rparr>)) (\<lambda>(t, l). RETURN_TOKEN t l)"
    using Lex_default [of l] assms(3) cur nd by (simp add: lex_default_def)
  then show ?thesis
    using l1 id by (auto simp: ReadID_def Let_def RETURN_TOKEN_def TERMINATE_BUFFER_def split: option.split)
qed

theorem keyword_recognition_witness:
  "\<exists>l l'. lexer_Init (lexer_on ''x'') (map tok_char ''while('') = Some (Inr l) \<and>
     Lex l = Inr (274, l') \<and> looking_at l' ''(''"
proof -
  obtain l where l: "lexer_Init (lexer_on ''x'') (map tok_char ''while('') = Some (Inr l)"
    using lexer_Init_keywords [of "lexer_on ''x''" "map tok_char ''while(''"]
    by (auto simp: lexer_Next_def tok_char_bounds)
  have "\<forall>x \<in> set ''hile''. isalnum x \<or> x = CHR ''_''" "isalpha CHR ''w''" "\<not> isalnum CHR ''(''"
    by code_simp+
  moreover have "map_of keyword_list ''while'' = Some 274" by (simp add: keyword_list_def)
  ultimately show ?thesis
    using keyword_recognition [of "lexer_on ''x''" "CHR ''w''" "''hile''" "''(''" l] l by auto
qed

lemma AddUTF8_payload:
  "\<exists>bs. lx_longstr (fst (AddUTF8 ch l)) = lx_longstr l @ bs \<and>
     snd (AddUTF8 ch l) = of_nat (length bs) \<and> length bs = utf8_length ch \<and>
     (ch < 0x110000 \<longrightarrow> (\<forall>s. utf8_payload (bs @ s) = Some (ch, s)))"
proof -
  consider "ch < 0x80" | "0x80 \<le> ch" "ch < 0x800" | "0x800 \<le> ch" "ch < 0x10000"
    | "0x10000 \<le> ch" "ch < 0x110000" | "0x110000 \<le> ch"
    by (metis linorder_not_less)
  then show ?thesis
  proof cases
    case 1
    then have "ch < 256" "ch < 0x110000" by (auto simp: word_less_nat_alt)
    with 1 show ?thesis by (intro exI [of _ "[utf8_char ch]"]) (simp add: AddUTF8_def utf8_length_def of_char_utf8_char)
  next
    case 2
    then have "\<not> ch < 0x80" "ch < 0x110000" by (auto simp: word_less_nat_alt word_le_nat_alt)
    with 2 utf8_two [OF 2] show ?thesis
      by (intro exI [of _ "[utf8_char (drop_bit 6 ch OR 0xC0), utf8_char (ch AND 0x3F OR 0x80)]"])
        (simp add: AddUTF8_def utf8_length_def del: utf8_payload.simps)
  next
    case 3
    then have "\<not> ch < 0x80" "\<not> ch < 0x800" "ch < 0x110000" by (auto simp: word_less_nat_alt word_le_nat_alt)
    with 3 utf8_three [OF 3] show ?thesis
      by (intro exI [of _ "[utf8_char (drop_bit 12 ch OR 0xE0),
            utf8_char (drop_bit 6 ch AND 0x3F OR 0x80), utf8_char (ch AND 0x3F OR 0x80)]"])
        (simp add: AddUTF8_def utf8_length_def del: utf8_payload.simps)
  next
    case 4
    then have "\<not> ch < 0x80" "\<not> ch < 0x800" "\<not> ch < 0x10000" by (auto simp: word_less_nat_alt word_le_nat_alt)
    with 4 utf8_four [OF 4] show ?thesis
      by (intro exI [of _ "[utf8_char (drop_bit 18 ch OR 0xF0), utf8_char (drop_bit 12 ch AND 0x3F OR 0x80),
            utf8_char (drop_bit 6 ch AND 0x3F OR 0x80), utf8_char (ch AND 0x3F OR 0x80)]"])
        (simp add: AddUTF8_def utf8_length_def del: utf8_payload.simps)
  next
    case 5
    then have "\<not> ch < 0x80" "\<not> ch < 0x800" "\<not> ch < 0x10000" by (auto simp: word_less_nat_alt word_le_nat_alt)
    with 5 show ?thesis by (intro exI [of _ "[]"]) (auto simp: AddUTF8_def utf8_length_def)
  qed
qed

text \<open>
  C38. \<open>AddUTF8\<close> appends the UTF-8 encoding of its argument, and returns the number of bytes:
  for every code point below \<open>0x110000\<close> that is not a surrogate, the bytes decode to that
  code point, where the decoder accepts only the shortest form of a code point. A
  surrogate (\<open>0xD800\<close> to \<open>0xDFFF\<close>) is not refused: the code appends three bytes for it that
  are not valid UTF-8. For anything larger it appends nothing and returns 0.\<close>

theorem AddUTF8_correct:
  "\<exists>bs. lx_longstr (fst (AddUTF8 ch l)) = lx_longstr l @ bs \<and>
     snd (AddUTF8 ch l) = of_nat (length bs) \<and>
     (if surrogate ch then length bs = 3 \<and> (\<forall>s. utf8_decode (bs @ s) = None)
      else if ch < 0x110000 then \<forall>s. utf8_decode (bs @ s) = Some (ch, s)
      else bs = [])"
proof -
  obtain bs where bs: "lx_longstr (fst (AddUTF8 ch l)) = lx_longstr l @ bs" "snd (AddUTF8 ch l) = of_nat (length bs)"
    "length bs = utf8_length ch" "ch < 0x110000 \<Longrightarrow> utf8_payload (bs @ s) = Some (ch, s)" for s
    using AddUTF8_payload [of ch l] by blast
  have "surrogate ch \<Longrightarrow> ch < 0x110000 \<and> utf8_length ch = 3"
    by (auto simp: surrogate_def utf8_length_def word_less_nat_alt word_le_nat_alt)
  moreover have "\<not> ch < 0x110000 \<Longrightarrow> utf8_length ch = 0"
    by (auto simp: utf8_length_def word_less_nat_alt)
  ultimately show ?thesis using bs by (intro exI [of _ bs]) (auto simp: utf8_decode_def)
qed

text \<open>
  The check \<open>if(type != TFLOAT) Error("invalid numeric format")\<close> in \<open>ReadNumber\<close> never
  fires: the statement before it has just set \<open>type\<close> to \<open>TFLOAT\<close>. A number with several
  exponents or decimal points is therefore read without an error.\<close>

lemma numeric_format_check_is_dead:
  "ReadNumber l \<noteq> Inl ''invalid numeric format''"
proof -
  have nx: "NEXT x \<noteq> Inl ''invalid numeric format''" for x
    by (auto simp: NEXT_def lexer_Next_def bindE_Inl_iff Let_def split: prod.splits)
  have val: "ReadNumber_value t x \<noteq> Inl ''invalid numeric format''" for t x
    by (auto simp: ReadNumber_value_def store_nvalue_def Let_def split: numtype.splits option.splits)
  have loop: "number_loop t x \<noteq> Inl ''invalid numeric format''" for t x
  proof (induction t x rule: number_loop.induct)
    case (1 t x)
    show ?case
      unfolding number_loop.simps [of t x] using nx 1 by (auto simp: bindE_Inl_iff Let_def split: if_splits)
  qed
  have oct: "octal_loop x \<noteq> Inl ''invalid numeric format''" for x
  proof (induction x rule: octal_loop.induct)
    case (1 x)
    then show ?case unfolding octal_loop.simps [of x] using nx by (auto simp: bindE_Inl_iff)
  qed
  have hex: "hex_loop x \<noteq> Inl ''invalid numeric format''" for x
  proof (induction x rule: hex_loop.induct)
    case (1 x)
    then show ?case unfolding hex_loop.simps [of x] using nx by (auto simp: bindE_Inl_iff)
  qed
  show ?thesis
    unfolding ReadNumber_def using nx val loop oct hex
    by (auto simp: Let_def bindE_Inl_iff split: if_splits prod.splits)
qed

end
