(* ===== verification/Sq_FuncState.thy ===== *)
theory Sq_FuncState
  imports Sq_Table_Correct
begin

text \<open>
  The per-function state of the compiler, \<^verbatim>\<open>sqfuncstate.h\<close>, \<^verbatim>\<open>sqfuncstate.cpp\<close>,
  with the instructions of \<^verbatim>\<open>sqopcodes.h\<close> and the function prototype of
  \<^verbatim>\<open>sqfuncproto.h\<close>: register allocation, scopes, captured variables, the literal table,
  and the peephole optimiser of \<open>AddInstruction\<close>. \<open>_parent\<close> is the next element of the
  list of the function states that are being compiled, innermost first.

  \<open>Error\<close> calls \<open>SQCompiler::ThrowError\<close>, which does not return; a failed assertion and an
  access to an empty or too short vector are errors of their own.
\<close>

section \<open>Instructions\<close>

datatype (plugins only: code size) opcode =
  OP_LINE | OP_LOAD | OP_LOADINT | OP_LOADFLOAT | OP_DLOAD | OP_TAILCALL | OP_CALL | OP_PREPCALL
| OP_PREPCALLK | OP_GETK | OP_MOVE | OP_NEWSLOT | OP_DELETE | OP_SET | OP_GET | OP_EQ | OP_NE
| OP_ADD | OP_SUB | OP_MUL | OP_DIV | OP_MOD | OP_BITW | OP_RETURN | OP_LOADNULLS | OP_LOADROOT
| OP_LOADBOOL | OP_DMOVE | OP_JMP | OP_JCMP | OP_JZ | OP_SETOUTER | OP_GETOUTER | OP_NEWOBJ
| OP_APPENDARRAY | OP_COMPARITH | OP_INC | OP_INCL | OP_PINC | OP_PINCL | OP_CMP | OP_EXISTS
| OP_INSTANCEOF | OP_AND | OP_OR | OP_NEG | OP_NOT | OP_BWNOT | OP_CLOSURE | OP_YIELD | OP_RESUME
| OP_FOREACH | OP_POSTFOREACH | OP_CLONE | OP_TYPEOF | OP_PUSHTRAP | OP_POPTRAP | OP_THROW
| OP_NEWSLOTA | OP_GETBASE | OP_CLOSE

definition AAT_STACK :: byte where "AAT_STACK = 0"
definition AAT_LITERAL :: byte where "AAT_LITERAL = 1"
definition AAT_INT :: byte where "AAT_INT = 2"
definition AAT_FLOAT :: byte where "AAT_FLOAT = 3"
definition AAT_BOOL :: byte where "AAT_BOOL = 4"

definition MAX_FUNC_STACKSIZE :: byte where "MAX_FUNC_STACKSIZE = 0xFF"
definition MAX_LITERALS :: i64 where "MAX_LITERALS = 0x7FFFFFFF"

record instr =
  i_op :: opcode
  i_arg0 :: byte
  i_arg1 :: u32
  i_arg2 :: byte
  i_arg3 :: byte

definition SQInstruction :: "opcode \<Rightarrow> i64 \<Rightarrow> i64 \<Rightarrow> i64 \<Rightarrow> i64 \<Rightarrow> instr" where
  "SQInstruction op a0 a1 a2 a3 =
     \<lparr>i_op = op, i_arg0 = ucast a0, i_arg1 = ucast a1, i_arg2 = ucast a2, i_arg3 = ucast a3\<rparr>"

section \<open>The state\<close>

datatype outertype = otLOCAL | otOUTER

record outervar =
  ov_type :: outertype
  ov_name :: sqobject
  ov_src :: sqobject

record localvar =
  lv_name :: sqobject
  lv_start_op :: u64
  lv_end_op :: u64
  lv_pos :: u64

definition empty_local :: localvar where
  "empty_local = \<lparr>lv_name = VNull, lv_start_op = 0, lv_end_op = 0, lv_pos = 0\<rparr>"

definition UINT_MINUS_ONE :: u64 where "UINT_MINUS_ONE = - 1"

record lineinfo =
  li_line :: i64
  li_op :: i64

record funcstate =
  fs_returnexp :: i64
  fs_vlocals :: "localvar list"
  fs_targetstack :: "i64 list"
  fs_stacksize :: i64
  fs_varparams :: bool
  fs_bgenerator :: bool
  fs_unresolvedbreaks :: "i64 list"
  fs_unresolvedcontinues :: "i64 list"
  fs_functions :: "sqobject list"
  fs_parameters :: "sqobject list"
  fs_outervalues :: "outervar list"
  fs_instructions :: "instr list"
  fs_localvarinfos :: "localvar list"
  fs_literals :: sqtable
  fs_strings :: sqtable
  fs_name :: sqobject
  fs_sourcename :: sqobject
  fs_nliterals :: i64
  fs_lineinfos :: "lineinfo list"
  fs_has_parent :: bool
  fs_breaktargets :: "i64 list"
  fs_continuetargets :: "i64 list"
  fs_defaultparams :: "i64 list"
  fs_lastline :: i64
  fs_traps :: i64
  fs_outers :: i64
  fs_optimization :: bool

datatype fs_error = FS_Error string | FS_Assert | FS_Range

definition funcstate_new :: "bool \<Rightarrow> funcstate" where
  "funcstate_new parent =
     \<lparr>fs_returnexp = 0, fs_vlocals = [], fs_targetstack = [], fs_stacksize = 0,
      fs_varparams = False, fs_bgenerator = False, fs_unresolvedbreaks = [],
      fs_unresolvedcontinues = [], fs_functions = [], fs_parameters = [],
      fs_outervalues = [], fs_instructions = [], fs_localvarinfos = [],
      fs_literals = table_Create 0, fs_strings = table_Create 0, fs_name = VNull,
      fs_sourcename = VNull, fs_nliterals = 0, fs_lineinfos = [], fs_has_parent = parent,
      fs_breaktargets = [], fs_continuetargets = [], fs_defaultparams = [], fs_lastline = 0, fs_traps = 0, fs_outers = 0,
      fs_optimization = True\<rparr>"

section \<open>Literals\<close>

definition as_integer :: "sqobject \<Rightarrow> fs_error + i64" where
  "as_integer v = (case v of VInteger i \<Rightarrow> Inr i | _ \<Rightarrow> Inl FS_Assert)"

definition GetConstant :: "sqobject \<Rightarrow> funcstate \<Rightarrow> fs_error + (i64 \<times> funcstate)" where
  "GetConstant cons fs =
     (case table_Get (\<lambda>_. VNull) (fs_literals fs) cons of
        None \<Rightarrow> Inl FS_Range
      | Some (Some v) \<Rightarrow> bindE (as_integer v) (\<lambda>i. Inr (i, fs))
      | Some None \<Rightarrow>
          (case table_NewSlot (fs_literals fs) cons (VInteger (fs_nliterals fs)) of
             None \<Rightarrow> Inl FS_Assert
           | Some (t, _) \<Rightarrow>
               if MAX_LITERALS <s fs_nliterals fs + 1
               then Inl (FS_Error ''internal compiler error: too many literals'')
               else Inr (fs_nliterals fs,
                         fs\<lparr>fs_literals := t, fs_nliterals := fs_nliterals fs + 1\<rparr>)))"

definition GetNumericConstant_int :: "i64 \<Rightarrow> funcstate \<Rightarrow> fs_error + (i64 \<times> funcstate)" where
  "GetNumericConstant_int cons = GetConstant (VInteger cons)"

definition GetNumericConstant_float :: "u32 \<Rightarrow> funcstate \<Rightarrow> fs_error + (i64 \<times> funcstate)" where
  "GetNumericConstant_float cons = GetConstant (VFloat cons)"

definition fs_CreateString :: "string \<Rightarrow> funcstate \<Rightarrow> fs_error + (sqobject \<times> funcstate)" where
  "fs_CreateString s fs =
     (case table_NewSlot (fs_strings fs) (VString s) (VInteger 1) of
        None \<Rightarrow> Inl FS_Assert
      | Some (t, _) \<Rightarrow> Inr (VString s, fs\<lparr>fs_strings := t\<rparr>))"

text \<open>The new table is at the address \<open>p\<close> that the allocator returns.\<close>

definition fs_CreateTable :: "addr \<Rightarrow> funcstate \<Rightarrow> fs_error + (sqobject \<times> funcstate)" where
  "fs_CreateTable p fs =
     (case table_NewSlot (fs_strings fs) (VTable p) (VInteger 1) of
        None \<Rightarrow> Inl FS_Assert
      | Some (t, _) \<Rightarrow> Inr (VTable p, fs\<lparr>fs_strings := t\<rparr>))"

definition IsConstant :: "sqtable \<Rightarrow> sqobject \<Rightarrow> fs_error + sqobject option" where
  "IsConstant consts name =
     (case table_Get (\<lambda>_. VNull) consts name of None \<Rightarrow> Inl FS_Range | Some r \<Rightarrow> Inr r)"

section \<open>Instruction operands\<close>

definition GetCurrentPos :: "funcstate \<Rightarrow> i64" where
  "GetCurrentPos fs = of_nat (length (fs_instructions fs)) - 1"

definition upd_instr :: "i64 \<Rightarrow> (instr \<Rightarrow> instr) \<Rightarrow> funcstate \<Rightarrow> fs_error + funcstate" where
  "upd_instr pos f fs =
     (if unat pos < length (fs_instructions fs)
      then Inr (fs\<lparr>fs_instructions := (fs_instructions fs)[unat pos := f (fs_instructions fs ! unat pos)]\<rparr>)
      else Inl FS_Range)"

definition SetInstructionParams ::
    "i64 \<Rightarrow> i64 \<Rightarrow> i64 \<Rightarrow> i64 \<Rightarrow> i64 \<Rightarrow> funcstate \<Rightarrow> fs_error + funcstate" where
  "SetInstructionParams pos arg0 arg1 arg2 arg3 =
     upd_instr pos (\<lambda>i. i\<lparr>i_arg0 := ucast arg0, i_arg1 := ucast arg1, i_arg2 := ucast arg2,
                            i_arg3 := ucast arg3\<rparr>)"

definition SetInstructionParam :: "i64 \<Rightarrow> i64 \<Rightarrow> i64 \<Rightarrow> funcstate \<Rightarrow> fs_error + funcstate" where
  "SetInstructionParam pos arg val fs =
     (if arg = 0 then upd_instr pos (\<lambda>i. i\<lparr>i_arg0 := ucast val\<rparr>) fs
      else if arg = 1 \<or> arg = 4 then upd_instr pos (\<lambda>i. i\<lparr>i_arg1 := ucast val\<rparr>) fs
      else if arg = 2 then upd_instr pos (\<lambda>i. i\<lparr>i_arg2 := ucast val\<rparr>) fs
      else if arg = 3 then upd_instr pos (\<lambda>i. i\<lparr>i_arg3 := ucast val\<rparr>) fs
      else Inr fs)"

definition PopInstructions :: "nat \<Rightarrow> funcstate \<Rightarrow> fs_error + funcstate" where
  "PopInstructions n fs =
     (if n \<le> length (fs_instructions fs)
      then Inr (fs\<lparr>fs_instructions := take (length (fs_instructions fs) - n) (fs_instructions fs)\<rparr>)
      else Inl FS_Range)"

section \<open>Registers\<close>

definition GetStackSize :: "funcstate \<Rightarrow> i64" where
  "GetStackSize fs = of_nat (length (fs_vlocals fs))"

definition AllocStackPos :: "funcstate \<Rightarrow> fs_error + (i64 \<times> funcstate)" where
  "AllocStackPos fs =
     (let npos = of_nat (length (fs_vlocals fs));
          fs1 = fs\<lparr>fs_vlocals := fs_vlocals fs @ [empty_local]\<rparr>
      in if unat (fs_stacksize fs1) < length (fs_vlocals fs1)
         then if ucast MAX_FUNC_STACKSIZE <s fs_stacksize fs1
              then Inl (FS_Error ''internal compiler error: too many locals'')
              else Inr (npos, fs1\<lparr>fs_stacksize := of_nat (length (fs_vlocals fs1))\<rparr>)
         else Inr (npos, fs1))"

definition PushTarget :: "i64 \<Rightarrow> funcstate \<Rightarrow> fs_error + (i64 \<times> funcstate)" where
  "PushTarget n fs =
     (if n \<noteq> - 1 then Inr (n, fs\<lparr>fs_targetstack := fs_targetstack fs @ [n]\<rparr>)
      else bindE (AllocStackPos fs) (\<lambda>(n, fs).
             Inr (n, fs\<lparr>fs_targetstack := fs_targetstack fs @ [n]\<rparr>)))"

definition GetUpTarget :: "nat \<Rightarrow> funcstate \<Rightarrow> fs_error + i64" where
  "GetUpTarget n fs =
     (if n < length (fs_targetstack fs)
      then Inr (fs_targetstack fs ! (length (fs_targetstack fs) - 1 - n)) else Inl FS_Range)"

definition TopTarget :: "funcstate \<Rightarrow> fs_error + i64" where
  "TopTarget fs = (if fs_targetstack fs = [] then Inl FS_Range else Inr (last (fs_targetstack fs)))"

definition PopTarget :: "funcstate \<Rightarrow> fs_error + (i64 \<times> funcstate)" where
  "PopTarget fs =
     (if fs_targetstack fs = [] then Inl FS_Range
      else let npos = last (fs_targetstack fs)
           in if length (fs_vlocals fs) \<le> unat npos then Inl FS_Assert
              else let fs1 = (if lv_name (fs_vlocals fs ! unat npos) = VNull
                              then fs\<lparr>fs_vlocals := butlast (fs_vlocals fs)\<rparr> else fs)
                   in Inr (npos, fs1\<lparr>fs_targetstack := butlast (fs_targetstack fs)\<rparr>))"

definition DiscardTarget :: "funcstate \<Rightarrow> fs_error + funcstate" where
  "DiscardTarget fs =
     bindE (PopTarget fs) (\<lambda>(discardedtarget, fs).
       if fs_instructions fs \<noteq> [] \<and> fs_optimization fs
       then let pi = last (fs_instructions fs)
            in if i_op pi \<in> {OP_SET, OP_NEWSLOT, OP_SETOUTER, OP_CALL} \<and>
                  ucast (i_arg0 pi) = discardedtarget
               then Inr (fs\<lparr>fs_instructions := butlast (fs_instructions fs) @ [pi\<lparr>i_arg0 := 0xFF\<rparr>]\<rparr>)
               else Inr fs
       else Inr fs)"

definition IsLocal :: "u64 \<Rightarrow> funcstate \<Rightarrow> bool" where
  "IsLocal stkpos fs \<longleftrightarrow>
     (if length (fs_vlocals fs) \<le> unat stkpos then False
      else lv_name (fs_vlocals fs ! unat stkpos) \<noteq> VNull)"

section \<open>Scopes and local variables\<close>

text \<open>The loop of \<open>CountOuters\<close> runs from the last local down to \<open>stacksize\<close>.\<close>

definition CountOuters :: "nat \<Rightarrow> funcstate \<Rightarrow> nat" where
  "CountOuters stacksize fs =
     length (filter (\<lambda>lvi. lv_end_op lvi = UINT_MINUS_ONE) (drop stacksize (fs_vlocals fs)))"

definition close_local :: "funcstate \<Rightarrow> funcstate" where
  "close_local fs =
     (let lvi = last (fs_vlocals fs);
          fs1 = (if lv_name lvi \<noteq> VNull
                 then fs\<lparr>fs_outers := (if lv_end_op lvi = UINT_MINUS_ONE then fs_outers fs - 1
                                       else fs_outers fs),
                         fs_localvarinfos := fs_localvarinfos fs @ [lvi\<lparr>lv_end_op := GetCurrentPos fs\<rparr>]\<rparr>
                 else fs)
      in fs1\<lparr>fs_vlocals := butlast (fs_vlocals fs)\<rparr>)"

function SetStackSize :: "nat \<Rightarrow> funcstate \<Rightarrow> funcstate" where
  "SetStackSize n fs =
     (if n < length (fs_vlocals fs) then SetStackSize n (close_local fs) else fs)"
  by pat_completeness auto
termination
  by (relation "measure (\<lambda>(n, fs). length (fs_vlocals fs))") (auto simp: close_local_def Let_def)

declare SetStackSize.simps [simp del]

definition PushLocalVariable :: "sqobject \<Rightarrow> funcstate \<Rightarrow> i64 \<times> funcstate" where
  "PushLocalVariable name fs =
     (let pos = of_nat (length (fs_vlocals fs));
          lvi = empty_local\<lparr>lv_name := name, lv_start_op := GetCurrentPos fs + 1, lv_pos := pos\<rparr>;
          fs1 = fs\<lparr>fs_vlocals := fs_vlocals fs @ [lvi]\<rparr>
      in (pos, if unat (fs_stacksize fs1) < length (fs_vlocals fs1)
               then fs1\<lparr>fs_stacksize := of_nat (length (fs_vlocals fs1))\<rparr> else fs1))"

fun find_local :: "localvar list \<Rightarrow> string \<Rightarrow> nat \<Rightarrow> i64" where
  "find_local vl name 0 = - 1"
| "find_local vl name (Suc k) =
     (if lv_name (vl ! k) = VString name then of_nat k else find_local vl name k)"

definition GetLocalVariable :: "string \<Rightarrow> funcstate \<Rightarrow> i64" where
  "GetLocalVariable name fs = find_local (fs_vlocals fs) name (length (fs_vlocals fs))"

definition MarkLocalAsOuter :: "i64 \<Rightarrow> funcstate \<Rightarrow> funcstate" where
  "MarkLocalAsOuter pos fs =
     fs\<lparr>fs_vlocals := (fs_vlocals fs)[unat pos := (fs_vlocals fs ! unat pos)\<lparr>lv_end_op := UINT_MINUS_ONE\<rparr>],
        fs_outers := fs_outers fs + 1\<rparr>"

fun find_outer :: "outervar list \<Rightarrow> string \<Rightarrow> nat \<Rightarrow> nat option" where
  "find_outer [] name i = None"
| "find_outer (ov # ovs) name i =
     (if ov_name ov = VString name then Some i else find_outer ovs name (i + 1))"

definition push_outer :: "string \<Rightarrow> i64 \<Rightarrow> outertype \<Rightarrow> funcstate \<Rightarrow> i64 \<times> funcstate" where
  "push_outer name pos t fs =
     (of_nat (length (fs_outervalues fs)),
      fs\<lparr>fs_outervalues := fs_outervalues fs @ [\<lparr>ov_type = t, ov_name = VString name, ov_src = VInteger pos\<rparr>]\<rparr>)"

fun GetOuterVariable :: "string \<Rightarrow> funcstate list \<Rightarrow> i64 \<times> funcstate list" where
  "GetOuterVariable name [] = (- 1, [])"
| "GetOuterVariable name (fs # parents) =
     (case find_outer (fs_outervalues fs) name 0 of
        Some i \<Rightarrow> (of_nat i, fs # parents)
      | None \<Rightarrow>
          (case parents of
             [] \<Rightarrow> (- 1, fs # parents)
           | parent # rest \<Rightarrow>
               let pos = GetLocalVariable name parent
               in if pos = - 1
                  then let (pos, parents') = GetOuterVariable name parents
                       in if pos \<noteq> - 1
                          then let (r, fs') = push_outer name pos otOUTER fs in (r, fs' # parents')
                          else (- 1, fs # parents')
                  else let (r, fs') = push_outer name pos otLOCAL fs
                       in (r, fs' # MarkLocalAsOuter pos parent # rest)))"

definition AddParameter :: "sqobject \<Rightarrow> funcstate \<Rightarrow> funcstate" where
  "AddParameter name fs =
     (let fs1 = snd (PushLocalVariable name fs)
      in fs1\<lparr>fs_parameters := fs_parameters fs1 @ [name]\<rparr>)"

section \<open>Emitting instructions\<close>

definition push_instr :: "instr \<Rightarrow> funcstate \<Rightarrow> fs_error + funcstate" where
  "push_instr i fs =
     Inr (fs\<lparr>fs_optimization := True, fs_instructions := fs_instructions fs @ [i]\<rparr>)"

definition set_last :: "instr \<Rightarrow> funcstate \<Rightarrow> funcstate" where
  "set_last pi fs = fs\<lparr>fs_instructions := butlast (fs_instructions fs) @ [pi]\<rparr>"

definition append_array_type :: "opcode \<Rightarrow> byte option" where
  "append_array_type op = (case op of
       OP_LOAD \<Rightarrow> Some AAT_LITERAL
     | OP_LOADINT \<Rightarrow> Some AAT_INT
     | OP_LOADBOOL \<Rightarrow> Some AAT_BOOL
     | OP_LOADFLOAT \<Rightarrow> Some AAT_FLOAT
     | _ \<Rightarrow> None)"

definition move_folds :: "opcode \<Rightarrow> bool" where
  "move_folds op \<longleftrightarrow> op \<in> {OP_GET, OP_ADD, OP_SUB, OP_MUL, OP_DIV, OP_MOD, OP_BITW, OP_LOADINT,
     OP_LOADFLOAT, OP_LOADBOOL, OP_LOAD}"

text \<open>The cases of the optimiser, with \<open>pi\<close> the previous instruction.\<close>

definition optimise :: "instr \<Rightarrow> instr \<Rightarrow> funcstate \<Rightarrow> fs_error + funcstate" where
  "optimise pi i fs =
     (case i_op i of
        OP_JZ \<Rightarrow>
          if i_op pi = OP_CMP \<and> i_arg1 pi <s 0xFF
          then Inr (set_last (pi\<lparr>i_op := OP_JCMP, i_arg0 := ucast (i_arg1 pi), i_arg1 := i_arg1 i\<rparr>) fs)
          else push_instr i fs
      | OP_SET \<Rightarrow> push_instr (if i_arg0 i = i_arg3 i then i\<lparr>i_arg0 := 0xFF\<rparr> else i) fs
      | OP_NEWSLOT \<Rightarrow> push_instr (if i_arg0 i = i_arg3 i then i\<lparr>i_arg0 := 0xFF\<rparr> else i) fs
      | OP_SETOUTER \<Rightarrow> push_instr (if i_arg0 i = i_arg2 i then i\<lparr>i_arg0 := 0xFF\<rparr> else i) fs
      | OP_RETURN \<Rightarrow>
          if fs_has_parent fs \<and> i_arg0 i \<noteq> MAX_FUNC_STACKSIZE \<and> i_op pi = OP_CALL \<and>
             fs_returnexp fs <s of_nat (length (fs_instructions fs)) - 1
          then push_instr i (set_last (pi\<lparr>i_op := OP_TAILCALL\<rparr>) fs)
          else if i_op pi = OP_CLOSE then Inr (set_last i fs)
          else push_instr i fs
      | OP_GET \<Rightarrow>
          if i_op pi = OP_LOAD \<and> i_arg0 pi = i_arg2 i \<and> \<not> IsLocal (ucast (i_arg0 pi)) fs
          then Inr (set_last (pi\<lparr>i_arg2 := ucast (i_arg1 i), i_op := OP_GETK, i_arg0 := i_arg0 i\<rparr>) fs)
          else push_instr i fs
      | OP_PREPCALL \<Rightarrow>
          if i_op pi = OP_LOAD \<and> ucast (i_arg0 pi) = i_arg1 i \<and> \<not> IsLocal (ucast (i_arg0 pi)) fs
          then Inr (set_last (pi\<lparr>i_op := OP_PREPCALLK, i_arg0 := i_arg0 i, i_arg2 := i_arg2 i,
                                 i_arg3 := i_arg3 i\<rparr>) fs)
          else push_instr i fs
      | OP_APPENDARRAY \<Rightarrow>
          (case append_array_type (i_op pi) of
             Some aat \<Rightarrow>
               if ucast (i_arg0 pi) = i_arg1 i \<and> \<not> IsLocal (ucast (i_arg0 pi)) fs
               then Inr (set_last (pi\<lparr>i_op := OP_APPENDARRAY, i_arg0 := i_arg0 i, i_arg2 := aat,
                                      i_arg3 := MAX_FUNC_STACKSIZE\<rparr>) fs)
               else push_instr i fs
           | None \<Rightarrow> push_instr i fs)
      | OP_MOVE \<Rightarrow>
          if move_folds (i_op pi) \<and> ucast (i_arg0 pi) = i_arg1 i
          then Inr ((set_last (pi\<lparr>i_arg0 := i_arg0 i\<rparr>) fs)\<lparr>fs_optimization := False\<rparr>)
          else if i_op pi = OP_MOVE
          then Inr (set_last (pi\<lparr>i_op := OP_DMOVE, i_arg2 := i_arg0 i, i_arg3 := ucast (i_arg1 i)\<rparr>) fs)
          else push_instr i fs
      | OP_LOAD \<Rightarrow>
          if i_op pi = OP_LOAD \<and> i_arg1 i <s 256
          then Inr (set_last (pi\<lparr>i_op := OP_DLOAD, i_arg2 := i_arg0 i, i_arg3 := ucast (i_arg1 i)\<rparr>) fs)
          else push_instr i fs
      | OP_EQ \<Rightarrow>
          if i_op pi = OP_LOAD \<and> ucast (i_arg0 pi) = i_arg1 i \<and> \<not> IsLocal (ucast (i_arg0 pi)) fs
          then Inr (set_last (pi\<lparr>i_op := i_op i, i_arg0 := i_arg0 i, i_arg2 := i_arg2 i,
                                 i_arg3 := MAX_FUNC_STACKSIZE\<rparr>) fs)
          else push_instr i fs
      | OP_NE \<Rightarrow>
          if i_op pi = OP_LOAD \<and> ucast (i_arg0 pi) = i_arg1 i \<and> \<not> IsLocal (ucast (i_arg0 pi)) fs
          then Inr (set_last (pi\<lparr>i_op := i_op i, i_arg0 := i_arg0 i, i_arg2 := i_arg2 i,
                                 i_arg3 := MAX_FUNC_STACKSIZE\<rparr>) fs)
          else push_instr i fs
      | OP_LOADNULLS \<Rightarrow>
          if i_op pi = OP_LOADNULLS \<and> ucast (i_arg0 pi) + i_arg1 pi = ucast (i_arg0 i)
          then Inr (set_last (pi\<lparr>i_arg1 := i_arg1 pi + 1, i_op := OP_LOADNULLS\<rparr>) fs)
          else push_instr i fs
      | OP_LINE \<Rightarrow>
          if i_op pi = OP_LINE
          then if fs_lineinfos fs = [] then Inl FS_Range
               else push_instr i (fs\<lparr>fs_instructions := butlast (fs_instructions fs),
                                     fs_lineinfos := butlast (fs_lineinfos fs)\<rparr>)
          else push_instr i fs
      | _ \<Rightarrow> push_instr i fs)"

definition AddInstruction :: "instr \<Rightarrow> funcstate \<Rightarrow> fs_error + funcstate" where
  "AddInstruction i fs =
     (if fs_instructions fs \<noteq> [] \<and> fs_optimization fs
      then optimise (last (fs_instructions fs)) i fs
      else push_instr i fs)"

definition SnoozeOpt :: "funcstate \<Rightarrow> funcstate" where
  "SnoozeOpt fs = fs\<lparr>fs_optimization := False\<rparr>"

definition AddLineInfos :: "i64 \<Rightarrow> bool \<Rightarrow> bool \<Rightarrow> funcstate \<Rightarrow> fs_error + funcstate" where
  "AddLineInfos line lineop force fs =
     (if fs_lastline fs \<noteq> line \<or> force
      then let li = \<lparr>li_line = line, li_op = GetCurrentPos fs + 1\<rparr>
           in bindE (if lineop then AddInstruction (SQInstruction OP_LINE 0 line 0 0) fs else Inr fs) (\<lambda>fs.
                let fs1 = (if fs_lastline fs \<noteq> line
                           then fs\<lparr>fs_lineinfos := fs_lineinfos fs @ [li]\<rparr> else fs)
                in Inr (fs1\<lparr>fs_lastline := line\<rparr>))
      else Inr fs)"

definition AddDefaultParam :: "i64 \<Rightarrow> funcstate \<Rightarrow> funcstate" where
  "AddDefaultParam trg fs = fs\<lparr>fs_defaultparams := fs_defaultparams fs @ [trg]\<rparr>"

section \<open>The prototype\<close>

record funcproto =
  fp_sourcename :: sqobject
  fp_name :: sqobject
  fp_stacksize :: i64
  fp_bgenerator :: bool
  fp_varparams :: i64
  fp_localvarinfos :: "localvar list"
  fp_lineinfos :: "lineinfo list"
  fp_literals :: "sqobject list"
  fp_parameters :: "sqobject list"
  fp_functions :: "sqobject list"
  fp_outervalues :: "outervar list"
  fp_defaultparams :: "i64 list"
  fp_instructions :: "instr list"

text \<open>The loop that stores every literal at its index.\<close>

fun store_literals :: "sqobject list \<Rightarrow> (sqobject \<times> sqobject) list \<Rightarrow> fs_error + sqobject list" where
  "store_literals ls [] = Inr ls"
| "store_literals ls ((key, val) # kvs) =
     bindE (as_integer val) (\<lambda>i.
       if unat i < length ls then store_literals (ls[unat i := key]) kvs else Inl FS_Range)"

definition BuildProto :: "funcstate \<Rightarrow> fs_error + funcproto" where
  "BuildProto fs =
     bindE (store_literals (replicate (unat (fs_nliterals fs)) VNull)
              (iterate (\<lambda>_. VNull) False (fs_literals fs) 0)) (\<lambda>ls.
       Inr \<lparr>fp_sourcename = fs_sourcename fs, fp_name = fs_name fs, fp_stacksize = fs_stacksize fs,
            fp_bgenerator = fs_bgenerator fs, fp_varparams = (if fs_varparams fs then 1 else 0),
            fp_localvarinfos = fs_localvarinfos fs, fp_lineinfos = fs_lineinfos fs, fp_literals = ls,
            fp_parameters = fs_parameters fs, fp_functions = fs_functions fs,
            fp_outervalues = fs_outervalues fs, fp_defaultparams = fs_defaultparams fs,
            fp_instructions = fs_instructions fs\<rparr>)"

definition PushChildState :: "funcstate list \<Rightarrow> funcstate list" where
  "PushChildState chain = funcstate_new (chain \<noteq> []) # chain"

definition PopChildState :: "funcstate list \<Rightarrow> funcstate list" where
  "PopChildState chain = tl chain"

end
