(* ===== verification/Sq_FuncState_Correct.thy ===== *)
theory Sq_FuncState_Correct
  imports Sq_FuncState
begin

text \<open>
  Correctness of the function state: the literal pool and the prototype built from it, the
  resolution of captured variables through the enclosing functions, and the registers.
\<close>

section \<open>The literal pool\<close>

text \<open>\<open>lits fs ks\<close>: the literals of \<open>fs\<close> are the objects \<open>ks\<close>, each at its position.\<close>

definition pool_map :: "sqobject list \<Rightarrow> sqobject \<rightharpoonup> sqobject" where
  "pool_map ks = map_of (zip ks (map (\<lambda>i. VInteger (of_nat i)) [0..<length ks]))"

definition lits :: "funcstate \<Rightarrow> sqobject list \<Rightarrow> bool" where
  "lits fs ks \<longleftrightarrow> table_inv (fs_literals fs) \<and> distinct ks \<and> VNull \<notin> set ks \<and>
     table_map (fs_literals fs) = pool_map ks \<and>
     fs_nliterals fs = of_nat (length ks) \<and> length ks \<le> 0x7FFFFFFF"

lemma pool_map_None: "pool_map ks c = None \<longleftrightarrow> c \<notin> set ks"
  unfolding pool_map_def by (rule map_of_zip_is_None) simp

lemma pool_map_nth: "distinct ks \<Longrightarrow> i < length ks \<Longrightarrow> pool_map ks (ks ! i) = Some (VInteger (of_nat i))"
  by (simp add: pool_map_def map_of_zip_nth)

lemma pool_map_append: "c \<notin> set ks \<Longrightarrow> pool_map (ks @ [c]) = (pool_map ks)(c \<mapsto> VInteger (of_nat (length ks)))"
proof -
  assume c: "c \<notin> set ks"
  have "pool_map (ks @ [c]) =
      map_of (zip ks (map (\<lambda>i. VInteger (of_nat i)) [0..<length ks]) @ [(c, VInteger (of_nat (length ks)))])"
    by (simp add: pool_map_def)
  also have "\<dots> = [c \<mapsto> VInteger (of_nat (length ks))] ++ pool_map ks"
    by (simp add: pool_map_def)
  also have "\<dots> = (pool_map ks)(c \<mapsto> VInteger (of_nat (length ks)))"
    by (rule ext) (use c pool_map_None [of ks c] in \<open>auto simp: map_add_def split: option.split\<close>)
  finally show ?thesis .
qed

lemma lits_new: "lits (funcstate_new p) []"
  by (simp add: lits_def funcstate_new_def Create_ok pool_map_def)

lemma MAX_LITERALS_iff: "n < 0x7FFFFFFF \<Longrightarrow> \<not> MAX_LITERALS <s of_nat n + 1"
proof -
  assume n: "n < 0x7FFFFFFF"
  have "uint (of_nat (Suc n) :: u64) = int (Suc n)"
    using n by (simp only: uint_nat unat_of_nat) simp
  then have "sint (of_nat (Suc n) :: u64) = int (Suc n)"
    unfolding sint_uint using n by (subst signed_take_bit_int_eq_self) simp_all
  then show ?thesis using n by (simp add: word_sless_alt MAX_LITERALS_def add.commute)
qed

lemma GetConstant_ok:
  assumes "lits fs ks" "c \<noteq> VNull" "c \<in> set ks \<or> length ks < 0x7FFFFFFF"
  shows "\<exists>i fs' ks'. GetConstant c fs = Inr (i, fs') \<and> lits fs' ks' \<and> unat i < length ks' \<and>
     ks' ! unat i = c \<and> set ks' = insert c (set ks) \<and> take (length ks) ks' = ks"
proof (cases "c \<in> set ks")
  case True
  then obtain i where i: "i < length ks" "ks ! i = c" by (auto simp: in_set_conv_nth)
  have lt: "length ks \<le> 0x7FFFFFFF" "table_inv (fs_literals fs)" using assms(1) by (auto simp: lits_def)
  have "table_map (fs_literals fs) c = Some (VInteger (of_nat i))"
    using assms(1) i pool_map_nth [of ks i] by (simp add: lits_def)
  then have "GetConstant c fs = Inr (of_nat i, fs)"
    by (simp add: GetConstant_def tbl.get_law [OF lt(2)] as_integer_def realval_def)
  moreover have "unat (of_nat i :: u64) = i"
    using i(1) lt(1) by (simp add: unat_of_nat)
  ultimately show ?thesis using i assms(1) True by (intro exI [of _ "of_nat i"] exI [of _ fs] exI [of _ ks]) auto
next
  case False
  have inv: "table_inv (fs_literals fs)" and len: "length ks < 0x7FFFFFFF"
    and n: "fs_nliterals fs = of_nat (length ks)"
    using assms False by (auto simp: lits_def)
  have get: "table_Get (\<lambda>_. VNull) (fs_literals fs) c = Some None"
    using assms(1) False pool_map_None [of ks c] by (simp add: tbl.get_law [OF inv] lits_def)
  from tbl.newslot_law [OF inv assms(2)] obtain t b where
    t: "table_NewSlot (fs_literals fs) c (VInteger (fs_nliterals fs)) = Some (t, b)" "table_inv t"
      "table_map t = (table_map (fs_literals fs))(c \<mapsto> VInteger (fs_nliterals fs))" by blast
  let ?fs = "fs\<lparr>fs_literals := t, fs_nliterals := fs_nliterals fs + 1\<rparr>"
  have "GetConstant c fs = Inr (of_nat (length ks), ?fs)"
    using get t(1) n MAX_LITERALS_iff [OF len] by (simp add: GetConstant_def)
  moreover have "lits ?fs (ks @ [c])"
    using assms(1,2) t False len by (simp add: lits_def pool_map_append add.commute)
  moreover have "unat (of_nat (length ks) :: u64) = length ks"
    using len by (simp add: unat_of_nat)
  ultimately show ?thesis
    by (intro exI [of _ "of_nat (length ks)"] exI [of _ ?fs] exI [of _ "ks @ [c]"]) auto
qed

text \<open>The constants of a function, requested one after the other.\<close>

fun get_constants :: "sqobject list \<Rightarrow> funcstate \<Rightarrow> fs_error + (i64 list \<times> funcstate)" where
  "get_constants [] fs = Inr ([], fs)"
| "get_constants (c # cs) fs =
     bindE (GetConstant c fs) (\<lambda>(i, fs). bindE (get_constants cs fs) (\<lambda>(is, fs). Inr (i # is, fs)))"

lemma get_constants_ok:
  assumes "lits fs ks" "VNull \<notin> set cs" "length ks + length cs \<le> 0x7FFFFFFF"
  shows "\<exists>is fs' ks'. get_constants cs fs = Inr (is, fs') \<and> lits fs' ks' \<and>
     set ks' = set ks \<union> set cs \<and> take (length ks) ks' = ks \<and>
     list_all2 (\<lambda>i c. unat i < length ks' \<and> ks' ! unat i = c) is cs"
  using assms
proof (induction cs arbitrary: fs ks)
  case Nil
  then show ?case by auto
next
  case (Cons c cs)
  from GetConstant_ok [OF Cons.prems(1), of c] Cons.prems(2,3) obtain i fs1 ks1 where
    1: "GetConstant c fs = Inr (i, fs1)" "lits fs1 ks1" "unat i < length ks1" "ks1 ! unat i = c"
      "set ks1 = insert c (set ks)" "take (length ks) ks1 = ks" by auto
  have "distinct ks1" "distinct ks" using 1(2) Cons.prems(1) by (auto simp: lits_def)
  then have "length ks1 \<le> Suc (length ks)"
    using arg_cong [OF 1(5), of card] card_insert_le_m1 distinct_card
    by (metis card_insert_if le_SucI le_refl order_refl finite_set)
  with Cons.IH [OF 1(2)] Cons.prems(2,3) obtain "is" fs2 ks2 where
    2: "get_constants cs fs1 = Inr (is, fs2)" "lits fs2 ks2" "set ks2 = set ks1 \<union> set cs"
      "take (length ks1) ks2 = ks1"
      "list_all2 (\<lambda>i c. unat i < length ks2 \<and> ks2 ! unat i = c) is cs" by auto
  have pre: "length ks1 \<le> length ks2" using 2(4) by (metis length_take min.cobounded1 min.commute)
  have "ks2 ! unat i = c" using 1(3,4) 2(4) by (metis nth_take)
  moreover have "take (length ks) ks2 = ks"
    using 1(6) 2(4) by (metis min.absorb_iff1 take_take length_take min.cobounded2 min.commute)
  ultimately show ?case
    using 1 2 pre by (intro exI [of _ "i # is"] exI [of _ fs2] exI [of _ ks2]) auto
qed

lemma store_literals_ok:
  assumes "\<forall>kv \<in> set kvs. \<exists>i. snd kv = VInteger i \<and> unat i < length ls"
    and "distinct (map snd kvs)"
  shows "\<exists>ls'. store_literals ls kvs = Inr ls' \<and> length ls' = length ls \<and>
     (\<forall>k i. (k, VInteger i) \<in> set kvs \<longrightarrow> ls' ! unat i = k) \<and>
     (\<forall>j. VInteger (of_nat j) \<notin> snd ` set kvs \<longrightarrow> j < length ls \<longrightarrow> ls' ! j = ls ! j)"
  using assms
proof (induction kvs arbitrary: ls)
  case Nil
  then show ?case by simp
next
  case (Cons kv kvs)
  obtain k v where kv: "kv = (k, v)" by force
  from Cons.prems(1) kv obtain i where i: "v = VInteger i" "unat i < length ls" by auto
  have "\<forall>kv \<in> set kvs. \<exists>j. snd kv = VInteger j \<and> unat j < length (ls[unat i := k])"
    using Cons.prems(1) by auto
  from Cons.IH [OF this] Cons.prems(2) kv obtain ls' where
    ls': "store_literals (ls[unat i := k]) kvs = Inr ls'" "length ls' = length ls"
      "\<forall>k i. (k, VInteger i) \<in> set kvs \<longrightarrow> ls' ! unat i = k"
      "\<forall>j. VInteger (of_nat j) \<notin> snd ` set kvs \<longrightarrow> j < length ls \<longrightarrow> ls' ! j = ls[unat i := k] ! j"
    by auto
  have "VInteger i \<notin> snd ` set kvs" using Cons.prems(2) kv i by auto
  then have "ls' ! unat i = k" using ls'(4) [rule_format, of "unat i"] i(2) by simp
  then show ?case
    using ls' i kv by (auto simp: as_integer_def nth_list_update)
qed

lemma pool_map_inverse:
  "distinct ks \<Longrightarrow> length ks \<le> 0x7FFFFFFF \<Longrightarrow> pool_map ks k = Some v \<longleftrightarrow>
     (\<exists>i < length ks. ks ! i = k \<and> v = VInteger (of_nat i))"
  using pool_map_nth [of ks] pool_map_None [of ks k] by (auto simp: in_set_conv_nth nth_eq_iff_index_eq)

lemma BuildProto_literals:
  assumes "lits fs ks"
  shows "\<exists>p. BuildProto fs = Inr p \<and> fp_literals p = ks"
proof -
  let ?es = "entries (tb_nodes (fs_literals fs))"
  have inv: "table_inv (fs_literals fs)" and d: "distinct ks" and len: "length ks \<le> 0x7FFFFFFF"
    and tm: "map_of ?es = pool_map ks" and n: "fs_nliterals fs = of_nat (length ks)"
    using assms by (auto simp: lits_def table_map_def)
  have dk: "distinct (map fst ?es)" using table_inv_parts(4) [OF inv] by (simp add: distinct_keys_def)
  have es: "(k, v) \<in> set ?es \<longleftrightarrow> (\<exists>i < length ks. ks ! i = k \<and> v = VInteger (of_nat i))" for k v
    using pool_map_inverse [OF d len, of k v] tm map_of_eq_Some_iff [OF dk] by metis
  have un: "unat (of_nat i :: u64) = i" if "i < length ks" for i
    using that len by (simp add: unat_of_nat)
  have vals: "\<forall>kv \<in> set ?es. \<exists>i. snd kv = VInteger i \<and> unat i < length (replicate (length ks) VNull)"
    using es un by fastforce
  have "inj_on snd (set ?es)"
  proof (rule inj_onI)
    fix x y
    assume xy: "x \<in> set ?es" "y \<in> set ?es" "snd x = snd y"
    from xy(1,2) es [of "fst x" "snd x"] es [of "fst y" "snd y"] obtain i j where
      "i < length ks" "ks ! i = fst x" "snd x = VInteger (of_nat i)"
      "j < length ks" "ks ! j = fst y" "snd y = VInteger (of_nat j)" by auto
    with xy(3) un [of i] un [of j] show "x = y" by (metis prod.collapse sqobject.inject(1))
  qed
  then have ds: "distinct (map snd ?es)" using dk by (simp add: distinct_map)
  have it: "iterate (\<lambda>_. VNull) False (fs_literals fs) 0 = ?es"
    using vals by (simp add: iterate_ok) (rule map_idI, auto simp: realval_def)
  from store_literals_ok [OF vals ds] obtain ls where
    ls: "store_literals (replicate (length ks) VNull) ?es = Inr ls" "length ls = length ks"
      "\<forall>k i. (k, VInteger i) \<in> set ?es \<longrightarrow> ls ! unat i = k" by auto
  have "ls ! i = ks ! i" if "i < length ks" for i
    using ls(3) es un [OF that] that by metis
  then have "ls = ks" using ls(2) by (simp add: nth_equalityI)
  moreover have "unat (fs_nliterals fs) = length ks" using n len by (simp add: unat_of_nat)
  ultimately show ?thesis using ls(1) it by (simp add: BuildProto_def)
qed

text \<open>
  C27. The literal pool is sound: for any sequence of constants, \<open>GetConstant\<close> returns
  indices such that the literal array of the prototype that \<open>BuildProto\<close> makes holds each
  constant at its index, every distinct constant is stored once, and no assertion or bound
  fails.\<close>

theorem literal_pool_sound:
  assumes "VNull \<notin> set cs" "length cs \<le> 0x7FFFFFFF"
  shows "\<exists>is fs p. get_constants cs (funcstate_new parent) = Inr (is, fs) \<and> BuildProto fs = Inr p \<and>
     map (\<lambda>i. fp_literals p ! unat i) is = cs \<and>
     distinct (fp_literals p) \<and> set (fp_literals p) = set cs"
proof -
  from get_constants_ok [OF lits_new, of cs parent] assms obtain "is" fs ks where
    1: "get_constants cs (funcstate_new parent) = Inr (is, fs)" "lits fs ks" "set ks = set cs"
      "list_all2 (\<lambda>i c. unat i < length ks \<and> ks ! unat i = c) is cs" by auto
  from BuildProto_literals [OF 1(2)] obtain p where p: "BuildProto fs = Inr p" "fp_literals p = ks" by blast
  have "map (\<lambda>i. ks ! unat i) is = cs"
    using 1(4) by (auto simp: list_all2_conv_all_nth intro!: nth_equalityI)
  with 1 p show ?thesis by (auto simp: lits_def)
qed

theorem literal_pool_sound_witness:
  "\<exists>is fs p. get_constants [VString ''a'', VInteger 7, VString ''a''] (funcstate_new False) = Inr (is, fs) \<and>
     BuildProto fs = Inr p \<and>
     map (\<lambda>i. fp_literals p ! unat i) is = [VString ''a'', VInteger 7, VString ''a'']"
  using literal_pool_sound [of "[VString ''a'', VInteger 7, VString ''a'']" False] by auto

section \<open>Captured variables\<close>

text \<open>
  The outer variables of a function refer to a local of the enclosing function, or to an
  outer variable of it, with the same name; the outermost function has none.
\<close>

definition outer_ok :: "funcstate \<Rightarrow> outervar \<Rightarrow> bool" where
  "outer_ok parent ov \<longleftrightarrow> (\<exists>pos. ov_src ov = VInteger pos \<and>
     (case ov_type ov of
        otLOCAL \<Rightarrow> unat pos < length (fs_vlocals parent) \<and> lv_name (fs_vlocals parent ! unat pos) = ov_name ov
      | otOUTER \<Rightarrow> unat pos < length (fs_outervalues parent) \<and>
                   ov_name (fs_outervalues parent ! unat pos) = ov_name ov))"

fun chain_ok :: "funcstate list \<Rightarrow> bool" where
  "chain_ok [] = True"
| "chain_ok [fs] \<longleftrightarrow> fs_outervalues fs = []"
| "chain_ok (fs # parent # rest) \<longleftrightarrow>
     (\<forall>ov \<in> set (fs_outervalues fs). outer_ok parent ov) \<and> chain_ok (parent # rest)"

definition has_local :: "string \<Rightarrow> funcstate \<Rightarrow> bool" where
  "has_local name fs \<longleftrightarrow> VString name \<in> lv_name ` set (fs_vlocals fs)"

definition has_outer :: "string \<Rightarrow> funcstate \<Rightarrow> bool" where
  "has_outer name fs \<longleftrightarrow> VString name \<in> ov_name ` set (fs_outervalues fs)"

fun visible_outside :: "string \<Rightarrow> funcstate list \<Rightarrow> bool" where
  "visible_outside name [] = False"
| "visible_outside name [fs] = has_outer name fs"
| "visible_outside name (fs # parent # rest) \<longleftrightarrow>
     has_outer name fs \<or> has_local name parent \<or> visible_outside name (parent # rest)"

definition small_state :: "funcstate \<Rightarrow> bool" where
  "small_state fs \<longleftrightarrow> length (fs_vlocals fs) < 2 ^ 63 \<and> length (fs_outervalues fs) < 2 ^ 63"

lemma of_nat_index: "k < 2 ^ 63 \<Longrightarrow> unat (of_nat k :: i64) = k \<and> (of_nat k :: i64) \<noteq> - 1"
proof
  assume k: "k < 2 ^ 63"
  show u: "unat (of_nat k :: i64) = k" using k by (simp add: unat_of_nat)
  have "unat (- 1 :: i64) = mask 64" by (simp add: unsigned_minus_1_eq_mask)
  also have "\<dots> = 2 ^ 64 - 1" by (simp only: mask_eq_exp_minus_1)
  finally show "(of_nat k :: i64) \<noteq> - 1" using u k by auto
qed

lemma find_local_result:
  assumes "k \<le> length vl" "k < 2 ^ 63"
  shows "(find_local vl name k = - 1 \<longleftrightarrow> VString name \<notin> lv_name ` set (take k vl)) \<and>
     (find_local vl name k \<noteq> - 1 \<longrightarrow>
        unat (find_local vl name k) < k \<and> lv_name (vl ! unat (find_local vl name k)) = VString name)"
  using assms
proof (induction k)
  case 0
  then show ?case by simp
next
  case (Suc k)
  have "take (Suc k) vl = take k vl @ [vl ! k]" using Suc.prems(1) by (simp add: take_Suc_conv_app_nth)
  with Suc.IH Suc.prems of_nat_index [of k] show ?case
    by (cases "lv_name (vl ! k) = VString name") auto
qed

lemma GetLocalVariable_result:
  assumes "small_state fs"
  shows "GetLocalVariable name fs = - 1 \<longleftrightarrow> \<not> has_local name fs"
    and "GetLocalVariable name fs \<noteq> - 1 \<Longrightarrow> unat (GetLocalVariable name fs) < length (fs_vlocals fs) \<and>
       lv_name (fs_vlocals fs ! unat (GetLocalVariable name fs)) = VString name"
  using find_local_result [of "length (fs_vlocals fs)" "fs_vlocals fs" name] assms
  by (auto simp: GetLocalVariable_def has_local_def small_state_def)

lemma find_outer_result:
  "case find_outer ovs name i of
     None \<Rightarrow> VString name \<notin> ov_name ` set ovs
   | Some j \<Rightarrow> i \<le> j \<and> j - i < length ovs \<and> ov_name (ovs ! (j - i)) = VString name"
proof (induction ovs arbitrary: i)
  case Nil
  then show ?case by simp
next
  case (Cons ov ovs)
  show ?case
    using Cons [of "i + 1"] by (auto split: option.splits simp: nth_Cons' Suc_diff_le)
qed

lemma mark_names:
  "lv_name (fs_vlocals (MarkLocalAsOuter pos fs) ! j) = lv_name (fs_vlocals fs ! j)"
  "length (fs_vlocals (MarkLocalAsOuter pos fs)) = length (fs_vlocals fs)"
  "fs_outervalues (MarkLocalAsOuter pos fs) = fs_outervalues fs"
proof -
  show "lv_name (fs_vlocals (MarkLocalAsOuter pos fs) ! j) = lv_name (fs_vlocals fs ! j)"
  proof (cases "j = unat pos \<and> j < length (fs_vlocals fs)")
    case True
    then show ?thesis by (simp add: MarkLocalAsOuter_def)
  next
    case False
    then show ?thesis
      by (cases "unat pos < length (fs_vlocals fs)") (auto simp: MarkLocalAsOuter_def list_update_beyond)
  qed
qed (simp_all add: MarkLocalAsOuter_def)

lemma outer_ok_Mark: "outer_ok (MarkLocalAsOuter pos parent) ov = outer_ok parent ov"
  by (cases "ov_type ov") (simp_all add: outer_ok_def mark_names)

lemma outer_ok_mono:
  assumes "outer_ok parent ov" "map lv_name (fs_vlocals p') = map lv_name (fs_vlocals parent)"
    "take (length (fs_outervalues parent)) (fs_outervalues p') = fs_outervalues parent"
  shows "outer_ok p' ov"
proof -
  have l: "length (fs_vlocals p') = length (fs_vlocals parent)" using assms(2) by (metis length_map)
  have n: "lv_name (fs_vlocals p' ! k) = lv_name (fs_vlocals parent ! k)" if "k < length (fs_vlocals parent)" for k
    using assms(2) l that by (metis nth_map)
  have o: "k < length (fs_outervalues p') \<and> fs_outervalues p' ! k = fs_outervalues parent ! k"
    if "k < length (fs_outervalues parent)" for k
    using assms(3) that by (metis length_take min_less_iff_conj nth_take)
  show ?thesis using assms(1) l n o by (cases "ov_type ov") (auto simp: outer_ok_def)
qed

lemma GetOuterVariable_Cons:
  "\<exists>pos fs' parents'. GetOuterVariable name (fs # parents) = (pos, fs' # parents')"
  unfolding GetOuterVariable.simps(2) push_outer_def Let_def
  by (auto split: option.split list.split prod.split simp del: GetOuterVariable.simps)

lemma chain_ok_replace:
  "chain_ok (p # rest) \<Longrightarrow> fs_outervalues p' = fs_outervalues p \<Longrightarrow> chain_ok (p' # rest)"
  by (cases rest) auto

text \<open>
  C28. Captured variables are resolved correctly. If every outer variable of the functions
  being compiled refers to a variable of the same name in the enclosing function, this
  still holds after \<open>GetOuterVariable\<close>; the result is -1 exactly when no enclosing
  function has a local, and the function itself no outer variable, of that name; otherwise
  the result is the index of an outer variable of that name, the outer variables known
  before keep their indices, and the locals keep their names and registers.\<close>

theorem outer_variable_resolution:
  assumes "chain_ok (fs # parents)" "\<forall>x \<in> set (fs # parents). small_state x"
    and "GetOuterVariable name (fs # parents) = (pos, fs' # parents')"
  shows "chain_ok (fs' # parents') \<and>
     (pos = - 1 \<longleftrightarrow> \<not> visible_outside name (fs # parents)) \<and>
     (pos \<noteq> - 1 \<longrightarrow> unat pos < length (fs_outervalues fs') \<and>
        ov_name (fs_outervalues fs' ! unat pos) = VString name) \<and>
     take (length (fs_outervalues fs)) (fs_outervalues fs') = fs_outervalues fs \<and>
     map (\<lambda>x. map lv_name (fs_vlocals x)) (fs' # parents') =
     map (\<lambda>x. map lv_name (fs_vlocals x)) (fs # parents)"
  using assms
proof (induction parents arbitrary: fs fs' parents' pos)
  case Nil
  then show ?case
    by (auto simp: has_outer_def)
next
  case (Cons parent rest)
  show ?case
  proof (cases "find_outer (fs_outervalues fs) name 0")
    case (Some i)
    then have i: "i < length (fs_outervalues fs)" "ov_name (fs_outervalues fs ! i) = VString name"
      using find_outer_result [where ovs = "fs_outervalues fs" and name = name and i = 0] by auto
    have "i < 2 ^ 63" using i(1) Cons.prems(2) by (auto simp: small_state_def)
    note oi = of_nat_index [OF this]
    have "has_outer name fs" using i by (metis has_outer_def image_eqI nth_mem)
    with Some i oi Cons.prems show ?thesis by auto
  next
    case None
    have no: "\<not> has_outer name fs"
      using None find_outer_result [where ovs = "fs_outervalues fs" and name = name and i = 0] by (simp add: has_outer_def)
    have sm: "small_state fs" "small_state parent" "\<forall>x \<in> set (parent # rest). small_state x"
      using Cons.prems(2) by auto
    note lv = GetLocalVariable_result [OF sm(2), of name]
    have len: "length (fs_outervalues fs) < 2 ^ 63" using sm(1) by (simp add: small_state_def)
    note ol = of_nat_index [OF len]
    show ?thesis
    proof (cases "GetLocalVariable name parent = - 1")
      case False
      then have r: "pos = of_nat (length (fs_outervalues fs))"
          "fs' = snd (push_outer name (GetLocalVariable name parent) otLOCAL fs)"
          "parents' = MarkLocalAsOuter (GetLocalVariable name parent) parent # rest"
        using Cons.prems(3) None by (auto simp: push_outer_def Let_def)
      have loc: "has_local name parent" using lv(1) False by simp
      have "outer_ok parent \<lparr>ov_type = otLOCAL, ov_name = VString name,
          ov_src = VInteger (GetLocalVariable name parent)\<rparr>"
        using lv(2) [OF False] by (simp add: outer_ok_def)
      moreover have "map lv_name (fs_vlocals (MarkLocalAsOuter p parent)) = map lv_name (fs_vlocals parent)" for p
        by (auto simp: mark_names intro!: nth_equalityI)
      ultimately show ?thesis
        using Cons.prems(1) r loc ol
        by (auto simp: outer_ok_Mark push_outer_def mark_names intro: chain_ok_replace [of parent])
    next
      case True
      obtain pos1 p1 rest1 where g: "GetOuterVariable name (parent # rest) = (pos1, p1 # rest1)"
        using GetOuterVariable_Cons by metis
      have ch: "chain_ok (parent # rest)" and ovs: "\<forall>ov \<in> set (fs_outervalues fs). outer_ok parent ov"
        using Cons.prems(1) by auto
      note ih = Cons.IH [OF ch sm(3) g]
      have ovs1: "\<forall>ov \<in> set (fs_outervalues fs). outer_ok p1 ov"
        using ovs ih outer_ok_mono [of parent _ p1] by simp
      have nl: "\<not> has_local name parent" using lv(1) True by simp
      show ?thesis
      proof (cases "pos1 = - 1")
        case p: True
        then have "pos = - 1" "fs' = fs" "parents' = p1 # rest1"
          using Cons.prems(3) None True g by (auto simp: Let_def)
        with ih ovs1 p nl no show ?thesis by simp
      next
        case p: False
        then have r: "pos = of_nat (length (fs_outervalues fs))"
            "fs' = snd (push_outer name pos1 otOUTER fs)" "parents' = p1 # rest1"
          using Cons.prems(3) None True g by (auto simp: Let_def push_outer_def)
        have "outer_ok p1 \<lparr>ov_type = otOUTER, ov_name = VString name, ov_src = VInteger pos1\<rparr>"
          using ih p by (simp add: outer_ok_def)
        with ih ovs1 p r ol show ?thesis by (auto simp: push_outer_def)
      qed
    qed
  qed
qed

theorem outer_variable_resolution_witness:
  "\<exists>pos fs' ps. GetOuterVariable ''x'' [funcstate_new True,
       snd (PushLocalVariable (VString ''x'') (funcstate_new False))] = (pos, fs' # ps) \<and> pos \<noteq> - 1 \<and>
     ov_name (fs_outervalues fs' ! unat pos) = VString ''x''"
proof -
  let ?p = "snd (PushLocalVariable (VString ''x'') (funcstate_new False))"
  obtain pos fs' ps where g: "GetOuterVariable ''x'' [funcstate_new True, ?p] = (pos, fs' # ps)"
    using GetOuterVariable_Cons by metis
  have "chain_ok [funcstate_new True, ?p]" "\<forall>x \<in> set [funcstate_new True, ?p]. small_state x"
    "visible_outside ''x'' [funcstate_new True, ?p]"
    by (simp_all add: funcstate_new_def PushLocalVariable_def small_state_def has_local_def Let_def)
  with outer_variable_resolution [OF _ _ g] g show ?thesis by auto
qed

section \<open>Registers\<close>

text \<open>
  The invariant of register allocation: the frame size recorded for the function covers
  all live registers, and it is at most 256.
\<close>

definition regs_inv :: "funcstate \<Rightarrow> bool" where
  "regs_inv fs \<longleftrightarrow> length (fs_vlocals fs) \<le> unat (fs_stacksize fs) \<and> unat (fs_stacksize fs) \<le> 256"

datatype reg_op = RPush i64 | RPop | RSetStack nat | RLocal string | RDeclare string | RParam string

text \<open>
  A local statement declares its variable right after it has released the register of the
  value (\<open>RLocal\<close>). The variables of \<open>foreach\<close> and \<open>catch\<close> (\<open>RDeclare\<close>) and the parameters of a
  function (\<open>RParam\<close>) are declared directly; nothing checks the number of registers then.\<close>

fun reg_step :: "reg_op \<Rightarrow> funcstate \<Rightarrow> fs_error + funcstate" where
  "reg_step (RPush n) fs = bindE (PushTarget n fs) (\<lambda>(_, fs). Inr fs)"
| "reg_step RPop fs = bindE (PopTarget fs) (\<lambda>(_, fs). Inr fs)"
| "reg_step (RSetStack n) fs = Inr (SetStackSize n fs)"
| "reg_step (RLocal s) fs =
     bindE (PushTarget (- 1) fs) (\<lambda>(_, fs). bindE (PopTarget fs) (\<lambda>(_, fs).
       Inr (snd (PushLocalVariable (VString s) fs))))"
| "reg_step (RDeclare s) fs = Inr (snd (PushLocalVariable (VString s) fs))"
| "reg_step (RParam s) fs = Inr (AddParameter (VString s) fs)"

fun reg_run :: "reg_op list \<Rightarrow> funcstate \<Rightarrow> fs_error + funcstate" where
  "reg_run [] fs = Inr fs"
| "reg_run (op # ops) fs = bindE (reg_step op fs) (reg_run ops)"

text \<open>Every variable that is declared directly finds less than 256 live registers.\<close>

definition declare_fits :: "reg_op \<Rightarrow> funcstate \<Rightarrow> bool" where
  "declare_fits op fs \<longleftrightarrow>
     (case op of RDeclare _ \<Rightarrow> length (fs_vlocals fs) < 256 | RParam _ \<Rightarrow> length (fs_vlocals fs) < 256 | _ \<Rightarrow> True)"

fun declares_fit :: "reg_op list \<Rightarrow> funcstate \<Rightarrow> bool" where
  "declares_fit [] fs \<longleftrightarrow> True"
| "declares_fit (op # ops) fs \<longleftrightarrow>
     declare_fits op fs \<and> (case reg_step op fs of Inl e \<Rightarrow> True | Inr fs' \<Rightarrow> declares_fit ops fs')"

lemma sint_nonneg: "unat (w :: i64) < 2 ^ 63 \<Longrightarrow> sint w = int (unat w)"
proof -
  assume "unat w < 2 ^ 63"
  then have "int (unat w) < 2 ^ 63" by (simp only: of_nat_less_numeral_power_cancel_iff)
  then have "uint w < 2 ^ 63" by (simp only: uint_nat)
  from sint_small [OF this] show ?thesis by (simp only: uint_nat)
qed

lemma stack_limit:
  assumes "unat (fs_stacksize fs) \<le> 256"
  shows "ucast MAX_FUNC_STACKSIZE <s fs_stacksize fs \<longleftrightarrow> 255 < unat (fs_stacksize fs)"
proof -
  have "sint (fs_stacksize fs) = int (unat (fs_stacksize fs))"
    by (intro sint_nonneg le_less_trans [OF assms]) simp
  moreover have "sint (ucast MAX_FUNC_STACKSIZE :: i64) = 255" by (simp add: MAX_FUNC_STACKSIZE_def)
  ultimately show ?thesis unfolding word_sless_alt by linarith
qed

lemma unat_small: "j \<le> 257 \<Longrightarrow> unat (of_nat j :: i64) = j"
  by (simp add: unat_of_nat)

lemma AllocStackPos_eq:
  assumes "regs_inv fs"
  shows "AllocStackPos fs =
    (let k = length (fs_vlocals fs); fs1 = fs\<lparr>fs_vlocals := fs_vlocals fs @ [empty_local]\<rparr>
     in if unat (fs_stacksize fs) = k
        then if k = 256 then Inl (FS_Error ''internal compiler error: too many locals'')
             else Inr (of_nat k, fs1\<lparr>fs_stacksize := of_nat (Suc k)\<rparr>)
        else Inr (of_nat k, fs1))"
proof -
  have inv: "length (fs_vlocals fs) \<le> unat (fs_stacksize fs)" "unat (fs_stacksize fs) \<le> 256"
    using assms by (auto simp: regs_inv_def)
  have "unat (fs_stacksize fs) < Suc (length (fs_vlocals fs)) \<longleftrightarrow>
      unat (fs_stacksize fs) = length (fs_vlocals fs)" using inv(1) by linarith
  moreover have "255 < unat (fs_stacksize fs) \<longleftrightarrow> unat (fs_stacksize fs) = 256" using inv(2) by linarith
  ultimately show ?thesis using stack_limit [OF inv(2)] by (auto simp: AllocStackPos_def Let_def)
qed

lemma AllocStackPos_ok:
  assumes "regs_inv fs" "AllocStackPos fs = Inr (n, fs')"
  shows "regs_inv fs'" "unat n = length (fs_vlocals fs)" "unat n \<le> 255"
    "fs_vlocals fs' = fs_vlocals fs @ [empty_local]" "fs_targetstack fs' = fs_targetstack fs"
proof -
  let ?k = "length (fs_vlocals fs)"
  have inv: "?k \<le> unat (fs_stacksize fs)" "unat (fs_stacksize fs) \<le> 256"
    using assms(1) by (auto simp: regs_inv_def)
  note eq = assms(2) [unfolded AllocStackPos_eq [OF assms(1)]]
  show "fs_vlocals fs' = fs_vlocals fs @ [empty_local]" "fs_targetstack fs' = fs_targetstack fs"
    using eq by (auto simp: Let_def split: if_splits)
  have k: "?k \<le> 255" "n = of_nat ?k" using eq inv by (auto simp: Let_def split: if_splits)
  show "unat n = ?k" "unat n \<le> 255" using k unat_small [of ?k] by simp_all
  show "regs_inv fs'"
  proof (cases "unat (fs_stacksize fs) = ?k")
    case True
    then have "fs' = fs\<lparr>fs_vlocals := fs_vlocals fs @ [empty_local], fs_stacksize := of_nat (Suc ?k)\<rparr>"
      using eq k by (simp add: Let_def split: if_splits)
    then show ?thesis using k unat_small [of "Suc ?k"] by (simp add: regs_inv_def)
  next
    case False
    then have "fs' = fs\<lparr>fs_vlocals := fs_vlocals fs @ [empty_local]\<rparr>"
      using eq by (simp add: Let_def)
    then show ?thesis using inv False by (simp add: regs_inv_def)
  qed
qed

lemma PushTarget_ok:
  assumes "regs_inv fs" "PushTarget m fs = Inr (n, fs')"
  shows "regs_inv fs'" "m = - 1 \<Longrightarrow> unat n \<le> 255"
proof -
  have "regs_inv fs' \<and> (m = - 1 \<longrightarrow> unat n \<le> 255)"
  proof (cases "m = - 1")
    case True
    then obtain fs0 where a: "AllocStackPos fs = Inr (n, fs0)"
        and fs': "fs' = fs0\<lparr>fs_targetstack := fs_targetstack fs0 @ [n]\<rparr>"
      using assms(2) by (auto simp: PushTarget_def bindE_Inr_iff)
    show ?thesis using AllocStackPos_ok(1,3) [OF assms(1) a] fs' by (simp add: regs_inv_def)
  next
    case False
    then have "fs' = fs\<lparr>fs_targetstack := fs_targetstack fs @ [m]\<rparr>"
      using assms(2) by (auto simp: PushTarget_def)
    with False assms(1) show ?thesis by (simp add: regs_inv_def)
  qed
  then show "regs_inv fs'" "m = - 1 \<Longrightarrow> unat n \<le> 255" by auto
qed

lemma PopTarget_ok:
  assumes "regs_inv fs" "PopTarget fs = Inr (n, fs')"
  shows "regs_inv fs'"
  using assms by (auto simp: PopTarget_def regs_inv_def Let_def split: if_splits)

lemma SetStackSize_ok: "regs_inv fs \<Longrightarrow> regs_inv (SetStackSize n fs)"
proof (induction n fs rule: SetStackSize.induct)
  case (1 n fs)
  have "regs_inv (close_local fs)"
    using 1(2) by (auto simp: close_local_def regs_inv_def Let_def intro: le_trans [OF diff_le_self])
  with 1 show ?case by (simp add: SetStackSize.simps [of n fs])
qed

lemma local_after_target:
  assumes "regs_inv fs" "PushTarget (- 1) fs = Inr (n, fs1)" "PopTarget fs1 = Inr (m, fs2)"
  shows "regs_inv (snd (PushLocalVariable name fs2))"
proof -
  obtain fs0 where a: "AllocStackPos fs = Inr (n, fs0)"
      and fs1: "fs1 = fs0\<lparr>fs_targetstack := fs_targetstack fs0 @ [n]\<rparr>"
    using assms(2) by (auto simp: PushTarget_def bindE_Inr_iff)
  note al = AllocStackPos_ok [OF assms(1) a]
  have "fs_vlocals fs1 ! unat n = empty_local" "length (fs_vlocals fs1) = Suc (unat n)"
    using fs1 al by simp_all
  then have "fs_vlocals fs2 = fs_vlocals fs \<and> fs_stacksize fs2 = fs_stacksize fs0"
    using assms(3) al fs1 by (auto simp: PopTarget_def Let_def empty_local_def split: if_splits)
  moreover have "Suc (length (fs_vlocals fs)) \<le> unat (fs_stacksize fs0)" "unat (fs_stacksize fs0) \<le> 256"
    using al by (auto simp: regs_inv_def)
  ultimately show ?thesis by (auto simp: PushLocalVariable_def Let_def regs_inv_def)
qed

lemma PushLocalVariable_ok:
  assumes "regs_inv fs" "length (fs_vlocals fs) < 256"
  shows "regs_inv (snd (PushLocalVariable name fs))"
proof -
  have "unat (of_nat (Suc (length (fs_vlocals fs))) :: i64) = Suc (length (fs_vlocals fs))"
    by (rule unat_small) (use assms(2) in simp)
  then show ?thesis using assms by (auto simp: PushLocalVariable_def regs_inv_def Let_def simp del: of_nat_Suc)
qed

lemma reg_step_ok:
  assumes "regs_inv fs" "reg_step op fs = Inr fs'" "declare_fits op fs"
  shows "regs_inv fs'"
proof (cases op)
  case (RPush m)
  then obtain n where "PushTarget m fs = Inr (n, fs')" using assms(2) by (auto simp: bindE_Inr_iff)
  then show ?thesis using PushTarget_ok(1) [OF assms(1)] by blast
next
  case RPop
  then obtain n where "PopTarget fs = Inr (n, fs')" using assms(2) by (auto simp: bindE_Inr_iff)
  then show ?thesis using PopTarget_ok [OF assms(1)] by blast
next
  case (RSetStack n)
  then have "fs' = SetStackSize n fs" using assms(2) by simp
  then show ?thesis using SetStackSize_ok [OF assms(1)] by simp
next
  case (RLocal s)
  then obtain n fs1 m fs2 where "PushTarget (- 1) fs = Inr (n, fs1)" "PopTarget fs1 = Inr (m, fs2)"
      "fs' = snd (PushLocalVariable (VString s) fs2)"
    using assms(2) by (auto simp: bindE_Inr_iff)
  then show ?thesis using local_after_target [OF assms(1)] by simp
next
  case (RDeclare s)
  then show ?thesis using assms PushLocalVariable_ok [OF assms(1)] by (auto simp: declare_fits_def)
next
  case (RParam s)
  then have "regs_inv (snd (PushLocalVariable (VString s) fs))"
    using assms(3) PushLocalVariable_ok [OF assms(1)] by (simp add: declare_fits_def)
  then show ?thesis using RParam assms(2) by (auto simp: AddParameter_def regs_inv_def Let_def)
qed

lemma reg_run_ok: "regs_inv fs \<Longrightarrow> reg_run ops fs = Inr fs' \<Longrightarrow> declares_fit ops fs \<Longrightarrow> regs_inv fs'"
proof (induction ops arbitrary: fs)
  case Nil
  then show ?case by simp
next
  case (Cons op ops)
  from Cons.prems(2) obtain fs1 where "reg_step op fs = Inr fs1" "reg_run ops fs1 = Inr fs'"
    by (auto simp: bindE_Inr_iff)
  then show ?case using Cons.IH [of fs1] reg_step_ok [OF Cons.prems(1), of op fs1] Cons.prems(3) by auto
qed

lemma regs_inv_new: "regs_inv (funcstate_new p)"
  by (simp add: regs_inv_def funcstate_new_def)

lemma push_many:
  assumes "length (fs_vlocals fs) + k \<le> 256" "fs_stacksize fs = of_nat (length (fs_vlocals fs))"
  shows "\<exists>fs'. reg_run (replicate k (RPush (- 1))) fs = Inr fs' \<and>
     length (fs_vlocals fs') = length (fs_vlocals fs) + k \<and>
     fs_stacksize fs' = of_nat (length (fs_vlocals fs) + k)"
  using assms
proof (induction k arbitrary: fs)
  case 0
  then show ?case by simp
next
  case (Suc k)
  let ?k = "length (fs_vlocals fs)"
  let ?fs = "fs\<lparr>fs_vlocals := fs_vlocals fs @ [empty_local], fs_stacksize := of_nat (Suc ?k),
      fs_targetstack := fs_targetstack fs @ [of_nat ?k]\<rparr>"
  have u: "unat (fs_stacksize fs) = ?k" using Suc.prems unat_small [of ?k] by simp
  then have "regs_inv fs" using Suc.prems(1) by (simp add: regs_inv_def)
  then have "PushTarget (- 1) fs = Inr (of_nat ?k, ?fs)"
    using u Suc.prems(1) by (simp add: PushTarget_def AllocStackPos_eq Let_def)
  with Suc.IH [of ?fs] Suc.prems show ?case by simp
qed

text \<open>
  C32. Registers fit their encoding: after any sequence of register operations of the
  compiler (targets, locals, variables of \<open>foreach\<close> and \<open>catch\<close>, parameters, ends of scopes) in
  which no parameter and no variable of \<open>foreach\<close> or \<open>catch\<close> is declared when 256 registers are
  live, the frame size covers all live registers and is at most 256, and every register
  that \<open>PushTarget\<close> allocates next fits the 8-bit operand of an instruction. The compiler
  itself checks the limit for targets and locals, which need no assumption, and not for
  the others (\<open>parameter_256_is_declared\<close>).\<close>

theorem registers_fit:
  assumes "reg_run ops (funcstate_new parent) = Inr fs" "declares_fit ops (funcstate_new parent)"
  shows "length (fs_vlocals fs) \<le> unat (fs_stacksize fs) \<and> unat (fs_stacksize fs) \<le> 256 \<and>
     (case PushTarget (- 1) fs of Inl e \<Rightarrow> True | Inr (n, _) \<Rightarrow> unat n \<le> 255)"
  using reg_run_ok [OF regs_inv_new assms] PushTarget_ok [OF reg_run_ok [OF regs_inv_new assms]]
  by (auto simp: regs_inv_def split: sum.split)

theorem registers_fit_witness:
  "\<exists>fs. reg_run [RParam ''this'', RParam ''x'', RPush (- 1), RPop, RDeclare ''e''] (funcstate_new True) = Inr fs \<and>
     length (fs_vlocals fs) \<le> unat (fs_stacksize fs)"
proof -
  let ?ops = "[RParam ''this'', RParam ''x'', RPush (- 1), RPop, RDeclare ''e'']"
  have "\<exists>fs. reg_run ?ops (funcstate_new True) = Inr fs" "declares_fit ?ops (funcstate_new True)"
    by (simp_all add: funcstate_new_def AddParameter_def PushLocalVariable_def PushTarget_def AllocStackPos_def
        PopTarget_def declare_fits_def empty_local_def Let_def MAX_FUNC_STACKSIZE_def word_sless_alt)
  then show ?thesis using registers_fit by blast
qed

text \<open>
  Without the bound on the parameters: nothing stops a function with more than 256 of them,
  and the register of the 257th is 256, whose encoding is that of register 0.\<close>

lemma declare_many:
  "\<exists>fs'. reg_run (replicate k (RParam s)) fs = Inr fs' \<and> length (fs_vlocals fs') = length (fs_vlocals fs) + k"
proof (induction k arbitrary: fs)
  case (Suc k)
  have "length (fs_vlocals (AddParameter (VString s) fs)) = Suc (length (fs_vlocals fs))"
    by (simp add: AddParameter_def PushLocalVariable_def Let_def)
  with Suc.IH [of "AddParameter (VString s) fs"] show ?case by simp
qed simp

lemma parameter_256_is_declared:
  "\<exists>fs. reg_run (replicate 256 (RParam s)) (funcstate_new parent) = Inr fs \<and>
     fst (PushLocalVariable name fs) = 256 \<and> (ucast (fst (PushLocalVariable name fs)) :: byte) = 0"
  using declare_many [of 256 s "funcstate_new parent"] by (auto simp: funcstate_new_def PushLocalVariable_def Let_def)

text \<open>
  The limit check of \<open>AllocStackPos\<close> admits one register too many: after 255 targets
  the next one is register 255, the value \<open>MAX_FUNC_STACKSIZE\<close> that the instructions use
  for "no register" (a discarded result, a return without a value).\<close>

lemma register_255_is_allocated:
  "\<exists>fs fs'. reg_run (replicate 255 (RPush (- 1))) (funcstate_new parent) = Inr fs \<and>
     PushTarget (- 1) fs = Inr (ucast MAX_FUNC_STACKSIZE, fs')"
proof -
  obtain fs where fs: "reg_run (replicate 255 (RPush (- 1))) (funcstate_new parent) = Inr fs"
      "length (fs_vlocals fs) = 255" "fs_stacksize fs = of_nat 255"
    using push_many [of "funcstate_new parent" 255] by (auto simp: funcstate_new_def)
  have "declares_fit (replicate k (RPush (- 1))) fs" for k fs
    by (induction k arbitrary: fs) (auto simp: declare_fits_def split: sum.split simp del: reg_step.simps)
  then have "regs_inv fs" using reg_run_ok [OF regs_inv_new fs(1)] by blast
  from AllocStackPos_eq [OF this] fs show ?thesis
    by (auto simp: PushTarget_def Let_def MAX_FUNC_STACKSIZE_def)
qed

end
