(* ===== verification/Sq_Arith.thy ===== *)
theory Sq_Arith
  imports Sq_Float "HOL-Library.Signed_Division"
begin

text \<open>
  The operators of the virtual machine on values, \<^verbatim>\<open>sqvm.cpp\<close>: arithmetic, bitwise
  operations, comparison, equality, truth, conversion to a string. A metamethod is a closure
  of the script or of the host: running it is an argument of the operators, a function that
  says, for the metamethod, the object and the pushed arguments, whether the delegate has
  one, and what its call yields, with its effect on the state \<open>'s\<close> of the machine.

  An operator that returns \<open>false\<close> has raised an error with \<open>Raise_Error\<close> (its message is
  the error value), or a metamethod has failed. An operation that the processor traps
  (integer division overflow), a signed sum, difference, product or negation that does not
  fit in 64 bits, which C++ leaves undefined (the library is not built with wrapping
  arithmetic), and a failed assertion are errors of their own.
\<close>

section \<open>Results\<close>

datatype metamethod =
  MT_ADD | MT_SUB | MT_MUL | MT_DIV | MT_UNM | MT_MODULO | MT_SET | MT_GET | MT_TYPEOF | MT_NEXTI
| MT_CMP | MT_CALL | MT_CLONED | MT_NEWSLOT | MT_DELSLOT | MT_TOSTRING | MT_NEWMEMBER | MT_INHERITED

datatype vm_error = Raise_Error string | MetaFailed | Trap | Overflow | Assert

datatype mm_outcome = MM_None | MM_Fail | MM_Ret sqobject

type_synonym 's mmcall = "metamethod \<Rightarrow> sqobject \<Rightarrow> sqobject list \<Rightarrow> 's \<Rightarrow> mm_outcome \<times> 's"

type_synonym 's vmop = "'s \<Rightarrow> (vm_error + sqobject) \<times> 's"

definition quoted :: "string \<Rightarrow> string" where
  "quoted s = CHR 0x27 # s @ [CHR 0x27]"

definition raise :: "string \<Rightarrow> 's \<Rightarrow> (vm_error + 'a) \<times> 's" where
  "raise msg s = (Inl (Raise_Error msg), s)"

section \<open>Bitwise operators\<close>

datatype BitWiseOP = BW_AND | BW_OR | BW_XOR | BW_SHIFTL | BW_SHIFTR | BW_USHIFTR

fun bw_code :: "BitWiseOP \<Rightarrow> byte" where
  "bw_code BW_AND = 0" | "bw_code BW_OR = 2" | "bw_code BW_XOR = 3" | "bw_code BW_SHIFTL = 4"
| "bw_code BW_SHIFTR = 5" | "bw_code BW_USHIFTR = 6"

text \<open>
  A shift by less than 0 or more than 63 is undefined in C++; the shift instructions of the
  processor use the low six bits of the count.\<close>

definition shift_count :: "i64 \<Rightarrow> nat" where
  "shift_count i = unat (i AND 0x3F)"

fun bw_int :: "BitWiseOP \<Rightarrow> i64 \<Rightarrow> i64 \<Rightarrow> i64" where
  "bw_int BW_AND i1 i2 = i1 AND i2"
| "bw_int BW_OR i1 i2 = i1 OR i2"
| "bw_int BW_XOR i1 i2 = i1 XOR i2"
| "bw_int BW_SHIFTL i1 i2 = push_bit (shift_count i2) i1"
| "bw_int BW_SHIFTR i1 i2 = signed_drop_bit (shift_count i2) i1"
| "bw_int BW_USHIFTR i1 i2 = drop_bit (shift_count i2) i1"

definition bw_decode :: "byte \<Rightarrow> BitWiseOP option" where
  "bw_decode b = List.find (\<lambda>op. bw_code op = b) [BW_AND, BW_OR, BW_XOR, BW_SHIFTL, BW_SHIFTR, BW_USHIFTR]"

definition BW_OP :: "byte \<Rightarrow> sqobject \<Rightarrow> sqobject \<Rightarrow> vm_error + sqobject" where
  "BW_OP op o1 o2 =
     (case (o1, o2) of
        (VInteger i1, VInteger i2) \<Rightarrow>
          (case bw_decode op of
             Some bop \<Rightarrow> Inr (VInteger (bw_int bop i1 i2))
           | None \<Rightarrow> Inl (Raise_Error ''internal vm error bitwise op failed''))
      | _ \<Rightarrow> Inl (Raise_Error (''bitwise op between '' @ quoted (GetTypeName o1) @ '' and '' @
                              quoted (GetTypeName o2))))"

section \<open>Conversion to a string\<close>

fun raw_pointer :: "sqobject \<Rightarrow> addr" where
  "raw_pointer (VTable a) = a" | "raw_pointer (VArray a) = a" | "raw_pointer (VUserData a) = a"
| "raw_pointer (VClosure a) = a" | "raw_pointer (VNativeClosure a) = a" | "raw_pointer (VGenerator a) = a"
| "raw_pointer (VUserPointer a) = a" | "raw_pointer (VThread a) = a" | "raw_pointer (VFuncProto a) = a"
| "raw_pointer (VClass a) = a" | "raw_pointer (VInstance a) = a" | "raw_pointer (VWeakRef a) = a"
| "raw_pointer (VOuter a) = a" | "raw_pointer (VInteger i) = i" | "raw_pointer (VBool i) = i"
| "raw_pointer (VFloat f) = ucast f" | "raw_pointer VNull = 0" | "raw_pointer (VString s) = 0"

definition object_text :: "sqobject \<Rightarrow> string" where
  "object_text ob = ''('' @ GetTypeName ob @ '' : 0x'' @ print_pointer (raw_pointer ob) @ '')''"

definition ToString :: "'s mmcall \<Rightarrow> sqobject \<Rightarrow> 's vmop" where
  "ToString mm ob s =
     (case ob of
        VString _ \<Rightarrow> (Inr ob, s)
      | VFloat f \<Rightarrow> (Inr (VString (print_float f)), s)
      | VInteger i \<Rightarrow> (Inr (VString (print_integer i)), s)
      | VBool b \<Rightarrow> (Inr (VString (if b \<noteq> 0 then ''true'' else ''false'')), s)
      | VNull \<Rightarrow> (Inr (VString ''null''), s)
      | _ \<Rightarrow>
          if is_delegable (sq_type ob)
          then (case mm MT_TOSTRING ob [ob] s of
                  (MM_Ret res, s') \<Rightarrow>
                    (if sq_type res = OT_STRING then (Inr res, s') else (Inr (VString (object_text ob)), s'))
                | (MM_Fail, s') \<Rightarrow> (Inl MetaFailed, s')
                | (MM_None, s') \<Rightarrow> (Inr (VString (object_text ob)), s'))
          else (Inr (VString (object_text ob)), s))"

definition string_val :: "sqobject \<Rightarrow> string" where
  "string_val v = (case v of VString s \<Rightarrow> s | _ \<Rightarrow> [])"

definition StringCat :: "'s mmcall \<Rightarrow> sqobject \<Rightarrow> sqobject \<Rightarrow> 's vmop" where
  "StringCat mm str obj s =
     (case ToString mm str s of
        (Inl e, s) \<Rightarrow> (Inl e, s)
      | (Inr a, s) \<Rightarrow>
          (case ToString mm obj s of
             (Inl e, s) \<Rightarrow> (Inl e, s)
           | (Inr b, s) \<Rightarrow> (Inr (VString (string_val a @ string_val b)), s)))"

definition TypeOf :: "'s mmcall \<Rightarrow> sqobject \<Rightarrow> 's vmop" where
  "TypeOf mm obj1 s =
     (if is_delegable (sq_type obj1)
      then (case mm MT_TYPEOF obj1 [obj1] s of
              (MM_Ret res, s') \<Rightarrow> (Inr res, s')
            | (MM_Fail, s') \<Rightarrow> (Inl MetaFailed, s')
            | (MM_None, s') \<Rightarrow> (Inr (VString (GetTypeName obj1)), s'))
      else (Inr (VString (GetTypeName obj1)), s))"

section \<open>Arithmetic\<close>

definition arith_mm :: "char \<Rightarrow> metamethod option" where
  "arith_mm op = map_of [(CHR ''+'', MT_ADD), (CHR ''-'', MT_SUB), (CHR ''/'', MT_DIV),
     (CHR ''*'', MT_MUL), (CHR ''%'', MT_MODULO)] op"

definition ArithMetaMethod :: "'s mmcall \<Rightarrow> char \<Rightarrow> sqobject \<Rightarrow> sqobject \<Rightarrow> 's vmop" where
  "ArithMetaMethod mm op o1 o2 s =
     (case arith_mm op of
        None \<Rightarrow> (Inl Assert, s)
      | Some m \<Rightarrow>
          (case (if is_delegable (sq_type o1) then mm m o1 [o1, o2] s else (MM_None, s)) of
             (MM_Ret res, s') \<Rightarrow> (Inr res, s')
           | (MM_Fail, s') \<Rightarrow> (Inl MetaFailed, s')
           | (MM_None, s') \<Rightarrow>
               raise (''arith op '' @ [op] @ '' on between '' @ quoted (GetTypeName o1) @ '' and '' @
                      quoted (GetTypeName o2)) s'))"

definition INT_MIN :: i64 where "INT_MIN = - 0x80000000"

text \<open>
  \<open>/\<close> and \<open>%\<close> of two 64-bit integers: the division instruction traps when the quotient
  does not fit, that is for the smallest integer divided by -1.
\<close>

definition machine_div :: "i64 \<Rightarrow> i64 \<Rightarrow> vm_error + i64" where
  "machine_div i1 i2 =
     (if i2 = 0 \<or> i1 = 0x8000000000000000 \<and> i2 = - 1 then Inl Trap
      else Inr (word_of_int (sint i1 sdiv sint i2)))"

definition machine_mod :: "i64 \<Rightarrow> i64 \<Rightarrow> vm_error + i64" where
  "machine_mod i1 i2 =
     (if i2 = 0 \<or> i1 = 0x8000000000000000 \<and> i2 = - 1 then Inl Trap
      else Inr (word_of_int (sint i1 smod sint i2)))"

text \<open>The result of a signed operation, if it can be represented.\<close>

definition signed_result :: "int \<Rightarrow> vm_error + i64" where
  "signed_result n = (if - (2 ^ 63) \<le> n \<and> n < 2 ^ 63 then Inr (word_of_int n) else Inl Overflow)"

definition arith_int :: "char \<Rightarrow> i64 \<Rightarrow> i64 \<Rightarrow> vm_error + i64" where
  "arith_int op i1 i2 =
     (if op = CHR ''+'' then signed_result (sint i1 + sint i2)
      else if op = CHR ''-'' then signed_result (sint i1 - sint i2)
      else if op = CHR ''/'' then
        if i2 = 0 then Inl (Raise_Error ''division by zero'')
        else if i2 = - 1 \<and> i1 = INT_MIN then Inl (Raise_Error ''integer overflow'')
        else machine_div i1 i2
      else if op = CHR ''*'' then signed_result (sint i1 * sint i2)
      else if op = CHR ''%'' then
        if i2 = 0 then Inl (Raise_Error ''modulo by zero'')
        else if i2 = - 1 \<and> i1 = INT_MIN then Inr 0
        else machine_mod i1 i2
      else Inr 0xDEADBEEF)"

definition arith_float :: "char \<Rightarrow> u32 \<Rightarrow> u32 \<Rightarrow> u32" where
  "arith_float op f1 f2 =
     (if op = CHR ''+'' then float_add f1 f2
      else if op = CHR ''-'' then float_sub f1 f2
      else if op = CHR ''/'' then float_div f1 f2
      else if op = CHR ''*'' then float_mul f1 f2
      else if op = CHR ''%'' then float_fmod f1 f2
      else integer_to_float 0x0F)"

definition tofloat :: "sqobject \<Rightarrow> u32" where
  "tofloat v = (case v of VInteger i \<Rightarrow> integer_to_float i | VFloat f \<Rightarrow> f | _ \<Rightarrow> 0)"

definition tointeger :: "sqobject \<Rightarrow> i64" where
  "tointeger v = (case v of VFloat f \<Rightarrow> float_to_integer f | VInteger i \<Rightarrow> i | _ \<Rightarrow> raw_pointer v)"

text \<open>The three cases of the type mask \<open>sq_type(o1)|sq_type(o2)\<close>.\<close>

definition both_numeric :: "sqobject \<Rightarrow> sqobject \<Rightarrow> bool" where
  "both_numeric o1 o2 \<longleftrightarrow> sq_isnumeric (sq_type o1) \<and> sq_isnumeric (sq_type o2)"

definition ARITH_OP :: "'s mmcall \<Rightarrow> char \<Rightarrow> sqobject \<Rightarrow> sqobject \<Rightarrow> 's vmop" where
  "ARITH_OP mm op o1 o2 s =
     (case (o1, o2) of
        (VInteger i1, VInteger i2) \<Rightarrow> (bindE (arith_int op i1 i2) (\<lambda>r. Inr (VInteger r)), s)
      | _ \<Rightarrow>
          if both_numeric o1 o2 then (Inr (VFloat (arith_float op (tofloat o1) (tofloat o2))), s)
          else if op = CHR ''+'' \<and> (sq_type o1 = OT_STRING \<or> sq_type o2 = OT_STRING)
          then StringCat mm o1 o2 s
          else ArithMetaMethod mm op o1 o2 s)"

text \<open>The macros of the interpreter loop: \<open>_ARITH_\<close> and \<open>_ARITH_NOZERO\<close>.\<close>

definition arith_macro_int :: "char \<Rightarrow> i64 \<Rightarrow> i64 \<Rightarrow> vm_error + i64" where
  "arith_macro_int op i1 i2 =
     (if op = CHR ''+'' then signed_result (sint i1 + sint i2)
      else if op = CHR ''-'' then signed_result (sint i1 - sint i2)
      else signed_result (sint i1 * sint i2))"

definition ARITH_macro :: "'s mmcall \<Rightarrow> char \<Rightarrow> sqobject \<Rightarrow> sqobject \<Rightarrow> 's vmop" where
  "ARITH_macro mm op o1 o2 s =
     (case (o1, o2) of
        (VInteger i1, VInteger i2) \<Rightarrow> (bindE (arith_macro_int op i1 i2) (\<lambda>r. Inr (VInteger r)), s)
      | _ \<Rightarrow>
          if both_numeric o1 o2 then (Inr (VFloat (arith_float op (tofloat o1) (tofloat o2))), s)
          else ARITH_OP mm op o1 o2 s)"

definition ARITH_NOZERO :: "'s mmcall \<Rightarrow> sqobject \<Rightarrow> sqobject \<Rightarrow> string \<Rightarrow> 's vmop" where
  "ARITH_NOZERO mm o1 o2 err s =
     (case (o1, o2) of
        (VInteger i1, VInteger i2) \<Rightarrow>
          if i2 = 0 then raise err s else (bindE (machine_div i1 i2) (\<lambda>r. Inr (VInteger r)), s)
      | _ \<Rightarrow>
          if both_numeric o1 o2 then (Inr (VFloat (float_div (tofloat o1) (tofloat o2))), s)
          else ARITH_OP mm CHR ''/'' o1 o2 s)"

definition NEG_OP :: "'s mmcall \<Rightarrow> sqobject \<Rightarrow> 's vmop" where
  "NEG_OP mm ob s =
     (case ob of
        VInteger i \<Rightarrow> (bindE (signed_result (- sint i)) (\<lambda>r. Inr (VInteger r)), s)
      | VFloat f \<Rightarrow> (Inr (VFloat (float_neg f)), s)
      | _ \<Rightarrow>
          (case (if is_delegable (sq_type ob) then mm MT_UNM ob [ob] s else (MM_None, s)) of
             (MM_Ret res, s') \<Rightarrow> (Inr res, s')
           | (MM_Fail, s') \<Rightarrow> (Inl MetaFailed, s')
           | (MM_None, s') \<Rightarrow> raise (''attempt to negate a '' @ GetTypeName ob) s'))"

section \<open>Comparison\<close>

text \<open>\<open>strcmp\<close>: the difference of the first two bytes that differ, read as unsigned.\<close>

fun strcmp_bytes :: "string \<Rightarrow> string \<Rightarrow> int" where
  "strcmp_bytes [] [] = 0"
| "strcmp_bytes [] (b # bs) = - of_char b"
| "strcmp_bytes (a # as) [] = of_char a"
| "strcmp_bytes (a # as) (b # bs) =
     (if a = b then strcmp_bytes as bs else of_char a - of_char b)"

definition zstring :: "string \<Rightarrow> string" where
  "zstring s = takeWhile (\<lambda>c. c \<noteq> CHR 0x00) s"

definition scstrcmp :: "string \<Rightarrow> string \<Rightarrow> int" where
  "scstrcmp a b = strcmp_bytes (zstring a) (zstring b)"

text \<open>
  \<open>PrintObjVal\<close> and \<open>Raise_CompareError\<close> of \<^verbatim>\<open>sqdebug.cpp\<close>. The message is cut at
  fifty characters of each operand, and fits the buffer of \<open>Raise_Error\<close>.
\<close>

definition PrintObjVal :: "sqobject \<Rightarrow> string" where
  "PrintObjVal ob =
     (case ob of VString s \<Rightarrow> s | VInteger i \<Rightarrow> print_integer i | VFloat f \<Rightarrow> print_g 14 f
      | _ \<Rightarrow> GetTypeName ob)"

definition Raise_CompareError :: "sqobject \<Rightarrow> sqobject \<Rightarrow> vm_error" where
  "Raise_CompareError o1 o2 =
     Raise_Error (''comparison between '' @ quoted (take 50 (zstring (PrintObjVal o1))) @ '' and '' @
                  quoted (take 50 (zstring (PrintObjVal o2))))"

definition Raise_IdxError :: "sqobject \<Rightarrow> vm_error" where
  "Raise_IdxError ob =
     Raise_Error (''the index '' @ quoted (take 50 (zstring (PrintObjVal ob))) @ '' does not exist'')"

definition cmp_pointer :: "sqobject \<Rightarrow> sqobject \<Rightarrow> i64" where
  "cmp_pointer o1 o2 = (if raw_pointer o1 < raw_pointer o2 then - 1 else 1)"

definition cmp_float :: "u32 \<Rightarrow> u32 \<Rightarrow> i64" where
  "cmp_float f1 f2 = (if float_eq f1 f2 then 0 else if float_lt f1 f2 then - 1 else 1)"

definition cmp_same :: "'s mmcall \<Rightarrow> sqobject \<Rightarrow> sqobject \<Rightarrow> 's \<Rightarrow> (vm_error + i64) \<times> 's" where
  "cmp_same mm o1 o2 s =
     (case (o1, o2) of
        (VString a, VString b) \<Rightarrow> (Inr (word_of_int (scstrcmp a b)), s)
      | (VInteger a, VInteger b) \<Rightarrow> (Inr (if a <s b then - 1 else 1), s)
      | (VFloat a, VFloat b) \<Rightarrow> (Inr (if float_lt a b then - 1 else 1), s)
      | _ \<Rightarrow>
          if is_delegable (sq_type o1)
          then (case mm MT_CMP o1 [o1, o2] s of
                  (MM_Ret (VInteger i), s') \<Rightarrow> (Inr i, s')
                | (MM_Ret _, s') \<Rightarrow> raise ''_cmp must return an integer'' s'
                | (MM_Fail, s') \<Rightarrow> (Inl MetaFailed, s')
                | (MM_None, s') \<Rightarrow> (Inr (cmp_pointer o1 o2), s'))
          else (Inr (cmp_pointer o1 o2), s))"

definition ObjCmp ::
    "'s mmcall \<Rightarrow> sqobject \<Rightarrow> sqobject \<Rightarrow> 's \<Rightarrow> (vm_error + i64) \<times> 's" where
  "ObjCmp mm o1 o2 s =
     (if sq_type o1 = sq_type o2
      then if o1 = o2 then (Inr 0, s) else cmp_same mm o1 o2 s
      else if both_numeric o1 o2 then (Inr (cmp_float (tofloat o1) (tofloat o2)), s)
      else if o1 = VNull then (Inr (- 1), s)
      else if o2 = VNull then (Inr 1, s)
      else (Inl (Raise_CompareError o1 o2), s))"

datatype CmpOP = CMP_G | CMP_GE | CMP_L | CMP_LE | CMP_3W

definition sqbool :: "bool \<Rightarrow> sqobject" where
  "sqbool b = VBool (if b then 1 else 0)"

fun cmp_result :: "CmpOP \<Rightarrow> i64 \<Rightarrow> sqobject" where
  "cmp_result CMP_G r = sqbool (0 <s r)"
| "cmp_result CMP_GE r = sqbool (0 <=s r)"
| "cmp_result CMP_L r = sqbool (r <s 0)"
| "cmp_result CMP_LE r = sqbool (r <=s 0)"
| "cmp_result CMP_3W r = VInteger r"

definition CMP_OP ::
    "'s mmcall \<Rightarrow> CmpOP \<Rightarrow> sqobject \<Rightarrow> sqobject \<Rightarrow> 's vmop" where
  "CMP_OP mm op o1 o2 s =
     (case ObjCmp mm o1 o2 s of
        (Inl e, s') \<Rightarrow> (Inl e, s')
      | (Inr r, s') \<Rightarrow> (Inr (cmp_result op r), s'))"

section \<open>Equality and truth\<close>

definition IsEqual :: "sqobject \<Rightarrow> sqobject \<Rightarrow> bool" where
  "IsEqual o1 o2 \<longleftrightarrow>
     (if sq_type o1 = sq_type o2
      then (case (o1, o2) of (VFloat a, VFloat b) \<Rightarrow> float_eq a b | _ \<Rightarrow> o1 = o2)
      else if both_numeric o1 o2 then float_eq (tofloat o1) (tofloat o2)
      else False)"

definition IsFalse :: "sqobject \<Rightarrow> bool" where
  "IsFalse ob \<longleftrightarrow>
     (case ob of VFloat f \<Rightarrow> float_eq f 0 | VString _ \<Rightarrow> False | _ \<Rightarrow> raw_pointer ob = 0)"

text \<open>\<open>PLOCAL_INC\<close>: the new value of the variable; the target gets the old one.\<close>

definition PLOCAL_INC :: "'s mmcall \<Rightarrow> char \<Rightarrow> sqobject \<Rightarrow> sqobject \<Rightarrow> 's \<Rightarrow>
    (vm_error + (sqobject \<times> sqobject)) \<times> 's" where
  "PLOCAL_INC mm op a incr s =
     (case ARITH_OP mm op a incr s of
        (Inl e, s') \<Rightarrow> (Inl e, s')
      | (Inr trg, s') \<Rightarrow> (Inr (a, trg), s'))"

end
