(* ===== verification/Sq_Arith_Correct.thy ===== *)
theory Sq_Arith_Correct
  imports Sq_Arith
begin

text \<open>
  The operators of the virtual machine against the mathematical operations: the law of
  division, shifts as multiplications and
  divisions by powers of two, comparison against the order of the integers and the
  lexicographic order of strings; and the cases where the code departs from them.
\<close>

section \<open>Type masks\<close>

text \<open>
  The switch on \<open>sq_type(o1)|sq_type(o2)\<close> selects by the types of both operands: the
  mask is the integer tag only for two integers, one of the two float masks only for two
  numbers of which one is a float, and has the string bit only when an operand is a string.
\<close>

lemma tmask_integer: "type_code s OR type_code t = type_code OT_INTEGER \<longleftrightarrow> s = OT_INTEGER \<and> t = OT_INTEGER"
  by (cases s; cases t; simp add: flag_defs)

lemma tmask_float:
  "type_code s OR type_code t \<in> {type_code OT_FLOAT, type_code OT_FLOAT OR type_code OT_INTEGER} \<longleftrightarrow>
     sq_isnumeric s \<and> sq_isnumeric t \<and> (s = OT_FLOAT \<or> t = OT_FLOAT)"
  by (cases s; cases t; simp add: flag_defs sq_isnumeric_def)

lemma tmask_string:
  "(type_code s OR type_code t) AND raw_type OT_STRING \<noteq> 0 \<longleftrightarrow> s = OT_STRING \<or> t = OT_STRING"
  by (cases s; cases t; simp add: flag_defs)

section \<open>Signed arithmetic\<close>

lemma sint_bounds: "- (2 ^ 63) \<le> sint (w :: i64)" "sint (w :: i64) < 2 ^ 63"
  using sint_greater_eq [of w] sint_less [of w] by simp_all

lemma sint_of_int_fits: "- (2 ^ 63) \<le> n \<Longrightarrow> n < 2 ^ 63 \<Longrightarrow> sint (word_of_int n :: i64) = n"
  by (simp add: signed_of_int signed_take_bit_int_eq_self)

lemma sint_eq_iff: "sint (v :: i64) = sint w \<longleftrightarrow> v = w"
  by (auto intro: signed_word_eqI)

lemma sint_eq_0: "sint (w :: i64) = 0 \<longleftrightarrow> w = 0"
  by (metis sint_0 sint_eq_iff)

lemma sint_eq_m1: "sint (w :: i64) = - 1 \<longleftrightarrow> w = - 1"
  by (metis sint_n1 sint_eq_iff)

lemma sint_smallest: "sint (0x8000000000000000 :: i64) = - (2 ^ 63)"
  by simp

lemma sint_eq_smallest: "sint (w :: i64) = - (2 ^ 63) \<longleftrightarrow> w = 0x8000000000000000"
  by (metis sint_smallest sint_eq_iff)

lemma sdiv_fits:
  assumes "i1 \<noteq> 0x8000000000000000 \<or> i2 \<noteq> (- 1 :: i64)"
  shows "sint (word_of_int (sint (i1 :: i64) sdiv sint i2) :: i64) = sint i1 sdiv sint i2"
proof (rule sint_of_int_fits)
  let ?q = "sint i1 sdiv sint i2"
  have r: "- \<bar>sint i1\<bar> \<le> ?q" "?q \<le> \<bar>sint i1\<bar>" using sdiv_int_range [of "sint i1" "sint i2"] by auto
  show "- (2 ^ 63) \<le> ?q" using r(1) sint_bounds [of i1] by linarith
  have "?q \<noteq> 2 ^ 63"
  proof
    assume q: "?q = 2 ^ 63"
    then have a: "sint i1 = - (2 ^ 63)" using r(2) sint_bounds [of i1] by linarith
    then have "?q = - sint i1" using q by simp
    then have "sint i2 = - 1" using int_sdiv_negated_is_minus1 [of "sint i1" "sint i2"] a by simp
    then show False using a assms by (simp add: sint_eq_m1 sint_eq_smallest del: power_numeral)
  qed
  then show "?q < 2 ^ 63" using r(2) sint_bounds [of i1] by linarith
qed

lemma smod_fits:
  assumes "(i2 :: i64) \<noteq> 0"
  shows "sint (word_of_int (sint (i1 :: i64) smod sint i2) :: i64) = sint i1 smod sint i2"
proof (rule sint_of_int_fits)
  have b: "sint i2 \<noteq> 0" using assms by (simp add: sint_eq_0)
  note r = smod_int_range [OF b, of "sint i1"]
  show "- (2 ^ 63) \<le> sint i1 smod sint i2" using r sint_bounds [of i2] by auto
  show "sint i1 smod sint i2 < 2 ^ 63" using r sint_bounds [of i2] by auto
qed

lemma sint_congruent: "sint (word_of_int n :: i64) mod 2 ^ 64 = n mod 2 ^ 64"
proof -
  have "take_bit 64 (sint (word_of_int n :: i64)) = take_bit 64 n"
    by (simp add: signed_of_int take_bit_signed_take_bit)
  then show ?thesis by (simp add: take_bit_eq_mod)
qed

section \<open>Arithmetic\<close>

lemma signed_result_fits:
  "- (2 ^ 63) \<le> n \<Longrightarrow> n < 2 ^ 63 \<Longrightarrow> \<exists>r. signed_result n = Inr r \<and> sint r = n"
  by (simp add: signed_result_def sint_of_int_fits)

text \<open>
  The function \<open>ARITH_OP\<close> and the macro inlined in the interpreter loop agree on sums,
  differences and products of integers, also where these overflow.\<close>

lemma ARITH_macro_agrees:
  "op \<in> {CHR ''+'', CHR ''-'', CHR ''*''} \<Longrightarrow> ARITH_macro mm op o1 o2 s = ARITH_OP mm op o1 o2 s"
  by (cases o1; cases o2) (auto simp: ARITH_macro_def ARITH_OP_def arith_macro_int_def arith_int_def both_numeric_def sq_isnumeric_def)

lemma ARITH_OP_integers:
  "ARITH_OP mm op (VInteger i1) (VInteger i2) s = (bindE (arith_int op i1 i2) (\<lambda>r. Inr (VInteger r)), s)"
  by (simp add: ARITH_OP_def)

lemma division_exact:
  assumes "i2 \<noteq> 0" "i2 = - 1 \<longrightarrow> i1 \<noteq> INT_MIN \<and> i1 \<noteq> 0x8000000000000000"
  shows "\<exists>q r. ARITH_OP mm CHR ''/'' (VInteger i1) (VInteger i2) s = (Inr (VInteger q), s)
           \<and> ARITH_NOZERO mm (VInteger i1) (VInteger i2) err s = (Inr (VInteger q), s)
           \<and> ARITH_OP mm CHR ''%'' (VInteger i1) (VInteger i2) s = (Inr (VInteger r), s)
           \<and> sint q * sint i2 + sint r = sint i1
           \<and> \<bar>sint r\<bar> < \<bar>sint i2\<bar> \<and> (sint r = 0 \<or> sgn (sint r) = sgn (sint i1))"
proof -
  define q :: i64 where "q = word_of_int (sint i1 sdiv sint i2)"
  define r :: i64 where "r = word_of_int (sint i1 smod sint i2)"
  have q: "sint q = sint i1 sdiv sint i2" unfolding q_def by (rule sdiv_fits) (use assms in blast)
  have r: "sint r = sint i1 smod sint i2" unfolding r_def by (rule smod_fits) (rule assms)
  have "machine_div i1 i2 = Inr q" "machine_mod i1 i2 = Inr r"
    using assms by (auto simp: machine_div_def machine_mod_def q_def r_def simp del: sint_sbintrunc)
  then have ops: "arith_int CHR ''/'' i1 i2 = Inr q" "arith_int CHR ''%'' i1 i2 = Inr r"
    "ARITH_NOZERO mm (VInteger i1) (VInteger i2) err s = (Inr (VInteger q), s)"
    using assms by (auto simp: arith_int_def ARITH_NOZERO_def)
  have nz: "sint i2 \<noteq> 0" using assms(1) by (simp add: sint_eq_0)
  have law: "sint q * sint i2 + sint r = sint i1" unfolding q r by (rule sdiv_mult_smod_eq)
  have bound: "\<bar>sint r\<bar> < \<bar>sint i2\<bar>" using smod_int_range [OF nz, of "sint i1"] by (auto simp: r)
  have "0 \<le> \<bar>sint i1\<bar> mod \<bar>sint i2\<bar>" using nz by simp
  then have sign: "sint r = 0 \<or> sgn (sint r) = sgn (sint i1)"
    by (cases "\<bar>sint i1\<bar> mod \<bar>sint i2\<bar> = 0") (simp_all add: r smod_int_alt_def sgn_mult)
  from ops law bound sign show ?thesis by (auto simp: ARITH_OP_integers)
qed

text \<open>
  The overflow guard of \<open>ARITH_OP\<close> tests for the smallest 32-bit integer although
  integers have 64 bits: dividing -2147483648 by -1 raises an error although the quotient
  is representable, while dividing the smallest 64-bit integer by -1 reaches the division
  instruction, which traps; so do modulo and the division inlined in the interpreter loop.\<close>

lemma division_guard_is_32_bit:
  "ARITH_OP mm CHR ''/'' (VInteger (- 2147483648)) (VInteger (- 1)) s = (Inl (Raise_Error ''integer overflow''), s)
   \<and> ARITH_NOZERO mm (VInteger (- 2147483648)) (VInteger (- 1)) err s = (Inr (VInteger 2147483648), s)
   \<and> ARITH_OP mm CHR ''/'' (VInteger 0x8000000000000000) (VInteger (- 1)) s = (Inl Trap, s)
   \<and> ARITH_OP mm CHR ''%'' (VInteger 0x8000000000000000) (VInteger (- 1)) s = (Inl Trap, s)
   \<and> ARITH_NOZERO mm (VInteger 0x8000000000000000) (VInteger (- 1)) err s = (Inl Trap, s)"
  by (simp add: ARITH_OP_integers ARITH_NOZERO_def arith_int_def INT_MIN_def machine_div_def machine_mod_def)

text \<open>
  C31. What division and modulo of two integers do, for every pair of operands. A divisor 0
  is the error of each operator. The smallest 32-bit integer divided by -1 is an error for
  \<open>ARITH_OP\<close>, has the remainder 0, and its quotient is computed by the division inlined in
  the interpreter loop. The smallest 64-bit integer divided by -1 traps in all three. In
  all other cases the law of division towards zero holds: the quotient times the divisor
  plus the remainder is the dividend, the remainder is smaller than the divisor in absolute
  value and has the sign of the dividend; and the inlined division gives the same
  quotient.\<close>

theorem integer_division_law:
  "if i2 = 0 then
     ARITH_OP mm CHR ''/'' (VInteger i1) (VInteger i2) s = (Inl (Raise_Error ''division by zero''), s)
     \<and> ARITH_NOZERO mm (VInteger i1) (VInteger i2) err s = (Inl (Raise_Error err), s)
     \<and> ARITH_OP mm CHR ''%'' (VInteger i1) (VInteger i2) s = (Inl (Raise_Error ''modulo by zero''), s)
   else if i2 = - 1 \<and> sint i1 = - (2 ^ 31) then
     ARITH_OP mm CHR ''/'' (VInteger i1) (VInteger i2) s = (Inl (Raise_Error ''integer overflow''), s)
     \<and> ARITH_NOZERO mm (VInteger i1) (VInteger i2) err s = (Inr (VInteger (2 ^ 31)), s)
     \<and> ARITH_OP mm CHR ''%'' (VInteger i1) (VInteger i2) s = (Inr (VInteger 0), s)
   else if i2 = - 1 \<and> sint i1 = - (2 ^ 63) then
     ARITH_OP mm CHR ''/'' (VInteger i1) (VInteger i2) s = (Inl Trap, s)
     \<and> ARITH_NOZERO mm (VInteger i1) (VInteger i2) err s = (Inl Trap, s)
     \<and> ARITH_OP mm CHR ''%'' (VInteger i1) (VInteger i2) s = (Inl Trap, s)
   else
     \<exists>q r. ARITH_OP mm CHR ''/'' (VInteger i1) (VInteger i2) s = (Inr (VInteger q), s)
       \<and> ARITH_NOZERO mm (VInteger i1) (VInteger i2) err s = (Inr (VInteger q), s)
       \<and> ARITH_OP mm CHR ''%'' (VInteger i1) (VInteger i2) s = (Inr (VInteger r), s)
       \<and> sint q * sint i2 + sint r = sint i1
       \<and> \<bar>sint r\<bar> < \<bar>sint i2\<bar> \<and> (sint r = 0 \<or> sgn (sint r) = sgn (sint i1))"
proof -
  have s32: "sint i1 = - (2 ^ 31) \<longleftrightarrow> i1 = INT_MIN" using sint_eq_iff [of i1 INT_MIN] by (simp add: INT_MIN_def)
  have zero: "i2 = 0 \<Longrightarrow> ?thesis"
    by (simp add: ARITH_OP_integers ARITH_NOZERO_def arith_int_def raise_def)
  have guard: "i2 = - 1 \<Longrightarrow> i1 = INT_MIN \<Longrightarrow> ?thesis"
    by (simp add: ARITH_OP_integers ARITH_NOZERO_def arith_int_def INT_MIN_def machine_div_def)
  have trap: "i2 = - 1 \<Longrightarrow> i1 = 0x8000000000000000 \<Longrightarrow> ?thesis"
    by (simp add: ARITH_OP_integers ARITH_NOZERO_def arith_int_def INT_MIN_def machine_div_def machine_mod_def)
  have "\<not> (i2 = 0) \<Longrightarrow> \<not> (i2 = - 1 \<and> i1 = INT_MIN) \<Longrightarrow> \<not> (i2 = - 1 \<and> i1 = 0x8000000000000000) \<Longrightarrow> ?thesis"
    unfolding s32 sint_eq_smallest using division_exact [of i2 i1 mm s err] by (simp only: if_False) blast
  with zero guard trap show ?thesis by blast
qed

section \<open>Shifts\<close>

lemma and_63_mod: "(n :: int) AND 63 = n mod 64"
  using take_bit_eq_mask [of 6 n] by (simp add: mask_eq_exp_minus_1 take_bit_eq_mod)

lemma shift_count_small: "sint n \<in> {0..<64} \<Longrightarrow> shift_count n = nat (sint n)"
proof -
  assume n: "sint n \<in> {0..<64}"
  then have u: "uint n = sint n"
    using uint_word_of_int [of "sint n", where 'a = 64] by simp
  have "uint (n AND 0x3F) = uint n mod 64"
    by (simp add: unsigned_and_eq and_63_mod)
  then have "uint (n AND 0x3F) = sint n" using n u by simp
  then show ?thesis unfolding shift_count_def by (metis nat_uint_eq)
qed

text \<open>
  For a shift count between 0 and 63, \<open><<\<close> multiplies by a power of two modulo
  \<open>2 ^ 64\<close>, \<open>>>\<close> divides the signed value and \<open>>>>\<close> the unsigned value by it, rounding
  down.\<close>

lemma shift_semantics:
  assumes "sint n \<in> {0..<64}"
  shows "\<exists>l r u. BW_OP 4 (VInteger i) (VInteger n) = Inr (VInteger l)
             \<and> BW_OP 5 (VInteger i) (VInteger n) = Inr (VInteger r)
             \<and> BW_OP 6 (VInteger i) (VInteger n) = Inr (VInteger u)
             \<and> uint l = uint i * 2 ^ nat (sint n) mod 2 ^ 64
             \<and> sint r = sint i div 2 ^ nat (sint n)
             \<and> uint u = uint i div 2 ^ nat (sint n)"
proof -
  let ?k = "nat (sint n)"
  note k = shift_count_small [OF assms]
  have "uint (push_bit ?k i) = uint i * 2 ^ ?k mod 2 ^ 64"
    unfolding unsigned_push_bit_eq by (simp add: take_bit_eq_mod push_bit_eq_mult)
  moreover have "sint (signed_drop_bit ?k i) = sint i div 2 ^ ?k"
    by (simp add: sint_signed_drop_bit_eq drop_bit_eq_div)
  moreover have "uint (drop_bit ?k i) = uint i div 2 ^ ?k"
    using take_bit_int_eq_self [OF uint_ge_0 [of i] uint_bounded [of i]]
    unfolding unsigned_drop_bit_eq by (simp add: drop_bit_eq_div)
  ultimately show ?thesis by (simp add: BW_OP_def bw_decode_def k)
qed

theorem shift_semantics_witness:
  "\<exists>r. BW_OP 5 (VInteger (- 5)) (VInteger 1) = Inr (VInteger r) \<and> sint r = - 3"
  using shift_semantics [of 1 "- 5"] by auto

section \<open>Comparison\<close>

lemma of_char_int: "(of_char c :: int) = int (of_char c)"
  by (simp add: of_char_def)

lemma of_char_le: "(of_char c :: nat) \<le> 255"
  using nat_of_char_less_256 [of c] by linarith

lemma strcmp_bytes_range: "strcmp_bytes a b \<in> {- 255..255}"
proof (induction a b rule: strcmp_bytes.induct)
  case (4 a as b bs)
  then show ?case using of_char_le [of a] of_char_le [of b]
    unfolding strcmp_bytes.simps of_char_int by auto
next
  case (2 b bs)
  then show ?case using of_char_le [of b] unfolding strcmp_bytes.simps of_char_int by auto
next
  case (3 a as)
  then show ?case using of_char_le [of a] unfolding strcmp_bytes.simps of_char_int by auto
qed auto

lemma of_char_pos: "c \<noteq> CHR 0x00 \<Longrightarrow> 0 < (of_char c :: nat)"
  using of_char_eq_iff [of c "CHR 0x00", where 'a = nat] by simp

lemma zstring_free: "CHR 0x00 \<notin> set (zstring s)"
  unfolding zstring_def by (metis (mono_tags, lifting) set_takeWhileD)

lemma strcmp_bytes_lex:
  "CHR 0x00 \<notin> set a \<Longrightarrow> CHR 0x00 \<notin> set b \<Longrightarrow>
     strcmp_bytes a b < 0 \<longleftrightarrow> ord_class.lexordp (map of_char a) (map of_char b :: nat list)"
proof (induction a b rule: strcmp_bytes.induct)
  case (2 b bs)
  then show ?case using of_char_pos [of b] unfolding strcmp_bytes.simps of_char_int by auto
next
  case (4 a as b bs)
  have "a \<noteq> b \<Longrightarrow> of_char a \<noteq> (of_char b :: nat)" by simp
  with 4 show ?case unfolding strcmp_bytes.simps of_char_int by (auto simp: order.strict_iff_order)
qed (auto simp: of_char_int)

lemma strcmp_bytes_swap: "strcmp_bytes b a = - strcmp_bytes a b"
  by (induction a b rule: strcmp_bytes.induct) auto

lemma strcmp_bytes_eq: "CHR 0x00 \<notin> set a \<Longrightarrow> CHR 0x00 \<notin> set b \<Longrightarrow> strcmp_bytes a b = 0 \<longleftrightarrow> a = b"
proof (induction a b rule: strcmp_bytes.induct)
  case (2 b bs)
  then show ?case using of_char_pos [of b] unfolding strcmp_bytes.simps of_char_int by auto
next
  case (3 a as)
  then show ?case using of_char_pos [of a] unfolding strcmp_bytes.simps of_char_int by auto
qed auto

lemma zstring_id: "CHR 0x00 \<notin> set a \<Longrightarrow> zstring a = a"
  unfolding zstring_def by (subst takeWhile_eq_all_conv) auto

lemma sint_strcmp: "sint (word_of_int (strcmp_bytes a b) :: i64) = strcmp_bytes a b"
  using strcmp_bytes_range [of a b] by (intro sint_of_int_fits) auto

lemma ObjCmp_strings:
  "\<exists>r. ObjCmp mm (VString a) (VString b) s = (Inr r, s) \<and> sint r = strcmp_bytes (zstring a) (zstring b)"
  by (cases "a = b") (auto simp: ObjCmp_def cmp_same_def scstrcmp_def sint_strcmp strcmp_bytes_eq zstring_free)

lemma ObjCmp_integers:
  "\<exists>r. ObjCmp mm (VInteger a) (VInteger b) s = (Inr r, s) \<and>
       sint r = (if a = b then 0 else if sint a < sint b then - 1 else 1)"
  by (auto simp: ObjCmp_def cmp_same_def word_sless_alt)

lemmas cmp_signed = word_sless_alt word_sle_eq

definition zero_free :: "sqobject \<Rightarrow> bool" where
  "zero_free v \<longleftrightarrow> (case v of VString s \<Rightarrow> CHR 0x00 \<notin> set s | _ \<Rightarrow> True)"

text \<open>
  C30. On two integers the comparison operators decide the order of the integers. On two
  strings they decide the lexicographic order of their bytes up to the first zero byte of
  each, where \<open>scstrcmp\<close> stops. The three-way comparison is 0 exactly when neither operand
  is smaller. Operands that are equal for \<open>==\<close> compare as equal; the converse holds for
  integers and for strings without a zero byte.\<close>

theorem comparison_is_total_order:
  assumes "(a = VInteger i \<and> b = VInteger j \<and> lt = (sint i < sint j) \<and> gt = (sint j < sint i))
         \<or> (a = VString s \<and> b = VString t
              \<and> lt = ord_class.lexordp (map of_char (zstring s)) (map of_char (zstring t) :: nat list)
              \<and> gt = ord_class.lexordp (map of_char (zstring t)) (map of_char (zstring s) :: nat list))"
  shows "CMP_OP mm CMP_L a b st = (Inr (sqbool lt), st) \<and> CMP_OP mm CMP_G a b st = (Inr (sqbool gt), st)
       \<and> CMP_OP mm CMP_LE a b st = (Inr (sqbool (\<not> gt)), st)
       \<and> CMP_OP mm CMP_GE a b st = (Inr (sqbool (\<not> lt)), st)
       \<and> (CMP_OP mm CMP_3W a b st = (Inr (VInteger 0), st) \<longleftrightarrow> \<not> lt \<and> \<not> gt)
       \<and> (IsEqual a b \<longrightarrow> \<not> lt \<and> \<not> gt)
       \<and> (zero_free a \<and> zero_free b \<longrightarrow> (IsEqual a b \<longleftrightarrow> \<not> lt \<and> \<not> gt))"
proof -
  have "\<exists>r. ObjCmp mm a b st = (Inr r, st) \<and> (sint r < 0 \<longleftrightarrow> lt) \<and> (0 < sint r \<longleftrightarrow> gt) \<and>
           (IsEqual a b \<longrightarrow> sint r = 0) \<and> (zero_free a \<and> zero_free b \<and> sint r = 0 \<longrightarrow> IsEqual a b)"
    using assms
  proof (elim disjE conjE)
    assume h: "a = VInteger i" "b = VInteger j" "lt = (sint i < sint j)" "gt = (sint j < sint i)"
    then show ?thesis using ObjCmp_integers [of mm i j st] sint_eq_iff [of i j]
      by (auto simp: IsEqual_def split: if_splits)
  next
    assume h: "a = VString s" "b = VString t"
      "lt = ord_class.lexordp (map of_char (zstring s)) (map of_char (zstring t) :: nat list)"
      "gt = ord_class.lexordp (map of_char (zstring t)) (map of_char (zstring s) :: nat list)"
    note n = zstring_free [of s] zstring_free [of t]
    from ObjCmp_strings [of mm s t st] obtain r
      where r: "ObjCmp mm a b st = (Inr r, st)" "sint r = strcmp_bytes (zstring s) (zstring t)" using h by blast
    have "zero_free a \<and> zero_free b \<and> sint r = 0 \<longrightarrow> IsEqual a b"
      using h(1,2) r(2) strcmp_bytes_eq [OF n] by (auto simp: zero_free_def zstring_id IsEqual_def)
    moreover have "IsEqual a b \<longrightarrow> sint r = 0" using h(1,2) r(2) strcmp_bytes_eq [OF n] by (auto simp: IsEqual_def)
    ultimately show ?thesis
      using r strcmp_bytes_lex [OF n] strcmp_bytes_lex [OF n(2,1)] strcmp_bytes_swap [of "zstring s" "zstring t"]
      unfolding h(3,4) by (intro exI [of _ r]) simp
  qed
  then obtain r where r: "ObjCmp mm a b st = (Inr r, st)" "sint r < 0 \<longleftrightarrow> lt" "0 < sint r \<longleftrightarrow> gt"
    "IsEqual a b \<longrightarrow> sint r = 0" "zero_free a \<and> zero_free b \<and> sint r = 0 \<longrightarrow> IsEqual a b" by blast
  then show ?thesis using sint_eq_0 [of r]
    by (auto simp: CMP_OP_def cmp_signed sqbool_def not_less [symmetric])
qed

theorem comparison_is_total_order_witness:
  "CMP_OP (\<lambda>_ _ _ s. (MM_None, s)) CMP_L (VString ''ab'') (VString ''b'') () = (Inr (sqbool True), ())"
  using comparison_is_total_order [of "VString ''ab''" 0 "VString ''b''" 0 True False "''ab''" "''b''"
      "\<lambda>_ _ _ s. (MM_None, s)" "()"] by (simp add: zstring_def)

text \<open>Strings that differ behind a zero byte compare as equal although \<open>==\<close> says they are not.\<close>

lemma comparison_stops_at_zero:
  "CMP_OP mm CMP_3W (VString [CHR ''a'', CHR 0x00, CHR ''b'']) (VString [CHR ''a'', CHR 0x00, CHR ''c'']) s
     = (Inr (VInteger 0), s)"
  "\<not> IsEqual (VString [CHR ''a'', CHR 0x00, CHR ''b'']) (VString [CHR ''a'', CHR 0x00, CHR ''c''])"
  by (simp_all add: CMP_OP_def ObjCmp_def cmp_same_def scstrcmp_def zstring_def IsEqual_def)

text \<open>
  Comparison of floats is not an order: \<open>ObjCmp\<close> looks at the raw bits before it
  compares two floats, so 0.0 and -0.0 are each greater than the other although \<open>==\<close> says
  they are equal, and a NaN compares equal to itself although \<open>==\<close> says it is not.\<close>

lemma float_comparison_anomalies:
  "CMP_OP mm CMP_G (VFloat 0) (VFloat 0x80000000) s = (Inr (sqbool True), s)
   \<and> CMP_OP mm CMP_G (VFloat 0x80000000) (VFloat 0) s = (Inr (sqbool True), s)
   \<and> IsEqual (VFloat 0) (VFloat 0x80000000)
   \<and> CMP_OP mm CMP_3W (VFloat 0x7FC00000) (VFloat 0x7FC00000) s = (Inr (VInteger 0), s)
   \<and> \<not> IsEqual (VFloat 0x7FC00000) (VFloat 0x7FC00000)"
proof -
  have "\<not> float_lt 0 0x80000000" "\<not> float_lt 0x80000000 0" "float_eq 0 0x80000000"
    "\<not> float_eq 0x7FC00000 0x7FC00000"
    by code_simp+
  then show ?thesis by (simp add: CMP_OP_def ObjCmp_def cmp_same_def IsEqual_def sqbool_def cmp_signed)
qed

end
