(* ===== verification/Sq_Bytes.thy ===== *)
theory Sq_Bytes
  imports Sq_Prelude
begin

text \<open>
  The representation of integers in memory on a little-endian host, as the bytes that a
  \<open>memcpy\<close>, a \<open>Write\<close> or a \<open>Read\<close> of the address of a variable moves, and the wrap-around
  of signed 64-bit sums.
\<close>

fun le_bytes :: "nat \<Rightarrow> int \<Rightarrow> byte list" where
  "le_bytes 0 n = []"
| "le_bytes (Suc k) n = word_of_int n # le_bytes k (n div 256)"

fun le_value :: "byte list \<Rightarrow> int" where
  "le_value [] = 0"
| "le_value (b # bs) = uint b + 256 * le_value bs"

lemma length_le_bytes [simp]: "length (le_bytes k n) = k"
  by (induction k arbitrary: n) auto

lemma le_value_bytes_mod: "le_value (le_bytes k n) = n mod 256 ^ k"
proof (induction k arbitrary: n)
  case (Suc k)
  have "uint (word_of_int n :: byte) = n mod 256" by (simp add: uint_word_of_int)
  moreover have "n mod (256 * 256 ^ k) = 256 * (n div 256 mod 256 ^ k) + n mod 256"
    by (rule zmod_zmult2_eq) simp
  ultimately show ?case using Suc by simp
qed simp

lemma le_value_bytes [simp]: "0 \<le> n \<Longrightarrow> n < 256 ^ k \<Longrightarrow> le_value (le_bytes k n) = n"
  by (simp add: le_value_bytes_mod)

lemma le_value_nonneg [simp]: "0 \<le> le_value bs"
  by (induction bs) auto

lemma le_value_less: "le_value bs < 256 ^ length bs"
proof (induction bs)
  case (Cons b bs)
  have "uint b < 256" using uint_bounded [of b] by simp
  with Cons show ?case by simp
qed simp

text \<open>Integers of 64, 32 and 16 bits.\<close>

definition bytes64 :: "u64 \<Rightarrow> byte list" where "bytes64 w = le_bytes 8 (uint w)"
definition bytes32 :: "u32 \<Rightarrow> byte list" where "bytes32 w = le_bytes 4 (uint w)"
definition bytes16 :: "16 word \<Rightarrow> byte list" where "bytes16 w = le_bytes 2 (uint w)"

definition word64 :: "byte list \<Rightarrow> u64" where "word64 bs = word_of_int (le_value bs)"
definition word32 :: "byte list \<Rightarrow> u32" where "word32 bs = word_of_int (le_value bs)"
definition word16 :: "byte list \<Rightarrow> 16 word" where "word16 bs = word_of_int (le_value bs)"

lemma length_bytes [simp]: "length (bytes64 w) = 8" "length (bytes32 v) = 4" "length (bytes16 u) = 2"
  by (simp_all add: bytes64_def bytes32_def bytes16_def)

lemma word64_bytes64 [simp]: "word64 (bytes64 w) = w"
  using uint_bounded [of w] by (simp add: word64_def bytes64_def)

lemma word32_bytes32 [simp]: "word32 (bytes32 w) = w"
  using uint_bounded [of w] by (simp add: word32_def bytes32_def)

lemma word16_bytes16 [simp]: "word16 (bytes16 w) = w"
  using uint_bounded [of w] by (simp add: word16_def bytes16_def)

text \<open>The low 32 bits of a 64-bit value in memory are its first four bytes.\<close>

lemma le_bytes_append: "le_bytes (j + k) n = le_bytes j n @ le_bytes k (n div 256 ^ j)"
  by (induction j arbitrary: n) (auto simp: zdiv_zmult2_eq)

lemma le_value_append: "le_value (as @ bs) = le_value as + 256 ^ length as * le_value bs"
  by (induction as) (auto simp: algebra_simps)

text \<open>Wrap-around of a signed 64-bit result.\<close>

definition wrap64 :: "int \<Rightarrow> int" where
  "wrap64 n = sint (word_of_int n :: i64)"

lemma wrap64_small: "- (2 ^ 63) \<le> n \<Longrightarrow> n < 2 ^ 63 \<Longrightarrow> wrap64 n = n"
  unfolding wrap64_def by (simp add: signed_of_int signed_take_bit_int_eq_self)

end
