(* ===== verification/Sq_Serialize.thy ===== *)
theory Sq_Serialize
  imports Sq_Bytes Sq_FuncState
begin

text \<open>
  Saving and loading closures, \<^verbatim>\<open>sqobject.cpp\<close> (\<open>SafeWrite\<close> to \<open>SQFunctionProto::Load\<close>) with
  \<open>sq_writeclosure\<close> and \<open>sq_readclosure\<close> of \<^verbatim>\<open>sqapi.cpp\<close>.

  The host passes a write and a read callback with its own state. A write callback gets the
  bytes at the address it is called with and returns a number; a read callback gets a
  number of bytes and returns a number and the bytes it has stored.

  A function prototype never changes after it is built, and the functions nested in it are
  only reached through it: it is the tree of these values. The sizes of the C++ types are
  those of a 64-bit build; numbers are stored little-endian.
\<close>

section \<open>Streams\<close>

type_synonym 'w writer = "byte list \<Rightarrow> 'w \<Rightarrow> i64 \<times> 'w"
type_synonym 'r reader = "i64 \<Rightarrow> 'r \<Rightarrow> (i64 \<times> byte list) \<times> 'r"

text \<open>
  The errors: an error raised with its message, behaviour that C++ leaves undefined (a
  negative length or count, an opcode that does not exist), and the bound on the nesting
  depth of the model.
\<close>

datatype ser_error = Ser_Error string | Ser_Undefined | Ser_Fuel

type_synonym 'w wop = "'w \<Rightarrow> ser_error + 'w"
type_synonym ('a, 'r) rop = "'r \<Rightarrow> ser_error + ('a \<times> 'r)"

definition rbind :: "('a, 'r) rop \<Rightarrow> ('a \<Rightarrow> ('b, 'r) rop) \<Rightarrow> ('b, 'r) rop" where
  "rbind m f r = bindE (m r) (\<lambda>(x, r). f x r)"

definition rreturn :: "'a \<Rightarrow> ('a, 'r) rop" where
  "rreturn x r = Inr (x, r)"

definition rfail :: "ser_error \<Rightarrow> ('a, 'r) rop" where
  "rfail e r = Inl e"

fun wseq :: "'w wop list \<Rightarrow> 'w wop" where
  "wseq [] w = Inr w"
| "wseq (m # ms) w = bindE (m w) (wseq ms)"

fun read_many :: "nat \<Rightarrow> ('a, 'r) rop \<Rightarrow> ('a list, 'r) rop" where
  "read_many 0 m = rreturn []"
| "read_many (Suc n) m = rbind m (\<lambda>x. rbind (read_many n m) (\<lambda>xs. rreturn (x # xs)))"

definition SafeWrite :: "'w writer \<Rightarrow> byte list \<Rightarrow> 'w wop" where
  "SafeWrite write bs w =
     (case write bs w of
        (n, w') \<Rightarrow> if n \<noteq> of_nat (length bs) then Inl (Ser_Error ''io error (write function failure)'') else Inr w')"

definition read_failure :: string where
  "read_failure = ''io error, read function failure, the origin stream could be corrupted/trucated''"

definition SafeRead :: "'r reader \<Rightarrow> i64 \<Rightarrow> (byte list, 'r) rop" where
  "SafeRead read n r =
     (if n = 0 then Inr ([], r)
      else case read n r of
             ((k, bs), r') \<Rightarrow> if k \<noteq> n then Inl (Ser_Error read_failure) else Inr (bs, r'))"

definition WriteTag :: "'w writer \<Rightarrow> u32 \<Rightarrow> 'w wop" where
  "WriteTag write tag = SafeWrite write (bytes32 tag)"

definition CheckTag :: "'r reader \<Rightarrow> u32 \<Rightarrow> (unit, 'r) rop" where
  "CheckTag read tag =
     rbind (SafeRead read 4) (\<lambda>t.
       if word32 t \<noteq> tag then rfail (Ser_Error ''invalid or corrupted closure stream'') else rreturn ())"

definition SQ_CLOSURESTREAM_HEAD :: u32 where "SQ_CLOSURESTREAM_HEAD = 0x53514952"
definition SQ_CLOSURESTREAM_PART :: u32 where "SQ_CLOSURESTREAM_PART = 0x50415254"
definition SQ_CLOSURESTREAM_TAIL :: u32 where "SQ_CLOSURESTREAM_TAIL = 0x5441494C"

section \<open>Objects\<close>

definition all_types :: "sqtype list" where
  "all_types = [OT_NULL, OT_INTEGER, OT_FLOAT, OT_BOOL, OT_STRING, OT_TABLE, OT_ARRAY, OT_USERDATA,
     OT_CLOSURE, OT_NATIVECLOSURE, OT_GENERATOR, OT_USERPOINTER, OT_THREAD, OT_FUNCPROTO, OT_CLASS,
     OT_INSTANCE, OT_WEAKREF, OT_OUTER]"

definition type_of_code :: "u32 \<Rightarrow> sqtype option" where
  "type_of_code t = List.find (\<lambda>ty. type_code ty = t) all_types"

text \<open>\<open>IdType2Name\<close> ignores the flag bits; \<open>%s\<close> prints its null pointer as \<open>(null)\<close>.\<close>

definition type_name_of_code :: "u32 \<Rightarrow> string" where
  "type_name_of_code t =
     (case List.find (\<lambda>ty. raw_type ty = t AND RT_MASK) all_types of
        Some ty \<Rightarrow> IdType2Name ty | None \<Rightarrow> ''(null)'')"

definition char_bytes :: "string \<Rightarrow> byte list" where
  "char_bytes s = map of_char s"

definition bytes_char :: "byte list \<Rightarrow> string" where
  "bytes_char bs = map (\<lambda>b. char_of (uint b)) bs"

definition WriteObject :: "'w writer \<Rightarrow> sqobject \<Rightarrow> 'w wop" where
  "WriteObject write ob =
     wseq (SafeWrite write (bytes32 (type_code (sq_type ob))) #
       (case ob of
          VString s \<Rightarrow> [SafeWrite write (bytes64 (of_nat (length s))), SafeWrite write (char_bytes s)]
        | VBool i \<Rightarrow> [SafeWrite write (bytes64 i)]
        | VInteger i \<Rightarrow> [SafeWrite write (bytes64 i)]
        | VFloat f \<Rightarrow> [SafeWrite write (bytes32 f)]
        | VNull \<Rightarrow> []
        | _ \<Rightarrow> [\<lambda>w. Inl (Ser_Error (''cannot serialize a '' @ GetTypeName ob))]))"

definition ReadObject :: "'r reader \<Rightarrow> (sqobject, 'r) rop" where
  "ReadObject read =
     rbind (SafeRead read 4) (\<lambda>t.
       case type_of_code (word32 t) of
         Some OT_STRING \<Rightarrow>
           rbind (SafeRead read 8) (\<lambda>l.
             if word64 l <s 0 then rfail Ser_Undefined
             else rbind (SafeRead read (word64 l)) (\<lambda>bs. rreturn (VString (bytes_char bs))))
       | Some OT_INTEGER \<Rightarrow> rbind (SafeRead read 8) (\<lambda>bs. rreturn (VInteger (word64 bs)))
       | Some OT_BOOL \<Rightarrow> rbind (SafeRead read 8) (\<lambda>bs. rreturn (VBool (word64 bs)))
       | Some OT_FLOAT \<Rightarrow> rbind (SafeRead read 4) (\<lambda>bs. rreturn (VFloat (word32 bs)))
       | Some OT_NULL \<Rightarrow> rreturn VNull
       | _ \<Rightarrow> rfail (Ser_Error (''cannot serialize a '' @ type_name_of_code (word32 t))))"

section \<open>Prototypes\<close>

record protohead =
  ph_sourcename :: sqobject
  ph_name :: sqobject
  ph_stacksize :: i64
  ph_bgenerator :: bool
  ph_varparams :: i64
  ph_localvarinfos :: "localvar list"
  ph_lineinfos :: "lineinfo list"
  ph_literals :: "sqobject list"
  ph_parameters :: "sqobject list"
  ph_outervalues :: "outervar list"
  ph_defaultparams :: "i64 list"
  ph_instructions :: "instr list"

datatype proto = Proto (pr_head: protohead) (pr_functions: "proto list")

text \<open>The memory image of an instruction and of a line info.\<close>

definition opcodes :: "opcode list" where
  "opcodes = [OP_LINE, OP_LOAD, OP_LOADINT, OP_LOADFLOAT, OP_DLOAD, OP_TAILCALL, OP_CALL, OP_PREPCALL,
     OP_PREPCALLK, OP_GETK, OP_MOVE, OP_NEWSLOT, OP_DELETE, OP_SET, OP_GET, OP_EQ, OP_NE, OP_ADD,
     OP_SUB, OP_MUL, OP_DIV, OP_MOD, OP_BITW, OP_RETURN, OP_LOADNULLS, OP_LOADROOT, OP_LOADBOOL,
     OP_DMOVE, OP_JMP, OP_JCMP, OP_JZ, OP_SETOUTER, OP_GETOUTER, OP_NEWOBJ, OP_APPENDARRAY,
     OP_COMPARITH, OP_INC, OP_INCL, OP_PINC, OP_PINCL, OP_CMP, OP_EXISTS, OP_INSTANCEOF, OP_AND,
     OP_OR, OP_NEG, OP_NOT, OP_BWNOT, OP_CLOSURE, OP_YIELD, OP_RESUME, OP_FOREACH, OP_POSTFOREACH,
     OP_CLONE, OP_TYPEOF, OP_PUSHTRAP, OP_POPTRAP, OP_THROW, OP_NEWSLOTA, OP_GETBASE, OP_CLOSE]"

definition opcode_code :: "opcode \<Rightarrow> byte" where
  "opcode_code op = of_nat (length (takeWhile (\<lambda>x. x \<noteq> op) opcodes))"

definition instr_bytes :: "instr \<Rightarrow> byte list" where
  "instr_bytes i = bytes32 (i_arg1 i) @ [opcode_code (i_op i), i_arg0 i, i_arg2 i, i_arg3 i]"

definition instr_of_bytes :: "byte list \<Rightarrow> instr option" where
  "instr_of_bytes bs =
     (if unat (bs ! 4) < length opcodes
      then Some \<lparr>i_op = opcodes ! unat (bs ! 4), i_arg0 = bs ! 5, i_arg1 = word32 (take 4 bs),
                 i_arg2 = bs ! 6, i_arg3 = bs ! 7\<rparr>
      else None)"

definition line_bytes :: "lineinfo \<Rightarrow> byte list" where
  "line_bytes l = bytes64 (li_line l) @ bytes64 (li_op l)"

definition line_of_bytes :: "byte list \<Rightarrow> lineinfo" where
  "line_of_bytes bs = \<lparr>li_line = word64 (take 8 bs), li_op = word64 (drop 8 bs)\<rparr>"

fun chunks :: "nat \<Rightarrow> nat \<Rightarrow> 'a list \<Rightarrow> 'a list list" where
  "chunks 0 m xs = []"
| "chunks (Suc n) m xs = take m xs # chunks n m (drop m xs)"

text \<open>
  \<open>_type\<close> of an outer variable is a four-byte enum, of which eight bytes are written: the
  four bytes of padding that follow it in memory are \<open>pad\<close>. What is read back is
  truncated to the enum.
\<close>

definition outertype_code :: "outertype \<Rightarrow> u32" where
  "outertype_code t = (case t of otLOCAL \<Rightarrow> 0 | otOUTER \<Rightarrow> 1)"

definition outertype_of :: "u64 \<Rightarrow> outertype option" where
  "outertype_of w = (if ucast w = (0 :: u32) then Some otLOCAL else if ucast w = (1 :: u32) then Some otOUTER else None)"

definition save_outer :: "'w writer \<Rightarrow> (outervar \<Rightarrow> u32) \<Rightarrow> outervar \<Rightarrow> 'w wop" where
  "save_outer write pad ov =
     wseq [SafeWrite write (bytes32 (outertype_code (ov_type ov)) @ bytes32 (pad ov)),
           WriteObject write (ov_src ov), WriteObject write (ov_name ov)]"

definition load_outer :: "'r reader \<Rightarrow> (outervar, 'r) rop" where
  "load_outer read =
     rbind (SafeRead read 8) (\<lambda>t.
       rbind (ReadObject read) (\<lambda>src.
         rbind (ReadObject read) (\<lambda>name.
           case outertype_of (word64 t) of
             Some ty \<Rightarrow> rreturn \<lparr>ov_type = ty, ov_name = name, ov_src = src\<rparr>
           | None \<Rightarrow> rfail Ser_Undefined)))"

definition save_local :: "'w writer \<Rightarrow> localvar \<Rightarrow> 'w wop" where
  "save_local write lvi =
     wseq [WriteObject write (lv_name lvi), SafeWrite write (bytes64 (lv_pos lvi)),
           SafeWrite write (bytes64 (lv_start_op lvi)), SafeWrite write (bytes64 (lv_end_op lvi))]"

definition load_local :: "'r reader \<Rightarrow> (localvar, 'r) rop" where
  "load_local read =
     rbind (ReadObject read) (\<lambda>name.
       rbind (SafeRead read 8) (\<lambda>p.
         rbind (SafeRead read 8) (\<lambda>s.
           rbind (SafeRead read 8) (\<lambda>e.
             rreturn \<lparr>lv_name = name, lv_start_op = word64 s, lv_end_op = word64 e, lv_pos = word64 p\<rparr>))))"

abbreviation count :: "'a list \<Rightarrow> i64" where
  "count xs \<equiv> of_nat (length xs)"

fun proto_Save :: "'w writer \<Rightarrow> (outervar \<Rightarrow> u32) \<Rightarrow> proto \<Rightarrow> 'w wop" where
  "proto_Save write pad (Proto f fs) =
     wseq
      ([WriteTag write SQ_CLOSURESTREAM_PART,
        WriteObject write (ph_sourcename f), WriteObject write (ph_name f),
        WriteTag write SQ_CLOSURESTREAM_PART,
        SafeWrite write (bytes64 (count (ph_literals f))),
        SafeWrite write (bytes64 (count (ph_parameters f))),
        SafeWrite write (bytes64 (count (ph_outervalues f))),
        SafeWrite write (bytes64 (count (ph_localvarinfos f))),
        SafeWrite write (bytes64 (count (ph_lineinfos f))),
        SafeWrite write (bytes64 (count (ph_defaultparams f))),
        SafeWrite write (bytes64 (count (ph_instructions f))),
        SafeWrite write (bytes64 (count fs)),
        WriteTag write SQ_CLOSURESTREAM_PART,
        wseq (map (WriteObject write) (ph_literals f)),
        WriteTag write SQ_CLOSURESTREAM_PART,
        wseq (map (WriteObject write) (ph_parameters f)),
        WriteTag write SQ_CLOSURESTREAM_PART,
        wseq (map (save_outer write pad) (ph_outervalues f)),
        WriteTag write SQ_CLOSURESTREAM_PART,
        wseq (map (save_local write) (ph_localvarinfos f)),
        WriteTag write SQ_CLOSURESTREAM_PART,
        SafeWrite write (concat (map line_bytes (ph_lineinfos f))),
        WriteTag write SQ_CLOSURESTREAM_PART,
        SafeWrite write (concat (map bytes64 (ph_defaultparams f))),
        WriteTag write SQ_CLOSURESTREAM_PART,
        SafeWrite write (concat (map instr_bytes (ph_instructions f))),
        WriteTag write SQ_CLOSURESTREAM_PART,
        wseq (map (proto_Save write pad) fs),
        SafeWrite write (bytes64 (ph_stacksize f)),
        SafeWrite write [if ph_bgenerator f then 1 else 0],
        SafeWrite write (bytes64 (ph_varparams f))])"

text \<open>
  The size of the memory block of a prototype (\<open>_FUNC_SIZE\<close>). A negative count or a block
  larger than the address space makes the pointers into the block meaningless.
\<close>

definition FUNC_SIZE :: "int \<Rightarrow> int \<Rightarrow> int \<Rightarrow> int \<Rightarrow> int \<Rightarrow> int \<Rightarrow> int \<Rightarrow> int \<Rightarrow> int" where
  "FUNC_SIZE ni nl nparams nfuncs nouters nlineinf localinf defparams =
     232 + (ni - 1) * 8 + nl * 16 + nparams * 16 + nfuncs * 16 + nouters * 40 + nlineinf * 16 +
     localinf * 40 + defparams * 8"

definition counts_ok :: "i64 \<Rightarrow> i64 \<Rightarrow> i64 \<Rightarrow> i64 \<Rightarrow> i64 \<Rightarrow> i64 \<Rightarrow> i64 \<Rightarrow> i64 \<Rightarrow> bool" where
  "counts_ok ni nl np nf no nli nlv nd \<longleftrightarrow>
     (\<forall>c \<in> set [ni, nl, np, nf, no, nli, nlv, nd]. 0 \<le> sint c) \<and>
     FUNC_SIZE (sint ni) (sint nl) (sint np) (sint nf) (sint no) (sint nli) (sint nlv) (sint nd) < 2 ^ 63"

definition read_count :: "'r reader \<Rightarrow> (i64, 'r) rop" where
  "read_count read = rbind (SafeRead read 8) (\<lambda>bs. rreturn (word64 bs))"

definition load_instructions :: "'r reader \<Rightarrow> i64 \<Rightarrow> (instr list, 'r) rop" where
  "load_instructions read n =
     rbind (SafeRead read (8 * n)) (\<lambda>bs.
       case those (map instr_of_bytes (chunks (unat n) 8 bs)) of
         Some is \<Rightarrow> rreturn is
       | None \<Rightarrow> rfail Ser_Undefined)"

definition load_lines :: "'r reader \<Rightarrow> i64 \<Rightarrow> (lineinfo list, 'r) rop" where
  "load_lines read n =
     rbind (SafeRead read (16 * n)) (\<lambda>bs. rreturn (map line_of_bytes (chunks (unat n) 16 bs)))"

definition load_defaults :: "'r reader \<Rightarrow> i64 \<Rightarrow> (i64 list, 'r) rop" where
  "load_defaults read n =
     rbind (SafeRead read (8 * n)) (\<lambda>bs. rreturn (map word64 (chunks (unat n) 8 bs)))"

text \<open>The part of \<open>Load\<close> after the block of the prototype has been created.\<close>

definition load_body ::
    "('r \<Rightarrow> ser_error + (proto \<times> 'r)) \<Rightarrow> 'r reader \<Rightarrow> sqobject \<Rightarrow> sqobject \<Rightarrow>
     i64 \<Rightarrow> i64 \<Rightarrow> i64 \<Rightarrow> i64 \<Rightarrow> i64 \<Rightarrow> i64 \<Rightarrow> i64 \<Rightarrow> i64 \<Rightarrow> (proto, 'r) rop" where
  "load_body load read sourcename name nl np no nlv nli nd ni nf =
     rbind (CheckTag read SQ_CLOSURESTREAM_PART) (\<lambda>_. rbind (read_many (unat nl) (ReadObject read)) (\<lambda>literals.
     rbind (CheckTag read SQ_CLOSURESTREAM_PART) (\<lambda>_. rbind (read_many (unat np) (ReadObject read)) (\<lambda>parameters.
     rbind (CheckTag read SQ_CLOSURESTREAM_PART) (\<lambda>_. rbind (read_many (unat no) (load_outer read)) (\<lambda>outers.
     rbind (CheckTag read SQ_CLOSURESTREAM_PART) (\<lambda>_. rbind (read_many (unat nlv) (load_local read)) (\<lambda>locals.
     rbind (CheckTag read SQ_CLOSURESTREAM_PART) (\<lambda>_. rbind (load_lines read nli) (\<lambda>lines.
     rbind (CheckTag read SQ_CLOSURESTREAM_PART) (\<lambda>_. rbind (load_defaults read nd) (\<lambda>defaults.
     rbind (CheckTag read SQ_CLOSURESTREAM_PART) (\<lambda>_. rbind (load_instructions read ni) (\<lambda>instructions.
     rbind (CheckTag read SQ_CLOSURESTREAM_PART) (\<lambda>_. rbind (read_many (unat nf) load) (\<lambda>functions.
     rbind (SafeRead read 8) (\<lambda>stacksize.
     rbind (SafeRead read 1) (\<lambda>bgenerator.
     rbind (SafeRead read 8) (\<lambda>varparams.
       rreturn (Proto
         \<lparr>ph_sourcename = sourcename, ph_name = name, ph_stacksize = word64 stacksize,
          ph_bgenerator = (bgenerator ! 0 \<noteq> 0), ph_varparams = word64 varparams,
          ph_localvarinfos = locals, ph_lineinfos = lines, ph_literals = literals,
          ph_parameters = parameters, ph_outervalues = outers, ph_defaultparams = defaults,
          ph_instructions = instructions\<rparr> functions))))))))))))))))))))"

fun proto_Load :: "nat \<Rightarrow> 'r reader \<Rightarrow> (proto, 'r) rop" where
  "proto_Load 0 read = rfail Ser_Fuel"
| "proto_Load (Suc fuel) read =
     rbind (CheckTag read SQ_CLOSURESTREAM_PART) (\<lambda>_.
     rbind (ReadObject read) (\<lambda>sourcename.
     rbind (ReadObject read) (\<lambda>name.
     rbind (CheckTag read SQ_CLOSURESTREAM_PART) (\<lambda>_.
     rbind (read_count read) (\<lambda>nl. rbind (read_count read) (\<lambda>np. rbind (read_count read) (\<lambda>no.
     rbind (read_count read) (\<lambda>nlv. rbind (read_count read) (\<lambda>nli. rbind (read_count read) (\<lambda>nd.
     rbind (read_count read) (\<lambda>ni. rbind (read_count read) (\<lambda>nf.
       if counts_ok ni nl np nf no nli nlv nd
       then load_body (proto_Load fuel read) read sourcename name nl np no nlv nli nd ni nf
       else rfail Ser_Undefined))))))))))))"

section \<open>Closures\<close>

record closure =
  cl_function :: proto
  cl_outervalues :: "sqobject list"
  cl_defaultparams :: "sqobject list"
  cl_root :: sqobject

definition closure_Create :: "proto \<Rightarrow> sqobject \<Rightarrow> closure" where
  "closure_Create func root =
     \<lparr>cl_function = func, cl_outervalues = replicate (length (ph_outervalues (pr_head func))) VNull,
      cl_defaultparams = replicate (length (ph_defaultparams (pr_head func))) VNull, cl_root = root\<rparr>"

definition closure_Save :: "'w writer \<Rightarrow> (outervar \<Rightarrow> u32) \<Rightarrow> closure \<Rightarrow> 'w wop" where
  "closure_Save write pad c =
     wseq [WriteTag write SQ_CLOSURESTREAM_HEAD, WriteTag write 1, WriteTag write 8, WriteTag write 4,
           proto_Save write pad (cl_function c), WriteTag write SQ_CLOSURESTREAM_TAIL]"

definition closure_Load :: "nat \<Rightarrow> 'r reader \<Rightarrow> sqobject \<Rightarrow> (closure, 'r) rop" where
  "closure_Load fuel read root =
     rbind (CheckTag read SQ_CLOSURESTREAM_HEAD) (\<lambda>_. rbind (CheckTag read 1) (\<lambda>_.
     rbind (CheckTag read 8) (\<lambda>_. rbind (CheckTag read 4) (\<lambda>_.
     rbind (proto_Load fuel read) (\<lambda>func.
     rbind (CheckTag read SQ_CLOSURESTREAM_TAIL) (\<lambda>_.
       rreturn (closure_Create func root)))))))"

definition SQ_BYTECODE_STREAM_TAG :: "16 word" where "SQ_BYTECODE_STREAM_TAG = 0xFAFA"

definition sq_writeclosure :: "'w writer \<Rightarrow> (outervar \<Rightarrow> u32) \<Rightarrow> closure \<Rightarrow> 'w wop" where
  "sq_writeclosure write pad c w =
     (if ph_outervalues (pr_head (cl_function c)) \<noteq> []
      then Inl (Ser_Error ''a closure with free variables bound cannot be serialized'')
      else case write (bytes16 SQ_BYTECODE_STREAM_TAG) w of
             (n, w) \<Rightarrow> if n \<noteq> 2 then Inl (Ser_Error ''io error'') else closure_Save write pad c w)"

definition sq_readclosure :: "nat \<Rightarrow> 'r reader \<Rightarrow> sqobject \<Rightarrow> (closure, 'r) rop" where
  "sq_readclosure fuel read root r =
     (case read 2 r of
        ((n, tag), r) \<Rightarrow>
          if n \<noteq> 2 then Inl (Ser_Error ''io error'')
          else if word16 tag \<noteq> SQ_BYTECODE_STREAM_TAG then Inl (Ser_Error ''invalid stream'')
          else closure_Load fuel read root r)"

end
