(* ===== verification/Sq_Blob.thy ===== *)
theory Sq_Blob
  imports Sq_Bytes Sq_Arith
begin

text \<open>
  The in-memory stream of the standard library: the class \<open>SQBlob\<close> of
  \<^verbatim>\<open>sqstdblobimpl.h\<close>, the native functions of \<^verbatim>\<open>sqstdblob.cpp\<close> and those of the stream
  class in \<^verbatim>\<open>sqstdstream.cpp\<close> applied to a blob.

  The sizes are the \<open>SQInteger\<close> members of the class read as integers; a sum of two of them
  wraps around at 64 bits. The buffer is the list of its \<open>_allocated\<close> bytes. A native
  function gets its arguments as the objects on the stack after \<open>this\<close>, and returns the
  object it pushes (\<^const>\<open>None\<close> when it pushes nothing) or the error it throws.
\<close>

section \<open>SQBlob\<close>

record blob =
  b_size :: int
  b_allocated :: int
  b_ptr :: int
  b_buf :: "byte list"
  b_owns :: bool

text \<open>
  The results that are not values: \<open>sq_throwerror\<close> with its message, \<open>sq_throwobject\<close>, and
  an access outside of an allocated block.
\<close>

datatype blob_error =
  Throw string | ThrowObject sqobject | BadMemory

definition SQBlob :: "int \<Rightarrow> blob" where
  "SQBlob sz =
     \<lparr>b_size = sz, b_allocated = sz, b_ptr = 0, b_buf = replicate (nat sz) 0, b_owns = True\<rparr>"

definition CanAdvance :: "blob \<Rightarrow> int \<Rightarrow> bool" where
  "CanAdvance b n \<longleftrightarrow> \<not> wrap64 (b_ptr b + n) > b_size b"

text \<open>
  A negative size is converted to a huge unsigned number by \<open>sq_malloc\<close> and \<open>memset\<close>.
\<close>

definition blob_Resize :: "int \<Rightarrow> blob \<Rightarrow> blob_error + (bool \<times> blob)" where
  "blob_Resize n b =
     (if \<not> b_owns b then Inr (False, b)
      else if n = b_allocated b then Inr (True, b)
      else if n < 0 then Inl BadMemory
      else
        let keep = (if b_size b > n then n else b_size b);
            newbuf = take (nat keep) (b_buf b) @ replicate (nat (n - keep)) 0
        in Inr (True, b\<lparr>b_buf := newbuf, b_allocated := n,
                        b_size := (if b_size b > n then n else b_size b),
                        b_ptr := (if b_ptr b > n then n else b_ptr b)\<rparr>))"

definition GrowBufOf :: "int \<Rightarrow> blob \<Rightarrow> blob_error + (bool \<times> blob)" where
  "GrowBufOf n b =
     bindE (if wrap64 (b_size b + n) > b_allocated b
            then if wrap64 (b_size b + n) > wrap64 (b_size b * 2)
                 then blob_Resize (wrap64 (b_size b + n)) b
                 else blob_Resize (wrap64 (b_size b * 2)) b
            else Inr (True, b))
       (\<lambda>(ret, b). Inr (ret, b\<lparr>b_size := wrap64 (b_size b + n)\<rparr>))"

text \<open>\<open>memcpy\<close> into and out of the buffer, which must cover the bytes.\<close>

definition buf_store :: "blob \<Rightarrow> byte list \<Rightarrow> blob_error + blob" where
  "buf_store b bs =
     (if 0 \<le> b_ptr b \<and> nat (b_ptr b) + length bs \<le> length (b_buf b)
      then Inr (b\<lparr>b_buf := take (nat (b_ptr b)) (b_buf b) @ bs @ drop (nat (b_ptr b) + length bs) (b_buf b)\<rparr>)
      else Inl BadMemory)"

definition buf_load :: "blob \<Rightarrow> int \<Rightarrow> blob_error + byte list" where
  "buf_load b n =
     (if 0 \<le> b_ptr b \<and> 0 \<le> n \<and> nat (b_ptr b + n) \<le> length (b_buf b)
      then Inr (take (nat n) (drop (nat (b_ptr b)) (b_buf b)))
      else Inl BadMemory)"

definition blob_Write :: "byte list \<Rightarrow> blob \<Rightarrow> blob_error + (int \<times> blob)" where
  "blob_Write bs b =
     (let sz = int (length bs)
      in bindE (if CanAdvance b sz then Inr b
                else bindE (GrowBufOf (wrap64 (b_ptr b + sz - b_size b)) b) (\<lambda>(_, b). Inr b))
           (\<lambda>b. bindE (buf_store b bs) (\<lambda>b.
              Inr (sz, b\<lparr>b_ptr := wrap64 (b_ptr b + sz)\<rparr>))))"

text \<open>\<open>Read\<close> returns the number of bytes and the bytes.\<close>

definition blob_Read :: "int \<Rightarrow> blob \<Rightarrow> blob_error + ((int \<times> byte list) \<times> blob)" where
  "blob_Read sz b =
     (let avail = b_size b - b_ptr b
      in if \<not> CanAdvance b sz \<and> \<not> avail > 0 then Inr ((0, []), b)
         else let n = (if CanAdvance b sz then sz else avail)
              in bindE (buf_load b n) (\<lambda>bs. Inr ((n, bs), b\<lparr>b_ptr := wrap64 (b_ptr b + n)\<rparr>)))"

definition SQ_SEEK_CUR :: int where "SQ_SEEK_CUR = 0"
definition SQ_SEEK_END :: int where "SQ_SEEK_END = 1"
definition SQ_SEEK_SET :: int where "SQ_SEEK_SET = 2"

definition blob_Seek :: "int \<Rightarrow> int \<Rightarrow> blob \<Rightarrow> int \<times> blob" where
  "blob_Seek offset origin b =
     (if origin = SQ_SEEK_SET then
        if offset > b_size b \<or> offset < 0 then (- 1, b) else (0, b\<lparr>b_ptr := offset\<rparr>)
      else if origin = SQ_SEEK_CUR then
        let p = wrap64 (b_ptr b + offset)
        in if p > b_size b \<or> p < 0 then (- 1, b) else (0, b\<lparr>b_ptr := p\<rparr>)
      else if origin = SQ_SEEK_END then
        let p = wrap64 (b_size b + offset)
        in if p > b_size b \<or> p < 0 then (- 1, b) else (0, b\<lparr>b_ptr := p\<rparr>)
      else (- 1, b))"

definition blob_EOS :: "blob \<Rightarrow> bool" where "blob_EOS b \<longleftrightarrow> b_ptr b = b_size b"

section \<open>Arguments of native functions\<close>

definition sq_getinteger :: "sqobject \<Rightarrow> i64 option" where
  "sq_getinteger ob =
     (if sq_isnumeric (sq_type ob) then Some (tointeger ob)
      else if sq_type ob = OT_BOOL then Some (if IsFalse ob then 0 else 1)
      else None)"

definition sq_getfloat :: "sqobject \<Rightarrow> u32 option" where
  "sq_getfloat ob = (if sq_isnumeric (sq_type ob) then Some (tofloat ob) else None)"

text \<open>
  The type mask \<open>n\<close> of a parameter has been checked before the native function runs
  (\<open>CallNative\<close>), so the argument is a number.
\<close>

abbreviation int_arg :: "sqobject \<Rightarrow> int" where
  "int_arg ob \<equiv> sint (tointeger ob)"

section \<open>The native functions of a blob\<close>

definition blob_resize_fn :: "sqobject \<Rightarrow> blob \<Rightarrow> blob_error + (sqobject option \<times> blob)" where
  "blob_resize_fn arg b =
     bindE (blob_Resize (int_arg arg) b) (\<lambda>(ok, b).
       if ok then Inr (None, b) else Inl (Throw ''resize failed''))"

definition swap_dword :: "u32 \<Rightarrow> u32" where
  "swap_dword n = drop_bit 24 (n AND 0xFF000000) OR drop_bit 8 (n AND 0x00FF0000) OR
                  push_bit 8 (n AND 0x0000FF00) OR push_bit 24 (n AND 0x000000FF)"

definition swap_word :: "16 word \<Rightarrow> 16 word" where
  "swap_word n = (drop_bit 8 n AND 0x00FF) OR (push_bit 8 n AND 0xFF00)"

fun swap4_loop :: "nat \<Rightarrow> byte list \<Rightarrow> byte list" where
  "swap4_loop 0 bs = bs"
| "swap4_loop (Suc k) bs = bytes32 (swap_dword (word32 (take 4 bs))) @ swap4_loop k (drop 4 bs)"

fun swap2_loop :: "nat \<Rightarrow> byte list \<Rightarrow> byte list" where
  "swap2_loop 0 bs = bs"
| "swap2_loop (Suc k) bs = bytes16 (swap_word (word16 (take 2 bs))) @ swap2_loop k (drop 2 bs)"

definition blob_swap4 :: "blob \<Rightarrow> blob" where
  "blob_swap4 b = b\<lparr>b_buf := swap4_loop (nat (b_size b div 4)) (b_buf b)\<rparr>"

definition blob_swap2 :: "blob \<Rightarrow> blob" where
  "blob_swap2 b = b\<lparr>b_buf := swap2_loop (nat (b_size b div 2)) (b_buf b)\<rparr>"

definition blob_set :: "sqobject \<Rightarrow> sqobject \<Rightarrow> blob \<Rightarrow> blob_error + (sqobject option \<times> blob)" where
  "blob_set idx val b =
     (let i = int_arg idx
      in if i < 0 \<or> i \<ge> b_size b then Inl (Throw ''index out of range'')
         else Inr (Some val, b\<lparr>b_buf := (b_buf b)[nat i := ucast (tointeger val)]\<rparr>))"

definition blob_get :: "sqobject \<Rightarrow> blob \<Rightarrow> blob_error + sqobject" where
  "blob_get idx b =
     (if \<not> sq_isnumeric (sq_type idx) then Inl (ThrowObject VNull)
      else let i = int_arg idx
           in if i < 0 \<or> i \<ge> b_size b then Inl (Throw ''index out of range'')
              else Inr (VInteger (ucast (b_buf b ! nat i))))"

definition blob_nexti :: "sqobject \<Rightarrow> blob \<Rightarrow> blob_error + sqobject" where
  "blob_nexti idx b =
     (if idx = VNull then Inr (VInteger 0)
      else case sq_getinteger idx of
             Some i \<Rightarrow> if sint (i + 1) < b_size b then Inr (VInteger (i + 1)) else Inr VNull
           | None \<Rightarrow> Inl (Throw ''internal error (_nexti) wrong argument type''))"

text \<open>
  The constructor, with the size argument when it is given; \<open>setup\<close> is whether
  \<open>sq_setinstanceup\<close> succeeds.
\<close>

definition blob_constructor :: "bool \<Rightarrow> sqobject option \<Rightarrow> blob_error + blob" where
  "blob_constructor setup arg =
     (let sz = (case arg of Some ob \<Rightarrow> int_arg ob | None \<Rightarrow> 0)
      in if sz < 0 then Inl (Throw ''cannot create blob with negative size'')
         else if setup then Inr (SQBlob sz) else Inl (Throw ''cannot create blob''))"

definition blob_cloned :: "bool \<Rightarrow> blob \<Rightarrow> blob_error + blob" where
  "blob_cloned setup other =
     (let thisone = SQBlob (b_size other)
      in if setup then Inr (thisone\<lparr>b_buf := take (nat (b_size other)) (b_buf other)\<rparr>)
         else Inl (Throw ''cannot clone blob''))"

section \<open>Global functions\<close>

text \<open>The first four bytes of the integer are reinterpreted.\<close>

definition g_casti2f :: "sqobject \<Rightarrow> sqobject" where
  "g_casti2f ob = VFloat (word32 (take 4 (bytes64 (tointeger ob))))"

text \<open>
  \<open>castf2i\<close> reads the eight bytes at the address of a four-byte float; \<open>beyond\<close> is what lies
  in memory after it.
\<close>

definition g_castf2i :: "byte list \<Rightarrow> sqobject \<Rightarrow> sqobject" where
  "g_castf2i beyond ob = VInteger (word64 (bytes32 (tofloat ob) @ take 4 beyond))"

definition g_swap2 :: "sqobject \<Rightarrow> sqobject" where
  "g_swap2 ob =
     (let s = ucast (ucast (tointeger ob) :: 16 word) :: u32
      in VInteger (ucast ((push_bit 8 s OR (drop_bit 8 s AND 0x00FF)) AND 0xFFFF)))"

definition g_swap4 :: "sqobject \<Rightarrow> sqobject" where
  "g_swap4 ob = VInteger (ucast (swap_dword (ucast (tointeger ob))))"

definition g_swapfloat :: "sqobject \<Rightarrow> sqobject" where
  "g_swapfloat ob = VFloat (swap_dword (tofloat ob))"

section \<open>The stream functions on a blob\<close>

text \<open>Conversions between the 32-bit \<open>SQFloat\<close> and \<open>double\<close>.\<close>

definition float_to_double :: "u32 \<Rightarrow> u64" where
  "float_to_double f =
     (if float_sign f then 0x8000000000000000 else 0) OR
     (if is_nan f then 0x7FF8000000000000 OR push_bit 29 (ucast (f AND 0x7FFFFF))
      else if is_inf f then 0x7FF0000000000000
      else if float_zero f then 0
      else word_of_int (double_of_quotient (abs (float_units f)) (2 ^ 149)))"

definition double_bits_to_float :: "u64 \<Rightarrow> u32" where
  "double_bits_to_float d =
     (if bit d 63 then 0x80000000 else 0) OR
     (if d AND 0x7FF0000000000000 = 0x7FF0000000000000 \<and> d AND 0x000FFFFFFFFFFFFF \<noteq> 0
      then 0x7FC00000 OR ucast (drop_bit 29 (d AND 0x000FFFFFFFFFFFFF))
      else double_to_float (uint (d AND 0x7FFFFFFFFFFFFFFF)))"

text \<open>
  \<open>SAFE_READN\<close>: a short read is an error, and leaves the position after what was read.
\<close>

definition SAFE_READN :: "nat \<Rightarrow> blob \<Rightarrow> (blob_error + byte list) \<times> blob" where
  "SAFE_READN n b =
     (case blob_Read (int n) b of
        Inl e \<Rightarrow> (Inl e, b)
      | Inr ((k, bs), b') \<Rightarrow> if k \<noteq> int n then (Inl (Throw ''io error''), b') else (Inr bs, b'))"

text \<open>The formats of \<open>readn\<close>: their size and the object made of the bytes.\<close>

definition readn_format :: "int \<Rightarrow> (nat \<times> (byte list \<Rightarrow> sqobject)) option" where
  "readn_format fmt = map_of
     [(of_char CHR ''l'', 8, \<lambda>bs. VInteger (word64 bs)),
      (of_char CHR ''i'', 4, \<lambda>bs. VInteger (scast (word32 bs))),
      (of_char CHR ''s'', 2, \<lambda>bs. VInteger (scast (word16 bs))),
      (of_char CHR ''w'', 2, \<lambda>bs. VInteger (ucast (word16 bs))),
      (of_char CHR ''c'', 1, \<lambda>bs. VInteger (scast (hd bs))),
      (of_char CHR ''b'', 1, \<lambda>bs. VInteger (ucast (hd bs))),
      (of_char CHR ''f'', 4, \<lambda>bs. VFloat (word32 bs)),
      (of_char CHR ''d'', 8, \<lambda>bs. VFloat (double_bits_to_float (word64 bs)))] fmt"

definition stream_readn :: "sqobject \<Rightarrow> blob \<Rightarrow> (blob_error + sqobject) \<times> blob" where
  "stream_readn fmt b =
     (case readn_format (int_arg fmt) of
        None \<Rightarrow> (Inl (Throw ''invalid format''), b)
      | Some (n, f) \<Rightarrow>
          (case SAFE_READN n b of
             (Inl e, b) \<Rightarrow> (Inl e, b)
           | (Inr bs, b) \<Rightarrow> (Inr (f bs), b)))"

definition writen_format :: "int \<Rightarrow> (sqobject \<Rightarrow> byte list) option" where
  "writen_format fmt = map_of
     [(of_char CHR ''l'', \<lambda>v. bytes64 (tointeger v)),
      (of_char CHR ''i'', \<lambda>v. bytes32 (ucast (tointeger v))),
      (of_char CHR ''s'', \<lambda>v. bytes16 (ucast (tointeger v))),
      (of_char CHR ''w'', \<lambda>v. bytes16 (ucast (tointeger v))),
      (of_char CHR ''c'', \<lambda>v. [ucast (tointeger v)]),
      (of_char CHR ''b'', \<lambda>v. [ucast (tointeger v)]),
      (of_char CHR ''f'', \<lambda>v. bytes32 (tofloat v)),
      (of_char CHR ''d'', \<lambda>v. bytes64 (float_to_double (tofloat v)))] fmt"

definition stream_writen :: "sqobject \<Rightarrow> sqobject \<Rightarrow> blob \<Rightarrow> blob_error + blob" where
  "stream_writen v fmt b =
     (case writen_format (int_arg fmt) of
        None \<Rightarrow> Inl (Throw ''invalid format'')
      | Some f \<Rightarrow> bindE (blob_Write (f v) b) (\<lambda>(_, b). Inr b))"

text \<open>
  \<open>readblob\<close> makes a new blob of the bytes it has read (\<open>sqstd_createblob\<close> runs the
  constructor of the class). A negative size is passed on to \<open>Read\<close>.
\<close>

definition stream_readblob :: "sqobject \<Rightarrow> blob \<Rightarrow> (blob_error + blob) \<times> blob" where
  "stream_readblob arg b =
     (let sz = (if int_arg arg > b_size b then b_size b else int_arg arg)
      in case blob_Read sz b of
           Inl e \<Rightarrow> (Inl e, b)
         | Inr ((res, bs), b') \<Rightarrow>
             if res \<le> 0 then (Inl (Throw ''no data left to read''), b')
             else (Inr ((SQBlob res)\<lparr>b_buf := bs\<rparr>), b'))"

definition stream_writeblob :: "blob \<Rightarrow> blob \<Rightarrow> blob_error + (sqobject \<times> blob)" where
  "stream_writeblob other b =
     bindE (blob_Write (take (nat (b_size other)) (b_buf other)) b) (\<lambda>(n, b).
       if n \<noteq> b_size other then Inl (Throw ''io error'')
       else Inr (VInteger (word_of_int (b_size other)), b))"

definition stream_seek :: "sqobject \<Rightarrow> sqobject option \<Rightarrow> blob \<Rightarrow> blob_error + (sqobject \<times> blob)" where
  "stream_seek offset t b =
     bindE (case t of
              None \<Rightarrow> Inr SQ_SEEK_SET
            | Some ob \<Rightarrow>
                if int_arg ob = of_char CHR ''b'' then Inr SQ_SEEK_SET
                else if int_arg ob = of_char CHR ''c'' then Inr SQ_SEEK_CUR
                else if int_arg ob = of_char CHR ''e'' then Inr SQ_SEEK_END
                else Inl (Throw ''invalid origin''))
       (\<lambda>origin. let (r, b) = blob_Seek (int_arg offset) origin b
                 in Inr (VInteger (word_of_int r), b))"

definition stream_tell :: "blob \<Rightarrow> sqobject" where
  "stream_tell b = VInteger (word_of_int (b_ptr b))"

definition stream_len :: "blob \<Rightarrow> sqobject" where
  "stream_len b = VInteger (word_of_int (b_size b))"

definition stream_eos :: "blob \<Rightarrow> sqobject" where
  "stream_eos b = (if blob_EOS b then VInteger 1 else VNull)"

end
