(* ===== verification/Sq_Blob_Correct.thy ===== *)
theory Sq_Blob_Correct
  imports Sq_Blob
begin

text \<open>
  A blob implements a file: a list of bytes with a position. Its operations keep the
  invariant of the class (the position is inside the contents, the contents inside the
  buffer, so no access leaves the buffer) and act on the file they represent like the
  operations of a file; numbers written with \<open>writen\<close> are read back by \<open>readn\<close>.
\<close>

section \<open>Invariant and abstraction\<close>

definition blob_inv :: "blob \<Rightarrow> bool" where
  "blob_inv b \<longleftrightarrow> 0 \<le> b_ptr b \<and> b_ptr b \<le> b_size b \<and> b_size b \<le> b_allocated b \<and>
     b_allocated b = int (length (b_buf b)) \<and> b_allocated b < 2 ^ 63 \<and> b_owns b"

text \<open>The file that a blob stands for: its contents and the position in them.\<close>

type_synonym bytefile = "byte list \<times> nat"

definition blob_abs :: "blob \<Rightarrow> bytefile" where
  "blob_abs b = (take (nat (b_size b)) (b_buf b), nat (b_ptr b))"

definition file_write :: "byte list \<Rightarrow> bytefile \<Rightarrow> bytefile" where
  "file_write bs = (\<lambda>(c, p). (take p c @ bs @ drop (p + length bs) c, p + length bs))"

definition file_read :: "nat \<Rightarrow> bytefile \<Rightarrow> byte list \<times> bytefile" where
  "file_read n = (\<lambda>(c, p). let bs = take n (drop p c) in (bs, (c, p + length bs)))"

definition file_seek :: "int \<Rightarrow> bytefile \<Rightarrow> bool \<times> bytefile" where
  "file_seek target = (\<lambda>(c, p). if 0 \<le> target \<and> target \<le> int (length c) then (True, (c, nat target))
                              else (False, (c, p)))"

lemma blob_invD:
  assumes "blob_inv b"
  shows "0 \<le> b_ptr b" "b_ptr b \<le> b_size b" "b_size b \<le> b_allocated b"
    "b_allocated b = int (length (b_buf b))" "b_allocated b < 2 ^ 63" "b_owns b"
  using assms by (auto simp: blob_inv_def)

lemma blob_inv_new: "0 \<le> n \<Longrightarrow> n < 2 ^ 63 \<Longrightarrow> blob_inv (SQBlob n)"
  by (simp add: blob_inv_def SQBlob_def)

section \<open>Growing\<close>

lemma blob_Resize_correct:
  assumes inv: "blob_inv b" and n: "0 \<le> n" "n < 2 ^ 63"
  shows "\<exists>b'. blob_Resize n b = Inr (True, b') \<and> blob_inv b' \<and> b_allocated b' = n
           \<and> b_size b' = min n (b_size b) \<and> b_ptr b' = min n (b_ptr b)
           \<and> take (nat (b_size b')) (b_buf b') = take (nat (b_size b')) (b_buf b)"
proof (cases "n = b_allocated b")
  case True
  with inv show ?thesis by (auto simp: blob_Resize_def blob_inv_def)
next
  case False
  note i = blob_invD [OF inv]
  let ?k = "min n (b_size b)"
  have k: "(if b_size b > n then n else b_size b) = ?k" "(if b_ptr b > n then n else b_ptr b) = min n (b_ptr b)"
    by auto
  have l: "nat ?k \<le> length (b_buf b)" using i by linarith
  have len: "int (length (take (nat ?k) (b_buf b) @ replicate (nat (n - ?k)) (0 :: byte))) = n"
    using n(1) i(1,2) min_absorb2 [OF l] by (simp add: min.commute)
  define b' where "b' = b\<lparr>b_buf := take (nat ?k) (b_buf b) @ replicate (nat (n - ?k)) 0, b_allocated := n,
                             b_size := ?k, b_ptr := min n (b_ptr b)\<rparr>"
  have f: "b_size b' = ?k" "b_ptr b' = min n (b_ptr b)" "b_allocated b' = n" "b_owns b' = b_owns b"
    "b_buf b' = take (nat ?k) (b_buf b) @ replicate (nat (n - ?k)) 0"
    by (simp_all add: b'_def)
  have "blob_Resize n b = Inr (True, b')"
    using False i n by (simp add: blob_Resize_def k Let_def b'_def)
  moreover have "blob_inv b'"
    unfolding blob_inv_def f len using i(1,2,6) n by simp
  moreover have "take (nat (b_size b')) (b_buf b') = take (nat (b_size b')) (b_buf b)"
    unfolding f using l by simp
  ultimately show ?thesis using f by blast
qed

lemma GrowBufOf_correct:
  assumes inv: "blob_inv b" and n: "0 \<le> n" "2 * (b_size b + n) < 2 ^ 63"
  shows "\<exists>b'. GrowBufOf n b = Inr (True, b') \<and> blob_inv b' \<and> b_size b' = b_size b + n \<and> b_ptr b' = b_ptr b
           \<and> take (nat (b_size b)) (b_buf b') = take (nat (b_size b)) (b_buf b)"
proof -
  note i = blob_invD [OF inv]
  have w: "wrap64 (b_size b + n) = b_size b + n" "wrap64 (b_size b * 2) = b_size b * 2"
    using i n by (auto intro!: wrap64_small)
  show ?thesis
  proof (cases "b_size b + n > b_allocated b")
    case False
    let ?b = "b\<lparr>b_size := b_size b + n\<rparr>"
    have "GrowBufOf n b = Inr (True, ?b)" using False by (simp add: GrowBufOf_def w)
    moreover have "blob_inv ?b" using i n False unfolding blob_inv_def by auto
    ultimately show ?thesis by (intro exI [of _ ?b]) simp
  next
    case True
    let ?m = "if b_size b + n > b_size b * 2 then b_size b + n else b_size b * 2"
    have m: "0 \<le> ?m" "?m < 2 ^ 63" "b_size b + n \<le> ?m" "b_size b \<le> ?m" using i n by auto
    obtain b1 where b1: "blob_Resize ?m b = Inr (True, b1)" "blob_inv b1" "b_allocated b1 = ?m"
      "b_size b1 = b_size b" "b_ptr b1 = b_ptr b"
      "take (nat (b_size b)) (b_buf b1) = take (nat (b_size b)) (b_buf b)"
      using blob_Resize_correct [OF inv m(1,2)] m i by (auto simp: min_def split: if_splits)
    let ?b = "b1\<lparr>b_size := b_size b + n\<rparr>"
    have "GrowBufOf n b = Inr (True, ?b)" using True b1 by (auto simp: GrowBufOf_def w split: if_splits)
    moreover have "blob_inv ?b" using b1 blob_invD [OF b1(2)] n m unfolding blob_inv_def by auto
    ultimately show ?thesis using b1 by (intro exI [of _ ?b]) simp
  qed
qed

section \<open>Writing and reading\<close>

lemma buf_store_correct:
  assumes inv: "blob_inv b" and fit: "b_ptr b + int (length bs) \<le> b_size b"
  shows "\<exists>b'. buf_store b bs = Inr b' \<and> blob_inv b' \<and> b_size b' = b_size b \<and> b_ptr b' = b_ptr b
           \<and> take (nat (b_size b)) (b_buf b')
             = take (nat (b_ptr b)) (b_buf b) @ bs @ drop (nat (b_ptr b) + length bs) (take (nat (b_size b)) (b_buf b))"
proof -
  note i = blob_invD [OF inv]
  let ?p = "nat (b_ptr b)"
  have le: "?p + length bs \<le> length (b_buf b)" "?p + length bs \<le> nat (b_size b)" using i fit by linarith+
  define b' where "b' = b\<lparr>b_buf := take ?p (b_buf b) @ bs @ drop (?p + length bs) (b_buf b)\<rparr>"
  have f: "b_size b' = b_size b" "b_ptr b' = b_ptr b" "b_allocated b' = b_allocated b" "b_owns b' = b_owns b"
    "b_buf b' = take ?p (b_buf b) @ bs @ drop (?p + length bs) (b_buf b)"
    by (simp_all add: b'_def)
  have "length (b_buf b') = length (b_buf b)" using le by (simp add: f)
  then have "blob_inv b'" using inv unfolding blob_inv_def f by simp
  moreover have "buf_store b bs = Inr b'" using le i by (simp add: buf_store_def b'_def)
  moreover have "take (nat (b_size b)) (b_buf b') =
      take ?p (b_buf b) @ bs @ drop (?p + length bs) (take (nat (b_size b)) (b_buf b))"
    using le by (simp add: f drop_take)
  ultimately show ?thesis using f by blast
qed

lemma blob_inv_ptr: "blob_inv b \<Longrightarrow> 0 \<le> p \<Longrightarrow> p \<le> b_size b \<Longrightarrow> blob_inv (b\<lparr>b_ptr := p\<rparr>)"
  by (simp add: blob_inv_def)

lemma blob_Write_correct:
  assumes inv: "blob_inv b" and room: "2 * (b_size b + int (length bs)) < 2 ^ 63"
  shows "\<exists>b'. blob_Write bs b = Inr (int (length bs), b') \<and> blob_inv b'
           \<and> blob_abs b' = file_write bs (blob_abs b)
           \<and> b_size b' = max (b_size b) (b_ptr b + int (length bs))"
proof -
  note i = blob_invD [OF inv]
  let ?n = "int (length bs)"
  let ?p = "nat (b_ptr b)"
  have w: "wrap64 (b_ptr b + ?n) = b_ptr b + ?n" "wrap64 (b_ptr b + ?n - b_size b) = b_ptr b + ?n - b_size b"
    using i room by (auto intro!: wrap64_small)
  obtain b1 where b1: "(if CanAdvance b ?n then Inr b
      else bindE (GrowBufOf (wrap64 (b_ptr b + ?n - b_size b)) b) (\<lambda>(_, b). Inr b)) = Inr b1"
    and inv1: "blob_inv b1" and s1: "b_size b1 = max (b_size b) (b_ptr b + ?n)" and p1: "b_ptr b1 = b_ptr b"
    and t1: "take (nat (b_size b)) (b_buf b1) = take (nat (b_size b)) (b_buf b)"
  proof (cases "CanAdvance b ?n")
    case True
    then have "b_ptr b + ?n \<le> b_size b" by (simp add: CanAdvance_def w)
    then show ?thesis using True inv by (intro that [of b]) auto
  next
    case False
    then have g: "0 \<le> b_ptr b + ?n - b_size b" by (simp add: CanAdvance_def w)
    have r: "2 * (b_size b + (b_ptr b + ?n - b_size b)) < 2 ^ 63" using i(2) room by simp
    from GrowBufOf_correct [OF inv g r] obtain b1 where "GrowBufOf (b_ptr b + ?n - b_size b) b = Inr (True, b1)"
      "blob_inv b1" "b_size b1 = b_size b + (b_ptr b + ?n - b_size b)" "b_ptr b1 = b_ptr b"
      "take (nat (b_size b)) (b_buf b1) = take (nat (b_size b)) (b_buf b)" by blast
    then show ?thesis using False g by (intro that [of b1]) (auto simp: w)
  qed
  have fit: "b_ptr b1 + ?n \<le> b_size b1" using s1 p1 by simp
  from buf_store_correct [OF inv1 fit] obtain b2 where b2: "buf_store b1 bs = Inr b2" "blob_inv b2"
    "b_size b2 = b_size b1" "b_ptr b2 = b_ptr b1"
    "take (nat (b_size b1)) (b_buf b2) =
       take (nat (b_ptr b1)) (b_buf b1) @ bs @ drop (nat (b_ptr b1) + length bs) (take (nat (b_size b1)) (b_buf b1))"
    by blast
  define b3 where "b3 = b2\<lparr>b_ptr := b_ptr b + ?n\<rparr>"
  have "blob_Write bs b = Inr (?n, b3)"
    unfolding blob_Write_def Let_def b1 b3_def using b2 p1 w by simp
  moreover have "blob_inv b3"
    unfolding b3_def by (rule blob_inv_ptr [OF b2(2)]) (use i fit b2(3) p1 in auto)
  moreover have "b_size b3 = b_size b1" "b_ptr b3 = b_ptr b + ?n" "b_buf b3 = b_buf b2"
    by (simp_all add: b3_def b2)
  moreover have "blob_abs b3 = file_write bs (blob_abs b)"
  proof -
    have head: "take ?p (b_buf b1) = take ?p (b_buf b)"
      using t1 i by (metis nat_mono take_take min_def)
    have tail: "drop (?p + length bs) (take (nat (b_size b1)) (b_buf b1)) =
        drop (?p + length bs) (take (nat (b_size b)) (b_buf b))"
    proof (cases "b_ptr b + ?n \<le> b_size b")
      case True
      then show ?thesis using s1 t1 by (simp add: max_def)
    next
      case False
      then have "nat (b_size b1) = ?p + length bs" "nat (b_size b) \<le> ?p + length bs" using s1 i by auto
      then show ?thesis by simp
    qed
    have q: "nat (b_ptr b + ?n) = ?p + length bs" using i by simp
    have "take ?p (take (nat (b_size b)) (b_buf b)) = take ?p (b_buf b)" using i by (simp add: min_def)
    then show ?thesis
      using b2(5) head tail p1 q by (simp add: blob_abs_def file_write_def \<open>b_size b3 = _\<close> \<open>b_ptr b3 = _\<close> \<open>b_buf b3 = _\<close>)
  qed
  ultimately show ?thesis using s1 by auto
qed

lemma blob_Read_correct:
  assumes inv: "blob_inv b" and n: "0 \<le> n" "n < 2 ^ 62" and sz: "b_size b < 2 ^ 62"
  shows "\<exists>bs b'. blob_Read n b = Inr ((int (length bs), bs), b') \<and> blob_inv b'
           \<and> file_read (nat n) (blob_abs b) = (bs, blob_abs b') \<and> b_size b' = b_size b \<and> b_buf b' = b_buf b"
proof -
  note i = blob_invD [OF inv]
  let ?p = "nat (b_ptr b)"
  have w: "wrap64 (b_ptr b + n) = b_ptr b + n" using i n sz by (intro wrap64_small) auto
  define m where "m = min n (b_size b - b_ptr b)"
  define bs where "bs = take (nat m) (drop ?p (b_buf b))"
  have m: "0 \<le> m" "b_ptr b + m \<le> b_size b" using i n by (auto simp: m_def)
  have wm: "wrap64 (b_ptr b + m) = b_ptr b + m" using m i sz by (intro wrap64_small) auto
  have load: "buf_load b m = Inr bs" using m i by (simp add: buf_load_def bs_def)
  have lb: "int (length bs) = m" using m i by (simp add: bs_def)
  have ld: "length (b_buf b) \<ge> nat (b_size b)" using i by linarith
  have dt: "take (nat n) (drop ?p (take (nat (b_size b)) (b_buf b))) = bs"
  proof -
    have "nat (b_size b) - ?p = nat (b_size b - b_ptr b)" using i by simp
    moreover have "min (nat n) (nat (b_size b - b_ptr b)) = nat m" by (auto simp: m_def min_def)
    ultimately show ?thesis by (simp add: bs_def drop_take)
  qed
  define b' where "b' = b\<lparr>b_ptr := b_ptr b + m\<rparr>"
  have inv': "blob_inv b'" unfolding b'_def by (rule blob_inv_ptr [OF inv]) (use m i in auto)
  have "blob_Read n b = Inr ((m, bs), b')"
  proof (cases "CanAdvance b n")
    case True
    then have "m = n" by (auto simp: CanAdvance_def w m_def)
    then show ?thesis using True load wm by (simp add: blob_Read_def b'_def)
  next
    case False
    then have mm: "m = b_size b - b_ptr b" by (auto simp: CanAdvance_def w m_def)
    show ?thesis
    proof (cases "b_size b - b_ptr b > 0")
      case True
      then show ?thesis using False load wm mm by (simp add: blob_Read_def b'_def)
    next
      case False2: False
      then have "m = 0" using mm m by simp
      then have "bs = []" "b' = b" by (simp_all add: bs_def b'_def)
      then show ?thesis using False False2 \<open>m = 0\<close> by (simp add: blob_Read_def)
    qed
  qed
  moreover have "file_read (nat n) (blob_abs b) = (bs, blob_abs b')"
  proof -
    have "?p + length bs = nat (b_ptr b + m)" using lb i(1) m(1) by linarith
    then show ?thesis by (simp only: file_read_def blob_abs_def prod.case Let_def dt) (simp add: b'_def)
  qed
  ultimately show ?thesis using lb inv' by (auto simp: b'_def)
qed

lemma blob_Seek_correct:
  assumes inv: "blob_inv b" and off: "- (2 ^ 62) \<le> off" "off < 2 ^ 62" and sz: "b_size b < 2 ^ 62"
    and org: "(origin, base) \<in> {(SQ_SEEK_SET, 0), (SQ_SEEK_CUR, b_ptr b), (SQ_SEEK_END, b_size b)}"
  shows "\<exists>b'. blob_Seek off origin b = ((if fst (file_seek (base + off) (blob_abs b)) then 0 else - 1), b')
           \<and> blob_inv b' \<and> blob_abs b' = snd (file_seek (base + off) (blob_abs b))
           \<and> b_size b' = b_size b \<and> b_buf b' = b_buf b"
proof -
  note i = blob_invD [OF inv]
  have w: "wrap64 (b_ptr b + off) = b_ptr b + off" "wrap64 (b_size b + off) = b_size b + off"
    using i off sz by (auto intro!: wrap64_small)
  have len: "int (length (fst (blob_abs b))) = b_size b" using i by (simp add: blob_abs_def)
  define t where "t = base + off"
  have s: "blob_Seek off origin b = (if t > b_size b \<or> t < 0 then (- 1, b) else (0, b\<lparr>b_ptr := t\<rparr>))"
    using org by (auto simp: blob_Seek_def SQ_SEEK_SET_def SQ_SEEK_CUR_def SQ_SEEK_END_def w t_def Let_def)
  show ?thesis
  proof (cases "0 \<le> t \<and> t \<le> b_size b")
    case True
    then have "file_seek t (blob_abs b) = (True, blob_abs (b\<lparr>b_ptr := t\<rparr>))"
      using len by (simp add: file_seek_def blob_abs_def)
    moreover have "blob_inv (b\<lparr>b_ptr := t\<rparr>)" using True by (intro blob_inv_ptr [OF inv]) auto
    ultimately show ?thesis using s True by (auto simp: t_def)
  next
    case False
    then have "file_seek t (blob_abs b) = (False, blob_abs b)"
      using len by (auto simp: file_seek_def blob_abs_def)
    then show ?thesis using s False inv by (auto simp: t_def)
  qed
qed

section \<open>Runs\<close>

datatype blob_op = BWrite "byte list" | BRead int | BSeek int int | BResize int

fun blob_step :: "blob_op \<Rightarrow> blob \<Rightarrow> blob_error + ((int \<times> byte list) \<times> blob)" where
  "blob_step (BWrite bs) b = bindE (blob_Write bs b) (\<lambda>(n, b). Inr ((n, []), b))"
| "blob_step (BRead n) b = blob_Read n b"
| "blob_step (BSeek off origin) b = (let (r, b) = blob_Seek off origin b in Inr ((r, []), b))"
| "blob_step (BResize n) b = bindE (blob_Resize n b) (\<lambda>(ok, b). Inr ((if ok then 1 else 0, []), b))"

fun blob_run :: "blob_op list \<Rightarrow> blob \<Rightarrow> blob_error + ((int \<times> byte list) list \<times> blob)" where
  "blob_run [] b = Inr ([], b)"
| "blob_run (q # qs) b =
     bindE (blob_step q b) (\<lambda>(r, b). bindE (blob_run qs b) (\<lambda>(rs, b). Inr (r # rs, b)))"

definition seek_base :: "int \<Rightarrow> bytefile \<Rightarrow> int" where
  "seek_base origin = (\<lambda>(c, p). if origin = SQ_SEEK_SET then 0 else if origin = SQ_SEEK_CUR then int p
                                else int (length c))"

text \<open>The same operations on a file; shrinking a file cuts its contents.\<close>

fun file_step :: "blob_op \<Rightarrow> bytefile \<Rightarrow> (int \<times> byte list) \<times> bytefile" where
  "file_step (BWrite bs) f = ((int (length bs), []), file_write bs f)"
| "file_step (BRead n) f = (let (bs, f) = file_read (nat n) f in ((int (length bs), bs), f))"
| "file_step (BSeek off origin) f =
     (let (ok, f') = file_seek (seek_base origin f + off) f in ((if ok then 0 else - 1, []), f'))"
| "file_step (BResize n) f = ((1, []), (take (nat n) (fst f), min (nat n) (snd f)))"

fun file_run :: "blob_op list \<Rightarrow> bytefile \<Rightarrow> (int \<times> byte list) list \<times> bytefile" where
  "file_run [] f = ([], f)"
| "file_run (q # qs) f = (let (r, f) = file_step q f; (rs, f) = file_run qs f in (r # rs, f))"

text \<open>Arguments that do not overflow, and the number of bytes a run writes.\<close>

fun op_bounded :: "blob_op \<Rightarrow> bool" where
  "op_bounded (BWrite bs) \<longleftrightarrow> True"
| "op_bounded (BRead n) \<longleftrightarrow> 0 \<le> n \<and> n < 2 ^ 62"
| "op_bounded (BSeek off origin) \<longleftrightarrow>
     - (2 ^ 62) \<le> off \<and> off < 2 ^ 62 \<and> origin \<in> {SQ_SEEK_SET, SQ_SEEK_CUR, SQ_SEEK_END}"
| "op_bounded (BResize n) \<longleftrightarrow> 0 \<le> n \<and> n < 2 ^ 63"

fun op_writes :: "blob_op \<Rightarrow> nat" where
  "op_writes (BWrite bs) = length bs"
| "op_writes _ = 0"

lemma blob_abs_length: "blob_inv b \<Longrightarrow> int (length (fst (blob_abs b))) = b_size b"
  using blob_invD(1-4) [of b] by (simp add: blob_abs_def)

lemma blob_step_refines:
  assumes inv: "blob_inv b" and ok: "op_bounded q" and room: "b_size b + int (op_writes q) < 2 ^ 61"
  shows "\<exists>r b'. blob_step q b = Inr (r, b') \<and> blob_inv b' \<and> file_step q (blob_abs b) = (r, blob_abs b')
           \<and> b_size b' \<le> b_size b + int (op_writes q)"
proof (cases q)
  case (BWrite bs)
  have r: "2 * (b_size b + int (length bs)) < 2 ^ 63" using room BWrite by simp
  show ?thesis using blob_Write_correct [OF inv r] blob_invD(2) [OF inv] BWrite by auto
next
  case (BRead n)
  have "b_size b < 2 ^ 62" using room BRead by simp
  from blob_Read_correct [OF inv _ _ this, of n] obtain bs b' where
    "blob_Read n b = Inr ((int (length bs), bs), b')" "blob_inv b'"
    "file_read (nat n) (blob_abs b) = (bs, blob_abs b')" "b_size b' = b_size b" using ok BRead by auto
  then show ?thesis using BRead by simp
next
  case (BSeek off origin)
  have s: "b_size b < 2 ^ 62" using room BSeek by simp
  have o: "- (2 ^ 62) \<le> off" "off < 2 ^ 62" "origin \<in> {SQ_SEEK_SET, SQ_SEEK_CUR, SQ_SEEK_END}"
    using ok BSeek by auto
  have base: "(origin, seek_base origin (blob_abs b)) \<in>
      {(SQ_SEEK_SET, 0), (SQ_SEEK_CUR, b_ptr b), (SQ_SEEK_END, b_size b)}"
    using o(3) blob_abs_length [OF inv] blob_invD(1) [OF inv]
    by (auto simp: seek_base_def blob_abs_def SQ_SEEK_SET_def SQ_SEEK_CUR_def SQ_SEEK_END_def)
  from blob_Seek_correct [OF inv o(1,2) s base] obtain b' where
    "blob_Seek off origin b = ((if fst (file_seek (seek_base origin (blob_abs b) + off) (blob_abs b)) then 0 else - 1), b')"
    "blob_inv b'" "blob_abs b' = snd (file_seek (seek_base origin (blob_abs b) + off) (blob_abs b))"
    "b_size b' = b_size b" by blast
  then show ?thesis using BSeek by (simp add: split_beta)
next
  case (BResize n)
  then have n: "0 \<le> n" "n < 2 ^ 63" using ok by auto
  from blob_Resize_correct [OF inv n] obtain b' where b': "blob_Resize n b = Inr (True, b')" "blob_inv b'"
    "b_size b' = min n (b_size b)" "b_ptr b' = min n (b_ptr b)"
    "take (nat (b_size b')) (b_buf b') = take (nat (b_size b')) (b_buf b)" by blast
  have "blob_abs b' = (take (nat n) (fst (blob_abs b)), min (nat n) (snd (blob_abs b)))"
    unfolding blob_abs_def b'(5) using b'(3,4) n blob_invD [OF inv] by (simp add: min_def)
  then show ?thesis using BResize b' by simp
qed

text \<open>
  A negative size is not refused: \<open>Read\<close> and \<open>Resize\<close> pass it to \<open>memcpy\<close> and \<open>memset\<close>, and so
  do \<open>readblob(-1)\<close> and \<open>resize(-1)\<close> of a script.\<close>

lemma blob_negative_size:
  assumes "blob_inv b" "n < 0" "- (2 ^ 62) \<le> n" "b_size b < 2 ^ 62"
  shows "blob_Resize n b = Inl BadMemory" "blob_Read n b = Inl BadMemory"
    and "int_arg x = n \<Longrightarrow> blob_resize_fn x b = Inl BadMemory"
    and "int_arg x = n \<Longrightarrow> stream_readblob x b = (Inl BadMemory, b)"
proof -
  note inv = blob_invD [OF assms(1)]
  show resize: "blob_Resize n b = Inl BadMemory" using inv assms by (auto simp: blob_Resize_def)
  have "wrap64 (b_ptr b + n) = b_ptr b + n" using inv assms by (intro wrap64_small) auto
  then have "CanAdvance b n" using inv assms by (simp add: CanAdvance_def)
  then show read: "blob_Read n b = Inl BadMemory" using assms by (simp add: blob_Read_def buf_load_def Let_def)
  show "int_arg x = n \<Longrightarrow> blob_resize_fn x b = Inl BadMemory" using resize by (simp add: blob_resize_fn_def)
  have "\<not> n > b_size b" using inv assms by linarith
  then show "int_arg x = n \<Longrightarrow> stream_readblob x b = (Inl BadMemory, b)"
    using read by (simp add: stream_readblob_def Let_def)
qed

text \<open>
  C6. A blob is a file in memory. Take any run of \<open>Write\<close>, \<open>Read\<close>, \<open>Seek\<close> and \<open>Resize\<close> on a
  blob in which no size given to \<open>Read\<close> (below \<open>2 ^ 62\<close>) or \<open>Resize\<close> is negative, the offsets
  of \<open>Seek\<close> are at most \<open>2 ^ 62\<close> away with one of the three origins, and the size of the
  blob and all that is written together are below \<open>2 ^ 61\<close>. Such a run
  accesses only the buffer and returns what the same run on a file
  with that contents returns, where \<open>Write\<close> overwrites from the position and extends the
  end, \<open>Read\<close> returns what is left up to the size asked for, \<open>Seek\<close> refuses a position
  outside of the contents and \<open>Resize\<close> can only cut the contents.\<close>

theorem blob_run_refines_file:
  assumes "blob_inv b" "\<forall>q \<in> set qs. op_bounded q" "b_size b + int (sum_list (map op_writes qs)) < 2 ^ 61"
  shows "\<exists>rs b'. blob_run qs b = Inr (rs, b') \<and> blob_inv b' \<and> file_run qs (blob_abs b) = (rs, blob_abs b')"
  using assms
proof (induction qs arbitrary: b)
  case (Cons q qs)
  from blob_step_refines [OF Cons.prems(1), of q] Cons.prems obtain r b1 where
    1: "blob_step q b = Inr (r, b1)" "blob_inv b1" "file_step q (blob_abs b) = (r, blob_abs b1)"
       "b_size b1 \<le> b_size b + int (op_writes q)" by auto
  from Cons.IH [OF 1(2)] Cons.prems 1(4) obtain rs b2 where
    "blob_run qs b1 = Inr (rs, b2)" "blob_inv b2" "file_run qs (blob_abs b1) = (rs, blob_abs b2)" by auto
  then show ?case using 1 by simp
qed simp

theorem blob_run_refines_file_witness:
  "\<exists>rs b'. blob_run [BWrite [1, 2, 3], BSeek (- 2) SQ_SEEK_END, BRead 5] (SQBlob 0) = Inr (rs, b')
         \<and> rs = [(3, []), (0, []), (2, [2, 3])]"
proof -
  have ops: "\<forall>q \<in> set [BWrite [1, 2, 3], BSeek (- 2) SQ_SEEK_END, BRead 5]. op_bounded q" by simp
  have room: "b_size (SQBlob 0) + int (sum_list (map op_writes [BWrite [1, 2, 3], BSeek (- 2) SQ_SEEK_END, BRead 5]))
      < 2 ^ 61" by (simp add: SQBlob_def)
  obtain rs b' where r: "blob_run [BWrite [1, 2, 3], BSeek (- 2) SQ_SEEK_END, BRead 5] (SQBlob 0) = Inr (rs, b')"
    "file_run [BWrite [1, 2, 3], BSeek (- 2) SQ_SEEK_END, BRead 5] (blob_abs (SQBlob 0)) = (rs, blob_abs b')"
    using blob_run_refines_file [OF blob_inv_new [of 0] ops room] by auto
  from r(2) have "rs = [(3, []), (0, []), (2, [2, 3])]"
    by (simp add: file_write_def file_seek_def file_read_def seek_base_def blob_abs_def SQBlob_def
        SQ_SEEK_END_def SQ_SEEK_CUR_def SQ_SEEK_SET_def)
  with r(1) show ?thesis by blast
qed

section \<open>Numbers\<close>

text \<open>What is left of a value that is written with a format and read back.\<close>

definition narrow :: "char \<Rightarrow> sqobject \<Rightarrow> sqobject" where
  "narrow fmt v =
     (let i = tointeger v; n = uint i
      in if fmt = CHR ''l'' then VInteger i
         else if fmt = CHR ''i'' then VInteger (word_of_int (signed_take_bit 31 n))
         else if fmt = CHR ''s'' then VInteger (word_of_int (signed_take_bit 15 n))
         else if fmt = CHR ''w'' then VInteger (word_of_int (n mod 2 ^ 16))
         else if fmt = CHR ''c'' then VInteger (word_of_int (signed_take_bit 7 n))
         else if fmt = CHR ''b'' then VInteger (word_of_int (n mod 2 ^ 8))
         else VFloat (tofloat v))"

lemma scast_narrow:
  "scast (ucast (w :: i64) :: 'a::len word) = (word_of_int (signed_take_bit (LENGTH('a) - 1) (uint w)) :: i64)"
  by (simp only: ucast_eq scast_eq signed_of_int) simp

lemma ucast_narrow:
  "ucast (ucast (w :: i64) :: 'a::len word) = (word_of_int (uint w mod 2 ^ LENGTH('a)) :: i64)"
  by (simp only: ucast_eq unsigned_of_int take_bit_eq_mod) simp

lemmas casts_narrow = scast_narrow [where 'a = 32] scast_narrow [where 'a = 16] scast_narrow [where 'a = 8]
  ucast_narrow [where 'a = 16] ucast_narrow [where 'a = 8]

definition fmt_arg :: "char \<Rightarrow> sqobject" where
  "fmt_arg c = VInteger (of_char c)"

lemma format_codec:
  assumes "fmt \<in> set ''liswcbf''"
  shows "\<exists>n f g. readn_format (int_arg (fmt_arg fmt)) = Some (n, f) \<and> writen_format (int_arg (fmt_arg fmt)) = Some g
           \<and> length (g v) = n \<and> 0 < n \<and> n \<le> 8 \<and> f (g v) = narrow fmt v"
  using assms
  by (auto simp: readn_format_def writen_format_def fmt_arg_def tointeger_def narrow_def casts_narrow Let_def)

text \<open>
  C34. A number written with \<open>writen\<close> in any of the formats l, i, s, w, c, b and f is read
  back by \<open>readn\<close> with the same format from the position where it was written: the number
  itself for l and f, and otherwise its low bits, extended with the sign for i, s and c and
  with zeros for w and b. The position after the read is the position after the write, and
  the rest of the contents is not changed.\<close>

theorem stream_number_roundtrip:
  assumes inv: "blob_inv b" and room: "b_size b < 2 ^ 60" and fmt: "fmt \<in> set ''liswcbf''"
  shows "\<exists>b1 b2. stream_writen v (fmt_arg fmt) b = Inr b1
           \<and> stream_readn (fmt_arg fmt) (snd (blob_Seek (b_ptr b) SQ_SEEK_SET b1)) = (Inr (narrow fmt v), b2)
           \<and> blob_inv b2 \<and> blob_abs b2 = blob_abs b1
           \<and> take (nat (b_ptr b)) (fst (blob_abs b1)) = take (nat (b_ptr b)) (fst (blob_abs b))"
proof -
  note i = blob_invD [OF inv]
  obtain n f g where c: "readn_format (int_arg (fmt_arg fmt)) = Some (n, f)"
    "writen_format (int_arg (fmt_arg fmt)) = Some g" "length (g v) = n" "n \<le> 8" "f (g v) = narrow fmt v"
    using format_codec [OF fmt, of v] by blast
  have r: "2 * (b_size b + int (length (g v))) < 2 ^ 63" using room c by simp
  from blob_Write_correct [OF inv r] obtain b1 where b1: "blob_Write (g v) b = Inr (int (length (g v)), b1)"
    "blob_inv b1" "blob_abs b1 = file_write (g v) (blob_abs b)" "b_size b1 = max (b_size b) (b_ptr b + int n)"
    using c by blast
  have s1: "b_size b1 < 2 ^ 62" "b_ptr b \<le> b_size b1" using b1(4) room i c by auto
  define b1' where "b1' = b1\<lparr>b_ptr := b_ptr b\<rparr>"
  have seek: "snd (blob_Seek (b_ptr b) SQ_SEEK_SET b1) = b1'"
    using s1 i by (simp add: blob_Seek_def SQ_SEEK_SET_def b1'_def)
  have inv': "blob_inv b1'" unfolding b1'_def by (rule blob_inv_ptr [OF b1(2)]) (use s1 i in auto)
  have abs': "blob_abs b1' = (fst (blob_abs b1), nat (b_ptr b))" by (simp add: blob_abs_def b1'_def)
  have sz': "b_size b1' < 2 ^ 62" using s1 by (simp add: b1'_def)
  have p: "nat (b_ptr b) \<le> length (fst (blob_abs b))"
    using blob_abs_length [OF inv] i by linarith
  have con: "fst (blob_abs b1) = take (nat (b_ptr b)) (fst (blob_abs b)) @ g v @
      drop (nat (b_ptr b) + n) (fst (blob_abs b))" "snd (blob_abs b1) = nat (b_ptr b) + n"
    unfolding b1(3) using c by (simp_all add: file_write_def blob_abs_def)
  have fr: "file_read n (blob_abs b1') = (g v, blob_abs b1)"
    unfolding abs' file_read_def using con c p by (simp add: prod_eq_iff)
  from blob_Read_correct [OF inv' _ _ sz', of "int n"] obtain bs b2 where b2:
    "blob_Read (int n) b1' = Inr ((int (length bs), bs), b2)" "blob_inv b2"
    "file_read (nat (int n)) (blob_abs b1') = (bs, blob_abs b2)" using c by auto
  then have "bs = g v" "blob_abs b2 = blob_abs b1" using fr by simp_all
  then show ?thesis
    using b1 b2 c seek con p by (auto simp: stream_writen_def stream_readn_def SAFE_READN_def)
qed

theorem stream_number_roundtrip_witness:
  "\<exists>b1 b2. stream_writen (VInteger 0x1FF) (fmt_arg CHR ''c'') (SQBlob 4) = Inr b1
     \<and> stream_readn (fmt_arg CHR ''c'') (snd (blob_Seek 0 SQ_SEEK_SET b1)) = (Inr (VInteger (- 1)), b2)"
proof -
  have "narrow CHR ''c'' (VInteger 0x1FF) = VInteger (- 1)"
    by (simp add: narrow_def tointeger_def signed_take_bit_eq_if_positive Let_def)
  moreover have "b_size (SQBlob 4) < 2 ^ 60" "b_ptr (SQBlob 4) = 0" by (simp_all add: SQBlob_def)
  ultimately show ?thesis
    using stream_number_roundtrip [OF blob_inv_new [of 4], of "CHR ''c''" "VInteger 0x1FF"] by auto
qed

section \<open>Byte order\<close>

lemma byte_masks:
  "(0xFF000000 :: u32) = push_bit 24 (mask 8)" "(0x00FF0000 :: u32) = push_bit 16 (mask 8)"
  "(0x0000FF00 :: u32) = push_bit 8 (mask 8)" "(0x000000FF :: u32) = mask 8"
  by (simp_all add: mask_eq_exp_minus_1)

lemma swap_dword_bit:
  assumes "n < 32"
  shows "bit (swap_dword w) n = bit w (if n < 8 then n + 24 else if n < 16 then n + 8 else if n < 24 then n - 8 else n - 24)"
proof -
  have "bit (swap_dword w) n \<longleftrightarrow> bit w (24 + n) \<and> n < 8 \<or> bit w (8 + n) \<and> 8 \<le> n \<and> n < 16
      \<or> bit w (n - 8) \<and> 16 \<le> n \<and> n < 24 \<or> bit w (n - 24) \<and> 24 \<le> n"
    unfolding swap_dword_def byte_masks using assms
    by (simp only: bit_or_iff bit_drop_bit_eq Bit_Operations.bit_push_bit_iff bit_and_iff bit_mask_iff comp_def possible_bit_word) auto
  then show ?thesis using assms by (auto simp: add.commute)
qed

lemma swap_dword_swap: "swap_dword (swap_dword w) = w"
  by (rule bit_word_eqI) (auto simp: swap_dword_bit)

lemma word_masks16: "(0x00FF :: 16 word) = mask 8" "(0xFF00 :: 16 word) = push_bit 8 (mask 8)"
  by (simp_all add: mask_eq_exp_minus_1)

lemma swap_word_bit:
  assumes "n < 16"
  shows "bit (swap_word w) n = bit w (if n < 8 then n + 8 else n - 8)"
proof -
  have "bit (swap_word w) n \<longleftrightarrow> bit w (8 + n) \<and> n < 8 \<or> bit w (n - 8) \<and> 8 \<le> n"
    unfolding swap_word_def word_masks16 using assms
    by (simp only: bit_or_iff bit_drop_bit_eq Bit_Operations.bit_push_bit_iff bit_and_iff bit_mask_iff comp_def
        possible_bit_word) auto
  then show ?thesis using assms by (auto simp: add.commute)
qed

lemma swap_word_swap: "swap_word (swap_word w) = w"
  by (rule bit_word_eqI) (auto simp: swap_word_bit)

lemma le_bytes_value: "le_bytes (length bs) (le_value bs) = bs"
proof (induction bs)
  case (Cons b bs)
  have u: "uint b < 256" "0 \<le> uint b" using uint_bounded [of b] by simp_all
  then have "(uint b + 256 * le_value bs) div 256 = le_value bs" by simp
  moreover have "word_of_int (uint b + 256 * le_value bs) = b"
  proof -
    have "(256 :: byte) = 0" by simp
    then show ?thesis by (simp only: of_int_add of_int_mult of_int_numeral) simp
  qed
  ultimately show ?case using Cons by simp
qed simp

lemma bytes32_word32: "length bs = 4 \<Longrightarrow> bytes32 (word32 bs) = bs"
  using le_value_less [of bs] le_bytes_value [of bs]
  by (simp add: bytes32_def word32_def unsigned_of_int take_bit_int_eq_self)

lemma bytes16_word16: "length bs = 2 \<Longrightarrow> bytes16 (word16 bs) = bs"
  using le_value_less [of bs] le_bytes_value [of bs]
  by (simp add: bytes16_def word16_def unsigned_of_int take_bit_int_eq_self)

lemma swap4_loop_swap: "k * 4 \<le> length bs \<Longrightarrow> swap4_loop k (swap4_loop k bs) = bs"
proof (induction k arbitrary: bs)
  case (Suc k)
  then show ?case using bytes32_word32 [of "take 4 bs"] by (simp add: swap_dword_swap)
qed simp

lemma swap2_loop_swap: "k * 2 \<le> length bs \<Longrightarrow> swap2_loop k (swap2_loop k bs) = bs"
proof (induction k arbitrary: bs)
  case (Suc k)
  then show ?case using bytes16_word16 [of "take 2 bs"] by (simp add: swap_word_swap)
qed simp

text \<open>
  Swapping the byte order of a blob twice, in words of four or of two bytes, restores
  it, also when its length is not a multiple of the word.\<close>

lemma blob_swap_involution:
  assumes "blob_inv b"
  shows "blob_swap4 (blob_swap4 b) = b \<and> blob_swap2 (blob_swap2 b) = b"
proof -
  have "nat (b_size b div 4) * 4 \<le> length (b_buf b)" "nat (b_size b div 2) * 2 \<le> length (b_buf b)"
    using blob_invD [OF assms] by linarith+
  then show ?thesis by (simp add: blob_swap4_def blob_swap2_def swap4_loop_swap swap2_loop_swap)
qed

theorem blob_swap_involution_witness: "blob_swap4 (blob_swap4 (SQBlob 7)) = SQBlob 7"
  using blob_swap_involution [OF blob_inv_new [of 7]] by simp

section \<open>Iteration\<close>

text \<open>The indices that \<open>foreach\<close> gets from \<open>_nexti\<close>, starting from null.\<close>

fun iterate_blob :: "nat \<Rightarrow> sqobject \<Rightarrow> blob \<Rightarrow> (sqobject \<times> (blob_error + sqobject)) list" where
  "iterate_blob 0 idx b = []"
| "iterate_blob (Suc k) idx b =
     (case blob_nexti idx b of
        Inr (VInteger i) \<Rightarrow> (VInteger i, blob_get (VInteger i) b) # iterate_blob k (VInteger i) b
      | _ \<Rightarrow> [])"

definition byte_at :: "blob \<Rightarrow> nat \<Rightarrow> sqobject \<times> (blob_error + sqobject)" where
  "byte_at b i = (VInteger (of_nat i), Inr (VInteger (ucast (b_buf b ! i))))"

lemma sint_of_nat_small: "n < 2 ^ 63 \<Longrightarrow> sint (of_nat n :: i64) = int n"
  using wrap64_small [of "int n"] by (simp add: wrap64_def)

lemma iterate_blob_from:
  assumes inv: "blob_inv b"
  shows "int i < b_size b \<Longrightarrow> nat (b_size b) - Suc i < k \<Longrightarrow>
     iterate_blob k (VInteger (of_nat i)) b = map (byte_at b) [Suc i ..< nat (b_size b)]"
proof (induction k arbitrary: i)
  case (Suc k)
  note v = blob_invD [OF inv]
  have "int (Suc i) < 2 ^ 63" using Suc.prems(1) v(3,5) by simp
  then have i1: "Suc i < 2 ^ 63" by (metis of_nat_less_iff of_nat_numeral of_nat_power)
  have next1: "sint (of_nat i + 1 :: i64) = int (Suc i)" using sint_of_nat_small [OF i1] by (simp add: add.commute)
  show ?case
  proof (cases "int (Suc i) < b_size b")
    case True
    have "blob_nexti (VInteger (of_nat i)) b = Inr (VInteger (of_nat (Suc i)))"
      using True next1 by (simp add: blob_nexti_def sq_getinteger_def sq_isnumeric_iff tointeger_def add.commute)
    moreover have "blob_get (VInteger (of_nat (Suc i))) b = Inr (VInteger (ucast (b_buf b ! Suc i)))"
      using True sint_of_nat_small [OF i1]
      by (simp add: blob_get_def sq_isnumeric_iff tointeger_def nat_add_distrib)
    moreover have "[Suc i ..< nat (b_size b)] = Suc i # [Suc (Suc i) ..< nat (b_size b)]"
      using True by (intro upt_conv_Cons) linarith
    moreover have "nat (b_size b) - Suc (Suc i) < k" using Suc.prems True by linarith
    ultimately show ?thesis using Suc.IH [OF True] by (simp add: byte_at_def)
  next
    case False
    then have "[Suc i ..< nat (b_size b)] = []" by simp
    moreover have "blob_nexti (VInteger (of_nat i)) b = Inr VNull"
      using False next1 by (simp add: blob_nexti_def sq_getinteger_def sq_isnumeric_iff tointeger_def)
    ultimately show ?thesis by simp
  qed
qed simp

text \<open>
  The iteration of a non-empty blob visits every byte of its contents once, in order,
  and stops. For an empty blob \<open>_nexti\<close> answers the first index 0 all the same, and
  reading the byte at 0 throws an error.\<close>

lemma blob_iteration:
  assumes "blob_inv b"
  shows "(0 < b_size b \<longrightarrow> nat (b_size b) < k \<longrightarrow>
            iterate_blob k VNull b = map (byte_at b) [0 ..< nat (b_size b)])
       \<and> (b_size b = 0 \<longrightarrow> blob_nexti VNull b = Inr (VInteger 0)
            \<and> blob_get (VInteger 0) b = Inl (Throw ''index out of range''))"
proof (intro conjI impI)
  assume s: "0 < b_size b" and k: "nat (b_size b) < k"
  then obtain k' where k': "k = Suc k'" by (cases k) auto
  have "iterate_blob k' (VInteger 0) b = map (byte_at b) [Suc 0 ..< nat (b_size b)]"
    using iterate_blob_from [OF assms, of 0 k'] s k k' by simp
  moreover have "blob_get (VInteger 0) b = Inr (VInteger (ucast (b_buf b ! 0)))"
    using s by (simp add: blob_get_def sq_isnumeric_iff tointeger_def)
  moreover have "[0 ..< nat (b_size b)] = 0 # [Suc 0 ..< nat (b_size b)]" using s by (intro upt_conv_Cons) simp
  ultimately show "iterate_blob k VNull b = map (byte_at b) [0 ..< nat (b_size b)]"
    by (simp add: k' blob_nexti_def byte_at_def)
qed (simp_all add: blob_nexti_def blob_get_def sq_isnumeric_iff tointeger_def)

theorem blob_iteration_witness:
  "iterate_blob 3 VNull (SQBlob 2) = map (byte_at (SQBlob 2)) [0 ..< 2]"
  using blob_iteration [OF blob_inv_new [of 2], of 3] by (simp add: SQBlob_def)

end
