(* ===== verification/Sq_Serialize_Correct.thy ===== *)
theory Sq_Serialize_Correct
  imports Sq_Serialize Sq_Blob_Correct
begin

text \<open>
  A saved closure is loaded back: the bytes that \<open>Save\<close> writes determine the function, for
  every pair of callbacks that keep a stream of bytes, in particular a blob. Reading a
  proper prefix of a saved stream raises the error of a truncated stream.
\<close>

section \<open>The format\<close>

definition enc_object :: "sqobject \<Rightarrow> byte list" where
  "enc_object ob =
     bytes32 (type_code (sq_type ob)) @
     (case ob of VString s \<Rightarrow> bytes64 (of_nat (length s)) @ char_bytes s
      | VBool i \<Rightarrow> bytes64 i | VInteger i \<Rightarrow> bytes64 i | VFloat f \<Rightarrow> bytes32 f | _ \<Rightarrow> [])"

definition enc_outer :: "(outervar \<Rightarrow> u32) \<Rightarrow> outervar \<Rightarrow> byte list" where
  "enc_outer pad ov =
     (bytes32 (outertype_code (ov_type ov)) @ bytes32 (pad ov)) @ enc_object (ov_src ov) @ enc_object (ov_name ov)"

definition enc_local :: "localvar \<Rightarrow> byte list" where
  "enc_local l = enc_object (lv_name l) @ bytes64 (lv_pos l) @ bytes64 (lv_start_op l) @ bytes64 (lv_end_op l)"

definition enc_part :: "byte list" where "enc_part = bytes32 SQ_CLOSURESTREAM_PART"

fun enc_proto :: "(outervar \<Rightarrow> u32) \<Rightarrow> proto \<Rightarrow> byte list" where
  "enc_proto pad (Proto f fs) =
     enc_part @ enc_object (ph_sourcename f) @ enc_object (ph_name f) @ enc_part @
     bytes64 (count (ph_literals f)) @ bytes64 (count (ph_parameters f)) @
     bytes64 (count (ph_outervalues f)) @ bytes64 (count (ph_localvarinfos f)) @
     bytes64 (count (ph_lineinfos f)) @ bytes64 (count (ph_defaultparams f)) @
     bytes64 (count (ph_instructions f)) @ bytes64 (count fs) @
     enc_part @ concat (map enc_object (ph_literals f)) @
     enc_part @ concat (map enc_object (ph_parameters f)) @
     enc_part @ concat (map (enc_outer pad) (ph_outervalues f)) @
     enc_part @ concat (map enc_local (ph_localvarinfos f)) @
     enc_part @ concat (map line_bytes (ph_lineinfos f)) @
     enc_part @ concat (map bytes64 (ph_defaultparams f)) @
     enc_part @ concat (map instr_bytes (ph_instructions f)) @
     enc_part @ concat (map (enc_proto pad) fs) @
     bytes64 (ph_stacksize f) @ [if ph_bgenerator f then 1 else 0] @ bytes64 (ph_varparams f)"

definition enc_closure :: "(outervar \<Rightarrow> u32) \<Rightarrow> closure \<Rightarrow> byte list" where
  "enc_closure pad c =
     bytes32 SQ_CLOSURESTREAM_HEAD @ bytes32 1 @ bytes32 8 @ bytes32 4 @
     enc_proto pad (cl_function c) @ bytes32 SQ_CLOSURESTREAM_TAIL"

definition enc_stream :: "(outervar \<Rightarrow> u32) \<Rightarrow> closure \<Rightarrow> byte list" where
  "enc_stream pad c = bytes16 SQ_BYTECODE_STREAM_TAG @ enc_closure pad c"

text \<open>
  What can be saved: constants are strings, numbers, booleans and null, and lengths fit
  (the last condition is the one on the size of the block of a prototype).
\<close>

fun storable :: "sqobject \<Rightarrow> bool" where
  "storable (VString s) \<longleftrightarrow> length s < 2 ^ 63"
| "storable (VBool i) \<longleftrightarrow> True" | "storable (VInteger i) \<longleftrightarrow> True" | "storable (VFloat f) \<longleftrightarrow> True"
| "storable VNull \<longleftrightarrow> True" | "storable _ \<longleftrightarrow> False"

definition storable_head :: "protohead \<Rightarrow> nat \<Rightarrow> bool" where
  "storable_head f nf \<longleftrightarrow>
     storable (ph_sourcename f) \<and> storable (ph_name f) \<and>
     list_all storable (ph_literals f) \<and> list_all storable (ph_parameters f) \<and>
     list_all (\<lambda>ov. storable (ov_src ov) \<and> storable (ov_name ov)) (ph_outervalues f) \<and>
     list_all (\<lambda>l. storable (lv_name l)) (ph_localvarinfos f) \<and>
     FUNC_SIZE (int (length (ph_instructions f))) (int (length (ph_literals f)))
       (int (length (ph_parameters f))) (int nf) (int (length (ph_outervalues f)))
       (int (length (ph_lineinfos f))) (int (length (ph_localvarinfos f)))
       (int (length (ph_defaultparams f))) < 2 ^ 63"

fun storable_proto :: "proto \<Rightarrow> bool" where
  "storable_proto (Proto f fs) \<longleftrightarrow> storable_head f (length fs) \<and> list_all storable_proto fs"

section \<open>Callbacks that keep a stream of bytes\<close>

text \<open>
  A write operation emits a list of bytes if, given room for them, it succeeds and appends
  them to what is stored. A read operation takes a value off a list of bytes if it returns
  it whenever the remaining bytes start with that list, and leaves the rest.
\<close>

definition emits :: "('w \<Rightarrow> nat \<Rightarrow> bool) \<Rightarrow> ('w \<Rightarrow> byte list) \<Rightarrow> 'w wop \<Rightarrow> byte list \<Rightarrow> bool" where
  "emits room stored m bs \<longleftrightarrow>
     (\<forall>w n. room w n \<and> length bs \<le> n \<longrightarrow>
        (\<exists>w'. m w = Inr w' \<and> stored w' = stored w @ bs \<and> room w' (n - length bs)))"

definition takes :: "('r \<Rightarrow> bool) \<Rightarrow> ('r \<Rightarrow> byte list) \<Rightarrow> ('a, 'r) rop \<Rightarrow> byte list \<Rightarrow> 'a \<Rightarrow> bool" where
  "takes ok remaining m bs x \<longleftrightarrow>
     (\<forall>r rest. ok r \<and> remaining r = bs @ rest \<longrightarrow>
        (\<exists>r'. m r = Inr (x, r') \<and> ok r' \<and> remaining r' = rest))"

lemma type_of_code_type_code: "type_of_code (type_code t) = Some t"
proof -
  have "type_of_code (type_code t) = List.find (\<lambda>ty. ty = t) all_types"
    by (simp add: type_of_code_def type_code_inj)
  then show ?thesis by (cases t) (simp_all add: all_types_def)
qed

lemma bytes_char_bytes: "bytes_char (char_bytes s) = s"
proof -
  have "char_of (uint (of_char c :: byte)) = c" for c
  proof -
    have "(of_char c :: byte) = of_nat (of_char c)" by (simp only: of_nat_of_char)
    then have "uint (of_char c :: byte) = int (of_char c)"
      by (simp add: unsigned_of_nat take_bit_nat_eq_self)
    then show ?thesis by simp
  qed
  then show ?thesis by (simp add: bytes_char_def char_bytes_def map_idI)
qed

lemma opcodes_all: "op \<in> set opcodes"
  by (cases op) (simp_all add: opcodes_def)

lemma takeWhile_index: "x \<in> set xs \<Longrightarrow> length (takeWhile (\<lambda>y. y \<noteq> x) xs) < length xs
    \<and> xs ! length (takeWhile (\<lambda>y. y \<noteq> x) xs) = x"
  by (induction xs) auto

lemma opcode_roundtrip: "unat (opcode_code op) < length opcodes" "opcodes ! unat (opcode_code op) = op"
proof -
  have l: "length (takeWhile (\<lambda>y. y \<noteq> op) opcodes) < length opcodes" "length opcodes < 2 ^ 8"
    using takeWhile_index [OF opcodes_all [of op]] by (simp_all add: opcodes_def)
  then have "unat (opcode_code op) = length (takeWhile (\<lambda>y. y \<noteq> op) opcodes)"
    by (simp add: opcode_code_def unat_of_nat)
  then show "unat (opcode_code op) < length opcodes" "opcodes ! unat (opcode_code op) = op"
    using l takeWhile_index [OF opcodes_all [of op]] by simp_all
qed

lemma instr_roundtrip: "instr_of_bytes (instr_bytes i) = Some i"
proof -
  have n: "instr_bytes i ! (4 + k) = [opcode_code (i_op i), i_arg0 i, i_arg2 i, i_arg3 i] ! k" for k
    unfolding instr_bytes_def by (subst nth_append) simp
  show ?thesis
    using n [of 0] n [of 1] n [of 2] n [of 3] opcode_roundtrip [of "i_op i"]
    by (simp add: instr_of_bytes_def) (simp add: instr_bytes_def)
qed

lemma length_instr_bytes: "length (instr_bytes i) = 8" by (simp add: instr_bytes_def)

lemma line_roundtrip: "line_of_bytes (line_bytes l) = l" by (simp add: line_bytes_def line_of_bytes_def)

lemma length_line_bytes: "length (line_bytes l) = 16" by (simp add: line_bytes_def)

lemma chunks_concat:
  "(\<And>x. x \<in> set xs \<Longrightarrow> length (e x) = m) \<Longrightarrow> chunks (length xs) m (concat (map e xs)) = map e xs"
  by (induction xs) auto

lemma length_concat_const:
  "(\<And>x. x \<in> set xs \<Longrightarrow> length (e x) = m) \<Longrightarrow> length (concat (map e xs)) = m * length xs"
  by (induction xs) auto

lemma those_map_Some: "those (map (\<lambda>x. Some (f x)) xs) = Some (map f xs)"
  by (induction xs) auto

lemma unat_count: "length xs < 2 ^ 63 \<Longrightarrow> unat (count xs) = length xs"
  by (simp add: unat_of_nat)

lemma ucast_word64_append: "ucast (word64 (bytes32 a @ bytes32 b)) = a"
proof -
  have u: "uint a < 2 ^ 32" "uint b < 2 ^ 32" using uint_bounded [of a] uint_bounded [of b] by simp_all
  let ?v = "uint a + 2 ^ 32 * uint b"
  have "le_value (bytes32 a @ bytes32 b) = ?v" using u by (simp add: le_value_append bytes32_def)
  moreover have "uint (word_of_int ?v :: u64) = ?v"
    using u by (intro word_of_int_inverse) (simp_all add: uint_word_of_int)
  ultimately have "ucast (word64 (bytes32 a @ bytes32 b)) = (word_of_int ?v :: u32)"
    by (simp only: word64_def ucast_eq)
  also have "\<dots> = a"
  proof -
    have "(word_of_int (2 ^ 32) :: u32) = 0" by simp
    then show ?thesis by (simp only: of_int_add of_int_mult) simp
  qed
  finally show ?thesis .
qed

lemma wseq_one: "wseq [m] = m"
proof
  show "wseq [m] w = m w" for w by (cases "m w") simp_all
qed

locale closure_stream =
  fixes wr :: "'w writer" and room :: "'w \<Rightarrow> nat \<Rightarrow> bool" and stored :: "'w \<Rightarrow> byte list"
    and rd :: "'r reader" and ok :: "'r \<Rightarrow> bool" and remaining :: "'r \<Rightarrow> byte list"
  assumes write_appends: "room w n \<Longrightarrow> length bs \<le> n \<Longrightarrow>
      \<exists>w'. wr bs w = (of_nat (length bs), w') \<and> stored w' = stored w @ bs \<and> room w' (n - length bs)"
    and read_delivers: "ok r \<Longrightarrow> remaining r = bs @ rest \<Longrightarrow> bs \<noteq> [] \<Longrightarrow>
      \<exists>r'. rd (of_nat (length bs)) r = ((of_nat (length bs), bs), r') \<and> ok r' \<and> remaining r' = rest"
begin

lemma emits_SafeWrite: "emits room stored (SafeWrite wr bs) bs"
  unfolding emits_def SafeWrite_def using write_appends by (fastforce split: prod.splits)

lemma emits_wseq: "list_all2 (emits room stored) ms bss \<Longrightarrow> emits room stored (wseq ms) (concat bss)"
proof (induction ms bss rule: list_all2_induct)
  case Nil
  then show ?case by (simp add: emits_def)
next
  case (Cons m ms bs bss)
  show ?case unfolding emits_def
  proof (intro allI impI, elim conjE)
    fix w n assume r: "room w n" "length (concat (bs # bss)) \<le> n"
    then obtain w1 where 1: "m w = Inr w1" "stored w1 = stored w @ bs" "room w1 (n - length bs)"
      using Cons.hyps(1) unfolding emits_def by force
    moreover obtain w2 where "wseq ms w1 = Inr w2" "stored w2 = stored w1 @ concat bss"
      "room w2 (n - length bs - length (concat bss))"
      using Cons.IH 1(3) r(2) unfolding emits_def by force
    ultimately show "\<exists>w'. wseq (m # ms) w = Inr w' \<and> stored w' = stored w @ concat (bs # bss)
        \<and> room w' (n - length (concat (bs # bss)))" by (auto simp: diff_diff_eq)
  qed
qed

lemma emits_wseq_map:
  "(\<And>x. x \<in> set xs \<Longrightarrow> emits room stored (m x) (e x)) \<Longrightarrow>
     emits room stored (wseq (map m xs)) (concat (map e xs))"
  by (rule emits_wseq) (auto simp: list_all2_conv_all_nth)

lemma emits_WriteObject: "storable ob \<Longrightarrow> emits room stored (WriteObject wr ob) (enc_object ob)"
proof -
  assume s: "storable ob"
  define tl where "tl = (case ob of VString s \<Rightarrow> [bytes64 (of_nat (length s)), char_bytes s]
      | VBool i \<Rightarrow> [bytes64 i] | VInteger i \<Rightarrow> [bytes64 i] | VFloat f \<Rightarrow> [bytes32 f] | _ \<Rightarrow> [])"
  have "WriteObject wr ob = wseq (map (SafeWrite wr) (bytes32 (type_code (sq_type ob)) # tl))"
    using s by (cases ob) (simp_all add: WriteObject_def tl_def)
  moreover have "enc_object ob = concat (map id (bytes32 (type_code (sq_type ob)) # tl))"
    using s by (cases ob) (simp_all add: enc_object_def tl_def)
  ultimately show ?thesis
    by (simp only:) (rule emits_wseq_map, simp add: emits_SafeWrite)
qed

lemma emits_WriteTag: "emits room stored (WriteTag wr tag) (bytes32 tag)"
  unfolding WriteTag_def by (rule emits_SafeWrite)

lemma emits_objects:
  "list_all storable xs \<Longrightarrow> emits room stored (wseq (map (WriteObject wr) xs)) (concat (map enc_object xs))"
  by (rule emits_wseq_map) (simp add: emits_WriteObject list_all_iff)

lemma emits_outer:
  assumes "storable (ov_src ov)" "storable (ov_name ov)"
  shows "emits room stored (save_outer wr pad ov) (enc_outer pad ov)"
  using emits_wseq [of _ "[bytes32 (outertype_code (ov_type ov)) @ bytes32 (pad ov),
      enc_object (ov_src ov), enc_object (ov_name ov)]"] assms
  by (simp add: save_outer_def enc_outer_def emits_SafeWrite emits_WriteObject)

lemma emits_local:
  assumes "storable (lv_name l)"
  shows "emits room stored (save_local wr l) (enc_local l)"
  using emits_wseq [of _ "[enc_object (lv_name l), bytes64 (lv_pos l), bytes64 (lv_start_op l), bytes64 (lv_end_op l)]"]
    assms
  by (simp add: save_local_def enc_local_def emits_SafeWrite emits_WriteObject)

lemma emits_wseq_Cons:
  "emits room stored m bs \<Longrightarrow> emits room stored (wseq ms) cs \<Longrightarrow> emits room stored (wseq (m # ms)) (bs @ cs)"
proof -
  assume m: "emits room stored m bs" and ms: "emits room stored (wseq ms) cs"
  have "wseq (m # ms) = wseq [m, wseq ms]" by (rule ext) (simp only: wseq.simps(2) wseq_one)
  then show ?thesis using emits_wseq [of "[m, wseq ms]" "[bs, cs]"] m ms by simp
qed

lemma emits_wseq_single: "emits room stored m bs \<Longrightarrow> emits room stored (wseq [m]) bs"
  by (simp only: wseq_one)

lemmas emits_rules = emits_wseq_Cons emits_wseq_single emits_SafeWrite emits_WriteTag emits_WriteObject emits_objects

lemma proto_Save_emits: "storable_proto p \<Longrightarrow> emits room stored (proto_Save wr pad p) (enc_proto pad p)"
proof (induction p)
  case (Proto f fs)
  then have h: "storable_head f (length fs)" and fs: "\<And>q. q \<in> set fs \<Longrightarrow> storable_proto q"
    by (simp_all add: list_all_iff)
  have "emits room stored (wseq (map (save_outer wr pad) (ph_outervalues f))) (concat (map (enc_outer pad) (ph_outervalues f)))"
    using h by (intro emits_wseq_map emits_outer) (auto simp: storable_head_def list_all_iff)
  moreover have "emits room stored (wseq (map (save_local wr) (ph_localvarinfos f))) (concat (map enc_local (ph_localvarinfos f)))"
    using h by (intro emits_wseq_map emits_local) (auto simp: storable_head_def list_all_iff)
  moreover have "emits room stored (wseq (map (proto_Save wr pad) fs)) (concat (map (enc_proto pad) fs))"
    by (intro emits_wseq_map Proto.IH fs)
  ultimately show ?case unfolding proto_Save.simps enc_proto.simps enc_part_def
    using h by (intro emits_rules) (auto simp: storable_head_def)
qed

lemma closure_Save_emits:
  "storable_proto (cl_function c) \<Longrightarrow> emits room stored (closure_Save wr pad c) (enc_closure pad c)"
  unfolding closure_Save_def enc_closure_def by (intro emits_rules proto_Save_emits)

lemma sq_writeclosure_emits:
  assumes "storable_proto (cl_function c)" "ph_outervalues (pr_head (cl_function c)) = []"
  shows "emits room stored (sq_writeclosure wr pad c) (enc_stream pad c)"
  unfolding emits_def
proof (intro allI impI, elim conjE)
  fix w n assume r: "room w n" and l: "length (enc_stream pad c) \<le> n"
  obtain w1 where 1: "wr (bytes16 SQ_BYTECODE_STREAM_TAG) w = (2, w1)" "room w1 (n - 2)"
    "stored w1 = stored w @ bytes16 SQ_BYTECODE_STREAM_TAG"
    using write_appends [OF r, of "bytes16 SQ_BYTECODE_STREAM_TAG"] l by (auto simp: enc_stream_def)
  obtain w2 where "closure_Save wr pad c w1 = Inr w2" "stored w2 = stored w1 @ enc_closure pad c"
    "room w2 (n - 2 - length (enc_closure pad c))"
    using closure_Save_emits [OF assms(1)] 1(2) l unfolding emits_def enc_stream_def by force
  then show "\<exists>w'. sq_writeclosure wr pad c w = Inr w' \<and> stored w' = stored w @ enc_stream pad c \<and>
      room w' (n - length (enc_stream pad c))"
    using 1 assms(2) by (auto simp: sq_writeclosure_def enc_stream_def diff_diff_eq)
qed

lemma takes_rreturn: "takes ok remaining (rreturn x) [] x"
  by (simp add: takes_def rreturn_def)

lemma takes_rreturn_eq: "y = x \<Longrightarrow> takes ok remaining (rreturn y) [] x"
  by (simp add: takes_rreturn)

lemma takes_rbind:
  "takes ok remaining m bs x \<Longrightarrow> takes ok remaining (f x) cs y \<Longrightarrow> takes ok remaining (rbind m f) (bs @ cs) y"
  unfolding takes_def rbind_def by (metis append.assoc bindE.simps(2) case_prod_conv)

lemma takes_rbind_last:
  "takes ok remaining m bs x \<Longrightarrow> takes ok remaining (f x) [] y \<Longrightarrow> takes ok remaining (rbind m f) bs y"
  using takes_rbind [of m bs x f "[]" y] by simp

lemma takes_SafeRead:
  assumes "n = of_nat (length bs)" "length bs < 2 ^ 64"
  shows "takes ok remaining (SafeRead rd n) bs bs"
proof (cases "bs = []")
  case True
  then show ?thesis using assms by (simp add: takes_def SafeRead_def)
next
  case False
  have "unat n = length bs" using assms by (simp add: unat_of_nat)
  then have "n \<noteq> 0" using False by auto
  then show ?thesis using read_delivers [OF _ _ False] assms(1)
    unfolding takes_def SafeRead_def by fastforce
qed

lemma takes_CheckTag: "takes ok remaining (CheckTag rd tag) (bytes32 tag) ()"
  unfolding CheckTag_def
  by (rule takes_rbind_last [OF takes_SafeRead]) (simp_all add: takes_rreturn)

lemma takes_bytes64: "takes ok remaining (SafeRead rd 8) (bytes64 w) (bytes64 w)"
  by (rule takes_SafeRead) simp_all

lemma takes_read_count: "takes ok remaining (read_count rd) (bytes64 w) w"
  unfolding read_count_def by (rule takes_rbind_last [OF takes_bytes64]) (simp add: takes_rreturn)

lemma takes_ReadObject: "storable ob \<Longrightarrow> takes ok remaining (ReadObject rd) (enc_object ob) ob"
  unfolding ReadObject_def enc_object_def
proof (rule takes_rbind [OF takes_SafeRead], goal_cases)
  case 3
  show ?case
  proof (cases ob)
    case (VString s)
    then have l: "length s < 2 ^ 63" using 3 by simp
    have "takes ok remaining (SafeRead rd (of_nat (length s))) (char_bytes s) (char_bytes s)"
      using l by (intro takes_SafeRead) (simp_all add: char_bytes_def)
    moreover have "\<not> (of_nat (length s) :: i64) <s 0"
      using sint_of_nat_small [OF l] by (simp add: word_sless_alt)
    ultimately have "takes ok remaining (rbind (SafeRead rd 8) (\<lambda>l.
        if word64 l <s 0 then rfail Ser_Undefined
        else rbind (SafeRead rd (word64 l)) (\<lambda>bs. rreturn (VString (bytes_char bs)))))
      (bytes64 (of_nat (length s)) @ char_bytes s) (VString s)"
      by (intro takes_rbind [OF takes_bytes64])
        (simp add: takes_rbind_last bytes_char_bytes takes_rreturn)
    then show ?thesis using VString by (simp add: type_of_code_type_code del: type_code.simps)
  qed (use 3 in \<open>auto simp: type_of_code_type_code takes_rreturn simp del: type_code.simps
      intro!: takes_rbind_last [OF takes_bytes64] takes_rbind_last [OF takes_SafeRead]\<close>)
qed simp_all

lemma takes_read_many:
  "(\<And>x. x \<in> set xs \<Longrightarrow> takes ok remaining m (e x) x) \<Longrightarrow>
     takes ok remaining (read_many (length xs) m) (concat (map e xs)) xs"
proof (induction xs)
  case (Cons x xs)
  have "takes ok remaining (rbind (read_many (length xs) m) (\<lambda>xs. rreturn (x # xs))) (concat (map e xs)) (x # xs)"
    by (rule takes_rbind_last [OF Cons.IH]) (simp_all add: Cons.prems takes_rreturn)
  then show ?case using takes_rbind [OF Cons.prems [of x]] by simp
qed (simp add: takes_rreturn)

lemma takes_objects:
  "list_all storable xs \<Longrightarrow> takes ok remaining (read_many (length xs) (ReadObject rd)) (concat (map enc_object xs)) xs"
  by (rule takes_read_many) (simp add: takes_ReadObject list_all_iff)

lemma takes_outer:
  assumes "storable (ov_src ov)" "storable (ov_name ov)"
  shows "takes ok remaining (load_outer rd) (enc_outer pad ov) ov"
proof -
  let ?t = "bytes32 (outertype_code (ov_type ov)) @ bytes32 (pad ov)"
  have "outertype_of (word64 ?t) = Some (ov_type ov)"
    unfolding outertype_of_def ucast_word64_append
    by (cases "ov_type ov") (simp_all add: outertype_code_def)
  then show ?thesis unfolding load_outer_def enc_outer_def
    by (intro takes_rbind [OF takes_SafeRead] takes_rbind [OF takes_ReadObject] takes_rbind_last [OF takes_ReadObject])
      (auto simp: assms intro!: takes_rreturn_eq outervar.equality)
qed

lemma takes_local:
  "storable (lv_name l) \<Longrightarrow> takes ok remaining (load_local rd) (enc_local l) l"
  unfolding load_local_def enc_local_def
  by (cases l; simp only: localvar.simps; intro takes_rbind [OF takes_ReadObject] takes_rbind [OF takes_bytes64] takes_rbind_last [OF takes_bytes64])
    (simp_all add: takes_rreturn)

text \<open>An array of \<open>m\<close>-byte records, read in one piece.\<close>

lemma takes_records:
  assumes "\<And>x. length (e x) = m" "m * length xs < 2 ^ 63" "0 < m"
  shows "takes ok remaining (SafeRead rd (of_nat m * count xs)) (concat (map e xs)) (concat (map e xs))"
    and "chunks (unat (count xs)) m (concat (map e xs)) = map e xs"
proof -
  have "length (concat (map e xs)) = m * length xs" using assms by (intro length_concat_const)
  then show "takes ok remaining (SafeRead rd (of_nat m * count xs)) (concat (map e xs)) (concat (map e xs))"
    using assms(2) by (intro takes_SafeRead) simp_all
  have "length xs \<le> m * length xs" using assms(3) by simp
  then have "unat (count xs) = length xs" using assms(2) by (intro unat_count) linarith
  then show "chunks (unat (count xs)) m (concat (map e xs)) = map e xs"
    using assms by (simp add: chunks_concat)
qed

lemma takes_load_lines:
  "16 * length xs < 2 ^ 63 \<Longrightarrow> takes ok remaining (load_lines rd (count xs)) (concat (map line_bytes xs)) xs"
  unfolding load_lines_def using takes_records [of line_bytes 16 xs]
  by (intro takes_rbind_last) (auto simp: length_line_bytes line_roundtrip intro!: takes_rreturn_eq map_idI)

lemma takes_load_defaults:
  "8 * length xs < 2 ^ 63 \<Longrightarrow> takes ok remaining (load_defaults rd (count xs)) (concat (map bytes64 xs)) xs"
  unfolding load_defaults_def using takes_records [of bytes64 8 xs]
  by (intro takes_rbind_last) (auto intro!: takes_rreturn_eq map_idI)

lemma takes_load_instructions:
  assumes "8 * length xs < 2 ^ 63"
  shows "takes ok remaining (load_instructions rd (count xs)) (concat (map instr_bytes xs)) xs"
proof -
  have "those (map instr_of_bytes (map instr_bytes xs)) = Some xs"
    using those_map_Some [of id xs] by (simp add: comp_def instr_roundtrip)
  then show ?thesis unfolding load_instructions_def using assms takes_records [of instr_bytes 8 xs]
    by (intro takes_rbind_last) (auto simp: length_instr_bytes takes_rreturn)
qed

lemma takes_load_body:
  assumes h: "storable_head f (length fs)"
    and fs: "\<And>q. q \<in> set fs \<Longrightarrow> takes ok remaining load (enc_proto pad q) q"
  shows "takes ok remaining
     (load_body load rd (ph_sourcename f) (ph_name f) (count (ph_literals f)) (count (ph_parameters f))
        (count (ph_outervalues f)) (count (ph_localvarinfos f)) (count (ph_lineinfos f))
        (count (ph_defaultparams f)) (count (ph_instructions f)) (count fs))
     (enc_part @ concat (map enc_object (ph_literals f)) @
      enc_part @ concat (map enc_object (ph_parameters f)) @
      enc_part @ concat (map (enc_outer pad) (ph_outervalues f)) @
      enc_part @ concat (map enc_local (ph_localvarinfos f)) @
      enc_part @ concat (map line_bytes (ph_lineinfos f)) @
      enc_part @ concat (map bytes64 (ph_defaultparams f)) @
      enc_part @ concat (map instr_bytes (ph_instructions f)) @
      enc_part @ concat (map (enc_proto pad) fs) @
      bytes64 (ph_stacksize f) @ [if ph_bgenerator f then 1 else 0] @ bytes64 (ph_varparams f))
     (Proto f fs)"
proof -
  have sz: "8 * length (ph_instructions f) < 2 ^ 63" "length (ph_literals f) < 2 ^ 63"
    "length (ph_parameters f) < 2 ^ 63" "length fs < 2 ^ 63" "length (ph_outervalues f) < 2 ^ 63"
    "16 * length (ph_lineinfos f) < 2 ^ 63" "length (ph_localvarinfos f) < 2 ^ 63"
    "8 * length (ph_defaultparams f) < 2 ^ 63"
    using h unfolding storable_head_def FUNC_SIZE_def by simp_all
  have outers: "takes ok remaining (read_many (length (ph_outervalues f)) (load_outer rd))
      (concat (map (enc_outer pad) (ph_outervalues f))) (ph_outervalues f)"
    using h by (intro takes_read_many takes_outer) (auto simp: storable_head_def list_all_iff)
  have locals: "takes ok remaining (read_many (length (ph_localvarinfos f)) (load_local rd))
      (concat (map enc_local (ph_localvarinfos f))) (ph_localvarinfos f)"
    using h by (intro takes_read_many takes_local) (auto simp: storable_head_def list_all_iff)
  have nested: "takes ok remaining (read_many (length fs) load) (concat (map (enc_proto pad) fs)) fs"
    using fs by (rule takes_read_many)
  have lits: "list_all storable (ph_literals f)" "list_all storable (ph_parameters f)"
    using h by (simp_all add: storable_head_def)
  show ?thesis unfolding load_body_def enc_part_def sz(2,3,4,5,7) [THEN unat_count]
    apply (rule takes_rbind [OF takes_CheckTag], rule takes_rbind [OF takes_objects [OF lits(1)]])
    apply (rule takes_rbind [OF takes_CheckTag], rule takes_rbind [OF takes_objects [OF lits(2)]])
    apply (rule takes_rbind [OF takes_CheckTag], rule takes_rbind [OF outers])
    apply (rule takes_rbind [OF takes_CheckTag], rule takes_rbind [OF locals])
    apply (rule takes_rbind [OF takes_CheckTag], rule takes_rbind [OF takes_load_lines [OF sz(6)]])
    apply (rule takes_rbind [OF takes_CheckTag], rule takes_rbind [OF takes_load_defaults [OF sz(8)]])
    apply (rule takes_rbind [OF takes_CheckTag], rule takes_rbind [OF takes_load_instructions [OF sz(1)]])
    apply (rule takes_rbind [OF takes_CheckTag], rule takes_rbind [OF nested])
    apply (rule takes_rbind [OF takes_bytes64], rule takes_rbind [OF takes_SafeRead], simp, simp)
    apply (rule takes_rbind_last [OF takes_bytes64], rule takes_rreturn_eq)
    by (auto intro!: protohead.equality)
qed

lemma proto_Load_takes:
  "storable_proto p \<Longrightarrow> size p \<le> fuel \<Longrightarrow> takes ok remaining (proto_Load fuel rd) (enc_proto pad p) p"
proof (induction p arbitrary: fuel)
  case (Proto f fs)
  obtain k where k: "fuel = Suc k" using Proto.prems(2) by (cases fuel) auto
  have h: "storable_head f (length fs)" using Proto.prems by simp
  have sub: "takes ok remaining (proto_Load k rd) (enc_proto pad q) q" if "q \<in> set fs" for q
    using Proto.IH [OF that] Proto.prems that size_list_estimation' [of q fs "size q" size] k
    by (simp add: list_all_iff)
  have cok: "counts_ok (count (ph_instructions f)) (count (ph_literals f)) (count (ph_parameters f)) (count fs)
      (count (ph_outervalues f)) (count (ph_lineinfos f)) (count (ph_localvarinfos f)) (count (ph_defaultparams f))"
    using h by (simp add: storable_head_def counts_ok_def FUNC_SIZE_def sint_of_nat_small)
  have names: "storable (ph_sourcename f)" "storable (ph_name f)" using h by (simp_all add: storable_head_def)
  show ?case unfolding k proto_Load.simps enc_proto.simps enc_part_def
    apply (rule takes_rbind [OF takes_CheckTag], rule takes_rbind [OF takes_ReadObject [OF names(1)]])
    apply (rule takes_rbind [OF takes_ReadObject [OF names(2)]], rule takes_rbind [OF takes_CheckTag])
    apply (rule takes_rbind [OF takes_read_count])+
    apply (simp only: cok if_True)
    apply (rule takes_load_body [OF h sub, unfolded enc_part_def], assumption)
    done
qed

lemma closure_Load_takes:
  assumes "storable_proto (cl_function c)" "size (cl_function c) \<le> fuel"
  shows "takes ok remaining (closure_Load fuel rd root) (enc_closure pad c) (closure_Create (cl_function c) root)"
  unfolding closure_Load_def enc_closure_def
  by (intro takes_rbind [OF takes_CheckTag] takes_rbind [OF proto_Load_takes [OF assms]]
      takes_rbind_last [OF takes_CheckTag] takes_rreturn)

lemma sq_readclosure_takes:
  assumes "storable_proto (cl_function c)" "size (cl_function c) \<le> fuel"
  shows "takes ok remaining (sq_readclosure fuel rd root) (enc_stream pad c) (closure_Create (cl_function c) root)"
  unfolding takes_def
proof (intro allI impI, elim conjE)
  fix r rest assume r: "ok r" "remaining r = enc_stream pad c @ rest"
  then obtain r1 where 1: "rd 2 r = ((2, bytes16 SQ_BYTECODE_STREAM_TAG), r1)" "ok r1"
    "remaining r1 = enc_closure pad c @ rest"
    using read_delivers [of r "bytes16 SQ_BYTECODE_STREAM_TAG" "enc_closure pad c @ rest"]
    by (auto simp: enc_stream_def simp flip: length_greater_0_conv)
  then show "\<exists>r'. sq_readclosure fuel rd root r = Inr (closure_Create (cl_function c) root, r') \<and> ok r' \<and> remaining r' = rest"
    using closure_Load_takes [OF assms, of root pad] unfolding takes_def by (simp add: sq_readclosure_def)
qed

end

section \<open>Closures in a blob\<close>

text \<open>The callbacks that write to and read from a blob.\<close>

definition blob_writer :: "blob writer" where
  "blob_writer bs b = (case blob_Write bs b of Inr (n, b') \<Rightarrow> (word_of_int n, b') | Inl _ \<Rightarrow> (- 1, b))"

definition blob_reader :: "blob reader" where
  "blob_reader n b =
     (case blob_Read (sint n) b of Inr ((k, bs), b') \<Rightarrow> ((word_of_int k, bs), b') | Inl _ \<Rightarrow> ((- 1, []), b))"

definition blob_room :: "blob \<Rightarrow> nat \<Rightarrow> bool" where
  "blob_room b n \<longleftrightarrow> blob_inv b \<and> b_size b + int n < 2 ^ 61"

definition blob_stored :: "blob \<Rightarrow> byte list" where
  "blob_stored b = take (snd (blob_abs b)) (fst (blob_abs b))"

definition blob_remaining :: "blob \<Rightarrow> byte list" where
  "blob_remaining b = drop (snd (blob_abs b)) (fst (blob_abs b))"

lemma blob_pos_le: "blob_inv b \<Longrightarrow> snd (blob_abs b) \<le> length (fst (blob_abs b))"
  using blob_invD [of b] by (simp add: blob_abs_def)

interpretation blob_closure: closure_stream blob_writer blob_room blob_stored
  blob_reader "\<lambda>b. blob_room b 0" blob_remaining
proof
  fix b :: blob and n :: nat and bs :: "byte list"
  assume b: "blob_room b n" and l: "length bs \<le> n"
  then have inv: "blob_inv b" and r: "2 * (b_size b + int (length bs)) < 2 ^ 63" by (simp_all add: blob_room_def)
  from blob_Write_correct [OF inv r] obtain b' where b': "blob_Write bs b = Inr (int (length bs), b')" "blob_inv b'"
    "blob_abs b' = file_write bs (blob_abs b)" "b_size b' = max (b_size b) (b_ptr b + int (length bs))" by blast
  have "blob_stored b' = blob_stored b @ bs"
    using blob_pos_le [OF inv] unfolding blob_stored_def b'(3)
    by (simp add: file_write_def split_beta)
  moreover have "blob_room b' (n - length bs)"
    using b' b l blob_invD(2) [OF inv] by (simp add: blob_room_def of_nat_diff max_def)
  ultimately show "\<exists>w'. blob_writer bs b = (of_nat (length bs), w') \<and> blob_stored w' = blob_stored b @ bs \<and>
      blob_room w' (n - length bs)" using b' by (simp add: blob_writer_def)
next
  fix b :: blob and bs rest :: "byte list"
  assume b: "blob_room b 0" and rem: "blob_remaining b = bs @ rest" and ne: "bs \<noteq> []"
  have inv: "blob_inv b" and sz: "b_size b < 2 ^ 61" using b by (simp_all add: blob_room_def)
  have lb: "int (length bs) \<le> b_size b"
  proof -
    have "length bs + length rest = length (blob_remaining b)" by (simp add: rem)
    also have "\<dots> \<le> length (fst (blob_abs b))" by (simp add: blob_remaining_def)
    finally show ?thesis using blob_abs_length [OF inv] by linarith
  qed
  have n: "0 \<le> int (length bs)" "int (length bs) < 2 ^ 62" "b_size b < 2 ^ 62" using lb sz by simp_all
  from blob_Read_correct [OF inv n] obtain cs b' where b': "blob_Read (int (length bs)) b = Inr ((int (length cs), cs), b')"
    "blob_inv b'" "file_read (length bs) (blob_abs b) = (cs, blob_abs b')" "b_size b' = b_size b" by auto
  have "take (length bs) (drop (snd (blob_abs b)) (fst (blob_abs b))) = bs"
    using rem by (simp add: blob_remaining_def)
  then have "file_read (length bs) (blob_abs b) = (bs, (fst (blob_abs b), snd (blob_abs b) + length bs))"
    by (simp only: file_read_def split_beta Let_def)
  then have "cs = bs" "snd (blob_abs b') = snd (blob_abs b) + length bs" "fst (blob_abs b') = fst (blob_abs b)"
    using b'(3) by (simp_all add: prod_eq_iff)
  moreover from this have "blob_remaining b' = rest"
    using rem by (simp add: blob_remaining_def drop_drop [symmetric] add.commute)
  moreover have "sint (of_nat (length bs) :: i64) = int (length bs)"
    using n(2) wrap64_small [of "int (length bs)"] by (simp add: wrap64_def)
  ultimately show "\<exists>r'. blob_reader (of_nat (length bs)) b = ((of_nat (length bs), bs), r') \<and> blob_room r' 0 \<and>
      blob_remaining r' = rest" using b' sz by (simp add: blob_reader_def blob_room_def)
qed

lemma blob_rewind:
  assumes inv: "blob_inv b" "blob_inv b1" and st: "blob_stored b1 = blob_stored b @ bs"
  shows "\<exists>b2. blob_Seek (b_ptr b) SQ_SEEK_SET b1 = (0, b2) \<and> blob_inv b2 \<and> b_size b2 = b_size b1
           \<and> blob_remaining b2 = bs @ blob_remaining b1"
proof -
  let ?p = "nat (b_ptr b)"
  let ?c = "fst (blob_abs b1)"
  have l: "length (blob_stored b) = ?p" using blob_invD [OF inv(1)] by (simp add: blob_stored_def blob_abs_def)
  have split: "?c = blob_stored b @ bs @ blob_remaining b1"
  proof -
    have "?c = blob_stored b1 @ blob_remaining b1" by (simp add: blob_stored_def blob_remaining_def)
    then show ?thesis using st by simp
  qed
  have "?p \<le> length ?c" using split l by simp
  then have p: "0 \<le> b_ptr b" "b_ptr b \<le> b_size b1"
    using blob_abs_length [OF inv(2)] blob_invD(1) [OF inv(1)] by linarith+
  let ?b2 = "b1\<lparr>b_ptr := b_ptr b\<rparr>"
  have "blob_Seek (b_ptr b) SQ_SEEK_SET b1 = (0, ?b2)" using p by (simp add: blob_Seek_def)
  moreover have "blob_inv ?b2" using p by (intro blob_inv_ptr [OF inv(2)])
  moreover have "blob_remaining ?b2 = drop ?p ?c" by (simp add: blob_remaining_def blob_abs_def)
  ultimately show ?thesis using split l by simp
qed

text \<open>
  C3. A closure without free variables that \<open>sq_writeclosure\<close> writes into a blob is read
  back by \<open>sq_readclosure\<close> from the position where it was written: both succeed, and the
  closure that is read has the same function, with all its instructions, literals, line
  and variable infos and nested functions, whatever the padding bytes that are written
  along. The values of its default parameters are not part of the stream: they are null.\<close>

theorem closure_roundtrip:
  assumes "storable_proto (cl_function c)" "ph_outervalues (pr_head (cl_function c)) = []"
    and "size (cl_function c) \<le> fuel" and room: "blob_room b (length (enc_stream pad c))"
  shows "\<exists>b1 b2 b3 c'. sq_writeclosure blob_writer pad c b = Inr b1
           \<and> blob_Seek (b_ptr b) SQ_SEEK_SET b1 = (0, b2)
           \<and> sq_readclosure fuel blob_reader root b2 = Inr (c', b3)
           \<and> cl_function c' = cl_function c \<and> cl_root c' = root \<and> cl_outervalues c' = []
           \<and> cl_defaultparams c' = map (\<lambda>_. VNull) (ph_defaultparams (pr_head (cl_function c)))"
proof -
  from blob_closure.sq_writeclosure_emits [OF assms(1,2)] room obtain b1 where
    b1: "sq_writeclosure blob_writer pad c b = Inr b1" "blob_stored b1 = blob_stored b @ enc_stream pad c"
      "blob_room b1 0" unfolding emits_def by (metis diff_self_eq_0 order_refl)
  then obtain b2 where b2: "blob_Seek (b_ptr b) SQ_SEEK_SET b1 = (0, b2)" "blob_inv b2" "b_size b2 = b_size b1"
    "blob_remaining b2 = enc_stream pad c @ blob_remaining b1"
    using blob_rewind [of b b1 "enc_stream pad c"] room by (auto simp: blob_room_def)
  then have "blob_room b2 0" using b1(3) by (simp add: blob_room_def)
  then obtain b3 where "sq_readclosure fuel blob_reader root b2 = Inr (closure_Create (cl_function c) root, b3)"
    using blob_closure.sq_readclosure_takes [OF assms(1,3), of root pad] b2(4) unfolding takes_def by blast
  then show ?thesis using b1 b2 assms(2) by (auto simp: closure_Create_def map_replicate_const)
qed

definition sample_head :: protohead where
  "sample_head = \<lparr>ph_sourcename = VString ''a.nut'', ph_name = VNull, ph_stacksize = 2, ph_bgenerator = False,
     ph_varparams = 0, ph_localvarinfos = [], ph_lineinfos = [\<lparr>li_line = 1, li_op = 0\<rparr>],
     ph_literals = [VFloat 0, VString ''x''], ph_parameters = [VString ''this''], ph_outervalues = [],
     ph_defaultparams = [0], ph_instructions = [SQInstruction OP_RETURN 0xFF 0 0 0]\<rparr>"

definition sample_closure :: closure where
  "sample_closure = \<lparr>cl_function = Proto sample_head [Proto sample_head []], cl_outervalues = [],
     cl_defaultparams = [VInteger 7], cl_root = VNull\<rparr>"

theorem closure_roundtrip_witness:
  "\<exists>b1 b2 b3 c'. sq_writeclosure blob_writer (\<lambda>_. 0) sample_closure (SQBlob 0) = Inr b1
     \<and> blob_Seek 0 SQ_SEEK_SET b1 = (0, b2) \<and> sq_readclosure 9 blob_reader VNull b2 = Inr (c', b3)
     \<and> cl_function c' = Proto sample_head [Proto sample_head []] \<and> cl_defaultparams c' = [VNull]"
proof -
  have s: "storable_proto (cl_function sample_closure)"
    by (simp add: sample_closure_def sample_head_def storable_head_def FUNC_SIZE_def)
  have n: "ph_outervalues (pr_head (cl_function sample_closure)) = []" "size (cl_function sample_closure) \<le> 9"
    by (simp_all add: sample_closure_def sample_head_def)
  have "length (enc_stream (\<lambda>_. 0) sample_closure) < 2000"
    by (simp add: enc_stream_def enc_closure_def sample_closure_def sample_head_def enc_part_def enc_object_def
        char_bytes_def line_bytes_def instr_bytes_def)
  then have "blob_room (SQBlob 0) (length (enc_stream (\<lambda>_. 0) sample_closure))"
    using blob_inv_new [of 0] by (simp add: blob_room_def SQBlob_def)
  from closure_roundtrip [OF s n this, of VNull] show ?thesis
    by (auto simp: sample_closure_def sample_head_def SQBlob_def)
qed

section \<open>Truncated and arbitrary streams\<close>

text \<open>The callback that reads from a list of bytes, and delivers what is left when it ends.\<close>

definition mem_read :: "byte list reader" where
  "mem_read n s = ((of_nat (length (take (unat n) s)), take (unat n) s), drop (unat n) s)"

definition mem_write :: "byte list writer" where
  "mem_write bs out = (of_nat (length bs), out @ bs)"

interpretation mem_closure: closure_stream mem_write "\<lambda>out n. True" id mem_read "\<lambda>s. length s < 2 ^ 64" id
proof
  fix r bs rest :: "byte list"
  assume "length r < 2 ^ 64" "id r = bs @ rest"
  then show "\<exists>r'. mem_read (of_nat (length bs)) r = ((of_nat (length bs), bs), r') \<and> length r' < 2 ^ 64 \<and> id r' = rest"
    by (simp add: mem_read_def unat_of_nat)
qed (simp add: mem_write_def)

text \<open>
  Reading is insensitive to bytes behind what is read, and an error other than that of a
  stream that breaks off does not go away when the stream goes on; and it never runs out of
  the bound on the depth, when the stream is shorter than the bound.
\<close>

definition extends :: "('a, byte list) rop \<Rightarrow> bool" where
  "extends m \<longleftrightarrow>
     (\<forall>s t x rest. m s = Inr (x, rest) \<longrightarrow> m (s @ t) = Inr (x, rest @ t)) \<and>
     (\<forall>s t e. m s = Inl e \<and> e \<noteq> Ser_Error read_failure \<longrightarrow> m (s @ t) = Inl e)"

lemma extendsD:
  "extends m \<Longrightarrow> m s = Inr (x, rest) \<Longrightarrow> m (s @ t) = Inr (x, rest @ t)"
  "extends m \<Longrightarrow> m s = Inl e \<Longrightarrow> e \<noteq> Ser_Error read_failure \<Longrightarrow> m (s @ t) = Inl e"
  unfolding extends_def by blast+

definition frugal :: "nat \<Rightarrow> nat \<Rightarrow> ('a, byte list) rop \<Rightarrow> bool" where
  "frugal k d m \<longleftrightarrow>
     (\<forall>s. length s < k \<longrightarrow> m s \<noteq> Inl Ser_Fuel \<and> (\<forall>x rest. m s = Inr (x, rest) \<longrightarrow> length rest + d \<le> length s))"

lemma extends_rbind:
  assumes m: "extends m" and f: "\<And>x. extends (f x)"
  shows "extends (rbind m f)"
  unfolding extends_def
proof (intro conjI allI impI; (elim conjE)?)
  fix s t x rest assume "rbind m f s = Inr (x, rest)"
  then obtain y r where y: "m s = Inr (y, r)" "f y r = Inr (x, rest)" by (auto simp: rbind_def bindE_Inr_iff)
  then show "rbind m f (s @ t) = Inr (x, rest @ t)"
    using extendsD(1) [OF m y(1), of t] extendsD(1) [OF f y(2), of t] by (simp add: rbind_def)
next
  fix s t e assume h: "rbind m f s = Inl e" and e: "e \<noteq> Ser_Error read_failure"
  show "rbind m f (s @ t) = Inl e"
  proof (cases "m s")
    case (Inl e')
    then have "m s = Inl e" using h by (simp add: rbind_def)
    from extendsD(2) [OF m this e, of t] show ?thesis by (simp add: rbind_def)
  next
    case (Inr p)
    then obtain y r where y: "m s = Inr (y, r)" "f y r = Inl e" using h by (cases p) (auto simp: rbind_def)
    from extendsD(1) [OF m y(1), of t] extendsD(2) [OF f y(2) e, of t] show ?thesis by (simp add: rbind_def)
  qed
qed

lemma extends_basic: "extends (rreturn x)" "extends (rfail e)"
  by (simp_all add: extends_def rreturn_def rfail_def)

lemma frugal_rbind:
  assumes m: "frugal k d m" and f: "\<And>x. frugal (k - d) 0 (f x)"
  shows "frugal k d (rbind m f)"
  unfolding frugal_def
proof (intro allI impI)
  fix s :: "byte list" assume s: "length s < k"
  show "rbind m f s \<noteq> Inl Ser_Fuel \<and> (\<forall>x rest. rbind m f s = Inr (x, rest) \<longrightarrow> length rest + d \<le> length s)"
  proof (cases "m s")
    case (Inl e)
    then show ?thesis using m s by (auto simp: frugal_def rbind_def)
  next
    case (Inr y)
    obtain x r where y: "y = (x, r)" by (cases y)
    have r: "length r + d \<le> length s" using m s Inr y by (auto simp: frugal_def)
    then have "length r < k - d" using s by linarith
    then show ?thesis using f [of x] Inr y r by (fastforce simp: frugal_def rbind_def)
  qed
qed

lemma frugal_weaken: "frugal k d m \<Longrightarrow> j \<le> k \<Longrightarrow> e \<le> d \<Longrightarrow> frugal j e m"
  unfolding frugal_def by (meson add_left_mono order.trans less_le_trans)

lemma frugal_rbind0: "frugal k 0 m \<Longrightarrow> (\<And>x. frugal k 0 (f x)) \<Longrightarrow> frugal k 0 (rbind m f)"
  using frugal_rbind [of k 0 m f] by simp

lemma frugal_basic: "frugal k 0 (rreturn x)" "e \<noteq> Ser_Fuel \<Longrightarrow> frugal k 0 (rfail e)"
  by (simp_all add: frugal_def rreturn_def rfail_def)

lemma mem_SafeRead:
  "SafeRead mem_read n s =
     (if unat n \<le> length s then Inr (take (unat n) s, drop (unat n) s) else Inl (Ser_Error read_failure))"
proof (cases "n = 0")
  case False
  have "length (take (unat n) s) \<le> unat n" by simp
  then have l: "length (take (unat n) s) < 2 ^ 64" using unsigned_less [of n, where 'a = nat] by simp
  have "(of_nat (length (take (unat n) s)) = n) = (unat n \<le> length s)"
  proof
    assume "of_nat (length (take (unat n) s)) = n"
    then have "unat (of_nat (length (take (unat n) s)) :: i64) = unat n" by simp
    then have "length (take (unat n) s) = unat n" using l by (simp only: unat_of_nat) simp
    then show "unat n \<le> length s" by simp
  qed (simp add: min_def)
  then show ?thesis using False by (auto simp: SafeRead_def mem_read_def)
qed (simp add: SafeRead_def)

lemma extends_SafeRead: "extends (SafeRead mem_read n)"
  by (auto simp: extends_def mem_SafeRead split: if_splits)

lemma frugal_SafeRead: "d \<le> unat n \<Longrightarrow> frugal k d (SafeRead mem_read n)"
  by (auto simp: frugal_def mem_SafeRead split: if_splits)

lemmas extends_rules = extends_rbind extends_basic extends_SafeRead
lemmas frugal_rules = frugal_rbind0 frugal_basic frugal_SafeRead

lemma extends_CheckTag: "extends (CheckTag mem_read tag)"
  unfolding CheckTag_def by (auto intro!: extends_rules)

lemma frugal_CheckTag: "frugal k 4 (CheckTag mem_read tag)"
  unfolding CheckTag_def by (rule frugal_rbind [OF frugal_SafeRead]) (auto intro!: frugal_basic)

lemma extends_ReadObject: "extends (ReadObject mem_read)"
  unfolding ReadObject_def by (auto intro!: extends_rules split: option.split sqtype.split)

lemma frugal_ReadObject: "frugal k 0 (ReadObject mem_read)"
  unfolding ReadObject_def by (auto intro!: frugal_rules split: option.split sqtype.split)

lemma extends_read_many: "extends m \<Longrightarrow> extends (read_many n m)"
  by (induction n) (auto intro!: extends_rules)

lemma frugal_read_many: "frugal k 0 m \<Longrightarrow> frugal k 0 (read_many n m)"
  by (induction n) (auto intro!: frugal_rules)

lemma extends_parts: "extends (load_outer mem_read)" "extends (load_local mem_read)" "extends (load_lines mem_read n)"
  "extends (load_defaults mem_read n)" "extends (load_instructions mem_read n)" "extends (read_count mem_read)"
  unfolding load_outer_def load_local_def load_lines_def load_defaults_def load_instructions_def read_count_def
  by (auto intro!: extends_rules extends_ReadObject split: option.split)

lemma frugal_parts: "frugal k 0 (load_outer mem_read)" "frugal k 0 (load_local mem_read)"
  "frugal k 0 (load_lines mem_read n)" "frugal k 0 (load_defaults mem_read n)"
  "frugal k 0 (load_instructions mem_read n)" "frugal k 0 (read_count mem_read)"
  unfolding load_outer_def load_local_def load_lines_def load_defaults_def load_instructions_def read_count_def
  by (auto intro!: frugal_rules frugal_ReadObject split: option.split)

lemma extends_load: "extends (proto_Load fuel mem_read)"
  by (induction fuel)
    (auto simp: load_body_def intro!: extends_rules extends_CheckTag extends_ReadObject extends_read_many extends_parts)

lemma frugal_tag: "frugal k 0 (CheckTag mem_read tag)"
  by (rule frugal_weaken [OF frugal_CheckTag [of k]]) simp_all

lemma frugal_load: "frugal fuel 0 (proto_Load fuel mem_read)"
proof (induction fuel)
  case 0
  then show ?case by (simp add: frugal_def)
next
  case (Suc fuel)
  have sub: "frugal (fuel - 3) 0 (proto_Load fuel mem_read)"
    by (rule frugal_weaken [OF Suc]) simp_all
  have "frugal (Suc fuel) 4 (proto_Load (Suc fuel) mem_read)"
    unfolding proto_Load.simps load_body_def
    by (rule frugal_rbind [OF frugal_CheckTag])
      (auto intro!: frugal_rules frugal_tag frugal_ReadObject frugal_read_many frugal_parts sub)
  then show ?case by (rule frugal_weaken) simp_all
qed

lemma extends_closure_Load: "extends (closure_Load fuel mem_read root)"
  unfolding closure_Load_def by (intro extends_rules extends_CheckTag extends_load)

lemma mem_readclosure:
  "sq_readclosure fuel mem_read root s =
     (if length s < 2 then Inl (Ser_Error ''io error'')
      else if word16 (take 2 s) \<noteq> SQ_BYTECODE_STREAM_TAG then Inl (Ser_Error ''invalid stream'')
      else closure_Load fuel mem_read root (drop 2 s))"
proof -
  have "length s < 2 \<longleftrightarrow> length s = 0 \<or> length s = 1" by linarith
  then show ?thesis by (auto simp: sq_readclosure_def mem_read_def)
qed

text \<open>
  The stream that \<open>sq_writeclosure\<close> gives to a callback that collects it, and that it is read
  back from it.\<close>

lemma mem_writeclosure:
  assumes "storable_proto (cl_function c)" "sq_writeclosure mem_write pad c [] = Inr out"
  shows "out = enc_stream pad c"
proof -
  have "ph_outervalues (pr_head (cl_function c)) = []"
    using assms(2) by (auto simp: sq_writeclosure_def split: if_splits)
  from mem_closure.sq_writeclosure_emits [OF assms(1) this, of pad] show ?thesis
    using assms(2) unfolding emits_def by auto
qed

text \<open>
  C33. A stream that breaks off is never accepted: reading any proper prefix of what
  \<open>sq_writeclosure\<close> has written raises an error, the one for a stream without the tag of two
  bytes, and otherwise the one of \<open>SafeRead\<close> for a stream that may be truncated. In
  particular nothing of the prefix leads to undefined behaviour or to a value.\<close>

theorem truncated_closure_rejected:
  assumes "storable_proto (cl_function c)" "size (cl_function c) \<le> fuel"
    and written: "sq_writeclosure mem_write pad c [] = Inr out" and "length out < 2 ^ 64"
    and cut: "out = s @ t" "t \<noteq> []"
  shows "sq_readclosure fuel mem_read root s =
    Inl (Ser_Error (if length s < 2 then ''io error'' else read_failure))"
proof (cases "length s < 2")
  case False
  note out = mem_writeclosure [OF assms(1) written]
  have "\<exists>r'. sq_readclosure fuel mem_read root out = Inr (closure_Create (cl_function c) root, r') \<and> id r' = []"
    using mem_closure.sq_readclosure_takes [OF assms(1,2), of root pad] assms(4)
    unfolding takes_def out by (metis append_Nil2 id_apply)
  then have full: "sq_readclosure fuel mem_read root (s @ t) = Inr (closure_Create (cl_function c) root, [])"
    using cut(1) by simp
  then have tag: "word16 (take 2 s) = SQ_BYTECODE_STREAM_TAG"
    and load: "closure_Load fuel mem_read root (drop 2 s @ t) = Inr (closure_Create (cl_function c) root, [])"
    using False by (auto simp: mem_readclosure split: if_splits)
  have "closure_Load fuel mem_read root (drop 2 s) = Inl (Ser_Error read_failure)"
  proof (cases "closure_Load fuel mem_read root (drop 2 s)")
    case (Inl e)
    then show ?thesis using extendsD(2) [OF extends_closure_Load Inl, of t] load by auto
  next
    case (Inr y)
    obtain x rest where y: "y = (x, rest)" by (cases y)
    show ?thesis using extendsD(1) [OF extends_closure_Load Inr [unfolded y], of t] load cut(2) by simp
  qed
  then show ?thesis using False tag by (simp add: mem_readclosure)
qed (simp add: mem_readclosure)

theorem truncated_closure_rejected_witness:
  "\<exists>out. sq_writeclosure mem_write (\<lambda>_. 0) sample_closure [] = Inr out \<and>
     sq_readclosure 9 mem_read VNull (butlast out) = Inl (Ser_Error read_failure)"
proof -
  have s: "storable_proto (cl_function sample_closure)" "size (cl_function sample_closure) \<le> 9"
    "ph_outervalues (pr_head (cl_function sample_closure)) = []"
    by (simp_all add: sample_closure_def sample_head_def storable_head_def FUNC_SIZE_def)
  from mem_closure.sq_writeclosure_emits [OF s(1,3), of "\<lambda>_. 0"] obtain out where
    out: "sq_writeclosure mem_write (\<lambda>_. 0) sample_closure [] = Inr out" unfolding emits_def by blast
  have "2 < length (enc_stream (\<lambda>_. 0) sample_closure)" "length (enc_stream (\<lambda>_. 0) sample_closure) < 2 ^ 64"
    by (simp_all add: enc_stream_def enc_closure_def sample_closure_def sample_head_def enc_part_def enc_object_def
        char_bytes_def line_bytes_def instr_bytes_def)
  then have l: "2 < length out" "length out < 2 ^ 64" using mem_writeclosure [OF s(1) out] by simp_all
  then have "out = butlast out @ [last out]" by (metis append_butlast_last_id less_zeroE list.size(3))
  from truncated_closure_rejected [OF s(1,2) out l(2) this, of VNull] l(1) out show ?thesis by auto
qed

text \<open>
  The nesting of functions is bounded by the length of the stream, also for one that was
  never written: the bound on the depth of the model is never met when it exceeds that
  length. (What a corrupted count or length leads to is not defined.)\<close>

lemma closure_loading_depth:
  assumes "length s < fuel"
  shows "sq_readclosure fuel mem_read root s \<noteq> Inl Ser_Fuel"
proof -
  have "frugal fuel 0 (closure_Load fuel mem_read root)"
    unfolding closure_Load_def by (intro frugal_rules frugal_tag frugal_load)
  then have "closure_Load fuel mem_read root (drop 2 s) \<noteq> Inl Ser_Fuel"
    using assms by (simp add: frugal_def)
  then show ?thesis by (simp add: mem_readclosure)
qed

end
