(* ===== verification/Sq_Array.thy ===== *)
theory Sq_Array
  imports Sq_Blob
begin

text \<open>
  The vector template of \<^verbatim>\<open>squtils.h\<close>, the class \<open>SQArray\<close> of \<^verbatim>\<open>sqarray.h\<close> and the native
  functions of arrays in \<^verbatim>\<open>sqbaselib.cpp\<close> with the API functions they call.

  A vector is the list of its live elements and its capacity \<open>_allocated\<close>, a number of
  elements. The block behind it has as many bytes as \<open>_realloc\<close> asked for: the capacity
  times the size of an element, computed in an unsigned 64-bit integer. An operation that
  would access memory outside of that block has no result (\<^const>\<open>None\<close>). A request for
  memory is taken to succeed.
\<close>

section \<open>sqvector\<close>

record 'a sqvector =
  v_vals :: "'a list"
  v_allocated :: nat

abbreviation v_size :: "'a sqvector \<Rightarrow> nat" where
  "v_size v \<equiv> length (v_vals v)"

definition vec_new :: "'a sqvector" where
  "vec_new = \<lparr>v_vals = [], v_allocated = 0\<rparr>"

text \<open>Sizes are values of \<open>SQUnsignedInteger\<close>; \<open>_size * 2\<close> is computed in that type.\<close>

definition vec_realloc :: "nat \<Rightarrow> 'a sqvector \<Rightarrow> 'a sqvector" where
  "vec_realloc newsize v =
     (let newsize = newsize mod 2 ^ 64 in v\<lparr>v_allocated := (if newsize > 0 then newsize else 4)\<rparr>)"

text \<open>
  The number of whole elements in a block of \<open>_allocated * sizeof(T)\<close> bytes. The vectors
  modelled here hold objects: \<open>sizeof(SQObjectPtr)\<close>, a tag and a union of 8 bytes, is 16.
\<close>

definition sizeof_SQObjectPtr :: nat where
  "sizeof_SQObjectPtr = 16"

definition vec_room :: "'a sqvector \<Rightarrow> nat" where
  "vec_room v = (v_allocated v * sizeof_SQObjectPtr) mod 2 ^ 64 div sizeof_SQObjectPtr"

text \<open>Constructing elements in place, from \<open>_size\<close> on.\<close>

definition vec_construct :: "'a list \<Rightarrow> 'a sqvector \<Rightarrow> 'a sqvector option" where
  "vec_construct xs v =
     (if v_size v + length xs \<le> vec_room v then Some (v\<lparr>v_vals := v_vals v @ xs\<rparr>) else None)"

definition vec_resize :: "nat \<Rightarrow> 'a \<Rightarrow> 'a sqvector \<Rightarrow> 'a sqvector option" where
  "vec_resize newsize fill v =
     (let v = (if newsize > v_allocated v then vec_realloc newsize v else v)
      in if newsize > v_size v then vec_construct (replicate (newsize - v_size v) fill) v
         else Some (v\<lparr>v_vals := take newsize (v_vals v)\<rparr>))"

definition vec_copy :: "'a sqvector \<Rightarrow> 'a sqvector \<Rightarrow> 'a sqvector option" where
  "vec_copy src v =
     (let v = v\<lparr>v_vals := []\<rparr>;
          v = (if v_size src > v_allocated v then vec_realloc (v_size src) v else v)
      in vec_construct (v_vals src) v)"

definition vec_shrinktofit :: "'a sqvector \<Rightarrow> 'a sqvector" where
  "vec_shrinktofit v = (if v_size v > 4 then vec_realloc (v_size v) v else v)"

definition vec_top :: "'a sqvector \<Rightarrow> 'a option" where
  "vec_top v = (if v_vals v = [] then None else Some (last (v_vals v)))"

definition vec_push_back :: "'a \<Rightarrow> 'a sqvector \<Rightarrow> 'a sqvector option" where
  "vec_push_back x v =
     vec_construct [x] (if v_allocated v \<le> v_size v then vec_realloc (v_size v * 2) v else v)"

definition vec_pop_back :: "'a sqvector \<Rightarrow> 'a sqvector option" where
  "vec_pop_back v = (if v_vals v = [] then None else Some (v\<lparr>v_vals := butlast (v_vals v)\<rparr>))"

text \<open>The loop of \<open>insert\<close> that moves the elements up by one, from the end.\<close>

fun shift_up :: "nat \<Rightarrow> nat \<Rightarrow> 'a list \<Rightarrow> 'a list" where
  "shift_up 0 idx xs = xs"
| "shift_up (Suc i) idx xs = (if Suc i > idx then shift_up i idx (xs[Suc i := xs ! i]) else xs)"

definition vec_insert :: "nat \<Rightarrow> 'a \<Rightarrow> 'a \<Rightarrow> 'a sqvector \<Rightarrow> 'a sqvector option" where
  "vec_insert idx null x v =
     Option.bind (vec_resize (v_size v + 1) null v) (\<lambda>v.
       if idx < v_size v
       then Some (v\<lparr>v_vals := (shift_up (v_size v - 1) idx (v_vals v))[idx := x]\<rparr>)
       else None)"

definition vec_remove :: "nat \<Rightarrow> 'a sqvector \<Rightarrow> 'a sqvector option" where
  "vec_remove idx v =
     (if idx < v_size v then Some (v\<lparr>v_vals := take idx (v_vals v) @ drop (idx + 1) (v_vals v)\<rparr>) else None)"

section \<open>SQArray\<close>

type_synonym sqarray = "sqobject sqvector"

definition array_Create :: "nat \<Rightarrow> sqarray option" where
  "array_Create n = vec_resize n VNull vec_new"

definition array_Get :: "weakstore \<Rightarrow> i64 \<Rightarrow> sqarray \<Rightarrow> sqobject option" where
  "array_Get W nidx a =
     (if 0 \<le> sint nidx \<and> sint nidx < int (v_size a) then Some (realval W (v_vals a ! unat nidx)) else None)"

definition array_Set :: "i64 \<Rightarrow> sqobject \<Rightarrow> sqarray \<Rightarrow> bool \<times> sqarray" where
  "array_Set nidx x a =
     (if 0 \<le> sint nidx \<and> sint nidx < int (v_size a) then (True, a\<lparr>v_vals := (v_vals a)[unat nidx := x]\<rparr>)
      else (False, a))"

definition array_Next :: "weakstore \<Rightarrow> sqobject \<Rightarrow> sqarray \<Rightarrow> (i64 \<times> sqobject \<times> sqobject) option option" where
  "array_Next W refpos a =
     (case TranslateIndex refpos of
        None \<Rightarrow> None
      | Some idx \<Rightarrow>
          if unat idx < v_size a then Some (Some (idx + 1, VInteger idx, realval W (v_vals a ! unat idx)))
          else Some None)"

definition ShrinkIfNeeded :: "'a sqvector \<Rightarrow> 'a sqvector" where
  "ShrinkIfNeeded a = (if v_size a \<le> v_allocated a div 4 then vec_shrinktofit a else a)"

definition array_Clone :: "sqarray \<Rightarrow> sqarray option" where
  "array_Clone a = Option.bind (array_Create 0) (vec_copy a)"

definition array_Resize :: "nat \<Rightarrow> sqobject \<Rightarrow> sqarray \<Rightarrow> sqarray option" where
  "array_Resize n fill a = Option.bind (vec_resize n fill a) (\<lambda>a. Some (ShrinkIfNeeded a))"

definition array_Append :: "sqobject \<Rightarrow> sqarray \<Rightarrow> sqarray option" where
  "array_Append x a = vec_push_back x a"

fun append_all :: "sqobject list \<Rightarrow> sqarray \<Rightarrow> sqarray option" where
  "append_all [] a = Some a"
| "append_all (x # xs) a = Option.bind (array_Append x a) (append_all xs)"

text \<open>
  \<open>Extend\<close> reads the first \<open>Size()\<close> elements of its argument, which may be the array itself:
  those are not changed by appending.
\<close>

definition array_Extend :: "sqarray \<Rightarrow> sqarray \<Rightarrow> sqarray option" where
  "array_Extend other a = append_all (v_vals other) a"

definition array_Pop :: "sqarray \<Rightarrow> sqarray option" where
  "array_Pop a = Option.bind (vec_pop_back a) (\<lambda>a. Some (ShrinkIfNeeded a))"

definition array_Insert :: "i64 \<Rightarrow> sqobject \<Rightarrow> sqarray \<Rightarrow> (bool \<times> sqarray) option" where
  "array_Insert idx x a =
     (if sint idx < 0 \<or> sint idx > int (v_size a) then Some (False, a)
      else Option.bind (vec_insert (unat idx) VNull x a) (\<lambda>a. Some (True, a)))"

definition array_Remove :: "i64 \<Rightarrow> sqarray \<Rightarrow> (bool \<times> sqarray) option" where
  "array_Remove idx a =
     (if sint idx < 0 \<or> sint idx \<ge> int (v_size a) then Some (False, a)
      else Option.bind (vec_remove (unat idx) a) (\<lambda>a. Some (True, ShrinkIfNeeded a)))"

section \<open>Native functions without callbacks\<close>

text \<open>
  The result of a native function on an array: the object it pushes, an array it has created
  (which it pushes), the array it was called on, nothing, or an error; \<open>BadMemory\<close> is an
  access outside of an allocated block.
\<close>

datatype nat_result = Pushed sqobject | PushedArray sqarray | PushedThis | NoResult

type_synonym arr_op = "sqarray \<Rightarrow> blob_error + (nat_result \<times> sqarray)"

definition checked :: "'a option \<Rightarrow> blob_error + 'a" where
  "checked m = (case m of Some x \<Rightarrow> Inr x | None \<Rightarrow> Inl BadMemory)"

definition array_append_fn :: "sqobject \<Rightarrow> arr_op" where
  "array_append_fn x a = bindE (checked (array_Append x a)) (\<lambda>a. Inr (PushedThis, a))"

definition array_extend_fn :: "sqarray \<Rightarrow> arr_op" where
  "array_extend_fn other a = bindE (checked (array_Extend other a)) (\<lambda>a. Inr (PushedThis, a))"

fun reverse_loop :: "nat \<Rightarrow> nat \<Rightarrow> nat \<Rightarrow> 'a list \<Rightarrow> 'a list" where
  "reverse_loop 0 i size1 xs = xs"
| "reverse_loop (Suc k) i size1 xs = reverse_loop k (Suc i) size1 (xs[i := xs ! (size1 - i), size1 - i := xs ! i])"

definition array_reverse_fn :: "arr_op" where
  "array_reverse_fn a =
     Inr (PushedThis,
       if v_size a > 0 then a\<lparr>v_vals := reverse_loop (v_size a div 2) 0 (v_size a - 1) (v_vals a)\<rparr> else a)"

definition array_pop_fn :: "arr_op" where
  "array_pop_fn a =
     (if v_size a > 0
      then bindE (checked (vec_top a)) (\<lambda>x. bindE (checked (array_Pop a)) (\<lambda>a. Inr (Pushed x, a)))
      else Inl (Throw ''empty array''))"

definition array_top_fn :: "arr_op" where
  "array_top_fn a =
     (if v_size a > 0 then bindE (checked (vec_top a)) (\<lambda>x. Inr (Pushed x, a))
      else Inl (Throw ''top() on a empty array''))"

definition array_insert_fn :: "sqobject \<Rightarrow> sqobject \<Rightarrow> arr_op" where
  "array_insert_fn idx x a =
     bindE (checked (array_Insert (tointeger idx) x a)) (\<lambda>(ok, a).
       if ok then Inr (PushedThis, a) else Inl (Throw ''index out of range''))"

definition array_remove_fn :: "weakstore \<Rightarrow> sqobject \<Rightarrow> arr_op" where
  "array_remove_fn W idx a =
     (if \<not> sq_isnumeric (sq_type idx) then Inl (Throw ''wrong type'')
      else case array_Get W (tointeger idx) a of
             Some x \<Rightarrow> bindE (checked (array_Remove (tointeger idx) a)) (\<lambda>(_, a). Inr (Pushed x, a))
           | None \<Rightarrow> Inl (Throw ''idx out of range''))"

definition array_resize_fn :: "sqobject \<Rightarrow> sqobject option \<Rightarrow> arr_op" where
  "array_resize_fn nsize fill a =
     (if \<not> sq_isnumeric (sq_type nsize) then Inl (Throw ''size must be a number'')
      else if int_arg nsize < 0 then Inl (Throw ''resizing to negative length'')
      else bindE (checked (array_Resize (nat (int_arg nsize)) (case fill of Some x \<Rightarrow> x | None \<Rightarrow> VNull) a))
             (\<lambda>a. Inr (PushedThis, a)))"

fun find_loop :: "weakstore \<Rightarrow> sqobject \<Rightarrow> nat \<Rightarrow> sqobject list \<Rightarrow> nat option" where
  "find_loop W x n [] = None"
| "find_loop W x n (y # ys) = (if IsEqual (realval W y) x then Some n else find_loop W x (n + 1) ys)"

definition array_find_fn :: "weakstore \<Rightarrow> sqobject \<Rightarrow> arr_op" where
  "array_find_fn W x a =
     (case find_loop W x 0 (v_vals a) of
        Some n \<Rightarrow> Inr (Pushed (VInteger (of_nat n)), a)
      | None \<Rightarrow> Inr (NoResult, a))"

text \<open>\<open>get_slice_params\<close>, with the arguments after \<open>this\<close> and the size of \<open>this\<close>.\<close>

definition get_slice_params :: "int \<Rightarrow> sqobject list \<Rightarrow> int \<times> int" where
  "get_slice_params sz args =
     ((case args of s # _ \<Rightarrow> if sq_type s \<noteq> OT_NULL \<and> sq_isnumeric (sq_type s) then int_arg s else 0 | [] \<Rightarrow> 0),
      (case args of _ # e # _ \<Rightarrow> if sq_isnumeric (sq_type e) then int_arg e else 0 | _ \<Rightarrow> sz))"

text \<open>\<open>t\<close> is declared outside of the loop: a failed \<open>Get\<close> would leave its old value.\<close>

fun slice_loop :: "weakstore \<Rightarrow> nat \<Rightarrow> int \<Rightarrow> int \<Rightarrow> sqobject \<Rightarrow> sqarray \<Rightarrow> sqarray \<Rightarrow> sqarray" where
  "slice_loop W 0 i cnt t src arr = arr"
| "slice_loop W (Suc k) i cnt t src arr =
     (let t = (case array_Get W (word_of_int i) src of Some x \<Rightarrow> x | None \<Rightarrow> t)
      in slice_loop W k (i + 1) (cnt + 1) t src (snd (array_Set (word_of_int cnt) t arr)))"

definition array_slice_fn :: "weakstore \<Rightarrow> sqobject list \<Rightarrow> arr_op" where
  "array_slice_fn W args a =
     (let alen = int (v_size a);
          (s, e) = get_slice_params alen args;
          sidx = (if s < 0 then alen + s else s);
          eidx = (if e < 0 then alen + e else e)
      in if eidx < sidx then Inl (Throw ''wrong indexes'')
         else if eidx > alen \<or> sidx < 0 then Inl (Throw ''slice out of range'')
         else bindE (checked (array_Create (nat (eidx - sidx)))) (\<lambda>arr.
                Inr (PushedArray (slice_loop W (nat (eidx - sidx)) sidx 0 VNull a arr), a)))"

section \<open>Native functions with callbacks\<close>

text \<open>
  A callback may change any array, and what weak references point to. The state is the
  store of the arrays, the store of the weak references, the number of parameters of each
  closure's function (\<open>_function->_nparameters\<close>, which counts \<open>this\<close>), the parameter check of
  each native closure (\<open>_nparamscheck\<close>) and the rest of the machine. A call of a callable
  object gets the object and its arguments, \<open>this\<close> first.
\<close>

record 's world =
  w_arrays :: "addr \<Rightarrow> sqarray"
  w_weak :: weakstore
  w_nparameters :: "addr \<Rightarrow> i64"
  w_nparamscheck :: "addr \<Rightarrow> i64"
  w_rest :: 's

type_synonym 's sqcall = "sqobject \<Rightarrow> sqobject list \<Rightarrow> 's world \<Rightarrow> (vm_error + sqobject) \<times> 's world"

definition set_array :: "addr \<Rightarrow> sqarray \<Rightarrow> 's world \<Rightarrow> 's world" where
  "set_array p a w = w\<lparr>w_arrays := (w_arrays w)(p := a)\<rparr>"

text \<open>
  \<open>sq_call\<close> takes the callable object and \<open>params\<close> arguments from the top of the stack, pops
  the arguments and pushes the result. With a negative number the callable object would be
  taken from above the top of the stack; a stack that is too short would take it from the
  frame of the caller, which is not modelled. Both are a \<^const>\<open>Trap\<close>.
\<close>

definition sq_call :: "'s sqcall \<Rightarrow> int \<Rightarrow> sqobject list \<Rightarrow> 's world \<Rightarrow>
    (vm_error + sqobject list) \<times> 's world" where
  "sq_call call params st w =
     (if params < 0 \<or> int (length st) < params + 1 then (Inl Trap, w)
      else let base = length st - nat params
           in case call (st ! (base - 1)) (drop base st) w of
                (Inl e, w) \<Rightarrow> (Inl e, w)
              | (Inr res, w) \<Rightarrow> (Inr (take base st @ [res]), w))"

text \<open>\<open>__map_array\<close>: \<open>temp\<close> keeps its value when \<open>Get\<close> fails. The stack is threaded.\<close>

fun map_loop :: "'s sqcall \<Rightarrow> int \<Rightarrow> addr \<Rightarrow> (sqarray + addr) \<Rightarrow> nat \<Rightarrow> nat \<Rightarrow> sqobject \<Rightarrow> sqobject list \<Rightarrow> 's world \<Rightarrow>
    (vm_error + (sqarray + addr)) \<times> 's world" where
  "map_loop call nArgs src dest n 0 temp st w = (Inr dest, w)"
| "map_loop call nArgs src dest n (Suc k) temp st w =
     (let temp = (case array_Get (w_weak w) (of_nat n) (w_arrays w src) of Some x \<Rightarrow> x | None \<Rightarrow> temp);
          st = st @ [VArray src, temp] @ (if nArgs \<ge> 3 then [VInteger (of_nat n)] else []) @
               (if nArgs \<ge> 4 then [VArray src] else [])
      in case sq_call call nArgs st w of
           (Inl e, w) \<Rightarrow> (Inl e, w)
         | (Inr st, w) \<Rightarrow>
             (case dest of
                Inl d \<Rightarrow>
                  map_loop call nArgs src (Inl (snd (array_Set (of_nat n) (last st) d))) (n + 1) k temp (butlast st) w
              | Inr p \<Rightarrow>
                  map_loop call nArgs src (Inr p) (n + 1) k temp (butlast st)
                    (set_array p (snd (array_Set (of_nat n) (last st) (w_arrays w p))) w)))"

text \<open>
  The number of arguments: the parameters of a closure; for a native function those of its
  parameter check, or 4 when it checks only a minimum or nothing.
\<close>

definition map_nargs :: "'s world \<Rightarrow> sqobject \<Rightarrow> int" where
  "map_nargs w closure =
     (case closure of
        VClosure c \<Rightarrow> sint (w_nparameters w c)
      | VNativeClosure c \<Rightarrow> if sint (w_nparamscheck w c) > 0 then sint (w_nparamscheck w c) else 4
      | _ \<Rightarrow> 0)"

definition array_map_fn :: "'s sqcall \<Rightarrow> addr \<Rightarrow> sqobject \<Rightarrow> 's world \<Rightarrow>
    (vm_error + sqarray) \<times> 's world" where
  "array_map_fn call p closure w =
     (let sz = v_size (w_arrays w p); nArgs = map_nargs w closure
      in case array_Create sz of
           None \<Rightarrow> (Inl Trap, w)
         | Some ret \<Rightarrow>
             (case map_loop call nArgs p (Inl ret) 0 sz VNull [VArray p, closure, closure] w of
                (Inr (Inl d), w) \<Rightarrow> (Inr d, w)
              | (Inr (Inr _), w) \<Rightarrow> (Inl Trap, w)
              | (Inl e, w) \<Rightarrow> (Inl e, w)))"

definition array_apply_fn :: "'s sqcall \<Rightarrow> addr \<Rightarrow> sqobject \<Rightarrow> 's world \<Rightarrow>
    (vm_error + unit) \<times> 's world" where
  "array_apply_fn call p closure w =
     (case map_loop call (map_nargs w closure) p (Inr p) 0 (v_size (w_arrays w p)) VNull [VArray p, closure, closure] w of
        (Inl e, w) \<Rightarrow> (Inl e, w)
      | (Inr _, w) \<Rightarrow> (Inr (), w))"

fun reduce_loop :: "'s sqcall \<Rightarrow> sqobject \<Rightarrow> addr \<Rightarrow> nat \<Rightarrow> nat \<Rightarrow> sqobject \<Rightarrow> sqobject \<Rightarrow> 's world \<Rightarrow>
    (vm_error + sqobject) \<times> 's world" where
  "reduce_loop call closure p n 0 res other w = (Inr res, w)"
| "reduce_loop call closure p n (Suc k) res other w =
     (let other = (case array_Get (w_weak w) (of_nat n) (w_arrays w p) of Some x \<Rightarrow> x | None \<Rightarrow> other)
      in case call closure [VArray p, res, other] w of
           (Inl e, w) \<Rightarrow> (Inl e, w)
         | (Inr res, w) \<Rightarrow> reduce_loop call closure p (n + 1) k res other w)"

definition array_reduce_fn :: "'s sqcall \<Rightarrow> addr \<Rightarrow> sqobject \<Rightarrow> sqobject option \<Rightarrow> 's world \<Rightarrow>
    (vm_error + sqobject option) \<times> 's world" where
  "array_reduce_fn call p closure init w =
     (let sz = v_size (w_arrays w p);
          start = (case init of
                     Some x \<Rightarrow> Some (x, 0)
                   | None \<Rightarrow>
                       if sz = 0 then None
                       else Some (case array_Get (w_weak w) 0 (w_arrays w p) of Some x \<Rightarrow> x | None \<Rightarrow> VNull, 1))
      in case start of
           None \<Rightarrow> (Inr None, w)
         | Some (res, n) \<Rightarrow>
             (case reduce_loop call closure p n (sz - n) res VNull w of
                (Inl e, w) \<Rightarrow> (Inl e, w)
              | (Inr res, w) \<Rightarrow> (Inr (Some res), w)))"

fun filter_loop :: "'s sqcall \<Rightarrow> sqobject \<Rightarrow> addr \<Rightarrow> nat \<Rightarrow> nat \<Rightarrow> sqobject \<Rightarrow> sqarray \<Rightarrow> 's world \<Rightarrow>
    (vm_error + sqarray) \<times> 's world" where
  "filter_loop call closure p n 0 x ret w = (Inr ret, w)"
| "filter_loop call closure p n (Suc k) x ret w =
     (let x = (case array_Get (w_weak w) (of_nat n) (w_arrays w p) of Some y \<Rightarrow> y | None \<Rightarrow> x)
      in case call closure [VArray p, VInteger (of_nat n), x] w of
           (Inl e, w) \<Rightarrow> (Inl e, w)
         | (Inr res, w) \<Rightarrow>
             if IsFalse res then filter_loop call closure p (n + 1) k x ret w
             else (case array_Append x ret of
                     None \<Rightarrow> (Inl Trap, w)
                   | Some ret \<Rightarrow> filter_loop call closure p (n + 1) k x ret w))"

definition array_filter_fn :: "'s sqcall \<Rightarrow> addr \<Rightarrow> sqobject \<Rightarrow> 's world \<Rightarrow> (vm_error + sqarray) \<times> 's world" where
  "array_filter_fn call p closure w =
     (case array_Create 0 of
        None \<Rightarrow> (Inl Trap, w)
      | Some ret \<Rightarrow> filter_loop call closure p 0 (v_size (w_arrays w p)) VNull ret w)"

section \<open>Sorting\<close>

text \<open>
  The comparison: the function of the script when one is given, and \<open>ObjCmp\<close> otherwise.
  The function is called through \<open>fcall\<close>, which also tells whether the elements of the
  array have been moved to another block. \<open>str_error\<close> is whether the last error is a string.
\<close>

type_synonym 's sortcall = "sqobject \<Rightarrow> sqobject \<Rightarrow> 's world \<Rightarrow> (vm_error + sqobject) \<times> bool \<times> bool \<times> 's world"

definition sort_compare :: "'s world mmcall \<Rightarrow> 's sortcall option \<Rightarrow> addr \<Rightarrow> sqobject \<Rightarrow> sqobject \<Rightarrow> 's world \<Rightarrow>
    (vm_error + i64) \<times> 's world" where
  "sort_compare mm func p a b w =
     (case func of
        None \<Rightarrow> ObjCmp mm a b w
      | Some fcall \<Rightarrow>
          let precallsize = v_size (w_arrays w p)
          in case fcall a b w of
               (Inl e, moved, str_error, w) \<Rightarrow>
                 (Inl (if str_error then e else Raise_Error ''compare func failed''), w)
             | (Inr r, moved, _, w) \<Rightarrow>
                 (case sq_getinteger r of
                    None \<Rightarrow>
                      (Inl (Raise_Error ''numeric value expected as return value of the compare function''), w)
                  | Some ret \<Rightarrow>
                      if precallsize \<noteq> v_size (w_arrays w p) \<or> moved
                      then (Inl (Raise_Error ''array resized during sort operation''), w)
                      else (Inr ret, w)))"

definition elem :: "'s world \<Rightarrow> addr \<Rightarrow> nat \<Rightarrow> sqobject" where
  "elem w p i = v_vals (w_arrays w p) ! i"

definition swap_elems :: "addr \<Rightarrow> nat \<Rightarrow> nat \<Rightarrow> 's world \<Rightarrow> 's world" where
  "swap_elems p i j w =
     set_array p ((w_arrays w p)\<lparr>v_vals := (v_vals (w_arrays w p))[i := elem w p j, j := elem w p i]\<rparr>) w"

text \<open>The choice of the child that is compared with the root.\<close>

definition max_child :: "'s world mmcall \<Rightarrow> 's sortcall option \<Rightarrow> addr \<Rightarrow> nat \<Rightarrow> nat \<Rightarrow> 's world \<Rightarrow>
    (vm_error + nat) \<times> 's world" where
  "max_child mm func p root2 bottom w =
     (if root2 = bottom then (Inr root2, w)
      else case sort_compare mm func p (elem w p root2) (elem w p (root2 + 1)) w of
             (Inl e, w) \<Rightarrow> (Inl e, w)
           | (Inr ret, w) \<Rightarrow> (Inr (if 0 <s ret then root2 else root2 + 1), w))"

lemma max_child_range:
  "max_child mm func p root2 bottom w = (Inr c, w') \<Longrightarrow> root2 \<le> bottom \<Longrightarrow> root2 \<le> c \<and> c \<le> bottom"
  by (auto simp: max_child_def split: if_splits prod.splits sum.splits)

function hsort_sift_down :: "'s world mmcall \<Rightarrow> 's sortcall option \<Rightarrow> addr \<Rightarrow> nat \<Rightarrow> nat \<Rightarrow> 's world \<Rightarrow>
    (vm_error + unit) \<times> 's world" where
  "hsort_sift_down mm func p root bottom w =
     (if root * 2 \<le> bottom then
        (case max_child mm func p (root * 2) bottom w of
           (Inl e, w) \<Rightarrow> (Inl e, w)
         | (Inr maxChild, w) \<Rightarrow>
             (case sort_compare mm func p (elem w p root) (elem w p maxChild) w of
                (Inl e, w) \<Rightarrow> (Inl e, w)
              | (Inr ret, w) \<Rightarrow>
                  if ret <s 0 then
                    if root = maxChild then (Inl (Raise_Error ''inconsistent compare function''), w)
                    else hsort_sift_down mm func p maxChild bottom (swap_elems p root maxChild w)
                  else (Inr (), w)))
      else (Inr (), w))"
  by pat_completeness auto
termination
  by (relation "measure (\<lambda>(mm, func, p, root, bottom, w). Suc bottom - root)")
    (auto dest!: max_child_range [OF sym])

declare hsort_sift_down.simps [simp del]

text \<open>The two loops of \<open>_hsort\<close>.\<close>

fun hsort_build :: "'s world mmcall \<Rightarrow> 's sortcall option \<Rightarrow> addr \<Rightarrow> nat \<Rightarrow> nat \<Rightarrow> 's world \<Rightarrow>
    (vm_error + unit) \<times> 's world" where
  "hsort_build mm func p 0 bottom w = (Inr (), w)"
| "hsort_build mm func p (Suc i) bottom w =
     (case hsort_sift_down mm func p i bottom w of
        (Inl e, w) \<Rightarrow> (Inl e, w)
      | (Inr _, w) \<Rightarrow> hsort_build mm func p i bottom w)"

fun hsort_extract :: "'s world mmcall \<Rightarrow> 's sortcall option \<Rightarrow> addr \<Rightarrow> nat \<Rightarrow> 's world \<Rightarrow>
    (vm_error + unit) \<times> 's world" where
  "hsort_extract mm func p 0 w = (Inr (), w)"
| "hsort_extract mm func p (Suc i) w =
     (case hsort_sift_down mm func p 0 i (swap_elems p 0 (Suc i) w) of
        (Inl e, w) \<Rightarrow> (Inl e, w)
      | (Inr _, w) \<Rightarrow> hsort_extract mm func p i w)"

definition hsort :: "'s world mmcall \<Rightarrow> 's sortcall option \<Rightarrow> addr \<Rightarrow> 's world \<Rightarrow> (vm_error + unit) \<times> 's world" where
  "hsort mm func p w =
     (let array_size = v_size (w_arrays w p)
      in case hsort_build mm func p (array_size div 2 + 1) (array_size - 1) w of
           (Inl e, w) \<Rightarrow> (Inl e, w)
         | (Inr _, w) \<Rightarrow> hsort_extract mm func p (array_size - 1) w)"

definition array_sort_fn :: "'s world mmcall \<Rightarrow> 's sortcall option \<Rightarrow> addr \<Rightarrow> 's world \<Rightarrow>
    (vm_error + unit) \<times> 's world" where
  "array_sort_fn mm func p w = (if v_size (w_arrays w p) > 1 then hsort mm func p w else (Inr (), w))"

end
