(* ===== verification/Sq_Array_Correct.thy ===== *)
theory Sq_Array_Correct
  imports Sq_Array Sq_Blob_Correct Sq_Arith_Correct "HOL-Library.Multiset"
begin

text \<open>
  Arrays behave as lists: every operation of an array is the operation on the list of its
  elements, and no access leaves the allocated block. Sorting an array with a comparison
  that is consistent with an order sorts it; with any comparison that leaves the array
  alone it ends and only permutes the elements.
\<close>

section \<open>The heap of the sort\<close>

text \<open>
  The sort keeps a heap in which the parent of an index is its half: index 0 has the only
  child 1. The functions on lists that the loops of the sort perform.
\<close>

definition best_child :: "('a \<Rightarrow> 'a \<Rightarrow> bool) \<Rightarrow> nat \<Rightarrow> nat \<Rightarrow> 'a list \<Rightarrow> nat" where
  "best_child le root2 bottom xs =
     (if root2 = bottom \<or> \<not> le (xs ! root2) (xs ! (root2 + 1)) then root2 else root2 + 1)"

definition swap_list :: "nat \<Rightarrow> nat \<Rightarrow> 'a list \<Rightarrow> 'a list" where
  "swap_list i j xs = xs[i := xs ! j, j := xs ! i]"

function sift :: "('a \<Rightarrow> 'a \<Rightarrow> bool) \<Rightarrow> nat \<Rightarrow> nat \<Rightarrow> 'a list \<Rightarrow> 'a list" where
  "sift le root bottom xs =
     (let c = best_child le (root * 2) bottom xs
      in if root * 2 \<le> bottom \<and> \<not> le (xs ! c) (xs ! root) \<and> c \<noteq> root
         then sift le c bottom (swap_list root c xs) else xs)"
  by pat_completeness auto
termination
  by (relation "measure (\<lambda>(le, root, bottom, xs). Suc bottom - root)")
    (auto simp: best_child_def split: if_splits)

declare sift.simps [simp del]

definition heap_from :: "('a \<Rightarrow> 'a \<Rightarrow> bool) \<Rightarrow> nat \<Rightarrow> nat \<Rightarrow> 'a list \<Rightarrow> bool" where
  "heap_from le r bottom xs \<longleftrightarrow> (\<forall>k. 1 \<le> k \<and> k \<le> bottom \<and> r \<le> k div 2 \<longrightarrow> le (xs ! k) (xs ! (k div 2)))"

lemma swap_list_length [simp]: "length (swap_list i j xs) = length xs"
  by (simp add: swap_list_def)

lemma swap_list_mset: "i < length xs \<Longrightarrow> j < length xs \<Longrightarrow> mset (swap_list i j xs) = mset xs"
  by (simp add: swap_list_def mset_swap)

lemma swap_list_nth:
  "i < length xs \<Longrightarrow> j < length xs \<Longrightarrow>
     swap_list i j xs ! k = (if k = j then xs ! i else if k = i then xs ! j else xs ! k)"
  by (auto simp: swap_list_def nth_list_update)

lemma best_child_range: "root2 \<le> bottom \<Longrightarrow> root2 \<le> best_child le root2 bottom xs
    \<and> best_child le root2 bottom xs \<le> bottom \<and> best_child le root2 bottom xs \<le> root2 + 1"
  by (auto simp: best_child_def)

lemma sift_mset: "bottom < length xs \<Longrightarrow> mset (sift le root bottom xs) = mset xs"
proof (induction le root bottom xs rule: sift.induct)
  case (1 le root bottom xs)
  let ?c = "best_child le (root * 2) bottom xs"
  show ?case
  proof (cases "root * 2 \<le> bottom \<and> \<not> le (xs ! ?c) (xs ! root) \<and> ?c \<noteq> root")
    case True
    then have "?c < length xs" "root < length xs"
      using best_child_range [of "root * 2" bottom le xs] 1(2) by auto
    then show ?thesis using 1 True by (simp add: sift.simps [of le root] Let_def swap_list_mset)
  next
    case False
    then show ?thesis by (auto simp: sift.simps [of le root] Let_def)
  qed
qed

lemma sift_length [simp]: "bottom < length xs \<Longrightarrow> length (sift le root bottom xs) = length xs"
  by (metis sift_mset size_mset)

lemma sift_frame: "bottom < length xs \<Longrightarrow> k < root \<or> bottom < k \<Longrightarrow> sift le root bottom xs ! k = xs ! k"
proof (induction le root bottom xs rule: sift.induct)
  case (1 le root bottom xs)
  let ?c = "best_child le (root * 2) bottom xs"
  show ?case
  proof (cases "root * 2 \<le> bottom \<and> \<not> le (xs ! ?c) (xs ! root) \<and> ?c \<noteq> root")
    case True
    then have c: "?c < length xs" "root < length xs" "?c \<le> bottom" "root < ?c"
      using best_child_range [of "root * 2" bottom le xs] 1(2) by auto
    have "sift le ?c bottom (swap_list root ?c xs) ! k = swap_list root ?c xs ! k"
      using 1 True c by auto
    also have "\<dots> = xs ! k" using c 1(3) by (auto simp: swap_list_nth)
    finally show ?thesis using True by (simp add: sift.simps [of le root] Let_def)
  next
    case False
    then show ?thesis by (auto simp: sift.simps [of le root] Let_def)
  qed
qed

text \<open>An order on the elements of a set: reflexive, transitive and total there.\<close>

definition preorder_of :: "('a \<Rightarrow> 'a \<Rightarrow> bool) \<Rightarrow> 'a set \<Rightarrow> bool" where
  "preorder_of le S \<longleftrightarrow> (\<forall>a\<in>S. \<forall>b\<in>S. le a b \<or> le b a) \<and> (\<forall>a\<in>S. \<forall>b\<in>S. \<forall>c\<in>S. le a b \<longrightarrow> le b c \<longrightarrow> le a c)"

lemma sift_heap:
  assumes "preorder_of le (set xs)" "bottom < length xs" "r0 \<le> root"
    and "\<And>k. 1 \<le> k \<Longrightarrow> k \<le> bottom \<Longrightarrow> r0 \<le> k div 2 \<Longrightarrow> k div 2 \<noteq> root \<Longrightarrow> le (xs ! k) (xs ! (k div 2))"
    and "\<And>k. 1 \<le> k \<Longrightarrow> k \<le> bottom \<Longrightarrow> k div 2 = root \<Longrightarrow> 1 \<le> root \<Longrightarrow> r0 \<le> root div 2 \<Longrightarrow>
           le (xs ! k) (xs ! (root div 2))"
  shows "heap_from le r0 bottom (sift le root bottom xs)"
  using assms
proof (induction le root bottom xs rule: sift.induct)
  case (1 le root bottom xs)
  let ?c = "best_child le (root * 2) bottom xs"
  have tot: "le (xs ! i) (xs ! j) \<or> le (xs ! j) (xs ! i)" if "i < length xs" "j < length xs" for i j
    using 1(2) that by (auto simp: preorder_of_def)
  have trn: "le (xs ! i) (xs ! j) \<Longrightarrow> le (xs ! j) (xs ! k) \<Longrightarrow> le (xs ! i) (xs ! k)"
    if "i < length xs" "j < length xs" "k < length xs" for i j k
    using 1(2) that unfolding preorder_of_def by (meson nth_mem)
  have child: "k = root * 2 \<or> k = root * 2 + 1" if "k div 2 = root" for k :: nat using that by linarith
  show ?case
  proof (cases "root * 2 \<le> bottom \<and> \<not> le (xs ! ?c) (xs ! root) \<and> ?c \<noteq> root")
    case True
    have c: "?c < length xs" "root < length xs" "?c \<le> bottom" "root < ?c" "?c div 2 = root" "1 \<le> ?c"
      using best_child_range [of "root * 2" bottom le xs] 1(3) True by auto
    let ?ys = "swap_list root ?c xs"
    have ys: "?ys ! k = (if k = ?c then xs ! root else if k = root then xs ! ?c else xs ! k)" for k
      using swap_list_nth [OF c(2,1)] .
    have set: "set ?ys = set xs" using swap_list_mset [OF c(2,1)] by (metis set_mset_mset)
    have sib: "le (xs ! k) (xs ! ?c)" if k: "1 \<le> k" "k \<le> bottom" "k div 2 = root" for k
    proof (cases "k = ?c")
      case True
      then show ?thesis using tot [OF c(1) c(1)] by simp
    next
      case False
      then have "k = root * 2 \<and> ?c = root * 2 + 1 \<or> k = root * 2 + 1 \<and> ?c = root * 2"
        using child [OF k(3)] child [OF c(5)] by auto
      moreover have "k < length xs" using k 1(3) by simp
      ultimately show ?thesis using False k tot [of k ?c] c(1)
        by (auto simp: best_child_def split: if_splits)
    qed
    have "heap_from le r0 bottom (sift le ?c bottom ?ys)"
    proof (rule 1(1) [OF refl True])
      show "preorder_of le (set ?ys)" using 1(2) set by simp
      show "bottom < length ?ys" using 1(3) by simp
      show "r0 \<le> ?c" using 1(4) c(4) by simp
    next
      fix k assume k: "1 \<le> k" "k \<le> bottom" "r0 \<le> k div 2" "k div 2 \<noteq> ?c"
      consider "k = ?c" | "k \<noteq> ?c" "k div 2 = root" | "k = root" | "k \<noteq> root" "k div 2 \<noteq> root" "k \<noteq> ?c"
        using c(5) by blast
      then show "le (?ys ! k) (?ys ! (k div 2))"
      proof cases
        case 1
        then show ?thesis using c True tot [OF c(1,2)] by (simp add: ys)
      next
        case 2
        then have "k \<noteq> root" using k(1) by auto
        then show ?thesis using 2 sib [OF k(1,2) 2(2)] c(4) by (simp add: ys)
      next
        case 3
        then have "root div 2 \<noteq> root" "root div 2 \<noteq> ?c" using k(1) c(4) by auto
        then show ?thesis using 3 1(6) [of ?c] c k c(5,6) by (simp add: ys)
      next
        case 4
        then show ?thesis using 1(5) [OF k(1,2,3)] k by (simp add: ys)
      qed
    next
      fix k assume k: "1 \<le> k" "k \<le> bottom" "k div 2 = ?c" "1 \<le> ?c" "r0 \<le> ?c div 2"
      then have n: "k \<noteq> ?c" "k \<noteq> root" "k div 2 \<noteq> root" "r0 \<le> k div 2" using c by auto
      then have "le (xs ! k) (xs ! ?c)" using 1(5) [OF k(1,2)] k by simp
      then show "le (?ys ! k) (?ys ! (?c div 2))" using n c by (simp add: ys)
    qed
    then show ?thesis using True by (simp add: sift.simps [of le root] Let_def)
  next
    case False
    have "le (xs ! k) (xs ! (k div 2))" if k: "1 \<le> k" "k \<le> bottom" "r0 \<le> k div 2" for k
    proof (cases "k div 2 = root")
      case True
      then have r2: "root * 2 \<le> bottom" using k by linarith
      have c: "?c \<le> bottom" "root * 2 \<le> ?c" "?c \<le> root * 2 + 1"
        using best_child_range [OF r2, of le xs] by auto
      then have l: "?c < length xs" "root < length xs" "k < length xs" using 1(3) r2 k by auto
      have cr: "le (xs ! ?c) (xs ! root)" using False r2 tot [OF l(1) l(1)] by (cases "?c = root") auto
      have "le (xs ! k) (xs ! ?c) \<or> k = root * 2 \<and> root = 0"
        using child [OF True] tot [OF l(3) l(1)] k c by (auto simp: best_child_def split: if_splits)
      then have "le (xs ! k) (xs ! ?c)" using k by auto
      then show ?thesis using trn [OF l(3,1,2)] cr True by simp
    qed (use 1(5) k in auto)
    then show ?thesis using False by (auto simp: sift.simps [of le root] Let_def heap_from_def)
  qed
qed

fun build_heap :: "('a \<Rightarrow> 'a \<Rightarrow> bool) \<Rightarrow> nat \<Rightarrow> nat \<Rightarrow> 'a list \<Rightarrow> 'a list" where
  "build_heap le 0 bottom xs = xs"
| "build_heap le (Suc i) bottom xs = build_heap le i bottom (sift le i bottom xs)"

fun extract_max :: "('a \<Rightarrow> 'a \<Rightarrow> bool) \<Rightarrow> nat \<Rightarrow> 'a list \<Rightarrow> 'a list" where
  "extract_max le 0 xs = xs"
| "extract_max le (Suc i) xs = extract_max le i (sift le 0 i (swap_list 0 (Suc i) xs))"

lemma set_of_mset_eq: "mset xs = mset ys \<Longrightarrow> set xs = set ys"
  by (metis set_mset_mset)

lemma build_heap_correct:
  "preorder_of le (set xs) \<Longrightarrow> bottom < length xs \<Longrightarrow> heap_from le i bottom xs \<Longrightarrow>
     heap_from le 0 bottom (build_heap le i bottom xs) \<and> mset (build_heap le i bottom xs) = mset xs"
proof (induction i arbitrary: xs)
  case (Suc i)
  let ?ys = "sift le i bottom xs"
  have m: "mset ?ys = mset xs" using Suc.prems by (simp add: sift_mset)
  have h: "heap_from le i bottom ?ys"
    using Suc.prems by (intro sift_heap) (auto simp: heap_from_def)
  show ?case using Suc.IH [of ?ys] m h Suc.prems set_of_mset_eq [OF m] by simp
qed simp

lemma heap_top:
  assumes h: "heap_from le 0 bottom xs" and p: "preorder_of le (set xs)" and b: "bottom < length xs"
  shows "k \<le> bottom \<Longrightarrow> le (xs ! k) (xs ! 0)"
proof (induction k rule: less_induct)
  case (less k)
  show ?case
  proof (cases "k = 0")
    case True
    moreover have "xs ! 0 \<in> set xs" using b by (intro nth_mem) linarith
    ultimately show ?thesis using p unfolding preorder_of_def by blast
  next
    case False
    then have "le (xs ! (k div 2)) (xs ! 0)" using less by simp
    moreover have "le (xs ! k) (xs ! (k div 2))" using h less.prems False by (auto simp: heap_from_def)
    moreover have "xs ! k \<in> set xs" "xs ! (k div 2) \<in> set xs" "xs ! 0 \<in> set xs"
      using less.prems b by (auto intro!: nth_mem)
    ultimately show ?thesis using p unfolding preorder_of_def by blast
  qed
qed

text \<open>The order of two positions, the second beyond the heap: what the extraction keeps.\<close>

definition tail_sorted :: "('a \<Rightarrow> 'a \<Rightarrow> bool) \<Rightarrow> nat \<Rightarrow> 'a list \<Rightarrow> bool" where
  "tail_sorted le i xs \<longleftrightarrow> (\<forall>j k. j < k \<and> i < k \<and> k < length xs \<longrightarrow> le (xs ! j) (xs ! k))"

lemma sift_element: "bottom < length xs \<Longrightarrow> j \<le> bottom \<Longrightarrow> \<exists>j' \<le> bottom. sift le 0 bottom xs ! j = xs ! j'"
proof -
  assume b: "bottom < length xs" and j: "j \<le> bottom"
  let ?ys = "sift le 0 bottom xs"
  have d: "drop (Suc bottom) ?ys = drop (Suc bottom) xs"
    using b by (intro nth_equalityI) (auto simp: sift_frame)
  have "mset (take (Suc bottom) ?ys) + mset (drop (Suc bottom) ?ys) = mset (take (Suc bottom) xs) + mset (drop (Suc bottom) xs)"
    using sift_mset [OF b, of le 0] by (metis append_take_drop_id mset_append)
  then have "mset (take (Suc bottom) ?ys) = mset (take (Suc bottom) xs)" using d by simp
  then have "set (take (Suc bottom) ?ys) = set (take (Suc bottom) xs)" by (rule set_of_mset_eq)
  moreover have "?ys ! j \<in> set (take (Suc bottom) ?ys)"
    using b j by (auto simp: in_set_conv_nth intro!: exI [of _ j])
  ultimately obtain i where "i < length (take (Suc bottom) xs)" "take (Suc bottom) xs ! i = ?ys ! j"
    by (metis in_set_conv_nth)
  then show ?thesis by (intro exI [of _ i]) auto
qed

lemma extract_max_correct:
  "preorder_of le (set xs) \<Longrightarrow> i < length xs \<Longrightarrow> heap_from le 0 i xs \<Longrightarrow> tail_sorted le i xs \<Longrightarrow>
     tail_sorted le 0 (extract_max le i xs) \<and> mset (extract_max le i xs) = mset xs"
proof (induction i arbitrary: xs)
  case (Suc i)
  let ?ys = "swap_list 0 (Suc i) xs"
  let ?zs = "sift le 0 i ?ys"
  have len: "0 < length xs" "Suc i < length xs" "i < length ?ys" using Suc.prems by auto
  have my: "mset ?ys = mset xs" using swap_list_mset [OF len(1,2)] .
  have mz: "mset ?zs = mset xs" using sift_mset [OF len(3), of le 0] my by simp
  have ys: "?ys ! k = (if k = Suc i then xs ! 0 else if k = 0 then xs ! Suc i else xs ! k)" for k
    using swap_list_nth [OF len(1,2)] .
  have sub: "heap_from le 0 i ?zs"
  proof (rule sift_heap)
    show "preorder_of le (set ?ys)" using Suc.prems(1) set_of_mset_eq [OF my] by simp
  next
    fix k assume "1 \<le> k" "k \<le> i" "0 \<le> k div 2" "k div 2 \<noteq> 0"
    then show "le (?ys ! k) (?ys ! (k div 2))" using Suc.prems(3) by (auto simp: ys heap_from_def)
  qed (use len in auto)
  have from_heap: "\<exists>j' \<le> Suc i. ?zs ! j = xs ! j'" if "j \<le> i" for j
    using sift_element [OF len(3) that, of le] by (auto simp: ys split: if_splits) (metis le_SucI le_refl zero_le)+
  have top: "le (xs ! j) (xs ! 0)" if "j \<le> Suc i" for j
    using heap_top [OF Suc.prems(3,1,2) that] .
  have tail: "tail_sorted le i ?zs"
    unfolding tail_sorted_def
  proof (intro allI impI, elim conjE)
    fix j k assume jk: "j < k" "i < k" "k < length ?zs"
    have kz: "?zs ! k = (if k = Suc i then xs ! 0 else xs ! k)"
      using sift_frame [OF len(3), of k 0 le] jk by (simp add: ys)
    have klen: "k < length xs" using jk len by simp
    show "le (?zs ! j) (?zs ! k)"
    proof (cases "j \<le> i")
      case True
      then obtain j' where j': "j' \<le> Suc i" "?zs ! j = xs ! j'" using from_heap by blast
      show ?thesis
      proof (cases "k = Suc i")
        case True
        then show ?thesis using top [OF j'(1)] j' kz by simp
      next
        case False
        then have "Suc i < k" using jk by simp
        then show ?thesis using Suc.prems(4) j' kz False klen by (auto simp: tail_sorted_def)
      qed
    next
      case False
      then have jz: "?zs ! j = (if j = Suc i then xs ! 0 else xs ! j)"
        using sift_frame [OF len(3), of j 0 le] by (simp add: ys)
      have "Suc i < k" using False jk by simp
      then show ?thesis using Suc.prems(4) jz kz klen jk False by (auto simp: tail_sorted_def)
    qed
  qed
  have "preorder_of le (set ?zs)" using Suc.prems(1) set_of_mset_eq [OF mz] by simp
  moreover have "i < length ?zs" using len by simp
  ultimately show ?case using Suc.IH [of ?zs] sub tail mz by simp
qed simp

definition heapsort :: "('a \<Rightarrow> 'a \<Rightarrow> bool) \<Rightarrow> 'a list \<Rightarrow> 'a list" where
  "heapsort le xs =
     extract_max le (length xs - 1) (build_heap le (length xs div 2 + 1) (length xs - 1) xs)"

lemma heapsort_correct:
  assumes "preorder_of le (set xs)" "xs \<noteq> []"
  shows "sorted_wrt le (heapsort le xs)" "mset (heapsort le xs) = mset xs"
proof -
  let ?b = "length xs - 1"
  let ?ys = "build_heap le (length xs div 2 + 1) ?b xs"
  have b: "?b < length xs" using assms(2) by (cases xs) auto
  have "heap_from le (length xs div 2 + 1) ?b xs"
    unfolding heap_from_def by (intro allI impI) (use b in linarith)
  from build_heap_correct [OF assms(1) b this] have y: "heap_from le 0 ?b ?ys" "mset ?ys = mset xs" by auto
  then have l: "length ?ys = length xs" by (metis size_mset)
  have "preorder_of le (set ?ys)" using assms(1) set_of_mset_eq [OF y(2)] by simp
  moreover have "tail_sorted le ?b ?ys" using l b by (auto simp: tail_sorted_def)
  ultimately have e: "tail_sorted le 0 (heapsort le xs)" "mset (heapsort le xs) = mset xs"
    using extract_max_correct [of le ?ys ?b] y b l by (simp_all add: heapsort_def)
  then show "mset (heapsort le xs) = mset xs" by simp
  show "sorted_wrt le (heapsort le xs)"
    using e(1) by (auto simp: tail_sorted_def sorted_wrt_iff_nth_less)
qed

section \<open>The sort of an array\<close>

abbreviation vals :: "'s world \<Rightarrow> addr \<Rightarrow> sqobject list" where
  "vals w p \<equiv> v_vals (w_arrays w p)"

lemma vals_swap: "vals (swap_elems p i j w) p = swap_list i j (vals w p)"
  by (simp add: swap_elems_def set_array_def swap_list_def elem_def)

text \<open>
  The contract of a comparison that the sort relies on: on the objects of \<open>dom\<close> it does
  not fail, does not touch the array, and tells which of two objects is the larger one in
  an order.
\<close>

locale comparison =
  fixes mm :: "'s world mmcall" and func :: "'s sortcall option" and p :: addr
    and le :: "sqobject \<Rightarrow> sqobject \<Rightarrow> bool" and dom :: "sqobject set"
  assumes order: "preorder_of le dom"
    and compares: "a \<in> dom \<Longrightarrow> b \<in> dom \<Longrightarrow>
      \<exists>r w'. sort_compare mm func p a b w = (Inr r, w') \<and> w_arrays w' p = w_arrays w p
        \<and> (sint r < 0 \<longleftrightarrow> \<not> le b a) \<and> (0 < sint r \<longleftrightarrow> \<not> le a b)"
begin

lemma max_child_best:
  assumes "set (vals w p) \<subseteq> dom" "bottom < length (vals w p)" "root2 \<le> bottom"
  shows "\<exists>w'. max_child mm func p root2 bottom w = (Inr (best_child le root2 bottom (vals w p)), w')
           \<and> w_arrays w' p = w_arrays w p"
proof (cases "root2 = bottom")
  case True
  then show ?thesis by (simp add: max_child_def best_child_def)
next
  case False
  then have "elem w p root2 \<in> dom" "elem w p (root2 + 1) \<in> dom" using assms by (auto simp: elem_def)
  from compares [OF this, of w] obtain r w' where
    "sort_compare mm func p (elem w p root2) (elem w p (root2 + 1)) w = (Inr r, w')"
    "w_arrays w' p = w_arrays w p" "0 < sint r \<longleftrightarrow> \<not> le (elem w p root2) (elem w p (root2 + 1))" by blast
  then show ?thesis using False by (auto simp: max_child_def best_child_def cmp_signed elem_def)
qed

lemma sift_down_sifts:
  assumes "set (vals w p) \<subseteq> dom" "bottom < length (vals w p)"
  shows "\<exists>w'. hsort_sift_down mm func p root bottom w = (Inr (), w') \<and> vals w' p = sift le root bottom (vals w p)"
  using assms
proof (induction "Suc bottom - root" arbitrary: root w rule: less_induct)
  case less
  show ?case
  proof (cases "root * 2 \<le> bottom")
    case False
    then show ?thesis by (simp add: hsort_sift_down.simps [of mm func p root] sift.simps [of le root] Let_def)
  next
    case True
    let ?c = "best_child le (root * 2) bottom (vals w p)"
    from max_child_best [OF less.prems True] obtain w1 where
      1: "max_child mm func p (root * 2) bottom w = (Inr ?c, w1)" "w_arrays w1 p = w_arrays w p" by blast
    have c: "root * 2 \<le> ?c" "?c \<le> bottom" using best_child_range [OF True, of le "vals w p"] by auto
    have d: "elem w1 p root \<in> dom" "elem w1 p ?c \<in> dom" using 1(2) c less.prems by (auto simp: elem_def)
    from compares [OF d, of w1] obtain r w2 where
      2: "sort_compare mm func p (elem w1 p root) (elem w1 p ?c) w1 = (Inr r, w2)" "w_arrays w2 p = w_arrays w1 p"
         "sint r < 0 \<longleftrightarrow> \<not> le (vals w p ! ?c) (vals w p ! root)" using 1(2) by (auto simp: elem_def)
    have refl: "le (vals w p ! root) (vals w p ! root)"
      using d(1) order 1(2) by (auto simp: preorder_of_def elem_def)
    show ?thesis
    proof (cases "sint r < 0")
      case False
      then show ?thesis using True 1 2
        by (simp add: hsort_sift_down.simps [of mm func p root] sift.simps [of le root] Let_def cmp_signed)
    next
      case neg: True
      then have ne: "?c \<noteq> root" using 2(3) refl by auto
      let ?w3 = "swap_elems p root ?c w2"
      have v3: "vals ?w3 p = swap_list root ?c (vals w p)" using 1(2) 2(2) by (simp add: vals_swap)
      have l: "root < length (vals w p)" "?c < length (vals w p)" using c less.prems(2) by auto
      have "set (vals ?w3 p) = set (vals w p)" using v3 set_of_mset_eq [OF swap_list_mset [OF l]] by simp
      moreover have "Suc bottom - ?c < Suc bottom - root" using c ne by auto
      ultimately obtain w4 where "hsort_sift_down mm func p ?c bottom ?w3 = (Inr (), w4)"
        "vals w4 p = sift le ?c bottom (vals ?w3 p)"
        using less.hyps [of ?c ?w3] less.prems v3 by auto
      then show ?thesis using True neg ne 1 2 v3
        by (simp add: hsort_sift_down.simps [of mm func p root] sift.simps [of le root] Let_def cmp_signed)
    qed
  qed
qed

lemma build_builds:
  "set (vals w p) \<subseteq> dom \<Longrightarrow> bottom < length (vals w p) \<Longrightarrow>
     \<exists>w'. hsort_build mm func p i bottom w = (Inr (), w') \<and> vals w' p = build_heap le i bottom (vals w p)"
proof (induction i arbitrary: w)
  case (Suc i)
  from sift_down_sifts [OF Suc.prems] obtain w1 where
    1: "hsort_sift_down mm func p i bottom w = (Inr (), w1)" "vals w1 p = sift le i bottom (vals w p)" by blast
  have "set (vals w1 p) \<subseteq> dom" "bottom < length (vals w1 p)"
    using 1(2) Suc.prems set_of_mset_eq [OF sift_mset [OF Suc.prems(2)]] by auto
  from Suc.IH [OF this] show ?case using 1 by auto
qed simp

lemma extract_extracts:
  "set (vals w p) \<subseteq> dom \<Longrightarrow> i < length (vals w p) \<Longrightarrow>
     \<exists>w'. hsort_extract mm func p i w = (Inr (), w') \<and> vals w' p = extract_max le i (vals w p)"
proof (induction i arbitrary: w)
  case (Suc i)
  let ?w1 = "swap_elems p 0 (Suc i) w"
  have l: "0 < length (vals w p)" "Suc i < length (vals w p)" using Suc.prems by auto
  have s: "set (vals ?w1 p) = set (vals w p)" using vals_swap set_of_mset_eq [OF swap_list_mset [OF l]] by metis
  have b: "i < length (vals ?w1 p)" using l by (simp add: vals_swap)
  have "set (vals ?w1 p) \<subseteq> dom" using s Suc.prems by simp
  from sift_down_sifts [OF this b] obtain w2 where
    2: "hsort_sift_down mm func p 0 i ?w1 = (Inr (), w2)" "vals w2 p = sift le 0 i (vals ?w1 p)" by blast
  have "set (vals w2 p) \<subseteq> dom" "i < length (vals w2 p)"
    using 2(2) b s Suc.prems set_of_mset_eq [OF sift_mset [OF b]] by auto
  from Suc.IH [OF this] show ?case using 2 by (auto simp: vals_swap)
qed simp

lemma array_sort_sorts:
  assumes "set (vals w p) \<subseteq> dom"
  shows "\<exists>w'. array_sort_fn mm func p w = (Inr (), w') \<and> sorted_wrt le (vals w' p) \<and> mset (vals w' p) = mset (vals w p)"
proof (cases "length (vals w p) > 1")
  case False
  then have "length (vals w p) = 0 \<or> length (vals w p) = 1" by linarith
  then have "sorted_wrt le (vals w p)" by (auto simp: length_Suc_conv)
  then show ?thesis using False by (simp add: array_sort_fn_def)
next
  case True
  let ?b = "length (vals w p) - 1"
  have b: "?b < length (vals w p)" using True by simp
  from build_builds [OF assms b] obtain w1 where
    1: "hsort_build mm func p (length (vals w p) div 2 + 1) ?b w = (Inr (), w1)"
       "vals w1 p = build_heap le (length (vals w p) div 2 + 1) ?b (vals w p)" by blast
  have pre: "preorder_of le (set (vals w p))" using order assms unfolding preorder_of_def by blast
  have "heap_from le (length (vals w p) div 2 + 1) ?b (vals w p)"
    unfolding heap_from_def by (intro allI impI) (use b in linarith)
  from build_heap_correct [OF pre b this] have m: "mset (vals w1 p) = mset (vals w p)" using 1(2) by simp
  have "set (vals w1 p) \<subseteq> dom" "?b < length (vals w1 p)"
    using m assms b set_of_mset_eq [OF m] by (auto dest: arg_cong [of _ _ size])
  from extract_extracts [OF this] obtain w2 where
    "hsort_extract mm func p ?b w1 = (Inr (), w2)" "vals w2 p = heapsort le (vals w p)"
    using 1(2) by (auto simp: heapsort_def)
  moreover have "vals w p \<noteq> []" using True by auto
  ultimately show ?thesis using True 1(1) heapsort_correct [OF pre] by (simp add: array_sort_fn_def hsort_def)
qed

end

text \<open>The default comparison of integers, and of strings without a null character.\<close>

definition int_le :: "sqobject \<Rightarrow> sqobject \<Rightarrow> bool" where
  "int_le a b = (case (a, b) of (VInteger i, VInteger j) \<Rightarrow> sint i \<le> sint j | _ \<Rightarrow> True)"

definition str_le :: "sqobject \<Rightarrow> sqobject \<Rightarrow> bool" where
  "str_le a b = (case (a, b) of (VString s, VString t) \<Rightarrow> strcmp_bytes s t \<le> 0 | _ \<Rightarrow> True)"

definition int_objs :: "sqobject set" where "int_objs = range VInteger"
definition str_objs :: "sqobject set" where "str_objs = {VString s |s. CHR 0x00 \<notin> set s}"

lemma strcmp_bytes_trans:
  "CHR 0x00 \<notin> set a \<Longrightarrow> CHR 0x00 \<notin> set b \<Longrightarrow> CHR 0x00 \<notin> set c \<Longrightarrow>
     strcmp_bytes a b \<le> 0 \<Longrightarrow> strcmp_bytes b c \<le> 0 \<Longrightarrow> strcmp_bytes a c \<le> 0"
proof (induction a c arbitrary: b rule: strcmp_bytes.induct)
  case (2 c cs)
  then show ?case by (simp add: of_char_int)
next
  case (3 a as)
  then show ?case by (cases b) (auto simp: of_char_int split: if_splits)
next
  case (4 a as c cs)
  show ?case
  proof (cases b)
    case Nil
    moreover have "a \<noteq> CHR 0x00" using 4(2) by auto
    ultimately show ?thesis using 4(5) of_char_pos [of a] by (simp add: of_char_int)
  next
    case (Cons x xs)
    have ne: "(of_char u :: nat) = of_char v \<Longrightarrow> u = v" for u v :: char by simp
    have 1: "a \<noteq> x \<Longrightarrow> (of_char a :: nat) \<le> of_char x" "x \<noteq> c \<Longrightarrow> (of_char x :: nat) \<le> of_char c"
      using 4(5,6) Cons by (simp_all add: of_char_int)
    show ?thesis
    proof (cases "a = c")
      case True
      then have "a = x" using 1 ne [of a x] by (metis order_antisym)
      then have "strcmp_bytes as cs \<le> 0" using 4 Cons True by auto
      then show ?thesis using True by simp
    next
      case False
      then have "(of_char a :: nat) \<le> of_char c" using 1 by (metis order_trans)
      then show ?thesis using False by (simp add: of_char_int)
    qed
  qed
qed simp

lemma str_preorder: "preorder_of str_le str_objs"
  unfolding preorder_of_def
proof (intro conjI ballI impI)
  fix a b assume "a \<in> str_objs" "b \<in> str_objs"
  then obtain s t where "a = VString s" "b = VString t" by (auto simp: str_objs_def)
  then show "str_le a b \<or> str_le b a" using strcmp_bytes_swap [of s t] by (cases "strcmp_bytes s t \<le> 0") (simp_all add: str_le_def)
next
  fix a b c assume "a \<in> str_objs" "b \<in> str_objs" "c \<in> str_objs" "str_le a b" "str_le b c"
  then obtain s t u where "a = VString s" "b = VString t" "c = VString u" "CHR 0x00 \<notin> set s"
    "CHR 0x00 \<notin> set t" "CHR 0x00 \<notin> set u" "strcmp_bytes s t \<le> 0" "strcmp_bytes t u \<le> 0"
    by (auto simp: str_objs_def str_le_def)
  then show "str_le a c" using strcmp_bytes_trans [of s t u] by (simp add: str_le_def)
qed

interpretation int_sort: comparison mm None p int_le int_objs for mm :: "'s world mmcall" and p :: addr
proof
  show "preorder_of int_le int_objs" by (auto simp: preorder_of_def int_le_def int_objs_def)
next
  fix a b and w :: "'s world" assume "a \<in> int_objs" "b \<in> int_objs"
  then obtain i j where ij: "a = VInteger i" "b = VInteger j" by (auto simp: int_objs_def)
  from ObjCmp_integers [of mm i j w] obtain r where "ObjCmp mm a b w = (Inr r, w)"
    "sint r = (if i = j then 0 else if sint i < sint j then - 1 else 1)" using ij by blast
  then show "\<exists>r w'. sort_compare mm None p a b w = (Inr r, w') \<and> w_arrays w' p = w_arrays w p \<and>
      (sint r < 0 \<longleftrightarrow> \<not> int_le b a) \<and> (0 < sint r \<longleftrightarrow> \<not> int_le a b)"
    using ij sint_eq_iff [of i j] by (auto simp: sort_compare_def int_le_def)
qed

interpretation str_sort: comparison mm None p str_le str_objs for mm :: "'s world mmcall" and p :: addr
proof
  show "preorder_of str_le str_objs" by (rule str_preorder)
next
  fix a b and w :: "'s world" assume "a \<in> str_objs" "b \<in> str_objs"
  then obtain s t where st: "a = VString s" "b = VString t" "CHR 0x00 \<notin> set s" "CHR 0x00 \<notin> set t"
    by (auto simp: str_objs_def)
  from ObjCmp_strings [of mm s t w] obtain r where "ObjCmp mm a b w = (Inr r, w)" "sint r = strcmp_bytes s t"
    using st by (auto simp: zstring_id)
  then show "\<exists>r w'. sort_compare mm None p a b w = (Inr r, w') \<and> w_arrays w' p = w_arrays w p \<and>
      (sint r < 0 \<longleftrightarrow> \<not> str_le b a) \<and> (0 < sint r \<longleftrightarrow> \<not> str_le a b)"
    using st strcmp_bytes_swap [of s t] by (auto simp: sort_compare_def str_le_def)
qed

text \<open>
  C5. Sorting an array with a comparison function that is consistent with an order on its
  elements (it returns a negative, zero or positive number as the first is smaller than,
  as large as or larger than the second, and does not touch the array) succeeds, leaves
  the elements in ascending order and only permutes them.\<close>

theorem array_sort_correct:
  assumes "preorder_of le S" "set (vals w p) \<subseteq> S"
    and "\<And>a b w. a \<in> S \<Longrightarrow> b \<in> S \<Longrightarrow>
      \<exists>r w'. sort_compare mm func p a b w = (Inr r, w') \<and> w_arrays w' p = w_arrays w p
        \<and> (sint r < 0 \<longleftrightarrow> \<not> le b a) \<and> (0 < sint r \<longleftrightarrow> \<not> le a b)"
  shows "\<exists>w'. array_sort_fn mm func p w = (Inr (), w') \<and> sorted_wrt le (vals w' p)
            \<and> mset (vals w' p) = mset (vals w p)"
  by (rule comparison.array_sort_sorts [OF comparison.intro [OF assms(1,3)] assms(2)])

text \<open>A comparison function of a script that sorts in descending order.\<close>

definition descending :: "'s sortcall" where
  "descending a b w =
     (case (a, b) of (VInteger i, VInteger j) \<Rightarrow>
        (Inr (VInteger (if sint j < sint i then - 1 else if sint i < sint j then 1 else 0)), False, True, w)
      | _ \<Rightarrow> (Inl MetaFailed, False, True, w))"

definition sample_world :: "unit world" where
  "sample_world = \<lparr>w_arrays = (\<lambda>_. \<lparr>v_vals = [VInteger 2, VInteger 9, VInteger (- 4)], v_allocated = 4\<rparr>),
     w_weak = (\<lambda>_. VNull), w_nparameters = (\<lambda>_. 3), w_nparamscheck = (\<lambda>_. 0), w_rest = ()\<rparr>"

theorem array_sort_correct_witness:
  "\<exists>w'. array_sort_fn (\<lambda>_ _ _ s. (MM_None, s)) (Some descending) 0 sample_world = (Inr (), w')
      \<and> sorted_wrt (\<lambda>a b. int_le b a) (vals w' 0)"
proof -
  have "preorder_of (\<lambda>a b. int_le b a) int_objs" by (auto simp: preorder_of_def int_le_def int_objs_def)
  moreover have "set (vals sample_world 0) \<subseteq> int_objs" by (auto simp: sample_world_def int_objs_def)
  moreover have "\<exists>r w'. sort_compare (\<lambda>_ _ _ s. (MM_None, s)) (Some descending) 0 a b w = (Inr r, w') \<and>
      w_arrays w' 0 = w_arrays w 0 \<and> (sint r < 0 \<longleftrightarrow> \<not> int_le a b) \<and> (0 < sint r \<longleftrightarrow> \<not> int_le b a)"
    if "a \<in> int_objs" "b \<in> int_objs" for a b and w :: "unit world"
    using that by (auto simp: int_objs_def sort_compare_def descending_def sq_getinteger_def sq_isnumeric_iff
        tointeger_def int_le_def)
  ultimately show ?thesis using array_sort_correct [of "\<lambda>a b. int_le b a" int_objs sample_world 0] by blast
qed

text \<open>
  Without a comparison function an array of integers is sorted by value, and an array
  of strings without null characters in the lexicographic order of their bytes.\<close>

lemma array_default_sort:
  assumes "set (vals w p) \<subseteq> range VInteger \<and> le = int_le
         \<or> set (vals w p) \<subseteq> {VString s |s. CHR 0x00 \<notin> set s} \<and> le = str_le"
  shows "\<exists>w'. array_sort_fn mm None p w = (Inr (), w') \<and> sorted_wrt le (vals w' p)
            \<and> mset (vals w' p) = mset (vals w p)"
  using assms int_sort.array_sort_sorts [of w p mm] str_sort.array_sort_sorts [of w p mm]
  by (auto simp: int_objs_def str_objs_def)

theorem array_default_sort_witness:
  "\<exists>w'. array_sort_fn (\<lambda>_ _ _ s. (MM_None, s)) None 0 sample_world = (Inr (), w') \<and> sorted_wrt int_le (vals w' 0)"
  using array_default_sort [of sample_world 0 int_le "\<lambda>_ _ _ s. (MM_None, s)"] by (auto simp: sample_world_def)

section \<open>Sorting with an arbitrary comparison\<close>

lemma max_child_keeps:
  assumes quiet: "\<And>a b w. w_arrays (snd (sort_compare mm func p a b w)) p = w_arrays w p"
  shows "w_arrays (snd (max_child mm func p root2 bottom w)) p = w_arrays w p"
  using quiet [of "elem w p root2" "elem w p (root2 + 1)" w]
  by (auto simp: max_child_def split: prod.splits sum.splits)

lemma sift_down_permutes:
  assumes quiet: "\<And>a b w. w_arrays (snd (sort_compare mm func p a b w)) p = w_arrays w p"
  shows "bottom < length (vals w p) \<Longrightarrow>
     mset (vals (snd (hsort_sift_down mm func p root bottom w)) p) = mset (vals w p)"
proof (induction "Suc bottom - root" arbitrary: root w rule: less_induct)
  case less
  show ?case
  proof (cases "root * 2 \<le> bottom")
    case True
    obtain m w1 where 1: "max_child mm func p (root * 2) bottom w = (m, w1)" by (cases "max_child mm func p (root * 2) bottom w")
    have k1: "w_arrays w1 p = w_arrays w p" using max_child_keeps [OF quiet, of "root * 2" bottom w] 1 by simp
    show ?thesis
    proof (cases m)
      case (Inl e)
      then show ?thesis using True 1 k1 by (simp add: hsort_sift_down.simps [of mm func p root])
    next
      case (Inr c)
      have c: "root * 2 \<le> c" "c \<le> bottom" using max_child_range [of mm func p "root * 2" bottom w c w1] 1 Inr True by auto
      obtain r w2 where 2: "sort_compare mm func p (elem w1 p root) (elem w1 p c) w1 = (r, w2)"
        by (cases "sort_compare mm func p (elem w1 p root) (elem w1 p c) w1")
      have k2: "w_arrays w2 p = w_arrays w p" using quiet [of "elem w1 p root" "elem w1 p c" w1] 2 k1 by simp
      let ?w3 = "swap_elems p root c w2"
      have l: "root < length (vals w2 p)" "c < length (vals w2 p)" using c less.prems k2 by auto
      have m3: "mset (vals ?w3 p) = mset (vals w p)" unfolding vals_swap using swap_list_mset [OF l] k2 by simp
      have b3: "bottom < length (vals ?w3 p)" using less.prems k2 by (simp add: vals_swap)
      have "root \<noteq> c \<Longrightarrow> mset (vals (snd (hsort_sift_down mm func p c bottom ?w3)) p) = mset (vals ?w3 p)"
        using less.hyps [of c ?w3] c b3 by auto
      then show ?thesis using True 1 Inr 2 k2 m3
        by (auto simp: hsort_sift_down.simps [of mm func p root] split: sum.splits)
    qed
  qed (simp add: hsort_sift_down.simps [of mm func p root])
qed

text \<open>
  C35. Sorting ends for every comparison function that leaves the array alone, also for one
  that is inconsistent or fails, and the array then holds the same elements as before,
  each as often as before.\<close>

theorem array_sort_permutes:
  fixes mm :: "'a world mmcall"
  assumes quiet: "\<And>a b w. w_arrays (snd (sort_compare mm func p a b w)) p = w_arrays w p"
  shows "mset (vals (snd (array_sort_fn mm func p w)) p) = mset (vals w p)"
proof -
  have build: "bottom < length (vals w p) \<Longrightarrow> mset (vals (snd (hsort_build mm func p i bottom w)) p) = mset (vals w p)"
    for i bottom :: nat and w :: "'a world"
  proof (induction i arbitrary: w)
    case (Suc i)
    obtain r w1 where 1: "hsort_sift_down mm func p i bottom w = (r, w1)" by (cases "hsort_sift_down mm func p i bottom w")
    have m: "mset (vals w1 p) = mset (vals w p)" using sift_down_permutes [OF quiet Suc.prems, of i] 1 by simp
    then have "bottom < length (vals w1 p)" using Suc.prems by (metis size_mset)
    then show ?case using Suc.IH 1 m by (auto split: sum.splits)
  qed simp
  have extr: "i < length (vals w p) \<Longrightarrow> mset (vals (snd (hsort_extract mm func p i w)) p) = mset (vals w p)" for i :: nat and w :: "'a world"
  proof (induction i arbitrary: w)
    case (Suc i)
    let ?w1 = "swap_elems p 0 (Suc i) w"
    obtain r w2 where 2: "hsort_sift_down mm func p 0 i ?w1 = (r, w2)" by (cases "hsort_sift_down mm func p 0 i ?w1")
    have l: "0 < length (vals w p)" "Suc i < length (vals w p)" using Suc.prems by auto
    have m1: "mset (vals ?w1 p) = mset (vals w p)" unfolding vals_swap by (rule swap_list_mset [OF l])
    have "i < length (vals ?w1 p)" using l by (simp add: vals_swap)
    then have m: "mset (vals w2 p) = mset (vals w p)" using sift_down_permutes [OF quiet, of i ?w1 0] 2 m1 by simp
    then have "i < length (vals w2 p)" using l by (metis Suc_lessD size_mset)
    then show ?case using Suc.IH 2 m by (auto split: sum.splits)
  qed simp
  show ?thesis
  proof (cases "length (vals w p) > 1")
    case True
    let ?n = "length (vals w p)"
    obtain r w1 where 1: "hsort_build mm func p (?n div 2 + 1) (?n - 1) w = (r, w1)"
      by (cases "hsort_build mm func p (?n div 2 + 1) (?n - 1) w")
    have m: "mset (vals w1 p) = mset (vals w p)" using build [of "?n - 1" w "?n div 2 + 1"] 1 True by simp
    then have "?n - 1 < length (vals w1 p)" using True by (metis diff_less less_numeral_extra(1) less_trans size_mset)
    from extr [OF this] show ?thesis using True 1 m
      by (auto simp: array_sort_fn_def hsort_def simp del: hsort_build.simps split: sum.splits)
  qed (simp add: array_sort_fn_def)
qed

theorem array_sort_permutes_witness:
  "mset (vals (snd (array_sort_fn (\<lambda>_ _ _ s. (MM_None, s)) (Some (\<lambda>a b w. (Inr (VInteger (- 1)), False, False, w))) 0 sample_world)) 0)
     = mset (vals sample_world 0)"
  by (rule array_sort_permutes) (simp add: sort_compare_def sq_getinteger_def sq_isnumeric_iff Let_def)

section \<open>Arrays as lists\<close>

text \<open>
  The invariant of a vector: its elements are in its block, whose size in bytes is below
  \<open>2 ^ 64\<close>. A vector with less than \<open>2 ^ 59\<close> elements can still be doubled.
\<close>

definition vec_inv :: "'a sqvector \<Rightarrow> bool" where
  "vec_inv v \<longleftrightarrow> v_size v \<le> v_allocated v \<and> v_allocated v < 2 ^ 60"

abbreviation vec_limit :: nat where
  "vec_limit \<equiv> 2 ^ 59"

lemma vec_room_small: "v_allocated v < 2 ^ 60 \<Longrightarrow> vec_room v = v_allocated v"
  by (simp add: vec_room_def sizeof_SQObjectPtr_def)

lemma vec_realloc_small:
  "n < 2 ^ 60 \<Longrightarrow> vec_realloc n v = v\<lparr>v_allocated := (if n > 0 then n else 4)\<rparr>"
  by (simp add: vec_realloc_def)

lemma vec_new_inv [simp]: "vec_inv vec_new"
  by (simp add: vec_inv_def vec_new_def)

lemma vec_inv_smaller: "vec_inv v \<Longrightarrow> length xs \<le> v_size v \<Longrightarrow> vec_inv (v\<lparr>v_vals := xs\<rparr>)"
  by (simp add: vec_inv_def)

lemma vec_construct_correct:
  "v_allocated v < 2 ^ 60 \<Longrightarrow> v_size v + length xs \<le> v_allocated v \<Longrightarrow>
     vec_construct xs v = Some (v\<lparr>v_vals := v_vals v @ xs\<rparr>)"
  by (simp add: vec_construct_def vec_room_small)

lemma vec_resize_correct:
  assumes "vec_inv v" "n < 2 ^ 60"
  shows "\<exists>v'. vec_resize n x v = Some v' \<and> vec_inv v' \<and>
     v_vals v' = take n (v_vals v) @ replicate (n - v_size v) x"
proof -
  define u where "u = (if n > v_allocated v then vec_realloc n v else v)"
  have u: "v_vals u = v_vals v" "n \<le> v_allocated u" "v_size v \<le> v_allocated u" "v_allocated u < 2 ^ 60"
    using assms by (auto simp: u_def vec_inv_def vec_realloc_small)
  have "vec_resize n x v = Some (u\<lparr>v_vals := take n (v_vals v) @ replicate (n - v_size v) x\<rparr>)"
    using u vec_construct_correct [of u "replicate (n - v_size v) x"]
    by (auto simp: vec_resize_def u_def [symmetric])
  then show ?thesis using u by (auto simp: vec_inv_def)
qed

lemma vec_push_back_correct:
  assumes "vec_inv v" "v_size v < vec_limit"
  shows "\<exists>v'. vec_push_back x v = Some v' \<and> vec_inv v' \<and> v_vals v' = v_vals v @ [x]"
proof -
  define u where "u = (if v_allocated v \<le> v_size v then vec_realloc (v_size v * 2) v else v)"
  have u: "v_vals u = v_vals v" "v_size v + 1 \<le> v_allocated u" "v_allocated u < 2 ^ 60"
    using assms by (auto simp: u_def vec_inv_def vec_realloc_small Suc_le_eq simp flip: length_greater_0_conv)
  have "vec_push_back x v = Some (u\<lparr>v_vals := v_vals v @ [x]\<rparr>)"
    using u vec_construct_correct [of u "[x]"] by (simp add: vec_push_back_def u_def [symmetric])
  then show ?thesis using u by (auto simp: vec_inv_def)
qed

lemma shift_up_eq:
  "idx \<le> n \<Longrightarrow> n < length xs \<Longrightarrow>
     shift_up n idx xs = take (idx + 1) xs @ take (n - idx) (drop idx xs) @ drop (n + 1) xs"
proof (induction n arbitrary: xs)
  case 0
  then show ?case by simp
next
  case (Suc n)
  show ?case
  proof (cases "idx = Suc n")
    case True
    then show ?thesis by simp
  next
    case False
    then have le: "idx \<le> n" using Suc.prems by simp
    let ?ys = "xs[Suc n := xs ! n]"
    have "shift_up (Suc n) idx xs = take (idx + 1) ?ys @ take (n - idx) (drop idx ?ys) @ drop (n + 1) ?ys"
      using Suc.IH [of ?ys] Suc.prems le by simp
    also have "take (idx + 1) ?ys = take (idx + 1) xs" using le by simp
    also have "take (n - idx) (drop idx ?ys) = take (n - idx) (drop idx xs)"
      using le Suc.prems by (simp add: drop_update_swap)
    also have "drop (n + 1) ?ys = xs ! n # drop (Suc n + 1) xs"
      using Suc.prems Cons_nth_drop_Suc [of "Suc n" ?ys] by simp
    also have "take (n - idx) (drop idx xs) @ xs ! n # drop (Suc n + 1) xs =
        take (Suc n - idx) (drop idx xs) @ drop (Suc n + 1) xs"
      using le Suc.prems by (simp add: Suc_diff_le take_Suc_conv_app_nth)
    finally show ?thesis .
  qed
qed

lemma vec_insert_correct:
  assumes "vec_inv v" "idx \<le> v_size v" "v_size v + 1 < 2 ^ 60"
  shows "\<exists>v'. vec_insert idx z x v = Some v' \<and> vec_inv v' \<and> v_vals v' = take idx (v_vals v) @ x # drop idx (v_vals v)"
proof -
  obtain u where u: "vec_resize (v_size v + 1) z v = Some u" "vec_inv u" "v_vals u = v_vals v @ [z]"
    using vec_resize_correct [OF assms(1,3), of z] by auto
  have "(shift_up (v_size v) idx (v_vals v @ [z]))[idx := x] = take idx (v_vals v) @ x # drop idx (v_vals v)"
  proof -
    have "take (idx + 1) (v_vals v @ [z]) = take idx (v_vals v) @ [(v_vals v @ [z]) ! idx]"
      using assms(2) take_Suc_conv_app_nth [of idx "v_vals v @ [z]"] by simp
    then show ?thesis using assms(2) by (simp add: shift_up_eq list_update_append)
  qed
  then show ?thesis using u assms by (auto simp: vec_insert_def vec_inv_def)
qed

lemma vec_remove_correct:
  "vec_inv v \<Longrightarrow> idx < v_size v \<Longrightarrow>
     \<exists>v'. vec_remove idx v = Some v' \<and> vec_inv v' \<and> v_vals v' = take idx (v_vals v) @ drop (idx + 1) (v_vals v)"
  by (auto simp: vec_remove_def vec_inv_def)

lemma ShrinkIfNeeded_correct: "vec_inv v \<Longrightarrow> vec_inv (ShrinkIfNeeded v) \<and> v_vals (ShrinkIfNeeded v) = v_vals v"
  by (auto simp: ShrinkIfNeeded_def vec_shrinktofit_def vec_realloc_small vec_inv_def)

lemma append_all_correct:
  "vec_inv v \<Longrightarrow> v_size v + length xs \<le> vec_limit \<Longrightarrow>
     \<exists>v'. append_all xs v = Some v' \<and> vec_inv v' \<and> v_vals v' = v_vals v @ xs"
proof (induction xs arbitrary: v)
  case (Cons x xs)
  obtain u where u: "vec_push_back x v = Some u" "vec_inv u" "v_vals u = v_vals v @ [x]"
    using vec_push_back_correct [OF Cons.prems(1), of x] Cons.prems(2) by auto
  obtain w where "append_all xs u = Some w" "vec_inv w" "v_vals w = v_vals u @ xs"
    using Cons.IH [OF u(2)] u(3) Cons.prems(2) by auto
  then show ?case using u by (simp add: array_Append_def)
qed simp

lemma reverse_loop_eq:
  "i + k \<le> length xs div 2 \<Longrightarrow> xs \<noteq> [] \<Longrightarrow> j < length xs \<Longrightarrow>
     reverse_loop k i (length xs - 1) xs ! j =
       (if (i \<le> j \<and> j < i + k) \<or> (i \<le> length xs - 1 - j \<and> length xs - 1 - j < i + k)
        then xs ! (length xs - 1 - j) else xs ! j)"
proof (induction k arbitrary: i xs)
  case (Suc k)
  let ?n = "length xs - 1"
  let ?ys = "xs[i := xs ! (?n - i), ?n - i := xs ! i]"
  have l: "i < length xs" "?n - i < length xs" "i < ?n - i" using Suc.prems by auto
  have ys: "?ys ! m = (if m = ?n - i then xs ! i else if m = i then xs ! (?n - i) else xs ! m)" for m
    using l by (auto simp: nth_list_update)
  have IH: "reverse_loop (Suc k) i ?n xs ! j =
      (if (Suc i \<le> j \<and> j < Suc i + k) \<or> (Suc i \<le> ?n - j \<and> ?n - j < Suc i + k) then ?ys ! (?n - j) else ?ys ! j)"
    using Suc.IH [of "Suc i" ?ys] Suc.prems by simp
  show ?case
  proof (cases "j = i \<or> j = ?n - i")
    case True
    then have "?n - j = i \<or> ?n - j = ?n - i" using l by auto
    then show ?thesis using True IH l Suc.prems by (auto simp: ys)
  next
    case False
    then have "?n - j \<noteq> i" "?n - j \<noteq> ?n - i" using l Suc.prems by auto
    moreover have "(i \<le> j \<and> j < i + Suc k) = (Suc i \<le> j \<and> j < Suc i + k)"
      "(i \<le> ?n - j \<and> ?n - j < i + Suc k) = (Suc i \<le> ?n - j \<and> ?n - j < Suc i + k)"
      using False calculation by auto
    ultimately show ?thesis using IH False by (simp add: ys)
  qed
qed auto

lemma reverse_loop_length [simp]: "length (reverse_loop k i m xs) = length xs"
  by (induction k arbitrary: i xs) auto

lemma reverse_loop_rev:
  assumes "xs \<noteq> []"
  shows "reverse_loop (length xs div 2) 0 (length xs - 1) xs = rev xs"
proof (rule nth_equalityI)
  fix j assume "j < length (reverse_loop (length xs div 2) 0 (length xs - 1) xs)"
  then have j: "j < length xs" by simp
  have mid: "xs ! j = xs ! (length xs - 1 - j)" if "\<not> j < length xs div 2" "\<not> length xs - 1 - j < length xs div 2"
  proof -
    have "length xs - 1 - j = j" using that j by linarith
    then show ?thesis by simp
  qed
  show "reverse_loop (length xs div 2) 0 (length xs - 1) xs ! j = rev xs ! j"
    using reverse_loop_eq [of 0 "length xs div 2" xs j] j assms mid by (auto simp: rev_nth)
qed simp

text \<open>The operations on arrays, and what they are on lists.\<close>

datatype array_op =
    AAppend sqobject | AExtend sqarray | AExtendSelf | APop | ATop | AInsert sqobject sqobject
  | ARemove sqobject | AResize sqobject "sqobject option" | AReverse | AFind sqobject

fun array_step :: "weakstore \<Rightarrow> array_op \<Rightarrow> arr_op" where
  "array_step W (AAppend x) a = array_append_fn x a"
| "array_step W (AExtend b) a = array_extend_fn b a"
| "array_step W AExtendSelf a = array_extend_fn a a"
| "array_step W APop a = array_pop_fn a"
| "array_step W ATop a = array_top_fn a"
| "array_step W (AInsert i x) a = array_insert_fn i x a"
| "array_step W (ARemove i) a = array_remove_fn W i a"
| "array_step W (AResize n x) a = array_resize_fn n x a"
| "array_step W AReverse a = array_reverse_fn a"
| "array_step W (AFind x) a = array_find_fn W x a"

text \<open>A thrown error leaves the array as it was and ends up in the results.\<close>

fun array_run :: "weakstore \<Rightarrow> array_op list \<Rightarrow> sqarray \<Rightarrow> ((string + nat_result) list \<times> sqarray) option" where
  "array_run W [] a = Some ([], a)"
| "array_run W (op # ops) a =
     (case array_step W op a of
        Inl (Throw e) \<Rightarrow> Option.bind (array_run W ops a) (\<lambda>(rs, a). Some (Inl e # rs, a))
      | Inl _ \<Rightarrow> None
      | Inr (r, a) \<Rightarrow> Option.bind (array_run W ops a) (\<lambda>(rs, a). Some (Inr r # rs, a)))"

fun list_step :: "weakstore \<Rightarrow> array_op \<Rightarrow> sqobject list \<Rightarrow> (string + nat_result) \<times> sqobject list" where
  "list_step W (AAppend x) xs = (Inr PushedThis, xs @ [x])"
| "list_step W (AExtend b) xs = (Inr PushedThis, xs @ v_vals b)"
| "list_step W AExtendSelf xs = (Inr PushedThis, xs @ xs)"
| "list_step W APop xs = (if xs = [] then (Inl ''empty array'', xs) else (Inr (Pushed (last xs)), butlast xs))"
| "list_step W ATop xs = (if xs = [] then (Inl ''top() on a empty array'', xs) else (Inr (Pushed (last xs)), xs))"
| "list_step W (AInsert i x) xs =
     (let n = sint (tointeger i)
      in if n < 0 \<or> n > int (length xs) then (Inl ''index out of range'', xs)
         else (Inr PushedThis, take (nat n) xs @ x # drop (nat n) xs))"
| "list_step W (ARemove i) xs =
     (let n = sint (tointeger i)
      in if \<not> sq_isnumeric (sq_type i) then (Inl ''wrong type'', xs)
         else if n < 0 \<or> n \<ge> int (length xs) then (Inl ''idx out of range'', xs)
         else (Inr (Pushed (realval W (xs ! nat n))), take (nat n) xs @ drop (nat n + 1) xs))"
| "list_step W (AResize k x) xs =
     (let n = int_arg k
      in if \<not> sq_isnumeric (sq_type k) then (Inl ''size must be a number'', xs)
         else if n < 0 then (Inl ''resizing to negative length'', xs)
         else (Inr PushedThis, take (nat n) xs @ replicate (nat n - length xs) (case x of Some y \<Rightarrow> y | None \<Rightarrow> VNull)))"
| "list_step W AReverse xs = (Inr PushedThis, rev xs)"
| "list_step W (AFind x) xs =
     (case List.find (\<lambda>k. IsEqual (realval W (xs ! k)) x) [0..<length xs] of
        Some k \<Rightarrow> (Inr (Pushed (VInteger (of_nat k))), xs)
      | None \<Rightarrow> (Inr NoResult, xs))"

fun list_run :: "weakstore \<Rightarrow> array_op list \<Rightarrow> sqobject list \<Rightarrow> (string + nat_result) list \<times> sqobject list" where
  "list_run W [] xs = ([], xs)"
| "list_run W (op # ops) xs =
     (let (r, xs) = list_step W op xs; (rs, xs) = list_run W ops xs in (r # rs, xs))"

lemma find_loop_eq:
  "find_loop W x n ys = List.find (\<lambda>k. IsEqual (realval W (ys ! (k - n))) x) [n..<n + length ys]"
proof (induction ys arbitrary: n)
  case (Cons y ys)
  have "List.find (\<lambda>k. IsEqual (realval W ((y # ys) ! (k - n))) x) [n..<n + length (y # ys)] =
      (if IsEqual (realval W y) x then Some n
       else List.find (\<lambda>k. IsEqual (realval W ((y # ys) ! (k - n))) x) [Suc n..<Suc n + length ys])"
    by (simp add: upt_conv_Cons del: upt_Suc)
  moreover have "List.find (\<lambda>k. IsEqual (realval W ((y # ys) ! (k - n))) x) [Suc n..<Suc n + length ys] =
      List.find (\<lambda>k. IsEqual (realval W (ys ! (k - Suc n))) x) [Suc n..<Suc n + length ys]"
    by (rule find_cong) (auto simp: nth_Cons' Suc_diff_le)
  ultimately show ?case using Cons.IH [of "Suc n"] by (simp del: upt_Suc)
qed simp

lemma nat_sint: "0 \<le> sint (w :: i64) \<Longrightarrow> unat w = nat (sint w)"
  using uint_sint [of w] sint_less [of w]
  by (simp add: unat_eq_nat_uint take_bit_int_eq_self)

text \<open>No list that the operations reach is longer than \<open>2 ^ 59\<close>.\<close>

fun lengths_fit :: "weakstore \<Rightarrow> array_op list \<Rightarrow> sqobject list \<Rightarrow> bool" where
  "lengths_fit W [] xs \<longleftrightarrow> True"
| "lengths_fit W (op # ops) xs \<longleftrightarrow>
     length (snd (list_step W op xs)) \<le> vec_limit \<and> lengths_fit W ops (snd (list_step W op xs))"

lemma array_step_refines:
  assumes "vec_inv a" "length (snd (list_step W op (v_vals a))) \<le> vec_limit"
  shows "case array_step W op a of
      Inl e \<Rightarrow> \<exists>m. e = Throw m \<and> list_step W op (v_vals a) = (Inl m, v_vals a)
    | Inr (r, a') \<Rightarrow> vec_inv a' \<and> list_step W op (v_vals a) = (Inr r, v_vals a')"
proof (cases op)
  case (AAppend x)
  then show ?thesis using vec_push_back_correct [OF assms(1), of x] assms(2)
    by (auto simp: array_append_fn_def array_Append_def checked_def)
next
  case (AExtend b)
  then show ?thesis using append_all_correct [OF assms(1), of "v_vals b"] assms(2)
    by (auto simp: array_extend_fn_def array_Extend_def checked_def)
next
  case AExtendSelf
  then show ?thesis using append_all_correct [OF assms(1), of "v_vals a"] assms(2)
    by (auto simp: array_extend_fn_def array_Extend_def checked_def)
next
  case APop
  have "v_vals a \<noteq> [] \<Longrightarrow> vec_inv (a\<lparr>v_vals := butlast (v_vals a)\<rparr>)" using assms(1) by (simp add: vec_inv_smaller)
  then show ?thesis using APop
    by (auto simp: ShrinkIfNeeded_correct array_pop_fn_def array_Pop_def vec_pop_back_def vec_top_def checked_def)
next
  case ATop
  then show ?thesis using assms by (auto simp: array_top_fn_def vec_top_def checked_def)
next
  case (AInsert i x)
  let ?n = "sint (tointeger i)"
  show ?thesis
  proof (cases "?n < 0 \<or> ?n > int (v_size a)")
    case True
    then show ?thesis using AInsert by (auto simp: array_insert_fn_def array_Insert_def checked_def)
  next
    case False
    then have "nat ?n \<le> v_size a" "v_size a + 1 < 2 ^ 60"
      using assms(2) AInsert by (auto simp: Let_def)
    from vec_insert_correct [OF assms(1) this, of VNull x] show ?thesis using AInsert False
      by (auto simp: array_insert_fn_def array_Insert_def checked_def nat_sint Let_def)
  qed
next
  case (ARemove i)
  let ?n = "sint (tointeger i)"
  show ?thesis
  proof (cases "\<not> sq_isnumeric (sq_type i) \<or> ?n < 0 \<or> ?n \<ge> int (v_size a)")
    case True
    then show ?thesis using ARemove by (auto simp: array_remove_fn_def array_Get_def Let_def)
  next
    case False
    then have "nat ?n < v_size a" by auto
    from vec_remove_correct [OF assms(1) this] show ?thesis using ARemove False
      by (auto simp: ShrinkIfNeeded_correct array_remove_fn_def array_Remove_def array_Get_def checked_def nat_sint Let_def)
  qed
next
  case (AResize k x)
  have "sq_isnumeric (sq_type k) \<Longrightarrow> \<not> int_arg k < 0 \<Longrightarrow> nat (int_arg k) < 2 ^ 60"
    using assms(2) AResize by (auto simp: Let_def)
  then show ?thesis
    using AResize vec_resize_correct [OF assms(1), of "nat (int_arg k)" "case x of Some y \<Rightarrow> y | None \<Rightarrow> VNull"]
    by (auto simp: ShrinkIfNeeded_correct array_resize_fn_def array_Resize_def checked_def Let_def)
next
  case AReverse
  then show ?thesis using assms reverse_loop_rev [of "v_vals a"] by (auto simp: array_reverse_fn_def vec_inv_def)
next
  case (AFind x)
  then show ?thesis using assms find_loop_eq [of W x 0 "v_vals a"]
    by (auto simp: array_find_fn_def split: option.splits)
qed

text \<open>
  C2. Every sequence of array operations of a script (append, extend, also with the array
  itself, pop, top, insert, remove, resize, reverse, find) that never makes the array
  longer than \<open>2 ^ 59\<close> elements gives the results and the elements that the same sequence
  gives on a list, with the errors of the code where an index or the size is out of range,
  and never accesses memory outside of the block. (A block of \<open>2 ^ 59\<close> objects is half of
  a 64-bit address space; beyond it the size of the block wraps, see
  \<open>array_resize_overruns\<close>.)\<close>

theorem array_run_refines_list:
  assumes "vec_inv a" "lengths_fit W ops (v_vals a)"
  shows "\<exists>rs a'. array_run W ops a = Some (rs, a') \<and> vec_inv a' \<and> list_run W ops (v_vals a) = (rs, v_vals a')"
  using assms
proof (induction ops arbitrary: a)
  case (Cons op ops)
  have fit: "length (snd (list_step W op (v_vals a))) \<le> vec_limit" "lengths_fit W ops (snd (list_step W op (v_vals a)))"
    using Cons.prems(2) by simp_all
  note step = array_step_refines [OF Cons.prems(1) fit(1)]
  show ?case
  proof (cases "array_step W op a")
    case (Inl e)
    then obtain m where "e = Throw m" "list_step W op (v_vals a) = (Inl m, v_vals a)" using step by auto
    then show ?thesis using Cons.IH [OF Cons.prems(1)] fit(2) Inl by auto
  next
    case (Inr p)
    obtain r a' where p: "p = (r, a')" by (cases p)
    then have "vec_inv a'" "list_step W op (v_vals a) = (Inr r, v_vals a')" using step Inr by auto
    then show ?thesis using Cons.IH [of a'] fit(2) Inr p by auto
  qed
qed simp

theorem array_run_refines_list_witness:
  "\<exists>rs a'. array_run (\<lambda>_. VNull) [AAppend VNull, AInsert (VInteger 0) (VInteger 7), AExtendSelf, APop, ARemove (VInteger 9)]
       vec_new = Some (rs, a') \<and> vec_inv a' \<and>
     list_run (\<lambda>_. VNull) [AAppend VNull, AInsert (VInteger 0) (VInteger 7), AExtendSelf, APop, ARemove (VInteger 9)]
       (v_vals (vec_new :: sqarray)) = (rs, v_vals a')"
  by (rule array_run_refines_list) (simp_all, simp add: vec_new_def tointeger_def Let_def sq_isnumeric_iff)

text \<open>
  Without the bound: \<open>resize(0x1000000000000001)\<close> on a new array computes a block of 16 bytes
  and writes beyond it.\<close>

lemma array_resize_overruns:
  "array_resize_fn (VInteger 0x1000000000000001) None vec_new = Inl BadMemory"
  by (simp add: array_resize_fn_def array_Resize_def vec_resize_def vec_realloc_def vec_construct_def
      vec_room_def sizeof_SQObjectPtr_def vec_new_def checked_def sq_isnumeric_iff tointeger_def Let_def
      del: length_replicate) simp

section \<open>Slices\<close>

lemma slice_loop_correct:
  assumes "v_size src < 2 ^ 63" "v_size arr < 2 ^ 63"
  shows "i + k \<le> v_size src \<Longrightarrow> c + k \<le> v_size arr \<Longrightarrow>
     v_vals (slice_loop W k (int i) (int c) t src arr) =
       take c (v_vals arr) @ map (realval W) (take k (drop i (v_vals src))) @ drop (c + k) (v_vals arr)"
  using assms(2)
proof (induction k arbitrary: i c t arr)
  case (Suc k)
  have bounds: "i < v_size src" "c < v_size arr" "i < 2 ^ 63" "c < 2 ^ 63" using Suc.prems assms by auto
  have get: "array_Get W (word_of_int (int i)) src = Some (realval W (v_vals src ! i))"
    using bounds by (simp add: array_Get_def sint_of_nat_small unat_of_nat)
  let ?x = "realval W (v_vals src ! i)"
  have set: "array_Set (word_of_int (int c)) ?x arr = (True, arr\<lparr>v_vals := (v_vals arr)[c := ?x]\<rparr>)"
    using bounds by (simp add: array_Set_def sint_of_nat_small unat_of_nat)
  let ?arr = "arr\<lparr>v_vals := (v_vals arr)[c := ?x]\<rparr>"
  have "v_vals (slice_loop W k (int (Suc i)) (int (Suc c)) ?x src ?arr) =
      take (Suc c) (v_vals ?arr) @ map (realval W) (take k (drop (Suc i) (v_vals src))) @ drop (Suc c + k) (v_vals ?arr)"
    by (rule Suc.IH) (use Suc.prems in auto)
  moreover have "take (Suc c) ((v_vals arr)[c := ?x]) = take c (v_vals arr) @ [?x]"
    using bounds by (simp add: take_Suc_conv_app_nth)
  moreover have "take (Suc k) (drop i (v_vals src)) = v_vals src ! i # take k (drop (Suc i) (v_vals src))"
    using bounds by (simp add: Cons_nth_drop_Suc [symmetric])
  ultimately show ?case using get set by (simp add: Let_def add.commute)
qed simp

lemma array_Create_correct:
  "n < 2 ^ 60 \<Longrightarrow> \<exists>a. array_Create n = Some a \<and> vec_inv a \<and> v_vals a = replicate n VNull"
  using vec_resize_correct [OF vec_new_inv, of n VNull] by (simp add: array_Create_def vec_new_def)

text \<open>
  A slice of an array from \<open>start\<close> to \<open>end\<close>, where an index counts from the end when it
  is negative, is a new array with the elements from the first index up to but not
  including the second; indices in the wrong order or outside of the array are the errors
  of the code.\<close>

lemma array_slice_correct:
  assumes "v_size a < 2 ^ 60"
    and n_def: "n = int (v_size a)"
    and i_def: "i = (if sint s < 0 then n + sint s else sint s)"
    and j_def: "j = (if sint e < 0 then n + sint e else sint e)"
  shows "if j < i then array_slice_fn W [VInteger s, VInteger e] a = Inl (Throw ''wrong indexes'')
    else if j > n \<or> i < 0 then array_slice_fn W [VInteger s, VInteger e] a = Inl (Throw ''slice out of range'')
    else \<exists>b. array_slice_fn W [VInteger s, VInteger e] a = Inr (PushedArray b, a) \<and> vec_inv b \<and>
           v_vals b = map (realval W) (take (nat j - nat i) (drop (nat i) (v_vals a)))"
proof -
  have params: "get_slice_params (int (v_size a)) [VInteger s, VInteger e] = (sint s, sint e)"
    by (simp add: get_slice_params_def sq_isnumeric_iff tointeger_def)
  have fn: "array_slice_fn W [VInteger s, VInteger e] a =
      (if j < i then Inl (Throw ''wrong indexes'')
       else if j > n \<or> i < 0 then Inl (Throw ''slice out of range'')
       else bindE (checked (array_Create (nat (j - i)))) (\<lambda>arr.
              Inr (PushedArray (slice_loop W (nat (j - i)) i 0 VNull a arr), a)))"
    unfolding array_slice_fn_def Let_def params i_def j_def n_def prod.case ..
  show ?thesis
proof (cases "j < i \<or> j > n \<or> i < 0")
  case True
  then show ?thesis using fn by auto
next
  case False
  let ?k = "nat (j - i)"
  have k: "?k < 2 ^ 60" using False assms(1) n_def by linarith
  obtain arr where arr: "array_Create ?k = Some arr" "v_vals arr = replicate ?k VNull" "v_allocated arr \<ge> ?k" "v_allocated arr < 2 ^ 60"
    using array_Create_correct [of ?k] k by (auto simp: vec_inv_def)
  let ?b = "slice_loop W ?k i 0 VNull a arr"
  have fit: "nat i + ?k \<le> v_size a" using False n_def by linarith
  then have vals: "v_vals ?b = map (realval W) (take ?k (drop (nat i) (v_vals a)))"
    using slice_loop_correct [of a arr "nat i" ?k 0 W VNull] assms(1) arr(2) False by simp
  have alloc: "v_allocated (slice_loop W k i c t src x) = v_allocated x" for k c t src x
    by (induction k arbitrary: i c t x) (auto simp: Let_def array_Set_def)
  have "vec_inv ?b" using vals alloc [of ?k 0 VNull a arr] arr(3,4) by (simp add: vec_inv_def)
  moreover have "array_slice_fn W [VInteger s, VInteger e] a = Inr (PushedArray ?b, a)"
    using False arr(1) fn by (simp add: checked_def)
  moreover have "?k = nat j - nat i" using False by auto
  ultimately show ?thesis using False vals by auto
qed
qed

theorem array_slice_correct_witness:
  "\<exists>b. array_slice_fn (\<lambda>_. VNull) [VInteger 1, VInteger (- 1)] \<lparr>v_vals = [VNull, VBool 1, VNull], v_allocated = 4\<rparr> =
       Inr (PushedArray b, \<lparr>v_vals = [VNull, VBool 1, VNull], v_allocated = 4\<rparr>) \<and> vec_inv b \<and> v_vals b = [VBool 1]"
proof -
  let ?a = "\<lparr>v_vals = [VNull, VBool 1, VNull], v_allocated = 4\<rparr> :: sqarray"
  have "if (2 :: int) < 1 then array_slice_fn (\<lambda>_. VNull) [VInteger 1, VInteger (- 1)] ?a = Inl (Throw ''wrong indexes'')
    else if (2 :: int) > 3 \<or> (1 :: int) < 0
    then array_slice_fn (\<lambda>_. VNull) [VInteger 1, VInteger (- 1)] ?a = Inl (Throw ''slice out of range'')
    else \<exists>b. array_slice_fn (\<lambda>_. VNull) [VInteger 1, VInteger (- 1)] ?a = Inr (PushedArray b, ?a) \<and> vec_inv b \<and>
           v_vals b = map (realval (\<lambda>_. VNull)) (take (nat 2 - nat 1) (drop (nat 1) (v_vals ?a)))"
    by (rule array_slice_correct) simp_all
  then show ?thesis by (simp add: realval_def)
qed

section \<open>Callbacks without side effects\<close>

definition real_vals :: "'s world \<Rightarrow> addr \<Rightarrow> sqobject list" where
  "real_vals w p = map (realval (w_weak w)) (v_vals (w_arrays w p))"


lemma array_Get_nth:
  "n < length (real_vals w p) \<Longrightarrow> v_size (w_arrays w p) < 2 ^ 63 \<Longrightarrow>
     array_Get (w_weak w) (of_nat n) (w_arrays w p) = Some (real_vals w p ! n)"
  by (simp add: array_Get_def real_vals_def sint_of_nat_small unat_of_nat)






text \<open>
  A callback of \<open>map\<close> without parameters (one parameter with \<open>this\<close>): the stack then has the
  array where \<open>sq_call\<close> looks for the function, and the array is what is called.\<close>

lemma array_map_calls_the_array:
  assumes "map_nargs w closure = 1" "real_vals w p = x # xs" "v_size (w_arrays w p) < 2 ^ 60"
    and call: "call (VArray p) [x] w = (Inl e, w1)"
  shows "array_map_fn call p closure w = (Inl e, w1)"
proof -
  have len: "v_size (w_arrays w p) = Suc (length xs)" using assms(2) by (metis length_Cons length_map real_vals_def)
  have "array_Get (w_weak w) 0 (w_arrays w p) = Some x"
    using array_Get_nth [of 0 w p] assms(2,3) len by simp
  moreover obtain d where "array_Create (Suc (length xs)) = Some d" using array_Create_correct assms(3) len by metis
  ultimately show ?thesis using assms(1) call len
    by (simp add: array_map_fn_def sq_call_def Let_def)
qed

end
