(* ===== verification/Sq_Rex.thy ===== *)
theory Sq_Rex
  imports Sq_Lexer
begin

text \<open>
  The regular expressions of \<^verbatim>\<open>sqstdrex.cpp\<close>: a parser that builds an array of nodes, and a
  matcher that walks the nodes.

  Pointers into the pattern and the text are indices into the characters of a string, whose
  terminating zero is at the index of its length; reading behind it is \<open>Rex_Overrun\<close>. The
  parser and the matcher call themselves through the nodes, so they get a bound on the
  depth of the calls; running out of it is \<open>Rex_Fuel\<close>.
\<close>

section \<open>Nodes and expressions\<close>

datatype rex_error = Rex_Error string | Rex_Overrun | Rex_Fuel

definition OP_GREEDY :: int where "OP_GREEDY = 256"
definition OP_OR :: int where "OP_OR = 257"
definition OP_EXPR :: int where "OP_EXPR = 258"
definition OP_NOCAPEXPR :: int where "OP_NOCAPEXPR = 259"
definition OP_DOT :: int where "OP_DOT = 260"
definition OP_CLASS :: int where "OP_CLASS = 261"
definition OP_CCLASS :: int where "OP_CCLASS = 262"
definition OP_NCLASS :: int where "OP_NCLASS = 263"
definition OP_RANGE :: int where "OP_RANGE = 264"
definition OP_EOL :: int where "OP_EOL = 266"
definition OP_BOL :: int where "OP_BOL = 267"
definition OP_WB :: int where "OP_WB = 268"
definition OP_MB :: int where "OP_MB = 269"

lemmas OP_defs = OP_GREEDY_def OP_OR_def OP_EXPR_def OP_NOCAPEXPR_def OP_DOT_def OP_CLASS_def OP_CCLASS_def
  OP_NCLASS_def OP_RANGE_def OP_EOL_def OP_BOL_def OP_WB_def OP_MB_def

record rexnode =
  rn_type :: int
  rn_left :: int
  rn_right :: int
  rn_next :: int

text \<open>A match of a subexpression: where it begins (\<^const>\<open>None\<close> for a null pointer) and its length.\<close>

record rexmatch =
  rm_begin :: "nat option"
  rm_len :: int

record rex =
  rx_bol :: nat
  rx_eol :: nat
  rx_p :: nat
  rx_first :: int
  rx_nodes :: "rexnode list"
  rx_nallocated :: int
  rx_nsubexpr :: int
  rx_matches :: "rexmatch list"
  rx_currsubexp :: int

type_synonym 'a rexop = "rex \<Rightarrow> rex_error + ('a \<times> rex)"

definition pbind :: "'a rexop \<Rightarrow> ('a \<Rightarrow> 'b rexop) \<Rightarrow> 'b rexop" where
  "pbind m f e = bindE (m e) (\<lambda>(x, e). f x e)"

definition preturn :: "'a \<Rightarrow> 'a rexop" where
  "preturn x e = Inr (x, e)"

definition rex_fail :: "rex_error \<Rightarrow> 'a rexop" where
  "rex_fail err e = Inl err"

abbreviation sqstd_rex_error :: "string \<Rightarrow> 'a rexop" where
  "sqstd_rex_error m \<equiv> rex_fail (Rex_Error m)"

text \<open>Characters are signed.\<close>

definition schar :: "char \<Rightarrow> int" where
  "schar c = sint (of_char c :: byte)"

definition deref :: "string \<Rightarrow> nat \<Rightarrow> rex_error + char" where
  "deref s i = (if i < length s then Inr (s ! i) else if i = length s then Inr (CHR 0x00) else Inl Rex_Overrun)"

definition peek :: "string \<Rightarrow> char rexop" where
  "peek pat e = bindE (deref pat (rx_p e)) (\<lambda>c. Inr (c, e))"

definition adv :: "unit rexop" where
  "adv e = Inr ((), e\<lparr>rx_p := rx_p e + 1\<rparr>)"

text \<open>An access to the node array outside of its nodes is an overrun, too.\<close>

definition node_at :: "rexnode list \<Rightarrow> int \<Rightarrow> rex_error + rexnode" where
  "node_at ns i = (if 0 \<le> i \<and> i < int (length ns) then Inr (ns ! nat i) else Inl Rex_Overrun)"

definition get_node :: "int \<Rightarrow> rexnode rexop" where
  "get_node i e = bindE (node_at (rx_nodes e) i) (\<lambda>nd. Inr (nd, e))"

definition upd_node :: "int \<Rightarrow> (rexnode \<Rightarrow> rexnode) \<Rightarrow> unit rexop" where
  "upd_node i f e =
     bindE (node_at (rx_nodes e) i) (\<lambda>nd. Inr ((), e\<lparr>rx_nodes := (rx_nodes e)[nat i := f nd]\<rparr>))"

section \<open>The parser\<close>

definition rex_newnode :: "int \<Rightarrow> int rexop" where
  "rex_newnode ty e =
     (let nsize = int (length (rx_nodes e));
          n = \<lparr>rn_type = ty, rn_left = - 1, rn_right = (if ty = OP_EXPR then rx_nsubexpr e else - 1), rn_next = - 1\<rparr>;
          nallocated = (if rx_nallocated e < nsize + 1 then rx_nallocated e * 2 else rx_nallocated e)
      in if nsize < nallocated
         then Inr (nsize, e\<lparr>rx_nodes := rx_nodes e @ [n], rx_nallocated := nallocated,
                            rx_nsubexpr := (if ty = OP_EXPR then rx_nsubexpr e + 1 else rx_nsubexpr e)\<rparr>)
         else Inl Rex_Overrun)"

definition rex_expect :: "string \<Rightarrow> char \<Rightarrow> unit rexop" where
  "rex_expect pat n =
     pbind (peek pat) (\<lambda>c. if c \<noteq> n then sqstd_rex_error ''expected paren'' else adv)"

definition isprint :: "char \<Rightarrow> bool" where
  "isprint c \<longleftrightarrow> (let n = of_char c :: nat in 32 \<le> n \<and> n \<le> 126)"

definition escape_table :: "char \<Rightarrow> char option" where
  "escape_table c = map_of
     [(CHR ''v'', CHR 0x0B), (CHR ''n'', CHR 0x0A), (CHR ''t'', CHR 0x09), (CHR ''r'', CHR 0x0D),
      (CHR ''f'', CHR 0x0C)] c"

definition rex_escapechar :: "string \<Rightarrow> char rexop" where
  "rex_escapechar pat =
     pbind (peek pat) (\<lambda>c.
       if c = CHR 0x5C then
         pbind adv (\<lambda>_. pbind (peek pat) (\<lambda>d. pbind adv (\<lambda>_.
           preturn (case escape_table d of Some x \<Rightarrow> x | None \<Rightarrow> d))))
       else if \<not> isprint c then sqstd_rex_error ''letter expected''
       else pbind adv (\<lambda>_. preturn c))"

definition rex_charclass :: "char \<Rightarrow> int rexop" where
  "rex_charclass classid =
     pbind (rex_newnode OP_CCLASS) (\<lambda>n. pbind (upd_node n (\<lambda>nd. nd\<lparr>rn_left := schar classid\<rparr>)) (\<lambda>_. preturn n))"

definition rex_balanced :: "string \<Rightarrow> int rexop" where
  "rex_balanced pat =
     pbind adv (\<lambda>_. pbind (peek pat) (\<lambda>cb.
     pbind adv (\<lambda>_. pbind (peek pat) (\<lambda>ce.
     pbind adv (\<lambda>_.
       if cb = CHR 0x00 \<or> ce = CHR 0x00 then sqstd_rex_error ''balanced chars expected''
       else if cb = ce then sqstd_rex_error (''open/close char can'' @ [CHR 0x27] @ ''t be the same'')
       else pbind (rex_newnode OP_MB) (\<lambda>node.
              pbind (upd_node node (\<lambda>nd. nd\<lparr>rn_left := schar cb, rn_right := schar ce\<rparr>)) (\<lambda>_. preturn node)))))))"

definition class_letter :: "char \<Rightarrow> bool" where
  "class_letter c \<longleftrightarrow> c \<in> set ''aAwWsSdDxXcCpPlu''"

text \<open>The switch on the character after a backslash.\<close>

definition rex_escapenode :: "string \<Rightarrow> bool \<Rightarrow> char \<Rightarrow> int rexop" where
  "rex_escapenode pat isclass d =
     (case escape_table d of
        Some x \<Rightarrow> pbind adv (\<lambda>_. rex_newnode (schar x))
      | None \<Rightarrow>
          if class_letter d then pbind adv (\<lambda>_. rex_charclass d)
          else if d = CHR ''m'' then rex_balanced pat
          else if d = CHR 0x00 then sqstd_rex_error ''letter expected for argument of escape sequence''
          else if (d = CHR ''b'' \<or> d = CHR ''B'') \<and> \<not> isclass then
            pbind (rex_newnode OP_WB) (\<lambda>node.
              pbind (upd_node node (\<lambda>nd. nd\<lparr>rn_left := schar d\<rparr>)) (\<lambda>_. pbind adv (\<lambda>_. preturn node)))
          else pbind adv (\<lambda>_. rex_newnode (schar d)))"

definition rex_charnode :: "string \<Rightarrow> bool \<Rightarrow> int rexop" where
  "rex_charnode pat isclass =
     pbind (peek pat) (\<lambda>c.
       if c = CHR 0x5C then pbind adv (\<lambda>_. pbind (peek pat) (rex_escapenode pat isclass))
       else if \<not> isprint c then sqstd_rex_error ''letter expected''
       else pbind adv (\<lambda>_. rex_newnode (schar c)))"

text \<open>
  The loop of \<open>sqstd_rex_class\<close>. \<open>_eol\<close> is null while a pattern is parsed, so that the loop
  ends at the closing bracket only; the comparison with it after \<open>-\<close> can never hold, since the
  character that is compared is \<open>-\<close>.
\<close>

definition rex_range_node :: "string \<Rightarrow> int \<Rightarrow> int rexop" where
  "rex_range_node pat first =
     pbind adv (\<lambda>_. pbind (rex_newnode OP_RANGE) (\<lambda>r.
     pbind (get_node first) (\<lambda>nd. pbind (peek pat) (\<lambda>c.
       if rn_type nd > schar c then sqstd_rex_error ''invalid range''
       else if rn_type nd = OP_CCLASS then sqstd_rex_error ''cannot use character classes in ranges''
       else pbind (upd_node r (\<lambda>n. n\<lparr>rn_left := rn_type nd\<rparr>)) (\<lambda>_.
            pbind (rex_escapechar pat) (\<lambda>t.
            pbind (upd_node r (\<lambda>n. n\<lparr>rn_right := schar t\<rparr>)) (\<lambda>_. preturn r)))))))"

definition rex_range :: "string \<Rightarrow> int \<Rightarrow> int \<Rightarrow> int rexop" where
  "rex_range pat chain first =
     pbind (rex_range_node pat first) (\<lambda>r. pbind (upd_node chain (\<lambda>n. n\<lparr>rn_next := r\<rparr>)) (\<lambda>_. preturn r))"

definition rex_class_step :: "string \<Rightarrow> char \<Rightarrow> int \<Rightarrow> int \<Rightarrow> (int \<times> int) rexop" where
  "rex_class_step pat c chain first =
     (if c = CHR ''-'' \<and> first \<noteq> - 1 then pbind (rex_range pat chain first) (\<lambda>r. preturn (r, - 1))
      else if first \<noteq> - 1 then
        pbind (upd_node chain (\<lambda>n. n\<lparr>rn_next := first\<rparr>)) (\<lambda>_.
        pbind (rex_charnode pat True) (\<lambda>first'. preturn (first, first')))
      else pbind (rex_charnode pat True) (\<lambda>first'. preturn (chain, first')))"

text \<open>Reading an item of a class moves forwards.\<close>

lemma pbind_Inr: "pbind m f e = Inr (y, e'') \<longleftrightarrow> (\<exists>x e'. m e = Inr (x, e') \<and> f x e' = Inr (y, e''))"
  by (auto simp: pbind_def bindE_Inr_iff)

lemma rexop_Inr:
  "preturn x e = Inr (y, e') \<longleftrightarrow> y = x \<and> e' = e"
  "\<not> rex_fail err e = Inr (y, e')"
  "peek pat e = Inr (c, e') \<longleftrightarrow> deref pat (rx_p e) = Inr c \<and> e' = e"
  "adv e = Inr (u, e') \<longleftrightarrow> e' = e\<lparr>rx_p := rx_p e + 1\<rparr>"
  "get_node i e = Inr (nd, e') \<longleftrightarrow> node_at (rx_nodes e) i = Inr nd \<and> e' = e"
  by (auto simp: preturn_def rex_fail_def peek_def adv_def get_node_def bindE_Inr_iff)

definition moves :: "nat \<Rightarrow> 'a rexop \<Rightarrow> bool" where
  "moves k m \<longleftrightarrow> (\<forall>e x e'. m e = Inr (x, e') \<longrightarrow> rx_p e + k \<le> rx_p e')"

lemma movesD: "moves k m \<Longrightarrow> m e = Inr (x, e') \<Longrightarrow> rx_p e + k \<le> rx_p e'"
  by (simp add: moves_def)

lemma moves_pbind: "moves k m \<Longrightarrow> (\<And>x. moves j (f x)) \<Longrightarrow> moves (k + j) (pbind m f)"
  by (fastforce simp: moves_def pbind_Inr)

lemma moves_basic:
  "moves 0 (preturn x)" "moves k (rex_fail err)" "moves 0 (peek pat)" "moves 1 adv" "moves 0 (get_node i)"
  "moves 0 (upd_node i g)" "moves 0 (rex_newnode ty)"
  by (auto simp: moves_def rexop_Inr upd_node_def rex_newnode_def bindE_Inr_iff Let_def split: if_splits)

lemma moves_weaken: "moves k m \<Longrightarrow> j \<le> k \<Longrightarrow> moves j m"
  by (fastforce simp: moves_def)

lemma moves_after: "moves 0 m \<Longrightarrow> (\<And>x. moves k (f x)) \<Longrightarrow> moves k (pbind m f)"
  using moves_pbind [of 0 m k f] by simp

lemma moves_first: "moves 1 m \<Longrightarrow> (\<And>x. moves 0 (f x)) \<Longrightarrow> moves 1 (pbind m f)"
  using moves_pbind [of 1 m 0 f] by simp

lemmas moves_skip = moves_basic(3) [THEN moves_after] moves_basic(5) [THEN moves_after]
  moves_basic(6) [THEN moves_after] moves_basic(7) [THEN moves_after]

lemma moves_adv: "(\<And>x. moves 0 (f x)) \<Longrightarrow> moves 1 (pbind adv f)" "(\<And>x. moves 0 (f x)) \<Longrightarrow> moves 0 (pbind adv f)"
  using moves_pbind [OF moves_basic(4), of 0 f] by (simp_all add: moves_weaken [of 1])

lemma moves_if: "moves k m \<Longrightarrow> moves k n \<Longrightarrow> moves k (if b then m else n)"
  by simp

lemma moves_option: "moves k m \<Longrightarrow> (\<And>x. moves k (n x)) \<Longrightarrow> moves k (case y of None \<Rightarrow> m | Some x \<Rightarrow> n x)"
  by (cases y) auto

lemmas moves_intros = moves_skip moves_adv moves_if moves_option moves_basic

lemma moves_expect: "moves 1 (rex_expect pat n)"
  unfolding rex_expect_def by (intro moves_intros)

lemma moves_escapechar: "moves 1 (rex_escapechar pat)"
  unfolding rex_escapechar_def by (intro moves_intros)

lemma moves_charclass: "moves 0 (rex_charclass c)"
  unfolding rex_charclass_def by (intro moves_intros)

lemma moves_balanced: "moves 1 (rex_balanced pat)"
  unfolding rex_balanced_def by (intro moves_intros)

lemma moves_charnode: "moves 1 (rex_charnode pat b)"
  unfolding rex_charnode_def rex_escapenode_def by (intro moves_intros moves_charclass moves_balanced moves_weaken [OF moves_balanced]) simp

lemma moves_range: "moves 1 (rex_range pat chain first)"
  unfolding rex_range_def rex_range_node_def
  by (intro moves_intros moves_first moves_after [OF moves_weaken [OF moves_escapechar]]) simp

lemma moves_class_step: "moves 1 (rex_class_step pat c chain first)"
  unfolding rex_class_step_def
  by (intro moves_intros moves_first [OF moves_charnode] moves_first [OF moves_range])

lemma deref_le: "deref s i = Inr c \<Longrightarrow> i \<le> length s"
  by (auto simp: deref_def split: if_splits)

function rex_class_loop :: "string \<Rightarrow> int \<Rightarrow> int \<Rightarrow> (int \<times> int) rexop" where
  "rex_class_loop pat chain first e =
     bindE (peek pat e) (\<lambda>(c, e).
       if c = CHR '']'' then Inr ((chain, first), e)
       else bindE (rex_class_step pat c chain first e) (\<lambda>(cf, e). rex_class_loop pat (fst cf) (snd cf) e))"
  by pat_completeness auto
termination
  by (relation "measure (\<lambda>(pat, chain, first, e). Suc (length pat) - rx_p e)")
    (auto simp: rexop_Inr dest!: deref_le movesD [OF moves_class_step])

declare rex_class_loop.simps [simp del]

definition rex_class_close :: "int \<Rightarrow> int \<times> int \<Rightarrow> int rexop" where
  "rex_class_close ret cf =
     pbind (if snd cf \<noteq> - 1 then upd_node (fst cf) (\<lambda>n. n\<lparr>rn_next := snd cf\<rparr>) else preturn ()) (\<lambda>_.
     pbind (upd_node ret (\<lambda>n. n\<lparr>rn_left := rn_next n, rn_next := - 1\<rparr>)) (\<lambda>_. preturn ret))"

definition rex_class_body :: "string \<Rightarrow> int \<Rightarrow> int rexop" where
  "rex_class_body pat ret =
     pbind (peek pat) (\<lambda>c.
       if c = CHR '']'' then sqstd_rex_error ''empty class''
       else pbind (rex_class_loop pat ret (- 1)) (rex_class_close ret))"

definition rex_class :: "string \<Rightarrow> int rexop" where
  "rex_class pat =
     pbind (peek pat) (\<lambda>c.
       if c = CHR ''^'' then pbind (rex_newnode OP_NCLASS) (\<lambda>r. pbind adv (\<lambda>_. rex_class_body pat r))
       else pbind (rex_newnode OP_CLASS) (rex_class_body pat))"

function rex_number_loop :: "string \<Rightarrow> int \<Rightarrow> int \<Rightarrow> int rexop" where
  "rex_number_loop pat ret positions e =
     bindE (peek pat e) (\<lambda>(c, e).
       if isdigit c then
         (let e' = e\<lparr>rx_p := rx_p e + 1\<rparr>
          in if positions = 1000000000 then Inl (Rex_Error ''overflow in numeric constant'')
             else rex_number_loop pat (ret * 10 + (schar c - 48)) (positions * 10) e')
       else Inr (ret, e))"
  by pat_completeness auto
termination
  by (relation "measure (\<lambda>(pat, ret, positions, e). Suc (length pat) - rx_p e)")
    (auto simp: rexop_Inr dest!: deref_le)

declare rex_number_loop.simps [simp del]

definition rex_parsenumber :: "string \<Rightarrow> int rexop" where
  "rex_parsenumber pat =
     pbind (peek pat) (\<lambda>c. pbind adv (\<lambda>_. rex_number_loop pat (schar c - 48) 10))"

text \<open>The first part of \<open>sqstd_rex_element\<close>, with \<open>sqstd_rex_list\<close> as a parameter.\<close>

definition rex_atom :: "int rexop \<Rightarrow> string \<Rightarrow> int rexop" where
  "rex_atom rex_list pat =
     pbind (peek pat) (\<lambda>c.
       if c = CHR ''('' then
         pbind adv (\<lambda>_. pbind (peek pat) (\<lambda>d.
         pbind (if d = CHR ''?''
                then pbind adv (\<lambda>_. pbind (rex_expect pat (CHR '':'')) (\<lambda>_. rex_newnode OP_NOCAPEXPR))
                else rex_newnode OP_EXPR) (\<lambda>expr.
         pbind rex_list (\<lambda>newn.
         pbind (upd_node expr (\<lambda>n. n\<lparr>rn_left := newn\<rparr>)) (\<lambda>_.
         pbind (rex_expect pat (CHR '')'')) (\<lambda>_. preturn expr))))))
       else if c = CHR ''['' then
         pbind adv (\<lambda>_. pbind (rex_class pat) (\<lambda>ret. pbind (rex_expect pat (CHR '']'')) (\<lambda>_. preturn ret)))
       else if c = CHR ''$'' then pbind adv (\<lambda>_. rex_newnode OP_EOL)
       else if c = CHR ''.'' then pbind adv (\<lambda>_. rex_newnode OP_DOT)
       else rex_charnode pat False)"

text \<open>
  The second part: the quantifier. \<open>p0\<close> and \<open>p1\<close> are unsigned shorts, and \<open>(p0 << 16) | p1\<close> is an
  \<open>int\<close>.
\<close>

definition rex_braces :: "string \<Rightarrow> (int \<times> int) rexop" where
  "rex_braces pat =
     pbind adv (\<lambda>_. pbind (peek pat) (\<lambda>c.
       if \<not> isdigit c then sqstd_rex_error ''number expected''
       else pbind (rex_parsenumber pat) (\<lambda>n.
         pbind (peek pat) (\<lambda>c.
           if c = CHR ''}'' then pbind adv (\<lambda>_. preturn (n mod 65536, n mod 65536))
           else if c = CHR '','' then
             pbind adv (\<lambda>_. pbind (peek pat) (\<lambda>c.
             pbind (if isdigit c then rex_parsenumber pat else preturn 0xFFFF) (\<lambda>m.
             pbind (rex_expect pat (CHR ''}'')) (\<lambda>_. preturn (n mod 65536, m mod 65536)))))
           else sqstd_rex_error '', or } expected''))))"

definition greedy_bounds :: "int \<Rightarrow> int \<Rightarrow> int" where
  "greedy_bounds p0 p1 = sint (word_of_int (p0 * 65536 + p1) :: 32 word)"

definition rex_quantifier :: "string \<Rightarrow> (int \<times> int) option rexop" where
  "rex_quantifier pat =
     pbind (peek pat) (\<lambda>c.
       if c = CHR ''*'' then pbind adv (\<lambda>_. preturn (Some (0, 0xFFFF)))
       else if c = CHR ''+'' then pbind adv (\<lambda>_. preturn (Some (1, 0xFFFF)))
       else if c = CHR ''?'' then pbind adv (\<lambda>_. preturn (Some (0, 1)))
       else if c = CHR ''{'' then pbind (rex_braces pat) (\<lambda>b. preturn (Some b))
       else preturn None)"

definition rex_greedy :: "string \<Rightarrow> int \<Rightarrow> int rexop" where
  "rex_greedy pat ret =
     pbind (rex_quantifier pat) (\<lambda>q.
       case q of
         Some (p0, p1) \<Rightarrow>
           pbind (rex_newnode OP_GREEDY) (\<lambda>nnode.
           pbind (upd_node nnode (\<lambda>n. n\<lparr>rn_left := ret, rn_right := greedy_bounds p0 p1\<rparr>)) (\<lambda>_. preturn nnode))
       | None \<Rightarrow> preturn ret)"

definition ends_element :: "char \<Rightarrow> bool" where
  "ends_element c \<longleftrightarrow> c = CHR ''|'' \<or> c = CHR '')'' \<or> c = CHR ''*'' \<or> c = CHR ''+'' \<or> c = CHR 0x00"

fun rex_list :: "nat \<Rightarrow> string \<Rightarrow> int rexop"
and rex_element :: "nat \<Rightarrow> string \<Rightarrow> int rexop" where
  "rex_list 0 pat = rex_fail Rex_Fuel"
| "rex_list (Suc f) pat =
     pbind (peek pat) (\<lambda>c.
     pbind (if c = CHR ''^'' then pbind adv (\<lambda>_. rex_newnode OP_BOL) else preturn (- 1)) (\<lambda>bol.
     pbind (rex_element f pat) (\<lambda>el.
     pbind (if bol \<noteq> - 1 then pbind (upd_node bol (\<lambda>n. n\<lparr>rn_next := el\<rparr>)) (\<lambda>_. preturn bol) else preturn el) (\<lambda>ret.
     pbind (peek pat) (\<lambda>c.
       if c = CHR ''|'' then
         pbind adv (\<lambda>_. pbind (rex_newnode OP_OR) (\<lambda>temp.
         pbind (upd_node temp (\<lambda>n. n\<lparr>rn_left := ret\<rparr>)) (\<lambda>_.
         pbind (rex_list f pat) (\<lambda>tright.
         pbind (upd_node temp (\<lambda>n. n\<lparr>rn_right := tright\<rparr>)) (\<lambda>_. preturn temp)))))
       else preturn ret)))))"
| "rex_element 0 pat = rex_fail Rex_Fuel"
| "rex_element (Suc f) pat =
     pbind (rex_atom (rex_list f pat) pat) (\<lambda>ret.
     pbind (rex_greedy pat ret) (\<lambda>ret.
     pbind (peek pat) (\<lambda>c.
       if \<not> ends_element c then
         pbind (rex_element f pat) (\<lambda>nnode. pbind (upd_node ret (\<lambda>n. n\<lparr>rn_next := nnode\<rparr>)) (\<lambda>_. preturn ret))
       else preturn ret)))"

text \<open>
  \<open>sqstd_rex_compile\<close>. A pattern of \<open>n\<close> characters nests at most twice as deep as it has
  characters.
\<close>

definition rex_new :: "string \<Rightarrow> rex" where
  "rex_new pat = \<lparr>rx_bol = 0, rx_eol = 0, rx_p = 0, rx_first = 0, rx_nodes = [], rx_nallocated = int (length pat),
     rx_nsubexpr = 0, rx_matches = [], rx_currsubexp = 0\<rparr>"

definition no_match :: rexmatch where
  "no_match = \<lparr>rm_begin = None, rm_len = 0\<rparr>"

definition sqstd_rex_compile :: "string \<Rightarrow> rex_error + rex" where
  "sqstd_rex_compile pat =
     bindE (rex_newnode OP_EXPR (rex_new pat)) (\<lambda>(first, e).
     bindE (rex_list (2 * length pat + 2) pat (e\<lparr>rx_first := first\<rparr>)) (\<lambda>(res, e).
     bindE (upd_node (rx_first e) (\<lambda>n. n\<lparr>rn_left := res\<rparr>) e) (\<lambda>(_, e).
     bindE (peek pat e) (\<lambda>(c, e).
       if c \<noteq> CHR 0x00 then Inl (Rex_Error ''unexpected character'')
       else Inr (e\<lparr>rx_matches := replicate (nat (rx_nsubexpr e)) no_match\<rparr>)))))"

section \<open>The matcher\<close>

text \<open>The functions of \<open>ctype.h\<close> in the C locale, where characters above 127 are in no class.\<close>

definition isspace :: "char \<Rightarrow> bool" where
  "isspace c \<longleftrightarrow> (let n = of_char c :: nat in 9 \<le> n \<and> n \<le> 13 \<or> n = 32)"

definition islower :: "char \<Rightarrow> bool" where
  "islower c \<longleftrightarrow> (let n = of_char c :: nat in 97 \<le> n \<and> n \<le> 122)"

definition isupper :: "char \<Rightarrow> bool" where
  "isupper c \<longleftrightarrow> (let n = of_char c :: nat in 65 \<le> n \<and> n \<le> 90)"

definition ispunct :: "char \<Rightarrow> bool" where
  "ispunct c \<longleftrightarrow> isprint c \<and> \<not> isalnum c \<and> c \<noteq> CHR '' ''"

definition rex_matchcclass :: "int \<Rightarrow> char \<Rightarrow> bool" where
  "rex_matchcclass cclass c =
     (if cclass = schar (CHR ''a'') then isalpha c
      else if cclass = schar (CHR ''A'') then \<not> isalpha c
      else if cclass = schar (CHR ''w'') then isalnum c \<or> c = CHR ''_''
      else if cclass = schar (CHR ''W'') then \<not> isalnum c \<and> c \<noteq> CHR ''_''
      else if cclass = schar (CHR ''s'') then isspace c
      else if cclass = schar (CHR ''S'') then \<not> isspace c
      else if cclass = schar (CHR ''d'') then isdigit c
      else if cclass = schar (CHR ''D'') then \<not> isdigit c
      else if cclass = schar (CHR ''x'') then isxdigit c
      else if cclass = schar (CHR ''X'') then \<not> isxdigit c
      else if cclass = schar (CHR ''c'') then iscntrl c
      else if cclass = schar (CHR ''C'') then \<not> iscntrl c
      else if cclass = schar (CHR ''p'') then ispunct c
      else if cclass = schar (CHR ''P'') then \<not> ispunct c
      else if cclass = schar (CHR ''l'') then islower c
      else if cclass = schar (CHR ''u'') then isupper c
      else False)"

definition rex_matchitem :: "rexnode \<Rightarrow> char \<Rightarrow> bool" where
  "rex_matchitem nd c =
     (if rn_type nd = OP_RANGE then schar c \<ge> rn_left nd \<and> schar c \<le> rn_right nd
      else if rn_type nd = OP_CCLASS then rex_matchcclass (rn_left nd) c
      else schar c = rn_type nd)"

text \<open>The loops over chains of nodes are bounded by the number of nodes.\<close>

fun rex_matchclass :: "nat \<Rightarrow> rexnode list \<Rightarrow> int \<Rightarrow> char \<Rightarrow> rex_error + bool" where
  "rex_matchclass 0 ns i c = Inl Rex_Fuel"
| "rex_matchclass (Suc k) ns i c =
     bindE (node_at ns i) (\<lambda>nd.
       if rex_matchitem nd c then Inr True
       else if rn_next nd \<noteq> - 1 then rex_matchclass k ns (rn_next nd) c else Inr False)"

text \<open>The conditions of a word boundary are evaluated from left to right.\<close>

definition rex_boundary :: "string \<Rightarrow> nat \<Rightarrow> nat \<Rightarrow> nat \<Rightarrow> rex_error + bool" where
  "rex_boundary s bol eol i =
     bindE (deref s i) (\<lambda>c.
       if i = bol \<and> \<not> isspace c then Inr True
       else
         bindE (if i = eol then if i = 0 then Inl Rex_Overrun else bindE (deref s (i - 1)) (\<lambda>b. Inr (\<not> isspace b))
                else Inr False) (\<lambda>at_end.
           if at_end then Inr True
           else bindE (deref s (i + 1)) (\<lambda>d. Inr (\<not> isspace c \<and> isspace d \<or> isspace c \<and> \<not> isspace d))))"

function rex_balance_loop :: "string \<Rightarrow> nat \<Rightarrow> int \<Rightarrow> int \<Rightarrow> int \<Rightarrow> nat \<Rightarrow> rex_error + nat option" where
  "rex_balance_loop s eol cb ce cont i =
     (if i + 1 < eol then
        bindE (deref s (i + 1)) (\<lambda>c.
          if schar c = ce then
            if cont - 1 = 0 then Inr (Some (i + 2)) else rex_balance_loop s eol cb ce (cont - 1) (i + 1)
          else rex_balance_loop s eol cb ce (if schar c = cb then cont + 1 else cont) (i + 1))
      else Inr None)"
  by pat_completeness auto
termination
  by (relation "measure (\<lambda>(s, eol, cb, ce, cont, i). eol - i)") auto

declare rex_balance_loop.simps [simp del]

text \<open>The nodes that do not call \<open>sqstd_rex_matchnode\<close>.\<close>

definition rex_matchleaf :: "rex \<Rightarrow> string \<Rightarrow> rexnode \<Rightarrow> nat \<Rightarrow> rex_error + nat option" where
  "rex_matchleaf e s nd i =
     (if rn_type nd = OP_WB then
        bindE (rex_boundary s (rx_bol e) (rx_eol e) i) (\<lambda>b.
          Inr (if b = (rn_left nd = schar (CHR ''b'')) then Some i else None))
      else if rn_type nd = OP_BOL then Inr (if i = rx_bol e then Some i else None)
      else if rn_type nd = OP_EOL then Inr (if i = rx_eol e then Some i else None)
      else if rn_type nd = OP_DOT then Inr (if i = rx_eol e then None else Some (i + 1))
      else if rn_type nd = OP_NCLASS \<or> rn_type nd = OP_CLASS then
        if i = rx_eol e then Inr None
        else bindE (deref s i) (\<lambda>c. bindE (rex_matchclass (length (rx_nodes e)) (rx_nodes e) (rn_left nd) c) (\<lambda>b.
               Inr (if b = (rn_type nd = OP_CLASS) then Some (i + 1) else None)))
      else if rn_type nd = OP_CCLASS then
        if i = rx_eol e then Inr None
        else bindE (deref s i) (\<lambda>c. Inr (if rex_matchcclass (rn_left nd) c then Some (i + 1) else None))
      else if rn_type nd = OP_MB then
        bindE (deref s i) (\<lambda>c.
          if schar c \<noteq> rn_left nd then Inr None
          else rex_balance_loop s (rx_eol e) (rn_left nd) (rn_right nd) 1 i)
      else if i = rx_eol e then Inr None
      else bindE (deref s i) (\<lambda>c. Inr (if schar c = rn_type nd then Some (i + 1) else None)))"

text \<open>
  Matching changes the index of the current subexpression and the captured matches of the
  expression, which are threaded. A matcher gets a node, a position and the node that
  follows, if any.
\<close>

type_synonym caps = "int \<times> rexmatch list"
type_synonym matcher = "int \<Rightarrow> nat \<Rightarrow> int option \<Rightarrow> caps \<Rightarrow> rex_error + (nat option \<times> caps)"

definition greedy_min :: "rexnode \<Rightarrow> int" where
  "greedy_min nd = (rn_right nd div 65536) mod 65536"

definition greedy_max :: "rexnode \<Rightarrow> int" where
  "greedy_max nd = rn_right nd mod 65536"

definition enough :: "int \<Rightarrow> int \<Rightarrow> int \<Rightarrow> bool" where
  "enough p0 p1 n \<longleftrightarrow> p0 = p1 \<and> p0 = n \<or> n \<ge> p0 \<and> p1 = 0xFFFF \<or> n \<ge> p0 \<and> n \<le> p1"

definition greedy_stops :: "matcher \<Rightarrow> rexnode list \<Rightarrow> int option \<Rightarrow> int option \<Rightarrow> nat \<Rightarrow> caps \<Rightarrow>
    rex_error + (bool \<times> caps)" where
  "greedy_stops m ns greedystop next i st =
     (case greedystop of
        None \<Rightarrow> Inr (False, st)
      | Some g \<Rightarrow>
          bindE (node_at ns g) (\<lambda>gn.
            if rn_type gn \<noteq> OP_GREEDY \<or> greedy_min gn \<noteq> 0 then
              bindE (if rn_next gn \<noteq> - 1 then Inr (Some (rn_next gn))
                     else case next of
                            None \<Rightarrow> Inr None
                          | Some x \<Rightarrow> bindE (node_at ns x) (\<lambda>xn.
                              Inr (if rn_next xn \<noteq> - 1 then Some (rn_next xn) else None))) (\<lambda>gnext.
              bindE (m g i gnext st) (\<lambda>(r, st). Inr (r \<noteq> None, st)))
            else Inr (False, st)))"

function greedy_loop :: "matcher \<Rightarrow> rexnode list \<Rightarrow> nat \<Rightarrow> int \<Rightarrow> int option \<Rightarrow> int option \<Rightarrow> int \<Rightarrow> int \<Rightarrow>
    int \<Rightarrow> nat \<Rightarrow> caps \<Rightarrow> rex_error + ((int \<times> nat) \<times> caps)" where
  "greedy_loop m ns eol left greedystop next p0 p1 nmaches i st =
     (if nmaches = 0xFFFF \<or> nmaches < p1 then
        bindE (m left i greedystop st) (\<lambda>(r, st).
          case r of
            None \<Rightarrow> Inr ((nmaches, i), st)
          | Some j \<Rightarrow>
              bindE (greedy_stops m ns greedystop next j st) (\<lambda>(stop, st).
                if stop \<and> enough p0 p1 (nmaches + 1) then Inr ((nmaches + 1, j), st)
                else if j \<ge> eol then Inr ((nmaches + 1, j), st)
                else greedy_loop m ns eol left greedystop next p0 p1 (nmaches + 1) j st))
      else Inr ((nmaches, i), st))"
  by pat_completeness auto
termination
  by (relation "measure (\<lambda>(m, ns, eol, left, greedystop, next, p0, p1, nmaches, i, st). nat (max p1 0x10000 - nmaches))") auto

declare greedy_loop.simps [simp del]

text \<open>
  The loops over the nodes of an alternative and of a subexpression. They differ in the node
  that they pass on as the following one: none in an alternative; in a subexpression the
  next node of the chain and, for the last one, the node that follows the subexpression.
\<close>

fun chain_loop :: "nat \<Rightarrow> matcher \<Rightarrow> rexnode list \<Rightarrow> (rexnode \<Rightarrow> int option) \<Rightarrow> int \<Rightarrow> nat \<Rightarrow> caps \<Rightarrow>
    rex_error + (nat option \<times> caps)" where
  "chain_loop 0 m ns subnext n i st = Inl Rex_Fuel"
| "chain_loop (Suc k) m ns subnext n i st =
     bindE (node_at ns n) (\<lambda>nd.
     bindE (m n i (subnext nd) st) (\<lambda>(r, st).
       case r of
         None \<Rightarrow> Inr (None, st)
       | Some j \<Rightarrow> if rn_next nd \<noteq> - 1 then chain_loop k m ns subnext (rn_next nd) j st else Inr (Some j, st)))"

definition or_loop :: "matcher \<Rightarrow> rexnode list \<Rightarrow> int \<Rightarrow> nat \<Rightarrow> caps \<Rightarrow> rex_error + (nat option \<times> caps)" where
  "or_loop m ns = chain_loop (length ns) m ns (\<lambda>_. None)"

definition expr_loop :: "matcher \<Rightarrow> rexnode list \<Rightarrow> int option \<Rightarrow> int \<Rightarrow> nat \<Rightarrow> caps \<Rightarrow> rex_error + (nat option \<times> caps)" where
  "expr_loop m ns next = chain_loop (length ns) m ns (\<lambda>nd. if rn_next nd \<noteq> - 1 then Some (rn_next nd) else next)"

text \<open>A capture outside of the array of matches is an overrun; so is a length from a null pointer.\<close>

definition set_match :: "int \<Rightarrow> (rexmatch \<Rightarrow> rexmatch) \<Rightarrow> rexmatch list \<Rightarrow> rex_error + rexmatch list" where
  "set_match i f ms = (if 0 \<le> i \<and> i < int (length ms) then Inr (ms[nat i := f (ms ! nat i)]) else Inl Rex_Overrun)"

definition match_begin :: "int \<Rightarrow> rexmatch list \<Rightarrow> rex_error + nat" where
  "match_begin i ms =
     (if 0 \<le> i \<and> i < int (length ms)
      then case rm_begin (ms ! nat i) of Some b \<Rightarrow> Inr b | None \<Rightarrow> Inl Rex_Overrun
      else Inl Rex_Overrun)"

definition rex_matchexpr :: "matcher \<Rightarrow> rexnode list \<Rightarrow> rexnode \<Rightarrow> nat \<Rightarrow> int option \<Rightarrow> caps \<Rightarrow>
    rex_error + (nat option \<times> caps)" where
  "rex_matchexpr m ns nd i next st =
     (let (cur, ms) = st;
          captures = (rn_type nd \<noteq> OP_NOCAPEXPR \<and> rn_right nd = cur)
      in bindE (if captures then bindE (set_match cur (\<lambda>c. c\<lparr>rm_begin := Some i\<rparr>) ms) (\<lambda>ms. Inr (cur + 1, ms))
                else Inr (cur, ms)) (\<lambda>(tempcap, ms).
         bindE (expr_loop m ns next (rn_left nd) i (tempcap, ms)) (\<lambda>(r, cur', ms).
           case r of
             None \<Rightarrow>
               if captures then bindE (set_match cur (\<lambda>c. no_match) ms) (\<lambda>ms. Inr (None, cur', ms))
               else Inr (None, cur', ms)
           | Some j \<Rightarrow>
               if captures then
                 bindE (match_begin cur ms) (\<lambda>b.
                 bindE (set_match cur (\<lambda>c. c\<lparr>rm_len := int j - int b\<rparr>) ms) (\<lambda>ms. Inr (Some j, tempcap, ms)))
               else Inr (Some j, tempcap, ms))))"

fun rex_matchnode :: "nat \<Rightarrow> rex \<Rightarrow> string \<Rightarrow> matcher" where
  "rex_matchnode 0 e s n i next st = Inl Rex_Fuel"
| "rex_matchnode (Suc f) e s n i next st =
     bindE (node_at (rx_nodes e) n) (\<lambda>nd.
       if rn_type nd = OP_GREEDY then
         bindE (greedy_loop (rex_matchnode f e s) (rx_nodes e) (rx_eol e) (rn_left nd)
                  (if rn_next nd \<noteq> - 1 then Some (rn_next nd) else next) next
                  (greedy_min nd) (greedy_max nd) 0 i st) (\<lambda>((nmaches, good), st).
           Inr (if enough (greedy_min nd) (greedy_max nd) nmaches then Some good else None, st))
       else if rn_type nd = OP_OR then
         bindE (or_loop (rex_matchnode f e s) (rx_nodes e) (rn_left nd) i st) (\<lambda>(r, st).
           case r of
             Some j \<Rightarrow> Inr (Some j, st)
           | None \<Rightarrow> or_loop (rex_matchnode f e s) (rx_nodes e) (rn_right nd) i st)
       else if rn_type nd = OP_EXPR \<or> rn_type nd = OP_NOCAPEXPR then
         rex_matchexpr (rex_matchnode f e s) (rx_nodes e) nd i next st
       else bindE (rex_matchleaf e s nd i) (\<lambda>r. Inr (r, st)))"

section \<open>The interface\<close>

text \<open>The depth of the calls is at most the square of the number of nodes.\<close>

definition rex_fuel :: "rex \<Rightarrow> nat" where
  "rex_fuel e = (length (rx_nodes e) + 1) * (length (rx_nodes e) + 1)"

definition strlen :: "string \<Rightarrow> nat" where
  "strlen s = length (takeWhile (\<lambda>c. c \<noteq> CHR 0x00) s)"

definition sqstd_rex_match :: "string \<Rightarrow> bool rexop" where
  "sqstd_rex_match s e =
     (let e = e\<lparr>rx_bol := 0, rx_eol := strlen s\<rparr>
      in bindE (rex_matchnode (rex_fuel e) e s 0 0 None (0, rx_matches e)) (\<lambda>(res, cur, ms).
           Inr (res = Some (rx_eol e), e\<lparr>rx_currsubexp := cur, rx_matches := ms\<rparr>)))"

text \<open>
  The inner loop of \<open>sqstd_rex_searchrange\<close>, which follows the chain of the first node, and
  the outer loop, which runs once for every position of the text.
\<close>

fun search_chain :: "nat \<Rightarrow> rex \<Rightarrow> string \<Rightarrow> int \<Rightarrow> nat \<Rightarrow> caps \<Rightarrow> rex_error + (nat option \<times> int \<times> caps)" where
  "search_chain 0 e s node cur st = Inl Rex_Fuel"
| "search_chain (Suc k) e s node cur st =
     (if node = - 1 then Inr (Some cur, node, st)
      else bindE (rex_matchnode (rex_fuel e) e s node cur None (0, snd st)) (\<lambda>(r, st).
             case r of
               None \<Rightarrow> Inr (None, node, st)
             | Some cur \<Rightarrow>
                 bindE (node_at (rx_nodes e) node) (\<lambda>nd. search_chain k e s (rn_next nd) cur st)))"

fun search_loop :: "nat \<Rightarrow> rex \<Rightarrow> string \<Rightarrow> int \<Rightarrow> nat \<Rightarrow> caps \<Rightarrow> rex_error + ((nat \<times> nat) option \<times> caps)" where
  "search_loop 0 e s node text_begin st = Inr (None, st)"
| "search_loop (Suc k) e s node text_begin st =
     bindE (search_chain (length (rx_nodes e) + 1) e s node text_begin st) (\<lambda>(cur, node, st).
       case cur of
         Some c \<Rightarrow> Inr (Some (text_begin, c), st)
       | None \<Rightarrow> search_loop k e s node (text_begin + 1) st)"

definition sqstd_rex_searchrange :: "string \<Rightarrow> nat \<Rightarrow> nat \<Rightarrow> (nat \<times> nat) option rexop" where
  "sqstd_rex_searchrange s text_begin text_end e =
     (if text_begin \<ge> text_end then Inr (None, e)
      else
        let e = e\<lparr>rx_bol := text_begin, rx_eol := text_end\<rparr>
        in bindE (search_loop (text_end - text_begin) e s (rx_first e) text_begin (rx_currsubexp e, rx_matches e))
             (\<lambda>(r, cur, ms). Inr (r, e\<lparr>rx_currsubexp := cur, rx_matches := ms\<rparr>)))"

definition sqstd_rex_search :: "string \<Rightarrow> nat \<Rightarrow> (nat \<times> nat) option rexop" where
  "sqstd_rex_search s text e =
     (if text > length s then Inl Rex_Overrun
      else sqstd_rex_searchrange s text (text + strlen (drop text s)) e)"

definition sqstd_rex_getsubexpcount :: "rex \<Rightarrow> int" where
  "sqstd_rex_getsubexpcount e = rx_nsubexpr e"

definition sqstd_rex_getsubexp :: "rex \<Rightarrow> int \<Rightarrow> rexmatch option" where
  "sqstd_rex_getsubexp e n = (if n < 0 \<or> n \<ge> rx_nsubexpr e then None else Some (rx_matches e ! nat n))"

end
