(* ===== verification/Sq_Rex_Correct.thy ===== *)
theory Sq_Rex_Correct
  imports Sq_Rex
begin

text \<open>
  What the matcher of regular expressions guarantees. A compiled expression denotes a
  syntax tree; the matcher ends on it, stays inside of the text, except for the test of a
  word boundary at the end of the text, and answers a match only where the tree, read as
  an ordinary regular expression, matches.
\<close>

section \<open>Syntax trees and their meaning\<close>

datatype citem = CLit int | CRange int int | CCls int

datatype rast =
    RChar int | RDot | REol | RBol | RCls int | RSet bool "citem list" | RWb bool | RMb int int
  | RGroup "rast list" | RAlt "rast list" "rast list" | RRep int int rast

primrec citem_has :: "citem \<Rightarrow> char \<Rightarrow> bool" where
  "citem_has (CLit t) c = (schar c = t)"
| "citem_has (CRange a b) c = (a \<le> schar c \<and> schar c \<le> b)"
| "citem_has (CCls k) c = rex_matchcclass k c"

text \<open>Nesting of opening and closing characters.\<close>

definition nesting :: "int \<Rightarrow> int \<Rightarrow> string \<Rightarrow> int" where
  "nesting cb ce u = (\<Sum>c\<leftarrow>u. (if schar c = ce then - 1 else if schar c = cb then 1 else 0))"

definition substr :: "string \<Rightarrow> nat \<Rightarrow> nat \<Rightarrow> string" where
  "substr s a b = take (b - a) (drop a s)"

text \<open>
  The positions between which a tree matches: the usual meaning of regular expressions. A
  sequence is the composition of the relations of its parts, a repetition an iteration.
\<close>

definition rel_seq :: "(nat \<times> nat) set list \<Rightarrow> (nat \<times> nat) set" where
  "rel_seq rs = foldr (O) rs Id"

primrec sem :: "rex \<Rightarrow> string \<Rightarrow> rast \<Rightarrow> (nat \<times> nat) set" where
  "sem e s (RChar t) = {(a, Suc a) | a. a < rx_eol e \<and> schar (s ! a) = t}"
| "sem e s RDot = {(a, Suc a) | a. a < rx_eol e}"
| "sem e s REol = {(rx_eol e, rx_eol e)}"
| "sem e s RBol = {(rx_bol e, rx_bol e)}"
| "sem e s (RCls k) = {(a, Suc a) | a. a < rx_eol e \<and> rex_matchcclass k (s ! a)}"
| "sem e s (RSet neg cs) = {(a, Suc a) | a. a < rx_eol e \<and> (\<exists>c\<in>set cs. citem_has c (s ! a)) \<noteq> neg}"
| "sem e s (RWb b) = {(a, a) | a. rex_boundary s (rx_bol e) (rx_eol e) a = Inr b}"
| "sem e s (RMb cb ce) = {(a, b). a < b \<and> b \<le> rx_eol e \<and> schar (s ! a) = cb \<and> nesting cb ce (substr s a b) = 0 \<and>
     (\<forall>k. a < k \<and> k < b \<longrightarrow> nesting cb ce (substr s a k) > 0)}"
| "sem e s (RGroup xs) = rel_seq (map (sem e s) xs)"
| "sem e s (RAlt xs ys) = rel_seq (map (sem e s) xs) \<union> rel_seq (map (sem e s) ys)"
| "sem e s (RRep p0 p1 x) = {(a, b). \<exists>n. p0 \<le> int n \<and> (p1 = 0xFFFF \<or> int n \<le> p1) \<and> (a, b) \<in> sem e s x ^^ n}"

lemma rel_seq_simps [simp]: "rel_seq [] = Id" "rel_seq (r # rs) = r O rel_seq rs"
  by (simp_all add: rel_seq_def)

section \<open>The trees that nodes stand for\<close>

text \<open>
  The nodes of a tree are an interval of the node array. \<open>item_is\<close> is the chain of a class.
\<close>

definition citem_is :: "rexnode \<Rightarrow> citem \<Rightarrow> bool" where
  "citem_is nd c \<longleftrightarrow> (\<forall>x. rex_matchitem nd x = citem_has c x)"

inductive items_is :: "rexnode list \<Rightarrow> nat \<Rightarrow> nat \<Rightarrow> nat \<Rightarrow> citem list \<Rightarrow> bool" for ns where
  last_item: "lo \<le> i \<Longrightarrow> i < hi \<Longrightarrow> hi \<le> length ns \<Longrightarrow> citem_is (ns ! i) c \<Longrightarrow> rn_next (ns ! i) = - 1 \<Longrightarrow>
    items_is ns i lo hi [c]"
| more_items: "lo \<le> i \<Longrightarrow> i < hi \<Longrightarrow> hi \<le> length ns \<Longrightarrow> citem_is (ns ! i) c \<Longrightarrow> rn_next (ns ! i) = int j \<Longrightarrow>
    items_is ns j (Suc i) hi cs \<Longrightarrow> items_is ns i lo hi (c # cs)"

definition is_chartype :: "int \<Rightarrow> bool" where
  "is_chartype t \<longleftrightarrow> - 128 \<le> t \<and> t < 128"

inductive node_is :: "rexnode list \<Rightarrow> int \<Rightarrow> nat \<Rightarrow> nat \<Rightarrow> nat \<Rightarrow> rast \<Rightarrow> bool"
and chain_is :: "rexnode list \<Rightarrow> int \<Rightarrow> nat \<Rightarrow> nat \<Rightarrow> nat \<Rightarrow> rast list \<Rightarrow> bool" for ns nsub where
  n_char: "i < length ns \<Longrightarrow> is_chartype (rn_type (ns ! i)) \<Longrightarrow> node_is ns nsub i i (Suc i) (RChar (rn_type (ns ! i)))"
| n_dot: "i < length ns \<Longrightarrow> rn_type (ns ! i) = OP_DOT \<Longrightarrow> node_is ns nsub i i (Suc i) RDot"
| n_eol: "i < length ns \<Longrightarrow> rn_type (ns ! i) = OP_EOL \<Longrightarrow> node_is ns nsub i i (Suc i) REol"
| n_bol: "i < length ns \<Longrightarrow> rn_type (ns ! i) = OP_BOL \<Longrightarrow> node_is ns nsub i i (Suc i) RBol"
| n_cls: "i < length ns \<Longrightarrow> rn_type (ns ! i) = OP_CCLASS \<Longrightarrow> node_is ns nsub i i (Suc i) (RCls (rn_left (ns ! i)))"
| n_set: "i < length ns \<Longrightarrow> rn_type (ns ! i) = (if neg then OP_NCLASS else OP_CLASS) \<Longrightarrow> rn_left (ns ! i) = int j \<Longrightarrow>
    items_is ns j (Suc i) hi cs \<Longrightarrow> node_is ns nsub i i hi (RSet neg cs)"
| n_wb: "i < length ns \<Longrightarrow> rn_type (ns ! i) = OP_WB \<Longrightarrow>
    node_is ns nsub i i (Suc i) (RWb (rn_left (ns ! i) = schar (CHR ''b'')))"
| n_mb: "i < length ns \<Longrightarrow> rn_type (ns ! i) = OP_MB \<Longrightarrow> rn_left (ns ! i) \<noteq> rn_right (ns ! i) \<Longrightarrow>
    node_is ns nsub i i (Suc i) (RMb (rn_left (ns ! i)) (rn_right (ns ! i)))"
| n_group: "i < length ns \<Longrightarrow>
    rn_type (ns ! i) = OP_EXPR \<and> 0 \<le> rn_right (ns ! i) \<and> rn_right (ns ! i) < nsub \<or> rn_type (ns ! i) = OP_NOCAPEXPR \<Longrightarrow>
    rn_left (ns ! i) = int j \<Longrightarrow> chain_is ns nsub j (Suc i) hi xs \<Longrightarrow> node_is ns nsub i i hi (RGroup xs)"
| n_alt: "i < length ns \<Longrightarrow> rn_type (ns ! i) = OP_OR \<Longrightarrow> rn_left (ns ! i) = int j \<Longrightarrow> chain_is ns nsub j lo i xs \<Longrightarrow>
    rn_right (ns ! i) = int k \<Longrightarrow> chain_is ns nsub k (Suc i) hi ys \<Longrightarrow> node_is ns nsub i lo hi (RAlt xs ys)"
| n_rep: "i < length ns \<Longrightarrow> rn_type (ns ! i) = OP_GREEDY \<Longrightarrow> rn_left (ns ! i) = int j \<Longrightarrow> node_is ns nsub j lo i x \<Longrightarrow>
    rn_next (ns ! j) = - 1 \<Longrightarrow>
    node_is ns nsub i lo (Suc i) (RRep (greedy_min (ns ! i)) (greedy_max (ns ! i)) x)"
| c_last: "node_is ns nsub i lo hi x \<Longrightarrow> rn_next (ns ! i) = - 1 \<Longrightarrow> chain_is ns nsub i lo hi [x]"
| c_more: "node_is ns nsub i lo m x \<Longrightarrow> rn_next (ns ! i) = int j \<Longrightarrow> chain_is ns nsub j m hi xs \<Longrightarrow>
    chain_is ns nsub i lo hi (x # xs)"

lemma items_is_bounds: "items_is ns i lo hi cs \<Longrightarrow> lo \<le> i \<and> i < hi \<and> hi \<le> length ns"
  by (induction rule: items_is.induct) auto

lemma node_is_bounds:
  "node_is ns nsub i lo hi x \<Longrightarrow> lo \<le> i \<and> i < hi \<and> hi \<le> length ns"
  "chain_is ns nsub i lo hi xs \<Longrightarrow> lo \<le> i \<and> i < hi \<and> hi \<le> length ns"
  by (induction rule: node_is_chain_is.inducts) (auto dest: items_is_bounds)

lemma items_matchclass:
  "items_is ns i lo hi cs \<Longrightarrow> hi - lo \<le> k \<Longrightarrow> rex_matchclass k ns (int i) c = Inr (\<exists>x\<in>set cs. citem_has x c)"
proof (induction arbitrary: k rule: items_is.induct)
  case (last_item lo i hi x)
  then show ?case by (cases k) (auto simp: node_at_def citem_is_def)
next
  case (more_items lo i hi x j cs)
  then show ?case by (cases k) (auto simp: node_at_def citem_is_def)
qed

section \<open>Balanced matches\<close>

lemma nesting_snoc: "nesting cb ce (u @ [c]) = nesting cb ce u + (if schar c = ce then - 1 else if schar c = cb then 1 else 0)"
  by (simp add: nesting_def)

lemma substr_snoc: "a \<le> b \<Longrightarrow> b < length s \<Longrightarrow> substr s a (Suc b) = substr s a b @ [s ! b]"
  by (simp add: substr_def Suc_diff_le take_Suc_conv_app_nth)

lemma balance_loop:
  "a \<le> i \<Longrightarrow> i < eol \<Longrightarrow> eol \<le> length s \<Longrightarrow> cont = nesting cb ce (substr s a (Suc i)) \<Longrightarrow>
   (\<And>k. a < k \<Longrightarrow> k \<le> Suc i \<Longrightarrow> nesting cb ce (substr s a k) > 0) \<Longrightarrow>
   \<exists>r. rex_balance_loop s eol cb ce cont i = Inr r \<and>
     (\<forall>b. r = Some b \<longrightarrow> a < b \<and> b \<le> eol \<and> nesting cb ce (substr s a b) = 0 \<and>
        (\<forall>k. a < k \<and> k < b \<longrightarrow> nesting cb ce (substr s a k) > 0))"
proof (induction s eol cb ce cont i rule: rex_balance_loop.induct)
  case (1 s eol cb ce cont i)
  note unf = rex_balance_loop.simps [of s eol cb ce cont i]
  show ?case
  proof (cases "i + 1 < eol")
    case True
    let ?c = "s ! (i + 1)"
    have d: "deref s (i + 1) = Inr ?c" using True 1(5) by (simp add: deref_def)
    have n: "nesting cb ce (substr s a (Suc (i + 1))) = cont + (if schar ?c = ce then - 1 else if schar ?c = cb then 1 else 0)"
      using substr_snoc [of a "i + 1" s] True 1(3,5,6) by (simp add: nesting_snoc)
    show ?thesis
    proof (cases "schar ?c = ce \<and> cont = 1")
      case True
      then have "rex_balance_loop s eol cb ce cont i = Inr (Some (i + 2))" unfolding unf using d \<open>i + 1 < eol\<close> True by simp
      moreover have "nesting cb ce (substr s a (i + 2)) = 0" using n True by simp
      ultimately show ?thesis using 1(3,7) \<open>i + 1 < eol\<close> by (auto simp: less_Suc_eq_le)
    next
      case False
      have pos: "cont > 0" using 1(7) [of "Suc i"] 1(3,6) by simp
      have step: "nesting cb ce (substr s a k) > 0" if "a < k" "k \<le> Suc (i + 1)" for k
        using that 1(7) [of k] n False pos by (cases "k = Suc (i + 1)") (auto split: if_splits)
      define cont' where "cont' = cont + (if schar ?c = ce then - 1 else if schar ?c = cb then 1 else 0)"
      have eq: "rex_balance_loop s eol cb ce cont i = rex_balance_loop s eol cb ce cont' (i + 1)"
        unfolding unf cont'_def using True d False by simp
      have "\<exists>r. rex_balance_loop s eol cb ce cont' (i + 1) = Inr r \<and>
          (\<forall>b. r = Some b \<longrightarrow> a < b \<and> b \<le> eol \<and> nesting cb ce (substr s a b) = 0 \<and>
            (\<forall>k. a < k \<and> k < b \<longrightarrow> nesting cb ce (substr s a k) > 0))"
      proof (cases "schar ?c = ce")
        case eqce: True
        then have "cont' = cont - 1" "cont - 1 \<noteq> 0" using False by (auto simp: cont'_def)
        then show ?thesis using 1(1) [OF True d eqce] n step True 1(3,5) by (simp add: cont'_def)
      next
        case nece: False
        then have "cont' = (if schar ?c = cb then cont + 1 else cont)" by (simp add: cont'_def)
        then show ?thesis using 1(2) [OF True d nece] n step True 1(3,5) by (simp add: cont'_def nece)
      qed
      then show ?thesis unfolding eq .
    qed
  qed (simp add: unf)
qed

section \<open>The matcher\<close>

text \<open>
  The subexpressions before the current one keep their matches.
\<close>

definition keeps :: "caps \<Rightarrow> caps \<Rightarrow> bool" where
  "keeps st st' \<longleftrightarrow> fst st \<le> fst st' \<and> length (snd st') = length (snd st) \<and>
     (\<forall>k. int k < fst st \<longrightarrow> snd st' ! k = snd st ! k)"

definition caps_ok :: "int \<Rightarrow> caps \<Rightarrow> bool" where
  "caps_ok nsub st \<longleftrightarrow> 0 \<le> fst st \<and> int (length (snd st)) = nsub"

lemma keeps_refl [simp]: "keeps st st"
  by (simp add: keeps_def)

lemma keeps_trans: "keeps st st' \<Longrightarrow> keeps st' st'' \<Longrightarrow> keeps st st''"
  by (auto simp: keeps_def)

lemma keeps_caps_ok: "caps_ok nsub st \<Longrightarrow> keeps st st' \<Longrightarrow> caps_ok nsub st'"
  by (auto simp: keeps_def caps_ok_def)

text \<open>
  \<open>outcome wb R r\<close>: the only error is the overrun of a word boundary, and a result satisfies \<open>R\<close>.
\<close>

definition outcome :: "bool \<Rightarrow> ('a \<Rightarrow> bool) \<Rightarrow> rex_error + 'a \<Rightarrow> bool" where
  "outcome wb R r \<longleftrightarrow> (case r of Inl err \<Rightarrow> err = Rex_Overrun \<and> wb | Inr x \<Rightarrow> R x)"

lemma outcome_Inr [simp]: "outcome wb R (Inr x) = R x"
  by (simp add: outcome_def)

lemma outcome_bind: "outcome wb Q m \<Longrightarrow> (\<And>x. m = Inr x \<Longrightarrow> Q x \<Longrightarrow> outcome wb R (f x)) \<Longrightarrow> outcome wb R (bindE m f)"
  by (cases m) (auto simp: outcome_def)

lemma outcome_weaken: "outcome wb Q m \<Longrightarrow> (\<And>x. Q x \<Longrightarrow> R x) \<Longrightarrow> outcome wb R m"
  by (cases m) (auto simp: outcome_def)

definition matched :: "rex \<Rightarrow> string \<Rightarrow> (nat \<times> nat) set \<Rightarrow> nat \<Rightarrow> caps \<Rightarrow> nat option \<times> caps \<Rightarrow> bool" where
  "matched e s r a st p \<longleftrightarrow> keeps st (snd p) \<and> (\<forall>b. fst p = Some b \<longrightarrow> (a, b) \<in> r \<and> a \<le> b \<and> b \<le> rx_eol e)"

definition has_wb :: "rex \<Rightarrow> bool" where
  "has_wb e \<longleftrightarrow> (\<exists>nd\<in>set (rx_nodes e). rn_type nd = OP_WB)"

definition text_ok :: "rex \<Rightarrow> string \<Rightarrow> bool" where
  "text_ok e s \<longleftrightarrow> rx_bol e \<le> rx_eol e \<and> rx_eol e \<le> length s"

text \<open>The nodes that do not call the matcher again.\<close>

primrec is_leaf :: "rast \<Rightarrow> bool" where
  "is_leaf (RChar t) = True" | "is_leaf RDot = True" | "is_leaf REol = True" | "is_leaf RBol = True"
| "is_leaf (RCls k) = True" | "is_leaf (RSet n cs) = True" | "is_leaf (RWb b) = True" | "is_leaf (RMb a b) = True"
| "is_leaf (RGroup xs) = False" | "is_leaf (RAlt xs ys) = False" | "is_leaf (RRep a b x) = False"

lemma deref_in: "i \<le> length s \<Longrightarrow> \<exists>c. deref s i = Inr c \<and> (i < length s \<longrightarrow> c = s ! i)"
  by (auto simp: deref_def)

lemma deref_nth: "i < length s \<Longrightarrow> deref s i = Inr (s ! i)"
  by (simp add: deref_def)

lemma boundary_outcome: "i \<le> length s \<Longrightarrow> outcome True (\<lambda>_. True) (rex_boundary s bol eol i)"
  by (auto simp: rex_boundary_def outcome_def deref_def)

lemma matchleaf_outcome:
  assumes "node_is (rx_nodes e) nsub i lo hi x" "is_leaf x" "text_ok e s" "a \<le> rx_eol e"
  shows "outcome (has_wb e) (\<lambda>r. \<forall>b. r = Some b \<longrightarrow> (a, b) \<in> sem e s x \<and> a \<le> b \<and> b \<le> rx_eol e)
           (rex_matchleaf e s (rx_nodes e ! i) a)"
proof -
  let ?nd = "rx_nodes e ! i"
  have eol: "rx_eol e \<le> length s" "a < rx_eol e \<Longrightarrow> deref s a = Inr (s ! a)"
    using assms(3,4) by (auto simp: text_ok_def deref_def)
  have lt: "a \<noteq> rx_eol e \<longleftrightarrow> a < rx_eol e" using assms(4) by auto
  show ?thesis using assms(1)
  proof (cases rule: node_is.cases)
    case n_char
    then have "rn_type ?nd < 256" by (simp add: is_chartype_def)
    then show ?thesis using n_char eol lt by (auto simp: rex_matchleaf_def OP_defs)
  next
    case n_dot
    then show ?thesis using eol lt by (auto simp: rex_matchleaf_def OP_defs)
  next
    case n_eol
    then show ?thesis using assms(4) by (auto simp: rex_matchleaf_def OP_defs)
  next
    case n_bol
    then show ?thesis using assms(3) by (auto simp: rex_matchleaf_def OP_defs text_ok_def)
  next
    case n_cls
    then show ?thesis using eol lt by (auto simp: rex_matchleaf_def OP_defs)
  next
    case (n_set neg j cs)
    have "items_is (rx_nodes e) j (Suc i) hi cs" "hi - Suc i \<le> length (rx_nodes e)"
      using n_set items_is_bounds [OF n_set(6)] by auto
    then have "rex_matchclass (length (rx_nodes e)) (rx_nodes e) (rn_left ?nd) c = Inr (\<exists>x\<in>set cs. citem_has x c)" for c
      using items_matchclass n_set by metis
    then show ?thesis using n_set eol lt by (auto simp: rex_matchleaf_def OP_defs)
  next
    case n_wb
    then have wb: "has_wb e" by (auto simp: has_wb_def)
    have "rex_matchleaf e s ?nd a = bindE (rex_boundary s (rx_bol e) (rx_eol e) a) (\<lambda>b.
        Inr (if b = (rn_left ?nd = schar (CHR ''b'')) then Some a else None))"
      using n_wb by (simp add: rex_matchleaf_def)
    moreover have "outcome True (\<lambda>_. True) (rex_boundary s (rx_bol e) (rx_eol e) a)"
      using boundary_outcome eol(1) assms(4) by simp
    ultimately show ?thesis using n_wb wb assms(4)
      by (cases "rex_boundary s (rx_bol e) (rx_eol e) a") (auto simp: outcome_def)
  next
    case n_mb
    obtain c where c: "deref s a = Inr c" "a < rx_eol e \<Longrightarrow> c = s ! a"
      using deref_in [of a s] eol(1) assms(4) by auto
    have fn: "rex_matchleaf e s ?nd a = (if schar c \<noteq> rn_left ?nd then Inr None
        else rex_balance_loop s (rx_eol e) (rn_left ?nd) (rn_right ?nd) 1 a)"
      using n_mb c by (simp add: rex_matchleaf_def OP_defs)
    show ?thesis
    proof (cases "a < rx_eol e \<and> schar c = rn_left ?nd")
      case True
      have "substr s a (Suc a) = [s ! a]" using True eol(1) by (simp add: substr_def take_Suc_conv_app_nth)
      then have one: "nesting (rn_left ?nd) (rn_right ?nd) (substr s a (Suc a)) = 1"
        using True c n_mb by (simp add: nesting_def)
      obtain r where "rex_balance_loop s (rx_eol e) (rn_left ?nd) (rn_right ?nd) 1 a = Inr r"
        "\<forall>b. r = Some b \<longrightarrow> a < b \<and> b \<le> rx_eol e \<and> nesting (rn_left ?nd) (rn_right ?nd) (substr s a b) = 0 \<and>
          (\<forall>k. a < k \<and> k < b \<longrightarrow> nesting (rn_left ?nd) (rn_right ?nd) (substr s a k) > 0)"
        using balance_loop [of a a "rx_eol e" s 1 "rn_left ?nd" "rn_right ?nd"] True eol(1) one
        by (auto simp: le_Suc_eq)
      then show ?thesis using True fn c n_mb by auto
    next
      case False
      then show ?thesis using fn assms(4)
        by (auto simp: rex_balance_loop.simps [of s "rx_eol e" _ _ 1 a])
    qed
  qed (use assms(2) in auto)
qed

text \<open>\<open>fits m n next r\<close>: on the node \<open>n\<close>, the matcher \<open>m\<close> stays in the relation \<open>r\<close>.\<close>

definition fits :: "rex \<Rightarrow> string \<Rightarrow> int \<Rightarrow> matcher \<Rightarrow> int \<Rightarrow> int option \<Rightarrow> (nat \<times> nat) set \<Rightarrow> bool" where
  "fits e s nsub m n next r \<longleftrightarrow> (\<forall>a st. a \<le> rx_eol e \<longrightarrow> caps_ok nsub st \<longrightarrow>
     outcome (has_wb e) (matched e s r a st) (m n a next st))"

lemma fitsD: "fits e s nsub m n next r \<Longrightarrow> a \<le> rx_eol e \<Longrightarrow> caps_ok nsub st \<Longrightarrow>
    outcome (has_wb e) (matched e s r a st) (m n a next st)"
  unfolding fits_def by blast

lemma greedy_loop_fits:
  assumes left: "fits e s nsub m left stop r"
    and stops: "\<And>a st. a \<le> rx_eol e \<Longrightarrow> caps_ok nsub st \<Longrightarrow>
      outcome (has_wb e) (\<lambda>p. keeps st (snd p)) (greedy_stops m ns stop next a st)"
  shows "a \<le> rx_eol e \<Longrightarrow> caps_ok nsub st \<Longrightarrow>
    outcome (has_wb e) (\<lambda>((n', b), st'). keeps st st' \<and> n \<le> n' \<and> (a, b) \<in> r ^^ nat (n' - n) \<and> a \<le> b \<and> b \<le> rx_eol e)
      (greedy_loop m ns (rx_eol e) left stop next p0 p1 n a st)"
proof (induction "nat (max p1 0x10000 - n)" arbitrary: n a st rule: less_induct)
  case less
  note unf = greedy_loop.simps [of m ns "rx_eol e" left stop "next" p0 p1 n a st]
  show ?case
  proof (cases "n = 0xFFFF \<or> n < p1")
    case True
    show ?thesis unfolding unf if_P [OF True]
    proof (rule outcome_bind [OF fitsD [OF left less.prems]], clarify)
      fix res c ms
      assume mt: "matched e s r a st (res, c, ms)"
      then have st1: "keeps st (c, ms)" "caps_ok nsub (c, ms)"
        using keeps_caps_ok [OF less.prems(2)] by (auto simp: matched_def)
      show "outcome (has_wb e) (\<lambda>((n', b), st'). keeps st st' \<and> n \<le> n' \<and> (a, b) \<in> r ^^ nat (n' - n) \<and> a \<le> b \<and> b \<le> rx_eol e)
        (case res of None \<Rightarrow> Inr ((n, a), c, ms)
         | Some j \<Rightarrow> bindE (greedy_stops m ns stop next j (c, ms)) (\<lambda>(stop', st).
             if stop' \<and> enough p0 p1 (n + 1) then Inr ((n + 1, j), st)
             else if rx_eol e \<le> j then Inr ((n + 1, j), st)
             else greedy_loop m ns (rx_eol e) left stop next p0 p1 (n + 1) j st))"
      proof (cases res)
        case None
        then show ?thesis using st1 less.prems by simp
      next
        case (Some j)
        then have j: "(a, j) \<in> r" "a \<le> j" "j \<le> rx_eol e" using mt by (auto simp: matched_def)
        have one: "(a, j) \<in> r ^^ nat (n + 1 - n)" using j by simp
        show ?thesis unfolding Some option.case
        proof (rule outcome_bind [OF stops [OF j(3) st1(2)]], clarify)
          fix b :: bool and c' ms'
          assume "keeps (c, ms) (snd (b, c', ms'))"
          then have st2: "keeps st (c', ms')" "caps_ok nsub (c', ms')"
            using keeps_trans [OF st1(1)] keeps_caps_ok [OF st1(2)] by auto
          have "nat (max p1 65536 - (n + 1)) < nat (max p1 65536 - n)" using True by auto
          from less.hyps [OF this j(3) st2(2)]
          have rest: "outcome (has_wb e) (\<lambda>((n', b), st'). keeps st st' \<and> n \<le> n' \<and> (a, b) \<in> r ^^ nat (n' - n) \<and> a \<le> b \<and> b \<le> rx_eol e)
              (greedy_loop m ns (rx_eol e) left stop next p0 p1 (n + 1) j (c', ms'))"
          proof (rule outcome_weaken, clarify)
            fix n' b c'' ms''
            assume k: "keeps (c', ms') (c'', ms'')" and le: "n + 1 \<le> n'" and p: "(j, b) \<in> r ^^ nat (n' - (n + 1))"
              and b: "j \<le> b" "b \<le> rx_eol e"
            have "(a, b) \<in> r ^^ Suc (nat (n' - (n + 1)))" using relpow_Suc_I2 [OF j(1) p] .
            moreover have "Suc (nat (n' - (n + 1))) = nat (n' - n)" using le by simp
            ultimately show "keeps st (c'', ms'') \<and> n \<le> n' \<and> (a, b) \<in> r ^^ nat (n' - n) \<and> a \<le> b \<and> b \<le> rx_eol e"
              using keeps_trans [OF st2(1) k] le b j by simp
          qed
          show "outcome (has_wb e) (\<lambda>((n', b), st'). keeps st st' \<and> n \<le> n' \<and> (a, b) \<in> r ^^ nat (n' - n) \<and> a \<le> b \<and> b \<le> rx_eol e)
             (if b \<and> enough p0 p1 (n + 1) then Inr ((n + 1, j), c', ms')
              else if rx_eol e \<le> j then Inr ((n + 1, j), c', ms')
              else greedy_loop m ns (rx_eol e) left stop next p0 p1 (n + 1) j (c', ms'))"
            using st2 j one rest by simp
        qed
      qed
    qed
  next
    case False
    then show ?thesis unfolding unf using less.prems by simp
  qed
qed

text \<open>
  Chains. A matcher that fits every node of a chain, whatever follows it as the code passes
  it, fits the chain.
\<close>

definition next_ok :: "rexnode list \<Rightarrow> int \<Rightarrow> nat \<Rightarrow> int option \<Rightarrow> bool" where
  "next_ok ns nsub hi next \<longleftrightarrow>
     (\<forall>n. next = Some n \<longrightarrow> (\<exists>j lo hi' xs. n = int j \<and> chain_is ns nsub j lo hi' xs \<and> hi \<le> lo))"

definition link_ok :: "rexnode list \<Rightarrow> int \<Rightarrow> nat \<Rightarrow> nat \<Rightarrow> int option \<Rightarrow> bool" where
  "link_ok ns nsub i hi next \<longleftrightarrow> rn_next (ns ! i) \<noteq> - 1 \<longrightarrow>
     (\<exists>j hi' xs. rn_next (ns ! i) = int j \<and> chain_is ns nsub j hi hi' xs) \<and>
     (next = None \<or> next = Some (rn_next (ns ! i)))"

definition fits_within :: "rex \<Rightarrow> string \<Rightarrow> int \<Rightarrow> matcher \<Rightarrow> nat \<Rightarrow> nat \<Rightarrow> bool" where
  "fits_within e s nsub m lo hi \<longleftrightarrow> (\<forall>i lo' hi' x next. lo \<le> lo' \<longrightarrow> hi' \<le> hi \<longrightarrow>
     node_is (rx_nodes e) nsub i lo' hi' x \<longrightarrow> link_ok (rx_nodes e) nsub i hi' next \<longrightarrow>
     next_ok (rx_nodes e) nsub hi' next \<longrightarrow> fits e s nsub m (int i) next (sem e s x))"

lemma fits_withinD:
  "fits_within e s nsub m lo hi \<Longrightarrow> node_is (rx_nodes e) nsub i lo' hi' x \<Longrightarrow> lo \<le> lo' \<Longrightarrow> hi' \<le> hi \<Longrightarrow>
     link_ok (rx_nodes e) nsub i hi' next \<Longrightarrow> next_ok (rx_nodes e) nsub hi' next \<Longrightarrow> fits e s nsub m (int i) next (sem e s x)"
  unfolding fits_within_def by blast

lemma next_ok_None [simp]: "next_ok ns nsub hi None"
  by (simp add: next_ok_def)

lemma next_ok_mono: "next_ok ns nsub hi next \<Longrightarrow> hi' \<le> hi \<Longrightarrow> next_ok ns nsub hi' next"
  unfolding next_ok_def by (fastforce intro: le_trans)

lemma link_ok_last: "rn_next (ns ! i) = - 1 \<Longrightarrow> link_ok ns nsub i hi next"
  by (simp add: link_ok_def)

lemma link_ok_more:
  "rn_next (ns ! i) = int j \<Longrightarrow> chain_is ns nsub j hi hi' xs \<Longrightarrow> next = None \<or> next = Some (int j) \<Longrightarrow>
     link_ok ns nsub i hi next"
  by (auto simp: link_ok_def)

lemma next_ok_Some: "chain_is ns nsub j lo hi' xs \<Longrightarrow> hi \<le> lo \<Longrightarrow> next_ok ns nsub hi (Some (int j))"
  by (auto simp: next_ok_def)

lemma chain_is_cases:
  assumes "chain_is ns nsub i lo hi xs"
  obtains x where "xs = [x]" "node_is ns nsub i lo hi x" "rn_next (ns ! i) = - 1"
  | x m j ys where "xs = x # ys" "node_is ns nsub i lo m x" "rn_next (ns ! i) = int j" "chain_is ns nsub j m hi ys"
  using assms by (cases rule: chain_is.cases) auto

lemma fits_within_mono: "fits_within e s nsub m lo hi \<Longrightarrow> lo \<le> lo' \<Longrightarrow> hi' \<le> hi \<Longrightarrow> fits_within e s nsub m lo' hi'"
  unfolding fits_within_def by (meson le_trans)

lemma matched_seq:
  "(a, b) \<in> r \<Longrightarrow> a \<le> b \<Longrightarrow> keeps st st' \<Longrightarrow> matched e s r' b st' p \<Longrightarrow> matched e s (r O r') a st p"
  by (auto simp: matched_def intro: keeps_trans)

lemma chain_loop_fits:
  assumes "chain_is (rx_nodes e) nsub i lo hi xs" "fits_within e s nsub m lo hi" "hi - lo \<le> k"
    and "a \<le> rx_eol e" "caps_ok nsub st"
    and last: "\<And>nd. rn_next nd = - 1 \<Longrightarrow> next_ok (rx_nodes e) nsub hi (subnext nd)"
    and more: "\<And>nd. rn_next nd \<noteq> - 1 \<Longrightarrow> subnext nd = None \<or> subnext nd = Some (rn_next nd)"
  shows "outcome (has_wb e) (matched e s (rel_seq (map (sem e s) xs)) a st)
    (chain_loop k m (rx_nodes e) subnext (int i) a st)"
  using assms(1-5)
proof (induction k arbitrary: i lo xs a st)
  case 0
  then show ?case using node_is_bounds(2) [OF 0(1)] by simp
next
  case (Suc k)
  let ?nd = "rx_nodes e ! i"
  have at: "node_at (rx_nodes e) (int i) = Inr ?nd"
    using node_is_bounds(2) [OF Suc.prems(1)] by (simp add: node_at_def)
  show ?case using Suc.prems(1)
  proof (cases rule: chain_is_cases)
    case (1 x)
    have "fits e s nsub m (int i) (subnext ?nd) (sem e s x)"
      by (rule fits_withinD [OF Suc.prems(2) 1(2)]) (simp_all add: link_ok_last last 1)
    from fitsD [OF this Suc.prems(4,5)] show ?thesis unfolding chain_loop.simps at bindE.simps
      by (rule outcome_bind) (auto simp: 1 matched_def split: option.splits)
  next
    case (2 x mm j ys)
    have mid: "lo < mm" "mm \<le> hi" using node_is_bounds(1) [OF 2(2)] node_is_bounds(2) [OF 2(4)] by auto
    have sub: "subnext ?nd = None \<or> subnext ?nd = Some (int j)" using more [of ?nd] 2(3) by simp
    then have "next_ok (rx_nodes e) nsub mm (subnext ?nd)" using next_ok_Some [OF 2(4)] by auto
    then have "fits e s nsub m (int i) (subnext ?nd) (sem e s x)"
      by (intro fits_withinD [OF Suc.prems(2) 2(2)]) (use mid link_ok_more [OF 2(3,4) sub] in auto)
    from fitsD [OF this Suc.prems(4,5)] show ?thesis unfolding chain_loop.simps at bindE.simps
    proof (rule outcome_bind, clarify)
      fix res c ms
      assume mt: "matched e s (sem e s x) a st (res, c, ms)"
      show "outcome (has_wb e) (matched e s (rel_seq (map (sem e s) xs)) a st)
        (case res of None \<Rightarrow> Inr (None, c, ms)
         | Some j \<Rightarrow> if rn_next ?nd \<noteq> - 1 then chain_loop k m (rx_nodes e) subnext (rn_next ?nd) j (c, ms)
             else Inr (Some j, c, ms))"
      proof (cases res)
        case None
        then show ?thesis using mt by (simp add: matched_def)
      next
        case (Some b)
        then have b: "(a, b) \<in> sem e s x" "a \<le> b" "b \<le> rx_eol e" "keeps st (c, ms)" using mt by (auto simp: matched_def)
        from Suc.IH [OF 2(4) fits_within_mono [OF Suc.prems(2)] _ b(3) keeps_caps_ok [OF Suc.prems(5) b(4)]] Suc.prems(3) mid
        have "outcome (has_wb e) (matched e s (rel_seq (map (sem e s) ys)) b (c, ms))
            (chain_loop k m (rx_nodes e) subnext (int j) b (c, ms))" by simp
        then have "outcome (has_wb e) (matched e s (rel_seq (map (sem e s) xs)) a st)
            (chain_loop k m (rx_nodes e) subnext (int j) b (c, ms))"
          using matched_seq [OF b(1,2,4)] 2(1) by (auto elim: outcome_weaken)
        then show ?thesis using Some 2(3) by simp
      qed
    qed
  qed
qed

lemma set_match_in: "caps_ok nsub (c, ms) \<Longrightarrow> 0 \<le> k \<Longrightarrow> k < nsub \<Longrightarrow> set_match k f ms = Inr (ms[nat k := f (ms ! nat k)])"
  by (auto simp: set_match_def caps_ok_def)

lemma matchexpr_fits:
  assumes group: "rn_type nd = OP_EXPR \<and> 0 \<le> rn_right nd \<and> rn_right nd < nsub \<or> rn_type nd = OP_NOCAPEXPR"
    and chain: "rn_left nd = int j" "chain_is (rx_nodes e) nsub j lo hi xs" "fits_within e s nsub m lo hi"
    and next_ok: "next_ok (rx_nodes e) nsub hi next" and a: "a \<le> rx_eol e" and st: "caps_ok nsub st"
  shows "outcome (has_wb e) (matched e s (rel_seq (map (sem e s) xs)) a st) (rex_matchexpr m (rx_nodes e) nd a next st)"
proof -
  obtain cur ms where [simp]: "st = (cur, ms)" by (cases st)
  have "hi - lo \<le> length (rx_nodes e)" using node_is_bounds(2) [OF chain(2)] by auto
  then have loop: "outcome (has_wb e) (matched e s (rel_seq (map (sem e s) xs)) a st')
      (expr_loop m (rx_nodes e) next (rn_left nd) a st')" if "caps_ok nsub st'" for st'
    unfolding expr_loop_def chain(1) by (intro chain_loop_fits [OF chain(2,3)]) (use that a next_ok in auto)
  define captures where "captures \<longleftrightarrow> rn_type nd \<noteq> OP_NOCAPEXPR \<and> rn_right nd = cur"
  show ?thesis
  proof (cases captures)
    case False
    then have "rex_matchexpr m (rx_nodes e) nd a next st = bindE (expr_loop m (rx_nodes e) next (rn_left nd) a st)
        (\<lambda>(r, cur', ms). case r of None \<Rightarrow> Inr (None, cur', ms) | Some j \<Rightarrow> Inr (Some j, cur, ms))"
      unfolding captures_def rex_matchexpr_def by (auto simp: case_prod_unfold Let_def cong: option.case_cong)
    then show ?thesis
      by (simp only:) (rule outcome_bind [OF loop [OF st]], auto simp: matched_def keeps_def split: option.splits)
  next
    case True
    have cur: "0 \<le> cur" "cur < nsub" "int (length ms) = nsub"
      using True group st by (auto simp: captures_def caps_ok_def)
    let ?ms = "ms[nat cur := (ms ! nat cur)\<lparr>rm_begin := Some a\<rparr>]"
    have st1: "caps_ok nsub (cur + 1, ?ms)" using cur by (simp add: caps_ok_def)
    have eq: "rex_matchexpr m (rx_nodes e) nd a next st = bindE (expr_loop m (rx_nodes e) next (rn_left nd) a (cur + 1, ?ms))
        (\<lambda>(r, cur', ms). case r of None \<Rightarrow> bindE (set_match cur (\<lambda>c. no_match) ms) (\<lambda>ms. Inr (None, cur', ms))
           | Some j \<Rightarrow> bindE (match_begin cur ms) (\<lambda>b.
               bindE (set_match cur (\<lambda>c. c\<lparr>rm_len := int j - int b\<rparr>) ms) (\<lambda>ms. Inr (Some j, cur + 1, ms))))"
      using True cur st unfolding captures_def rex_matchexpr_def by (simp add: case_prod_unfold set_match_in Let_def cong: option.case_cong)
    show ?thesis unfolding eq
    proof (rule outcome_bind [OF loop [OF st1]], clarify)
      fix r cur' ms'
      assume mt: "matched e s (rel_seq (map (sem e s) xs)) a (cur + 1, ?ms) (r, cur', ms')"
      then have k: "keeps (cur + 1, ?ms) (cur', ms')" by (simp add: matched_def)
      have len: "length ms' = length ms" using k by (simp add: keeps_def)
      have old: "ms' ! k = ms ! k" if "int k < cur" for k using k that by (auto simp: keeps_def)
      have "ms' ! nat cur = ?ms ! nat cur" using k cur by (auto simp: keeps_def)
      then have bg: "match_begin cur ms' = Inr a" using cur len by (simp add: match_begin_def)
      have sm: "set_match cur f ms' = Inr (ms'[nat cur := f (ms' ! nat cur)])" for f
        using cur len by (simp add: set_match_def)
      show "outcome (has_wb e) (matched e s (rel_seq (map (sem e s) xs)) a st)
        (case r of None \<Rightarrow> bindE (set_match cur (\<lambda>c. no_match) ms') (\<lambda>ms. Inr (None, cur', ms))
         | Some j \<Rightarrow> bindE (match_begin cur ms') (\<lambda>b.
             bindE (set_match cur (\<lambda>c. c\<lparr>rm_len := int j - int b\<rparr>) ms') (\<lambda>ms. Inr (Some j, cur + 1, ms))))"
        using mt len old cur k by (auto simp: sm bg matched_def keeps_def split: option.splits)
    qed
  qed
qed

text \<open>The depth that a node needs: it grows with the number of nodes behind it.\<close>

definition depth_of :: "rex \<Rightarrow> nat \<Rightarrow> nat \<Rightarrow> nat" where
  "depth_of e lo hi = (length (rx_nodes e) - lo) * (length (rx_nodes e) + 1) + (hi - lo)"

lemma depth_of_less:
  assumes "lo < lo' \<or> lo = lo' \<and> hi' < hi" "lo' < hi'" "hi' \<le> length (rx_nodes e)"
  shows "depth_of e lo' hi' < depth_of e lo hi"
proof (cases "lo = lo'")
  case True
  then show ?thesis using assms by (auto simp: depth_of_def)
next
  case False
  let ?n = "length (rx_nodes e)"
  have "(?n - lo') * (?n + 1) + (?n + 1) = (?n - lo' + 1) * (?n + 1)" by simp
  also have "\<dots> \<le> (?n - lo) * (?n + 1)" using False assms by (intro mult_right_mono) auto
  finally show ?thesis using assms by (auto simp: depth_of_def)
qed

lemma greedy_stops_fits:
  assumes stop: "next_ok ns nsub hi greedystop" "greedystop = None \<or> next = None \<or> next = greedystop"
    and ns: "ns = rx_nodes e" and fit: "fits_within e s nsub m hi (length ns)"
    and a: "a \<le> rx_eol e" and st: "caps_ok nsub st"
  shows "outcome (has_wb e) (\<lambda>p. keeps st (snd p)) (greedy_stops m ns greedystop next a st)"
proof (cases greedystop)
  case None
  then show ?thesis by (simp add: greedy_stops_def)
next
  case (Some g)
  then obtain j lo hi' xs where j: "g = int j" "chain_is ns nsub j lo hi' xs" "hi \<le> lo"
    using stop(1) by (auto simp: next_ok_def)
  have at: "node_at ns g = Inr (ns ! j)" using node_is_bounds(2) [OF j(2)] j(1) by (simp add: node_at_def)
  define gnext where "gnext = (if rn_next (ns ! j) \<noteq> - 1 then Some (rn_next (ns ! j)) else None)"
  have gn: "(if rn_next (ns ! j) \<noteq> - 1 then Inr (Some (rn_next (ns ! j)))
      else case next of None \<Rightarrow> Inr None
           | Some x \<Rightarrow> bindE (node_at ns x) (\<lambda>xn. Inr (if rn_next xn \<noteq> - 1 then Some (rn_next xn) else None))) = Inr gnext"
    using stop(2) Some at by (auto simp: gnext_def)
  obtain x r where "fits e s nsub m g gnext r"
    using j(2)
  proof (cases rule: chain_is_cases)
    case (1 x)
    have "fits e s nsub m (int j) gnext (sem e s x)"
      using 1 node_is_bounds(1) [OF 1(2)] j(3) ns
      by (intro fits_withinD [OF fit]) (auto simp: gnext_def link_ok_last)
    then show ?thesis using that j(1) by blast
  next
    case (2 x mm k ys)
    have "fits e s nsub m (int j) gnext (sem e s x)"
      using 2 node_is_bounds(1) [OF 2(2)] j(3) ns next_ok_Some [OF 2(4)] link_ok_more [OF 2(3,4)]
      by (intro fits_withinD [OF fit]) (auto simp: gnext_def)
    then show ?thesis using that j(1) by blast
  qed
  from fitsD [OF this a st]
  have "outcome (has_wb e) (\<lambda>p. keeps st (snd p)) (bindE (m g a gnext st) (\<lambda>(r, st). Inr (r \<noteq> None, st)))"
    by (rule outcome_bind) (auto simp: matched_def)
  then show ?thesis unfolding greedy_stops_def Some option.case at bindE.simps gn by simp
qed

lemma sem_repI: "enough p0 p1 n \<Longrightarrow> 0 \<le> n \<Longrightarrow> (a, b) \<in> sem e s y ^^ nat n \<Longrightarrow> (a, b) \<in> sem e s (RRep p0 p1 y)"
  by (auto simp: enough_def intro!: exI [of _ "nat n"])

lemma leaf_type:
  "node_is ns nsub i lo hi x \<Longrightarrow> is_leaf x \<Longrightarrow>
     rn_type (ns ! i) \<noteq> OP_GREEDY \<and> rn_type (ns ! i) \<noteq> OP_OR \<and> rn_type (ns ! i) \<noteq> OP_EXPR \<and> rn_type (ns ! i) \<noteq> OP_NOCAPEXPR"
  by (cases rule: node_is.cases) (auto simp: OP_defs is_chartype_def split: if_splits)

text \<open>
  The main lemma: with enough depth, the matcher fits every node that stands for a tree.
\<close>

lemma matchnode_fits:
  assumes tok: "text_ok e s"
  shows "node_is (rx_nodes e) nsub i lo hi x \<Longrightarrow> link_ok (rx_nodes e) nsub i hi next \<Longrightarrow>
    next_ok (rx_nodes e) nsub hi next \<Longrightarrow> depth_of e lo hi \<le> f \<Longrightarrow>
    fits e s nsub (rex_matchnode f e s) (int i) next (sem e s x)"
proof (induction f arbitrary: i lo hi x "next")
  case 0
  then show ?case using node_is_bounds(1) [OF 0(1)] by (simp add: depth_of_def)
next
  case (Suc f)
  let ?ns = "rx_nodes e" and ?m = "rex_matchnode f e s"
  let ?nd = "?ns ! i"
  have within: "fits_within e s nsub ?m lo' hi'" if "lo < lo' \<or> lo = lo' \<and> hi' < hi" "hi' \<le> length ?ns" for lo' hi'
    unfolding fits_within_def
  proof (intro allI impI)
    fix k l h y nx
    assume *: "lo' \<le> l" "h \<le> hi'" "node_is ?ns nsub k l h y" "link_ok ?ns nsub k h nx" "next_ok ?ns nsub h nx"
    have "depth_of e l h < depth_of e lo hi"
      using that * node_is_bounds(1) [OF *(3)] by (intro depth_of_less) auto
    then show "fits e s nsub ?m (int k) nx (sem e s y)" using Suc.IH [OF *(3-5)] Suc.prems(4) by simp
  qed
  have at: "node_at ?ns (int i) = Inr ?nd" using node_is_bounds(1) [OF Suc.prems(1)] by (simp add: node_at_def)
  have bounds: "lo \<le> i" "i < hi" "hi \<le> length ?ns" using node_is_bounds(1) [OF Suc.prems(1)] by auto
  show ?case unfolding fits_def
  proof (intro allI impI)
    fix a and st :: caps
    assume a: "a \<le> rx_eol e" and st: "caps_ok nsub st"
    show "outcome (has_wb e) (matched e s (sem e s x) a st) (rex_matchnode (Suc f) e s (int i) a next st)"
    proof (cases "is_leaf x")
      case True
      then have "rex_matchnode (Suc f) e s (int i) a next st = bindE (rex_matchleaf e s ?nd a) (\<lambda>r. Inr (r, st))"
        using leaf_type [OF Suc.prems(1)] at by simp
      then show ?thesis
        by (simp only:) (rule outcome_bind [OF matchleaf_outcome [OF Suc.prems(1) True tok a]], simp add: matched_def)
    next
      case False
      from Suc.prems(1) show ?thesis
      proof (cases rule: node_is.cases)
        case (n_group j xs)
        have "rex_matchnode (Suc f) e s (int i) a next st = rex_matchexpr ?m ?ns ?nd a next st"
          using n_group(4) at by (auto simp: OP_defs)
        moreover have "fits_within e s nsub ?m (Suc i) hi" using within [of "Suc i" hi] n_group(1) bounds by simp
        ultimately show ?thesis
          using matchexpr_fits [OF n_group(4-6) _ Suc.prems(3) a st] n_group(2) by simp
      next
        case (n_alt j xs k ys)
        have eq: "rex_matchnode (Suc f) e s (int i) a next st = bindE (or_loop ?m ?ns (int j) a st) (\<lambda>(r, st).
            case r of Some j \<Rightarrow> Inr (Some j, st) | None \<Rightarrow> or_loop ?m ?ns (int k) a st)"
          using n_alt at by (simp add: OP_defs cong: option.case_cong)
        have l: "fits_within e s nsub ?m lo i" and r: "fits_within e s nsub ?m (Suc i) hi"
          using within [of lo i] within [of "Suc i" hi] bounds by auto
        have left: "outcome (has_wb e) (matched e s (rel_seq (map (sem e s) xs)) a st') (or_loop ?m ?ns (int j) a st')"
          if "caps_ok nsub st'" for st'
          unfolding or_loop_def by (rule chain_loop_fits [OF n_alt(5) l]) (use bounds a that in auto)
        have right: "outcome (has_wb e) (matched e s (rel_seq (map (sem e s) ys)) a st') (or_loop ?m ?ns (int k) a st')"
          if "caps_ok nsub st'" for st'
          unfolding or_loop_def by (rule chain_loop_fits [OF n_alt(7) r]) (use bounds a that in auto)
        show ?thesis unfolding eq
        proof (rule outcome_bind [OF left [OF st]], clarify)
          fix res c ms
          assume mt: "matched e s (rel_seq (map (sem e s) xs)) a st (res, c, ms)"
          then have k: "keeps st (c, ms)" by (simp add: matched_def)
          have "outcome (has_wb e) (matched e s (sem e s x) a st) (or_loop ?m ?ns (int k) a (c, ms))"
            by (rule outcome_weaken [OF right [OF keeps_caps_ok [OF st k]]])
              (use n_alt(1) k in \<open>auto simp: matched_def intro: keeps_trans\<close>)
          then show "outcome (has_wb e) (matched e s (sem e s x) a st)
              (case res of None \<Rightarrow> or_loop ?m ?ns (int k) a (c, ms) | Some j \<Rightarrow> Inr (Some j, c, ms))"
            using mt n_alt(1) by (auto simp: matched_def split: option.splits)
        qed
      next
        case (n_rep j y)
        define stop where "stop = (if rn_next ?nd \<noteq> - 1 then Some (rn_next ?nd) else next)"
        have eq: "rex_matchnode (Suc f) e s (int i) a next st =
            bindE (greedy_loop ?m ?ns (rx_eol e) (int j) stop next (greedy_min ?nd) (greedy_max ?nd) 0 a st)
              (\<lambda>((n, good), st). Inr (if enough (greedy_min ?nd) (greedy_max ?nd) n then Some good else None, st))"
          using n_rep at by (simp add: stop_def)
        have stop: "next_ok ?ns nsub hi stop" "stop = None \<or> next = None \<or> next = stop"
          using Suc.prems(2,3) by (auto simp: stop_def link_ok_def next_ok_def)
        have "fits_within e s nsub ?m lo i" using within [of lo i] bounds by auto
        then have left: "fits e s nsub ?m (int j) stop (sem e s y)"
          using n_rep(6,7) next_ok_mono [OF stop(1), of i] bounds
          by (intro fits_withinD [where lo = lo and hi = i and lo' = lo and hi' = i])
            (auto simp: link_ok_last)
        have "fits_within e s nsub ?m hi (length ?ns)" using within [of hi "length ?ns"] bounds by auto
        note stops = greedy_stops_fits [OF stop refl this]
        show ?thesis unfolding eq
          by (rule outcome_bind [OF greedy_loop_fits [OF left stops a st]])
            (use n_rep(2) in \<open>auto simp: matched_def simp del: sem.simps intro: sem_repI split: if_splits\<close>)
      qed (use False in auto)
    qed
  qed
qed

end
