(* ===== verification/Sq_Rex_Parser.thy ===== *)
theory Sq_Rex_Parser
  imports Sq_Rex_Correct
begin

text \<open>
  The parser of regular expressions: an accepted pattern is a sentence of the grammar
  below, the nodes stand for the syntax tree that the grammar gives it, and parsing always
  ends.
\<close>

section \<open>The grammar of patterns\<close>

inductive g_char :: "bool \<Rightarrow> string \<Rightarrow> rast \<Rightarrow> bool" for isclass where
  g_plain: "isprint c \<Longrightarrow> c \<noteq> CHR 0x5C \<Longrightarrow> g_char isclass [c] (RChar (schar c))"
| g_escape: "escape_table d = Some x \<Longrightarrow> g_char isclass [CHR 0x5C, d] (RChar (schar x))"
| g_class: "class_letter d \<Longrightarrow> g_char isclass [CHR 0x5C, d] (RCls (schar d))"
| g_balanced: "cb \<noteq> ce \<Longrightarrow> g_char isclass [CHR 0x5C, CHR ''m'', cb, ce] (RMb (schar cb) (schar ce))"
| g_boundary: "d = CHR ''b'' \<or> d = CHR ''B'' \<Longrightarrow> \<not> isclass \<Longrightarrow> g_char isclass [CHR 0x5C, d] (RWb (d = CHR ''b''))"
| g_quoted: "escape_table d = None \<Longrightarrow> \<not> class_letter d \<Longrightarrow> d \<noteq> CHR ''m'' \<Longrightarrow>
    (d = CHR ''b'' \<or> d = CHR ''B'' \<Longrightarrow> isclass) \<Longrightarrow> g_char isclass [CHR 0x5C, d] (RChar (schar d))"

text \<open>The end of a range, and the items of a class; the flag tells that a range may follow.\<close>

inductive g_bound :: "string \<Rightarrow> char \<Rightarrow> bool" where
  b_plain: "isprint c \<Longrightarrow> c \<noteq> CHR 0x5C \<Longrightarrow> g_bound [c] c"
| b_escape: "g_bound [CHR 0x5C, d] (case escape_table d of Some x \<Rightarrow> x | None \<Rightarrow> d)"

primrec as_item :: "rast \<Rightarrow> citem" where
  "as_item (RChar t) = CLit t" | "as_item RDot = CLit OP_DOT" | "as_item REol = CLit OP_EOL" | "as_item RBol = CLit OP_BOL"
| "as_item (RCls k) = CCls k" | "as_item (RSet n cs) = CLit OP_CLASS" | "as_item (RWb b) = CLit OP_WB"
| "as_item (RMb a b) = CLit OP_MB" | "as_item (RGroup xs) = CLit OP_EXPR" | "as_item (RAlt xs ys) = CLit OP_OR"
| "as_item (RRep a b x) = CLit OP_GREEDY"

inductive g_items :: "bool \<Rightarrow> string \<Rightarrow> citem list \<Rightarrow> bool" where
  i_none: "g_items False [] []"
| i_char: "g_items p w cs \<Longrightarrow> g_char True u x \<Longrightarrow> hd u \<noteq> CHR '']'' \<Longrightarrow> (p \<Longrightarrow> hd u \<noteq> CHR ''-'') \<Longrightarrow>
    g_items True (w @ u) (cs @ [as_item x])"
| i_range: "g_items True w (cs @ [CLit a]) \<Longrightarrow> g_bound v c \<Longrightarrow> a \<le> schar (hd v) \<Longrightarrow>
    g_items False (w @ CHR ''-'' # v) (cs @ [CRange a (schar c)])"

text \<open>Quantifiers; the numbers are cut to 16 bits.\<close>

definition digits :: "string \<Rightarrow> bool" where
  "digits ds \<longleftrightarrow> ds \<noteq> [] \<and> (\<forall>c\<in>set ds. isdigit c)"

definition number16 :: "string \<Rightarrow> int" where
  "number16 ds = dec_value ds 0 mod 65536"

inductive g_quant :: "string \<Rightarrow> (int \<times> int) option \<Rightarrow> bool" where
  q_none: "g_quant [] None"
| q_star: "g_quant ''*'' (Some (0, 0xFFFF))"
| q_plus: "g_quant ''+'' (Some (1, 0xFFFF))"
| q_opt: "g_quant ''?'' (Some (0, 1))"
| q_exact: "digits ds \<Longrightarrow> g_quant (''{'' @ ds @ ''}'') (Some (number16 ds, number16 ds))"
| q_min: "digits ds \<Longrightarrow> g_quant (''{'' @ ds @ '',}'') (Some (number16 ds, 0xFFFF))"
| q_range: "digits ds \<Longrightarrow> digits ds' \<Longrightarrow> g_quant (''{'' @ ds @ '','' @ ds' @ ''}'') (Some (number16 ds, number16 ds'))"

fun quantify :: "(int \<times> int) option \<Rightarrow> rast \<Rightarrow> rast" where
  "quantify None x = x"
| "quantify (Some (p0, p1)) x = RRep p0 p1 x"

inductive g_atom :: "string \<Rightarrow> rast \<Rightarrow> bool"
and g_elems :: "string \<Rightarrow> rast list \<Rightarrow> bool"
and g_branch :: "string \<Rightarrow> rast list \<Rightarrow> bool"
and g_list :: "string \<Rightarrow> rast list \<Rightarrow> bool" where
  a_group: "g_list u xs \<Longrightarrow> hd u \<noteq> CHR ''?'' \<Longrightarrow> g_atom (''('' @ u @ '')'') (RGroup xs)"
| a_nocap: "g_list u xs \<Longrightarrow> g_atom (''(?:'' @ u @ '')'') (RGroup xs)"
| a_class: "g_items p u cs \<Longrightarrow> u \<noteq> [] \<Longrightarrow> hd u \<noteq> CHR ''^'' \<Longrightarrow> g_atom (''['' @ u @ '']'') (RSet False cs)"
| a_nclass: "g_items p u cs \<Longrightarrow> u \<noteq> [] \<Longrightarrow> g_atom (''[^'' @ u @ '']'') (RSet True cs)"
| a_eol: "g_atom ''$'' REol"
| a_dot: "g_atom ''.'' RDot"
| a_char: "g_char False u x \<Longrightarrow> hd u \<notin> set ''([$.'' \<Longrightarrow> g_atom u x"
| e_one: "g_atom u x \<Longrightarrow> g_quant q b \<Longrightarrow> g_elems (u @ q) [quantify b x]"
| e_more: "g_atom u x \<Longrightarrow> g_quant q b \<Longrightarrow> g_elems v ys \<Longrightarrow> \<not> ends_element (hd v) \<Longrightarrow>
    (q = [] \<Longrightarrow> hd v \<noteq> CHR ''?'' \<and> hd v \<noteq> CHR ''{'') \<Longrightarrow> g_elems (u @ q @ v) (quantify b x # ys)"
| b_elems: "g_elems u xs \<Longrightarrow> hd u \<noteq> CHR ''^'' \<Longrightarrow> g_branch u xs"
| b_bol: "g_elems u xs \<Longrightarrow> g_branch (''^'' @ u) (RBol # xs)"
| l_one: "g_branch u xs \<Longrightarrow> g_list u xs"
| l_alt: "g_branch u xs \<Longrightarrow> g_list v ys \<Longrightarrow> g_list (u @ ''|'' @ v) [RAlt xs ys]"

section \<open>Reasoning about the parser\<close>

definition parses :: "string \<Rightarrow> 'a rexop \<Rightarrow> rex \<Rightarrow> ('a \<Rightarrow> rex \<Rightarrow> bool) \<Rightarrow> bool" where
  "parses pat m e Q \<longleftrightarrow> (case m e of
      Inl err \<Rightarrow> err \<noteq> Rex_Fuel \<and> (err = Rex_Overrun \<longrightarrow> CHR 0x5C \<in> set pat)
    | Inr (x, e') \<Rightarrow> Q x e')"

lemma parses_pbind: "parses pat m e (\<lambda>x e'. parses pat (f x) e' Q) \<Longrightarrow> parses pat (pbind m f) e Q"
  by (auto simp: parses_def pbind_def split: sum.splits)

lemma parses_conseq: "parses pat m e Q' \<Longrightarrow> (\<And>x e'. Q' x e' \<Longrightarrow> Q x e') \<Longrightarrow> parses pat m e Q"
  by (auto simp: parses_def split: sum.splits)

lemma parses_then:
  "parses pat m e Q' \<Longrightarrow> (\<And>x e'. Q' x e' \<Longrightarrow> parses pat (f x) e' Q) \<Longrightarrow> parses pat (pbind m f) e Q"
  by (rule parses_pbind) (rule parses_conseq)

lemma parses_error [simp]: "parses pat (sqstd_rex_error err) e Q"
  by (simp add: parses_def rex_fail_def)

lemma parses_return [simp]: "parses pat (preturn x) e Q = Q x e"
  by (simp add: parses_def preturn_def)

lemma parses_adv [simp]: "parses pat adv e Q = Q () (e\<lparr>rx_p := rx_p e + 1\<rparr>)"
  by (simp add: parses_def adv_def)

lemma parses_peek: "rx_p e \<le> length pat \<Longrightarrow> Q (if rx_p e < length pat then pat ! rx_p e else CHR 0x00) e \<Longrightarrow>
    parses pat (peek pat) e Q"
  by (auto simp: parses_def peek_def deref_def)

lemma parses_peek_any: "(rx_p e > length pat \<Longrightarrow> CHR 0x5C \<in> set pat) \<Longrightarrow>
    (rx_p e \<le> length pat \<Longrightarrow> Q (if rx_p e < length pat then pat ! rx_p e else CHR 0x00) e) \<Longrightarrow> parses pat (peek pat) e Q"
  by (auto simp: parses_def peek_def deref_def)

definition at_char :: "string \<Rightarrow> nat \<Rightarrow> char" where
  "at_char pat p = (if p < length pat then pat ! p else CHR 0x00)"

lemma at_char_in: "at_char pat p \<noteq> CHR 0x00 \<Longrightarrow> p < length pat \<and> pat ! p = at_char pat p \<and> at_char pat p \<in> set pat"
  by (auto simp: at_char_def split: if_splits)

lemma parses_adv_bind: "parses pat (f ()) (e\<lparr>rx_p := rx_p e + 1\<rparr>) Q \<Longrightarrow> parses pat (pbind adv f) e Q"
  by (rule parses_pbind) simp

lemma parses_peek_bind: "rx_p e \<le> length pat \<Longrightarrow> parses pat (f (at_char pat (rx_p e))) e Q \<Longrightarrow> parses pat (pbind (peek pat) f) e Q"
  by (rule parses_pbind) (auto simp: at_char_def intro: parses_peek)

lemma parses_peek_bind_any: "(rx_p e > length pat \<Longrightarrow> CHR 0x5C \<in> set pat) \<Longrightarrow>
    (rx_p e \<le> length pat \<Longrightarrow> parses pat (f (at_char pat (rx_p e))) e Q) \<Longrightarrow> parses pat (pbind (peek pat) f) e Q"
  by (rule parses_pbind) (auto simp: at_char_def intro: parses_peek_any)

text \<open>What parsing does to the nodes: it adds nodes.\<close>

definition alloc_ok :: "rex \<Rightarrow> bool" where
  "alloc_ok e \<longleftrightarrow> 1 \<le> rx_nallocated e \<and> int (length (rx_nodes e)) \<le> rx_nallocated e \<and> 0 \<le> rx_nsubexpr e"

definition grown :: "rex \<Rightarrow> rex \<Rightarrow> rexnode list \<Rightarrow> bool" where
  "grown e e' new \<longleftrightarrow> rx_nodes e' = rx_nodes e @ new \<and> alloc_ok e' \<and> rx_nsubexpr e \<le> rx_nsubexpr e' \<and>
     rx_first e' = rx_first e"

lemma grown_refl: "alloc_ok e \<Longrightarrow> grown e e []"
  by (simp add: grown_def)

lemma grown_trans: "grown e e' new \<Longrightarrow> grown e' e'' new' \<Longrightarrow> grown e e'' (new @ new')"
  by (auto simp: grown_def)

lemma grown_alloc: "grown e e' new \<Longrightarrow> alloc_ok e'"
  by (simp add: grown_def)

lemma grown_p [simp]: "grown (e\<lparr>rx_p := p\<rparr>) e' new = grown e e' new" "grown e (e'\<lparr>rx_p := p\<rparr>) new = grown e e' new"
  by (auto simp: grown_def alloc_ok_def)

definition fresh_node :: "int \<Rightarrow> int \<Rightarrow> rexnode" where
  "fresh_node ty nsub = \<lparr>rn_type = ty, rn_left = - 1, rn_right = (if ty = OP_EXPR then nsub else - 1), rn_next = - 1\<rparr>"

lemma parses_newnode:
  assumes "alloc_ok e"
    and "\<And>e'. grown e e' [fresh_node ty (rx_nsubexpr e)] \<Longrightarrow> rx_p e' = rx_p e \<Longrightarrow>
      rx_nsubexpr e' = rx_nsubexpr e + (if ty = OP_EXPR then 1 else 0) \<Longrightarrow> Q (int (length (rx_nodes e))) e'"
  shows "parses pat (rex_newnode ty) e Q"
proof -
  let ?n = "int (length (rx_nodes e))"
  define al where "al = (if rx_nallocated e < ?n + 1 then rx_nallocated e * 2 else rx_nallocated e)"
  have al: "?n < al" "1 \<le> al" using assms(1) by (auto simp: al_def alloc_ok_def)
  define e' where "e' = e\<lparr>rx_nodes := rx_nodes e @ [fresh_node ty (rx_nsubexpr e)], rx_nallocated := al,
    rx_nsubexpr := (if ty = OP_EXPR then rx_nsubexpr e + 1 else rx_nsubexpr e)\<rparr>"
  have "rex_newnode ty e = Inr (?n, e')"
    unfolding rex_newnode_def Let_def al_def [symmetric] e'_def fresh_node_def using al(1) by simp
  moreover have "grown e e' [fresh_node ty (rx_nsubexpr e)]" "rx_p e' = rx_p e"
    "rx_nsubexpr e' = rx_nsubexpr e + (if ty = OP_EXPR then 1 else 0)"
    using assms(1) al by (auto simp: e'_def grown_def alloc_ok_def)
  ultimately show ?thesis using assms(2) by (simp add: parses_def)
qed

lemma parses_upd:
  assumes "grown e0 e new" "length (rx_nodes e0) \<le> j" "j < length (rx_nodes e)"
    and "\<And>e'. grown e0 e' (new[j - length (rx_nodes e0) := g (rx_nodes e ! j)]) \<Longrightarrow> rx_p e' = rx_p e \<Longrightarrow>
      rx_nsubexpr e' = rx_nsubexpr e \<Longrightarrow> rx_nodes e' = (rx_nodes e)[j := g (rx_nodes e ! j)] \<Longrightarrow> Q () e'"
  shows "parses pat (upd_node (int j) g) e Q"
proof -
  let ?e = "e\<lparr>rx_nodes := (rx_nodes e)[j := g (rx_nodes e ! j)]\<rparr>"
  have "upd_node (int j) g e = Inr ((), ?e)" using assms(3) by (simp add: upd_node_def node_at_def)
  moreover have "grown e0 ?e (new[j - length (rx_nodes e0) := g (rx_nodes e ! j)])"
    using assms(1-3) by (auto simp: grown_def alloc_ok_def list_update_append)
  ultimately show ?thesis using assms(4) by (simp add: parses_def)
qed

lemma parses_get: "j < length (rx_nodes e) \<Longrightarrow> Q (rx_nodes e ! j) e \<Longrightarrow> parses pat (get_node (int j)) e Q"
  by (simp add: parses_def get_node_def node_at_def)

lemma substr_append: "p \<le> q \<Longrightarrow> q \<le> r \<Longrightarrow> substr s p q @ substr s q r = substr s p r"
proof -
  assume "p \<le> q" "q \<le> r"
  then have "r - p = (q - p) + (r - q)" "drop (q - p) (drop p s) = drop q s" by auto
  then show ?thesis by (simp add: substr_def take_add)
qed

lemma substr_one: "p < length s \<Longrightarrow> substr s p (Suc p) = [s ! p]"
  by (simp add: substr_def take_Suc_conv_app_nth)

lemma substr_Cons: "p < q \<Longrightarrow> p < length s \<Longrightarrow> substr s p q = s ! p # substr s (Suc p) q"
  using substr_append [of p "Suc p" q s] by (simp add: substr_one)

lemma substr_nil [simp]: "substr s p p = []"
  by (simp add: substr_def)

section \<open>Characters and classes\<close>

text \<open>A node that stands for a tree by itself.\<close>

definition leaf_is :: "rexnode \<Rightarrow> rast \<Rightarrow> bool" where
  "leaf_is nd x \<longleftrightarrow> rn_next nd = - 1 \<and> (\<forall>ns nsub i. i < length ns \<longrightarrow> ns ! i = nd \<longrightarrow> node_is ns nsub i i (Suc i) x)
     \<and> citem_is nd (as_item x) \<and> (\<forall>t. as_item x = CLit t \<longrightarrow> rn_type nd = t) \<and> (\<forall>k. as_item x = CCls k \<longrightarrow> rn_type nd = OP_CCLASS)"

lemma schar_range: "is_chartype (schar c)"
  using sint_greater_eq [of "of_char c :: byte"] sint_less [of "of_char c :: byte"] by (simp add: schar_def is_chartype_def)

lemma schar_eq [simp]: "schar c = schar d \<longleftrightarrow> c = d"
proof
  assume "schar c = schar d"
  then have "(of_char c :: byte) = of_char d" unfolding schar_def by (rule signed_word_eqI)
  moreover have "unat (of_char x :: byte) = of_char x" for x
  proof -
    have "(of_char x :: byte) = of_nat (of_char x)" by (simp add: of_char_def)
    then show ?thesis using nat_of_char_less_256 [of x] by (simp add: unat_of_nat)
  qed
  ultimately have "(of_char c :: nat) = of_char d" by metis
  then show "c = d" by simp
qed simp

lemma leaf_char: "is_chartype t \<Longrightarrow> leaf_is (fresh_node t nsub) (RChar t)"
  by (auto simp: leaf_is_def fresh_node_def citem_is_def rex_matchitem_def is_chartype_def OP_defs
      intro: n_char [simplified is_chartype_def, THEN back_subst [of "node_is _ _ _ _ _"]])

lemma leaf_nodes:
  "leaf_is (fresh_node OP_DOT nsub) RDot" "leaf_is (fresh_node OP_EOL nsub) REol" "leaf_is (fresh_node OP_BOL nsub) RBol"
  "leaf_is ((fresh_node OP_CCLASS nsub)\<lparr>rn_left := k\<rparr>) (RCls k)"
  "leaf_is ((fresh_node OP_WB nsub)\<lparr>rn_left := k\<rparr>) (RWb (k = schar (CHR ''b'')))"
  "l \<noteq> r \<Longrightarrow> leaf_is ((fresh_node OP_MB nsub)\<lparr>rn_left := l, rn_right := r\<rparr>) (RMb l r)"
       apply (auto simp: leaf_is_def fresh_node_def citem_is_def rex_matchitem_def OP_defs
         intro: n_dot n_eol n_bol n_cls [THEN back_subst [of "node_is _ _ _ _ _"]] n_wb [THEN back_subst [of "node_is _ _ _ _ _"]]
           n_mb [THEN back_subst [of "node_is _ _ _ _ _"]])
  done

definition new_leaf :: "rex \<Rightarrow> int \<Rightarrow> rex \<Rightarrow> rast \<Rightarrow> bool" where
  "new_leaf e i e' x \<longleftrightarrow> (\<exists>nd. grown e e' [nd] \<and> i = int (length (rx_nodes e)) \<and> leaf_is nd x)"

lemma parses_leaf:
  assumes "alloc_ok e" "leaf_is (g (fresh_node ty (rx_nsubexpr e))) x"
    and "\<And>e'. new_leaf e (int (length (rx_nodes e))) e' x \<Longrightarrow> rx_p e' = rx_p e \<Longrightarrow> parses pat (f (int (length (rx_nodes e)))) e' Q"
  shows "parses pat (pbind (rex_newnode ty) (\<lambda>n. pbind (upd_node n g) (\<lambda>_. f n))) e Q"
proof (rule parses_pbind, rule parses_newnode [OF assms(1)])
  fix e1
  assume e1: "grown e e1 [fresh_node ty (rx_nsubexpr e)]" "rx_p e1 = rx_p e"
  then have at: "rx_nodes e1 ! length (rx_nodes e) = fresh_node ty (rx_nsubexpr e)"
    "length (rx_nodes e) < length (rx_nodes e1)" by (auto simp: grown_def)
  show "parses pat (pbind (upd_node (int (length (rx_nodes e))) g) (\<lambda>_. f (int (length (rx_nodes e))))) e1 Q"
  proof (rule parses_pbind, rule parses_upd [OF e1(1) order_refl at(2)])
    fix e2
    assume "grown e e2 ([fresh_node ty (rx_nsubexpr e)][length (rx_nodes e) - length (rx_nodes e) := g (rx_nodes e1 ! length (rx_nodes e))])"
      and p: "rx_p e2 = rx_p e1"
    then have "new_leaf e (int (length (rx_nodes e))) e2 x" using assms(2) by (auto simp: new_leaf_def at(1))
    then show "parses pat (f (int (length (rx_nodes e)))) e2 Q" using assms(3) p e1(2) by simp
  qed
qed

lemma parses_char:
  assumes "alloc_ok e" "leaf_is (fresh_node ty (rx_nsubexpr e)) x"
    and "\<And>e'. new_leaf e (int (length (rx_nodes e))) e' x \<Longrightarrow> rx_p e' = rx_p e \<Longrightarrow> Q (int (length (rx_nodes e))) e'"
  shows "parses pat (rex_newnode ty) e Q"
  by (rule parses_newnode [OF assms(1)]) (use assms(2,3) in \<open>auto simp: new_leaf_def\<close>)

lemma new_leaf_p [simp]: "new_leaf (e\<lparr>rx_p := p\<rparr>) i e' x = new_leaf e i e' x" "new_leaf e i (e'\<lparr>rx_p := p\<rparr>) x = new_leaf e i e' x"
  by (simp_all add: new_leaf_def)

lemma alloc_ok_p [simp]: "alloc_ok (e\<lparr>rx_p := p\<rparr>) = alloc_ok e"
  by (simp add: alloc_ok_def)

lemma substr_two: "Suc p < length s \<Longrightarrow> substr s p (Suc (Suc p)) = [s ! p, s ! Suc p]"
  by (simp add: substr_Cons)

lemma parses_balanced:
  assumes e: "alloc_ok e" "rx_p e < length pat" "CHR 0x5C \<in> set pat"
  shows "parses pat (rex_balanced pat) e (\<lambda>i e'. \<exists>cb ce. new_leaf e i e' (RMb (schar cb) (schar ce)) \<and> cb \<noteq> ce \<and>
    substr pat (rx_p e) (rx_p e') = [pat ! rx_p e, cb, ce] \<and> rx_p e < rx_p e' \<and> rx_p e' \<le> length pat)"
proof -
  let ?p = "rx_p e"
  define cb where "cb = at_char pat (?p + 1)"
  define ce where "ce = at_char pat (?p + 2)"
  let ?Q = "\<lambda>i e'. \<exists>cb ce. new_leaf e i e' (RMb (schar cb) (schar ce)) \<and> cb \<noteq> ce \<and>
    substr pat ?p (rx_p e') = [pat ! ?p, cb, ce] \<and> ?p < rx_p e' \<and> rx_p e' \<le> length pat"
  have "parses pat (if cb = CHR 0x00 \<or> ce = CHR 0x00 then sqstd_rex_error ''balanced chars expected''
       else if cb = ce then sqstd_rex_error (''open/close char can'' @ [CHR 0x27] @ ''t be the same'')
       else pbind (rex_newnode OP_MB) (\<lambda>node.
              pbind (upd_node node (\<lambda>nd. nd\<lparr>rn_left := schar cb, rn_right := schar ce\<rparr>)) (\<lambda>_. preturn node)))
      (e\<lparr>rx_p := ?p + 3\<rparr>) ?Q"
  proof (cases "cb = CHR 0x00 \<or> ce = CHR 0x00 \<or> cb = ce")
    case False
    then have in_pat: "?p + 1 < length pat" "pat ! (?p + 1) = cb" "?p + 2 < length pat" "pat ! (?p + 2) = ce"
      using at_char_in [of pat "?p + 1"] at_char_in [of pat "?p + 2"] by (auto simp: cb_def ce_def)
    have "substr pat ?p (?p + 3) = [pat ! ?p, cb, ce]"
      using in_pat e(2) by (simp add: substr_Cons eval_nat_numeral)
    moreover have "schar cb \<noteq> schar ce" using False by simp
    ultimately have "parses pat (pbind (rex_newnode OP_MB) (\<lambda>node.
              pbind (upd_node node (\<lambda>nd. nd\<lparr>rn_left := schar cb, rn_right := schar ce\<rparr>)) (\<lambda>_. preturn node)))
        (e\<lparr>rx_p := ?p + 3\<rparr>) ?Q"
      using False in_pat e leaf_nodes(6) by (intro parses_leaf) auto
    then show ?thesis using False by simp
  qed auto
  then show ?thesis unfolding rex_balanced_def
    using e by (auto intro!: parses_adv_bind parses_peek_bind_any simp: cb_def ce_def eval_nat_numeral)
qed

lemma parses_escapenode:
  assumes e: "alloc_ok e" "rx_p e \<le> length pat" "CHR 0x5C \<in> set pat" and d: "d = at_char pat (rx_p e)"
  shows "parses pat (rex_escapenode pat b d) e (\<lambda>i e'. \<exists>x u. new_leaf e i e' x \<and> g_char b (CHR 0x5C # u) x \<and>
    substr pat (rx_p e) (rx_p e') = u \<and> rx_p e < rx_p e' \<and> rx_p e' \<le> length pat)"
proof -
  let ?p = "rx_p e"
  let ?e = "e\<lparr>rx_p := ?p + 1\<rparr>"
  let ?Q = "\<lambda>i e'. \<exists>x u. new_leaf e i e' x \<and> g_char b (CHR 0x5C # u) x \<and> substr pat ?p (rx_p e') = u \<and> ?p < rx_p e' \<and> rx_p e' \<le> length pat"
  have one: "substr pat ?p (?p + 1) = [d]" "?p + 1 \<le> length pat" if "d \<noteq> CHR 0x00"
    using at_char_in [of pat ?p] that by (auto simp: d substr_one)
  show ?thesis
  proof (cases "escape_table d")
    case (Some x)
    then have "d \<noteq> CHR 0x00" by (auto simp: escape_table_def)
    from one [OF this] have "parses pat (rex_newnode (schar x)) ?e ?Q"
      using g_escape [OF Some, of b] e(1) leaf_char [OF schar_range [of x]] by (intro parses_char) auto
    then show ?thesis using Some by (auto simp: rex_escapenode_def intro!: parses_adv_bind)
  next
    case None
    consider "class_letter d" | "d = CHR ''m''" "\<not> class_letter d" | "d = CHR 0x00" "\<not> class_letter d"
      | "(d = CHR ''b'' \<or> d = CHR ''B'') \<and> \<not> b" "\<not> class_letter d"
      | "\<not> class_letter d" "d \<noteq> CHR ''m''" "d \<noteq> CHR 0x00" "\<not> ((d = CHR ''b'' \<or> d = CHR ''B'') \<and> \<not> b)"
      by blast
    then show ?thesis
    proof cases
      case 1
      then have "d \<noteq> CHR 0x00" by (auto simp: class_letter_def)
      from one [OF this] have "parses pat (rex_charclass d) ?e ?Q"
        unfolding rex_charclass_def using g_class [OF 1, of b] e(1) leaf_nodes(4) by (intro parses_leaf) auto
      then show ?thesis using None 1 by (auto simp: rex_escapenode_def intro!: parses_adv_bind)
    next
      case 2
      then have "?p < length pat" "pat ! ?p = CHR ''m''" using at_char_in [of pat ?p] d by auto
      with parses_balanced [OF e(1) _ e(3)] have "parses pat (rex_balanced pat) e ?Q"
        by (fastforce elim!: parses_conseq intro: g_balanced)
      then show ?thesis using None 2 by (simp add: rex_escapenode_def)
    next
      case 3
      then show ?thesis using None by (simp add: rex_escapenode_def)
    next
      case 4
      then have nz: "d \<noteq> CHR 0x00" "d \<noteq> CHR ''m''" by auto
      have wb: "(schar d = schar (CHR ''b'')) = (d = CHR ''b'')" by simp
      have "parses pat (pbind (rex_newnode OP_WB) (\<lambda>node.
          pbind (upd_node node (\<lambda>nd. nd\<lparr>rn_left := schar d\<rparr>)) (\<lambda>_. pbind adv (\<lambda>_. preturn node)))) e ?Q"
        using one [OF nz(1)] g_boundary [of d b] 4 e(1) leaf_nodes(5) [where k = "schar d"]
        by (intro parses_leaf [where x = "RWb (d = CHR ''b'')"]) (auto intro!: parses_adv_bind simp: wb)
      then show ?thesis using None 4 nz by (simp add: rex_escapenode_def)
    next
      case 5
      have "parses pat (rex_newnode (schar d)) ?e ?Q"
        using one [OF 5(3)] g_quoted [OF None 5(1,2), of b] 5(4) e(1) leaf_char [OF schar_range [of d]]
        by (intro parses_char) auto
      then show ?thesis using None 5 by (auto simp: rex_escapenode_def intro!: parses_adv_bind)
    qed
  qed
qed

lemma parses_charnode:
  assumes e: "alloc_ok e" "rx_p e \<le> length pat"
  shows "parses pat (rex_charnode pat b) e (\<lambda>i e'. \<exists>x. new_leaf e i e' x \<and> g_char b (substr pat (rx_p e) (rx_p e')) x \<and>
    rx_p e < rx_p e' \<and> rx_p e' \<le> length pat)" (is "parses _ _ _ ?Q")
proof -
  let ?p = "rx_p e"
  let ?e = "e\<lparr>rx_p := ?p + 1\<rparr>"
  define c where "c = at_char pat ?p"
  have "parses pat (if c = CHR 0x5C then pbind adv (\<lambda>_. pbind (peek pat) (rex_escapenode pat b))
       else if \<not> isprint c then sqstd_rex_error ''letter expected''
       else pbind adv (\<lambda>_. rex_newnode (schar c))) e ?Q"
  proof (cases "c = CHR 0x5C")
    case True
    then have p: "?p < length pat" "pat ! ?p = CHR 0x5C" "CHR 0x5C \<in> set pat"
      using at_char_in [of pat ?p] by (auto simp: c_def)
    have "parses pat (rex_escapenode pat b (at_char pat (?p + 1))) ?e ?Q"
      using parses_escapenode [of ?e pat "at_char pat (?p + 1)" b] p e substr_Cons [of ?p _ pat]
      by (auto elim!: parses_conseq)
    then show ?thesis using True p by (auto intro!: parses_adv_bind parses_peek_bind)
  next
    case False
    show ?thesis
    proof (cases "isprint c")
      case True
      then have "c \<noteq> CHR 0x00" by (auto simp: isprint_def)
      then have p: "?p < length pat" "substr pat ?p (?p + 1) = [c]"
        using at_char_in [of pat ?p] by (auto simp: c_def substr_one)
      have "parses pat (rex_newnode (schar c)) ?e ?Q"
        using p g_plain [OF True False, of b] e(1) leaf_char [OF schar_range [of c]]
        by (intro parses_char) auto
      then show ?thesis using False True by (auto intro!: parses_adv_bind)
    qed (use False in auto)
  qed
  then show ?thesis unfolding rex_charnode_def using e(2)
    by (auto intro!: parses_peek_bind simp: c_def)
qed

lemma parses_escapechar:
  assumes e: "rx_p e \<le> length pat"
  shows "parses pat (rex_escapechar pat) e (\<lambda>c e'. e' = e\<lparr>rx_p := rx_p e'\<rparr> \<and> rx_p e < rx_p e' \<and>
    (rx_p e' > length pat \<longrightarrow> CHR 0x5C \<in> set pat) \<and>
    (rx_p e' \<le> length pat \<longrightarrow> g_bound (substr pat (rx_p e) (rx_p e')) c))" (is "parses _ _ _ ?Q")
proof -
  let ?p = "rx_p e"
  define c where "c = at_char pat ?p"
  have "parses pat (if c = CHR 0x5C then
         pbind adv (\<lambda>_. pbind (peek pat) (\<lambda>d. pbind adv (\<lambda>_.
           preturn (case escape_table d of Some x \<Rightarrow> x | None \<Rightarrow> d))))
       else if \<not> isprint c then sqstd_rex_error ''letter expected''
       else pbind adv (\<lambda>_. preturn c)) e ?Q"
  proof (cases "c = CHR 0x5C")
    case True
    then have p: "?p < length pat" "pat ! ?p = CHR 0x5C" "CHR 0x5C \<in> set pat"
      using at_char_in [of pat ?p] by (auto simp: c_def)
    have "g_bound (substr pat ?p (?p + 1 + 1)) (case escape_table (at_char pat (?p + 1)) of Some x \<Rightarrow> x | None \<Rightarrow> at_char pat (?p + 1))"
      if "?p + 1 + 1 \<le> length pat"
      using that p b_escape [of "pat ! (?p + 1)"] substr_two [of ?p pat] by (simp add: at_char_def cong: option.case_cong)
    then show ?thesis using True p by (auto intro!: parses_adv_bind parses_peek_bind cong: option.case_cong)
  next
    case False
    have "g_bound (substr pat ?p (?p + 1)) c" "?p + 1 \<le> length pat" if "isprint c"
    proof -
      have "c \<noteq> CHR 0x00" using that by (auto simp: isprint_def)
      then show "g_bound (substr pat ?p (?p + 1)) c" "?p + 1 \<le> length pat"
        using at_char_in [of pat ?p] b_plain [OF that False] by (auto simp: c_def substr_one)
    qed
    then show ?thesis using False by (auto intro!: parses_adv_bind)
  qed
  then show ?thesis unfolding rex_escapechar_def using e
    by (auto intro!: parses_peek_bind simp: c_def)
qed

text \<open>
  The chain of a class: the items that are linked to the node of the class, by their
  indices.
\<close>

fun linked :: "rexnode list \<Rightarrow> nat \<Rightarrow> nat list \<Rightarrow> bool" where
  "linked ns k [] \<longleftrightarrow> rn_next (ns ! k) = - 1"
| "linked ns k (j # js) \<longleftrightarrow> rn_next (ns ! k) = int j \<and> k < j \<and> j < length ns \<and> linked ns j js"

lemma linked_append: "linked ns k js \<Longrightarrow> k < length ns \<Longrightarrow> linked (ns @ new) k js"
  by (induction ns k js rule: linked.induct) (auto simp: nth_append)

lemma linked_bound: "linked ns k js \<Longrightarrow> k < length ns \<Longrightarrow> k \<le> last (k # js) \<and> last (k # js) < length ns"
  by (induction ns k js rule: linked.induct) auto

lemma linked_extend:
  "linked ns k js \<Longrightarrow> k < length ns \<Longrightarrow> last (k # js) < j \<Longrightarrow> j < length ns \<Longrightarrow> rn_next (ns ! j) = - 1 \<Longrightarrow>
     linked (ns[last (k # js) := (ns ! last (k # js))\<lparr>rn_next := int j\<rparr>]) k (js @ [j])"
proof (induction js arbitrary: k)
  case Nil
  then show ?case by (auto simp: nth_list_update)
next
  case (Cons i js)
  have "k \<noteq> last (i # js)" using linked_bound [of ns i js] Cons.prems by auto
  then show ?case using Cons by (auto simp: nth_list_update)
qed

lemma linked_items:
  "linked ns k js \<Longrightarrow> list_all2 (\<lambda>j c. citem_is (ns ! j) c) js cs \<Longrightarrow> js \<noteq> [] \<Longrightarrow> Suc k \<le> lo \<Longrightarrow> lo \<le> hd js \<Longrightarrow> 
     items_is ns (hd js) lo (length ns) cs"
proof (induction js arbitrary: k lo cs)
  case (Cons j js)
  then obtain c cs' where cs: "cs = c # cs'" "citem_is (ns ! j) c" "list_all2 (\<lambda>j c. citem_is (ns ! j) c) js cs'"
    by (auto simp: list_all2_Cons1)
  show ?case
  proof (cases js)
    case Nil
    then show ?thesis using Cons cs by (auto intro!: last_item)
  next
    case (Cons i js')
    then have "items_is ns i (Suc j) (length ns) cs'"
      using Cons.IH [of j cs' "Suc j"] Cons.prems cs by auto
    then show ?thesis using Cons Cons.prems cs by (auto intro!: more_items)
  qed
qed simp

text \<open>
  While a class is parsed: the node of the class is the first new node, the items \<open>js\<close> are linked, and
  one more item may be pending in \<open>first\<close>.
\<close>

definition pending :: "rexnode list \<Rightarrow> nat \<Rightarrow> int \<Rightarrow> citem list \<Rightarrow> bool" where
  "pending ns k first ps \<longleftrightarrow> (if first = - 1 then ps = []
     else \<exists>j x. first = int j \<and> k < j \<and> j < length ns \<and> leaf_is (ns ! j) x \<and> ps = [as_item x])"

definition class_inv :: "int \<Rightarrow> rex \<Rightarrow> string \<Rightarrow> rex \<Rightarrow> nat list \<Rightarrow> citem list \<Rightarrow> int \<Rightarrow> int \<Rightarrow> bool" where
  "class_inv ty e0 pat e js cs chain first \<longleftrightarrow>
     (let r = length (rx_nodes e0); p = rx_p e0 in
      (\<exists>new. grown e0 e new) \<and> r < length (rx_nodes e) \<and> linked (rx_nodes e) r js \<and> chain = int (last (r # js)) \<and>
      rn_type (rx_nodes e ! r) = ty \<and> list_all2 (\<lambda>j c. citem_is (rx_nodes e ! j) c) js cs \<and> p \<le> rx_p e \<and> rx_p e \<le> length pat \<and>
      (\<exists>ps. pending (rx_nodes e) (last (r # js)) first ps \<and> g_items (ps \<noteq> []) (substr pat p (rx_p e)) (cs @ ps)))"

lemma class_invD:
  assumes "class_inv ty e0 pat e js cs chain first"
  obtains new ps where "grown e0 e new" "length (rx_nodes e0) < length (rx_nodes e)" "linked (rx_nodes e) (length (rx_nodes e0)) js"
    "chain = int (last (length (rx_nodes e0) # js))" "rn_type (rx_nodes e ! length (rx_nodes e0)) = ty" "list_all2 (\<lambda>j c. citem_is (rx_nodes e ! j) c) js cs"
    "rx_p e0 \<le> rx_p e" "rx_p e \<le> length pat" "pending (rx_nodes e) (last (length (rx_nodes e0) # js)) first ps"
    "g_items (ps \<noteq> []) (substr pat (rx_p e0) (rx_p e)) (cs @ ps)"
  using assms unfolding class_inv_def Let_def by blast

lemma class_invI:
  assumes "grown e0 e new" "length (rx_nodes e0) < length (rx_nodes e)" "linked (rx_nodes e) (length (rx_nodes e0)) js"
    "chain = int (last (length (rx_nodes e0) # js))" "rn_type (rx_nodes e ! length (rx_nodes e0)) = ty" "list_all2 (\<lambda>j c. citem_is (rx_nodes e ! j) c) js cs"
    "rx_p e0 \<le> rx_p e" "rx_p e \<le> length pat" "pending (rx_nodes e) (last (length (rx_nodes e0) # js)) first ps"
    "g_items (ps \<noteq> []) (substr pat (rx_p e0) (rx_p e)) (cs @ ps)"
  shows "class_inv ty e0 pat e js cs chain first"
  using assms unfolding class_inv_def Let_def by blast

lemma class_inv_le: "class_inv ty e0 pat e js cs chain first \<Longrightarrow> rx_p e \<le> length pat"
  by (simp add: class_inv_def Let_def)

lemma leaf_isD: "leaf_is nd x \<Longrightarrow> rn_next nd = - 1" "leaf_is nd x \<Longrightarrow> citem_is nd (as_item x)"
  by (simp_all add: leaf_is_def)

lemma type_upd_next [simp]: "rn_type (ns[k := (ns ! k)\<lparr>rn_next := n\<rparr>] ! j) = rn_type (ns ! j)"
  by (cases "k < length ns"; cases "j = k") (auto simp: list_update_beyond)

lemma linked_members: "linked ns k js \<Longrightarrow> k < length ns \<Longrightarrow> \<forall>j\<in>set js. k < j \<and> j < length ns"
  by (induction ns k js rule: linked.induct) auto

lemma items_append: "list_all2 (\<lambda>j c. citem_is (ns ! j) c) js cs \<Longrightarrow> \<forall>j\<in>set js. j < length ns \<Longrightarrow>
    list_all2 (\<lambda>j c. citem_is ((ns @ new) ! j) c) js cs"
  by (auto simp: list_all2_conv_all_nth nth_append)

lemma citem_is_next [simp]: "citem_is (nd\<lparr>rn_next := n\<rparr>) c = citem_is nd c"
  by (simp add: citem_is_def rex_matchitem_def)

lemma citem_upd_next [simp]: "citem_is (ns[k := (ns ! k)\<lparr>rn_next := n\<rparr>] ! j) c = citem_is (ns ! j) c"
  by (cases "k < length ns"; cases "j = k") (auto simp: list_update_beyond)

text \<open>Adding an item to the chain.\<close>

lemma class_link:
  assumes "linked ns r js" "r < length ns" "list_all2 (\<lambda>j c. citem_is (ns ! j) c) js cs"
    and "last (r # js) < k" "k < length ns" "rn_next (ns ! k) = - 1" "citem_is (ns ! k) c"
  shows "linked (ns[last (r # js) := (ns ! last (r # js))\<lparr>rn_next := int k\<rparr>]) r (js @ [k])"
    "list_all2 (\<lambda>j c. citem_is (ns[last (r # js) := (ns ! last (r # js))\<lparr>rn_next := int k\<rparr>] ! j) c) (js @ [k]) (cs @ [c])"
proof -
  show "linked (ns[last (r # js) := (ns ! last (r # js))\<lparr>rn_next := int k\<rparr>]) r (js @ [k])"
    by (rule linked_extend [OF assms(1,2,4,5,6)])
  show "list_all2 (\<lambda>j c. citem_is (ns[last (r # js) := (ns ! last (r # js))\<lparr>rn_next := int k\<rparr>] ! j) c) (js @ [k]) (cs @ [c])"
    using assms(3,7) by (auto intro!: list_all2_appendI)
qed

text \<open>Reading the next character of a class, with the chain as it is.\<close>

lemma class_read_char:
  assumes g: "grown e0 e new" and r: "length (rx_nodes e0) < length (rx_nodes e)"
    and l: "linked (rx_nodes e) (length (rx_nodes e0)) js" "list_all2 (\<lambda>j c. citem_is (rx_nodes e ! j) c) js cs"
    and t: "rn_type (rx_nodes e ! length (rx_nodes e0)) = ty"
    and p: "rx_p e0 \<le> rx_p e" "rx_p e \<le> length pat"
    and w: "g_items pend (substr pat (rx_p e0) (rx_p e)) cs" "at_char pat (rx_p e) \<noteq> CHR '']''"
      "pend \<Longrightarrow> at_char pat (rx_p e) \<noteq> CHR ''-''"
  shows "parses pat (rex_charnode pat True) e (\<lambda>k e'. rx_p e < rx_p e' \<and>
    class_inv ty e0 pat e' js cs (int (last (length (rx_nodes e0) # js))) k)"
proof (rule parses_conseq [OF parses_charnode [OF grown_alloc [OF g] p(2)]], elim exE conjE)
  fix k e' x
  assume nl: "new_leaf e k e' x" and gc: "g_char True (substr pat (rx_p e) (rx_p e')) x"
    and p': "rx_p e < rx_p e'" "rx_p e' \<le> length pat"
  from nl obtain nd where nd: "grown e e' [nd]" "k = int (length (rx_nodes e))" "leaf_is nd x" by (auto simp: new_leaf_def)
  let ?r = "length (rx_nodes e0)"
  have ns: "rx_nodes e' = rx_nodes e @ [nd]" using nd(1) by (simp add: grown_def)
  have m: "\<forall>j\<in>set js. j < length (rx_nodes e)" using linked_members [OF l(1) r] by simp
  have "substr pat (rx_p e) (rx_p e') = at_char pat (rx_p e) # substr pat (Suc (rx_p e)) (rx_p e')"
    using substr_Cons [of "rx_p e" "rx_p e'" pat] p' by (simp add: at_char_def)
  then have "g_items True (substr pat (rx_p e0) (rx_p e) @ substr pat (rx_p e) (rx_p e')) (cs @ [as_item x])"
    using i_char [OF w(1) gc] w(2,3) by simp
  moreover have "substr pat (rx_p e0) (rx_p e) @ substr pat (rx_p e) (rx_p e') = substr pat (rx_p e0) (rx_p e')"
    using substr_append p(1) p'(1) by simp
  moreover have "pending (rx_nodes e') (last (?r # js)) k [as_item x]"
    using linked_bound [OF l(1) r] nd by (auto simp: pending_def ns nth_append)
  ultimately show "rx_p e < rx_p e' \<and> class_inv ty e0 pat e' js cs (int (last (?r # js))) k"
    unfolding class_inv_def Let_def
    using grown_trans [OF g nd(1)] linked_append [OF l(1) r, of "[nd]"] items_append [OF l(2) m, of "[nd]"] p p' r t
    by (auto simp: ns nth_append)
qed

lemma parses_range_node:
  assumes e: "alloc_ok e" "rx_p e < length pat" and j: "j < length (rx_nodes e)"
  shows "parses pat (rex_range_node pat (int j)) e (\<lambda>k e'. \<exists>it t. k = int (length (rx_nodes e)) \<and> grown e e' [it] \<and>
    rn_next it = - 1 \<and> citem_is it (CRange (rn_type (rx_nodes e ! j)) (schar t)) \<and> rx_p e + 1 < rx_p e' \<and>
    rn_type (rx_nodes e ! j) \<le> schar (at_char pat (rx_p e + 1)) \<and> rn_type (rx_nodes e ! j) \<noteq> OP_CCLASS \<and>
    (rx_p e' > length pat \<longrightarrow> CHR 0x5C \<in> set pat) \<and> (rx_p e' \<le> length pat \<longrightarrow> g_bound (substr pat (rx_p e + 1) (rx_p e')) t))"
    (is "parses _ _ _ ?Q")
proof -
  let ?k = "length (rx_nodes e)" and ?nd = "rx_nodes e ! j" and ?c = "at_char pat (rx_p e + 1)"
  let ?f = "fresh_node OP_RANGE (rx_nsubexpr e)"
  have tail: "parses pat (pbind (upd_node (int ?k) (\<lambda>n. n\<lparr>rn_left := rn_type ?nd\<rparr>)) (\<lambda>_.
      pbind (rex_escapechar pat) (\<lambda>t. pbind (upd_node (int ?k) (\<lambda>n. n\<lparr>rn_right := schar t\<rparr>)) (\<lambda>_. preturn (int ?k))))) e1 ?Q"
    if g1: "grown e e1 [?f]" and p1: "rx_p e1 = rx_p e + 1" and ty: "rn_type ?nd \<le> schar ?c" "rn_type ?nd \<noteq> OP_CCLASS" for e1
  proof (rule parses_pbind, rule parses_upd [OF g1 order_refl])
    show "?k < length (rx_nodes e1)" using g1 by (simp add: grown_def)
    fix e2
    assume "grown e e2 ([?f][?k - ?k := (rx_nodes e1 ! ?k)\<lparr>rn_left := rn_type ?nd\<rparr>])" "rx_p e2 = rx_p e1"
    then have g2: "grown e e2 [?f\<lparr>rn_left := rn_type ?nd\<rparr>]" and p2: "rx_p e2 = rx_p e + 1"
      using p1 g1 by (simp_all add: grown_def)
    have "rx_p e2 \<le> length pat" using p2 e(2) by simp
    then show "parses pat (pbind (rex_escapechar pat) (\<lambda>t.
        pbind (upd_node (int ?k) (\<lambda>n. n\<lparr>rn_right := schar t\<rparr>)) (\<lambda>_. preturn (int ?k)))) e2 ?Q"
    proof (rule parses_then [OF parses_escapechar], elim conjE)
      fix t e3
      assume e3: "e3 = e2\<lparr>rx_p := rx_p e3\<rparr>" and p3: "rx_p e2 < rx_p e3"
        and over: "length pat < rx_p e3 \<longrightarrow> CHR 0x5C \<in> set pat"
        and bd: "rx_p e3 \<le> length pat \<longrightarrow> g_bound (substr pat (rx_p e2) (rx_p e3)) t"
      have g3: "grown e e3 [?f\<lparr>rn_left := rn_type ?nd\<rparr>]" using g2 e3 by (metis grown_p(2))
      show "parses pat (pbind (upd_node (int ?k) (\<lambda>n. n\<lparr>rn_right := schar t\<rparr>)) (\<lambda>_. preturn (int ?k))) e3 ?Q"
      proof (rule parses_pbind, rule parses_upd [OF g3 order_refl])
        show "?k < length (rx_nodes e3)" using g3 by (simp add: grown_def)
        fix e4
        let ?it = "?f\<lparr>rn_left := rn_type ?nd, rn_right := schar t\<rparr>"
        assume "grown e e4 ([?f\<lparr>rn_left := rn_type ?nd\<rparr>][?k - ?k := (rx_nodes e3 ! ?k)\<lparr>rn_right := schar t\<rparr>])"
          and p4: "rx_p e4 = rx_p e3"
        then have "grown e e4 [?it]" using g3 by (simp add: grown_def)
        moreover have "citem_is ?it (CRange (rn_type ?nd) (schar t))" "rn_next ?it = - 1"
          by (simp_all add: citem_is_def rex_matchitem_def fresh_node_def)
        ultimately show "parses pat (preturn (int ?k)) e4 ?Q"
          using ty over bd p4 p3 p2 unfolding parses_return by (intro exI [of _ ?it] exI [of _ t]) simp
      qed
    qed
  qed
  show ?thesis unfolding rex_range_node_def
  proof (rule parses_adv_bind, rule parses_pbind, rule parses_newnode)
    show "alloc_ok (e\<lparr>rx_p := rx_p e + 1\<rparr>)" using e by simp
    fix e1
    assume *: "grown (e\<lparr>rx_p := rx_p e + 1\<rparr>) e1 [fresh_node OP_RANGE (rx_nsubexpr (e\<lparr>rx_p := rx_p e + 1\<rparr>))]"
      "rx_p e1 = rx_p (e\<lparr>rx_p := rx_p e + 1\<rparr>)"
    then have g1: "grown e e1 [?f]" and p1: "rx_p e1 = rx_p e + 1" by simp_all
    have at: "rx_nodes e1 ! j = ?nd" "j < length (rx_nodes e1)" using j g1 by (simp_all add: grown_def nth_append)
    show "parses pat (pbind (get_node (int j)) (\<lambda>nd. pbind (peek pat) (\<lambda>c.
        if rn_type nd > schar c then sqstd_rex_error ''invalid range''
        else if rn_type nd = OP_CCLASS then sqstd_rex_error ''cannot use character classes in ranges''
        else pbind (upd_node (int (length (rx_nodes (e\<lparr>rx_p := rx_p e + 1\<rparr>)))) (\<lambda>n. n\<lparr>rn_left := rn_type nd\<rparr>)) (\<lambda>_.
            pbind (rex_escapechar pat) (\<lambda>t.
            pbind (upd_node (int (length (rx_nodes (e\<lparr>rx_p := rx_p e + 1\<rparr>)))) (\<lambda>n. n\<lparr>rn_right := schar t\<rparr>)) (\<lambda>_.
            preturn (int (length (rx_nodes (e\<lparr>rx_p := rx_p e + 1\<rparr>)))))))))) e1 ?Q"
      by (intro parses_pbind [of pat "get_node (int j)"] parses_get parses_peek_bind)
        (use at p1 e(2) tail [OF g1 p1] in auto)
  qed
qed

lemma parses_range:
  assumes inv: "class_inv ty e0 pat e js cs chain first" and first: "first \<noteq> - 1" and c: "at_char pat (rx_p e) = CHR ''-''"
  shows "parses pat (rex_range pat chain first) e (\<lambda>k e'. rx_p e < rx_p e' \<and> (rx_p e' > length pat \<longrightarrow> CHR 0x5C \<in> set pat) \<and>
    (rx_p e' \<le> length pat \<longrightarrow> (\<exists>js cs. class_inv ty e0 pat e' js cs k (- 1))))" (is "parses _ _ _ ?Q")
proof -
  from inv obtain new ps where g: "grown e0 e new" and r: "length (rx_nodes e0) < length (rx_nodes e)"
    and l: "linked (rx_nodes e) (length (rx_nodes e0)) js" "chain = int (last (length (rx_nodes e0) # js))"
    and t: "rn_type (rx_nodes e ! length (rx_nodes e0)) = ty" and it: "list_all2 (\<lambda>j c. citem_is (rx_nodes e ! j) c) js cs"
    and p: "rx_p e0 \<le> rx_p e" "rx_p e \<le> length pat"
    and pd: "pending (rx_nodes e) (last (length (rx_nodes e0) # js)) first ps"
    and w: "g_items (ps \<noteq> []) (substr pat (rx_p e0) (rx_p e)) (cs @ ps)" by (rule class_invD)
  let ?r = "length (rx_nodes e0)" and ?k = "length (rx_nodes e)"
  let ?z = "last (?r # js)"
  from pd first obtain j x where j: "first = int j" "?z < j" "j < ?k" "leaf_is (rx_nodes e ! j) x" "ps = [as_item x]"
    by (auto simp: pending_def)
  let ?a = "rn_type (rx_nodes e ! j)"
  have pl: "rx_p e < length pat" "pat ! rx_p e = CHR ''-''" using at_char_in [of pat "rx_p e"] c by auto
  have zk: "?z < ?k" "?r \<le> ?z" using linked_bound [OF l(1) r] by auto
  show ?thesis unfolding rex_range_def j(1)
  proof (rule parses_then [OF parses_range_node [OF grown_alloc [OF g] pl(1) j(3)]], elim exE conjE)
    fix k e1 it t
    assume k: "k = int ?k" and g1: "grown e e1 [it]" and itm: "rn_next it = - 1" "citem_is it (CRange ?a (schar t))"
      and p1: "rx_p e + 1 < rx_p e1" and ty: "?a \<le> schar (at_char pat (rx_p e + 1))" "?a \<noteq> OP_CCLASS"
      and over: "length pat < rx_p e1 \<longrightarrow> CHR 0x5C \<in> set pat"
      and bd: "rx_p e1 \<le> length pat \<longrightarrow> g_bound (substr pat (rx_p e + 1) (rx_p e1)) t"
    have a: "as_item x = CLit ?a" using j(4) ty(2) by (cases x) (auto simp: leaf_is_def)
    have ns1: "rx_nodes e1 = rx_nodes e @ [it]" using g1 by (simp add: grown_def)
    show "parses pat (pbind (upd_node chain (\<lambda>n. n\<lparr>rn_next := k\<rparr>)) (\<lambda>_. preturn k)) e1 ?Q"
      unfolding l(2) k
    proof (rule parses_pbind, rule parses_upd [OF grown_trans [OF g g1] zk(2)])
      show "?z < length (rx_nodes e1)" using zk by (simp add: ns1)
      fix e2
      assume g2: "grown e0 e2 ((new @ [it])[?z - ?r := (rx_nodes e1 ! ?z)\<lparr>rn_next := int ?k\<rparr>])"
        and p2: "rx_p e2 = rx_p e1" and ns2: "rx_nodes e2 = (rx_nodes e1)[?z := (rx_nodes e1 ! ?z)\<lparr>rn_next := int ?k\<rparr>]"
      have m: "\<forall>j\<in>set js. j < length (rx_nodes e)" using linked_members [OF l(1) r] by simp
      have link: "linked (rx_nodes e2) ?r (js @ [?k])"
        "list_all2 (\<lambda>j c. citem_is (rx_nodes e2 ! j) c) (js @ [?k]) (cs @ [CRange ?a (schar t)])"
        unfolding ns2
        by (rule class_link; use linked_append [OF l(1) r, of "[it]"] items_append [OF it m, of "[it]"] zk r itm
            in \<open>simp add: ns1 nth_append\<close>)+
      have t2: "rn_type (rx_nodes e2 ! ?r) = ty" unfolding ns2 type_upd_next using r t by (simp add: ns1 nth_append)
      have "\<exists>js cs. class_inv ty e0 pat e2 js cs (int ?k) (- 1)" if le: "rx_p e2 \<le> length pat"
      proof -
        have v: "g_bound (substr pat (rx_p e + 1) (rx_p e2)) t" using bd le p2 by simp
        have "hd (substr pat (rx_p e + 1) (rx_p e2)) = at_char pat (rx_p e + 1)"
          using substr_Cons [of "rx_p e + 1" "rx_p e2" pat] le p2 p1 by (simp add: at_char_def)
        then have "g_items False (substr pat (rx_p e0) (rx_p e) @ CHR ''-'' # substr pat (rx_p e + 1) (rx_p e2))
            (cs @ [CRange ?a (schar t)])"
          using i_range [OF _ v] w j(5) a ty by simp
        moreover have "CHR ''-'' # substr pat (rx_p e + 1) (rx_p e2) = substr pat (rx_p e) (rx_p e2)"
          using substr_Cons [of "rx_p e" "rx_p e2" pat] pl p2 p1 by simp
        ultimately have "g_items False (substr pat (rx_p e0) (rx_p e2)) (cs @ [CRange ?a (schar t)])"
          using substr_append [of "rx_p e0" "rx_p e" "rx_p e2" pat] p p2 p1 by simp
        then have "class_inv ty e0 pat e2 (js @ [?k]) (cs @ [CRange ?a (schar t)]) (int ?k) (- 1)"
          by (intro class_invI [OF g2 _ link(1) _ t2 link(2), where ps = "[]"])
            (use le p p2 p1 r in \<open>auto simp: pending_def ns2 ns1\<close>)
        then show ?thesis by blast
      qed
      then show "parses pat (preturn (int ?k)) e2 ?Q" using over p2 p1 by simp
    qed
  qed
qed

lemma parses_class_step:
  assumes inv: "class_inv ty e0 pat e js cs chain first" and c: "c = at_char pat (rx_p e)" "c \<noteq> CHR '']''"
  shows "parses pat (rex_class_step pat c chain first) e (\<lambda>cf e'. rx_p e < rx_p e' \<and> (rx_p e' > length pat \<longrightarrow> CHR 0x5C \<in> set pat) \<and>
    (rx_p e' \<le> length pat \<longrightarrow> (\<exists>js cs. class_inv ty e0 pat e' js cs (fst cf) (snd cf))))" (is "parses _ _ _ ?Q")
proof -
  from inv obtain new ps where g: "grown e0 e new" and r: "length (rx_nodes e0) < length (rx_nodes e)"
    and l: "linked (rx_nodes e) (length (rx_nodes e0)) js" "chain = int (last (length (rx_nodes e0) # js))"
    and t: "rn_type (rx_nodes e ! length (rx_nodes e0)) = ty" and it: "list_all2 (\<lambda>j c. citem_is (rx_nodes e ! j) c) js cs"
    and p: "rx_p e0 \<le> rx_p e" "rx_p e \<le> length pat"
    and pd: "pending (rx_nodes e) (last (length (rx_nodes e0) # js)) first ps"
    and w: "g_items (ps \<noteq> []) (substr pat (rx_p e0) (rx_p e)) (cs @ ps)" by (rule class_invD)
  let ?r = "length (rx_nodes e0)"
  let ?z = "last (?r # js)"
  consider "c = CHR ''-''" "first \<noteq> - 1" | "c \<noteq> CHR ''-''" "first \<noteq> - 1" | "first = - 1" by blast
  then show ?thesis
  proof cases
    case 1
    then have "parses pat (pbind (rex_range pat chain first) (\<lambda>r. preturn (r, - 1))) e ?Q"
      by (intro parses_then [OF parses_range [OF inv]]) (use c in auto)
    then show ?thesis using 1 by (simp add: rex_class_step_def)
  next
    case 2
    then obtain j x where j: "first = int j" "?z < j" "j < length (rx_nodes e)" "leaf_is (rx_nodes e ! j) x" "ps = [as_item x]"
      using pd by (auto simp: pending_def)
    have z: "?r \<le> ?z" "?z < length (rx_nodes e)" using linked_bound [OF l(1) r] by auto
    have "parses pat (pbind (upd_node chain (\<lambda>n. n\<lparr>rn_next := first\<rparr>)) (\<lambda>_.
        pbind (rex_charnode pat True) (\<lambda>first'. preturn (first, first')))) e ?Q"
      unfolding l(2) j(1)
    proof (rule parses_pbind, rule parses_upd [OF g z])
      fix e1
      assume g1: "grown e0 e1 (new[?z - ?r := (rx_nodes e ! ?z)\<lparr>rn_next := int j\<rparr>])" and p1: "rx_p e1 = rx_p e"
        and ns1: "rx_nodes e1 = (rx_nodes e)[?z := (rx_nodes e ! ?z)\<lparr>rn_next := int j\<rparr>]"
      have link: "linked (rx_nodes e1) ?r (js @ [j])" "list_all2 (\<lambda>j c. citem_is (rx_nodes e1 ! j) c) (js @ [j]) (cs @ [as_item x])"
        unfolding ns1 by (rule class_link [OF l(1) r it j(2,3) leaf_isD [OF j(4)]])+
      have "parses pat (rex_charnode pat True) e1 (\<lambda>k e'. rx_p e1 < rx_p e' \<and>
          class_inv ty e0 pat e' (js @ [j]) (cs @ [as_item x]) (int (last (?r # js @ [j]))) k)"
        by (rule class_read_char [OF g1 _ link, where pend = True]) (use p p1 w j(5) r c 2 t in \<open>simp_all add: ns1\<close>)
      then show "parses pat (pbind (rex_charnode pat True) (\<lambda>first'. preturn (int j, first'))) e1 ?Q"
        by (rule parses_then) (use p1 in \<open>auto dest: class_inv_le\<close>)
    qed
    then show ?thesis using 2 by (simp add: rex_class_step_def)
  next
    case 3
    then have "ps = []" using pd by (simp add: pending_def)
    then have "parses pat (rex_charnode pat True) e (\<lambda>k e'. rx_p e < rx_p e' \<and>
        class_inv ty e0 pat e' js cs (int ?z) k)"
      by (intro class_read_char [OF g r l(1) it t p, where pend = False]) (use w c in simp_all)
    then have "parses pat (pbind (rex_charnode pat True) (\<lambda>first'. preturn (chain, first'))) e ?Q"
      by (rule parses_then) (use l(2) in \<open>fastforce dest: class_inv_le\<close>)
    then show ?thesis using 3 by (simp add: rex_class_step_def)
  qed
qed

lemma parses_class_loop:
  assumes "rx_p e \<le> length pat \<longrightarrow> (\<exists>js cs. class_inv ty e0 pat e js cs chain first)" "rx_p e > length pat \<longrightarrow> CHR 0x5C \<in> set pat"
  shows "parses pat (rex_class_loop pat chain first) e (\<lambda>cf e'. at_char pat (rx_p e') = CHR '']'' \<and> rx_p e \<le> rx_p e' \<and>
    (\<exists>js cs. class_inv ty e0 pat e' js cs (fst cf) (snd cf)))" (is "parses _ _ _ (?Q e)")
  using assms
proof (induction "Suc (length pat) - rx_p e" arbitrary: e chain first rule: less_induct)
  case less
  have unf: "rex_class_loop pat chain first e = pbind (peek pat) (\<lambda>c.
      if c = CHR '']'' then preturn (chain, first)
      else pbind (rex_class_step pat c chain first) (\<lambda>cf. rex_class_loop pat (fst cf) (snd cf))) e"
    by (subst rex_class_loop.simps) (simp add: pbind_def preturn_def case_prod_unfold if_distrib [of "\<lambda>f. f _"] cong: if_cong)
  have "parses pat (pbind (peek pat) (\<lambda>c.
      if c = CHR '']'' then preturn (chain, first)
      else pbind (rex_class_step pat c chain first) (\<lambda>cf. rex_class_loop pat (fst cf) (snd cf)))) e (?Q e)"
  proof (rule parses_peek_bind_any)
    assume le: "rx_p e \<le> length pat"
    then obtain js cs where inv: "class_inv ty e0 pat e js cs chain first" using less.prems by blast
    let ?c = "at_char pat (rx_p e)"
    show "parses pat (if ?c = CHR '']'' then preturn (chain, first)
      else pbind (rex_class_step pat ?c chain first) (\<lambda>cf. rex_class_loop pat (fst cf) (snd cf))) e (?Q e)"
    proof (cases "?c = CHR '']''")
      case True
      then show ?thesis using inv by auto
    next
      case False
      have "parses pat (pbind (rex_class_step pat ?c chain first) (\<lambda>cf. rex_class_loop pat (fst cf) (snd cf))) e (?Q e)"
      proof (rule parses_then [OF parses_class_step [OF inv refl False]], elim conjE)
        fix cf e'
        assume *: "rx_p e < rx_p e'" "length pat < rx_p e' \<longrightarrow> CHR 0x5C \<in> set pat"
          "rx_p e' \<le> length pat \<longrightarrow> (\<exists>js cs. class_inv ty e0 pat e' js cs (fst cf) (snd cf))"
        have "parses pat (rex_class_loop pat (fst cf) (snd cf)) e' (?Q e')"
          by (rule less.hyps) (use * le in auto)
        then show "parses pat (rex_class_loop pat (fst cf) (snd cf)) e' (?Q e)"
          by (rule parses_conseq) (use * in auto)
      qed
      then show ?thesis using False by simp
    qed
  qed (use less.prems in auto)
  then show ?case by (simp add: parses_def unf)
qed

text \<open>A class as a whole.\<close>

definition new_nodes :: "string \<Rightarrow> rex \<Rightarrow> int \<Rightarrow> rex \<Rightarrow> rast \<Rightarrow> bool" where
  "new_nodes pat e i e' x \<longleftrightarrow> (\<exists>new j. grown e e' new \<and> i = int j \<and> rn_next (rx_nodes e' ! j) = - 1 \<and>
     node_is (rx_nodes e') (rx_nsubexpr e') j (length (rx_nodes e)) (length (rx_nodes e')) x)
     \<and> rx_p e < rx_p e' \<and> rx_p e' \<le> length pat"

lemma linked_same:
  "linked ns k js \<Longrightarrow> length ns' = length ns \<Longrightarrow> \<forall>j\<in>set (k # js). rn_next (ns' ! j) = rn_next (ns ! j) \<Longrightarrow> linked ns' k js"
  by (induction ns k js rule: linked.induct) auto

lemma g_items_char: "g_char True u x \<Longrightarrow> u \<noteq> []"
  by (auto elim: g_char.cases)

lemma g_items_nil: "g_items p w cs \<Longrightarrow> w = [] \<longleftrightarrow> cs = []"
  by (induction rule: g_items.induct) (auto dest: g_items_char)

lemma class_finish:
  assumes g: "grown e0 e new" and r: "length (rx_nodes e0) < length (rx_nodes e)"
    and l: "linked (rx_nodes e) (length (rx_nodes e0)) (j # js)"
    and t: "rn_type (rx_nodes e ! length (rx_nodes e0)) = (if neg then OP_NCLASS else OP_CLASS)"
    and it: "list_all2 (\<lambda>j c. citem_is (rx_nodes e ! j) c) (j # js) cs" and p: "rx_p e0 < rx_p e" "rx_p e \<le> length pat"
  shows "parses pat (pbind (upd_node (int (length (rx_nodes e0))) (\<lambda>n. n\<lparr>rn_left := rn_next n, rn_next := - 1\<rparr>))
    (\<lambda>_. preturn (int (length (rx_nodes e0))))) e (\<lambda>i e'. new_nodes pat e0 i e' (RSet neg cs) \<and> rx_p e' = rx_p e)"
proof (rule parses_pbind, rule parses_upd [OF g order_refl r])
  let ?r = "length (rx_nodes e0)"
  fix e1
  let ?nd = "(rx_nodes e ! ?r)\<lparr>rn_left := rn_next (rx_nodes e ! ?r), rn_next := - 1\<rparr>"
  assume g1: "grown e0 e1 (new[?r - ?r := ?nd])" and p1: "rx_p e1 = rx_p e" and ns1: "rx_nodes e1 = (rx_nodes e)[?r := ?nd]"
  have m: "\<forall>k\<in>set (j # js). ?r < k" using linked_members [OF l r] by simp
  have it1: "list_all2 (\<lambda>j c. citem_is (rx_nodes e1 ! j) c) (j # js) cs"
    using it m unfolding list_all2_conv_all_nth ns1 by (metis nat_neq_iff nth_list_update_neq nth_mem)
  then obtain c cs' where cs: "cs = c # cs'" "citem_is (rx_nodes e1 ! j) c" "list_all2 (\<lambda>j c. citem_is (rx_nodes e1 ! j) c) js cs'"
    by (auto simp: list_all2_Cons1)
  have same: "\<forall>k\<in>set (j # js). rn_next (rx_nodes e1 ! k) = rn_next (rx_nodes e ! k)"
    using m unfolding ns1 by (metis nat_neq_iff nth_list_update_neq)
  have l1: "linked (rx_nodes e1) j js" using l same by (auto simp: ns1 elim!: linked_same)
  have j: "?r < j" "j < length (rx_nodes e1)" using l by (auto simp: ns1)
  have "items_is (rx_nodes e1) j (Suc ?r) (length (rx_nodes e1)) cs"
  proof (cases js)
    case Nil
    then show ?thesis using cs l1 j by (auto intro!: last_item)
  next
    case (Cons i js')
    then show ?thesis using linked_items [OF l1 cs(3), of "Suc j"] cs l1 j by (auto intro!: more_items)
  qed
  then have "node_is (rx_nodes e1) (rx_nsubexpr e1) ?r ?r (length (rx_nodes e1)) (RSet neg cs)"
    by (intro n_set) (use r t l in \<open>auto simp: ns1\<close>)
  then show "parses pat (preturn (int ?r)) e1 (\<lambda>i e'. new_nodes pat e0 i e' (RSet neg cs) \<and> rx_p e' = rx_p e)"
    unfolding new_nodes_def using g1 p p1 r by (auto simp: ns1)
qed

lemma parses_class_close:
  assumes inv: "class_inv ty e0 pat e js cs (fst cf) (snd cf)" and ty: "ty = (if neg then OP_NCLASS else OP_CLASS)"
    and p: "rx_p e0 < rx_p e"
  shows "parses pat (rex_class_close (int (length (rx_nodes e0))) cf) e (\<lambda>i e'. \<exists>pd cs. new_nodes pat e0 i e' (RSet neg cs) \<and>
    g_items pd (substr pat (rx_p e0) (rx_p e)) cs \<and> rx_p e' = rx_p e)" (is "parses _ _ _ ?Q")
proof -
  obtain new ps where g: "grown e0 e new" and r: "length (rx_nodes e0) < length (rx_nodes e)"
    and l: "linked (rx_nodes e) (length (rx_nodes e0)) js" "fst cf = int (last (length (rx_nodes e0) # js))"
    and t: "rn_type (rx_nodes e ! length (rx_nodes e0)) = ty" and it: "list_all2 (\<lambda>j c. citem_is (rx_nodes e ! j) c) js cs"
    and le: "rx_p e \<le> length pat" and pd: "pending (rx_nodes e) (last (length (rx_nodes e0) # js)) (snd cf) ps"
    and w: "g_items (ps \<noteq> []) (substr pat (rx_p e0) (rx_p e)) (cs @ ps)" by (rule class_invD [OF inv])
  let ?r = "length (rx_nodes e0)"
  let ?z = "last (?r # js)"
  have "substr pat (rx_p e0) (rx_p e) \<noteq> []" using substr_Cons [OF p, of pat] p le by simp
  then have ne: "cs @ ps \<noteq> []" using g_items_nil [OF w] by simp
  show ?thesis
  proof (cases "snd cf = - 1")
    case True
    then have ps: "ps = []" using pd by (simp add: pending_def)
    then obtain j js' where js: "js = j # js'" using ne it by (cases js) auto
    have t': "rn_type (rx_nodes e ! ?r) = (if neg then OP_NCLASS else OP_CLASS)" using t ty by simp
    note fin = class_finish [OF g r l(1) [unfolded js] t' it [unfolded js] p le]
    have "parses pat (pbind (upd_node (int ?r) (\<lambda>n. n\<lparr>rn_left := rn_next n, rn_next := - 1\<rparr>)) (\<lambda>_. preturn (int ?r))) e ?Q"
      by (rule parses_conseq [OF fin]) (use w ps in auto)
    then show ?thesis unfolding rex_class_close_def using True by (simp add: parses_pbind)
  next
    case False
    then obtain j x where j: "snd cf = int j" "?z < j" "j < length (rx_nodes e)" "leaf_is (rx_nodes e ! j) x" "ps = [as_item x]"
      using pd by (auto simp: pending_def)
    have z: "?r \<le> ?z" "?z < length (rx_nodes e)" using linked_bound [OF l(1) r] by auto
    have "parses pat (pbind (upd_node (int ?z) (\<lambda>n. n\<lparr>rn_next := int j\<rparr>)) (\<lambda>_.
       pbind (upd_node (int ?r) (\<lambda>n. n\<lparr>rn_left := rn_next n, rn_next := - 1\<rparr>)) (\<lambda>_. preturn (int ?r)))) e ?Q"
    proof (rule parses_pbind, rule parses_upd [OF g z])
      fix e1
      assume g1: "grown e0 e1 (new[?z - ?r := (rx_nodes e ! ?z)\<lparr>rn_next := int j\<rparr>])" and p1: "rx_p e1 = rx_p e"
        and ns1: "rx_nodes e1 = (rx_nodes e)[?z := (rx_nodes e ! ?z)\<lparr>rn_next := int j\<rparr>]"
      have link: "linked (rx_nodes e1) ?r (js @ [j])" "list_all2 (\<lambda>j c. citem_is (rx_nodes e1 ! j) c) (js @ [j]) (cs @ [as_item x])"
        unfolding ns1 by (rule class_link [OF l(1) r it j(2,3) leaf_isD [OF j(4)]])+
      have t1: "rn_type (rx_nodes e1 ! ?r) = (if neg then OP_NCLASS else OP_CLASS)" unfolding ns1 type_upd_next using t ty by simp
      obtain i is' where "js @ [j] = i # is'" by (cases js) auto
      with link t1 show "parses pat (pbind (upd_node (int ?r) (\<lambda>n. n\<lparr>rn_left := rn_next n, rn_next := - 1\<rparr>)) (\<lambda>_. preturn (int ?r))) e1 ?Q"
        by (intro parses_conseq [OF class_finish [OF g1, where js = is' and j = i]]) (use r p le p1 w j(5) in \<open>auto simp: ns1\<close>)
    qed
    then show ?thesis unfolding rex_class_close_def using False j(1) l(2) by simp
  qed
qed

lemma class_start:
  assumes "grown e e1 [fresh_node ty nsub]" "rx_p e1 = p" "p \<le> length pat"
  shows "class_inv ty (e\<lparr>rx_p := p\<rparr>) pat e1 [] [] (int (length (rx_nodes e))) (- 1)"
  by (rule class_invI [where ps = "[]"]) (use assms in \<open>auto simp: grown_def fresh_node_def pending_def i_none\<close>)

lemma parses_class_body:
  assumes g: "grown e e1 [fresh_node ty nsub]" and p: "rx_p e1 \<le> length pat" and ty: "ty = (if neg then OP_NCLASS else OP_CLASS)"
  shows "parses pat (rex_class_body pat (int (length (rx_nodes e)))) e1 (\<lambda>i e'. \<exists>pd cs.
    new_nodes pat (e\<lparr>rx_p := rx_p e1\<rparr>) i e' (RSet neg cs) \<and> g_items pd (substr pat (rx_p e1) (rx_p e')) cs \<and>
    at_char pat (rx_p e') = CHR '']'' \<and> rx_p e1 < rx_p e')" (is "parses _ _ _ ?Q")
  unfolding rex_class_body_def
proof (rule parses_peek_bind [OF p])
  let ?e0 = "e\<lparr>rx_p := rx_p e1\<rparr>"
  let ?r = "int (length (rx_nodes e))" and ?c = "at_char pat (rx_p e1)"
  have "parses pat (pbind (rex_class_loop pat ?r (- 1)) (rex_class_close ?r)) e1 ?Q" if c: "?c \<noteq> CHR '']''"
  proof (rule parses_then [OF parses_class_loop [where ?e0.0 = ?e0 and ty = ty]])
    show "rx_p e1 \<le> length pat \<longrightarrow> (\<exists>js cs. class_inv ty ?e0 pat e1 js cs ?r (- 1))" using class_start [OF g refl p] by blast
    fix cf e2
    assume *: "at_char pat (rx_p e2) = CHR '']'' \<and> rx_p e1 \<le> rx_p e2 \<and>
      (\<exists>js cs. class_inv ty ?e0 pat e2 js cs (fst cf) (snd cf))"
    then obtain js cs where inv: "class_inv ty ?e0 pat e2 js cs (fst cf) (snd cf)" by blast
    have lt: "rx_p e1 < rx_p e2" using * c by (metis le_neq_implies_less)
    have "parses pat (rex_class_close (int (length (rx_nodes ?e0))) cf) e2 ?Q"
      by (rule parses_conseq [OF parses_class_close [OF inv ty]]) (use * lt in fastforce)+
    then show "parses pat (rex_class_close ?r cf) e2 ?Q" by simp
  qed (use p in simp)
  then show "parses pat (if ?c = CHR '']'' then sqstd_rex_error ''empty class''
      else pbind (rex_class_loop pat ?r (- 1)) (rex_class_close ?r)) e1 ?Q" by simp
qed

lemma new_nodes_p: "new_nodes pat (e\<lparr>rx_p := q\<rparr>) i e' x \<Longrightarrow> rx_p e < rx_p e' \<Longrightarrow> new_nodes pat e i e' x"
  by (simp add: new_nodes_def)

lemma parses_class:
  assumes e: "alloc_ok e" "rx_p e \<le> length pat"
  shows "parses pat (rex_class pat) e (\<lambda>i e'. \<exists>x. new_nodes pat e i e' x \<and> at_char pat (rx_p e') = CHR '']'' \<and>
    g_atom (''['' @ substr pat (rx_p e) (rx_p e') @ '']'') x)" (is "parses _ _ _ ?Q")
  unfolding rex_class_def
proof (rule parses_peek_bind [OF e(2)])
  let ?p = "rx_p e"
  have neg: "parses pat (pbind (rex_newnode OP_NCLASS) (\<lambda>r. pbind adv (\<lambda>_. rex_class_body pat r))) e ?Q" if c: "at_char pat ?p = CHR ''^''"
  proof (rule parses_pbind, rule parses_newnode [OF e(1)])
    have p: "?p < length pat" "pat ! ?p = CHR ''^''" using at_char_in [of pat ?p] c by auto
    fix e1
    assume g: "grown e e1 [fresh_node OP_NCLASS (rx_nsubexpr e)]" and p1: "rx_p e1 = ?p"
    have "grown e (e1\<lparr>rx_p := rx_p e1 + 1\<rparr>) [fresh_node OP_NCLASS (rx_nsubexpr e)]" using g by simp
    from parses_class_body [OF this, of pat True]
    have "parses pat (rex_class_body pat (int (length (rx_nodes e)))) (e1\<lparr>rx_p := rx_p e1 + 1\<rparr>) (\<lambda>i e'. \<exists>pd cs.
        new_nodes pat (e\<lparr>rx_p := ?p + 1\<rparr>) i e' (RSet True cs) \<and> g_items pd (substr pat (?p + 1) (rx_p e')) cs \<and>
        at_char pat (rx_p e') = CHR '']'' \<and> ?p + 1 < rx_p e')"
      using p p1 by simp
    then have "parses pat (rex_class_body pat (int (length (rx_nodes e)))) (e1\<lparr>rx_p := rx_p e1 + 1\<rparr>) ?Q"
    proof (rule parses_conseq, elim exE conjE)
      fix i e' pd cs
      assume n: "new_nodes pat (e\<lparr>rx_p := ?p + 1\<rparr>) i e' (RSet True cs)" and w: "g_items pd (substr pat (?p + 1) (rx_p e')) cs"
        and c': "at_char pat (rx_p e') = CHR '']''" and lt: "?p + 1 < rx_p e'"
      have "rx_p e' \<le> length pat" using n by (simp add: new_nodes_def)
      then have "substr pat (?p + 1) (rx_p e') \<noteq> []" using substr_Cons [OF lt, of pat] lt by simp
      from a_nclass [OF w this] show "\<exists>x. new_nodes pat e i e' x \<and> at_char pat (rx_p e') = CHR '']'' \<and>
          g_atom (''['' @ substr pat ?p (rx_p e') @ '']'') x"
        using new_nodes_p [OF n] c' lt p substr_Cons [of ?p "rx_p e'" pat] by auto
    qed
    then show "parses pat (pbind adv (\<lambda>_. rex_class_body pat (int (length (rx_nodes e))))) e1 ?Q" by (rule parses_adv_bind)
  qed
  have pos: "parses pat (pbind (rex_newnode OP_CLASS) (rex_class_body pat)) e ?Q" if c: "at_char pat ?p \<noteq> CHR ''^''"
  proof (rule parses_pbind, rule parses_newnode [OF e(1)])
    fix e1
    assume g: "grown e e1 [fresh_node OP_CLASS (rx_nsubexpr e)]" and p1: "rx_p e1 = ?p"
    from parses_class_body [OF g, of pat False] e(2) p1
    have "parses pat (rex_class_body pat (int (length (rx_nodes e)))) e1 (\<lambda>i e'. \<exists>pd cs.
        new_nodes pat (e\<lparr>rx_p := ?p\<rparr>) i e' (RSet False cs) \<and> g_items pd (substr pat ?p (rx_p e')) cs \<and>
        at_char pat (rx_p e') = CHR '']'' \<and> ?p < rx_p e')" by simp
    then show "parses pat (rex_class_body pat (int (length (rx_nodes e)))) e1 ?Q"
    proof (rule parses_conseq, elim exE conjE)
      fix i e' pd cs
      assume n: "new_nodes pat (e\<lparr>rx_p := ?p\<rparr>) i e' (RSet False cs)" and w: "g_items pd (substr pat ?p (rx_p e')) cs"
        and c': "at_char pat (rx_p e') = CHR '']''" and lt: "?p < rx_p e'"
      have "rx_p e' \<le> length pat" using n by (simp add: new_nodes_def)
      then have "substr pat ?p (rx_p e') = at_char pat ?p # substr pat (Suc ?p) (rx_p e')"
        using substr_Cons [OF lt, of pat] lt by (simp add: at_char_def)
      then show "\<exists>x. new_nodes pat e i e' x \<and> at_char pat (rx_p e') = CHR '']'' \<and>
          g_atom (''['' @ substr pat ?p (rx_p e') @ '']'') x"
        using a_class [OF w] new_nodes_p [OF n] c' lt c by auto
    qed
  qed
  show "parses pat (if at_char pat ?p = CHR ''^'' then pbind (rex_newnode OP_NCLASS) (\<lambda>r. pbind adv (\<lambda>_. rex_class_body pat r))
      else pbind (rex_newnode OP_CLASS) (rex_class_body pat)) e ?Q" using neg pos by simp
qed

section \<open>Quantifiers\<close>

lemma dec_value_append: "dec_value (u @ v) acc = dec_value v (dec_value u acc)"
  by (induction u arbitrary: acc) auto

lemma schar_digit: "isdigit c \<Longrightarrow> schar c = of_char c"
proof -
  assume d: "isdigit c"
  have w: "(of_char c :: byte) = of_nat (of_char c)" and i: "(of_char c :: int) = int (of_char c)" by (simp_all add: of_char_def)
  have "sint (of_nat n :: byte) = int n" if "n < 128" for n :: nat
    using that by (simp add: signed_of_nat signed_take_bit_int_eq_self)
  then show ?thesis using d by (simp add: schar_def isdigit_def w i)
qed

lemma isdigit_in: "isdigit (at_char pat p) \<Longrightarrow> p < length pat \<and> pat ! p = at_char pat p"
  by (auto simp: at_char_def isdigit_def split: if_splits)

lemma parses_number_loop:
  assumes "rx_p e \<le> length pat"
  shows "parses pat (rex_number_loop pat ret positions) e (\<lambda>n e'. e' = e\<lparr>rx_p := rx_p e'\<rparr> \<and> rx_p e \<le> rx_p e' \<and> rx_p e' \<le> length pat \<and>
    (\<forall>c\<in>set (substr pat (rx_p e) (rx_p e')). isdigit c) \<and> n = dec_value (substr pat (rx_p e) (rx_p e')) ret)" (is "parses _ _ _ (?Q e ret)")
  using assms
proof (induction "Suc (length pat) - rx_p e" arbitrary: e ret positions rule: less_induct)
  case less
  let ?c = "at_char pat (rx_p e)" and ?e = "e\<lparr>rx_p := rx_p e + 1\<rparr>"
  have peek: "peek pat e = Inr (?c, e)" using less.prems by (auto simp: peek_def deref_def at_char_def)
  show ?case
  proof (cases "isdigit ?c \<and> positions \<noteq> 1000000000")
    case True
    then have p: "rx_p e < length pat" "pat ! rx_p e = ?c" using isdigit_in by auto
    have "parses pat (rex_number_loop pat (ret * 10 + (schar ?c - 48)) (positions * 10)) ?e (?Q ?e (ret * 10 + (schar ?c - 48)))"
      by (rule less.hyps) (use p in auto)
    then have "parses pat (rex_number_loop pat (ret * 10 + (schar ?c - 48)) (positions * 10)) ?e (?Q e ret)"
    proof (rule parses_conseq, elim conjE)
      fix n e'
      assume a: "e' = ?e\<lparr>rx_p := rx_p e'\<rparr>" "rx_p ?e \<le> rx_p e'" "rx_p e' \<le> length pat"
        "\<forall>c\<in>set (substr pat (rx_p ?e) (rx_p e')). isdigit c"
        "n = dec_value (substr pat (rx_p ?e) (rx_p e')) (ret * 10 + (schar ?c - 48))"
      have "substr pat (rx_p e) (rx_p e') = ?c # substr pat (rx_p ?e) (rx_p e')" using substr_Cons [of "rx_p e" "rx_p e'" pat] a(2) p by simp
      then show "?Q e ret n e'" using a True by (simp add: schar_digit)
    qed
    then show ?thesis using peek True by (simp add: parses_def rex_number_loop.simps [of pat ret positions e] Let_def)
  next
    case False
    then show ?thesis using peek less.prems by (auto simp: parses_def rex_number_loop.simps [of pat ret positions e] Let_def)
  qed
qed

lemma parses_parsenumber:
  assumes "isdigit (at_char pat (rx_p e))"
  shows "parses pat (rex_parsenumber pat) e (\<lambda>n e'. e' = e\<lparr>rx_p := rx_p e'\<rparr> \<and> rx_p e < rx_p e' \<and> rx_p e' \<le> length pat \<and>
    digits (substr pat (rx_p e) (rx_p e')) \<and> n = dec_value (substr pat (rx_p e) (rx_p e')) 0)" (is "parses _ _ _ ?Q")
proof -
  let ?c = "at_char pat (rx_p e)" and ?e = "e\<lparr>rx_p := rx_p e + 1\<rparr>"
  have p: "rx_p e < length pat" "pat ! rx_p e = ?c" using isdigit_in [OF assms] by auto
  have "parses pat (rex_number_loop pat (schar ?c - 48) 10) ?e ?Q"
  proof (rule parses_conseq [OF parses_number_loop])
    show "rx_p ?e \<le> length pat" using p by simp
    fix n e'
    assume a: "e' = ?e\<lparr>rx_p := rx_p e'\<rparr> \<and> rx_p ?e \<le> rx_p e' \<and> rx_p e' \<le> length pat \<and>
      (\<forall>c\<in>set (substr pat (rx_p ?e) (rx_p e')). isdigit c) \<and> n = dec_value (substr pat (rx_p ?e) (rx_p e')) (schar ?c - 48)"
    then have "substr pat (rx_p e) (rx_p e') = ?c # substr pat (rx_p ?e) (rx_p e')" using substr_Cons [of "rx_p e" "rx_p e'" pat] p by simp
    then show "?Q n e'" using a assms by (simp add: digits_def schar_digit)
  qed
  then show ?thesis unfolding rex_parsenumber_def using p by (intro parses_peek_bind parses_adv_bind) auto
qed

lemma parses_expect:
  assumes "rx_p e \<le> length pat" "at_char pat (rx_p e) = c \<Longrightarrow> Q () (e\<lparr>rx_p := rx_p e + 1\<rparr>)"
  shows "parses pat (rex_expect pat c) e Q"
  unfolding rex_expect_def by (rule parses_peek_bind [OF assms(1)]) (use assms(2) in auto)

lemma number16_range: "0 \<le> number16 ds" "number16 ds < 65536"
  by (simp_all add: number16_def)

lemma parses_braces:
  assumes p: "rx_p e < length pat" "pat ! rx_p e = CHR ''{''"
  shows "parses pat (rex_braces pat) e (\<lambda>b e'. e' = e\<lparr>rx_p := rx_p e'\<rparr> \<and> rx_p e < rx_p e' \<and> rx_p e' \<le> length pat \<and>
    g_quant (substr pat (rx_p e) (rx_p e')) (Some b) \<and> 0 \<le> fst b \<and> fst b < 65536 \<and> 0 \<le> snd b \<and> snd b < 65536)" (is "parses _ _ _ ?Q")
  unfolding rex_braces_def
proof (rule parses_adv_bind, rule parses_peek_bind)
  let ?p = "rx_p e" and ?e = "e\<lparr>rx_p := rx_p e + 1\<rparr>"
  show "rx_p ?e \<le> length pat" using p by simp
  let ?tail = "\<lambda>n. pbind (peek pat) (\<lambda>c.
      if c = CHR ''}'' then pbind adv (\<lambda>_. preturn (n mod 65536, n mod 65536))
      else if c = CHR '','' then
        pbind adv (\<lambda>_. pbind (peek pat) (\<lambda>c.
        pbind (if isdigit c then rex_parsenumber pat else preturn 0xFFFF) (\<lambda>m.
        pbind (rex_expect pat (CHR ''}'')) (\<lambda>_. preturn (n mod 65536, m mod 65536)))))
      else sqstd_rex_error '', or } expected'')"
  have tail: "parses pat (?tail n) e1 ?Q"
    if d: "isdigit (at_char pat (rx_p ?e))" and e1: "e1 = ?e\<lparr>rx_p := rx_p e1\<rparr>" "rx_p ?e < rx_p e1" "rx_p e1 \<le> length pat"
      and ds: "digits (substr pat (rx_p ?e) (rx_p e1))" and n: "n = dec_value (substr pat (rx_p ?e) (rx_p e1)) 0" for n e1
  proof (rule parses_peek_bind [OF e1(3)])
    let ?ds = "substr pat (rx_p ?e) (rx_p e1)" and ?c = "at_char pat (rx_p e1)"
    have n16: "n mod 65536 = number16 ?ds" using n by (simp add: number16_def)
    have upto: "substr pat ?p (rx_p e1) = ''{'' @ ?ds" using substr_Cons [of ?p "rx_p e1" pat] p e1(2) by simp
    have more: "substr pat ?p q = ''{'' @ ?ds @ substr pat (rx_p e1) q" if "rx_p e1 \<le> q" for q
      using substr_append [of ?p "rx_p e1" q pat] upto that e1(2) by simp
    have e1': "e1\<lparr>rx_p := q\<rparr> = e\<lparr>rx_p := q\<rparr>" for q by (subst e1(1)) simp
    show "parses pat (if ?c = CHR ''}'' then pbind adv (\<lambda>_. preturn (n mod 65536, n mod 65536))
      else if ?c = CHR '','' then
        pbind adv (\<lambda>_. pbind (peek pat) (\<lambda>c.
        pbind (if isdigit c then rex_parsenumber pat else preturn 0xFFFF) (\<lambda>m.
        pbind (rex_expect pat (CHR ''}'')) (\<lambda>_. preturn (n mod 65536, m mod 65536)))))
      else sqstd_rex_error '', or } expected'') e1 ?Q"
    proof (cases "?c = CHR ''}'' \<or> ?c = CHR '',''")
      case True
      then have pc: "rx_p e1 < length pat" "pat ! rx_p e1 = ?c" using at_char_in [of pat "rx_p e1"] by auto
      let ?e2 = "e1\<lparr>rx_p := rx_p e1 + 1\<rparr>"
      have one: "substr pat ?p (rx_p e1 + 1) = ''{'' @ ?ds @ [?c]" using more [of "rx_p e1 + 1"] pc by (simp add: substr_one)
      show ?thesis
      proof (cases "?c = CHR ''}''")
        case True
        then show ?thesis using q_exact [OF ds] one pc e1(2) number16_range
          by (auto intro!: parses_adv_bind simp: n16 e1')
      next
        case comma: False
        then have c: "?c = CHR '',''" using True by simp
        let ?d = "at_char pat (rx_p e1 + 1)"
        have fin: "parses pat (pbind (rex_expect pat (CHR ''}'')) (\<lambda>_. preturn (n mod 65536, m mod 65536))) e3 ?Q"
          if e3: "e3 = e1\<lparr>rx_p := q\<rparr>" "rx_p e1 + 1 \<le> q" "q \<le> length pat"
            and q: "g_quant (''{'' @ ?ds @ '','' @ substr pat (rx_p e1 + 1) q @ ''}'') (Some (number16 ?ds, m mod 65536))" for m e3 q
        proof (rule parses_pbind, rule parses_expect)
          assume c3: "at_char pat (rx_p e3) = CHR ''}''"
          then have "q < length pat" "pat ! q = CHR ''}''" using at_char_in [of pat q] e3 by auto
          moreover have "substr pat (rx_p e1) (q + 1) = '','' @ substr pat (rx_p e1 + 1) q @ ''}''"
            using substr_Cons [of "rx_p e1" "q + 1" pat] pc c e3 substr_append [of "rx_p e1 + 1" q "q + 1" pat] calculation
            by (simp add: substr_one)
          ultimately show "parses pat (preturn (n mod 65536, m mod 65536)) (e3\<lparr>rx_p := rx_p e3 + 1\<rparr>) ?Q"
            using q more [of "q + 1"] e3 e1(2) number16_range [of ?ds] by (simp add: n16 e1')
        qed (use e3 in simp)
        have "parses pat (pbind (if isdigit ?d then rex_parsenumber pat else preturn 0xFFFF) (\<lambda>m.
            pbind (rex_expect pat (CHR ''}'')) (\<lambda>_. preturn (n mod 65536, m mod 65536)))) ?e2 ?Q"
        proof (cases "isdigit ?d")
          case True
          have "parses pat (pbind (rex_parsenumber pat) (\<lambda>m.
              pbind (rex_expect pat (CHR ''}'')) (\<lambda>_. preturn (n mod 65536, m mod 65536)))) ?e2 ?Q"
          proof (rule parses_then [OF parses_parsenumber], use True in simp, elim conjE)
            fix m e3
            assume a: "e3 = ?e2\<lparr>rx_p := rx_p e3\<rparr>" "rx_p ?e2 < rx_p e3" "rx_p e3 \<le> length pat"
              "digits (substr pat (rx_p ?e2) (rx_p e3))" "m = dec_value (substr pat (rx_p ?e2) (rx_p e3)) 0"
            have "e3 = e1\<lparr>rx_p := rx_p e3\<rparr>" by (subst a(1)) simp
            from fin [OF this] show "parses pat (pbind (rex_expect pat (CHR ''}'')) (\<lambda>_. preturn (n mod 65536, m mod 65536))) e3 ?Q"
              using q_range [OF ds a(4)] a by (simp add: number16_def)
          qed
          then show ?thesis using True by simp
        next
          case False
          have "parses pat (pbind (rex_expect pat (CHR ''}'')) (\<lambda>_. preturn (n mod 65536, 0xFFFF mod 65536))) ?e2 ?Q"
            by (rule fin [OF refl]) (use pc q_min [OF ds] in simp_all)
          then show ?thesis using False by (auto intro!: parses_pbind [of pat "preturn 65535"])
        qed
        then show ?thesis using c pc by (auto intro!: parses_adv_bind parses_peek_bind)
      qed
    qed auto
  qed
  show "parses pat (if \<not> isdigit (at_char pat (rx_p ?e)) then sqstd_rex_error ''number expected''
      else pbind (rex_parsenumber pat) ?tail) ?e ?Q"
  proof (cases "isdigit (at_char pat (rx_p ?e))")
    case True
    have "parses pat (pbind (rex_parsenumber pat) ?tail) ?e ?Q"
      by (rule parses_then [OF parses_parsenumber [OF True]], elim conjE) (rule tail [OF True])
    then show ?thesis using True by simp
  qed simp
qed

end
