(* ===== verification/Sq_Rex_Compile.thy ===== *)
theory Sq_Rex_Compile
  imports Sq_Rex_Parser
begin

text \<open>
  The rest of the parser of regular expressions - quantifiers, elements and lists - and what
  follows for compiling a pattern, matching with it and searching with it.
\<close>

section \<open>Trees in a growing array of nodes\<close>

text \<open>A tree stays where it is when nodes are added, and the link of its root may change.\<close>

lemma items_is_cong:
  "items_is ns i lo hi cs \<Longrightarrow> hi \<le> length ns' \<Longrightarrow> (\<And>k. lo \<le> k \<Longrightarrow> k < hi \<Longrightarrow> ns' ! k = ns ! k) \<Longrightarrow> items_is ns' i lo hi cs"
proof (induction rule: items_is.induct)
  case (last_item lo i hi c)
  then show ?case by (auto intro!: items_is.last_item)
next
  case (more_items lo i hi c j cs)
  have "ns' ! i = ns ! i" using more_items by auto
  moreover have "items_is ns' j (Suc i) hi cs" using more_items by auto
  ultimately show ?case using more_items by (auto intro!: items_is.more_items)
qed

definition relinked :: "rexnode \<Rightarrow> rexnode \<Rightarrow> bool" where
  "relinked nd nd' \<longleftrightarrow> (\<exists>n. nd' = nd\<lparr>rn_next := n\<rparr>)"

lemma relinked_refl [simp]: "relinked nd nd"
  unfolding relinked_def by (rule exI [of _ "rn_next nd"]) simp

lemma relinked_upd [simp]: "relinked nd (nd\<lparr>rn_next := n\<rparr>)"
  by (auto simp: relinked_def)

lemma relinked_fields:
  "relinked nd nd' \<Longrightarrow> rn_type nd' = rn_type nd \<and> rn_left nd' = rn_left nd \<and> rn_right nd' = rn_right nd"
  by (auto simp: relinked_def)

lemma node_is_cong:
  assumes "nsub \<le> nsub'"
  shows "node_is ns nsub i lo hi x \<Longrightarrow> hi \<le> length ns' \<Longrightarrow> (\<And>k. lo \<le> k \<Longrightarrow> k < hi \<Longrightarrow> k \<noteq> i \<Longrightarrow> ns' ! k = ns ! k) \<Longrightarrow>
      relinked (ns ! i) (ns' ! i) \<Longrightarrow> node_is ns' nsub' i lo hi x"
    and "chain_is ns nsub i lo hi xs \<Longrightarrow> hi \<le> length ns' \<Longrightarrow> (\<And>k. lo \<le> k \<Longrightarrow> k < hi \<Longrightarrow> ns' ! k = ns ! k) \<Longrightarrow>
      chain_is ns' nsub' i lo hi xs"
proof (induction rule: node_is_chain_is.inducts)
  case (n_char i)
  then show ?case using node_is_chain_is.n_char [of i ns' nsub'] relinked_fields [OF n_char(5)] by simp
next
  case (n_dot i)
  then show ?case using relinked_fields [OF n_dot(5)] by (intro node_is_chain_is.n_dot) auto
next
  case (n_eol i)
  then show ?case using relinked_fields [OF n_eol(5)] by (intro node_is_chain_is.n_eol) auto
next
  case (n_bol i)
  then show ?case using relinked_fields [OF n_bol(5)] by (intro node_is_chain_is.n_bol) auto
next
  case (n_cls i)
  then show ?case using node_is_chain_is.n_cls [of i ns' nsub'] relinked_fields [OF n_cls(5)] by simp
next
  case (n_set i neg j hi cs)
  have "items_is ns' j (Suc i) hi cs" by (rule items_is_cong [OF n_set(4,5)]) (use n_set(6) in auto)
  then show ?case using n_set items_is_bounds [OF n_set(4)] relinked_fields [OF n_set(7)]
    by (intro node_is_chain_is.n_set) auto
next
  case (n_wb i)
  then show ?case using node_is_chain_is.n_wb [of i ns' nsub'] relinked_fields [OF n_wb(5)] by simp
next
  case (n_mb i)
  then show ?case using node_is_chain_is.n_mb [of i ns' nsub'] relinked_fields [OF n_mb(6)] by simp
next
  case (n_group i j hi xs)
  have "chain_is ns' nsub' j (Suc i) hi xs" by (rule n_group.IH) (use n_group.prems in auto)
  then show ?case using n_group assms node_is_bounds(2) [OF n_group(4)] relinked_fields [OF n_group.prems(3)]
    by (intro node_is_chain_is.n_group) auto
next
  case (n_alt i j lo xs k hi ys)
  have b: "lo < i" "i < hi" using node_is_bounds(2) [OF n_alt(4)] node_is_bounds(2) [OF n_alt(7)] by auto
  have "chain_is ns' nsub' j lo i xs" by (rule n_alt(5)) (use b n_alt.prems in auto)
  moreover have "chain_is ns' nsub' k (Suc i) hi ys" by (rule n_alt(8)) (use b n_alt.prems in auto)
  ultimately show ?case using n_alt b relinked_fields [OF n_alt.prems(3)]
    by (intro node_is_chain_is.n_alt) auto
next
  case (n_rep i j lo x)
  have b: "lo \<le> j" "j < i" using node_is_bounds(1) [OF n_rep(4)] by auto
  have j: "ns' ! j = ns ! j" using n_rep.prems(2) b by auto
  have "node_is ns' nsub' j lo i x" by (rule n_rep.IH) (use n_rep.prems j in auto)
  then show ?case using n_rep b j node_is_chain_is.n_rep [of i ns' j nsub' lo x] relinked_fields [OF n_rep.prems(3)]
    by (simp add: greedy_min_def greedy_max_def)
next
  case (c_last i lo hi x)
  have b: "lo \<le> i" "i < hi" using node_is_bounds(1) [OF c_last(1)] by auto
  then have i: "ns' ! i = ns ! i" using c_last.prems(2) by auto
  have "node_is ns' nsub' i lo hi x" by (rule c_last.IH) (use c_last.prems i in auto)
  then show ?case using c_last i by (intro node_is_chain_is.c_last) auto
next
  case (c_more i lo m x j hi xs)
  have b: "lo \<le> i" "i < m" "m \<le> j" "j < hi" using node_is_bounds(1) [OF c_more(1)] node_is_bounds(2) [OF c_more(4)] by auto
  then have i: "ns' ! i = ns ! i" using c_more.prems(2) by auto
  have "node_is ns' nsub' i lo m x" by (rule c_more(2)) (use c_more.prems b i in auto)
  moreover have "chain_is ns' nsub' j m hi xs" by (rule c_more(5)) (use c_more.prems b in auto)
  ultimately show ?case using c_more i by (intro node_is_chain_is.c_more) auto
qed

definition grows :: "rex \<Rightarrow> rex \<Rightarrow> bool" where
  "grows e e' \<longleftrightarrow> (\<exists>new. grown e e' new)"

lemma growsI: "grown e e' new \<Longrightarrow> grows e e'"
  by (auto simp: grows_def)

lemma grows_trans: "grows e e' \<Longrightarrow> grows e' e'' \<Longrightarrow> grows e e''"
  unfolding grows_def by (blast intro: grown_trans)

lemma growsD:
  "grows e e' \<Longrightarrow> length (rx_nodes e) \<le> length (rx_nodes e') \<and> rx_nsubexpr e \<le> rx_nsubexpr e' \<and> alloc_ok e' \<and> rx_first e' = rx_first e"
  "grows e e' \<Longrightarrow> k < length (rx_nodes e) \<Longrightarrow> rx_nodes e' ! k = rx_nodes e ! k"
  by (auto simp: grows_def grown_def nth_append)

lemma grows_p [simp]: "grows (e\<lparr>rx_p := p\<rparr>) e' = grows e e'" "grows e (e'\<lparr>rx_p := p\<rparr>) = grows e e'"
  by (simp_all add: grows_def)

text \<open>The nodes added since \<open>e\<close> are those of a tree, or of a sequence of trees.\<close>

definition stands :: "rex \<Rightarrow> rex \<Rightarrow> nat \<Rightarrow> rast \<Rightarrow> bool" where
  "stands e e' j x \<longleftrightarrow> grows e e' \<and> rn_next (rx_nodes e' ! j) = - 1 \<and>
     node_is (rx_nodes e') (rx_nsubexpr e') j (length (rx_nodes e)) (length (rx_nodes e')) x"

definition chained :: "rex \<Rightarrow> rex \<Rightarrow> nat \<Rightarrow> rast list \<Rightarrow> bool" where
  "chained e e' j xs \<longleftrightarrow> grows e e' \<and>
     chain_is (rx_nodes e') (rx_nsubexpr e') j (length (rx_nodes e)) (length (rx_nodes e')) xs"

lemma stands_p [simp]: "stands (e\<lparr>rx_p := p\<rparr>) e' j x = stands e e' j x" "stands e (e'\<lparr>rx_p := p\<rparr>) j x = stands e e' j x"
  by (simp_all add: stands_def)

lemma chained_p [simp]: "chained (e\<lparr>rx_p := p\<rparr>) e' j x = chained e e' j x" "chained e (e'\<lparr>rx_p := p\<rparr>) j x = chained e e' j x"
  by (simp_all add: chained_def)

lemma stands_chained: "stands e e' j x \<Longrightarrow> chained e e' j [x]"
  by (auto simp: stands_def chained_def intro: c_last)

lemma new_nodes_stands: "new_nodes pat e i e' x \<longleftrightarrow> (\<exists>j. i = int j \<and> stands e e' j x) \<and> rx_p e < rx_p e' \<and> rx_p e' \<le> length pat"
  by (auto simp: new_nodes_def stands_def grows_def)

lemma leaf_stands:
  assumes "new_leaf e i e' x"
  shows "\<exists>j. i = int j \<and> stands e e' j x"
proof -
  obtain nd where g: "grown e e' [nd]" "i = int (length (rx_nodes e))" "leaf_is nd x" using assms by (auto simp: new_leaf_def)
  have nd: "rx_nodes e' ! length (rx_nodes e) = nd" "length (rx_nodes e') = Suc (length (rx_nodes e))" using g(1) by (simp_all add: grown_def)
  have "node_is (rx_nodes e') (rx_nsubexpr e') (length (rx_nodes e)) (length (rx_nodes e)) (Suc (length (rx_nodes e))) x"
    using g(3) nd unfolding leaf_is_def by simp
  then have "stands e e' (length (rx_nodes e)) x"
    using growsI [OF g(1)] leaf_isD(1) [OF g(3)] nd unfolding stands_def by simp
  then show ?thesis using g(2) by blast
qed

lemma chained_grow:
  assumes "chained e e' j xs" "grows e' e''"
  shows "chain_is (rx_nodes e'') (rx_nsubexpr e'') j (length (rx_nodes e)) (length (rx_nodes e')) xs"
proof -
  have n: "chain_is (rx_nodes e') (rx_nsubexpr e') j (length (rx_nodes e)) (length (rx_nodes e')) xs" using assms(1) by (simp add: chained_def)
  show ?thesis by (rule node_is_cong(2) [OF _ n]) (use growsD(1) [OF assms(2)] in \<open>simp_all add: growsD(2) [OF assms(2)]\<close>)
qed

lemma stands_grow:
  assumes s: "stands e e' j x" and g: "grows e' e''"
  shows "node_is (rx_nodes e'') (rx_nsubexpr e'') j (length (rx_nodes e)) (length (rx_nodes e')) x"
    "rn_next (rx_nodes e'' ! j) = - 1" "length (rx_nodes e) \<le> j" "j < length (rx_nodes e')"
proof -
  have n: "node_is (rx_nodes e') (rx_nsubexpr e') j (length (rx_nodes e)) (length (rx_nodes e')) x"
    and l: "rn_next (rx_nodes e' ! j) = - 1" using s unfolding stands_def by simp_all
  show j: "length (rx_nodes e) \<le> j" "j < length (rx_nodes e')" using node_is_bounds(1) [OF n] by simp_all
  have same: "rx_nodes e'' ! j = rx_nodes e' ! j" by (rule growsD(2) [OF g j(2)])
  then show "rn_next (rx_nodes e'' ! j) = - 1" using l by simp
  show "node_is (rx_nodes e'') (rx_nsubexpr e'') j (length (rx_nodes e)) (length (rx_nodes e')) x"
    by (rule node_is_cong(1) [OF _ n]) (use growsD(1) [OF g] in \<open>simp_all add: growsD(2) [OF g] same\<close>)
qed

text \<open>A new node, with its fields set.\<close>

lemma parses_node:
  assumes "alloc_ok e"
    and "\<And>e'. grown e e' [g (fresh_node ty (rx_nsubexpr e))] \<Longrightarrow> rx_p e' = rx_p e \<Longrightarrow>
      parses pat (f (int (length (rx_nodes e)))) e' Q"
  shows "parses pat (pbind (rex_newnode ty) (\<lambda>n. pbind (upd_node n g) (\<lambda>_. f n))) e Q"
proof (rule parses_pbind, rule parses_newnode [OF assms(1)])
  fix e1
  assume e1: "grown e e1 [fresh_node ty (rx_nsubexpr e)]" "rx_p e1 = rx_p e"
  then have at: "rx_nodes e1 ! length (rx_nodes e) = fresh_node ty (rx_nsubexpr e)"
    "length (rx_nodes e) < length (rx_nodes e1)" by (auto simp: grown_def)
  show "parses pat (pbind (upd_node (int (length (rx_nodes e))) g) (\<lambda>_. f (int (length (rx_nodes e))))) e1 Q"
    by (rule parses_pbind, rule parses_upd [OF e1(1) order_refl at(2)]) (use assms(2) e1(2) at in auto)
qed

section \<open>Quantifiers\<close>

lemma greedy_bounds_fields:
  assumes "0 \<le> p0" "p0 < 65536" "0 \<le> p1" "p1 < 65536"
  shows "greedy_min (nd\<lparr>rn_right := greedy_bounds p0 p1\<rparr>) = p0" "greedy_max (nd\<lparr>rn_right := greedy_bounds p0 p1\<rparr>) = p1"
proof -
  have r: "0 \<le> p0 * 65536 + p1" "p0 * 65536 + p1 < 4294967296" using assms by auto
  have sint_mod: "sint (word_of_int i :: 32 word) mod 4294967296 = i" if "0 \<le> i" "i < 4294967296" for i
    using that uint_sint [of "word_of_int i :: 32 word"] by (simp add: uint_word_of_int take_bit_eq_mod)
  have "\<exists>k. greedy_bounds p0 p1 = p0 * 65536 + p1 + k * 4294967296"
  proof -
    have "greedy_bounds p0 p1 mod 4294967296 = p0 * 65536 + p1"
      using r sint_mod [of "p0 * 65536 + p1"] unfolding greedy_bounds_def by blast
    then show ?thesis by (metis add.commute mult.commute mod_mult_div_eq)
  qed
  then obtain k where k: "greedy_bounds p0 p1 = p0 * 65536 + p1 + k * 4294967296" by blast
  have eq: "greedy_bounds p0 p1 = p1 + (p0 + k * 65536) * 65536" using k by simp
  have "(p1 + (p0 + k * 65536) * 65536) div 65536 = p0 + k * 65536" "(p1 + (p0 + k * 65536) * 65536) mod 65536 = p1"
    using assms div_mult_self1 [of 65536 p1 "p0 + k * 65536"] mod_mult_self1 [of p1 "p0 + k * 65536" 65536] by simp_all
  then show "greedy_min (nd\<lparr>rn_right := greedy_bounds p0 p1\<rparr>) = p0" "greedy_max (nd\<lparr>rn_right := greedy_bounds p0 p1\<rparr>) = p1"
    unfolding greedy_min_def greedy_max_def using assms by (simp_all add: eq del: distrib_right_numeral)
qed

definition quant_read :: "string \<Rightarrow> rex \<Rightarrow> (int \<times> int) option \<Rightarrow> rex \<Rightarrow> bool" where
  "quant_read pat e b e' \<longleftrightarrow> e' = e\<lparr>rx_p := rx_p e'\<rparr> \<and> rx_p e \<le> rx_p e' \<and> rx_p e' \<le> length pat \<and>
     g_quant (substr pat (rx_p e) (rx_p e')) b \<and>
     (\<forall>p0 p1. b = Some (p0, p1) \<longrightarrow> 0 \<le> p0 \<and> p0 < 65536 \<and> 0 \<le> p1 \<and> p1 < 65536) \<and>
     (rx_p e' = rx_p e \<longrightarrow> at_char pat (rx_p e) \<noteq> CHR ''?'' \<and> at_char pat (rx_p e) \<noteq> CHR ''{'')"

lemma parses_quantifier:
  assumes p: "rx_p e \<le> length pat"
  shows "parses pat (rex_quantifier pat) e (quant_read pat e)"
  unfolding rex_quantifier_def
proof (rule parses_peek_bind [OF p])
  let ?c = "at_char pat (rx_p e)"
  have one: "substr pat (rx_p e) (rx_p e + 1) = [?c]" "rx_p e + 1 \<le> length pat" if "?c \<noteq> CHR 0x00"
    using at_char_in [OF that] by (auto simp: substr_one)
  have "?c = CHR ''{'' \<Longrightarrow> parses pat (rex_braces pat) e (\<lambda>b. quant_read pat e (Some b))"
    using at_char_in [of pat "rx_p e"] by (intro parses_conseq [OF parses_braces]) (auto simp: quant_read_def)
  then show "parses pat (if ?c = CHR ''*'' then pbind adv (\<lambda>_. preturn (Some (0, 0xFFFF)))
       else if ?c = CHR ''+'' then pbind adv (\<lambda>_. preturn (Some (1, 0xFFFF)))
       else if ?c = CHR ''?'' then pbind adv (\<lambda>_. preturn (Some (0, 1)))
       else if ?c = CHR ''{'' then pbind (rex_braces pat) (\<lambda>b. preturn (Some b))
       else preturn None) e (quant_read pat e)"
    using one p by (auto intro!: parses_adv_bind parses_pbind [of pat "rex_braces pat"] elim!: parses_conseq
        simp: quant_read_def intro: g_quant.intros)
qed

lemma parses_greedy:
  assumes s: "stands e0 e j x" and p: "rx_p e \<le> length pat"
  shows "parses pat (rex_greedy pat (int j)) e (\<lambda>i e'. \<exists>k b e1. quant_read pat e b e1 \<and> rx_p e' = rx_p e1 \<and> i = int k \<and>
    stands e0 e' k (quantify b x))" (is "parses _ _ _ ?Q")
  unfolding rex_greedy_def
proof (rule parses_then [OF parses_quantifier [OF p]])
  fix b e1
  assume q: "quant_read pat e b e1"
  then have s1: "stands e0 e1 j x" using s by (metis quant_read_def stands_p(2))
  show "parses pat (case b of Some (p0, p1) \<Rightarrow>
           pbind (rex_newnode OP_GREEDY) (\<lambda>nnode.
           pbind (upd_node nnode (\<lambda>n. n\<lparr>rn_left := int j, rn_right := greedy_bounds p0 p1\<rparr>)) (\<lambda>_. preturn nnode))
       | None \<Rightarrow> preturn (int j)) e1 ?Q"
  proof (cases b)
    case None
    have "stands e0 e1 j (quantify b x)" using s1 None by simp
    then show ?thesis using q None unfolding None option.case parses_return by blast
  next
    case (Some pp)
    obtain p0 p1 where pp: "pp = (p0, p1)" by force
    then have r: "0 \<le> p0" "p0 < 65536" "0 \<le> p1" "p1 < 65536" using q Some by (auto simp: quant_read_def)
    have al: "alloc_ok e1" using s1 growsD(1) [of e0 e1] by (auto simp: stands_def)
    let ?g = "\<lambda>n. n\<lparr>rn_left := int j, rn_right := greedy_bounds p0 p1\<rparr>" and ?n = "length (rx_nodes e1)"
    have "parses pat (pbind (rex_newnode OP_GREEDY) (\<lambda>nnode. pbind (upd_node nnode ?g) (\<lambda>_. preturn nnode))) e1 ?Q"
    proof (rule parses_node [OF al])
      fix e2
      assume g: "grown e1 e2 [?g (fresh_node OP_GREEDY (rx_nsubexpr e1))]" and p2: "rx_p e2 = rx_p e1"
      have nd: "rx_nodes e2 ! ?n = ?g (fresh_node OP_GREEDY (rx_nsubexpr e1))" "length (rx_nodes e2) = Suc ?n" using g by (auto simp: grown_def)
      note st = stands_grow [OF s1 growsI [OF g]]
      have "node_is (rx_nodes e2) (rx_nsubexpr e2) ?n (length (rx_nodes e0)) (Suc ?n) (RRep (greedy_min (rx_nodes e2 ! ?n)) (greedy_max (rx_nodes e2 ! ?n)) x)"
        by (rule n_rep [OF _ _ _ st(1,2)]) (simp_all add: nd, simp add: fresh_node_def)
      moreover have "greedy_min (rx_nodes e2 ! ?n) = p0" "greedy_max (rx_nodes e2 ! ?n) = p1"
        unfolding nd using greedy_bounds_fields [OF r] by simp_all
      moreover have "grows e0 e2" using grows_trans [OF _ growsI [OF g]] s1 by (auto simp: stands_def)
      ultimately have "stands e0 e2 ?n (RRep p0 p1 x)" by (simp add: stands_def nd) (simp add: fresh_node_def)
      then show "parses pat (preturn (int ?n)) e2 ?Q" using q p2 Some pp by fastforce
    qed
    then show ?thesis using Some pp by simp
  qed
qed

section \<open>Elements and lists\<close>

definition atom_read :: "string \<Rightarrow> rex \<Rightarrow> int \<Rightarrow> rex \<Rightarrow> bool" where
  "atom_read pat e i e' \<longleftrightarrow> (\<exists>j x. i = int j \<and> stands e e' j x \<and> g_atom (substr pat (rx_p e) (rx_p e')) x) \<and>
     rx_p e < rx_p e' \<and> rx_p e' \<le> length pat"

definition elems_read :: "string \<Rightarrow> rex \<Rightarrow> int \<Rightarrow> rex \<Rightarrow> bool" where
  "elems_read pat e i e' \<longleftrightarrow> (\<exists>j xs. i = int j \<and> chained e e' j xs \<and> g_elems (substr pat (rx_p e) (rx_p e')) xs) \<and>
     rx_p e < rx_p e' \<and> rx_p e' \<le> length pat"

definition list_read :: "string \<Rightarrow> rex \<Rightarrow> int \<Rightarrow> rex \<Rightarrow> bool" where
  "list_read pat e i e' \<longleftrightarrow> (\<exists>j xs. i = int j \<and> chained e e' j xs \<and> g_list (substr pat (rx_p e) (rx_p e')) xs) \<and>
     rx_p e < rx_p e' \<and> rx_p e' \<le> length pat"

lemma parses_grow_upd:
  assumes g: "grows e0 e" and j: "length (rx_nodes e0) \<le> j" "j < length (rx_nodes e)"
    and q: "\<And>e'. grows e0 e' \<Longrightarrow> rx_p e' = rx_p e \<Longrightarrow> rx_nsubexpr e' = rx_nsubexpr e \<Longrightarrow>
      rx_nodes e' = (rx_nodes e)[j := h (rx_nodes e ! j)] \<Longrightarrow> Q () e'"
  shows "parses pat (upd_node (int j) h) e Q"
proof -
  obtain new where "grown e0 e new" using g by (auto simp: grows_def)
  then show ?thesis by (rule parses_upd [OF _ j]) (use q in \<open>auto intro: growsI\<close>)
qed

text \<open>A group, from behind its opening.\<close>

lemma parses_group:
  assumes list: "parses pat m e1 (list_read pat e1)" and g: "grown e e1 [fresh_node ty (rx_nsubexpr e)]"
    and al: "alloc_ok e"
    and ty: "ty = OP_EXPR \<and> rx_nsubexpr e1 = rx_nsubexpr e + 1 \<or> ty = OP_NOCAPEXPR"
  shows "parses pat (pbind m (\<lambda>newn. pbind (upd_node (int (length (rx_nodes e))) (\<lambda>n. n\<lparr>rn_left := newn\<rparr>)) (\<lambda>_.
      pbind (rex_expect pat (CHR '')'')) (\<lambda>_. preturn (int (length (rx_nodes e))))))) e1
    (\<lambda>i e'. \<exists>xs. i = int (length (rx_nodes e)) \<and> stands e e' (length (rx_nodes e)) (RGroup xs) \<and> rx_p e1 + 1 < rx_p e' \<and> rx_p e' \<le> length pat \<and>
      g_list (substr pat (rx_p e1) (rx_p e' - 1)) xs \<and> substr pat (rx_p e1) (rx_p e') = substr pat (rx_p e1) (rx_p e' - 1) @ '')'')"
    (is "parses _ _ _ ?Q")
proof (rule parses_then [OF list])
  let ?r = "length (rx_nodes e)"
  fix i e2
  assume "list_read pat e1 i e2"
  then obtain j xs where i: "i = int j" and c: "chained e1 e2 j xs" and w: "g_list (substr pat (rx_p e1) (rx_p e2)) xs"
    and p: "rx_p e1 < rx_p e2" "rx_p e2 \<le> length pat" by (auto simp: list_read_def)
  have g12: "grows e1 e2" and ci: "chain_is (rx_nodes e2) (rx_nsubexpr e2) j (length (rx_nodes e1)) (length (rx_nodes e2)) xs"
    using c by (simp_all add: chained_def)
  have e1: "length (rx_nodes e1) = Suc ?r" "rx_nodes e1 ! ?r = fresh_node ty (rx_nsubexpr e)" using g by (simp_all add: grown_def)
  have r: "?r < length (rx_nodes e2)" "rx_nodes e2 ! ?r = fresh_node ty (rx_nsubexpr e)"
    using growsD(1) [OF g12] growsD(2) [OF g12, of ?r] e1 by simp_all
  have nsub: "rx_nsubexpr e1 \<le> rx_nsubexpr e2" "0 \<le> rx_nsubexpr e" using growsD(1) [OF g12] al by (simp_all add: alloc_ok_def)
  show "parses pat (pbind (upd_node (int ?r) (\<lambda>n. n\<lparr>rn_left := i\<rparr>)) (\<lambda>_. pbind (rex_expect pat (CHR '')'')) (\<lambda>_. preturn (int ?r)))) e2 ?Q"
  proof (rule parses_pbind, rule parses_grow_upd [OF grows_trans [OF growsI [OF g] g12] order_refl r(1)])
    fix e3
    assume e3: "grows e e3" "rx_p e3 = rx_p e2" "rx_nsubexpr e3 = rx_nsubexpr e2"
      "rx_nodes e3 = (rx_nodes e2)[?r := (rx_nodes e2 ! ?r)\<lparr>rn_left := i\<rparr>]"
    have nd: "rx_nodes e3 ! ?r = (fresh_node ty (rx_nsubexpr e))\<lparr>rn_left := int j\<rparr>" "length (rx_nodes e3) = length (rx_nodes e2)"
      using e3(4) r i by simp_all
    have "chain_is (rx_nodes e3) (rx_nsubexpr e3) j (Suc ?r) (length (rx_nodes e3)) xs"
      by (rule node_is_cong(2) [OF _ ci [unfolded e1], folded nd(2)]) (use e3 in simp_all)
    then have "node_is (rx_nodes e3) (rx_nsubexpr e3) ?r ?r (length (rx_nodes e3)) (RGroup xs)"
      by (rule n_group [rotated 3]) (use nd r ty e3(3) nsub in \<open>auto simp: fresh_node_def\<close>)
    then have st: "stands e e3 ?r (RGroup xs)" using e3(1) nd(1) by (simp add: stands_def) (simp add: fresh_node_def)
    show "parses pat (pbind (rex_expect pat (CHR '')'')) (\<lambda>_. preturn (int ?r))) e3 ?Q"
    proof (rule parses_pbind, rule parses_expect)
      show "rx_p e3 \<le> length pat" using p e3 by simp
      assume "at_char pat (rx_p e3) = CHR '')''"
      then have "rx_p e2 < length pat" "pat ! rx_p e2 = CHR '')''" using at_char_in [of pat "rx_p e3"] e3(2) by auto
      then show "parses pat (preturn (int ?r)) (e3\<lparr>rx_p := rx_p e3 + 1\<rparr>) ?Q"
        using st w p e3(2) substr_append [of "rx_p e1" "rx_p e2" "Suc (rx_p e2)" pat] by (simp add: substr_one) blast
    qed
  qed
qed

lemma g_nonempty: "g_atom u x \<Longrightarrow> u \<noteq> []" "g_elems u xs \<Longrightarrow> u \<noteq> []" "g_branch u xs \<Longrightarrow> u \<noteq> []" "g_list u xs \<Longrightarrow> u \<noteq> []"
  by (induction rule: g_atom_g_elems_g_branch_g_list.inducts) (auto elim: g_char.cases)

lemma substr_hd: "p < q \<Longrightarrow> q \<le> length pat \<Longrightarrow> hd (substr pat p q) = at_char pat p"
  using substr_Cons [of p q pat] by (simp add: at_char_def)

lemma parses_leaf_atom:
  assumes "alloc_ok e" "leaf_is (fresh_node ty (rx_nsubexpr e)) x" "g_atom [at_char pat (rx_p e)] x" "at_char pat (rx_p e) \<noteq> CHR 0x00"
  shows "parses pat (pbind adv (\<lambda>_. rex_newnode ty)) e (atom_read pat e)"
proof (rule parses_adv_bind)
  have p: "rx_p e < length pat" "pat ! rx_p e = at_char pat (rx_p e)" using at_char_in [OF assms(4)] by auto
  show "parses pat (rex_newnode ty) (e\<lparr>rx_p := rx_p e + 1\<rparr>) (atom_read pat e)"
  proof (rule parses_char)
    fix e'
    assume n: "new_leaf (e\<lparr>rx_p := rx_p e + 1\<rparr>) (int (length (rx_nodes (e\<lparr>rx_p := rx_p e + 1\<rparr>)))) e' x"
      and p': "rx_p e' = rx_p (e\<lparr>rx_p := rx_p e + 1\<rparr>)"
    from leaf_stands [OF n] p' p assms(3)
    show "atom_read pat e (int (length (rx_nodes (e\<lparr>rx_p := rx_p e + 1\<rparr>)))) e'"
      unfolding atom_read_def by (auto simp: substr_one)
  qed (use assms in simp_all)
qed

lemma parses_class_atom:
  assumes e: "alloc_ok e" and c: "at_char pat (rx_p e) = CHR ''[''"
  shows "parses pat (pbind adv (\<lambda>_. pbind (rex_class pat) (\<lambda>ret. pbind (rex_expect pat (CHR '']'')) (\<lambda>_. preturn ret)))) e (atom_read pat e)"
proof (rule parses_adv_bind)
  let ?e = "e\<lparr>rx_p := rx_p e + 1\<rparr>"
  have p: "rx_p e < length pat" "pat ! rx_p e = CHR ''[''" using at_char_in [of pat "rx_p e"] c by auto
  show "parses pat (pbind (rex_class pat) (\<lambda>ret. pbind (rex_expect pat (CHR '']'')) (\<lambda>_. preturn ret))) ?e (atom_read pat e)"
  proof (rule parses_then [OF parses_class], use e p in simp, use p in simp, elim exE conjE)
    fix i e1 x
    assume n: "new_nodes pat ?e i e1 x" and c1: "at_char pat (rx_p e1) = CHR '']''"
      and w: "g_atom (''['' @ substr pat (rx_p ?e) (rx_p e1) @ '']'') x"
    obtain j where j: "i = int j" "stands e e1 j x" "rx_p e + 1 < rx_p e1" using n by (auto simp: new_nodes_stands)
    have p1: "rx_p e1 < length pat" "pat ! rx_p e1 = CHR '']''" using at_char_in [of pat "rx_p e1"] c1 by auto
    have "substr pat (rx_p e) (rx_p e1 + 1) = ''['' @ substr pat (rx_p ?e) (rx_p e1) @ '']''"
      using substr_Cons [of "rx_p e" "rx_p e1" pat] substr_append [of "rx_p e" "rx_p e1" "rx_p e1 + 1" pat] p p1 j(3)
      by (simp add: substr_one)
    with w j p1 show "parses pat (pbind (rex_expect pat (CHR '']'')) (\<lambda>_. preturn i)) e1 (atom_read pat e)"
      by (auto intro!: parses_pbind [of pat "rex_expect _ _"] parses_expect simp: atom_read_def)
  qed
qed

lemma parses_charnode_atom:
  assumes e: "alloc_ok e" "rx_p e \<le> length pat" and c: "at_char pat (rx_p e) \<notin> set ''([$.''"
  shows "parses pat (rex_charnode pat False) e (atom_read pat e)"
proof (rule parses_conseq [OF parses_charnode [OF e]], elim exE conjE)
  fix i e' x
  assume a: "new_leaf e i e' x" "g_char False (substr pat (rx_p e) (rx_p e')) x" "rx_p e < rx_p e'" "rx_p e' \<le> length pat"
  then show "atom_read pat e i e'"
    using leaf_stands [OF a(1)] a_char [OF a(2)] substr_hd [OF a(3,4)] c by (auto simp: atom_read_def)
qed

lemma parses_group_atom:
  assumes e: "alloc_ok e" and c: "at_char pat (rx_p e) = CHR ''(''"
    and list: "\<And>e1. alloc_ok e1 \<Longrightarrow> rx_p e < rx_p e1 \<Longrightarrow> rx_p e1 \<le> length pat \<Longrightarrow> parses pat m e1 (list_read pat e1)"
  shows "parses pat (pbind adv (\<lambda>_. pbind (peek pat) (\<lambda>d.
         pbind (if d = CHR ''?''
                then pbind adv (\<lambda>_. pbind (rex_expect pat (CHR '':'')) (\<lambda>_. rex_newnode OP_NOCAPEXPR))
                else rex_newnode OP_EXPR) (\<lambda>expr.
         pbind m (\<lambda>newn.
         pbind (upd_node expr (\<lambda>n. n\<lparr>rn_left := newn\<rparr>)) (\<lambda>_.
         pbind (rex_expect pat (CHR '')'')) (\<lambda>_. preturn expr))))))) e (atom_read pat e)"
proof (rule parses_adv_bind, rule parses_peek_bind)
  let ?p = "rx_p e" and ?e = "e\<lparr>rx_p := rx_p e + 1\<rparr>"
  let ?tail = "\<lambda>expr. pbind m (\<lambda>newn. pbind (upd_node expr (\<lambda>n. n\<lparr>rn_left := newn\<rparr>)) (\<lambda>_.
         pbind (rex_expect pat (CHR '')'')) (\<lambda>_. preturn expr)))"
  have p: "?p < length pat" "pat ! ?p = CHR ''(''" using at_char_in [of pat ?p] c by auto
  show "rx_p ?e \<le> length pat" using p by simp
  have tail: "parses pat (?tail (int (length (rx_nodes e)))) e1 (atom_read pat e)"
    if g: "grown e e1 [fresh_node ty (rx_nsubexpr e)]" and ty: "ty = OP_EXPR \<and> rx_nsubexpr e1 = rx_nsubexpr e + 1 \<or> ty = OP_NOCAPEXPR"
      and p1: "?p < rx_p e1" "rx_p e1 \<le> length pat"
      and start: "\<And>u xs. g_list u xs \<Longrightarrow> hd u = at_char pat (rx_p e1) \<Longrightarrow> g_atom (substr pat ?p (rx_p e1) @ u @ '')'') (RGroup xs)" for ty e1
  proof (rule parses_conseq [OF parses_group [OF list [OF grown_alloc [OF g] p1] g e ty]], elim exE conjE)
    fix i e' xs
    assume a: "i = int (length (rx_nodes e))" "stands e e' (length (rx_nodes e)) (RGroup xs)" "rx_p e1 + 1 < rx_p e'" "rx_p e' \<le> length pat"
      "g_list (substr pat (rx_p e1) (rx_p e' - 1)) xs" "substr pat (rx_p e1) (rx_p e') = substr pat (rx_p e1) (rx_p e' - 1) @ '')''"
    have "hd (substr pat (rx_p e1) (rx_p e' - 1)) = at_char pat (rx_p e1)" using a(3,4) by (intro substr_hd) auto
    from start [OF a(5) this] have "g_atom (substr pat ?p (rx_p e')) (RGroup xs)"
      using substr_append [of ?p "rx_p e1" "rx_p e'" pat] a(3,6) p1 by simp
    then show "atom_read pat e i e'" using a p1 by (auto simp: atom_read_def)
  qed
  let ?d = "at_char pat (rx_p ?e)"
  show "parses pat (pbind (if ?d = CHR ''?'' then pbind adv (\<lambda>_. pbind (rex_expect pat (CHR '':'')) (\<lambda>_. rex_newnode OP_NOCAPEXPR))
      else rex_newnode OP_EXPR) ?tail) ?e (atom_read pat e)"
  proof (cases "?d = CHR ''?''")
    case True
    then have d: "?p + 1 < length pat" "pat ! (?p + 1) = CHR ''?''" using at_char_in [of pat "?p + 1"] by auto
    let ?e2 = "?e\<lparr>rx_p := rx_p ?e + 1\<rparr>"
    have "parses pat (pbind adv (\<lambda>_. pbind (rex_expect pat (CHR '':'')) (\<lambda>_. rex_newnode OP_NOCAPEXPR))) ?e
        (\<lambda>expr e1. parses pat (?tail expr) e1 (atom_read pat e))"
    proof (rule parses_adv_bind, rule parses_pbind, rule parses_expect)
      show "rx_p ?e2 \<le> length pat" using d by simp
      assume "at_char pat (rx_p ?e2) = CHR '':''"
      then have f: "?p + 2 < length pat" "pat ! (?p + 2) = CHR '':''" using at_char_in [of pat "?p + 2"] by auto
      have w: "substr pat ?p (?p + 3) = ''(?:''" using p d f by (simp add: substr_Cons eval_nat_numeral)
      show "parses pat (rex_newnode OP_NOCAPEXPR) (?e2\<lparr>rx_p := rx_p ?e2 + 1\<rparr>) (\<lambda>expr e1. parses pat (?tail expr) e1 (atom_read pat e))"
      proof (rule parses_newnode)
        fix e1
        assume g: "grown (?e2\<lparr>rx_p := rx_p ?e2 + 1\<rparr>) e1 [fresh_node OP_NOCAPEXPR (rx_nsubexpr (?e2\<lparr>rx_p := rx_p ?e2 + 1\<rparr>))]"
          and p1: "rx_p e1 = rx_p (?e2\<lparr>rx_p := rx_p ?e2 + 1\<rparr>)"
        have "rx_p e1 = ?p + 3" using p1 by simp
        then show "parses pat (?tail (int (length (rx_nodes (?e2\<lparr>rx_p := rx_p ?e2 + 1\<rparr>))))) e1 (atom_read pat e)"
          using tail [of e1 OP_NOCAPEXPR] g f w a_nocap by auto
      qed (use e in simp)
    qed
    then show ?thesis using True by (intro parses_pbind) simp
  next
    case False
    have w: "substr pat ?p (?p + 1) = ''(''" using p by (simp add: substr_one)
    have "parses pat (rex_newnode OP_EXPR) ?e (\<lambda>expr e1. parses pat (?tail expr) e1 (atom_read pat e))"
    proof (rule parses_newnode)
      fix e1
      assume g: "grown ?e e1 [fresh_node OP_EXPR (rx_nsubexpr ?e)]" and p1: "rx_p e1 = rx_p ?e"
        and n: "rx_nsubexpr e1 = rx_nsubexpr ?e + (if OP_EXPR = OP_EXPR then 1 else 0)"
      show "parses pat (?tail (int (length (rx_nodes ?e)))) e1 (atom_read pat e)"
        using tail [of e1 OP_EXPR] g p p1 w n False a_group by auto
    qed (use e in simp)
    then show ?thesis using False by (intro parses_pbind) simp
  qed
qed

lemma parses_atom:
  assumes e: "alloc_ok e" "rx_p e \<le> length pat"
    and list: "\<And>e1. at_char pat (rx_p e) = CHR ''('' \<Longrightarrow> alloc_ok e1 \<Longrightarrow> rx_p e < rx_p e1 \<Longrightarrow> rx_p e1 \<le> length pat \<Longrightarrow>
      parses pat m e1 (list_read pat e1)"
  shows "parses pat (rex_atom m pat) e (atom_read pat e)"
  unfolding rex_atom_def
proof (rule parses_peek_bind [OF e(2)])
  let ?c = "at_char pat (rx_p e)"
  note atom = parses_group_atom [OF e(1) _ list] parses_class_atom [OF e(1), of pat] parses_charnode_atom [OF e]
    parses_leaf_atom [OF e(1) leaf_nodes(1), of pat] parses_leaf_atom [OF e(1) leaf_nodes(2), of pat]
  show "parses pat (if ?c = CHR ''('' then
         pbind adv (\<lambda>_. pbind (peek pat) (\<lambda>d.
         pbind (if d = CHR ''?''
                then pbind adv (\<lambda>_. pbind (rex_expect pat (CHR '':'')) (\<lambda>_. rex_newnode OP_NOCAPEXPR))
                else rex_newnode OP_EXPR) (\<lambda>expr.
         pbind m (\<lambda>newn.
         pbind (upd_node expr (\<lambda>n. n\<lparr>rn_left := newn\<rparr>)) (\<lambda>_.
         pbind (rex_expect pat (CHR '')'')) (\<lambda>_. preturn expr))))))
       else if ?c = CHR ''['' then
         pbind adv (\<lambda>_. pbind (rex_class pat) (\<lambda>ret. pbind (rex_expect pat (CHR '']'')) (\<lambda>_. preturn ret)))
       else if ?c = CHR ''$'' then pbind adv (\<lambda>_. rex_newnode OP_EOL)
       else if ?c = CHR ''.'' then pbind adv (\<lambda>_. rex_newnode OP_DOT)
       else rex_charnode pat False) e (atom_read pat e)"
    using atom a_dot a_eol by simp
qed

section \<open>The parser ends and reads the grammar\<close>

definition branch_read :: "string \<Rightarrow> rex \<Rightarrow> int \<Rightarrow> rex \<Rightarrow> bool" where
  "branch_read pat e i e' \<longleftrightarrow> (\<exists>j xs. i = int j \<and> chained e e' j xs \<and> g_branch (substr pat (rx_p e) (rx_p e')) xs) \<and>
     rx_p e < rx_p e' \<and> rx_p e' \<le> length pat"

lemma readD: "atom_read pat e i e' \<or> elems_read pat e i e' \<or> branch_read pat e i e' \<or> list_read pat e i e' \<Longrightarrow>
    alloc_ok e' \<and> rx_p e < rx_p e' \<and> rx_p e' \<le> length pat"
  unfolding atom_read_def elems_read_def branch_read_def list_read_def stands_def chained_def using growsD(1) [of e e'] by auto

text \<open>Linking the node \<open>j\<close> of a tree to the sequence behind it.\<close>

lemma chained_link:
  assumes s: "stands e e1 j x" and c: "chained e1 e2 k xs"
    and q: "\<And>e3. chained e e3 j (x # xs) \<Longrightarrow> rx_p e3 = rx_p e2 \<Longrightarrow> Q () e3"
  shows "parses pat (upd_node (int j) (\<lambda>n. n\<lparr>rn_next := int k\<rparr>)) e2 Q"
proof -
  have g: "grows e e1" "grows e1 e2" using s c by (simp_all add: stands_def chained_def)
  note st = stands_grow [OF s g(2)]
  have ci: "chain_is (rx_nodes e2) (rx_nsubexpr e2) k (length (rx_nodes e1)) (length (rx_nodes e2)) xs" using c by (simp add: chained_def)
  have j: "j < length (rx_nodes e2)" using st(4) growsD(1) [OF g(2)] by simp
  show ?thesis
  proof (rule parses_grow_upd [OF grows_trans [OF g] st(3) j])
    fix e3
    assume e3: "grows e e3" "rx_p e3 = rx_p e2" "rx_nsubexpr e3 = rx_nsubexpr e2"
      "rx_nodes e3 = (rx_nodes e2)[j := (rx_nodes e2 ! j)\<lparr>rn_next := int k\<rparr>]"
    have len: "length (rx_nodes e3) = length (rx_nodes e2)" "rx_nodes e3 ! j = (rx_nodes e2 ! j)\<lparr>rn_next := int k\<rparr>" using e3(4) j by simp_all
    have "node_is (rx_nodes e3) (rx_nsubexpr e3) j (length (rx_nodes e)) (length (rx_nodes e1)) x"
      by (rule node_is_cong(1) [OF _ st(1)]) (use e3 len growsD(1) [OF g(2)] in simp_all)
    moreover have "chain_is (rx_nodes e3) (rx_nsubexpr e3) k (length (rx_nodes e1)) (length (rx_nodes e3)) xs"
      unfolding len(1) by (rule node_is_cong(2) [OF _ ci]) (use e3 len st(4) in simp_all)
    ultimately have "chained e e3 j (x # xs)" unfolding chained_def using e3(1) len(2) by (auto intro: c_more)
    then show "Q () e3" using q e3(2) by blast
  qed
qed

lemma parses_branch:
  assumes e: "alloc_ok e" "rx_p e \<le> length pat"
    and m: "\<And>e1. alloc_ok e1 \<Longrightarrow> rx_p e \<le> rx_p e1 \<Longrightarrow> rx_p e1 \<le> length pat \<Longrightarrow> parses pat m e1 (elems_read pat e1)"
    and k: "\<And>i e'. branch_read pat e i e' \<Longrightarrow> parses pat (k i) e' Q"
  shows "parses pat (pbind (if at_char pat (rx_p e) = CHR ''^'' then pbind adv (\<lambda>_. rex_newnode OP_BOL) else preturn (- 1)) (\<lambda>bol.
     pbind m (\<lambda>el. pbind (if bol \<noteq> - 1 then pbind (upd_node bol (\<lambda>n. n\<lparr>rn_next := el\<rparr>)) (\<lambda>_. preturn bol) else preturn el) k))) e Q"
proof (cases "at_char pat (rx_p e) = CHR ''^''")
  case True
  let ?p = "rx_p e" and ?e = "e\<lparr>rx_p := rx_p e + 1\<rparr>" and ?b = "int (length (rx_nodes e))"
  have p: "?p < length pat" "pat ! ?p = CHR ''^''" using at_char_in [of pat ?p] True by auto
  have "parses pat (rex_newnode OP_BOL) ?e (\<lambda>bol e1. parses pat (pbind m (\<lambda>el. pbind (if bol \<noteq> - 1 then pbind (upd_node bol (\<lambda>n. n\<lparr>rn_next := el\<rparr>)) (\<lambda>_. preturn bol) else preturn el) k)) e1 Q)"
  proof (rule parses_char [OF _ leaf_nodes(3)])
    fix e1
    assume "new_leaf ?e (int (length (rx_nodes ?e))) e1 RBol" and p1: "rx_p e1 = rx_p ?e"
    then obtain j where j: "?b = int j" "stands e e1 j RBol" using leaf_stands by fastforce
    have "parses pat (pbind m (\<lambda>el. pbind (pbind (upd_node ?b (\<lambda>n. n\<lparr>rn_next := el\<rparr>)) (\<lambda>_. preturn ?b)) k)) e1 Q"
    proof (rule parses_then [OF m])
      show "alloc_ok e1" using j(2) growsD(1) [of e e1] by (simp add: stands_def)
      show "?p \<le> rx_p e1" "rx_p e1 \<le> length pat" using p1 p by simp_all
      fix el e2
      assume "elems_read pat e1 el e2"
      then obtain i xs where i: "el = int i" "chained e1 e2 i xs" "g_elems (substr pat (rx_p e1) (rx_p e2)) xs" "rx_p e1 < rx_p e2" "rx_p e2 \<le> length pat"
        by (auto simp: elems_read_def)
      have w: "substr pat ?p (rx_p e2) = ''^'' @ substr pat (rx_p e1) (rx_p e2)"
        using substr_Cons [of ?p "rx_p e2" pat] p p1 i(4) by simp
      show "parses pat (pbind (pbind (upd_node ?b (\<lambda>n. n\<lparr>rn_next := el\<rparr>)) (\<lambda>_. preturn ?b)) k) e2 Q"
        unfolding j(1) i(1)
      proof (intro parses_pbind, rule chained_link [OF j(2) i(2)])
        fix e3
        assume c: "chained e e3 j (RBol # xs)" and p3: "rx_p e3 = rx_p e2"
        have "branch_read pat e (int j) e3" unfolding branch_read_def p3 w using c b_bol [OF i(3)] i(4,5) p1 by auto
        then show "parses pat (preturn (int j)) e3 (\<lambda>x e'. parses pat (k x) e' Q)" using k by simp
      qed
    qed
    then show "parses pat (pbind m (\<lambda>el. pbind (if int (length (rx_nodes ?e)) \<noteq> - 1 then pbind (upd_node (int (length (rx_nodes ?e))) (\<lambda>n. n\<lparr>rn_next := el\<rparr>))
        (\<lambda>_. preturn (int (length (rx_nodes ?e)))) else preturn el) k)) e1 Q" by simp
  qed (use e in simp)
  then show ?thesis using True by (auto intro!: parses_pbind [of pat "pbind adv _"] parses_adv_bind)
next
  case False
  have "parses pat (pbind m k) e Q"
  proof (rule parses_then [OF m [OF e(1) order_refl e(2)]])
    fix i e'
    assume "elems_read pat e i e'"
    then have "branch_read pat e i e'" using False substr_hd [of "rx_p e" "rx_p e'" pat]
      unfolding elems_read_def branch_read_def by (metis b_elems)
    then show "parses pat (k i) e' Q" by (rule k)
  qed
  moreover have "pbind (preturn el) k = k el" for el by (rule ext) (simp add: pbind_def preturn_def)
  ultimately show ?thesis using False by (auto intro!: parses_pbind [of pat "preturn _"])
qed

lemma parses_alt:
  assumes b: "branch_read pat e i e1"
    and m: "\<And>e2. alloc_ok e2 \<Longrightarrow> rx_p e1 < rx_p e2 \<Longrightarrow> rx_p e2 \<le> length pat \<Longrightarrow> parses pat m e2 (list_read pat e2)"
  shows "parses pat (pbind (peek pat) (\<lambda>c.
       if c = CHR ''|'' then
         pbind adv (\<lambda>_. pbind (rex_newnode OP_OR) (\<lambda>temp.
         pbind (upd_node temp (\<lambda>n. n\<lparr>rn_left := i\<rparr>)) (\<lambda>_.
         pbind m (\<lambda>tright.
         pbind (upd_node temp (\<lambda>n. n\<lparr>rn_right := tright\<rparr>)) (\<lambda>_. preturn temp)))))
       else preturn i)) e1 (list_read pat e)"
proof -
  obtain j xs where j: "i = int j" "chained e e1 j xs" "g_branch (substr pat (rx_p e) (rx_p e1)) xs" "rx_p e < rx_p e1" "rx_p e1 \<le> length pat"
    using b by (auto simp: branch_read_def)
  have al: "alloc_ok e1" using readD [of pat e i e1] b by simp
  let ?p = "rx_p e1" and ?t = "length (rx_nodes e1)"
  have alt: "parses pat (pbind (rex_newnode OP_OR) (\<lambda>temp. pbind (upd_node temp (\<lambda>n. n\<lparr>rn_left := i\<rparr>)) (\<lambda>_. pbind m (\<lambda>tright.
       pbind (upd_node temp (\<lambda>n. n\<lparr>rn_right := tright\<rparr>)) (\<lambda>_. preturn temp))))) (e1\<lparr>rx_p := ?p + 1\<rparr>) (list_read pat e)"
    if c: "at_char pat ?p = CHR ''|''"
  proof (rule parses_node)
    have p: "?p < length pat" "pat ! ?p = CHR ''|''" using at_char_in [of pat ?p] c by auto
    fix e2
    assume "grown (e1\<lparr>rx_p := ?p + 1\<rparr>) e2 [(fresh_node OP_OR (rx_nsubexpr (e1\<lparr>rx_p := ?p + 1\<rparr>)))\<lparr>rn_left := i\<rparr>]"
      and p2: "rx_p e2 = rx_p (e1\<lparr>rx_p := ?p + 1\<rparr>)"
    then have g: "grown e1 e2 [(fresh_node OP_OR (rx_nsubexpr e1))\<lparr>rn_left := i\<rparr>]" by simp
    have e2: "length (rx_nodes e2) = Suc ?t" "rx_nodes e2 ! ?t = (fresh_node OP_OR (rx_nsubexpr e1))\<lparr>rn_left := i\<rparr>" using g by (simp_all add: grown_def)
    have "parses pat (pbind m (\<lambda>tright. pbind (upd_node (int ?t) (\<lambda>n. n\<lparr>rn_right := tright\<rparr>)) (\<lambda>_. preturn (int ?t)))) e2 (list_read pat e)"
    proof (rule parses_then [OF m [OF grown_alloc [OF g]]])
      show "?p < rx_p e2" "rx_p e2 \<le> length pat" using p2 p by simp_all
      fix r e3
      assume "list_read pat e2 r e3"
      then obtain k ys where k: "r = int k" "chained e2 e3 k ys" "g_list (substr pat (rx_p e2) (rx_p e3)) ys" "rx_p e2 < rx_p e3" "rx_p e3 \<le> length pat"
        by (auto simp: list_read_def)
      have g3: "grows e2 e3" using k(2) by (simp add: chained_def)
      have g13: "grows e1 e3" by (rule grows_trans [OF growsI [OF g] g3])
      have g03: "grows e e3" using grows_trans [OF _ g13] j(2) by (simp add: chained_def)
      have t: "?t < length (rx_nodes e3)" "rx_nodes e3 ! ?t = (fresh_node OP_OR (rx_nsubexpr e1))\<lparr>rn_left := i\<rparr>"
        using growsD(1) [OF g3] growsD(2) [OF g3, of ?t] e2 by simp_all
      have lo: "length (rx_nodes e) \<le> ?t" using j(2) growsD(1) [of e e1] by (simp add: chained_def)
      have left: "chain_is (rx_nodes e3) (rx_nsubexpr e3) j (length (rx_nodes e)) ?t xs" by (rule chained_grow [OF j(2) g13])
      have right: "chain_is (rx_nodes e3) (rx_nsubexpr e3) k (Suc ?t) (length (rx_nodes e3)) ys" using k(2) e2(1) by (simp add: chained_def)
      show "parses pat (pbind (upd_node (int ?t) (\<lambda>n. n\<lparr>rn_right := r\<rparr>)) (\<lambda>_. preturn (int ?t))) e3 (list_read pat e)"
      proof (rule parses_pbind, rule parses_grow_upd [OF g03 lo t(1)])
        fix e4
        assume e4: "grows e e4" "rx_p e4 = rx_p e3" "rx_nsubexpr e4 = rx_nsubexpr e3"
          "rx_nodes e4 = (rx_nodes e3)[?t := (rx_nodes e3 ! ?t)\<lparr>rn_right := r\<rparr>]"
        have nd: "length (rx_nodes e4) = length (rx_nodes e3)" "rx_nodes e4 ! ?t = (fresh_node OP_OR (rx_nsubexpr e1))\<lparr>rn_left := int j, rn_right := int k\<rparr>"
          using e4(4) t k(1) j(1) by simp_all
        have l4: "chain_is (rx_nodes e4) (rx_nsubexpr e4) j (length (rx_nodes e)) ?t xs"
          by (rule node_is_cong(2) [OF _ left]) (use e4 t in simp_all)
        have r4: "chain_is (rx_nodes e4) (rx_nsubexpr e4) k (Suc ?t) (length (rx_nodes e4)) ys"
          unfolding nd(1) by (rule node_is_cong(2) [OF _ right]) (use e4 in simp_all)
        have "node_is (rx_nodes e4) (rx_nsubexpr e4) ?t (length (rx_nodes e)) (length (rx_nodes e4)) (RAlt xs ys)"
          by (rule n_alt [OF _ _ _ l4 _ r4]) (use nd t in \<open>simp_all add: fresh_node_def\<close>)
        then have "stands e e4 ?t (RAlt xs ys)" unfolding stands_def using e4(1) nd(2) by (simp add: fresh_node_def)
        from stands_chained [OF this] have ch: "chained e e4 ?t [RAlt xs ys]" .
        have "substr pat (rx_p e) (rx_p e3) = substr pat (rx_p e) ?p @ ''|'' @ substr pat (rx_p e2) (rx_p e3)"
          using substr_append [of "rx_p e" ?p "rx_p e3" pat] substr_Cons [of ?p "rx_p e3" pat] p p2 k(4) j(4) by simp
        then show "parses pat (preturn (int ?t)) e4 (list_read pat e)"
          using ch l_alt [OF j(3) k(3)] e4(2) k(4,5) p2 j(4) unfolding list_read_def by auto
      qed
    qed
    then show "parses pat (pbind m (\<lambda>tright. pbind (upd_node (int (length (rx_nodes (e1\<lparr>rx_p := ?p + 1\<rparr>)))) (\<lambda>n. n\<lparr>rn_right := tright\<rparr>))
        (\<lambda>_. preturn (int (length (rx_nodes (e1\<lparr>rx_p := ?p + 1\<rparr>))))))) e2 (list_read pat e)" by simp
  qed (use al in simp)
  have "list_read pat e i e1" using j unfolding list_read_def by (auto intro: l_one)
  then show ?thesis using alt j(5) by (auto intro!: parses_peek_bind parses_adv_bind)
qed

lemma parses_elements:
  assumes a: "atom_read pat e i e1"
    and m: "\<And>e2. alloc_ok e2 \<Longrightarrow> rx_p e < rx_p e2 \<Longrightarrow> rx_p e2 \<le> length pat \<Longrightarrow> parses pat m e2 (elems_read pat e2)"
  shows "parses pat (pbind (rex_greedy pat i) (\<lambda>ret. pbind (peek pat) (\<lambda>c.
       if \<not> ends_element c then pbind m (\<lambda>nnode. pbind (upd_node ret (\<lambda>n. n\<lparr>rn_next := nnode\<rparr>)) (\<lambda>_. preturn ret))
       else preturn ret))) e1 (elems_read pat e)"
proof -
  obtain j x where j: "i = int j" "stands e e1 j x" "g_atom (substr pat (rx_p e) (rx_p e1)) x" "rx_p e < rx_p e1" "rx_p e1 \<le> length pat"
    using a by (auto simp: atom_read_def)
  show ?thesis unfolding j(1)
  proof (rule parses_then [OF parses_greedy [OF j(2,5)]], elim exE conjE)
    fix ret e2 k b e1'
    assume q: "quant_read pat e1 b e1'" and p2: "rx_p e2 = rx_p e1'" and ret: "ret = int k" and s: "stands e e2 k (quantify b x)"
    let ?x = "quantify b x" and ?c = "at_char pat (rx_p e2)"
    have p: "rx_p e1 \<le> rx_p e2" "rx_p e2 \<le> length pat" using q p2 by (simp_all add: quant_read_def)
    have gq: "g_quant (substr pat (rx_p e1) (rx_p e2)) b" using q p2 by (simp add: quant_read_def)
    have nq: "substr pat (rx_p e1) (rx_p e2) = [] \<Longrightarrow> ?c \<noteq> CHR ''?'' \<and> ?c \<noteq> CHR ''{''"
      using q p2 p substr_Cons [of "rx_p e1" "rx_p e2" pat] by (cases "rx_p e1 = rx_p e2") (auto simp: quant_read_def)
    have w: "substr pat (rx_p e) (rx_p e2) = substr pat (rx_p e) (rx_p e1) @ substr pat (rx_p e1) (rx_p e2)"
      using substr_append [of "rx_p e" "rx_p e1" "rx_p e2" pat] j(4) p(1) by simp
    have al: "alloc_ok e2" using s growsD(1) [of e e2] by (simp add: stands_def)
    have "parses pat (preturn ret) e2 (elems_read pat e)"
      using ret stands_chained [OF s] e_one [OF j(3) gq] w p j(4) by (auto simp: elems_read_def)
    moreover have "parses pat (pbind m (\<lambda>nnode. pbind (upd_node ret (\<lambda>n. n\<lparr>rn_next := nnode\<rparr>)) (\<lambda>_. preturn ret))) e2 (elems_read pat e)"
      if c: "\<not> ends_element ?c"
    proof (rule parses_then [OF m [OF al]])
      show "rx_p e < rx_p e2" "rx_p e2 \<le> length pat" using j(4) p by simp_all
      fix n e3
      assume "elems_read pat e2 n e3"
      then obtain l ys where l: "n = int l" "chained e2 e3 l ys" "g_elems (substr pat (rx_p e2) (rx_p e3)) ys" "rx_p e2 < rx_p e3" "rx_p e3 \<le> length pat"
        by (auto simp: elems_read_def)
      have hd: "hd (substr pat (rx_p e2) (rx_p e3)) = ?c" by (rule substr_hd [OF l(4,5)])
      have "g_elems (substr pat (rx_p e) (rx_p e1) @ substr pat (rx_p e1) (rx_p e2) @ substr pat (rx_p e2) (rx_p e3)) (?x # ys)"
        by (rule e_more [OF j(3) gq l(3)]) (use hd c nq in auto)
      then have g: "g_elems (substr pat (rx_p e) (rx_p e3)) (?x # ys)"
        using substr_append [of "rx_p e" "rx_p e2" "rx_p e3" pat] w p l(4) j(4) by simp
      show "parses pat (pbind (upd_node ret (\<lambda>n'. n'\<lparr>rn_next := n\<rparr>)) (\<lambda>_. preturn ret)) e3 (elems_read pat e)"
        unfolding ret l(1)
        by (rule parses_pbind, rule chained_link [OF s l(2)]) (use g l p j(4) in \<open>auto simp: elems_read_def\<close>)
    qed
    ultimately show "parses pat (pbind (peek pat) (\<lambda>c. if \<not> ends_element c
        then pbind m (\<lambda>nnode. pbind (upd_node ret (\<lambda>n. n\<lparr>rn_next := nnode\<rparr>)) (\<lambda>_. preturn ret)) else preturn ret)) e2 (elems_read pat e)"
      using p(2) by (auto intro!: parses_peek_bind)
  qed
qed

lemma rex_parses:
  "alloc_ok e \<Longrightarrow> rx_p e \<le> length pat \<Longrightarrow> 2 * (length pat - rx_p e) + 2 \<le> f \<Longrightarrow> parses pat (rex_list f pat) e (list_read pat e)"
  "alloc_ok e \<Longrightarrow> rx_p e \<le> length pat \<Longrightarrow> 2 * (length pat - rx_p e) + 1 \<le> f \<Longrightarrow> parses pat (rex_element f pat) e (elems_read pat e)"
proof (induction f arbitrary: e)
  case (Suc f)
  {
    case 1
    show ?case unfolding rex_list.simps
    proof (rule parses_peek_bind [OF 1(2)], rule parses_branch [OF 1(1,2)])
      show "parses pat (rex_element f pat) e1 (elems_read pat e1)" if "alloc_ok e1" "rx_p e \<le> rx_p e1" "rx_p e1 \<le> length pat" for e1
        using Suc.IH(2) [OF that(1,3)] that(2) 1(3) by simp
      fix i e'
      assume b: "branch_read pat e i e'"
      show "parses pat (pbind (peek pat) (\<lambda>c. if c = CHR ''|'' then pbind adv (\<lambda>_. pbind (rex_newnode OP_OR) (\<lambda>temp.
          pbind (upd_node temp (\<lambda>n. n\<lparr>rn_left := i\<rparr>)) (\<lambda>_. pbind (rex_list f pat) (\<lambda>tright.
          pbind (upd_node temp (\<lambda>n. n\<lparr>rn_right := tright\<rparr>)) (\<lambda>_. preturn temp))))) else preturn i)) e' (list_read pat e)"
        by (rule parses_alt [OF b]) (use Suc.IH(1) 1(3) readD [of pat e i e'] b in auto)
    qed
  next
    case 2
    show ?case unfolding rex_element.simps
    proof (rule parses_then [OF parses_atom [OF 2(1,2)]])
      show "parses pat (rex_list f pat) e1 (list_read pat e1)"
        if "at_char pat (rx_p e) = CHR ''(''" "alloc_ok e1" "rx_p e < rx_p e1" "rx_p e1 \<le> length pat" for e1
        using Suc.IH(1) [OF that(2,4)] that(3,4) 2(3) by simp
      fix i e1
      assume a: "atom_read pat e i e1"
      show "parses pat (pbind (rex_greedy pat i) (\<lambda>ret. pbind (peek pat) (\<lambda>c. if \<not> ends_element c
          then pbind (rex_element f pat) (\<lambda>nnode. pbind (upd_node ret (\<lambda>n. n\<lparr>rn_next := nnode\<rparr>)) (\<lambda>_. preturn ret))
          else preturn ret))) e1 (elems_read pat e)"
        by (rule parses_elements [OF a]) (use Suc.IH(2) 2(3) readD [of pat e i e1] a in auto)
    qed
  }
qed simp_all

section \<open>Compiling\<close>

text \<open>
  A compiled expression: its nodes are those of one capturing group, and there is room for
  the matches of all groups.
\<close>

definition compiled :: "rex \<Rightarrow> rast list \<Rightarrow> bool" where
  "compiled e xs \<longleftrightarrow> rx_first e = 0 \<and> node_is (rx_nodes e) (rx_nsubexpr e) 0 0 (length (rx_nodes e)) (RGroup xs) \<and>
     rn_next (rx_nodes e ! 0) = - 1 \<and> int (length (rx_matches e)) = rx_nsubexpr e"

lemma root_finish:
  assumes c: "chained e2 e3 j xs" and e2: "rx_nodes e2 = [fresh_node OP_EXPR 0]" "rx_first e2 = 0" "rx_nsubexpr e2 = 1"
  shows "\<exists>e4. upd_node (rx_first e3) (\<lambda>n. n\<lparr>rn_left := int j\<rparr>) e3 = Inr ((), e4) \<and> rx_p e4 = rx_p e3 \<and>
    compiled (e4\<lparr>rx_matches := replicate (nat (rx_nsubexpr e4)) no_match\<rparr>) xs"
proof -
  have g: "grows e2 e3" using c by (simp add: chained_def)
  have n3: "rx_nodes e3 \<noteq> []" "rx_nodes e3 ! 0 = fresh_node OP_EXPR 0" "rx_first e3 = 0" "1 \<le> rx_nsubexpr e3"
    using growsD(1) [OF g] growsD(2) [OF g, of 0] e2 by auto
  define e4 where "e4 = e3\<lparr>rx_nodes := (rx_nodes e3)[0 := (fresh_node OP_EXPR 0)\<lparr>rn_left := int j\<rparr>]\<rparr>"
  have e4: "upd_node (rx_first e3) (\<lambda>n. n\<lparr>rn_left := int j\<rparr>) e3 = Inr ((), e4)"
    using n3 by (simp add: upd_node_def node_at_def e4_def)
  have ci: "chain_is (rx_nodes e3) (rx_nsubexpr e3) j (Suc 0) (length (rx_nodes e3)) xs" using c e2(1) by (simp add: chained_def)
  have "chain_is (rx_nodes e4) (rx_nsubexpr e3) j (Suc 0) (length (rx_nodes e3)) xs"
    by (rule node_is_cong(2) [OF _ ci]) (simp_all add: e4_def)
  then have "node_is (rx_nodes e4) (rx_nsubexpr e3) 0 0 (length (rx_nodes e3)) (RGroup xs)"
    by (rule n_group [rotated 3]) (use n3 in \<open>auto simp: e4_def fresh_node_def\<close>)
  then have "compiled (e4\<lparr>rx_matches := replicate (nat (rx_nsubexpr e4)) no_match\<rparr>) xs"
    using n3 by (auto simp: compiled_def e4_def fresh_node_def)
  then show ?thesis using e4 by (auto simp: e4_def)
qed

lemma compile_as_bind:
  "bindE (rex_newnode OP_EXPR e0) (\<lambda>(first, e). bindE (Inr ((), e\<lparr>rx_first := first\<rparr>)) (\<lambda>(_, e).
     bindE (rl e) (\<lambda>(res, e). bindE (upd_node (rx_first e) (\<lambda>n. n\<lparr>rn_left := res\<rparr>) e) (\<lambda>(_, e).
     bindE (peek pat e) (\<lambda>(c, e). (if c \<noteq> CHR 0x00 then sqstd_rex_error ''unexpected character''
       else (\<lambda>e. Inr ((), e\<lparr>rx_matches := replicate (nat (rx_nsubexpr e)) no_match\<rparr>))) e))))) =
   bindE (bindE (rex_newnode OP_EXPR e0) (\<lambda>(first, e). bindE (rl (e\<lparr>rx_first := first\<rparr>)) (\<lambda>(res, e).
     bindE (upd_node (rx_first e) (\<lambda>n. n\<lparr>rn_left := res\<rparr>) e) (\<lambda>(_, e). bindE (peek pat e) (\<lambda>(c, e).
       if c \<noteq> CHR 0x00 then Inl (Rex_Error ''unexpected character'')
       else Inr (e\<lparr>rx_matches := replicate (nat (rx_nsubexpr e)) no_match\<rparr>)))))) (\<lambda>e. Inr ((), e))"
  by (auto simp: rex_fail_def bindE_assoc split: prod.splits intro!: bindE_cong)

lemma compile_outcome:
  assumes "pat \<noteq> []" "CHR 0x00 \<notin> set pat"
  shows "case sqstd_rex_compile pat of
      Inl err \<Rightarrow> err \<noteq> Rex_Fuel \<and> (err = Rex_Overrun \<longrightarrow> CHR 0x5C \<in> set pat)
    | Inr e \<Rightarrow> \<exists>xs. g_list pat xs \<and> compiled e xs"
proof -
  let ?m = "pbind (rex_newnode OP_EXPR) (\<lambda>first. pbind (\<lambda>e. Inr ((), e\<lparr>rx_first := first\<rparr>)) (\<lambda>_.
     pbind (rex_list (2 * length pat + 2) pat) (\<lambda>res. pbind (\<lambda>e. upd_node (rx_first e) (\<lambda>n. n\<lparr>rn_left := res\<rparr>) e) (\<lambda>_.
     pbind (peek pat) (\<lambda>c. if c \<noteq> CHR 0x00 then sqstd_rex_error ''unexpected character''
       else (\<lambda>e. Inr ((), e\<lparr>rx_matches := replicate (nat (rx_nsubexpr e)) no_match\<rparr>)))))))"
  let ?Q = "\<lambda>_ e. \<exists>xs. g_list pat xs \<and> compiled e xs"
  have al: "alloc_ok (rex_new pat)" using assms(1) by (cases pat) (auto simp: alloc_ok_def rex_new_def)
  have "parses pat ?m (rex_new pat) ?Q"
  proof (rule parses_pbind, rule parses_newnode [OF al])
    fix e1
    assume g: "grown (rex_new pat) e1 [fresh_node OP_EXPR (rx_nsubexpr (rex_new pat))]" and p: "rx_p e1 = rx_p (rex_new pat)"
      and ns: "rx_nsubexpr e1 = rx_nsubexpr (rex_new pat) + (if OP_EXPR = OP_EXPR then 1 else 0)"
    define e2 where "e2 = e1\<lparr>rx_first := 0\<rparr>"
    have e2: "rx_nodes e2 = [fresh_node OP_EXPR 0]" "alloc_ok e2" "rx_p e2 = 0" "rx_nsubexpr e2 = 1" "rx_first e2 = 0"
      using g p ns by (auto simp: e2_def grown_def alloc_ok_def rex_new_def)
    have "parses pat (pbind (rex_list (2 * length pat + 2) pat) (\<lambda>res. pbind (\<lambda>e. upd_node (rx_first e) (\<lambda>n. n\<lparr>rn_left := res\<rparr>) e) (\<lambda>_.
       pbind (peek pat) (\<lambda>c. if c \<noteq> CHR 0x00 then sqstd_rex_error ''unexpected character''
       else (\<lambda>e. Inr ((), e\<lparr>rx_matches := replicate (nat (rx_nsubexpr e)) no_match\<rparr>)))))) e2 ?Q"
    proof (rule parses_then [OF rex_parses(1) [OF e2(2)]])
      show "rx_p e2 \<le> length pat" "2 * (length pat - rx_p e2) + 2 \<le> 2 * length pat + 2" using e2 by simp_all
      fix i e3
      assume "list_read pat e2 i e3"
      then obtain j xs where j: "i = int j" "chained e2 e3 j xs" "g_list (substr pat 0 (rx_p e3)) xs" "rx_p e3 \<le> length pat"
        using e2(3) by (auto simp: list_read_def)
      obtain e4 where e4: "upd_node (rx_first e3) (\<lambda>n. n\<lparr>rn_left := i\<rparr>) e3 = Inr ((), e4)" "rx_p e4 = rx_p e3"
          "compiled (e4\<lparr>rx_matches := replicate (nat (rx_nsubexpr e4)) no_match\<rparr>) xs"
        using root_finish [OF j(2) e2(1,5,4)] j(1) by blast
      have "rx_p e3 = length pat" if "at_char pat (rx_p e3) = CHR 0x00"
        using that j(4) assms(2) by (metis at_char_def le_neq_implies_less nth_mem)
      then have "at_char pat (rx_p e3) = CHR 0x00 \<Longrightarrow> g_list pat xs" using j(3) by (simp add: substr_def)
      with e4(3) have "parses pat (pbind (peek pat) (\<lambda>c. if c \<noteq> CHR 0x00 then sqstd_rex_error ''unexpected character''
         else (\<lambda>e. Inr ((), e\<lparr>rx_matches := replicate (nat (rx_nsubexpr e)) no_match\<rparr>)))) e4 ?Q"
        using j(4) e4(2) by (intro parses_peek_bind) (auto simp: parses_def rex_fail_def)
      then show "parses pat (pbind (\<lambda>e. upd_node (rx_first e) (\<lambda>n. n\<lparr>rn_left := i\<rparr>) e) (\<lambda>_.
         pbind (peek pat) (\<lambda>c. if c \<noteq> CHR 0x00 then sqstd_rex_error ''unexpected character''
         else (\<lambda>e. Inr ((), e\<lparr>rx_matches := replicate (nat (rx_nsubexpr e)) no_match\<rparr>))))) e3 ?Q"
        using e4(1) by (simp add: parses_def pbind_def)
    qed
    then show "parses pat (pbind (\<lambda>e. Inr ((), e\<lparr>rx_first := int (length (rx_nodes (rex_new pat)))\<rparr>)) (\<lambda>_.
       pbind (rex_list (2 * length pat + 2) pat) (\<lambda>res. pbind (\<lambda>e. upd_node (rx_first e) (\<lambda>n. n\<lparr>rn_left := res\<rparr>) e) (\<lambda>_.
       pbind (peek pat) (\<lambda>c. if c \<noteq> CHR 0x00 then sqstd_rex_error ''unexpected character''
       else (\<lambda>e. Inr ((), e\<lparr>rx_matches := replicate (nat (rx_nsubexpr e)) no_match\<rparr>))))))) e1 ?Q"
      by (simp add: parses_def pbind_def e2_def rex_new_def)
  qed
  moreover have "?m (rex_new pat) = bindE (sqstd_rex_compile pat) (\<lambda>e. Inr ((), e))"
    unfolding sqstd_rex_compile_def pbind_def by (rule compile_as_bind)
  ultimately show ?thesis by (cases "sqstd_rex_compile pat") (auto simp: parses_def)
qed

lemma compile_compiled:
  "sqstd_rex_compile pat = Inr e \<Longrightarrow> pat \<noteq> [] \<Longrightarrow> CHR 0x00 \<notin> set pat \<Longrightarrow> \<exists>xs. g_list pat xs \<and> compiled e xs"
  using compile_outcome [of pat] by simp

section \<open>Matching and searching\<close>

definition within :: "nat \<Rightarrow> nat \<Rightarrow> rex \<Rightarrow> rex" where
  "within a b e = e\<lparr>rx_bol := a, rx_eol := b\<rparr>"

lemma compiled_fits:
  assumes c: "compiled e xs" and t: "a \<le> b" "b \<le> length s"
  shows "fits (within a b e) s (rx_nsubexpr e) (rex_matchnode (rex_fuel (within a b e)) (within a b e) s) 0 None (sem (within a b e) s (RGroup xs))"
proof -
  let ?e = "within a b e"
  have "node_is (rx_nodes ?e) (rx_nsubexpr e) 0 0 (length (rx_nodes ?e)) (RGroup xs)" "rn_next (rx_nodes ?e ! 0) = - 1"
    using c by (auto simp: compiled_def within_def)
  then have "fits ?e s (rx_nsubexpr e) (rex_matchnode (rex_fuel ?e) ?e s) (int 0) None (sem ?e s (RGroup xs))"
    using t by (intro matchnode_fits) (auto simp: text_ok_def within_def link_ok_last depth_of_def rex_fuel_def)
  then show ?thesis by simp
qed

lemma strlen_le: "strlen s \<le> length s"
  by (simp add: strlen_def length_takeWhile_le)

text \<open>
  The states of a compiled expression: any number of matches and searches may have been
  made before.
\<close>

inductive rex_used :: "rex \<Rightarrow> rex \<Rightarrow> bool" for e0 where
  used_compiled: "rex_used e0 e0"
| used_match: "rex_used e0 e \<Longrightarrow> sqstd_rex_match s e = Inr (b, e') \<Longrightarrow> rex_used e0 e'"
| used_search: "rex_used e0 e \<Longrightarrow> t \<le> length s \<Longrightarrow> sqstd_rex_searchrange s a t e = Inr (r, e') \<Longrightarrow> rex_used e0 e'"

definition same_rex :: "rex \<Rightarrow> rex \<Rightarrow> bool" where
  "same_rex e e' \<longleftrightarrow> rx_nodes e' = rx_nodes e \<and> rx_nsubexpr e' = rx_nsubexpr e \<and> rx_first e' = rx_first e \<and>
     length (rx_matches e') = length (rx_matches e)"

lemma compiled_same: "compiled e xs \<Longrightarrow> same_rex e e' \<Longrightarrow> compiled e' xs"
  by (simp add: compiled_def same_rex_def)

lemma match_outcome:
  assumes c: "compiled e xs"
  shows "outcome (has_wb e) (\<lambda>(b, e'). same_rex e e' \<and> (b \<longrightarrow> (0, strlen s) \<in> sem (within 0 (strlen s) e) s (RGroup xs))) (sqstd_rex_match s e)"
proof -
  let ?e = "within 0 (strlen s) e"
  have "caps_ok (rx_nsubexpr e) (0, rx_matches e)" using c by (simp add: caps_ok_def compiled_def)
  from fitsD [OF compiled_fits [OF c _ strlen_le] _ this, of 0]
  have f: "outcome (has_wb ?e) (matched ?e s (sem ?e s (RGroup xs)) 0 (0, rx_matches e)) (rex_matchnode (rex_fuel ?e) ?e s 0 0 None (0, rx_matches e))"
    by simp
  have unf: "sqstd_rex_match s e = bindE (rex_matchnode (rex_fuel ?e) ?e s 0 0 None (0, rx_matches e)) (\<lambda>(res, cur, ms).
      Inr (res = Some (strlen s), ?e\<lparr>rx_currsubexp := cur, rx_matches := ms\<rparr>))"
    by (simp add: sqstd_rex_match_def within_def Let_def)
  have wb: "has_wb ?e = has_wb e" by (simp add: has_wb_def within_def)
  show ?thesis unfolding unf
    by (rule outcome_bind [OF f [unfolded wb]])
      (auto simp del: sem.simps simp: matched_def keeps_def same_rex_def within_def)
qed

lemma search_chain_outcome:
  assumes c: "compiled e xs" and t: "a \<le> b" "b \<le> length s" and i: "i \<le> b" and st: "int (length (snd st)) = rx_nsubexpr e"
  shows "outcome (has_wb e) (\<lambda>(r, n, st'). length (snd st') = length (snd st) \<and>
      (case r of None \<Rightarrow> n = 0 | Some j \<Rightarrow> (i, j) \<in> sem (within a b e) s (RGroup xs) \<and> i \<le> j \<and> j \<le> b))
    (search_chain (length (rx_nodes e) + 1) (within a b e) s 0 i st)"
proof -
  let ?e = "within a b e" and ?k = "length (rx_nodes e)"
  have "caps_ok (rx_nsubexpr e) (0, snd st)" using st by (simp add: caps_ok_def)
  from fitsD [OF compiled_fits [OF c t] _ this, of i] i
  have f: "outcome (has_wb ?e) (matched ?e s (sem ?e s (RGroup xs)) i (0, snd st)) (rex_matchnode (rex_fuel ?e) ?e s 0 i None (0, snd st))"
    by (simp add: within_def)
  have k: "0 < ?k" using c node_is_bounds(1) [of "rx_nodes e" "rx_nsubexpr e" 0 0 ?k "RGroup xs"] by (auto simp: compiled_def)
  then obtain k' where k': "?k = Suc k'" by (cases ?k) auto
  have n: "node_at (rx_nodes ?e) 0 = Inr (rx_nodes e ! 0)" "rn_next (rx_nodes e ! 0) = - 1"
    using k c by (simp_all add: node_at_def within_def compiled_def)
  have unf: "search_chain (?k + 1) ?e s 0 i st = bindE (rex_matchnode (rex_fuel ?e) ?e s 0 i None (0, snd st)) (\<lambda>(r, st).
      case r of None \<Rightarrow> Inr (None, 0, st) | Some cur \<Rightarrow> Inr (Some cur, - 1, st))"
    using n k' by (auto intro!: bindE_cong split: option.splits)
  have wb: "has_wb ?e = has_wb e" by (simp add: has_wb_def within_def)
  show ?thesis unfolding unf
    by (rule outcome_bind [OF f [unfolded wb]])
      (auto simp del: sem.simps simp: matched_def keeps_def within_def split: option.splits)
qed

lemma search_loop_outcome:
  assumes c: "compiled e xs" and t: "b \<le> length s"
  shows "a \<le> i \<Longrightarrow> i + k = b \<Longrightarrow> int (length (snd st)) = rx_nsubexpr e \<Longrightarrow>
    outcome (has_wb e) (\<lambda>(r, st'). length (snd st') = length (snd st) \<and>
      (\<forall>x y. r = Some (x, y) \<longrightarrow> (x, y) \<in> sem (within a b e) s (RGroup xs) \<and> i \<le> x \<and> x \<le> y \<and> x < b \<and> y \<le> b))
    (search_loop k (within a b e) s 0 i st)"
proof (induction k arbitrary: i st)
  case (Suc k)
  have n: "length (rx_nodes (within a b e)) = length (rx_nodes e)" by (simp add: within_def)
  show ?case unfolding search_loop.simps n
  proof (rule outcome_bind [OF search_chain_outcome [OF c _ t, of a i st]])
    fix p :: "nat option \<times> int \<times> caps"
    assume "case p of (r, n, st') \<Rightarrow> length (snd st') = length (snd st) \<and>
      (case r of None \<Rightarrow> n = 0 | Some j \<Rightarrow> (i, j) \<in> sem (within a b e) s (RGroup xs) \<and> i \<le> j \<and> j \<le> b)"
    then obtain r n st' where p: "p = (r, n, st')" "length (snd st') = length (snd st)"
      "case r of None \<Rightarrow> n = 0 | Some j \<Rightarrow> (i, j) \<in> sem (within a b e) s (RGroup xs) \<and> i \<le> j \<and> j \<le> b" by (cases p) auto
    show "outcome (has_wb e) (\<lambda>(r, st'). length (snd st') = length (snd st) \<and>
      (\<forall>x y. r = Some (x, y) \<longrightarrow> (x, y) \<in> sem (within a b e) s (RGroup xs) \<and> i \<le> x \<and> x \<le> y \<and> x < b \<and> y \<le> b))
     (case p of (cur, node, st) \<Rightarrow> (case cur of None \<Rightarrow> search_loop k (within a b e) s node (i + 1) st | Some c \<Rightarrow> Inr (Some (i, c), st)))"
    proof (cases r)
      case None
      have "outcome (has_wb e) (\<lambda>(r, st''). length (snd st'') = length (snd st') \<and>
        (\<forall>x y. r = Some (x, y) \<longrightarrow> (x, y) \<in> sem (within a b e) s (RGroup xs) \<and> i + 1 \<le> x \<and> x \<le> y \<and> x < b \<and> y \<le> b))
        (search_loop k (within a b e) s 0 (i + 1) st')"
        by (rule Suc.IH) (use Suc.prems p in auto)
      then have "outcome (has_wb e) (\<lambda>(r, st''). length (snd st'') = length (snd st) \<and>
        (\<forall>x y. r = Some (x, y) \<longrightarrow> (x, y) \<in> sem (within a b e) s (RGroup xs) \<and> i \<le> x \<and> x \<le> y \<and> x < b \<and> y \<le> b))
        (search_loop k (within a b e) s 0 (i + 1) st')"
        by (rule outcome_weaken) (use p(2) in \<open>auto simp del: sem.simps\<close>)
      then show ?thesis using p None by simp
    next
      case (Some j)
      then show ?thesis using p Suc.prems by (simp del: sem.simps)
    qed
  qed (use Suc.prems in auto)
qed simp

lemma search_outcome:
  assumes c: "compiled e xs" and t: "b \<le> length s"
  shows "outcome (has_wb e) (\<lambda>(r, e'). same_rex e e' \<and>
      (\<forall>x y. r = Some (x, y) \<longrightarrow> (x, y) \<in> sem (within a b e) s (RGroup xs) \<and> a \<le> x \<and> x \<le> y \<and> x < b \<and> y \<le> b))
    (sqstd_rex_searchrange s a b e)"
proof (cases "a \<ge> b")
  case False
  have first: "rx_first (within a b e) = 0" using c by (simp add: compiled_def within_def)
  have st: "int (length (snd (rx_currsubexp e, rx_matches e))) = rx_nsubexpr e" using c by (simp add: compiled_def)
  have unf: "sqstd_rex_searchrange s a b e = bindE (search_loop (b - a) (within a b e) s 0 a (rx_currsubexp e, rx_matches e))
      (\<lambda>(r, cur, ms). Inr (r, (within a b e)\<lparr>rx_currsubexp := cur, rx_matches := ms\<rparr>))"
    using False first by (simp add: sqstd_rex_searchrange_def within_def Let_def)
  show ?thesis unfolding unf
    by (rule outcome_bind [OF search_loop_outcome [OF c t order_refl _ st]])
      (use False in \<open>auto simp del: sem.simps simp: same_rex_def within_def\<close>)
qed (simp add: sqstd_rex_searchrange_def same_rex_def)

lemma used_same: "rex_used e0 e \<Longrightarrow> compiled e0 xs \<Longrightarrow> same_rex e0 e"
proof (induction rule: rex_used.induct)
  case used_compiled
  then show ?case by (simp add: same_rex_def)
next
  case (used_match e s b e')
  then have "same_rex e e'" using match_outcome [OF compiled_same, of e0 xs e s] by simp
  then show ?case using used_match by (simp add: same_rex_def)
next
  case (used_search e t s a r e')
  then have "same_rex e e'" using search_outcome [OF compiled_same, of e0 xs e t s a] by simp
  then show ?case using used_search by (simp add: same_rex_def)
qed

section \<open>Properties\<close>

text \<open>
  C20. \<open>sqstd_rex_compile\<close> always ends. It accepts only patterns of the grammar, and the nodes
  that it makes are those of the syntax tree that the grammar gives the pattern. It reads
  behind the end of the pattern only for a pattern with a backslash.
\<close>

theorem rex_compile_correct:
  assumes "pat \<noteq> []" "CHR 0x00 \<notin> set pat"
  shows "case sqstd_rex_compile pat of
      Inl err \<Rightarrow> err \<noteq> Rex_Fuel \<and> (err = Rex_Overrun \<longrightarrow> CHR 0x5C \<in> set pat)
    | Inr e \<Rightarrow> \<exists>xs. g_list pat xs \<and> compiled e xs"
  using assms by (rule compile_outcome)

definition is_Inr :: "'a + 'b \<Rightarrow> bool" where
  "is_Inr r = (case r of Inl _ \<Rightarrow> False | Inr _ \<Rightarrow> True)"

theorem rex_compile_correct_witness:
  "\<exists>e xs. sqstd_rex_compile ''a(b|c)*d'' = Inr e \<and> g_list ''a(b|c)*d'' xs \<and> compiled e xs"
proof -
  have "is_Inr (sqstd_rex_compile ''a(b|c)*d'')" by code_simp
  then obtain e where "sqstd_rex_compile ''a(b|c)*d'' = Inr e" by (auto simp: is_Inr_def split: sum.splits)
  then show ?thesis using rex_compile_correct [of "''a(b|c)*d''"] by simp
qed

text \<open>
  C7. Matching with a compiled expression, after any number of matches and searches, ends
  with an answer; only the test of a word boundary can read behind the end of the text. When
  it answers that the text matches, the text matches the syntax tree of the pattern, read as
  a regular expression.
\<close>

theorem rex_match_sound:
  assumes "sqstd_rex_compile pat = Inr e0" "pat \<noteq> []" "CHR 0x00 \<notin> set pat" "rex_used e0 e"
  shows "\<exists>xs. g_list pat xs \<and> (case sqstd_rex_match s e of
      Inl err \<Rightarrow> err = Rex_Overrun \<and> has_wb e0
    | Inr (b, e') \<Rightarrow> same_rex e0 e' \<and> (b \<longrightarrow> (0, strlen s) \<in> sem (within 0 (strlen s) e) s (RGroup xs)))"
proof -
  obtain xs where xs: "g_list pat xs" "compiled e0 xs" using compile_compiled [OF assms(1-3)] by blast
  have s: "same_rex e0 e" by (rule used_same [OF assms(4) xs(2)])
  then have "has_wb e = has_wb e0" by (simp add: has_wb_def same_rex_def)
  then show ?thesis using xs(1) match_outcome [OF compiled_same [OF xs(2) s], of s] s
    by (auto simp del: sem.simps simp: outcome_def same_rex_def split: sum.splits intro!: exI [of _ xs])
qed

theorem rex_match_sound_witness:
  "\<exists>e xs e'. sqstd_rex_compile ''a(b|c)*d'' = Inr e \<and> g_list ''a(b|c)*d'' xs \<and> sqstd_rex_match ''abcbd'' e = Inr (True, e') \<and>
     (0, 5) \<in> sem (within 0 5 e) ''abcbd'' (RGroup xs)"
proof -
  have "case sqstd_rex_compile ''a(b|c)*d'' of Inl _ \<Rightarrow> False
      | Inr e \<Rightarrow> (case sqstd_rex_match ''abcbd'' e of Inl _ \<Rightarrow> False | Inr (b, e') \<Rightarrow> b)" by code_simp
  then obtain e e' where e: "sqstd_rex_compile ''a(b|c)*d'' = Inr e" "sqstd_rex_match ''abcbd'' e = Inr (True, e')"
    by (auto split: sum.splits)
  have "strlen ''abcbd'' = 5" by code_simp
  then show ?thesis using rex_match_sound [OF e(1) _ _ used_compiled, of "''abcbd''"] e
    by (simp del: sem.simps) blast
qed

text \<open>
  C21. The same for a search in a part of a text: a match that it reports lies in that part,
  begins before its end, and the syntax tree of the pattern matches there.
\<close>

theorem rex_search_sound:
  assumes "sqstd_rex_compile pat = Inr e0" "pat \<noteq> []" "CHR 0x00 \<notin> set pat" "rex_used e0 e" "b \<le> length s"
  shows "\<exists>xs. g_list pat xs \<and> (case sqstd_rex_searchrange s a b e of
      Inl err \<Rightarrow> err = Rex_Overrun \<and> has_wb e0
    | Inr (r, e') \<Rightarrow> same_rex e0 e' \<and> (\<forall>x y. r = Some (x, y) \<longrightarrow>
        a \<le> x \<and> x \<le> y \<and> x < b \<and> y \<le> b \<and> (x, y) \<in> sem (within a b e) s (RGroup xs)))"
proof -
  obtain xs where xs: "g_list pat xs" "compiled e0 xs" using compile_compiled [OF assms(1-3)] by blast
  have s: "same_rex e0 e" by (rule used_same [OF assms(4) xs(2)])
  then have "has_wb e = has_wb e0" by (simp add: has_wb_def same_rex_def)
  then show ?thesis using xs(1) search_outcome [OF compiled_same [OF xs(2) s] assms(5), of a] s
    by (auto simp del: sem.simps simp: outcome_def same_rex_def split: sum.splits intro!: exI [of _ xs])
qed

theorem rex_search_sound_witness:
  "\<exists>e xs e'. sqstd_rex_compile ''[0-9]+'' = Inr e \<and> g_list ''[0-9]+'' xs \<and>
     sqstd_rex_searchrange ''ab123 d'' 0 7 e = Inr (Some (2, 5), e') \<and> (2, 5) \<in> sem (within 0 7 e) ''ab123 d'' (RGroup xs)"
proof -
  have "case sqstd_rex_compile ''[0-9]+'' of Inl _ \<Rightarrow> False
      | Inr e \<Rightarrow> (case sqstd_rex_searchrange ''ab123 d'' 0 7 e of Inl _ \<Rightarrow> False | Inr (r, e') \<Rightarrow> r = Some (2, 5))" by code_simp
  then obtain e e' where e: "sqstd_rex_compile ''[0-9]+'' = Inr e" "sqstd_rex_searchrange ''ab123 d'' 0 7 e = Inr (Some (2, 5), e')"
    by (auto split: sum.splits)
  show ?thesis using rex_search_sound [OF e(1) _ _ used_compiled, of 7 "''ab123 d''" 0] e
    by (simp del: sem.simps) blast
qed

text \<open>
  The matcher does not take back a repetition: the pattern \<open>a*ab\<close> does not match the text \<open>ab\<close>,
  which it matches as a regular expression.
\<close>

lemma greedy_keeps_what_it_took:
  "case sqstd_rex_compile ''a*ab'' of Inl _ \<Rightarrow> False
   | Inr e \<Rightarrow> (case sqstd_rex_match ''ab'' e of Inl _ \<Rightarrow> False | Inr (b, e') \<Rightarrow> \<not> b)"
  by code_simp

lemma greedy_meaning: "(0, 2) \<in> sem (within 0 2 e) ''ab'' (RGroup [RRep 0 65535 (RChar 97), RChar 97, RChar 98])"
proof -
  have "schar CHR ''a'' = 97" "schar CHR ''b'' = 98" by code_simp+
  then have "(0, 0) \<in> sem (within 0 2 e) ''ab'' (RRep 0 65535 (RChar 97))" "(0, 1) \<in> sem (within 0 2 e) ''ab'' (RChar 97)"
    "(1, 2) \<in> sem (within 0 2 e) ''ab'' (RChar 98)" by (auto simp: within_def intro!: exI [of _ 0])
  then show ?thesis by (auto simp del: sem.simps(1,11))
qed

end
