(* ===== verification/Sq_RefTable.thy ===== *)
theory Sq_RefTable
  imports Sq_Strings
begin

text \<open>
  The table of the objects that the host program holds references to (\<open>RefTable\<close> in
  \<^verbatim>\<open>sqstate.cpp\<close>). It is a hash table with chains through its nodes; the nodes are
  an array, and a pointer to a node is its index.

  A result \<^const>\<open>None\<close> is a failed assertion, the use of a null pointer or a chain that does
  not end.
\<close>

section \<open>The operations\<close>

record refnode =
  rf_obj :: sqobject
  rf_refs :: u64
  rf_next :: "nat option"

record reftable =
  rt_nodes :: "refnode list"
  rt_buckets :: "nat option list"
  rt_freelist :: "nat option"
  rt_slotused :: nat

abbreviation rt_size :: "reftable \<Rightarrow> nat" where
  "rt_size t \<equiv> length (rt_nodes t)"

definition ref_AllocNodes :: "nat \<Rightarrow> reftable" where
  "ref_AllocNodes sz = \<lparr>rt_nodes = map (\<lambda>n. \<lparr>rf_obj = VNull, rf_refs = 0, rf_next = (if n + 1 < sz then Some (n + 1) else None)\<rparr>) [0..<sz],
     rt_buckets = replicate sz None, rt_freelist = Some 0, rt_slotused = 0\<rparr>"

definition ref_new :: reftable where
  "ref_new = ref_AllocNodes 4"

definition ref_Add :: "nat \<Rightarrow> sqobject \<Rightarrow> reftable \<Rightarrow> (nat \<times> reftable) option" where
  "ref_Add mainpos obj t =
     (case rt_freelist t of
        None \<Rightarrow> None
      | Some n \<Rightarrow>
          let nd = rt_nodes t ! n
          in if rf_refs nd \<noteq> 0 then None
             else Some (n, t\<lparr>rt_nodes := (rt_nodes t)[n := nd\<lparr>rf_obj := obj, rf_next := rt_buckets t ! mainpos\<rparr>],
                             rt_buckets := (rt_buckets t)[mainpos := Some n],
                             rt_freelist := rf_next nd,
                             rt_slotused := rt_slotused t + 1\<rparr>))"

definition upd_ref :: "nat \<Rightarrow> (refnode \<Rightarrow> refnode) \<Rightarrow> reftable \<Rightarrow> reftable" where
  "upd_ref i f t = t\<lparr>rt_nodes := (rt_nodes t)[i := f (rt_nodes t ! i)]\<rparr>"

text \<open>The loop of \<open>Resize\<close> over the old nodes, which counts the nodes that it adds back.\<close>

fun ref_readd :: "refnode list \<Rightarrow> nat \<Rightarrow> reftable \<Rightarrow> (nat \<times> reftable) option" where
  "ref_readd [] nfound t = Some (nfound, t)"
| "ref_readd (nd # nds) nfound t =
     (if rf_obj nd = VNull then ref_readd nds nfound t
      else if rf_refs nd = 0 then None
      else ref_Add (slot_of (rt_size t) (HashObj (rf_obj nd))) (rf_obj nd) t \<bind> (\<lambda>(nn, t).
           ref_readd nds (nfound + 1) (upd_ref nn (\<lambda>n. n\<lparr>rf_refs := rf_refs nd\<rparr>) t)))"

definition ref_Resize :: "nat \<Rightarrow> reftable \<Rightarrow> reftable option" where
  "ref_Resize sz t =
     ref_readd (rt_nodes t) 0 (ref_AllocNodes sz) \<bind> (\<lambda>(nfound, t').
     if nfound = rt_size t then Some t' else None)"

text \<open>The search in a chain returns the node, if any, and the node before it. A chain has no more nodes than the table.\<close>

fun ref_find :: "nat \<Rightarrow> refnode list \<Rightarrow> sqobject \<Rightarrow> nat option \<Rightarrow> nat option \<Rightarrow> (nat option \<times> nat option) option" where
  "ref_find 0 ns obj prev ref = None"
| "ref_find (Suc k) ns obj prev ref =
     (case ref of
        None \<Rightarrow> Some (None, prev)
      | Some i \<Rightarrow> if rf_obj (ns ! i) = obj then Some (Some i, prev) else ref_find k ns obj (Some i) (rf_next (ns ! i)))"

definition ref_Get :: "sqobject \<Rightarrow> bool \<Rightarrow> reftable \<Rightarrow> (nat option \<times> nat \<times> nat option \<times> reftable) option" where
  "ref_Get obj add t =
     (let mainpos = slot_of (rt_size t) (HashObj obj)
      in ref_find (rt_size t + 1) (rt_nodes t) obj None (rt_buckets t ! mainpos) \<bind> (\<lambda>(ref, prev).
         if ref = None \<and> add then
           (if rt_size t = rt_slotused t then
              (if rt_freelist t \<noteq> None then None
               else ref_Resize (rt_size t * 2) t \<bind> (\<lambda>t. Some (slot_of (rt_size t) (HashObj obj), t)))
            else Some (mainpos, t)) \<bind> (\<lambda>(mainpos, t).
           ref_Add mainpos obj t \<bind> (\<lambda>(n, t). Some (Some n, mainpos, prev, t)))
         else Some (ref, mainpos, prev, t)))"

definition ref_AddRef :: "sqobject \<Rightarrow> reftable \<Rightarrow> reftable option" where
  "ref_AddRef obj t =
     ref_Get obj True t \<bind> (\<lambda>(ref, _, _, t).
     map_option (\<lambda>i. upd_ref i (\<lambda>n. n\<lparr>rf_refs := rf_refs n + 1\<rparr>) t) ref)"

definition ref_GetRefCount :: "sqobject \<Rightarrow> reftable \<Rightarrow> (u64 \<times> reftable) option" where
  "ref_GetRefCount obj t =
     ref_Get obj True t \<bind> (\<lambda>(ref, _, _, t).
     map_option (\<lambda>i. (rf_refs (rt_nodes t ! i), t)) ref)"

definition ref_unlink :: "nat \<Rightarrow> nat \<Rightarrow> nat option \<Rightarrow> reftable \<Rightarrow> reftable" where
  "ref_unlink i mainpos prev t =
     (let nxt = rf_next (rt_nodes t ! i);
          t = (case prev of
                 Some p \<Rightarrow> upd_ref p (\<lambda>n. n\<lparr>rf_next := nxt\<rparr>) t
               | None \<Rightarrow> t\<lparr>rt_buckets := (rt_buckets t)[mainpos := nxt]\<rparr>)
      in (upd_ref i (\<lambda>n. n\<lparr>rf_next := rt_freelist t, rf_obj := VNull\<rparr>) t)
           \<lparr>rt_freelist := Some i, rt_slotused := rt_slotused t - 1\<rparr>)"

definition ref_Release :: "sqobject \<Rightarrow> reftable \<Rightarrow> (bool \<times> reftable) option" where
  "ref_Release obj t =
     ref_Get obj False t \<bind> (\<lambda>(ref, mainpos, prev, t).
     map_option (\<lambda>i.
       let t = upd_ref i (\<lambda>n. n\<lparr>rf_refs := rf_refs n - 1\<rparr>) t
       in if rf_refs (rt_nodes t ! i) = 0 then (True, ref_unlink i mainpos prev t) else (False, t)) ref)"

text \<open>The objects that \<open>Mark\<close> marks, and \<open>Finalize\<close>.\<close>

definition ref_Mark :: "reftable \<Rightarrow> sqobject list" where
  "ref_Mark t = filter (\<lambda>o'. sq_type o' \<noteq> OT_NULL) (map rf_obj (rt_nodes t))"

definition ref_Finalize :: "reftable \<Rightarrow> reftable" where
  "ref_Finalize t = t\<lparr>rt_nodes := map (\<lambda>n. n\<lparr>rf_obj := VNull\<rparr>) (rt_nodes t)\<rparr>"

text \<open>The functions of the embedding API: objects without a reference count are left alone.\<close>

definition sq_addref :: "sqobject \<Rightarrow> reftable \<Rightarrow> reftable option" where
  "sq_addref po t = (if \<not> ISREFCOUNTED (sq_type po) then Some t else ref_AddRef po t)"

definition sq_getrefcount :: "sqobject \<Rightarrow> reftable \<Rightarrow> (u64 \<times> reftable) option" where
  "sq_getrefcount po t = (if \<not> ISREFCOUNTED (sq_type po) then Some (0, t) else ref_GetRefCount po t)"

definition sq_release :: "sqobject \<Rightarrow> reftable \<Rightarrow> (bool \<times> reftable) option" where
  "sq_release po t = (if \<not> ISREFCOUNTED (sq_type po) then Some (True, t) else ref_Release po t)"

end
