(* ===== verification/Sq_Simulation.thy ===== *)
theory Sq_Simulation
  imports Sq_Prelude
begin

text \<open>
  Sequences of operations on a state, and the locale of a simulation: where the specification allows
  an operation, the program performs it with the same output and keeps the abstraction.
\<close>

fun run_ops :: "('op \<Rightarrow> 's \<Rightarrow> ('out \<times> 's) option) \<Rightarrow> 'op list \<Rightarrow> 's \<Rightarrow> ('out list \<times> 's) option" where
  "run_ops step [] s = Some ([], s)"
| "run_ops step (op # ops) s = step op s \<bind> (\<lambda>(x, s). map_option (\<lambda>(xs, s). (x # xs, s)) (run_ops step ops s))"

locale simulation =
  fixes inv :: "'c \<Rightarrow> bool"
    and abs :: "'c \<Rightarrow> 'a"
    and cstep :: "'op \<Rightarrow> 'c \<Rightarrow> ('out \<times> 'c) option"
    and astep :: "'op \<Rightarrow> 'a \<Rightarrow> ('out \<times> 'a) option"
  assumes step_law: "inv c \<Longrightarrow> astep op (abs c) = Some (x, a) \<Longrightarrow> \<exists>c'. cstep op c = Some (x, c') \<and> inv c' \<and> abs c' = a"
begin

lemma run_law: "inv c \<Longrightarrow> run_ops astep ops (abs c) = Some (xs, a) \<Longrightarrow> \<exists>c'. run_ops cstep ops c = Some (xs, c') \<and> inv c' \<and> abs c' = a"
proof (induction ops arbitrary: c xs)
  case (Cons op ops)
  obtain x a1 ys where 1: "astep op (abs c) = Some (x, a1)" "run_ops astep ops a1 = Some (ys, a)" "xs = x # ys"
    using Cons.prems(2) by (auto simp: bind_eq_Some_conv)
  obtain c1 where c1: "cstep op c = Some (x, c1)" "inv c1" "abs c1 = a1" using step_law [OF Cons.prems(1) 1(1)] by blast
  then show ?case using Cons.IH [of c1 ys] 1 by auto
qed simp

end

text \<open>
  The same with a relation in place of an abstraction function, for states of the program that do not
  determine the state of the specification.
\<close>

locale relational_simulation =
  fixes rel :: "'c \<Rightarrow> 'a \<Rightarrow> bool"
    and cstep :: "'op \<Rightarrow> 'c \<Rightarrow> ('out \<times> 'c) option"
    and astep :: "'op \<Rightarrow> 'a \<Rightarrow> ('out \<times> 'a) option"
  assumes rel_step_law: "rel c a \<Longrightarrow> astep op a = Some (x, a') \<Longrightarrow> \<exists>c'. cstep op c = Some (x, c') \<and> rel c' a'"
begin

lemma rel_run_law: "rel c a \<Longrightarrow> run_ops astep ops a = Some (xs, a') \<Longrightarrow> \<exists>c'. run_ops cstep ops c = Some (xs, c') \<and> rel c' a'"
proof (induction ops arbitrary: c a xs)
  case (Cons op ops)
  obtain x a1 ys where 1: "astep op a = Some (x, a1)" "run_ops astep ops a1 = Some (ys, a')" "xs = x # ys"
    using Cons.prems(2) by (auto simp: bind_eq_Some_conv)
  obtain c1 where c1: "cstep op c = Some (x, c1)" "rel c1 a1" using rel_step_law [OF Cons.prems(1) 1(1)] by blast
  then show ?case using Cons.IH [of c1 a1 ys] 1 by auto
qed simp

end

sublocale simulation \<subseteq> as_relation: relational_simulation "\<lambda>c a. inv c \<and> abs c = a" cstep astep
  by unfold_locales (use step_law in blast)

end
