(* ===== verification/Sq_RefTable_Correct.thy ===== *)
theory Sq_RefTable_Correct
  imports Sq_RefTable Sq_Simulation
begin

text \<open>
  The reference table counts: the invariant of its chains, the laws of its operations, and
  the contract with the host program as a locale, which the table is shown to meet.
\<close>

section \<open>Chains\<close>

fun rchain :: "refnode list \<Rightarrow> nat option \<Rightarrow> nat list \<Rightarrow> bool" where
  "rchain ns p [] \<longleftrightarrow> p = None"
| "rchain ns p (x # xs) \<longleftrightarrow> p = Some x \<and> x < length ns \<and> rchain ns (rf_next (ns ! x)) xs"

lemma rchain_upd: "rchain ns p xs \<Longrightarrow> i \<notin> set xs \<Longrightarrow> rchain (ns[i := nd]) p xs"
  by (induction xs arbitrary: p) auto

lemma rchain_upd_same: "rf_next nd = rf_next (ns ! i) \<Longrightarrow> rchain (ns[i := nd]) p xs = rchain ns p xs"
proof (induction xs arbitrary: p)
  case (Cons x xs)
  have "rf_next (ns[i := nd] ! x) = rf_next (ns ! x)" if "x < length ns" using Cons.prems that by (cases "x = i") simp_all
  then show ?case using Cons by (cases "x < length ns") simp_all
qed simp

lemma rchain_bound: "rchain ns p xs \<Longrightarrow> x \<in> set xs \<Longrightarrow> x < length ns"
  by (induction xs arbitrary: p) auto

lemma rchain_unlink:
  "rchain ns p (us @ i # vs) \<Longrightarrow> us \<noteq> [] \<Longrightarrow> distinct (us @ i # vs) \<Longrightarrow>
     rchain (ns[last us := (ns ! last us)\<lparr>rf_next := rf_next (ns ! i)\<rparr>]) p (us @ vs)"
proof (induction us arbitrary: p)
  case (Cons u us)
  show ?case
  proof (cases us)
    case Nil
    then show ?thesis using Cons.prems by (auto intro: rchain_upd)
  next
    case (Cons a list)
    have "u \<noteq> last us" using Cons.prems(3) Cons by auto
    then show ?thesis using Cons.IH [of "rf_next (ns ! u)"] Cons.prems Cons by auto
  qed
qed simp

lemma ref_find_spec:
  "rchain ns p xs \<Longrightarrow> length xs < k \<Longrightarrow> \<exists>ref prev'. ref_find k ns obj prev p = Some (ref, prev') \<and>
     (case ref of
        None \<Rightarrow> \<forall>x\<in>set xs. rf_obj (ns ! x) \<noteq> obj
      | Some i \<Rightarrow> \<exists>us vs. xs = us @ i # vs \<and> rf_obj (ns ! i) = obj \<and> prev' = (if us = [] then prev else Some (last us)))"
proof (induction xs arbitrary: p k prev)
  case Nil
  then show ?case by (cases k) auto
next
  case (Cons x xs)
  then obtain k' where k: "k = Suc k'" by (cases k) auto
  show ?case
  proof (cases "rf_obj (ns ! x) = obj")
    case True
    then show ?thesis using Cons.prems k by (auto intro!: exI [of _ "[]"])
  next
    case False
    obtain ref prev' where *: "ref_find k' ns obj (Some x) (rf_next (ns ! x)) = Some (ref, prev')"
      "case ref of None \<Rightarrow> \<forall>x\<in>set xs. rf_obj (ns ! x) \<noteq> obj
        | Some i \<Rightarrow> \<exists>us vs. xs = us @ i # vs \<and> rf_obj (ns ! i) = obj \<and> prev' = (if us = [] then Some x else Some (last us))"
      using Cons.IH [of "rf_next (ns ! x)" k' "Some x"] Cons.prems k by auto
    show ?thesis
    proof (cases ref)
      case None
      then show ?thesis using * False Cons.prems k by auto
    next
      case (Some i)
      then obtain us vs where u: "xs = us @ i # vs" "rf_obj (ns ! i) = obj" "prev' = (if us = [] then Some x else Some (last us))"
        using * by auto
      have "x # xs = (x # us) @ i # vs" "prev' = Some (last (x # us))" using u by auto
      moreover have "ref_find k ns obj prev p = Some (Some i, prev')" using *(1) False Cons.prems k Some by simp
      moreover have "\<exists>us' vs'. x # xs = us' @ i # vs' \<and> rf_obj (ns ! i) = obj \<and> prev' = (if us' = [] then prev else Some (last us'))"
        by (rule exI [of _ "x # us"], rule exI [of _ vs]) (use u in auto)
      ultimately show ?thesis by (intro exI [of _ "Some i"] exI [of _ prev']) simp
    qed
  qed
qed

section \<open>The invariant\<close>

definition at_slot :: "reftable \<Rightarrow> nat \<Rightarrow> nat set" where
  "at_slot t h = {x. x < rt_size t \<and> rf_obj (rt_nodes t ! x) \<noteq> VNull \<and> slot_of (rt_size t) (HashObj (rf_obj (rt_nodes t ! x))) = h}"

definition frees :: "reftable \<Rightarrow> nat set" where
  "frees t = {x. x < rt_size t \<and> rf_obj (rt_nodes t ! x) = VNull}"

text \<open>\<open>list_of ns p S\<close>: following the links from \<open>p\<close> visits every node of \<open>S\<close> once.\<close>

definition list_of :: "refnode list \<Rightarrow> nat option \<Rightarrow> nat set \<Rightarrow> bool" where
  "list_of ns p S \<longleftrightarrow> (\<exists>xs. rchain ns p xs \<and> distinct xs \<and> set xs = S)"

definition rt_inv :: "reftable \<Rightarrow> bool" where
  "rt_inv t \<longleftrightarrow> 0 < rt_size t \<and> length (rt_buckets t) = rt_size t \<and>
     (\<forall>h<rt_size t. list_of (rt_nodes t) (rt_buckets t ! h) (at_slot t h)) \<and>
     list_of (rt_nodes t) (rt_freelist t) (frees t) \<and>
     (\<forall>x<rt_size t. rf_obj (rt_nodes t ! x) = VNull \<longrightarrow> rf_refs (rt_nodes t ! x) = 0) \<and>
     (\<forall>x<rt_size t. \<forall>y<rt_size t. rf_obj (rt_nodes t ! x) = rf_obj (rt_nodes t ! y) \<longrightarrow> rf_obj (rt_nodes t ! x) \<noteq> VNull \<longrightarrow> x = y) \<and>
     rt_slotused t = length (filter (\<lambda>nd. rf_obj nd \<noteq> VNull) (rt_nodes t))"

lemma rt_invD:
  assumes "rt_inv t"
  shows "0 < rt_size t" "length (rt_buckets t) = rt_size t"
    "\<And>h. h < rt_size t \<Longrightarrow> list_of (rt_nodes t) (rt_buckets t ! h) (at_slot t h)"
    "list_of (rt_nodes t) (rt_freelist t) (frees t)"
    "\<And>x. x < rt_size t \<Longrightarrow> rf_obj (rt_nodes t ! x) = VNull \<Longrightarrow> rf_refs (rt_nodes t ! x) = 0"
    "\<And>x y. x < rt_size t \<Longrightarrow> y < rt_size t \<Longrightarrow> rf_obj (rt_nodes t ! x) = rf_obj (rt_nodes t ! y) \<Longrightarrow> rf_obj (rt_nodes t ! x) \<noteq> VNull \<Longrightarrow> x = y"
    "rt_slotused t = length (filter (\<lambda>nd. rf_obj nd \<noteq> VNull) (rt_nodes t))"
  using assms unfolding rt_inv_def by blast+

text \<open>The counts that the table stands for.\<close>

definition ref_map :: "reftable \<Rightarrow> sqobject \<rightharpoonup> u64" where
  "ref_map t = (map_of (map (\<lambda>nd. (rf_obj nd, rf_refs nd)) (rt_nodes t)))(VNull := None)"

lemma ref_map_Some:
  assumes "rt_inv t"
  shows "ref_map t obj = Some r \<longleftrightarrow> obj \<noteq> VNull \<and> (\<exists>i<rt_size t. rf_obj (rt_nodes t ! i) = obj \<and> rf_refs (rt_nodes t ! i) = r)"
    (is "?L \<longleftrightarrow> ?R")
proof
  assume ?L
  then have "obj \<noteq> VNull" "(obj, r) \<in> set (map (\<lambda>nd. (rf_obj nd, rf_refs nd)) (rt_nodes t))"
    by (auto simp: ref_map_def split: if_splits dest: map_of_SomeD)
  then show ?R by (auto simp: in_set_conv_nth)
next
  assume R: ?R
  then obtain i where i: "i < rt_size t" "rf_obj (rt_nodes t ! i) = obj" "rf_refs (rt_nodes t ! i) = r" "obj \<noteq> VNull" by blast
  have "obj \<in> fst ` set (map (\<lambda>nd. (rf_obj nd, rf_refs nd)) (rt_nodes t))" using i by (force simp: in_set_conv_nth)
  then obtain r' where r': "map_of (map (\<lambda>nd. (rf_obj nd, rf_refs nd)) (rt_nodes t)) obj = Some r'"
    by (metis map_of_eq_None_iff option.exhaust)
  then have "(obj, r') \<in> set (map (\<lambda>nd. (rf_obj nd, rf_refs nd)) (rt_nodes t))" by (rule map_of_SomeD)
  then obtain j where j: "j < rt_size t" "rf_obj (rt_nodes t ! j) = obj" "rf_refs (rt_nodes t ! j) = r'"
    by (auto simp: in_set_conv_nth)
  have "i = j" using rt_invD(6) [OF assms i(1) j(1)] i j by simp
  then show ?L using r' i j by (simp add: ref_map_def)
qed

lemma ref_map_None:
  "rt_inv t \<Longrightarrow> ref_map t obj = None \<longleftrightarrow> obj = VNull \<or> (\<forall>i<rt_size t. rf_obj (rt_nodes t ! i) \<noteq> obj)"
  using ref_map_Some [of t obj] by (metis option.exhaust option.distinct(1))

lemma map_eqI: "(\<And>k v. m k = Some v \<longleftrightarrow> m' k = Some v) \<Longrightarrow> m = m'"
  by (rule ext) (metis option.exhaust)

lemma list_of_upd: "list_of ns p S \<Longrightarrow> i \<notin> S \<Longrightarrow> list_of (ns[i := nd]) p S"
  unfolding list_of_def by (blast intro: rchain_upd)

lemma list_of_upd_same: "rf_next nd = rf_next (ns ! i) \<Longrightarrow> list_of (ns[i := nd]) p S = list_of ns p S"
  unfolding list_of_def by (simp add: rchain_upd_same)

lemma list_of_push: "list_of ns p S \<Longrightarrow> i \<notin> S \<Longrightarrow> i < length ns \<Longrightarrow> rf_next nd = p \<Longrightarrow> list_of (ns[i := nd]) (Some i) (insert i S)"
  unfolding list_of_def
proof (elim exE conjE)
  fix xs
  assume a: "i \<notin> S" "i < length ns" "rf_next nd = p" "rchain ns p xs" "distinct xs" "set xs = S"
  then have "rchain (ns[i := nd]) p xs" by (intro rchain_upd) auto
  then have "rchain (ns[i := nd]) (Some i) (i # xs) \<and> distinct (i # xs) \<and> set (i # xs) = insert i S" using a by auto
  then show "\<exists>xs. rchain (ns[i := nd]) (Some i) xs \<and> distinct xs \<and> set xs = insert i S" by blast
qed

lemma list_of_pop: "list_of ns p S \<Longrightarrow> S \<noteq> {} \<Longrightarrow> \<exists>i. p = Some i \<and> i \<in> S \<and> i < length ns \<and> list_of ns (rf_next (ns ! i)) (S - {i})"
  unfolding list_of_def
proof (elim exE conjE)
  fix xs
  assume a: "rchain ns p xs" "distinct xs" "set xs = S" "S \<noteq> {}"
  then obtain i ys where "xs = i # ys" by (cases xs) auto
  then have "p = Some i \<and> i \<in> S \<and> i < length ns \<and> rchain ns (rf_next (ns ! i)) ys \<and> distinct ys \<and> set ys = S - {i}" using a by auto
  then show "\<exists>i. p = Some i \<and> i \<in> S \<and> i < length ns \<and> (\<exists>xs. rchain ns (rf_next (ns ! i)) xs \<and> distinct xs \<and> set xs = S - {i})" by blast
qed

lemma list_of_empty: "list_of ns p {} \<longleftrightarrow> p = None"
  unfolding list_of_def by auto

section \<open>Laws of the operations\<close>

lemma frees_nonempty:
  assumes "rt_inv t"
  shows "frees t = {} \<longleftrightarrow> rt_slotused t = rt_size t"
proof -
  have "frees t = {} \<longleftrightarrow> (\<forall>i<rt_size t. rf_obj (rt_nodes t ! i) \<noteq> VNull)" by (auto simp: frees_def)
  also have "\<dots> \<longleftrightarrow> rt_slotused t = rt_size t"
    unfolding rt_invD(7) [OF assms] by (rule length_filter_all)
  finally show ?thesis .
qed

lemma inv_set_refs:
  assumes t: "rt_inv t" and i: "i < rt_size t" "rf_obj (rt_nodes t ! i) \<noteq> VNull"
  shows "rt_inv (upd_ref i (\<lambda>n. n\<lparr>rf_refs := r\<rparr>) t)"
    "ref_map (upd_ref i (\<lambda>n. n\<lparr>rf_refs := r\<rparr>) t) = (ref_map t)(rf_obj (rt_nodes t ! i) \<mapsto> r)"
proof -
  let ?nd = "(rt_nodes t ! i)\<lparr>rf_refs := r\<rparr>"
  let ?t = "t\<lparr>rt_nodes := (rt_nodes t)[i := ?nd]\<rparr>"
  have eq: "upd_ref i (\<lambda>n. n\<lparr>rf_refs := r\<rparr>) t = ?t" by (simp add: upd_ref_def)
  have obj: "rf_obj ((rt_nodes t)[i := ?nd] ! x) = rf_obj (rt_nodes t ! x)" for x
    by (cases "x = i") (use i in simp_all)
  have at: "at_slot ?t h = at_slot t h" "frees ?t = frees t" for h by (simp_all add: at_slot_def frees_def obj)
  have lists: "list_of (rt_nodes ?t) p S = list_of (rt_nodes t) p S" for p S
    using list_of_upd_same [of ?nd "rt_nodes t" i] by simp
  have used: "length (filter (\<lambda>nd. rf_obj nd \<noteq> VNull) ((rt_nodes t)[i := ?nd])) = length (filter (\<lambda>nd. rf_obj nd \<noteq> VNull) (rt_nodes t))"
    by (rule filter_update_neutral) (use i in simp_all)
  have refs: "rf_refs (rt_nodes ?t ! x) = 0" if "x < rt_size t" "rf_obj (rt_nodes t ! x) = VNull" for x
    using that i rt_invD(5) [OF t that] by (cases "x = i") simp_all
  show inv: "rt_inv (upd_ref i (\<lambda>n. n\<lparr>rf_refs := r\<rparr>) t)"
    unfolding eq rt_inv_def lists at using rt_invD [OF t] refs used by (simp add: obj)
  show "ref_map (upd_ref i (\<lambda>n. n\<lparr>rf_refs := r\<rparr>) t) = (ref_map t)(rf_obj (rt_nodes t ! i) \<mapsto> r)"
  proof (rule map_eqI)
    fix k v
    show "ref_map (upd_ref i (\<lambda>n. n\<lparr>rf_refs := r\<rparr>) t) k = Some v \<longleftrightarrow> ((ref_map t)(rf_obj (rt_nodes t ! i) \<mapsto> r)) k = Some v"
    proof (cases "k = rf_obj (rt_nodes t ! i)")
      case True
      then show ?thesis using ref_map_Some [OF inv, of k r] i by (auto simp: eq)
    next
      case False
      have "rf_refs ((rt_nodes t)[i := ?nd] ! x) = rf_refs (rt_nodes t ! x)" if "rf_obj (rt_nodes t ! x) = k" for x
        using that False by (cases "x = i") auto
      then show ?thesis using ref_map_Some [OF inv, of k v] ref_map_Some [OF t, of k v] False by (auto simp: eq obj)
    qed
  qed
qed

lemma Add_law:
  assumes t: "rt_inv t" and room: "rt_slotused t \<noteq> rt_size t" and obj: "obj \<noteq> VNull" "ref_map t obj = None"
    and h: "h = slot_of (rt_size t) (HashObj obj)"
  shows "\<exists>n t'. ref_Add h obj t = Some (n, t') \<and> rt_inv t' \<and> rt_size t' = rt_size t \<and> n < rt_size t \<and>
    rf_obj (rt_nodes t' ! n) = obj \<and> ref_map t' = (ref_map t)(obj \<mapsto> 0) \<and> rt_slotused t' = rt_slotused t + 1"
proof -
  let ?n = "rt_size t"
  have hl: "h < ?n" unfolding h by (rule slot_of_less [OF rt_invD(1) [OF t]])
  obtain i where i: "rt_freelist t = Some i" "i \<in> frees t" "i < ?n" and fl: "list_of (rt_nodes t) (rf_next (rt_nodes t ! i)) (frees t - {i})"
    using list_of_pop [OF rt_invD(4) [OF t]] frees_nonempty [OF t] room by auto
  have nul: "rf_obj (rt_nodes t ! i) = VNull" using i(2) by (simp add: frees_def)
  have z: "rf_refs (rt_nodes t ! i) = 0" by (rule rt_invD(5) [OF t i(3) nul])
  define nd where "nd = (rt_nodes t ! i)\<lparr>rf_obj := obj, rf_next := rt_buckets t ! h\<rparr>"
  define t' where "t' = t\<lparr>rt_nodes := (rt_nodes t)[i := nd], rt_buckets := (rt_buckets t)[h := Some i],
    rt_freelist := rf_next (rt_nodes t ! i), rt_slotused := rt_slotused t + 1\<rparr>"
  have add: "ref_Add h obj t = Some (i, t')" using i(1) z by (simp add: ref_Add_def Let_def t'_def nd_def)
  have sz: "rt_size t' = ?n" by (simp add: t'_def)
  have o: "rf_obj (rt_nodes t' ! x) = (if x = i then obj else rf_obj (rt_nodes t ! x))"
    and r: "rf_refs (rt_nodes t' ! x) = rf_refs (rt_nodes t ! x)" for x
    using i(3) by (cases "x = i"; simp add: t'_def nd_def)+
  have fresh: "rf_obj (rt_nodes t ! x) \<noteq> obj" if "x < ?n" for x using ref_map_None [OF t, of obj] obj that by blast
  have sl: "at_slot t' g = (if g = h then insert i (at_slot t g) else at_slot t g)" for g
    unfolding at_slot_def sz o using i(3) h obj(1) nul by auto
  have fr: "frees t' = frees t - {i}" unfolding frees_def sz o using obj(1) by auto
  have ni: "i \<notin> at_slot t g" for g using nul by (simp add: at_slot_def)
  have inv: "rt_inv t'" unfolding rt_inv_def sz
  proof (intro conjI allI impI)
    show "0 < ?n" "length (rt_buckets t') = ?n" using rt_invD(1,2) [OF t] by (simp_all add: t'_def)
    show "list_of (rt_nodes t') (rt_buckets t' ! g) (at_slot t' g)" if "g < ?n" for g
    proof (cases "g = h")
      case True
      have "list_of ((rt_nodes t)[i := nd]) (Some i) (insert i (at_slot t h))"
        by (rule list_of_push [OF rt_invD(3) [OF t hl] ni i(3)]) (simp add: nd_def)
      moreover have "rt_nodes t' = (rt_nodes t)[i := nd]" "rt_buckets t' ! h = Some i" using rt_invD(2) [OF t] hl by (simp_all add: t'_def)
      ultimately show ?thesis using True by (simp add: sl)
    next
      case False
      moreover have "rt_nodes t' = (rt_nodes t)[i := nd]" "rt_buckets t' ! g = rt_buckets t ! g" using False by (simp_all add: t'_def)
      ultimately show ?thesis using list_of_upd [OF rt_invD(3) [OF t that] ni] by (simp add: sl)
    qed
    show "list_of (rt_nodes t') (rt_freelist t') (frees t')"
      unfolding fr using list_of_upd [OF fl, of i nd] by (simp add: t'_def)
    show "rf_refs (rt_nodes t' ! x) = 0" if "x < ?n" "rf_obj (rt_nodes t' ! x) = VNull" for x
      using that rt_invD(5) [OF t that(1)] obj(1) unfolding o r by (auto split: if_splits)
    show "x = y" if "x < ?n" "y < ?n" "rf_obj (rt_nodes t' ! x) = rf_obj (rt_nodes t' ! y)" "rf_obj (rt_nodes t' ! x) \<noteq> VNull" for x y
      using that rt_invD(6) [OF t that(1,2)] fresh [OF that(1)] fresh [OF that(2)] unfolding o by (auto split: if_splits)
    show "rt_slotused t' = length (filter (\<lambda>nd. rf_obj nd \<noteq> VNull) (rt_nodes t'))"
      using filter_update_gain [of i "rt_nodes t" "\<lambda>nd. rf_obj nd \<noteq> VNull" nd] i(3) nul obj(1) rt_invD(7) [OF t]
      by (simp add: t'_def nd_def)
  qed
  have "ref_map t' = (ref_map t)(obj \<mapsto> 0)"
  proof (rule map_eqI)
    fix k v
    show "ref_map t' k = Some v \<longleftrightarrow> ((ref_map t)(obj \<mapsto> 0)) k = Some v"
    proof (cases "k = obj")
      case True
      then show ?thesis using ref_map_Some [OF inv, of k v] obj(1) i(3) z fresh unfolding sz o r by (auto split: if_splits)
    next
      case False
      have "(\<exists>j<?n. rf_obj (rt_nodes t' ! j) = k \<and> rf_refs (rt_nodes t' ! j) = v) \<longleftrightarrow> (\<exists>j<?n. rf_obj (rt_nodes t ! j) = k \<and> rf_refs (rt_nodes t ! j) = v)"
        if "k \<noteq> VNull" unfolding o r by (intro ex_cong1) (use nul False that in auto)
      then show ?thesis using ref_map_Some [OF inv, of k v] ref_map_Some [OF t, of k v] False unfolding sz by auto
    qed
  qed
  then show ?thesis using add inv sz i(3) o [of i] by (auto simp: t'_def)
qed

lemma Alloc_inv: "0 < sz \<Longrightarrow> rt_inv (ref_AllocNodes sz)" "ref_map (ref_AllocNodes sz) = Map.empty" "rt_size (ref_AllocNodes sz) = sz"
proof -
  let ?t = "ref_AllocNodes sz" and ?ns = "map (\<lambda>n. \<lparr>rf_obj = VNull, rf_refs = 0, rf_next = (if n + 1 < sz then Some (n + 1) else None)\<rparr>) [0..<sz]"
  have ns: "rt_nodes ?t = ?ns" by (simp add: ref_AllocNodes_def)
  show "rt_size ?t = sz" by (simp add: ref_AllocNodes_def)
  have "(map_of (map (\<lambda>nd. (rf_obj nd, rf_refs nd)) ?ns)) k = None" if "k \<noteq> VNull" for k
    using that by (auto simp: map_of_eq_None_iff)
  then show "ref_map ?t = Map.empty" by (auto simp: ref_map_def ns)
  assume sz: "0 < sz"
  have ch: "rchain ?ns (if k < sz then Some k else None) [k..<sz]" if "k \<le> sz" for k
    using that
  proof (induction "sz - k" arbitrary: k)
    case (Suc d)
    then have "k < sz" "rchain ?ns (if Suc k < sz then Some (Suc k) else None) [Suc k..<sz]" by auto
    then show ?case using upt_conv_Cons [of k sz] by (simp split: if_splits)
  qed simp
  have fr: "frees ?t = set [0..<sz]" by (auto simp: frees_def ref_AllocNodes_def)
  have "list_of ?ns (Some 0) (set [0..<sz])" unfolding list_of_def using ch [of 0] sz by auto
  then have free: "list_of (rt_nodes ?t) (rt_freelist ?t) (frees ?t)" unfolding fr ns by (simp add: ref_AllocNodes_def)
  have "at_slot ?t h = {}" for h by (auto simp: at_slot_def ref_AllocNodes_def)
  then have "\<forall>h<rt_size ?t. list_of (rt_nodes ?t) (rt_buckets ?t ! h) (at_slot ?t h)" by (simp add: list_of_empty ref_AllocNodes_def)
  then show "rt_inv ?t" unfolding rt_inv_def using sz free by (simp add: ref_AllocNodes_def filter_map comp_def)
qed

lemma readd_law:
  assumes "rt_inv t" "\<forall>nd\<in>set nds. rf_obj nd \<noteq> VNull \<and> rf_refs nd \<noteq> 0 \<and> ref_map t (rf_obj nd) = None"
    "distinct (map rf_obj nds)" "rt_slotused t + length nds \<le> rt_size t"
  shows "\<exists>t'. ref_readd nds k t = Some (k + length nds, t') \<and> rt_inv t' \<and> rt_size t' = rt_size t \<and>
    rt_slotused t' = rt_slotused t + length nds \<and> ref_map t' = ref_map t ++ map_of (map (\<lambda>nd. (rf_obj nd, rf_refs nd)) nds)"
  using assms
proof (induction nds arbitrary: k t)
  case (Cons nd nds)
  obtain n t1 where add: "ref_Add (slot_of (rt_size t) (HashObj (rf_obj nd))) (rf_obj nd) t = Some (n, t1)" "rt_inv t1" "rt_size t1 = rt_size t"
    "n < rt_size t" "rf_obj (rt_nodes t1 ! n) = rf_obj nd" "ref_map t1 = (ref_map t)(rf_obj nd \<mapsto> 0)" "rt_slotused t1 = rt_slotused t + 1"
    using Add_law [OF Cons.prems(1), of "rf_obj nd"] Cons.prems(2,4) by auto
  define t2 where "t2 = upd_ref n (\<lambda>n. n\<lparr>rf_refs := rf_refs nd\<rparr>) t1"
  have t2: "rt_inv t2" "ref_map t2 = (ref_map t)(rf_obj nd \<mapsto> rf_refs nd)"
    unfolding t2_def using inv_set_refs [OF add(2), of n "rf_refs nd"] add Cons.prems(2) by auto
  have sz: "rt_size t2 = rt_size t" "rt_slotused t2 = rt_slotused t + 1" using add by (simp_all add: t2_def upd_ref_def)
  have "\<forall>nd\<in>set nds. rf_obj nd \<noteq> VNull \<and> rf_refs nd \<noteq> 0 \<and> ref_map t2 (rf_obj nd) = None"
  proof
    fix nd'
    assume "nd' \<in> set nds"
    then have "rf_obj nd' \<noteq> rf_obj nd" "rf_obj nd' \<noteq> VNull \<and> rf_refs nd' \<noteq> 0 \<and> ref_map t (rf_obj nd') = None"
      using Cons.prems(2,3) by (auto simp: image_iff)
    then show "rf_obj nd' \<noteq> VNull \<and> rf_refs nd' \<noteq> 0 \<and> ref_map t2 (rf_obj nd') = None" by (simp add: t2(2))
  qed
  from Cons.IH [OF t2(1) this, of "k + 1"] Cons.prems(3,4) sz
  obtain t' where t': "ref_readd nds (k + 1) t2 = Some (k + 1 + length nds, t')" "rt_inv t'" "rt_size t' = rt_size t2"
    "rt_slotused t' = rt_slotused t2 + length nds" "ref_map t' = ref_map t2 ++ map_of (map (\<lambda>nd. (rf_obj nd, rf_refs nd)) nds)" by auto
  have "rf_obj nd \<notin> dom (map_of (map (\<lambda>nd. (rf_obj nd, rf_refs nd)) nds))" using Cons.prems(3) by (auto simp: dom_map_of_conv_image_fst)
  then have "ref_map t' = ref_map t ++ map_of (map (\<lambda>nd. (rf_obj nd, rf_refs nd)) (nd # nds))"
    unfolding t'(5) t2(2) by (simp add: map_add_upd_left)
  moreover have "ref_readd (nd # nds) k t = Some (k + length (nd # nds), t')" using Cons.prems(2) add(1) t'(1) by (simp add: t2_def)
  moreover have "rt_size t' = rt_size t" "rt_slotused t' = rt_slotused t + length (nd # nds)" using t'(3,4) sz by simp_all
  ultimately show ?case using t'(2) by blast
qed simp

lemma Resize_law:
  assumes t: "rt_inv t" and full: "rt_slotused t = rt_size t" and pos: "0 \<notin> ran (ref_map t)"
  shows "\<exists>t'. ref_Resize (rt_size t * 2) t = Some t' \<and> rt_inv t' \<and> rt_size t' = rt_size t * 2 \<and> rt_slotused t' = rt_slotused t \<and> ref_map t' = ref_map t"
proof -
  have nn: "rf_obj (rt_nodes t ! i) \<noteq> VNull" if "i < rt_size t" for i
    using frees_nonempty [OF t] full that by (auto simp: frees_def)
  have ok: "rf_obj nd \<noteq> VNull \<and> rf_refs nd \<noteq> 0" if nd: "nd \<in> set (rt_nodes t)" for nd
  proof -
    obtain i where i: "i < rt_size t" "rt_nodes t ! i = nd" using nd by (auto simp: in_set_conv_nth)
    have "ref_map t (rf_obj nd) = Some (rf_refs nd)" using ref_map_Some [OF t] i nn [OF i(1)] by blast
    then have "rf_refs nd \<in> ran (ref_map t)" by (auto simp: ran_def)
    then show ?thesis using pos i nn [OF i(1)] by auto
  qed
  have dist: "distinct (map rf_obj (rt_nodes t))"
    unfolding distinct_conv_nth using rt_invD(6) [OF t] nn by auto
  let ?a = "ref_AllocNodes (rt_size t * 2)"
  have a: "rt_inv ?a" "ref_map ?a = Map.empty" "rt_size ?a = rt_size t * 2" "rt_slotused ?a = 0"
    using Alloc_inv [of "rt_size t * 2"] rt_invD(1) [OF t] by (simp_all add: ref_AllocNodes_def)
  obtain t' where t': "ref_readd (rt_nodes t) 0 ?a = Some (rt_size t, t')" "rt_inv t'" "rt_size t' = rt_size t * 2" "rt_slotused t' = rt_size t"
    "ref_map t' = map_of (map (\<lambda>nd. (rf_obj nd, rf_refs nd)) (rt_nodes t))"
    using readd_law [OF a(1), of "rt_nodes t" 0] a ok dist by auto
  have "VNull \<notin> fst ` set (map (\<lambda>nd. (rf_obj nd, rf_refs nd)) (rt_nodes t))" using ok by force
  then have "map_of (map (\<lambda>nd. (rf_obj nd, rf_refs nd)) (rt_nodes t)) VNull = None" by (simp add: map_of_eq_None_iff)
  then have "ref_map t' = ref_map t" unfolding t'(5) by (auto simp: ref_map_def)
  then show ?thesis using t' full by (simp add: ref_Resize_def)
qed

lemma find_law:
  assumes t: "rt_inv t" and obj: "obj \<noteq> VNull" and h: "h = slot_of (rt_size t) (HashObj obj)"
  shows "\<exists>ref prev. ref_find (rt_size t + 1) (rt_nodes t) obj None (rt_buckets t ! h) = Some (ref, prev) \<and>
    (case ref of
       None \<Rightarrow> ref_map t obj = None
     | Some i \<Rightarrow> i < rt_size t \<and> rf_obj (rt_nodes t ! i) = obj \<and> ref_map t obj = Some (rf_refs (rt_nodes t ! i)) \<and>
         (\<exists>us vs. rchain (rt_nodes t) (rt_buckets t ! h) (us @ i # vs) \<and> distinct (us @ i # vs) \<and> set (us @ i # vs) = at_slot t h \<and>
           prev = (if us = [] then None else Some (last us))))"
proof -
  have hl: "h < rt_size t" unfolding h by (rule slot_of_less [OF rt_invD(1) [OF t]])
  obtain xs where xs: "rchain (rt_nodes t) (rt_buckets t ! h) xs" "distinct xs" "set xs = at_slot t h"
    using rt_invD(3) [OF t hl] by (auto simp: list_of_def)
  have "card (set xs) \<le> card {..<rt_size t}" unfolding xs(3) by (rule card_mono) (auto simp: at_slot_def)
  then have len: "length xs < rt_size t + 1" using distinct_card [OF xs(2)] by simp
  obtain ref prev where r: "ref_find (rt_size t + 1) (rt_nodes t) obj None (rt_buckets t ! h) = Some (ref, prev)"
    "case ref of None \<Rightarrow> \<forall>x\<in>set xs. rf_obj (rt_nodes t ! x) \<noteq> obj
      | Some i \<Rightarrow> \<exists>us vs. xs = us @ i # vs \<and> rf_obj (rt_nodes t ! i) = obj \<and> prev = (if us = [] then None else Some (last us))"
    using ref_find_spec [OF xs(1) len, of obj None] by blast
  show ?thesis
  proof (cases ref)
    case None
    have "ref_map t obj = None" using r(2) None xs(3) obj h ref_map_None [OF t, of obj] by (auto simp: at_slot_def)
    then show ?thesis using r None by auto
  next
    case (Some i)
    then obtain us vs where u: "xs = us @ i # vs" "rf_obj (rt_nodes t ! i) = obj" "prev = (if us = [] then None else Some (last us))"
      using r(2) by auto
    have "i \<in> set xs" using u by simp
    then have i: "i < rt_size t" using xs(3) by (auto simp: at_slot_def)
    have "ref_map t obj = Some (rf_refs (rt_nodes t ! i))" using ref_map_Some [OF t] i u obj by blast
    then show ?thesis using r Some u i xs by auto
  qed
qed

definition refs_inv :: "reftable \<Rightarrow> bool" where
  "refs_inv t \<longleftrightarrow> rt_inv t \<and> 0 \<notin> ran (ref_map t)"

lemma Get_present:
  assumes "rt_inv t" "obj \<noteq> VNull" "ref_map t obj = Some r"
  shows "\<exists>i prev. ref_Get obj add t = Some (Some i, slot_of (rt_size t) (HashObj obj), prev, t) \<and> i < rt_size t \<and> rf_obj (rt_nodes t ! i) = obj \<and>
    rf_refs (rt_nodes t ! i) = r \<and>
    (\<exists>us vs. rchain (rt_nodes t) (rt_buckets t ! slot_of (rt_size t) (HashObj obj)) (us @ i # vs) \<and> distinct (us @ i # vs) \<and>
       set (us @ i # vs) = at_slot t (slot_of (rt_size t) (HashObj obj)) \<and> prev = (if us = [] then None else Some (last us)))"
proof -
  obtain ref prev where f: "ref_find (rt_size t + 1) (rt_nodes t) obj None (rt_buckets t ! slot_of (rt_size t) (HashObj obj)) = Some (ref, prev)"
    "case ref of None \<Rightarrow> ref_map t obj = None
     | Some i \<Rightarrow> i < rt_size t \<and> rf_obj (rt_nodes t ! i) = obj \<and> ref_map t obj = Some (rf_refs (rt_nodes t ! i)) \<and>
         (\<exists>us vs. rchain (rt_nodes t) (rt_buckets t ! slot_of (rt_size t) (HashObj obj)) (us @ i # vs) \<and> distinct (us @ i # vs) \<and>
           set (us @ i # vs) = at_slot t (slot_of (rt_size t) (HashObj obj)) \<and> prev = (if us = [] then None else Some (last us)))"
    using find_law [OF assms(1,2) refl] by blast
  then obtain i where i: "ref = Some i" using assms(3) by (cases ref) auto
  have "ref_Get obj add t = Some (Some i, slot_of (rt_size t) (HashObj obj), prev, t)"
    unfolding ref_Get_def Let_def f(1) i by simp
  then show ?thesis using f(2) i assms(3) by auto
qed

lemma Get_absent:
  assumes t: "refs_inv t" and obj: "obj \<noteq> VNull" "ref_map t obj = None"
  shows "\<exists>n p prev t'. ref_Get obj True t = Some (Some n, p, prev, t') \<and> rt_inv t' \<and> n < rt_size t' \<and> rf_obj (rt_nodes t' ! n) = obj \<and>
    ref_map t' = (ref_map t)(obj \<mapsto> 0)"
proof -
  have inv: "rt_inv t" and pos: "0 \<notin> ran (ref_map t)" using t by (simp_all add: refs_inv_def)
  let ?h = "slot_of (rt_size t) (HashObj obj)"
  obtain ref prev where f: "ref_find (rt_size t + 1) (rt_nodes t) obj None (rt_buckets t ! ?h) = Some (ref, prev)" "ref = None"
    using find_law [OF inv obj(1) refl] obj(2) by (auto split: option.splits)
  show ?thesis
  proof (cases "rt_size t = rt_slotused t")
    case False
    then obtain n t' where "ref_Add ?h obj t = Some (n, t')" "rt_inv t'" "rt_size t' = rt_size t" "n < rt_size t"
      "rf_obj (rt_nodes t' ! n) = obj" "ref_map t' = (ref_map t)(obj \<mapsto> 0)"
      using Add_law [OF inv _ obj refl] by auto
    moreover from this f False have "ref_Get obj True t = Some (Some n, ?h, prev, t')" by (simp add: ref_Get_def Let_def)
    ultimately show ?thesis by auto
  next
    case True
    obtain t1 where t1: "ref_Resize (rt_size t * 2) t = Some t1" "rt_inv t1" "rt_size t1 = rt_size t * 2" "rt_slotused t1 = rt_slotused t" "ref_map t1 = ref_map t"
      using Resize_law [OF inv True [symmetric] pos] by blast
    have room: "rt_slotused t1 \<noteq> rt_size t1" using t1 True rt_invD(1) [OF inv] by simp
    let ?g = "slot_of (rt_size t1) (HashObj obj)"
    obtain n t' where "ref_Add ?g obj t1 = Some (n, t')" "rt_inv t'" "rt_size t' = rt_size t1" "n < rt_size t1"
      "rf_obj (rt_nodes t' ! n) = obj" "ref_map t' = (ref_map t1)(obj \<mapsto> 0)"
      using Add_law [OF t1(2) room obj(1) _ refl] obj(2) t1(5) by auto
    moreover have "rt_freelist t = None" using frees_nonempty [OF inv] True rt_invD(4) [OF inv] by (simp add: list_of_empty)
    moreover from calculation f t1 True have "ref_Get obj True t = Some (Some n, ?g, prev, t')" by (simp add: ref_Get_def Let_def)
    ultimately show ?thesis using t1(5) by auto
  qed
qed

lemma AddRef_law:
  assumes t: "refs_inv t" and obj: "obj \<noteq> VNull" and r: "r = (case ref_map t obj of None \<Rightarrow> 0 | Some r \<Rightarrow> r)" "r + 1 \<noteq> 0"
  shows "\<exists>t'. ref_AddRef obj t = Some t' \<and> refs_inv t' \<and> ref_map t' = (ref_map t)(obj \<mapsto> r + 1)"
proof -
  have inv: "rt_inv t" using t by (simp add: refs_inv_def)
  obtain i p prev t1 where g: "ref_Get obj True t = Some (Some i, p, prev, t1)" "rt_inv t1" "i < rt_size t1" "rf_obj (rt_nodes t1 ! i) = obj"
    "ref_map t1 = (ref_map t)(obj \<mapsto> r)"
  proof (cases "ref_map t obj")
    case None
    then show ?thesis using Get_absent [OF t obj None] r(1) that by auto
  next
    case (Some q)
    obtain i prev where "ref_Get obj True t = Some (Some i, slot_of (rt_size t) (HashObj obj), prev, t)" "i < rt_size t" "rf_obj (rt_nodes t ! i) = obj"
      using Get_present [OF inv obj Some, of True] by blast
    moreover have "ref_map t = (ref_map t)(obj \<mapsto> r)" using Some r(1) by (auto simp: fun_upd_idem)
    ultimately show ?thesis using that inv by blast
  qed
  have rr: "rf_refs (rt_nodes t1 ! i) = r" using ref_map_Some [OF g(2), of obj] g obj by (metis fun_upd_same option.inject)
  let ?t = "upd_ref i (\<lambda>n. n\<lparr>rf_refs := rf_refs n + 1\<rparr>) t1"
  have eq: "?t = upd_ref i (\<lambda>n. n\<lparr>rf_refs := r + 1\<rparr>) t1" using rr by (simp add: upd_ref_def)
  have m: "ref_map ?t = (ref_map t)(obj \<mapsto> r + 1)" "rt_inv ?t"
    unfolding eq using inv_set_refs [OF g(2,3), of "r + 1"] g(4,5) obj by simp_all
  moreover have "0 \<notin> ran ((ref_map t)(obj \<mapsto> r + 1))" using t r(2) by (auto simp: refs_inv_def ran_def)
  ultimately have "refs_inv ?t" by (simp add: refs_inv_def)
  then show ?thesis using g(1) m by (simp add: ref_AddRef_def)
qed

lemma field_upd:
  assumes "f nd = f (ns ! p)"
  shows "f (ns[p := nd] ! x) = f (ns ! x)"
proof (cases "x = p \<and> p < length ns")
  case True
  then show ?thesis using assms by simp
next
  case False
  then show ?thesis by (metis list_update_beyond nth_list_update_neq linorder_not_le)
qed

lemma next_upd_fields:
  "rf_obj (ns[p := (ns ! p)\<lparr>rf_next := n\<rparr>] ! x) = rf_obj (ns ! x)" "rf_refs (ns[p := (ns ! p)\<lparr>rf_next := n\<rparr>] ! x) = rf_refs (ns ! x)"
  by (rule field_upd, simp)+

lemma unlink_law:
  assumes t: "rt_inv t" and i: "i < rt_size t" "rf_obj (rt_nodes t ! i) = obj" "obj \<noteq> VNull" "rf_refs (rt_nodes t ! i) = 0"
    and h: "h = slot_of (rt_size t) (HashObj obj)"
    and ch: "rchain (rt_nodes t) (rt_buckets t ! h) (us @ i # vs)" "distinct (us @ i # vs)" "set (us @ i # vs) = at_slot t h"
    and prev: "prev = (if us = [] then None else Some (last us))"
  shows "rt_inv (ref_unlink i h prev t)" "ref_map (ref_unlink i h prev t) = (ref_map t)(obj := None)"
proof -
  let ?n = "rt_size t" and ?nxt = "rf_next (rt_nodes t ! i)"
  have hl: "h < ?n" unfolding h by (rule slot_of_less [OF rt_invD(1) [OF t]])
  define ns1 where "ns1 = (case prev of Some p \<Rightarrow> (rt_nodes t)[p := (rt_nodes t ! p)\<lparr>rf_next := ?nxt\<rparr>] | None \<Rightarrow> rt_nodes t)"
  define b1 where "b1 = (case prev of Some p \<Rightarrow> rt_buckets t | None \<Rightarrow> (rt_buckets t)[h := ?nxt])"
  define nd where "nd = (ns1 ! i)\<lparr>rf_next := rt_freelist t, rf_obj := VNull\<rparr>"
  define t' where "t' = ref_unlink i h prev t"
  have t': "rt_nodes t' = ns1[i := nd]" "rt_buckets t' = b1" "rt_freelist t' = Some i" "rt_slotused t' = rt_slotused t - 1"
    unfolding t'_def ref_unlink_def ns1_def b1_def nd_def by (cases prev; simp add: upd_ref_def Let_def)+
  have len: "length ns1 = ?n" "length b1 = ?n" using rt_invD(2) [OF t] by (simp_all add: ns1_def b1_def split: option.split)
  have f1: "rf_obj (ns1 ! x) = rf_obj (rt_nodes t ! x)" "rf_refs (ns1 ! x) = rf_refs (rt_nodes t ! x)" for x
    unfolding ns1_def by (cases prev; simp only: option.case next_upd_fields)+
  have sz: "rt_size t' = ?n" by (simp add: t' len)
  have i1: "i < length ns1" using i(1) len(1) by simp
  have o: "rf_obj (rt_nodes t' ! x) = (if x = i then VNull else rf_obj (rt_nodes t ! x))" for x
    unfolding t'(1) using i1 f1(1) [of x] by (cases "x = i") (simp_all add: nd_def)
  have r: "rf_refs (rt_nodes t' ! x) = rf_refs (rt_nodes t ! x)" for x
    unfolding t'(1) using field_upd [of rf_refs nd ns1 i x] f1(2) [of x] by (simp add: nd_def)
  have sl: "at_slot t' g = at_slot t g - {i}" for g unfolding at_slot_def sz o by auto
  have fr: "frees t' = insert i (frees t)" unfolding frees_def sz o using i(1) by auto
  have ni: "i \<notin> frees t" using i by (simp add: frees_def)
  have other: "i \<notin> at_slot t g" if "g \<noteq> h" for g using that i h by (simp add: at_slot_def)
  have last: "last us \<in> at_slot t h" if "us \<noteq> []"
    unfolding ch(3) [symmetric] using last_in_set [OF that] by simp
  have l1: "list_of ns1 (b1 ! h) (at_slot t h - {i})"
  proof (cases "us = []")
    case True
    then show ?thesis using ch prev hl rt_invD(2) [OF t] by (auto simp: list_of_def ns1_def b1_def intro!: exI [of _ vs])
  next
    case False
    have "set (us @ vs) = at_slot t h - {i}" "distinct (us @ vs)" using ch(2,3) by auto
    then show ?thesis using rchain_unlink [OF ch(1) False ch(2)] prev False unfolding list_of_def ns1_def b1_def by auto
  qed
  have l2: "list_of ns1 (b1 ! g) (at_slot t g)" if "g < ?n" "g \<noteq> h" for g
  proof (cases "us = []")
    case True
    then show ?thesis using prev rt_invD(3) [OF t that(1)] that(2) by (simp add: ns1_def b1_def)
  next
    case False
    have "last us \<notin> at_slot t g" using last [OF False] that(2) by (auto simp: at_slot_def)
    then show ?thesis using prev False list_of_upd [OF rt_invD(3) [OF t that(1)]] by (simp add: ns1_def b1_def)
  qed
  have l3: "list_of ns1 (rt_freelist t) (frees t)"
  proof (cases "us = []")
    case True
    then show ?thesis using prev rt_invD(4) [OF t] by (simp add: ns1_def)
  next
    case False
    have "last us \<notin> frees t" using last [OF False] by (auto simp: at_slot_def frees_def)
    then show ?thesis using prev False list_of_upd [OF rt_invD(4) [OF t]] by (simp add: ns1_def)
  qed
  have used: "rt_slotused t' = length (filter (\<lambda>nd. rf_obj nd \<noteq> VNull) (rt_nodes t'))"
  proof -
    have m: "map rf_obj ns1 = map rf_obj (rt_nodes t)" using len f1 by (simp add: list_eq_iff_nth_eq)
    have "length (filter (\<lambda>nd. rf_obj nd \<noteq> VNull) ns) = length (filter (\<lambda>x. x \<noteq> VNull) (map rf_obj ns))" for ns
      by (simp add: filter_map comp_def)
    then have "length (filter (\<lambda>nd. rf_obj nd \<noteq> VNull) ns1) = length (filter (\<lambda>nd. rf_obj nd \<noteq> VNull) (rt_nodes t))"
      using m by metis
    then show ?thesis using filter_update_loss [of i ns1 "\<lambda>nd. rf_obj nd \<noteq> VNull" nd] i len f1 rt_invD(7) [OF t] by (simp add: t' nd_def)
  qed
  have inv: "rt_inv t'" unfolding rt_inv_def sz
  proof (intro conjI allI impI)
    show "0 < ?n" "length (rt_buckets t') = ?n" using rt_invD(1) [OF t] len by (simp_all add: t')
    show "list_of (rt_nodes t') (rt_buckets t' ! g) (at_slot t' g)" if "g < ?n" for g
      using list_of_upd [OF l1, of i nd] list_of_upd [OF l2 [OF that] other] other [of g] by (cases "g = h") (simp_all add: sl t')
    show "list_of (rt_nodes t') (rt_freelist t') (frees t')"
      unfolding fr t' by (rule list_of_push [OF l3 ni]) (use i len in \<open>simp_all add: nd_def\<close>)
    show "rf_refs (rt_nodes t' ! x) = 0" if "x < ?n" "rf_obj (rt_nodes t' ! x) = VNull" for x
      using that rt_invD(5) [OF t that(1)] i(4) unfolding o r by (auto split: if_splits)
    show "x = y" if "x < ?n" "y < ?n" "rf_obj (rt_nodes t' ! x) = rf_obj (rt_nodes t' ! y)" "rf_obj (rt_nodes t' ! x) \<noteq> VNull" for x y
      using that rt_invD(6) [OF t that(1,2)] unfolding o by (auto split: if_splits)
  qed (rule used)
  then show "rt_inv (ref_unlink i h prev t)" by (simp add: t'_def)
  have "ref_map t' = (ref_map t)(obj := None)"
  proof (rule map_eqI)
    fix k v
    have "(\<exists>j<?n. rf_obj (rt_nodes t' ! j) = k \<and> rf_refs (rt_nodes t' ! j) = v) \<longleftrightarrow> k \<noteq> obj \<and> (\<exists>j<?n. rf_obj (rt_nodes t ! j) = k \<and> rf_refs (rt_nodes t ! j) = v)"
      if "k \<noteq> VNull" unfolding o r using that i rt_invD(6) [OF t, of i] by (metis (full_types))
    then show "ref_map t' k = Some v \<longleftrightarrow> ((ref_map t)(obj := None)) k = Some v"
      using ref_map_Some [OF inv, of k v] ref_map_Some [OF t, of k v] unfolding sz by auto
  qed
  then show "ref_map (ref_unlink i h prev t) = (ref_map t)(obj := None)" by (simp add: t'_def)
qed

lemma Release_law:
  assumes t: "refs_inv t" and obj: "obj \<noteq> VNull" and r: "ref_map t obj = Some r"
  shows "\<exists>t'. ref_Release obj t = Some (r = 1, t') \<and> refs_inv t' \<and> ref_map t' = (ref_map t)(obj := (if r = 1 then None else Some (r - 1)))"
proof -
  have inv: "rt_inv t" and pos: "0 \<notin> ran (ref_map t)" using t by (simp_all add: refs_inv_def)
  let ?h = "slot_of (rt_size t) (HashObj obj)"
  obtain i prev us vs where g: "ref_Get obj False t = Some (Some i, ?h, prev, t)" "i < rt_size t" "rf_obj (rt_nodes t ! i) = obj"
    "rf_refs (rt_nodes t ! i) = r" "rchain (rt_nodes t) (rt_buckets t ! ?h) (us @ i # vs)" "distinct (us @ i # vs)"
    "set (us @ i # vs) = at_slot t ?h" "prev = (if us = [] then None else Some (last us))"
    using Get_present [OF inv obj r, of False] by blast
  define t1 where "t1 = upd_ref i (\<lambda>n. n\<lparr>rf_refs := r - 1\<rparr>) t"
  have t1: "rt_inv t1" "ref_map t1 = (ref_map t)(obj \<mapsto> r - 1)" "rt_size t1 = rt_size t" "rf_refs (rt_nodes t1 ! i) = r - 1"
    unfolding t1_def using inv_set_refs [OF inv g(2), of "r - 1"] g obj by (simp_all add: upd_ref_def)
  have rel: "ref_Release obj t = Some (if r = 1 then (True, ref_unlink i ?h prev t1) else (False, t1))"
    using g t1(4) by (simp add: ref_Release_def Let_def t1_def upd_ref_def)
  show ?thesis
  proof (cases "r = 1")
    case True
    have "rf_obj (rt_nodes t1 ! x) = rf_obj (rt_nodes t ! x)" for x unfolding t1_def upd_ref_def using g(2) by (cases "x = i") simp_all
    then have at: "at_slot t1 ?h = at_slot t ?h" "rf_obj (rt_nodes t1 ! i) = obj" using g(3) by (simp_all add: at_slot_def t1(3))
    have ch: "rchain (rt_nodes t1) (rt_buckets t1 ! ?h) (us @ i # vs)" using g(5) by (simp add: t1_def upd_ref_def rchain_upd_same)
    have u: "rt_inv (ref_unlink i ?h prev t1)" "ref_map (ref_unlink i ?h prev t1) = (ref_map t1)(obj := None)"
      using unlink_law [OF t1(1) _ at(2) obj _ _ ch g(6) _ g(8)] g(2,7) at t1 True by simp_all
    then have "ref_map (ref_unlink i ?h prev t1) = (ref_map t)(obj := None)" using t1(2) by simp
    moreover have "0 \<notin> ran ((ref_map t)(obj := None))" using pos by (auto simp: ran_def)
    ultimately show ?thesis using rel u(1) True by (simp add: refs_inv_def)
  next
    case False
    have "0 \<notin> ran ((ref_map t)(obj \<mapsto> r - 1))" using pos False by (auto simp: ran_def)
    then show ?thesis using rel t1 False by (simp add: refs_inv_def)
  qed
qed

lemma GetRefCount_law: "rt_inv t \<Longrightarrow> obj \<noteq> VNull \<Longrightarrow> ref_map t obj = Some r \<Longrightarrow> ref_GetRefCount obj t = Some (r, t)"
  using Get_present [of t obj r True] by (fastforce simp: ref_GetRefCount_def)

lemma Mark_law: "rt_inv t \<Longrightarrow> set (ref_Mark t) = {x. ref_map t x \<noteq> None}"
  by (auto simp: ref_map_None ref_Mark_def in_set_conv_nth image_iff Bex_def)

section \<open>The contract\<close>

text \<open>
  What the host program can rely on: the table counts. \<open>counts\<close> is the number of references
  that are held to an object.
\<close>

datatype refop = Add_Ref sqobject | Release_Ref sqobject | Ref_Count sqobject

datatype refout = Out_Unit | Out_Released bool | Out_Count nat

locale ref_counter =
  fixes inv :: "'t \<Rightarrow> bool"
    and counts :: "'t \<Rightarrow> sqobject \<Rightarrow> nat"
    and new_table :: 't
    and addref :: "sqobject \<Rightarrow> 't \<Rightarrow> 't option"
    and release :: "sqobject \<Rightarrow> 't \<Rightarrow> (bool \<times> 't) option"
    and refcount :: "sqobject \<Rightarrow> 't \<Rightarrow> (u64 \<times> 't) option"
    and marked :: "'t \<Rightarrow> sqobject list"
  assumes inv_new: "inv new_table"
    and counts_new: "counts new_table obj = 0"
    and addref_law: "inv t \<Longrightarrow> ISREFCOUNTED (sq_type obj) \<Longrightarrow> counts t obj + 1 < 2 ^ 64 \<Longrightarrow>
      \<exists>t'. addref obj t = Some t' \<and> inv t' \<and> counts t' = (counts t)(obj := counts t obj + 1)"
    and release_law: "inv t \<Longrightarrow> ISREFCOUNTED (sq_type obj) \<Longrightarrow> 0 < counts t obj \<Longrightarrow>
      \<exists>t'. release obj t = Some (counts t obj = 1, t') \<and> inv t' \<and> counts t' = (counts t)(obj := counts t obj - 1)"
    and refcount_law: "inv t \<Longrightarrow> ISREFCOUNTED (sq_type obj) \<Longrightarrow> 0 < counts t obj \<Longrightarrow>
      \<exists>n. refcount obj t = Some (n, t) \<and> unat n = counts t obj"
    and plain_law: "\<not> ISREFCOUNTED (sq_type obj) \<Longrightarrow> addref obj t = Some t \<and> release obj t = Some (True, t) \<and> refcount obj t = Some (0, t)"
    and marked_law: "inv t \<Longrightarrow> set (marked t) = {obj. 0 < counts t obj}"
begin

fun op_step :: "refop \<Rightarrow> 't \<Rightarrow> (refout \<times> 't) option" where
  "op_step (Add_Ref obj) t = map_option (Pair Out_Unit) (addref obj t)"
| "op_step (Release_Ref obj) t = map_option (\<lambda>(b, t). (Out_Released b, t)) (release obj t)"
| "op_step (Ref_Count obj) t = map_option (\<lambda>(n, t). (Out_Count (unat n), t)) (refcount obj t)"

end

text \<open>
  The same uses on a function that counts. Objects without a reference count are ignored; only
  references that are held are released or asked for.
\<close>

fun count_step :: "refop \<Rightarrow> (sqobject \<Rightarrow> nat) \<Rightarrow> (refout \<times> (sqobject \<Rightarrow> nat)) option" where
  "count_step (Add_Ref obj) c = Some (Out_Unit, if ISREFCOUNTED (sq_type obj) then c(obj := c obj + 1) else c)"
| "count_step (Release_Ref obj) c =
     (if \<not> ISREFCOUNTED (sq_type obj) then Some (Out_Released True, c)
      else if c obj = 0 then None else Some (Out_Released (c obj = 1), c(obj := c obj - 1)))"
| "count_step (Ref_Count obj) c =
     (if \<not> ISREFCOUNTED (sq_type obj) then Some (Out_Count 0, c)
      else if c obj = 0 then None else Some (Out_Count (c obj), c))"

context ref_counter
begin

lemma step_refines:
  assumes "inv t" "count_step op (counts t) = Some (x, c)" "\<forall>obj. counts t obj < n" "n < 2 ^ 64"
  shows "\<exists>t'. op_step op t = Some (x, t') \<and> inv t' \<and> counts t' = c \<and> (\<forall>obj. counts t' obj < n + 1)"
proof (cases op)
  case (Add_Ref obj)
  show ?thesis
  proof (cases "ISREFCOUNTED (sq_type obj)")
    case True
    have "counts t obj + 1 < 2 ^ 64" using assms(3,4) [rule_format] by (metis Suc_eq_plus1 Suc_leI le_less_trans)
    then show ?thesis using addref_law [OF assms(1) True] assms(2,3) Add_Ref True by (force simp: less_SucI)
  next
    case False
    then show ?thesis using plain_law [OF False, of t] assms Add_Ref by (auto simp: less_SucI)
  qed
next
  case (Release_Ref obj)
  show ?thesis
  proof (cases "ISREFCOUNTED (sq_type obj)")
    case True
    then have pos: "0 < counts t obj" "x = Out_Released (counts t obj = 1)" "c = (counts t)(obj := counts t obj - 1)"
      using assms(2) Release_Ref by (auto split: if_splits)
    have "\<forall>o'. c o' < n + 1" unfolding pos(3) using assms(3) by (simp add: less_SucI less_imp_diff_less)
    then show ?thesis using release_law [OF assms(1) True pos(1)] pos Release_Ref by auto
  next
    case False
    then show ?thesis using plain_law [OF False, of t] assms Release_Ref by (auto simp: less_SucI)
  qed
next
  case (Ref_Count obj)
  then show ?thesis using refcount_law [OF assms(1), of obj] plain_law [of obj t] assms
    by (cases "ISREFCOUNTED (sq_type obj)") (auto simp: less_SucI split: if_splits)
qed

lemma run_refines_from:
  "inv t \<Longrightarrow> run_ops count_step ops (counts t) = Some (xs, c) \<Longrightarrow> \<forall>obj. counts t obj < n \<Longrightarrow> n + length ops < 2 ^ 64 \<Longrightarrow>
     \<exists>t'. run_ops op_step ops t = Some (xs, t') \<and> inv t' \<and> counts t' = c"
proof (induction ops arbitrary: t xs n)
  case (Cons op ops)
  then obtain x c1 ys where 1: "count_step op (counts t) = Some (x, c1)" "run_ops count_step ops c1 = Some (ys, c)" "xs = x # ys"
    by (auto simp: bind_eq_Some_conv)
  obtain t1 where t1: "op_step op t = Some (x, t1)" "inv t1" "counts t1 = c1" "\<forall>obj. counts t1 obj < n + 1"
    using step_refines [OF Cons.prems(1) 1(1) Cons.prems(3)] Cons.prems(4) by auto
  obtain t' where "run_ops op_step ops t1 = Some (ys, t')" "inv t'" "counts t' = c"
    using Cons.IH [OF t1(2) _ t1(4), of ys] 1(2) t1(3) Cons.prems(4) by auto
  then show ?case using t1(1) 1(3) by auto
qed simp

lemma run_refines:
  assumes "run_ops count_step ops (\<lambda>_. 0) = Some (xs, c)" "length ops + 1 < 2 ^ 64"
  shows "\<exists>t'. run_ops op_step ops new_table = Some (xs, t') \<and> set (marked t') = {obj. 0 < c obj}"
proof -
  have z: "counts new_table = (\<lambda>_. 0)" using counts_new by auto
  show ?thesis using run_refines_from [OF inv_new, of ops xs c 1] assms marked_law unfolding z by fastforce
qed

end

text \<open>The reference table of the code.\<close>

definition ref_counts :: "reftable \<Rightarrow> sqobject \<Rightarrow> nat" where
  "ref_counts t obj = (case ref_map t obj of None \<Rightarrow> 0 | Some r \<Rightarrow> unat r)"

interpretation rt: ref_counter refs_inv ref_counts ref_new sq_addref sq_release sq_getrefcount ref_Mark
proof
  show "refs_inv ref_new" using Alloc_inv [of 4] by (simp add: ref_new_def refs_inv_def)
  show "ref_counts ref_new obj = 0" for obj using Alloc_inv(2) [of 4] by (simp add: ref_new_def ref_counts_def)
next
  fix t obj
  assume t: "refs_inv t" and o: "ISREFCOUNTED (sq_type obj)" and b: "ref_counts t obj + 1 < 2 ^ 64"
  have nn: "obj \<noteq> VNull" using o by (auto simp: ISREFCOUNTED_iff)
  define r where "r = (case ref_map t obj of None \<Rightarrow> 0 | Some r \<Rightarrow> r)"
  have u: "unat r = ref_counts t obj" by (simp add: r_def ref_counts_def split: option.split)
  then have "unat (r + 1) = unat r + 1" using b by (simp add: unat_plus_if')
  then have r1: "unat (r + 1) = unat r + 1" "r + 1 \<noteq> 0" by (auto simp: unat_eq_0)
  obtain t' where "ref_AddRef obj t = Some t'" "refs_inv t'" "ref_map t' = (ref_map t)(obj \<mapsto> r + 1)"
    using AddRef_law [OF t nn r_def r1(2)] by blast
  then show "\<exists>t'. sq_addref obj t = Some t' \<and> refs_inv t' \<and> ref_counts t' = (ref_counts t)(obj := ref_counts t obj + 1)"
    using o u r1(1) by (auto simp: sq_addref_def ref_counts_def fun_eq_iff)
next
  fix t obj
  assume t: "refs_inv t" and o: "ISREFCOUNTED (sq_type obj)" and p: "0 < ref_counts t obj"
  have nn: "obj \<noteq> VNull" using o by (auto simp: ISREFCOUNTED_iff)
  obtain r where r: "ref_map t obj = Some r" "unat r = ref_counts t obj" using p by (auto simp: ref_counts_def split: option.splits)
  have one: "(r = 1) = (ref_counts t obj = 1)" using r(2) unat_1 by (metis word_unat_eq_iff)
  have "r \<noteq> 0" using p r(2) by (metis less_numeral_extra(3) unat_0)
  then have u: "unat (r - 1) = unat r - 1" by (rule unat_minus_one)
  obtain t' where t': "ref_Release obj t = Some (r = 1, t')" "refs_inv t'" "ref_map t' = (ref_map t)(obj := (if r = 1 then None else Some (r - 1)))"
    using Release_law [OF t nn r(1)] by blast
  have "ref_counts t' x = ref_counts t x" if "x \<noteq> obj" for x using that by (simp add: ref_counts_def t'(3))
  moreover have "ref_counts t' obj = unat r - 1"
  proof (cases "r = 1")
    case True
    then show ?thesis by (simp add: ref_counts_def t'(3))
  next
    case False
    then show ?thesis using u by (simp add: ref_counts_def t'(3))
  qed
  ultimately have "ref_counts t' = (ref_counts t)(obj := ref_counts t obj - 1)" unfolding r(2) by (auto simp: fun_eq_iff)
  then show "\<exists>t'. sq_release obj t = Some (ref_counts t obj = 1, t') \<and> refs_inv t' \<and> ref_counts t' = (ref_counts t)(obj := ref_counts t obj - 1)"
    using t'(1,2) o one by (simp add: sq_release_def)
  show "\<exists>n. sq_getrefcount obj t = Some (n, t) \<and> unat n = ref_counts t obj"
    using GetRefCount_law [of t obj r] t nn r o by (auto simp: sq_getrefcount_def refs_inv_def)
next
  fix t :: reftable and obj
  assume "\<not> ISREFCOUNTED (sq_type obj)"
  then show "sq_addref obj t = Some t \<and> sq_release obj t = Some (True, t) \<and> sq_getrefcount obj t = Some (0, t)"
    by (simp add: sq_addref_def sq_release_def sq_getrefcount_def)
next
  fix t
  assume t: "refs_inv t"
  have "ref_map t obj \<noteq> None \<longleftrightarrow> 0 < ref_counts t obj" for obj
    using t by (auto simp: ref_counts_def refs_inv_def ran_def unat_gt_0 split: option.splits)
  then show "set (ref_Mark t) = {obj. 0 < ref_counts t obj}" using Mark_law [of t] t by (simp add: refs_inv_def)
qed

text \<open>The uses of the table by the host program.\<close>

fun api_step :: "refop \<Rightarrow> reftable \<Rightarrow> (refout \<times> reftable) option" where
  "api_step (Add_Ref obj) t = map_option (Pair Out_Unit) (sq_addref obj t)"
| "api_step (Release_Ref obj) t = map_option (\<lambda>(b, t). (Out_Released b, t)) (sq_release obj t)"
| "api_step (Ref_Count obj) t = map_option (\<lambda>(n, t). (Out_Count (unat n), t)) (sq_getrefcount obj t)"

lemma api_step_rt: "api_step = rt.op_step"
proof (intro ext)
  show "api_step op t = rt.op_step op t" for op t by (cases op) simp_all
qed

section \<open>Properties\<close>

text \<open>
  C8. For any sequence of \<open>sq_addref\<close>, \<open>sq_release\<close> and \<open>sq_getrefcount\<close> in which only held
  references are released and asked for, the reference table gives the answers of counting,
  no assertion fails, and the collector then marks exactly the objects that are still held.
\<close>

theorem reftable_counts:
  assumes "run_ops count_step ops (\<lambda>_. 0) = Some (xs, c)" "length ops + 1 < 2 ^ 64"
  shows "\<exists>t. run_ops api_step ops ref_new = Some (xs, t) \<and> set (ref_Mark t) = {obj. 0 < c obj}"
  unfolding api_step_rt by (rule rt.run_refines [OF assms])

theorem reftable_counts_witness:
  "\<exists>t. run_ops api_step [Add_Ref (VTable 64), Add_Ref (VArray 128), Add_Ref (VTable 64), Release_Ref (VTable 64), Release_Ref (VArray 128),
       Ref_Count (VTable 64), Add_Ref (VInteger 3)] ref_new =
     Some ([Out_Unit, Out_Unit, Out_Unit, Out_Released False, Out_Released True, Out_Count 1, Out_Unit], t) \<and> set (ref_Mark t) = {VTable 64}"
proof -
  let ?ops = "[Add_Ref (VTable 64), Add_Ref (VArray 128), Add_Ref (VTable 64), Release_Ref (VTable 64), Release_Ref (VArray 128),
      Ref_Count (VTable 64), Add_Ref (VInteger 3)]"
  let ?outs = "[Out_Unit, Out_Unit, Out_Unit, Out_Released False, Out_Released True, Out_Count 1, Out_Unit]"
  define c :: "sqobject \<Rightarrow> nat" where "c = (\<lambda>_. 0)(VTable 64 := 1)"
  have "run_ops count_step ?ops (\<lambda>_. 0) = Some (?outs, c)" by (simp add: ISREFCOUNTED_iff fun_upd_twist c_def)
  moreover have "length ?ops + 1 < 2 ^ 64" by simp
  ultimately have "\<exists>t. run_ops api_step ?ops ref_new = Some (?outs, t) \<and> set (ref_Mark t) = {obj. 0 < c obj}" by (rule reftable_counts)
  moreover have "{obj. 0 < c obj} = {VTable 64}" by (auto simp: c_def)
  ultimately show ?thesis by metis
qed

text \<open>
  Asking for the count of an object that is not held adds it to the table with the count 0; the
  table then fails the assertion of \<open>Resize\<close> when it grows.
\<close>

lemma count_query_breaks_growth:
  "sq_getrefcount (VTable 64) ref_new \<bind> (\<lambda>(_, t). sq_addref (VTable 128) t) \<bind> sq_addref (VTable 192) \<bind> sq_addref (VTable 256) \<noteq> None"
  "sq_getrefcount (VTable 64) ref_new \<bind> (\<lambda>(_, t). sq_addref (VTable 128) t) \<bind> sq_addref (VTable 192) \<bind> sq_addref (VTable 256) \<bind> sq_addref (VTable 320) = None"
  by code_simp+

end
