(* ===== verification/Sq_StringLib.thy ===== *)
theory Sq_StringLib
  imports Sq_Rex Sq_Lexer Sq_Strings
begin

text \<open>
  The functions of the string library (\<^verbatim>\<open>sqstdstring.cpp\<close>) except for the formatting:
  \<open>strip\<close>, \<open>lstrip\<close>, \<open>rstrip\<close>, \<open>split\<close>, \<open>escape\<close>, \<open>startswith\<close>, \<open>endswith\<close> and the members of the class
  \<open>regexp\<close>. The arguments have been checked against the type masks that the library
  registers. A string of the virtual machine may contain zero bytes; in memory another zero
  byte follows it.
\<close>

section \<open>Stripping and splitting\<close>

fun strip_l :: "string \<Rightarrow> nat" where
  "strip_l [] = 0"
| "strip_l (c # cs) = (if c \<noteq> CHR 0x00 \<and> isspace c then Suc (strip_l cs) else 0)"

fun strip_r_loop :: "string \<Rightarrow> nat \<Rightarrow> nat" where
  "strip_r_loop str 0 = 0"
| "strip_r_loop str (Suc t) = (if isspace (str ! t) then strip_r_loop str t else Suc t)"

definition strip_r :: "string \<Rightarrow> nat" where
  "strip_r str = strip_r_loop str (length str)"

text \<open>\<open>sq_pushstring\<close> with a pointer into a string of the virtual machine.\<close>

definition push_from :: "string \<Rightarrow> nat \<Rightarrow> int \<Rightarrow> string" where
  "push_from str start len = add_chars (drop start (str @ [CHR 0x00])) (word_of_int len)"

definition string_strip :: "string \<Rightarrow> string" where
  "string_strip str = push_from str (strip_l str) (int (strip_r str) - int (strip_l str))"

definition string_lstrip :: "string \<Rightarrow> string" where
  "string_lstrip str = push_from str (strip_l str) (- 1)"

definition string_rstrip :: "string \<Rightarrow> string" where
  "string_rstrip str = push_from str 0 (int (strip_r str))"

text \<open>
  The loops of \<open>split\<close>; the inner one looks for the current character among the separators.
\<close>

fun is_sep :: "string \<Rightarrow> char \<Rightarrow> bool" where
  "is_sep [] cur = False"
| "is_sep (s # seps) cur = (cur = s \<or> is_sep seps cur)"

function split_loop :: "string \<Rightarrow> string \<Rightarrow> bool \<Rightarrow> nat \<Rightarrow> nat \<Rightarrow> string list \<Rightarrow> string list" where
  "split_loop str seps skipempty start end' arr =
     (if end' < length str \<and> str ! end' \<noteq> CHR 0x00 then
        if is_sep seps (str ! end') then
          split_loop str seps skipempty (end' + 1) (end' + 1)
            (if \<not> skipempty \<or> end' \<noteq> start then arr @ [push_from str start (int (end' - start))] else arr)
        else split_loop str seps skipempty start (end' + 1) arr
      else if end' \<noteq> start then arr @ [push_from str start (int (end' - start))] else arr)"
  by pat_completeness auto
termination
  by (relation "measure (\<lambda>(str, seps, skipempty, start, end', arr). length str - end')") auto

declare split_loop.simps [simp del]

definition string_split :: "string \<Rightarrow> string \<Rightarrow> bool \<Rightarrow> string + string list" where
  "string_split str seps skipempty =
     (if length seps = 0 then Inl ''empty separators string'' else Inr (split_loop str seps skipempty 0 0 []))"

definition string_startswith :: "string \<Rightarrow> string \<Rightarrow> bool" where
  "string_startswith str cmp \<longleftrightarrow> length cmp \<le> length str \<and> take (length cmp) str = cmp"

definition string_endswith :: "string \<Rightarrow> string \<Rightarrow> bool" where
  "string_endswith str cmp \<longleftrightarrow> length cmp \<le> length str \<and> take (length cmp) (drop (length str - length cmp) str) = cmp"

section \<open>Escaping\<close>

text \<open>
  The scratch pad of the shared state, as the list of its bytes, when \<open>sz\<close> bytes are requested.
  A reallocation keeps the bytes that fit; \<open>heap\<close> gives those that are new, by offset.
\<close>

definition realloc_pad :: "(nat \<Rightarrow> char) \<Rightarrow> nat \<Rightarrow> string \<Rightarrow> string" where
  "realloc_pad heap newsize pad = take newsize pad @ map heap [length pad..<newsize]"

definition GetScratchPad :: "(nat \<Rightarrow> char) \<Rightarrow> nat \<Rightarrow> string \<Rightarrow> string" where
  "GetScratchPad heap sz pad =
     (if sz > 0 then
        if length pad < sz then realloc_pad heap (sz + sz div 2) pad
        else if length pad \<ge> sz * 32 then realloc_pad heap (length pad div 2) pad
        else pad
      else pad)"

text \<open>
  Writing to the pad: the bytes of the pad and the position. A write behind its end has
  the result \<^const>\<open>None\<close>.
\<close>

type_synonym pad = "string \<times> nat"

definition put_char :: "char \<Rightarrow> pad \<Rightarrow> pad option" where
  "put_char c d = (case d of (buf, pos) \<Rightarrow> if pos < length buf then Some (buf[pos := c], pos + 1) else None)"

fun put_at :: "string \<Rightarrow> nat \<Rightarrow> string \<Rightarrow> string option" where
  "put_at buf pos [] = Some buf"
| "put_at buf pos (c # cs) = (if pos < length buf then put_at (buf[pos := c]) (pos + 1) cs else None)"

text \<open>
  \<open>snprintf\<close> writes at most \<open>n\<close> bytes, the last of which is a zero byte; it returns the length
  of the text, which the caller adds to its position.
\<close>

definition snprintf :: "nat \<Rightarrow> string \<Rightarrow> pad \<Rightarrow> pad option" where
  "snprintf n txt' d = (case d of (buf, pos) \<Rightarrow>
     map_option (\<lambda>b. (b, pos + length txt')) (put_at buf pos (if n = 0 then [] else take (n - 1) txt' @ [CHR 0x00])))"

definition hex_char :: "nat \<Rightarrow> char" where
  "hex_char d = char_of (if d < 10 then 48 + d else 87 + d)"

fun hex_fixed :: "nat \<Rightarrow> int \<Rightarrow> string" where
  "hex_fixed 0 n = []"
| "hex_fixed (Suc k) n = hex_fixed k (n div 16) @ [hex_char (nat (n mod 16))]"

text \<open>
  The text of the format \<^verbatim>\<open>\x%02x\<close> for a character: a negative one is extended to 32 bits.
\<close>

definition hex_escape :: "char \<Rightarrow> string" where
  "hex_escape c = CHR 0x5C # CHR ''x'' #
     (if schar c < 0 then hex_fixed 8 (schar c mod 4294967296) else hex_fixed 2 (schar c))"

definition escape_letter :: "char \<Rightarrow> char option" where
  "escape_letter c = map_of
     [(CHR 0x07, CHR ''a''), (CHR 0x08, CHR ''b''), (CHR 0x09, CHR ''t''), (CHR 0x0A, CHR ''n''), (CHR 0x0B, CHR ''v''),
      (CHR 0x0C, CHR ''f''), (CHR 0x0D, CHR ''r''), (CHR 0x5C, CHR 0x5C), (CHR 0x22, CHR 0x22), (CHR 0x27, CHR 0x27),
      (CHR 0x00, CHR ''0'')] c"

definition escape_step :: "nat \<Rightarrow> char \<Rightarrow> pad \<times> nat \<Rightarrow> (pad \<times> nat) option" where
  "escape_step destcharsize c st = (case st of (d, escaped) \<Rightarrow>
     if isprint c \<or> c = CHR 0x00 then
       (case escape_letter c of
          Some escch \<Rightarrow> put_char (CHR 0x5C) d \<bind> put_char escch \<bind> (\<lambda>d. Some (d, escaped + 1))
        | None \<Rightarrow> put_char c d \<bind> (\<lambda>d. Some (d, escaped)))
     else snprintf destcharsize (hex_escape c) d \<bind> (\<lambda>d. Some (d, escaped + 1)))"

fun escape_loop :: "nat \<Rightarrow> string \<Rightarrow> pad \<times> nat \<Rightarrow> (pad \<times> nat) option" where
  "escape_loop destcharsize [] st = Some st"
| "escape_loop destcharsize (c # cs) st = escape_step destcharsize c st \<bind> escape_loop destcharsize cs"

text \<open>
  The result of \<open>escape\<close> and the scratch pad after it. The counter of the loop is an \<open>int\<close>,
  which overflows for a text of \<open>2 ^ 31\<close> characters.
\<close>

definition string_escape :: "(nat \<Rightarrow> char) \<Rightarrow> string \<Rightarrow> string \<Rightarrow> (string \<times> string) option" where
  "string_escape heap pad str =
     (if length str = 0 then Some (str, pad)
      else if int (length str) > 2147483647 then None
      else
        let destcharsize = length str * 4
        in escape_loop destcharsize str ((GetScratchPad heap destcharsize pad, 0), 0) \<bind> (\<lambda>((buf, pos), escaped).
             if escaped \<noteq> 0 then if pos \<le> length buf then Some (take pos buf, buf) else None else Some (str, buf)))"

section \<open>The class regexp\<close>

text \<open>
  An instance holds a compiled expression. The start of a search is not checked, so that the
  search may begin outside of the string.
\<close>

definition regexp_constructor :: "string \<Rightarrow> rex_error + rex" where
  "regexp_constructor pattern = sqstd_rex_compile pattern"

definition regexp_match :: "string \<Rightarrow> bool rexop" where
  "regexp_match str = sqstd_rex_match str"

definition regexp_search_from :: "string \<Rightarrow> int \<Rightarrow> (nat \<times> nat) option rexop" where
  "regexp_search_from str start self =
     (if start < 0 then Inl Rex_Overrun else sqstd_rex_search str (nat start) self)"

text \<open>\<open>_addrexmatch\<close> makes a table with the slots \<open>begin\<close> and \<open>end\<close>; it is the pair of these.\<close>

definition addrexmatch :: "nat \<Rightarrow> nat \<Rightarrow> int \<times> int" where
  "addrexmatch b e = (int b, int e)"

definition regexp_search :: "string \<Rightarrow> int \<Rightarrow> (int \<times> int) option rexop" where
  "regexp_search str start =
     pbind (regexp_search_from str start) (\<lambda>r. preturn (map_option (\<lambda>(b, e). addrexmatch b e) r))"

definition capture_of :: "rexmatch \<Rightarrow> int \<times> int" where
  "capture_of m =
     (case rm_begin m of
        Some b \<Rightarrow> if rm_len m > 0 then (int b, int b + rm_len m) else (0, 0)
      | None \<Rightarrow> (0, 0))"

definition regexp_capture :: "string \<Rightarrow> int \<Rightarrow> (int \<times> int) list option rexop" where
  "regexp_capture str start self =
     bindE (regexp_search_from str start self) (\<lambda>(r, self).
       case r of
         None \<Rightarrow> Inr (None, self)
       | Some _ \<Rightarrow> Inr (Some (map (\<lambda>i. case sqstd_rex_getsubexp self (int i) of Some m \<Rightarrow> capture_of m | None \<Rightarrow> (0, 0))
                              [0..<nat (sqstd_rex_getsubexpcount self)]), self))"

definition regexp_subexpcount :: "rex \<Rightarrow> int" where
  "regexp_subexpcount self = sqstd_rex_getsubexpcount self"

end
