(* ===== verification/Sq_StringLib_Correct.thy ===== *)
theory Sq_StringLib_Correct
  imports Sq_StringLib Sq_Rex_Compile Sq_Lexer_Correct
begin

text \<open>
  What the functions of the string library return, the round trip from \<open>escape\<close> through the
  lexer, and the cases in which the code goes wrong.
\<close>

section \<open>Stripping\<close>

lemma isspace_NUL [simp]: "\<not> isspace (CHR 0x00)"
  by (simp add: isspace_def)

lemma strip_l_takeWhile: "strip_l s = length (takeWhile isspace s)"
  by (induction s) auto

lemma strip_r_loop_le: "strip_r_loop s n \<le> n"
  by (induction n) auto

lemma strip_r_loop_take: "n \<le> length s \<Longrightarrow> take (strip_r_loop s n) s = rev (dropWhile isspace (rev (take n s)))"
proof (induction n)
  case (Suc n)
  have "take (Suc n) s = take n s @ [s ! n]" using Suc.prems by (simp add: take_Suc_conv_app_nth)
  then show ?case using Suc by simp
qed simp

lemma strip_r_take: "take (strip_r s) s = rev (dropWhile isspace (rev s))"
  using strip_r_loop_take [of "length s" s] by (simp add: strip_r_def)

lemma strip_r_le: "strip_r s \<le> length s"
  by (simp add: strip_r_def strip_r_loop_le)

lemma push_from_nat:
  assumes "start + n \<le> length s" "length s < 2 ^ 63"
  shows "push_from s start (int n) = take n (drop start s)"
proof -
  have n: "n < 2 ^ 63" using assms by simp
  have u: "unat (word_of_int (int n) :: i64) = n" using n by (simp add: unat_of_nat)
  have "\<not> (word_of_int (int n) :: i64) <s 0"
    using n u by (simp add: word_sless_alt sint_small uint_nat)
  then show ?thesis using assms(1) u by (simp add: push_from_def add_chars_def)
qed

lemma push_from_strlen:
  assumes "len < 0" "- (2 ^ 63) \<le> len"
  shows "push_from s start len = takeWhile (\<lambda>c. c \<noteq> CHR 0x00) (drop start (s @ [CHR 0x00]))"
proof -
  have "sint (word_of_int len :: i64) = len" using assms by (simp add: signed_of_int signed_take_bit_int_eq_self)
  then have "(word_of_int len :: i64) <s 0" using assms(1) by (simp add: word_sless_alt)
  then show ?thesis by (simp add: push_from_def add_chars_def)
qed

lemma dropWhile_drop: "dropWhile P s = drop (length (takeWhile P s)) s"
  by (induction s) auto

lemma strip_cases:
  "(\<forall>c\<in>set s. isspace c) \<and> strip_l s = length s \<and> strip_r s = 0 \<or>
   strip_l s < strip_r s \<and> take (strip_r s - strip_l s) (drop (strip_l s) s) = rev (dropWhile isspace (rev (dropWhile isspace s)))"
proof (cases "\<forall>c\<in>set s. isspace c")
  case True
  have "take (strip_r s) s = []" using True by (simp add: strip_r_take)
  then have "strip_r s = 0 \<or> s = []" by auto
  then show ?thesis using True strip_r_le [of s] by (auto simp: strip_l_takeWhile takeWhile_eq_all_conv [THEN iffD2])
next
  case False
  define w d r where "w = takeWhile isspace s" and "d = dropWhile isspace s" and "r = rev (dropWhile isspace (rev d))"
  have s: "s = w @ d" by (simp add: w_def d_def)
  have "d \<noteq> []" using False by (auto simp: d_def)
  then have hd: "hd d \<in> set (rev d)" "\<not> isspace (hd d)" using hd_dropWhile [of isspace s] by (auto simp: d_def)
  have "r \<noteq> []" unfolding r_def using hd by (auto simp: dropWhile_eq_Nil_conv)
  have "dropWhile isspace (rev d @ rev w) = dropWhile isspace (rev d) @ rev w" by (rule dropWhile_append1) (use hd in auto)
  then have wr: "take (strip_r s) s = w @ r" unfolding strip_r_take r_def by (simp add: s)
  then have n: "strip_r s = length w + length r" using strip_r_le [of s] by (metis length_append length_take min.absorb2)
  have l: "strip_l s = length w" by (simp add: strip_l_takeWhile w_def)
  have "take (length r) (drop (length w) s) = r" using wr unfolding n by (metis add_diff_cancel_left' append_eq_conv_conj drop_take)
  then show ?thesis using n l \<open>r \<noteq> []\<close> by (auto simp: r_def d_def)
qed

lemma strip_law:
  assumes "length s < 2 ^ 63"
  shows "string_strip s = rev (dropWhile isspace (rev (dropWhile isspace s)))"
  using strip_cases [of s]
proof (elim disjE conjE)
  assume a: "\<forall>c\<in>set s. isspace c" "strip_l s = length s" "strip_r s = 0"
  show ?thesis
  proof (cases s)
    case Nil
    then show ?thesis using push_from_nat [of 0 0 s] by (simp add: string_strip_def strip_r_def)
  next
    case (Cons c cs)
    have "string_strip s = takeWhile (\<lambda>c. c \<noteq> CHR 0x00) (drop (length s) (s @ [CHR 0x00]))"
      unfolding string_strip_def a(2,3) by (rule push_from_strlen) (use assms Cons in auto)
    then have "string_strip s = []" by simp
    moreover have e: "dropWhile isspace s = []" using a(1) by simp
    ultimately show ?thesis unfolding e by simp
  qed
next
  assume a: "strip_l s < strip_r s" "take (strip_r s - strip_l s) (drop (strip_l s) s) = rev (dropWhile isspace (rev (dropWhile isspace s)))"
  have "int (strip_r s) - int (strip_l s) = int (strip_r s - strip_l s)" using a(1) by simp
  then show ?thesis unfolding string_strip_def
    using push_from_nat [of "strip_l s" "strip_r s - strip_l s" s] a strip_r_le [of s] assms by simp
qed

lemma rstrip_law: "length s < 2 ^ 63 \<Longrightarrow> string_rstrip s = rev (dropWhile isspace (rev s))"
  unfolding string_rstrip_def using push_from_nat [of 0 "strip_r s" s] strip_r_le [of s] by (simp add: strip_r_take)

lemma lstrip_law: "string_lstrip s = takeWhile (\<lambda>c. c \<noteq> CHR 0x00) (dropWhile isspace s)"
proof -
  have "drop (strip_l s) (s @ [CHR 0x00]) = dropWhile isspace s @ [CHR 0x00]"
    by (simp add: strip_l_takeWhile dropWhile_drop length_takeWhile_le)
  then show ?thesis using push_from_strlen [of "- 1" s "strip_l s"] by (simp add: string_lstrip_def takeWhile_tail)
qed

section \<open>Splitting\<close>

text \<open>The pieces between separators, empty ones included.\<close>

fun pieces :: "string \<Rightarrow> string \<Rightarrow> string list" where
  "pieces seps [] = [[]]"
| "pieces seps (c # cs) = (if c \<in> set seps then [] # pieces seps cs else (case pieces seps cs of [] \<Rightarrow> [[c]] | p # ps \<Rightarrow> (c # p) # ps))"

lemma pieces_not_nil [simp]: "pieces seps s \<noteq> []"
  by (cases s) (auto split: list.split)

lemma is_sep_iff: "is_sep seps c \<longleftrightarrow> c \<in> set seps"
  by (induction seps) auto

lemma pieces_prefix: "(\<forall>c\<in>set u. c \<notin> set seps) \<Longrightarrow> pieces seps (u @ v) = (u @ hd (pieces seps v)) # tl (pieces seps v)"
  by (induction u) auto

text \<open>What the code makes of them: an empty piece at the end is left out, and with \<open>skipempty\<close> every empty piece.\<close>

definition split_result :: "bool \<Rightarrow> string list \<Rightarrow> string list" where
  "split_result skipempty ps = (if skipempty then filter (\<lambda>p. p \<noteq> []) ps else if last ps = [] then butlast ps else ps)"

lemma split_result_Cons: "ps \<noteq> [] \<Longrightarrow> split_result b (p # ps) = (if b \<and> p = [] then [] else [p]) @ split_result b ps"
  by (auto simp: split_result_def)

lemma split_loop_law:
  assumes "length s < 2 ^ 63" "CHR 0x00 \<notin> set s"
  shows "start \<le> e \<Longrightarrow> e \<le> length s \<Longrightarrow> (\<forall>c\<in>set (substr s start e). c \<notin> set seps) \<Longrightarrow>
    split_loop s seps b start e arr = arr @ split_result b (pieces seps (drop start s))"
proof (induction "length s - e" arbitrary: start e arr rule: less_induct)
  case less
  note unf = split_loop.simps [of s seps b start e arr]
  let ?u = "substr s start e"
  have push: "push_from s start (int (e - start)) = ?u" using push_from_nat [of start "e - start" s] less.prems assms(1) by (simp add: substr_def)
  have emp: "e = start \<longleftrightarrow> ?u = []" using less.prems by (auto simp: substr_def)
  have d: "drop start s = ?u @ drop e s"
    using append_take_drop_id [of "e - start" "drop start s"] less.prems by (simp add: substr_def)
  show ?case
  proof (cases "e < length s")
    case True
    let ?c = "s ! e"
    have c: "?c \<noteq> CHR 0x00" using assms(2) True by (metis nth_mem)
    have dc: "drop e s = ?c # drop (e + 1) s" using True by (simp add: Cons_nth_drop_Suc)
    show ?thesis
    proof (cases "?c \<in> set seps")
      case sep: True
      have "split_loop s seps b start e arr = split_loop s seps b (e + 1) (e + 1) (if \<not> b \<or> e \<noteq> start then arr @ [?u] else arr)"
        unfolding unf using True c sep push by (simp add: is_sep_iff)
      also have "\<dots> = (if \<not> b \<or> e \<noteq> start then arr @ [?u] else arr) @ split_result b (pieces seps (drop (e + 1) s))"
        by (rule less.hyps) (use True in \<open>auto simp: substr_def\<close>)
      also have "\<dots> = arr @ split_result b (pieces seps (drop start s))"
        unfolding d dc pieces_prefix [OF less.prems(3)] using sep emp by (simp add: split_result_Cons)
      finally show ?thesis .
    next
      case False
      have "substr s start (e + 1) = ?u @ [?c]" using substr_snoc [of start e s] less.prems True by simp
      then have "split_loop s seps b start (e + 1) arr = arr @ split_result b (pieces seps (drop start s))"
        by (intro less.hyps) (use True False less.prems in auto)
      then show ?thesis unfolding unf using True c False by (simp add: is_sep_iff)
    qed
  next
    case False
    then have "drop start s = ?u" using d less.prems by simp
    then have "pieces seps (drop start s) = [?u]" using pieces_prefix [OF less.prems(3), of "[]"] by simp
    then show ?thesis unfolding unf using False push emp by (auto simp: split_result_def)
  qed
qed

lemma split_law:
  "length s < 2 ^ 63 \<Longrightarrow> CHR 0x00 \<notin> set s \<Longrightarrow> string_split s seps b =
     (if seps = [] then Inl ''empty separators string'' else Inr (split_result b (pieces seps s)))"
  using split_loop_law [of s 0 0 seps b "[]"] by (simp add: string_split_def substr_def)

section \<open>Escaping\<close>

definition esc :: "char \<Rightarrow> string" where
  "esc c = (if isprint c \<or> c = CHR 0x00 then (case escape_letter c of Some e \<Rightarrow> [CHR 0x5C, e] | None \<Rightarrow> [c]) else hex_escape c)"

definition ascii :: "char \<Rightarrow> bool" where
  "ascii c \<longleftrightarrow> of_char c < (128 :: nat)"

lemma put_at_law: "pos + length cs \<le> length buf \<Longrightarrow> put_at buf pos cs = Some (take pos buf @ cs @ drop (pos + length cs) buf)"
proof (induction cs arbitrary: buf pos)
  case (Cons c cs)
  then have "put_at (buf[pos := c]) (pos + 1) cs = Some (take (pos + 1) (buf[pos := c]) @ cs @ drop (pos + 1 + length cs) (buf[pos := c]))" by simp
  moreover have "take (pos + 1) (buf[pos := c]) = take pos buf @ [c]" using Cons.prems by (simp add: take_Suc_conv_app_nth)
  ultimately show ?case using Cons.prems by simp
qed simp

lemma put_char_law: "pos < length buf \<Longrightarrow> put_char c (buf, pos) = Some (buf[pos := c], pos + 1)"
  by (simp add: put_char_def)

lemma snprintf_law:
  assumes "length txt' < n" "pos + length txt' < length buf"
  shows "\<exists>buf'. snprintf n txt' (buf, pos) = Some (buf', pos + length txt') \<and> length buf' = length buf \<and>
    take (pos + length txt') buf' = take pos buf @ txt'"
proof -
  have "snprintf n txt' (buf, pos) = Some (take pos buf @ (txt' @ [CHR 0x00]) @ drop (pos + length txt' + 1) buf, pos + length txt')"
    using assms put_at_law [of pos "txt' @ [CHR 0x00]" buf] by (simp add: snprintf_def)
  then show ?thesis using assms by auto
qed

lemma hex_escape_ascii: "ascii c \<Longrightarrow> hex_escape c = [CHR 0x5C, CHR ''x'', hex_char (of_char c div 16), hex_char (of_char c mod 16)]"
proof -
  assume a: "ascii c"
  have w: "(of_char c :: byte) = of_nat (of_char c)" by (simp add: of_char_def)
  have "sint (of_nat n :: byte) = int n" if "n < 128" for n :: nat
    using that by (simp add: signed_of_nat signed_take_bit_int_eq_self)
  then have "schar c = int (of_char c)" using a by (simp add: schar_def ascii_def w)
  moreover have "nat (int (of_char c) div 16 mod 16) = of_char c div 16" "nat (int (of_char c) mod 16) = of_char c mod 16"
    using a by (simp_all add: ascii_def nat_div_distrib nat_mod_distrib)
  ultimately show ?thesis by (simp add: hex_escape_def numeral_2_eq_2 nat_div_distrib)
qed

lemma esc_length: "ascii c \<Longrightarrow> length (esc c) \<le> 4 \<and> esc c \<noteq> [] \<and> (isprint c \<or> c = CHR 0x00 \<longrightarrow> length (esc c) \<le> 2)"
  by (auto simp: esc_def hex_escape_ascii split: option.split)

lemma escape_step_law:
  assumes "ascii c" "isprint c \<or> c = CHR 0x00 \<or> 4 < n" "pos + length (esc c) < length buf"
  shows "\<exists>buf' k'. escape_step n c ((buf, pos), k) = Some ((buf', pos + length (esc c)), k') \<and> length buf' = length buf \<and>
    take (pos + length (esc c)) buf' = take pos buf @ esc c \<and> (k' = 0 \<longleftrightarrow> k = 0 \<and> esc c = [c])"
proof (cases "isprint c \<or> c = CHR 0x00")
  case True
  show ?thesis
  proof (cases "escape_letter c")
    case None
    then show ?thesis using True assms(3) by (auto simp: escape_step_def put_char_law esc_def take_Suc_conv_app_nth)
  next
    case (Some e)
    then have e: "esc c = [CHR 0x5C, e]" using True by (simp add: esc_def)
    then have "escape_step n c ((buf, pos), k) = Some ((buf[pos := CHR 0x5C, Suc pos := e], pos + 2), k + 1)"
      using True Some assms(3) by (simp add: escape_step_def put_char_law)
    moreover have "take (pos + 2) (buf[pos := CHR 0x5C, Suc pos := e]) = take pos buf @ esc c"
      using assms(3) e by (simp add: take_Suc_conv_app_nth)
    ultimately show ?thesis using e by simp
  qed
next
  case False
  have h: "esc c = hex_escape c" "length (hex_escape c) = 4" using False assms(1) by (simp_all add: esc_def hex_escape_ascii)
  then obtain buf' where "snprintf n (hex_escape c) (buf, pos) = Some (buf', pos + 4)" "length buf' = length buf" "take (pos + 4) buf' = take pos buf @ hex_escape c"
    using snprintf_law [of "hex_escape c" n pos buf] assms(2,3) False by auto
  moreover have "hex_escape c \<noteq> [c]" using h(2) by (cases "hex_escape c") auto
  ultimately show ?thesis using False h by (simp add: escape_step_def)
qed

lemma escape_loop_law:
  "\<forall>c\<in>set s. ascii c \<and> (isprint c \<or> c = CHR 0x00 \<or> 4 < n) \<Longrightarrow> pos + length (concat (map esc s)) < length buf \<Longrightarrow>
    \<exists>buf' k'. escape_loop n s ((buf, pos), k) = Some ((buf', pos + length (concat (map esc s))), k') \<and> length buf' = length buf \<and>
      take (pos + length (concat (map esc s))) buf' = take pos buf @ concat (map esc s) \<and> (k' = 0 \<longrightarrow> k = 0 \<and> concat (map esc s) = s)"
proof (induction s arbitrary: buf pos k)
  case (Cons c s)
  obtain buf1 k1 where 1: "escape_step n c ((buf, pos), k) = Some ((buf1, pos + length (esc c)), k1)" "length buf1 = length buf"
    "take (pos + length (esc c)) buf1 = take pos buf @ esc c" "k1 = 0 \<longleftrightarrow> k = 0 \<and> esc c = [c]"
    using escape_step_law [of c n pos buf k] Cons.prems by auto
  obtain buf2 k2 where 2: "escape_loop n s ((buf1, pos + length (esc c)), k1) = Some ((buf2, pos + length (esc c) + length (concat (map esc s))), k2)"
    "length buf2 = length buf" "take (pos + length (esc c) + length (concat (map esc s))) buf2 = take (pos + length (esc c)) buf1 @ concat (map esc s)"
    "k2 = 0 \<longrightarrow> k1 = 0 \<and> concat (map esc s) = s"
    using Cons.IH [of "pos + length (esc c)" buf1 k1] Cons.prems 1(2) by auto
  have "k2 = 0 \<longrightarrow> k = 0 \<and> concat (map esc (c # s)) = c # s" using 2(4) 1(4) by simp
  then show ?case using 1 2 by (simp add: add.assoc)
qed simp

lemma concat_esc_length: "\<forall>c\<in>set s. ascii c \<Longrightarrow> length (concat (map esc s)) \<le> 4 * length s"
  by (induction s) (use esc_length in \<open>auto intro: add_mono\<close>)

text \<open>
  The characters that a string of the length \<open>n\<close> must not have: those that need four characters,
  when there is only room for four bytes with the terminator.
\<close>

definition escapable :: "string \<Rightarrow> bool" where
  "escapable s \<longleftrightarrow> (\<forall>c\<in>set s. ascii c) \<and> (length s = 1 \<longrightarrow> isprint (hd s) \<or> hd s = CHR 0x00)"

text \<open>
  The pad that \<open>escape\<close> gets has room for the terminator behind the last escape, unless it had
  exactly four bytes for each character before, and every character takes four bytes.
\<close>

definition pad_fits :: "string \<Rightarrow> string \<Rightarrow> bool" where
  "pad_fits pad s \<longleftrightarrow> length pad \<noteq> 4 * length s \<or> (\<exists>c\<in>set s. isprint c \<or> c = CHR 0x00)"

lemma concat_esc_shorter:
  assumes "\<forall>c\<in>set s. ascii c" "c \<in> set s" "isprint c \<or> c = CHR 0x00"
  shows "length (concat (map esc s)) < 4 * length s"
proof -
  obtain a b where s: "s = a @ c # b" using split_list [OF assms(2)] by blast
  then show ?thesis using concat_esc_length [of a] concat_esc_length [of b] esc_length [of c] assms by auto
qed

lemma length_GetScratchPad:
  "sz > 0 \<Longrightarrow> length (GetScratchPad heap sz pad) =
     (if length pad < sz then sz + sz div 2 else if length pad \<ge> sz * 32 then length pad div 2 else length pad)"
  by (auto simp: GetScratchPad_def realloc_pad_def)

lemma escape_law:
  assumes s: "escapable s" and size: "length s < 2 ^ 31" and fits: "pad_fits pad s"
  shows "\<exists>pad'. string_escape heap pad s = Some (concat (map esc s), pad')"
proof (cases "s = []")
  case False
  let ?out = "concat (map esc s)" and ?n = "length s * 4" and ?pad = "GetScratchPad heap (length s * 4) pad"
  have pos: "length s > 0" using False by simp
  have ok: "\<forall>c\<in>set s. ascii c \<and> (isprint c \<or> c = CHR 0x00 \<or> 4 < ?n)"
    using s False unfolding escapable_def by (cases s; cases "tl s") auto
  have "length ?out \<le> ?n" "length pad = ?n \<longrightarrow> length ?out < ?n"
    using concat_esc_length [of s] concat_esc_shorter [of s] s fits
    unfolding escapable_def pad_fits_def by (simp_all add: mult.commute) blast
  moreover have "length ?pad = (if length pad < ?n then ?n + ?n div 2 else if length pad \<ge> ?n * 32 then length pad div 2 else length pad)"
    by (rule length_GetScratchPad) (use pos in simp)
  moreover have "length pad \<ge> ?n * 32 \<Longrightarrow> ?n < length pad div 2" using pos by linarith
  ultimately have len: "0 + length ?out < length ?pad" using pos by (auto split: if_splits)
  obtain buf k where "escape_loop ?n s ((?pad, 0), 0) = Some ((buf, 0 + length ?out), k)" "length buf = length ?pad"
    "take (0 + length ?out) buf = take 0 ?pad @ ?out" "k = 0 \<longrightarrow> 0 = (0::nat) \<and> ?out = s"
    using escape_loop_law [OF ok len, of 0] by blast
  then show ?thesis using False len size by (simp add: string_escape_def)
qed (simp add: string_escape_def)

text \<open>Reading an escaped character in a string literal.\<close>

lemma escape_letter_inv: "escape_letter c = Some e \<Longrightarrow> simple_escape e = Some c \<and> e \<noteq> CHR ''x'' \<and> e \<noteq> CHR ''u'' \<and> e \<noteq> CHR ''U'' \<and> e \<noteq> CHR 0x00"
  by (auto simp: escape_letter_def simple_escape_def split: if_splits)

lemma read_escape:
  assumes "looking_at l (CHR 0x5C # e # rs)" "escape_letter c = Some e"
  shows "\<exists>l'. ReadString_loop (CHR 0x22) False l = ReadString_loop (CHR 0x22) False l' \<and> looking_at l' rs \<and>
    lx_longstr l' = lx_longstr l @ [c] \<and> lx_currentline l' = lx_currentline l"
proof -
  note n = NEXT_looking_at [OF assms(1)]
  note cur = looking_at_cur [OF assms(1)] looking_at_cur [OF n(2)]
  have la: "looking_at (APPEND_CHAR c (Sq_Lexer_Correct.adv l)) (e # rs)" using n(2) by simp
  note m = NEXT_looking_at [OF la]
  have "ReadString_escape (Sq_Lexer_Correct.adv l) = Inr (Sq_Lexer_Correct.adv (APPEND_CHAR c (Sq_Lexer_Correct.adv l)))"
    using escape_letter_inv [OF assms(2)] cur m(1) by (simp add: ReadString_escape_def)
  then have "ReadString_loop (CHR 0x22) False l = ReadString_loop (CHR 0x22) False (Sq_Lexer_Correct.adv (APPEND_CHAR c (Sq_Lexer_Correct.adv l)))"
    using n(1) cur by (simp add: ReadString_loop.simps [of _ _ l] SQUIRREL_EOB_def)
  then show ?thesis using m(2) by (auto simp: APPEND_CHAR_def)
qed

lemma hex_char_digit: "hex_char = hex_digit"
  by (rule ext) (simp add: hex_char_def hex_digit_def)

lemma read_hex:
  assumes "looking_at l (hex_escape c @ rs)" "ascii c"
  shows "\<exists>l'. ReadString_loop (CHR 0x22) False l = ReadString_loop (CHR 0x22) False l' \<and> looking_at l' rs \<and>
    lx_longstr l' = lx_longstr l @ [c] \<and> lx_currentline l' = lx_currentline l"
proof -
  let ?a = "hex_digit (of_char c div 16)" and ?b = "hex_digit (of_char c mod 16)"
  have la: "looking_at l (CHR 0x5C # CHR ''x'' # ?a # ?b # rs)" using assms by (simp add: hex_escape_ascii hex_char_digit)
  note n = NEXT_looking_at [OF la]
  have "isxdigit ?a" "isxdigit ?b" by (rule hex_digit_facts(1), rule byte_halves)+
  from ReadString_escape_hex [OF n(2) this] obtain l' where
    l': "ReadString_escape (Sq_Lexer_Correct.adv l) = Inr l'" "looking_at l' rs" "lx_longstr l' = lx_longstr l @ [c]"
      "lx_currentline l' = lx_currentline l" by (auto simp: strtoul16_byte)
  have "ReadString_loop (CHR 0x22) False l = ReadString_loop (CHR 0x22) False l'"
    using n(1) l'(1) looking_at_cur [OF la] by (simp add: ReadString_loop.simps [of _ _ l] SQUIRREL_EOB_def)
  then show ?thesis using l' by blast
qed

lemma read_plain:
  assumes "looking_at l (c # rs)" "isprint c" "escape_letter c = None"
  shows "\<exists>l'. ReadString_loop (CHR 0x22) False l = ReadString_loop (CHR 0x22) False l' \<and> looking_at l' rs \<and>
    lx_longstr l' = lx_longstr l @ [c] \<and> lx_currentline l' = lx_currentline l"
proof -
  have c: "c \<noteq> CHR 0x22" "c \<noteq> CHR 0x5C" "c \<noteq> CHR 0x00" "c \<noteq> CHR 0x0A"
    using assms(2,3) by (auto simp: escape_letter_def isprint_def)
  have la: "looking_at (APPEND_CHAR c l) (c # rs)" using assms(1) by simp
  note n = NEXT_looking_at [OF la]
  have "ReadString_loop (CHR 0x22) False l = ReadString_loop (CHR 0x22) False (Sq_Lexer_Correct.adv (APPEND_CHAR c l))"
    using n(1) c looking_at_cur [OF la] by (simp add: ReadString_loop.simps [of _ _ l] SQUIRREL_EOB_def)
  then show ?thesis using n(2) by (auto simp: APPEND_CHAR_def)
qed

lemma read_escaped:
  "looking_at l (concat (map esc s) @ CHR 0x22 # rest) \<Longrightarrow> \<forall>c\<in>set s. ascii c \<Longrightarrow>
   \<exists>l'. ReadString_loop (CHR 0x22) False l = Inr l' \<and> looking_at l' rest \<and> lx_longstr l' = lx_longstr l @ s \<and> lx_currentline l' = lx_currentline l"
proof (induction s arbitrary: l)
  case Nil
  then have la: "looking_at l (CHR 0x22 # rest)" by simp
  show ?case using NEXT_looking_at [OF la] looking_at_cur [OF la] by (simp add: ReadString_loop.simps [of _ _ l])
next
  case (Cons c s)
  let ?tl = "concat (map esc s) @ CHR 0x22 # rest"
  have la: "looking_at l (esc c @ ?tl)" using Cons.prems by simp
  have "\<exists>l'. ReadString_loop (CHR 0x22) False l = ReadString_loop (CHR 0x22) False l' \<and> looking_at l' ?tl \<and>
    lx_longstr l' = lx_longstr l @ [c] \<and> lx_currentline l' = lx_currentline l"
  proof (cases "isprint c \<or> c = CHR 0x00")
    case True
    show ?thesis
    proof (cases "escape_letter c")
      case None
      moreover have "isprint c" using True None by (auto simp: escape_letter_def)
      ultimately show ?thesis using read_plain [of l c ?tl] la by (simp add: esc_def)
    next
      case (Some e)
      then show ?thesis using read_escape [of l e ?tl c] la True by (simp add: esc_def)
    qed
  next
    case False
    then show ?thesis using read_hex [of l c ?tl] la Cons.prems(2) by (simp add: esc_def)
  qed
  then obtain l1 where l1: "ReadString_loop (CHR 0x22) False l = ReadString_loop (CHR 0x22) False l1" "looking_at l1 ?tl"
    "lx_longstr l1 = lx_longstr l @ [c]" "lx_currentline l1 = lx_currentline l" by blast
  show ?case using Cons.IH [OF l1(2)] Cons.prems(2) l1 by auto
qed

section \<open>Properties\<close>

text \<open>
  C22. Escaping and reading back: for a string of ASCII characters, shorter than \<open>2 ^ 31\<close> and
  not a single control character, \<open>escape\<close> stays inside of the scratch pad that \<open>GetScratchPad\<close>
  returns, and its result between quotation marks is read by the lexer as one string literal
  with the original characters. Excepted is a string of control characters only when the
  pad of the shared state has exactly four bytes for each of them (\<open>pad_fits\<close>): then the last
  terminator is written behind the pad, see \<open>escape_overruns_pad\<close>.
\<close>

theorem escape_reads_back:
  assumes "escapable s" "length s < 2 ^ 31" "pad_fits pad s"
  shows "\<exists>out pad'. string_escape heap pad s = Some (out, pad') \<and>
    (\<forall>l rest. looking_at l (CHR 0x22 # out @ CHR 0x22 # rest) \<longrightarrow>
      (\<exists>l'. Lex l = Inr (TK_STRING_LITERAL, l') \<and> looking_at l' rest \<and> lx_svalue l' = s @ [CHR 0x00] \<and> lx_currentline l' = lx_currentline l))"
proof -
  obtain pad' where e: "string_escape heap pad s = Some (concat (map esc s), pad')" using escape_law [OF assms] by blast
  show ?thesis
proof (rule exI [of _ "concat (map esc s)"], rule exI [of _ pad'], intro conjI allI impI, fact e)
  fix l rest
  assume la0: "looking_at l (CHR 0x22 # concat (map esc s) @ CHR 0x22 # rest)"
  let ?l = "INIT_TEMP_STRING (l\<lparr>lx_lasttokenline := lx_currentline l\<rparr>)"
  have la: "looking_at ?l (CHR 0x22 # concat (map esc s) @ CHR 0x22 # rest)" using la0 by (simp add: INIT_TEMP_STRING_def)
  note n = NEXT_looking_at [OF la]
  have eob: "\<not> IS_EOB (Sq_Lexer_Correct.adv ?l)" using n(2) by (rule looking_at_not_eob) simp
  from read_escaped [OF n(2)] assms(1) obtain l' where
    l': "ReadString_loop (CHR 0x22) False (Sq_Lexer_Correct.adv ?l) = Inr l'" "looking_at l' rest" "lx_longstr l' = s" "lx_currentline l' = lx_currentline l"
    by (auto simp: INIT_TEMP_STRING_def escapable_def)
  show "\<exists>l'. Lex l = Inr (TK_STRING_LITERAL, l') \<and> looking_at l' rest \<and> lx_svalue l' = s @ [CHR 0x00] \<and> lx_currentline l' = lx_currentline l"
    using looking_at_cur [OF la0] n(1) l' eob
    by (simp add: Lex_token lex_token_def string_token_def ReadString_def Let_def TERMINATE_BUFFER_def RETURN_TOKEN_def TK_STRING_LITERAL_def)
qed
qed

theorem escape_reads_back_witness:
  "map_option fst (string_escape (\<lambda>_. CHR 0x00) ''12345678'' [CHR ''a'', CHR 0x0A, CHR 0x22]) = Some (''a'' @ [CHR 0x5C] @ ''x0a'' @ [CHR 0x5C, CHR 0x22]) \<and>
   (\<exists>l'. Lex (lexer_on ([CHR 0x22] @ ''a'' @ [CHR 0x5C] @ ''x0a'' @ [CHR 0x5C, CHR 0x22, CHR 0x22])) = Inr (TK_STRING_LITERAL, l') \<and>
      lx_svalue l' = [CHR ''a'', CHR 0x0A, CHR 0x22, CHR 0x00])"
proof
  let ?heap = "\<lambda>_ :: nat. CHR 0x00" and ?pad = "''12345678''" and ?s = "[CHR ''a'', CHR 0x0A, CHR 0x22]"
  let ?out = "''a'' @ [CHR 0x5C] @ ''x0a'' @ [CHR 0x5C, CHR 0x22]"
  show e: "map_option fst (string_escape ?heap ?pad ?s) = Some ?out" by code_simp
  have "escapable ?s" "length ?s < 2 ^ 31" "pad_fits ?pad ?s" by (simp_all add: escapable_def ascii_def pad_fits_def)
  from escape_reads_back [OF this, of ?heap] obtain out pad' where o: "string_escape ?heap ?pad ?s = Some (out, pad')"
    "\<And>l rest. looking_at l (CHR 0x22 # out @ CHR 0x22 # rest) \<Longrightarrow>
      \<exists>l'. Lex l = Inr (TK_STRING_LITERAL, l') \<and> lx_svalue l' = ?s @ [CHR 0x00]" by blast
  from o(1) e have "out = ?out" by simp
  with o(2) have "looking_at l (CHR 0x22 # ?out @ CHR 0x22 # []) \<Longrightarrow>
      \<exists>l'. Lex l = Inr (TK_STRING_LITERAL, l') \<and> lx_svalue l' = ?s @ [CHR 0x00]" for l by blast
  moreover have "looking_at (lexer_on (CHR 0x22 # ?out @ CHR 0x22 # [])) (CHR 0x22 # ?out @ CHR 0x22 # [])" by (rule looking_at_lexer_on) simp_all
  ultimately show "\<exists>l'. Lex (lexer_on ([CHR 0x22] @ ''a'' @ [CHR 0x5C] @ ''x0a'' @ [CHR 0x5C, CHR 0x22, CHR 0x22])) = Inr (TK_STRING_LITERAL, l') \<and>
      lx_svalue l' = [CHR ''a'', CHR 0x0A, CHR 0x22, CHR 0x00]" by fastforce
qed

text \<open>
  C24. \<open>strip\<close> and \<open>rstrip\<close> remove the white space at the ends, also for a string of white space
  only, where the computed length is negative; \<open>lstrip\<close> removes it at the start and cuts the
  string at its first zero byte. \<open>split\<close> gives the pieces between separators without an empty
  last one, or without any empty one, and rejects an empty list of separators.
\<close>

theorem strip_and_split:
  assumes "length s < 2 ^ 63"
  shows "string_strip s = rev (dropWhile isspace (rev (dropWhile isspace s))) \<and>
    string_rstrip s = rev (dropWhile isspace (rev s)) \<and>
    string_lstrip s = takeWhile (\<lambda>c. c \<noteq> CHR 0x00) (dropWhile isspace s) \<and>
    (CHR 0x00 \<notin> set s \<longrightarrow> string_split s seps b =
       (if seps = [] then Inl ''empty separators string'' else Inr (split_result b (pieces seps s))))"
  using strip_law [OF assms] rstrip_law [OF assms] lstrip_law [of s] split_law [OF assms] by auto

theorem strip_and_split_witness:
  "string_strip '' a b '' = ''a b'' \<and> string_rstrip '' a '' = '' a'' \<and> string_lstrip '' a '' = ''a '' \<and>
   string_split '',a,,b,'' '','' False = Inr [[], ''a'', [], ''b''] \<and> string_split '',a,,b,'' '','' True = Inr [''a'', ''b'']"
  using strip_and_split [of "'' a b ''" "'',''" False] strip_and_split [of "'' a ''" "'',''" False]
    strip_and_split [of "'',a,,b,''" "'',''" False] strip_and_split [of "'',a,,b,''" "'',''" True]
  by (simp add: isspace_def split_result_def)

text \<open>
  Where \<open>escape\<close> goes wrong: the bound that it passes to \<open>snprintf\<close> cuts the only escape of a
  string of one control character, and a byte above 127 is written with eight digits, for
  which the pad has no room.
\<close>

lemma escape_single_control:
  "map_option fst (string_escape (\<lambda>_. CHR ''?'') [] [CHR 0x0A]) = Some [CHR 0x5C, CHR ''x'', CHR ''0'', CHR 0x00]"
  by code_simp

lemma escape_high_bytes: "string_escape (\<lambda>_. CHR ''?'') [] [CHR 0x80, CHR 0x80, CHR 0x80] = None"
  by code_simp

text \<open>
  A pad of exactly four bytes for each character: after \<open>GetScratchPad\<close> gave 12 bytes for a
  request of 8, the escape of three control characters has no room for the last terminator.
\<close>

lemma escape_overruns_pad:
  "length (GetScratchPad heap 8 []) = 12"
  "string_escape heap (GetScratchPad (\<lambda>_. CHR ''?'') 8 []) [CHR 0x01, CHR 0x01, CHR 0x01] = None"
proof -
  show "length (GetScratchPad heap 8 []) = 12" by (simp add: length_GetScratchPad)
  have pad: "GetScratchPad (\<lambda>_. CHR ''?'') 8 [] = replicate 12 CHR ''?''" by code_simp
  then have "GetScratchPad heap 12 (GetScratchPad (\<lambda>_. CHR ''?'') 8 []) = replicate 12 CHR ''?''"
    by (simp add: GetScratchPad_def)
  moreover have "escape_loop 12 [CHR 0x01, CHR 0x01, CHR 0x01] ((replicate 12 CHR ''?'', 0), 0) = None" by code_simp
  ultimately show "string_escape heap (GetScratchPad (\<lambda>_. CHR ''?'') 8 []) [CHR 0x01, CHR 0x01, CHR 0x01] = None"
    by (simp add: string_escape_def del: escape_loop.simps)
qed

text \<open>
  A group that a search does not try keeps its match of an earlier search: after a capture in
  the text \<open>xxa\<close>, the capture in the text \<open>b\<close> reports a group that lies behind the end of it.
\<close>

lemma capture_keeps_old_group:
  "case regexp_constructor ''b|(a)'' of Inl _ \<Rightarrow> False
   | Inr e \<Rightarrow> (case regexp_capture ''xxa'' 0 e of Inl _ \<Rightarrow> False
     | Inr (_, e') \<Rightarrow> (case regexp_capture ''b'' 0 e' of Inl _ \<Rightarrow> False
       | Inr (r, _) \<Rightarrow> r = Some [(0, 1), (2, 3)]))"
  by code_simp

end
