(* ===== verification/Sq_Format.thy ===== *)
theory Sq_Format
  imports Sq_Float Sq_Rex
begin

text \<open>
  The formatting function of the string library (\<open>sqstd_format\<close> in \<^verbatim>\<open>sqstdstring.cpp\<close>) and
  the part of \<open>snprintf\<close> that it uses. The function writes to a block of \<open>allocated\<close> bytes that
  grows with every conversion; the bytes that are written so far are the first ones of the block.
\<close>

section \<open>Conversions of the C library\<close>

datatype fmtarg = FStr string | FInt i64 | FFlt u32

record pfspec =
  pf_flags :: string
  pf_width :: nat
  pf_prec :: "nat option"
  pf_conv :: char

definition isfmtchr :: "char \<Rightarrow> bool" where
  "isfmtchr ch \<longleftrightarrow> ch = CHR ''-'' \<or> ch = CHR ''+'' \<or> ch = CHR '' '' \<or> ch = CHR ''#'' \<or> ch = CHR ''0''"

definition num :: "string \<Rightarrow> nat" where
  "num ds = nat (dec_value ds 0)"

text \<open>How \<open>snprintf\<close> reads the text of a conversion.\<close>

definition parse_conv :: "string \<Rightarrow> nat option \<Rightarrow> nat \<Rightarrow> string \<Rightarrow> pfspec" where
  "parse_conv flags prec width s =
     (let s = (if take 2 s = ''ll'' then drop 2 s else s)
      in \<lparr>pf_flags = flags, pf_width = width, pf_prec = prec, pf_conv = (case s of [] \<Rightarrow> CHR 0x00 | c # _ \<Rightarrow> c)\<rparr>)"

definition parse_spec :: "string \<Rightarrow> pfspec" where
  "parse_spec fmt =
     (let s = tl fmt;
          flags = takeWhile isfmtchr s; s = dropWhile isfmtchr s;
          width = num (takeWhile isdigit s); s = dropWhile isdigit s
      in case s of
           c # s' \<Rightarrow> if c = CHR ''.''
                     then parse_conv flags (Some (num (takeWhile isdigit s'))) width (dropWhile isdigit s')
                     else parse_conv flags None width s
         | [] \<Rightarrow> parse_conv flags None width s)"

abbreviation pf_has :: "pfspec \<Rightarrow> char \<Rightarrow> bool" where
  "pf_has p c \<equiv> c \<in> set (pf_flags p)"

text \<open>A sign or a prefix and a body, brought to the width.\<close>

definition pf_field :: "pfspec \<Rightarrow> bool \<Rightarrow> string \<Rightarrow> string \<Rightarrow> string" where
  "pf_field p zeros prefix body =
     (let n = pf_width p - (length prefix + length body)
      in if pf_has p (CHR ''-'') then prefix @ body @ replicate n (CHR '' '')
         else if zeros \<and> pf_has p (CHR ''0'') then prefix @ replicate n (CHR ''0'') @ body
         else replicate n (CHR '' '') @ prefix @ body)"

definition digit_char :: "bool \<Rightarrow> int \<Rightarrow> char" where
  "digit_char upper d = char_of (if d < 10 then 48 + d else if upper then 55 + d else 87 + d)"

function base_digits :: "int \<Rightarrow> bool \<Rightarrow> int \<Rightarrow> string" where
  "base_digits b upper n =
     (if 2 \<le> b \<and> b \<le> n then base_digits b upper (n div b) @ [digit_char upper (n mod b)] else [digit_char upper n])"
  by pat_completeness auto
termination
  by (relation "measure (\<lambda>(b, u, n). nat n)") (auto simp: nat_less_iff int_div_less_self)

declare base_digits.simps [simp del]

definition pf_digits :: "pfspec \<Rightarrow> int \<Rightarrow> bool \<Rightarrow> int \<Rightarrow> string" where
  "pf_digits p b upper n =
     (let ds = (if n = 0 \<and> pf_prec p = Some 0 then [] else base_digits b upper n);
          ds = (case pf_prec p of Some k \<Rightarrow> replicate (k - length ds) (CHR ''0'') @ ds | None \<Rightarrow> ds)
      in if b = 8 \<and> pf_has p (CHR ''#'') \<and> (case ds of [] \<Rightarrow> True | c # _ \<Rightarrow> c \<noteq> CHR ''0'') then CHR ''0'' # ds else ds)"

definition pf_sign :: "pfspec \<Rightarrow> bool \<Rightarrow> string" where
  "pf_sign p neg = (if neg then ''-'' else if pf_has p (CHR ''+'') then ''+'' else if pf_has p (CHR '' '') then '' '' else [])"

definition pf_int :: "pfspec \<Rightarrow> i64 \<Rightarrow> string" where
  "pf_int p i =
     (let c = pf_conv p; zeros = (pf_prec p = None)
      in if c = CHR ''d'' \<or> c = CHR ''i'' then pf_field p zeros (pf_sign p (sint i < 0)) (pf_digits p 10 False (abs (sint i)))
         else if c = CHR ''u'' then pf_field p zeros [] (pf_digits p 10 False (uint i))
         else if c = CHR ''o'' then pf_field p zeros [] (pf_digits p 8 False (uint i))
         else if c = CHR ''x'' \<or> c = CHR ''X'' then
           pf_field p zeros (if pf_has p (CHR ''#'') \<and> i \<noteq> 0 then [CHR ''0'', c] else []) (pf_digits p 16 (c = CHR ''X'') (uint i))
         else pf_field p False [] [char_of (uint i)])"

definition pf_str :: "pfspec \<Rightarrow> string \<Rightarrow> string" where
  "pf_str p s =
     (let t = takeWhile (\<lambda>c. c \<noteq> CHR 0x00) s
      in pf_field p False [] (case pf_prec p of Some k \<Rightarrow> take k t | None \<Rightarrow> t))"

text \<open>Floats: the exact value, an integer multiple of \<open>2 ^ -149\<close>, is rounded to nearest.\<close>

definition point :: "pfspec \<Rightarrow> string \<Rightarrow> string" where
  "point p frac = (if frac = [] \<and> \<not> pf_has p (CHR ''#'') then [] else CHR ''.'' # frac)"

definition pf_fixed :: "pfspec \<Rightarrow> nat \<Rightarrow> int \<Rightarrow> int \<Rightarrow> string" where
  "pf_fixed p k n d =
     (let ds = base_digits 10 False (round_half_even (n * 10 ^ k) d);
          ds = replicate (k + 1 - length ds) (CHR ''0'') @ ds
      in take (length ds - k) ds @ point p (drop (length ds - k) ds))"

text \<open>The digits and the exponent of \<open>P\<close> significant digits.\<close>

definition sig_digits :: "nat \<Rightarrow> int \<Rightarrow> int \<Rightarrow> string \<times> int" where
  "sig_digits P n d =
     (if n = 0 then (replicate P (CHR ''0''), 0)
      else
        let e0 = (if d \<le> n then log10_up n d 0 else log10_down n d 0);
            m0 = digits_at (int P) n d e0
        in if m0 = 10 ^ P then (base_digits 10 False (10 ^ (P - 1)), e0 + 1) else (base_digits 10 False m0, e0))"

definition exp_text :: "bool \<Rightarrow> int \<Rightarrow> string" where
  "exp_text upper e =
     (if upper then ''E'' else ''e'') @ (if e < 0 then ''-'' else ''+'') @
     (if abs e < 10 then ''0'' else []) @ base_digits 10 False (abs e)"

definition pf_exp :: "pfspec \<Rightarrow> bool \<Rightarrow> nat \<Rightarrow> int \<Rightarrow> int \<Rightarrow> string" where
  "pf_exp p upper k n d =
     (case sig_digits (k + 1) n d of (ds, e) \<Rightarrow> take 1 ds @ point p (drop 1 ds) @ exp_text upper e)"

definition pf_strip :: "pfspec \<Rightarrow> string \<Rightarrow> string" where
  "pf_strip p s = (if pf_has p (CHR ''#'') then s else strip_zeros s)"

definition pf_general :: "pfspec \<Rightarrow> bool \<Rightarrow> nat \<Rightarrow> int \<Rightarrow> int \<Rightarrow> string" where
  "pf_general p upper P n d =
     (case sig_digits P n d of (ds, e) \<Rightarrow>
        if e < - 4 \<or> int P \<le> e then take 1 ds @ point p (pf_strip p (drop 1 ds)) @ exp_text upper e
        else if e < 0 then ''0'' @ point p (pf_strip p (replicate (nat (- e - 1)) (CHR ''0'') @ ds))
        else take (nat e + 1) ds @ point p (pf_strip p (drop (nat e + 1) ds)))"

definition pf_float :: "pfspec \<Rightarrow> u32 \<Rightarrow> string" where
  "pf_float p f =
     (let c = pf_conv p; upper = (c = CHR ''G'' \<or> c = CHR ''E''); sign = pf_sign p (float_sign f)
      in if is_nan f then pf_field p False sign (if upper then ''NAN'' else ''nan'')
         else if is_inf f then pf_field p False sign (if upper then ''INF'' else ''inf'')
         else
           let n = abs (float_units f); d = 2 ^ 149; k = (case pf_prec p of Some k \<Rightarrow> k | None \<Rightarrow> 6)
           in pf_field p True sign
                (if c = CHR ''f'' then pf_fixed p k n d
                 else if c = CHR ''e'' \<or> c = CHR ''E'' then pf_exp p upper k n d
                 else pf_general p upper (if k = 0 then 1 else k) n d))"

definition snprintf_text :: "string \<Rightarrow> fmtarg \<Rightarrow> string" where
  "snprintf_text fmt a =
     (let p = parse_spec fmt
      in case a of FStr s \<Rightarrow> pf_str p s | FInt i \<Rightarrow> pf_int p i | FFlt f \<Rightarrow> pf_float p f)"

section \<open>The format string\<close>

datatype fmt_error = Fmt_Error string | Fmt_Overrun

definition MAX_FORMAT_LEN :: nat where "MAX_FORMAT_LEN = 20"
definition MAX_WFORMAT_LEN :: nat where "MAX_WFORMAT_LEN = 3"

text \<open>Skipping the flags, and reading a number of fewer than three digits.\<close>

fun skip_flags :: "string \<Rightarrow> nat" where
  "skip_flags [] = 0"
| "skip_flags (c # cs) = (if isfmtchr c then Suc (skip_flags cs) else 0)"

fun read_width :: "string \<Rightarrow> string \<Rightarrow> string option" where
  "read_width [] swidth = Some swidth"
| "read_width (c # cs) swidth =
     (if isdigit c then
        (let swidth = swidth @ [c] in if length swidth \<ge> MAX_WFORMAT_LEN then None else read_width cs swidth)
      else Some swidth)"

text \<open>
  \<open>validate_format\<close> gets the format string and the index behind the percent sign. It copies the
  conversion into a buffer of 20 characters; writing behind it is an overrun.
\<close>

definition copy_conv :: "string \<Rightarrow> nat \<Rightarrow> nat \<Rightarrow> nat \<Rightarrow> fmt_error + (string \<times> nat \<times> nat)" where
  "copy_conv src start n width =
     (if n - start > MAX_FORMAT_LEN then Inl (Fmt_Error ''format too long'')
      else if n - start + 2 \<ge> MAX_FORMAT_LEN then Inl Fmt_Overrun
      else Inr (CHR ''%'' # take (n - start + 1) (drop start src), n, width))"

definition validate_format :: "string \<Rightarrow> nat \<Rightarrow> fmt_error + (string \<times> nat \<times> nat)" where
  "validate_format src start =
     (let n = start + skip_flags (drop start src)
      in case read_width (drop n src) [] of
           None \<Rightarrow> Inl (Fmt_Error ''width format too long'')
         | Some swidth \<Rightarrow>
             let n = n + length swidth; width = num swidth
             in if n < length src \<and> src ! n = CHR ''.'' then
                  (case read_width (drop (n + 1) src) [] of
                     None \<Rightarrow> Inl (Fmt_Error ''precision format too long'')
                   | Some swidth \<Rightarrow> copy_conv src start (n + 1 + length swidth) (width + num swidth))
                else copy_conv src start n width)"

text \<open>In a 64-bit build the length modifier is put before the letter of an integer conversion.\<close>

definition add_prec :: "string \<Rightarrow> fmt_error + string" where
  "add_prec fmt =
     (if length fmt + 2 \<ge> MAX_FORMAT_LEN then Inl Fmt_Overrun
      else Inr (butlast fmt @ ''ll'' @ [last fmt]))"

text \<open>
  The argument of a conversion: it has the type that the letter asks for; \<open>sq_getinteger\<close> and
  \<open>sq_getfloat\<close> convert numbers. \<open>addlen\<close> is the space for it.
\<close>

definition get_integer :: "sqobject \<Rightarrow> i64 option" where
  "get_integer v = (case v of VInteger i \<Rightarrow> Some i | VFloat f \<Rightarrow> Some (float_to_integer f) | VBool b \<Rightarrow> Some (if b = 0 then 0 else 1) | _ \<Rightarrow> None)"

definition get_float :: "sqobject \<Rightarrow> u32 option" where
  "get_float v = (case v of VInteger i \<Rightarrow> Some (integer_to_float i) | VFloat f \<Rightarrow> Some f | _ \<Rightarrow> None)"

definition int_letter :: "char \<Rightarrow> bool" where "int_letter c \<longleftrightarrow> c \<in> set ''iduoxXc''"
definition float_letter :: "char \<Rightarrow> bool" where "float_letter c \<longleftrightarrow> c \<in> set ''fgGeE''"

definition fmt_argument :: "char \<Rightarrow> string \<Rightarrow> nat \<Rightarrow> sqobject \<Rightarrow> fmt_error + (string \<times> fmtarg \<times> nat)" where
  "fmt_argument c fmt w v =
     (if c = CHR ''s'' then
        (case v of VString s \<Rightarrow> Inr (fmt, FStr s, length s + (w + 1)) | _ \<Rightarrow> Inl (Fmt_Error ''string expected for the specified format''))
      else if int_letter c then
        bindE (if c = CHR ''c'' then Inr fmt else add_prec fmt) (\<lambda>fmt.
          case get_integer v of
            Some i \<Rightarrow> Inr (fmt, FInt i, 100 + (w + 1))
          | None \<Rightarrow> Inl (Fmt_Error ''integer expected for the specified format''))
      else if float_letter c then
        (case get_float v of
           Some f \<Rightarrow> Inr (fmt, FFlt f, 100 + (w + 1))
         | None \<Rightarrow> Inl (Fmt_Error ''float expected for the specified format''))
      else Inl (Fmt_Error ''invalid format''))"

text \<open>The loop of \<open>sqstd_format\<close>; \<open>out\<close> are the bytes written so far.\<close>

definition put_text :: "nat \<Rightarrow> string \<Rightarrow> string \<Rightarrow> fmt_error + string" where
  "put_text allocated out t =
     (if length t < allocated \<and> length out + length t < allocated then Inr (out @ t) else Inl Fmt_Overrun)"

lemma validate_format_forward: "validate_format src start = Inr (fmt, n, w) \<Longrightarrow> start \<le> n"
  by (auto simp: validate_format_def copy_conv_def Let_def split: option.splits if_splits)

function format_loop :: "string \<Rightarrow> nat \<Rightarrow> sqobject list \<Rightarrow> nat \<Rightarrow> string \<Rightarrow> fmt_error + (string \<times> nat)" where
  "format_loop fs n args allocated out =
     (if n < length fs then
        if fs ! n \<noteq> CHR ''%'' then
          if length out < allocated then format_loop fs (n + 1) args allocated (out @ [fs ! n]) else Inl Fmt_Overrun
        else if n + 1 < length fs \<and> fs ! (n + 1) = CHR ''%'' then
          if length out < allocated then format_loop fs (n + 2) args allocated (out @ ''%'') else Inl Fmt_Overrun
        else
          (case args of
             [] \<Rightarrow> Inl (Fmt_Error ''not enough parameters for the given format string'')
           | a # args' \<Rightarrow>
               bindE (validate_format fs (n + 1)) (\<lambda>(fmt, n', w).
               bindE (fmt_argument (if n' < length fs then fs ! n' else CHR 0x00) fmt w a) (\<lambda>(fmt, arg, addlen).
               let allocated = allocated + (addlen + 1)
               in bindE (put_text allocated out (snprintf_text fmt arg)) (\<lambda>out.
                    format_loop fs (n' + 1) args' allocated out))))
      else Inr (out, allocated))"
  by pat_completeness auto
termination
  by (relation "measure (\<lambda>(fs, n, args, allocated, out). length fs - n)") (auto dest!: validate_format_forward)

declare format_loop.simps [simp del]

definition sqstd_format :: "string \<Rightarrow> sqobject list \<Rightarrow> fmt_error + string" where
  "sqstd_format fs args =
     bindE (format_loop fs 0 args (length fs + 2) []) (\<lambda>(out, allocated).
       if length out < allocated then Inr out else Inl Fmt_Overrun)"

definition string_format :: "string \<Rightarrow> sqobject list \<Rightarrow> fmt_error + string" where
  "string_format fs args = sqstd_format fs args"

end
