(* ===== verification/Sq_Format_Correct.thy ===== *)
theory Sq_Format_Correct
  imports Sq_Format
begin

text \<open>
  Formatting stays inside of the block that it allocates: the text of a conversion is never
  longer than the space that is added for it.
\<close>

unbundle bit_operations_syntax

section \<open>Lengths of the conversions\<close>

lemma div_less_mult: "0 < (d :: int) \<Longrightarrow> n < d * m \<Longrightarrow> n div d < m"
proof -
  assume a: "0 < d" "n < d * m"
  have "d * (n div d) \<le> n" using mult_div_mod_eq [of d n] pos_mod_sign [OF a(1), of n] by linarith
  then have "d * (n div d) < d * m" using a(2) by simp
  then show ?thesis using a(1) by simp
qed

lemma base_digits_length: "2 \<le> b \<Longrightarrow> n < b ^ Suc k \<Longrightarrow> length (base_digits b u n) \<le> Suc k"
proof (induction k arbitrary: n)
  case 0
  then show ?case by (simp add: base_digits.simps [of b u n])
next
  case (Suc k)
  show ?case
  proof (cases "b \<le> n")
    case True
    have "n div b < b ^ Suc k"
      by (rule div_less_mult) (use Suc.prems in simp_all)
    then show ?thesis using Suc.IH [of "n div b"] Suc.prems True by (simp add: base_digits.simps [of b u n])
  qed (simp add: base_digits.simps [of b u n])
qed

lemma pf_field_length: "length (pf_field p z prefix body) = max (pf_width p) (length prefix + length body)"
  by (auto simp: pf_field_def Let_def max_def)

definition pf_space :: "pfspec \<Rightarrow> nat" where
  "pf_space p = pf_width p + (case pf_prec p of Some k \<Rightarrow> k | None \<Rightarrow> 0)"

lemma pf_digits_length:
  assumes "2 \<le> b" "n < b ^ Suc k"
  shows "length (pf_digits p b u n) \<le> max (case pf_prec p of Some k \<Rightarrow> k | None \<Rightarrow> 0) (Suc k) + 1"
  using base_digits_length [OF assms, of u] by (auto simp: pf_digits_def Let_def split: option.split)

lemma pf_sign_length: "length (pf_sign p b) \<le> 1"
  by (simp add: pf_sign_def)

lemma if_cases_length: "length x \<le> n \<Longrightarrow> length y \<le> n \<Longrightarrow> length (if b then x else y) \<le> n"
  by simp

lemma pf_int_length: "length (pf_int p i) \<le> pf_space p + 100"
proof -
  let ?k = "case pf_prec p of Some k \<Rightarrow> k | None \<Rightarrow> 0"
  have u: "uint i < 2 ^ 64" "abs (sint i) \<le> 2 ^ 63"
    using uint_lt2p [of i] sint_greater_eq [of i] sint_less [of i] by auto
  have d: "length (pf_digits p b v n) \<le> ?k + 24" if "n < b ^ Suc k" "2 \<le> b" "k \<le> 22" for b v n k
    using pf_digits_length [OF that(2,1), of p v] that(3) by simp
  have digits: "length (pf_digits p 10 v (uint i)) \<le> ?k + 24" "length (pf_digits p 10 v (abs (sint i))) \<le> ?k + 24"
    "length (pf_digits p 8 v (uint i)) \<le> ?k + 24" "length (pf_digits p 16 v (uint i)) \<le> ?k + 24" for v
    by (rule d [where k = 20] d [where k = 22] d [where k = 16], use u in simp_all)+
  have f: "length (pf_field p z pre body) \<le> pf_space p + 100" if "length pre \<le> 2" "length body \<le> ?k + 24" for z pre body
    using that by (simp add: pf_field_length pf_space_def)
  have s: "length (pf_sign p b) \<le> 2" for b using pf_sign_length [of p b] by simp
  show ?thesis unfolding pf_int_def Let_def
    by (intro if_cases_length f s digits) simp_all
qed

lemma pf_str_length: "length (pf_str p s) \<le> pf_space p + length s"
proof -
  have "length (takeWhile (\<lambda>c. c \<noteq> CHR 0x00) s) \<le> length s" by (rule length_takeWhile_le)
  then show ?thesis by (auto simp: pf_str_def Let_def pf_field_length pf_space_def max_def split: option.split)
qed

text \<open>Floats.\<close>

lemma round_half_even_bounds:
  assumes "0 \<le> n" "0 < d" "n < d * m"
  shows "0 \<le> round_half_even n d" "round_half_even n d \<le> m"
proof -
  have "n div d < m" by (rule div_less_mult [OF assms(2,3)])
  then show "round_half_even n d \<le> m" by (auto simp: round_half_even_def Let_def)
  show "0 \<le> round_half_even n d" using assms by (auto simp: round_half_even_def Let_def pos_imp_zdiv_nonneg_iff)
qed

lemma log10_up_law: "0 < d \<Longrightarrow> d \<le> n \<Longrightarrow> k \<le> log10_up n d k \<and> d * 10 ^ nat (log10_up n d k - k) \<le> n \<and> n < d * 10 ^ nat (log10_up n d k - k + 1)"
proof (induction n d k rule: log10_up.induct)
  case (1 n d k)
  show ?case
  proof (cases "10 * d \<le> n")
    case True
    let ?e = "log10_up n (10 * d) (k + 1)"
    have eq: "log10_up n d k = ?e" using True 1(2) by (simp add: log10_up.simps [of n d k])
    have ih: "k + 1 \<le> ?e" "10 * d * 10 ^ nat (?e - (k + 1)) \<le> n" "n < 10 * d * 10 ^ nat (?e - (k + 1) + 1)"
      using 1(1) True 1(2) by auto
    have "nat (?e - k) = Suc (nat (?e - (k + 1)))" "nat (?e - k + 1) = Suc (nat (?e - (k + 1) + 1))" using ih(1) by auto
    then show ?thesis unfolding eq using ih by simp
  next
    case False
    then show ?thesis using 1(2,3) by (simp add: log10_up.simps [of n d k])
  qed
qed

lemma log10_down_law: "0 < n \<Longrightarrow> n < 10 * d \<Longrightarrow> log10_down n d k \<le> k \<and> n * 10 ^ nat (k - log10_down n d k) < 10 * d \<and>
    (log10_down n d k < k \<longrightarrow> n * 10 ^ nat (k - log10_down n d k - 1) < d)"
proof (induction n d k rule: log10_down.induct)
  case (1 n d k)
  show ?case
  proof (cases "n < d")
    case True
    let ?e = "log10_down (10 * n) d (k - 1)"
    have eq: "log10_down n d k = ?e" using True 1(2) by (simp add: log10_down.simps [of n d k])
    have ih: "?e \<le> k - 1" "10 * n * 10 ^ nat (k - 1 - ?e) < 10 * d" "?e < k - 1 \<longrightarrow> 10 * n * 10 ^ nat (k - 1 - ?e - 1) < d"
      using 1(1) True 1(2) by auto
    have n: "nat (k - ?e) = Suc (nat (k - 1 - ?e))" using ih(1) by auto
    have "n * 10 ^ nat (k - ?e - 1) < d"
    proof (cases "?e = k - 1")
      case False
      then have "nat (k - ?e - 1) = Suc (nat (k - 1 - ?e - 1))" "?e < k - 1" using ih(1) by auto
      then show ?thesis using ih(3) by (simp add: mult.assoc)
    qed (use True in simp)
    then show ?thesis unfolding eq n using ih by (simp add: mult.assoc mult.left_commute)
  next
    case False
    then show ?thesis using 1(2,3) by (simp add: log10_down.simps [of n d k])
  qed
qed

lemma digits_at_bounds:
  assumes "0 < n" "0 < d" "0 < P"
  shows "d \<le> n \<Longrightarrow> 0 \<le> digits_at (int P) n d (log10_up n d 0) \<and> digits_at (int P) n d (log10_up n d 0) \<le> 10 ^ P"
    "n < d \<Longrightarrow> 0 \<le> digits_at (int P) n d (log10_down n d 0) \<and> digits_at (int P) n d (log10_down n d 0) \<le> 10 ^ P"
proof -
  assume dn: "d \<le> n"
  let ?e = "log10_up n d 0"
  have e: "0 \<le> ?e" "n < d * 10 ^ nat (?e + 1)" using log10_up_law [of d n 0] assms dn by auto
  show "0 \<le> digits_at (int P) n d ?e \<and> digits_at (int P) n d ?e \<le> 10 ^ P"
  proof (cases "0 \<le> int P - 1 - ?e")
    case True
    have "P = nat (?e + 1) + nat (int P - 1 - ?e)" using True e(1) by simp
    then have "(10 :: int) ^ P = 10 ^ nat (?e + 1) * 10 ^ nat (int P - 1 - ?e)" by (metis power_add)
    then have "n * 10 ^ nat (int P - 1 - ?e) < d * 10 ^ P" using e(2) by (simp add: mult.assoc [symmetric])
    then show ?thesis using round_half_even_bounds [of "n * 10 ^ nat (int P - 1 - ?e)" d "10 ^ P"] assms True by (simp add: digits_at_def)
  next
    case False
    have "nat (?e + 1) = nat (?e - (int P - 1)) + P" using False by simp
    then have "(10 :: int) ^ nat (?e + 1) = 10 ^ nat (?e - (int P - 1)) * 10 ^ P" by (metis power_add)
    then have "n < d * 10 ^ nat (?e - (int P - 1)) * 10 ^ P" using e(2) by (simp add: mult.assoc)
    then show ?thesis using round_half_even_bounds [of n "d * 10 ^ nat (?e - (int P - 1))" "10 ^ P"] assms False by (simp add: digits_at_def)
  qed
next
  assume nd: "n < d"
  let ?e = "log10_down n d 0"
  have e: "?e \<le> 0" "n * 10 ^ nat (- ?e) < 10 * d" using log10_down_law [of n d 0] assms nd by auto
  have "nat (int P - 1 - ?e) = nat (- ?e) + (P - 1)" using e(1) assms(3) by simp
  then have "n * 10 ^ nat (int P - 1 - ?e) = n * 10 ^ nat (- ?e) * 10 ^ (P - 1)" by (simp add: power_add mult.assoc)
  also have "\<dots> < 10 * d * 10 ^ (P - 1)" using e(2) by simp
  also have "\<dots> = d * 10 ^ P" using assms(3) by (cases P) simp_all
  finally have "n * 10 ^ nat (int P - 1 - ?e) < d * 10 ^ P" .
  moreover have "0 \<le> int P - 1 - ?e" using e(1) assms(3) by simp
  ultimately show "0 \<le> digits_at (int P) n d ?e \<and> digits_at (int P) n d ?e \<le> 10 ^ P"
    using round_half_even_bounds [of "n * 10 ^ nat (int P - 1 - ?e)" d "10 ^ P"] assms by (simp add: digits_at_def)
qed

text \<open>The decimal exponents of floats have two digits.\<close>

lemma log10_float:
  assumes "0 < n" "n < 2 ^ 277"
  shows "(2 :: int) ^ 149 \<le> n \<Longrightarrow> log10_up n (2 ^ 149) 0 < 40" "n < 2 ^ 149 \<Longrightarrow> - 46 < log10_down n (2 ^ 149) 0"
proof -
  assume "(2 :: int) ^ 149 \<le> n"
  then have e: "0 \<le> log10_up n (2 ^ 149) 0" "2 ^ 149 * 10 ^ nat (log10_up n (2 ^ 149) 0) \<le> n" using log10_up_law [of "2 ^ 149" n 0] by auto
  show "log10_up n (2 ^ 149) 0 < 40"
  proof (rule ccontr)
    assume "\<not> ?thesis"
    then have "(10 :: int) ^ 40 \<le> 10 ^ nat (log10_up n (2 ^ 149) 0)" by (intro power_increasing) auto
    then have "(2 :: int) ^ 149 * 10 ^ 40 \<le> n" using e(2) by (meson mult_left_mono order_trans zero_le_numeral zero_le_power)
    then show False using assms(2) by simp
  qed
next
  assume "n < 2 ^ 149"
  then have e: "log10_down n (2 ^ 149) 0 \<le> 0" "log10_down n (2 ^ 149) 0 < 0 \<longrightarrow> n * 10 ^ nat (- log10_down n (2 ^ 149) 0 - 1) < 2 ^ 149"
    using log10_down_law [of n "2 ^ 149" 0] assms by auto
  show "- 46 < log10_down n (2 ^ 149) 0"
  proof (rule ccontr)
    assume "\<not> ?thesis"
    then have *: "log10_down n (2 ^ 149) 0 < 0" "45 \<le> nat (- log10_down n (2 ^ 149) 0 - 1)" by auto
    then have "(10 :: int) ^ 45 \<le> 10 ^ nat (- log10_down n (2 ^ 149) 0 - 1)" by (intro power_increasing) auto
    then have "1 * (10 :: int) ^ 45 \<le> n * 10 ^ nat (- log10_down n (2 ^ 149) 0 - 1)" using assms(1) by (intro mult_mono) auto
    then show False using e(2) * by simp
  qed
qed

lemma sig_digits_bounds:
  assumes "0 \<le> n" "n < 2 ^ 277" "0 < P"
  shows "length (fst (sig_digits P n (2 ^ 149))) \<le> P" "abs (snd (sig_digits P n (2 ^ 149))) < 100"
proof -
  let ?d = "(2 :: int) ^ 149"
  let ?e = "if ?d \<le> n then log10_up n ?d 0 else log10_down n ?d 0"
  let ?m = "digits_at (int P) n ?d ?e"
  obtain P' where P: "P = Suc P'" using assms(3) by (cases P) auto
  have bd: "length (base_digits 10 False m) \<le> P" if "m < 10 ^ P" for m using base_digits_length [of 10 m P' False] that P by simp
  have m: "?m \<le> 10 ^ P" "- 46 < ?e" "?e < 40" if "n \<noteq> 0"
  proof -
    have n: "0 < n" using assms(1) that by simp
    show "?m \<le> 10 ^ P" using digits_at_bounds [OF n _ assms(3), of ?d] by (cases "?d \<le> n") auto
    show "- 46 < ?e" "?e < 40"
      using log10_float [OF n assms(2)] log10_up_law [of ?d n 0] log10_down_law [of n ?d 0] n by (cases "?d \<le> n"; auto)+
  qed
  have sd: "sig_digits P n ?d = (if ?m = 10 ^ P then (base_digits 10 False (10 ^ (P - 1)), ?e + 1) else (base_digits 10 False ?m, ?e))" if "n \<noteq> 0"
    unfolding sig_digits_def Let_def using that by simp
  show "length (fst (sig_digits P n ?d)) \<le> P"
  proof (cases "n = 0")
    case False
    show ?thesis unfolding sd [OF False] using bd [of "10 ^ (P - 1)"] bd [of ?m] m(1) [OF False] P by auto
  qed (simp add: sig_digits_def)
  show "abs (snd (sig_digits P n ?d)) < 100"
  proof (cases "n = 0")
    case False
    show ?thesis unfolding sd [OF False] using m(2,3) [OF False] by (cases "?m = 10 ^ P") auto
  qed (simp add: sig_digits_def)
qed

lemma u32_and_le: fixes w m :: "32 word" shows "uint (w AND m) \<le> uint m"
  using word_and_le1 [of w m] by (simp add: word_le_def)

lemma float_units_bound:
  assumes "\<not> is_nan f" "\<not> is_inf f"
  shows "abs (float_units f) < 2 ^ 277"
proof -
  have m: "0 \<le> float_mant f" "float_mant f < 2 ^ 24" using u32_and_le [of f "0x7FFFFF"] by (auto simp: float_mant_def)
  have "float_exp f \<le> 255" using u32_and_le [of "drop_bit 23 f" "0xFF"] by (simp add: float_exp_def)
  moreover have "float_exp f \<noteq> 255" using assms by (auto simp: is_nan_def is_inf_def)
  ultimately have "nat (max 1 (float_exp f) - 1) \<le> 253" by auto
  then have "(2 :: int) ^ nat (max 1 (float_exp f) - 1) \<le> 2 ^ 253" by (intro power_increasing) auto
  then have "float_mant f * 2 ^ nat (max 1 (float_exp f) - 1) \<le> float_mant f * 2 ^ 253" using m(1) by (rule mult_left_mono)
  also have "\<dots> < 2 ^ 24 * 2 ^ 253" using m(2) by simp
  finally have "float_mant f * 2 ^ nat (max 1 (float_exp f) - 1) < 2 ^ 277" by simp
  moreover have "abs (float_units f) = float_mant f * 2 ^ nat (max 1 (float_exp f) - 1)" using m(1) by (simp add: float_units_def Let_def)
  ultimately show ?thesis by simp
qed

lemma point_length: "length (point p s) \<le> length s + 1"
  by (simp add: point_def)

lemma pf_strip_length: "length (pf_strip p s) \<le> length s"
proof -
  have "length (dropWhile (\<lambda>c. c = CHR ''0'') (rev s)) \<le> length (rev s)" by (rule length_dropWhile_le)
  then show ?thesis by (simp add: pf_strip_def strip_zeros_def)
qed

lemma exp_text_length: "abs e < 100 \<Longrightarrow> length (exp_text u e) \<le> 5"
proof -
  assume a: "abs e < 100"
  have "length (base_digits 10 False (abs e)) \<le> (if abs e < 10 then 1 else 2)"
    using base_digits_length [of 10 "abs e" 0 False] base_digits_length [of 10 "abs e" 1 False] a by simp
  then show ?thesis unfolding exp_text_def by (cases "abs e < 10") (simp_all only: if_True if_False length_append, auto)
qed

lemma take_point_length: "length s \<le> m \<Longrightarrow> length (take a s @ point p (drop a s)) \<le> m + 1"
proof -
  assume s: "length s \<le> m"
  have "length (take a s) + length (drop a s) = length s" by simp
  then show ?thesis using point_length [of p "drop a s"] s by (simp only: length_append)
qed

lemma pf_fixed_length:
  assumes "0 \<le> n" "n < 2 ^ 277"
  shows "length (pf_fixed p k n (2 ^ 149)) \<le> k + 41"
proof -
  let ?N = "round_half_even (n * 10 ^ k) (2 ^ 149)"
  have "n * 10 ^ k < 2 ^ 277 * 10 ^ k" using assms(2) by simp
  also have "\<dots> = 2 ^ 149 * (2 ^ 128 * 10 ^ k)" by simp
  finally have "?N \<le> 2 ^ 128 * 10 ^ k" using assms(1) by (intro round_half_even_bounds) simp_all
  also have "\<dots> < 10 ^ 39 * 10 ^ k" by simp
  also have "\<dots> = 10 ^ Suc (38 + k)" by (simp add: power_add)
  finally have "length (base_digits 10 False ?N) \<le> Suc (38 + k)" by (intro base_digits_length) simp_all
  then have "length (replicate (k + 1 - length (base_digits 10 False ?N)) (CHR ''0'') @ base_digits 10 False ?N) \<le> k + 39" by simp
  then show ?thesis unfolding pf_fixed_def Let_def by (rule take_point_length [THEN order_trans]) simp
qed

lemma pf_exp_length:
  assumes "0 \<le> n" "n < 2 ^ 277"
  shows "length (pf_exp p u k n (2 ^ 149)) \<le> k + 9"
proof -
  obtain ds e where s: "sig_digits (k + 1) n (2 ^ 149) = (ds, e)" by force
  have ds: "length ds \<le> k + 1" and e: "length (exp_text u e) \<le> 5"
    using sig_digits_bounds [OF assms, of "k + 1"] exp_text_length [of e u] s by simp_all
  have "length (take 1 ds @ point p (drop 1 ds)) \<le> k + 2" using take_point_length [of ds "k + 1" 1 p] ds by simp
  then show ?thesis using e unfolding pf_exp_def s prod.case by simp
qed

lemma pf_general_length:
  assumes "0 \<le> n" "n < 2 ^ 277" "0 < P"
  shows "length (pf_general p u P n (2 ^ 149)) \<le> P + 9"
proof -
  obtain ds e where s: "sig_digits P n (2 ^ 149) = (ds, e)" by force
  have ds: "length ds \<le> P" and e: "length (exp_text u e) \<le> 5"
    using sig_digits_bounds [OF assms] exp_text_length [of e u] s by simp_all
  have tp: "length (take a ds @ point p (pf_strip p (drop a ds))) \<le> P + 1" for a
  proof -
    have "length (point p (pf_strip p (drop a ds))) \<le> length (drop a ds) + 1"
      using point_length [of p "pf_strip p (drop a ds)"] pf_strip_length [of p "drop a ds"] by simp
    then show ?thesis using ds by (auto simp: min_def)
  qed
  have z: "length (''0'' @ point p (pf_strip p (replicate (nat (- e - 1)) (CHR ''0'') @ ds))) \<le> P + 5" if "\<not> e < - 4"
    using point_length [of p "pf_strip p (replicate (nat (- e - 1)) (CHR ''0'') @ ds)"]
      pf_strip_length [of p "replicate (nat (- e - 1)) (CHR ''0'') @ ds"] ds that by simp
  show ?thesis unfolding pf_general_def s prod.case
    using tp [of 1] tp [of "nat e + 1"] z e by auto
qed

lemma pf_float_length: "length (pf_float p f) \<le> pf_space p + 100"
proof -
  let ?k = "case pf_prec p of Some k \<Rightarrow> k | None \<Rightarrow> 6"
  have k: "?k \<le> pf_space p - pf_width p + 6" by (auto simp: pf_space_def split: option.split)
  have w: "pf_width p \<le> pf_space p" by (simp add: pf_space_def)
  have f: "length (pf_field p z (pf_sign p b) body) \<le> pf_space p + 100" if "length body \<le> ?k + 41" for z b body
    using that k w pf_sign_length [of p b] by (simp add: pf_field_length)
  show ?thesis
  proof (cases "is_nan f \<or> is_inf f")
    case True
    then show ?thesis unfolding pf_float_def Let_def by (auto intro!: f)
  next
    case False
    let ?n = "abs (float_units f)"
    have n: "0 \<le> ?n" "?n < 2 ^ 277" using float_units_bound [of f] False by auto
    have "length (pf_fixed p ?k ?n (2 ^ 149)) \<le> ?k + 41" by (rule pf_fixed_length [OF n])
    moreover have "length (pf_exp p u ?k ?n (2 ^ 149)) \<le> ?k + 41" for u using pf_exp_length [OF n, of p u ?k] by simp
    moreover have "length (pf_general p u (if ?k = 0 then 1 else ?k) ?n (2 ^ 149)) \<le> ?k + 41" for u
      by (rule pf_general_length [OF n, THEN order_trans]) auto
    ultimately have "length (if c then pf_fixed p ?k ?n (2 ^ 149) else if c' then pf_exp p u ?k ?n (2 ^ 149)
        else pf_general p u (if ?k = 0 then 1 else ?k) ?n (2 ^ 149)) \<le> ?k + 41" for c c' u
      by (intro if_cases_length)
    then show ?thesis unfolding pf_float_def Let_def using False by (simp only: de_Morgan_disj if_False) (rule f)
  qed
qed

section \<open>Reading the format string\<close>

lemma skip_flags_takeWhile: "skip_flags s = length (takeWhile isfmtchr s)"
  by (induction s) auto

lemma read_width_law: "read_width s acc = Some w \<Longrightarrow> length acc < 3 \<Longrightarrow> w = acc @ takeWhile isdigit s \<and> length w < 3"
proof (induction s arbitrary: acc)
  case (Cons c s)
  show ?case
  proof (cases "isdigit c")
    case True
    then have r: "read_width s (acc @ [c]) = Some w" "length (acc @ [c]) < 3"
      using Cons.prems(1) by (auto simp: Let_def MAX_WFORMAT_LEN_def split: if_splits)
    show ?thesis using Cons.IH [OF r] True by auto
  qed (use Cons.prems in simp)
qed simp

text \<open>
  A conversion in the format string: flags, a width, perhaps a precision, and a letter.
\<close>

lemma takeWhile_prefix:
  assumes "\<forall>c\<in>set u. P c" "v = [] \<or> \<not> P (hd v)"
  shows "takeWhile P (u @ v) = u" "dropWhile P (u @ v) = v"
proof -
  have "takeWhile P v = []" "dropWhile P v = v" using assms(2) by (cases v; simp)+
  then show "takeWhile P (u @ v) = u" "dropWhile P (u @ v) = v" using assms(1) by (simp_all add: takeWhile_append2 dropWhile_append2)
qed

lemma pf_space_conv: "pf_space (parse_conv fl prec width s) = width + (case prec of Some k \<Rightarrow> k | None \<Rightarrow> 0)"
  by (simp add: pf_space_def parse_conv_def Let_def)

lemma parse_spec_plain:
  assumes "\<forall>c\<in>set fl. isfmtchr c" "\<forall>c\<in>set ds. isdigit c" "\<not> isfmtchr (hd (ds @ ls))" "ls \<noteq> []" "\<not> isdigit (hd ls)" "hd ls \<noteq> CHR ''.''"
  shows "pf_space (parse_spec (CHR ''%'' # fl @ ds @ ls)) = num ds"
proof -
  note f = takeWhile_prefix [of fl isfmtchr "ds @ ls"] and d = takeWhile_prefix [of ds isdigit ls]
  obtain l ls' where "ls = l # ls'" using assms(4) by (cases ls) auto
  then show ?thesis using f d assms by (simp add: parse_spec_def Let_def pf_space_conv)
qed

lemma parse_spec_prec:
  assumes "\<forall>c\<in>set fl. isfmtchr c" "\<forall>c\<in>set ds. isdigit c" "\<not> isfmtchr (hd (ds @ CHR ''.'' # ds' @ ls))" "\<forall>c\<in>set ds'. isdigit c" "ls \<noteq> []" "\<not> isdigit (hd ls)"
  shows "pf_space (parse_spec (CHR ''%'' # fl @ ds @ CHR ''.'' # ds' @ ls)) = num ds + num ds'"
proof -
  have dot: "\<not> isdigit (CHR ''.'')" by (simp add: isdigit_def)
  note f = takeWhile_prefix [of fl isfmtchr "ds @ CHR ''.'' # ds' @ ls"] and d = takeWhile_prefix [of ds isdigit "CHR ''.'' # ds' @ ls"]
    and d' = takeWhile_prefix [of ds' isdigit ls]
  show ?thesis using f d d' assms dot by (simp add: parse_spec_def Let_def pf_space_conv)
qed

text \<open>What \<open>validate_format\<close> returns: the text of the conversion, and the width and the precision added up.\<close>

lemma validate_law:
  assumes v: "validate_format src start = Inr (fmt, n, w)" and n: "n < length src" and start: "start \<le> length src"
    and flags: "length (takeWhile isfmtchr (drop start src)) \<le> 10"
  shows "\<exists>u. fmt = CHR ''%'' # u @ [src ! n] \<and> start + length u = n \<and> length u \<le> 15 \<and>
    (\<forall>ls. ls \<noteq> [] \<longrightarrow> \<not> isfmtchr (hd ls) \<longrightarrow> \<not> isdigit (hd ls) \<longrightarrow> hd ls \<noteq> CHR ''.'' \<longrightarrow> pf_space (parse_spec (CHR ''%'' # u @ ls)) = w)"
proof -
  define fl v1 where "fl = takeWhile isfmtchr (drop start src)" and "v1 = dropWhile isfmtchr (drop start src)"
  have s1: "drop start src = fl @ v1" by (simp add: fl_def v1_def)
  have m: "start + skip_flags (drop start src) = start + length fl" by (simp add: skip_flags_takeWhile fl_def)
  have d1: "drop (start + length fl) src = v1" using s1 by (metis append_eq_conv_conj drop_drop add.commute)
  obtain ds where ds0: "read_width v1 [] = Some ds" using v unfolding validate_format_def Let_def m d1 by (auto split: option.splits)
  then have ds: "ds = takeWhile isdigit v1" "length ds < 3" using read_width_law [of v1 "[]" ds] by auto
  define v2 where "v2 = dropWhile isdigit v1"
  have s2: "v1 = ds @ v2" by (simp add: ds(1) v2_def)
  let ?n = "start + length fl + length ds"
  have d2: "drop ?n src = v2" using d1 s2 by (metis append_eq_conv_conj drop_drop add.commute)
  have fl: "\<forall>c\<in>set fl. isfmtchr c" "\<forall>c\<in>set ds. isdigit c" "length fl \<le> 10"
    using flags by (auto simp: fl_def ds(1) dest: set_takeWhileD)
  have nf: "v1 = [] \<or> \<not> isfmtchr (hd v1)" unfolding v1_def using hd_dropWhile [of isfmtchr "drop start src"] by auto
  have nd: "v2 = [] \<or> \<not> isdigit (hd v2)" unfolding v2_def using hd_dropWhile [of isdigit v1] by auto
  have copy: "fmt = CHR ''%'' # take (k - start + 1) (drop start src)" "n = k" "w = w'" "k - start \<le> 17"
    if "copy_conv src start k w' = Inr (fmt, n, w)" for k w'
    using that by (auto simp: copy_conv_def MAX_FORMAT_LEN_def split: if_splits)
  have tk: "take (Suc (length u)) (drop start src) = u @ [src ! n]" if "drop start src = u @ r" "start + length u = n" for u r
  proof -
    have "take (length u) (drop start src) = u" using that(1) by simp
    moreover have "drop start src ! length u = src ! n" using that(2) start by (simp add: add.commute)
    moreover have "length u < length (drop start src)" using that(2) n by simp
    ultimately show ?thesis by (simp add: take_Suc_conv_app_nth)
  qed
  show ?thesis
  proof (cases "?n < length src \<and> src ! ?n = CHR ''.''")
    case False
    have c: "copy_conv src start ?n (num ds) = Inr (fmt, n, w)"
      using v False unfolding validate_format_def Let_def m d1 ds0 by (simp add: add.assoc split: if_splits)
    note cp = copy [OF c]
    have "pf_space (parse_spec (CHR ''%'' # (fl @ ds) @ ls)) = w" if "ls \<noteq> []" "\<not> isfmtchr (hd ls)" "\<not> isdigit (hd ls)" "hd ls \<noteq> CHR ''.''" for ls
      using parse_spec_plain [OF fl(1,2), of ls] that nf s2 cp(3) by (cases ds) auto
    moreover have "fmt = CHR ''%'' # (fl @ ds) @ [src ! n]" using cp(1,2) tk [of "fl @ ds" v2] s1 s2 by simp
    ultimately show ?thesis using cp(2) fl(3) ds(2) by (intro exI [of _ "fl @ ds"]) auto
  next
    case True
    have v2: "v2 = CHR ''.'' # drop (?n + 1) src" using d2 True by (metis Cons_nth_drop_Suc Suc_eq_plus1)
    obtain ds' where ds0': "read_width (drop (?n + 1) src) [] = Some ds'"
      using v True unfolding validate_format_def Let_def m d1 ds0 by (auto simp: add.assoc split: option.splits)
    then have ds': "ds' = takeWhile isdigit (drop (?n + 1) src)" "length ds' < 3" using read_width_law [of _ "[]" ds'] by auto
    have c: "copy_conv src start (?n + 1 + length ds') (num ds + num ds') = Inr (fmt, n, w)"
      using v True ds0' unfolding validate_format_def Let_def m d1 ds0 by (simp add: add.assoc)
    note cp = copy [OF c]
    let ?u = "fl @ ds @ CHR ''.'' # ds'"
    have "drop (?n + 1) src = ds' @ dropWhile isdigit (drop (?n + 1) src)" by (simp add: ds'(1))
    then have split: "drop start src = ?u @ dropWhile isdigit (drop (?n + 1) src)" using s1 s2 v2 by simp
    have "\<forall>c\<in>set ds'. isdigit c" by (auto simp: ds'(1) dest: set_takeWhileD)
    then have "pf_space (parse_spec (CHR ''%'' # ?u @ ls)) = w" if "ls \<noteq> []" "\<not> isfmtchr (hd ls)" "\<not> isdigit (hd ls)" "hd ls \<noteq> CHR ''.''" for ls
      using parse_spec_prec [OF fl(1,2), of ds' ls] that nf s2 v2 cp(3) by (cases ds) (auto simp: isfmtchr_def)
    moreover have "fmt = CHR ''%'' # ?u @ [src ! n]" using cp(1,2) tk [OF split] by simp
    ultimately show ?thesis using cp(2) fl(3) ds(2) ds'(2) by (intro exI [of _ ?u]) auto
  qed
qed

text \<open>With at most ten flags the conversion fits in the buffer of 20 characters.\<close>

lemma validate_no_overrun:
  assumes "length (takeWhile isfmtchr (drop start src)) \<le> 10"
  shows "validate_format src start \<noteq> Inl Fmt_Overrun"
proof -
  have w: "length ds < 3" if "read_width s [] = Some ds" for s ds using read_width_law [OF that] by auto
  show ?thesis
    using assms by (auto simp: validate_format_def copy_conv_def Let_def skip_flags_takeWhile MAX_FORMAT_LEN_def
        split: option.splits if_splits dest!: w)
qed

section \<open>The loop\<close>

text \<open>The space that is added for an argument holds its text.\<close>

lemma snprintf_space:
  "length (snprintf_text fmt (FStr s)) \<le> pf_space (parse_spec fmt) + length s"
  "length (snprintf_text fmt (FInt i)) \<le> pf_space (parse_spec fmt) + 100"
  "length (snprintf_text fmt (FFlt f)) \<le> pf_space (parse_spec fmt) + 100"
  by (simp_all add: snprintf_text_def Let_def pf_str_length pf_int_length pf_float_length)

lemma fmt_argument_law:
  assumes "fmt_argument c fmt w v = Inr (fmt', arg, addlen)"
  shows "(\<exists>s. arg = FStr s \<and> fmt' = fmt \<and> addlen = length s + (w + 1)) \<or>
    (\<exists>i. arg = FInt i \<and> (fmt' = fmt \<or> add_prec fmt = Inr fmt') \<and> addlen = 100 + (w + 1)) \<or>
    (\<exists>f. arg = FFlt f \<and> fmt' = fmt \<and> addlen = 100 + (w + 1))"
  using assms unfolding fmt_argument_def
  by (auto simp: bindE_Inr_iff split: if_splits sqobject.splits option.splits)

lemma fmt_argument_letter:
  assumes "fmt_argument c fmt w v = Inr r"
  shows "c = CHR ''s'' \<or> int_letter c \<or> float_letter c"
  using assms by (auto simp: fmt_argument_def split: if_splits)

lemma letter_laws:
  assumes "c = CHR ''s'' \<or> int_letter c \<or> float_letter c"
  shows "\<not> isfmtchr c" "\<not> isdigit c" "c \<noteq> CHR ''.''" "c \<noteq> CHR 0x00"
  using assms by (auto simp: int_letter_def float_letter_def isfmtchr_def isdigit_def)

lemma fmt_argument_space:
  assumes v: "validate_format src start = Inr (fmt, n, w)" and n: "n < length src" and start: "start \<le> length src"
    and flags: "length (takeWhile isfmtchr (drop start src)) \<le> 10"
    and a: "fmt_argument (src ! n) fmt w v = Inr (fmt', arg, addlen)"
  shows "length (snprintf_text fmt' arg) \<le> addlen"
proof -
  obtain u where fmt: "fmt = CHR ''%'' # u @ [src ! n]"
    and sp: "\<And>ls. ls \<noteq> [] \<Longrightarrow> \<not> isfmtchr (hd ls) \<Longrightarrow> \<not> isdigit (hd ls) \<Longrightarrow> hd ls \<noteq> CHR ''.'' \<Longrightarrow> pf_space (parse_spec (CHR ''%'' # u @ ls)) = w"
    using validate_law [OF v n start flags] by blast
  note lt = letter_laws [OF fmt_argument_letter [OF a]]
  have l: "pf_space (parse_spec fmt) = w" unfolding fmt using lt by (intro sp) auto
  have ll: "pf_space (parse_spec (CHR ''%'' # u @ ''ll'' @ [src ! n])) = w" by (intro sp) (auto simp: isfmtchr_def isdigit_def)
  have add: "pf_space (parse_spec x) = w" if "add_prec fmt = Inr x" for x
    using that ll by (simp add: add_prec_def fmt butlast_append split: if_splits)
  have "pf_space (parse_spec fmt') = w" using fmt_argument_law [OF a] l add by auto
  then show ?thesis
    using fmt_argument_law [OF a] snprintf_space [of fmt'] by (elim disjE exE conjE) (simp_all add: order_trans [OF snprintf_space(1)] order_trans [OF snprintf_space(2)] order_trans [OF snprintf_space(3)])
qed

lemma fmt_argument_no_overrun:
  assumes "length fmt \<le> 17"
  shows "fmt_argument c fmt w v \<noteq> Inl Fmt_Overrun"
proof -
  have "add_prec fmt \<noteq> Inl Fmt_Overrun" using assms by (simp add: add_prec_def MAX_FORMAT_LEN_def)
  moreover have "(case v of VString s \<Rightarrow> Inr (fmt, FStr s, length s + (w + 1)) | _ \<Rightarrow> Inl (Fmt_Error e)) \<noteq> Inl Fmt_Overrun" for e
    by (cases v) simp_all
  moreover have "(case get_integer v of Some i \<Rightarrow> Inr (x, FInt i, 100 + (w + 1)) | None \<Rightarrow> Inl (Fmt_Error e)) \<noteq> Inl Fmt_Overrun" for e x
    by (cases "get_integer v") simp_all
  moreover have "(case get_float v of Some f \<Rightarrow> Inr (fmt, FFlt f, 100 + (w + 1)) | None \<Rightarrow> Inl (Fmt_Error e)) \<noteq> Inl Fmt_Overrun" for e
    by (cases "get_float v") simp_all
  ultimately show ?thesis unfolding fmt_argument_def by (cases "get_integer v") (simp_all add: bindE_Inl_iff)
qed

lemma validate_length:
  assumes "validate_format src start = Inr (fmt, n, w)" "length (takeWhile isfmtchr (drop start src)) \<le> 10"
  shows "length fmt \<le> 17"
proof -
  have w: "length ds < 3" if "read_width s [] = Some ds" for s ds using read_width_law [OF that] by auto
  show ?thesis
    using assms by (auto simp: validate_format_def copy_conv_def Let_def skip_flags_takeWhile
        split: option.splits if_splits dest!: w)
qed

lemma format_loop_in_bounds:
  assumes "\<forall>k. length (takeWhile isfmtchr (drop k fs)) \<le> 10"
    and "n \<le> length fs" "length out + (length fs - n) + 2 \<le> allocated"
  shows "format_loop fs n args allocated out \<noteq> Inl Fmt_Overrun \<and>
    (\<forall>out' al. format_loop fs n args allocated out = Inr (out', al) \<longrightarrow> length out' + 2 \<le> al)"
  using assms
proof (induction fs n args allocated out rule: format_loop.induct)
  case (1 fs n args allocated out)
  show ?case
  proof (cases "n < length fs")
    case False
    then show ?thesis using 1(6) by (simp add: format_loop.simps [of fs n])
  next
    case n: True
    consider (chr) "fs ! n \<noteq> CHR ''%''" | (pct) "fs ! n = CHR ''%''" "n + 1 < length fs \<and> fs ! (n + 1) = CHR ''%''"
      | (none) "fs ! n = CHR ''%''" "\<not> (n + 1 < length fs \<and> fs ! (n + 1) = CHR ''%'')" "args = []"
      | (conv) a args' where "fs ! n = CHR ''%''" "\<not> (n + 1 < length fs \<and> fs ! (n + 1) = CHR ''%'')" "args = a # args'"
      by (cases args) auto
    then show ?thesis
    proof cases
      case chr
      then show ?thesis using 1(1) [OF n chr] 1(4-6) n by (simp add: format_loop.simps [of fs n])
    next
      case pct
      have "length out + 1 + (length fs - (n + 2)) + 2 \<le> allocated" "length out < allocated" using 1(6) pct(2) by auto
      then show ?thesis using 1(2) [OF n] 1(4) pct by (simp add: format_loop.simps [of fs n])
    next
      case none
      then show ?thesis using n by (subst (1 2) format_loop.simps) (simp only: if_True if_False simp_thms list.case, simp)
    next
      case conv
      have fl: "length (takeWhile isfmtchr (drop k fs)) \<le> 10" for k using 1(4) by blast
      let ?c = "\<lambda>n'. if n' < length fs then fs ! n' else CHR 0x00"
      have step: "format_loop fs n args allocated out =
        bindE (validate_format fs (n + 1)) (\<lambda>(fmt, n', w).
          bindE (fmt_argument (?c n') fmt w a) (\<lambda>(fmt, arg, addlen).
            bindE (put_text (allocated + (addlen + 1)) out (snprintf_text fmt arg)) (\<lambda>out.
              format_loop fs (n' + 1) args' (allocated + (addlen + 1)) out)))"
        using n conv by (subst format_loop.simps) (simp only: if_True if_False simp_thms list.case Let_def)
      show ?thesis
      proof (cases "validate_format fs (n + 1)")
        case (Inl e)
        then show ?thesis using validate_no_overrun [OF fl, of "n + 1"] step by simp
      next
        case (Inr r)
        obtain fmt n' w where r: "r = (fmt, n', w)" by (cases r)
        note v = Inr [unfolded r]
        show ?thesis
        proof (cases "fmt_argument (?c n') fmt w a")
          case (Inl e)
          then show ?thesis using fmt_argument_no_overrun [OF validate_length [OF v fl]] step v by auto
        next
          case (Inr r')
          obtain fmt' arg addlen where r': "r' = (fmt', arg, addlen)" by (cases r')
          note a = Inr [unfolded r']
          have n': "n' < length fs" using letter_laws(4) [OF fmt_argument_letter [OF a]] by (auto split: if_splits)
          let ?t = "snprintf_text fmt' arg"
          have t: "length ?t \<le> addlen" using fmt_argument_space [OF v n' _ fl] a n' n by simp
          have "n + 1 \<le> n'" by (rule validate_format_forward [OF v])
          then have b: "length (out @ ?t) + (length fs - (n' + 1)) + 2 \<le> allocated + (addlen + 1)" using 1(6) t n n' by simp
          have p: "put_text (allocated + (addlen + 1)) out ?t = Inr (out @ ?t)" using 1(6) t by (simp add: put_text_def)
          have "format_loop fs n args allocated out = format_loop fs (n' + 1) args' (allocated + (addlen + 1)) (out @ ?t)"
            using step v a p by simp
          then show ?thesis
            using 1(3) [OF n _ conv(2,3) v refl refl a refl refl refl p] conv(1) 1(4) b n' by simp
        qed
      qed
    qed
  qed
qed

section \<open>The property\<close>

text \<open>
  C23. Formatting stays inside of its memory: when no run of flag characters in the format string
  has more than ten characters, \<open>sqstd_format\<close> writes neither behind the block that it
  allocates nor behind the 20 characters for a conversion, whatever the arguments are; it gives
  a text or one of its error messages.
\<close>

theorem format_in_bounds:
  assumes "\<forall>k. length (takeWhile isfmtchr (drop k fs)) \<le> 10"
  shows "sqstd_format fs args \<noteq> Inl Fmt_Overrun"
proof -
  have "format_loop fs 0 args (length fs + 2) [] \<noteq> Inl Fmt_Overrun"
    "\<And>out al. format_loop fs 0 args (length fs + 2) [] = Inr (out, al) \<Longrightarrow> length out + 2 \<le> al"
    using format_loop_in_bounds [OF assms, of 0 "[]" "length fs + 2" args] by auto
  then show ?thesis by (fastforce simp: sqstd_format_def bindE_Inl_iff)
qed

text \<open>Runs of flags in a short string.\<close>

lemma short_flag_runs: "length fs \<le> 10 \<Longrightarrow> length (takeWhile isfmtchr (drop k fs)) \<le> 10"
  using length_takeWhile_le [of isfmtchr "drop k fs"] by simp

theorem format_in_bounds_witness:
  "sqstd_format ''%-9.99f|%s'' [VFloat 0x7F7FFFFF, VString ''ab''] \<noteq> Inl Fmt_Overrun"
  by (rule format_in_bounds) (simp add: short_flag_runs)

text \<open>
  The bound on the flags is needed. The buffer has 20 characters, and the test lets a conversion
  with 20 of them pass: with 16 flags the length modifier is written behind the buffer, and with
  18 the conversion itself.
\<close>

lemma format_flags_overrun:
  "sqstd_format (CHR ''%'' # replicate 16 (CHR ''-'') @ ''d'') [VInteger 1] = Inl Fmt_Overrun"
  "sqstd_format (CHR ''%'' # replicate 18 (CHR ''-'') @ ''s'') [VString ''a''] = Inl Fmt_Overrun"
  by code_simp+

end
