(* ===== verification/Sq_Class.thy ===== *)
theory Sq_Class
  imports Sq_Array Sq_Table Sq_Interfaces
begin

text \<open>
  Classes and instances (\<^verbatim>\<open>sqclass.h\<close>, \<^verbatim>\<open>sqclass.cpp\<close>) and the functions of the API on them. The
  objects of the virtual machine that have an identity are in a heap, a map from addresses. The
  result \<^const>\<open>None\<close> of an operation is undefined behaviour: a pointer to no object, an index outside of
  a vector, an assertion that fails, or a loop that does not end. The address of a new object
  is an argument, as the answer of the allocator.
\<close>

section \<open>The heap\<close>

record sqclosure =
  cl_function :: addr
  cl_root :: "addr option"
  cl_env :: "addr option"
  cl_base :: "addr option"
  cl_outervalues :: "sqobject list"
  cl_defaultparams :: "sqobject list"

record sqclassmember =
  cm_val :: sqobject
  cm_attrs :: sqobject

record sqclass =
  c_members :: sqtable
  c_base :: "addr option"
  c_defaultvalues :: "sqclassmember list"
  c_methods :: "sqclassmember list"
  c_metamethods :: "sqobject list"
  c_attributes :: sqobject
  c_typetag :: addr
  c_locked :: bool
  c_constructoridx :: int
  c_udsize :: int

text \<open>The user pointer of an instance points to nothing, into the instance, or to the data of the host.\<close>

datatype userptr = UP_Null | UP_Inside int | UP_Host addr

record sqinstance =
  i_class :: addr
  i_values :: "sqobject list"
  i_userpointer :: userptr
  i_memsize :: int

record squserdata =
  ud_delegate :: "addr option"
  ud_size :: int
  ud_typetag :: addr

record sqheap =
  h_tables :: "addr \<rightharpoonup> sqtable"
  h_arrays :: "addr \<rightharpoonup> sqarray"
  h_userdata :: "addr \<rightharpoonup> squserdata"
  h_closures :: "addr \<rightharpoonup> sqclosure"
  h_classes :: "addr \<rightharpoonup> sqclass"
  h_instances :: "addr \<rightharpoonup> sqinstance"
  h_weak :: weakstore

definition set_class :: "addr \<Rightarrow> sqclass \<Rightarrow> sqheap \<Rightarrow> sqheap" where
  "set_class a c h = h\<lparr>h_classes := (h_classes h)(a \<mapsto> c)\<rparr>"

definition set_instance :: "addr \<Rightarrow> sqinstance \<Rightarrow> sqheap \<Rightarrow> sqheap" where
  "set_instance a i h = h\<lparr>h_instances := (h_instances h)(a \<mapsto> i)\<rparr>"

text \<open>\<open>SQClosure::Clone\<close>; a new closure has no base.\<close>

definition closure_Clone :: "addr \<Rightarrow> addr \<Rightarrow> sqheap \<Rightarrow> sqheap option" where
  "closure_Clone a na h = do {
     c \<leftarrow> h_closures h a;
     Some (h\<lparr>h_closures := (h_closures h)(na \<mapsto> c\<lparr>cl_base := None\<rparr>)\<rparr>)
   }"

section \<open>Metamethod names\<close>

definition MT_LAST :: nat where "MT_LAST = 18"

definition metamethod_names :: "string list" where
  "metamethod_names = [''_add'', ''_sub'', ''_mul'', ''_div'', ''_unm'', ''_modulo'', ''_set'', ''_get'', ''_typeof'',
     ''_nexti'', ''_cmp'', ''_call'', ''_cloned'', ''_newslot'', ''_delslot'', ''_tostring'', ''_newmember'', ''_inherited'']"

definition metamethodsmap :: "sqtable option" where
  "metamethodsmap = newslot_all table_NewSlot (table_Create (MT_LAST - 1))
     (zip (map VString metamethod_names) (map (\<lambda>i. VInteger (of_nat i)) [0..<MT_LAST]))"

definition GetMetaMethodIdxByName :: "weakstore \<Rightarrow> sqobject \<Rightarrow> nat option option" where
  "GetMetaMethodIdxByName W name =
     (if sq_type name \<noteq> OT_STRING then Some None
      else do {
        m \<leftarrow> metamethodsmap;
        r \<leftarrow> table_Get W m name;
        case r of None \<Rightarrow> Some None | Some (VInteger i) \<Rightarrow> Some (Some (unat i)) | _ \<Rightarrow> None
      })"

text \<open>The index of a metamethod in the vector of a class.\<close>

fun mt_index :: "metamethod \<Rightarrow> nat" where
  "mt_index MT_ADD = 0" | "mt_index MT_SUB = 1" | "mt_index MT_MUL = 2" | "mt_index MT_DIV = 3"
| "mt_index MT_UNM = 4" | "mt_index MT_MODULO = 5" | "mt_index MT_SET = 6" | "mt_index MT_GET = 7"
| "mt_index MT_TYPEOF = 8" | "mt_index MT_NEXTI = 9" | "mt_index MT_CMP = 10" | "mt_index MT_CALL = 11"
| "mt_index MT_CLONED = 12" | "mt_index MT_NEWSLOT = 13" | "mt_index MT_DELSLOT = 14" | "mt_index MT_TOSTRING = 15"
| "mt_index MT_NEWMEMBER = 16" | "mt_index MT_INHERITED = 17"

section \<open>Classes\<close>

definition MEMBER_TYPE_METHOD :: i64 where "MEMBER_TYPE_METHOD = 0x01000000"
definition MEMBER_TYPE_FIELD :: i64 where "MEMBER_TYPE_FIELD = 0x02000000"
definition MEMBER_MAX_COUNT :: int where "MEMBER_MAX_COUNT = 0x00FFFFFF"

definition ismethod :: "i64 \<Rightarrow> bool" where "ismethod x \<longleftrightarrow> x AND MEMBER_TYPE_METHOD \<noteq> 0"
definition isfield :: "i64 \<Rightarrow> bool" where "isfield x \<longleftrightarrow> x AND MEMBER_TYPE_FIELD \<noteq> 0"
definition make_method_idx :: "nat \<Rightarrow> i64" where "make_method_idx i = MEMBER_TYPE_METHOD OR of_nat i"
definition make_field_idx :: "nat \<Rightarrow> i64" where "make_field_idx i = MEMBER_TYPE_FIELD OR of_nat i"
definition member_idx :: "i64 \<Rightarrow> nat" where "member_idx x = unat (x AND 0x00FFFFFF)"

text \<open>The entry of a key in \<open>_members\<close>; the table only holds integers.\<close>

definition member_at :: "weakstore \<Rightarrow> sqclass \<Rightarrow> sqobject \<Rightarrow> i64 option option" where
  "member_at W c key = do {
     r \<leftarrow> table_Get W (c_members c) key;
     case r of None \<Rightarrow> Some None | Some (VInteger i) \<Rightarrow> Some (Some i) | _ \<Rightarrow> None
   }"

text \<open>Reading and writing an element of a vector.\<close>

definition vec_at :: "nat \<Rightarrow> 'a list \<Rightarrow> 'a option" where
  "vec_at i xs = (if i < length xs then Some (xs ! i) else None)"

definition vec_put :: "nat \<Rightarrow> ('a \<Rightarrow> 'a) \<Rightarrow> 'a list \<Rightarrow> 'a list option" where
  "vec_put i f xs = (if i < length xs then Some (xs[i := f (xs ! i)]) else None)"

definition SQClass_new :: "addr option \<Rightarrow> sqheap \<Rightarrow> sqclass option" where
  "SQClass_new base h =
     (case base of
        None \<Rightarrow> Some \<lparr>c_members = table_Create 0, c_base = None, c_defaultvalues = [], c_methods = [],
                  c_metamethods = replicate MT_LAST VNull, c_attributes = VNull, c_typetag = 0, c_locked = False,
                  c_constructoridx = - 1, c_udsize = 0\<rparr>
      | Some b \<Rightarrow> do {
          bc \<leftarrow> h_classes h b;
          m \<leftarrow> table_Clone (c_members bc);
          Some \<lparr>c_members = m, c_base = Some b, c_defaultvalues = c_defaultvalues bc, c_methods = c_methods bc,
                c_metamethods = c_metamethods bc, c_attributes = VNull, c_typetag = 0, c_locked = False,
                c_constructoridx = c_constructoridx bc, c_udsize = c_udsize bc\<rparr>
        })"

definition class_Create :: "addr option \<Rightarrow> addr \<Rightarrow> sqheap \<Rightarrow> sqheap option" where
  "class_Create base na h = do { c \<leftarrow> SQClass_new base h; Some (set_class na c h) }"

definition is_function :: "sqobject \<Rightarrow> bool" where
  "is_function v \<longleftrightarrow> sq_type v = OT_CLOSURE \<or> sq_type v = OT_NATIVECLOSURE"

text \<open>
  The parts of \<open>SQClass::NewSlot\<close>. A closure that is put in a derived class is cloned, and the
  clone knows the base class.
\<close>

definition bind_base :: "sqclass \<Rightarrow> sqobject \<Rightarrow> addr \<Rightarrow> sqheap \<Rightarrow> (sqobject \<times> sqheap) option" where
  "bind_base c val na h =
     (case (c_base c, val) of
        (Some b, VClosure f) \<Rightarrow> do {
          h \<leftarrow> closure_Clone f na h;
          cl \<leftarrow> h_closures h na;
          Some (VClosure na, h\<lparr>h_closures := (h_closures h)(na \<mapsto> cl\<lparr>cl_base := Some b\<rparr>)\<rparr>)
        }
      | _ \<Rightarrow> Some (val, h))"

definition put_method :: "sqobject \<Rightarrow> sqobject \<Rightarrow> i64 option \<Rightarrow> sqclass \<Rightarrow> sqclass option" where
  "put_method key theval temp c =
     (case temp of
        None \<Rightarrow> do {
          (m, _) \<leftarrow> table_NewSlot (c_members c) key (VInteger (make_method_idx (length (c_methods c))));
          Some (c\<lparr>c_members := m,
                  c_constructoridx := (if IsEqual (VString ''constructor'') key then int (length (c_methods c)) else c_constructoridx c),
                  c_methods := c_methods c @ [\<lparr>cm_val = theval, cm_attrs = VNull\<rparr>]\<rparr>)
        }
      | Some t \<Rightarrow> do {
          ms \<leftarrow> vec_put (member_idx t) (\<lambda>m. m\<lparr>cm_val := theval\<rparr>) (c_methods c);
          Some (c\<lparr>c_methods := ms\<rparr>)
        })"

definition put_static :: "addr \<Rightarrow> sqclass \<Rightarrow> sqobject \<Rightarrow> sqobject \<Rightarrow> i64 option \<Rightarrow> addr \<Rightarrow> sqheap \<Rightarrow> (bool \<times> sqheap) option" where
  "put_static a c key val temp na h = do {
     mm \<leftarrow> (if is_function val then GetMetaMethodIdxByName (h_weak h) key else Some None);
     case mm of
       Some i \<Rightarrow> do {
         ms \<leftarrow> vec_put i (\<lambda>_. val) (c_metamethods c);
         Some (True, set_class a (c\<lparr>c_metamethods := ms\<rparr>) h)
       }
     | None \<Rightarrow> do {
         (theval, h) \<leftarrow> bind_base c val na h;
         c \<leftarrow> put_method key theval temp c;
         Some (True, set_class a c h)
       }
   }"

definition put_field :: "sqobject \<Rightarrow> sqobject \<Rightarrow> sqclass \<Rightarrow> sqclass option" where
  "put_field key val c = do {
     (m, _) \<leftarrow> table_NewSlot (c_members c) key (VInteger (make_field_idx (length (c_defaultvalues c))));
     Some (c\<lparr>c_members := m, c_defaultvalues := c_defaultvalues c @ [\<lparr>cm_val = val, cm_attrs = VNull\<rparr>]\<rparr>)
   }"

definition class_NewSlot :: "addr \<Rightarrow> sqobject \<Rightarrow> sqobject \<Rightarrow> bool \<Rightarrow> addr \<Rightarrow> sqheap \<Rightarrow> (bool \<times> sqheap) option" where
  "class_NewSlot a key val bstatic na h = do {
     c \<leftarrow> h_classes h a;
     let belongs_to_static_table = (is_function val \<or> bstatic);
     if c_locked c \<and> \<not> belongs_to_static_table then Some (False, h)
     else do {
       temp \<leftarrow> member_at (h_weak h) c key;
       if (case temp of Some t \<Rightarrow> isfield t | None \<Rightarrow> False) then do {
         ds \<leftarrow> vec_put (member_idx (the temp)) (\<lambda>m. m\<lparr>cm_val := val\<rparr>) (c_defaultvalues c);
         Some (True, set_class a (c\<lparr>c_defaultvalues := ds\<rparr>) h)
       }
       else if CountUsed (c_members c) \<ge> MEMBER_MAX_COUNT then Some (False, h)
       else if belongs_to_static_table then put_static a c key val temp na h
       else do {
         c \<leftarrow> put_field key val c;
         Some (True, set_class a c h)
       }
     }
   }"

definition class_Get :: "addr \<Rightarrow> sqobject \<Rightarrow> sqheap \<Rightarrow> sqobject option option" where
  "class_Get a key h = do {
     c \<leftarrow> h_classes h a;
     r \<leftarrow> member_at (h_weak h) c key;
     case r of
       None \<Rightarrow> Some None
     | Some t \<Rightarrow>
         if isfield t then do { m \<leftarrow> vec_at (member_idx t) (c_defaultvalues c); Some (Some (realval (h_weak h) (cm_val m))) }
         else do { m \<leftarrow> vec_at (member_idx t) (c_methods c); Some (Some (cm_val m)) }
   }"

definition GetConstructor :: "addr \<Rightarrow> sqheap \<Rightarrow> sqobject option option" where
  "GetConstructor a h = do {
     c \<leftarrow> h_classes h a;
     if c_constructoridx c \<noteq> - 1 then do { m \<leftarrow> vec_at (nat (c_constructoridx c)) (c_methods c); Some (Some (cm_val m)) }
     else Some None
   }"

definition SetAttributes :: "addr \<Rightarrow> sqobject \<Rightarrow> sqobject \<Rightarrow> sqheap \<Rightarrow> (bool \<times> sqheap) option" where
  "SetAttributes a key val h = do {
     c \<leftarrow> h_classes h a;
     r \<leftarrow> member_at (h_weak h) c key;
     case r of
       None \<Rightarrow> Some (False, h)
     | Some t \<Rightarrow>
         if isfield t then do {
           ds \<leftarrow> vec_put (member_idx t) (\<lambda>m. m\<lparr>cm_attrs := val\<rparr>) (c_defaultvalues c);
           Some (True, set_class a (c\<lparr>c_defaultvalues := ds\<rparr>) h)
         }
         else do {
           ms \<leftarrow> vec_put (member_idx t) (\<lambda>m. m\<lparr>cm_attrs := val\<rparr>) (c_methods c);
           Some (True, set_class a (c\<lparr>c_methods := ms\<rparr>) h)
         }
   }"

definition GetAttributes :: "addr \<Rightarrow> sqobject \<Rightarrow> sqheap \<Rightarrow> sqobject option option" where
  "GetAttributes a key h = do {
     c \<leftarrow> h_classes h a;
     r \<leftarrow> member_at (h_weak h) c key;
     case r of
       None \<Rightarrow> Some None
     | Some t \<Rightarrow> do {
         m \<leftarrow> vec_at (member_idx t) (if isfield t then c_defaultvalues c else c_methods c);
         Some (Some (cm_attrs m))
       }
   }"

definition class_Next :: "addr \<Rightarrow> nat \<Rightarrow> sqheap \<Rightarrow> (nat \<times> sqobject \<times> sqobject) option option" where
  "class_Next a refpos h = do {
     c \<leftarrow> h_classes h a;
     case table_Next (h_weak h) False (c_members c) refpos of
       None \<Rightarrow> Some None
     | Some (idx, outkey, VInteger t) \<Rightarrow>
         if ismethod t then do { m \<leftarrow> vec_at (member_idx t) (c_methods c); Some (Some (idx, outkey, cm_val m)) }
         else do { m \<leftarrow> vec_at (member_idx t) (c_defaultvalues c); Some (Some (idx, outkey, realval (h_weak h) (cm_val m))) }
     | Some _ \<Rightarrow> None
   }"

text \<open>\<open>Lock\<close> goes along the base classes.\<close>

partial_function (option) class_Lock :: "addr \<Rightarrow> sqheap \<Rightarrow> sqheap option" where
  "class_Lock a h = do {
     c \<leftarrow> h_classes h a;
     let h = set_class a (c\<lparr>c_locked := True\<rparr>) h;
     case c_base c of None \<Rightarrow> Some h | Some b \<Rightarrow> class_Lock b h
   }"

section \<open>Instances\<close>

text \<open>
  The layout of an instance: 88 bytes, the values of 16 bytes each, of which one is
  always there, and the user data.
\<close>

definition SIZEOF_SQInstance :: int where "SIZEOF_SQInstance = 104"
definition SIZEOF_SQObjectPtr :: int where "SIZEOF_SQObjectPtr = 16"

definition sq_aligning :: "int \<Rightarrow> int" where
  "sq_aligning v = (v + 7) div 8 * 8"

definition calcinstancesize :: "sqclass \<Rightarrow> int" where
  "calcinstancesize c =
     c_udsize c + sq_aligning (SIZEOF_SQInstance +
       SIZEOF_SQObjectPtr * (if length (c_defaultvalues c) > 0 then int (length (c_defaultvalues c)) - 1 else 0))"

definition new_instance :: "addr \<Rightarrow> sqclass \<Rightarrow> sqobject list \<Rightarrow> sqinstance" where
  "new_instance a c vals =
     \<lparr>i_class = a, i_values = vals,
      i_userpointer = (if c_udsize c \<noteq> 0 then UP_Inside (calcinstancesize c - c_udsize c) else UP_Null),
      i_memsize = calcinstancesize c\<rparr>"

definition inst_Create :: "addr \<Rightarrow> addr \<Rightarrow> sqheap \<Rightarrow> sqheap option" where
  "inst_Create a na h = do {
     c \<leftarrow> h_classes h a;
     Some (set_instance na (new_instance a c (map cm_val (c_defaultvalues c))) h)
   }"

definition inst_Clone :: "addr \<Rightarrow> addr \<Rightarrow> sqheap \<Rightarrow> sqheap option" where
  "inst_Clone i na h = do {
     inst \<leftarrow> h_instances h i;
     c \<leftarrow> h_classes h (i_class inst);
     if length (c_defaultvalues c) \<le> length (i_values inst)
     then Some (set_instance na (new_instance (i_class inst) c (take (length (c_defaultvalues c)) (i_values inst))) h)
     else None
   }"

definition CreateInstance :: "addr \<Rightarrow> addr \<Rightarrow> sqheap \<Rightarrow> sqheap option" where
  "CreateInstance a na h = do {
     c \<leftarrow> h_classes h a;
     h \<leftarrow> (if c_locked c then Some h else class_Lock a h);
     inst_Create a na h
   }"

definition inst_Get :: "addr \<Rightarrow> sqobject \<Rightarrow> sqheap \<Rightarrow> sqobject option option" where
  "inst_Get i key h = do {
     inst \<leftarrow> h_instances h i;
     c \<leftarrow> h_classes h (i_class inst);
     r \<leftarrow> member_at (h_weak h) c key;
     case r of
       None \<Rightarrow> Some None
     | Some t \<Rightarrow>
         if isfield t then do { v \<leftarrow> vec_at (member_idx t) (i_values inst); Some (Some (realval (h_weak h) v)) }
         else do { m \<leftarrow> vec_at (member_idx t) (c_methods c); Some (Some (cm_val m)) }
   }"

definition inst_Set :: "addr \<Rightarrow> sqobject \<Rightarrow> sqobject \<Rightarrow> sqheap \<Rightarrow> (bool \<times> sqheap) option" where
  "inst_Set i key val h = do {
     inst \<leftarrow> h_instances h i;
     c \<leftarrow> h_classes h (i_class inst);
     r \<leftarrow> member_at (h_weak h) c key;
     case r of
       Some t \<Rightarrow>
         if isfield t then do {
           vs \<leftarrow> vec_put (member_idx t) (\<lambda>_. val) (i_values inst);
           Some (True, set_instance i (inst\<lparr>i_values := vs\<rparr>) h)
         }
         else Some (False, h)
     | None \<Rightarrow> Some (False, h)
   }"

definition inst_GetMetaMethod :: "addr \<Rightarrow> metamethod \<Rightarrow> sqheap \<Rightarrow> sqobject option option" where
  "inst_GetMetaMethod i mm h = do {
     inst \<leftarrow> h_instances h i;
     c \<leftarrow> h_classes h (i_class inst);
     m \<leftarrow> vec_at (mt_index mm) (c_metamethods c);
     Some (if sq_type m \<noteq> OT_NULL then Some m else None)
   }"

partial_function (option) parent_is :: "addr option \<Rightarrow> addr \<Rightarrow> sqheap \<Rightarrow> bool option" where
  "parent_is parent trg h =
     (case parent of
        None \<Rightarrow> Some False
      | Some p \<Rightarrow> if p = trg then Some True else do { c \<leftarrow> h_classes h p; parent_is (c_base c) trg h })"

definition InstanceOf :: "addr \<Rightarrow> addr \<Rightarrow> sqheap \<Rightarrow> bool option" where
  "InstanceOf i trg h = do { inst \<leftarrow> h_instances h i; parent_is (Some (i_class inst)) trg h }"

end
