(* ===== verification/Sq_ClassApi.thy ===== *)
theory Sq_ClassApi
  imports Sq_Class
begin

text \<open>
  The functions of \<^verbatim>\<open>sqapi.cpp\<close> on classes and instances, and the members of the default delegates
  in \<^verbatim>\<open>sqbaselib.cpp\<close> that only call them. The values that a function takes from the stack are its
  arguments, and what it pushes is its result.
\<close>

type_synonym 'a api = "sqheap \<Rightarrow> ((vm_error + 'a) \<times> sqheap) option"

abbreviation throw :: "string \<Rightarrow> 'a api" where
  "throw msg h \<equiv> Some (Inl (Raise_Error msg), h)"

abbreviation push :: "'a \<Rightarrow> 'a api" where
  "push v h \<equiv> Some (Inr v, h)"

definition sq_aux_gettypedarg :: "sqobject \<Rightarrow> sqtype \<Rightarrow> vm_error" where
  "sq_aux_gettypedarg ob type = Raise_Error (''wrong argument type, expected '' @ quoted (IdType2Name type) @ '' got '' @ quoted (take 50 (zstring (PrintObjVal ob))))"

section \<open>Classes\<close>

definition sq_newclass :: "sqobject option \<Rightarrow> addr \<Rightarrow> sqobject api" where
  "sq_newclass base na h =
     (case base of
        None \<Rightarrow> do { h \<leftarrow> class_Create None na h; push (VClass na) h }
      | Some (VClass b) \<Rightarrow> do { h \<leftarrow> class_Create (Some b) na h; push (VClass na) h }
      | Some _ \<Rightarrow> throw ''invalid base type'' h)"

definition sq_createinstance :: "sqobject \<Rightarrow> addr \<Rightarrow> sqobject api" where
  "sq_createinstance self na h =
     (case self of
        VClass a \<Rightarrow> do { h \<leftarrow> CreateInstance a na h; push (VInstance na) h }
      | _ \<Rightarrow> Some (Inl (sq_aux_gettypedarg self OT_CLASS), h))"

definition sq_setclassudsize :: "sqobject \<Rightarrow> int \<Rightarrow> unit api" where
  "sq_setclassudsize self udsize h =
     (case self of
        VClass a \<Rightarrow> do {
          c \<leftarrow> h_classes h a;
          if c_locked c then throw ''the class is locked'' h else push () (set_class a (c\<lparr>c_udsize := udsize\<rparr>) h)
        }
      | _ \<Rightarrow> throw ''the object is not a class'' h)"

definition sq_settypetag :: "sqobject \<Rightarrow> addr \<Rightarrow> unit api" where
  "sq_settypetag self typetag h =
     (case self of
        VUserData a \<Rightarrow> do {
          u \<leftarrow> h_userdata h a;
          push () (h\<lparr>h_userdata := (h_userdata h)(a \<mapsto> u\<lparr>ud_typetag := typetag\<rparr>)\<rparr>)
        }
      | VClass a \<Rightarrow> do { c \<leftarrow> h_classes h a; push () (set_class a (c\<lparr>c_typetag := typetag\<rparr>) h) }
      | _ \<Rightarrow> throw ''invalid object type'' h)"

definition sq_getobjtypetag :: "sqobject \<Rightarrow> sqheap \<Rightarrow> addr option option" where
  "sq_getobjtypetag self h =
     (case self of
        VInstance i \<Rightarrow> do { inst \<leftarrow> h_instances h i; c \<leftarrow> h_classes h (i_class inst); Some (Some (c_typetag c)) }
      | VUserData a \<Rightarrow> do { u \<leftarrow> h_userdata h a; Some (Some (ud_typetag u)) }
      | VClass a \<Rightarrow> do { c \<leftarrow> h_classes h a; Some (Some (c_typetag c)) }
      | _ \<Rightarrow> Some None)"

definition sq_setattributes :: "sqobject \<Rightarrow> sqobject \<Rightarrow> sqobject \<Rightarrow> sqobject api" where
  "sq_setattributes self key val h =
     (case self of
        VClass a \<Rightarrow> do {
          c \<leftarrow> h_classes h a;
          if sq_type key = OT_NULL then push (c_attributes c) (set_class a (c\<lparr>c_attributes := val\<rparr>) h)
          else do {
            r \<leftarrow> GetAttributes a key h;
            case r of
              Some attrs \<Rightarrow> do { (_, h) \<leftarrow> SetAttributes a key val h; push attrs h }
            | None \<Rightarrow> throw ''wrong index'' h
          }
        }
      | _ \<Rightarrow> Some (Inl (sq_aux_gettypedarg self OT_CLASS), h))"

definition sq_getattributes :: "sqobject \<Rightarrow> sqobject \<Rightarrow> sqobject api" where
  "sq_getattributes self key h =
     (case self of
        VClass a \<Rightarrow> do {
          c \<leftarrow> h_classes h a;
          if sq_type key = OT_NULL then push (c_attributes c) h
          else do {
            r \<leftarrow> GetAttributes a key h;
            case r of Some attrs \<Rightarrow> push attrs h | None \<Rightarrow> throw ''wrong index'' h
          }
        }
      | _ \<Rightarrow> Some (Inl (sq_aux_gettypedarg self OT_CLASS), h))"

definition sq_getbase :: "sqobject \<Rightarrow> sqobject api" where
  "sq_getbase self h =
     (case self of
        VClass a \<Rightarrow> do { c \<leftarrow> h_classes h a; push (case c_base c of Some b \<Rightarrow> VClass b | None \<Rightarrow> VNull) h }
      | _ \<Rightarrow> Some (Inl (sq_aux_gettypedarg self OT_CLASS), h))"

section \<open>Instances\<close>

definition sq_getclass :: "sqobject \<Rightarrow> sqobject api" where
  "sq_getclass self h =
     (case self of
        VInstance i \<Rightarrow> do { inst \<leftarrow> h_instances h i; push (VClass (i_class inst)) h }
      | _ \<Rightarrow> Some (Inl (sq_aux_gettypedarg self OT_INSTANCE), h))"

definition sq_instanceof :: "sqobject \<Rightarrow> sqobject \<Rightarrow> bool api" where
  "sq_instanceof inst cl h =
     (case (inst, cl) of
        (VInstance i, VClass a) \<Rightarrow> do { b \<leftarrow> InstanceOf i a h; push b h }
      | _ \<Rightarrow> throw ''invalid param type'' h)"

definition sq_setinstanceup :: "sqobject \<Rightarrow> userptr \<Rightarrow> unit api" where
  "sq_setinstanceup self p h =
     (case self of
        VInstance i \<Rightarrow> do { inst \<leftarrow> h_instances h i; push () (set_instance i (inst\<lparr>i_userpointer := p\<rparr>) h) }
      | _ \<Rightarrow> throw ''the object is not a class instance'' h)"

text \<open>The loop over the base classes that looks for a type tag.\<close>

partial_function (option) has_typetag :: "addr \<Rightarrow> addr \<Rightarrow> sqheap \<Rightarrow> bool option" where
  "has_typetag a typetag h = do {
     c \<leftarrow> h_classes h a;
     if c_typetag c = typetag then Some True
     else case c_base c of None \<Rightarrow> Some False | Some b \<Rightarrow> has_typetag b typetag h
   }"

definition sq_getinstanceup :: "sqobject \<Rightarrow> addr \<Rightarrow> userptr api" where
  "sq_getinstanceup self typetag h =
     (case self of
        VInstance i \<Rightarrow> do {
          inst \<leftarrow> h_instances h i;
          if typetag \<noteq> 0 then do {
            b \<leftarrow> has_typetag (i_class inst) typetag h;
            if b then push (i_userpointer inst) h else throw ''invalid type tag'' h
          }
          else push (i_userpointer inst) h
        }
      | _ \<Rightarrow> throw ''the object is not a class instance'' h)"

section \<open>Member handles\<close>

record memberhandle =
  mh_static :: bool
  mh_index :: nat

definition sq_getmemberhandle :: "sqobject \<Rightarrow> sqobject \<Rightarrow> memberhandle api" where
  "sq_getmemberhandle self key h =
     (case self of
        VClass a \<Rightarrow> do {
          c \<leftarrow> h_classes h a;
          r \<leftarrow> member_at (h_weak h) c key;
          case r of
            Some t \<Rightarrow> push \<lparr>mh_static = \<not> isfield t, mh_index = member_idx t\<rparr> h
          | None \<Rightarrow> throw ''wrong index'' h
        }
      | _ \<Rightarrow> Some (Inl (sq_aux_gettypedarg self OT_CLASS), h))"

text \<open>
  \<open>_getmemberbyhandle\<close> returns a pointer to the value; here it reads the value, and
  \<open>setmemberbyhandle\<close> writes it.
\<close>

definition getmemberbyhandle :: "sqobject \<Rightarrow> memberhandle \<Rightarrow> sqobject api" where
  "getmemberbyhandle self handle h =
     (case self of
        VInstance i \<Rightarrow> do {
          inst \<leftarrow> h_instances h i;
          if mh_static handle then do {
            c \<leftarrow> h_classes h (i_class inst);
            m \<leftarrow> vec_at (mh_index handle) (c_methods c); push (cm_val m) h
          }
          else do { v \<leftarrow> vec_at (mh_index handle) (i_values inst); push v h }
        }
      | VClass a \<Rightarrow> do {
          c \<leftarrow> h_classes h a;
          m \<leftarrow> vec_at (mh_index handle) (if mh_static handle then c_methods c else c_defaultvalues c);
          push (cm_val m) h
        }
      | _ \<Rightarrow> throw ''wrong type(expected class or instance)'' h)"

definition setmemberbyhandle :: "sqobject \<Rightarrow> memberhandle \<Rightarrow> sqobject \<Rightarrow> unit api" where
  "setmemberbyhandle self handle newval h =
     (let put_val = vec_put (mh_index handle) (\<lambda>m. m\<lparr>cm_val := newval\<rparr>);
          put_method = (\<lambda>a h. do { c \<leftarrow> h_classes h a; ms \<leftarrow> put_val (c_methods c); push () (set_class a (c\<lparr>c_methods := ms\<rparr>) h) })
      in case self of
        VInstance i \<Rightarrow> do {
          inst \<leftarrow> h_instances h i;
          if mh_static handle then put_method (i_class inst) h
          else do {
            vs \<leftarrow> vec_put (mh_index handle) (\<lambda>_. newval) (i_values inst);
            push () (set_instance i (inst\<lparr>i_values := vs\<rparr>) h)
          }
        }
      | VClass a \<Rightarrow>
          if mh_static handle then put_method a h
          else do { c \<leftarrow> h_classes h a; ds \<leftarrow> put_val (c_defaultvalues c); push () (set_class a (c\<lparr>c_defaultvalues := ds\<rparr>) h) }
      | _ \<Rightarrow> throw ''wrong type(expected class or instance)'' h)"

definition sq_getbyhandle :: "sqobject \<Rightarrow> memberhandle \<Rightarrow> sqobject api" where
  "sq_getbyhandle self handle h = do {
     (r, h) \<leftarrow> getmemberbyhandle self handle h;
     Some (map_sum id (realval (h_weak h)) r, h)
   }"

definition sq_setbyhandle :: "sqobject \<Rightarrow> memberhandle \<Rightarrow> sqobject \<Rightarrow> unit api" where
  "sq_setbyhandle self handle newval h = setmemberbyhandle self handle newval h"

section \<open>Raw access\<close>

definition sq_rawget :: "sqobject \<Rightarrow> sqobject \<Rightarrow> sqobject api" where
  "sq_rawget self key h =
     (let found = (\<lambda>r. case r of Some v \<Rightarrow> push v h | None \<Rightarrow> throw (''the index doesn'' @ [CHR 0x27] @ ''t exist'') h)
      in case self of
        VTable a \<Rightarrow> do { t \<leftarrow> h_tables h a; r \<leftarrow> table_Get (h_weak h) t key; found r }
      | VClass a \<Rightarrow> do { r \<leftarrow> class_Get a key h; found r }
      | VInstance i \<Rightarrow> do { r \<leftarrow> inst_Get i key h; found r }
      | VArray a \<Rightarrow>
          if sq_isnumeric (sq_type key) then do { v \<leftarrow> h_arrays h a; found (array_Get (h_weak h) (tointeger key) v) }
          else throw ''invalid index type for an array'' h
      | _ \<Rightarrow> throw ''rawget works only on array/table/instance and class'' h)"

definition sq_rawset :: "sqobject \<Rightarrow> sqobject \<Rightarrow> sqobject \<Rightarrow> addr \<Rightarrow> unit api" where
  "sq_rawset self key val na h =
     (if sq_type key = OT_NULL then throw ''null key'' h
      else case self of
        VTable a \<Rightarrow> do {
          t \<leftarrow> h_tables h a;
          (t, _) \<leftarrow> table_NewSlot t key val;
          push () (h\<lparr>h_tables := (h_tables h)(a \<mapsto> t)\<rparr>)
        }
      | VClass a \<Rightarrow> do { (_, h) \<leftarrow> class_NewSlot a key val False na h; push () h }
      | VInstance i \<Rightarrow> do {
          (b, h) \<leftarrow> inst_Set i key val h;
          if b then push () h else Some (Inl (Raise_IdxError key), h)
        }
      | VArray a \<Rightarrow>
          if sq_isnumeric (sq_type key) then do {
            v \<leftarrow> h_arrays h a;
            case array_Set (tointeger key) val v of
              (True, v) \<Rightarrow> push () (h\<lparr>h_arrays := (h_arrays h)(a \<mapsto> v)\<rparr>)
            | (False, _) \<Rightarrow> Some (Inl (Raise_IdxError key), h)
          }
          else Some (Inl (Raise_IdxError key), h)
      | _ \<Rightarrow> throw ''rawset works only on array/table/class and instance'' h)"

definition sq_rawdeleteslot :: "sqobject \<Rightarrow> sqobject \<Rightarrow> sqobject api" where
  "sq_rawdeleteslot self key h =
     (case self of
        VTable a \<Rightarrow> do {
          t \<leftarrow> h_tables h a;
          r \<leftarrow> table_Get (h_weak h) t key;
          case r of
            Some v \<Rightarrow> do { t \<leftarrow> table_Remove t key; push v (h\<lparr>h_tables := (h_tables h)(a \<mapsto> t)\<rparr>) }
          | None \<Rightarrow> push VNull h
        }
      | _ \<Rightarrow> Some (Inl (sq_aux_gettypedarg self OT_TABLE), h))"

end
