(* ===== verification/Sq_Class_Correct.thy ===== *)
theory Sq_Class_Correct
  imports Sq_ClassApi Sq_Simulation Sq_Table_Correct
begin

text \<open>
  Classes and instances are dictionaries of members. The indices of members are coded in the table
  of a class; the invariant of the heap says that they are inside of the vectors of the class and
  of every instance, and that the base classes end.
\<close>

section \<open>Coding of members\<close>

lemma mask24:
  assumes "i < 0x1000000"
  shows "of_nat i AND (0xFFFFFF :: i64) = of_nat i"
proof -
  have "(of_nat i :: i64) < 2 ^ 24" using assms by (simp add: word_less_nat_alt unat_of_nat)
  then have "take_bit 24 (of_nat i :: i64) = of_nat i" by (metis less_mask_eq take_bit_eq_mask)
  then show ?thesis by (simp add: take_bit_eq_mask mask_numeral)
qed

lemma high_bits:
  assumes "i < 0x1000000" "(0xFFFFFF :: i64) AND b = 0"
  shows "of_nat i AND b = (0 :: i64)"
  using arg_cong [OF mask24 [OF assms(1)], of "\<lambda>x. x AND b"] assms(2) by (simp add: and.assoc)

lemma field_idx:
  assumes "i < 0x1000000"
  shows "isfield (make_field_idx i)" "\<not> ismethod (make_field_idx i)" "member_idx (make_field_idx i) = i"
  using high_bits [OF assms, of "0x2000000"] high_bits [OF assms, of "0x1000000"] mask24 [OF assms] assms
  by (simp_all add: isfield_def ismethod_def member_idx_def make_field_idx_def MEMBER_TYPE_FIELD_def MEMBER_TYPE_METHOD_def
      bit.conj_disj_distrib2 unat_of_nat)

lemma method_idx:
  assumes "i < 0x1000000"
  shows "\<not> isfield (make_method_idx i)" "ismethod (make_method_idx i)" "member_idx (make_method_idx i) = i"
  using high_bits [OF assms, of "0x2000000"] high_bits [OF assms, of "0x1000000"] mask24 [OF assms] assms
  by (simp_all add: isfield_def ismethod_def member_idx_def make_method_idx_def MEMBER_TYPE_FIELD_def MEMBER_TYPE_METHOD_def
      bit.conj_disj_distrib2 unat_of_nat)

section \<open>Metamethod names\<close>

lemma metamethodsmap_law: "\<exists>m. metamethodsmap = Some m \<and> table_inv m \<and>
    table_map m = map_of (zip (map VString metamethod_names) (map (\<lambda>i. VInteger (of_nat i)) [0..<MT_LAST]))"
  unfolding metamethodsmap_def
  by (rule tbl.newslot_all_create) (simp_all add: metamethod_names_def MT_LAST_def upt_rec)

definition mm_index_of :: "sqobject \<Rightarrow> nat option" where
  "mm_index_of key = map_of (zip (map VString metamethod_names) [0..<MT_LAST]) key"

lemma map_of_zip_map: "map_of (zip ks (map f xs)) = map_option f \<circ> map_of (zip ks xs)"
  by (induction ks xs rule: list_induct2') auto

lemma mm_index_less: "mm_index_of key = Some i \<Longrightarrow> i < MT_LAST"
  unfolding mm_index_of_def by (drule map_of_SomeD, drule set_zip_rightD, simp)

lemma mm_index_string: "sq_type key \<noteq> OT_STRING \<Longrightarrow> mm_index_of key = None"
  unfolding mm_index_of_def by (cases "map_of (zip (map VString metamethod_names) [0..<MT_LAST]) key")
    (auto dest!: map_of_SomeD set_zip_leftD)

lemma GetMetaMethodIdxByName_law [simp]: "GetMetaMethodIdxByName W key = Some (mm_index_of key)"
proof (cases "sq_type key = OT_STRING")
  case True
  obtain m where m: "metamethodsmap = Some m" "table_inv m"
    "table_map m = map_of (zip (map VString metamethod_names) (map (\<lambda>i. VInteger (of_nat i)) [0..<MT_LAST]))"
    using metamethodsmap_law by blast
  have "table_Get W m key = Some (map_option (\<lambda>i. VInteger (of_nat i)) (mm_index_of key))"
    unfolding Get_ok [OF m(2)] m(3) map_of_zip_map mm_index_of_def by (simp add: option.map_comp o_def realval_def)
  then show ?thesis using True mm_index_less [of key] unfolding GetMetaMethodIdxByName_def m(1)
    by (cases "mm_index_of key") (auto simp: unat_of_nat MT_LAST_def)
next
  case False
  then show ?thesis by (simp add: GetMetaMethodIdxByName_def mm_index_string)
qed

section \<open>The members of a class\<close>

text \<open>
  The abstract class is a dictionary. A slot is a field with its default value or a method,
  which may be any static value.
\<close>

datatype slot = Field sqclassmember | Method sqclassmember

definition slot_view :: "sqclass \<Rightarrow> sqobject \<rightharpoonup> slot" where
  "slot_view c key =
     (case table_map (c_members c) key of
        Some (VInteger t) \<Rightarrow> Some (if isfield t then Field (c_defaultvalues c ! member_idx t) else Method (c_methods c ! member_idx t))
      | _ \<Rightarrow> None)"

definition value_view :: "sqclass \<Rightarrow> sqobject list \<Rightarrow> sqobject \<rightharpoonup> sqobject" where
  "value_view c vals key =
     (case table_map (c_members c) key of Some (VInteger t) \<Rightarrow> if isfield t then Some (vals ! member_idx t) else None | _ \<Rightarrow> None)"

definition coded :: "(nat \<Rightarrow> i64) \<Rightarrow> sqobject list \<Rightarrow> sqobject \<rightharpoonup> sqobject" where
  "coded f ks = map_of (zip ks (map (\<lambda>i. VInteger (f i)) [0..<length ks]))"

text \<open>
  The keys of the methods and of the fields in the order of their indices. A key that was a method
  and became a field is in both lists.
\<close>

definition ctor_at :: "sqobject list \<Rightarrow> int \<Rightarrow> bool" where
  "ctor_at ks n \<longleftrightarrow>
     (if VString ''constructor'' \<in> set ks then 0 \<le> n \<and> nat n < length ks \<and> ks ! nat n = VString ''constructor'' else n = - 1)"

definition class_keys :: "sqclass \<Rightarrow> sqobject list \<Rightarrow> sqobject list \<Rightarrow> bool" where
  "class_keys c ks fs \<longleftrightarrow> distinct ks \<and> distinct fs \<and> length ks = length (c_methods c) \<and> length fs = length (c_defaultvalues c) \<and>
     table_map (c_members c) = coded make_method_idx ks ++ coded make_field_idx fs \<and>
     ctor_at ks (c_constructoridx c)"

definition class_ok :: "sqclass \<Rightarrow> bool" where
  "class_ok c \<longleftrightarrow> table_inv (c_members c) \<and> length (c_metamethods c) = MT_LAST \<and> CountUsed (c_members c) \<le> MEMBER_MAX_COUNT \<and>
     (\<exists>ks fs. class_keys c ks fs)"

lemma CountUsed_card: "table_inv t \<Longrightarrow> CountUsed t = int (card (dom (table_map t)))"
  using table_inv_parts(6) [of t] distinct_card [of "map fst (entries (tb_nodes t))"] table_inv_parts(4) [of t]
  by (simp add: CountUsed_def table_map_def distinct_keys_def dom_map_of_conv_image_fst) (simp add: entries_def)

lemma finite_table_map: "finite (dom (table_map t))"
  by (simp add: table_map_def finite_dom_map_of)

lemma map_of_zip_iff:
  assumes "distinct ks" "length ks = length xs"
  shows "map_of (zip ks xs) k = Some v \<longleftrightarrow> (\<exists>i < length ks. ks ! i = k \<and> xs ! i = v)"
  using assms by (auto simp: in_set_zip)

lemma map_of_zip_upd:
  assumes "distinct ks" "length ks = length xs" "i < length ks"
  shows "map_of (zip ks (xs[i := x])) = (map_of (zip ks xs))(ks ! i \<mapsto> x)"
proof (rule map_eq_by_Some)
  show "map_of (zip ks (xs[i := x])) k = Some v \<longleftrightarrow> ((map_of (zip ks xs))(ks ! i \<mapsto> x)) k = Some v" for k v
    using assms nth_eq_iff_index_eq [OF assms(1)] by (auto simp: in_set_zip nth_list_update)
qed

lemma map_of_zip_snoc:
  assumes "length ks = length xs" "k \<notin> set ks"
  shows "map_of (zip (ks @ [k]) (xs @ [x])) = (map_of (zip ks xs))(k \<mapsto> x)"
proof -
  have "k \<notin> dom (map_of (zip ks xs))" using assms by (simp add: dom_map_of_zip)
  then show ?thesis using assms by (simp add: map_add_comm [of "[k \<mapsto> x]"])
qed

lemma coded_snoc: "k \<notin> set ks \<Longrightarrow> coded f (ks @ [k]) = (coded f ks)(k \<mapsto> VInteger (f (length ks)))"
  unfolding coded_def length_append_singleton upt_Suc_append [OF le0] map_append list.map by (rule map_of_zip_snoc) simp_all

lemma dom_coded: "dom (coded f ks) = set ks"
  unfolding coded_def by (simp add: dom_map_of_zip)

lemma coded_iff: "distinct ks \<Longrightarrow> coded f ks k = Some v \<longleftrightarrow> (\<exists>i < length ks. ks ! i = k \<and> v = VInteger (f i))"
  unfolding coded_def by (subst map_of_zip_iff) auto

lemma class_okI:
  "class_keys c ks fs \<Longrightarrow> table_inv (c_members c) \<Longrightarrow> length (c_metamethods c) = MT_LAST \<Longrightarrow>
    CountUsed (c_members c) \<le> MEMBER_MAX_COUNT \<Longrightarrow> class_ok c"
  by (auto simp: class_ok_def)

lemma class_okE:
  assumes "class_ok c"
  obtains ks fs where "class_keys c ks fs" "table_inv (c_members c)" "length (c_metamethods c) = MT_LAST"
    "length ks \<le> 0xFFFFFF" "length fs \<le> 0xFFFFFF" "dom (table_map (c_members c)) = set ks \<union> set fs"
    "card (dom (table_map (c_members c))) \<le> 0xFFFFFF"
proof -
  obtain ks fs where k: "class_keys c ks fs" and t: "table_inv (c_members c)" and m: "length (c_metamethods c) = MT_LAST"
    using assms by (auto simp: class_ok_def)
  have d: "dom (table_map (c_members c)) = set ks \<union> set fs"
    using k by (simp add: class_keys_def dom_coded Un_commute)
  have n: "card (dom (table_map (c_members c))) \<le> 0xFFFFFF"
    using assms CountUsed_card [OF t] by (simp add: class_ok_def MEMBER_MAX_COUNT_def)
  have "length ks = card (set ks)" "length fs = card (set fs)" using k by (simp_all add: class_keys_def distinct_card)
  moreover have "card (set ks) \<le> card (set ks \<union> set fs)" "card (set fs) \<le> card (set ks \<union> set fs)"
    by (rule card_mono; simp)+
  ultimately have "length ks \<le> 0xFFFFFF" "length fs \<le> 0xFFFFFF" using n unfolding d by linarith+
  then show ?thesis using that k t m d n by blast
qed

text \<open>The entry of a key in the table of members, by cases.\<close>

lemma class_keys_cases:
  assumes k: "class_keys c ks fs" and n: "length ks \<le> 0xFFFFFF" "length fs \<le> 0xFFFFFF"
  obtains (Field) i where "i < length fs" "fs ! i = key" "table_map (c_members c) key = Some (VInteger (make_field_idx i))"
      "isfield (make_field_idx i)" "member_idx (make_field_idx i) = i" "key \<in> set fs" "\<not> ismethod (make_field_idx i)"
  | (Method) i where "i < length ks" "ks ! i = key" "table_map (c_members c) key = Some (VInteger (make_method_idx i))"
      "\<not> isfield (make_method_idx i)" "member_idx (make_method_idx i) = i" "key \<in> set ks" "key \<notin> set fs" "ismethod (make_method_idx i)"
  | (None) "table_map (c_members c) key = None" "key \<notin> set ks" "key \<notin> set fs"
proof -
  have d: "distinct ks" "distinct fs" and m: "table_map (c_members c) = coded make_method_idx ks ++ coded make_field_idx fs"
    using k by (auto simp: class_keys_def)
  show ?thesis
  proof (cases "key \<in> set fs")
    case True
    then obtain i where i: "i < length fs" "fs ! i = key" by (auto simp: in_set_conv_nth)
    then have "coded make_field_idx fs key = Some (VInteger (make_field_idx i))" using d by (auto simp: coded_iff)
    then show ?thesis using Field [OF i] field_idx [of i] i n True by (simp add: m map_add_dom_app_simps(1) dom_coded)
  next
    case f: False
    then have mk: "table_map (c_members c) key = coded make_method_idx ks key" by (simp add: m map_add_dom_app_simps(3) dom_coded)
    show ?thesis
    proof (cases "key \<in> set ks")
      case True
      then obtain i where i: "i < length ks" "ks ! i = key" by (auto simp: in_set_conv_nth)
      then have "coded make_method_idx ks key = Some (VInteger (make_method_idx i))" using d by (auto simp: coded_iff)
      then show ?thesis using Method [OF i] method_idx [of i] i n True f mk by simp
    next
      case False
      then have "coded make_method_idx ks key = None" using dom_coded [of make_method_idx ks] by (auto simp: dom_def)
      then show ?thesis using None False f mk by simp
    qed
  qed
qed

lemma slot_view_lists:
  assumes "class_keys c ks fs" "length ks \<le> 0xFFFFFF" "length fs \<le> 0xFFFFFF"
  shows "slot_view c = map_of (zip ks (map Method (c_methods c))) ++ map_of (zip fs (map Field (c_defaultvalues c)))"
proof
  fix key
  have l: "length ks = length (c_methods c)" "length fs = length (c_defaultvalues c)" "distinct ks" "distinct fs"
    using assms(1) by (auto simp: class_keys_def)
  have dm: "dom (map_of (zip fs (map Field (c_defaultvalues c)))) = set fs" "dom (map_of (zip ks (map Method (c_methods c)))) = set ks"
    using l by (simp_all add: dom_map_of_zip)
  show "slot_view c key = (map_of (zip ks (map Method (c_methods c))) ++ map_of (zip fs (map Field (c_defaultvalues c)))) key"
  proof (cases rule: class_keys_cases [OF assms, of key])
    case (1 i)
    then have "map_of (zip fs (map Field (c_defaultvalues c))) key = Some (Field (c_defaultvalues c ! i))"
      using l by (subst map_of_zip_iff) auto
    then show ?thesis using 1 dm by (simp add: slot_view_def map_add_dom_app_simps(1))
  next
    case (2 i)
    then have "map_of (zip ks (map Method (c_methods c))) key = Some (Method (c_methods c ! i))"
      using l by (subst map_of_zip_iff) auto
    then show ?thesis using 2 dm by (simp add: slot_view_def map_add_dom_app_simps(3))
  next
    case 3
    then have "map_of (zip ks (map Method (c_methods c))) key = None" "map_of (zip fs (map Field (c_defaultvalues c))) key = None"
      using l by (simp_all add: map_of_zip_is_None)
    then show ?thesis using 3 by (simp add: slot_view_def map_add_def)
  qed
qed

lemma value_view_lists:
  assumes "class_keys c ks fs" "length ks \<le> 0xFFFFFF" "length fs \<le> 0xFFFFFF" "length vals = length fs"
  shows "value_view c vals = map_of (zip fs vals)"
proof
  fix key
  have l: "distinct fs" using assms(1) by (auto simp: class_keys_def)
  show "value_view c vals key = map_of (zip fs vals) key"
  proof (cases rule: class_keys_cases [OF assms(1-3), of key])
    case (1 i)
    then have "map_of (zip fs vals) key = Some (vals ! i)" using l assms(4) by (subst map_of_zip_iff) auto
    then show ?thesis using 1 by (simp add: value_view_def)
  qed (use assms(4) in \<open>simp_all add: value_view_def map_of_zip_is_None [THEN iffD2]\<close>)
qed

section \<open>The abstract class\<close>

record aclass =
  ac_slots :: "sqobject \<rightharpoonup> slot"
  ac_ctor :: "sqobject option"
  ac_metas :: "sqobject list"
  ac_base :: "addr option"
  ac_locked :: bool

definition ctor_of :: "sqclass \<Rightarrow> sqobject option" where
  "ctor_of c = (if c_constructoridx c = - 1 then None else Some (cm_val (c_methods c ! nat (c_constructoridx c))))"

definition aclass_of :: "sqclass \<Rightarrow> aclass" where
  "aclass_of c = \<lparr>ac_slots = slot_view c, ac_ctor = ctor_of c, ac_metas = c_metamethods c, ac_base = c_base c, ac_locked = c_locked c\<rparr>"

lemma aclass_of_simps [simp]:
  "ac_slots (aclass_of c) = slot_view c" "ac_ctor (aclass_of c) = ctor_of c" "ac_metas (aclass_of c) = c_metamethods c"
  "ac_base (aclass_of c) = c_base c" "ac_locked (aclass_of c) = c_locked c"
  by (simp_all add: aclass_of_def)

lemma slot_view_cong:
  "c_members c = c_members c' \<Longrightarrow> c_defaultvalues c = c_defaultvalues c' \<Longrightarrow> c_methods c = c_methods c' \<Longrightarrow> slot_view c = slot_view c'"
  by (simp add: slot_view_def fun_eq_iff split: option.split sqobject.split)

text \<open>Fields of a class that do not matter for its members.\<close>

lemma class_ok_upd [simp]:
  "class_ok (c\<lparr>c_locked := b\<rparr>) = class_ok c" "class_ok (c\<lparr>c_base := x\<rparr>) = class_ok c" "class_ok (c\<lparr>c_attributes := v\<rparr>) = class_ok c"
  "slot_view (c\<lparr>c_locked := b\<rparr>) = slot_view c" "value_view (c\<lparr>c_locked := b\<rparr>) = value_view c"
  "slot_view (c\<lparr>c_metamethods := ms\<rparr>) = slot_view c" "value_view (c\<lparr>c_metamethods := ms\<rparr>) = value_view c"
  "value_view (c\<lparr>c_defaultvalues := ds\<rparr>) = value_view c" "value_view (c\<lparr>c_methods := ds\<rparr>) = value_view c"
  by (simp_all add: class_ok_def class_keys_def value_view_def fun_eq_iff cong: slot_view_cong)

lemma class_ok_metas: "class_ok c \<Longrightarrow> length ms = MT_LAST \<Longrightarrow> class_ok (c\<lparr>c_metamethods := ms\<rparr>)"
  by (simp add: class_ok_def class_keys_def)

lemma member_at_law:
  assumes "class_ok c"
  shows "\<exists>r. member_at W c key = Some r \<and>
    (case r of
       None \<Rightarrow> slot_view c key = None \<and> table_map (c_members c) key = None
     | Some t \<Rightarrow> table_map (c_members c) key = Some (VInteger t) \<and>
         (if isfield t then member_idx t < length (c_defaultvalues c) \<and> slot_view c key = Some (Field (c_defaultvalues c ! member_idx t)) \<and> \<not> ismethod t
          else member_idx t < length (c_methods c) \<and> slot_view c key = Some (Method (c_methods c ! member_idx t)) \<and> ismethod t))"
proof -
  obtain ks fs where k: "class_keys c ks fs" "length ks \<le> 0xFFFFFF" "length fs \<le> 0xFFFFFF" and t: "table_inv (c_members c)"
    by (rule class_okE [OF assms])
  have l: "length ks = length (c_methods c)" "length fs = length (c_defaultvalues c)" using k(1) by (auto simp: class_keys_def)
  show ?thesis
    by (cases rule: class_keys_cases [OF k, of key]) (auto simp: member_at_def Get_ok [OF t] realval_def slot_view_def l)
qed

lemma upd_default:
  assumes "class_ok c" "table_map (c_members c) key = Some (VInteger t)" "isfield t"
  shows "class_ok (c\<lparr>c_defaultvalues := (c_defaultvalues c)[member_idx t := x]\<rparr>)"
    "slot_view (c\<lparr>c_defaultvalues := (c_defaultvalues c)[member_idx t := x]\<rparr>) = (slot_view c)(key \<mapsto> Field x)"
proof -
  let ?c = "c\<lparr>c_defaultvalues := (c_defaultvalues c)[member_idx t := x]\<rparr>"
  obtain ks fs where k: "class_keys c ks fs" "length ks \<le> 0xFFFFFF" "length fs \<le> 0xFFFFFF" by (rule class_okE [OF assms(1)])
  have k': "class_keys ?c ks fs" using k(1) by (simp add: class_keys_def)
  then show "class_ok ?c" using assms(1) by (auto simp: class_ok_def)
  have l: "length fs = length (c_defaultvalues c)" "distinct fs" using k(1) by (auto simp: class_keys_def)
  obtain i where i: "member_idx t = i" "i < length fs" "fs ! i = key"
    using assms(2,3) by (cases rule: class_keys_cases [OF k, of key]) auto
  show "slot_view ?c = (slot_view c)(key \<mapsto> Field x)"
    unfolding slot_view_lists [OF k' k(2,3)] slot_view_lists [OF k] using l i by (simp add: map_update map_of_zip_upd)
qed

lemma upd_method:
  assumes "class_ok c" "table_map (c_members c) key = Some (VInteger t)" "\<not> isfield t"
  shows "class_ok (c\<lparr>c_methods := (c_methods c)[member_idx t := x]\<rparr>)"
    "slot_view (c\<lparr>c_methods := (c_methods c)[member_idx t := x]\<rparr>) = (slot_view c)(key \<mapsto> Method x)"
    "ctor_of (c\<lparr>c_methods := (c_methods c)[member_idx t := x]\<rparr>) = (if key = VString ''constructor'' then Some (cm_val x) else ctor_of c)"
proof -
  let ?c = "c\<lparr>c_methods := (c_methods c)[member_idx t := x]\<rparr>"
  obtain ks fs where k: "class_keys c ks fs" "length ks \<le> 0xFFFFFF" "length fs \<le> 0xFFFFFF" by (rule class_okE [OF assms(1)])
  have k': "class_keys ?c ks fs" using k(1) by (simp add: class_keys_def)
  then show "class_ok ?c" using assms(1) by (auto simp: class_ok_def)
  have l: "length ks = length (c_methods c)" "distinct ks" using k(1) by (auto simp: class_keys_def)
  have lf: "length fs = length (c_defaultvalues c)" using k(1) by (auto simp: class_keys_def)
  obtain i where i: "member_idx t = i" "i < length ks" "ks ! i = key" "key \<notin> set fs"
    using assms(2,3) by (cases rule: class_keys_cases [OF k, of key]) auto
  have "key \<notin> dom (map_of (zip fs (map Field (c_defaultvalues c))))" using i(4) lf by (simp add: dom_map_of_zip)
  then show "slot_view ?c = (slot_view c)(key \<mapsto> Method x)"
    unfolding slot_view_lists [OF k' k(2,3)] slot_view_lists [OF k] using l i by (simp add: map_update map_of_zip_upd map_add_upd_left)
  have ci: "ctor_at ks (c_constructoridx c)" using k(1) by (simp add: class_keys_def)
  show "ctor_of ?c = (if key = VString ''constructor'' then Some (cm_val x) else ctor_of c)"
  proof (cases "VString ''constructor'' \<in> set ks")
    case True
    then have c: "0 \<le> c_constructoridx c" "nat (c_constructoridx c) < length ks" "ks ! nat (c_constructoridx c) = VString ''constructor''"
      using ci by (simp_all add: ctor_at_def)
    have "i = nat (c_constructoridx c) \<longleftrightarrow> key = VString ''constructor''"
      using nth_eq_iff_index_eq [OF l(2) i(2) c(2)] i(3) c(3) by auto
    then show ?thesis using c i l by (auto simp: ctor_of_def nth_list_update)
  next
    case False
    then show ?thesis using ci i nth_mem [OF i(2)] by (auto simp: ctor_of_def ctor_at_def)
  qed
qed

lemma put_field_law:
  assumes "class_ok c" "key \<noteq> VNull" "CountUsed (c_members c) < MEMBER_MAX_COUNT" "\<And>m. slot_view c key \<noteq> Some (Field m)"
  shows "\<exists>c'. put_field key val c = Some c' \<and> class_ok c' \<and>
    aclass_of c' = (aclass_of c)\<lparr>ac_slots := (slot_view c)(key \<mapsto> Field \<lparr>cm_val = val, cm_attrs = VNull\<rparr>)\<rparr>"
proof -
  obtain ks fs where k: "class_keys c ks fs" "length ks \<le> 0xFFFFFF" "length fs \<le> 0xFFFFFF"
    and t: "table_inv (c_members c)" "length (c_metamethods c) = MT_LAST" "dom (table_map (c_members c)) = set ks \<union> set fs"
    by (rule class_okE [OF assms(1)])
  have l: "length ks = length (c_methods c)" "length fs = length (c_defaultvalues c)" "distinct ks" "distinct fs"
    using k(1) by (auto simp: class_keys_def)
  have nf: "key \<notin> set fs" using assms(4) by (cases rule: class_keys_cases [OF k, of key]) (auto simp: slot_view_def)
  obtain m b where m: "table_NewSlot (c_members c) key (VInteger (make_field_idx (length fs))) = Some (m, b)" "table_inv m"
      "table_map m = (table_map (c_members c))(key \<mapsto> VInteger (make_field_idx (length fs)))"
    using NewSlot_ok [OF t(1) assms(2)] by blast
  let ?x = "\<lparr>cm_val = val, cm_attrs = VNull\<rparr>"
  let ?c = "c\<lparr>c_members := m, c_defaultvalues := c_defaultvalues c @ [?x]\<rparr>"
  have "card (dom (table_map m)) \<le> Suc (card (dom (table_map (c_members c))))"
    using card_insert_le_m1 finite_table_map [of "c_members c"] by (simp add: m(3) card_insert_if)
  then have n: "CountUsed m \<le> MEMBER_MAX_COUNT" using assms(3) by (simp add: CountUsed_card [OF t(1)] CountUsed_card [OF m(2)])
  have k': "class_keys ?c ks (fs @ [key])"
    using k(1) nf by (simp add: class_keys_def m(3) coded_snoc map_add_upd)
  then have ok: "class_ok ?c" using m(2) t(2) n by (auto simp: class_ok_def)
  then have len: "length (fs @ [key]) \<le> 0xFFFFFF"
    using k' by (elim class_okE) (auto simp: class_keys_def)
  have "slot_view ?c = (slot_view c)(key \<mapsto> Field ?x)"
    using slot_view_lists [OF k' k(2) len] map_of_zip_snoc [of fs "map Field (c_defaultvalues c)" key "Field ?x"] l nf
    unfolding slot_view_lists [OF k] by (simp del: zip_append map_of_append)
  then show ?thesis using ok m(1) l by (auto simp: put_field_def aclass_of_def ctor_of_def)
qed

lemma put_method_law:
  assumes "class_ok c" "key \<noteq> VNull" "CountUsed (c_members c) < MEMBER_MAX_COUNT"
    "member_at W c key = Some temp" "\<And>m. slot_view c key \<noteq> Some (Field m)"
  shows "\<exists>c'. put_method key v temp c = Some c' \<and> class_ok c' \<and> value_view c' = value_view c \<and> length (c_defaultvalues c') = length (c_defaultvalues c) \<and>
    aclass_of c' = (aclass_of c)\<lparr>
      ac_slots := (slot_view c)(key \<mapsto> Method (case slot_view c key of Some (Method m) \<Rightarrow> m\<lparr>cm_val := v\<rparr> | _ \<Rightarrow> \<lparr>cm_val = v, cm_attrs = VNull\<rparr>)),
      ac_ctor := (if key = VString ''constructor'' then Some v else ctor_of c)\<rparr>"
proof (cases temp)
  case (Some t)
  have t: "table_map (c_members c) key = Some (VInteger t)" "\<not> isfield t" "member_idx t < length (c_methods c)"
    "slot_view c key = Some (Method (c_methods c ! member_idx t))"
    using member_at_law [OF assms(1), of W key] assms(4,5) Some by (auto split: if_splits)
  show ?thesis
    using upd_method [OF assms(1) t(1,2), of "(c_methods c ! member_idx t)\<lparr>cm_val := v\<rparr>"] t Some
    by (simp add: put_method_def vec_put_def aclass_of_def)
next
  case None
  obtain ks fs where k: "class_keys c ks fs" "length ks \<le> 0xFFFFFF" "length fs \<le> 0xFFFFFF"
    and t: "table_inv (c_members c)" "length (c_metamethods c) = MT_LAST" "dom (table_map (c_members c)) = set ks \<union> set fs"
    by (rule class_okE [OF assms(1)])
  have l: "length ks = length (c_methods c)" "length fs = length (c_defaultvalues c)" "distinct ks" "distinct fs"
    using k(1) by (auto simp: class_keys_def)
  have sv: "slot_view c key = None" "table_map (c_members c) key = None"
    using member_at_law [OF assms(1), of W key] assms(4) None by auto
  then have nk: "key \<notin> set ks" "key \<notin> set fs" using t(3) by auto
  obtain m b where m: "table_NewSlot (c_members c) key (VInteger (make_method_idx (length ks))) = Some (m, b)" "table_inv m"
      "table_map m = (table_map (c_members c))(key \<mapsto> VInteger (make_method_idx (length ks)))"
    using NewSlot_ok [OF t(1) assms(2)] by blast
  let ?x = "\<lparr>cm_val = v, cm_attrs = VNull\<rparr>"
  let ?ctor = "IsEqual (VString ''constructor'') key"
  let ?c = "c\<lparr>c_members := m, c_constructoridx := (if ?ctor then int (length (c_methods c)) else c_constructoridx c),
      c_methods := c_methods c @ [?x]\<rparr>"
  have ct: "?ctor \<longleftrightarrow> key = VString ''constructor''" by (cases key) (auto simp: IsEqual_def both_numeric_def sq_isnumeric_iff)
  have "card (dom (table_map m)) \<le> Suc (card (dom (table_map (c_members c))))"
    using finite_table_map [of "c_members c"] by (simp add: m(3) card_insert_if)
  then have n: "CountUsed m \<le> MEMBER_MAX_COUNT" using assms(3) by (simp add: CountUsed_card [OF t(1)] CountUsed_card [OF m(2)])
  have "key \<notin> dom (coded make_field_idx fs)" using nk by (simp add: dom_coded)
  then have k': "class_keys ?c (ks @ [key]) fs"
    using k(1) nk by (auto simp: class_keys_def m(3) coded_snoc map_add_upd_left ct ctor_at_def nth_append)
  then have ok: "class_ok ?c" by (rule class_okI) (use m(2) t(2) n in simp_all)
  then have len: "length (ks @ [key]) \<le> 0xFFFFFF"
    using k' by (elim class_okE) (auto simp: class_keys_def)
  have "key \<notin> dom (map_of (zip fs (map Field (c_defaultvalues c))))" using nk l by (simp add: dom_map_of_zip)
  then have "slot_view ?c = (slot_view c)(key \<mapsto> Method ?x)"
    unfolding slot_view_lists [OF k' len k(3)] slot_view_lists [OF k] using l nk by (simp add: map_of_zip_snoc map_add_upd_left)
  moreover have "ctor_of ?c = (if key = VString ''constructor'' then Some v else ctor_of c)"
    using k(1) nk l by (auto simp: ctor_of_def ct class_keys_def ctor_at_def nth_append split: if_splits)
  moreover have "value_view ?c = value_view c"
    using sv(2) m(3) method_idx [of "length ks"] len by (auto simp: value_view_def fun_eq_iff)
  ultimately show ?thesis using ok m(1) l sv by (auto simp: put_method_def None aclass_of_def)
qed

section \<open>The heap of classes and instances\<close>

definition base_of :: "sqheap \<Rightarrow> addr \<rightharpoonup> addr" where
  "base_of h a = h_classes h a \<bind> c_base"

definition parents :: "sqheap \<Rightarrow> (addr \<times> addr) set" where
  "parents h = {(a, b). base_of h a = Some b}"

definition ranked :: "sqheap \<Rightarrow> (addr \<Rightarrow> nat) \<Rightarrow> bool" where
  "ranked h rank \<longleftrightarrow> (\<forall>a b. base_of h a = Some b \<longrightarrow> b \<in> dom (h_classes h) \<and> rank b < rank a)"

lemma rankedD:
  assumes "ranked h rank" "h_classes h a = Some c" "c_base c = Some b"
  shows "b \<in> dom (h_classes h)" "rank b < rank a"
proof -
  have "base_of h a = Some b" using assms by (simp add: base_of_def)
  then show "b \<in> dom (h_classes h)" "rank b < rank a" using assms(1) by (auto simp: ranked_def)
qed

definition inst_ok :: "sqheap \<Rightarrow> sqinstance \<Rightarrow> bool" where
  "inst_ok h inst \<longleftrightarrow> (\<exists>c. h_classes h (i_class inst) = Some c \<and> c_locked c \<and> length (i_values inst) = length (c_defaultvalues c))"

definition heap_ok :: "sqheap \<Rightarrow> bool" where
  "heap_ok h \<longleftrightarrow> (\<forall>c \<in> ran (h_classes h). class_ok c) \<and> (\<exists>rank. ranked h rank) \<and>
     (\<forall>a c b bc. h_classes h a = Some c \<longrightarrow> c_base c = Some b \<longrightarrow> c_locked c \<longrightarrow> h_classes h b = Some bc \<longrightarrow> c_locked bc) \<and>
     (\<forall>inst \<in> ran (h_instances h). inst_ok h inst)"

lemma heap_okD:
  assumes "heap_ok h"
  shows "h_classes h a = Some c \<Longrightarrow> class_ok c" "\<exists>rank. ranked h rank" "h_instances h i = Some inst \<Longrightarrow> inst_ok h inst"
    "h_classes h a = Some c \<Longrightarrow> c_base c = Some b \<Longrightarrow> c_locked c \<Longrightarrow> h_classes h b = Some bc \<Longrightarrow> c_locked bc"
  using assms by (auto simp: heap_ok_def ran_def)

subsection \<open>Loops over the base classes\<close>

definition lock_all :: "addr set \<Rightarrow> sqheap \<Rightarrow> sqheap" where
  "lock_all A h = h\<lparr>h_classes := (\<lambda>x. if x \<in> A then map_option (\<lambda>c. c\<lparr>c_locked := True\<rparr>) (h_classes h x) else h_classes h x)\<rparr>"

lemma lock_all_class: "h_classes (lock_all A h) x = map_option (\<lambda>c. if x \<in> A then c\<lparr>c_locked := True\<rparr> else c) (h_classes h x)"
  by (simp add: lock_all_def option.map_ident)

lemma base_of_lock_all [simp]: "base_of (lock_all A h) = base_of h" "dom (h_classes (lock_all A h)) = dom (h_classes h)"
proof -
  show "base_of (lock_all A h) = base_of h"
  proof
    show "base_of (lock_all A h) x = base_of h x" for x by (cases "h_classes h x") (simp_all add: base_of_def lock_all_class)
  qed
  show "dom (h_classes (lock_all A h)) = dom (h_classes h)" by (auto simp: lock_all_class dom_def)
qed

lemma parents_lock_all [simp]: "parents (lock_all A h) = parents h"
  by (simp add: parents_def)

lemma ranked_lock_all [simp]: "ranked (lock_all A h) rank = ranked h rank"
  by (simp add: ranked_def)

lemma lock_all_twice: "lock_all A (lock_all B h) = lock_all (A \<union> B) h"
  by (simp add: lock_all_def fun_eq_iff option.map_comp o_def)

lemma lock_one: "h_classes h a = Some c \<Longrightarrow> set_class a (c\<lparr>c_locked := True\<rparr>) h = lock_all {a} h"
proof -
  assume "h_classes h a = Some c"
  then have "(h_classes h)(a \<mapsto> c\<lparr>c_locked := True\<rparr>) =
      (\<lambda>x. if x \<in> {a} then map_option (\<lambda>c. c\<lparr>c_locked := True\<rparr>) (h_classes h x) else h_classes h x)" by (simp add: fun_eq_iff)
  then show ?thesis unfolding set_class_def lock_all_def by (rule arg_cong)
qed

lemma class_Lock_law:
  assumes "ranked h rank" "a \<in> dom (h_classes h)"
  shows "class_Lock a h = Some (lock_all ((parents h)\<^sup>* `` {a}) h)"
  using assms
proof (induction "rank a" arbitrary: a h rule: less_induct)
  case less
  obtain c where c: "h_classes h a = Some c" using less.prems(2) by auto
  have step: "class_Lock a h = (case c_base c of None \<Rightarrow> Some (lock_all {a} h) | Some b \<Rightarrow> class_Lock b (lock_all {a} h))"
    by (subst class_Lock.simps) (simp only: c bind.bind_lunit Let_def lock_one)
  show ?case
  proof (cases "c_base c")
    case None
    then have "(parents h)\<^sup>* `` {a} = {a}" using c by (auto elim: converse_rtranclE simp: parents_def base_of_def)
    then show ?thesis using step None by simp
  next
    case (Some b)
    have b: "b \<in> dom (h_classes h)" "rank b < rank a" using rankedD [OF less.prems(1) c Some] by auto
    have "(parents h)\<^sup>* `` {a} = (parents h)\<^sup>* `` {b} \<union> {a}"
      using c Some by (auto simp: parents_def base_of_def elim: converse_rtranclE intro: converse_rtrancl_into_rtrancl)
    moreover have "class_Lock b (lock_all {a} h) = Some (lock_all ((parents h)\<^sup>* `` {b}) (lock_all {a} h))"
      using less.hyps [of b "lock_all {a} h"] b less.prems(1) by simp
    ultimately show ?thesis using step Some by (simp add: lock_all_twice)
  qed
qed

lemma parent_is_law:
  assumes "ranked h rank" "a \<in> dom (h_classes h)"
  shows "parent_is (Some a) trg h = Some ((a, trg) \<in> (parents h)\<^sup>*)"
  using assms
proof (induction "rank a" arbitrary: a rule: less_induct)
  case less
  obtain c where c: "h_classes h a = Some c" using less.prems(2) by auto
  show ?case
  proof (cases "c_base c")
    case None
    then show ?thesis using c by (subst parent_is.simps) (auto simp: parent_is.simps [of None] parents_def base_of_def elim: converse_rtranclE)
  next
    case (Some b)
    have b: "b \<in> dom (h_classes h)" "rank b < rank a" using rankedD [OF less.prems(1) c Some] by auto
    have "(a, trg) \<in> (parents h)\<^sup>* \<longleftrightarrow> a = trg \<or> (b, trg) \<in> (parents h)\<^sup>*"
      using c Some by (auto simp: parents_def base_of_def elim: converse_rtranclE intro: converse_rtrancl_into_rtrancl)
    then show ?thesis using less.hyps [OF b(2) less.prems(1) b(1)] c Some by (subst parent_is.simps) auto
  qed
qed

subsection \<open>The abstract heap\<close>

record ainst =
  ai_class :: addr
  ai_vals :: "sqobject \<rightharpoonup> sqobject"

record aheap =
  ah_classes :: "addr \<rightharpoonup> aclass"
  ah_instances :: "addr \<rightharpoonup> ainst"
  ah_closures :: "addr set"

definition ainst_of :: "sqheap \<Rightarrow> sqinstance \<Rightarrow> ainst" where
  "ainst_of h inst = \<lparr>ai_class = i_class inst, ai_vals = value_view (the (h_classes h (i_class inst))) (i_values inst)\<rparr>"

definition abs_heap :: "sqheap \<Rightarrow> aheap" where
  "abs_heap h = \<lparr>ah_classes = map_option aclass_of \<circ> h_classes h, ah_instances = map_option (ainst_of h) \<circ> h_instances h, ah_closures = dom (h_closures h)\<rparr>"

lemma ainst_of_cong: "h_classes h = h_classes h' \<Longrightarrow> ainst_of h = ainst_of h'"
  by (simp add: ainst_of_def fun_eq_iff)

lemma abs_heap_simps [simp]:
  "ah_classes (abs_heap h) a = map_option aclass_of (h_classes h a)"
  "ah_instances (abs_heap h) i = map_option (ainst_of h) (h_instances h i)"
  "ah_closures (abs_heap h) = dom (h_closures h)"
  by (simp_all add: abs_heap_def)

text \<open>Changing a class: its base and its lock stay, and so do the fields of a locked class.\<close>

lemma set_class_law:
  assumes h: "heap_ok h" and c: "h_classes h a = Some c" "class_ok c'" "c_base c' = c_base c" "c_locked c' = c_locked c"
    and l: "c_locked c \<Longrightarrow> length (c_defaultvalues c') = length (c_defaultvalues c) \<and> value_view c' = value_view c"
  shows "heap_ok (set_class a c' h)"
    "abs_heap (set_class a c' h) = (abs_heap h)\<lparr>ah_classes := (ah_classes (abs_heap h))(a \<mapsto> aclass_of c')\<rparr>"
proof -
  let ?h = "set_class a c' h"
  have cl: "h_classes ?h x = (if x = a then Some c' else h_classes h x)" for x by (simp add: set_class_def)
  have b: "base_of ?h = base_of h"
  proof
    show "base_of ?h x = base_of h x" for x using c by (simp add: base_of_def cl)
  qed
  have d: "dom (h_classes ?h) = dom (h_classes h)" using c(1) by (auto simp: set_class_def)
  have i: "inst_ok ?h inst" if "inst_ok h inst" for inst using that c l by (auto simp: inst_ok_def cl)
  have lk: "h_classes ?h x = Some y \<Longrightarrow> \<exists>y0. h_classes h x = Some y0 \<and> c_base y = c_base y0 \<and> c_locked y = c_locked y0" for x y
    using c by (auto simp: cl split: if_splits)
  have r: "\<exists>rank. ranked ?h rank" using heap_okD(2) [OF h] by (simp add: ranked_def b d)
  have "\<forall>y \<in> ran (h_classes ?h). class_ok y" using heap_okD(1) [OF h] c(2) by (auto simp: ran_def cl split: if_splits)
  moreover have "c_locked yb" if "h_classes ?h x = Some y" "c_base y = Some z" "c_locked y" "h_classes ?h z = Some yb" for x y z yb
    using lk [OF that(1)] lk [OF that(4)] that(2,3) heap_okD(4) [OF h] by metis
  moreover have "\<forall>inst \<in> ran (h_instances ?h). inst_ok ?h inst"
    using heap_okD(3) [OF h] i by (auto simp: ran_def set_class_def)
  ultimately show "heap_ok ?h" using r unfolding heap_ok_def by blast
  have "ainst_of ?h inst = ainst_of h inst" if "h_instances h x = Some inst" for x inst
    using heap_okD(3) [OF h that] c(1) l by (auto simp: ainst_of_def inst_ok_def cl)
  then have "map_option (ainst_of ?h) (h_instances h x) = map_option (ainst_of h) (h_instances h x)" for x
    by (cases "h_instances h x") auto
  then show "abs_heap ?h = (abs_heap h)\<lparr>ah_classes := (ah_classes (abs_heap h))(a \<mapsto> aclass_of c')\<rparr>"
    by (simp add: abs_heap_def set_class_def fun_eq_iff)
qed

text \<open>Adding or changing an instance.\<close>

lemma set_instance_law:
  assumes h: "heap_ok h" and i: "inst_ok h inst"
  shows "heap_ok (set_instance i inst h)"
    "abs_heap (set_instance i inst h) = (abs_heap h)\<lparr>ah_instances := (ah_instances (abs_heap h))(i \<mapsto> ainst_of h inst)\<rparr>"
proof -
  let ?h = "set_instance i inst h"
  have e: "h_classes ?h = h_classes h" "h_closures ?h = h_closures h" by (simp_all add: set_instance_def)
  have eb: "base_of ?h = base_of h" by (simp add: base_of_def fun_eq_iff e)
  have "inst_ok ?h = inst_ok h" "ainst_of ?h = ainst_of h" by (simp_all add: inst_ok_def ainst_of_def fun_eq_iff e)
  then show "heap_ok ?h" using h i unfolding heap_ok_def ranked_def e eb
    by (auto simp: set_instance_def ran_def)
  show "abs_heap ?h = (abs_heap h)\<lparr>ah_instances := (ah_instances (abs_heap h))(i \<mapsto> ainst_of h inst)\<rparr>"
    unfolding abs_heap_def ainst_of_cong [OF e(1)] e by (simp add: fun_eq_iff) (simp add: set_instance_def)
qed

text \<open>Adding a closure.\<close>

lemma set_closures_law:
  "heap_ok (h\<lparr>h_closures := f\<rparr>) = heap_ok h" "abs_heap (h\<lparr>h_closures := f\<rparr>) = (abs_heap h)\<lparr>ah_closures := dom f\<rparr>"
proof -
  show "heap_ok (h\<lparr>h_closures := f\<rparr>) = heap_ok h" by (simp add: heap_ok_def ranked_def base_of_def inst_ok_def)
  have "ainst_of (h\<lparr>h_closures := f\<rparr>) = ainst_of h" by (rule ainst_of_cong) simp
  then show "abs_heap (h\<lparr>h_closures := f\<rparr>) = (abs_heap h)\<lparr>ah_closures := dom f\<rparr>" by (simp add: abs_heap_def)
qed

text \<open>Adding a class.\<close>

lemma add_class_law:
  assumes h: "heap_ok h" and a: "h_classes h a = None" and c: "class_ok c" "\<not> c_locked c" "\<And>b. c_base c = Some b \<Longrightarrow> b \<in> dom (h_classes h)"
  shows "heap_ok (set_class a c h)"
    "abs_heap (set_class a c h) = (abs_heap h)\<lparr>ah_classes := (ah_classes (abs_heap h))(a \<mapsto> aclass_of c)\<rparr>"
proof -
  let ?h = "set_class a c h"
  have cl: "h_classes ?h x = (if x = a then Some c else h_classes h x)" for x by (simp add: set_class_def)
  have i: "inst_ok ?h inst" if "inst_ok h inst" for inst using that a by (auto simp: inst_ok_def cl)
  obtain rank where r: "ranked h rank" using heap_okD(2) [OF h] by blast
  let ?rank = "rank(a := Suc (case c_base c of Some b \<Rightarrow> rank b | None \<Rightarrow> 0))"
  have "ranked ?h ?rank" unfolding ranked_def
  proof (intro allI impI)
    fix x y assume b: "base_of ?h x = Some y"
    show "y \<in> dom (h_classes ?h) \<and> ?rank y < ?rank x"
    proof (cases "x = a")
      case True
      then have "y \<in> dom (h_classes h)" using b c(3) by (simp add: base_of_def cl)
      then show ?thesis using True b a by (auto simp: base_of_def cl)
    next
      case False
      then obtain y0 where y0: "h_classes h x = Some y0" "c_base y0 = Some y" using b by (auto simp: base_of_def cl bind_eq_Some_conv)
      then have "y \<in> dom (h_classes h)" "rank y < rank x" using rankedD [OF r y0] by auto
      then show ?thesis using False a by (auto simp: cl)
    qed
  qed
  moreover have "\<forall>y \<in> ran (h_classes ?h). class_ok y" using heap_okD(1) [OF h] c(1) by (auto simp: ran_def cl split: if_splits)
  moreover have "c_locked yb" if "h_classes ?h x = Some y" "c_base y = Some z" "c_locked y" "h_classes ?h z = Some yb" for x y z yb
  proof -
    have x: "h_classes h x = Some y" using that(1,3) c(2) by (auto simp: cl split: if_splits)
    moreover have "z \<in> dom (h_classes h)" by (rule rankedD(1) [OF r x that(2)])
    then have "h_classes h z = Some yb" using that(4) a by (auto simp: cl split: if_splits)
    ultimately show ?thesis using heap_okD(4) [OF h] that(2,3) by blast
  qed
  moreover have "\<forall>inst \<in> ran (h_instances ?h). inst_ok ?h inst"
    using heap_okD(3) [OF h] i by (auto simp: ran_def set_class_def)
  ultimately show "heap_ok ?h" unfolding heap_ok_def by blast
  have "ainst_of ?h inst = ainst_of h inst" if "h_instances h x = Some inst" for x inst
    using heap_okD(3) [OF h that] a by (auto simp: ainst_of_def inst_ok_def cl)
  then have "map_option (ainst_of ?h) (h_instances h x) = map_option (ainst_of h) (h_instances h x)" for x
    by (cases "h_instances h x") auto
  then show "abs_heap ?h = (abs_heap h)\<lparr>ah_classes := (ah_classes (abs_heap h))(a \<mapsto> aclass_of c)\<rparr>"
    by (simp add: abs_heap_def set_class_def fun_eq_iff)
qed

text \<open>Locking a class and its bases.\<close>

lemma lock_all_law:
  assumes h: "heap_ok h" and A: "\<And>x y. x \<in> A \<Longrightarrow> (x, y) \<in> parents h \<Longrightarrow> y \<in> A"
  shows "heap_ok (lock_all A h)"
    "abs_heap (lock_all A h) = (abs_heap h)\<lparr>ah_classes := (\<lambda>x. map_option (\<lambda>c. if x \<in> A then c\<lparr>ac_locked := True\<rparr> else c) (ah_classes (abs_heap h) x))\<rparr>"
proof -
  let ?h = "lock_all A h"
  have cl: "h_classes ?h x = Some y \<longleftrightarrow> (\<exists>y0. h_classes h x = Some y0 \<and> y = (if x \<in> A then y0\<lparr>c_locked := True\<rparr> else y0))" for x y
    by (auto simp: lock_all_class)
  have i: "inst_ok ?h inst" if "inst_ok h inst" for inst
    using that by (cases "i_class inst \<in> A") (auto simp: inst_ok_def lock_all_class)
  have "\<forall>y \<in> ran (h_classes ?h). class_ok y" using heap_okD(1) [OF h] by (auto simp: ran_def cl)
  moreover have "c_locked yb" if "h_classes ?h x = Some y" "c_base y = Some z" "c_locked y" "h_classes ?h z = Some yb" for x y z yb
  proof -
    note asm = that
    obtain y0 yb0 where y: "h_classes h x = Some y0" "y = (if x \<in> A then y0\<lparr>c_locked := True\<rparr> else y0)"
        "h_classes h z = Some yb0" "yb = (if z \<in> A then yb0\<lparr>c_locked := True\<rparr> else yb0)" using asm(1,4) unfolding cl by blast
    have b: "c_base y0 = Some z" using that(2) y(2) by (auto split: if_splits)
    show ?thesis
    proof (cases "x \<in> A")
      case True
      then have "z \<in> A" using A y(1) b by (auto simp: parents_def base_of_def)
      then show ?thesis using y(4) by simp
    next
      case False
      then show ?thesis using heap_okD(4) [OF h y(1) b _ y(3)] that(3) y(2,4) by simp
    qed
  qed
  moreover have "\<forall>inst \<in> ran (h_instances ?h). inst_ok ?h inst"
    using heap_okD(3) [OF h] i by (auto simp: ran_def lock_all_def)
  moreover have "\<exists>rank. ranked ?h rank" using heap_okD(2) [OF h] by simp
  ultimately show "heap_ok ?h" unfolding heap_ok_def by blast
  have "ainst_of ?h inst = ainst_of h inst" if "h_instances h x = Some inst" for x inst
    using heap_okD(3) [OF h that] by (auto simp: ainst_of_def inst_ok_def lock_all_class)
  then have "map_option (ainst_of ?h) (h_instances h x) = map_option (ainst_of h) (h_instances h x)" for x
    by (cases "h_instances h x") auto
  moreover have "map_option aclass_of (h_classes ?h x) = map_option (\<lambda>c. if x \<in> A then c\<lparr>ac_locked := True\<rparr> else c) (map_option aclass_of (h_classes h x))" for x
    by (cases "h_classes h x") (auto simp: lock_all_class aclass_of_def ctor_of_def)
  ultimately show "abs_heap ?h = (abs_heap h)\<lparr>ah_classes := (\<lambda>x. map_option (\<lambda>c. if x \<in> A then c\<lparr>ac_locked := True\<rparr> else c) (ah_classes (abs_heap h) x))\<rparr>"
    by (simp add: abs_heap_def fun_eq_iff) (simp add: lock_all_def)
qed

section \<open>Specification\<close>

text \<open>
  The operations on dictionaries. A class without instances may get fields; a locked one only
  methods. A function under the name of a metamethod goes to the metamethods. A closure that is put
  in a derived class is stored as a new one.
\<close>

datatype cop =
    Op_NewClass "addr option" addr
  | Op_NewSlot addr sqobject sqobject bool addr
  | Op_CreateInstance addr addr
  | Op_CloneInstance addr addr
  | Op_SetMember addr sqobject sqobject
  | Op_SetAttributes addr sqobject sqobject
  | Op_GetAttributes addr sqobject
  | Op_GetSlot addr sqobject
  | Op_GetMember addr sqobject
  | Op_GetConstructor addr
  | Op_InstanceOf addr addr

datatype cout = Out_Done | Out_Bool bool | Out_Obj "sqobject option"

definition upd_class :: "addr \<Rightarrow> aclass \<Rightarrow> aheap \<Rightarrow> aheap" where
  "upd_class a c H = H\<lparr>ah_classes := (ah_classes H)(a \<mapsto> c)\<rparr>"

definition upd_inst :: "addr \<Rightarrow> ainst \<Rightarrow> aheap \<Rightarrow> aheap" where
  "upd_inst i x H = H\<lparr>ah_instances := (ah_instances H)(i \<mapsto> x)\<rparr>"

definition ancestors :: "aheap \<Rightarrow> addr \<Rightarrow> addr set" where
  "ancestors H a = {(x, y). ah_classes H x \<bind> ac_base = Some y}\<^sup>* `` {a}"

definition new_aclass :: "addr option \<Rightarrow> aheap \<Rightarrow> aclass" where
  "new_aclass base H =
     (case base of
        None \<Rightarrow> \<lparr>ac_slots = Map.empty, ac_ctor = None, ac_metas = replicate MT_LAST VNull, ac_base = None, ac_locked = False\<rparr>
      | Some b \<Rightarrow> (the (ah_classes H b))\<lparr>ac_base := base, ac_locked := False\<rparr>)"

text \<open>The value that is stored, and the method it is stored as.\<close>

definition bound_value :: "aclass \<Rightarrow> sqobject \<Rightarrow> addr \<Rightarrow> sqobject" where
  "bound_value c v na = (if ac_base c \<noteq> None \<and> sq_type v = OT_CLOSURE then VClosure na else v)"

definition spec_method :: "aclass \<Rightarrow> sqobject \<Rightarrow> sqobject \<Rightarrow> aclass" where
  "spec_method c key v =
     c\<lparr>ac_slots := (ac_slots c)(key \<mapsto> Method (case ac_slots c key of Some (Method m) \<Rightarrow> m\<lparr>cm_val := v\<rparr> | _ \<Rightarrow> \<lparr>cm_val = v, cm_attrs = VNull\<rparr>)),
       ac_ctor := (if key = VString ''constructor'' then Some v else ac_ctor c)\<rparr>"

definition spec_newslot :: "addr \<Rightarrow> aclass \<Rightarrow> sqobject \<Rightarrow> sqobject \<Rightarrow> bool \<Rightarrow> addr \<Rightarrow> aheap \<Rightarrow> bool \<times> aheap" where
  "spec_newslot a c key v bstatic na H =
     (let stat = is_function v \<or> bstatic in
      if ac_locked c \<and> \<not> stat then (False, H)
      else if \<exists>m. ac_slots c key = Some (Field m) then
        (True, upd_class a (c\<lparr>ac_slots := (ac_slots c)(key \<mapsto> (case ac_slots c key of Some (Field m) \<Rightarrow> Field (m\<lparr>cm_val := v\<rparr>)))\<rparr>) H)
      else if int (card (dom (ac_slots c))) \<ge> MEMBER_MAX_COUNT then (False, H)
      else if stat then
        (case (if is_function v then mm_index_of key else None) of
           Some i \<Rightarrow> (True, upd_class a (c\<lparr>ac_metas := (ac_metas c)[i := v]\<rparr>) H)
         | None \<Rightarrow> (True, upd_class a (spec_method c key (bound_value c v na))
                     (if bound_value c v na = v then H else H\<lparr>ah_closures := insert na (ah_closures H)\<rparr>)))
      else (True, upd_class a (c\<lparr>ac_slots := (ac_slots c)(key \<mapsto> Field \<lparr>cm_val = v, cm_attrs = VNull\<rparr>)\<rparr>) H))"

definition field_defaults :: "aclass \<Rightarrow> sqobject \<rightharpoonup> sqobject" where
  "field_defaults c key = (case ac_slots c key of Some (Field m) \<Rightarrow> Some (cm_val m) | _ \<Rightarrow> None)"

definition lock_classes :: "addr \<Rightarrow> aheap \<Rightarrow> aheap" where
  "lock_classes a H = H\<lparr>ah_classes := (\<lambda>x. map_option (\<lambda>c. if x \<in> ancestors H a then c\<lparr>ac_locked := True\<rparr> else c) (ah_classes H x))\<rparr>"

definition slot_attrs :: "slot \<Rightarrow> sqobject" where
  "slot_attrs s = (case s of Field m \<Rightarrow> cm_attrs m | Method m \<Rightarrow> cm_attrs m)"

definition with_attrs :: "sqobject \<Rightarrow> slot \<Rightarrow> slot" where
  "with_attrs v s = (case s of Field m \<Rightarrow> Field (m\<lparr>cm_attrs := v\<rparr>) | Method m \<Rightarrow> Method (m\<lparr>cm_attrs := v\<rparr>))"

definition slot_value :: "weakstore \<Rightarrow> slot \<Rightarrow> sqobject" where
  "slot_value W s = (case s of Field m \<Rightarrow> realval W (cm_val m) | Method m \<Rightarrow> cm_val m)"

text \<open>A member of an instance is its own field, or a method of its class.\<close>

definition member_value :: "weakstore \<Rightarrow> aclass \<Rightarrow> ainst \<Rightarrow> sqobject \<Rightarrow> sqobject option" where
  "member_value W c x key =
     (case ac_slots c key of Some (Method m) \<Rightarrow> Some (cm_val m) | Some (Field _) \<Rightarrow> map_option (realval W) (ai_vals x key) | None \<Rightarrow> None)"

text \<open>The specification allows an operation if the objects it names exist and new ones do not.\<close>

fun spec_step :: "weakstore \<Rightarrow> cop \<Rightarrow> aheap \<Rightarrow> (cout \<times> aheap) option" where
  "spec_step W (Op_NewClass base na) H =
     (if na \<in> dom (ah_classes H) \<or> \<not> set_option base \<subseteq> dom (ah_classes H) then None
      else Some (Out_Done, upd_class na (new_aclass base H) H))"
| "spec_step W (Op_NewSlot a key v bstatic na) H = do {
     c \<leftarrow> ah_classes H a;
     if key = VNull \<or> na \<in> ah_closures H \<or> (\<exists>f. v = VClosure f \<and> f \<notin> ah_closures H) then None
     else case spec_newslot a c key v bstatic na H of (b, H) \<Rightarrow> Some (Out_Bool b, H)
   }"
| "spec_step W (Op_CreateInstance a na) H = do {
     c \<leftarrow> ah_classes H a;
     if na \<in> dom (ah_instances H) then None
     else Some (Out_Done, upd_inst na \<lparr>ai_class = a, ai_vals = field_defaults c\<rparr> (lock_classes a H))
   }"
| "spec_step W (Op_CloneInstance i na) H = do {
     x \<leftarrow> ah_instances H i;
     if na \<in> dom (ah_instances H) then None else Some (Out_Done, upd_inst na x H)
   }"
| "spec_step W (Op_SetMember i key v) H = do {
     x \<leftarrow> ah_instances H i;
     if key \<in> dom (ai_vals x) then Some (Out_Bool True, upd_inst i (x\<lparr>ai_vals := (ai_vals x)(key \<mapsto> v)\<rparr>) H) else Some (Out_Bool False, H)
   }"
| "spec_step W (Op_SetAttributes a key v) H = do {
     c \<leftarrow> ah_classes H a;
     case ac_slots c key of
       None \<Rightarrow> Some (Out_Bool False, H)
     | Some s \<Rightarrow> Some (Out_Bool True, upd_class a (c\<lparr>ac_slots := (ac_slots c)(key \<mapsto> with_attrs v s)\<rparr>) H)
   }"
| "spec_step W (Op_GetAttributes a key) H = do {
     c \<leftarrow> ah_classes H a;
     Some (Out_Obj (map_option slot_attrs (ac_slots c key)), H)
   }"
| "spec_step W (Op_GetSlot a key) H = do {
     c \<leftarrow> ah_classes H a;
     Some (Out_Obj (map_option (slot_value W) (ac_slots c key)), H)
   }"
| "spec_step W (Op_GetMember i key) H = do {
     x \<leftarrow> ah_instances H i;
     c \<leftarrow> ah_classes H (ai_class x);
     Some (Out_Obj (member_value W c x key), H)
   }"
| "spec_step W (Op_GetConstructor a) H = do {
     c \<leftarrow> ah_classes H a;
     Some (Out_Obj (ac_ctor c), H)
   }"
| "spec_step W (Op_InstanceOf i a) H = do {
     x \<leftarrow> ah_instances H i;
     Some (Out_Bool (a \<in> ancestors H (ai_class x)), H)
   }"

text \<open>The operations of the program.\<close>

fun class_step :: "cop \<Rightarrow> sqheap \<Rightarrow> (cout \<times> sqheap) option" where
  "class_step (Op_NewClass base na) h = do { h \<leftarrow> class_Create base na h; Some (Out_Done, h) }"
| "class_step (Op_NewSlot a key v bstatic na) h = do { (b, h) \<leftarrow> class_NewSlot a key v bstatic na h; Some (Out_Bool b, h) }"
| "class_step (Op_CreateInstance a na) h = do { h \<leftarrow> CreateInstance a na h; Some (Out_Done, h) }"
| "class_step (Op_CloneInstance i na) h = do { h \<leftarrow> inst_Clone i na h; Some (Out_Done, h) }"
| "class_step (Op_SetMember i key v) h = do { (b, h) \<leftarrow> inst_Set i key v h; Some (Out_Bool b, h) }"
| "class_step (Op_SetAttributes a key v) h = do { (b, h) \<leftarrow> SetAttributes a key v h; Some (Out_Bool b, h) }"
| "class_step (Op_GetAttributes a key) h = do { r \<leftarrow> GetAttributes a key h; Some (Out_Obj r, h) }"
| "class_step (Op_GetSlot a key) h = do { r \<leftarrow> class_Get a key h; Some (Out_Obj r, h) }"
| "class_step (Op_GetMember i key) h = do { r \<leftarrow> inst_Get i key h; Some (Out_Obj r, h) }"
| "class_step (Op_GetConstructor a) h = do { r \<leftarrow> GetConstructor a h; Some (Out_Obj r, h) }"
| "class_step (Op_InstanceOf i a) h = do { b \<leftarrow> InstanceOf i a h; Some (Out_Bool b, h) }"

end
