(* ===== verification/Sq_Class_Refines.thy ===== *)
theory Sq_Class_Refines
  imports Sq_Class_Correct
begin

text \<open>
  Every operation on classes and instances does what the specification says, and keeps the
  invariant of the heap.
\<close>

definition performs :: "('a \<times> sqheap) option \<Rightarrow> weakstore \<Rightarrow> 'a \<times> aheap \<Rightarrow> bool" where
  "performs m W r \<longleftrightarrow> (\<exists>h'. m = Some (fst r, h') \<and> heap_ok h' \<and> h_weak h' = W \<and> abs_heap h' = snd r)"

lemma performsI: "m = Some (x, h') \<Longrightarrow> heap_ok h' \<Longrightarrow> h_weak h' = W \<Longrightarrow> abs_heap h' = H \<Longrightarrow> performs m W (x, H)"
  by (simp add: performs_def)

lemma h_weak_upd [simp]: "h_weak (set_class a c h) = h_weak h" "h_weak (set_instance i x h) = h_weak h" "h_weak (lock_all A h) = h_weak h"
  by (simp_all add: set_class_def set_instance_def lock_all_def)

text \<open>A change of one class.\<close>

lemma performs_set_class:
  assumes "heap_ok h" "h_classes h a = Some c" "class_ok c'" "c_base c' = c_base c" "c_locked c' = c_locked c"
    "c_locked c \<Longrightarrow> length (c_defaultvalues c') = length (c_defaultvalues c) \<and> value_view c' = value_view c"
  shows "performs (Some (x, set_class a c' h)) (h_weak h) (x, upd_class a (aclass_of c') (abs_heap h))"
  using set_class_law [OF assms] by (intro performsI) (auto simp: upd_class_def)

lemma dom_slot_view: "class_ok c \<Longrightarrow> dom (slot_view c) = dom (table_map (c_members c))"
proof -
  assume c: "class_ok c"
  show ?thesis
  proof (rule set_eqI)
    show "key \<in> dom (slot_view c) \<longleftrightarrow> key \<in> dom (table_map (c_members c))" for key
      using member_at_law [OF c, of W key] by (auto split: option.splits if_splits)
  qed
qed

lemma bind_base_law:
  assumes "\<And>f. v = VClosure f \<Longrightarrow> f \<in> dom (h_closures h)"
  shows "\<exists>g. bind_base c v na h = Some (bound_value (aclass_of c) v na, h\<lparr>h_closures := g\<rparr>) \<and>
    dom g = (if bound_value (aclass_of c) v na = v then dom (h_closures h) else insert na (dom (h_closures h))) \<or> (v = VClosure na)"
proof (cases "c_base c \<noteq> None \<and> sq_type v = OT_CLOSURE")
  case True
  then obtain b f where b: "c_base c = Some b" "v = VClosure f" by (cases v) auto
  then obtain cl where "h_closures h f = Some cl" using assms by auto
  then show ?thesis using b by (auto simp: bind_base_def closure_Clone_def bound_value_def)
next
  case False
  then have "bind_base c v na h = Some (v, h)" by (auto simp: bind_base_def split: option.split sqobject.split)
  moreover have "bound_value (aclass_of c) v na = v" using False by (auto simp: bound_value_def)
  ultimately show ?thesis by (intro exI [of _ "h_closures h"]) simp
qed

lemma closures_same: "(abs_heap h)\<lparr>ah_closures := dom (h_closures h)\<rparr> = abs_heap h"
  by (simp add: abs_heap_def)

lemma put_static_law:
  assumes h: "heap_ok h" and c: "h_classes h a = Some c" and k: "key \<noteq> VNull" and n: "CountUsed (c_members c) < MEMBER_MAX_COUNT"
    and t: "member_at (h_weak h) c key = Some temp" and nf: "\<And>m. slot_view c key \<noteq> Some (Field m)"
    and na: "na \<notin> dom (h_closures h)" and cl: "\<And>f. v = VClosure f \<Longrightarrow> f \<in> dom (h_closures h)"
  shows "performs (put_static a c key v temp na h) (h_weak h)
    (case (if is_function v then mm_index_of key else None) of
       Some i \<Rightarrow> (True, upd_class a ((aclass_of c)\<lparr>ac_metas := (c_metamethods c)[i := v]\<rparr>) (abs_heap h))
     | None \<Rightarrow> (True, upd_class a (spec_method (aclass_of c) key (bound_value (aclass_of c) v na))
                 (if bound_value (aclass_of c) v na = v then abs_heap h else (abs_heap h)\<lparr>ah_closures := insert na (dom (h_closures h))\<rparr>)))"
proof (cases "if is_function v then mm_index_of key else None")
  case (Some i)
  have ok: "class_ok c" by (rule heap_okD(1) [OF h c])
  have i: "i < length (c_metamethods c)" "length (c_metamethods c) = MT_LAST"
    using Some mm_index_less [of key i] ok by (auto simp: class_ok_def split: if_splits)
  let ?c = "c\<lparr>c_metamethods := (c_metamethods c)[i := v]\<rparr>"
  have "performs (Some (True, set_class a ?c h)) (h_weak h) (True, upd_class a (aclass_of ?c) (abs_heap h))"
    using i by (intro performs_set_class [OF h c]) (simp_all add: class_ok_metas [OF ok])
  then show ?thesis using Some i by (simp add: put_static_def vec_put_def aclass_of_def ctor_of_def split: if_splits)
next
  case None
  have ok: "class_ok c" by (rule heap_okD(1) [OF h c])
  let ?v = "bound_value (aclass_of c) v na"
  obtain g where g: "bind_base c v na h = Some (?v, h\<lparr>h_closures := g\<rparr>)" "dom g = (if ?v = v then dom (h_closures h) else insert na (dom (h_closures h)))"
    using bind_base_law [of v h c na] cl na by blast
  obtain c' where c': "put_method key ?v temp c = Some c'" "class_ok c'" "value_view c' = value_view c"
      "length (c_defaultvalues c') = length (c_defaultvalues c)" "aclass_of c' = spec_method (aclass_of c) key ?v"
    using put_method_law [OF ok k n t nf, of ?v] by (auto simp: spec_method_def)
  have bl: "c_base c' = c_base c" "c_locked c' = c_locked c"
    using c'(1) by (auto simp: put_method_def bind_eq_Some_conv split: option.splits)
  let ?h = "h\<lparr>h_closures := g\<rparr>"
  have "performs (Some (True, set_class a c' ?h)) (h_weak ?h) (True, upd_class a (aclass_of c') (abs_heap ?h))"
    using h c c' bl by (intro performs_set_class) (simp_all add: set_closures_law)
  moreover have "abs_heap ?h = (if ?v = v then abs_heap h else (abs_heap h)\<lparr>ah_closures := insert na (dom (h_closures h))\<rparr>)"
    using g(2) by (auto simp: set_closures_law closures_same)
  ultimately show ?thesis using None g(1) c'(1,5) by (simp add: put_static_def split: if_splits)
qed

lemma NewSlot_law:
  assumes h: "heap_ok h" and c: "h_classes h a = Some c" and k: "key \<noteq> VNull"
    and na: "na \<notin> dom (h_closures h)" and cl: "\<And>f. v = VClosure f \<Longrightarrow> f \<in> dom (h_closures h)"
  shows "performs (class_NewSlot a key v bstatic na h) (h_weak h) (spec_newslot a (aclass_of c) key v bstatic na (abs_heap h))"
proof -
  have ok: "class_ok c" by (rule heap_okD(1) [OF h c])
  obtain temp where t: "member_at (h_weak h) c key = Some temp" and tc: "case temp of
       None \<Rightarrow> slot_view c key = None \<and> table_map (c_members c) key = None
     | Some t \<Rightarrow> table_map (c_members c) key = Some (VInteger t) \<and>
         (if isfield t then member_idx t < length (c_defaultvalues c) \<and> slot_view c key = Some (Field (c_defaultvalues c ! member_idx t)) \<and> \<not> ismethod t
          else member_idx t < length (c_methods c) \<and> slot_view c key = Some (Method (c_methods c ! member_idx t)) \<and> ismethod t)"
    using member_at_law [OF ok, of "h_weak h" key] by blast
  have cu: "CountUsed (c_members c) = int (card (dom (slot_view c)))"
    using dom_slot_view [OF ok] CountUsed_card [of "c_members c"] ok by (simp add: class_ok_def)
  consider (locked) "c_locked c \<and> \<not> (is_function v \<or> bstatic)"
    | (field) t0 where "\<not> (c_locked c \<and> \<not> (is_function v \<or> bstatic))" "temp = Some t0" "isfield t0"
    | (other) "\<not> (c_locked c \<and> \<not> (is_function v \<or> bstatic))" "\<not> (case temp of Some t \<Rightarrow> isfield t | None \<Rightarrow> False)"
    by (cases temp) auto
  then show ?thesis
  proof cases
    case locked
    then show ?thesis using c h by (auto simp: class_NewSlot_def spec_newslot_def Let_def performs_def)
  next
    case field
    then have f: "table_map (c_members c) key = Some (VInteger t0)" "member_idx t0 < length (c_defaultvalues c)"
        "slot_view c key = Some (Field (c_defaultvalues c ! member_idx t0))" using tc by auto
    let ?x = "(c_defaultvalues c ! member_idx t0)\<lparr>cm_val := v\<rparr>"
    let ?c = "c\<lparr>c_defaultvalues := (c_defaultvalues c)[member_idx t0 := ?x]\<rparr>"
    note u = upd_default [OF ok f(1) field(3), of ?x]
    have "performs (Some (True, set_class a ?c h)) (h_weak h) (True, upd_class a (aclass_of ?c) (abs_heap h))"
      using u(1) by (intro performs_set_class [OF h c]) simp_all
    moreover have "class_NewSlot a key v bstatic na h = Some (True, set_class a ?c h)"
      using field c t f by (simp add: class_NewSlot_def Let_def vec_put_def)
    moreover have "aclass_of ?c = (aclass_of c)\<lparr>ac_slots := (slot_view c)(key \<mapsto> Field ?x)\<rparr>"
      using u(2) by (simp add: aclass_of_def ctor_of_def)
    ultimately show ?thesis using field f by (auto simp: spec_newslot_def)
  next
    case other
    have nf: "slot_view c key \<noteq> Some (Field m)" for m using tc other(2) by (auto split: option.splits)
    have step: "class_NewSlot a key v bstatic na h =
      (if CountUsed (c_members c) \<ge> MEMBER_MAX_COUNT then Some (False, h)
       else if is_function v \<or> bstatic then put_static a c key v temp na h
       else do { c \<leftarrow> put_field key v c; Some (True, set_class a c h) })"
      using other c t by (auto simp: class_NewSlot_def Let_def)
    show ?thesis
    proof (cases "CountUsed (c_members c) \<ge> MEMBER_MAX_COUNT")
      case True
      then show ?thesis using step other(1) nf h cu by (auto simp: spec_newslot_def performs_def)
    next
      case n: False
      show ?thesis
      proof (cases "is_function v \<or> bstatic")
        case True
        have n': "CountUsed (c_members c) < MEMBER_MAX_COUNT" using n by simp
        have "spec_newslot a (aclass_of c) key v bstatic na (abs_heap h) =
          (case (if is_function v then mm_index_of key else None) of
             Some i \<Rightarrow> (True, upd_class a ((aclass_of c)\<lparr>ac_metas := (c_metamethods c)[i := v]\<rparr>) (abs_heap h))
           | None \<Rightarrow> (True, upd_class a (spec_method (aclass_of c) key (bound_value (aclass_of c) v na))
                 (if bound_value (aclass_of c) v na = v then abs_heap h else (abs_heap h)\<lparr>ah_closures := insert na (dom (h_closures h))\<rparr>)))"
          using True n nf cu by (auto simp: spec_newslot_def split: option.split)
        moreover have "class_NewSlot a key v bstatic na h = put_static a c key v temp na h" using step True n by simp
        ultimately show ?thesis using put_static_law [OF h c k n' t nf na cl, of v] by (simp only:)
      next
        case False
        obtain c' where c': "put_field key v c = Some c'" "class_ok c'"
            "aclass_of c' = (aclass_of c)\<lparr>ac_slots := (slot_view c)(key \<mapsto> Field \<lparr>cm_val = v, cm_attrs = VNull\<rparr>)\<rparr>"
          using put_field_law [OF ok k _ nf] n by auto
        have bl: "c_base c' = c_base c" "c_locked c' = c_locked c"
          using c'(1) by (auto simp: put_field_def bind_eq_Some_conv)
        have "performs (Some (True, set_class a c' h)) (h_weak h) (True, upd_class a (aclass_of c') (abs_heap h))"
          using other(1) False bl c'(2) by (intro performs_set_class [OF h c]) simp_all
        then show ?thesis using step n False nf cu c' other(1) by (simp add: spec_newslot_def)
      qed
    qed
  qed
qed

text \<open>Creating and cloning instances.\<close>

lemma ancestors_abs: "ancestors (abs_heap h) a = (parents h)\<^sup>* `` {a}"
proof -
  have "(ah_classes (abs_heap h) x \<bind> ac_base) = base_of h x" for x by (cases "h_classes h x") (simp_all add: base_of_def)
  then show ?thesis by (simp add: ancestors_def parents_def)
qed

lemma lock_classes_abs: "heap_ok h \<Longrightarrow> heap_ok (lock_all ((parents h)\<^sup>* `` {a}) h) \<and>
    abs_heap (lock_all ((parents h)\<^sup>* `` {a}) h) = lock_classes a (abs_heap h)"
proof -
  assume h: "heap_ok h"
  have A: "x \<in> (parents h)\<^sup>* `` {a} \<Longrightarrow> (x, y) \<in> parents h \<Longrightarrow> y \<in> (parents h)\<^sup>* `` {a}" for x y by (auto intro: rtrancl_into_rtrancl)
  show ?thesis unfolding lock_classes_def ancestors_abs by (intro conjI lock_all_law [OF h A])
qed

text \<open>The bases of a locked class are locked already.\<close>

lemma locked_ancestors:
  assumes "heap_ok h" "h_classes h a = Some c" "c_locked c"
  shows "lock_all ((parents h)\<^sup>* `` {a}) h = h"
proof -
  obtain rank where r: "ranked h rank" using heap_okD(2) [OF assms(1)] by blast
  have l: "(a, x) \<in> (parents h)\<^sup>* \<Longrightarrow> \<exists>y. h_classes h x = Some y \<and> c_locked y" for x
  proof (induction rule: rtrancl_induct)
    case (step y z)
    then obtain yc where yc: "h_classes h y = Some yc" "c_locked yc" "c_base yc = Some z" by (auto simp: parents_def base_of_def)
    moreover obtain zc where "h_classes h z = Some zc" using rankedD(1) [OF r yc(1,3)] by auto
    ultimately show ?case using heap_okD(4) [OF assms(1)] by blast
  qed (use assms in auto)
  have "(if x \<in> (parents h)\<^sup>* `` {a} then map_option (\<lambda>c. c\<lparr>c_locked := True\<rparr>) (h_classes h x) else h_classes h x) = h_classes h x" for x
    using l [of x] by auto
  then show ?thesis by (simp add: lock_all_def)
qed

lemma value_view_defaults:
  assumes "class_ok c"
  shows "value_view c (map cm_val (c_defaultvalues c)) = field_defaults (aclass_of c)"
proof
  fix key
  obtain r where "case r of
       None \<Rightarrow> slot_view c key = None \<and> table_map (c_members c) key = None
     | Some t \<Rightarrow> table_map (c_members c) key = Some (VInteger t) \<and>
         (if isfield t then member_idx t < length (c_defaultvalues c) \<and> slot_view c key = Some (Field (c_defaultvalues c ! member_idx t)) \<and> \<not> ismethod t
          else member_idx t < length (c_methods c) \<and> slot_view c key = Some (Method (c_methods c ! member_idx t)) \<and> ismethod t)"
    using member_at_law [OF assms, of "\<lambda>_. VNull" key] by blast
  then show "value_view c (map cm_val (c_defaultvalues c)) key = field_defaults (aclass_of c) key"
    by (auto simp: value_view_def field_defaults_def split: option.splits if_splits)
qed

lemma CreateInstance_law:
  assumes h: "heap_ok h" and c: "h_classes h a = Some c"
  shows "\<exists>h'. CreateInstance a na h = Some h' \<and> heap_ok h' \<and> h_weak h' = h_weak h \<and>
    abs_heap h' = upd_inst na \<lparr>ai_class = a, ai_vals = field_defaults (aclass_of c)\<rparr> (lock_classes a (abs_heap h))"
proof -
  let ?A = "(parents h)\<^sup>* `` {a}"
  let ?h = "lock_all ?A h"
  obtain rank where r: "ranked h rank" using heap_okD(2) [OF h] by blast
  have "(if c_locked c then Some h else class_Lock a h) = Some ?h"
    using class_Lock_law [OF r, of a] locked_ancestors [OF h c] c by auto
  then have ci: "CreateInstance a na h = inst_Create a na ?h" using c by (simp add: CreateInstance_def)
  let ?c = "c\<lparr>c_locked := True\<rparr>"
  have c': "h_classes ?h a = Some ?c" using c by (simp add: lock_all_class)
  let ?i = "new_instance a ?c (map cm_val (c_defaultvalues c))"
  have ok: "heap_ok ?h" "abs_heap ?h = lock_classes a (abs_heap h)" using lock_classes_abs [OF h] by auto
  have "inst_ok ?h ?i" using c' by (simp add: inst_ok_def new_instance_def)
  note s = set_instance_law [OF ok(1) this, of na]
  moreover have "ainst_of ?h ?i = \<lparr>ai_class = a, ai_vals = field_defaults (aclass_of c)\<rparr>"
    using c' value_view_defaults [OF heap_okD(1) [OF h c]] by (simp add: ainst_of_def new_instance_def)
  moreover have "CreateInstance a na h = Some (set_instance na ?i ?h)" using ci c' by (simp add: inst_Create_def)
  ultimately show ?thesis using ok(2) by (auto simp: upd_inst_def)
qed

lemma inst_Clone_law:
  assumes h: "heap_ok h" and i: "h_instances h i = Some x"
  shows "\<exists>h'. inst_Clone i na h = Some h' \<and> heap_ok h' \<and> h_weak h' = h_weak h \<and> abs_heap h' = upd_inst na (ainst_of h x) (abs_heap h)"
proof -
  obtain c where c: "h_classes h (i_class x) = Some c" "c_locked c" "length (i_values x) = length (c_defaultvalues c)"
    using heap_okD(3) [OF h i] by (auto simp: inst_ok_def)
  let ?x = "new_instance (i_class x) c (i_values x)"
  have ok: "inst_ok h ?x" using c by (simp add: inst_ok_def new_instance_def)
  have "inst_Clone i na h = Some (set_instance na ?x h)" using i c by (simp add: inst_Clone_def)
  moreover have "ainst_of h ?x = ainst_of h x" by (simp add: ainst_of_def new_instance_def)
  ultimately show ?thesis using set_instance_law [OF h ok, of na] by (auto simp: upd_inst_def)
qed

text \<open>Reading and writing members.\<close>

lemma member_cases:
  assumes "class_ok c"
  obtains (1) t where "member_at W c key = Some (Some t)" "isfield t" "table_map (c_members c) key = Some (VInteger t)"
      "member_idx t < length (c_defaultvalues c)" "slot_view c key = Some (Field (c_defaultvalues c ! member_idx t))"
  | (2) t where "member_at W c key = Some (Some t)" "\<not> isfield t" "table_map (c_members c) key = Some (VInteger t)"
      "member_idx t < length (c_methods c)" "slot_view c key = Some (Method (c_methods c ! member_idx t))"
  | (3) "member_at W c key = Some None" "slot_view c key = None" "table_map (c_members c) key = None"
proof -
  obtain r where r: "member_at W c key = Some r" "case r of
       None \<Rightarrow> slot_view c key = None \<and> table_map (c_members c) key = None
     | Some t \<Rightarrow> table_map (c_members c) key = Some (VInteger t) \<and>
         (if isfield t then member_idx t < length (c_defaultvalues c) \<and> slot_view c key = Some (Field (c_defaultvalues c ! member_idx t)) \<and> \<not> ismethod t
          else member_idx t < length (c_methods c) \<and> slot_view c key = Some (Method (c_methods c ! member_idx t)) \<and> ismethod t)"
    using member_at_law [OF assms, of W key] by blast
  show ?thesis
  proof (cases r)
    case None
    then show ?thesis using 3 r by simp
  next
    case (Some t)
    then show ?thesis using 1 [of t] 2 [of t] r by (cases "isfield t") auto
  qed
qed

lemma value_view_upd:
  assumes "class_ok c" "length vals = length (c_defaultvalues c)" "table_map (c_members c) key = Some (VInteger t)" "isfield t"
  shows "value_view c (vals[member_idx t := v]) = (value_view c vals)(key \<mapsto> v)"
proof -
  obtain ks fs where k: "class_keys c ks fs" "length ks \<le> 0xFFFFFF" "length fs \<le> 0xFFFFFF" by (rule class_okE [OF assms(1)])
  have l: "length vals = length fs" "distinct fs" using k(1) assms(2) by (auto simp: class_keys_def)
  obtain i where i: "member_idx t = i" "i < length fs" "fs ! i = key"
    using assms(3,4) by (cases rule: class_keys_cases [OF k, of key]) auto
  show ?thesis using l i value_view_lists [OF k, of "vals[i := v]"] value_view_lists [OF k, of vals] by (simp add: map_of_zip_upd)
qed

lemma inst_Set_law:
  assumes h: "heap_ok h" and i: "h_instances h i = Some x"
  shows "performs (inst_Set i key v h) (h_weak h)
    (if key \<in> dom (ai_vals (ainst_of h x)) then (True, upd_inst i ((ainst_of h x)\<lparr>ai_vals := (ai_vals (ainst_of h x))(key \<mapsto> v)\<rparr>) (abs_heap h))
     else (False, abs_heap h))"
proof -
  obtain c where c: "h_classes h (i_class x) = Some c" "c_locked c" "length (i_values x) = length (c_defaultvalues c)"
    using heap_okD(3) [OF h i] by (auto simp: inst_ok_def)
  have ok: "class_ok c" by (rule heap_okD(1) [OF h c(1)])
  have av: "ai_vals (ainst_of h x) = value_view c (i_values x)" using c by (simp add: ainst_of_def)
  show ?thesis
  proof (cases rule: member_cases [OF ok, of "h_weak h" key])
    case (1 t)
    let ?x = "x\<lparr>i_values := (i_values x)[member_idx t := v]\<rparr>"
    have "inst_ok h ?x" using c by (simp add: inst_ok_def)
    note s = set_instance_law [OF h this, of i]
    have a: "ainst_of h ?x = (ainst_of h x)\<lparr>ai_vals := (ai_vals (ainst_of h x))(key \<mapsto> v)\<rparr>"
      using value_view_upd [OF ok c(3) 1(3,2), of v] c by (simp add: ainst_of_def)
    have "inst_Set i key v h = Some (True, set_instance i ?x h)" using i c 1 by (simp add: inst_Set_def vec_put_def)
    moreover have "key \<in> dom (ai_vals (ainst_of h x))" using 1 by (simp add: av value_view_def domIff)
    ultimately show ?thesis using s by (simp add: performs_def upd_inst_def a)
  next
    case (2 t)
    then have "inst_Set i key v h = Some (False, h)" "key \<notin> dom (ai_vals (ainst_of h x))"
      using i c by (simp_all add: inst_Set_def av value_view_def domIff)
    then show ?thesis using h by (simp add: performs_def)
  next
    case 3
    then have "inst_Set i key v h = Some (False, h)" "key \<notin> dom (ai_vals (ainst_of h x))"
      using i c by (simp_all add: inst_Set_def av value_view_def domIff)
    then show ?thesis using h by (simp add: performs_def)
  qed
qed

lemma inst_Get_law:
  assumes h: "heap_ok h" and i: "h_instances h i = Some x"
  shows "\<exists>c. h_classes h (i_class x) = Some c \<and> inst_Get i key h = Some (member_value (h_weak h) (aclass_of c) (ainst_of h x) key)"
proof -
  obtain c where c: "h_classes h (i_class x) = Some c" "c_locked c" "length (i_values x) = length (c_defaultvalues c)"
    using heap_okD(3) [OF h i] by (auto simp: inst_ok_def)
  have ok: "class_ok c" by (rule heap_okD(1) [OF h c(1)])
  show ?thesis using c i by (cases rule: member_cases [OF ok, of "h_weak h" key])
    (simp_all add: inst_Get_def member_value_def vec_at_def ainst_of_def value_view_def)
qed

lemma SetAttributes_law:
  assumes h: "heap_ok h" and c: "h_classes h a = Some c"
  shows "performs (SetAttributes a key v h) (h_weak h)
    (case slot_view c key of
       None \<Rightarrow> (False, abs_heap h)
     | Some s \<Rightarrow> (True, upd_class a ((aclass_of c)\<lparr>ac_slots := (slot_view c)(key \<mapsto> with_attrs v s)\<rparr>) (abs_heap h)))"
proof -
  have ok: "class_ok c" by (rule heap_okD(1) [OF h c])
  show ?thesis
  proof (cases rule: member_cases [OF ok, of "h_weak h" key])
    case (1 t)
    let ?x = "(c_defaultvalues c ! member_idx t)\<lparr>cm_attrs := v\<rparr>"
    let ?c = "c\<lparr>c_defaultvalues := (c_defaultvalues c)[member_idx t := ?x]\<rparr>"
    note u = upd_default [OF ok 1(3,2), of ?x]
    have "performs (Some (True, set_class a ?c h)) (h_weak h) (True, upd_class a (aclass_of ?c) (abs_heap h))"
      using u(1) by (intro performs_set_class [OF h c]) simp_all
    moreover have "aclass_of ?c = (aclass_of c)\<lparr>ac_slots := (slot_view c)(key \<mapsto> Field ?x)\<rparr>"
      using u(2) by (simp add: aclass_of_def ctor_of_def)
    ultimately show ?thesis using 1 c by (simp add: SetAttributes_def vec_put_def with_attrs_def)
  next
    case (2 t)
    let ?x = "(c_methods c ! member_idx t)\<lparr>cm_attrs := v\<rparr>"
    let ?c = "c\<lparr>c_methods := (c_methods c)[member_idx t := ?x]\<rparr>"
    note u = upd_method [OF ok 2(3,2), of ?x] and u0 = upd_method(3) [OF ok 2(3,2), of "c_methods c ! member_idx t"]
    have "performs (Some (True, set_class a ?c h)) (h_weak h) (True, upd_class a (aclass_of ?c) (abs_heap h))"
      using u(1) by (intro performs_set_class [OF h c]) simp_all
    moreover have "ctor_of ?c = ctor_of c" using u(3) u0 by (simp split: if_splits)
    then have "aclass_of ?c = (aclass_of c)\<lparr>ac_slots := (slot_view c)(key \<mapsto> Method ?x)\<rparr>"
      using u(2) by (simp add: aclass_of_def)
    ultimately show ?thesis using 2 c by (simp add: SetAttributes_def vec_put_def with_attrs_def)
  next
    case 3
    then show ?thesis using c h by (simp add: SetAttributes_def performs_def)
  qed
qed

lemma class_reads:
  assumes h: "heap_ok h" and c: "h_classes h a = Some c"
  shows "GetAttributes a key h = Some (map_option slot_attrs (slot_view c key))"
    "class_Get a key h = Some (map_option (slot_value (h_weak h)) (slot_view c key))"
    "GetConstructor a h = Some (ctor_of c)"
proof -
  have ok: "class_ok c" by (rule heap_okD(1) [OF h c])
  show "GetAttributes a key h = Some (map_option slot_attrs (slot_view c key))"
    using c by (cases rule: member_cases [OF ok, of "h_weak h" key]) (simp_all add: GetAttributes_def vec_at_def slot_attrs_def)
  show "class_Get a key h = Some (map_option (slot_value (h_weak h)) (slot_view c key))"
    using c by (cases rule: member_cases [OF ok, of "h_weak h" key]) (simp_all add: class_Get_def vec_at_def slot_value_def)
  obtain ks fs where k: "class_keys c ks fs" by (rule class_okE [OF ok])
  then have "c_constructoridx c \<noteq> - 1 \<Longrightarrow> nat (c_constructoridx c) < length (c_methods c)"
    by (auto simp: class_keys_def ctor_at_def split: if_splits)
  then show "GetConstructor a h = Some (ctor_of c)" using c by (simp add: GetConstructor_def ctor_of_def vec_at_def)
qed

lemma InstanceOf_law:
  assumes h: "heap_ok h" and i: "h_instances h i = Some x"
  shows "InstanceOf i a h = Some (a \<in> ancestors (abs_heap h) (i_class x))"
proof -
  obtain rank where "ranked h rank" using heap_okD(2) [OF h] by blast
  moreover have "i_class x \<in> dom (h_classes h)" using heap_okD(3) [OF h i] by (auto simp: inst_ok_def)
  ultimately show ?thesis using i by (simp add: InstanceOf_def parent_is_law ancestors_abs)
qed

lemma class_Create_law:
  assumes h: "heap_ok h" and a: "h_classes h na = None" and b: "set_option base \<subseteq> dom (h_classes h)"
  shows "\<exists>h'. class_Create base na h = Some h' \<and> heap_ok h' \<and> h_weak h' = h_weak h \<and>
    abs_heap h' = upd_class na (new_aclass base (abs_heap h)) (abs_heap h)"
proof (cases base)
  case None
  let ?c = "\<lparr>c_members = table_Create 0, c_base = None, c_defaultvalues = [], c_methods = [],
      c_metamethods = replicate MT_LAST VNull, c_attributes = VNull, c_typetag = 0, c_locked = False, c_constructoridx = - 1, c_udsize = 0\<rparr>"
  have "class_keys ?c [] []" by (simp add: class_keys_def coded_def Create_ok ctor_at_def)
  then have ok: "class_ok ?c" by (rule class_okI) (simp_all add: Create_ok CountUsed_card MEMBER_MAX_COUNT_def)
  have "aclass_of ?c = new_aclass None (abs_heap h)"
    by (simp add: aclass_of_def new_aclass_def ctor_of_def slot_view_def Create_ok fun_eq_iff)
  then show ?thesis using add_class_law [OF h a ok] None by (simp add: class_Create_def SQClass_new_def upd_class_def)
next
  case (Some p)
  then obtain bc where bc: "h_classes h p = Some bc" using b by auto
  have okb: "class_ok bc" by (rule heap_okD(1) [OF h bc])
  then obtain m where m: "table_Clone (c_members bc) = Some m" "table_inv m" "table_map m = table_map (c_members bc)"
    using Clone_ok [of "c_members bc"] by (auto simp: class_ok_def)
  let ?c = "\<lparr>c_members = m, c_base = Some p, c_defaultvalues = c_defaultvalues bc, c_methods = c_methods bc,
      c_metamethods = c_metamethods bc, c_attributes = VNull, c_typetag = 0, c_locked = False,
      c_constructoridx = c_constructoridx bc, c_udsize = c_udsize bc\<rparr>"
  obtain ks fs where "class_keys bc ks fs" by (rule class_okE [OF okb])
  then have k: "class_keys ?c ks fs" by (simp add: class_keys_def m(3))
  have "CountUsed m = CountUsed (c_members bc)" using okb m by (simp add: CountUsed_card class_ok_def)
  with k have ok: "class_ok ?c" using okb m(2) by (intro class_okI [OF k]) (simp_all add: class_ok_def)
  have "slot_view ?c = slot_view bc" by (simp add: slot_view_def fun_eq_iff m(3) split: option.split sqobject.split)
  then have "aclass_of ?c = new_aclass (Some p) (abs_heap h)"
    using bc by (simp add: aclass_of_def new_aclass_def ctor_of_def)
  then show ?thesis using add_class_law [OF h a ok] Some bc m(1) by (simp add: class_Create_def SQClass_new_def upd_class_def domIff)
qed

section \<open>The simulation\<close>

lemma class_step_law:
  assumes h: "heap_ok h" and s: "spec_step (h_weak h) op (abs_heap h) = Some (x, H)"
  shows "\<exists>h'. class_step op h = Some (x, h') \<and> (heap_ok h' \<and> h_weak h' = h_weak h) \<and> abs_heap h' = H"
proof (cases op)
  case (Op_NewClass base na)
  then have "h_classes h na = None" "set_option base \<subseteq> dom (h_classes h)" "x = Out_Done"
      "H = upd_class na (new_aclass base (abs_heap h)) (abs_heap h)"
    using s by (auto simp: dom_def split: if_splits)
  then show ?thesis using class_Create_law [OF h, of na base] Op_NewClass by auto
next
  case (Op_NewSlot a key v bstatic na)
  then obtain c b where c: "h_classes h a = Some c" "key \<noteq> VNull" "na \<notin> dom (h_closures h)" "\<And>f. v = VClosure f \<Longrightarrow> f \<in> dom (h_closures h)"
      and r: "spec_newslot a (aclass_of c) key v bstatic na (abs_heap h) = (b, H)" "x = Out_Bool b"
    using s by (auto simp: bind_eq_Some_conv split: if_splits prod.splits)
  show ?thesis using NewSlot_law [where v = v and bstatic = bstatic, OF h c] r Op_NewSlot by (auto simp: performs_def)
next
  case (Op_CreateInstance a na)
  then obtain c where c: "h_classes h a = Some c" "x = Out_Done"
      "H = upd_inst na \<lparr>ai_class = a, ai_vals = field_defaults (aclass_of c)\<rparr> (lock_classes a (abs_heap h))"
    using s by (auto simp: bind_eq_Some_conv split: if_splits)
  then show ?thesis using CreateInstance_law [OF h c(1), of na] Op_CreateInstance by auto
next
  case (Op_CloneInstance i na)
  then obtain y where y: "h_instances h i = Some y" "x = Out_Done" "H = upd_inst na (ainst_of h y) (abs_heap h)"
    using s by (auto simp: bind_eq_Some_conv split: if_splits)
  then show ?thesis using inst_Clone_law [OF h y(1), of na] Op_CloneInstance by auto
next
  case (Op_SetMember i key v)
  then obtain y where y: "h_instances h i = Some y" using s by (auto simp: bind_eq_Some_conv)
  then show ?thesis using inst_Set_law [OF h y, of key v] Op_SetMember s by (auto simp: performs_def split: if_splits)
next
  case (Op_SetAttributes a key v)
  then obtain c where c: "h_classes h a = Some c" using s by (auto simp: bind_eq_Some_conv)
  then show ?thesis using SetAttributes_law [OF h c, of key v] Op_SetAttributes s by (auto simp: performs_def split: option.splits)
next
  case (Op_GetAttributes a key)
  then obtain c where c: "h_classes h a = Some c" using s by (auto simp: bind_eq_Some_conv)
  then show ?thesis using class_reads [OF h c] Op_GetAttributes s h by auto
next
  case (Op_GetSlot a key)
  then obtain c where c: "h_classes h a = Some c" using s by (auto simp: bind_eq_Some_conv)
  then show ?thesis using class_reads [OF h c] Op_GetSlot s h by auto
next
  case (Op_GetMember i key)
  then obtain y where y: "h_instances h i = Some y" using s by (auto simp: bind_eq_Some_conv)
  then show ?thesis using inst_Get_law [OF h y, of key] Op_GetMember s h by (auto simp: ainst_of_def)
next
  case (Op_GetConstructor a)
  then obtain c where c: "h_classes h a = Some c" using s by (auto simp: bind_eq_Some_conv)
  then show ?thesis using class_reads [OF h c] Op_GetConstructor s h by auto
next
  case (Op_InstanceOf i a)
  then obtain y where y: "h_instances h i = Some y" using s by (auto simp: bind_eq_Some_conv)
  then show ?thesis using InstanceOf_law [OF h y, of a] Op_InstanceOf s h by (auto simp: ainst_of_def)
qed

interpretation classes: simulation "\<lambda>h. heap_ok h \<and> h_weak h = W" abs_heap class_step "spec_step W" for W
  by unfold_locales (use class_step_law in blast)

definition new_aheap :: "addr set \<Rightarrow> aheap" where
  "new_aheap C = \<lparr>ah_classes = Map.empty, ah_instances = Map.empty, ah_closures = C\<rparr>"

text \<open>
  C9. Classes and instances are dictionaries. Any sequence of class definitions, new slots,
  instance creations, clones, accesses, attributes and tests of the type, on a heap without classes
  and within the rules of the specification, is performed by the program with the outputs of the
  specification: a locked class gets no new fields, an instance has its own copy of the fields and
  the current methods of its class, and a derived class starts with the members of its base. No
  index leaves its vector, and the loops over the base classes end.
\<close>

theorem classes_refine_dictionaries:
  assumes "h_classes h = Map.empty" "h_instances h = Map.empty"
    and "run_ops (spec_step (h_weak h)) ops (new_aheap (dom (h_closures h))) = Some (outs, H)"
  shows "\<exists>h'. run_ops class_step ops h = Some (outs, h') \<and> heap_ok h' \<and> abs_heap h' = H"
proof -
  have h: "heap_ok h" using assms(1,2) by (simp add: heap_ok_def ranked_def base_of_def)
  have "abs_heap h = new_aheap (dom (h_closures h))" using assms(1,2) by (simp add: abs_heap_def new_aheap_def fun_eq_iff)
  then show ?thesis using classes.run_law [of h "h_weak h" ops outs H] h assms(3) by auto
qed

definition empty_heap :: sqheap where
  "empty_heap = \<lparr>h_tables = Map.empty, h_arrays = Map.empty, h_userdata = Map.empty, h_closures = Map.empty,
     h_classes = Map.empty, h_instances = Map.empty, h_weak = (\<lambda>_. VNull)\<rparr>"

lemma ancestors_self [simp]: "a \<in> ancestors H a"
  by (simp add: ancestors_def)

theorem classes_refine_dictionaries_witness:
  "\<exists>h. run_ops class_step
     [Op_NewClass None 8, Op_NewSlot 8 (VString ''x'') (VInteger 1) False 0, Op_CreateInstance 8 16,
      Op_SetMember 16 (VString ''x'') (VInteger 2), Op_GetMember 16 (VString ''x''), Op_GetSlot 8 (VString ''x''),
      Op_NewSlot 8 (VString ''y'') (VInteger 1) False 0] empty_heap =
     Some ([Out_Done, Out_Bool True, Out_Done, Out_Bool True, Out_Obj (Some (VInteger 2)), Out_Obj (Some (VInteger 1)), Out_Bool False], h)"
proof -
  let ?ops = "[Op_NewClass None 8, Op_NewSlot 8 (VString ''x'') (VInteger 1) False 0, Op_CreateInstance 8 16,
      Op_SetMember 16 (VString ''x'') (VInteger 2), Op_GetMember 16 (VString ''x''), Op_GetSlot 8 (VString ''x''),
      Op_NewSlot 8 (VString ''y'') (VInteger 1) False 0]"
  have "\<exists>H. run_ops (spec_step (h_weak empty_heap)) ?ops (new_aheap (dom (h_closures empty_heap))) =
     Some ([Out_Done, Out_Bool True, Out_Done, Out_Bool True, Out_Obj (Some (VInteger 2)), Out_Obj (Some (VInteger 1)), Out_Bool False], H)"
    by (simp add: new_aheap_def empty_heap_def upd_class_def upd_inst_def new_aclass_def spec_newslot_def is_function_def
        MEMBER_MAX_COUNT_def lock_classes_def field_defaults_def member_value_def slot_value_def realval_def domIff)
  then show ?thesis using classes_refine_dictionaries [of empty_heap ?ops] by (auto simp: empty_heap_def)
qed

end
