(* ===== verification/Sq_Access.thy ===== *)
theory Sq_Access
  imports Sq_ClassApi Sq_Lexer
begin

text \<open>
  Access to the slots of objects in the virtual machine (\<^verbatim>\<open>sqvm.cpp\<close>: \<open>Get\<close>, \<open>Set\<close>, \<open>NewSlot\<close>, \<open>NewSlotA\<close>,
  \<open>DeleteSlot\<close>, \<open>Clone\<close>, \<open>CLASS_OP\<close> and their fallbacks) and delegation (\<^verbatim>\<open>sqobject.cpp\<close>, \<^verbatim>\<open>sqapi.cpp\<close>).
  A table or a userdata may have a table as its delegate: slots that are not found in the
  object are looked for in the delegate, and the delegate holds the metamethods. The state is the
  heap and the last error. An operation returns \<open>Some (None, s)\<close> where the code returns
  false, and \<^const>\<open>None\<close> is undefined behaviour or a loop that does not end.
\<close>

section \<open>State and environment\<close>

record vmstate =
  vs_heap :: sqheap
  vs_lasterror :: sqobject

text \<open>
  What the operations take from the rest of the machine: the call of a function with its
  arguments, the tables of the default delegates, the root table of the running closure and that
  of the machine, and the allocator.
\<close>

record vmenv =
  ve_call :: "sqobject \<Rightarrow> sqobject list \<Rightarrow> vmstate \<Rightarrow> sqobject option \<times> vmstate"
  ve_ddel :: "sqtype \<Rightarrow> addr option"
  ve_root :: sqobject
  ve_roottable :: addr
  ve_alloc :: "sqheap \<Rightarrow> addr"

type_synonym 'a vmop = "vmstate \<Rightarrow> ('a option \<times> vmstate) option"

definition raise_error :: "vm_error \<Rightarrow> 'a vmop" where
  "raise_error e s = Some (None, s\<lparr>vs_lasterror := (case e of Raise_Error msg \<Rightarrow> VString msg | _ \<Rightarrow> vs_lasterror s)\<rparr>)"

definition on_heap :: "(sqheap \<Rightarrow> sqheap) \<Rightarrow> vmstate \<Rightarrow> vmstate" where
  "on_heap f s = s\<lparr>vs_heap := f (vs_heap s)\<rparr>"

definition set_table :: "addr \<Rightarrow> sqtable \<Rightarrow> sqheap \<Rightarrow> sqheap" where
  "set_table a t h = h\<lparr>h_tables := (h_tables h)(a \<mapsto> t)\<rparr>"

section \<open>Delegation\<close>

text \<open>\<open>_delegable(o)->_delegate\<close>: the delegate of an instance is the table of its class, which has no address of its own.\<close>

definition delegate_of :: "sqobject \<Rightarrow> sqheap \<Rightarrow> addr option option" where
  "delegate_of self h =
     (case self of
        VTable a \<Rightarrow> map_option tb_delegate (h_tables h a)
      | VUserData a \<Rightarrow> map_option ud_delegate (h_userdata h a)
      | _ \<Rightarrow> None)"

definition has_delegate :: "sqobject \<Rightarrow> sqheap \<Rightarrow> bool option" where
  "has_delegate self h =
     (case self of
        VInstance i \<Rightarrow> map_option (\<lambda>_. True) (h_instances h i)
      | _ \<Rightarrow> map_option (\<lambda>d. d \<noteq> None) (delegate_of self h))"

definition GetMetaMethod :: "sqobject \<Rightarrow> metamethod \<Rightarrow> sqheap \<Rightarrow> sqobject option option" where
  "GetMetaMethod self mm h =
     (case self of
        VInstance i \<Rightarrow> inst_GetMetaMethod i mm h
      | _ \<Rightarrow> do {
          d \<leftarrow> delegate_of self h;
          case d of
            None \<Rightarrow> Some None
          | Some a \<Rightarrow> do { t \<leftarrow> h_tables h a; table_Get (h_weak h) t (VString (metamethod_names ! mt_index mm)) }
        })"

text \<open>The loop of \<open>SetDelegate\<close>; it looks for the object among the delegates of the new delegate.\<close>

partial_function (option) finds_cycle :: "sqobject \<Rightarrow> addr option \<Rightarrow> sqheap \<Rightarrow> bool option" where
  "finds_cycle this temp h =
     (case temp of
        None \<Rightarrow> Some False
      | Some a \<Rightarrow> do {
          t \<leftarrow> h_tables h a;
          if map_option VTable (tb_delegate t) = Some this then Some True else finds_cycle this (tb_delegate t) h
        })"

definition put_delegate :: "sqobject \<Rightarrow> addr option \<Rightarrow> sqheap \<Rightarrow> sqheap option" where
  "put_delegate this mt h =
     (case this of
        VTable a \<Rightarrow> do { t \<leftarrow> h_tables h a; Some (set_table a (t\<lparr>tb_delegate := mt\<rparr>) h) }
      | VUserData a \<Rightarrow> do { u \<leftarrow> h_userdata h a; Some (h\<lparr>h_userdata := (h_userdata h)(a \<mapsto> u\<lparr>ud_delegate := mt\<rparr>)\<rparr>) }
      | _ \<Rightarrow> None)"

definition SetDelegate :: "sqobject \<Rightarrow> addr option \<Rightarrow> sqheap \<Rightarrow> (bool \<times> sqheap) option" where
  "SetDelegate this mt h =
     (if map_option VTable mt = Some this then Some (False, h)
      else do {
        c \<leftarrow> finds_cycle this mt h;
        if c then Some (False, h) else do { h \<leftarrow> put_delegate this mt h; Some (True, h) }
      })"

definition sq_aux_invalidtype :: "sqtype \<Rightarrow> vm_error" where
  "sq_aux_invalidtype type = Raise_Error (''unexpected type '' @ IdType2Name type)"

definition sq_setdelegate :: "sqobject \<Rightarrow> sqobject \<Rightarrow> unit api" where
  "sq_setdelegate self mt h =
     (case (self, mt) of
        (VTable _, VTable m) \<Rightarrow> do {
          (b, h) \<leftarrow> SetDelegate self (Some m) h;
          if b then push () h else throw ''delegate cycle'' h
        }
      | (VTable _, VNull) \<Rightarrow> do { (_, h) \<leftarrow> SetDelegate self None h; push () h }
      | (VUserData _, VTable m) \<Rightarrow> do { (_, h) \<leftarrow> SetDelegate self (Some m) h; push () h }
      | (VUserData _, VNull) \<Rightarrow> do { (_, h) \<leftarrow> SetDelegate self None h; push () h }
      | _ \<Rightarrow> Some (Inl (sq_aux_invalidtype (sq_type self)), h))"

definition sq_getdelegate :: "sqobject \<Rightarrow> sqobject api" where
  "sq_getdelegate self h =
     (if sq_type self = OT_TABLE \<or> sq_type self = OT_USERDATA then do {
        d \<leftarrow> delegate_of self h;
        push (case d of None \<Rightarrow> VNull | Some a \<Rightarrow> VTable a) h
      }
      else throw ''wrong type'' h)"

section \<open>Get\<close>

text \<open>The first part of \<open>Get\<close>: a slot is found, or not, or the index is wrong.\<close>

datatype access = Hit sqobject | Miss | BadIndex

definition access_of :: "sqobject option option \<Rightarrow> access option" where
  "access_of m = map_option (\<lambda>r. case r of Some v \<Rightarrow> Hit v | None \<Rightarrow> Miss) m"

definition string_index :: "string \<Rightarrow> i64 \<Rightarrow> access" where
  "string_index str n =
     (let len = of_nat (length str); n = (if n <s 0 then n + len else n)
      in if 0 \<le>s n \<and> n <s len then Hit (VInteger (schar_int (str ! unat n))) else BadIndex)"

definition direct_Get :: "sqobject \<Rightarrow> sqobject \<Rightarrow> sqheap \<Rightarrow> access option" where
  "direct_Get self key h =
     (case self of
        VTable a \<Rightarrow> do { t \<leftarrow> h_tables h a; access_of (table_Get (h_weak h) t key) }
      | VArray a \<Rightarrow>
          if sq_isnumeric (sq_type key) then do {
            v \<leftarrow> h_arrays h a;
            Some (case array_Get (h_weak h) (tointeger key) v of Some x \<Rightarrow> Hit x | None \<Rightarrow> BadIndex)
          }
          else Some Miss
      | VInstance i \<Rightarrow> access_of (inst_Get i key h)
      | VClass a \<Rightarrow> access_of (class_Get a key h)
      | VString str \<Rightarrow> if sq_isnumeric (sq_type key) then Some (string_index str (tointeger key)) else Some Miss
      | _ \<Rightarrow> Some Miss)"

definition ddel_type :: "sqobject \<Rightarrow> sqtype option" where
  "ddel_type self =
     (case sq_type self of
        OT_CLASS \<Rightarrow> Some OT_CLASS | OT_TABLE \<Rightarrow> Some OT_TABLE | OT_ARRAY \<Rightarrow> Some OT_ARRAY | OT_STRING \<Rightarrow> Some OT_STRING
      | OT_INSTANCE \<Rightarrow> Some OT_INSTANCE
      | OT_INTEGER \<Rightarrow> Some OT_INTEGER | OT_FLOAT \<Rightarrow> Some OT_INTEGER | OT_BOOL \<Rightarrow> Some OT_INTEGER
      | OT_GENERATOR \<Rightarrow> Some OT_GENERATOR | OT_CLOSURE \<Rightarrow> Some OT_CLOSURE | OT_NATIVECLOSURE \<Rightarrow> Some OT_CLOSURE
      | OT_THREAD \<Rightarrow> Some OT_THREAD | OT_WEAKREF \<Rightarrow> Some OT_WEAKREF
      | _ \<Rightarrow> None)"

definition InvokeDefaultDelegate :: "vmenv \<Rightarrow> sqobject \<Rightarrow> sqobject \<Rightarrow> sqheap \<Rightarrow> sqobject option option" where
  "InvokeDefaultDelegate E self key h =
     (case ddel_type self of
        None \<Rightarrow> Some None
      | Some ty \<Rightarrow> do { a \<leftarrow> ve_ddel E ty; t \<leftarrow> h_tables h a; table_Get (h_weak h) t key })"

text \<open>The results of the fallbacks.\<close>

datatype 'a fallback = FALLBACK_OK 'a | FALLBACK_NO_MATCH | FALLBACK_ERROR

text \<open>
  A metamethod of a fallback: it answers, it fails with an error, or it fails
  with the error null, which means that there is no such slot.
\<close>

definition fallback_meta :: "vmenv \<Rightarrow> sqobject \<Rightarrow> metamethod \<Rightarrow> sqobject list \<Rightarrow> vmstate \<Rightarrow> (sqobject fallback \<times> vmstate) option" where
  "fallback_meta E self mm args s = do {
     m \<leftarrow> GetMetaMethod self mm (vs_heap s);
     case m of
       None \<Rightarrow> Some (FALLBACK_NO_MATCH, s)
     | Some closure \<Rightarrow>
         (case ve_call E closure args s of
            (Some dest, s) \<Rightarrow> Some (FALLBACK_OK dest, s)
          | (None, s) \<Rightarrow> Some (if sq_type (vs_lasterror s) \<noteq> OT_NULL then FALLBACK_ERROR else FALLBACK_NO_MATCH, s))
   }"

definition FallBackGet :: "vmenv \<Rightarrow> (sqobject \<Rightarrow> sqobject vmop) \<Rightarrow> sqobject \<Rightarrow> sqobject \<Rightarrow> vmstate \<Rightarrow> (sqobject fallback \<times> vmstate) option" where
  "FallBackGet E get self key s =
     (if sq_type self = OT_TABLE \<or> sq_type self = OT_USERDATA then do {
        d \<leftarrow> delegate_of self (vs_heap s);
        case d of
          None \<Rightarrow> Some (FALLBACK_NO_MATCH, s)
        | Some a \<Rightarrow> do {
            (r, s) \<leftarrow> get (VTable a) s;
            case r of
              Some dest \<Rightarrow> Some (FALLBACK_OK dest, s)
            | None \<Rightarrow> fallback_meta E self MT_GET [self, key] s
          }
      }
      else if sq_type self = OT_INSTANCE then fallback_meta E self MT_GET [self, key] s
      else Some (FALLBACK_NO_MATCH, s))"

text \<open>
  \<open>Get\<close> with its flags: \<open>raw\<close> skips the fallbacks, \<open>quiet\<close> does not raise an error, and \<open>fall\<close> is
  the test \<open>selfidx == 0\<close>.
\<close>

lemma FallBackGet_mono [partial_function_mono]:
  assumes "\<And>a s. mono_option (\<lambda>f. get f a s)"
  shows "mono_option (\<lambda>f. FallBackGet E (get f) self key s)"
proof -
  have "mono_option (\<lambda>f. case d of
      None \<Rightarrow> Some (FALLBACK_NO_MATCH, s)
    | Some a \<Rightarrow> get f (VTable a) s \<bind> (\<lambda>(r, s). case r of
          Some dest \<Rightarrow> Some (FALLBACK_OK dest, s) | None \<Rightarrow> fallback_meta E self MT_GET [self, key] s))" for d
    by (cases d) (auto intro!: partial_function_mono assms)
  then show ?thesis unfolding FallBackGet_def by (intro partial_function_mono)
qed

partial_function (option) vm_Get :: "vmenv \<Rightarrow> sqobject \<Rightarrow> sqobject \<Rightarrow> bool \<Rightarrow> bool \<Rightarrow> bool \<Rightarrow> vmstate \<Rightarrow> (sqobject option \<times> vmstate) option" where
  "vm_Get E self key raw quiet fall s = do {
     r \<leftarrow> direct_Get self key (vs_heap s);
     case r of
       Hit dest \<Rightarrow> Some (Some dest, s)
     | BadIndex \<Rightarrow> if quiet then Some (None, s) else raise_error (Raise_IdxError key) s
     | Miss \<Rightarrow> do {
         (fb, s) \<leftarrow> (if raw then Some (FALLBACK_NO_MATCH, s)
                    else FallBackGet E (\<lambda>d. vm_Get E d key False True False) self key s);
         case fb of
           FALLBACK_OK dest \<Rightarrow> Some (Some dest, s)
         | FALLBACK_ERROR \<Rightarrow> Some (None, s)
         | FALLBACK_NO_MATCH \<Rightarrow> do {
             dd \<leftarrow> (if raw then Some None else InvokeDefaultDelegate E self key (vs_heap s));
             case dd of
               Some dest \<Rightarrow> Some (Some dest, s)
             | None \<Rightarrow> do {
                 (rt, s) \<leftarrow> (if fall \<and> sq_type (ve_root E) \<noteq> OT_NULL
                            then vm_Get E (ve_root E) key False False False s else Some (None, s));
                 case rt of
                   Some dest \<Rightarrow> Some (Some dest, s)
                 | None \<Rightarrow> if quiet then Some (None, s) else raise_error (Raise_IdxError key) s
               }
           }
       }
   }"

definition sq_get :: "vmenv \<Rightarrow> sqobject \<Rightarrow> sqobject \<Rightarrow> sqobject vmop" where
  "sq_get E self key s = vm_Get E self key False False False s"

section \<open>Set\<close>

datatype stored = Stored vmstate | Unset | SetFail vm_error

definition direct_Set :: "sqobject \<Rightarrow> sqobject \<Rightarrow> sqobject \<Rightarrow> vmstate \<Rightarrow> stored option" where
  "direct_Set self key val s =
     (let h = vs_heap s
      in case self of
        VTable a \<Rightarrow> do {
          t \<leftarrow> h_tables h a;
          (t, b) \<leftarrow> table_Set t key val;
          Some (if b then Stored (on_heap (set_table a t) s) else Unset)
        }
      | VInstance i \<Rightarrow> do {
          (b, h) \<leftarrow> inst_Set i key val h;
          Some (if b then Stored (s\<lparr>vs_heap := h\<rparr>) else Unset)
        }
      | VArray a \<Rightarrow>
          if \<not> sq_isnumeric (sq_type key) then Some (SetFail (Raise_Error (''indexing '' @ GetTypeName self @ '' with '' @ GetTypeName key)))
          else do {
            v \<leftarrow> h_arrays h a;
            Some (case array_Set (tointeger key) val v of
                (True, v) \<Rightarrow> Stored (s\<lparr>vs_heap := h\<lparr>h_arrays := (h_arrays h)(a \<mapsto> v)\<rparr>\<rparr>)
              | (False, _) \<Rightarrow> SetFail (Raise_IdxError key))
          }
      | VUserData _ \<Rightarrow> Some Unset
      | _ \<Rightarrow> Some (SetFail (Raise_Error (''trying to set '' @ quoted (GetTypeName self)))))"

definition FallBackSet :: "vmenv \<Rightarrow> (sqobject \<Rightarrow> unit vmop) \<Rightarrow> sqobject \<Rightarrow> sqobject \<Rightarrow> sqobject \<Rightarrow> vmstate \<Rightarrow> (sqobject fallback \<times> vmstate) option" where
  "FallBackSet E put self key val s = do {
     (r, s) \<leftarrow> (if sq_type self = OT_TABLE then do {
                  d \<leftarrow> delegate_of self (vs_heap s);
                  case d of None \<Rightarrow> Some (None, s) | Some a \<Rightarrow> put (VTable a) s
                }
                else Some (None, s));
     case r of
       Some _ \<Rightarrow> Some (FALLBACK_OK VNull, s)
     | None \<Rightarrow>
         if sq_type self = OT_TABLE \<or> sq_type self = OT_INSTANCE \<or> sq_type self = OT_USERDATA
         then fallback_meta E self MT_SET [self, key, val] s
         else Some (FALLBACK_NO_MATCH, s)
   }"

lemma FallBackSet_mono [partial_function_mono]:
  assumes "\<And>a s. mono_option (\<lambda>f. put f a s)"
  shows "mono_option (\<lambda>f. FallBackSet E (put f) self key val s)"
proof -
  have "mono_option (\<lambda>f. case d of None \<Rightarrow> Some (None, s) | Some a \<Rightarrow> put f (VTable a) s)" for d
    by (cases d) (auto intro!: partial_function_mono assms)
  then show ?thesis unfolding FallBackSet_def by (intro partial_function_mono)
qed

partial_function (option) vm_Set :: "vmenv \<Rightarrow> sqobject \<Rightarrow> sqobject \<Rightarrow> sqobject \<Rightarrow> bool \<Rightarrow> vmstate \<Rightarrow> (unit option \<times> vmstate) option" where
  "vm_Set E self key val fall s = do {
     r \<leftarrow> direct_Set self key val s;
     case r of
       Stored s \<Rightarrow> Some (Some (), s)
     | SetFail e \<Rightarrow> raise_error e s
     | Unset \<Rightarrow> do {
         (fb, s) \<leftarrow> FallBackSet E (\<lambda>d. vm_Set E d key val False) self key val s;
         case fb of
           FALLBACK_OK _ \<Rightarrow> Some (Some (), s)
         | FALLBACK_ERROR \<Rightarrow> Some (None, s)
         | FALLBACK_NO_MATCH \<Rightarrow>
             if fall then do {
               t \<leftarrow> h_tables (vs_heap s) (ve_roottable E);
               (t, b) \<leftarrow> table_Set t key val;
               if b then Some (Some (), on_heap (set_table (ve_roottable E) t) s) else raise_error (Raise_IdxError key) s
             }
             else raise_error (Raise_IdxError key) s
       }
   }"

definition sq_set :: "vmenv \<Rightarrow> sqobject \<Rightarrow> sqobject \<Rightarrow> sqobject \<Rightarrow> unit vmop" where
  "sq_set E self key val s = vm_Set E self key val False s"

section \<open>New slots\<close>

definition meta_with_delegate :: "sqobject \<Rightarrow> metamethod \<Rightarrow> sqheap \<Rightarrow> sqobject option option" where
  "meta_with_delegate self mm h = do {
     d \<leftarrow> has_delegate self h;
     if d then GetMetaMethod self mm h else Some None
   }"

definition new_table_slot :: "addr \<Rightarrow> sqobject \<Rightarrow> sqobject \<Rightarrow> unit vmop" where
  "new_table_slot a key val s = do {
     t \<leftarrow> h_tables (vs_heap s) a;
     (t, _) \<leftarrow> table_NewSlot t key val;
     Some (Some (), on_heap (set_table a t) s)
   }"

text \<open>The message with the whole key is cut at the end of the buffer of \<open>Raise_Error\<close>.\<close>

definition vm_NewSlot :: "vmenv \<Rightarrow> sqobject \<Rightarrow> sqobject \<Rightarrow> sqobject \<Rightarrow> bool \<Rightarrow> unit vmop" where
  "vm_NewSlot E self key val bstatic s =
     (if sq_type key = OT_NULL then raise_error (Raise_Error ''null cannot be used as index'') s
      else case self of
        VTable a \<Rightarrow> do {
          t \<leftarrow> h_tables (vs_heap s) a;
          present \<leftarrow> table_Get (h_weak (vs_heap s)) t key;
          closure \<leftarrow> (if tb_delegate t \<noteq> None \<and> present = None then meta_with_delegate self MT_NEWSLOT (vs_heap s) else Some None);
          case closure of
            Some f \<Rightarrow> (case ve_call E f [self, key, val] s of (r, s) \<Rightarrow> Some (map_option (\<lambda>_. ()) r, s))
          | None \<Rightarrow> new_table_slot a key val s
        }
      | VInstance i \<Rightarrow> do {
          closure \<leftarrow> meta_with_delegate self MT_NEWSLOT (vs_heap s);
          case closure of
            Some f \<Rightarrow> (case ve_call E f [self, key, val] s of (r, s) \<Rightarrow> Some (map_option (\<lambda>_. ()) r, s))
          | None \<Rightarrow> raise_error (Raise_Error ''class instances do not support the new slot operator'') s
        }
      | VClass a \<Rightarrow> do {
          (b, h) \<leftarrow> class_NewSlot a key val bstatic (ve_alloc E (vs_heap s)) (vs_heap s);
          c \<leftarrow> h_classes h a;
          let s = s\<lparr>vs_heap := h\<rparr>;
          if b then Some (Some (), s)
          else if c_locked c then raise_error (Raise_Error ''trying to modify a class that has already been instantiated'') s
          else raise_error (Raise_Error (take 131 (''the property '' @ quoted (zstring (PrintObjVal key)) @ '' already exists''))) s
        }
      | _ \<Rightarrow> raise_error (Raise_Error (''indexing '' @ GetTypeName self @ '' with '' @ GetTypeName key)) s)"

definition vm_NewSlotA :: "vmenv \<Rightarrow> sqobject \<Rightarrow> sqobject \<Rightarrow> sqobject \<Rightarrow> sqobject \<Rightarrow> bool \<Rightarrow> bool \<Rightarrow> unit vmop" where
  "vm_NewSlotA E self key val attrs bstatic raw s =
     (case self of
        VClass a \<Rightarrow> do {
          c \<leftarrow> h_classes (vs_heap s) a;
          mm \<leftarrow> vec_at (mt_index MT_NEWMEMBER) (c_metamethods c);
          if \<not> raw \<and> sq_type mm \<noteq> OT_NULL
          then (case ve_call E mm [self, key, val, attrs, VBool (if bstatic then 1 else 0)] s of (r, s) \<Rightarrow> Some (map_option (\<lambda>_. ()) r, s))
          else do {
            (r, s) \<leftarrow> vm_NewSlot E self key val bstatic s;
            case r of
              None \<Rightarrow> Some (None, s)
            | Some _ \<Rightarrow>
                if sq_type attrs \<noteq> OT_NULL then do {
                  (_, h) \<leftarrow> SetAttributes a key attrs (vs_heap s);
                  Some (Some (), s\<lparr>vs_heap := h\<rparr>)
                }
                else Some (Some (), s)
          }
        }
      | _ \<Rightarrow> raise_error (Raise_Error ''object must be a class'') s)"

definition sq_newslot :: "vmenv \<Rightarrow> sqobject \<Rightarrow> sqobject \<Rightarrow> sqobject \<Rightarrow> bool \<Rightarrow> unit vmop" where
  "sq_newslot E self key val bstatic s =
     (if sq_type self = OT_TABLE \<or> sq_type self = OT_CLASS then
        if sq_type key = OT_NULL then raise_error (Raise_Error ''null is not a valid key'') s
        else do { (_, s) \<leftarrow> vm_NewSlot E self key val bstatic s; Some (Some (), s) }
      else Some (Some (), s))"

text \<open>\<open>sq_newmember\<close> and \<open>sq_rawnewmember\<close>, which differ in the last argument.\<close>

definition newmember :: "vmenv \<Rightarrow> sqobject \<Rightarrow> sqobject \<Rightarrow> sqobject \<Rightarrow> sqobject \<Rightarrow> bool \<Rightarrow> bool \<Rightarrow> unit vmop" where
  "newmember E self key val attrs bstatic raw s =
     (if sq_type self \<noteq> OT_CLASS then raise_error (Raise_Error ''new member only works with classes'') s
      else if sq_type key = OT_NULL then raise_error (Raise_Error ''null key'') s
      else vm_NewSlotA E self key val attrs bstatic raw s)"

section \<open>Deleting and cloning\<close>

definition vm_DeleteSlot :: "vmenv \<Rightarrow> sqobject \<Rightarrow> sqobject \<Rightarrow> sqobject vmop" where
  "vm_DeleteSlot E self key s =
     (if sq_type self = OT_TABLE \<or> sq_type self = OT_INSTANCE \<or> sq_type self = OT_USERDATA then do {
        closure \<leftarrow> meta_with_delegate self MT_DELSLOT (vs_heap s);
        case closure of
          Some f \<Rightarrow> Some (ve_call E f [self, key] s)
        | None \<Rightarrow>
            (case self of
               VTable a \<Rightarrow> do {
                 t \<leftarrow> h_tables (vs_heap s) a;
                 r \<leftarrow> table_Get (h_weak (vs_heap s)) t key;
                 case r of
                   Some v \<Rightarrow> do { t \<leftarrow> table_Remove t key; Some (Some v, on_heap (set_table a t) s) }
                 | None \<Rightarrow> raise_error (Raise_IdxError key) s
               }
             | _ \<Rightarrow> raise_error (Raise_Error (''cannot delete a slot from '' @ GetTypeName self)) s)
      }
      else raise_error (Raise_Error (''attempt to delete a slot from a '' @ GetTypeName self)) s)"

definition sq_deleteslot :: "vmenv \<Rightarrow> sqobject \<Rightarrow> sqobject \<Rightarrow> sqobject vmop" where
  "sq_deleteslot E self key s =
     (if sq_type self \<noteq> OT_TABLE then raise_error (sq_aux_gettypedarg self OT_TABLE) s
      else if sq_type key = OT_NULL then raise_error (Raise_Error ''null is not a valid key'') s
      else vm_DeleteSlot E self key s)"

text \<open>\<open>Clone\<close>; the metamethod \<open>_cloned\<close> is called with the new object and the old one.\<close>

definition cloned_mt :: "vmenv \<Rightarrow> sqobject \<Rightarrow> sqobject \<Rightarrow> sqobject vmop" where
  "cloned_mt E newobj self s = do {
     closure \<leftarrow> meta_with_delegate newobj MT_CLONED (vs_heap s);
     case closure of
       None \<Rightarrow> Some (Some newobj, s)
     | Some f \<Rightarrow> (case ve_call E f [newobj, self] s of (r, s) \<Rightarrow> Some (map_option (\<lambda>_. newobj) r, s))
   }"

definition vm_Clone :: "vmenv \<Rightarrow> sqobject \<Rightarrow> sqobject vmop" where
  "vm_Clone E self s =
     (let h = vs_heap s; na = ve_alloc E h
      in case self of
        VTable a \<Rightarrow> do {
          t \<leftarrow> h_tables h a;
          t \<leftarrow> table_Clone t;
          cloned_mt E (VTable na) self (on_heap (set_table na t) s)
        }
      | VInstance i \<Rightarrow> do {
          h \<leftarrow> inst_Clone i na h;
          cloned_mt E (VInstance na) self (s\<lparr>vs_heap := h\<rparr>)
        }
      | VArray a \<Rightarrow> do {
          v \<leftarrow> h_arrays h a;
          v \<leftarrow> array_Clone v;
          Some (Some (VArray na), s\<lparr>vs_heap := h\<lparr>h_arrays := (h_arrays h)(na \<mapsto> v)\<rparr>\<rparr>)
        }
      | _ \<Rightarrow> raise_error (Raise_Error (''cloning a '' @ GetTypeName self)) s)"

section \<open>Class objects\<close>

text \<open>The instruction that makes a class; \<open>base\<close> and \<open>attributes\<close> are the values of the registers.\<close>

definition CLASS_OP :: "vmenv \<Rightarrow> sqobject option \<Rightarrow> sqobject option \<Rightarrow> sqobject vmop" where
  "CLASS_OP E baseclass attributes s =
     (let attrs = (case attributes of Some v \<Rightarrow> v | None \<Rightarrow> VNull); na = ve_alloc E (vs_heap s);
          make = (\<lambda>b. do {
            h \<leftarrow> class_Create b na (vs_heap s);
            c \<leftarrow> h_classes h na;
            mm \<leftarrow> vec_at (mt_index MT_INHERITED) (c_metamethods c);
            let s = s\<lparr>vs_heap := h\<rparr>;
            (ok, s) \<leftarrow> Some (if sq_type mm \<noteq> OT_NULL
                            then (case ve_call E mm [VClass na, attrs] s of (r, s) \<Rightarrow> (r \<noteq> None, s)) else (True, s));
            if \<not> ok then Some (None, s)
            else do {
              c \<leftarrow> h_classes (vs_heap s) na;
              Some (Some (VClass na), on_heap (set_class na (c\<lparr>c_attributes := attrs\<rparr>)) s)
            }
          })
      in case baseclass of
        None \<Rightarrow> make None
      | Some (VClass b) \<Rightarrow> make (Some b)
      | Some v \<Rightarrow> raise_error (Raise_Error (''trying to inherit from a '' @ GetTypeName v)) s)"

definition CreateClassInstance :: "vmenv \<Rightarrow> addr \<Rightarrow> vmstate \<Rightarrow> (sqobject \<times> sqobject \<times> vmstate) option" where
  "CreateClassInstance E theclass s = do {
     let na = ve_alloc E (vs_heap s);
     h \<leftarrow> CreateInstance theclass na (vs_heap s);
     ctor \<leftarrow> GetConstructor theclass h;
     Some (VInstance na, (case ctor of Some c \<Rightarrow> c | None \<Rightarrow> VNull), s\<lparr>vs_heap := h\<rparr>)
   }"

end
