(* ===== verification/Sq_Access_Correct.thy ===== *)
theory Sq_Access_Correct
  imports Sq_Access Sq_Class_Refines
begin

text \<open>
  Delegation never becomes cyclic, slots are read and written along the delegates, and every
  access returns and leaves a valid heap, whatever the metamethods do to a valid heap.
\<close>

section \<open>Delegates\<close>

lemma table_delegate [simp]:
  "table_inv (t\<lparr>tb_delegate := d\<rparr>) = table_inv t" "table_map (t\<lparr>tb_delegate := d\<rparr>) = table_map t"
  by (simp_all add: table_inv_def table_map_def)

definition deleg :: "sqheap \<Rightarrow> addr \<rightharpoonup> addr" where
  "deleg h a = h_tables h a \<bind> tb_delegate"

abbreviation drel :: "sqheap \<Rightarrow> (addr \<times> addr) set" where
  "drel h \<equiv> {(a, b). deleg h a = Some b}"

definition rank_of :: "(addr \<rightharpoonup> addr) \<Rightarrow> (addr \<Rightarrow> nat) \<Rightarrow> bool" where
  "rank_of d rank \<longleftrightarrow> (\<forall>a b. d a = Some b \<longrightarrow> rank b < rank a)"

definition deleg_ok :: "sqheap \<Rightarrow> bool" where
  "deleg_ok h \<longleftrightarrow> (\<forall>t \<in> ran (h_tables h). table_inv t) \<and> ran (deleg h) \<subseteq> dom (h_tables h) \<and> (\<exists>rank. rank_of (deleg h) rank) \<and>
     (\<forall>u \<in> ran (h_userdata h). set_option (ud_delegate u) \<subseteq> dom (h_tables h))"

lemma deleg_okD:
  assumes "deleg_ok h"
  shows "h_tables h a = Some t \<Longrightarrow> table_inv t" "h_tables h a = Some t \<Longrightarrow> tb_delegate t = Some b \<Longrightarrow> b \<in> dom (h_tables h)"
    "\<exists>rank. rank_of (deleg h) rank" "h_userdata h a = Some u \<Longrightarrow> ud_delegate u = Some b \<Longrightarrow> b \<in> dom (h_tables h)"
proof -
  show "h_tables h a = Some t \<Longrightarrow> table_inv t" "\<exists>rank. rank_of (deleg h) rank" using assms by (auto simp: deleg_ok_def ran_def)
  show "b \<in> dom (h_tables h)" if "h_tables h a = Some t" "tb_delegate t = Some b"
  proof -
    have "deleg h a = Some b" using that by (simp add: deleg_def)
    then show ?thesis using assms by (auto simp: deleg_ok_def intro: ranI)
  qed
  show "b \<in> dom (h_tables h)" if "h_userdata h a = Some u" "ud_delegate u = Some b"
  proof -
    have "u \<in> ran (h_userdata h)" using that(1) by (rule ranI)
    then show ?thesis using assms that(2) by (auto simp: deleg_ok_def)
  qed
qed

lemma rank_ofD: "rank_of (deleg h) rank \<Longrightarrow> h_tables h a = Some t \<Longrightarrow> tb_delegate t = Some b \<Longrightarrow> rank b < rank a"
  by (simp add: rank_of_def deleg_def)

lemma finds_cycle_law:
  assumes h: "deleg_ok h" and a: "a \<in> dom (h_tables h)"
  shows "finds_cycle this (Some a) h = Some (\<exists>b. this = VTable b \<and> (a, b) \<in> (drel h)\<^sup>+)"
proof -
  obtain rank where r: "rank_of (deleg h) rank" using deleg_okD(3) [OF h] by blast
  show ?thesis using a
  proof (induction "rank a" arbitrary: a rule: less_induct)
    case less
    obtain t where t: "h_tables h a = Some t" using less.prems by auto
    show ?case
    proof (cases "tb_delegate t")
      case None
      then have "deleg h a = None" using t by (simp add: deleg_def)
      then have "(a, b) \<notin> (drel h)\<^sup>+" for b by (auto elim: converse_tranclE)
      then show ?thesis using t None by (subst finds_cycle.simps) (simp add: finds_cycle.simps [of _ None])
    next
      case (Some d)
      then have ad: "deleg h a = Some d" using t by (simp add: deleg_def)
      have d: "d \<in> dom (h_tables h)" "rank d < rank a" using deleg_okD(2) [OF h t Some] rank_ofD [OF r t Some] by auto
      have "(a, b) \<in> (drel h)\<^sup>+ \<longleftrightarrow> b = d \<or> (d, b) \<in> (drel h)\<^sup>+" for b
        using ad by (auto elim: converse_tranclE intro: trancl_into_trancl2)
      then show ?thesis using less.hyps [OF d(2,1)] t Some by (subst finds_cycle.simps) auto
    qed
  qed
qed

text \<open>A new edge that closes no cycle keeps a rank.\<close>

lemma rank_of_upd:
  assumes "rank_of d rank" "(m, a) \<notin> {(x, y). d x = Some y}\<^sup>*"
  shows "\<exists>rank. rank_of (d(a \<mapsto> m)) rank"
proof -
  let ?R = "{(x, y). d x = Some y}"
  let ?rank = "\<lambda>x. rank x + (if (x, a) \<in> ?R\<^sup>* then Suc (rank m) else 0)"
  have "?rank y < ?rank x" if "(d(a \<mapsto> m)) x = Some y" for x y
  proof (cases "x = a")
    case True
    then show ?thesis using that assms(2) by simp
  next
    case False
    then have xy: "(x, y) \<in> ?R" "rank y < rank x" using that assms(1) by (auto simp: rank_of_def)
    have "(y, a) \<in> ?R\<^sup>* \<Longrightarrow> (x, a) \<in> ?R\<^sup>*" by (rule converse_rtrancl_into_rtrancl [OF xy(1)])
    then show ?thesis using xy(2) by auto
  qed
  then have "rank_of (d(a \<mapsto> m)) ?rank" unfolding rank_of_def by blast
  then show ?thesis by blast
qed

lemma rank_of_del: "rank_of d rank \<Longrightarrow> rank_of (d(a := None)) rank"
  by (simp add: rank_of_def)

lemma deleg_set_table: "h_tables h a = Some t0 \<Longrightarrow> deleg (set_table a t h) = (deleg h)(a := tb_delegate t)"
  by (auto simp: deleg_def set_table_def fun_eq_iff)

lemma set_table_deleg_ok:
  assumes h: "deleg_ok h" and a: "h_tables h a = Some t0" and t: "table_inv t"
    and r: "\<exists>rank. rank_of ((deleg h)(a := tb_delegate t)) rank" and d: "set_option (tb_delegate t) \<subseteq> dom (h_tables h)"
  shows "deleg_ok (set_table a t h)"
proof -
  let ?h = "set_table a t h"
  have dm: "dom (h_tables ?h) = dom (h_tables h)" "h_userdata ?h = h_userdata h" using a by (auto simp: set_table_def)
  have "\<forall>t \<in> ran (h_tables ?h). table_inv t" using deleg_okD(1) [OF h] t by (auto simp: ran_def set_table_def split: if_splits)
  moreover have "ran (deleg ?h) \<subseteq> dom (h_tables h)"
    using h d unfolding deleg_set_table [OF a] by (auto simp: deleg_ok_def ran_def split: if_splits)
  moreover have "\<exists>rank. rank_of (deleg ?h) rank" using r unfolding deleg_set_table [OF a] .
  ultimately show ?thesis using h by (simp add: deleg_ok_def dm)
qed

lemma SetDelegate_table:
  assumes h: "deleg_ok h" and a: "h_tables h a = Some t" and m: "set_option mt \<subseteq> dom (h_tables h)"
  shows "\<exists>h'. SetDelegate (VTable a) mt h = Some (\<not> (\<exists>m. mt = Some m \<and> (m, a) \<in> (drel h)\<^sup>*), h') \<and> deleg_ok h' \<and>
    h' = (if \<exists>m. mt = Some m \<and> (m, a) \<in> (drel h)\<^sup>* then h else set_table a (t\<lparr>tb_delegate := mt\<rparr>) h)"
proof -
  obtain rank where r: "rank_of (deleg h) rank" using deleg_okD(3) [OF h] by blast
  have ti: "table_inv (t\<lparr>tb_delegate := x\<rparr>)" for x using deleg_okD(1) [OF h a] by simp
  show ?thesis
  proof (cases mt)
    case None
    have "deleg_ok (set_table a (t\<lparr>tb_delegate := None\<rparr>) h)"
      using rank_of_del [OF r, of a] by (intro set_table_deleg_ok [OF h a ti]) auto
    then show ?thesis using a None by (simp add: SetDelegate_def put_delegate_def finds_cycle.simps [of _ None])
  next
    case (Some m)
    then have md: "m \<in> dom (h_tables h)" using m by simp
    have "(m, a) \<in> (drel h)\<^sup>* \<longleftrightarrow> m = a \<or> (m, a) \<in> (drel h)\<^sup>+" by (auto simp: rtrancl_eq_or_trancl)
    moreover have "deleg_ok (set_table a (t\<lparr>tb_delegate := Some m\<rparr>) h)" if "(m, a) \<notin> (drel h)\<^sup>*"
      using rank_of_upd [OF r that] md by (intro set_table_deleg_ok [OF h a ti]) auto
    ultimately show ?thesis using a Some finds_cycle_law [OF h md, of "VTable a"] h
      by (auto simp: SetDelegate_def put_delegate_def)
  qed
qed

lemma SetDelegate_userdata:
  assumes h: "deleg_ok h" and a: "h_userdata h a = Some u" and m: "set_option mt \<subseteq> dom (h_tables h)"
  shows "\<exists>h'. SetDelegate (VUserData a) mt h = Some (True, h') \<and> deleg_ok h'"
proof -
  let ?h = "h\<lparr>h_userdata := (h_userdata h)(a \<mapsto> u\<lparr>ud_delegate := mt\<rparr>)\<rparr>"
  have d: "deleg ?h = deleg h" by (simp add: deleg_def fun_eq_iff)
  have "deleg_ok ?h" using h m unfolding deleg_ok_def d by (auto simp: ran_def split: if_splits)
  moreover have "finds_cycle (VUserData a) mt h = Some False"
    using finds_cycle_law [OF h, of _ "VUserData a"] m by (cases mt) (auto simp: finds_cycle.simps [of _ None])
  ultimately show ?thesis using a by (cases mt) (simp_all add: SetDelegate_def put_delegate_def)
qed

section \<open>Valid states\<close>

fun obj_ok :: "sqheap \<Rightarrow> sqobject \<Rightarrow> bool" where
  "obj_ok h (VTable a) \<longleftrightarrow> a \<in> dom (h_tables h)"
| "obj_ok h (VArray a) \<longleftrightarrow> a \<in> dom (h_arrays h)"
| "obj_ok h (VUserData a) \<longleftrightarrow> a \<in> dom (h_userdata h)"
| "obj_ok h (VClass a) \<longleftrightarrow> a \<in> dom (h_classes h)"
| "obj_ok h (VInstance a) \<longleftrightarrow> a \<in> dom (h_instances h)"
| "obj_ok h _ \<longleftrightarrow> True"

definition vm_ok :: "vmenv \<Rightarrow> vmstate \<Rightarrow> bool" where
  "vm_ok E s \<longleftrightarrow> deleg_ok (vs_heap s) \<and> heap_ok (vs_heap s) \<and> obj_ok (vs_heap s) (ve_root E) \<and> ve_roottable E \<in> dom (h_tables (vs_heap s)) \<and>
     (\<forall>self ty. ddel_type self = Some ty \<longrightarrow> (\<exists>a. ve_ddel E ty = Some a \<and> a \<in> dom (h_tables (vs_heap s))))"

definition heap_grows :: "sqheap \<Rightarrow> sqheap \<Rightarrow> bool" where
  "heap_grows h h' \<longleftrightarrow> (\<forall>v. obj_ok h v \<longrightarrow> obj_ok h' v)"

text \<open>What is asked of the functions that metamethods call.\<close>

definition calls_keep :: "vmenv \<Rightarrow> bool" where
  "calls_keep E \<longleftrightarrow> (\<forall>f args s. vm_ok E s \<longrightarrow> vm_ok E (snd (ve_call E f args s)) \<and> heap_grows (vs_heap s) (vs_heap (snd (ve_call E f args s))))"

definition returns :: "vmenv \<Rightarrow> vmstate \<Rightarrow> ('a \<times> vmstate) option \<Rightarrow> bool" where
  "returns E s m \<longleftrightarrow> (\<exists>r s'. m = Some (r, s') \<and> vm_ok E s' \<and> heap_grows (vs_heap s) (vs_heap s'))"

lemma heap_grows_refl [simp]: "heap_grows h h"
  by (simp add: heap_grows_def)

lemma heap_grows_trans: "heap_grows h h' \<Longrightarrow> heap_grows h' h'' \<Longrightarrow> heap_grows h h''"
  by (simp add: heap_grows_def)

lemma returns_Some [simp]: "vm_ok E s \<Longrightarrow> returns E s (Some (r, s))"
  by (simp add: returns_def)

lemma returns_bind:
  assumes "returns E s m" "\<And>r s'. m = Some (r, s') \<Longrightarrow> vm_ok E s' \<Longrightarrow> heap_grows (vs_heap s) (vs_heap s') \<Longrightarrow> returns E s' (f (r, s'))"
  shows "returns E s (m \<bind> f)"
  using assms by (fastforce simp: returns_def intro: heap_grows_trans)

lemma returns_pure: "m = Some x \<Longrightarrow> returns E s (f x) \<Longrightarrow> returns E s (m \<bind> f)"
  by simp

lemma returns_raise [simp]: "vm_ok E s \<Longrightarrow> returns E s (raise_error e s)"
  by (simp add: returns_def raise_error_def vm_ok_def)

lemma returns_call:
  assumes "calls_keep E" "vm_ok E s" "ve_call E f args s = (r, s')"
  shows "vm_ok E s'" "heap_grows (vs_heap s) (vs_heap s')"
  using assms by (metis calls_keep_def snd_conv)+

lemma vm_okD:
  assumes "vm_ok E s"
  shows "deleg_ok (vs_heap s)" "heap_ok (vs_heap s)" "obj_ok (vs_heap s) (ve_root E)" "ve_roottable E \<in> dom (h_tables (vs_heap s))"
    "ddel_type self = Some ty \<Longrightarrow> \<exists>a. ve_ddel E ty = Some a \<and> a \<in> dom (h_tables (vs_heap s))"
  using assms by (auto simp: vm_ok_def)

text \<open>Reads of a valid heap.\<close>

lemma table_Get_ok: "deleg_ok h \<Longrightarrow> h_tables h a = Some t \<Longrightarrow> table_Get W t key = Some (map_option (realval W) (table_map t key))"
  by (rule Get_ok) (rule deleg_okD(1))

lemma delegate_of_ok:
  assumes "deleg_ok h" "obj_ok h self" "sq_type self = OT_TABLE \<or> sq_type self = OT_USERDATA"
  shows "\<exists>d. delegate_of self h = Some d \<and> set_option d \<subseteq> dom (h_tables h)"
proof (cases self)
  case (VTable a)
  then obtain t where "h_tables h a = Some t" using assms(2) by auto
  then show ?thesis using deleg_okD(2) [OF assms(1)] VTable by (fastforce simp: delegate_of_def elem_set)
next
  case (VUserData a)
  then obtain u where "h_userdata h a = Some u" using assms(2) by auto
  then show ?thesis using deleg_okD(4) [OF assms(1)] VUserData by (fastforce simp: delegate_of_def elem_set)
qed (use assms(3) in auto)

lemma GetMetaMethod_ok:
  assumes "deleg_ok h" "heap_ok h" "obj_ok h self" "sq_type self = OT_TABLE \<or> sq_type self = OT_USERDATA \<or> sq_type self = OT_INSTANCE"
  shows "\<exists>r. GetMetaMethod self mm h = Some r"
proof (cases "\<exists>i. self = VInstance i")
  case True
  then obtain i x where i: "self = VInstance i" "h_instances h i = Some x" using assms(3) by auto
  obtain c where c: "h_classes h (i_class x) = Some c" using heap_okD(3) [OF assms(2) i(2)] by (auto simp: inst_ok_def)
  have "length (c_metamethods c) = MT_LAST" using heap_okD(1) [OF assms(2) c] by (simp add: class_ok_def)
  moreover have "mt_index mm < MT_LAST" by (cases mm) (simp_all add: MT_LAST_def)
  ultimately show ?thesis using i c by (simp add: GetMetaMethod_def inst_GetMetaMethod_def vec_at_def)
next
  case False
  then have "sq_type self = OT_TABLE \<or> sq_type self = OT_USERDATA" using assms(4) by (cases self) auto
  then obtain d where d: "delegate_of self h = Some d" "set_option d \<subseteq> dom (h_tables h)" using delegate_of_ok [OF assms(1,3)] by blast
  have g: "GetMetaMethod self mm h = (case d of None \<Rightarrow> Some None
      | Some a \<Rightarrow> do { t \<leftarrow> h_tables h a; table_Get (h_weak h) t (VString (metamethod_names ! mt_index mm)) })"
    using d(1) False by (auto simp: GetMetaMethod_def split: sqobject.split)
  show ?thesis
  proof (cases d)
    case (Some a)
    then obtain t where "h_tables h a = Some t" using d(2) by auto
    then show ?thesis using g Some table_Get_ok [OF assms(1)] by simp
  qed (use g in simp)
qed

lemma direct_Get_ok:
  assumes "deleg_ok h" "heap_ok h" "obj_ok h self"
  shows "\<exists>r. direct_Get self key h = Some r"
proof (cases self)
  case (VTable a)
  then show ?thesis using assms table_Get_ok [OF assms(1)] by (auto simp: direct_Get_def access_of_def)
next
  case (VInstance i)
  then obtain x where "h_instances h i = Some x" using assms(3) by auto
  then show ?thesis using inst_Get_law [OF assms(2), of i x key] VInstance by (auto simp: direct_Get_def access_of_def)
next
  case (VClass a)
  then obtain c where "h_classes h a = Some c" using assms(3) by auto
  then show ?thesis using class_reads(2) [OF assms(2), of a c key] VClass by (auto simp: direct_Get_def access_of_def)
qed (use assms(3) in \<open>auto simp: direct_Get_def\<close>)

lemma InvokeDefaultDelegate_ok: "vm_ok E s \<Longrightarrow> \<exists>r. InvokeDefaultDelegate E self key (vs_heap s) = Some r"
proof (cases "ddel_type self")
  case (Some ty)
  assume s: "vm_ok E s"
  obtain a t where "ve_ddel E ty = Some a" "h_tables (vs_heap s) a = Some t" using vm_okD(5) [OF s Some] by auto
  then show ?thesis using Some table_Get_ok [OF vm_okD(1) [OF s]] by (simp add: InvokeDefaultDelegate_def)
qed (simp add: InvokeDefaultDelegate_def)

lemma fallback_meta_returns:
  assumes "calls_keep E" "vm_ok E s" "obj_ok (vs_heap s) self" "sq_type self = OT_TABLE \<or> sq_type self = OT_USERDATA \<or> sq_type self = OT_INSTANCE"
  shows "returns E s (fallback_meta E self mm args s)"
proof -
  obtain m where m: "GetMetaMethod self mm (vs_heap s) = Some m" using GetMetaMethod_ok [OF vm_okD(1,2) [OF assms(2)] assms(3,4)] by blast
  show ?thesis
  proof (cases m)
    case None
    then show ?thesis using m assms(2) by (simp add: fallback_meta_def)
  next
    case (Some f)
    obtain r s' where c: "ve_call E f args s = (r, s')" by force
    then show ?thesis using m Some returns_call [OF assms(1,2) c] by (cases r) (auto simp: fallback_meta_def returns_def)
  qed
qed

section \<open>Every access returns\<close>

lemma returns_fallback:
  assumes "vm_ok E s" "returns E s m"
  shows "returns E s (case fb of FALLBACK_OK d \<Rightarrow> Some (f d, s) | FALLBACK_ERROR \<Rightarrow> Some (x, s) | FALLBACK_NO_MATCH \<Rightarrow> m)"
  using assms by (cases fb) simp_all

lemma FallBackGet_returns:
  assumes c: "calls_keep E" and s: "vm_ok E s" "obj_ok (vs_heap s) self"
    and g: "\<And>a. delegate_of self (vs_heap s) = Some (Some a) \<Longrightarrow> returns E s (get (VTable a) s)"
  shows "returns E s (FallBackGet E get self key s)"
proof (cases "sq_type self = OT_TABLE \<or> sq_type self = OT_USERDATA")
  case True
  obtain d where d: "delegate_of self (vs_heap s) = Some d" using delegate_of_ok [OF vm_okD(1) [OF s(1)] s(2) True] by blast
  show ?thesis
  proof (cases d)
    case None
    then show ?thesis using True d s by (simp add: FallBackGet_def)
  next
    case (Some a)
    have "returns E s (get (VTable a) s \<bind> (\<lambda>(r, s). case r of Some dest \<Rightarrow> Some (FALLBACK_OK dest, s)
        | None \<Rightarrow> fallback_meta E self MT_GET [self, key] s))"
    proof (rule returns_bind)
      show "returns E s (get (VTable a) s)" using g d Some by simp
      fix r s' assume s': "vm_ok E s'" "heap_grows (vs_heap s) (vs_heap s')"
      then show "returns E s' (case (r, s') of (r, s) \<Rightarrow> case r of Some dest \<Rightarrow> Some (FALLBACK_OK dest, s)
          | None \<Rightarrow> fallback_meta E self MT_GET [self, key] s)"
        using fallback_meta_returns [OF c s'(1), of self] s(2) True by (cases r) (auto simp: heap_grows_def)
    qed
    then show ?thesis using True d Some by (simp add: FallBackGet_def)
  qed
next
  case False
  then show ?thesis using fallback_meta_returns [OF c s] s by (simp add: FallBackGet_def)
qed

text \<open>One level of \<open>Get\<close>, from what the recursive calls do.\<close>

lemma vm_Get_step:
  assumes c: "calls_keep E" and s: "vm_ok E s" "obj_ok (vs_heap s) self"
    and g: "\<And>a. delegate_of self (vs_heap s) = Some (Some a) \<Longrightarrow> returns E s (vm_Get E (VTable a) key False True False s)"
    and rt: "\<And>s'. fall \<Longrightarrow> vm_ok E s' \<Longrightarrow> returns E s' (vm_Get E (ve_root E) key False False False s')"
  shows "returns E s (vm_Get E self key raw quiet fall s)"
proof -
  obtain r where r: "direct_Get self key (vs_heap s) = Some r" using direct_Get_ok [OF vm_okD(1,2) [OF s(1)] s(2)] by blast
  let ?tail = "\<lambda>s. do {
      (rt, s) \<leftarrow> (if fall \<and> sq_type (ve_root E) \<noteq> OT_NULL then vm_Get E (ve_root E) key False False False s else Some (None, s));
      case rt of Some dest \<Rightarrow> Some (Some dest, s) | None \<Rightarrow> if quiet then Some (None, s) else raise_error (Raise_IdxError key) s }"
  let ?mid = "\<lambda>s. do {
      dd \<leftarrow> (if raw then Some None else InvokeDefaultDelegate E self key (vs_heap s));
      case dd of Some dest \<Rightarrow> Some (Some dest, s) | None \<Rightarrow> ?tail s }"
  let ?fb = "if raw then Some (FALLBACK_NO_MATCH, s) else FallBackGet E (\<lambda>d. vm_Get E d key False True False) self key s"
  let ?miss = "do {
      (fb, s) \<leftarrow> ?fb;
      case fb of FALLBACK_OK dest \<Rightarrow> Some (Some dest, s) | FALLBACK_ERROR \<Rightarrow> Some (None, s) | FALLBACK_NO_MATCH \<Rightarrow> ?mid s }"
  have eq: "vm_Get E self key raw quiet fall s = do {
      r \<leftarrow> direct_Get self key (vs_heap s);
      case r of Hit dest \<Rightarrow> Some (Some dest, s) | BadIndex \<Rightarrow> if quiet then Some (None, s) else raise_error (Raise_IdxError key) s
      | Miss \<Rightarrow> ?miss }"
    by (rule vm_Get.simps)
  have tail: "returns E s' (?tail s')" if "vm_ok E s'" for s'
    using that rt [of s'] by (intro returns_bind) (auto split: option.split)
  have mid: "returns E s' (?mid s')" if s': "vm_ok E s'" for s'
  proof -
    obtain dd where "(if raw then Some None else InvokeDefaultDelegate E self key (vs_heap s')) = Some dd"
      using InvokeDefaultDelegate_ok [OF s', of self key] by (cases raw) auto
    then show ?thesis using tail [OF s'] s' by (cases dd) simp_all
  qed
  have "returns E s (FallBackGet E (\<lambda>d. vm_Get E d key False True False) self key s)" by (rule FallBackGet_returns [OF c s]) (rule g)
  then have fb: "returns E s ?fb" using s by simp
  have "returns E s ?miss"
  proof (rule returns_bind [OF fb])
    fix fb s' assume s': "vm_ok E s'"
    show "returns E s' (case (fb, s') of (fb, s) \<Rightarrow>
        case fb of FALLBACK_OK dest \<Rightarrow> Some (Some dest, s) | FALLBACK_ERROR \<Rightarrow> Some (None, s) | FALLBACK_NO_MATCH \<Rightarrow> ?mid s)"
      unfolding prod.case by (rule returns_fallback [OF s' mid [OF s']])
  qed
  then show ?thesis unfolding eq r using s(1) by (cases r) simp_all
qed

lemma vm_Get_table_returns:
  assumes c: "calls_keep E" and s: "vm_ok E s" and a: "a \<in> dom (h_tables (vs_heap s))"
  shows "returns E s (vm_Get E (VTable a) key raw quiet False s)"
proof -
  obtain rank where r: "rank_of (deleg (vs_heap s)) rank" using deleg_okD(3) [OF vm_okD(1) [OF s]] by blast
  show ?thesis using a
  proof (induction "rank a" arbitrary: a raw quiet rule: less_induct)
    case less
    obtain t where t: "h_tables (vs_heap s) a = Some t" using less.prems by auto
    show ?case
    proof (rule vm_Get_step [OF c s])
      fix d assume "delegate_of (VTable a) (vs_heap s) = Some (Some d)"
      then have d: "tb_delegate t = Some d" using t by (simp add: delegate_of_def)
      show "returns E s (vm_Get E (VTable d) key False True False s)"
        by (rule less.hyps [OF rank_ofD [OF r t d] deleg_okD(2) [OF vm_okD(1) [OF s] t d]])
    qed (use less.prems in auto)
  qed
qed

lemma vm_Get_returns:
  assumes "calls_keep E" "vm_ok E s" "obj_ok (vs_heap s) self"
  shows "returns E s (vm_Get E self key raw quiet fall s)"
proof -
  have f: "returns E s (vm_Get E self key raw quiet False s)" if s: "vm_ok E s" "obj_ok (vs_heap s) self" for self raw quiet s
  proof (rule vm_Get_step [OF assms(1) s])
    fix d assume d: "delegate_of self (vs_heap s) = Some (Some d)"
    then have "sq_type self = OT_TABLE \<or> sq_type self = OT_USERDATA" by (cases self) (auto simp: delegate_of_def)
    then have "d \<in> dom (h_tables (vs_heap s))" using delegate_of_ok [OF vm_okD(1) [OF s(1)] s(2)] d by auto
    then show "returns E s (vm_Get E (VTable d) key False True False s)" by (rule vm_Get_table_returns [OF assms(1) s(1)])
  qed simp
  show ?thesis
  proof (rule vm_Get_step [OF assms])
    fix d assume d: "delegate_of self (vs_heap s) = Some (Some d)"
    then have "sq_type self = OT_TABLE \<or> sq_type self = OT_USERDATA" by (cases self) (auto simp: delegate_of_def)
    then have "d \<in> dom (h_tables (vs_heap s))" using delegate_of_ok [OF vm_okD(1) [OF assms(2)] assms(3)] d by auto
    then show "returns E s (vm_Get E (VTable d) key False True False s)" by (rule vm_Get_table_returns [OF assms(1,2)])
  next
    fix s' assume "vm_ok E s'"
    then show "returns E s' (vm_Get E (ve_root E) key False False False s')" using f vm_okD(3) by blast
  qed
qed

subsection \<open>Set\<close>

lemma deleg_frame: "h_tables h' = h_tables h \<Longrightarrow> h_userdata h' = h_userdata h \<Longrightarrow> deleg_ok h' = deleg_ok h"
  by (simp add: deleg_ok_def deleg_def fun_eq_iff rank_of_def ran_def dom_def)

lemma heap_frame:
  "h_classes h' = h_classes h \<Longrightarrow> h_instances h' = h_instances h \<Longrightarrow> heap_ok h' = heap_ok h"
  by (simp add: heap_ok_def ranked_def base_of_def inst_ok_def)

lemma frame_simps [simp]:
  "deleg_ok (set_instance i x h) = deleg_ok h" "deleg_ok (set_class a c h) = deleg_ok h" "deleg_ok (h\<lparr>h_arrays := f\<rparr>) = deleg_ok h"
  "deleg_ok (h\<lparr>h_closures := g\<rparr>) = deleg_ok h" "heap_ok (h\<lparr>h_arrays := f\<rparr>) = heap_ok h" "heap_ok (set_table b t h) = heap_ok h"
  by (rule deleg_frame heap_frame; simp add: set_instance_def set_class_def set_table_def)+

lemma vm_ok_upd:
  assumes "vm_ok E s" "deleg_ok h" "heap_ok h" "heap_grows (vs_heap s) h"
  shows "vm_ok E (s\<lparr>vs_heap := h\<rparr>)"
  using assms unfolding vm_ok_def heap_grows_def by (metis (no_types, lifting) obj_ok.simps(1) vmstate.select_convs(1) vmstate.surjective vmstate.update_convs(1))

lemma set_slot_ok:
  assumes s: "vm_ok E s" and a: "h_tables (vs_heap s) a = Some t" and t: "table_inv t'" "tb_delegate t' = tb_delegate t"
  shows "vm_ok E (on_heap (set_table a t') s)" "heap_grows (vs_heap s) (vs_heap (on_heap (set_table a t') s))"
proof -
  let ?h = "vs_heap s"
  have g: "heap_grows ?h (set_table a t' ?h)"
  proof -
    have "obj_ok ?h v \<Longrightarrow> obj_ok (set_table a t' ?h) v" for v by (cases v) (auto simp: set_table_def)
    then show ?thesis by (simp add: heap_grows_def)
  qed
  have d: "(deleg ?h)(a := tb_delegate t') = deleg ?h" using a t by (simp add: deleg_def fun_eq_iff)
  have "set_option (tb_delegate t') \<subseteq> dom (h_tables ?h)" using deleg_okD(2) [OF vm_okD(1) [OF s] a] t(2) by (auto simp: elem_set)
  then have "deleg_ok (set_table a t' ?h)" using deleg_okD(3) [OF vm_okD(1) [OF s]] d by (intro set_table_deleg_ok [OF vm_okD(1) [OF s] a t(1)]) simp_all
  moreover have "heap_ok (set_table a t' ?h)" using vm_okD(2) [OF s] by simp
  ultimately show "vm_ok E (on_heap (set_table a t') s)" using g unfolding on_heap_def by (intro vm_ok_upd [OF s])
  show "heap_grows ?h (vs_heap (on_heap (set_table a t') s))" using g by (simp add: on_heap_def)
qed

lemma inst_Set_ok:
  assumes s: "vm_ok E s" and i: "h_instances (vs_heap s) i = Some x"
  shows "\<exists>b h. inst_Set i key val (vs_heap s) = Some (b, h) \<and> vm_ok E (s\<lparr>vs_heap := h\<rparr>) \<and> heap_grows (vs_heap s) h"
proof -
  obtain b h where r: "inst_Set i key val (vs_heap s) = Some (b, h)" "heap_ok h"
    using inst_Set_law [OF vm_okD(2) [OF s] i, of key val] by (auto simp: performs_def split: if_splits)
  then have same: "h = vs_heap s \<or> (\<exists>y. h = set_instance i y (vs_heap s))"
    by (auto simp: inst_Set_def bind_eq_Some_conv split: option.splits if_splits)
  then have "deleg_ok h" using vm_okD(1) [OF s] by auto
  moreover have "heap_grows (vs_heap s) h"
  proof -
    have "obj_ok (vs_heap s) v \<Longrightarrow> obj_ok h v" for v using same by (cases v) (auto simp: set_instance_def)
    then show ?thesis by (simp add: heap_grows_def)
  qed
  ultimately show ?thesis using r vm_ok_upd [OF s _ r(2)] by blast
qed

lemma direct_Set_ok:
  assumes s: "vm_ok E s" and o: "obj_ok (vs_heap s) self" and k: "key \<noteq> VNull"
  shows "\<exists>r. direct_Set self key val s = Some r \<and> (\<forall>s'. r = Stored s' \<longrightarrow> vm_ok E s' \<and> heap_grows (vs_heap s) (vs_heap s'))"
proof (cases self)
  case (VTable a)
  then obtain t where t: "h_tables (vs_heap s) a = Some t" using o by auto
  obtain t' where t': "table_Set t key val = Some (t', key \<in> dom (table_map t))" "table_inv t'" "tb_delegate t' = tb_delegate t"
    using Set_ok [OF deleg_okD(1) [OF vm_okD(1) [OF s] t] k, of val] by blast
  then show ?thesis using VTable t set_slot_ok [OF s t t'(2,3)] by (auto simp: direct_Set_def)
next
  case (VInstance i)
  then obtain x where x: "h_instances (vs_heap s) i = Some x" using o by auto
  show ?thesis using inst_Set_ok [OF s x, of key val] VInstance by (auto simp: direct_Set_def)
next
  case (VArray a)
  then obtain v where v: "h_arrays (vs_heap s) a = Some v" using o by auto
  let ?h = "\<lambda>v'. (vs_heap s)\<lparr>h_arrays := (h_arrays (vs_heap s))(a \<mapsto> v')\<rparr>"
  have g: "heap_grows (vs_heap s) (?h v')" for v'
  proof -
    have "obj_ok (vs_heap s) w \<Longrightarrow> obj_ok (?h v') w" for w by (cases w) auto
    then show ?thesis by (simp add: heap_grows_def)
  qed
  have "vm_ok E (s\<lparr>vs_heap := ?h v'\<rparr>)" for v'
    using vm_okD(1,2) [OF s] by (intro vm_ok_upd [OF s _ _ g]) simp_all
  moreover obtain b v' where "array_Set (tointeger key) val v = (b, v')" by force
  ultimately show ?thesis using VArray v g by (cases b; cases "sq_isnumeric (sq_type key)") (simp_all add: direct_Set_def Let_def)
qed (auto simp: direct_Set_def)

lemma FallBackSet_returns:
  assumes c: "calls_keep E" and s: "vm_ok E s" "obj_ok (vs_heap s) self"
    and g: "\<And>a. sq_type self = OT_TABLE \<Longrightarrow> delegate_of self (vs_heap s) = Some (Some a) \<Longrightarrow> returns E s (put (VTable a) s)"
  shows "returns E s (FallBackSet E put self key val s)"
  unfolding FallBackSet_def
proof (rule returns_bind)
  show "returns E s (if sq_type self = OT_TABLE then do {
          d \<leftarrow> delegate_of self (vs_heap s);
          case d of None \<Rightarrow> Some (None, s) | Some a \<Rightarrow> put (VTable a) s
        }
        else Some (None, s))"
  proof (cases "sq_type self = OT_TABLE")
    case True
    obtain d where d: "delegate_of self (vs_heap s) = Some d" using delegate_of_ok [OF vm_okD(1) [OF s(1)] s(2)] True by blast
    then show ?thesis using True g s by (cases d) simp_all
  qed (use s in simp)
next
  fix r s' assume s': "vm_ok E s'" "heap_grows (vs_heap s) (vs_heap s')"
  then have "obj_ok (vs_heap s') self" using s(2) by (simp add: heap_grows_def)
  then show "returns E s' (case (r, s') of (r, s) \<Rightarrow> case r of
       Some _ \<Rightarrow> Some (FALLBACK_OK VNull, s)
     | None \<Rightarrow>
         if sq_type self = OT_TABLE \<or> sq_type self = OT_INSTANCE \<or> sq_type self = OT_USERDATA
         then fallback_meta E self MT_SET [self, key, val] s
         else Some (FALLBACK_NO_MATCH, s))"
    using fallback_meta_returns [OF c s'(1), of self] s' by (cases r) auto
qed

lemma vm_Set_step:
  assumes c: "calls_keep E" and s: "vm_ok E s" "obj_ok (vs_heap s) self" and k: "key \<noteq> VNull"
    and g: "\<And>a. sq_type self = OT_TABLE \<Longrightarrow> delegate_of self (vs_heap s) = Some (Some a) \<Longrightarrow> returns E s (vm_Set E (VTable a) key val False s)"
  shows "returns E s (vm_Set E self key val fall s)"
proof -
  obtain r where r: "direct_Set self key val s = Some r" "\<And>s'. r = Stored s' \<Longrightarrow> vm_ok E s' \<and> heap_grows (vs_heap s) (vs_heap s')"
    using direct_Set_ok [OF s k, of val] by blast
  let ?root = "\<lambda>s. if fall then do {
      t \<leftarrow> h_tables (vs_heap s) (ve_roottable E);
      (t, b) \<leftarrow> table_Set t key val;
      if b then Some (Some (), on_heap (set_table (ve_roottable E) t) s) else raise_error (Raise_IdxError key) s
    } else raise_error (Raise_IdxError key) s"
  let ?unset = "do {
      (fb, s) \<leftarrow> FallBackSet E (\<lambda>d. vm_Set E d key val False) self key val s;
      case fb of FALLBACK_OK _ \<Rightarrow> Some (Some (), s) | FALLBACK_ERROR \<Rightarrow> Some (None, s) | FALLBACK_NO_MATCH \<Rightarrow> ?root s }"
  have eq: "vm_Set E self key val fall s = do {
      r \<leftarrow> direct_Set self key val s;
      case r of Stored s \<Rightarrow> Some (Some (), s) | SetFail e \<Rightarrow> raise_error e s | Unset \<Rightarrow> ?unset }"
    by (rule vm_Set.simps)
  have root: "returns E s' (?root s')" if s': "vm_ok E s'" for s'
  proof -
    obtain t where t: "h_tables (vs_heap s') (ve_roottable E) = Some t" using vm_okD(4) [OF s'] by auto
    obtain t' where t': "table_Set t key val = Some (t', key \<in> dom (table_map t))" "table_inv t'" "tb_delegate t' = tb_delegate t"
      using Set_ok [OF deleg_okD(1) [OF vm_okD(1) [OF s'] t] k, of val] by blast
    then show ?thesis using t set_slot_ok [OF s' t t'(2,3)] s' by (auto simp: returns_def raise_error_def vm_ok_def)
  qed
  have "returns E s ?unset"
  proof (rule returns_bind)
    show "returns E s (FallBackSet E (\<lambda>d. vm_Set E d key val False) self key val s)" by (rule FallBackSet_returns [OF c s]) (rule g)
    fix fb s' assume s': "vm_ok E s'"
    show "returns E s' (case (fb, s') of (fb, s) \<Rightarrow>
        case fb of FALLBACK_OK _ \<Rightarrow> Some (Some (), s) | FALLBACK_ERROR \<Rightarrow> Some (None, s) | FALLBACK_NO_MATCH \<Rightarrow> ?root s)"
      unfolding prod.case by (rule returns_fallback [OF s' root [OF s']])
  qed
  then show ?thesis unfolding eq r(1) bind.bind_lunit using s(1) r(2) by (cases r) (auto simp: returns_def raise_error_def vm_ok_def)
qed

lemma vm_Set_returns:
  assumes c: "calls_keep E" and s: "vm_ok E s" and o: "obj_ok (vs_heap s) self" and k: "key \<noteq> VNull"
  shows "returns E s (vm_Set E self key val fall s)"
proof -
  obtain rank where r: "rank_of (deleg (vs_heap s)) rank" using deleg_okD(3) [OF vm_okD(1) [OF s]] by blast
  have tab: "returns E s (vm_Set E (VTable a) key val False s)" if "a \<in> dom (h_tables (vs_heap s))" for a
    using that
  proof (induction "rank a" arbitrary: a rule: less_induct)
    case less
    obtain t where t: "h_tables (vs_heap s) a = Some t" using less.prems by auto
    show ?case
    proof (rule vm_Set_step [OF c s _ k])
      fix d assume "delegate_of (VTable a) (vs_heap s) = Some (Some d)"
      then have d: "tb_delegate t = Some d" using t by (simp add: delegate_of_def)
      show "returns E s (vm_Set E (VTable d) key val False s)"
        by (rule less.hyps [OF rank_ofD [OF r t d] deleg_okD(2) [OF vm_okD(1) [OF s] t d]])
    qed (use less.prems in auto)
  qed
  show ?thesis
  proof (rule vm_Set_step [OF c s o k])
    fix d assume d: "sq_type self = OT_TABLE" "delegate_of self (vs_heap s) = Some (Some d)"
    then have "d \<in> dom (h_tables (vs_heap s))" using delegate_of_ok [OF vm_okD(1) [OF s] o] by auto
    then show "returns E s (vm_Set E (VTable d) key val False s)" by (rule tab)
  qed
qed

section \<open>Access along the delegates\<close>

text \<open>The tables from an object to the end of its delegates, and the slot that the first of them has.\<close>

inductive delegate_path :: "sqheap \<Rightarrow> addr \<Rightarrow> addr list \<Rightarrow> bool" for h where
  path_end: "h_tables h a = Some t \<Longrightarrow> tb_delegate t = None \<Longrightarrow> delegate_path h a [a]"
| path_more: "h_tables h a = Some t \<Longrightarrow> tb_delegate t = Some b \<Longrightarrow> delegate_path h b as \<Longrightarrow> delegate_path h a (a # as)"

inductive_cases path_singleE: "delegate_path h a [b]"
inductive_cases path_consE: "delegate_path h a (b # c # as)"

definition slots_at :: "sqheap \<Rightarrow> addr \<Rightarrow> sqobject \<rightharpoonup> sqobject" where
  "slots_at h a = (case h_tables h a of Some t \<Rightarrow> table_map t | None \<Rightarrow> Map.empty)"

definition has_slot :: "sqheap \<Rightarrow> sqobject \<Rightarrow> addr \<Rightarrow> bool" where
  "has_slot h key a \<longleftrightarrow> slots_at h a key \<noteq> None"

definition no_meta :: "sqheap \<Rightarrow> metamethod \<Rightarrow> addr list \<Rightarrow> bool" where
  "no_meta h mm as \<longleftrightarrow> (\<forall>a \<in> set (tl as). \<not> has_slot h (VString (metamethod_names ! mt_index mm)) a)"

lemma path_exists:
  assumes "deleg_ok h" "a \<in> dom (h_tables h)"
  shows "\<exists>as. delegate_path h a as"
proof -
  obtain rank where r: "rank_of (deleg h) rank" using deleg_okD(3) [OF assms(1)] by blast
  show ?thesis using assms(2)
  proof (induction "rank a" arbitrary: a rule: less_induct)
    case less
    obtain t where t: "h_tables h a = Some t" using less.prems by auto
    show ?case
    proof (cases "tb_delegate t")
      case None
      then show ?thesis using path_end [OF t] by blast
    next
      case (Some b)
      then show ?thesis using less.hyps [OF rank_ofD [OF r t Some] deleg_okD(2) [OF assms(1) t Some]] path_more [OF t Some] by blast
    qed
  qed
qed

lemma path_not_nil: "delegate_path h a as \<Longrightarrow> as \<noteq> [] \<and> hd as = a"
  by (cases rule: delegate_path.cases) auto

lemma GetMetaMethod_table:
  assumes "deleg_ok h" "h_tables h a = Some t"
  shows "GetMetaMethod (VTable a) mm h = (case tb_delegate t of
      None \<Rightarrow> Some None
    | Some b \<Rightarrow> Some (map_option (realval (h_weak h)) (slots_at h b (VString (metamethod_names ! mt_index mm)))))"
proof (cases "tb_delegate t")
  case (Some b)
  then obtain t' where "h_tables h b = Some t'" using deleg_okD(2) [OF assms] by auto
  then show ?thesis using assms Some table_Get_ok [OF assms(1)] by (simp add: GetMetaMethod_def delegate_of_def slots_at_def)
qed (use assms in \<open>simp add: GetMetaMethod_def delegate_of_def\<close>)

text \<open>The answer of \<open>Get\<close> when no delegate has the metamethod.\<close>

definition get_answer :: "vmenv \<Rightarrow> addr list \<Rightarrow> sqobject \<Rightarrow> bool \<Rightarrow> vmstate \<Rightarrow> (sqobject option \<times> vmstate) option" where
  "get_answer E as key quiet s =
     (let h = vs_heap s
      in case List.find (has_slot h key) (as @ [the (ve_ddel E OT_TABLE)]) of
        Some a \<Rightarrow> Some (map_option (realval (h_weak h)) (slots_at h a key), s)
      | None \<Rightarrow> if quiet then Some (None, s) else raise_error (Raise_IdxError key) s)"

lemma default_table:
  assumes "vm_ok E s"
  shows "InvokeDefaultDelegate E (VTable a) key (vs_heap s) =
    Some (map_option (realval (h_weak (vs_heap s))) (slots_at (vs_heap s) (the (ve_ddel E OT_TABLE)) key))"
proof -
  obtain d t where "ve_ddel E OT_TABLE = Some d" "h_tables (vs_heap s) d = Some t"
    using vm_okD(5) [OF assms, of "VTable a" OT_TABLE] by (auto simp: ddel_type_def)
  then show ?thesis using table_Get_ok [OF vm_okD(1) [OF assms]] by (simp add: InvokeDefaultDelegate_def ddel_type_def slots_at_def)
qed

lemma direct_Get_table:
  assumes "deleg_ok h" "h_tables h a = Some t"
  shows "direct_Get (VTable a) key h = Some (case slots_at h a key of Some v \<Rightarrow> Hit (realval (h_weak h) v) | None \<Rightarrow> Miss)"
  using assms by (simp add: direct_Get_def table_Get_ok [OF assms] access_of_def slots_at_def split: option.split)

lemma vm_Get_path:
  assumes s: "vm_ok E s"
  shows "delegate_path (vs_heap s) a as \<Longrightarrow> no_meta (vs_heap s) MT_GET as \<Longrightarrow>
    vm_Get E (VTable a) key False quiet False s = get_answer E as key quiet s"
proof (induction arbitrary: quiet rule: delegate_path.induct)
  case (path_end a t)
  then show ?case
    by (subst vm_Get.simps) (simp add: direct_Get_table [OF vm_okD(1) [OF s]] FallBackGet_def delegate_of_def default_table [OF s]
        get_answer_def has_slot_def Let_def split: option.split)
next
  case (path_more a t b as)
  have nm: "no_meta (vs_heap s) MT_GET as" "\<not> has_slot (vs_heap s) (VString (metamethod_names ! mt_index MT_GET)) b"
    using path_more.prems path_not_nil [OF path_more.hyps(3)] by (cases as; auto simp: no_meta_def)+
  have m: "fallback_meta E (VTable a) MT_GET [VTable a, key] s = Some (FALLBACK_NO_MATCH, s)"
    using nm(2) path_more.hyps(1,2) by (simp add: fallback_meta_def GetMetaMethod_table [OF vm_okD(1) [OF s]] has_slot_def)
  note ih = path_more.IH [OF nm(1), of True]
  let ?f = "List.find (has_slot (vs_heap s) key) (as @ [the (ve_ddel E OT_TABLE)])"
  have f: "?f = None \<Longrightarrow> slots_at (vs_heap s) (the (ve_ddel E OT_TABLE)) key = None" "?f = Some x \<Longrightarrow> \<exists>v. slots_at (vs_heap s) x key = Some v" for x
    by (auto simp: find_None_iff find_Some_iff has_slot_def)
  show ?case
  proof (cases ?f)
    case None
    then show ?thesis using path_more.hyps(1,2) ih m f(1)
      by (subst vm_Get.simps) (simp add: direct_Get_table [OF vm_okD(1) [OF s]] FallBackGet_def delegate_of_def default_table [OF s]
        get_answer_def has_slot_def Let_def split: option.split)
  next
    case (Some x)
    then obtain v where "slots_at (vs_heap s) x key = Some v" using f(2) by blast
    then show ?thesis using Some path_more.hyps(1,2) ih
      by (subst vm_Get.simps) (simp add: direct_Get_table [OF vm_okD(1) [OF s]] FallBackGet_def delegate_of_def
        get_answer_def has_slot_def Let_def split: option.split)
  qed
qed

text \<open>
  The answer of \<open>Set\<close>: the first table that has the slot gets the value, and all others stay.
\<close>

lemma vm_Set_path:
  assumes s: "vm_ok E s" and k: "key \<noteq> VNull"
  shows "delegate_path (vs_heap s) a as \<Longrightarrow> no_meta (vs_heap s) MT_SET as \<Longrightarrow>
    (case List.find (has_slot (vs_heap s) key) as of
       Some b \<Rightarrow> \<exists>t t'. h_tables (vs_heap s) b = Some t \<and> table_inv t' \<and> table_map t' = (table_map t)(key \<mapsto> val) \<and> tb_delegate t' = tb_delegate t \<and>
         vm_Set E (VTable a) key val False s = Some (Some (), on_heap (set_table b t') s)
     | None \<Rightarrow> vm_Set E (VTable a) key val False s = raise_error (Raise_IdxError key) s)"
proof (induction rule: delegate_path.induct)
  case (path_end a t)
  obtain t' where t': "table_Set t key val = Some (t', key \<in> dom (table_map t))" "table_inv t'" "tb_delegate t' = tb_delegate t"
      "table_map t' = (if key \<in> dom (table_map t) then (table_map t)(key \<mapsto> val) else table_map t)"
    using Set_ok [OF deleg_okD(1) [OF vm_okD(1) [OF s] path_end(1)] k, of val] by blast
  have "fallback_meta E (VTable a) MT_SET [VTable a, key, val] s = Some (FALLBACK_NO_MATCH, s)"
    using path_end by (simp add: fallback_meta_def GetMetaMethod_table [OF vm_okD(1) [OF s]])
  then show ?case
  proof (cases "key \<in> dom (table_map t)")
    case True
    then have "vm_Set E (VTable a) key val False s = Some (Some (), on_heap (set_table a t') s)"
      using path_end(1) t' by (subst vm_Set.simps) (simp add: direct_Set_def)
    then show ?thesis using True path_end(1) t' by (auto simp: has_slot_def slots_at_def)
  next
    case False
    then have "direct_Set (VTable a) key val s = Some Unset" using path_end(1) t'(1) by (simp add: direct_Set_def)
    then have "vm_Set E (VTable a) key val False s = raise_error (Raise_IdxError key) s"
      using \<open>fallback_meta E (VTable a) MT_SET [VTable a, key, val] s = Some (FALLBACK_NO_MATCH, s)\<close> path_end(1,2)
      by (subst vm_Set.simps) (simp add: FallBackSet_def delegate_of_def)
    then show ?thesis using False path_end(1) by (simp add: has_slot_def slots_at_def domIff)
  qed
next
  case (path_more a t b as)
  have nm: "no_meta (vs_heap s) MT_SET as" "\<not> has_slot (vs_heap s) (VString (metamethod_names ! mt_index MT_SET)) b"
    using path_more.prems path_not_nil [OF path_more.hyps(3)] by (cases as; auto simp: no_meta_def)+
  obtain t' where t': "table_Set t key val = Some (t', key \<in> dom (table_map t))" "table_inv t'" "tb_delegate t' = tb_delegate t"
      "table_map t' = (if key \<in> dom (table_map t) then (table_map t)(key \<mapsto> val) else table_map t)"
    using Set_ok [OF deleg_okD(1) [OF vm_okD(1) [OF s] path_more.hyps(1)] k, of val] by blast
  note ih = path_more.IH [OF nm(1)]
  show ?case
  proof (cases "key \<in> dom (table_map t)")
    case True
    then have "vm_Set E (VTable a) key val False s = Some (Some (), on_heap (set_table a t') s)"
      using path_more.hyps(1) t' by (subst vm_Set.simps) (simp add: direct_Set_def)
    then show ?thesis using True path_more.hyps(1) t' by (auto simp: has_slot_def slots_at_def)
  next
    case False
    then have hs: "\<not> has_slot (vs_heap s) key a" "direct_Set (VTable a) key val s = Some Unset"
      using path_more.hyps(1) t' by (auto simp: has_slot_def slots_at_def direct_Set_def)
    show ?thesis
    proof (cases "List.find (has_slot (vs_heap s) key) as")
      case (Some x)
      then obtain t1 t2 where "h_tables (vs_heap s) x = Some t1" "table_inv t2" "table_map t2 = (table_map t1)(key \<mapsto> val)" "tb_delegate t2 = tb_delegate t1"
          "vm_Set E (VTable b) key val False s = Some (Some (), on_heap (set_table x t2) s)" using ih by auto
      moreover from this(5) have "vm_Set E (VTable a) key val False s = Some (Some (), on_heap (set_table x t2) s)"
        using hs path_more.hyps(1,2) by (subst vm_Set.simps) (simp add: FallBackSet_def delegate_of_def)
      ultimately show ?thesis using hs(1) Some by auto
    next
      case None
      then have v: "vm_Set E (VTable b) key val False s = raise_error (Raise_IdxError key) s" using ih by simp
      let ?s = "s\<lparr>vs_lasterror := VString (case Raise_IdxError key of Raise_Error m \<Rightarrow> m)\<rparr>"
      have r: "raise_error (Raise_IdxError key) s' = Some (None, s'\<lparr>vs_lasterror := VString (case Raise_IdxError key of Raise_Error m \<Rightarrow> m)\<rparr>)" for s' :: vmstate
        by (simp add: raise_error_def Raise_IdxError_def)
      have "fallback_meta E (VTable a) MT_SET [VTable a, key, val] ?s = Some (FALLBACK_NO_MATCH, ?s)"
        using nm(2) path_more.hyps(1,2) by (simp add: fallback_meta_def GetMetaMethod_table [OF vm_okD(1) [OF s]] has_slot_def)
      then have "vm_Set E (VTable a) key val False s = raise_error (Raise_IdxError key) s"
        using hs path_more.hyps(1,2) v by (subst vm_Set.simps) (simp add: FallBackSet_def delegate_of_def r)
      then show ?thesis using hs(1) None by simp
    qed
  qed
qed

section \<open>A sample state\<close>

text \<open>A table with a slot \<open>x\<close>, an empty table whose delegate it is, and a machine in which every call fails.\<close>

definition box_table :: sqtable where
  "box_table = fst (the (table_NewSlot (table_Create 0) (VString ''x'') (VInteger 1)))"

definition sample_heap :: sqheap where
  "sample_heap = empty_heap\<lparr>h_tables := [8 \<mapsto> box_table, 16 \<mapsto> (table_Create 0)\<lparr>tb_delegate := Some 8\<rparr>, 24 \<mapsto> table_Create 0]\<rparr>"

definition sample_state :: vmstate where
  "sample_state = \<lparr>vs_heap = sample_heap, vs_lasterror = VNull\<rparr>"

definition sample_env :: vmenv where
  "sample_env = \<lparr>ve_call = (\<lambda>_ _ s. (None, s)), ve_ddel = (\<lambda>_. Some 24), ve_root = VTable 24, ve_roottable = 24, ve_alloc = (\<lambda>_. 32)\<rparr>"

lemma box_table: "table_inv box_table" "table_map box_table = [VString ''x'' \<mapsto> VInteger 1]" "tb_delegate box_table = None"
  using NewSlot_ok [OF Create_ok(1), of "VString ''x''" 0 "VInteger 1"] by (auto simp: box_table_def Create_ok)

lemma sample_tables:
  "h_tables (vs_heap sample_state) 8 = Some box_table"
  "h_tables (vs_heap sample_state) 16 = Some ((table_Create 0)\<lparr>tb_delegate := Some 8\<rparr>)"
  "h_tables (vs_heap sample_state) 24 = Some (table_Create 0)"
  "vs_heap sample_state = sample_heap"
  by (simp_all add: sample_state_def sample_heap_def)

lemma sample_deleg: "deleg sample_heap = [16 \<mapsto> 8]"
  by (auto simp: deleg_def sample_heap_def box_table Create_ok fun_eq_iff empty_heap_def)

lemma sample_slots: "slots_at sample_heap = (\<lambda>_. Map.empty)(8 := [VString ''x'' \<mapsto> VInteger 1])"
  by (auto simp: slots_at_def sample_heap_def box_table Create_ok fun_eq_iff empty_heap_def)

lemma sample_deleg_ok: "deleg_ok sample_heap"
proof -
  have "rank_of [16 \<mapsto> 8] (\<lambda>a. if a = 16 then 1 else 0)" by (simp add: rank_of_def split: if_splits)
  then have "\<exists>rank. rank_of (deleg sample_heap) rank" unfolding sample_deleg by blast
  moreover have "\<forall>t \<in> ran (h_tables sample_heap). table_inv t"
    by (auto simp: sample_heap_def ran_def box_table Create_ok empty_heap_def split: if_splits)
  ultimately show ?thesis
    unfolding deleg_ok_def sample_deleg by (simp add: sample_heap_def empty_heap_def ran_def)
qed

lemma sample_ok: "vm_ok sample_env sample_state"
proof -
  have "heap_ok sample_heap" by (simp add: heap_ok_def sample_heap_def empty_heap_def ranked_def base_of_def)
  then show ?thesis using sample_deleg_ok sample_tables by (auto simp: vm_ok_def sample_env_def)
qed

lemma sample_calls: "calls_keep sample_env"
  by (simp add: calls_keep_def sample_env_def)

lemma sample_path: "delegate_path (vs_heap sample_state) 16 [16, 8]"
  by (rule path_more [OF sample_tables(2)], simp, rule path_end [OF sample_tables(1) box_table(3)])

section \<open>Properties\<close>

text \<open>
  C12. Delegation never becomes cyclic: in a heap whose tables are well formed and whose
  delegates end, \<open>sq_setdelegate\<close> on a table returns, leaves such a heap, and answers that there
  would be a cycle exactly when the table is reached from the new delegate; then the heap stays as
  it is.
\<close>

theorem delegation_stays_acyclic:
  assumes "deleg_ok h" "a \<in> dom (h_tables h)" "m \<in> dom (h_tables h)"
  shows "\<exists>r h'. sq_setdelegate (VTable a) (VTable m) h = Some (r, h') \<and> deleg_ok h' \<and>
    (if (m, a) \<in> (drel h)\<^sup>* then r = Inl (Raise_Error ''delegate cycle'') \<and> h' = h
     else r = Inr () \<and> deleg h' = (deleg h)(a \<mapsto> m) \<and> (\<forall>x. slots_at h' x = slots_at h x))"
proof -
  obtain t where t: "h_tables h a = Some t" using assms(2) by auto
  show ?thesis
    using SetDelegate_table [OF assms(1) t, of "Some m"] assms(3) t deleg_set_table [OF t, of "t\<lparr>tb_delegate := Some m\<rparr>"]
    by (auto simp: sq_setdelegate_def slots_at_def set_table_def)
qed

theorem delegation_stays_acyclic_witness:
  "sq_setdelegate (VTable 8) (VTable 16) sample_heap = Some (Inl (Raise_Error ''delegate cycle''), sample_heap)"
proof -
  have "(16, 8) \<in> (drel sample_heap)\<^sup>*" by (simp add: sample_deleg r_into_rtrancl)
  then show ?thesis using delegation_stays_acyclic [OF sample_deleg_ok, of 8 16] sample_tables by auto
qed

text \<open>
  C17. Reading follows the delegates: if the delegates of a table do not have the metamethod
  \<open>_get\<close>, \<open>sq_get\<close> on a table returns the slot of the first table on the way along the
  delegates that has it, then that of the default delegate of tables, and else raises the error of
  a missing index.
\<close>

theorem get_follows_delegates:
  assumes "vm_ok E s" "delegate_path (vs_heap s) a as" "no_meta (vs_heap s) MT_GET as"
  shows "sq_get E (VTable a) key s =
     (case List.find (has_slot (vs_heap s) key) (as @ [the (ve_ddel E OT_TABLE)]) of
        Some b \<Rightarrow> Some (map_option (realval (h_weak (vs_heap s))) (slots_at (vs_heap s) b key), s)
      | None \<Rightarrow> raise_error (Raise_IdxError key) s)"
  unfolding sq_get_def vm_Get_path [OF assms] get_answer_def Let_def by (simp split: option.split)

theorem get_follows_delegates_witness:
  "sq_get sample_env (VTable 16) (VString ''x'') sample_state = Some (Some (VInteger 1), sample_state)"
  using get_follows_delegates [OF sample_ok sample_path, of "VString ''x''"]
  by (simp add: no_meta_def has_slot_def sample_tables(4) sample_slots metamethod_names_def realval_def)

text \<open>
  C18. Writing follows the delegates: if they do not have the metamethod \<open>_set\<close>, \<open>sq_set\<close> on a table
  gives the value to the first table on the way along the delegates that has the slot, and
  changes nothing else; if there is none, it raises the error of a missing index.
\<close>

theorem set_follows_delegates:
  assumes "vm_ok E s" "delegate_path (vs_heap s) a as" "no_meta (vs_heap s) MT_SET as" "key \<noteq> VNull"
  shows "case List.find (has_slot (vs_heap s) key) as of
       Some b \<Rightarrow> \<exists>s'. sq_set E (VTable a) key val s = Some (Some (), s') \<and> vm_ok E s' \<and> deleg (vs_heap s') = deleg (vs_heap s) \<and>
         slots_at (vs_heap s') = (slots_at (vs_heap s))(b := (slots_at (vs_heap s) b)(key \<mapsto> val))
     | None \<Rightarrow> sq_set E (VTable a) key val s = raise_error (Raise_IdxError key) s"
proof (cases "List.find (has_slot (vs_heap s) key) as")
  case None
  then show ?thesis using vm_Set_path [OF assms(1,4,2,3), of val] by (simp add: sq_set_def)
next
  case (Some b)
  obtain t t' where t: "h_tables (vs_heap s) b = Some t" "table_inv t'" "table_map t' = (table_map t)(key \<mapsto> val)" "tb_delegate t' = tb_delegate t"
      "vm_Set E (VTable a) key val False s = Some (Some (), on_heap (set_table b t') s)"
    using vm_Set_path [OF assms(1,4,2,3), of val] Some by auto
  let ?s = "on_heap (set_table b t') s"
  have "deleg (vs_heap ?s) = deleg (vs_heap s)"
    using deleg_set_table [OF t(1), of t'] t by (simp add: on_heap_def deleg_def fun_eq_iff)
  moreover have "slots_at (vs_heap ?s) = (slots_at (vs_heap s))(b := (slots_at (vs_heap s) b)(key \<mapsto> val))"
    using t by (simp add: slots_at_def on_heap_def set_table_def fun_eq_iff)
  ultimately show ?thesis using Some t(5) set_slot_ok(1) [OF assms(1) t(1,2,4)] by (simp add: sq_set_def)
qed

theorem set_follows_delegates_witness:
  "\<exists>s'. sq_set sample_env (VTable 16) (VString ''x'') (VInteger 2) sample_state = Some (Some (), s') \<and>
     slots_at (vs_heap s') 8 = [VString ''x'' \<mapsto> VInteger 2]"
  using set_follows_delegates [OF sample_ok sample_path, of "VString ''x''" "VInteger 2"]
  by (auto simp: no_meta_def has_slot_def sample_tables(4) sample_slots metamethod_names_def)

text \<open>
  C16. Every access returns: in a valid state, reading and writing a slot of any object of the heap
  ends without undefined behaviour and leaves a valid state in which all objects are still there,
  if that holds for the functions that are called as metamethods.
\<close>

theorem access_returns:
  assumes "calls_keep E" "vm_ok E s" "obj_ok (vs_heap s) self" "key \<noteq> VNull"
  shows "(\<exists>r s'. vm_Get E self key raw quiet fall s = Some (r, s') \<and> vm_ok E s' \<and> heap_grows (vs_heap s) (vs_heap s')) \<and>
    (\<exists>r s'. vm_Set E self key val fall s = Some (r, s') \<and> vm_ok E s' \<and> heap_grows (vs_heap s) (vs_heap s'))"
  using vm_Get_returns [OF assms(1-3)] vm_Set_returns [OF assms] by (simp add: returns_def)

theorem access_returns_witness:
  "\<exists>r s'. vm_Get sample_env (VTable 16) (VString ''y'') False False False sample_state = Some (r, s') \<and> vm_ok sample_env s'"
  using access_returns [OF sample_calls sample_ok, of "VTable 16" "VString ''y''" False False False VNull] sample_tables by auto

end
