(* ===== verification/Sq_Collector.thy ===== *)
theory Sq_Collector
  imports Sq_RefTable
begin

text \<open>
  Marking of the objects that can be reached, and \<open>ResurrectUnreachable\<close> (\<^verbatim>\<open>sqstate.cpp\<close>, and the
  functions \<open>Mark\<close> of \<^verbatim>\<open>sqobject.cpp\<close>). All objects that may be part of a cycle are in
  a doubly linked list, the chain. Marking moves the objects that it reaches to a second chain.
  The model is a store of such objects, each with the links of the chain, its reference count,
  of which bit 31 is the mark, and the fields that \<open>Mark\<close> follows. \<^const>\<open>None\<close> is the use of
  an address that holds no object of the right type, a read behind a vector, or a failed assertion.
\<close>

section \<open>The store\<close>

datatype gcbody =
  B_Thread (th_lasterror: sqobject) (th_errorhandler: sqobject) (th_debughook_closure: sqobject) (th_roottable: sqobject)
    (th_temp_reg: sqobject) (th_stack: "sqobject list") (th_callsstack: "sqobject list")
| B_Array (ar_values: "sqobject list")
| B_Table (ta_delegate: "addr option") (ta_nodes: "(sqobject \<times> sqobject) list")
| B_Class (cs_members: addr) (cs_base: "addr option") (cs_attributes: sqobject) (cs_defaultvalues: "(sqobject \<times> sqobject) list")
    (cs_methods: "(sqobject \<times> sqobject) list") (cs_metamethods: "sqobject list")
| B_Instance (in_class: addr) (in_values: "sqobject list")
| B_Generator (ge_stack: "sqobject list") (ge_closure: sqobject)
| B_FuncProto (fu_noutervalues: nat) (fu_ndefaultparams: nat) (fu_literals: "sqobject list") (fu_functions: "sqobject list")
| B_Closure (clo_base: "addr option") (clo_function: addr) (clo_outervalues: "sqobject list") (clo_defaultparams: "sqobject list")
| B_NativeClosure (na_outervalues: "sqobject list")
| B_Outer (ou_open: bool) (ou_value: sqobject)
| B_UserData (us_delegate: "addr option")

fun GetType :: "gcbody \<Rightarrow> sqtype" where
  "GetType (B_Thread _ _ _ _ _ _ _) = OT_THREAD"
| "GetType (B_Array _) = OT_ARRAY"
| "GetType (B_Table _ _) = OT_TABLE"
| "GetType (B_Class _ _ _ _ _ _) = OT_CLASS"
| "GetType (B_Instance _ _) = OT_INSTANCE"
| "GetType (B_Generator _ _) = OT_GENERATOR"
| "GetType (B_FuncProto _ _ _ _) = OT_FUNCPROTO"
| "GetType (B_Closure _ _ _ _) = OT_CLOSURE"
| "GetType (B_NativeClosure _) = OT_NATIVECLOSURE"
| "GetType (B_Outer _ _) = OT_OUTER"
| "GetType (B_UserData _) = OT_USERDATA"

record collectable =
  co_next :: "addr option"
  co_prev :: "addr option"
  co_uiRef :: u64
  co_body :: gcbody

type_synonym gcstore = "addr \<rightharpoonup> collectable"

definition MARK_FLAG :: u64 where "MARK_FLAG = 0x80000000"

definition is_marked :: "collectable \<Rightarrow> bool" where
  "is_marked c \<longleftrightarrow> co_uiRef c AND MARK_FLAG \<noteq> 0"

text \<open>\<open>~MARK_FLAG\<close> is a 32-bit number, which is extended with zeros.\<close>

definition UnMark :: "collectable \<Rightarrow> collectable" where
  "UnMark c = c\<lparr>co_uiRef := co_uiRef c AND 0x7FFFFFFF\<rparr>"

definition upd_co :: "addr \<Rightarrow> (collectable \<Rightarrow> collectable) \<Rightarrow> gcstore \<Rightarrow> gcstore option" where
  "upd_co a f H = do { c \<leftarrow> H a; Some (H(a \<mapsto> f c)) }"

text \<open>A chain is the address of its first object; the store and the two chains are the state of marking.\<close>

record gcstate =
  gc_objs :: gcstore
  gc_chain :: "addr option"
  gc_tchain :: "addr option"

section \<open>Chains\<close>

definition AddToChain :: "addr option \<Rightarrow> addr \<Rightarrow> gcstore \<Rightarrow> (addr option \<times> gcstore) option" where
  "AddToChain chain c H = do {
     H \<leftarrow> upd_co c (\<lambda>x. x\<lparr>co_prev := None, co_next := chain\<rparr>) H;
     H \<leftarrow> (case chain of None \<Rightarrow> Some H | Some f \<Rightarrow> upd_co f (\<lambda>x. x\<lparr>co_prev := Some c\<rparr>) H);
     Some (Some c, H)
   }"

definition RemoveFromChain :: "addr option \<Rightarrow> addr \<Rightarrow> gcstore \<Rightarrow> (addr option \<times> gcstore) option" where
  "RemoveFromChain chain c H = do {
     x \<leftarrow> H c;
     H1 \<leftarrow> (case co_prev x of None \<Rightarrow> Some H | Some p \<Rightarrow> upd_co p (\<lambda>y. y\<lparr>co_next := co_next x\<rparr>) H);
     H2 \<leftarrow> (case co_next x of None \<Rightarrow> Some H1 | Some n \<Rightarrow> upd_co n (\<lambda>y. y\<lparr>co_prev := co_prev x\<rparr>) H1);
     H3 \<leftarrow> upd_co c (\<lambda>y. y\<lparr>co_next := None, co_prev := None\<rparr>) H2;
     Some (if co_prev x = None then co_next x else chain, H3)
   }"

section \<open>Marking\<close>

fun gc_addr :: "sqobject \<Rightarrow> addr option" where
  "gc_addr (VTable a) = Some a"
| "gc_addr (VArray a) = Some a"
| "gc_addr (VUserData a) = Some a"
| "gc_addr (VClosure a) = Some a"
| "gc_addr (VNativeClosure a) = Some a"
| "gc_addr (VGenerator a) = Some a"
| "gc_addr (VThread a) = Some a"
| "gc_addr (VClass a) = Some a"
| "gc_addr (VInstance a) = Some a"
| "gc_addr (VOuter a) = Some a"
| "gc_addr (VFuncProto a) = Some a"
| "gc_addr _ = None"

definition vec_first :: "nat \<Rightarrow> 'a list \<Rightarrow> 'a list option" where
  "vec_first n xs = (if n \<le> length xs then Some (take n xs) else None)"

definition opt_obj :: "(addr \<Rightarrow> sqobject) \<Rightarrow> addr option \<Rightarrow> sqobject list" where
  "opt_obj f p = (case p of None \<Rightarrow> [] | Some a \<Rightarrow> [f a])"

definition pairs :: "('a \<times> 'a) list \<Rightarrow> 'a list" where
  "pairs xs = concat (map (\<lambda>(x, y). [x, y]) xs)"

text \<open>
  The objects on which the function \<open>Mark\<close> of an object calls \<open>Mark\<close>, in this order. The vectors of
  an instance and of a closure have no length of their own: their length is in the class and in the
  function.
\<close>

fun children :: "(addr \<rightharpoonup> gcbody) \<Rightarrow> gcbody \<Rightarrow> sqobject list option" where
  "children B (B_Thread le eh dh rt tr st cs) = Some ([le, eh, dh, rt, tr] @ st @ cs)"
| "children B (B_Array vs) = Some vs"
| "children B (B_Table d ns) = Some (opt_obj VTable d @ pairs ns)"
| "children B (B_Class m b at dv me mm) = Some (VTable m # opt_obj VClass b @ [at] @ pairs dv @ pairs me @ mm)"
| "children B (B_Instance c vs) =
     (case B c of
        Some (B_Class _ _ _ dv _ _) \<Rightarrow> map_option (\<lambda>vs. VClass c # vs) (vec_first (length dv) vs)
      | _ \<Rightarrow> None)"
| "children B (B_Generator st cl) = Some (st @ [cl])"
| "children B (B_FuncProto _ _ ls fs) = Some (ls @ fs)"
| "children B (B_Closure b f os ds) =
     (case B f of
        Some (B_FuncProto no nd _ _) \<Rightarrow> do {
          os \<leftarrow> vec_first no os;
          ds \<leftarrow> vec_first nd ds;
          Some (opt_obj VClass b @ VFuncProto f # os @ ds)
        }
      | _ \<Rightarrow> None)"
| "children B (B_NativeClosure os) = Some os"
| "children B (B_Outer op v) = Some (if op then [] else [v])"
| "children B (B_UserData d) = Some (opt_obj VTable d)"

definition bodies :: "gcstore \<Rightarrow> addr \<rightharpoonup> gcbody" where
  "bodies H a = map_option co_body (H a)"

primrec mark_all :: "(sqobject \<Rightarrow> gcstate \<Rightarrow> gcstate option) \<Rightarrow> sqobject list \<Rightarrow> gcstate \<Rightarrow> gcstate option" where
  "mark_all mark [] g = Some g"
| "mark_all mark (ob # obs) g = mark ob g \<bind> mark_all mark obs"

lemma mark_all_mono [partial_function_mono]:
  assumes "\<And>ob g. mono_option (\<lambda>f. mark f ob g)"
  shows "mono_option (\<lambda>f. mark_all (mark f) obs g)"
proof (induction obs arbitrary: g)
  case (Cons ob obs)
  then show ?case by (simp add: partial_function_mono assms)
qed (simp add: partial_function_mono)

text \<open>\<open>START_MARK\<close> and \<open>END_MARK\<close> around the calls for the children.\<close>

definition end_mark :: "addr \<Rightarrow> gcstate \<Rightarrow> gcstate option" where
  "end_mark a g = do {
     (gc, H) \<leftarrow> RemoveFromChain (gc_chain g) a (gc_objs g);
     (tc, H) \<leftarrow> AddToChain (gc_tchain g) a H;
     Some \<lparr>gc_objs = H, gc_chain = gc, gc_tchain = tc\<rparr>
   }"

partial_function (option) MarkObject :: "sqobject \<Rightarrow> gcstate \<Rightarrow> gcstate option" where
  "MarkObject ob g =
     (case gc_addr ob of
        None \<Rightarrow> Some g
      | Some a \<Rightarrow> do {
          c \<leftarrow> gc_objs g a;
          if GetType (co_body c) \<noteq> sq_type ob then None
          else if is_marked c then Some g
          else do {
            cs \<leftarrow> children (bodies (gc_objs g)) (co_body c);
            g \<leftarrow> mark_all MarkObject cs (g\<lparr>gc_objs := (gc_objs g)(a \<mapsto> c\<lparr>co_uiRef := co_uiRef c OR MARK_FLAG\<rparr>)\<rparr>);
            end_mark a g
          }
        })"

section \<open>Collecting\<close>

record gcroots =
  ro_root_vm :: sqobject
  ro_refs_table :: reftable
  ro_registry :: sqobject
  ro_consts :: sqobject
  ro_metamethodsmap :: sqobject
  ro_table_default_delegate :: sqobject
  ro_array_default_delegate :: sqobject
  ro_string_default_delegate :: sqobject
  ro_number_default_delegate :: sqobject
  ro_generator_default_delegate :: sqobject
  ro_thread_default_delegate :: sqobject
  ro_closure_default_delegate :: sqobject
  ro_class_default_delegate :: sqobject
  ro_instance_default_delegate :: sqobject
  ro_weakref_default_delegate :: sqobject

definition RunMark :: "gcroots \<Rightarrow> gcstate \<Rightarrow> gcstate option" where
  "RunMark R g = do {
     g \<leftarrow> MarkObject (ro_root_vm R) g;
     g \<leftarrow> mark_all MarkObject (ref_Mark (ro_refs_table R)) g;
     mark_all MarkObject [ro_registry R, ro_consts R, ro_metamethodsmap R, ro_table_default_delegate R, ro_array_default_delegate R,
       ro_string_default_delegate R, ro_number_default_delegate R, ro_generator_default_delegate R, ro_thread_default_delegate R,
       ro_closure_default_delegate R, ro_class_default_delegate R, ro_instance_default_delegate R, ro_weakref_default_delegate R] g
   }"

text \<open>The object of an address, with the type of \<open>GetType\<close>.\<close>

definition obj_at :: "gcbody \<Rightarrow> addr \<Rightarrow> sqobject" where
  "obj_at b a =
     (case GetType b of
        OT_TABLE \<Rightarrow> VTable a | OT_ARRAY \<Rightarrow> VArray a | OT_USERDATA \<Rightarrow> VUserData a | OT_CLOSURE \<Rightarrow> VClosure a
      | OT_NATIVECLOSURE \<Rightarrow> VNativeClosure a | OT_GENERATOR \<Rightarrow> VGenerator a | OT_THREAD \<Rightarrow> VThread a | OT_CLASS \<Rightarrow> VClass a
      | OT_INSTANCE \<Rightarrow> VInstance a | OT_OUTER \<Rightarrow> VOuter a | _ \<Rightarrow> VFuncProto a)"

text \<open>
  The loop over the unreachable objects: each goes into the array, which counts as a reference to
  it, except function prototypes and captured variables. The results are the number of objects,
  the last one and the values of the array.
\<close>

partial_function (option) resurrect_loop :: "addr option \<Rightarrow> addr option \<Rightarrow> nat \<Rightarrow> sqobject list \<Rightarrow> gcstore \<Rightarrow> (nat \<times> addr option \<times> sqobject list \<times> gcstore) option" where
  "resurrect_loop t rlast n ret H =
     (case t of
        None \<Rightarrow> Some (n, rlast, ret, H)
      | Some a \<Rightarrow> do {
          c \<leftarrow> H a;
          if GetType (co_body c) \<noteq> OT_FUNCPROTO \<and> GetType (co_body c) \<noteq> OT_OUTER
          then resurrect_loop (co_next c) (Some a) (n + 1) (ret @ [obj_at (co_body c) a]) (H(a \<mapsto> c\<lparr>co_uiRef := co_uiRef c + 1\<rparr>))
          else resurrect_loop (co_next c) (Some a) (n + 1) ret H
        })"

partial_function (option) unmark_loop :: "addr option \<Rightarrow> gcstore \<Rightarrow> gcstore option" where
  "unmark_loop t H =
     (case t of
        None \<Rightarrow> Some H
      | Some a \<Rightarrow> do { c \<leftarrow> H a; unmark_loop (co_next c) (H(a \<mapsto> UnMark c)) })"

text \<open>
  \<open>ResurrectUnreachable\<close> returns the number of unreachable objects and the object that it
  pushes: an array, made at the address \<open>na\<close>, or null. The stack slot is the one reference to the array.
\<close>

definition splice :: "addr option \<Rightarrow> addr option \<Rightarrow> addr option \<Rightarrow> gcstore \<Rightarrow> gcstore option" where
  "splice resurrected rlast chain H = do {
     r \<leftarrow> rlast;
     c \<leftarrow> H r;
     if co_next c \<noteq> None then None
     else do {
       H \<leftarrow> upd_co r (\<lambda>x. x\<lparr>co_next := chain\<rparr>) H;
       (case chain of None \<Rightarrow> Some H | Some f \<Rightarrow> upd_co f (\<lambda>x. x\<lparr>co_prev := Some r\<rparr>) H)
     }
   }"

definition ResurrectUnreachable :: "gcroots \<Rightarrow> addr \<Rightarrow> addr option \<Rightarrow> gcstore \<Rightarrow> (nat \<times> sqobject \<times> addr option \<times> gcstore) option" where
  "ResurrectUnreachable R na chain H = do {
     g \<leftarrow> RunMark R \<lparr>gc_objs = H, gc_chain = chain, gc_tchain = None\<rparr>;
     let resurrected = gc_chain g;
     (case resurrected of
        None \<Rightarrow> do { H \<leftarrow> unmark_loop (gc_tchain g) (gc_objs g); Some (0, VNull, gc_tchain g, H) }
      | Some _ \<Rightarrow> do {
          (ch, H) \<leftarrow> AddToChain (gc_tchain g) na ((gc_objs g)(na \<mapsto> \<lparr>co_next = None, co_prev = None, co_uiRef = 0, co_body = B_Array []\<rparr>));
          (n, rlast, ret, H) \<leftarrow> resurrect_loop resurrected None 0 [] H;
          H \<leftarrow> upd_co na (\<lambda>x. x\<lparr>co_body := B_Array ret\<rparr>) H;
          H \<leftarrow> splice resurrected rlast ch H;
          H \<leftarrow> unmark_loop resurrected H;
          H \<leftarrow> upd_co na (\<lambda>x. x\<lparr>co_uiRef := co_uiRef x + 1\<rparr>) H;
          Some (n, VArray na, resurrected, H)
        })
   }"

end
