(* ===== verification/Sq_Links.thy ===== *)
theory Sq_Links
  imports Sq_Prelude
begin

text \<open>The first and the last element of a linked list, where the list may be empty.\<close>

definition first :: "'a option \<Rightarrow> 'a list \<Rightarrow> 'a option" where
  "first e xs = (case xs of [] \<Rightarrow> e | x # _ \<Rightarrow> Some x)"

definition lastp :: "'a option \<Rightarrow> 'a list \<Rightarrow> 'a option" where
  "lastp p xs = (if xs = [] then p else Some (last xs))"

lemma first_simps [simp]: "first e [] = e" "first e (x # xs) = Some x"
  by (simp_all add: first_def)

lemma lastp_simps [simp]: "lastp p [] = p" "lastp p (xs @ [x]) = Some x" "lastp p (x # xs) = lastp (Some x) xs"
  by (simp_all add: lastp_def)

end
