(* ===== verification/Sq_Collector_Correct.thy ===== *)
theory Sq_Collector_Correct
  imports Sq_Collector Sq_Links
begin

text \<open>
  Marking moves exactly the reachable objects to the second chain, and \<open>ResurrectUnreachable\<close> returns
  the other ones and restores the chain, the counts and the marks.
\<close>

section \<open>Chains as lists\<close>

definition refs :: "gcstore \<Rightarrow> addr \<rightharpoonup> u64" where
  "refs H a = map_option co_uiRef (H a)"

definition same_core :: "gcstore \<Rightarrow> gcstore \<Rightarrow> bool" where
  "same_core H H' \<longleftrightarrow> bodies H' = bodies H \<and> refs H' = refs H"

fun seg :: "gcstore \<Rightarrow> addr option \<Rightarrow> addr option \<Rightarrow> addr list \<Rightarrow> addr option \<Rightarrow> bool" where
  "seg H p h0 [] e \<longleftrightarrow> h0 = e"
| "seg H p h0 (x # xs) e \<longleftrightarrow> h0 = Some x \<and> (\<exists>c. H x = Some c \<and> co_prev c = p \<and> seg H (Some x) (co_next c) xs e)"

lemma same_core_refl [simp]: "same_core H H"
  by (simp add: same_core_def)

lemma same_core_trans: "same_core H H' \<Longrightarrow> same_core H' H'' \<Longrightarrow> same_core H H''"
  by (simp add: same_core_def)

lemma dom_bodies: "dom (bodies H) = dom H"
  by (auto simp: bodies_def dom_def)

lemma same_core_dom: "same_core H H' \<Longrightarrow> dom H' = dom H"
  by (metis dom_bodies same_core_def)

lemma seg_first: "seg H p h0 xs e \<Longrightarrow> h0 = first e xs"
  by (cases xs) auto

lemma seg_append: "seg H p h0 (xs @ ys) e \<longleftrightarrow> seg H p h0 xs (first e ys) \<and> seg H (lastp p xs) (first e ys) ys e"
proof (induction xs arbitrary: p h0)
  case Nil
  then show ?case using seg_first by auto
qed auto

lemma seg_cong: "(\<And>x. x \<in> set xs \<Longrightarrow> H' x = H x) \<Longrightarrow> seg H' p h0 xs e = seg H p h0 xs e"
  by (induction xs arbitrary: p h0) auto

lemma seg_upd [simp]: "x \<notin> set xs \<Longrightarrow> seg (H(x := c)) p h0 xs e = seg H p h0 xs e"
  by (rule seg_cong) auto

lemma seg_frame: "seg H p h0 xs e \<Longrightarrow> (\<And>x. x \<in> set xs \<Longrightarrow> H' x = H x) \<Longrightarrow> seg H' p h0 xs e"
  using seg_cong [of xs H' H] by blast

lemma seg_dom: "seg H p h0 xs e \<Longrightarrow> set xs \<subseteq> dom H"
  by (induction xs arbitrary: p h0) auto

lemma upd_co_core:
  assumes "upd_co a f H = Some H'" "\<And>c. co_body (f c) = co_body c" "\<And>c. co_uiRef (f c) = co_uiRef c"
  shows "same_core H H'"
proof -
  obtain c where "H a = Some c" "H' = H(a \<mapsto> f c)" using assms(1) by (auto simp: upd_co_def split: bind_splits)
  then show ?thesis using assms(2,3) by (simp add: same_core_def bodies_def refs_def fun_eq_iff)
qed

text \<open>Redirecting the end of a segment, and the start of one.\<close>

lemma relink_end:
  assumes "seg H p h0 as e" "distinct as"
  shows "\<exists>H1. (case lastp None as of None \<Rightarrow> Some H | Some l \<Rightarrow> upd_co l (\<lambda>y. y\<lparr>co_next := e'\<rparr>) H) = Some H1 \<and>
    seg H1 p (if as = [] then e' else h0) as e' \<and> same_core H H1 \<and> (\<forall>y. y \<notin> set as \<longrightarrow> H1 y = H y)"
proof (cases as rule: rev_cases)
  case (snoc as' l)
  obtain c where c: "H l = Some c" "co_prev c = lastp p as'" "seg H p h0 as' (Some l)" using assms snoc by (auto simp: seg_append)
  let ?H = "H(l \<mapsto> c\<lparr>co_next := e'\<rparr>)"
  have u: "upd_co l (\<lambda>y. y\<lparr>co_next := e'\<rparr>) H = Some ?H" using c by (simp add: upd_co_def)
  have "seg ?H p h0 as' (Some l)" using c(3) assms(2) snoc by simp
  then have "seg ?H p h0 as e'" using c snoc by (simp add: seg_append)
  then show ?thesis using u snoc upd_co_core [OF u] by auto
qed auto

lemma relink_start:
  assumes "seg H p (first e bs) bs e" "distinct bs"
  shows "\<exists>H2. (case first None bs of None \<Rightarrow> Some H | Some n \<Rightarrow> upd_co n (\<lambda>y. y\<lparr>co_prev := p'\<rparr>) H) = Some H2 \<and>
    seg H2 p' (first e bs) bs e \<and> same_core H H2 \<and> (\<forall>y. y \<notin> set bs \<longrightarrow> H2 y = H y)"
proof (cases bs)
  case (Cons n bs')
  obtain c where c: "H n = Some c" "seg H (Some n) (co_next c) bs' e" using assms Cons by auto
  let ?H = "H(n \<mapsto> c\<lparr>co_prev := p'\<rparr>)"
  have u: "upd_co n (\<lambda>y. y\<lparr>co_prev := p'\<rparr>) H = Some ?H" using c by (simp add: upd_co_def)
  have "seg ?H (Some n) (co_next c) bs' e" using c(2) assms(2) Cons by simp
  then show ?thesis using u Cons upd_co_core [OF u] by auto
qed auto

definition chain_ok :: "gcstore \<Rightarrow> addr option \<Rightarrow> addr list \<Rightarrow> bool" where
  "chain_ok H h0 xs \<longleftrightarrow> seg H None h0 xs None \<and> distinct xs"

lemma chain_cong: "(\<And>x. x \<in> set xs \<Longrightarrow> H' x = H x) \<Longrightarrow> chain_ok H' h0 xs = chain_ok H h0 xs"
  unfolding chain_ok_def using seg_cong [of xs H' H] by blast

lemma chain_frame: "chain_ok H h0 xs \<Longrightarrow> (\<And>x. x \<in> set xs \<Longrightarrow> H' x = H x) \<Longrightarrow> chain_ok H' h0 xs"
  using chain_cong [of xs H' H] by blast

lemma AddToChain_ok:
  assumes "chain_ok H h0 xs" "x \<notin> set xs" "x \<in> dom H"
  shows "\<exists>H'. AddToChain h0 x H = Some (Some x, H') \<and> chain_ok H' (Some x) (x # xs) \<and> same_core H H' \<and>
    (\<forall>y. y \<notin> insert x (set xs) \<longrightarrow> H' y = H y)"
proof -
  have s: "seg H None h0 xs None" "distinct xs" using assms by (simp_all add: chain_ok_def)
  have h0: "h0 = first None xs" using seg_first [OF s(1)] .
  obtain c where c: "H x = Some c" using assms by auto
  let ?f = "\<lambda>y. y\<lparr>co_prev := None, co_next := h0\<rparr>"
  let ?H = "H(x \<mapsto> ?f c)"
  have u: "upd_co x ?f H = Some ?H" using c by (simp add: upd_co_def)
  have "seg ?H None (first None xs) xs None" using s(1) assms(2) h0 by simp
  from relink_start [OF this s(2), of "Some x"] obtain H2 where H2:
    "(case first None xs of None \<Rightarrow> Some ?H | Some n \<Rightarrow> upd_co n (\<lambda>y. y\<lparr>co_prev := Some x\<rparr>) ?H) = Some H2"
    "seg H2 (Some x) (first None xs) xs None" "same_core ?H H2" "\<forall>y. y \<notin> set xs \<longrightarrow> H2 y = ?H y" by blast
  have "chain_ok H2 (Some x) (x # xs)" using H2 assms s h0 by (simp add: chain_ok_def)
  moreover have "same_core H H2" by (rule same_core_trans [OF upd_co_core [OF u] H2(3)]) simp_all
  moreover have "AddToChain h0 x H = Some (Some x, H2)" using u H2(1) unfolding AddToChain_def h0 [symmetric] by simp
  moreover have "\<forall>y. y \<notin> insert x (set xs) \<longrightarrow> H2 y = H y" using H2(4) by simp
  ultimately show ?thesis by blast
qed

lemma RemoveFromChain_ok:
  assumes "chain_ok H h0 xs" "x \<in> set xs"
  shows "\<exists>h0' H'. RemoveFromChain h0 x H = Some (h0', H') \<and> chain_ok H' h0' (filter (\<lambda>y. y \<noteq> x) xs) \<and> same_core H H' \<and>
    (\<forall>y. y \<notin> set xs \<longrightarrow> H' y = H y)"
proof -
  obtain as bs where xs: "xs = as @ x # bs" using assms(2) by (metis split_list)
  have d: "distinct as" "distinct bs" "x \<notin> set as" "x \<notin> set bs" "set as \<inter> set bs = {}" using assms(1) xs by (auto simp: chain_ok_def)
  obtain c where c: "H x = Some c" "co_prev c = lastp None as" "seg H None h0 as (Some x)" "seg H (Some x) (co_next c) bs None"
    using assms(1) xs by (auto simp: chain_ok_def seg_append)
  have n: "co_next c = first None bs" using seg_first [OF c(4)] .
  obtain H1 where H1: "(case lastp None as of None \<Rightarrow> Some H | Some l \<Rightarrow> upd_co l (\<lambda>y. y\<lparr>co_next := co_next c\<rparr>) H) = Some H1"
    "seg H1 None (if as = [] then co_next c else h0) as (co_next c)" "same_core H H1" "\<forall>y. y \<notin> set as \<longrightarrow> H1 y = H y"
    using relink_end [OF c(3) d(1), of "co_next c"] by blast
  have "seg H1 (Some x) (first None bs) bs None" by (rule seg_frame [OF c(4) [unfolded n]]) (use d(5) H1(4) in auto)
  from relink_start [OF this d(2), of "co_prev c"] obtain H2 where H2:
    "(case first None bs of None \<Rightarrow> Some H1 | Some n \<Rightarrow> upd_co n (\<lambda>y. y\<lparr>co_prev := co_prev c\<rparr>) H1) = Some H2"
    "seg H2 (co_prev c) (first None bs) bs None" "same_core H1 H2" "\<forall>y. y \<notin> set bs \<longrightarrow> H2 y = H1 y" by blast
  have H2x: "H2 x = Some c" using H2(4) H1(4) d c by simp
  let ?f = "\<lambda>y. y\<lparr>co_next := None, co_prev := None\<rparr>" and ?h0 = "if as = [] then co_next c else h0"
  let ?H = "H2(x \<mapsto> ?f c)"
  have u: "upd_co x ?f H2 = Some ?H" using H2x by (simp add: upd_co_def)
  have "seg ?H None ?h0 as (first None bs)" unfolding n [symmetric] by (rule seg_frame [OF H1(2)]) (use d H2(4) in auto)
  moreover have "seg ?H (lastp None as) (first None bs) bs None" using H2(2) c(2) d by simp
  moreover have "filter (\<lambda>y. y \<noteq> x) as = as" "filter (\<lambda>y. y \<noteq> x) bs = bs" using d by (auto intro!: filter_True)
  then have fl: "filter (\<lambda>y. y \<noteq> x) xs = as @ bs" using xs by simp
  ultimately have "chain_ok ?H ?h0 (filter (\<lambda>y. y \<noteq> x) xs)" using d by (simp add: chain_ok_def seg_append fl)
  moreover have "same_core H ?H"
    by (rule same_core_trans [OF H1(3) same_core_trans [OF H2(3) upd_co_core [OF u]]]) simp_all
  moreover have "RemoveFromChain h0 x H = Some (?h0, ?H)"
    using c(1) H1(1) H2(1) u n c(2) by (simp add: RemoveFromChain_def lastp_def)
  moreover have "\<forall>y. y \<notin> set xs \<longrightarrow> ?H y = H y" using H2(4) H1(4) xs by simp
  ultimately show ?thesis by blast
qed

section \<open>Reachability\<close>

definition edges :: "(addr \<rightharpoonup> gcbody) \<Rightarrow> (addr \<times> addr) set" where
  "edges B = {(a, b). \<exists>c obs ob. B a = Some c \<and> children B c = Some obs \<and> ob \<in> set obs \<and> gc_addr ob = Some b}"

definition roots :: "sqobject list \<Rightarrow> addr set" where
  "roots obs = {a. \<exists>ob \<in> set obs. gc_addr ob = Some a}"

definition obj_fine :: "(addr \<rightharpoonup> gcbody) \<Rightarrow> sqobject \<Rightarrow> bool" where
  "obj_fine B ob \<longleftrightarrow> (\<forall>a. gc_addr ob = Some a \<longrightarrow> (\<exists>b. B a = Some b \<and> GetType b = sq_type ob))"

definition store_fine :: "(addr \<rightharpoonup> gcbody) \<Rightarrow> bool" where
  "store_fine B \<longleftrightarrow> (\<forall>a b. B a = Some b \<longrightarrow> (\<exists>obs. children B b = Some obs \<and> (\<forall>ob \<in> set obs. obj_fine B ob)))"

lemma roots_simps [simp]:
  "roots [] = {}" "roots (ob # obs) = set_option (gc_addr ob) \<union> roots obs" "roots (xs @ ys) = roots xs \<union> roots ys"
  by (auto simp: roots_def)

section \<open>Marking\<close>

definition marks :: "gcstore \<Rightarrow> addr set" where
  "marks H = {a. \<exists>r. refs H a = Some r \<and> r AND MARK_FLAG \<noteq> 0}"

lemma marks_iff: "H a = Some c \<Longrightarrow> a \<in> marks H \<longleftrightarrow> is_marked c"
  by (simp add: marks_def refs_def is_marked_def)

definition mark_refs :: "addr set \<Rightarrow> (addr \<rightharpoonup> u64) \<Rightarrow> addr \<rightharpoonup> u64" where
  "mark_refs N r a = (if a \<in> N then map_option (\<lambda>x. x OR MARK_FLAG) (r a) else r a)"

definition mark_inv :: "gcstate \<Rightarrow> addr list \<Rightarrow> addr list \<Rightarrow> bool" where
  "mark_inv g gs ts \<longleftrightarrow> chain_ok (gc_objs g) (gc_chain g) gs \<and> chain_ok (gc_objs g) (gc_tchain g) ts \<and> set gs \<inter> set ts = {} \<and>
     dom (gc_objs g) = set gs \<union> set ts \<and> set ts \<subseteq> marks (gc_objs g)"

definition mark_post :: "sqobject list \<Rightarrow> gcstate \<Rightarrow> addr list \<Rightarrow> addr list \<Rightarrow> addr list \<Rightarrow> gcstate \<Rightarrow> bool" where
  "mark_post obs g gs ts new g' \<longleftrightarrow>
     mark_inv g' (filter (\<lambda>a. a \<notin> set new) gs) (new @ ts) \<and> bodies (gc_objs g') = bodies (gc_objs g) \<and>
     refs (gc_objs g') = mark_refs (set new) (refs (gc_objs g)) \<and> set new \<subseteq> set gs \<and> set new \<inter> marks (gc_objs g) = {} \<and>
     roots obs \<subseteq> marks (gc_objs g') \<and> set new \<subseteq> (edges (bodies (gc_objs g)))\<^sup>* `` roots obs \<and>
     edges (bodies (gc_objs g)) `` set new \<subseteq> marks (gc_objs g')"

lemma flag_or: "(r OR MARK_FLAG) AND MARK_FLAG \<noteq> 0" for r :: u64
proof -
  have "(r OR MARK_FLAG) AND MARK_FLAG = MARK_FLAG" by (simp add: bit_eq_iff bit_simps)
  then show ?thesis by (simp add: MARK_FLAG_def)
qed

lemma mark_refs_union: "mark_refs N (mark_refs M r) = mark_refs (M \<union> N) r"
  by (auto simp: mark_refs_def fun_eq_iff option.map_comp comp_def or.assoc)

lemma marks_mark_refs:
  assumes "refs H' = mark_refs N (refs H)" "N \<subseteq> dom H"
  shows "marks H' = marks H \<union> N"
  using assms flag_or by (fastforce simp: marks_def mark_refs_def refs_def split: if_splits)

lemma mark_post_marks:
  assumes "mark_post obs g gs ts new g'" "mark_inv g gs ts"
  shows "marks (gc_objs g') = marks (gc_objs g) \<union> set new"
proof (rule marks_mark_refs)
  show "refs (gc_objs g') = mark_refs (set new) (refs (gc_objs g))" using assms(1) by (simp add: mark_post_def)
  show "set new \<subseteq> dom (gc_objs g)" using assms unfolding mark_post_def mark_inv_def by blast
qed

lemma mark_post_Nil: "mark_inv g gs ts \<Longrightarrow> roots obs \<subseteq> marks (gc_objs g) \<Longrightarrow> mark_post obs g gs ts [] g"
  by (simp add: mark_post_def mark_refs_def fun_eq_iff)

lemma mark_post_append:
  assumes inv: "mark_inv g gs ts" and p: "mark_post xs g gs ts new g1"
    and q: "mark_post ys g1 (filter (\<lambda>a. a \<notin> set new) gs) (new @ ts) new' g2"
  shows "mark_post (xs @ ys) g gs ts (new' @ new) g2"
proof -
  let ?E = "edges (bodies (gc_objs g))"
  have inv1: "mark_inv g1 (filter (\<lambda>a. a \<notin> set new) gs) (new @ ts)" using p by (simp add: mark_post_def)
  have m1: "marks (gc_objs g1) = marks (gc_objs g) \<union> set new" by (rule mark_post_marks [OF p inv])
  have m2: "marks (gc_objs g2) = marks (gc_objs g1) \<union> set new'" by (rule mark_post_marks [OF q inv1])
  have b: "bodies (gc_objs g1) = bodies (gc_objs g)" using p by (simp add: mark_post_def)
  have f: "filter (\<lambda>a. a \<notin> set new') (filter (\<lambda>a. a \<notin> set new) gs) = filter (\<lambda>a. a \<notin> set (new' @ new)) gs"
    by (simp add: filter_filter conj_commute)
  have "mark_inv g2 (filter (\<lambda>a. a \<notin> set (new' @ new)) gs) ((new' @ new) @ ts)" using q unfolding mark_post_def f by simp
  moreover have "refs (gc_objs g2) = mark_refs (set (new' @ new)) (refs (gc_objs g))"
    using p q mark_refs_union by (auto simp: mark_post_def Un_commute)
  moreover have "set new' \<inter> marks (gc_objs g) = {}" using q m1 by (auto simp: mark_post_def)
  moreover have "roots (xs @ ys) \<subseteq> marks (gc_objs g2)" using p q m2 by (auto simp: mark_post_def)
  moreover have "set (new' @ new) \<subseteq> ?E\<^sup>* `` roots (xs @ ys)" using p q b by (auto simp: mark_post_def)
  moreover have "?E `` set (new' @ new) \<subseteq> marks (gc_objs g2)" using p q b m2 by (auto simp: mark_post_def Image_Un)
  ultimately show ?thesis using p q b by (auto simp: mark_post_def)
qed

definition unmarked :: "gcstate \<Rightarrow> nat" where
  "unmarked g = card (dom (gc_objs g) - marks (gc_objs g))"

lemma mark_post_unmarked:
  assumes "mark_post obs g gs ts new g'" "mark_inv g gs ts"
  shows "unmarked g' \<le> unmarked g"
proof -
  have "dom (gc_objs g') = dom (gc_objs g)" using assms(1) dom_bodies by (metis mark_post_def)
  moreover have "finite (dom (gc_objs g))" using assms(2) by (simp add: mark_inv_def)
  ultimately show ?thesis unfolding unmarked_def using mark_post_marks [OF assms] by (auto intro!: card_mono)
qed

lemma mark_all_ok:
  assumes "\<And>ob g gs ts. ob \<in> set obs \<Longrightarrow> bodies (gc_objs g) = B \<Longrightarrow> mark_inv g gs ts \<Longrightarrow> unmarked g \<le> n \<Longrightarrow>
      \<exists>g' new. f ob g = Some g' \<and> mark_post [ob] g gs ts new g'"
    and "bodies (gc_objs g) = B" "mark_inv g gs ts" "unmarked g \<le> n"
  shows "\<exists>g' new. mark_all f obs g = Some g' \<and> mark_post obs g gs ts new g'"
  using assms
proof (induction obs arbitrary: g gs ts)
  case Nil
  then show ?case using mark_post_Nil [of g gs ts "[]"] by auto
next
  case (Cons ob obs)
  obtain g1 new where g1: "f ob g = Some g1" "mark_post [ob] g gs ts new g1" using Cons.prems(1) [OF _ Cons.prems(2-4), of ob] by auto
  have "bodies (gc_objs g1) = B" "mark_inv g1 (filter (\<lambda>a. a \<notin> set new) gs) (new @ ts)" using g1(2) Cons.prems by (simp_all add: mark_post_def)
  moreover have "unmarked g1 \<le> n" using mark_post_unmarked [OF g1(2) Cons.prems(3)] Cons.prems(4) by simp
  moreover have "\<exists>g' new. f ob' g = Some g' \<and> mark_post [ob'] g gs ts new g'"
    if "ob' \<in> set obs" "bodies (gc_objs g) = B" "mark_inv g gs ts" "unmarked g \<le> n" for ob' g gs ts
    using Cons.prems(1) [OF _ that(2-4)] that(1) by simp
  ultimately obtain g2 new' where g2: "mark_all f obs g1 = Some g2" "mark_post obs g1 (filter (\<lambda>a. a \<notin> set new) gs) (new @ ts) new' g2"
    using Cons.IH by blast
  then show ?case using g1 mark_post_append [OF Cons.prems(3) g1(2) g2(2)] by auto
qed

lemma seg_same_links:
  assumes "H a = Some c" "co_prev c' = co_prev c" "co_next c' = co_next c"
  shows "seg (H(a \<mapsto> c')) p h0 xs e = seg H p h0 xs e"
  using assms by (induction xs arbitrary: p h0) auto

lemma start_mark_ok:
  assumes inv: "mark_inv g gs ts" and c: "gc_objs g a = Some c" "\<not> is_marked c"
  defines "g1 \<equiv> g\<lparr>gc_objs := (gc_objs g)(a \<mapsto> c\<lparr>co_uiRef := co_uiRef c OR MARK_FLAG\<rparr>)\<rparr>"
  shows "mark_inv g1 gs ts" "bodies (gc_objs g1) = bodies (gc_objs g)" "refs (gc_objs g1) = mark_refs {a} (refs (gc_objs g))"
    "marks (gc_objs g1) = marks (gc_objs g) \<union> {a}" "unmarked g1 < unmarked g" "a \<in> set gs"
proof -
  show b: "bodies (gc_objs g1) = bodies (gc_objs g)" using c by (simp add: g1_def bodies_def fun_eq_iff)
  show r: "refs (gc_objs g1) = mark_refs {a} (refs (gc_objs g))" using c by (simp add: g1_def refs_def mark_refs_def fun_eq_iff)
  show m: "marks (gc_objs g1) = marks (gc_objs g) \<union> {a}" using marks_mark_refs [OF r] c by auto
  show "mark_inv g1 gs ts" using inv c m by (auto simp: mark_inv_def chain_ok_def g1_def seg_same_links [of "gc_objs g", OF c(1)])
  have am: "a \<notin> marks (gc_objs g)" using marks_iff [of "gc_objs g", OF c(1)] c(2) by simp
  moreover have ad: "a \<in> dom (gc_objs g)" using c by auto
  ultimately show "a \<in> set gs" using inv by (auto simp: mark_inv_def)
  have "finite (dom (gc_objs g))" using inv by (simp add: mark_inv_def)
  moreover have "dom (gc_objs g1) - marks (gc_objs g1) \<subset> dom (gc_objs g) - marks (gc_objs g)"
    using am ad m b dom_bodies [of "gc_objs g1"] dom_bodies [of "gc_objs g"] by auto
  ultimately show "unmarked g1 < unmarked g" unfolding unmarked_def by (simp add: psubset_card_mono)
qed

lemma end_mark_ok:
  assumes inv: "mark_inv g gs ts" and a: "a \<in> set gs" "a \<in> marks (gc_objs g)"
  shows "\<exists>g'. end_mark a g = Some g' \<and> mark_inv g' (filter (\<lambda>y. y \<noteq> a) gs) (a # ts) \<and> same_core (gc_objs g) (gc_objs g')"
proof -
  have i: "chain_ok (gc_objs g) (gc_chain g) gs" "chain_ok (gc_objs g) (gc_tchain g) ts" "set gs \<inter> set ts = {}"
      "dom (gc_objs g) = set gs \<union> set ts" "set ts \<subseteq> marks (gc_objs g)" using inv by (simp_all add: mark_inv_def)
  obtain gc H where H: "RemoveFromChain (gc_chain g) a (gc_objs g) = Some (gc, H)" "chain_ok H gc (filter (\<lambda>y. y \<noteq> a) gs)"
      "same_core (gc_objs g) H" "\<forall>y. y \<notin> set gs \<longrightarrow> H y = gc_objs g y" using RemoveFromChain_ok [OF i(1) a(1)] by blast
  have "chain_ok H (gc_tchain g) ts" using chain_cong [of ts H "gc_objs g"] H(4) i(2,3) by blast
  moreover have "a \<notin> set ts" "a \<in> dom H" using a i same_core_dom [OF H(3)] by auto
  ultimately obtain H' where H': "AddToChain (gc_tchain g) a H = Some (Some a, H')" "chain_ok H' (Some a) (a # ts)" "same_core H H'"
      "\<forall>y. y \<notin> insert a (set ts) \<longrightarrow> H' y = H y" using AddToChain_ok [of H "gc_tchain g" ts a] by blast
  have c: "same_core (gc_objs g) H'" by (rule same_core_trans [OF H(3) H'(3)])
  have m: "marks H' = marks (gc_objs g)" using c by (simp add: marks_def same_core_def)
  have "chain_ok H' gc (filter (\<lambda>y. y \<noteq> a) gs)" using chain_cong [of "filter (\<lambda>y. y \<noteq> a) gs" H' H gc] H(2) H'(4) i(3) by auto
  then have "mark_inv \<lparr>gc_objs = H', gc_chain = gc, gc_tchain = Some a\<rparr> (filter (\<lambda>y. y \<noteq> a) gs) (a # ts)"
    using H'(2) same_core_dom [OF c] i a m by (auto simp: mark_inv_def)
  then show ?thesis using H(1) H'(1) c by (simp add: end_mark_def)
qed

lemma mark_post_object:
  assumes inv: "mark_inv g gs ts" and c: "gc_objs g a = Some c" "\<not> is_marked c" and cs: "children (bodies (gc_objs g)) (co_body c) = Some cs"
    and ob: "gc_addr ob = Some a"
    and p: "mark_post cs (g\<lparr>gc_objs := (gc_objs g)(a \<mapsto> c\<lparr>co_uiRef := co_uiRef c OR MARK_FLAG\<rparr>)\<rparr>) gs ts new g2"
  shows "\<exists>g3. end_mark a g2 = Some g3 \<and> mark_post [ob] g gs ts (a # new) g3"
proof -
  let ?g1 = "g\<lparr>gc_objs := (gc_objs g)(a \<mapsto> c\<lparr>co_uiRef := co_uiRef c OR MARK_FLAG\<rparr>)\<rparr>" and ?E = "edges (bodies (gc_objs g))"
  note st = start_mark_ok [OF inv c]
  have m2: "marks (gc_objs g2) = marks (gc_objs g) \<union> insert a (set new)" using mark_post_marks [OF p st(1)] st(4) by simp
  have an: "a \<notin> set new" using p st(4) by (auto simp: mark_post_def)
  have i2: "mark_inv g2 (filter (\<lambda>a. a \<notin> set new) gs) (new @ ts)" using p by (simp add: mark_post_def)
  obtain g3 where g3: "end_mark a g2 = Some g3" "mark_inv g3 (filter (\<lambda>y. y \<noteq> a) (filter (\<lambda>a. a \<notin> set new) gs)) (a # new @ ts)"
      "same_core (gc_objs g2) (gc_objs g3)" using end_mark_ok [OF i2] an st(6) m2 by auto
  have m3: "marks (gc_objs g3) = marks (gc_objs g2)" using g3(3) by (simp add: marks_def same_core_def)
  have f: "filter (\<lambda>y. y \<noteq> a) (filter (\<lambda>a. a \<notin> set new) gs) = filter (\<lambda>y. y \<notin> set (a # new)) gs"
    unfolding filter_filter by (rule filter_cong) auto
  have E: "?E `` {a} = roots cs" using c(1) cs by (auto simp: edges_def roots_def bodies_def)
  have "set new \<subseteq> ?E\<^sup>* `` (?E `` {a})" using p E st(2) by (simp add: mark_post_def)
  then have "set (a # new) \<subseteq> ?E\<^sup>* `` roots [ob]" using ob by (auto intro: converse_rtrancl_into_rtrancl)
  moreover have "?E `` set (a # new) \<subseteq> marks (gc_objs g3)" using p E m3 st(2) by (auto simp: mark_post_def)
  moreover have "refs (gc_objs g3) = mark_refs (set (a # new)) (refs (gc_objs g))"
    using g3(3) p st(3) mark_refs_union by (auto simp: same_core_def mark_post_def)
  moreover have "set (a # new) \<inter> marks (gc_objs g) = {}" using p st(4) marks_iff [of "gc_objs g", OF c(1)] c(2) by (auto simp: mark_post_def)
  ultimately have "mark_post [ob] g gs ts (a # new) g3"
    using g3(2,3) p st(2,6) ob m2 m3 unfolding mark_post_def f by (auto simp: same_core_def)
  then show ?thesis using g3(1) by blast
qed

lemma MarkObject_ok:
  assumes "store_fine (bodies (gc_objs g))" "mark_inv g gs ts" "obj_fine (bodies (gc_objs g)) ob"
  shows "\<exists>g' new. MarkObject ob g = Some g' \<and> mark_post [ob] g gs ts new g'"
  using assms
proof (induction "unmarked g" arbitrary: ob g gs ts rule: less_induct)
  case less
  show ?case
  proof (cases "gc_addr ob")
    case None
    then show ?thesis using mark_post_Nil [OF less.prems(2), of "[ob]"] by (auto simp: MarkObject.simps)
  next
    case (Some a)
    then obtain c where c: "gc_objs g a = Some c" "GetType (co_body c) = sq_type ob"
      using less.prems(3) by (auto simp: obj_fine_def bodies_def)
    show ?thesis
    proof (cases "is_marked c")
      case True
      then show ?thesis using Some c mark_post_Nil [OF less.prems(2), of "[ob]"] marks_iff [of "gc_objs g", OF c(1)] by (auto simp: MarkObject.simps)
    next
      case False
      have "bodies (gc_objs g) a = Some (co_body c)" using c(1) by (simp add: bodies_def)
      then obtain cs where cs: "children (bodies (gc_objs g)) (co_body c) = Some cs" "\<forall>ob \<in> set cs. obj_fine (bodies (gc_objs g)) ob"
        using less.prems(1) unfolding store_fine_def by blast
      let ?g1 = "g\<lparr>gc_objs := (gc_objs g)(a \<mapsto> c\<lparr>co_uiRef := co_uiRef c OR MARK_FLAG\<rparr>)\<rparr>"
      note st = start_mark_ok [OF less.prems(2) c(1) False]
      have "\<exists>g2 new. mark_all MarkObject cs ?g1 = Some g2 \<and> mark_post cs ?g1 gs ts new g2"
      proof (rule mark_all_ok [where n = "unmarked g - 1" and B = "bodies (gc_objs g)"])
        fix ob' g' gs' ts'
        assume asm: "ob' \<in> set cs" "bodies (gc_objs g') = bodies (gc_objs g)" "mark_inv g' gs' ts'" "unmarked g' \<le> unmarked g - 1"
        have "unmarked g' < unmarked g" using asm(4) st(5) by simp
        then show "\<exists>g'' new. MarkObject ob' g' = Some g'' \<and> mark_post [ob'] g' gs' ts' new g''"
          using less.hyps [of g' gs' ts' ob'] asm less.prems(1) cs(2) by simp
      qed (use st in simp_all)
      then obtain g2 new where g2: "mark_all MarkObject cs ?g1 = Some g2" "mark_post cs ?g1 gs ts new g2" by blast
      from mark_post_object [OF less.prems(2) c(1) False cs(1) Some g2(2)] g2(1) Some c False cs(1)
      show ?thesis by (subst MarkObject.simps) auto
    qed
  qed
qed

definition gc_root_objs :: "gcroots \<Rightarrow> sqobject list" where
  "gc_root_objs R = [ro_root_vm R] @ ref_Mark (ro_refs_table R) @
     [ro_registry R, ro_consts R, ro_metamethodsmap R, ro_table_default_delegate R, ro_array_default_delegate R,
      ro_string_default_delegate R, ro_number_default_delegate R, ro_generator_default_delegate R, ro_thread_default_delegate R,
      ro_closure_default_delegate R, ro_class_default_delegate R, ro_instance_default_delegate R, ro_weakref_default_delegate R]"

definition live :: "gcroots \<Rightarrow> (addr \<rightharpoonup> gcbody) \<Rightarrow> addr set" where
  "live R B = (edges B)\<^sup>* `` roots (gc_root_objs R)"

lemma mark_all_append: "mark_all f (xs @ ys) g = mark_all f xs g \<bind> mark_all f ys"
  by (induction xs arbitrary: g) (simp_all add: fun_eq_iff cong: bind_option_cong)

lemma RunMark_all: "RunMark R g = mark_all MarkObject (gc_root_objs R) g"
  unfolding gc_root_objs_def mark_all_append RunMark_def by (simp add: mark_all_append cong: bind_option_cong)

lemma RunMark_ok:
  assumes "chain_ok H chain gs" "dom H = set gs" "store_fine (bodies H)" "\<forall>ob \<in> set (gc_root_objs R). obj_fine (bodies H) ob" "marks H = {}"
  shows "\<exists>g ts. RunMark R \<lparr>gc_objs = H, gc_chain = chain, gc_tchain = None\<rparr> = Some g \<and>
    mark_inv g (filter (\<lambda>a. a \<notin> live R (bodies H)) gs) ts \<and> set ts = live R (bodies H) \<and> bodies (gc_objs g) = bodies H \<and>
    refs (gc_objs g) = mark_refs (live R (bodies H)) (refs H)"
proof -
  let ?g = "\<lparr>gc_objs = H, gc_chain = chain, gc_tchain = None\<rparr>" and ?E = "edges (bodies H)"
  have inv: "mark_inv ?g gs []" using assms by (simp add: mark_inv_def chain_ok_def)
  have "\<exists>g' new. mark_all MarkObject (gc_root_objs R) ?g = Some g' \<and> mark_post (gc_root_objs R) ?g gs [] new g'"
  proof (rule mark_all_ok [where B = "bodies H" and n = "unmarked ?g"])
    fix ob g' gs' ts'
    assume "ob \<in> set (gc_root_objs R)" "bodies (gc_objs g') = bodies H" "mark_inv g' gs' ts'"
    then show "\<exists>g'' new. MarkObject ob g' = Some g'' \<and> mark_post [ob] g' gs' ts' new g''"
      using MarkObject_ok [of g' gs' ts' ob] assms(3,4) by simp
  qed (use inv in simp_all)
  then obtain g ts where g: "RunMark R ?g = Some g" "mark_post (gc_root_objs R) ?g gs [] ts g" unfolding RunMark_all by blast
  have m: "marks (gc_objs g) = set ts" using mark_post_marks [OF g(2) inv] assms(5) by simp
  have rt: "roots (gc_root_objs R) \<subseteq> set ts" and "?E `` set ts \<subseteq> set ts" "set ts \<subseteq> live R (bodies H)"
    using g(2) m by (simp_all add: mark_post_def live_def)
  then have "?E\<^sup>* `` set ts = set ts" "set ts \<subseteq> live R (bodies H)" by (simp_all add: Image_closed_trancl)
  then have "set ts = live R (bodies H)" using Image_mono [OF order_refl rt, of "?E\<^sup>*"] unfolding live_def by blast
  then show ?thesis using g by (auto simp: mark_post_def)
qed

section \<open>The loops over a chain\<close>

definition on_set :: "addr set \<Rightarrow> (collectable \<Rightarrow> collectable) \<Rightarrow> gcstore \<Rightarrow> gcstore" where
  "on_set N f H a = (if a \<in> N then map_option f (H a) else H a)"

lemma on_set_seg:
  assumes "\<And>c. co_prev (f c) = co_prev c" "\<And>c. co_next (f c) = co_next c"
  shows "seg (on_set N f H) p h0 xs e = seg H p h0 xs e"
  using assms by (induction xs arbitrary: p h0) (auto simp: on_set_def)

lemma on_set_chain:
  assumes "\<And>c. co_prev (f c) = co_prev c" "\<And>c. co_next (f c) = co_next c"
  shows "chain_ok (on_set N f H) h0 xs = chain_ok H h0 xs"
  using on_set_seg [OF assms] by (simp add: chain_ok_def)

lemma on_set_dom [simp]: "dom (on_set N f H) = dom H"
  by (auto simp: on_set_def split: if_splits)

lemma on_set_insert: "H a = Some c \<Longrightarrow> a \<notin> N \<Longrightarrow> on_set N f (H(a \<mapsto> f c)) = on_set (insert a N) f H"
  by (auto simp: on_set_def fun_eq_iff)

lemma unmark_loop_ok:
  assumes "seg H p t xs None" "distinct xs"
  shows "unmark_loop t H = Some (on_set (set xs) UnMark H)"
  using assms
proof (induction xs arbitrary: H p t)
  case Nil
  then show ?case by (simp add: unmark_loop.simps on_set_def fun_eq_iff)
next
  case (Cons a xs)
  then obtain c where c: "t = Some a" "H a = Some c" "seg H (Some a) (co_next c) xs None" "a \<notin> set xs" by auto
  have "unmark_loop (co_next c) (H(a \<mapsto> UnMark c)) = Some (on_set (set xs) UnMark (H(a \<mapsto> UnMark c)))"
  proof (rule Cons.IH)
    show "seg (H(a \<mapsto> UnMark c)) (Some a) (co_next c) xs None" by (rule seg_frame [OF c(3)]) (use c(4) in auto)
  qed (use Cons.prems in simp)
  then show ?case using c by (simp add: unmark_loop.simps on_set_insert)
qed

definition kept :: "(addr \<rightharpoonup> gcbody) \<Rightarrow> addr \<Rightarrow> bool" where
  "kept B a \<longleftrightarrow> (\<exists>b. B a = Some b \<and> GetType b \<noteq> OT_FUNCPROTO \<and> GetType b \<noteq> OT_OUTER)"

definition objs_of :: "(addr \<rightharpoonup> gcbody) \<Rightarrow> addr list \<Rightarrow> sqobject list" where
  "objs_of B as = map (\<lambda>a. obj_at (the (B a)) a) as"

abbreviation count_ref :: "collectable \<Rightarrow> collectable" where
  "count_ref c \<equiv> c\<lparr>co_uiRef := co_uiRef c + 1\<rparr>"

lemma resurrect_loop_ok:
  assumes "seg H p t xs None" "distinct xs" "bodies H = B"
  shows "resurrect_loop t rlast n ret H =
    Some (n + length xs, lastp rlast xs, ret @ objs_of B (filter (kept B) xs), on_set (set (filter (kept B) xs)) count_ref H)"
  using assms
proof (induction xs arbitrary: H p t rlast n ret)
  case Nil
  then show ?case by (simp add: resurrect_loop.simps on_set_def objs_of_def fun_eq_iff)
next
  case (Cons a xs)
  then obtain c where c: "t = Some a" "H a = Some c" "seg H (Some a) (co_next c) xs None" "a \<notin> set xs" by auto
  have b: "B a = Some (co_body c)" using c(2) Cons.prems(3) by (auto simp: bodies_def)
  let ?H = "if kept B a then H(a \<mapsto> count_ref c) else H" and ?ret = "if kept B a then ret @ [obj_at (co_body c) a] else ret"
  have "resurrect_loop t rlast n ret H = resurrect_loop (co_next c) (Some a) (n + 1) ?ret ?H"
    using c b by (subst resurrect_loop.simps) (auto simp: kept_def)
  also have "\<dots> = Some (n + 1 + length xs, lastp (Some a) xs, ?ret @ objs_of B (filter (kept B) xs), on_set (set (filter (kept B) xs)) count_ref ?H)"
    by (rule Cons.IH [of _ "Some a"]) (use c b Cons.prems in \<open>auto simp: bodies_def fun_eq_iff\<close>)
  also have "on_set (set (filter (kept B) xs)) count_ref ?H = on_set (set (filter (kept B) (a # xs))) count_ref H"
    using c by (simp add: on_set_insert [of H a c, where f = count_ref])
  finally show ?case using b by (simp add: objs_of_def)
qed

lemma splice_ok:
  assumes x: "chain_ok H r xs" "xs \<noteq> []" and y: "chain_ok H ch ys" and d: "set xs \<inter> set ys = {}"
  shows "\<exists>H'. splice r (lastp None xs) ch H = Some H' \<and> chain_ok H' r (xs @ ys) \<and> same_core H H'"
proof -
  obtain as l where xs: "xs = as @ [l]" using x(2) by (metis rev_exhaust)
  have sx: "seg H None r xs None" "distinct xs" and sy: "seg H None (first None ys) ys None" "distinct ys" and ch: "ch = first None ys"
    using x y seg_first by (auto simp: chain_ok_def)
  obtain c where c: "H l = Some c" "co_next c = None" using sx(1) xs by (auto simp: seg_append)
  obtain H1 where H1: "upd_co l (\<lambda>y. y\<lparr>co_next := ch\<rparr>) H = Some H1" "seg H1 None r xs ch" "same_core H H1" "\<forall>y. y \<notin> set xs \<longrightarrow> H1 y = H y"
    using relink_end [OF sx, of ch] xs by auto
  have "seg H1 None (first None ys) ys None" by (rule seg_frame [OF sy(1)]) (use d H1(4) in auto)
  from relink_start [OF this sy(2), of "Some l"] obtain H2 where H2:
    "(case ch of None \<Rightarrow> Some H1 | Some n \<Rightarrow> upd_co n (\<lambda>y. y\<lparr>co_prev := Some l\<rparr>) H1) = Some H2"
    "seg H2 (Some l) (first None ys) ys None" "same_core H1 H2" "\<forall>y. y \<notin> set ys \<longrightarrow> H2 y = H1 y" unfolding ch by blast
  have "seg H2 None r xs ch" by (rule seg_frame [OF H1(2)]) (use d H2(4) in auto)
  then have "chain_ok H2 r (xs @ ys)" using H2(2) sx(2) sy(2) d unfolding chain_ok_def seg_append [of _ _ _ xs ys] ch by (simp add: xs)
  moreover have "splice r (lastp None xs) ch H = Some H2" using c H1(1) H2(1) xs by (simp add: splice_def)
  ultimately show ?thesis using same_core_trans [OF H1(3) H2(3)] by blast
qed

section \<open>Resurrection\<close>

definition count_refs :: "addr set \<Rightarrow> (addr \<rightharpoonup> u64) \<Rightarrow> addr \<rightharpoonup> u64" where
  "count_refs N r a = (if a \<in> N then map_option (\<lambda>x. x + 1) (r a) else r a)"

lemma unflag:
  assumes "r < 0x80000000"
  shows "(r OR MARK_FLAG) AND 0x7FFFFFFF = r" "r AND 0x7FFFFFFF = r" "r AND MARK_FLAG = 0"
proof -
  have t: "take_bit 31 r = r"
    using assms by (simp add: word_unat_eq_iff unsigned_take_bit_eq take_bit_nat_eq_self word_less_nat_alt)
  have m: "x AND 0x7FFFFFFF = take_bit 31 x" for x :: u64 by (simp add: take_bit_eq_mask mask_eq_exp_minus_1)
  have f: "take_bit 31 MARK_FLAG = 0" by (simp add: MARK_FLAG_def take_bit_eq_mask mask_eq_exp_minus_1)
  show "(r OR MARK_FLAG) AND 0x7FFFFFFF = r" "r AND 0x7FFFFFFF = r" using t f by (simp_all add: m take_bit_or)
  have "r AND MARK_FLAG = take_bit 31 r AND MARK_FLAG" using t by simp
  also have "\<dots> = r AND take_bit 31 MARK_FLAG" by (simp only: take_bit_eq_mask and.assoc and.commute [of "mask 31"])
  finally show "r AND MARK_FLAG = 0" using f by simp
qed

lemma count_small: "r < 0x7FFFFFFF \<Longrightarrow> r + 1 < 0x80000000" for r :: u64
  by unat_arith

definition unmark_refs :: "addr set \<Rightarrow> (addr \<rightharpoonup> u64) \<Rightarrow> addr \<rightharpoonup> u64" where
  "unmark_refs N r a = (if a \<in> N then map_option (\<lambda>x. x AND 0x7FFFFFFF) (r a) else r a)"

text \<open>Marking, counting and unmarking leave the counts of the store, with one more for each object that was counted.\<close>

lemma unmark_count_mark:
  assumes "\<And>a r. R a = Some r \<Longrightarrow> r < 0x7FFFFFFF" "K \<inter> L = {}" "dom R \<subseteq> N"
  shows "unmark_refs N (count_refs K (mark_refs L R)) = count_refs K R"
proof
  fix a
  show "unmark_refs N (count_refs K (mark_refs L R)) a = count_refs K R a"
  proof (cases "R a")
    case (Some r)
    then have r: "r < 0x7FFFFFFF" "a \<in> N" using assms by auto
    have "r < 0x80000000" using r(1) by (rule less_trans) simp
    then show ?thesis using Some r(2) unflag [of r] unflag(2) [OF count_small [OF r(1)]] assms(2)
      by (auto simp: unmark_refs_def count_refs_def mark_refs_def)
  qed (simp add: unmark_refs_def count_refs_def mark_refs_def)
qed

lemma on_set_bodies: "(\<And>c. co_body (f c) = co_body c) \<Longrightarrow> bodies (on_set N f H) = bodies H"
  by (auto simp: bodies_def on_set_def fun_eq_iff option.map_comp comp_def)

lemma on_set_refs:
  "refs (on_set N UnMark H) = unmark_refs N (refs H)" "refs (on_set N count_ref H) = count_refs N (refs H)"
  by (auto simp: refs_def on_set_def unmark_refs_def count_refs_def UnMark_def fun_eq_iff option.map_comp comp_def)

lemmas on_set_core = on_set_bodies on_set_refs on_set_chain

lemma refs_upd: "refs (H(a \<mapsto> c)) = (refs H)(a \<mapsto> co_uiRef c)" "bodies (H(a \<mapsto> c)) = (bodies H)(a \<mapsto> co_body c)"
  by (auto simp: refs_def bodies_def)

lemma chain_same_links:
  assumes "H a = Some c" "co_prev c' = co_prev c" "co_next c' = co_next c"
  shows "chain_ok (H(a \<mapsto> c')) h0 xs = chain_ok H h0 xs"
  using seg_same_links [of H, OF assms] by (simp add: chain_ok_def)

lemma UnMark_simps [simp]: "co_body (UnMark c) = co_body c" "co_prev (UnMark c) = co_prev c" "co_next (UnMark c) = co_next c"
  by (simp_all add: UnMark_def)

text \<open>What is done with the unreachable objects after marking.\<close>

lemma resurrect_tail:
  assumes u: "chain_ok H r us" "us \<noteq> []" and t: "chain_ok H tc ts" and d: "set us \<inter> set ts = {}" "dom H = set us \<union> set ts" and na: "na \<notin> dom H"
  defines "K \<equiv> filter (kept (bodies H)) us"
  shows "\<exists>ch H2 H4 H5 H7.
    AddToChain tc na (H(na \<mapsto> \<lparr>co_next = None, co_prev = None, co_uiRef = 0, co_body = B_Array []\<rparr>)) = Some (ch, H2) \<and>
    resurrect_loop r None 0 [] H2 = Some (length us, lastp None us, objs_of (bodies H) K, on_set (set K) count_ref H2) \<and>
    upd_co na (\<lambda>x. x\<lparr>co_body := B_Array (objs_of (bodies H) K)\<rparr>) (on_set (set K) count_ref H2) = Some H4 \<and>
    splice r (lastp None us) ch H4 = Some H5 \<and>
    unmark_loop r H5 = Some (on_set (dom H5) UnMark H5) \<and>
    upd_co na count_ref (on_set (dom H5) UnMark H5) = Some H7 \<and>
    chain_ok H7 r (us @ na # ts) \<and> dom H7 = insert na (dom H) \<and>
    bodies H7 = (bodies H)(na \<mapsto> B_Array (objs_of (bodies H) K)) \<and> refs H7 = (unmark_refs (dom H) (count_refs (set K) (refs H)))(na \<mapsto> 1)"
proof -
  let ?X = "\<lparr>co_next = None, co_prev = None, co_uiRef = 0, co_body = B_Array []\<rparr>"
  let ?H1 = "H(na \<mapsto> ?X)" and ?ret = "objs_of (bodies H) K"
  have nau: "na \<notin> set us" "na \<notin> set ts" using na d(2) by auto
  have c1: "chain_ok ?H1 r us" "chain_ok ?H1 tc ts" using u(1) t nau by (simp_all add: chain_ok_def)
  obtain H2 where H2: "AddToChain tc na ?H1 = Some (Some na, H2)" "chain_ok H2 (Some na) (na # ts)" "same_core ?H1 H2"
      "\<forall>y. y \<notin> insert na (set ts) \<longrightarrow> H2 y = ?H1 y" using AddToChain_ok [OF c1(2) nau(2)] by auto
  have b2: "bodies H2 = (bodies H)(na \<mapsto> B_Array [])" "refs H2 = (refs H)(na \<mapsto> 0)" using H2(3) by (simp_all add: same_core_def refs_upd)
  have u2: "chain_ok H2 r us" by (rule chain_frame [OF c1(1)]) (use H2(4) d(1) nau in auto)
  have K: "filter (kept (bodies H2)) us = K" unfolding K_def by (rule filter_cong) (use nau b2 in \<open>auto simp: kept_def\<close>)
  have ret: "objs_of (bodies H2) K = ?ret" using nau b2 unfolding objs_of_def K_def by auto
  have l: "resurrect_loop r None 0 [] H2 = Some (length us, lastp None us, ?ret, on_set (set K) count_ref H2)"
    using resurrect_loop_ok [of H2 None r us "bodies H2" None 0 "[]"] u2 K ret by (simp add: chain_ok_def)
  let ?H3 = "on_set (set K) count_ref H2"
  have d3: "dom ?H3 = insert na (dom H)" using same_core_dom [OF H2(3)] by simp
  then obtain c where c: "?H3 na = Some c" by blast
  let ?H4 = "?H3(na \<mapsto> c\<lparr>co_body := B_Array ?ret\<rparr>)"
  have c4: "chain_ok ?H4 r us" "chain_ok ?H4 (Some na) (na # ts)"
    using u2 H2(2) chain_same_links [of ?H3, OF c] by (simp_all add: on_set_chain)
  obtain H5 where H5: "splice r (lastp None us) (Some na) ?H4 = Some H5" "chain_ok H5 r (us @ na # ts)" "same_core ?H4 H5"
    using splice_ok [OF c4(1) u(2) c4(2)] d(1) nau by auto
  have d5: "dom H5 = set (us @ na # ts)" using same_core_dom [OF H5(3)] d3 d(2) by auto
  let ?H6 = "on_set (dom H5) UnMark H5"
  have m: "unmark_loop r H5 = Some ?H6" using unmark_loop_ok [of H5 None r "us @ na # ts"] H5(2) unfolding d5 by (simp add: chain_ok_def)
  have "na \<in> dom ?H6" using d5 by simp
  then obtain c6 where c6: "?H6 na = Some c6" by blast
  let ?H7 = "?H6(na \<mapsto> count_ref c6)"
  have c7: "chain_ok ?H7 r (us @ na # ts)" using H5(2) chain_same_links [of ?H6, OF c6] by (simp add: on_set_chain)
  have r6: "refs ?H6 = unmark_refs (dom H5) ((count_refs (set K) ((refs H)(na \<mapsto> 0)))(na \<mapsto> co_uiRef c))"
    using H5(3) b2 by (simp add: on_set_core same_core_def refs_upd)
  have naK: "na \<notin> set K" using nau by (simp add: K_def)
  have cr: "co_uiRef c = 0" using c b2(2) naK by (auto simp: on_set_def refs_def fun_eq_iff split: if_splits)
  have "co_uiRef c6 = 0" using fun_cong [OF r6, of na] c6 cr by (auto simp: refs_def unmark_refs_def split: if_splits)
  then have r7: "refs ?H7 = (unmark_refs (dom H) (count_refs (set K) (refs H)))(na \<mapsto> 1)"
    using r6 d5 d(2) naK by (auto simp: refs_upd unmark_refs_def count_refs_def fun_eq_iff)
  have "bodies ?H6 = (bodies H)(na \<mapsto> B_Array ?ret)" using H5(3) b2 by (simp add: same_core_def refs_upd on_set_core)
  moreover have "bodies ?H6 na = Some (co_body c6)" using c6 by (simp add: bodies_def)
  ultimately have "bodies ?H7 = (bodies H)(na \<mapsto> B_Array ?ret)" by (simp add: refs_upd)
  moreover have "dom ?H7 = insert na (dom H)" using d5 d(2) by auto
  moreover have "upd_co na (\<lambda>x. x\<lparr>co_body := B_Array ?ret\<rparr>) ?H3 = Some ?H4" using c by (simp add: upd_co_def)
  moreover have "upd_co na count_ref ?H6 = Some ?H7" using c6 by (simp add: upd_co_def)
  ultimately show ?thesis using H2(1) l H5(1) m c7 r7 by blast
qed

lemma no_marks: "(\<And>a r. refs H a = Some r \<Longrightarrow> r < 0x80000000) \<Longrightarrow> marks H = {}"
  using unflag(3) by (auto simp: marks_def)

lemma count_refs_small:
  assumes "\<And>a r. R a = Some r \<Longrightarrow> r < 0x7FFFFFFF" "count_refs N R a = Some r"
  shows "r < 0x80000000"
proof -
  obtain q where q: "R a = Some q" "r = q \<or> r = q + 1" using assms(2) by (auto simp: count_refs_def split: if_splits)
  then have "q < 0x7FFFFFFF" using assms(1) by blast
  moreover from this have "q < 0x80000000" by (rule less_trans) simp
  ultimately show ?thesis using q(2) count_small by auto
qed

lemma count_refs_none: "count_refs {} R = R"
  by (simp add: count_refs_def fun_eq_iff)

section \<open>Property\<close>

text \<open>
  C11. \<open>ResurrectUnreachable\<close> returns exactly the objects that cannot be reached: in a store whose
  objects are all on the chain, unmarked and well formed, it returns their number and an array of
  them, function prototypes and captured variables left out, or null if there are none. The
  chain still has all objects, the counts are as before with one more for each object
  of the array, and no mark is left.
\<close>

theorem resurrect_returns_unreachable:
  assumes "chain_ok H chain gs" "dom H = set gs" "store_fine (bodies H)" "\<forall>ob \<in> set (gc_root_objs R). obj_fine (bodies H) ob"
    "\<forall>r \<in> ran (refs H). r < 0x7FFFFFFF" "na \<notin> dom H"
    and us: "us = filter (\<lambda>a. a \<notin> live R (bodies H)) gs"
  shows "\<exists>ob h0 H' gs'. ResurrectUnreachable R na chain H = Some (length us, ob, h0, H') \<and> chain_ok H' h0 gs' \<and> dom H' = set gs' \<and> marks H' = {} \<and>
    (if us = [] then ob = VNull \<and> bodies H' = bodies H \<and> refs H' = refs H
     else ob = VArray na \<and> bodies H' = (bodies H)(na \<mapsto> B_Array (objs_of (bodies H) (filter (kept (bodies H)) us))) \<and>
       refs H' = (count_refs (set (filter (kept (bodies H)) us)) (refs H))(na \<mapsto> 1))"
proof -
  let ?L = "live R (bodies H)" and ?K = "filter (kept (bodies H)) us"
  have small: "\<And>a r. refs H a = Some r \<Longrightarrow> r < 0x7FFFFFFF" using assms(5) by (auto simp: ran_def)
  have dr: "dom (refs H) = dom H" by (auto simp: refs_def dom_def)
  have marksH: "marks H = {}" by (rule no_marks) (use count_refs_small [of "refs H" "{}"] small count_refs_none in metis)
  obtain g ts where g: "RunMark R \<lparr>gc_objs = H, gc_chain = chain, gc_tchain = None\<rparr> = Some g" "mark_inv g us ts" "set ts = ?L"
      "bodies (gc_objs g) = bodies H" "refs (gc_objs g) = mark_refs ?L (refs H)"
    using RunMark_ok [OF assms(1-4) marksH] us by blast
  let ?G = "gc_objs g"
  have i: "chain_ok ?G (gc_chain g) us" "chain_ok ?G (gc_tchain g) ts" "set us \<inter> set ts = {}" "dom ?G = set us \<union> set ts"
    using g(2) by (simp_all add: mark_inv_def)
  have dG: "dom ?G = dom H" using g(4) dom_bodies by metis
  have restore: "unmark_refs (dom ?G) (count_refs K (refs ?G)) = count_refs K (refs H)" if "K \<inter> ?L = {}" for K
    unfolding g(5) by (rule unmark_count_mark) (use small that dG dr in auto)
  have fst: "gc_chain g = first None us" using i(1) seg_first unfolding chain_ok_def by blast
  show ?thesis
  proof (cases "us = []")
    case True
    let ?H = "on_set (set ts) UnMark ?G"
    have "unmark_loop (gc_tchain g) ?G = Some ?H" using unmark_loop_ok i(2) by (auto simp: chain_ok_def)
    then have "ResurrectUnreachable R na chain H = Some (0, VNull, gc_tchain g, ?H)"
      using g(1) True fst by (simp add: ResurrectUnreachable_def)
    moreover have rf: "refs ?H = refs H" using restore [of "{}"] i(4) True by (simp add: on_set_core count_refs_none)
    moreover have "marks ?H = {}" using rf marksH by (simp add: marks_def)
    moreover have "chain_ok ?H (gc_tchain g) ts" "bodies ?H = bodies H" "dom ?H = set ts" using i True g(4) by (simp_all add: on_set_core)
    ultimately show ?thesis using True by auto
  next
    case False
    have nG: "na \<notin> dom ?G" using dG assms(6) by simp
    obtain ch H2 H4 H5 H7 where t:
      "AddToChain (gc_tchain g) na (?G(na \<mapsto> \<lparr>co_next = None, co_prev = None, co_uiRef = 0, co_body = B_Array []\<rparr>)) = Some (ch, H2)"
      "resurrect_loop (gc_chain g) None 0 [] H2 = Some (length us, lastp None us, objs_of (bodies H) ?K, on_set (set ?K) count_ref H2)"
      "upd_co na (\<lambda>x. x\<lparr>co_body := B_Array (objs_of (bodies H) ?K)\<rparr>) (on_set (set ?K) count_ref H2) = Some H4"
      "splice (gc_chain g) (lastp None us) ch H4 = Some H5" "unmark_loop (gc_chain g) H5 = Some (on_set (dom H5) UnMark H5)"
      "upd_co na count_ref (on_set (dom H5) UnMark H5) = Some H7" "chain_ok H7 (gc_chain g) (us @ na # ts)" "dom H7 = insert na (dom ?G)"
      "bodies H7 = (bodies H)(na \<mapsto> B_Array (objs_of (bodies H) ?K))" "refs H7 = (unmark_refs (dom ?G) (count_refs (set ?K) (refs ?G)))(na \<mapsto> 1)"
      using resurrect_tail [OF i(1) False i(2-4) nG] unfolding g(4) by blast
    obtain f where f: "gc_chain g = Some f" using fst False by (cases us) auto
    have "ResurrectUnreachable R na chain H = Some (length us, VArray na, gc_chain g, H7)"
      unfolding ResurrectUnreachable_def using g(1) t(1-6) f by simp
    moreover have "set ?K \<inter> ?L = {}" using us by auto
    then have rf: "refs H7 = (count_refs (set ?K) (refs H))(na \<mapsto> 1)" unfolding t(10) by (simp only: restore)
    moreover have "marks H7 = {}"
      by (rule no_marks) (use count_refs_small small in \<open>auto simp: rf split: if_splits\<close>)
    moreover have "dom H7 = set (us @ na # ts)" using t(8) i(4) by auto
    ultimately show ?thesis using t(7,9) False by auto
  qed
qed

section \<open>A sample store\<close>

text \<open>A thread whose stack holds a table that holds an array, and two arrays that hold each other.\<close>

definition sample_objs :: gcstore where
  "sample_objs = [8 \<mapsto> \<lparr>co_next = Some 16, co_prev = None, co_uiRef = 1, co_body = B_Thread VNull VNull VNull VNull VNull [VTable 16] []\<rparr>,
     16 \<mapsto> \<lparr>co_next = Some 24, co_prev = Some 8, co_uiRef = 1, co_body = B_Table None [(VInteger 0, VArray 24)]\<rparr>,
     24 \<mapsto> \<lparr>co_next = Some 32, co_prev = Some 16, co_uiRef = 1, co_body = B_Array []\<rparr>,
     32 \<mapsto> \<lparr>co_next = Some 40, co_prev = Some 24, co_uiRef = 1, co_body = B_Array [VArray 40]\<rparr>,
     40 \<mapsto> \<lparr>co_next = None, co_prev = Some 32, co_uiRef = 1, co_body = B_Array [VArray 32]\<rparr>]"

definition sample_roots :: gcroots where
  "sample_roots = \<lparr>ro_root_vm = VThread 8, ro_refs_table = ref_new, ro_registry = VNull, ro_consts = VNull, ro_metamethodsmap = VNull,
     ro_table_default_delegate = VNull, ro_array_default_delegate = VNull, ro_string_default_delegate = VNull,
     ro_number_default_delegate = VNull, ro_generator_default_delegate = VNull, ro_thread_default_delegate = VNull,
     ro_closure_default_delegate = VNull, ro_class_default_delegate = VNull, ro_instance_default_delegate = VNull,
     ro_weakref_default_delegate = VNull\<rparr>"

lemma sample_bodies: "bodies sample_objs = [8 \<mapsto> B_Thread VNull VNull VNull VNull VNull [VTable 16] [], 16 \<mapsto> B_Table None [(VInteger 0, VArray 24)],
    24 \<mapsto> B_Array [], 32 \<mapsto> B_Array [VArray 40], 40 \<mapsto> B_Array [VArray 32]]"
  by (simp add: bodies_def sample_objs_def fun_eq_iff)

lemma sample_root_objs: "gc_root_objs sample_roots = VThread 8 # replicate 13 VNull"
  by (simp add: gc_root_objs_def sample_roots_def ref_Mark_def ref_new_def ref_AllocNodes_def eval_nat_numeral upt_rec)

lemma sample_edges: "edges (bodies sample_objs) = {(8, 16), (16, 24), (32, 40), (40, 32)}"
  unfolding sample_bodies by (auto simp: edges_def opt_obj_def pairs_def ex_disj_distrib conj_disj_distribR split: if_splits)

lemma sample_store_fine: "store_fine (bodies sample_objs)"
  unfolding store_fine_def sample_bodies by (auto simp: obj_fine_def opt_obj_def pairs_def split: if_splits)

lemma sample_live: "live sample_roots (bodies sample_objs) = {8, 16, 24}"
proof
  have r: "roots (gc_root_objs sample_roots) = {8}" unfolding sample_root_objs by (simp add: eval_nat_numeral)
  have "edges (bodies sample_objs) `` {8, 16, 24} \<subseteq> {8, 16, 24}" unfolding sample_edges by auto
  then have "(edges (bodies sample_objs))\<^sup>* `` {8, 16, 24} = {8, 16, 24}" by (rule Image_closed_trancl)
  then show "live sample_roots (bodies sample_objs) \<subseteq> {8, 16, 24}" unfolding live_def r by blast
  have "(8, 16) \<in> edges (bodies sample_objs)" "(16, 24) \<in> edges (bodies sample_objs)" unfolding sample_edges by simp_all
  then show "{8, 16, 24} \<subseteq> live sample_roots (bodies sample_objs)" unfolding live_def r by (auto intro: rtrancl_into_rtrancl)
qed

theorem resurrect_returns_unreachable_witness:
  "\<exists>h0 H'. ResurrectUnreachable sample_roots 48 (Some 8) sample_objs = Some (2, VArray 48, h0, H') \<and>
     bodies H' 48 = Some (B_Array [VArray 32, VArray 40]) \<and> marks H' = {}"
proof -
  have "chain_ok sample_objs (Some 8) [8, 16, 24, 32, 40]" "dom sample_objs = set [8, 16, 24, 32, 40]" "48 \<notin> dom sample_objs"
    by (auto simp: chain_ok_def sample_objs_def)
  moreover have "\<forall>ob \<in> set (gc_root_objs sample_roots). obj_fine (bodies sample_objs) ob"
    unfolding sample_root_objs by (auto simp: obj_fine_def sample_bodies)
  moreover have "\<forall>r \<in> ran (refs sample_objs). r < 0x7FFFFFFF" by (auto simp: ran_def refs_def sample_objs_def split: if_splits)
  moreover have "[32, 40] = filter (\<lambda>a. a \<notin> live sample_roots (bodies sample_objs)) [8, 16, 24, 32, 40]" unfolding sample_live by simp
  ultimately show ?thesis using resurrect_returns_unreachable [of sample_objs "Some 8" "[8, 16, 24, 32, 40]" sample_roots 48 "[32, 40]"] sample_store_fine
    by (auto simp: kept_def objs_of_def sample_bodies obj_at_def)
qed

end
