(* ===== verification/Sq_Frames.thy ===== *)
theory Sq_Frames
  imports Sq_Arith
begin

text \<open>
  The stack of the virtual machine: call frames, captured variables and generators (\<^verbatim>\<open>sqvm.cpp\<close>: \<open>EnterFrame\<close>,
  \<open>LeaveFrame\<close>, \<open>StartCall\<close>, \<open>Return\<close>, \<open>TailCall\<close>, \<open>FindOuter\<close>, \<open>CloseOuters\<close>, \<open>RelocateOuters\<close>, the end of
  \<open>Execute\<close> that handles errors; \<^verbatim>\<open>sqobject.cpp\<close>: \<open>Yield\<close> and \<open>Resume\<close>). The debug hook is not set.

  The slots of the stack are at the addresses \<open>fm_vals\<close>, \<open>fm_vals + 1\<close>, and so on, in units of a slot;
  growing the stack may move it. A captured variable (\<open>SQOuter\<close>) points to a slot as long as it is open,
  and then to its own value. \<^const>\<open>None\<close> is an access outside of the stack, a dangling pointer, a
  failed assertion or a loop that does not end.
\<close>

section \<open>State\<close>

record outer =
  ot_valptr :: "nat option"
  ot_idx :: nat
  ot_value :: sqobject
  ot_next :: "addr option"
  ot_uiRef :: nat

record exceptiontrap =
  et_stackbase :: int
  et_stacksize :: int
  et_ip :: int
  et_extarget :: int

record callinfo =
  ci_ip :: int
  ci_closure :: sqobject
  ci_generator :: "addr option"
  ci_etraps :: int
  ci_prevstkbase :: int
  ci_prevtop :: int
  ci_target :: int
  ci_ncalls :: int
  ci_root :: bool

datatype genstate = eRunning | eSuspended | eDead

record generator =
  gn_closure :: sqobject
  gn_stack :: "sqobject list"
  gn_ci :: callinfo
  gn_etraps :: "exceptiontrap list"
  gn_state :: genstate

text \<open>The call stack and the stack of traps are lists with the top at the end; \<open>ci\<close> is the last frame.\<close>

record frames =
  fm_vals :: nat
  fm_stack :: "sqobject list"
  fm_top :: int
  fm_stackbase :: int
  fm_openouters :: "addr option"
  fm_outers :: "addr \<rightharpoonup> outer"
  fm_callsstack :: "callinfo list"
  fm_alloccallsstacksize :: nat
  fm_etraps :: "exceptiontrap list"
  fm_nmetamethodscall :: int
  fm_generators :: "addr \<rightharpoonup> generator"
  fm_arrays :: "addr \<rightharpoonup> sqobject list"

definition stk_get :: "int \<Rightarrow> frames \<Rightarrow> sqobject option" where
  "stk_get i s = (if 0 \<le> i \<and> i < int (length (fm_stack s)) then Some (fm_stack s ! nat i) else None)"

definition stk_set :: "int \<Rightarrow> sqobject \<Rightarrow> frames \<Rightarrow> frames option" where
  "stk_set i v s = (if 0 \<le> i \<and> i < int (length (fm_stack s)) then Some (s\<lparr>fm_stack := (fm_stack s)[nat i := v]\<rparr>) else None)"

definition stk_addr :: "int \<Rightarrow> frames \<Rightarrow> nat option" where
  "stk_addr i s = (if 0 \<le> i \<and> i < int (length (fm_stack s)) then Some (fm_vals s + nat i) else None)"

section \<open>Captured variables\<close>

text \<open>The value that \<open>_valptr\<close> points to, and the assignment through it, as in \<open>_OP_GETOUTER\<close> and \<open>_OP_SETOUTER\<close>.\<close>

definition outer_get :: "addr \<Rightarrow> frames \<Rightarrow> sqobject option" where
  "outer_get a s = do {
     otr \<leftarrow> fm_outers s a;
     case ot_valptr otr of
       None \<Rightarrow> Some (ot_value otr)
     | Some p \<Rightarrow> stk_get (int p - int (fm_vals s)) s
   }"

definition outer_set :: "addr \<Rightarrow> sqobject \<Rightarrow> frames \<Rightarrow> frames option" where
  "outer_set a v s = do {
     otr \<leftarrow> fm_outers s a;
     case ot_valptr otr of
       None \<Rightarrow> Some (s\<lparr>fm_outers := (fm_outers s)(a \<mapsto> otr\<lparr>ot_value := v\<rparr>)\<rparr>)
     | Some p \<Rightarrow> stk_set (int p - int (fm_vals s)) v s
   }"

text \<open>
  The loop of \<open>FindOuter\<close> over the open variables, from the top of the stack down. \<open>prev\<close> is the variable
  whose link is \<open>*pp\<close>, or none for \<open>_openouters\<close>; the second result is \<open>*pp\<close>, the third whether
  it is the variable of the slot.
\<close>

partial_function (option) find_open_outer :: "nat \<Rightarrow> addr option \<Rightarrow> addr option \<Rightarrow> (addr \<rightharpoonup> outer) \<Rightarrow> (addr option \<times> addr option \<times> bool) option" where
  "find_open_outer stackindex prev p Os =
     (case p of
        None \<Rightarrow> Some (prev, None, False)
      | Some a \<Rightarrow> do {
          otr \<leftarrow> Os a;
          v \<leftarrow> ot_valptr otr;
          if v \<ge> stackindex then
            (if v = stackindex then Some (prev, p, True) else find_open_outer stackindex p (ot_next otr) Os)
          else Some (prev, p, False)
        })"

text \<open>A new variable is made at the address \<open>na\<close>; it is held by the list and by the target.\<close>

definition FindOuter :: "nat \<Rightarrow> addr \<Rightarrow> frames \<Rightarrow> (addr \<times> frames) option" where
  "FindOuter stackindex na s = do {
     (prev, p, found) \<leftarrow> find_open_outer stackindex None (fm_openouters s) (fm_outers s);
     if found then do {
       a \<leftarrow> p;
       otr \<leftarrow> fm_outers s a;
       Some (a, s\<lparr>fm_outers := (fm_outers s)(a \<mapsto> otr\<lparr>ot_uiRef := ot_uiRef otr + 1\<rparr>)\<rparr>)
     }
     else do {
       let Os = (fm_outers s)(na \<mapsto> \<lparr>ot_valptr = Some stackindex, ot_idx = stackindex - fm_vals s, ot_value = VNull, ot_next = p, ot_uiRef = 2\<rparr>);
       case prev of
         None \<Rightarrow> Some (na, s\<lparr>fm_outers := Os, fm_openouters := Some na\<rparr>)
       | Some b \<Rightarrow> do {
           otr \<leftarrow> Os b;
           Some (na, s\<lparr>fm_outers := Os(b \<mapsto> otr\<lparr>ot_next := Some na\<rparr>)\<rparr>)
         }
     }
   }"

text \<open>\<open>__ObjRelease\<close> on a captured variable, which is freed with its last reference.\<close>

definition outer_release :: "addr \<Rightarrow> frames \<Rightarrow> frames option" where
  "outer_release a s = do {
     otr \<leftarrow> fm_outers s a;
     let n = ot_uiRef otr - 1;
     Some (s\<lparr>fm_outers := (fm_outers s)(a := if n = 0 then None else Some (otr\<lparr>ot_uiRef := n\<rparr>))\<rparr>)
   }"

partial_function (option) CloseOuters :: "nat \<Rightarrow> frames \<Rightarrow> frames option" where
  "CloseOuters stackindex s =
     (case fm_openouters s of
        None \<Rightarrow> Some s
      | Some a \<Rightarrow> do {
          otr \<leftarrow> fm_outers s a;
          v \<leftarrow> ot_valptr otr;
          if v \<ge> stackindex then do {
            x \<leftarrow> stk_get (int v - int (fm_vals s)) s;
            s \<leftarrow> outer_release a (s\<lparr>fm_outers := (fm_outers s)(a \<mapsto> otr\<lparr>ot_value := x, ot_valptr := None\<rparr>), fm_openouters := ot_next otr\<rparr>);
            CloseOuters stackindex s
          }
          else Some s
        })"

partial_function (option) relocate_loop :: "addr option \<Rightarrow> frames \<Rightarrow> frames option" where
  "relocate_loop p s =
     (case p of
        None \<Rightarrow> Some s
      | Some a \<Rightarrow> do {
          otr \<leftarrow> fm_outers s a;
          relocate_loop (ot_next otr) (s\<lparr>fm_outers := (fm_outers s)(a \<mapsto> otr\<lparr>ot_valptr := Some (fm_vals s + ot_idx otr)\<rparr>)\<rparr>)
        })"

definition RelocateOuters :: "frames \<Rightarrow> frames option" where
  "RelocateOuters s = relocate_loop (fm_openouters s) s"

section \<open>Frames\<close>

definition MIN_STACK_OVERHEAD :: int where "MIN_STACK_OVERHEAD = 15"

text \<open>\<open>sqvector::resize\<close>; \<open>nv\<close> is the address of the block afterwards.\<close>

definition stack_resize :: "nat \<Rightarrow> nat \<Rightarrow> frames \<Rightarrow> frames" where
  "stack_resize n nv s = s\<lparr>fm_vals := nv, fm_stack := take n (fm_stack s) @ replicate (n - length (fm_stack s)) VNull\<rparr>"

definition to_i32 :: "int \<Rightarrow> int" where
  "to_i32 i = sint (word_of_int i :: 32 word)"

definition GrowCallStack :: "frames \<Rightarrow> frames" where
  "GrowCallStack s = s\<lparr>fm_alloccallsstacksize := fm_alloccallsstacksize s * 2\<rparr>"

definition upd_ci :: "(callinfo \<Rightarrow> callinfo) \<Rightarrow> frames \<Rightarrow> frames option" where
  "upd_ci f s = (if fm_callsstack s = [] then None
     else Some (s\<lparr>fm_callsstack := butlast (fm_callsstack s) @ [f (last (fm_callsstack s))]\<rparr>))"

text \<open>
  The new frame keeps the closure, instruction pointer and target that the entry of the call stack had, which
  the callers overwrite; the model starts them at null and 0.
\<close>

definition push_frame :: "int \<Rightarrow> frames \<Rightarrow> frames" where
  "push_frame newbase s =
     (let s = (if length (fm_callsstack s) = fm_alloccallsstacksize s then GrowCallStack s else s)
      in s\<lparr>fm_callsstack := fm_callsstack s @ [\<lparr>ci_ip = 0, ci_closure = VNull, ci_generator = None, ci_etraps = 0,
             ci_prevstkbase = to_i32 (newbase - fm_stackbase s), ci_prevtop = to_i32 (fm_top s - fm_stackbase s),
             ci_target = 0, ci_ncalls = 1, ci_root = False\<rparr>]\<rparr>)"

definition EnterFrame :: "int \<Rightarrow> int \<Rightarrow> bool \<Rightarrow> nat \<Rightarrow> frames \<Rightarrow> ((vm_error + unit) \<times> frames) option" where
  "EnterFrame newbase newtop tailcall nv s = do {
     s \<leftarrow> (if \<not> tailcall then Some (push_frame newbase s) else upd_ci (\<lambda>ci. ci\<lparr>ci_ncalls := ci_ncalls ci + 1\<rparr>) s);
     let s = s\<lparr>fm_stackbase := newbase, fm_top := newtop\<rparr>;
     if newtop + MIN_STACK_OVERHEAD > int (length (fm_stack s)) then
       if fm_nmetamethodscall s \<noteq> 0 then Some (Inl (Raise_Error ''stack overflow, cannot resize stack while in a metamethod''), s)
       else do {
         s \<leftarrow> RelocateOuters (stack_resize (nat (newtop + MIN_STACK_OVERHEAD * 4)) nv s);
         Some (Inr (), s)
       }
     else Some (Inr (), s)
   }"

text \<open>
  \<open>sq_reservestack\<close> makes room for the host. Unlike \<open>EnterFrame\<close> it does not call \<open>RelocateOuters\<close>.
\<close>

definition sq_reservestack :: "int \<Rightarrow> nat \<Rightarrow> frames \<Rightarrow> (vm_error + unit) \<times> frames" where
  "sq_reservestack nsize nv s =
     (let n = (fm_top s + nsize) mod 2 ^ 64
      in if n > int (length (fm_stack s)) then
           if fm_nmetamethodscall s \<noteq> 0 then (Inl (Raise_Error ''cannot resize stack while in a metamethod''), s)
           else (Inr (), stack_resize (nat n) nv s)
         else (Inr (), s))"

text \<open>The loop that clears the slots from the old top down to the new one.\<close>

function null_down :: "int \<Rightarrow> int \<Rightarrow> frames \<Rightarrow> frames option" where
  "null_down last_top newtop s = (if last_top \<ge> newtop then stk_set last_top VNull s \<bind> null_down (last_top - 1) newtop else Some s)"
  by auto
termination by (relation "measure (\<lambda>(l, t, _). nat (l - t + 1))") auto

definition LeaveFrame :: "frames \<Rightarrow> frames option" where
  "LeaveFrame s =
     (if fm_callsstack s = [] then None
      else do {
        let last_top = fm_top s;
        let last_stackbase = fm_stackbase s;
        let ci = last (fm_callsstack s);
        let base = fm_stackbase s - ci_prevstkbase ci;
        let s = s\<lparr>fm_callsstack := butlast (fm_callsstack s), fm_stackbase := base, fm_top := base + ci_prevtop ci\<rparr>;
        s \<leftarrow> (if fm_openouters s \<noteq> None then do { p \<leftarrow> stk_addr last_stackbase s; CloseOuters p s } else Some s);
        null_down last_top (fm_top s) s
      })"

text \<open>\<open>Return\<close> gives the value that goes to \<open>retval\<close>, if the frame is the root of \<open>Execute\<close>.\<close>

definition vm_Return :: "int \<Rightarrow> int \<Rightarrow> frames \<Rightarrow> (sqobject option \<times> frames) option" where
  "vm_Return arg0 arg1 s =
     (if fm_callsstack s = [] then None
      else do {
        let ci = last (fm_callsstack s);
        let callerbase = fm_stackbase s - ci_prevstkbase ci;
        if \<not> ci_root ci \<and> ci_target ci = - 1 then do { s \<leftarrow> LeaveFrame s; Some (None, s) }
        else do {
          v \<leftarrow> (if arg0 \<noteq> 0xFF then stk_get (fm_stackbase s + arg1) s else Some VNull);
          s \<leftarrow> (if ci_root ci then Some s else stk_set (callerbase + ci_target ci) v s);
          s \<leftarrow> LeaveFrame s;
          Some (if ci_root ci then Some v else None, s)
        }
      })"

section \<open>Generators\<close>

text \<open>
  \<open>wr\<close> gives the weak reference that \<open>GetWeakRef\<close> returns for an object. The traps of the frame move to the
  generator in the opposite order, relative to the base of the frame.
\<close>

definition move_traps :: "nat \<Rightarrow> int \<Rightarrow> exceptiontrap list \<Rightarrow> exceptiontrap list \<Rightarrow> (exceptiontrap list \<times> exceptiontrap list) option" where
  "move_traps n d from to =
     (if n \<le> length from
      then Some (take (length from - n) from,
                 to @ map (\<lambda>et. et\<lparr>et_stackbase := et_stackbase et + d, et_stacksize := et_stacksize et + d\<rparr>) (rev (drop (length from - n) from)))
      else None)"

fun stk_gets :: "int \<Rightarrow> nat \<Rightarrow> frames \<Rightarrow> sqobject list option" where
  "stk_gets i 0 s = Some []"
| "stk_gets i (Suc n) s = do { v \<leftarrow> stk_get i s; vs \<leftarrow> stk_gets (i + 1) n s; Some (v # vs) }"

fun stk_sets :: "int \<Rightarrow> sqobject list \<Rightarrow> frames \<Rightarrow> frames option" where
  "stk_sets i [] s = Some s"
| "stk_sets i (v # vs) s = do { s \<leftarrow> stk_set i v s; stk_sets (i + 1) vs s }"

definition Yield :: "(sqobject \<Rightarrow> addr) \<Rightarrow> addr \<Rightarrow> int \<Rightarrow> frames \<Rightarrow> ((vm_error + unit) \<times> frames) option" where
  "Yield wr ga target s = do {
     gn \<leftarrow> fm_generators s ga;
     case gn_state gn of
       eSuspended \<Rightarrow> Some (Inl (Raise_Error ''internal vm error, yielding dead generator''), s)
     | eDead \<Rightarrow> Some (Inl (Raise_Error ''internal vm error, yielding a dead generator''), s)
     | eRunning \<Rightarrow>
         if fm_callsstack s = [] then None
         else do {
           let size = nat (fm_top s - fm_stackbase s);
           let ci = last (fm_callsstack s);
           this \<leftarrow> stk_get (fm_stackbase s) s;
           vs \<leftarrow> stk_gets (fm_stackbase s + 1) (nat (target - 1)) s;
           if size = 0 \<or> size < nat target then None
           else do {
             let stk = (if ISREFCOUNTED (sq_type this) then VWeakRef (wr this) else this) # vs @ replicate (size - Suc (length vs)) VNull;
             s \<leftarrow> stk_sets (fm_stackbase s) (replicate size VNull) s;
             (ets, gets) \<leftarrow> move_traps (nat (ci_etraps ci)) (- fm_stackbase s) (fm_etraps s) (gn_etraps gn);
             Some (Inr (), s\<lparr>fm_etraps := ets, fm_generators := (fm_generators s)(ga \<mapsto>
               gn\<lparr>gn_stack := stk, gn_ci := ci\<lparr>ci_generator := None\<rparr>, gn_etraps := gets, gn_state := eSuspended\<rparr>)\<rparr>)
           }
         }
   }"

text \<open>\<open>dest\<close> is the register of the caller that gets the next value; \<open>W\<close> gives what weak references refer to.\<close>

definition Resume :: "weakstore \<Rightarrow> addr \<Rightarrow> int \<Rightarrow> nat \<Rightarrow> frames \<Rightarrow> ((vm_error + unit) \<times> frames) option" where
  "Resume W ga dest nv s = do {
     gn \<leftarrow> fm_generators s ga;
     case gn_state gn of
       eDead \<Rightarrow> Some (Inl (Raise_Error ''resuming dead generator''), s)
     | eRunning \<Rightarrow> Some (Inl (Raise_Error ''resuming active generator''), s)
     | eSuspended \<Rightarrow>
         if \<not> (0 \<le> dest \<and> dest \<le> 255) then None
         else do {
           let size = length (gn_stack gn);
           let newbase = fm_top s;
           (r, s) \<leftarrow> EnterFrame newbase (newbase + int size) False nv s;
           case r of
             Inl e \<Rightarrow> Some (Inl e, s)
           | Inr _ \<Rightarrow> do {
               s \<leftarrow> upd_ci (\<lambda>ci. ci\<lparr>ci_generator := Some ga, ci_target := dest, ci_closure := ci_closure (gn_ci gn), ci_ip := ci_ip (gn_ci gn),
                      ci_ncalls := ci_ncalls (gn_ci gn), ci_etraps := ci_etraps (gn_ci gn), ci_root := ci_root (gn_ci gn)\<rparr>) s;
               (gets, ets) \<leftarrow> move_traps (nat (ci_etraps (gn_ci gn))) newbase (gn_etraps gn) (fm_etraps s);
               if gn_stack gn = [] then None
               else do {
                 s \<leftarrow> stk_sets (fm_stackbase s) (realval W (hd (gn_stack gn)) # tl (gn_stack gn)) s;
                 Some (Inr (), s\<lparr>fm_etraps := ets, fm_generators := (fm_generators s)(ga \<mapsto>
                   gn\<lparr>gn_stack := hd (gn_stack gn) # replicate (size - 1) VNull, gn_etraps := gets, gn_state := eRunning\<rparr>)\<rparr>)
               }
             }
         }
   }"

definition Kill :: "addr \<Rightarrow> frames \<Rightarrow> frames option" where
  "Kill ga s = do {
     gn \<leftarrow> fm_generators s ga;
     Some (s\<lparr>fm_generators := (fm_generators s)(ga \<mapsto> gn\<lparr>gn_state := eDead, gn_stack := [], gn_closure := VNull\<rparr>)\<rparr>)
   }"

section \<open>Calls\<close>

text \<open>What a call needs of a closure and its function.\<close>

record callee =
  ca_closure :: sqobject
  ca_nparameters :: int
  ca_stacksize :: int
  ca_varparams :: bool
  ca_bgenerator :: bool
  ca_defaultparams :: "sqobject list"
  ca_env :: "sqobject option"

definition wrong_params :: "string \<Rightarrow> int \<Rightarrow> int \<Rightarrow> vm_error" where
  "wrong_params how passed required = Raise_Error (''wrong number of parameters ('' @ print_integer (word_of_int (to_i32 passed)) @ '' passed, '' @ how @
     print_integer (word_of_int (to_i32 required)) @ '' required)'')"

text \<open>The parameters: the surplus ones go into an array at the address \<open>aa\<close>, missing ones get their default values.\<close>

definition bind_params :: "callee \<Rightarrow> int \<Rightarrow> int \<Rightarrow> addr \<Rightarrow> frames \<Rightarrow> ((vm_error + unit) \<times> frames) option" where
  "bind_params f nargs stackbase aa s =
     (if ca_varparams f then
        let paramssize = ca_nparameters f - 1
        in if nargs < paramssize then Some (Inl (wrong_params ''at least '' nargs paramssize), s)
           else do {
             let nvargs = nat (nargs - paramssize);
             vs \<leftarrow> stk_gets (stackbase + paramssize) nvargs s;
             s \<leftarrow> stk_sets (stackbase + paramssize) (replicate nvargs VNull) s;
             s \<leftarrow> stk_set (stackbase + paramssize) (VArray aa) s;
             Some (Inr (), s\<lparr>fm_arrays := (fm_arrays s)(aa \<mapsto> vs)\<rparr>)
           }
      else
        let paramssize = ca_nparameters f; ndef = int (length (ca_defaultparams f)); diff = paramssize - nargs
        in if paramssize = nargs then Some (Inr (), s)
           else if ndef \<noteq> 0 \<and> nargs < paramssize \<and> diff \<le> ndef then do {
             s \<leftarrow> stk_sets (stackbase + nargs) (drop (nat (ndef - diff)) (ca_defaultparams f)) s;
             Some (Inr (), s)
           }
           else Some (Inl (wrong_params [] nargs paramssize), s))"

text \<open>\<open>StartCall\<close>; \<open>ga\<close> is the address of the new generator, if the function is one.\<close>

definition StartCall :: "(sqobject \<Rightarrow> addr) \<Rightarrow> addr \<Rightarrow> addr \<Rightarrow> nat \<Rightarrow> callee \<Rightarrow> int \<Rightarrow> int \<Rightarrow> int \<Rightarrow> bool \<Rightarrow> frames \<Rightarrow> ((vm_error + unit) \<times> frames) option" where
  "StartCall wr aa ga nv f target args stackbase tailcall s = do {
     (r, s) \<leftarrow> bind_params f args stackbase aa s;
     case r of
       Inl e \<Rightarrow> Some (Inl e, s)
     | Inr _ \<Rightarrow> do {
         s \<leftarrow> (case ca_env f of None \<Rightarrow> Some s | Some env \<Rightarrow> stk_set stackbase env s);
         (r, s) \<leftarrow> EnterFrame stackbase (stackbase + ca_stacksize f) tailcall nv s;
         case r of
           Inl e \<Rightarrow> Some (Inl e, s)
         | Inr _ \<Rightarrow> do {
             s \<leftarrow> upd_ci (\<lambda>ci. ci\<lparr>ci_closure := ca_closure f, ci_ip := 0, ci_target := to_i32 target\<rparr>) s;
             if ca_bgenerator f then do {
               (r, s) \<leftarrow> Yield wr ga (ca_stacksize f) (s\<lparr>fm_generators := (fm_generators s)(ga \<mapsto>
                 \<lparr>gn_closure = ca_closure f, gn_stack = [], gn_ci = last (fm_callsstack s), gn_etraps = [], gn_state = eRunning\<rparr>)\<rparr>);
               case r of
                 Inl e \<Rightarrow> Some (Inl e, s)
               | Inr _ \<Rightarrow> do {
                   (_, s) \<leftarrow> vm_Return 1 target s;
                   s \<leftarrow> stk_set (fm_stackbase s + target) (VGenerator ga) s;
                   Some (Inr (), s)
                 }
             }
             else Some (Inr (), s)
           }
       }
   }"

text \<open>The parameters of a tail call are moved to the start of the frame one after the other.\<close>

fun move_params :: "int \<Rightarrow> int \<Rightarrow> nat \<Rightarrow> frames \<Rightarrow> frames option" where
  "move_params i parambase 0 s = Some s"
| "move_params i parambase (Suc n) s = do {
     v \<leftarrow> stk_get (fm_stackbase s + parambase + i) s;
     s \<leftarrow> stk_set (fm_stackbase s + i) v s;
     move_params (i + 1) parambase n s
   }"

definition TailCall :: "(sqobject \<Rightarrow> addr) \<Rightarrow> addr \<Rightarrow> addr \<Rightarrow> nat \<Rightarrow> callee \<Rightarrow> int \<Rightarrow> nat \<Rightarrow> frames \<Rightarrow> ((vm_error + unit) \<times> frames) option" where
  "TailCall wr aa ga nv f parambase nparams s =
     (if fm_callsstack s = [] then None
      else if ci_root (last (fm_callsstack s)) then Some (Inl (Raise_Error ''root calls cannot invoke tailcalls''), s)
      else do {
        let last_top = fm_top s;
        s \<leftarrow> move_params 0 parambase nparams s;
        (r, s) \<leftarrow> StartCall wr aa ga nv f (ci_target (last (fm_callsstack s))) (int nparams) (fm_stackbase s) True s;
        Some (r, if last_top \<ge> fm_top s then s\<lparr>fm_top := last_top\<rparr> else s)
      })"

section \<open>Errors\<close>

text \<open>
  The end of \<open>Execute\<close>: the frames are left until one has a trap, where the execution goes on, or until the
  frame with which \<open>Execute\<close> began. The result tells whether a trap was found.
\<close>

definition restore_trap :: "sqobject \<Rightarrow> int \<Rightarrow> frames \<Rightarrow> frames option" where
  "restore_trap currerror last_top s =
     (if fm_etraps s = [] then None
      else do {
        let et = last (fm_etraps s);
        s \<leftarrow> upd_ci (\<lambda>ci. ci\<lparr>ci_ip := et_ip et, ci_etraps := ci_etraps ci - 1\<rparr>) s;
        let s = s\<lparr>fm_top := et_stacksize et, fm_stackbase := et_stackbase et, fm_etraps := butlast (fm_etraps s)\<rparr>;
        s \<leftarrow> stk_set (et_stackbase et + et_extarget et) currerror s;
        null_down last_top (fm_top s) s
      })"

partial_function (option) exception_trap :: "sqobject \<Rightarrow> int \<Rightarrow> frames \<Rightarrow> (bool \<times> frames) option" where
  "exception_trap currerror last_top s =
     (if fm_callsstack s = [] then Some (False, s)
      else do {
        let ci = last (fm_callsstack s);
        if ci_etraps ci > 0 then do { s \<leftarrow> restore_trap currerror last_top s; Some (True, s) }
        else do {
          s \<leftarrow> (case ci_generator ci of None \<Rightarrow> Some s | Some ga \<Rightarrow> Kill ga s);
          s \<leftarrow> LeaveFrame s;
          if ci_root ci then Some (False, s) else exception_trap currerror last_top s
        }
      })"

end
