(* ===== verification/Sq_Frames_Correct.thy ===== *)
theory Sq_Frames_Correct
  imports Sq_Frames Sq_Links Sq_Simulation
begin

text \<open>
  Captured variables are cells: a program that reads, writes and captures slots of the stack behaves
  as if every variable were a cell of its own that closures share, although a captured variable points into
  the stack, which may move, and is copied when its scope ends.
\<close>

section \<open>Operations on variables\<close>

text \<open>
  The operations that a function performs on its variables. A name stands for an entry of the vector of
  captured variables of some closure: it is bound by capturing a slot or by copying another name. \<open>V_Enter\<close> starts a frame
  with \<open>EnterFrame\<close>, where \<open>meta\<close> metamethods are running and \<open>nv\<close> is the address of the stack if it has to grow.
\<close>

datatype var_op =
  V_Get nat | V_Set nat sqobject | V_Capture nat nat | V_Copy nat nat | V_GetVar nat | V_SetVar nat sqobject | V_Drop nat
| V_Close nat | V_Enter int int int nat

datatype var_out = VO_Done | VO_Val sqobject | VO_Error vm_error

record vars =
  vr_frames :: frames
  vr_names :: "nat \<rightharpoonup> addr"

definition done_with :: "vars \<Rightarrow> frames option \<Rightarrow> (var_out \<times> vars) option" where
  "done_with u m = map_option (\<lambda>s. (VO_Done, u\<lparr>vr_frames := s\<rparr>)) m"

fun var_step :: "(frames \<Rightarrow> addr) \<Rightarrow> var_op \<Rightarrow> vars \<Rightarrow> (var_out \<times> vars) option" where
  "var_step alloc (V_Get i) u = map_option (\<lambda>v. (VO_Val v, u)) (stk_get (int i) (vr_frames u))"
| "var_step alloc (V_Set i v) u = done_with u (stk_set (int i) v (vr_frames u))"
| "var_step alloc (V_Capture i x) u = do {
     p \<leftarrow> stk_addr (int i) (vr_frames u);
     (a, s) \<leftarrow> FindOuter p (alloc (vr_frames u)) (vr_frames u);
     Some (VO_Done, \<lparr>vr_frames = s, vr_names = (vr_names u)(x \<mapsto> a)\<rparr>)
   }"
| "var_step alloc (V_Copy x y) u = do {
     a \<leftarrow> vr_names u x;
     otr \<leftarrow> fm_outers (vr_frames u) a;
     Some (VO_Done, \<lparr>vr_frames = (vr_frames u)\<lparr>fm_outers := (fm_outers (vr_frames u))(a \<mapsto> otr\<lparr>ot_uiRef := ot_uiRef otr + 1\<rparr>)\<rparr>,
                      vr_names = (vr_names u)(y \<mapsto> a)\<rparr>)
   }"
| "var_step alloc (V_GetVar x) u = do { a \<leftarrow> vr_names u x; v \<leftarrow> outer_get a (vr_frames u); Some (VO_Val v, u) }"
| "var_step alloc (V_SetVar x v) u = do { a \<leftarrow> vr_names u x; done_with u (outer_set a v (vr_frames u)) }"
| "var_step alloc (V_Drop x) u = do {
     a \<leftarrow> vr_names u x;
     s \<leftarrow> outer_release a (vr_frames u);
     Some (VO_Done, \<lparr>vr_frames = s, vr_names = (vr_names u)(x := None)\<rparr>)
   }"
| "var_step alloc (V_Close k) u = do { p \<leftarrow> stk_addr (int k) (vr_frames u); done_with u (CloseOuters p (vr_frames u)) }"
| "var_step alloc (V_Enter newbase newtop meta nv) u = do {
     (r, s) \<leftarrow> EnterFrame newbase newtop False nv ((vr_frames u)\<lparr>fm_nmetamethodscall := meta\<rparr>);
     Some (case r of Inl e \<Rightarrow> VO_Error e | Inr _ \<Rightarrow> VO_Done, u\<lparr>vr_frames := s\<rparr>)
   }"

section \<open>The specification\<close>

text \<open>
  Every slot of the stack is a cell. Capturing binds a name to the cell of the slot. When a scope
  ends, its slots become new cells. A new frame needs 15 slots above its top; if they are not there, the stack grows to 60
  slots above it, or, when a metamethod is running, the call fails.
\<close>

record cells =
  ce_store :: "nat \<Rightarrow> sqobject"
  ce_slots :: "nat list"
  ce_names :: "nat \<rightharpoonup> nat"
  ce_next :: nat
  ce_captures :: nat

definition detach :: "nat \<Rightarrow> cells \<Rightarrow> cells" where
  "detach i c = c\<lparr>ce_slots := (ce_slots c)[i := ce_next c], ce_store := (ce_store c)(ce_next c := ce_store c (ce_slots c ! i)), ce_next := ce_next c + 1\<rparr>"

fun detach_down :: "nat \<Rightarrow> nat \<Rightarrow> cells \<Rightarrow> cells" where
  "detach_down k 0 c = c"
| "detach_down k (Suc n) c = (if k \<le> n then detach_down k n (detach n c) else c)"

definition new_cells :: "nat \<Rightarrow> cells \<Rightarrow> cells" where
  "new_cells n c = c\<lparr>ce_slots := ce_slots c @ [ce_next c..<ce_next c + n],
     ce_store := (\<lambda>l. if ce_next c \<le> l then VNull else ce_store c l), ce_next := ce_next c + n\<rparr>"

fun cell_step :: "var_op \<Rightarrow> cells \<Rightarrow> (var_out \<times> cells) option" where
  "cell_step (V_Get i) c = (if i < length (ce_slots c) then Some (VO_Val (ce_store c (ce_slots c ! i)), c) else None)"
| "cell_step (V_Set i v) c =
     (if i < length (ce_slots c) then Some (VO_Done, c\<lparr>ce_store := (ce_store c)(ce_slots c ! i := v)\<rparr>) else None)"
| "cell_step (V_Capture i x) c =
     (if i < length (ce_slots c) \<and> ce_names c x = None \<and> ce_captures c < 2 ^ 64 - 1
      then Some (VO_Done, c\<lparr>ce_names := (ce_names c)(x \<mapsto> ce_slots c ! i), ce_captures := ce_captures c + 1\<rparr>) else None)"
| "cell_step (V_Copy x y) c =
     (if ce_names c y = None then map_option (\<lambda>l. (VO_Done, c\<lparr>ce_names := (ce_names c)(y \<mapsto> l)\<rparr>)) (ce_names c x) else None)"
| "cell_step (V_GetVar x) c = map_option (\<lambda>l. (VO_Val (ce_store c l), c)) (ce_names c x)"
| "cell_step (V_SetVar x v) c = map_option (\<lambda>l. (VO_Done, c\<lparr>ce_store := (ce_store c)(l := v)\<rparr>)) (ce_names c x)"
| "cell_step (V_Drop x) c = map_option (\<lambda>_. (VO_Done, c\<lparr>ce_names := (ce_names c)(x := None)\<rparr>)) (ce_names c x)"
| "cell_step (V_Close k) c = (if k < length (ce_slots c) then Some (VO_Done, detach_down k (length (ce_slots c)) c) else None)"
| "cell_step (V_Enter newbase newtop meta nv) c =
     (if newtop + 15 \<le> int (length (ce_slots c)) then Some (VO_Done, c)
      else if meta \<noteq> 0 then Some (VO_Error (Raise_Error ''stack overflow, cannot resize stack while in a metamethod''), c)
      else Some (VO_Done, new_cells (nat (newtop + 60) - length (ce_slots c)) c))"

section \<open>The list of open variables\<close>

fun oseg :: "(addr \<rightharpoonup> outer) \<Rightarrow> addr option \<Rightarrow> addr list \<Rightarrow> addr option \<Rightarrow> bool" where
  "oseg Os p [] e \<longleftrightarrow> p = e"
| "oseg Os p (a # as) e \<longleftrightarrow> p = Some a \<and> (\<exists>otr. Os a = Some otr \<and> oseg Os (ot_next otr) as e)"

abbreviation ochain :: "(addr \<rightharpoonup> outer) \<Rightarrow> addr option \<Rightarrow> addr list \<Rightarrow> bool" where
  "ochain Os p as \<equiv> oseg Os p as None"

definition ix :: "(addr \<rightharpoonup> outer) \<Rightarrow> addr \<Rightarrow> nat" where
  "ix Os a = (case Os a of Some otr \<Rightarrow> ot_idx otr | None \<Rightarrow> 0)"

definition open_at :: "nat \<Rightarrow> (addr \<rightharpoonup> outer) \<Rightarrow> addr \<Rightarrow> bool" where
  "open_at vals Os a \<longleftrightarrow> (\<exists>otr. Os a = Some otr \<and> ot_valptr otr = Some (vals + ot_idx otr))"

definition descending :: "(addr \<rightharpoonup> outer) \<Rightarrow> addr list \<Rightarrow> bool" where
  "descending Os as \<longleftrightarrow> sorted_wrt (\<lambda>a b. ix Os b < ix Os a) as"

lemma descending_simps [simp]: "descending Os []" "descending Os (a # as) \<longleftrightarrow> (\<forall>b \<in> set as. ix Os b < ix Os a) \<and> descending Os as"
  by (auto simp: descending_def)

lemma descending_upd: "a \<notin> set as \<Longrightarrow> descending (Os(a := z)) as = descending Os as"
  by (induction as) (auto simp: ix_def)

lemma descending_distinct: "descending Os as \<Longrightarrow> distinct as"
  by (induction as) auto

lemma oseg_cong:
  "(\<And>a. a \<in> set as \<Longrightarrow> map_option ot_next (Os' a) = map_option ot_next (Os a)) \<Longrightarrow> oseg Os' p as e = oseg Os p as e"
proof (induction as arbitrary: p)
  case (Cons a as)
  then have "map_option ot_next (Os' a) = map_option ot_next (Os a)" "\<And>p. oseg Os' p as e = oseg Os p as e" by auto
  then show ?case by (cases "Os a"; cases "Os' a") auto
qed simp

lemma oseg_upd [simp]: "a \<notin> set as \<Longrightarrow> oseg (Os(a := z)) p as e = oseg Os p as e"
  by (rule oseg_cong) auto

lemma oseg_first: "oseg Os p as e \<Longrightarrow> p = first e as"
  by (cases as) auto

lemma oseg_append: "oseg Os p (as @ bs) e \<longleftrightarrow> oseg Os p as (first e bs) \<and> oseg Os (first e bs) bs e"
proof (induction as arbitrary: p)
  case Nil
  then show ?case using oseg_first by auto
qed auto

lemma oseg_relink:
  assumes "oseg Os p (as @ [l]) e" "l \<notin> set as" "Os l = Some otr"
  shows "oseg (Os(l \<mapsto> otr\<lparr>ot_next := e'\<rparr>)) p (as @ [l]) e'"
proof -
  have "oseg (Os(l \<mapsto> otr\<lparr>ot_next := e'\<rparr>)) p as (Some l) = oseg Os p as (Some l)" by (rule oseg_cong) (use assms(2) in auto)
  then show ?thesis using assms by (simp add: oseg_append)
qed

lemma find_outer_ok:
  assumes "ochain Os p os" "\<And>a. a \<in> set os \<Longrightarrow> open_at vals Os a" "descending Os os"
  shows "\<exists>as bs. os = as @ bs \<and> (\<forall>a \<in> set as. i < ix Os a) \<and> (\<forall>b \<in> set bs. ix Os b \<le> i) \<and>
    find_open_outer (vals + i) prev p Os = Some (lastp prev as, first None bs, bs \<noteq> [] \<and> ix Os (hd bs) = i)"
  using assms
proof (induction os arbitrary: p prev)
  case Nil
  then show ?case by (simp add: find_open_outer.simps)
next
  case (Cons a os)
  obtain otr where o: "p = Some a" "Os a = Some otr" "ochain Os (ot_next otr) os" "ot_valptr otr = Some (vals + ot_idx otr)"
    using Cons.prems(1) Cons.prems(2) [of a] by (auto simp: open_at_def)
  have ixa: "ix Os a = ot_idx otr" using o by (simp add: ix_def)
  show ?case
  proof (cases "i < ot_idx otr")
    case True
    obtain as bs where ab: "os = as @ bs" "\<forall>a \<in> set as. i < ix Os a" "\<forall>b \<in> set bs. ix Os b \<le> i"
        "find_open_outer (vals + i) (Some a) (ot_next otr) Os = Some (lastp (Some a) as, first None bs, bs \<noteq> [] \<and> ix Os (hd bs) = i)"
      using Cons.IH [OF o(3), of "Some a"] Cons.prems by auto
    have "find_open_outer (vals + i) prev p Os = find_open_outer (vals + i) (Some a) (ot_next otr) Os" using o True by (subst find_open_outer.simps) simp
    then show ?thesis using ab True ixa by (intro exI [of _ "a # as"] exI [of _ bs]) simp
  next
    case False
    then have "\<forall>b \<in> set (a # os). ix Os b \<le> i" using Cons.prems(3) ixa by force
    moreover have "find_open_outer (vals + i) prev p Os = Some (prev, p, ot_idx otr = i)" using o False by (subst find_open_outer.simps) auto
    ultimately show ?thesis using o(1) ixa by (intro exI [of _ "[]"] exI [of _ "a # os"]) simp
  qed
qed

section \<open>The relation\<close>

text \<open>
  \<open>os\<close> are the open variables and \<open>A\<close> gives the cell of a captured variable. An open variable has the cell of
  its slot; a closed one has a cell that is no slot and holds its value.
\<close>

definition cells_inv :: "frames \<Rightarrow> cells \<Rightarrow> bool" where
  "cells_inv s c \<longleftrightarrow> length (ce_slots c) = length (fm_stack s) \<and> distinct (ce_slots c) \<and> (\<forall>l \<in> set (ce_slots c). l < ce_next c) \<and>
     (\<forall>i < length (fm_stack s). fm_stack s ! i = ce_store c (ce_slots c ! i))"

definition outer_ok :: "frames \<Rightarrow> addr list \<Rightarrow> (addr \<Rightarrow> nat) \<Rightarrow> cells \<Rightarrow> addr \<Rightarrow> outer \<Rightarrow> bool" where
  "outer_ok s os A c a otr \<longleftrightarrow>
     (if a \<in> set os then ot_valptr otr = Some (fm_vals s + ot_idx otr) \<and> ot_idx otr < length (fm_stack s) \<and> A a = ce_slots c ! ot_idx otr
      else ot_valptr otr = None \<and> A a \<notin> set (ce_slots c) \<and> A a < ce_next c \<and> ot_value otr = ce_store c (A a))"

definition counts :: "(addr \<rightharpoonup> outer) \<Rightarrow> addr \<rightharpoonup> nat" where
  "counts Os a = map_option ot_uiRef (Os a)"

definition holders :: "(nat \<rightharpoonup> addr) \<Rightarrow> addr list \<Rightarrow> addr \<Rightarrow> nat" where
  "holders N os a = card {x. N x = Some a} + of_bool (a \<in> set os)"

definition names_inv :: "(addr \<rightharpoonup> outer) \<Rightarrow> (nat \<rightharpoonup> addr) \<Rightarrow> addr list \<Rightarrow> (addr \<Rightarrow> nat) \<Rightarrow> (nat \<rightharpoonup> nat) \<Rightarrow> bool" where
  "names_inv Os N os A M \<longleftrightarrow> (\<forall>x. map_option A (N x) = M x) \<and> ran N \<subseteq> dom (counts Os) \<and> finite (dom N) \<and>
     (\<forall>a r. counts Os a = Some r \<longrightarrow> r = holders N os a \<and> 0 < holders N os a)"

lemma counts_upd [simp]: "counts (Os(a \<mapsto> otr)) = (counts Os)(a \<mapsto> ot_uiRef otr)"
  by (auto simp: counts_def)

lemma names_inv_cong: "counts Os' = counts Os \<Longrightarrow> names_inv Os' N os A M = names_inv Os N os A M"
  by (simp add: names_inv_def)

definition var_inv :: "frames \<Rightarrow> (nat \<rightharpoonup> addr) \<Rightarrow> addr list \<Rightarrow> (addr \<Rightarrow> nat) \<Rightarrow> cells \<Rightarrow> bool" where
  "var_inv s N os A c \<longleftrightarrow> cells_inv s c \<and> ochain (fm_outers s) (fm_openouters s) os \<and> descending (fm_outers s) os \<and>
     (\<forall>a otr. fm_outers s a = Some otr \<longrightarrow> outer_ok s os A c a otr) \<and> inj_on A (dom (fm_outers s)) \<and>
     names_inv (fm_outers s) N os A (ce_names c) \<and> card (dom (fm_outers s)) \<le> ce_captures c"

definition var_rel :: "vars \<Rightarrow> cells \<Rightarrow> bool" where
  "var_rel u c \<longleftrightarrow> (\<exists>os A. var_inv (vr_frames u) (vr_names u) os A c)"

lemma var_invD:
  assumes "var_inv s N os A c"
  shows "cells_inv s c" "ochain (fm_outers s) (fm_openouters s) os" "descending (fm_outers s) os"
    "fm_outers s a = Some otr \<Longrightarrow> outer_ok s os A c a otr" "inj_on A (dom (fm_outers s))"
    "names_inv (fm_outers s) N os A (ce_names c)" "card (dom (fm_outers s)) \<le> ce_captures c"
  using assms by (auto simp: var_inv_def)

lemma ochain_dom: "ochain Os p os \<Longrightarrow> set os \<subseteq> dom Os"
  by (induction os arbitrary: p) auto

lemma var_inv_open:
  assumes "var_inv s N os A c" "a \<in> set os"
  shows "\<exists>otr. fm_outers s a = Some otr \<and> ot_valptr otr = Some (fm_vals s + ot_idx otr) \<and> ot_idx otr < length (fm_stack s) \<and>
    A a = ce_slots c ! ot_idx otr"
proof -
  obtain otr where "fm_outers s a = Some otr" using ochain_dom [OF var_invD(2) [OF assms(1)]] assms(2) by blast
  then show ?thesis using var_invD(4) [OF assms(1)] assms(2) by (force simp: outer_ok_def)
qed

text \<open>Access to slots and to captured variables.\<close>

lemma slot_mem: "cells_inv s c \<Longrightarrow> i < length (fm_stack s) \<Longrightarrow> ce_slots c ! i \<in> set (ce_slots c)"
  by (simp add: cells_inv_def)

lemma cells_inv_set:
  assumes "cells_inv s c" "i < length (fm_stack s)"
  shows "cells_inv (s\<lparr>fm_stack := (fm_stack s)[i := v]\<rparr>) (c\<lparr>ce_store := (ce_store c)(ce_slots c ! i := v)\<rparr>)"
  using assms by (auto simp: cells_inv_def nth_list_update nth_eq_iff_index_eq)

lemma set_slot_inv:
  assumes inv: "var_inv s N os A c" and i: "i < length (fm_stack s)"
  shows "var_inv (s\<lparr>fm_stack := (fm_stack s)[i := v]\<rparr>) N os A (c\<lparr>ce_store := (ce_store c)(ce_slots c ! i := v)\<rparr>)"
proof -
  have "outer_ok (s\<lparr>fm_stack := (fm_stack s)[i := v]\<rparr>) os A (c\<lparr>ce_store := (ce_store c)(ce_slots c ! i := v)\<rparr>) a otr"
    if "fm_outers s a = Some otr" for a otr
  proof -
    have "ce_slots c ! i \<in> set (ce_slots c)" by (rule slot_mem [OF var_invD(1) [OF inv] i])
    then show ?thesis using var_invD(4) [OF inv that] by (auto simp: outer_ok_def)
  qed
  then show ?thesis using inv cells_inv_set [OF var_invD(1) [OF inv] i] by (simp add: var_inv_def)
qed

lemma outer_get_ok:
  assumes inv: "var_inv s N os A c" and a: "fm_outers s a = Some otr"
  shows "outer_get a s = Some (ce_store c (A a))"
  using var_invD(4) [OF inv a] var_invD(1) [OF inv] a
  by (auto simp: outer_get_def outer_ok_def stk_get_def cells_inv_def split: if_splits)

lemma outer_set_ok:
  assumes inv: "var_inv s N os A c" and a: "fm_outers s a = Some otr"
  shows "\<exists>s'. outer_set a v s = Some s' \<and> var_inv s' N os A (c\<lparr>ce_store := (ce_store c)(A a := v)\<rparr>)"
proof (cases "a \<in> set os")
  case True
  have o: "ot_valptr otr = Some (fm_vals s + ot_idx otr)" "ot_idx otr < length (fm_stack s)" "A a = ce_slots c ! ot_idx otr"
    using var_invD(4) [OF inv a] True by (simp_all add: outer_ok_def)
  then have "outer_set a v s = Some (s\<lparr>fm_stack := (fm_stack s)[ot_idx otr := v]\<rparr>)" using a by (simp add: outer_set_def stk_set_def)
  then show ?thesis using set_slot_inv [OF inv o(2), of v] o(3) by simp
next
  case False
  let ?s = "s\<lparr>fm_outers := (fm_outers s)(a \<mapsto> otr\<lparr>ot_value := v\<rparr>)\<rparr>" and ?c = "c\<lparr>ce_store := (ce_store c)(A a := v)\<rparr>"
  have o: "ot_valptr otr = None" "A a \<notin> set (ce_slots c)" "A a < ce_next c" using var_invD(4) [OF inv a] False by (simp_all add: outer_ok_def)
  have "outer_ok ?s os A ?c b x" if "fm_outers ?s b = Some x" for b x
  proof (cases "b = a")
    case True
    then show ?thesis using that False o by (auto simp: outer_ok_def)
  next
    case b: False
    then have x: "fm_outers s b = Some x" using that by simp
    then have "A b \<noteq> A a" using var_invD(5) [OF inv] a b by (metis domI inj_onD)
    then show ?thesis using var_invD(4) [OF inv x] by (auto simp: outer_ok_def)
  qed
  moreover have "ce_slots c ! i \<noteq> A a" if "i < length (fm_stack s)" for i using slot_mem [OF var_invD(1) [OF inv] that] o(2) by metis
  then have "cells_inv ?s ?c" using var_invD(1) [OF inv] by (simp add: cells_inv_def)
  moreover have "ochain (fm_outers ?s) (fm_openouters s) os"
    using var_invD(2) [OF inv] oseg_cong [of os "fm_outers ?s" "fm_outers s"] a by simp
  moreover have "ix (fm_outers ?s) = ix (fm_outers s)" using a by (auto simp: ix_def fun_eq_iff)
  then have "descending (fm_outers ?s) os" using var_invD(3) [OF inv] by (simp add: descending_def)
  moreover have "names_inv (fm_outers ?s) N os A (ce_names ?c)"
    using var_invD(6) [OF inv] names_inv_cong [of "fm_outers ?s" "fm_outers s"] a by (simp add: counts_def fun_eq_iff)
  moreover have "dom (fm_outers ?s) = dom (fm_outers s)" using a by auto
  ultimately have "var_inv ?s N os A ?c" using var_invD(5,7) [OF inv] by (simp add: var_inv_def)
  then show ?thesis using a o(1) by (simp add: outer_set_def)
qed

text \<open>Names and reference counts.\<close>

lemma holders_bind: "finite (dom N) \<Longrightarrow> N x = None \<Longrightarrow> holders (N(x \<mapsto> a)) os b = holders N os b + of_bool (a = b)"
proof -
  assume f: "finite (dom N)" and x: "N x = None"
  have fin: "finite {y. N y = Some b}" by (rule finite_subset [OF _ f]) auto
  have "{y. (N(x \<mapsto> a)) y = Some b} = (if a = b then insert x {y. N y = Some b} else {y. N y = Some b})" using x by auto
  then show ?thesis using fin x by (simp add: holders_def)
qed

lemma holders_unbind: "finite (dom N) \<Longrightarrow> N x = Some a \<Longrightarrow> holders (N(x := None)) os b = holders N os b - of_bool (a = b)"
proof -
  assume f: "finite (dom N)" and x: "N x = Some a"
  have fin: "finite {y. N y = Some b}" by (rule finite_subset [OF _ f]) auto
  have "{y. (N(x := None)) y = Some b} = (if a = b then {y. N y = Some b} - {x} else {y. N y = Some b})" using x by auto
  moreover have "0 < card {y. N y = Some b}" if "a = b" using fin x that by (auto simp: card_gt_0_iff)
  ultimately show ?thesis using fin x by (auto simp: holders_def)
qed

lemma names_invD:
  assumes "names_inv Os N os A M"
  shows "map_option A (N x) = M x" "N x = Some a \<Longrightarrow> a \<in> dom Os" "finite (dom N)"
    "Os a = Some otr \<Longrightarrow> ot_uiRef otr = holders N os a" "Os a = Some otr \<Longrightarrow> 0 < holders N os a"
proof -
  have d: "dom (counts Os) = dom Os" by (auto simp: counts_def)
  show "map_option A (N x) = M x" "N x = Some a \<Longrightarrow> a \<in> dom Os" "finite (dom N)" using assms unfolding names_inv_def d by (auto simp: ran_def)
  have "Os a = Some otr \<Longrightarrow> counts Os a = Some (ot_uiRef otr)" by (simp add: counts_def)
  then show "Os a = Some otr \<Longrightarrow> ot_uiRef otr = holders N os a" "Os a = Some otr \<Longrightarrow> 0 < holders N os a"
    using assms unfolding names_inv_def by metis+
qed

lemma names_bind:
  assumes n: "names_inv Os N os A M" and x: "N x = None" and a: "Os a = Some otr"
  shows "names_inv (Os(a \<mapsto> otr\<lparr>ot_uiRef := ot_uiRef otr + 1\<rparr>)) (N(x \<mapsto> a)) os A (M(x \<mapsto> A a))"
proof -
  note h = holders_bind [of N x, OF names_invD(3) [OF n] x]
  have "counts Os a = Some (ot_uiRef otr)" using a by (simp add: counts_def)
  then show ?thesis using n unfolding names_inv_def h by (auto simp: ran_def)
qed

lemma names_new:
  assumes n: "names_inv Os N os A M" and x: "N x = None" and a: "a \<notin> dom Os" "ot_uiRef otr = 2" and os: "set os' = insert a (set os)" "a \<notin> set os"
  shows "names_inv (Os(a \<mapsto> otr)) (N(x \<mapsto> a)) os' (A(a := l)) (M(x \<mapsto> l))"
proof -
  have N: "N y \<noteq> Some a" for y using names_invD(2) [OF n, of y a] a by blast
  have h: "holders (N(x \<mapsto> a)) os' b = (if b = a then 2 else holders N os b)" for b
    unfolding holders_bind [of N x, OF names_invD(3) [OF n] x] using N os by (auto simp: holders_def)
  have "map_option (A(a := l)) ((N(x \<mapsto> a)) y) = (M(x \<mapsto> l)) y" for y using N [of y] names_invD(1) [OF n, of y] by (cases "N y") auto
  then show ?thesis using n a(2) unfolding names_inv_def h by (auto simp: ran_def)
qed

text \<open>Changes of links and counts only.\<close>

definition ocore :: "(addr \<rightharpoonup> outer) \<Rightarrow> addr \<rightharpoonup> nat option \<times> nat \<times> sqobject" where
  "ocore Os a = map_option (\<lambda>x. (ot_valptr x, ot_idx x, ot_value x)) (Os a)"

lemma ocore_upd:
  "ocore (Os(a \<mapsto> x)) = (ocore Os)(a \<mapsto> (ot_valptr x, ot_idx x, ot_value x))"
  "Os a = Some x \<Longrightarrow> ocore Os a = Some (ot_valptr x, ot_idx x, ot_value x)"
  by (auto simp: ocore_def)

lemma ocore_dom: "ocore Os' = ocore Os \<Longrightarrow> dom Os' = dom Os"
proof -
  have "dom (ocore X) = dom X" for X by (auto simp: ocore_def)
  then show "ocore Os' = ocore Os \<Longrightarrow> dom Os' = dom Os" by metis
qed

lemma ocore_ix: "ocore Os' = ocore Os \<Longrightarrow> ix Os' = ix Os"
proof
  fix a
  assume "ocore Os' = ocore Os"
  then have "ocore Os' a = ocore Os a" by simp
  then show "ix Os' a = ix Os a" by (auto simp: ocore_def ix_def split: option.splits)
qed

lemma ocore_Some:
  assumes "ocore Os' = ocore Os" "Os' a = Some x"
  shows "\<exists>y. Os a = Some y \<and> ot_valptr x = ot_valptr y \<and> ot_idx x = ot_idx y \<and> ot_value x = ot_value y"
  using fun_cong [OF assms(1), of a] assms(2) by (cases "Os a") (auto simp: ocore_def)

lemma var_inv_relabel:
  assumes inv: "var_inv s N os A c" and o: "ocore Os' = ocore (fm_outers s)" "ochain Os' (fm_openouters s) os" "names_inv Os' N' os A M" "ce_captures c \<le> n"
  shows "var_inv (s\<lparr>fm_outers := Os'\<rparr>) N' os A (c\<lparr>ce_names := M, ce_captures := n\<rparr>)"
proof -
  have "outer_ok (s\<lparr>fm_outers := Os'\<rparr>) os A (c\<lparr>ce_names := M, ce_captures := n\<rparr>) a x" if x: "Os' a = Some x" for a x
    using ocore_Some [OF o(1) x] var_invD(4) [OF inv] by (force simp: outer_ok_def)
  moreover have "cells_inv (s\<lparr>fm_outers := Os'\<rparr>) (c\<lparr>ce_names := M, ce_captures := n\<rparr>)" using var_invD(1) [OF inv] by (simp add: cells_inv_def)
  moreover have "descending Os' os" using var_invD(3) [OF inv] ocore_ix [OF o(1)] by (simp add: descending_def)
  ultimately show ?thesis using o var_invD(5,7) [OF inv] ocore_dom [OF o(1)] by (simp add: var_inv_def)
qed

lemma next_same: "Os a = Some x \<Longrightarrow> ot_next x' = ot_next x \<Longrightarrow> oseg (Os(a \<mapsto> x')) p os e = oseg Os p os e"
  by (rule oseg_cong) auto

text \<open>Another name for a captured variable.\<close>

lemma bind_name_inv:
  assumes inv: "var_inv s N os A c" and x: "N x = None" and a: "fm_outers s a = Some otr" and n: "ce_captures c \<le> n"
  shows "var_inv (s\<lparr>fm_outers := (fm_outers s)(a \<mapsto> otr\<lparr>ot_uiRef := ot_uiRef otr + 1\<rparr>)\<rparr>) (N(x \<mapsto> a)) os A
    (c\<lparr>ce_names := (ce_names c)(x \<mapsto> A a), ce_captures := n\<rparr>)"
proof (rule var_inv_relabel [OF inv])
  show "ocore ((fm_outers s)(a \<mapsto> otr\<lparr>ot_uiRef := ot_uiRef otr + 1\<rparr>)) = ocore (fm_outers s)"
    using ocore_upd(2) [of "fm_outers s", OF a] by (simp add: ocore_upd(1) fun_upd_idem)
  show "ochain ((fm_outers s)(a \<mapsto> otr\<lparr>ot_uiRef := ot_uiRef otr + 1\<rparr>)) (fm_openouters s) os"
    using var_invD(2) [OF inv] next_same [of "fm_outers s", OF a] by simp
qed (use names_bind [of "fm_outers s", OF var_invD(6) [OF inv] x a] n in auto)

text \<open>A slot without an open variable is no cell of a captured variable.\<close>

lemma uncaptured:
  assumes inv: "var_inv s N os A c" and i: "i < length (fm_stack s)" and a: "a \<in> dom (fm_outers s)" and os: "\<And>b. b \<in> set os \<Longrightarrow> ix (fm_outers s) b \<noteq> i"
  shows "A a \<noteq> ce_slots c ! i"
proof -
  obtain y where y: "fm_outers s a = Some y" using a by blast
  note ok = var_invD(4) [OF inv y]
  show ?thesis
  proof (cases "a \<in> set os")
    case True
    then have "ot_idx y \<noteq> i" "A a = ce_slots c ! ot_idx y" "ot_idx y < length (fm_stack s)" using os [of a] y ok by (auto simp: ix_def outer_ok_def)
    then show ?thesis using var_invD(1) [OF inv] i by (auto simp: cells_inv_def nth_eq_iff_index_eq)
  next
    case False
    then show ?thesis using ok slot_mem [OF var_invD(1) [OF inv] i] by (metis outer_ok_def)
  qed
qed

text \<open>A new captured variable.\<close>

lemma new_outer_inv:
  assumes inv: "var_inv s N (as @ bs) A c" and i: "i < length (fm_stack s)" "\<forall>a \<in> set as. i < ix (fm_outers s) a" "\<forall>b \<in> set bs. ix (fm_outers s) b < i"
    and na: "na \<notin> dom (fm_outers s)" and x: "N x = None"
    and Os: "Os = (fm_outers s)(na \<mapsto> \<lparr>ot_valptr = Some (fm_vals s + i), ot_idx = i, ot_value = VNull, ot_next = first None bs, ot_uiRef = 2\<rparr>)"
    and Os': "ocore Os' = ocore Os" "counts Os' = counts Os" "ochain Os' p (as @ na # bs)"
  shows "var_inv (s\<lparr>fm_outers := Os', fm_openouters := p\<rparr>) (N(x \<mapsto> na)) (as @ na # bs) (A(na := ce_slots c ! i))
    (c\<lparr>ce_names := (ce_names c)(x \<mapsto> ce_slots c ! i), ce_captures := ce_captures c + 1\<rparr>)"
proof -
  let ?s = "s\<lparr>fm_outers := Os', fm_openouters := p\<rparr>" and ?A = "A(na := ce_slots c ! i)"
  let ?c = "c\<lparr>ce_names := (ce_names c)(x \<mapsto> ce_slots c ! i), ce_captures := ce_captures c + 1\<rparr>"
  have d: "dom Os' = insert na (dom (fm_outers s))" using ocore_dom [OF Os'(1)] by (simp add: Os)
  have "set (as @ bs) \<subseteq> dom (fm_outers s)" using ochain_dom [OF var_invD(2) [OF inv]] .
  then have nas: "na \<notin> set (as @ bs)" using na by blast
  have ix: "ix Os' = (ix (fm_outers s))(na := i)" using ocore_ix [OF Os'(1)] by (auto simp: Os ix_def)
  have "outer_ok ?s (as @ na # bs) ?A ?c a y" if y: "Os' a = Some y" for a y
  proof (cases "a = na")
    case True
    then show ?thesis using ocore_Some [OF Os'(1) y] i(1) by (auto simp: outer_ok_def Os)
  next
    case False
    then obtain z where "fm_outers s a = Some z" "ot_valptr y = ot_valptr z" "ot_idx y = ot_idx z" "ot_value y = ot_value z"
      using ocore_Some [OF Os'(1) y] by (auto simp: Os)
    then show ?thesis using var_invD(4) [OF inv] False by (force simp: outer_ok_def)
  qed
  moreover have "cells_inv ?s ?c" using var_invD(1) [OF inv] by (simp add: cells_inv_def)
  moreover have "descending Os' (as @ na # bs)"
  proof -
    have "sorted_wrt (\<lambda>a b. ix (fm_outers s) b < ix (fm_outers s) a) (as @ bs)" using var_invD(3) [OF inv] by (simp add: descending_def)
    then have "sorted_wrt (\<lambda>a b. ix Os' b < ix Os' a) (as @ bs)" by (rule sorted_wrt_mono_rel [rotated]) (use nas ix in auto)
    then show ?thesis using i(2,3) nas ix by (auto simp: descending_def sorted_wrt_append)
  qed
  moreover have "inj_on ?A (dom Os')"
  proof -
    have "A a \<noteq> ce_slots c ! i" if "a \<in> dom (fm_outers s)" for a
      by (rule uncaptured [OF inv i(1) that]) (use i(2,3) in auto)
    then show ?thesis using var_invD(5) [OF inv] na unfolding d by (force simp: inj_on_def)
  qed
  moreover have "names_inv Os' (N(x \<mapsto> na)) (as @ na # bs) ?A ((ce_names c)(x \<mapsto> ce_slots c ! i))"
    unfolding names_inv_cong [OF Os'(2)] Os by (rule names_new [OF var_invD(6) [OF inv] x na]) (use nas in auto)
  moreover have "card (dom Os') \<le> ce_captures c + 1" unfolding d using var_invD(7) [OF inv] na by (simp add: card_insert_if)
  ultimately show ?thesis using Os'(3) by (simp add: var_inv_def)
qed

lemma FindOuter_ok:
  assumes inv: "var_inv s N os A c" and i: "i < length (fm_stack s)" and x: "N x = None" and na: "na \<notin> dom (fm_outers s)"
  shows "\<exists>a s' os' A'. FindOuter (fm_vals s + i) na s = Some (a, s') \<and>
    var_inv s' (N(x \<mapsto> a)) os' A' (c\<lparr>ce_names := (ce_names c)(x \<mapsto> ce_slots c ! i), ce_captures := ce_captures c + 1\<rparr>)"
proof -
  have op: "open_at (fm_vals s) (fm_outers s) a" if "a \<in> set os" for a using var_inv_open [OF inv that] by (auto simp: open_at_def)
  obtain as bs where ab: "os = as @ bs" "\<forall>a \<in> set as. i < ix (fm_outers s) a" "\<forall>b \<in> set bs. ix (fm_outers s) b \<le> i"
      "find_open_outer (fm_vals s + i) None (fm_openouters s) (fm_outers s) = Some (lastp None as, first None bs, bs \<noteq> [] \<and> ix (fm_outers s) (hd bs) = i)"
    using find_outer_ok [OF var_invD(2) [OF inv] op var_invD(3) [OF inv]] by blast
  show ?thesis
  proof (cases "bs \<noteq> [] \<and> ix (fm_outers s) (hd bs) = i")
    case True
    then obtain b bs' where b: "bs = b # bs'" by (cases bs) auto
    obtain otr where otr: "fm_outers s b = Some otr" "A b = ce_slots c ! ot_idx otr" using var_inv_open [OF inv, of b] ab(1) b by auto
    then have "A b = ce_slots c ! i" using True b by (simp add: ix_def)
    then show ?thesis using ab(4) True b otr bind_name_inv [OF inv x otr(1), of "ce_captures c + 1"] by (auto simp: FindOuter_def)
  next
    case False
    have dd: "descending (fm_outers s) (as @ bs)" using var_invD(3) [OF inv] ab(1) by simp
    have lt: "\<forall>b \<in> set bs. ix (fm_outers s) b < i"
    proof (cases bs)
      case (Cons b bs')
      then have "ix (fm_outers s) b < i" "\<forall>a \<in> set bs'. ix (fm_outers s) a < ix (fm_outers s) b"
        using False ab(3) dd by (auto simp: descending_def sorted_wrt_append le_neq_implies_less)
      then show ?thesis using Cons by auto
    qed simp
    let ?new = "\<lparr>ot_valptr = Some (fm_vals s + i), ot_idx = i, ot_value = VNull, ot_next = first None bs, ot_uiRef = 2\<rparr>"
    let ?Os = "(fm_outers s)(na \<mapsto> ?new)"
    have ch: "oseg (fm_outers s) (fm_openouters s) as (first None bs)" "ochain (fm_outers s) (first None bs) bs"
      using var_invD(2) [OF inv] ab(1) by (simp_all add: oseg_append)
    have nas: "na \<notin> set as" "na \<notin> set bs" "distinct (as @ bs)" using ochain_dom [OF var_invD(2) [OF inv]] ab(1) na descending_distinct [OF dd] by auto
    have ch': "oseg ?Os (fm_openouters s) as (first None bs)" "ochain ?Os (first None bs) bs"
      using ch nas by simp_all
    have inv': "var_inv s N (as @ bs) A c" using inv ab(1) by simp
    note new = new_outer_inv [OF inv' i ab(2) lt na x refl]
    show ?thesis
    proof (cases as rule: rev_cases)
      case Nil
      have "ochain ?Os (Some na) (as @ na # bs)" using ch'(2) Nil by simp
      from new [OF refl refl this] show ?thesis using ab(4) False Nil by (auto simp: FindOuter_def)
    next
      case (snoc as' l)
      obtain z where z: "fm_outers s l = Some z" "?Os l = Some z" using ch(1) snoc nas by (auto simp: oseg_append)
      let ?Os' = "?Os(l \<mapsto> z\<lparr>ot_next := Some na\<rparr>)"
      have "oseg ?Os' (fm_openouters s) as (Some na)" using oseg_relink [of ?Os _ as' l _ z "Some na"] ch'(1) snoc nas(3) z(2) by simp
      moreover have "ochain ?Os' (first None bs) bs" using ch'(2) nas snoc by simp
      moreover have "?Os' na = Some ?new" using nas snoc by auto
      ultimately have "ochain ?Os' (fm_openouters s) (as @ na # bs)" by (simp add: oseg_append)
      moreover have "ocore ?Os' = ocore ?Os" using ocore_upd(2) [of ?Os, OF z(2)] ocore_upd(1) [of ?Os] by (simp add: fun_upd_idem)
      moreover have "counts ?Os' = counts ?Os" using z(2) by (auto simp: counts_def fun_eq_iff simp del: counts_upd)
      ultimately have v: "var_inv (s\<lparr>fm_outers := ?Os', fm_openouters := fm_openouters s\<rparr>) (N(x \<mapsto> na)) (as @ na # bs) (A(na := ce_slots c ! i))
          (c\<lparr>ce_names := (ce_names c)(x \<mapsto> ce_slots c ! i), ce_captures := ce_captures c + 1\<rparr>)" using new by blast
      have "FindOuter (fm_vals s + i) na s = Some (na, s\<lparr>fm_outers := ?Os'\<rparr>)" using ab(4) False snoc z(2) by (simp add: FindOuter_def)
      then show ?thesis using v by auto
    qed
  qed
qed

text \<open>Releasing a reference.\<close>

definition with_count :: "nat \<Rightarrow> outer \<Rightarrow> outer option" where
  "with_count n otr = (if n = 0 then None else Some (otr\<lparr>ot_uiRef := n\<rparr>))"

lemma outer_release_eq: "fm_outers s a = Some otr \<Longrightarrow>
    outer_release a s = Some (s\<lparr>fm_outers := (fm_outers s)(a := with_count (ot_uiRef otr - 1) otr)\<rparr>)"
  by (simp add: outer_release_def with_count_def)

lemma names_release:
  assumes n: "names_inv Os N os A M" and N': "finite (dom N')" "\<And>x. map_option A (N' x) = M' x" "ran N' \<subseteq> ran N"
    and h: "holders N' os' a = ot_uiRef otr - 1" "\<And>b. b \<noteq> a \<Longrightarrow> holders N' os' b = holders N os b"
  shows "names_inv (Os(a := with_count (ot_uiRef otr - 1) otr)) N' os' A M'"
proof -
  have "a \<notin> ran N'" if "holders N' os' a = 0"
  proof
    assume "a \<in> ran N'"
    then obtain x where "x \<in> {x. N' x = Some a}" by (auto simp: ran_def)
    moreover have "finite {x. N' x = Some a}" by (rule finite_subset [OF _ N'(1)]) auto
    ultimately show False using that by (auto simp: holders_def)
  qed
  moreover have "counts (Os(a := with_count (ot_uiRef otr - 1) otr)) = (counts Os)(a := if ot_uiRef otr - 1 = 0 then None else Some (ot_uiRef otr - 1))"
    by (auto simp: counts_def with_count_def fun_eq_iff)
  ultimately show ?thesis using n N' h unfolding names_inv_def by (auto split: if_splits)
qed

lemma var_inv_free:
  assumes inv: "var_inv s N os A c" and a: "a \<notin> set os" and n: "names_inv ((fm_outers s)(a := None)) N' os A M"
  shows "var_inv (s\<lparr>fm_outers := (fm_outers s)(a := None)\<rparr>) N' os A (c\<lparr>ce_names := M\<rparr>)"
proof -
  let ?O = "(fm_outers s)(a := None)"
  have "descending ?O os" using var_invD(3) [OF inv] a by (simp add: descending_upd)
  moreover have "outer_ok (s\<lparr>fm_outers := ?O\<rparr>) os A (c\<lparr>ce_names := M\<rparr>) b x" if "?O b = Some x" for b x
    using var_invD(4) [OF inv, of b x] that by (auto simp: outer_ok_def split: if_splits)
  moreover have "inj_on A (dom ?O)" by (rule inj_on_subset [OF var_invD(5) [OF inv]]) auto
  moreover have "card (dom ?O) \<le> card (dom (fm_outers s))" by (simp add: card_Diff1_le)
  ultimately show ?thesis using var_invD(1,2,7) [OF inv] a n by (simp add: var_inv_def cells_inv_def)
qed

lemma drop_name_inv:
  assumes inv: "var_inv s N os A c" and x: "N x = Some a" and otr: "fm_outers s a = Some otr"
  shows "var_inv (s\<lparr>fm_outers := (fm_outers s)(a := with_count (ot_uiRef otr - 1) otr)\<rparr>) (N(x := None)) os A
    (c\<lparr>ce_names := (ce_names c)(x := None)\<rparr>)"
proof -
  note nm = var_invD(6) [OF inv]
  note h = holders_unbind [of N x, OF names_invD(3) [OF nm] x]
  have hr: "ot_uiRef otr = holders N os a" by (rule names_invD(4) [OF nm otr])
  have n: "names_inv ((fm_outers s)(a := with_count (ot_uiRef otr - 1) otr)) (N(x := None)) os A ((ce_names c)(x := None))"
    by (rule names_release [OF nm]) (use h hr names_invD(1,3) [OF nm] in \<open>auto simp: ran_def\<close>)
  show ?thesis
  proof (cases "ot_uiRef otr - 1 = 0")
    case True
    have "0 < card {y. N y = Some a}" using x finite_subset [OF _ names_invD(3) [OF nm], of "{y. N y = Some a}"] by (auto simp: card_gt_0_iff)
    then have "a \<notin> set os" using True hr by (auto simp: holders_def)
    then show ?thesis using var_inv_free [OF inv] n True by (simp add: with_count_def)
  next
    case False
    let ?O = "(fm_outers s)(a \<mapsto> otr\<lparr>ot_uiRef := ot_uiRef otr - 1\<rparr>)"
    have w: "with_count (ot_uiRef otr - 1) otr = Some (otr\<lparr>ot_uiRef := ot_uiRef otr - 1\<rparr>)" using False by (simp add: with_count_def)
    have "ocore ?O = ocore (fm_outers s)" using ocore_upd(2) [of "fm_outers s", OF otr] by (simp add: ocore_upd(1) fun_upd_idem)
    moreover have "ochain ?O (fm_openouters s) os" using var_invD(2) [OF inv] next_same [of "fm_outers s", OF otr] by simp
    ultimately have "var_inv (s\<lparr>fm_outers := ?O\<rparr>) (N(x := None)) os A (c\<lparr>ce_names := (ce_names c)(x := None), ce_captures := ce_captures c\<rparr>)"
      using var_inv_relabel [OF inv] n unfolding w by blast
    then show ?thesis unfolding w by simp
  qed
qed

section \<open>Closing\<close>

lemma cells_inv_detach:
  assumes "cells_inv s c" "i < length (fm_stack s)"
  shows "cells_inv s (detach i c)"
proof -
  have l: "length (ce_slots c) = length (fm_stack s)" "distinct (ce_slots c)" "\<forall>l \<in> set (ce_slots c). l < ce_next c"
      "\<forall>j < length (fm_stack s). fm_stack s ! j = ce_store c (ce_slots c ! j)" using assms(1) by (simp_all add: cells_inv_def)
  have "ce_slots c ! j \<noteq> ce_next c" if "j < length (fm_stack s)" for j using l(3) nth_mem [of j "ce_slots c"] that l(1) by force
  moreover have "ce_next c \<notin> set (ce_slots c)" using l(3) by blast
  then have "distinct ((ce_slots c)[i := ce_next c])" using l(2) by (simp add: distinct_list_update)
  moreover have "\<forall>l \<in> set ((ce_slots c)[i := ce_next c]). l < ce_next c + 1"
    using l(3) set_update_subset_insert [of "ce_slots c" i "ce_next c"] by (auto simp: less_Suc_eq)
  ultimately show ?thesis using l assms(2) by (auto simp: cells_inv_def detach_def nth_list_update)
qed

lemma detach_slots: "set (ce_slots (detach i c)) \<subseteq> insert (ce_next c) (set (ce_slots c))"
  using set_update_subset_insert by (force simp: detach_def)

lemma outer_ok_detach:
  assumes "cells_inv s c" "outer_ok s os A c b y" "b \<in> set os \<Longrightarrow> ot_idx y \<noteq> i"
  shows "outer_ok s os A (detach i c) b y"
proof (cases "b \<in> set os")
  case True
  then show ?thesis using assms(2,3) by (simp add: outer_ok_def detach_def)
next
  case False
  then have o: "ot_valptr y = None" "A b \<notin> set (ce_slots c)" "A b < ce_next c" "ot_value y = ce_store c (A b)"
    using assms(2) by (simp_all add: outer_ok_def)
  moreover have "A b \<notin> set (ce_slots (detach i c))" using detach_slots o(2,3) by fastforce
  ultimately show ?thesis using False by (simp add: outer_ok_def detach_def)
qed

lemma detach_uncaptured:
  assumes inv: "var_inv s N os A c" and i: "i < length (fm_stack s)" and os: "\<And>b. b \<in> set os \<Longrightarrow> ix (fm_outers s) b \<noteq> i"
  shows "var_inv s N os A (detach i c)"
proof -
  have "outer_ok s os A (detach i c) b y" if y: "fm_outers s b = Some y" for b y
    by (rule outer_ok_detach [OF var_invD(1) [OF inv] var_invD(4) [OF inv y]]) (use os [of b] y in \<open>simp add: ix_def\<close>)
  then show ?thesis using inv cells_inv_detach [OF var_invD(1) [OF inv] i] by (simp add: var_inv_def detach_def)
qed

lemma detach_down_uncaptured:
  assumes "var_inv s N os A c" "\<And>b. b \<in> set os \<Longrightarrow> ix (fm_outers s) b < k" "m \<le> length (fm_stack s)"
  shows "var_inv s N os A (detach_down k m c)"
  using assms(1,3)
proof (induction m arbitrary: c)
  case (Suc m)
  have "var_inv s N os A (detach m c)" if "k \<le> m" by (rule detach_uncaptured [OF Suc.prems(1)]) (use assms(2) that Suc.prems(2) in force)+
  then show ?case using Suc by simp
qed simp

lemma close_one:
  assumes inv: "var_inv s N (a # os) A c" and otr: "fm_outers s a = Some otr"
  defines "x \<equiv> fm_stack s ! ot_idx otr"
  defines "otr' \<equiv> otr\<lparr>ot_value := x, ot_valptr := None\<rparr>"
  shows "var_inv (s\<lparr>fm_openouters := ot_next otr, fm_outers := (fm_outers s)(a := with_count (ot_uiRef otr - 1) otr')\<rparr>) N os A (detach (ot_idx otr) c)"
    (is "var_inv ?s N os A ?c")
proof -
  let ?i = "ot_idx otr" and ?O = "(fm_outers s)(a := with_count (ot_uiRef otr - 1) otr')"
  note ci = var_invD(1) [OF inv]
  have o: "?i < length (fm_stack s)" "A a = ce_slots c ! ?i" using var_inv_open [OF inv, of a] otr by auto
  have d: "descending (fm_outers s) os" "\<forall>b \<in> set os. ix (fm_outers s) b < ?i" using var_invD(3) [OF inv] otr by (auto simp: ix_def)
  then have ao: "a \<notin> set os" using otr by (auto simp: ix_def)
  have "outer_ok ?s os A ?c b y" if y: "?O b = Some y" for b y
  proof (cases "b = a")
    case True
    have sl: "ce_slots c ! ?i \<in> set (ce_slots c)" by (rule slot_mem [OF ci o(1)])
    have "ce_slots c ! ?i < ce_next c" using sl ci by (auto simp: cells_inv_def)
    moreover have "ce_slots c ! ?i \<notin> set ((ce_slots c)[?i := ce_next c])"
      using ci o(1) calculation by (auto simp: cells_inv_def in_set_conv_nth nth_list_update nth_eq_iff_index_eq)
    moreover have "fm_stack s ! ?i = ce_store c (ce_slots c ! ?i)" using ci o(1) by (simp add: cells_inv_def)
    ultimately show ?thesis using y True ao o(2) by (auto simp: outer_ok_def with_count_def otr'_def x_def detach_def split: if_splits)
  next
    case False
    then have y': "fm_outers s b = Some y" using y by simp
    have "outer_ok s (a # os) A ?c b y"
      by (rule outer_ok_detach [OF ci var_invD(4) [OF inv y']]) (use False d(2) y' in \<open>auto simp: ix_def\<close>)
    then show ?thesis using False by (simp add: outer_ok_def)
  qed
  moreover have "cells_inv ?s ?c" using cells_inv_detach [OF ci o(1)] by (simp add: cells_inv_def)
  moreover have "ochain ?O (ot_next otr) os" using var_invD(2) [OF inv] otr ao by simp
  moreover have "descending ?O os" using d(1) ao by (simp add: descending_upd)
  moreover have "inj_on A (dom ?O)" by (rule inj_on_subset [OF var_invD(5) [OF inv]]) (use otr in \<open>auto simp: with_count_def split: if_splits\<close>)
  moreover have "names_inv ?O N os A (ce_names ?c)"
  proof -
    have r: "ot_uiRef otr' = ot_uiRef otr" by (simp add: otr'_def)
    have h: "holders N (a # os) a = ot_uiRef otr" using names_invD(4) [OF var_invD(6) [OF inv] otr] by simp
    show ?thesis unfolding r [symmetric]
      by (rule names_release [OF var_invD(6) [OF inv]]) (use names_invD(1,3) [OF var_invD(6) [OF inv]] h r ao in \<open>auto simp: holders_def detach_def\<close>)
  qed
  moreover have "dom ?O \<subseteq> dom (fm_outers s)" using otr by (auto split: if_splits)
  then have "card (dom ?O) \<le> ce_captures ?c" using var_invD(7) [OF inv] card_mono [of "dom (fm_outers s)" "dom ?O"] by (simp add: detach_def)
  ultimately show ?thesis by (simp add: var_inv_def)
qed

lemma CloseOuters_ok:
  assumes "var_inv s N os A c" "\<And>a. a \<in> set os \<Longrightarrow> ix (fm_outers s) a < n" "n \<le> length (fm_stack s)"
  shows "\<exists>s' os'. CloseOuters (fm_vals s + k) s = Some s' \<and> var_inv s' N os' A (detach_down k n c)"
  using assms
proof (induction n arbitrary: s os c)
  case 0
  then have "os = []" by (cases os) auto
  then have "fm_openouters s = None" using var_invD(2) [OF "0.prems"(1)] by simp
  then show ?case using 0 by (auto simp: CloseOuters.simps)
next
  case (Suc n)
  note inv = Suc.prems(1)
  show ?case
  proof (cases "os \<noteq> [] \<and> ix (fm_outers s) (hd os) \<ge> k")
    case False
    have "CloseOuters (fm_vals s + k) s = Some s"
    proof (cases os)
      case Nil
      then have "fm_openouters s = None" using var_invD(2) [OF inv] by simp
      then show ?thesis by (simp add: CloseOuters.simps)
    next
      case (Cons a os')
      obtain otr where "fm_outers s a = Some otr" "ot_valptr otr = Some (fm_vals s + ot_idx otr)" using var_inv_open [OF inv, of a] Cons by auto
      moreover have "fm_openouters s = Some a" using var_invD(2) [OF inv] Cons by simp
      ultimately show ?thesis using False Cons by (simp add: CloseOuters.simps ix_def)
    qed
    moreover have "ix (fm_outers s) b < k" if "b \<in> set os" for b using False that var_invD(3) [OF inv] by (cases os) auto
    then have "var_inv s N os A (detach_down k (Suc n) c)" using detach_down_uncaptured [OF inv] Suc.prems(3) by blast
    ultimately show ?thesis by blast
  next
    case True
    then obtain a os' where os: "os = a # os'" by (cases os) auto
    obtain otr where otr: "fm_outers s a = Some otr" "ot_valptr otr = Some (fm_vals s + ot_idx otr)" "ot_idx otr < length (fm_stack s)"
      using var_inv_open [OF inv, of a] os by auto
    have ixa: "ix (fm_outers s) a = ot_idx otr" using otr by (simp add: ix_def)
    have kn: "k \<le> n" using True os Suc.prems(2) [of a] by simp
    show ?thesis
    proof (cases "ot_idx otr = n")
      case False
      have "ix (fm_outers s) b < n" if "b \<in> set os" for b using that False Suc.prems(2) [of a] var_invD(3) [OF inv] os ixa by auto
      moreover from this have "var_inv s N os A (detach n c)" using detach_uncaptured [OF inv, of n] Suc.prems(3) by force
      ultimately show ?thesis using Suc.IH [of s os "detach n c"] Suc.prems(3) kn by auto
    next
      case n: True
      let ?x = "fm_stack s ! ot_idx otr"
      let ?s = "s\<lparr>fm_openouters := ot_next otr, fm_outers := (fm_outers s)(a := with_count (ot_uiRef otr - 1) (otr\<lparr>ot_value := ?x, ot_valptr := None\<rparr>))\<rparr>"
      have v: "var_inv ?s N os' A (detach n c)" using close_one [OF inv [unfolded os] otr(1)] n by simp
      have d: "\<forall>b \<in> set os'. ix (fm_outers s) b < n" using var_invD(3) [OF inv] os ixa n by simp
      have L: "ix (fm_outers ?s) b < n" if "b \<in> set os'" for b using d that ixa n by (cases "b = a") (auto simp: ix_def)
      have "n \<le> length (fm_stack ?s)" using Suc.prems(3) by simp
      then obtain s' os'' where s': "CloseOuters (fm_vals ?s + k) ?s = Some s'" "var_inv s' N os'' A (detach_down k n (detach n c))"
        using Suc.IH [OF v L] by blast
      have "fm_openouters s = Some a" using var_invD(2) [OF inv] os by simp
      then have "CloseOuters (fm_vals s + k) s = CloseOuters (fm_vals s + k) ?s"
        using otr n kn by (subst CloseOuters.simps) (simp add: stk_get_def outer_release_def with_count_def Let_def)
      then show ?thesis using s' kn by auto
    qed
  qed
qed

section \<open>Growing\<close>

definition moved :: "nat \<Rightarrow> addr set \<Rightarrow> (addr \<rightharpoonup> outer) \<Rightarrow> addr \<rightharpoonup> outer" where
  "moved nv S Os a = (if a \<in> S then map_option (\<lambda>x. x\<lparr>ot_valptr := Some (nv + ot_idx x)\<rparr>) (Os a) else Os a)"

lemma relocate_ok:
  assumes "ochain (fm_outers s) p os" "distinct os"
  shows "relocate_loop p s = Some (s\<lparr>fm_outers := moved (fm_vals s) (set os) (fm_outers s)\<rparr>)"
  using assms
proof (induction os arbitrary: s p)
  case Nil
  have "moved (fm_vals s) {} (fm_outers s) = fm_outers s" by (simp add: moved_def fun_eq_iff)
  then show ?case using Nil by (simp add: relocate_loop.simps)
next
  case (Cons a os)
  obtain otr where o: "p = Some a" "fm_outers s a = Some otr" "ochain (fm_outers s) (ot_next otr) os" "a \<notin> set os" using Cons.prems by auto
  let ?s = "s\<lparr>fm_outers := (fm_outers s)(a \<mapsto> otr\<lparr>ot_valptr := Some (fm_vals s + ot_idx otr)\<rparr>)\<rparr>"
  have "relocate_loop (ot_next otr) ?s = Some (?s\<lparr>fm_outers := moved (fm_vals ?s) (set os) (fm_outers ?s)\<rparr>)"
  proof (rule Cons.IH)
    have "ochain (fm_outers ?s) (ot_next otr) os = ochain (fm_outers s) (ot_next otr) os" by (rule oseg_cong) (use o(4) in auto)
    then show "ochain (fm_outers ?s) (ot_next otr) os" using o(3) by blast
  qed (use Cons.prems in simp)
  moreover have "moved (fm_vals s) (set os) (fm_outers ?s) = moved (fm_vals s) (set (a # os)) (fm_outers s)"
    using o by (auto simp: moved_def fun_eq_iff)
  ultimately show ?case using o by (simp add: relocate_loop.simps)
qed

lemma moved_facts:
  "ix (moved nv S Os) = ix Os" "counts (moved nv S Os) = counts Os" "dom (moved nv S Os) = dom Os" "oseg (moved nv S Os) p os e = oseg Os p os e"
proof -
  show "ix (moved nv S Os) = ix Os" by (auto simp: ix_def moved_def fun_eq_iff split: option.split)
  show "counts (moved nv S Os) = counts Os" by (auto simp: counts_def moved_def fun_eq_iff option.map_comp comp_def)
  show "dom (moved nv S Os) = dom Os" by (auto simp: moved_def dom_def)
  show "oseg (moved nv S Os) p os e = oseg Os p os e" by (rule oseg_cong) (auto simp: moved_def option.map_comp comp_def)
qed

lemma grow_ok:
  assumes inv: "var_inv s N os A c" and n: "length (fm_stack s) \<le> n"
  shows "\<exists>s'. RelocateOuters (stack_resize n nv s) = Some s' \<and> var_inv s' N os A (new_cells (n - length (ce_slots c)) c)"
proof -
  let ?m = "n - length (fm_stack s)"
  let ?s = "(stack_resize n nv s)\<lparr>fm_outers := moved nv (set os) (fm_outers s)\<rparr>" and ?c = "new_cells ?m c"
  note ci = var_invD(1) [OF inv]
  have len: "length (ce_slots c) = length (fm_stack s)" and dist: "distinct (ce_slots c)" and lt: "\<forall>l \<in> set (ce_slots c). l < ce_next c"
    and val: "\<forall>i < length (fm_stack s). fm_stack s ! i = ce_store c (ce_slots c ! i)" using ci by (simp_all add: cells_inv_def)
  have r: "RelocateOuters (stack_resize n nv s) = Some ?s"
    using relocate_ok [of "stack_resize n nv s" "fm_openouters s" os] var_invD(2,3) [OF inv] descending_distinct
    by (simp add: RelocateOuters_def stack_resize_def)
  have small: "\<not> ce_next c \<le> ce_slots c ! i" if "i < length (fm_stack s)" for i using lt nth_mem [of i "ce_slots c"] that len by (simp add: not_le)
  have "cells_inv ?s ?c"
    using len dist lt val small n by (auto simp: cells_inv_def stack_resize_def new_cells_def nth_append)
  moreover have "outer_ok ?s os A ?c a x" if x: "moved nv (set os) (fm_outers s) a = Some x" for a x
  proof -
    obtain y where y: "fm_outers s a = Some y" "x = (if a \<in> set os then y\<lparr>ot_valptr := Some (nv + ot_idx y)\<rparr> else y)"
      using x by (auto simp: moved_def split: if_splits)
    show ?thesis using var_invD(4) [OF inv y(1)] y(2) n len by (auto simp: outer_ok_def stack_resize_def new_cells_def nth_append)
  qed
  moreover have "names_inv (moved nv (set os) (fm_outers s)) N os A (ce_names c)"
    using var_invD(6) [OF inv] names_inv_cong [OF moved_facts(2)] by blast
  ultimately have "var_inv ?s N os A ?c"
    using var_invD(2,3,5,7) [OF inv] by (simp add: var_inv_def moved_facts descending_def stack_resize_def new_cells_def)
  then show ?thesis using r len by simp
qed

text \<open>The invariant does not depend on the other parts of the state.\<close>

lemma var_inv_frame:
  assumes "var_inv s N os A c" "fm_vals s' = fm_vals s" "fm_stack s' = fm_stack s" "fm_outers s' = fm_outers s" "fm_openouters s' = fm_openouters s"
  shows "var_inv s' N os A c"
  using assms by (simp add: var_inv_def cells_inv_def outer_ok_def)

lemma EnterFrame_inv:
  assumes inv: "var_inv s N os A c" and step: "cell_step (V_Enter newbase newtop meta nv) c = Some (x, c')"
  shows "\<exists>r s'. EnterFrame newbase newtop False nv (s\<lparr>fm_nmetamethodscall := meta\<rparr>) = Some (r, s') \<and>
    x = (case r of Inl e \<Rightarrow> VO_Error e | Inr _ \<Rightarrow> VO_Done) \<and> var_inv s' N os A c'"
proof -
  define s0 where "s0 = (push_frame newbase (s\<lparr>fm_nmetamethodscall := meta\<rparr>))\<lparr>fm_stackbase := newbase, fm_top := newtop\<rparr>"
  have s0: "fm_vals s0 = fm_vals s" "fm_stack s0 = fm_stack s" "fm_outers s0 = fm_outers s" "fm_openouters s0 = fm_openouters s" "fm_nmetamethodscall s0 = meta"
    by (simp_all add: s0_def push_frame_def GrowCallStack_def Let_def)
  have inv0: "var_inv s0 N os A c" by (rule var_inv_frame [OF inv]) (fact s0)+
  have len: "length (ce_slots c) = length (fm_stack s)" using var_invD(1) [OF inv] by (simp add: cells_inv_def)
  have E: "EnterFrame newbase newtop False nv (s\<lparr>fm_nmetamethodscall := meta\<rparr>) =
      (if newtop + 15 \<le> int (length (fm_stack s)) then Some (Inr (), s0)
       else if meta \<noteq> 0 then Some (Inl (Raise_Error ''stack overflow, cannot resize stack while in a metamethod''), s0)
       else do { s \<leftarrow> RelocateOuters (stack_resize (nat (newtop + 60)) nv s0); Some (Inr (), s) })"
  proof -
    have "EnterFrame newbase newtop False nv (s\<lparr>fm_nmetamethodscall := meta\<rparr>) =
      (if newtop + MIN_STACK_OVERHEAD > int (length (fm_stack s0)) then
         if fm_nmetamethodscall s0 \<noteq> 0 then Some (Inl (Raise_Error ''stack overflow, cannot resize stack while in a metamethod''), s0)
         else do { s \<leftarrow> RelocateOuters (stack_resize (nat (newtop + MIN_STACK_OVERHEAD * 4)) nv s0); Some (Inr (), s) }
       else Some (Inr (), s0))"
      unfolding EnterFrame_def s0_def Let_def by (simp only: not_False_eq_True if_True bind.bind_lunit)
    then show ?thesis unfolding s0(2,5) MIN_STACK_OVERHEAD_def by auto
  qed
  show ?thesis
  proof (cases "newtop + 15 \<le> int (length (fm_stack s)) \<or> meta \<noteq> 0")
    case True
    then show ?thesis using E step inv0 len by (auto split: if_splits)
  next
    case False
    then have "length (fm_stack s0) \<le> nat (newtop + 60)" using s0(2) by auto
    from grow_ok [OF inv0 this, of nv] show ?thesis using E step False len by auto
  qed
qed

section \<open>Refinement\<close>

definition fresh_alloc :: "(frames \<Rightarrow> addr) \<Rightarrow> bool" where
  "fresh_alloc alloc \<longleftrightarrow> (\<forall>s. card (dom (fm_outers s)) < 2 ^ 64 \<longrightarrow> alloc s \<notin> dom (fm_outers s))"

lemma named_outer:
  assumes "var_inv s N os A c" "ce_names c x = Some l"
  shows "\<exists>a otr. N x = Some a \<and> fm_outers s a = Some otr \<and> A a = l"
  using names_invD(1,2) [OF var_invD(6) [OF assms(1)], of x] assms(2) by (cases "N x") auto

lemma unnamed: "var_inv s N os A c \<Longrightarrow> ce_names c x = None \<longleftrightarrow> N x = None"
  using names_invD(1) [OF var_invD(6), of s N os A c x] by (cases "N x"; cases "ce_names c x") auto

lemma var_step_law:
  assumes al: "fresh_alloc alloc" and rel: "var_rel u c" and st: "cell_step op c = Some (x, c')"
  shows "\<exists>u'. var_step alloc op u = Some (x, u') \<and> var_rel u' c'"
proof -
  obtain os A where inv: "var_inv (vr_frames u) (vr_names u) os A c" using rel by (auto simp: var_rel_def)
  have len: "length (ce_slots c) = length (fm_stack (vr_frames u))" using var_invD(1) [OF inv] by (simp add: cells_inv_def)
  have relI: "var_rel \<lparr>vr_frames = s, vr_names = N\<rparr> c" if "var_inv s N os A c" for s N os A c using that by (auto simp: var_rel_def)
  have relI': "var_rel (u\<lparr>vr_frames := s\<rparr>) c" if "var_inv s (vr_names u) os A c" for s os A c using that by (auto simp: var_rel_def)
  show ?thesis
  proof (cases op)
    case (V_Get i)
    then show ?thesis using st len rel var_invD(1) [OF inv] by (auto simp: stk_get_def cells_inv_def split: if_splits)
  next
    case (V_Set i v)
    then show ?thesis using st len set_slot_inv [OF inv, of i v] relI' by (auto simp: stk_set_def done_with_def split: if_splits)
  next
    case (V_Capture i y)
    then have c: "i < length (fm_stack (vr_frames u))" "ce_names c y = None" "ce_captures c < 2 ^ 64 - 1" "x = VO_Done"
      "c' = c\<lparr>ce_names := (ce_names c)(y \<mapsto> ce_slots c ! i), ce_captures := ce_captures c + 1\<rparr>" using st len by (auto split: if_splits)
    have "alloc (vr_frames u) \<notin> dom (fm_outers (vr_frames u))" using al var_invD(7) [OF inv] c(3) by (auto simp: fresh_alloc_def)
    then obtain a s' os' A' where "FindOuter (fm_vals (vr_frames u) + i) (alloc (vr_frames u)) (vr_frames u) = Some (a, s')"
        "var_inv s' ((vr_names u)(y \<mapsto> a)) os' A' c'"
      using FindOuter_ok [OF inv c(1), of y] unnamed [OF inv] c(2,5) by blast
    then show ?thesis using V_Capture c(1,4) relI by (simp add: stk_addr_def)
  next
    case (V_Copy y z)
    then obtain l where l: "ce_names c y = Some l" "ce_names c z = None" "x = VO_Done" "c' = c\<lparr>ce_names := (ce_names c)(z \<mapsto> l)\<rparr>"
      using st by (auto split: if_splits)
    obtain a otr where a: "vr_names u y = Some a" "fm_outers (vr_frames u) a = Some otr" "A a = l" using named_outer [OF inv l(1)] by blast
    have "vr_names u z = None" using unnamed [OF inv] l(2) by simp
    from bind_name_inv [OF inv this a(2), of "ce_captures c"] show ?thesis using V_Copy a l relI by simp
  next
    case (V_GetVar y)
    then obtain l where l: "ce_names c y = Some l" "x = VO_Val (ce_store c l)" "c' = c" using st by auto
    obtain a otr where "vr_names u y = Some a" "fm_outers (vr_frames u) a = Some otr" "A a = l" using named_outer [OF inv l(1)] by blast
    then show ?thesis using V_GetVar l rel outer_get_ok [OF inv] by auto
  next
    case (V_SetVar y v)
    then obtain l where l: "ce_names c y = Some l" "x = VO_Done" "c' = c\<lparr>ce_store := (ce_store c)(l := v)\<rparr>" using st by auto
    obtain a otr where a: "vr_names u y = Some a" "fm_outers (vr_frames u) a = Some otr" "A a = l" using named_outer [OF inv l(1)] by blast
    then show ?thesis using V_SetVar l relI' outer_set_ok [OF inv a(2), of v] by (auto simp: done_with_def)
  next
    case (V_Drop y)
    then obtain l where l: "ce_names c y = Some l" "x = VO_Done" "c' = c\<lparr>ce_names := (ce_names c)(y := None)\<rparr>" using st by auto
    obtain a otr where a: "vr_names u y = Some a" "fm_outers (vr_frames u) a = Some otr" using named_outer [OF inv l(1)] by blast
    from drop_name_inv [OF inv a] show ?thesis using V_Drop l(2,3) a relI by (simp add: outer_release_eq)
  next
    case (V_Close k)
    have "ix (fm_outers (vr_frames u)) a < length (fm_stack (vr_frames u))" if "a \<in> set os" for a
      using var_inv_open [OF inv that] by (auto simp: ix_def)
    then obtain s' os' where s': "CloseOuters (fm_vals (vr_frames u) + k) (vr_frames u) = Some s'"
        "var_inv s' (vr_names u) os' A (detach_down k (length (fm_stack (vr_frames u))) c)" using CloseOuters_ok [OF inv] by blast
    have "k < length (fm_stack (vr_frames u))" "x = VO_Done" "c' = detach_down k (length (fm_stack (vr_frames u))) c"
      using st V_Close len by (auto split: if_splits)
    then show ?thesis using V_Close s' relI' by (simp add: stk_addr_def done_with_def)
  next
    case (V_Enter newbase newtop meta nv)
    from EnterFrame_inv [OF inv st [unfolded V_Enter]] show ?thesis using V_Enter relI' by auto
  qed
qed

interpretation cells: relational_simulation "\<lambda>u c. fresh_alloc alloc \<and> var_rel u c" "var_step alloc" cell_step for alloc
  by unfold_locales (use var_step_law in blast)

definition start_frames :: "nat \<Rightarrow> nat \<Rightarrow> frames" where
  "start_frames n nv = \<lparr>fm_vals = nv, fm_stack = replicate n VNull, fm_top = 0, fm_stackbase = 0, fm_openouters = None, fm_outers = Map.empty,
     fm_callsstack = [], fm_alloccallsstacksize = 4, fm_etraps = [], fm_nmetamethodscall = 0, fm_generators = Map.empty, fm_arrays = Map.empty\<rparr>"

definition start_vars :: "nat \<Rightarrow> nat \<Rightarrow> vars" where
  "start_vars n nv = \<lparr>vr_frames = start_frames n nv, vr_names = Map.empty\<rparr>"

definition start_cells :: "nat \<Rightarrow> cells" where
  "start_cells n = new_cells n \<lparr>ce_store = (\<lambda>_. VNull), ce_slots = [], ce_names = Map.empty, ce_next = 0, ce_captures = 0\<rparr>"

lemma start_inv: "var_inv (start_frames n nv) Map.empty [] A (start_cells n)"
  by (auto simp: var_inv_def cells_inv_def names_inv_def start_frames_def start_cells_def new_cells_def counts_def)

text \<open>An allocator that gives the first free address.\<close>

definition first_free :: "frames \<Rightarrow> addr" where
  "first_free s = of_nat (LEAST n. (of_nat n :: addr) \<notin> dom (fm_outers s))"

lemma first_free: "fresh_alloc first_free"
  unfolding fresh_alloc_def
proof (intro allI impI)
  fix s :: frames
  assume c: "card (dom (fm_outers s)) < 2 ^ 64"
  then have "dom (fm_outers s) \<noteq> UNIV" by (auto simp: card_word)
  then obtain a :: addr where "a \<notin> dom (fm_outers s)" by blast
  then have "(of_nat (unat a) :: addr) \<notin> dom (fm_outers s)" by simp
  then show "first_free s \<notin> dom (fm_outers s)" unfolding first_free_def by (rule LeastI)
qed

section \<open>Property\<close>

text \<open>
  C10. Captured variables are cells. Any sequence of reading, writing and capturing slots of the
  stack, copying, using and dropping captured variables, ending scopes and starting frames with \<open>EnterFrame\<close>, which may grow
  and move the stack, or fail while a metamethod is running, gives the outputs of the specification in which every variable is a
  cell that the function and its closures share. In particular no captured variable is used after it was freed, and none
  points to a slot that \<open>EnterFrame\<close> has moved. (\<open>sq_reservestack\<close>, which the host can call, also grows the stack; it is
  not among the operations, as it leaves open variables behind, see \<open>reservestack_leaves_outers_behind\<close>.)
\<close>

theorem captured_variables_are_cells:
  assumes "fresh_alloc alloc" "run_ops cell_step ops (start_cells n) = Some (xs, c)"
  shows "\<exists>u. run_ops (var_step alloc) ops (start_vars n nv) = Some (xs, u) \<and> (\<exists>os A. var_inv (vr_frames u) (vr_names u) os A c)"
proof -
  have "var_rel (start_vars n nv) (start_cells n)"
    using start_inv unfolding var_rel_def start_vars_def vars.simps by blast
  with assms(1) have "fresh_alloc alloc \<and> var_rel (start_vars n nv) (start_cells n)" ..
  from cells.rel_run_law [OF this assms(2)] show ?thesis unfolding var_rel_def by blast
qed

theorem captured_variables_are_cells_witness:
  "\<exists>u. run_ops (var_step first_free)
     [V_Set 1 (VInteger 5), V_Capture 1 0, V_SetVar 0 (VInteger 6), V_Get 1, V_Enter 1 2 1 1000, V_Enter 1 2 0 1000, V_Set 1 (VInteger 7),
      V_GetVar 0] (start_vars 2 100) =
     Some ([VO_Done, VO_Done, VO_Done, VO_Val (VInteger 6), VO_Error (Raise_Error ''stack overflow, cannot resize stack while in a metamethod''),
       VO_Done, VO_Done, VO_Val (VInteger 7)], u)"
proof -
  let ?ops = "[V_Set 1 (VInteger 5), V_Capture 1 0, V_SetVar 0 (VInteger 6), V_Get 1, V_Enter 1 2 1 1000, V_Enter 1 2 0 1000, V_Set 1 (VInteger 7),
      V_GetVar 0]"
  have "\<exists>c. run_ops cell_step ?ops (start_cells 2) =
     Some ([VO_Done, VO_Done, VO_Done, VO_Val (VInteger 6), VO_Error (Raise_Error ''stack overflow, cannot resize stack while in a metamethod''),
       VO_Done, VO_Done, VO_Val (VInteger 7)], c)"
    by (simp add: start_cells_def new_cells_def)
  then show ?thesis using captured_variables_are_cells [OF first_free, of ?ops 2 _ _ 100] by blast
qed

text \<open>
  \<open>sq_reservestack\<close> moves the stack without \<open>RelocateOuters\<close>: a variable that is captured and open then points into the old
  block.
\<close>

lemma reservestack_leaves_outers_behind:
  defines "s \<equiv> (start_frames 20 100)\<lparr>fm_top := 5\<rparr>"
  shows "\<exists>s1 s2. FindOuter 101 7 s = Some (7, s1) \<and> outer_get 7 s1 = Some VNull \<and>
    sq_reservestack 100 5000 s1 = (Inr (), s2) \<and> outer_get 7 s2 = None"
proof -
  let ?o = "\<lparr>ot_valptr = Some 101, ot_idx = 1, ot_value = VNull, ot_next = None, ot_uiRef = 2\<rparr>"
  let ?s1 = "s\<lparr>fm_outers := [7 \<mapsto> ?o], fm_openouters := Some 7\<rparr>"
  have 1: "FindOuter 101 7 s = Some (7, ?s1)"
    by (simp add: FindOuter_def find_open_outer.simps s_def start_frames_def Let_def)
  have 2: "outer_get 7 ?s1 = Some VNull" by (simp add: outer_get_def stk_get_def s_def start_frames_def)
  have 3: "sq_reservestack 100 5000 ?s1 = (Inr (), stack_resize 105 5000 ?s1)"
    by (simp add: sq_reservestack_def s_def start_frames_def)
  have "outer_get 7 (stack_resize 105 5000 ?s1) = None" by (simp add: outer_get_def stk_get_def stack_resize_def)
  with 1 2 3 show ?thesis by blast
qed

end
