(* ===== verification/Sq_Calls_Correct.thy ===== *)
theory Sq_Calls_Correct
  imports Sq_Frames_Correct
begin

text \<open>
  Calls of functions: how parameters reach the frame of the callee, and that returning restores the
  frame of the caller.
\<close>

section \<open>Slots\<close>

definition in_stack :: "int \<Rightarrow> nat \<Rightarrow> frames \<Rightarrow> bool" where
  "in_stack i n s \<longleftrightarrow> 0 \<le> i \<and> i + int n \<le> int (length (fm_stack s))"

lemma stk_gets_ok: "in_stack i n s \<Longrightarrow> stk_gets i n s = Some (take n (drop (nat i) (fm_stack s)))"
proof (induction n arbitrary: i)
  case (Suc n)
  have "stk_gets (i + 1) n s = Some (take n (drop (nat (i + 1)) (fm_stack s)))" by (rule Suc.IH) (use Suc.prems in \<open>simp add: in_stack_def\<close>)
  moreover have "nat (i + 1) = Suc (nat i)" "nat i < length (fm_stack s)" using Suc.prems by (auto simp: in_stack_def)
  ultimately show ?case using Suc.prems by (simp add: stk_get_def in_stack_def take_Suc_conv_app_nth Cons_nth_drop_Suc [symmetric])
qed simp

definition put_slots :: "int \<Rightarrow> sqobject list \<Rightarrow> frames \<Rightarrow> frames" where
  "put_slots i vs s = s\<lparr>fm_stack := take (nat i) (fm_stack s) @ vs @ drop (nat i + length vs) (fm_stack s)\<rparr>"

lemma stk_sets_ok: "in_stack i (length vs) s \<Longrightarrow> stk_sets i vs s = Some (put_slots i vs s)"
proof (induction vs arbitrary: i s)
  case (Cons v vs)
  let ?s = "s\<lparr>fm_stack := (fm_stack s)[nat i := v]\<rparr>"
  have l: "nat i < length (fm_stack s)" "nat (i + 1) = Suc (nat i)" using Cons.prems by (auto simp: in_stack_def)
  have "stk_sets (i + 1) vs ?s = Some (put_slots (i + 1) vs ?s)" by (rule Cons.IH) (use Cons.prems in \<open>simp add: in_stack_def\<close>)
  moreover have "put_slots (i + 1) vs ?s = put_slots i (v # vs) s"
    using l by (simp add: put_slots_def take_Suc_conv_app_nth take_update_swap drop_update_cancel list_update_append)
  ultimately show ?case using Cons.prems l by (simp add: stk_set_def in_stack_def)
qed (simp add: put_slots_def)

lemma null_down_ok: "in_stack newtop (nat (last_top + 1 - newtop)) s \<Longrightarrow>
    null_down last_top newtop s = Some (put_slots newtop (replicate (nat (last_top + 1 - newtop)) VNull) s)"
proof (induction "nat (last_top + 1 - newtop)" arbitrary: last_top s)
  case 0
  then show ?case by (subst null_down.simps) (simp add: put_slots_def)
next
  case (Suc n)
  let ?s = "s\<lparr>fm_stack := (fm_stack s)[nat last_top := VNull]\<rparr>"
  have l: "newtop \<le> last_top" "n = nat (last_top - newtop)" "0 \<le> newtop" "last_top < int (length (fm_stack s))"
    using Suc.hyps(2) Suc.prems by (auto simp: in_stack_def split: if_splits)
  have "null_down (last_top - 1) newtop ?s = Some (put_slots newtop (replicate (nat (last_top - 1 + 1 - newtop)) VNull) ?s)"
    by (rule Suc.hyps(1)) (use l in \<open>auto simp: in_stack_def\<close>)
  moreover have "put_slots newtop (replicate n VNull) ?s = put_slots newtop (replicate (Suc n) VNull) s"
  proof -
    have e: "nat newtop + n = nat last_top" "nat last_top < length (fm_stack s)" using l by auto
    then have "drop (nat newtop + n) ((fm_stack s)[nat last_top := VNull]) = VNull # drop (Suc (nat newtop + n)) (fm_stack s)"
      by (simp add: drop_update_swap Cons_nth_drop_Suc [symmetric])
    then show ?thesis using e by (simp add: put_slots_def replicate_append_same [symmetric])
  qed
  moreover have "null_down last_top newtop s = null_down (last_top - 1) newtop ?s" using l by (subst null_down.simps) (simp add: stk_set_def)
  moreover have "nat (last_top - 1 + 1 - newtop) = n" "nat (last_top + 1 - newtop) = Suc n" using l Suc.hyps(2) by auto
  ultimately show ?case by (simp del: null_down.simps replicate.simps)
qed

text \<open>What closing and moving need of the open variables.\<close>

definition open_ok :: "frames \<Rightarrow> bool" where
  "open_ok s \<longleftrightarrow> (\<exists>os. ochain (fm_outers s) (fm_openouters s) os \<and> distinct os \<and>
     (\<forall>a \<in> set os. open_at (fm_vals s) (fm_outers s) a \<and> ix (fm_outers s) a < length (fm_stack s)))"

lemma open_ok_frame:
  "open_ok s \<Longrightarrow> fm_vals s' = fm_vals s \<Longrightarrow> fm_outers s' = fm_outers s \<Longrightarrow> fm_openouters s' = fm_openouters s \<Longrightarrow>
    length (fm_stack s) \<le> length (fm_stack s') \<Longrightarrow> open_ok s'"
  by (fastforce simp: open_ok_def)

lemma relocate_open_ok:
  assumes "open_ok s" "length (fm_stack s) \<le> n"
  shows "\<exists>Os. RelocateOuters (stack_resize n nv s) = Some ((stack_resize n nv s)\<lparr>fm_outers := Os\<rparr>) \<and> open_ok ((stack_resize n nv s)\<lparr>fm_outers := Os\<rparr>)"
proof -
  obtain os where os: "ochain (fm_outers s) (fm_openouters s) os" "distinct os"
      "\<forall>a \<in> set os. open_at (fm_vals s) (fm_outers s) a \<and> ix (fm_outers s) a < length (fm_stack s)" using assms(1) by (auto simp: open_ok_def)
  let ?s = "stack_resize n nv s" and ?Os = "moved nv (set os) (fm_outers s)"
  have "RelocateOuters ?s = Some (?s\<lparr>fm_outers := ?Os\<rparr>)"
    using relocate_ok [of ?s "fm_openouters s" os] os(1,2) by (simp add: RelocateOuters_def stack_resize_def)
  moreover have "open_at nv ?Os a" if "a \<in> set os" for a using os(3) that by (auto simp: open_at_def moved_def)
  then have "open_ok (?s\<lparr>fm_outers := ?Os\<rparr>)"
    unfolding open_ok_def using os assms(2) by (intro exI [of _ os]) (force simp: moved_facts stack_resize_def)
  ultimately show ?thesis by blast
qed

lemma close_open_ok:
  assumes "open_ok s"
  shows "\<exists>Os q. CloseOuters p s = Some (s\<lparr>fm_openouters := q, fm_outers := Os\<rparr>) \<and> open_ok (s\<lparr>fm_openouters := q, fm_outers := Os\<rparr>)"
proof -
  obtain os where os: "ochain (fm_outers s) (fm_openouters s) os" "distinct os"
      "\<forall>a \<in> set os. open_at (fm_vals s) (fm_outers s) a \<and> ix (fm_outers s) a < length (fm_stack s)" using assms(1) by (auto simp: open_ok_def)
  then show ?thesis
  proof (induction os arbitrary: s)
    case Nil
    then have "CloseOuters p s = Some (s\<lparr>fm_openouters := fm_openouters s, fm_outers := fm_outers s\<rparr>)" by (simp add: CloseOuters.simps)
    moreover have "open_ok s" unfolding open_ok_def using Nil by (intro exI [of _ "[]"]) simp
    ultimately show ?case by (intro exI [of _ "fm_outers s"] exI [of _ "fm_openouters s"]) simp
  next
    case (Cons a os)
    obtain otr where o: "fm_openouters s = Some a" "fm_outers s a = Some otr" "ochain (fm_outers s) (ot_next otr) os" "a \<notin> set os"
        "ot_valptr otr = Some (fm_vals s + ot_idx otr)" "ot_idx otr < length (fm_stack s)"
      using Cons.prems by (auto simp: open_at_def ix_def)
    show ?case
    proof (cases "p \<le> fm_vals s + ot_idx otr")
      case False
      then have "CloseOuters p s = Some (s\<lparr>fm_openouters := fm_openouters s, fm_outers := fm_outers s\<rparr>)" using o by (simp add: CloseOuters.simps)
      moreover have "open_ok s" unfolding open_ok_def using Cons.prems by (intro exI [of _ "a # os"]) simp
      ultimately show ?thesis by (intro exI [of _ "fm_outers s"] exI [of _ "fm_openouters s"]) simp
    next
      case True
      let ?O = "(fm_outers s)(a := with_count (ot_uiRef otr - 1) (otr\<lparr>ot_value := fm_stack s ! ot_idx otr, ot_valptr := None\<rparr>))"
      let ?s = "s\<lparr>fm_openouters := ot_next otr, fm_outers := ?O\<rparr>"
      have "open_at (fm_vals s) ?O b \<and> ix ?O b < length (fm_stack s)" if "b \<in> set os" for b
        using Cons.prems(3) o(4) that by (auto simp: open_at_def ix_def)
      then have op: "\<forall>b \<in> set os. open_at (fm_vals ?s) (fm_outers ?s) b \<and> ix (fm_outers ?s) b < length (fm_stack ?s)" by simp
      have "ochain (fm_outers ?s) (ot_next otr) os = ochain (fm_outers s) (ot_next otr) os" by (rule oseg_cong) (use o(4) in auto)
      moreover have "fm_openouters ?s = ot_next otr" by simp
      ultimately have ch: "ochain (fm_outers ?s) (fm_openouters ?s) os" using o(3) by metis
      have "distinct os" using Cons.prems(2) by simp
      then obtain Os q where "CloseOuters p ?s = Some (?s\<lparr>fm_openouters := q, fm_outers := Os\<rparr>)" "open_ok (?s\<lparr>fm_openouters := q, fm_outers := Os\<rparr>)"
        using Cons.IH [OF ch _ op] by blast
      moreover have "CloseOuters p s = CloseOuters p ?s"
        using o True by (subst CloseOuters.simps) (simp add: stk_get_def outer_release_def with_count_def Let_def)
      ultimately show ?thesis by auto
    qed
  qed
qed

section \<open>Frames\<close>

lemma to_i32_id: "- 2147483648 \<le> i \<Longrightarrow> i < 2147483648 \<Longrightarrow> to_i32 i = i"
  by (simp add: to_i32_def sint_sbintrunc' signed_take_bit_int_eq_self)

definition frame_ok :: "frames \<Rightarrow> bool" where
  "frame_ok s \<longleftrightarrow> 0 \<le> fm_stackbase s \<and> fm_stackbase s \<le> fm_top s \<and> fm_top s + MIN_STACK_OVERHEAD \<le> int (length (fm_stack s)) \<and> open_ok s"

definition new_ci :: "int \<Rightarrow> frames \<Rightarrow> callinfo" where
  "new_ci newbase s = \<lparr>ci_ip = 0, ci_closure = VNull, ci_generator = None, ci_etraps = 0,
     ci_prevstkbase = to_i32 (newbase - fm_stackbase s), ci_prevtop = to_i32 (fm_top s - fm_stackbase s),
     ci_target = 0, ci_ncalls = 1, ci_root = False\<rparr>"

lemma push_frame_eq: "push_frame newbase s = s\<lparr>fm_alloccallsstacksize := (if length (fm_callsstack s) = fm_alloccallsstacksize s
    then fm_alloccallsstacksize s * 2 else fm_alloccallsstacksize s), fm_callsstack := fm_callsstack s @ [new_ci newbase s]\<rparr>"
  by (simp add: push_frame_def GrowCallStack_def new_ci_def Let_def)

text \<open>\<open>EnterFrame\<close> succeeds if there is room for the frame, or the stack may grow.\<close>

definition can_enter :: "int \<Rightarrow> frames \<Rightarrow> bool" where
  "can_enter newtop s \<longleftrightarrow> fm_nmetamethodscall s = 0 \<or> newtop + MIN_STACK_OVERHEAD \<le> int (length (fm_stack s))"

definition stack_overflow :: vm_error where
  "stack_overflow = Raise_Error ''stack overflow, cannot resize stack while in a metamethod''"

lemma EnterFrame_fails:
  "\<not> can_enter newtop s \<Longrightarrow> \<exists>s1. EnterFrame base newtop False nv s = Some (Inl stack_overflow, s1)"
  by (simp add: EnterFrame_def can_enter_def push_frame_eq stack_overflow_def Let_def)

lemma EnterFrame_ok:
  assumes op: "open_ok s" and b: "0 \<le> base" "0 \<le> sz" "can_enter (base + sz) s"
  shows "\<exists>s1. EnterFrame base (base + sz) False nv s = Some (Inr (), s1) \<and> frame_ok s1 \<and> fm_stackbase s1 = base \<and> fm_top s1 = base + sz \<and>
    fm_callsstack s1 = fm_callsstack s @ [new_ci base s] \<and> (\<exists>zs. fm_stack s1 = fm_stack s @ zs) \<and> fm_arrays s1 = fm_arrays s \<and>
    fm_etraps s1 = fm_etraps s \<and> fm_generators s1 = fm_generators s"
proof -
  let ?s = "(push_frame base s)\<lparr>fm_stackbase := base, fm_top := base + sz\<rparr>"
  have op': "open_ok ?s" by (rule open_ok_frame [OF op]) (simp_all add: push_frame_eq)
  show ?thesis
  proof (cases "base + sz + MIN_STACK_OVERHEAD > int (length (fm_stack s))")
    case False
    then show ?thesis using b op' by (simp add: EnterFrame_def push_frame_eq frame_ok_def)
  next
    case True
    let ?n = "nat (base + sz + MIN_STACK_OVERHEAD * 4)"
    have n: "length (fm_stack ?s) \<le> ?n" "int ?n = base + sz + 60" using True b by (simp_all add: MIN_STACK_OVERHEAD_def push_frame_eq)
    obtain Os where o: "RelocateOuters (stack_resize ?n nv ?s) = Some ((stack_resize ?n nv ?s)\<lparr>fm_outers := Os\<rparr>)"
        "open_ok ((stack_resize ?n nv ?s)\<lparr>fm_outers := Os\<rparr>)" using relocate_open_ok [OF op' n(1)] by blast
    let ?s1 = "(stack_resize ?n nv ?s)\<lparr>fm_outers := Os\<rparr>"
    have "length (fm_stack ?s1) = ?n" using n(1) by (simp add: stack_resize_def push_frame_eq)
    then have "frame_ok ?s1" using o(2) n(2) b by (simp add: frame_ok_def stack_resize_def MIN_STACK_OVERHEAD_def)
    moreover have "EnterFrame base (base + sz) False nv s = Some (Inr (), ?s1)" using True b(3) o(1) by (simp add: EnterFrame_def push_frame_eq can_enter_def)
    ultimately show ?thesis using n(1) by (simp add: stack_resize_def push_frame_eq)
  qed
qed

lemma LeaveFrame_close:
  assumes "fm_callsstack s = cs @ [ci]" "base = fm_stackbase s - ci_prevstkbase ci"
    "s1 = s\<lparr>fm_callsstack := cs, fm_stackbase := base, fm_top := base + ci_prevtop ci\<rparr>"
    "(if fm_openouters s1 \<noteq> None then do { p \<leftarrow> stk_addr (fm_stackbase s) s1; CloseOuters p s1 } else Some s1) = Some s2"
  shows "LeaveFrame s = null_down (fm_top s) (fm_top s2) s2"
  using assms(1) assms(4) [unfolded assms(3) assms(2)] by (simp add: LeaveFrame_def Let_def del: null_down.simps split del: if_split)

lemma LeaveFrame_ok:
  assumes f: "frame_ok s" and cs: "fm_callsstack s = cs @ [ci]"
    and b: "base = fm_stackbase s - ci_prevstkbase ci" "t = base + ci_prevtop ci" "0 \<le> t" "t \<le> int (length (fm_stack s))"
  shows "\<exists>s'. LeaveFrame s = Some s' \<and> open_ok s' \<and> fm_callsstack s' = cs \<and> fm_stackbase s' = base \<and> fm_top s' = t \<and>
    fm_stack s' = fm_stack (put_slots t (replicate (nat (fm_top s + 1 - t)) VNull) s) \<and> fm_arrays s' = fm_arrays s"
proof -
  let ?s = "s\<lparr>fm_callsstack := cs, fm_stackbase := base, fm_top := t\<rparr>"
  have op: "open_ok ?s" by (rule open_ok_frame [of s]) (use f in \<open>simp_all add: frame_ok_def\<close>)
  obtain Os q where c: "(if fm_openouters ?s \<noteq> None then do { p \<leftarrow> stk_addr (fm_stackbase s) ?s; CloseOuters p ?s } else Some ?s) =
      Some (?s\<lparr>fm_openouters := q, fm_outers := Os\<rparr>)" "open_ok (?s\<lparr>fm_openouters := q, fm_outers := Os\<rparr>)"
  proof (cases "fm_openouters s")
    case None
    then have e: "?s\<lparr>fm_openouters := None, fm_outers := fm_outers s\<rparr> = ?s" by simp
    show ?thesis by (rule that [of "fm_outers s" None], unfold e) (use None op in simp_all)
  next
    case (Some a)
    have "stk_addr (fm_stackbase s) ?s = Some (fm_vals s + nat (fm_stackbase s))" using f by (simp add: stk_addr_def frame_ok_def MIN_STACK_OVERHEAD_def)
    then show ?thesis using close_open_ok [OF op, of "fm_vals s + nat (fm_stackbase s)"] Some that by auto
  qed
  let ?s2 = "?s\<lparr>fm_openouters := q, fm_outers := Os\<rparr>" and ?n = "nat (fm_top s + 1 - t)"
  have st: "in_stack t ?n ?s2" using f b by (simp add: in_stack_def frame_ok_def MIN_STACK_OVERHEAD_def)
  have nd: "null_down (fm_top s) t ?s2 = Some (put_slots t (replicate ?n VNull) ?s2)" by (rule null_down_ok) (use st in auto)
  have "LeaveFrame s = null_down (fm_top s) (fm_top ?s2) ?s2" by (rule LeaveFrame_close [OF cs b(1) _ c(1)]) (simp add: b(2))
  moreover have "open_ok (put_slots t (replicate ?n VNull) ?s2)"
    by (rule open_ok_frame [OF c(2)]) (use st in \<open>auto simp: put_slots_def in_stack_def\<close>)
  ultimately show ?thesis using nd by (auto simp: put_slots_def simp del: null_down.simps)
qed

section \<open>Parameters\<close>

text \<open>What the first slots of the frame of a callee should be, or none if the number of arguments is wrong.\<close>

definition expected_params :: "callee \<Rightarrow> addr \<Rightarrow> sqobject list \<Rightarrow> sqobject list option" where
  "expected_params f aa args =
     (let n = nat (ca_nparameters f); k = n - length args; d = ca_defaultparams f
      in if ca_varparams f then (if length args < n - 1 then None else Some (take (n - 1) args @ [VArray aa]))
         else if length args = n then Some args
         else if length args < n \<and> k \<le> length d then Some (args @ drop (length d - k) d)
         else None)"

definition params_error :: "callee \<Rightarrow> nat \<Rightarrow> vm_error" where
  "params_error f n = (if ca_varparams f then wrong_params ''at least '' (int n) (ca_nparameters f - 1) else wrong_params [] (int n) (ca_nparameters f))"

definition callee_ok :: "callee \<Rightarrow> bool" where
  "callee_ok f \<longleftrightarrow> 1 \<le> ca_nparameters f \<and> ca_nparameters f \<le> ca_stacksize f \<and> int (length (ca_defaultparams f)) \<le> MIN_STACK_OVERHEAD"

lemma stk_set_at: "fm_stack s = L @ x # R \<Longrightarrow> i = int (length L) \<Longrightarrow> stk_set i v s = Some (s\<lparr>fm_stack := L @ v # R\<rparr>)"
  by (simp add: stk_set_def)

lemma stk_gets_at: "fm_stack s = L @ vs @ R \<Longrightarrow> i = int (length L) \<Longrightarrow> n = length vs \<Longrightarrow> stk_gets i n s = Some vs"
  by (subst stk_gets_ok) (simp_all add: in_stack_def)

lemma stk_sets_at: "fm_stack s = L @ us @ R \<Longrightarrow> i = int (length L) \<Longrightarrow> length us = length vs \<Longrightarrow>
    stk_sets i vs s = Some (s\<lparr>fm_stack := L @ vs @ R\<rparr>)"
  by (subst stk_sets_ok) (simp_all add: in_stack_def put_slots_def)

lemma bind_params_error:
  assumes "callee_ok f" "expected_params f aa args = None"
  shows "bind_params f (int (length args)) b aa s = Some (Inl (params_error f (length args)), s)"
  using assms by (auto simp: bind_params_def expected_params_def params_error_def callee_ok_def Let_def split: if_splits)

lemma bind_params_ok:
  assumes f: "callee_ok f" and ps: "expected_params f aa args = Some ps"
    and st: "fm_stack s = L @ args @ R" "MIN_STACK_OVERHEAD \<le> int (length R)" "b = int (length L)"
  shows "\<exists>R' A. bind_params f (int (length args)) b aa s = Some (Inr (), s\<lparr>fm_stack := L @ ps @ R', fm_arrays := A\<rparr>) \<and>
    length (L @ ps @ R') = length (L @ args @ R) \<and> int (length ps) = ca_nparameters f \<and>
    (ca_varparams f \<longrightarrow> A aa = Some (drop (nat (ca_nparameters f) - 1) args)) \<and> (\<not> ca_varparams f \<longrightarrow> A = fm_arrays s)"
proof (cases "ca_varparams f")
  case True
  let ?n = "nat (ca_nparameters f) - 1"
  define us vs where "us = take ?n args" and "vs = drop ?n args"
  have n: "?n \<le> length args" "ps = us @ [VArray aa]" "args = us @ vs" using ps True by (auto simp: expected_params_def Let_def us_def vs_def split: if_splits)
  have l: "length us = ?n" "int ?n = ca_nparameters f - 1" using n(1) f by (auto simp: us_def callee_ok_def)
  then have nv: "nat (int (length args) - (ca_nparameters f - 1)) = length vs" "\<not> int (length args) < ca_nparameters f - 1" using n by auto
  have g: "stk_gets (b + (ca_nparameters f - 1)) (length vs) s = Some vs"
    by (rule stk_gets_at [of s "L @ us" _ R]) (use st n l in simp_all)
  let ?s = "s\<lparr>fm_stack := (L @ us) @ replicate (length vs) VNull @ R\<rparr>"
  have w: "stk_sets (b + (ca_nparameters f - 1)) (replicate (length vs) VNull) s = Some ?s"
    by (rule stk_sets_at [of s "L @ us" vs R]) (use st n l in simp_all)
  obtain x R' where r: "replicate (length vs) VNull @ R = x # R'" using st(2) by (cases "replicate (length vs) VNull @ R") (auto simp: MIN_STACK_OVERHEAD_def)
  have a: "stk_set (b + (ca_nparameters f - 1)) (VArray aa) ?s = Some (?s\<lparr>fm_stack := (L @ us) @ VArray aa # R'\<rparr>)"
    by (rule stk_set_at [of ?s "L @ us" x R']) (use st(3) l r in simp_all)
  have "length (replicate (length vs) VNull @ R) = Suc (length R')" by (simp add: r)
  then have len: "length (L @ ps @ R') = length (L @ args @ R)" using n(2,3) by simp
  have "bind_params f (int (length args)) b aa s = Some (Inr (), s\<lparr>fm_stack := L @ ps @ R', fm_arrays := (fm_arrays s)(aa \<mapsto> vs)\<rparr>)"
    unfolding bind_params_def Let_def nv(1) using True nv(2) g w a n(2) by simp
  then show ?thesis using len True l n(2) by (intro exI [of _ R'] exI [of _ "(fm_arrays s)(aa \<mapsto> vs)"]) (simp add: vs_def)
next
  case False
  show ?thesis
  proof (cases "int (length args) = ca_nparameters f")
    case True
    then have "ps = args" using ps False by (auto simp: expected_params_def Let_def split: if_splits)
    then show ?thesis using True False st by (intro exI [of _ R] exI [of _ "fm_arrays s"]) (simp add: bind_params_def Let_def)
  next
    case ne: False
    let ?d = "ca_defaultparams f" and ?k = "nat (ca_nparameters f) - length args"
    define ds where "ds = drop (length ?d - ?k) ?d"
    have k: "length args < nat (ca_nparameters f)" "?k \<le> length ?d" "ps = args @ ds"
      using ps False ne f by (auto simp: expected_params_def callee_ok_def Let_def ds_def split: if_splits)
    then have l: "length ds = ?k" "int ?k = ca_nparameters f - int (length args)" "nat (int (length ?d) - (ca_nparameters f - int (length args))) = length ?d - ?k"
      by (auto simp: ds_def)
    have "length ds \<le> length R" using k(2) l(1) f st(2) by (simp add: callee_ok_def)
    then have R: "fm_stack s = (L @ args) @ take (length ds) R @ drop (length ds) R" "length (take (length ds) R) = length ds" using st(1) by simp_all
    have "stk_sets (b + int (length args)) ds s = Some (s\<lparr>fm_stack := (L @ args) @ ds @ drop (length ds) R\<rparr>)"
      by (rule stk_sets_at [OF R(1) _ R(2)]) (simp add: st(3))
    moreover have "?d \<noteq> []" "int (length args) < ca_nparameters f" "ca_nparameters f - int (length args) \<le> int (length ?d)" using k l by auto
    ultimately have "bind_params f (int (length args)) b aa s = Some (Inr (), s\<lparr>fm_stack := L @ ps @ drop (length ds) R, fm_arrays := fm_arrays s\<rparr>)"
      unfolding bind_params_def Let_def l(3) ds_def [symmetric] using False k(3) by simp
    moreover have "length (L @ ps @ drop (length ds) R) = length (L @ args @ R)" using k(3) \<open>length ds \<le> length R\<close> by simp
    moreover have "int (length ps) = ca_nparameters f" unfolding k(3) using k(1) l(1) by simp
    ultimately show ?thesis using False by blast
  qed
qed

section \<open>Properties\<close>

definition with_env :: "callee \<Rightarrow> sqobject list \<Rightarrow> sqobject list" where
  "with_env f ps = (case ca_env f of None \<Rightarrow> ps | Some env \<Rightarrow> ps[0 := env])"

definition called_ci :: "callee \<Rightarrow> int \<Rightarrow> int \<Rightarrow> frames \<Rightarrow> callinfo" where
  "called_ci f target b s = (new_ci b s)\<lparr>ci_closure := ca_closure f, ci_ip := 0, ci_target := to_i32 target\<rparr>"

lemma length_with_env [simp]: "length (with_env f ps) = length ps"
  by (simp add: with_env_def split: option.split)

lemma set_env_ok:
  "fm_stack s = L @ ps @ R \<Longrightarrow> ps \<noteq> [] \<Longrightarrow>
    (case ca_env f of None \<Rightarrow> Some s | Some env \<Rightarrow> stk_set (int (length L)) env s) = Some (s\<lparr>fm_stack := L @ with_env f ps @ R\<rparr>)"
  by (cases ps) (simp_all add: with_env_def stk_set_def split: option.split)

lemma upd_ci_last: "fm_callsstack s = cs @ [ci] \<Longrightarrow> upd_ci g s = Some (s\<lparr>fm_callsstack := cs @ [g ci]\<rparr>)"
  by (simp add: upd_ci_def)

lemma set_env_arrays:
  assumes "ps \<noteq> []" "b = int (length L)"
  shows "(case ca_env f of None \<Rightarrow> Some (s\<lparr>fm_stack := L @ ps @ R, fm_arrays := A\<rparr>)
      | Some env \<Rightarrow> stk_set b env (s\<lparr>fm_stack := L @ ps @ R, fm_arrays := A\<rparr>)) = Some (s\<lparr>fm_stack := L @ with_env f ps @ R, fm_arrays := A\<rparr>)"
  unfolding assms(2) using set_env_ok [of "s\<lparr>fm_stack := L @ ps @ R, fm_arrays := A\<rparr>" L ps R f] assms(1) by (cases s) simp

lemma StartCall_overflow:
  assumes bp: "bind_params f args b aa s = Some (Inr (), s\<lparr>fm_stack := L @ ps @ R, fm_arrays := A\<rparr>)" "ps \<noteq> []" "b = int (length L)"
    and op: "length (fm_stack s) = length (L @ ps @ R)" "\<not> can_enter (b + ca_stacksize f) s"
  shows "\<exists>s1. StartCall wr aa ga nv f target args b False s = Some (Inl stack_overflow, s1)"
proof -
  let ?s = "s\<lparr>fm_stack := L @ with_env f ps @ R, fm_arrays := A\<rparr>"
  have "\<not> can_enter (b + ca_stacksize f) ?s" using op by (simp add: can_enter_def)
  from EnterFrame_fails [OF this, of b nv] obtain s1 where "EnterFrame b (b + ca_stacksize f) False nv ?s = Some (Inl stack_overflow, s1)" by blast
  then show ?thesis unfolding StartCall_def by (simp add: bp(1) set_env_arrays [OF bp(2,3), where f = f and s = s and R = R and A = A])
qed

lemma StartCall_bound:
  assumes bp: "bind_params f args b aa s = Some (Inr (), s\<lparr>fm_stack := L @ ps @ R, fm_arrays := A\<rparr>)" "ps \<noteq> []" "b = int (length L)"
    and op: "open_ok s" "length (fm_stack s) = length (L @ ps @ R)" "can_enter (b + ca_stacksize f) s" and f: "\<not> ca_bgenerator f" "0 \<le> ca_stacksize f"
  shows "\<exists>s1 zs. StartCall wr aa ga nv f target args b False s = Some (Inr (), s1) \<and> frame_ok s1 \<and> fm_stackbase s1 = b \<and>
    fm_top s1 = b + ca_stacksize f \<and> fm_callsstack s1 = fm_callsstack s @ [called_ci f target b s] \<and>
    fm_stack s1 = L @ with_env f ps @ R @ zs \<and> fm_arrays s1 = A"
proof -
  let ?s = "s\<lparr>fm_stack := L @ with_env f ps @ R, fm_arrays := A\<rparr>"
  have op': "open_ok ?s" by (rule open_ok_frame [OF op(1)]) (use op(2) in simp_all)
  have "0 \<le> b" by (simp add: bp(3))
  moreover have "can_enter (b + ca_stacksize f) ?s" using op(2,3) by (simp add: can_enter_def)
  ultimately obtain s1 zs where s1:
      "EnterFrame b (b + ca_stacksize f) False nv ?s = Some (Inr (), s1)" "frame_ok s1" "fm_stackbase s1 = b" "fm_top s1 = b + ca_stacksize f"
      "fm_callsstack s1 = fm_callsstack s @ [new_ci b ?s]" "fm_stack s1 = (L @ with_env f ps @ R) @ zs" "fm_arrays s1 = A"
    using EnterFrame_ok [OF op' _ f(2), of b nv] by auto
  let ?s1 = "s1\<lparr>fm_callsstack := fm_callsstack s @ [called_ci f target b s]\<rparr>"
  have "new_ci b ?s = new_ci b s" by (simp add: new_ci_def)
  then have u: "upd_ci (\<lambda>ci. ci\<lparr>ci_closure := ca_closure f, ci_ip := 0, ci_target := to_i32 target\<rparr>) s1 = Some ?s1"
    by (simp add: upd_ci_last [OF s1(5)] called_ci_def)
  note e = set_env_arrays [OF bp(2,3), where f = f and s = s and R = R and A = A]
  have "StartCall wr aa ga nv f target args b False s = Some (Inr (), ?s1)"
    unfolding StartCall_def by (simp add: bp(1) e s1(1) u f(1))
  moreover have "frame_ok ?s1" using s1(2) by (simp add: frame_ok_def open_ok_def)
  ultimately show ?thesis using s1 by (intro exI [of _ ?s1] exI [of _ zs]) simp
qed

lemma StartCall_ok:
  assumes "frame_ok s" "callee_ok f" "\<not> ca_bgenerator f"
    "0 \<le> b" "b + int (length args) \<le> fm_top s" "stk_gets b (length args) s = Some args"
  shows "case expected_params f aa args of
      None \<Rightarrow> StartCall wr aa ga nv f target (int (length args)) b False s = Some (Inl (params_error f (length args)), s)
    | Some ps \<Rightarrow> if \<not> can_enter (b + ca_stacksize f) s
      then \<exists>s1. StartCall wr aa ga nv f target (int (length args)) b False s = Some (Inl stack_overflow, s1)
      else \<exists>s1. StartCall wr aa ga nv f target (int (length args)) b False s = Some (Inr (), s1) \<and> frame_ok s1 \<and>
        fm_stackbase s1 = b \<and> fm_top s1 = b + ca_stacksize f \<and> fm_callsstack s1 = fm_callsstack s @ [called_ci f target b s] \<and>
        stk_gets b (nat (ca_nparameters f)) s1 = Some (with_env f ps) \<and> (\<forall>i. i < b \<longrightarrow> stk_get i s1 = stk_get i s) \<and>
        (ca_varparams f \<longrightarrow> fm_arrays s1 aa = Some (drop (nat (ca_nparameters f) - 1) args)) \<and> length (fm_stack s) \<le> length (fm_stack s1)"
proof (cases "expected_params f aa args")
  case None
  then show ?thesis using bind_params_error [OF assms(2) None] by (simp add: StartCall_def)
next
  case (Some ps)
  define L R where "L = take (nat b) (fm_stack s)" and "R = drop (nat b + length args) (fm_stack s)"
  have in_st: "in_stack b (length args) s" using assms(1,4,5) by (simp add: in_stack_def frame_ok_def MIN_STACK_OVERHEAD_def)
  then have "take (length args) (drop (nat b) (fm_stack s)) = args" using stk_gets_ok assms(6) by force
  then have st: "fm_stack s = L @ args @ R" "b = int (length L)" using in_st assms(4)
    by (simp_all add: L_def R_def in_stack_def) (metis append_take_drop_id drop_drop add.commute)
  have R: "MIN_STACK_OVERHEAD \<le> int (length R)" using assms(1,5) st by (simp add: frame_ok_def)
  obtain R' A where bp: "bind_params f (int (length args)) b aa s = Some (Inr (), s\<lparr>fm_stack := L @ ps @ R', fm_arrays := A\<rparr>)"
      "length (L @ ps @ R') = length (L @ args @ R)" "int (length ps) = ca_nparameters f"
      "ca_varparams f \<longrightarrow> A aa = Some (drop (nat (ca_nparameters f) - 1) args)"
    using bind_params_ok [OF assms(2) Some st(1) R st(2)] by blast
  have ok: "ps \<noteq> []" "0 \<le> ca_stacksize f" "open_ok s" using assms(1,2) bp(3) by (auto simp: callee_ok_def frame_ok_def)
  have len: "length (fm_stack s) = length (L @ ps @ R')" using bp(2) st(1) by simp
  show ?thesis
  proof (cases "can_enter (b + ca_stacksize f) s")
  case False
  then show ?thesis using StartCall_overflow [OF bp(1) ok(1) st(2) len False] Some by simp
next
  case True
  obtain s1 zs where s1: "StartCall wr aa ga nv f target (int (length args)) b False s = Some (Inr (), s1)" "frame_ok s1" "fm_stackbase s1 = b"
      "fm_top s1 = b + ca_stacksize f" "fm_callsstack s1 = fm_callsstack s @ [called_ci f target b s]"
      "fm_stack s1 = L @ with_env f ps @ R' @ zs" "fm_arrays s1 = A"
    using StartCall_bound [OF bp(1) ok(1) st(2) ok(3) len True assms(3) ok(2), of wr ga nv target] by metis
  have "stk_gets b (nat (ca_nparameters f)) s1 = Some (with_env f ps)"
    by (rule stk_gets_at [OF s1(6) st(2)]) (simp add: bp(3) [symmetric])
  moreover have "stk_get i s1 = stk_get i s" if "i < b" for i
    using that st s1(6) by (auto simp: stk_get_def nth_append)
  moreover have "length (fm_stack s) \<le> length (fm_stack s1)" using bp(2) st(1) s1(6) by simp
  ultimately show ?thesis using s1 bp(4) Some True by auto
  qed
qed

text \<open>
  C13. A call of a script function that is not a generator and has at most 15 default parameters (see the finding on
  \<open>StartCall\<close>), from a frame of the interpreter: if the number of arguments does not fit, it fails with the message of the
  code and leaves the stack as it was; otherwise, if a metamethod is running and the stack would have to grow, it fails with a
  stack overflow; in all other cases it starts a frame whose first
  slots are the arguments, followed by the last default values for the missing ones, or, if the function is
  variadic, by an array of the surplus ones; a bound environment replaces \<open>this\<close>. The slots
  below the frame are unchanged, and the open captured variables stay valid when the stack moves.
\<close>

theorem call_binds_parameters:
  assumes "frame_ok s" "callee_ok f" "\<not> ca_bgenerator f"
    "0 \<le> b" "b + int (length args) \<le> fm_top s" "stk_gets b (length args) s = Some args"
  shows "case expected_params f aa args of
      None \<Rightarrow> StartCall wr aa ga nv f target (int (length args)) b False s = Some (Inl (params_error f (length args)), s)
    | Some ps \<Rightarrow> if \<not> can_enter (b + ca_stacksize f) s
      then \<exists>s1. StartCall wr aa ga nv f target (int (length args)) b False s = Some (Inl stack_overflow, s1)
      else \<exists>s1. StartCall wr aa ga nv f target (int (length args)) b False s = Some (Inr (), s1) \<and> frame_ok s1 \<and>
        fm_stackbase s1 = b \<and> fm_top s1 = b + ca_stacksize f \<and> fm_callsstack s1 = fm_callsstack s @ [called_ci f target b s] \<and>
        stk_gets b (nat (ca_nparameters f)) s1 = Some (with_env f ps) \<and> (\<forall>i. i < b \<longrightarrow> stk_get i s1 = stk_get i s) \<and>
        (ca_varparams f \<longrightarrow> fm_arrays s1 aa = Some (drop (nat (ca_nparameters f) - 1) args)) \<and> length (fm_stack s) \<le> length (fm_stack s1)"
  by (rule StartCall_ok [OF assms])

definition demo_caller :: frames where
  "demo_caller = (start_frames 40 1000)\<lparr>fm_stack := [VNull, VNull, VTable 1, VInteger 7] @ replicate 36 VNull, fm_top := 4,
     fm_callsstack := [\<lparr>ci_ip = 3, ci_closure = VClosure 9, ci_generator = None, ci_etraps = 0, ci_prevstkbase = 0, ci_prevtop = 0,
       ci_target = 0, ci_ncalls = 1, ci_root = True\<rparr>]\<rparr>"

definition demo_callee :: callee where
  "demo_callee = \<lparr>ca_closure = VClosure 5, ca_nparameters = 4, ca_stacksize = 100, ca_varparams = False, ca_bgenerator = False,
     ca_defaultparams = [VInteger 1, VInteger 2, VInteger 3], ca_env = None\<rparr>"

lemma demo_frame_ok: "frame_ok demo_caller"
proof -
  have "open_ok demo_caller" unfolding open_ok_def by (rule exI [of _ "[]"]) (simp add: demo_caller_def start_frames_def)
  then show ?thesis by (simp add: frame_ok_def demo_caller_def start_frames_def MIN_STACK_OVERHEAD_def)
qed

lemma demo_args: "stk_gets 2 (length [VTable 1, VInteger 7]) demo_caller = Some [VTable 1, VInteger 7]"
  by (rule stk_gets_at [of _ "[VNull, VNull]" _ "replicate 36 VNull"]) (simp_all add: demo_caller_def)

lemma demo_call_side: "callee_ok demo_callee" "\<not> ca_bgenerator demo_callee" "can_enter t demo_caller" "fm_top demo_caller = 4"
    "expected_params demo_callee aa [VTable 1, VInteger 7] = Some [VTable 1, VInteger 7, VInteger 2, VInteger 3]"
  by (simp_all add: callee_ok_def demo_callee_def demo_caller_def start_frames_def MIN_STACK_OVERHEAD_def expected_params_def can_enter_def)

theorem call_binds_parameters_witness:
  "\<exists>s1. StartCall (\<lambda>_. 0) 50 51 7000 demo_callee 0 2 2 False demo_caller = Some (Inr (), s1) \<and> fm_stackbase s1 = 2 \<and>
    stk_gets 2 4 s1 = Some [VTable 1, VInteger 7, VInteger 2, VInteger 3]"
proof -
  have "2 + int (length [VTable 1, VInteger 7]) \<le> fm_top demo_caller" by (simp add: demo_call_side)
  from call_binds_parameters [OF demo_frame_ok demo_call_side(1,2) _ this demo_args, of "\<lambda>_. 0" 50 51 7000 0]
  show ?thesis unfolding demo_call_side(5) by (auto simp: demo_call_side(3) with_env_def demo_callee_def simp del: stk_gets.simps)
qed

text \<open>
  What the run of a callee from \<open>s1\<close>, where its frame has been started, to \<open>s2\<close>, where it returns, has to keep: the frames below
  its own, and in its own frame the links to the caller. The instruction pointer, the traps, the number of tail calls, all
  slots, the captured variables and the size and the place of the stack may have changed.
\<close>

definition same_links :: "callinfo \<Rightarrow> callinfo \<Rightarrow> bool" where
  "same_links ci ci' \<longleftrightarrow> ci_prevstkbase ci' = ci_prevstkbase ci \<and> ci_prevtop ci' = ci_prevtop ci \<and> ci_target ci' = ci_target ci \<and>
     ci_root ci' = ci_root ci"

definition callee_ran :: "frames \<Rightarrow> frames \<Rightarrow> bool" where
  "callee_ran s1 s2 \<longleftrightarrow> frame_ok s2 \<and> fm_callsstack s2 \<noteq> [] \<and> butlast (fm_callsstack s2) = butlast (fm_callsstack s1) \<and>
     same_links (last (fm_callsstack s1)) (last (fm_callsstack s2)) \<and> fm_stackbase s2 = fm_stackbase s1 \<and>
     length (fm_stack s1) \<le> length (fm_stack s2)"

lemma vm_Return_ok:
  assumes s: "frame_ok s" "fm_callsstack s = cs @ [ci]" "\<not> ci_root ci" "0 \<le> ci_target ci"
    and b: "base = fm_stackbase s - ci_prevstkbase ci" "t = base + ci_prevtop ci" "0 \<le> base" "base + ci_target ci < t" "t + MIN_STACK_OVERHEAD \<le> int (length (fm_stack s))"
    and v: "(if arg0 \<noteq> 0xFF then stk_get (fm_stackbase s + arg1) s else Some VNull) = Some v"
  shows "\<exists>s3. vm_Return arg0 arg1 s = Some (None, s3) \<and> frame_ok s3 \<and> fm_stackbase s3 = base \<and> fm_top s3 = t \<and> fm_callsstack s3 = cs \<and>
    stk_get (base + ci_target ci) s3 = Some v \<and> (\<forall>i. i < t \<longrightarrow> i \<noteq> base + ci_target ci \<longrightarrow> stk_get i s3 = stk_get i s) \<and>
    (\<forall>i. t \<le> i \<longrightarrow> i \<le> fm_top s \<longrightarrow> stk_get i s3 = Some VNull)"
proof -
  let ?k = "nat (base + ci_target ci)" and ?n = "nat (fm_top s + 1 - t)"
  let ?s = "s\<lparr>fm_stack := (fm_stack s)[?k := v]\<rparr>"
  have op: "open_ok ?s" by (rule open_ok_frame [of s]) (use s(1) in \<open>simp_all add: frame_ok_def\<close>)
  then have f: "frame_ok ?s" using s(1) by (simp add: frame_ok_def)
  have k: "?k < length (fm_stack s)" "int ?k = base + ci_target ci" "?k < nat t" using b s(4) by (auto simp: MIN_STACK_OVERHEAD_def)
  have set: "stk_set (base + ci_target ci) v s = Some ?s" using k b(3) s(4) by (simp add: stk_set_def)
  obtain s3 where s3: "LeaveFrame ?s = Some s3" "open_ok s3" "fm_callsstack s3 = cs" "fm_stackbase s3 = base" "fm_top s3 = t"
      "fm_stack s3 = fm_stack (put_slots t (replicate ?n VNull) ?s)"
    using LeaveFrame_ok [OF f, of cs ci base t] s(2,4) b by (auto simp: MIN_STACK_OVERHEAD_def)
  have ret: "vm_Return arg0 arg1 s = Some (None, s3)"
    unfolding vm_Return_def Let_def using s(2-4) v set s3(1) b(1) by simp
  have st: "fm_stack s3 = take (nat t) ((fm_stack s)[?k := v]) @ replicate ?n VNull @ drop (nat t + ?n) ((fm_stack s)[?k := v])"
    using s3(6) by (simp add: put_slots_def)
  have fit: "nat t + ?n \<le> length (fm_stack s)" using s(1) b k by (auto simp: frame_ok_def MIN_STACK_OVERHEAD_def)
  then have len: "length (fm_stack s3) = length (fm_stack s)" by (simp add: st)
  have low: "stk_get i s3 = (if i = base + ci_target ci then Some v else stk_get i s)" if "i < t" for i
    using that len k b(3,5) s(4) by (auto simp: stk_get_def st nth_append nth_list_update MIN_STACK_OVERHEAD_def)
  have high: "stk_get i s3 = Some VNull" if "t \<le> i" "i \<le> fm_top s" for i
    using that len k fit by (auto simp: stk_get_def st nth_append)
  have "frame_ok s3" using s3(2,4,5) b s(4) len by (simp add: frame_ok_def)
  then show ?thesis using ret s3 low high b(4) by auto
qed

text \<open>
  C14. A function that returns restores its caller. After a call that was not a tail call and not of a generator function, and
  whatever the callee did as long as it left the frames below its own and the links of its own frame alone (\<open>callee_ran\<close>:
  its instruction pointer, traps and slots, the captured variables, and the size and place of the stack may have changed), returning gives back the
  frame of the caller: its base, its top and the call stack; the target holds the returned value, and all other slots
  of the caller are as the callee left them. The slots above the top of the caller are null, so that
  nothing the callee referred to is kept alive, and the open captured variables stay valid.
\<close>

theorem return_restores_caller:
  assumes "frame_ok s" "callee_ok f" "\<not> ca_bgenerator f"
    "0 \<le> b" "b + int (length args) \<le> fm_top s" "stk_gets b (length args) s = Some args"
    and "0 \<le> target" "fm_stackbase s + target < fm_top s" "fm_top s < 2147483648"
    and "StartCall wr aa ga nv f target (int (length args)) b False s = Some (Inr (), s1)" "callee_ran s1 s2"
    and "(if arg0 \<noteq> 0xFF then stk_get (b + arg1) s2 else Some VNull) = Some v"
  shows "\<exists>s3. vm_Return arg0 arg1 s2 = Some (None, s3) \<and> frame_ok s3 \<and> fm_stackbase s3 = fm_stackbase s \<and> fm_top s3 = fm_top s \<and>
    fm_callsstack s3 = fm_callsstack s \<and> stk_get (fm_stackbase s + target) s3 = Some v \<and>
    (\<forall>i. i < fm_top s \<longrightarrow> i \<noteq> fm_stackbase s + target \<longrightarrow> stk_get i s3 = stk_get i s2) \<and>
    (\<forall>i. fm_top s \<le> i \<longrightarrow> i \<le> fm_top s2 \<longrightarrow> stk_get i s3 = Some VNull)"
proof -
  let ?ci = "called_ci f target b s"
  define ci2 where "ci2 = last (fm_callsstack s2)"
  have s1: "fm_stackbase s1 = b" "fm_callsstack s1 = fm_callsstack s @ [?ci]" "length (fm_stack s) \<le> length (fm_stack s1)"
    using StartCall_ok [OF assms(1-6), of wr aa ga nv target] assms(10) by (auto split: option.splits if_splits)
  have fr: "0 \<le> fm_stackbase s" "fm_top s + MIN_STACK_OVERHEAD \<le> int (length (fm_stack s))" using assms(1) by (simp_all add: frame_ok_def)
  have s2: "frame_ok s2" "fm_callsstack s2 = fm_callsstack s @ [ci2]" "fm_stackbase s2 = b" "length (fm_stack s) \<le> length (fm_stack s2)" "same_links ?ci ci2"
    using assms(11) s1 append_butlast_last_id [of "fm_callsstack s2"] by (simp_all add: callee_ran_def ci2_def)
  have i32: "ci_prevstkbase ci2 = b - fm_stackbase s" "ci_prevtop ci2 = fm_top s - fm_stackbase s" "ci_target ci2 = target" "\<not> ci_root ci2"
    using s2(5) fr assms(4,5,7-9) by (auto simp: same_links_def called_ci_def new_ci_def to_i32_id)
  have len: "fm_top s + MIN_STACK_OVERHEAD \<le> int (length (fm_stack s2))" using fr(2) s2(4) by simp
  have v: "(if arg0 \<noteq> 0xFF then stk_get (fm_stackbase s2 + arg1) s2 else Some VNull) = Some v" using assms(12) unfolding s2(3) .
  have "0 \<le> ci_target ci2" "fm_stackbase s = fm_stackbase s2 - ci_prevstkbase ci2" "fm_top s = fm_stackbase s + ci_prevtop ci2" "fm_stackbase s + ci_target ci2 < fm_top s"
    using i32 assms(7,8) s2(3) by simp_all
  from vm_Return_ok [OF s2(1,2) i32(4) this(1-3) fr(1) this(4) len v] show ?thesis unfolding i32(3) .
qed

text \<open>A callee that has executed some instructions and changed its slots.\<close>

definition demo_run :: "frames \<Rightarrow> frames" where
  "demo_run s = s\<lparr>fm_stack := (fm_stack s)[3 := VInteger 8],
     fm_callsstack := butlast (fm_callsstack s) @ [(last (fm_callsstack s))\<lparr>ci_ip := 12\<rparr>]\<rparr>"

theorem return_restores_caller_witness:
  "\<exists>s1 s3. StartCall (\<lambda>_. 0) 50 51 7000 demo_callee 0 2 2 False demo_caller = Some (Inr (), s1) \<and> vm_Return 0 1 (demo_run s1) = Some (None, s3) \<and>
    fm_stackbase s3 = 0 \<and> fm_top s3 = 4 \<and> stk_get 0 s3 = Some (VInteger 8)"
proof -
  have top: "2 + int (length [VTable 1, VInteger 7]) \<le> fm_top demo_caller" by (simp add: demo_call_side)
  obtain s1 where s1: "StartCall (\<lambda>_. 0) 50 51 7000 demo_callee 0 (int (length [VTable 1, VInteger 7])) 2 False demo_caller = Some (Inr (), s1)" "frame_ok s1"
      "fm_top s1 = 2 + ca_stacksize demo_callee"
    using StartCall_ok [OF demo_frame_ok demo_call_side(1,2) _ top demo_args, of "\<lambda>_. 0" 50 51 7000 0] unfolding demo_call_side(5)
    by (auto simp: demo_call_side(3) simp del: stk_gets.simps)
  then have "3 < length (fm_stack s1)" by (simp add: frame_ok_def demo_callee_def MIN_STACK_OVERHEAD_def)
  then have "stk_get (2 + 1) (demo_run s1) = Some (VInteger 8)" by (simp add: stk_get_def demo_run_def)
  moreover have "open_ok (demo_run s1)" by (rule open_ok_frame [of s1]) (use s1(2) in \<open>simp_all add: frame_ok_def demo_run_def\<close>)
  then have "callee_ran s1 (demo_run s1)" using s1(2) by (simp add: callee_ran_def frame_ok_def demo_run_def same_links_def)
  ultimately show ?thesis
    using return_restores_caller [OF demo_frame_ok demo_call_side(1,2) _ top demo_args _ _ _ s1(1), of "demo_run s1" 0 1 "VInteger 8"] s1(1)
    by (auto simp: demo_caller_def start_frames_def)
qed

section \<open>Two limits\<close>

text \<open>
  The values of default parameters are written before \<open>EnterFrame\<close> makes room for the frame. Only
  \<open>MIN_STACK_OVERHEAD\<close> slots are sure to be there above the top, and a call that leaves out more parameters may write
  behind the end of the stack.
\<close>

lemma default_parameters_overrun_the_stack:
  defines "s \<equiv> (start_frames 17 1000)\<lparr>fm_top := 2\<rparr>"
    and "f \<equiv> \<lparr>ca_closure = VClosure 5, ca_nparameters = 17, ca_stacksize = 18, ca_varparams = False, ca_bgenerator = False,
       ca_defaultparams = replicate 16 (VInteger 1), ca_env = None\<rparr>"
  shows "frame_ok s" "StartCall wr aa ga nv f 0 1 1 False s = None"
proof -
  have "open_ok s" unfolding open_ok_def s_def by (rule exI [of _ "[]"]) (simp add: start_frames_def)
  then show "frame_ok s" by (simp add: frame_ok_def s_def start_frames_def MIN_STACK_OVERHEAD_def)
  show "StartCall wr aa ga nv f 0 1 1 False s = None"
    by (simp add: StartCall_def bind_params_def f_def s_def start_frames_def stk_set_def numeral_eq_Suc Let_def)
qed

text \<open>
  An error that is caught in the function that raised it does not end the scopes it leaves with \<open>CloseOuters\<close>: a variable of the
  \<open>try\<close> block that a closure captured stays open, and as the variable of the \<open>catch\<close> block takes its
  slot, the closure then sees the error instead of its variable.
\<close>

lemma caught_error_overwrites_captured_variable:
  defines "s \<equiv> (start_frames 40 1000)\<lparr>fm_top := 8, fm_stack := [VNull, VInteger 5] @ replicate 38 VNull,
       fm_callsstack := [(new_ci 0 (start_frames 40 1000))\<lparr>ci_etraps := 1\<rparr>],
       fm_etraps := [\<lparr>et_stackbase = 0, et_stacksize = 8, et_ip = 20, et_extarget = 1\<rparr>]\<rparr>"
  shows "\<exists>s1 s2. FindOuter 1001 7 s = Some (7, s1) \<and> outer_get 7 s1 = Some (VInteger 5) \<and>
    exception_trap (VString ''e'') 8 s1 = Some (True, s2) \<and> outer_get 7 s2 = Some (VString ''e'')"
proof -
  let ?o = "\<lparr>ot_valptr = Some 1001, ot_idx = 1, ot_value = VNull, ot_next = None, ot_uiRef = 2\<rparr>"
  let ?s1 = "s\<lparr>fm_outers := [7 \<mapsto> ?o], fm_openouters := Some 7\<rparr>"
  have 1: "FindOuter 1001 7 s = Some (7, ?s1)"
    by (simp add: FindOuter_def find_open_outer.simps s_def start_frames_def Let_def)
  have 2: "outer_get 7 ?s1 = Some (VInteger 5)" by (simp add: outer_get_def stk_get_def s_def start_frames_def)
  have e: "exception_trap (VString ''e'') 8 ?s1 = restore_trap (VString ''e'') 8 ?s1 \<bind> (\<lambda>s. Some (True, s))"
    by (subst exception_trap.simps) (simp add: s_def start_frames_def new_ci_def Let_def)
  have "\<exists>s2. restore_trap (VString ''e'') 8 ?s1 = Some s2 \<and> outer_get 7 s2 = Some (VString ''e'')"
    by (simp add: restore_trap_def upd_ci_def null_down.simps stk_set_def outer_get_def stk_get_def s_def start_frames_def new_ci_def Let_def)
  then have "\<exists>s2. exception_trap (VString ''e'') 8 ?s1 = Some (True, s2) \<and> outer_get 7 s2 = Some (VString ''e'')" unfolding e by auto
  with 1 2 show ?thesis by blast
qed

end
