(* ===== verification/Sq_Generators_Correct.thy ===== *)
theory Sq_Generators_Correct
  imports Sq_Calls_Correct
begin

text \<open>
  Generators: a generator that is resumed finds the variables of its frame and its exception traps as they were when it
  yielded, wherever the frame is on the stack.
\<close>

section \<open>Moving a frame\<close>

definition shift_trap :: "int \<Rightarrow> exceptiontrap \<Rightarrow> exceptiontrap" where
  "shift_trap d et = et\<lparr>et_stackbase := et_stackbase et + d, et_stacksize := et_stacksize et + d\<rparr>"

lemma shift_trap_shift [simp]: "shift_trap d (shift_trap e et) = shift_trap (d + e) et"
  by (simp add: shift_trap_def add.commute add.left_commute)

lemma move_traps_append: "n = length ts \<Longrightarrow> move_traps n d (us @ ts) vs = Some (us, vs @ map (shift_trap d) (rev ts))"
  by (simp add: move_traps_def shift_trap_def)

definition saved_this :: "(sqobject \<Rightarrow> addr) \<Rightarrow> sqobject \<Rightarrow> sqobject" where
  "saved_this wr v = (if ISREFCOUNTED (sq_type v) then VWeakRef (wr v) else v)"

text \<open>What a generator finds as \<open>this\<close>: an object is only kept by a weak reference, which gives null once it has been released.\<close>

definition resumed_this :: "weakstore \<Rightarrow> (sqobject \<Rightarrow> addr) \<Rightarrow> sqobject \<Rightarrow> sqobject" where
  "resumed_this W wr v = (if ISREFCOUNTED (sq_type v) then W (wr v) else v)"

lemma realval_saved: "realval W (saved_this wr v) = resumed_this W wr v"
  by (cases v) (simp_all add: saved_this_def resumed_this_def realval_def ISREFCOUNTED_def SQOBJECT_REF_COUNTED_def)

text \<open>The frame on the stack: the slots that the generator saves, the rest up to the top, and what is above.\<close>

lemma frame_split:
  assumes "frame_ok s" "n \<le> nat (fm_top s - fm_stackbase s)" "stk_gets (fm_stackbase s) n s = Some vs"
  obtains L us R where "fm_stack s = L @ (vs @ us) @ R" "fm_stackbase s = int (length L)" "length vs = n" "length (vs @ us) = nat (fm_top s - fm_stackbase s)"
proof -
  let ?b = "nat (fm_stackbase s)" and ?m = "nat (fm_top s - fm_stackbase s)"
  have f: "0 \<le> fm_stackbase s" "?b + ?m \<le> length (fm_stack s)" using assms(1) by (auto simp: frame_ok_def MIN_STACK_OVERHEAD_def)
  have vs: "vs = take n (drop ?b (fm_stack s))" using stk_gets_ok [of "fm_stackbase s" n s] assms(2,3) f by (simp add: in_stack_def)
  let ?us = "take (?m - n) (drop (?b + n) (fm_stack s))"
  have "take ?m (drop ?b (fm_stack s)) = vs @ ?us"
    using assms(2) by (simp add: vs take_add [symmetric] add.commute flip: drop_drop)
  then have "fm_stack s = take ?b (fm_stack s) @ (vs @ ?us) @ drop (?b + ?m) (fm_stack s)"
    by (metis append_take_drop_id drop_drop add.commute)
  then show ?thesis by (rule that) (use f assms(2) in \<open>simp_all add: vs\<close>)
qed

lemma Yield_ok:
  assumes st: "fm_stack s = L @ ((this # vs) @ us) @ R" "fm_stackbase s = int (length L)" "length ((this # vs) @ us) = nat (fm_top s - fm_stackbase s)"
    and g: "fm_generators s ga = Some gn" "gn_state gn = eRunning" "gn_etraps gn = []"
    and cs: "fm_callsstack s = cs @ [ci]" and et: "fm_etraps s = es @ ts" "nat (ci_etraps ci) = length ts"
  shows "Yield wr ga (int (Suc (length vs))) s = Some (Inr (), s\<lparr>fm_stack := L @ replicate (length ((this # vs) @ us)) VNull @ R, fm_etraps := es,
    fm_generators := (fm_generators s)(ga \<mapsto> gn\<lparr>gn_stack := saved_this wr this # vs @ replicate (length us) VNull, gn_ci := ci\<lparr>ci_generator := None\<rparr>,
      gn_etraps := map (shift_trap (- fm_stackbase s)) (rev ts), gn_state := eSuspended\<rparr>)\<rparr>)"
proof -
  let ?s = "s\<lparr>fm_stack := L @ replicate (length ((this # vs) @ us)) VNull @ R\<rparr>"
  have a: "stk_get (fm_stackbase s) s = Some this" using st(1,2) by (simp add: stk_get_def)
  have b: "stk_gets (fm_stackbase s + 1) (length vs) s = Some vs" by (rule stk_gets_at [of _ "L @ [this]" _ "us @ R"]) (use st(1,2) in simp_all)
  have c: "stk_sets (fm_stackbase s) (replicate (length ((this # vs) @ us)) VNull) s = Some ?s" by (rule stk_sets_at [OF st(1,2)]) simp
  have d: "move_traps (nat (ci_etraps ci)) (- fm_stackbase s) (es @ ts) [] = Some (es, map (shift_trap (- fm_stackbase s)) (rev ts))"
    using move_traps_append [OF et(2)] by simp
  have n: "nat (int (Suc (length vs)) - 1) = length vs" by simp
  show ?thesis unfolding Yield_def n st(3) [symmetric]
    using a b c d g cs et(1) by (simp add: saved_this_def del: replicate.simps)
qed

lemma Resume_overflow:
  assumes "0 \<le> dest" "dest \<le> 255" "fm_generators s ga = Some gn" "gn_state gn = eSuspended" "\<not> can_enter (fm_top s + int (length (gn_stack gn))) s"
  shows "\<exists>s3. Resume W ga dest nv s = Some (Inl stack_overflow, s3)"
proof -
  obtain s3 where "EnterFrame (fm_top s) (fm_top s + int (length (gn_stack gn))) False nv s = Some (Inl stack_overflow, s3)"
    using EnterFrame_fails [OF assms(5), of "fm_top s" nv] by blast
  then show ?thesis unfolding Resume_def Let_def using assms(1-4) by simp
qed

lemma Resume_ok:
  assumes f: "frame_ok s" "0 \<le> dest" "dest \<le> 255" "can_enter (fm_top s + int (Suc (length ws))) s"
    and g: "fm_generators s ga = Some gn" "gn_state gn = eSuspended" "gn_stack gn = w # ws" "gn_etraps gn = ts" "nat (ci_etraps (gn_ci gn)) = length ts"
  shows "\<exists>s3 L R. Resume W ga dest nv s = Some (Inr (), s3) \<and> frame_ok s3 \<and> fm_stackbase s3 = fm_top s \<and>
    fm_top s3 = fm_top s + int (Suc (length ws)) \<and> fm_top s = int (length L) \<and> fm_stack s3 = L @ (realval W w # ws) @ R \<and>
    fm_callsstack s3 = fm_callsstack s @ [(new_ci (fm_top s) s)\<lparr>ci_generator := Some ga, ci_target := dest, ci_closure := ci_closure (gn_ci gn),
      ci_ip := ci_ip (gn_ci gn), ci_ncalls := ci_ncalls (gn_ci gn), ci_etraps := ci_etraps (gn_ci gn), ci_root := ci_root (gn_ci gn)\<rparr>] \<and>
    fm_etraps s3 = fm_etraps s @ map (shift_trap (fm_top s)) (rev ts) \<and>
    fm_generators s3 = (fm_generators s)(ga \<mapsto> gn\<lparr>gn_stack := w # replicate (length ws) VNull, gn_etraps := [], gn_state := eRunning\<rparr>)"
proof -
  have b: "open_ok s" "0 \<le> fm_top s" using f(1) by (auto simp: frame_ok_def)
  let ?n = "int (Suc (length ws))"
  obtain s1 where s1: "EnterFrame (fm_top s) (fm_top s + ?n) False nv s = Some (Inr (), s1)" "frame_ok s1" "fm_stackbase s1 = fm_top s"
      "fm_top s1 = fm_top s + ?n" "fm_callsstack s1 = fm_callsstack s @ [new_ci (fm_top s) s]" "fm_etraps s1 = fm_etraps s" "fm_generators s1 = fm_generators s"
    using EnterFrame_ok [OF b, of ?n nv] f(4) by auto
  have l: "nat (fm_top s) + Suc (length ws) \<le> length (fm_stack s1)" using s1(2,4) b(2) by (auto simp: frame_ok_def MIN_STACK_OVERHEAD_def)
  define L us R where "L = take (nat (fm_top s)) (fm_stack s1)" and "us = take (Suc (length ws)) (drop (nat (fm_top s)) (fm_stack s1))"
    and "R = drop (nat (fm_top s) + Suc (length ws)) (fm_stack s1)"
  have sp: "fm_stack s1 = L @ us @ R" unfolding L_def us_def R_def by (metis append_take_drop_id drop_drop add.commute)
  have top: "fm_top s = int (length L)" and us: "length us = length (realval W w # ws)" using l b(2) by (simp_all add: L_def us_def)
  let ?g = "\<lambda>ci. ci\<lparr>ci_generator := Some ga, ci_target := dest, ci_closure := ci_closure (gn_ci gn), ci_ip := ci_ip (gn_ci gn),
    ci_ncalls := ci_ncalls (gn_ci gn), ci_etraps := ci_etraps (gn_ci gn), ci_root := ci_root (gn_ci gn)\<rparr>"
  let ?s2 = "s1\<lparr>fm_callsstack := fm_callsstack s @ [?g (new_ci (fm_top s) s)]\<rparr>"
  have u: "upd_ci ?g s1 = Some ?s2" by (rule upd_ci_last [OF s1(5)])
  have t: "move_traps (nat (ci_etraps (gn_ci gn))) (fm_top s) (gn_etraps gn) (fm_etraps ?s2) = Some ([], fm_etraps s @ map (shift_trap (fm_top s)) (rev ts))"
    using move_traps_append [OF g(5), of "fm_top s" "[]"] g(4) s1(6) by simp
  have w: "stk_sets (fm_stackbase ?s2) (realval W w # ws) ?s2 = Some (?s2\<lparr>fm_stack := L @ (realval W w # ws) @ R\<rparr>)"
    by (rule stk_sets_at [of _ _ us]) (use sp s1(3) top us in simp_all)
  let ?s3 = "?s2\<lparr>fm_stack := L @ (realval W w # ws) @ R, fm_etraps := fm_etraps s @ map (shift_trap (fm_top s)) (rev ts),
    fm_generators := (fm_generators s)(ga \<mapsto> gn\<lparr>gn_stack := w # replicate (length ws) VNull, gn_etraps := [], gn_state := eRunning\<rparr>)\<rparr>"
  have "Resume W ga dest nv s = Some (Inr (), ?s3)"
    unfolding Resume_def Let_def using f(2,3) g(1-3) s1(1,7) u t w by (simp del: stk_sets.simps)
  moreover have "open_ok ?s3" by (rule open_ok_frame [of s1]) (use s1(2) sp us in \<open>simp_all add: frame_ok_def\<close>)
  then have "frame_ok ?s3" using s1(2) sp us by (simp add: frame_ok_def)
  ultimately show ?thesis using s1(3,4) top by (intro exI [of _ ?s3] exI [of _ L] exI [of _ R]) simp
qed

section \<open>Property\<close>

text \<open>
  C15. A generator that is resumed goes on in the frame it yielded. Whatever the program did in between, as long as the generator itself was
  neither resumed nor killed, and wherever the stack is by then,
  resuming a generator that has yielded starts a frame above the caller whose first slots, as many as \<open>Yield\<close> was told to save,
  hold the values they had; the instruction pointer, the closure and the exception traps of the frame are the ones it had, the
  traps relative to the new place. The exception is the first slot, \<open>this\<close>: an object is kept by a weak reference only, and
  \<open>this\<close> is what that refers to when the generator is resumed, which is null if the object has been released. If a metamethod is running and
  the stack would have to grow for the frame, resuming fails with a stack overflow.
\<close>

theorem generator_resumes_frame:
  assumes "frame_ok s" "fm_callsstack s = cs @ [ci]" "fm_generators s ga = Some gn" "gn_state gn = eRunning" "gn_etraps gn = []"
    and "fm_etraps s = es @ ts" "nat (ci_etraps ci) = length ts"
    and "Suc (length vs) \<le> nat (fm_top s - fm_stackbase s)" "stk_gets (fm_stackbase s) (Suc (length vs)) s = Some (this # vs)"
    and "Yield wr ga (int (Suc (length vs))) s = Some (r, s1)"
    and "frame_ok s2" "fm_generators s2 ga = fm_generators s1 ga" "0 \<le> dest" "dest \<le> 255"
  shows "r = Inr () \<and> (if \<not> can_enter (fm_top s2 + (fm_top s - fm_stackbase s)) s2 then \<exists>s3. Resume W ga dest nv s2 = Some (Inl stack_overflow, s3)
    else \<exists>s3 ci3. Resume W ga dest nv s2 = Some (Inr (), s3) \<and> frame_ok s3 \<and> fm_stackbase s3 = fm_top s2 \<and>
    fm_top s3 - fm_stackbase s3 = fm_top s - fm_stackbase s \<and> stk_gets (fm_stackbase s3) (Suc (length vs)) s3 = Some (resumed_this W wr this # vs) \<and>
    fm_callsstack s3 = fm_callsstack s2 @ [ci3] \<and> ci_ip ci3 = ci_ip ci \<and> ci_closure ci3 = ci_closure ci \<and> ci_generator ci3 = Some ga \<and> ci_target ci3 = dest \<and>
    ci_etraps ci3 = ci_etraps ci \<and> fm_etraps s3 = fm_etraps s2 @ map (shift_trap (fm_stackbase s3 - fm_stackbase s)) ts \<and>
    map_option gn_state (fm_generators s3 ga) = Some eRunning)"
proof -
  obtain L us R where sp: "fm_stack s = L @ ((this # vs) @ us) @ R" "fm_stackbase s = int (length L)"
      "length ((this # vs) @ us) = nat (fm_top s - fm_stackbase s)" by (rule frame_split [OF assms(1,8,9)])
  let ?gn = "gn\<lparr>gn_stack := saved_this wr this # vs @ replicate (length us) VNull, gn_ci := ci\<lparr>ci_generator := None\<rparr>,
      gn_etraps := map (shift_trap (- fm_stackbase s)) (rev ts), gn_state := eSuspended\<rparr>"
  have y: "r = Inr ()" "fm_generators s1 ga = Some ?gn" using Yield_ok [OF sp assms(3-5) assms(2,6,7), of wr] assms(10) by auto
  then have g: "fm_generators s2 ga = Some ?gn" using assms(12) by simp
  have gn: "gn_state ?gn = eSuspended" "gn_stack ?gn = saved_this wr this # vs @ replicate (length us) VNull"
      "gn_etraps ?gn = map (shift_trap (- fm_stackbase s)) (rev ts)" "nat (ci_etraps (gn_ci ?gn)) = length (map (shift_trap (- fm_stackbase s)) (rev ts))"
    using assms(7) by simp_all
  have sz: "fm_top s - fm_stackbase s = int (Suc (length (vs @ replicate (length us) VNull)))" using sp(3) assms(8) by simp
  show ?thesis
  proof (cases "can_enter (fm_top s2 + (fm_top s - fm_stackbase s)) s2")
  case False
  then have "\<not> can_enter (fm_top s2 + int (length (gn_stack ?gn))) s2" using sz by simp
  from Resume_overflow [OF assms(13,14) g gn(1) this, of W nv] show ?thesis using False y(1) by simp
next
  case True
  from Resume_ok [OF assms(11,13,14) True [unfolded sz] g gn, of W nv] obtain s3 L' R' where r: "Resume W ga dest nv s2 = Some (Inr (), s3)" "frame_ok s3"
      "fm_stackbase s3 = fm_top s2" "fm_top s3 = fm_top s2 + int (Suc (length (vs @ replicate (length us) VNull)))" "fm_top s2 = int (length L')"
      "fm_stack s3 = L' @ (realval W (saved_this wr this) # vs @ replicate (length us) VNull) @ R'"
      "fm_callsstack s3 = fm_callsstack s2 @ [(new_ci (fm_top s2) s2)\<lparr>ci_generator := Some ga, ci_target := dest, ci_closure := ci_closure (gn_ci ?gn),
        ci_ip := ci_ip (gn_ci ?gn), ci_ncalls := ci_ncalls (gn_ci ?gn), ci_etraps := ci_etraps (gn_ci ?gn), ci_root := ci_root (gn_ci ?gn)\<rparr>]"
      "fm_etraps s3 = fm_etraps s2 @ map (shift_trap (fm_top s2)) (rev (map (shift_trap (- fm_stackbase s)) (rev ts)))"
      "\<exists>g. fm_generators s3 ga = Some g \<and> gn_state g = eRunning" by fastforce
  have "fm_stack s3 = L' @ (resumed_this W wr this # vs) @ replicate (length us) VNull @ R'" using r(6) by (simp add: realval_saved)
  then have "stk_gets (fm_stackbase s3) (Suc (length vs)) s3 = Some (resumed_this W wr this # vs)" by (rule stk_gets_at) (use r(3,5) in simp_all)
  moreover have "fm_top s3 - fm_stackbase s3 = fm_top s - fm_stackbase s" using r(3,4) sp(3) assms(8) by simp
  moreover have "map (shift_trap (fm_top s2)) (rev (map (shift_trap (- fm_stackbase s)) (rev ts))) = map (shift_trap (fm_stackbase s3 - fm_stackbase s)) ts"
    using r(3) by (simp add: rev_map o_def)
  ultimately show ?thesis using y(1) r True by auto
  qed
qed

definition demo_generator :: frames where
  "demo_generator = demo_caller\<lparr>fm_generators := [60 \<mapsto> \<lparr>gn_closure = VClosure 9, gn_stack = [], gn_ci = last (fm_callsstack demo_caller),
     gn_etraps = [], gn_state = eRunning\<rparr>], fm_stackbase := 2\<rparr>"

theorem generator_resumes_frame_witness:
  "\<exists>s1 s3. Yield (\<lambda>_. 70) 60 2 demo_generator = Some (Inr (), s1) \<and> Resume ((\<lambda>_. VNull)(70 := VTable 1)) 60 1 1000 s1 = Some (Inr (), s3) \<and>
    fm_stackbase s3 = 4 \<and> stk_gets 4 2 s3 = Some [VTable 1, VInteger 7]"
proof -
  let ?gn = "\<lparr>gn_closure = VClosure 9, gn_stack = [], gn_ci = last (fm_callsstack demo_caller), gn_etraps = [], gn_state = eRunning\<rparr>"
  let ?cs = "fm_callsstack demo_caller"
  have op: "open_ok demo_caller" using demo_frame_ok by (simp add: frame_ok_def)
  have "open_ok demo_generator" by (rule open_ok_frame [OF op]) (simp_all add: demo_generator_def)
  then have f: "frame_ok demo_generator" using demo_frame_ok by (simp add: frame_ok_def demo_generator_def demo_call_side)
  have cs: "fm_callsstack demo_generator = [] @ [last ?cs]" "nat (ci_etraps (last ?cs)) = length []" by (simp_all add: demo_generator_def demo_caller_def)
  have g: "fm_generators demo_generator 60 = Some ?gn" "fm_etraps demo_generator = [] @ []" by (simp_all add: demo_generator_def demo_caller_def start_frames_def)
  have st: "fm_stack demo_generator = [VNull, VNull] @ ([VTable 1, VInteger 7] @ []) @ replicate 36 VNull" "fm_stackbase demo_generator = int (length [VNull, VNull])"
      "fm_top demo_generator = 4" "fm_nmetamethodscall demo_generator = 0"
    by (simp_all add: demo_generator_def demo_caller_def start_frames_def)
  have sl: "Suc (length [VInteger 7]) \<le> nat (fm_top demo_generator - fm_stackbase demo_generator)"
      "length ([VTable 1, VInteger 7] @ []) = nat (fm_top demo_generator - fm_stackbase demo_generator)"
      "stk_gets (fm_stackbase demo_generator) (Suc (length [VInteger 7])) demo_generator = Some [VTable 1, VInteger 7]"
    using st by (simp_all add: stk_get_def)
  obtain s1 where s1: "Yield (\<lambda>_. 70) 60 (int (Suc (length [VInteger 7]))) demo_generator = Some (Inr (), s1)" "fm_top s1 = 4" "fm_nmetamethodscall s1 = 0"
      "fm_vals s1 = fm_vals demo_generator" "fm_outers s1 = fm_outers demo_generator" "fm_openouters s1 = fm_openouters demo_generator"
      "length (fm_stack s1) = length (fm_stack demo_generator)" "fm_stackbase s1 = 2"
    using Yield_ok [OF st(1,2) sl(2) g(1) _ _ cs(1) g(2) cs(2), of "\<lambda>_. 70"] st by simp
  have "open_ok s1" by (rule open_ok_frame [OF \<open>open_ok demo_generator\<close>]) (use s1 in simp_all)
  then have f1: "frame_ok s1" using f s1 st by (simp add: frame_ok_def)
  have "can_enter t s1" for t using s1(3) by (simp add: can_enter_def)
  moreover have "resumed_this ((\<lambda>_. VNull)(70 := VTable 1)) (\<lambda>_. 70) (VTable 1) = VTable 1" by (simp add: resumed_this_def)
  ultimately show ?thesis
    using generator_resumes_frame [OF f cs(1) g(1) _ _ g(2) cs(2) sl(1,3) s1(1) f1 refl, of 1 "(\<lambda>_. VNull)(70 := VTable 1)" 1000] s1
    by (auto simp: numeral_2_eq_2 simp del: stk_gets.simps)
qed

end
