(* ===== verification/Spec2Isabelle.thy ===== *)
theory Spec2Isabelle
  imports Sq_Table_Correct Sq_Strings Sq_Lexer_Correct Sq_FuncState_Correct Sq_Arith_Correct Sq_Serialize_Correct Sq_Array_Correct Sq_Rex_Compile Sq_RefTable_Correct Sq_StringLib_Correct Sq_Format_Correct Sq_Class_Refines Sq_Access_Correct Sq_Collector_Correct Sq_Generators_Correct
begin

text \<open>
  Verification of the Squirrel 3.2 runtime that the repository embeds
  (\<^verbatim>\<open>src/squirrels-sys/squirrel-3.2\<close>): a dynamically typed scripting language with a lexer,
  a one-pass compiler to bytecode, a virtual machine, and native libraries. The model is
  that of the 64-bit build (\<^verbatim>\<open>_SQ64\<close>): integers and hashes are 64-bit words, floats are single
  precision bit patterns, characters are bytes.

  \<^bold>\<open>Parts of the program and the theories that model them.\<close>

  \<^item> \<^verbatim>\<open>Sq_Prelude\<close>: types of the model (machine integers, addresses, the error monad
    \<open>bindE\<close>), and lemmas on words, lists and options that several components share.
  \<^item> \<^verbatim>\<open>Sq_Object\<close>: the tagged values of \<^verbatim>\<open>sqobject.h\<close> and \<^verbatim>\<open>squirrel.h\<close> (\<open>sqobject\<close>, type codes),
    \<open>_realval\<close>, hashing of objects and of strings, \<open>TranslateIndex\<close>. An object that lives in
    the heap is its address; a string is its characters, which is justified by the
    interning theorem of \<^verbatim>\<open>Sq_Strings\<close>.
  \<^item> \<^verbatim>\<open>Sq_Interfaces\<close>: the contracts between components as locales.
  \<^item> \<^verbatim>\<open>Sq_Table\<close>, \<^verbatim>\<open>Sq_Table_Inv\<close>, \<^verbatim>\<open>Sq_Table_Correct\<close>: the hash table of \<^verbatim>\<open>sqtable.cpp\<close> with its
    node array, chains and free pointer (\<open>sqtable\<close>). The invariant of the chains is kept by
    every operation; a run of operations refines a partial map; iteration visits every
    entry once. A table is the dictionary that the lexer and the function state use, through
    an interpretation of the locale of \<^verbatim>\<open>Sq_Interfaces\<close>.
  \<^item> \<^verbatim>\<open>Sq_Strings\<close>: the string table of \<^verbatim>\<open>sqstate.cpp\<close> (\<open>strtab\<close>): interning and release.
  \<^item> \<^verbatim>\<open>Sq_Float\<close>: the numbers of \<open>strtod\<close> and \<open>printf\<close> that the lexer and \<open>ToString\<close> use.
  \<^item> \<^verbatim>\<open>Sq_Lexer\<close>, \<^verbatim>\<open>Sq_Lexer_Correct\<close>: \<^verbatim>\<open>sqlexer.cpp\<close>. The state is the record \<open>lexer\<close>; a lexing
    error is a value. Termination on every input, and round trips of the literals.
  \<^item> \<^verbatim>\<open>Sq_FuncState\<close>, \<^verbatim>\<open>Sq_FuncState_Correct\<close>: \<^verbatim>\<open>sqfuncstate.cpp\<close>, the part of the compiler
    that allocates registers, literals, local and captured variables and emits
    instructions with the peephole optimiser.
  \<^item> \<^verbatim>\<open>Sq_Arith\<close>, \<^verbatim>\<open>Sq_Arith_Correct\<close>: the operators of \<^verbatim>\<open>sqvm.cpp\<close> (arithmetic, bitwise,
    comparison, concatenation, conversion to strings), with the call of a metamethod as a
    parameter.
  \<^item> \<^verbatim>\<open>Sq_Bytes\<close>, \<^verbatim>\<open>Sq_Blob\<close>, \<^verbatim>\<open>Sq_Blob_Correct\<close>: the blob of \<^verbatim>\<open>sqstdblobimpl.h\<close> and the native
    functions of \<^verbatim>\<open>sqstdblob.cpp\<close> and \<^verbatim>\<open>sqstdstream.cpp\<close> on it. A blob refines a file of bytes.
  \<^item> \<^verbatim>\<open>Sq_Serialize\<close>, \<^verbatim>\<open>Sq_Serialize_Correct\<close>: saving and loading of closures in \<^verbatim>\<open>sqobject.cpp\<close>
    and \<^verbatim>\<open>sqapi.cpp\<close>, over arbitrary read and write callbacks; the locale of a closure stream
    is interpreted on the blob.
  \<^item> \<^verbatim>\<open>Sq_Array\<close>, \<^verbatim>\<open>Sq_Array_Correct\<close>: the vector template of \<^verbatim>\<open>squtils.h\<close>, \<open>SQArray\<close>, and the
    native functions of arrays in \<^verbatim>\<open>sqbaselib.cpp\<close>, with callbacks into scripts as a parameter
    that may change the arrays. Arrays refine lists as long as they are shorter than half of the
    address space; heap sort sorts.
  \<^item> \<^verbatim>\<open>Sq_Rex\<close>, \<^verbatim>\<open>Sq_Rex_Correct\<close>, \<^verbatim>\<open>Sq_Rex_Parser\<close>, \<^verbatim>\<open>Sq_Rex_Compile\<close>: \<^verbatim>\<open>sqstdrex.cpp\<close>. The parser
    fills a list of nodes linked by index, and the matcher walks over it. A pattern that is
    accepted is in the grammar and its nodes represent the syntax tree; matching and searching
    end, stay inside the nodes, and answer only what the meaning of the tree allows.
  \<^item> \<^verbatim>\<open>Sq_RefTable\<close>, \<^verbatim>\<open>Sq_RefTable_Correct\<close>: the reference table of \<^verbatim>\<open>sqstate.cpp\<close> (\<open>reftable\<close>, with its
    chains and its list of free nodes) and the API functions on it. It refines a counter,
    the locale \<open>ref_counter\<close>.
  \<^item> \<^verbatim>\<open>Sq_StringLib\<close>, \<^verbatim>\<open>Sq_StringLib_Correct\<close>, \<^verbatim>\<open>Sq_Format\<close>, \<^verbatim>\<open>Sq_Format_Correct\<close>: \<^verbatim>\<open>sqstdstring.cpp\<close>.
    What the functions return, that escaped text is read back by the lexer (and when it fits
    the scratch pad), and that formatting stays inside of its memory; the conversions of \<open>snprintf\<close> are part of the model.
  \<^item> \<^verbatim>\<open>Sq_Simulation\<close>: runs of operations and the locales \<open>relational_simulation\<close> and
    \<open>simulation\<close>, which lift a step-wise simulation to runs; they are interpreted for the reference
    table, for classes and for captured variables.
  \<^item> \<^verbatim>\<open>Sq_Class\<close>, \<^verbatim>\<open>Sq_ClassApi\<close>, \<^verbatim>\<open>Sq_Class_Correct\<close>, \<^verbatim>\<open>Sq_Class_Refines\<close>: \<^verbatim>\<open>sqclass.h\<close>, \<^verbatim>\<open>sqclass.cpp\<close>
    and the functions of \<^verbatim>\<open>sqapi.cpp\<close> on classes and instances, over a heap of objects
    (\<open>sqheap\<close>). A class keeps a table of tagged indices into its two vectors of members. Classes
    and instances refine dictionaries from names to members.
  \<^item> \<^verbatim>\<open>Sq_Access\<close>, \<^verbatim>\<open>Sq_Access_Correct\<close>: reading, writing, making, deleting and cloning in
    \<^verbatim>\<open>sqvm.cpp\<close> with delegates, metamethods, default delegates and the root table; the call of a
    function is a parameter. Delegation stays acyclic, accesses follow the delegates and return.
  \<^item> \<^verbatim>\<open>Sq_Links\<close>, \<^verbatim>\<open>Sq_Collector\<close>, \<^verbatim>\<open>Sq_Collector_Correct\<close>: the chain of collectable objects of
    \<^verbatim>\<open>sqstate.cpp\<close>, the functions \<open>Mark\<close> of \<^verbatim>\<open>sqobject.cpp\<close>, and \<open>ResurrectUnreachable\<close>. Marking
    is a \<open>partial_function (option)\<close>, proved to return; what it leaves on the chain is what no root
    reaches.
  \<^item> \<^verbatim>\<open>Sq_Frames\<close>: the stack of the virtual machine with its call frames, captured variables,
    generators, calls of script functions and the unwinding after an error (\<^verbatim>\<open>sqvm.cpp\<close>,
    \<^verbatim>\<open>sqclosure.h\<close>, \<^verbatim>\<open>sqobject.cpp\<close>). A slot has an address, which changes when the stack grows.
    \<^verbatim>\<open>Sq_Frames_Correct\<close>: captured variables refine shared cells. \<^verbatim>\<open>Sq_Calls_Correct\<close>: parameters
    reach the callee, returning restores the caller. \<^verbatim>\<open>Sq_Generators_Correct\<close>: a resumed generator
    finds its frame.

  \<^bold>\<open>Conventions.\<close> One HOL function per C++ function, with the name of the source where it is
  free; a native function has the suffix \<open>_fn\<close> when the class method has the same name.
  Errors (\<open>sq_throwerror\<close>, \<open>Raise_Error\<close>, the error callback of the lexer and the compiler)
  are the left side of a sum. An assertion that fails, an access outside of a block or
  another undefined behaviour is a value of its own (\<open>None\<close>, \<open>BadMemory\<close>, \<open>FS_Assert\<close>,
  \<open>Trap\<close>, \<open>Overflow\<close>), so that theorems have to show its absence, or state the condition under
  which it is absent. A request for memory is taken to succeed. A size that a script can give
  (of an array, of a blob) is kept at its width, also where the code multiplies it; the sizes
  of tables, which grow with their entries, are natural numbers. Loops whose end needs an argument
  are \<open>function\<close>s with a termination proof. Fuel occurs in a few places: the rehashing of a
  table calls itself through a parameter, and one level is proved to be enough; loading a
  closure is bounded by the nesting depth, and the length of the stream is enough; the
  parser of regular expressions has twice the length of the pattern, and the matcher the
  depth \<open>(n + 1)\<^sup>2\<close> for \<open>n\<close> nodes, and the theorems show that neither runs out; a walk along a
  chain of the reference table is bounded by the number of nodes. The walks along the bases of
  a class and along delegates are \<open>partial_function (option)\<close>s, proved to return in a valid heap.

  \<^bold>\<open>Not modelled.\<close> The parser and code generator \<^verbatim>\<open>sqcompiler.cpp\<close>, and the
  dispatch of instructions, calls of native functions and coroutines of \<^verbatim>\<open>sqvm.cpp\<close>, which need the
  whole machine state; the sweep of the collector, which runs finalizers and cascades of releases;
  files, system calls, the debugger and the interpreter front end, which only call the operating
  system or the API; the Rust wrapper.
\<close>

end
